(* ===== verification/As_Prelude.thy ===== *)
theory As_Prelude
  imports Main "HOL-Library.Word" "HOL-Library.Char_ord" "HOL-Library.List_Lexorder"
begin

text \<open>
  Shared vocabulary of the development: the error codes of \<^verbatim>\<open>include/astools.h\<close>, C strings as
  lists of bytes that stop before the terminating NUL, the ASCII classes every parser of the
  library tests by hand, the limits of the C integer types, and the two interfaces (locales) that
  several components implement: a codec with a round trip, and a three-way comparator.
\<close>

section \<open>Error codes and results\<close>

text \<open>The enumeration \<open>astools_err\<close>, in its order.\<close>

datatype astools_err =
    ASTOOLS_OK
  | ASTOOLS_ERR_IO
  | ASTOOLS_ERR_PARSE
  | ASTOOLS_ERR_CONFIG
  | ASTOOLS_ERR_NOT_FOUND
  | ASTOOLS_ERR_INVALID
  | ASTOOLS_ERR_DENIED
  | ASTOOLS_ERR_TIMEOUT
  | ASTOOLS_ERR_CANCELLED
  | ASTOOLS_ERR_TOOL
  | ASTOOLS_ERR_PROTOCOL
  | ASTOOLS_ERR_UNSUPPORTED
  | ASTOOLS_ERR_BUSY
  | ASTOOLS_ERR_NOMEM

text \<open>A fallible operation returns its error code on the left, its result on the right.\<close>

type_synonym 'a res = "astools_err + 'a"

definition bind_res :: "'a res \<Rightarrow> ('a \<Rightarrow> 'b res) \<Rightarrow> 'b res" where
  "bind_res r f = (case r of Inl e \<Rightarrow> Inl e | Inr x \<Rightarrow> f x)"

lemma bind_res_simps [simp]:
  "bind_res (Inl e) f = Inl e"
  "bind_res (Inr x) f = f x"
  by (simp_all add: bind_res_def)

lemma bind_res_Inr_iff:
  "bind_res r f = Inr y \<longleftrightarrow> (\<exists>x. r = Inr x \<and> f x = Inr y)"
  by (cases r) auto

section \<open>C integers\<close>

type_synonym byte = "8 word"

definition INT64_MAX :: int where
  "INT64_MAX = 9223372036854775807"

definition INT64_MIN :: int where
  "INT64_MIN = - 9223372036854775808"

definition SIZE_MAX :: nat where
  "SIZE_MAX = 18446744073709551615"

definition INT_MAX :: nat where
  "INT_MAX = 2147483647"

lemma int_div_less_iff: "0 < k \<Longrightarrow> a div k < n \<longleftrightarrow> a < n * (k :: int)"
proof
  assume k: "0 < k" and "a div k < n"
  then have "(a div k + 1) * k \<le> n * k" by (intro mult_right_mono) simp_all
  moreover have "a mod k < k" using k by simp
  ultimately show "a < n * k" using div_mult_mod_eq [of a k] by (simp only: distrib_right)
next
  assume k: "0 < k" and lt: "a < n * k"
  show "a div k < n"
  proof (rule ccontr)
    assume "\<not> a div k < n"
    then have "n * k \<le> a div k * k" using k by (intro mult_right_mono) simp_all
    also have "\<dots> \<le> a"
      using div_mult_mod_eq [of a k] pos_mod_sign [OF k, of a] by linarith
    finally show False using lt by simp
  qed
qed

definition int64_ok :: "int \<Rightarrow> bool" where
  "int64_ok i \<longleftrightarrow> INT64_MIN \<le> i \<and> i \<le> INT64_MAX"

lemma bit_byte_beyond: "8 \<le> n \<Longrightarrow> \<not> bit (x :: byte) n"
  by (auto dest: bit_imp_le_length)

lemma byte_eqI:
  assumes "bit a 0 = bit b 0" "bit a 1 = bit b 1" "bit a 2 = bit b 2" "bit a 3 = bit b 3"
    "bit a 4 = bit b 4" "bit a 5 = bit b 5" "bit a 6 = bit b 6" "bit a 7 = bit b 7"
  shows "a = (b :: byte)"
proof (rule bit_eqI)
  fix n :: nat
  have "n = 0 \<or> n = 1 \<or> n = 2 \<or> n = 3 \<or> n = 4 \<or> n = 5 \<or> n = 6 \<or> n = 7 \<or> 8 \<le> n" by auto
  with assms bit_byte_beyond show "bit a n = bit b n" by blast
qed

section \<open>C strings\<close>

text \<open>
  A C string is the list of its bytes before the terminating NUL. \<open>cget s i\<close> is \<open>s[i]\<close>, which reads
  the NUL at the end of the string; \<open>cur p\<close> is \<open>*p\<close> for a cursor \<open>p\<close> represented by the
  remaining suffix of the string.
\<close>

definition NUL :: char where
  "NUL = CHR 0x00"

definition cget :: "string \<Rightarrow> nat \<Rightarrow> char" where
  "cget s i = (if i < length s then s ! i else NUL)"

fun cur :: "string \<Rightarrow> char" where
  "cur [] = NUL"
| "cur (c # _) = c"

definition nul_free :: "string \<Rightarrow> bool" where
  "nul_free s \<longleftrightarrow> NUL \<notin> set s"

lemma nul_free_simps [simp]:
  "nul_free []"
  "nul_free (c # s) \<longleftrightarrow> c \<noteq> NUL \<and> nul_free s"
  "nul_free (s @ t) \<longleftrightarrow> nul_free s \<and> nul_free t"
  by (auto simp: nul_free_def)

lemma cget_simps [simp]:
  "cget [] i = NUL"
  "cget (c # s) 0 = c"
  "cget (c # s) (Suc i) = cget s i"
  "cget (c # s) (numeral k) = cget s (pred_numeral k)"
  by (simp_all add: cget_def numeral_eq_Suc)

lemma cur_eq_cget: "cur s = cget s 0"
  by (cases s) (simp_all add: cget_def)

lemma cur_NUL_iff: "nul_free s \<Longrightarrow> cur s = NUL \<longleftrightarrow> s = []"
  by (cases s) auto

lemma cget_append:
  "cget (s @ t) i = (if i < length s then s ! i else cget t (i - length s))"
  by (auto simp: cget_def nth_append)

section \<open>ASCII classes\<close>

definition chcode :: "char \<Rightarrow> nat" where
  "chcode c = of_char c"

definition is_digit :: "char \<Rightarrow> bool" where
  "is_digit c \<longleftrightarrow> 48 \<le> chcode c \<and> chcode c \<le> 57"

definition is_lower :: "char \<Rightarrow> bool" where
  "is_lower c \<longleftrightarrow> 97 \<le> chcode c \<and> chcode c \<le> 122"

definition is_upper :: "char \<Rightarrow> bool" where
  "is_upper c \<longleftrightarrow> 65 \<le> chcode c \<and> chcode c \<le> 90"

definition digit_val :: "char \<Rightarrow> nat" where
  "digit_val c = chcode c - 48"

definition digit_char :: "nat \<Rightarrow> char" where
  "digit_char n = char_of (48 + n)"

lemma chcode_lt [simp]: "chcode c < 256"
proof -
  have "chcode c = of_char c mod 256"
    by (simp add: chcode_def)
  then show ?thesis by simp
qed

lemma chcode_inj: "chcode c = chcode d \<Longrightarrow> c = d"
  by (simp add: chcode_def)

lemma char_of_chcode [simp]: "char_of (chcode c) = c"
  by (simp add: chcode_def)

lemma chcode_char_of [simp]: "n < 256 \<Longrightarrow> chcode (char_of n) = n"
  by (simp add: chcode_def)

lemma chcode_digit_char: "n < 10 \<Longrightarrow> chcode (digit_char n) = 48 + n"
  by (simp add: digit_char_def)

lemma chcode_NUL [simp]: "chcode NUL = 0"
  by (simp add: NUL_def chcode_def)

lemma digit_char_props [simp]:
  assumes "n < 10"
  shows "is_digit (digit_char n)" "digit_val (digit_char n) = n" "digit_char n \<noteq> NUL"
  using assms by (auto simp: is_digit_def digit_val_def chcode_digit_char dest: arg_cong [where f = chcode])

lemma digit_val_lt: "is_digit c \<Longrightarrow> digit_val c < 10"
  by (auto simp: is_digit_def digit_val_def)

lemma digit_char_val [simp]: "is_digit c \<Longrightarrow> digit_char (digit_val c) = c"
  by (simp add: is_digit_def digit_val_def digit_char_def)

lemma not_digit_NUL [simp]: "\<not> is_digit NUL"
  by (simp add: is_digit_def NUL_def chcode_def)

section \<open>Decimal digits\<close>

text \<open>The value of a run of decimal digits, most significant first.\<close>

definition dec_val :: "string \<Rightarrow> nat" where
  "dec_val ds = foldl (\<lambda>v c. v * 10 + digit_val c) 0 ds"

lemma dec_val_Nil [simp]: "dec_val [] = 0"
  by (simp add: dec_val_def)

lemma dec_val_snoc [simp]: "dec_val (ds @ [c]) = dec_val ds * 10 + digit_val c"
  by (simp add: dec_val_def)

lemma dec_val_append: "dec_val (ds @ es) = dec_val ds * 10 ^ length es + dec_val es"
  by (induction es rule: rev_induct) (simp_all add: algebra_simps flip: append_assoc)

lemma dec_val_single [simp]: "dec_val [c] = digit_val c"
  by (simp add: dec_val_def)

lemma dec_val_Cons: "dec_val (c # ds) = digit_val c * 10 ^ length ds + dec_val ds"
  using dec_val_append [of "[c]" ds] by simp

lemma dec_val_lt: "list_all is_digit ds \<Longrightarrow> dec_val ds < 10 ^ length ds"
proof (induction ds rule: rev_induct)
  case (snoc c ds)
  then have "dec_val ds + 1 \<le> 10 ^ length ds" "digit_val c < 10"
    by (simp_all add: digit_val_lt)
  then show ?case by simp
qed simp

text \<open>The decimal numeral that \<open>printf\<close> writes for \<open>%lld\<close> of a non-negative value.\<close>

fun dec_str :: "nat \<Rightarrow> string" where
  "dec_str n = (if n < 10 then [digit_char n] else dec_str (n div 10) @ [digit_char (n mod 10)])"

declare dec_str.simps [simp del]

lemma dec_str_digits [simp]: "list_all is_digit (dec_str n)"
  by (induction n rule: dec_str.induct) (subst dec_str.simps, simp)

lemma dec_val_dec_str [simp]: "dec_val (dec_str n) = n"
  by (induction n rule: dec_str.induct) (subst dec_str.simps, simp)

lemma dec_str_nonempty [simp]: "dec_str n \<noteq> []"
  by (subst dec_str.simps) simp

lemma length_dec_str_le: "0 < k \<Longrightarrow> n < 10 ^ k \<Longrightarrow> length (dec_str n) \<le> k"
proof (induction k arbitrary: n)
  case (Suc k)
  show ?case
  proof (cases "n < 10")
    case True
    then show ?thesis by (subst dec_str.simps) simp
  next
    case False
    with Suc.prems have "n div 10 < 10 ^ k" "0 < k"
      by (auto simp: less_mult_imp_div_less mult.commute intro!: gr0I)
    then have "length (dec_str (n div 10)) \<le> k" by (rule Suc.IH [rotated])
    then show ?thesis using False by (subst dec_str.simps) simp
  qed
qed simp

lemma cur_append [simp]: "s \<noteq> [] \<Longrightarrow> cur (s @ t) = cur s"
  by (cases s) auto

lemma tl_append_ne [simp]: "s \<noteq> [] \<Longrightarrow> tl (s @ t) = tl s @ t"
  by (cases s) auto

lemma digits_cur [simp]: "list_all is_digit s \<Longrightarrow> s \<noteq> [] \<Longrightarrow> is_digit (cur s)"
  by (cases s) auto

section \<open>Interfaces\<close>

text \<open>
  A codec: an encoder of the values that satisfy \<open>ok\<close> and a partial decoder that inverts it.
  Canonical codecs have one text per value.
\<close>

locale codec =
  fixes enc :: "'a \<Rightarrow> 'b" and dec :: "'b \<Rightarrow> 'a option" and ok :: "'a \<Rightarrow> bool"
  assumes dec_enc: "ok x \<Longrightarrow> dec (enc x) = Some x"
begin

lemma enc_inj: "ok x \<Longrightarrow> ok y \<Longrightarrow> enc x = enc y \<Longrightarrow> x = y"
  by (metis dec_enc option.inject)

lemma enc_inj_on: "inj_on enc {x. ok x}"
  by (rule inj_onI) (metis enc_inj mem_Collect_eq)

lemma dec_onto: "ok x \<Longrightarrow> \<exists>t. dec t = Some x"
  using dec_enc by blast

end

locale canonical_codec = codec +
  assumes enc_dec: "dec t = Some x \<Longrightarrow> ok x \<and> enc x = t"
begin

lemma dec_iff: "dec t = Some x \<longleftrightarrow> ok x \<and> enc x = t"
  using enc_dec dec_enc by blast

lemma dec_inj: "dec s = Some x \<Longrightarrow> dec t = Some x \<Longrightarrow> s = t"
  using enc_dec by blast

lemma dec_None_iff: "dec t = None \<longleftrightarrow> (\<forall>x. ok x \<longrightarrow> enc x \<noteq> t)"
  by (metis dec_iff not_Some_eq)

end

text \<open>
  A three-way comparator, as C's \<open>int cmp(a, b)\<close>: only the sign of its value counts.
\<close>

locale comparator =
  fixes cmp :: "'a \<Rightarrow> 'a \<Rightarrow> int"
  assumes cmp_antisym: "sgn (cmp a b) = - sgn (cmp b a)"
    and cmp_trans: "cmp a b \<le> 0 \<Longrightarrow> cmp b c \<le> 0 \<Longrightarrow> cmp a c \<le> 0"
begin

lemma cmp_refl: "cmp a a = 0"
  using cmp_antisym [of a a] by (simp add: sgn_if split: if_splits)

lemma cmp_pos_iff: "cmp a b > 0 \<longleftrightarrow> cmp b a < 0"
  using cmp_antisym [of a b] by (simp add: sgn_if split: if_splits)

lemma cmp_nonpos_iff: "cmp a b \<le> 0 \<longleftrightarrow> cmp b a \<ge> 0"
  using cmp_antisym [of a b] by (simp add: sgn_if split: if_splits)

lemma cmp_total: "cmp a b \<le> 0 \<or> cmp b a \<le> 0"
  using cmp_nonpos_iff [of a b] by linarith

lemma cmp_zero_sym: "cmp a b = 0 \<longleftrightarrow> cmp b a = 0"
  using cmp_antisym [of a b] by (simp add: sgn_if split: if_splits)

lemma cmp_zero_trans: "cmp a b = 0 \<Longrightarrow> cmp b c = 0 \<Longrightarrow> cmp a c = 0"
  using cmp_trans [of a b c] cmp_trans [of c b a] cmp_zero_sym [of a b] cmp_zero_sym [of b c]
    cmp_nonpos_iff [of c a] by linarith

lemma cmp_less_trans: "cmp a b > 0 \<Longrightarrow> cmp b c \<ge> 0 \<Longrightarrow> cmp a c > 0"
proof (rule ccontr)
  assume ab: "cmp a b > 0" and bc: "cmp b c \<ge> 0" and "\<not> cmp a c > 0"
  then have "cmp a c \<le> 0" by simp
  moreover have "cmp c b \<le> 0" using bc cmp_nonpos_iff [of c b] by simp
  ultimately have "cmp a b \<le> 0" by (rule cmp_trans)
  with ab show False by simp
qed

end

end
