(* ===== verification/As_Util.thy ===== *)
theory As_Util
  imports As_Prelude
begin

unbundle bit_operations_syntax

text \<open>
  \<^verbatim>\<open>src/util.c\<close>: the growable buffer with its allocation discipline, the string helpers, FNV-1a
  and the slug test. The buffer is a record of a heap block, a length and a
  capacity; its contract is that appending is list append on the contents, that the contents are
  NUL-terminated inside the block, and that a failed allocation leaves it untouched.
\<close>

section \<open>Growable buffer\<close>

text \<open>
  What the allocator does is a parameter: \<open>alloc_ok m n\<close> says whether a request for \<open>n\<close> bytes
  succeeds, \<open>junk m\<close> is what fresh memory holds.
\<close>

record mem =
  alloc_ok :: "nat \<Rightarrow> bool"
  junk :: char

record astools_buf =
  bdata :: "string option"
  blen :: nat
  bcap :: nat

definition astools_buf_init :: astools_buf where
  "astools_buf_init = \<lparr>bdata = None, blen = 0, bcap = 0\<rparr>"

definition astools_buf_free :: "astools_buf \<Rightarrow> astools_buf" where
  "astools_buf_free b = b\<lparr>bdata := None, blen := 0, bcap := 0\<rparr>"

definition realloc_block :: "mem \<Rightarrow> string option \<Rightarrow> nat \<Rightarrow> string" where
  "realloc_block m old n =
     (let s = (case old of None \<Rightarrow> [] | Some s \<Rightarrow> s)
      in take n s @ replicate (n - length s) (junk m))"

definition write_block :: "string \<Rightarrow> nat \<Rightarrow> string \<Rightarrow> string" where
  "write_block blk off s = take off blk @ s @ drop (off + length s) blk"

text \<open>The doubling loop; a capacity of 0 does not occur (the caller starts at 64).\<close>

function grow_cap :: "nat \<Rightarrow> nat \<Rightarrow> nat" where
  "grow_cap cap need =
     (if cap = 0 \<or> need \<le> cap then cap
      else if cap > SIZE_MAX div 2 then need
      else grow_cap (cap * 2) need)"
  by pat_completeness auto
termination
  by (relation "measure (\<lambda>(cap, need). need - cap)") auto

declare grow_cap.simps [simp del]

definition buf_reserve :: "mem \<Rightarrow> astools_buf \<Rightarrow> nat \<Rightarrow> astools_err \<times> astools_buf" where
  "buf_reserve m b extra =
     (if extra > SIZE_MAX - blen b - 1 then (ASTOOLS_ERR_NOMEM, b)
      else let need = blen b + extra + 1 in
        if need \<le> bcap b then (ASTOOLS_OK, b)
        else let cap = grow_cap (if bcap b \<noteq> 0 then bcap b else 64) need in
          if \<not> alloc_ok m cap then (ASTOOLS_ERR_NOMEM, b)
          else (ASTOOLS_OK, b\<lparr>bdata := Some (realloc_block m (bdata b) cap), bcap := cap\<rparr>))"

definition astools_buf_append ::
  "mem \<Rightarrow> astools_buf \<Rightarrow> string option \<Rightarrow> nat \<Rightarrow> astools_err \<times> astools_buf" where
  "astools_buf_append m b data len =
     (if data = None \<and> len > 0 then (ASTOOLS_ERR_INVALID, b)
      else case buf_reserve m b len of (e, b1) \<Rightarrow>
        if e \<noteq> ASTOOLS_OK then (e, b1)
        else let src = (case data of None \<Rightarrow> [] | Some s \<Rightarrow> take len s);
                 blk = write_block (the (bdata b1)) (blen b1) src;
                 n = blen b1 + len
             in (ASTOOLS_OK, b1\<lparr>bdata := Some (write_block blk n [NUL]), blen := n\<rparr>))"

definition astools_buf_appends ::
  "mem \<Rightarrow> astools_buf \<Rightarrow> string option \<Rightarrow> astools_err \<times> astools_buf" where
  "astools_buf_appends m b s =
     (case s of None \<Rightarrow> (ASTOOLS_ERR_INVALID, b)
      | Some t \<Rightarrow> astools_buf_append m b (Some t) (length t))"

definition astools_buf_appendc :: "mem \<Rightarrow> astools_buf \<Rightarrow> char \<Rightarrow> astools_err \<times> astools_buf" where
  "astools_buf_appendc m b ch = astools_buf_append m b (Some [ch]) 1"

text \<open>\<open>text\<close> is what \<open>vsnprintf\<close> renders; a negative length (an encoding error) is \<open>None\<close>.\<close>

definition astools_buf_printf ::
  "mem \<Rightarrow> astools_buf \<Rightarrow> string option \<Rightarrow> astools_err \<times> astools_buf" where
  "astools_buf_printf m b text =
     (case text of None \<Rightarrow> (ASTOOLS_ERR_INVALID, b)
      | Some t \<Rightarrow>
         (case buf_reserve m b (length t) of (e, b1) \<Rightarrow>
           if e \<noteq> ASTOOLS_OK then (e, b1)
           else (ASTOOLS_OK,
                 b1\<lparr>bdata := Some (write_block (the (bdata b1)) (blen b1) (t @ [NUL])),
                    blen := blen b1 + length t\<rparr>)))"

definition astools_buf_detach :: "mem \<Rightarrow> astools_buf \<Rightarrow> string option \<times> astools_buf" where
  "astools_buf_detach m b =
     ((case bdata b of
         None \<Rightarrow> if alloc_ok m 1 then Some [NUL] else None
       | Some d \<Rightarrow> Some d),
      astools_buf_init)"

text \<open>The buffer's invariant and its abstract value.\<close>

definition buf_content :: "astools_buf \<Rightarrow> string" where
  "buf_content b = (case bdata b of None \<Rightarrow> [] | Some d \<Rightarrow> take (blen b) d)"

definition buf_ok :: "astools_buf \<Rightarrow> bool" where
  "buf_ok b \<longleftrightarrow>
     (case bdata b of
        None \<Rightarrow> blen b = 0 \<and> bcap b = 0
      | Some d \<Rightarrow> length d = bcap b \<and> blen b < bcap b \<and> bcap b \<le> SIZE_MAX \<and> d ! blen b = NUL)"

lemma buf_ok_init [simp]: "buf_ok astools_buf_init" "buf_content astools_buf_init = []"
  by (simp_all add: buf_ok_def astools_buf_init_def buf_content_def)

lemma length_realloc_block [simp]: "length (realloc_block m old n) = n"
  by (simp add: realloc_block_def Let_def)

lemma take_realloc_block:
  "k \<le> length s \<Longrightarrow> k \<le> n \<Longrightarrow> take k (realloc_block m (Some s) n) = take k s"
  by (simp add: realloc_block_def Let_def min_def)

lemma length_write_block [simp]:
  "off + length s \<le> length blk \<Longrightarrow> length (write_block blk off s) = length blk"
  by (simp add: write_block_def)

lemma take_write_block:
  "off + length s \<le> length blk \<Longrightarrow> k \<le> off \<Longrightarrow> take k (write_block blk off s) = take k blk"
  by (simp add: write_block_def min_def)

lemma take_write_block_end:
  "off + length s \<le> length blk \<Longrightarrow>
   take (off + length s) (write_block blk off s) = take off blk @ s"
  by (simp add: write_block_def)

lemma nth_write_block:
  "off + length s \<le> length blk \<Longrightarrow> i < length s \<Longrightarrow> write_block blk off s ! (off + i) = s ! i"
  by (simp add: write_block_def nth_append)

lemma grow_cap_bounds:
  "0 < cap \<Longrightarrow> cap \<le> SIZE_MAX \<Longrightarrow> need \<le> SIZE_MAX \<Longrightarrow>
   need \<le> grow_cap cap need \<and> cap \<le> grow_cap cap need \<and> grow_cap cap need \<le> SIZE_MAX"
proof (induction cap need rule: grow_cap.induct)
  case (1 cap need)
  show ?case
  proof (cases "need \<le> cap \<or> cap > SIZE_MAX div 2")
    case True
    with 1(2-4) show ?thesis by (subst (1 2 3) grow_cap.simps) auto
  next
    case False
    with 1(2-4) have "need \<le> grow_cap (cap * 2) need \<and> cap * 2 \<le> grow_cap (cap * 2) need
        \<and> grow_cap (cap * 2) need \<le> SIZE_MAX"
      by (intro 1(1)) (auto simp: SIZE_MAX_def)
    moreover have "grow_cap cap need = grow_cap (cap * 2) need"
      using False 1(2) by (subst grow_cap.simps) simp
    ultimately show ?thesis by simp
  qed
qed

text \<open>
  After a successful reservation the block has room for the bytes and the terminator; the contents
  are the same.
\<close>

lemma buf_reserve_ok:
  assumes "buf_ok b" and "buf_reserve m b extra = (ASTOOLS_OK, b1)"
  shows "\<exists>d. bdata b1 = Some d \<and> length d = bcap b1 \<and> bcap b1 \<le> SIZE_MAX \<and>
    blen b1 = blen b \<and> blen b + extra < bcap b1 \<and> take (blen b) d = buf_content b"
proof (cases "blen b + extra + 1 \<le> bcap b")
  case True
  with assms show ?thesis
    by (auto simp: buf_reserve_def buf_ok_def buf_content_def Let_def split: if_splits option.splits)
next
  case False
  let ?cap = "grow_cap (if bcap b \<noteq> 0 then bcap b else 64) (blen b + extra + 1)"
  from assms False have need: "blen b + extra + 1 \<le> SIZE_MAX"
    by (auto simp: buf_reserve_def buf_ok_def Let_def SIZE_MAX_def split: if_splits option.splits)
  have start: "0 < (if bcap b \<noteq> 0 then bcap b else 64)"
    "(if bcap b \<noteq> 0 then bcap b else 64) \<le> SIZE_MAX"
    using assms(1) by (auto simp: buf_ok_def SIZE_MAX_def split: option.splits)
  note bounds = grow_cap_bounds [OF start need]
  from assms(2) False have b1: "b1 = b\<lparr>bdata := Some (realloc_block m (bdata b) ?cap), bcap := ?cap\<rparr>"
    by (auto simp: buf_reserve_def Let_def split: if_splits)
  show ?thesis
  proof (cases "bdata b")
    case None
    with assms(1) b1 bounds show ?thesis by (simp add: buf_ok_def buf_content_def)
  next
    case (Some d)
    with assms(1) b1 bounds show ?thesis
      by (auto simp: buf_ok_def buf_content_def take_realloc_block split: if_splits)
  qed
qed

lemma buf_reserve_fail:
  "buf_reserve m b extra = (e, b1) \<Longrightarrow> e \<noteq> ASTOOLS_OK \<Longrightarrow> e = ASTOOLS_ERR_NOMEM \<and> b1 = b"
  by (auto simp: buf_reserve_def Let_def split: if_splits)

lemma buf_ok_cases:
  assumes "bdata b = Some d" "length d = bcap b" "bcap b \<le> SIZE_MAX" "blen b < bcap b" "d ! blen b = NUL"
  shows "buf_ok b"
  using assms by (simp add: buf_ok_def)

lemma buf_append_ok:
  assumes ok: "buf_ok b" and src: "len \<le> length s"
    and app: "astools_buf_append m b (Some s) len = (ASTOOLS_OK, b')"
  shows "buf_ok b' \<and> buf_content b' = buf_content b @ take len s"
proof -
  obtain e b1 where r: "buf_reserve m b len = (e, b1)" by fastforce
  with app have e: "e = ASTOOLS_OK" by (auto simp: astools_buf_append_def split: if_splits)
  from buf_reserve_ok [OF ok r [unfolded e]] obtain d where d: "bdata b1 = Some d"
    "length d = bcap b1" "bcap b1 \<le> SIZE_MAX" "blen b1 = blen b" "blen b + len < bcap b1"
    "take (blen b) d = buf_content b" by blast
  let ?d1 = "write_block d (blen b) (take len s)"
  let ?d2 = "write_block ?d1 (blen b + len) [NUL]"
  have b': "b' = b1\<lparr>bdata := Some ?d2, blen := blen b + len\<rparr>"
    using app r e d by (simp add: astools_buf_append_def Let_def)
  have len1: "length ?d1 = bcap b1" and len2: "length ?d2 = bcap b1"
    using d src by simp_all
  have "?d2 ! (blen b + len + 0) = [NUL] ! 0"
    by (rule nth_write_block) (use d len1 in simp_all)
  moreover have "take (blen b + len) ?d2 = take (blen b + len) ?d1"
    by (rule take_write_block) (use d len1 in simp_all)
  moreover have "take (blen b + length (take len s)) ?d1 = take (blen b) d @ take len s"
    by (rule take_write_block_end) (use d src in simp)
  ultimately show ?thesis
    using b' d len2 src by (simp add: buf_ok_def buf_content_def)
qed

lemma buf_append_fail:
  "astools_buf_append m b (Some s) len = (e, b') \<Longrightarrow> e \<noteq> ASTOOLS_OK \<Longrightarrow>
   e = ASTOOLS_ERR_NOMEM \<and> b' = b"
  using buf_reserve_fail
  by (fastforce simp: astools_buf_append_def Let_def split: if_splits prod.splits)

lemma buf_appends_ok:
  "buf_ok b \<Longrightarrow> astools_buf_appends m b (Some s) = (ASTOOLS_OK, b') \<Longrightarrow>
   buf_ok b' \<and> buf_content b' = buf_content b @ s"
  using buf_append_ok [of b "length s" s m b'] by (simp add: astools_buf_appends_def)

lemma buf_printf_ok:
  assumes ok: "buf_ok b" and app: "astools_buf_printf m b (Some t) = (ASTOOLS_OK, b')"
  shows "buf_ok b' \<and> buf_content b' = buf_content b @ t"
proof -
  obtain e b1 where r: "buf_reserve m b (length t) = (e, b1)" by fastforce
  with app have e: "e = ASTOOLS_OK" by (auto simp: astools_buf_printf_def split: if_splits)
  from buf_reserve_ok [OF ok r [unfolded e]] obtain d where d: "bdata b1 = Some d"
    "length d = bcap b1" "bcap b1 \<le> SIZE_MAX" "blen b1 = blen b" "blen b + length t < bcap b1"
    "take (blen b) d = buf_content b" by blast
  let ?d2 = "write_block d (blen b) (t @ [NUL])"
  have b': "b' = b1\<lparr>bdata := Some ?d2, blen := blen b + length t\<rparr>"
    using app r e d by (simp add: astools_buf_printf_def Let_def)
  have room: "blen b + length (t @ [NUL]) \<le> length d" using d by simp
  have "?d2 ! (blen b + length t) = NUL"
    using nth_write_block [OF room, of "length t"] by simp
  moreover have "take (blen b + length t) ?d2 = take (blen b) d @ t"
    using room by (simp add: write_block_def)
  ultimately show ?thesis
    using b' d room by (simp add: buf_ok_def buf_content_def)
qed

section \<open>Strings\<close>

definition astools_strndup :: "string \<Rightarrow> nat \<Rightarrow> string" where
  "astools_strndup s n = take n s"

definition is_ascii_space :: "char \<Rightarrow> bool" where
  "is_ascii_space ch \<longleftrightarrow>
     ch = CHR '' '' \<or> ch = CHR 0x09 \<or> ch = CHR 0x0A \<or> ch = CHR 0x0D \<or> ch = CHR 0x0B \<or> ch = CHR 0x0C"

text \<open>The two loops: first the end moves left, then the start moves right.\<close>

definition astools_str_trim :: "string \<Rightarrow> string" where
  "astools_str_trim s =
     (let s1 = rev (dropWhile is_ascii_space (rev s)) in dropWhile is_ascii_space s1)"

definition astools_str_blank :: "string option \<Rightarrow> bool" where
  "astools_str_blank s = (case s of None \<Rightarrow> True | Some t \<Rightarrow> list_all is_ascii_space t)"

lemma str_trim_decomp:
  "\<exists>a b. s = a @ astools_str_trim s @ b \<and> list_all is_ascii_space a \<and> list_all is_ascii_space b"
proof -
  let ?e = "dropWhile is_ascii_space (rev s)"
  have "rev s = takeWhile is_ascii_space (rev s) @ ?e" by simp
  then have "s = rev ?e @ rev (takeWhile is_ascii_space (rev s))"
    by (metis rev_append rev_rev_ident)
  moreover have "rev ?e = takeWhile is_ascii_space (rev ?e) @ astools_str_trim s"
    by (simp add: astools_str_trim_def Let_def)
  ultimately have "s = takeWhile is_ascii_space (rev ?e) @ astools_str_trim s
      @ rev (takeWhile is_ascii_space (rev s))"
    by (metis append.assoc)
  moreover have "list_all is_ascii_space (takeWhile is_ascii_space (rev ?e))"
    "list_all is_ascii_space (rev (takeWhile is_ascii_space (rev s)))"
    by (auto simp: list_all_iff dest: set_takeWhileD)
  ultimately show ?thesis by blast
qed

lemma str_trim_ends:
  assumes "astools_str_trim s \<noteq> []"
  shows "\<not> is_ascii_space (hd (astools_str_trim s))" "\<not> is_ascii_space (last (astools_str_trim s))"
proof -
  let ?e = "dropWhile is_ascii_space (rev s)"
  from assms show "\<not> is_ascii_space (hd (astools_str_trim s))"
    by (simp add: astools_str_trim_def Let_def hd_dropWhile)
  from assms have ne: "?e \<noteq> []"
    unfolding astools_str_trim_def Let_def by (metis dropWhile.simps(1) rev.simps(1))
  have "rev ?e = takeWhile is_ascii_space (rev ?e) @ astools_str_trim s"
    by (simp add: astools_str_trim_def Let_def)
  then have "last (astools_str_trim s) = last (rev ?e)"
    using assms by (metis last_appendR)
  also have "\<dots> = hd ?e" using ne by (simp add: last_rev)
  finally show "\<not> is_ascii_space (last (astools_str_trim s))"
    using ne hd_dropWhile by metis
qed

section \<open>FNV-1a, 64 bits\<close>

definition FNV_OFFSET :: "64 word" where
  "FNV_OFFSET = 0xcbf29ce484222325"

definition FNV_PRIME :: "64 word" where
  "FNV_PRIME = 0x100000001b3"

definition astools_fnv1a64 :: "byte list option \<Rightarrow> 64 word" where
  "astools_fnv1a64 data =
     (case data of None \<Rightarrow> FNV_OFFSET
      | Some bs \<Rightarrow> foldl (\<lambda>h b. (h XOR ucast b) * FNV_PRIME) FNV_OFFSET bs)"

definition bytes_of :: "string \<Rightarrow> byte list" where
  "bytes_of s = map of_char s"

section \<open>Slugs and the token heuristic\<close>

definition slug_char :: "char \<Rightarrow> bool" where
  "slug_char ch \<longleftrightarrow> is_lower ch \<or> is_digit ch \<or> ch = CHR ''-''"

text \<open>The loop from index \<open>i\<close>: index 64 is refused before its character is looked at.\<close>

fun slug_rest :: "nat \<Rightarrow> string \<Rightarrow> bool" where
  "slug_rest i [] = True"
| "slug_rest i (ch # s) = (if i > 63 then False else if \<not> slug_char ch then False else slug_rest (Suc i) s)"

definition astools_slug_valid :: "string option \<Rightarrow> bool" where
  "astools_slug_valid s =
     (case s of None \<Rightarrow> False
      | Some t \<Rightarrow> (is_lower (cur t) \<or> is_digit (cur t)) \<and> slug_rest 1 (tl t))"

definition astools_token_heuristic :: "string option \<Rightarrow> nat" where
  "astools_token_heuristic text =
     (case text of None \<Rightarrow> 0
      | Some s \<Rightarrow>
         if s = [] then 0
         else let t = length s div 4; t1 = (if t = 0 then 1 else t)
              in if t1 > INT_MAX then INT_MAX else t1)"

lemma slug_rest_iff: "slug_rest i s \<longleftrightarrow> (s = [] \<or> i + length s \<le> 64) \<and> list_all slug_char s"
  by (induction s arbitrary: i) auto

section \<open>What the module promises\<close>

text \<open>
  The growable buffer refines list append: appending either succeeds, and then the invariant
  (NUL-terminated inside a block of the recorded capacity) holds and the content is the old content
  followed by exactly the given bytes, or fails for memory and leaves the buffer as it was.
\<close>

theorem buf_append_refines:
  assumes "buf_ok b" "len \<le> length s"
  shows "(\<exists>b'. astools_buf_append m b (Some s) len = (ASTOOLS_OK, b') \<and> buf_ok b' \<and>
            buf_content b' = buf_content b @ take len s) \<or>
         astools_buf_append m b (Some s) len = (ASTOOLS_ERR_NOMEM, b)"
proof -
  obtain e b' where a: "astools_buf_append m b (Some s) len = (e, b')" by fastforce
  show ?thesis
  proof (cases "e = ASTOOLS_OK")
    case True
    with a buf_append_ok [OF assms] show ?thesis by blast
  next
    case False
    with a buf_append_fail [OF a] show ?thesis by simp
  qed
qed

theorem buf_append_refines_witness:
  "let m = \<lparr>alloc_ok = (\<lambda>n. n \<le> 64), junk = CHR ''?''\<rparr>;
       r = astools_buf_append m astools_buf_init (Some ''abc'') 2 in
   fst r = ASTOOLS_OK \<and> buf_content (snd r) = ''ab''"
proof -
  let ?m = "\<lparr>alloc_ok = (\<lambda>n. n \<le> 64), junk = CHR ''?''\<rparr>"
  have "astools_buf_append ?m astools_buf_init (Some ''abc'') 2 \<noteq> (ASTOOLS_ERR_NOMEM, astools_buf_init)"
    by (simp add: astools_buf_append_def buf_reserve_def astools_buf_init_def grow_cap.simps SIZE_MAX_def)
  with buf_append_refines [of astools_buf_init 2 "''abc''" ?m] show ?thesis
    by (auto simp: Let_def)
qed

text \<open>
  A slug is exactly a text of 1 to 64 lower-case letters, digits and hyphens that does not
  start with a hyphen.
\<close>

theorem slug_valid_iff:
  "astools_slug_valid (Some s) \<longleftrightarrow>
   s \<noteq> [] \<and> length s \<le> 64 \<and> list_all slug_char s \<and> hd s \<noteq> CHR ''-''"
proof (cases s)
  case Nil
  then show ?thesis by (simp add: astools_slug_valid_def is_lower_def is_digit_def)
next
  case (Cons c t)
  have "\<not> is_lower (CHR ''-'')" "\<not> is_digit (CHR ''-'')"
    by (simp_all add: is_lower_def is_digit_def chcode_def)
  then show ?thesis
    by (auto simp: Cons astools_slug_valid_def slug_rest_iff slug_char_def)
qed

end
