(* ===== verification/As_Base64.thy ===== *)
theory As_Base64
  imports As_Util
begin

unbundle bit_operations_syntax

text \<open>
  The strict Base64 codec of \<^verbatim>\<open>src/util.c\<close>. Sextets are packed into a 32-bit word with the code's
  shifts; the decoder refuses bad lengths, characters outside the alphabet, misplaced padding and
  non-canonical trailing bits. The main result is that it is a canonical codec: the decoder
  accepts exactly the texts the encoder writes, and inverts it.
\<close>

section \<open>Base64 (RFC 4648, strict)\<close>

definition b64_alpha :: string where
  "b64_alpha = ''ABCDEFGHIJKLMNOPQRSTUVWXYZabcdefghijklmnopqrstuvwxyz0123456789+/''"

definition b64_char :: "32 word \<Rightarrow> char" where
  "b64_char w = b64_alpha ! unat (w AND 63)"

fun b64_groups :: "byte list \<Rightarrow> string" where
  "b64_groups (x # y # z # rest) =
     (let v = push_bit 16 (ucast x) OR push_bit 8 (ucast y) OR ucast z :: 32 word
      in [b64_char (drop_bit 18 v), b64_char (drop_bit 12 v), b64_char (drop_bit 6 v), b64_char v]
         @ b64_groups rest)"
| "b64_groups [x] =
     (let v = push_bit 16 (ucast x) :: 32 word
      in [b64_char (drop_bit 18 v), b64_char (drop_bit 12 v), CHR ''='', CHR ''=''])"
| "b64_groups [x, y] =
     (let v = push_bit 16 (ucast x) OR push_bit 8 (ucast y) :: 32 word
      in [b64_char (drop_bit 18 v), b64_char (drop_bit 12 v), b64_char (drop_bit 6 v), CHR ''=''])"
| "b64_groups [] = []"

definition astools_base64_encode :: "byte list \<Rightarrow> string option" where
  "astools_base64_encode data =
     (if length data > (SIZE_MAX div 4) * 3 - 2 then None else Some (b64_groups data))"

definition b64_val :: "char \<Rightarrow> int" where
  "b64_val ch =
     (if is_upper ch then int (chcode ch) - 65
      else if is_lower ch then int (chcode ch) - 97 + 26
      else if is_digit ch then int (chcode ch) - 48 + 52
      else if ch = CHR ''+'' then 62
      else if ch = CHR ''/'' then 63
      else - 1)"

text \<open>
  The decoding loop over groups of four; \<open>pad\<close> is the number of padding characters of the whole
  text, which matters in the last group only. The uint32_t casts wrap.
\<close>

fun b64_dec_groups :: "nat \<Rightarrow> string \<Rightarrow> byte list option" where
  "b64_dec_groups pad (c1 # c2 # c3 # c4 # rest) =
     (let a = b64_val c1; b = b64_val c2 in
      if rest \<noteq> [] \<or> pad = 0 then
        (let v = push_bit 18 (word_of_int a) OR push_bit 12 (word_of_int b)
                 OR push_bit 6 (word_of_int (b64_val c3)) OR word_of_int (b64_val c4) :: 32 word
         in map_option (\<lambda>out. ucast (drop_bit 16 v) # ucast (drop_bit 8 v) # ucast v # out)
              (b64_dec_groups pad rest))
      else if pad = 1 then
        (let c = b64_val c3 in
         if (word_of_int c :: 32 word) AND 3 \<noteq> 0 then None
         else let v = push_bit 18 (word_of_int a) OR push_bit 12 (word_of_int b)
                      OR push_bit 6 (word_of_int c) :: 32 word
              in Some [ucast (drop_bit 16 v), ucast (drop_bit 8 v)])
      else
        (if (word_of_int b :: 32 word) AND 15 \<noteq> 0 then None
         else Some [ucast (drop_bit 16
                (push_bit 18 (word_of_int a) OR push_bit 12 (word_of_int b) :: 32 word))]))"
| "b64_dec_groups pad _ = Some []"

definition b64_pad :: "string \<Rightarrow> nat" where
  "b64_pad s =
     (let n = length s in
      if cget s (n - 1) = CHR ''='' then (if cget s (n - 2) = CHR ''='' then 2 else 1) else 0)"

definition astools_base64_decode :: "string \<Rightarrow> byte list option" where
  "astools_base64_decode s =
     (let n = length s in
      if n mod 4 \<noteq> 0 then None
      else if n = 0 then Some []
      else let pad = b64_pad s in
        if \<exists>c \<in> set (take (n - pad) s). b64_val c < 0 then None
        else b64_dec_groups pad s)"

subsection \<open>The Base64 alphabet\<close>

lemma b64_alpha_val: "n < 64 \<Longrightarrow> b64_val (b64_alpha ! n) = int n"
proof -
  have "\<forall>k \<in> set [0..<64]. b64_val (b64_alpha ! k) = int k"
    by (simp add: b64_val_def b64_alpha_def is_upper_def is_lower_def is_digit_def chcode_def upt_rec)
  then show "n < 64 \<Longrightarrow> b64_val (b64_alpha ! n) = int n" by simp
qed

lemma b64_val_range: "b64_val c < 64"
  by (auto simp: b64_val_def is_upper_def is_lower_def is_digit_def)

lemma b64_val_inj: "b64_val c = b64_val d \<Longrightarrow> 0 \<le> b64_val c \<Longrightarrow> c = d"
  by (rule chcode_inj)
    (auto simp: b64_val_def is_upper_def is_lower_def is_digit_def split: if_splits)

lemma b64_val_alpha: "b64_val c \<ge> 0 \<Longrightarrow> b64_alpha ! nat (b64_val c) = c"
  using b64_alpha_val [of "nat (b64_val c)"] b64_val_range [of c] b64_val_inj by force

lemma b64_val_eq: "b64_val (CHR ''='') = - 1"
  by code_simp

subsection \<open>Sextets and bytes\<close>

text \<open>
  The 24-bit regrouping, bit by bit. A sextet is a 32-bit word of which only \<open>w AND 63\<close> counts.
\<close>

lemma mask6: "(63 :: 32 word) = mask 6"
  by (simp add: mask_eq_exp_minus_1)

lemma bit_and_63: "bit (w AND (63 :: 32 word)) n \<longleftrightarrow> bit w n \<and> n < 6"
  by (auto simp: mask6 bit_simps)

lemma sextet_eqI:
  assumes "bit a 0 = bit b 0" "bit a 1 = bit b 1" "bit a 2 = bit b 2" "bit a 3 = bit b 3"
    "bit a 4 = bit b 4" "bit a 5 = bit b 5"
  shows "a AND 63 = (b AND 63 :: 32 word)"
proof (rule bit_eqI)
  fix n :: nat
  have "n = 0 \<or> n = 1 \<or> n = 2 \<or> n = 3 \<or> n = 4 \<or> n = 5 \<or> \<not> n < 6" by auto
  with assms show "bit (a AND 63) n = bit (b AND 63) n" by (auto simp: bit_and_63)
qed

definition pack3 :: "byte \<Rightarrow> byte \<Rightarrow> byte \<Rightarrow> 32 word" where
  "pack3 x y z = push_bit 16 (ucast x) OR push_bit 8 (ucast y) OR ucast z"

definition pack4 :: "32 word \<Rightarrow> 32 word \<Rightarrow> 32 word \<Rightarrow> 32 word \<Rightarrow> 32 word" where
  "pack4 a b c d = push_bit 18 a OR push_bit 12 b OR push_bit 6 c OR d"

lemmas pack_bits = pack3_def pack4_def bit_simps bit_and_63 bit_byte_beyond

lemma pack4_pack3:
  fixes x y z :: byte
  defines "v \<equiv> pack3 x y z"
  defines "w \<equiv> pack4 (drop_bit 18 v AND 63) (drop_bit 12 v AND 63) (drop_bit 6 v AND 63) (v AND 63)"
  shows "ucast (drop_bit 16 w) = x" "ucast (drop_bit 8 w) = y" "ucast w = z"
  unfolding w_def v_def by (rule byte_eqI; simp add: pack_bits)+

lemma pack3_pack4:
  fixes a b c d :: "32 word"
  defines "w \<equiv> pack4 (a AND 63) (b AND 63) (c AND 63) (d AND 63)"
  defines "v \<equiv> pack3 (ucast (drop_bit 16 w)) (ucast (drop_bit 8 w)) (ucast w)"
  shows "drop_bit 18 v AND 63 = a AND 63" "drop_bit 12 v AND 63 = b AND 63"
    "drop_bit 6 v AND 63 = c AND 63" "v AND 63 = d AND 63"
  unfolding w_def v_def by (rule sextet_eqI; simp add: pack_bits)+

lemma and3_eq_0_iff: "(c :: 32 word) AND 3 = 0 \<longleftrightarrow> \<not> bit c 0 \<and> \<not> bit c 1"
proof -
  have m: "(3 :: 32 word) = mask 2" by (simp add: mask_eq_exp_minus_1)
  have lt: "n < 2 \<longleftrightarrow> n = 0 \<or> n = 1" for n :: nat by auto
  show ?thesis
  proof
    assume "c AND 3 = 0"
    then have z: "\<not> bit (c AND mask 2) n" for n by (simp add: m)
    show "\<not> bit c 0 \<and> \<not> bit c 1"
      using z [of 0] z [of 1] by (simp add: bit_simps)
  next
    assume z: "\<not> bit c 0 \<and> \<not> bit c 1"
    show "c AND 3 = 0"
      unfolding m
    proof (rule bit_eqI)
      fix n
      show "bit (c AND mask 2) n = bit 0 n"
        using z by (cases "n < 2") (auto simp: bit_simps lt)
    qed
  qed
qed

lemma and15_eq_0_iff: "(c :: 32 word) AND 15 = 0 \<longleftrightarrow> \<not> bit c 0 \<and> \<not> bit c 1 \<and> \<not> bit c 2 \<and> \<not> bit c 3"
proof -
  have m: "(15 :: 32 word) = mask 4" by (simp add: mask_eq_exp_minus_1)
  have lt: "n < 4 \<longleftrightarrow> n = 0 \<or> n = 1 \<or> n = 2 \<or> n = 3" for n :: nat by auto
  show ?thesis
  proof
    assume "c AND 15 = 0"
    then have z: "\<not> bit (c AND mask 4) n" for n by (simp add: m)
    show "\<not> bit c 0 \<and> \<not> bit c 1 \<and> \<not> bit c 2 \<and> \<not> bit c 3"
      using z [of 0] z [of 1] z [of 2] z [of 3] by (simp add: bit_simps)
  next
    assume z: "\<not> bit c 0 \<and> \<not> bit c 1 \<and> \<not> bit c 2 \<and> \<not> bit c 3"
    show "c AND 15 = 0"
      unfolding m
    proof (rule bit_eqI)
      fix n
      show "bit (c AND mask 4) n = bit 0 n"
        using z by (cases "n < 4") (auto simp: bit_simps lt)
    qed
  qed
qed

lemma pack_tail2:
  fixes x y :: byte
  defines "v \<equiv> pack3 x y 0"
  defines "w \<equiv> pack4 (drop_bit 18 v AND 63) (drop_bit 12 v AND 63) (drop_bit 6 v AND 63) 0"
  shows "ucast (drop_bit 16 w) = x" "ucast (drop_bit 8 w) = y" "(drop_bit 6 v AND 63) AND 3 = 0"
proof -
  show "ucast (drop_bit 16 w) = x" "ucast (drop_bit 8 w) = y"
    unfolding w_def v_def by (rule byte_eqI; simp add: pack_bits)+
  show "(drop_bit 6 v AND 63) AND 3 = 0"
    unfolding and3_eq_0_iff v_def by (simp add: pack_bits)
qed

lemma pack_tail1:
  fixes x :: byte
  defines "v \<equiv> pack3 x 0 0"
  shows "ucast (drop_bit 16 (pack4 (drop_bit 18 v AND 63) (drop_bit 12 v AND 63) 0 0)) = x"
    "(drop_bit 12 v AND 63) AND 15 = 0"
proof -
  show "ucast (drop_bit 16 (pack4 (drop_bit 18 v AND 63) (drop_bit 12 v AND 63) 0 0)) = x"
    unfolding v_def by (rule byte_eqI; simp add: pack_bits)
  show "(drop_bit 12 v AND 63) AND 15 = 0"
    unfolding and15_eq_0_iff v_def by (simp add: pack_bits)
qed

lemma unpack_tail2:
  fixes a b c :: "32 word"
  assumes "(c AND 63) AND 3 = 0"
  defines "w \<equiv> pack4 (a AND 63) (b AND 63) (c AND 63) 0"
  defines "v \<equiv> pack3 (ucast (drop_bit 16 w)) (ucast (drop_bit 8 w)) 0"
  shows "drop_bit 18 v AND 63 = a AND 63" "drop_bit 12 v AND 63 = b AND 63"
    "drop_bit 6 v AND 63 = c AND 63"
proof -
  have z: "\<not> bit (c AND 63) 0" "\<not> bit (c AND 63) 1"
    using assms(1) and3_eq_0_iff by blast+
  show "drop_bit 18 v AND 63 = a AND 63" "drop_bit 12 v AND 63 = b AND 63"
    "drop_bit 6 v AND 63 = c AND 63"
    unfolding w_def v_def using z by - (rule sextet_eqI; simp add: pack_bits)+
qed

lemma unpack_tail1:
  fixes a b :: "32 word"
  assumes "(b AND 63) AND 15 = 0"
  defines "v \<equiv> pack3 (ucast (drop_bit 16 (pack4 (a AND 63) (b AND 63) 0 0))) 0 0"
  shows "drop_bit 18 v AND 63 = a AND 63" "drop_bit 12 v AND 63 = b AND 63"
proof -
  have z: "\<not> bit (b AND 63) 0" "\<not> bit (b AND 63) 1" "\<not> bit (b AND 63) 2" "\<not> bit (b AND 63) 3"
    using assms(1) and15_eq_0_iff by blast+
  show "drop_bit 18 v AND 63 = a AND 63" "drop_bit 12 v AND 63 = b AND 63"
    unfolding v_def using z by - (rule sextet_eqI; simp add: pack_bits)+
qed

subsection \<open>The codec\<close>

definition sx :: "char \<Rightarrow> 32 word" where
  "sx c = word_of_int (b64_val c)"

lemma sx_and_63: "0 \<le> b64_val c \<Longrightarrow> sx c AND 63 = sx c"
  using b64_val_range [of c]
  by (simp add: sx_def mask6 mask_eq_iff uint_word_of_int)

lemma unat_and_63: "unat (w AND (63 :: 32 word)) < 64"
proof -
  have "uint (w AND 63) < 64" using and_mask_lt_2p [of w 6] by (simp add: mask6)
  then show ?thesis unfolding uint_nat by linarith
qed

lemma b64_val_char: "b64_val (b64_char w) = uint (w AND 63)"
  unfolding b64_char_def b64_alpha_val [OF unat_and_63] by (rule uint_nat [symmetric])

lemma b64_val_char_nonneg [simp]: "0 \<le> b64_val (b64_char w)" "\<not> b64_val (b64_char w) < 0"
  by (simp_all add: b64_val_char)

lemma b64_char_not_pad [simp]: "b64_char w \<noteq> CHR ''=''"
  by (metis b64_val_char_nonneg(2) b64_val_eq neg_less_0_iff_less zero_less_one)

lemma sx_char: "sx (b64_char w) = w AND 63"
  by (simp add: sx_def b64_val_char)

lemma b64_char_sx: "0 \<le> b64_val c \<Longrightarrow> w AND 63 = sx c AND 63 \<Longrightarrow> b64_char w = c"
  using b64_val_alpha [of c] b64_val_range [of c] sx_and_63 [of c]
  by (simp add: b64_char_def sx_def unat_eq_nat_uint uint_word_of_int)

text \<open>One unfolding of the encoder and of the decoder in terms of sextets.\<close>

lemma b64_groups_3: "b64_groups (x # y # z # rest) =
    [b64_char (drop_bit 18 (pack3 x y z)), b64_char (drop_bit 12 (pack3 x y z)),
     b64_char (drop_bit 6 (pack3 x y z)), b64_char (pack3 x y z)] @ b64_groups rest"
  by (simp add: pack3_def Let_def)

lemma b64_groups_1: "b64_groups [x] =
    [b64_char (drop_bit 18 (pack3 x 0 0)), b64_char (drop_bit 12 (pack3 x 0 0)), CHR ''='', CHR ''='']"
  by (simp add: pack3_def Let_def)

lemma b64_groups_2: "b64_groups [x, y] =
    [b64_char (drop_bit 18 (pack3 x y 0)), b64_char (drop_bit 12 (pack3 x y 0)),
     b64_char (drop_bit 6 (pack3 x y 0)), CHR ''='']"
  by (simp add: pack3_def Let_def)

lemma b64_dec_full: "rest \<noteq> [] \<or> pad = 0 \<Longrightarrow>
    b64_dec_groups pad (c1 # c2 # c3 # c4 # rest) =
      (let v = pack4 (sx c1) (sx c2) (sx c3) (sx c4)
       in map_option (\<lambda>out. ucast (drop_bit 16 v) # ucast (drop_bit 8 v) # ucast v # out)
            (b64_dec_groups pad rest))"
  by (simp add: pack4_def sx_def Let_def)

lemma b64_dec_pad1: "b64_dec_groups (Suc 0) [c1, c2, c3, c4] =
    (if sx c3 AND 3 \<noteq> 0 then None
     else Some [ucast (drop_bit 16 (pack4 (sx c1) (sx c2) (sx c3) 0)),
                ucast (drop_bit 8 (pack4 (sx c1) (sx c2) (sx c3) 0))])"
  by (simp add: pack4_def sx_def Let_def)

lemma b64_dec_pad2: "b64_dec_groups 2 [c1, c2, c3, c4] =
    (if sx c2 AND 15 \<noteq> 0 then None
     else Some [ucast (drop_bit 16 (pack4 (sx c1) (sx c2) 0 0))])"
  by (simp add: pack4_def sx_def Let_def)

lemma b64_pad_step:
  "length rest mod 4 = 0 \<Longrightarrow> rest \<noteq> [] \<Longrightarrow> b64_pad (c1 # c2 # c3 # c4 # rest) = b64_pad rest"
  by (cases rest; cases "tl rest") (auto simp: b64_pad_def cget_def Let_def nth_Cons' split: if_splits)

lemma b64_pad_cases: "b64_pad s \<in> {0, 1, 2}"
  by (simp add: b64_pad_def Let_def)

lemma length_b64_groups: "length (b64_groups x) mod 4 = 0" "b64_groups x = [] \<longleftrightarrow> x = []"
  by (induction x rule: b64_groups.induct) (simp_all add: Let_def)

text \<open>The decoder's first loop: everything before the padding is in the alphabet.\<close>

definition b64_valid :: "string \<Rightarrow> bool" where
  "b64_valid s \<longleftrightarrow> (\<forall>c \<in> set (take (length s - b64_pad s) s). 0 \<le> b64_val c)"

lemma b64_valid_step:
  assumes "length rest mod 4 = 0" "rest \<noteq> []"
  shows "b64_valid (c1 # c2 # c3 # c4 # rest) \<longleftrightarrow>
         0 \<le> b64_val c1 \<and> 0 \<le> b64_val c2 \<and> 0 \<le> b64_val c3 \<and> 0 \<le> b64_val c4 \<and> b64_valid rest"
proof -
  have "b64_pad rest \<le> length rest"
    using assms by (cases rest; cases "tl rest") (auto simp: b64_pad_def Let_def)
  then have "length (c1 # c2 # c3 # c4 # rest) - b64_pad rest
      = Suc (Suc (Suc (Suc (length rest - b64_pad rest))))" by simp
  then show ?thesis unfolding b64_valid_def b64_pad_step [OF assms] by simp
qed

text \<open>Decoding what the encoder wrote.\<close>

lemma b64_groups_decodable:
  "x \<noteq> [] \<Longrightarrow>
   b64_valid (b64_groups x) \<and> b64_dec_groups (b64_pad (b64_groups x)) (b64_groups x) = Some x"
proof (induction x rule: b64_groups.induct)
  case (1 x y z rest)
  let ?v = "pack3 x y z"
  show ?case
  proof (cases "rest = []")
    case True
    then show ?thesis
      unfolding b64_groups_3 True
      by (simp add: b64_valid_def b64_pad_def cget_def b64_dec_full sx_char pack4_pack3 Let_def del: b64_dec_groups.simps(1))
  next
    case False
    note IH = "1.IH" [OF refl False]
    have ne: "b64_groups rest \<noteq> []" and len: "length (b64_groups rest) mod 4 = 0"
      using False length_b64_groups by simp_all
    show ?thesis
      unfolding b64_groups_3 append.simps b64_valid_step [OF len ne] b64_pad_step [OF len ne]
      using IH ne by (simp add: b64_dec_full sx_char pack4_pack3 Let_def del: b64_dec_groups.simps(1))
  qed
next
  case (2 x)
  show ?case
    unfolding b64_groups_1
    by (simp add: b64_valid_def b64_pad_def cget_def b64_dec_pad2 sx_char pack_tail1 Let_def
        del: b64_dec_groups.simps(1))
next
  case (3 x y)
  show ?case
    unfolding b64_groups_2
    by (simp add: b64_valid_def b64_pad_def cget_def b64_dec_pad1 sx_char pack_tail2 Let_def
        del: b64_dec_groups.simps(1))
qed simp

text \<open>The other direction: what the decoder accepts is what the encoder writes.\<close>

lemma list4_cases:
  assumes "length s mod 4 = 0" "s \<noteq> []"
  obtains c1 c2 c3 c4 rest where "s = c1 # c2 # c3 # c4 # rest" "length rest mod 4 = 0"
proof -
  obtain n where n: "length s = 4 + n" "n mod 4 = 0"
    using assms by (metis le_add_diff_inverse length_0_conv mod_add_self1 mod_less not_less)
  then have "length s = Suc (Suc (Suc (Suc n)))" by simp
  with that n show ?thesis by (auto simp: length_Suc_conv)
qed

lemma b64_last_group:
  assumes "b64_valid [c1, c2, c3, c4]" "b64_dec_groups (b64_pad [c1, c2, c3, c4]) [c1, c2, c3, c4] = Some x"
  shows "b64_groups x = [c1, c2, c3, c4]"
proof -
  consider (pad0) "c4 \<noteq> CHR ''=''" | (pad1) "c4 = CHR ''=''" "c3 \<noteq> CHR ''=''" | (pad2) "c4 = CHR ''=''" "c3 = CHR ''=''"
    by blast
  then show ?thesis
  proof cases
    case pad0
    then have p: "b64_pad [c1, c2, c3, c4] = 0" by (simp add: b64_pad_def cget_def)
    from assms(1) p have v: "0 \<le> b64_val c1" "0 \<le> b64_val c2" "0 \<le> b64_val c3" "0 \<le> b64_val c4"
      by (simp_all add: b64_valid_def)
    note w = v [THEN sx_and_63, symmetric]
    have "x = [ucast (drop_bit 16 (pack4 (sx c1) (sx c2) (sx c3) (sx c4))),
        ucast (drop_bit 8 (pack4 (sx c1) (sx c2) (sx c3) (sx c4))),
        ucast (pack4 (sx c1) (sx c2) (sx c3) (sx c4))]"
      using assms(2) p by (simp add: b64_dec_full Let_def del: b64_dec_groups.simps(1))
    then show ?thesis
      using pack3_pack4 [of "sx c1" "sx c2" "sx c3" "sx c4"] v
      by (simp add: b64_groups_3 b64_char_sx sx_and_63 del: b64_groups.simps(1))
  next
    case pad1
    then have p: "b64_pad [c1, c2, c3, c4] = Suc 0" by (simp add: b64_pad_def cget_def)
    from assms(1) p have v: "0 \<le> b64_val c1" "0 \<le> b64_val c2" "0 \<le> b64_val c3"
      by (simp_all add: b64_valid_def)
    from assms(2) p have z: "sx c3 AND 3 = 0"
      and x: "x = [ucast (drop_bit 16 (pack4 (sx c1) (sx c2) (sx c3) 0)),
        ucast (drop_bit 8 (pack4 (sx c1) (sx c2) (sx c3) 0))]"
      by (simp_all add: b64_dec_pad1 del: b64_dec_groups.simps(1) split: if_splits)
    show ?thesis
      using unpack_tail2 [of "sx c3" "sx c1" "sx c2"] v z pad1
      by (simp add: x b64_groups_2 b64_char_sx sx_and_63 del: b64_groups.simps(3))
  next
    case pad2
    then have p: "b64_pad [c1, c2, c3, c4] = 2" by (simp add: b64_pad_def cget_def)
    from assms(1) p have v: "0 \<le> b64_val c1" "0 \<le> b64_val c2"
      by (simp_all add: b64_valid_def)
    from assms(2) p have z: "sx c2 AND 15 = 0"
      and x: "x = [ucast (drop_bit 16 (pack4 (sx c1) (sx c2) 0 0))]"
      by (simp_all add: b64_dec_pad2 del: b64_dec_groups.simps(1) split: if_splits)
    show ?thesis
      using unpack_tail1 [of "sx c2" "sx c1"] v z pad2
      by (simp add: x b64_groups_1 b64_char_sx sx_and_63 del: b64_groups.simps(2))
  qed
qed

lemma b64_decoded_canonical:
  "length s mod 4 = 0 \<Longrightarrow> s \<noteq> [] \<Longrightarrow> b64_valid s \<Longrightarrow> b64_dec_groups (b64_pad s) s = Some x \<Longrightarrow>
   b64_groups x = s"
proof (induction "length s" arbitrary: s x rule: less_induct)
  case less
  obtain c1 c2 c3 c4 rest where s: "s = c1 # c2 # c3 # c4 # rest" "length rest mod 4 = 0"
    using list4_cases [OF less.prems(1,2)] .
  show ?case
  proof (cases "rest = []")
    case True
    with less.prems s show ?thesis using b64_last_group by simp
  next
    case False
    note st = b64_valid_step [OF s(2) False, of c1 c2 c3 c4] b64_pad_step [OF s(2) False, of c1 c2 c3 c4]
    from less.prems(3) s st have v: "0 \<le> b64_val c1" "0 \<le> b64_val c2" "0 \<le> b64_val c3" "0 \<le> b64_val c4"
      and vr: "b64_valid rest" by simp_all
    let ?w = "pack4 (sx c1) (sx c2) (sx c3) (sx c4)"
    from less.prems(4) False obtain out where out: "b64_dec_groups (b64_pad rest) rest = Some out"
      and x: "x = ucast (drop_bit 16 ?w) # ucast (drop_bit 8 ?w) # ucast ?w # out"
      unfolding s(1) st(2) by (auto simp: b64_dec_full Let_def simp del: b64_dec_groups.simps(1))
    have "b64_groups out = rest"
      using less.hyps [OF _ s(2) False vr out] s(1) by simp
    then show ?thesis
      using pack3_pack4 [of "sx c1" "sx c2" "sx c3" "sx c4"] v
      by (simp add: x s(1) b64_groups_3 b64_char_sx sx_and_63 del: b64_groups.simps(1))
  qed
qed

lemma base64_decode_eq:
  "astools_base64_decode s =
     (if length s mod 4 \<noteq> 0 then None
      else if s = [] then Some []
      else if b64_valid s then b64_dec_groups (b64_pad s) s else None)"
  unfolding astools_base64_decode_def b64_valid_def Let_def by (auto simp: not_le)

interpretation base64: canonical_codec b64_groups astools_base64_decode "\<lambda>_. True"
proof unfold_locales
  fix x :: "byte list"
  show "astools_base64_decode (b64_groups x) = Some x"
    using b64_groups_decodable [of x] length_b64_groups [of x]
    by (cases "x = []") (simp_all add: base64_decode_eq)
next
  fix s x
  assume "astools_base64_decode s = Some x"
  then show "True \<and> b64_groups x = s"
    by (auto simp: base64_decode_eq intro!: b64_decoded_canonical split: if_splits)
qed

text \<open>
  C16: Base64 is a bijection between byte strings and the texts the decoder accepts: it decodes the
  text of every array back to the array, and it accepts no text but the canonical one, padding bits
  included. Encoding refuses only inputs whose text would not fit \<open>size_t\<close>.
\<close>

theorem base64_canonical:
  "astools_base64_decode s = Some x \<and> length x \<le> (SIZE_MAX div 4) * 3 - 2 \<longleftrightarrow>
   astools_base64_encode x = Some s"
  using base64.dec_iff [of s x] by (auto simp: astools_base64_encode_def)

end
