(* ===== verification/As_Utf8.thy ===== *)
theory As_Utf8
  imports As_Prelude
begin

unbundle bit_operations_syntax

text \<open>
  \<^verbatim>\<open>src/utf8.c\<close>, the byte validation shared by the JSON reader and the process-output transport.
  \<open>jx_utf8_seq\<close> and \<open>jx_utf8_valid\<close> are the code; \<open>utf8_encode\<close> is the encoding scheme of RFC 3629,
  written independently of the code's lead-byte tables. The result is that the validator accepts
  exactly the concatenations of encoded Unicode scalar values.
\<close>

section \<open>The code\<close>

text \<open>\<open>p\<close> is the byte buffer from the cursor on, so its length is \<open>avail\<close>; 0 is "not well-formed".\<close>

definition jx_utf8_seq :: "byte list \<Rightarrow> nat" where
  "jx_utf8_seq p =
     (if p = [] then 0
      else let c = p ! 0 in
        if c < 0x80 then 1
        else if c < 0xC2 then 0
        else if c < 0xE0 then
          (if length p < 2 \<or> (p ! 1) AND 0xC0 \<noteq> 0x80 then 0 else 2)
        else if c < 0xF0 then
          (if length p < 3 then 0
           else if (p ! 1) AND 0xC0 \<noteq> 0x80 \<or> (p ! 2) AND 0xC0 \<noteq> 0x80 then 0
           else if c = 0xE0 \<and> p ! 1 < 0xA0 then 0
           else if c = 0xED \<and> p ! 1 > 0x9F then 0
           else 3)
        else if c < 0xF5 then
          (if length p < 4 then 0
           else if (p ! 1) AND 0xC0 \<noteq> 0x80 \<or> (p ! 2) AND 0xC0 \<noteq> 0x80
                 \<or> (p ! 3) AND 0xC0 \<noteq> 0x80 then 0
           else if c = 0xF0 \<and> p ! 1 < 0x90 then 0
           else if c = 0xF4 \<and> p ! 1 > 0x8F then 0
           else 4)
        else 0)"

function jx_utf8_valid :: "byte list \<Rightarrow> bool" where
  "jx_utf8_valid p =
     (if p = [] then True
      else let n = jx_utf8_seq p in
        if n = 0 then False else jx_utf8_valid (drop n p))"
  by pat_completeness auto
termination
  by (relation "measure length") auto

declare jx_utf8_valid.simps [simp del]

section \<open>RFC 3629\<close>

definition scalar_value :: "nat \<Rightarrow> bool" where
  "scalar_value cp \<longleftrightarrow> cp < 0x110000 \<and> \<not> (0xD800 \<le> cp \<and> cp \<le> 0xDFFF)"

definition utf8_encode :: "nat \<Rightarrow> byte list" where
  "utf8_encode cp =
     (if cp < 0x80 then [word_of_nat cp]
      else if cp < 0x800 then [word_of_nat (0xC0 + cp div 64), word_of_nat (0x80 + cp mod 64)]
      else if cp < 0x10000 then
        [word_of_nat (0xE0 + cp div 4096), word_of_nat (0x80 + cp div 64 mod 64),
         word_of_nat (0x80 + cp mod 64)]
      else
        [word_of_nat (0xF0 + cp div 262144), word_of_nat (0x80 + cp div 4096 mod 64),
         word_of_nat (0x80 + cp div 64 mod 64), word_of_nat (0x80 + cp mod 64)])"

section \<open>Bytes as numbers\<close>

lemma unat_byte_lt: "unat (b :: byte) < 256"
  using unsigned_less [of b, where 'a = nat] by simp

lemma unat_of_byte: "n < 256 \<Longrightarrow> unat (word_of_nat n :: byte) = n"
  by (simp add: unat_of_nat)

lemma byte_eq_iff: "b = (c :: byte) \<longleftrightarrow> unat b = unat c"
  by (simp add: word_unat_eq_iff)

lemma word_of_nat_eqI: "n = unat b \<Longrightarrow> word_of_nat n = (b :: byte)"
  by simp

text \<open>The test \<open>(b & 0xC0) != 0x80\<close> looks at the two high bits.\<close>

lemma and_C0: "(b :: byte) AND 0xC0 = push_bit 6 (drop_bit 6 b)"
proof (rule bit_eqI)
  fix n
  have m: "(0xC0 :: byte) = push_bit 6 (mask 2)" by (simp add: mask_eq_exp_minus_1)
  show "bit (b AND 0xC0) n = bit (push_bit 6 (drop_bit 6 b)) n"
    unfolding m by (auto simp: bit_simps dest: bit_imp_le_length)
qed

definition is_cont :: "byte \<Rightarrow> bool" where
  "is_cont b \<longleftrightarrow> 128 \<le> unat b \<and> unat b < 192"

lemma cont_byte: "(b :: byte) AND 0xC0 = 0x80 \<longleftrightarrow> is_cont b"
proof -
  have "unat (push_bit 6 (drop_bit 6 b)) = unat b div 64 * 64"
    using unat_byte_lt [of b]
    by (simp add: push_bit_eq_mult drop_bit_eq_div unat_word_ariths unat_div)
  then show ?thesis unfolding and_C0 byte_eq_iff is_cont_def by simp linarith
qed

text \<open>The sequence test on the values of the bytes.\<close>

lemma seq_Cons: "jx_utf8_seq (c # p) =
    (if unat c < 128 then 1
     else if unat c < 194 then 0
     else if unat c < 224 then (case p of b1 # _ \<Rightarrow> if is_cont b1 then 2 else 0 | _ \<Rightarrow> 0)
     else if unat c < 240 then
       (case p of b1 # b2 # _ \<Rightarrow>
          if \<not> is_cont b1 \<or> \<not> is_cont b2 then 0
          else if unat c = 224 \<and> unat b1 < 160 then 0
          else if unat c = 237 \<and> unat b1 > 159 then 0 else 3
        | _ \<Rightarrow> 0)
     else if unat c < 245 then
       (case p of b1 # b2 # b3 # _ \<Rightarrow>
          if \<not> is_cont b1 \<or> \<not> is_cont b2 \<or> \<not> is_cont b3 then 0
          else if unat c = 240 \<and> unat b1 < 144 then 0
          else if unat c = 244 \<and> unat b1 > 143 then 0 else 4
        | _ \<Rightarrow> 0)
     else 0)"
  by (cases p; cases "tl p"; cases "tl (tl p)")
    (simp_all add: jx_utf8_seq_def Let_def word_less_nat_alt cont_byte, simp_all add: byte_eq_iff)

lemma seq_1: "jx_utf8_seq (c # p) = 1 \<longleftrightarrow> unat c < 128"
  unfolding seq_Cons by (simp split: list.split)

lemma seq_2: "jx_utf8_seq (c # p) = 2 \<longleftrightarrow>
    194 \<le> unat c \<and> unat c < 224 \<and> (\<exists>b1 q. p = b1 # q \<and> is_cont b1)"
  unfolding seq_Cons by (auto split: list.split)

lemma seq_3: "jx_utf8_seq (c # p) = 3 \<longleftrightarrow>
    224 \<le> unat c \<and> unat c < 240 \<and> (\<exists>b1 b2 q. p = b1 # b2 # q \<and> is_cont b1 \<and> is_cont b2
      \<and> \<not> (unat c = 224 \<and> unat b1 < 160) \<and> \<not> (unat c = 237 \<and> unat b1 > 159))"
  unfolding seq_Cons by (auto split: list.split)

lemma seq_4: "jx_utf8_seq (c # p) = 4 \<longleftrightarrow>
    240 \<le> unat c \<and> unat c < 245 \<and> (\<exists>b1 b2 b3 q. p = b1 # b2 # b3 # q
      \<and> is_cont b1 \<and> is_cont b2 \<and> is_cont b3 \<and> \<not> (unat c = 240 \<and> unat b1 < 144)
      \<and> \<not> (unat c = 244 \<and> unat b1 > 143))"
  unfolding seq_Cons by (auto split: list.split)

lemma seq_range: "jx_utf8_seq p \<in> {0, 1, 2, 3, 4}"
  by (simp add: jx_utf8_seq_def Let_def)

lemma seq_le_length: "jx_utf8_seq p \<le> length p"
  by (cases p) (simp_all add: jx_utf8_seq_def [of "[]"] seq_Cons split: list.split)

section \<open>Soundness and completeness of one sequence\<close>

text \<open>The encoder on a code point given by its 6-bit digits.\<close>

lemma radix_64:
  fixes k0 k1 :: nat
  assumes "k1 < 64"
  shows "(k0 * 64 + k1) div 64 = k0" "(k0 * 64 + k1) mod 64 = k1"
  using assms by simp_all

lemma encode_2:
  assumes "2 \<le> k0" "k0 < 32" "k1 < 64"
  shows "utf8_encode (k0 * 64 + k1) = [word_of_nat (0xC0 + k0), word_of_nat (0x80 + k1)]"
  unfolding utf8_encode_def radix_64 [OF assms(3)] using assms by simp

lemma encode_3:
  assumes "k0 < 16" "k1 < 64" "k2 < 64" "k0 = 0 \<Longrightarrow> 32 \<le> k1"
  shows "utf8_encode ((k0 * 64 + k1) * 64 + k2) =
    [word_of_nat (0xE0 + k0), word_of_nat (0x80 + k1), word_of_nat (0x80 + k2)]"
proof -
  let ?cp = "(k0 * 64 + k1) * 64 + k2"
  have "?cp div 4096 = ?cp div 64 div 64" by (simp add: div_mult2_eq [symmetric])
  then have "?cp div 4096 = k0" "?cp div 64 mod 64 = k1" "?cp mod 64 = k2"
    using radix_64 assms(2,3) by metis+
  moreover have "\<not> ?cp < 2048" "\<not> ?cp < 128" "?cp < 65536"
    using assms by (cases "k0 = 0", auto)
  ultimately show ?thesis unfolding utf8_encode_def by simp
qed

lemma encode_4:
  assumes "k1 < 64" "k2 < 64" "k3 < 64" "k0 = 0 \<Longrightarrow> 16 \<le> k1"
  shows "utf8_encode (((k0 * 64 + k1) * 64 + k2) * 64 + k3) =
    [word_of_nat (0xF0 + k0), word_of_nat (0x80 + k1), word_of_nat (0x80 + k2), word_of_nat (0x80 + k3)]"
proof -
  let ?cp = "((k0 * 64 + k1) * 64 + k2) * 64 + k3"
  have "?cp div 4096 = ?cp div 64 div 64" "?cp div 262144 = ?cp div 64 div 64 div 64"
    by (simp_all add: div_mult2_eq [symmetric])
  then have "?cp div 262144 = k0" "?cp div 4096 mod 64 = k1" "?cp div 64 mod 64 = k2" "?cp mod 64 = k3"
    using radix_64 assms(1,2,3) by metis+
  moreover have "\<not> ?cp < 65536" using assms by (cases "k0 = 0", auto)
  moreover from this have "\<not> ?cp < 2048" "\<not> ?cp < 128" by linarith+
  ultimately show ?thesis unfolding utf8_encode_def by simp
qed

lemma seq_sound:
  assumes "jx_utf8_seq p \<noteq> 0"
  shows "\<exists>cp. scalar_value cp \<and> take (jx_utf8_seq p) p = utf8_encode cp"
proof -
  obtain c q where p: "p = c # q" using assms by (cases p) (auto simp: jx_utf8_seq_def)
  consider (one) "jx_utf8_seq (c # q) = 1" | (two) "jx_utf8_seq (c # q) = 2"
    | (three) "jx_utf8_seq (c # q) = 3" | (four) "jx_utf8_seq (c # q) = 4"
    using assms seq_range [of p] p by auto
  then show ?thesis
  proof cases
    case one
    then have "unat c < 128" unfolding seq_1 .
    then show ?thesis
      by (intro exI [of _ "unat c"]) (simp add: p scalar_value_def utf8_encode_def one)
  next
    case two
    then obtain b1 r where h: "194 \<le> unat c" "unat c < 224" "q = b1 # r" "128 \<le> unat b1" "unat b1 < 192"
      unfolding seq_2 is_cont_def by blast
    obtain k0 k1 where k: "unat c = 192 + k0" "unat b1 = 128 + k1"
      using le_Suc_ex [of 192 "unat c"] le_Suc_ex [of 128 "unat b1"] h by auto
    have lim: "2 \<le> k0" "k0 < 32" "k1 < 64" using h k by auto
    have "utf8_encode (k0 * 64 + k1) = [c, b1]"
      unfolding encode_2 [OF lim] by (simp add: word_of_nat_eqI k del: of_nat_add)
    then show ?thesis using two h lim
      by (intro exI [of _ "k0 * 64 + k1"]) (simp add: p scalar_value_def)
  next
    case three
    then obtain b1 b2 r where h: "224 \<le> unat c" "unat c < 240" "q = b1 # b2 # r"
      "128 \<le> unat b1" "unat b1 < 192" "128 \<le> unat b2" "unat b2 < 192"
      "\<not> (unat c = 224 \<and> unat b1 < 160)" "\<not> (unat c = 237 \<and> unat b1 > 159)"
      unfolding seq_3 is_cont_def by blast
    obtain k0 k1 k2 where k: "unat c = 224 + k0" "unat b1 = 128 + k1" "unat b2 = 128 + k2"
      using le_Suc_ex [of 224 "unat c"] le_Suc_ex [of 128 "unat b1"] le_Suc_ex [of 128 "unat b2"] h by auto
    have lim: "k0 < 16" "k1 < 64" "k2 < 64" "k0 = 0 \<Longrightarrow> 32 \<le> k1" "k0 = 13 \<Longrightarrow> k1 < 32"
      using h k by auto
    have "utf8_encode ((k0 * 64 + k1) * 64 + k2) = [c, b1, b2]"
      using encode_3 [of k0 k1 k2] lim(1-4) by (simp add: word_of_nat_eqI k del: of_nat_add)
    moreover have "scalar_value ((k0 * 64 + k1) * 64 + k2)"
    proof -
      consider "k0 < 13" | "k0 = 13" | "13 < k0" by linarith
      then show ?thesis using lim by cases (auto simp: scalar_value_def)
    qed
    ultimately show ?thesis using three h
      by (intro exI [of _ "(k0 * 64 + k1) * 64 + k2"]) (simp add: p)
  next
    case four
    then obtain b1 b2 b3 r where h: "240 \<le> unat c" "unat c < 245" "q = b1 # b2 # b3 # r"
      "128 \<le> unat b1" "unat b1 < 192" "128 \<le> unat b2" "unat b2 < 192" "128 \<le> unat b3" "unat b3 < 192"
      "\<not> (unat c = 240 \<and> unat b1 < 144)" "\<not> (unat c = 244 \<and> unat b1 > 143)"
      unfolding seq_4 is_cont_def by blast
    obtain k0 k1 k2 k3 where k: "unat c = 240 + k0" "unat b1 = 128 + k1" "unat b2 = 128 + k2" "unat b3 = 128 + k3"
      using le_Suc_ex [of 240 "unat c"] le_Suc_ex [of 128 "unat b1"] le_Suc_ex [of 128 "unat b2"]
        le_Suc_ex [of 128 "unat b3"] h by auto
    have lim: "k0 < 5" "k1 < 64" "k2 < 64" "k3 < 64" "k0 = 0 \<Longrightarrow> 16 \<le> k1" "k0 = 4 \<Longrightarrow> k1 < 16"
      using h k by auto
    have "utf8_encode (((k0 * 64 + k1) * 64 + k2) * 64 + k3) = [c, b1, b2, b3]"
      using encode_4 [of k1 k2 k3 k0] lim(2-5) by (simp add: word_of_nat_eqI k del: of_nat_add)
    moreover have "scalar_value (((k0 * 64 + k1) * 64 + k2) * 64 + k3)"
    proof -
      consider "k0 = 0" | "0 < k0" "k0 < 4" | "k0 = 4" using lim(1) by linarith
      then show ?thesis using lim by cases (auto simp: scalar_value_def)
    qed
    ultimately show ?thesis using four h
      by (intro exI [of _ "((k0 * 64 + k1) * 64 + k2) * 64 + k3"]) (simp add: p)
  qed
qed

lemma digits_64: "\<exists>k0 k1. n = k0 * 64 + k1 \<and> k1 < (64 :: nat)"
  by (metis div_mult_mod_eq mod_less_divisor zero_less_numeral)

lemma seq_complete:
  assumes "scalar_value cp"
  shows "jx_utf8_seq (utf8_encode cp @ rest) = length (utf8_encode cp)"
proof -
  have sv: "cp < 0x110000" "\<not> (0xD800 \<le> cp \<and> cp \<le> 0xDFFF)"
    using assms by (auto simp: scalar_value_def)
  obtain a k3 where a: "cp = a * 64 + k3" "k3 < 64" using digits_64 by blast
  obtain b k2 where b: "a = b * 64 + k2" "k2 < 64" using digits_64 by blast
  obtain c k1 where c: "b = c * 64 + k1" "k1 < 64" using digits_64 by blast
  consider (1) "cp < 0x80" | (2) "0x80 \<le> cp" "cp < 0x800" | (3) "0x800 \<le> cp" "cp < 0x10000"
    | (4) "0x10000 \<le> cp" by linarith
  then show ?thesis
  proof cases
    case 1
    then have "jx_utf8_seq (word_of_nat cp # rest) = 1"
      unfolding seq_1 by (simp add: unat_of_byte)
    with 1 show ?thesis by (simp add: utf8_encode_def)
  next
    case 2
    with a have lim: "2 \<le> a" "a < 32" "k3 < 64" by auto
    have "jx_utf8_seq (word_of_nat (0xC0 + a) # word_of_nat (0x80 + k3) # rest) = 2"
      unfolding seq_2 is_cont_def using lim by (simp add: unat_of_byte del: of_nat_add)
    then show ?thesis unfolding a(1) encode_2 [OF lim] by simp
  next
    case 3
    with a b have lim: "b < 16" "k2 < 64" "k3 < 64" "b = 0 \<Longrightarrow> 32 \<le> k2" by auto
    have surr: "b = 13 \<Longrightarrow> k2 < 32" using sv(2) a b by auto
    have u: "unat (word_of_nat (0xE0 + b) :: byte) = 0xE0 + b"
      "unat (word_of_nat (0x80 + k2) :: byte) = 0x80 + k2"
      "unat (word_of_nat (0x80 + k3) :: byte) = 0x80 + k3"
      by (rule unat_of_byte, use lim in simp)+
    have "jx_utf8_seq (word_of_nat (0xE0 + b) # word_of_nat (0x80 + k2) # word_of_nat (0x80 + k3) # rest) = 3"
      unfolding seq_3 is_cont_def using lim surr by (auto simp: u simp del: of_nat_add)
    then show ?thesis
      using encode_3 [of b k2 k3] lim by (simp add: a(1) b(1) del: of_nat_add)
  next
    case 4
    with a b c have lim: "k1 < 64" "k2 < 64" "k3 < 64" "c = 0 \<Longrightarrow> 16 \<le> k1" by auto
    have top: "c < 5" "c = 4 \<Longrightarrow> k1 < 16" using sv(1) a b c by auto
    have u: "unat (word_of_nat (0xF0 + c) :: byte) = 0xF0 + c"
      "unat (word_of_nat (0x80 + k1) :: byte) = 0x80 + k1"
      "unat (word_of_nat (0x80 + k2) :: byte) = 0x80 + k2"
      "unat (word_of_nat (0x80 + k3) :: byte) = 0x80 + k3"
      by (rule unat_of_byte, use lim top in simp)+
    have "jx_utf8_seq (word_of_nat (0xF0 + c) # word_of_nat (0x80 + k1) # word_of_nat (0x80 + k2) #
        word_of_nat (0x80 + k3) # rest) = 4"
      unfolding seq_4 is_cont_def using lim top by (auto simp: u simp del: of_nat_add)
    then show ?thesis
      using encode_4 [of k1 k2 k3 c] lim by (simp add: a(1) b(1) c(1) del: of_nat_add)
  qed
qed

lemma utf8_encode_nonempty: "utf8_encode cp \<noteq> []"
  by (simp add: utf8_encode_def)

lemma valid_encode_append:
  "scalar_value cp \<Longrightarrow> jx_utf8_valid (utf8_encode cp @ rest) = jx_utf8_valid rest"
  by (subst jx_utf8_valid.simps) (simp add: seq_complete utf8_encode_nonempty Let_def)

lemma valid_Nil [simp]: "jx_utf8_valid []"
  by (simp add: jx_utf8_valid.simps)

section \<open>The validator\<close>

lemma valid_concat: "list_all scalar_value cps \<Longrightarrow> jx_utf8_valid (concat (map utf8_encode cps))"
  by (induction cps) (simp_all add: valid_encode_append)

lemma valid_decomposes:
  "jx_utf8_valid p \<Longrightarrow> \<exists>cps. list_all scalar_value cps \<and> p = concat (map utf8_encode cps)"
proof (induction p rule: jx_utf8_valid.induct)
  case (1 p)
  show ?case
  proof (cases "p = []")
    case True
    then show ?thesis by (intro exI [of _ "[]"]) simp
  next
    case False
    with "1.prems" have n: "jx_utf8_seq p \<noteq> 0" "jx_utf8_valid (drop (jx_utf8_seq p) p)"
      by (subst (asm) jx_utf8_valid.simps; simp add: Let_def split: if_splits)+
    from "1.IH" [OF False refl n] obtain cps where cps: "list_all scalar_value cps"
      "drop (jx_utf8_seq p) p = concat (map utf8_encode cps)" by blast
    from seq_sound [OF n(1)] obtain cp where cp: "scalar_value cp" "take (jx_utf8_seq p) p = utf8_encode cp"
      by blast
    have "p = concat (map utf8_encode (cp # cps))"
      using cps(2) cp(2) by (metis append_take_drop_id concat.simps(2) list.simps(9))
    with cps(1) cp(1) show ?thesis by (intro exI [of _ "cp # cps"]) simp
  qed
qed

text \<open>C21: The UTF-8 validator accepts a byte string exactly when it is the concatenation of the RFC 3629
  encodings of Unicode scalar values: overlong forms, surrogates, code points above U+10FFFF,
  stray continuation bytes and truncated sequences are all rejected, and nothing else is.\<close>

theorem utf8_valid_iff_scalar_values:
  "jx_utf8_valid p \<longleftrightarrow> (\<exists>cps. list_all scalar_value cps \<and> p = concat (map utf8_encode cps))"
  using valid_concat valid_decomposes by blast

end
