(* ===== verification/As_Duration.thy ===== *)
theory As_Duration
  imports As_Prelude
begin

text \<open>
  \<^verbatim>\<open>src/duration.c\<close>: the fixed-duration profile of ISO 8601 that contracts, configuration and
  tools share, parsed to milliseconds, and the renderer of \<^verbatim>\<open>src/manifest.c\<close>. The parser is
  shown equivalent to a grammar of duration texts with their exact value.
\<close>

section \<open>The parser\<close>

text \<open>
  Cursors are suffixes of the text. The guards of the 64-bit arithmetic are the code's; all
  operands are non-negative, so C's division is \<open>div\<close>.
\<close>

fun dur_digits :: "nat \<Rightarrow> int \<Rightarrow> string \<Rightarrow> (int \<times> string) option" where
  "dur_digits k n [] = Some (n, [])"
| "dur_digits k n (c # s) =
     (if is_digit c then
        if k + 1 > 19 \<or> n > (INT64_MAX - int (digit_val c)) div 10 then None
        else dur_digits (k + 1) (n * 10 + int (digit_val c)) s
      else Some (n, c # s))"

definition dur_number :: "string \<Rightarrow> (int \<times> string) option" where
  "dur_number s = (if \<not> is_digit (cur s) then None else dur_digits 0 0 s)"

definition dur_add :: "int \<Rightarrow> int \<Rightarrow> int \<Rightarrow> int \<Rightarrow> int option" where
  "dur_add tot n unit fraction =
     (if tot > INT64_MAX - fraction \<or> n > (INT64_MAX - tot - fraction) div unit then None
      else Some (tot + (n * unit + fraction)))"

fun dur_frac :: "int \<Rightarrow> int \<Rightarrow> string \<Rightarrow> (int \<times> string) option" where
  "dur_frac scale acc [] = Some (acc, [])"
| "dur_frac scale acc (c # s) =
     (if is_digit c then
        if scale = 0 then None
        else dur_frac (scale div 10) (acc + int (digit_val c) * scale) s
      else Some (acc, c # s))"

text \<open>The optional decimal part of the time loop.\<close>

definition dur_decimal :: "string \<Rightarrow> (int \<times> string) option" where
  "dur_decimal s =
     (if cur s = CHR ''.'' then
        if \<not> is_digit (cur (tl s)) then None else dur_frac 100 0 (tl s)
      else Some (0, s))"

text \<open>The unit of a suffix and the next stage.\<close>

definition dur_unit :: "char \<Rightarrow> nat \<Rightarrow> bool \<Rightarrow> (int \<times> nat) option" where
  "dur_unit suffix stage decimal =
     (if suffix = CHR ''H'' \<and> stage < 1 \<and> \<not> decimal then Some (3600000, 1)
      else if suffix = CHR ''M'' \<and> stage < 2 \<and> \<not> decimal then Some (60000, 2)
      else if suffix = CHR ''S'' \<and> stage < 3 then Some (1000, 3)
      else None)"

lemma dur_unit_stage:
  "dur_unit suffix stage decimal = Some (unit, stage') \<Longrightarrow> stage < stage' \<and> stage' \<le> 3 \<and> 0 < unit"
  by (auto simp: dur_unit_def split: if_splits)

function dur_time :: "nat \<Rightarrow> int \<Rightarrow> string \<Rightarrow> int option" where
  "dur_time stage tot s =
     (if s = [] then Some tot
      else case dur_number s of
        None \<Rightarrow> None
      | Some (n, s1) \<Rightarrow>
         (case dur_decimal s1 of
            None \<Rightarrow> None
          | Some (fraction, s2) \<Rightarrow>
             (case dur_unit (cur s2) stage (cur s1 = CHR ''.'') of
                None \<Rightarrow> None
              | Some (unit, stage') \<Rightarrow>
                 (case dur_add tot n unit fraction of
                    None \<Rightarrow> None
                  | Some tot' \<Rightarrow> dur_time stage' tot' (tl s2)))))"
  by pat_completeness auto
termination
  by (relation "measure (\<lambda>(stage, _, _). 3 - stage)") (auto dest!: dur_unit_stage)

declare dur_time.simps [simp del]

definition dur_time_part :: "int \<Rightarrow> string \<Rightarrow> int option" where
  "dur_time_part tot s =
     (if cur s \<noteq> CHR ''T'' \<or> tl s = [] then None else dur_time 0 tot (tl s))"

definition astools_duration_parse_ms :: "string option \<Rightarrow> int option" where
  "astools_duration_parse_ms text =
     (case text of
        None \<Rightarrow> None
      | Some s0 \<Rightarrow>
         (if cur s0 \<noteq> CHR ''P'' \<or> tl s0 = [] then None
          else let s = tl s0 in
            if cur s \<noteq> CHR ''T'' then
              (case dur_number s of
                 None \<Rightarrow> None
               | Some (n, s1) \<Rightarrow>
                   let unit = cur s1; s2 = tl s1 in
                   if unit = CHR ''W'' then
                     (if s2 \<noteq> [] then None else dur_add 0 n 604800000 0)
                   else if unit \<noteq> CHR ''D'' then None
                   else (case dur_add 0 n 86400000 0 of
                           None \<Rightarrow> None
                         | Some tot \<Rightarrow> if s2 = [] then Some tot else dur_time_part tot s2))
            else dur_time_part 0 s))"

text \<open>
  The period test of \<open>dur_node_ms\<close> on the text of a duration node, and the renderer
  \<open>val_duration_ms\<close> (for the non-negative values that reach it).
\<close>

definition ASTOOLS_PERIOD_MAX_MS :: int where
  "ASTOOLS_PERIOD_MAX_MS = 4294967294"

definition dur_node_ms :: "string option \<Rightarrow> int option" where
  "dur_node_ms s =
     (case astools_duration_parse_ms s of
        None \<Rightarrow> None
      | Some ms \<Rightarrow> if ms \<le> 0 \<or> ms > ASTOOLS_PERIOD_MAX_MS then None else Some ms)"

definition pad3 :: "nat \<Rightarrow> string" where
  "pad3 n = [digit_char (n div 100 mod 10), digit_char (n div 10 mod 10), digit_char (n mod 10)]"

definition val_duration_ms :: "nat \<Rightarrow> string" where
  "val_duration_ms ms =
     (if ms mod 1000 \<noteq> 0
      then ''PT'' @ dec_str (ms div 1000) @ ''.'' @ pad3 (ms mod 1000) @ ''S''
      else ''PT'' @ dec_str (ms div 1000) @ ''S'')"

section \<open>Duration texts\<close>

text \<open>
  The profile as a grammar: weeks alone, or days and then hours, minutes and seconds in that
  order, each a run of 1 to 19 digits, the seconds with up to three decimals.
\<close>

datatype iso_duration =
    Weeks string
  | Dhms "string option" "string option" "string option" "(string \<times> string option) option"

definition num_ok :: "string \<Rightarrow> bool" where
  "num_ok ds \<longleftrightarrow> ds \<noteq> [] \<and> length ds \<le> 19 \<and> list_all is_digit ds"

definition frac_ok :: "string \<Rightarrow> bool" where
  "frac_ok ds \<longleftrightarrow> ds \<noteq> [] \<and> length ds \<le> 3 \<and> list_all is_digit ds"

fun iso_wf :: "iso_duration \<Rightarrow> bool" where
  "iso_wf (Weeks w) \<longleftrightarrow> num_ok w"
| "iso_wf (Dhms d h m s) \<longleftrightarrow>
     (d, h, m, s) \<noteq> (None, None, None, None) \<and>
     pred_option num_ok d \<and> pred_option num_ok h \<and> pred_option num_ok m \<and>
     pred_option (\<lambda>(n, f). num_ok n \<and> pred_option frac_ok f) s"

definition part :: "string option \<Rightarrow> char \<Rightarrow> string" where
  "part x u = (case x of None \<Rightarrow> [] | Some ds \<Rightarrow> ds @ [u])"

definition frac_text :: "string option \<Rightarrow> string" where
  "frac_text f = (case f of None \<Rightarrow> [] | Some fs \<Rightarrow> CHR ''.'' # fs)"

definition secs_text :: "(string \<times> string option) option \<Rightarrow> string" where
  "secs_text s = (case s of None \<Rightarrow> [] | Some (ds, f) \<Rightarrow> ds @ frac_text f @ [CHR ''S''])"

fun iso_text :: "iso_duration \<Rightarrow> string" where
  "iso_text (Weeks w) = ''P'' @ w @ ''W''"
| "iso_text (Dhms d h m s) =
     ''P'' @ part d (CHR ''D'') @
     (if (h, m, s) = (None, None, None) then []
      else ''T'' @ part h (CHR ''H'') @ part m (CHR ''M'') @ secs_text s)"

definition part_ms :: "string option \<Rightarrow> int \<Rightarrow> int" where
  "part_ms x unit = (case x of None \<Rightarrow> 0 | Some ds \<Rightarrow> int (dec_val ds) * unit)"

text \<open>Thousandths: the decimals padded to three.\<close>

definition frac_ms :: "string \<Rightarrow> int" where
  "frac_ms fs = int (dec_val (fs @ replicate (3 - length fs) (CHR ''0'')))"

definition opt_frac_ms :: "string option \<Rightarrow> int" where
  "opt_frac_ms f = (case f of None \<Rightarrow> 0 | Some fs \<Rightarrow> frac_ms fs)"

definition secs_ms :: "(string \<times> string option) option \<Rightarrow> int" where
  "secs_ms s = (case s of None \<Rightarrow> 0 | Some (ds, f) \<Rightarrow> int (dec_val ds) * 1000 + opt_frac_ms f)"

fun iso_ms :: "iso_duration \<Rightarrow> int" where
  "iso_ms (Weeks w) = int (dec_val w) * 604800000"
| "iso_ms (Dhms d h m s) = part_ms d 86400000 + part_ms h 3600000 + part_ms m 60000 + secs_ms s"

section \<open>The parser against the grammar\<close>

text \<open>A digit run is determined by the text: two splittings into digits and the rest agree.\<close>

lemma digit_run_unique:
  "ds @ r = ds' @ r' \<Longrightarrow> list_all is_digit ds \<Longrightarrow> list_all is_digit ds' \<Longrightarrow>
   \<not> is_digit (cur r) \<Longrightarrow> \<not> is_digit (cur r') \<Longrightarrow> ds = ds' \<and> r = r'"
proof (induction ds arbitrary: ds')
  case Nil
  then show ?case by (cases ds') auto
next
  case (Cons c ds)
  then show ?case by (cases ds') auto
qed

lemma dur_digits_iff:
  "0 \<le> n \<Longrightarrow> n \<le> INT64_MAX \<Longrightarrow> k \<le> 19 \<Longrightarrow>
   dur_digits k n s = Some (v, r) \<longleftrightarrow>
   (\<exists>ds. s = ds @ r \<and> list_all is_digit ds \<and> \<not> is_digit (cur r) \<and> k + length ds \<le> 19 \<and>
         v = n * 10 ^ length ds + int (dec_val ds) \<and> v \<le> INT64_MAX)"
proof (induction k n s rule: dur_digits.induct)
  case (1 k n)
  then show ?case by (auto simp: INT64_MAX_def)
next
  case (2 k n c s)
  show ?case
  proof (cases "is_digit c")
    case False
    have "(\<exists>ds. c # s = ds @ r \<and> list_all is_digit ds \<and> \<not> is_digit (cur r) \<and> k + length ds \<le> 19 \<and>
         v = n * 10 ^ length ds + int (dec_val ds) \<and> v \<le> INT64_MAX) \<longleftrightarrow> r = c # s \<and> v = n"
      (is "(\<exists>ds. ?P ds) \<longleftrightarrow> ?R")
    proof
      assume "\<exists>ds. ?P ds"
      then obtain ds where "?P ds" by blast
      with False show ?R by (cases ds) auto
    next
      assume ?R
      with False "2.prems" have "?P []" by simp
      then show "\<exists>ds. ?P ds" by blast
    qed
    with False show ?thesis by auto
  next
    case True
    let ?d = "int (digit_val c)"
    let ?n = "n * 10 + ?d"
    have step: "(\<exists>ds. c # s = ds @ r \<and> list_all is_digit ds \<and> \<not> is_digit (cur r) \<and> k + length ds \<le> 19 \<and>
         v = n * 10 ^ length ds + int (dec_val ds) \<and> v \<le> INT64_MAX) \<longleftrightarrow>
       (\<exists>ds. s = ds @ r \<and> list_all is_digit ds \<and> \<not> is_digit (cur r) \<and> k + 1 + length ds \<le> 19 \<and>
         v = ?n * 10 ^ length ds + int (dec_val ds) \<and> v \<le> INT64_MAX)" (is "(\<exists>ds. ?P ds) \<longleftrightarrow> (\<exists>ds. ?Q ds)")
    proof
      assume "\<exists>ds. ?P ds"
      then obtain ds where P: "?P ds" by blast
      with True obtain ds' where ds: "ds = c # ds'" by (cases ds) auto
      from P have "?Q ds'" unfolding ds by (auto simp: dec_val_Cons algebra_simps)
      then show "\<exists>ds. ?Q ds" by blast
    next
      assume "\<exists>ds. ?Q ds"
      then obtain ds where "?Q ds" by blast
      with True have "?P (c # ds)" by (auto simp: dec_val_Cons algebra_simps)
      then show "\<exists>ds. ?P ds" by blast
    qed
    show ?thesis
    proof (cases "k + 1 > 19 \<or> n > (INT64_MAX - ?d) div 10")
      case big: True
      have "\<not> ?n * 10 ^ length ds + int (dec_val ds) \<le> INT64_MAX" if "n > (INT64_MAX - ?d) div 10" for ds
      proof -
        have "?n > INT64_MAX" using that by linarith
        moreover have "?n * 1 \<le> ?n * 10 ^ length ds"
          using "2.prems" by (intro mult_left_mono) simp_all
        ultimately show ?thesis by simp
      qed
      with big have "\<not> (\<exists>ds. s = ds @ r \<and> list_all is_digit ds \<and> \<not> is_digit (cur r) \<and> k + 1 + length ds \<le> 19 \<and>
         v = ?n * 10 ^ length ds + int (dec_val ds) \<and> v \<le> INT64_MAX)" by auto
      with big True step show ?thesis by simp
    next
      case small: False
      then have "?n \<le> INT64_MAX" by linarith
      moreover have "0 \<le> ?n" using "2.prems" by simp
      ultimately show ?thesis
        using small True step "2.IH" by simp
    qed
  qed
qed

lemma dur_number_iff:
  "dur_number s = Some (v, r) \<longleftrightarrow>
   (\<exists>ds. s = ds @ r \<and> num_ok ds \<and> \<not> is_digit (cur r) \<and> v = int (dec_val ds) \<and> v \<le> INT64_MAX)"
proof (cases "is_digit (cur s)")
  case True
  have eq: "s = ds @ r \<and> list_all is_digit ds \<and> \<not> is_digit (cur r) \<and> length ds \<le> 19 \<longleftrightarrow>
      s = ds @ r \<and> num_ok ds \<and> \<not> is_digit (cur r)" for ds
    using True by (cases ds) (simp_all add: num_ok_def conj_ac, blast?)
  have "dur_number s = Some (v, r) \<longleftrightarrow> (\<exists>ds. s = ds @ r \<and> list_all is_digit ds \<and> \<not> is_digit (cur r) \<and>
      length ds \<le> 19 \<and> v = int (dec_val ds) \<and> v \<le> INT64_MAX)"
    using True dur_digits_iff [of 0 0 s v r] by (simp add: dur_number_def INT64_MAX_def)
  also have "\<dots> \<longleftrightarrow> (\<exists>ds. s = ds @ r \<and> num_ok ds \<and> \<not> is_digit (cur r) \<and> v = int (dec_val ds) \<and> v \<le> INT64_MAX)"
    using eq by blast
  finally show ?thesis .
next
  case False
  then have "\<not> (\<exists>ds. s = ds @ r \<and> num_ok ds)" by (auto simp: num_ok_def)
  with False show ?thesis by (auto simp: dur_number_def)
qed

text \<open>Positional value of the decimals under the running scale 100, 10, 1, 0.\<close>

fun frac_val :: "int \<Rightarrow> string \<Rightarrow> int" where
  "frac_val scale [] = 0"
| "frac_val scale (c # ds) = int (digit_val c) * scale + frac_val (scale div 10) ds"

definition frac_room :: "int \<Rightarrow> nat" where
  "frac_room scale = (if scale = 0 then 0 else if scale = 1 then 1 else if scale = 10 then 2 else 3)"

lemma dur_frac_iff:
  "scale \<in> {0, 1, 10, 100} \<Longrightarrow>
   dur_frac scale acc s = Some (v, r) \<longleftrightarrow>
   (\<exists>ds. s = ds @ r \<and> list_all is_digit ds \<and> \<not> is_digit (cur r) \<and> length ds \<le> frac_room scale \<and>
         v = acc + frac_val scale ds)"
proof (induction scale acc s rule: dur_frac.induct)
  case (1 scale acc)
  then show ?case by auto
next
  case (2 scale acc c s)
  show ?case
  proof (cases "is_digit c")
    case False
    then have "(\<exists>ds. c # s = ds @ r \<and> list_all is_digit ds \<and> \<not> is_digit (cur r) \<and> length ds \<le> frac_room scale \<and>
         v = acc + frac_val scale ds) \<longleftrightarrow> r = c # s \<and> v = acc"
      by (auto simp: Cons_eq_append_conv)
    with False show ?thesis by auto
  next
    case True
    then have step: "(\<exists>ds. c # s = ds @ r \<and> list_all is_digit ds \<and> \<not> is_digit (cur r) \<and> length ds \<le> frac_room scale \<and>
         v = acc + frac_val scale ds) \<longleftrightarrow>
       (\<exists>ds. s = ds @ r \<and> list_all is_digit ds \<and> \<not> is_digit (cur r) \<and> length ds + 1 \<le> frac_room scale \<and>
         v = acc + int (digit_val c) * scale + frac_val (scale div 10) ds)"
      by (auto simp: Cons_eq_append_conv)
    show ?thesis
    proof (cases "scale = 0")
      case zero: True
      with True step show ?thesis by (simp add: frac_room_def)
    next
      case False
      with "2.prems" have "scale div 10 \<in> {0, 1, 10, 100}" "frac_room scale = frac_room (scale div 10) + 1"
        by (auto simp: frac_room_def)
      with True False step "2.IH" show ?thesis by simp
    qed
  qed
qed

lemma frac_val_ms: "length ds \<le> 3 \<Longrightarrow> frac_val 100 ds = frac_ms ds"
  by (auto simp: le_Suc_eq numeral_3_eq_3 length_Suc_conv frac_ms_def dec_val_Cons digit_val_def chcode_def)

lemma frac_ms_bounds: "frac_ok ds \<Longrightarrow> 0 \<le> frac_ms ds \<and> frac_ms ds \<le> 999"
proof -
  assume ok: "frac_ok ds"
  let ?p = "ds @ replicate (3 - length ds) (CHR ''0'')"
  from ok have "list_all is_digit ?p" "length ?p = 3"
    by (simp_all add: frac_ok_def list_all_length is_digit_def chcode_def nth_append)
  then have "dec_val ?p < 10 ^ 3" using dec_val_lt by metis
  then show ?thesis by (simp add: frac_ms_def)
qed

text \<open>\<open>num\<close> and its decimals, as one step of the loop reads them.\<close>

lemma dur_decimal_iff:
  "dur_decimal s = Some (v, r) \<longleftrightarrow>
   (\<exists>f. s = frac_text f @ r \<and> pred_option frac_ok f \<and> v = opt_frac_ms f \<and>
        (if f = None then cur r \<noteq> CHR ''.'' else \<not> is_digit (cur r)))"
proof (cases "cur s = CHR ''.''")
  case False
  then have "\<And>f. s = frac_text f @ r \<Longrightarrow> f = None"
    by (auto simp: frac_text_def split: option.splits)
  with False show ?thesis
    by (auto simp: dur_decimal_def frac_text_def opt_frac_ms_def intro!: exI [of _ None] split: if_splits)
next
  case True
  then obtain t where s: "s = CHR ''.'' # t" by (cases s) (auto simp: NUL_def)
  have none: "\<not> (s = frac_text None @ r \<and> cur r \<noteq> CHR ''.'')"
    using True by (auto simp: frac_text_def)
  have "dur_decimal s = Some (v, r) \<longleftrightarrow> is_digit (cur t) \<and>
     (\<exists>ds. t = ds @ r \<and> list_all is_digit ds \<and> \<not> is_digit (cur r) \<and> length ds \<le> 3 \<and> v = frac_val 100 ds)"
    using dur_frac_iff [of 100 0 t v r] by (auto simp: dur_decimal_def s frac_room_def)
  also have "\<dots> \<longleftrightarrow> (\<exists>ds. t = ds @ r \<and> frac_ok ds \<and> \<not> is_digit (cur r) \<and> v = frac_ms ds)"
    by (auto simp: frac_ok_def frac_val_ms)
  also have "\<dots> \<longleftrightarrow> (\<exists>ds. s = frac_text (Some ds) @ r \<and> pred_option frac_ok (Some ds) \<and>
      v = opt_frac_ms (Some ds) \<and> \<not> is_digit (cur r))"
    by (auto simp: s frac_text_def opt_frac_ms_def)
  finally show ?thesis
    using none by (metis not_None_eq)
qed

lemma dur_add_iff:
  assumes "0 \<le> tot" "tot \<le> INT64_MAX" "0 \<le> n" "0 < unit" "0 \<le> fr"
  shows "dur_add tot n unit fr = Some t \<longleftrightarrow> t = tot + n * unit + fr \<and> t \<le> INT64_MAX"
proof -
  have "tot + n * unit + fr \<le> INT64_MAX \<Longrightarrow> tot \<le> INT64_MAX - fr"
    using assms mult_nonneg_nonneg [of n unit] by linarith
  then show ?thesis using assms by (auto simp: dur_add_def int_div_less_iff)
qed

text \<open>One turn of the time loop, in terms of the text it consumes.\<close>

lemma dur_time_step:
  assumes "0 \<le> tot" "tot \<le> INT64_MAX"
  shows "dur_time stage tot s = Some t \<longleftrightarrow>
    (s = [] \<and> t = tot) \<or>
    (\<exists>ds f u r unit stage'. s = ds @ frac_text f @ u # r \<and> num_ok ds \<and> pred_option frac_ok f \<and>
       dur_unit u stage (f \<noteq> None) = Some (unit, stage') \<and>
       tot + int (dec_val ds) * unit + opt_frac_ms f \<le> INT64_MAX \<and>
       dur_time stage' (tot + int (dec_val ds) * unit + opt_frac_ms f) r = Some t)"
    (is "?L \<longleftrightarrow> ?E \<or> (\<exists>ds f u r unit stage'. ?R ds f u r unit stage')")
proof (intro iffI)
  assume L: ?L
  show "?E \<or> (\<exists>ds f u r unit stage'. ?R ds f u r unit stage')"
  proof (cases "s = []")
    case True
    with L show ?thesis by (simp add: dur_time.simps)
  next
    case False
    with L obtain n s1 fr s2 unit stage' tot' where
      n: "dur_number s = Some (n, s1)" and fr: "dur_decimal s1 = Some (fr, s2)" and
      u: "dur_unit (cur s2) stage (cur s1 = CHR ''.'') = Some (unit, stage')" and
      a: "dur_add tot n unit fr = Some tot'" and rest: "dur_time stage' tot' (tl s2) = Some t"
      by (subst (asm) dur_time.simps) (auto split: option.splits)
    from n obtain ds where ds: "s = ds @ s1" "num_ok ds" "\<not> is_digit (cur s1)" "n = int (dec_val ds)"
      by (auto simp: dur_number_iff)
    from fr obtain f where f: "s1 = frac_text f @ s2" "pred_option frac_ok f" "fr = opt_frac_ms f"
      "if f = None then cur s2 \<noteq> CHR ''.'' else \<not> is_digit (cur s2)"
      by (auto simp: dur_decimal_iff)
    have dot: "cur s1 = CHR ''.'' \<longleftrightarrow> f \<noteq> None"
      using f by (cases f) (auto simp: frac_text_def)
    have "s2 \<noteq> []" using u by (auto simp: dur_unit_def NUL_def split: if_splits)
    then obtain c r where s2: "s2 = c # r" by (cases s2) auto
    have "0 \<le> fr" using f frac_ms_bounds by (cases f) (auto simp: opt_frac_ms_def)
    with a dur_unit_stage [OF u] ds assms have t': "tot' = tot + n * unit + fr" "tot' \<le> INT64_MAX"
      by (auto simp: dur_add_iff)
    have "?R ds f c r unit stage'"
      using ds f u t' rest dot by (simp add: s2)
    then show ?thesis by blast
  qed
next
  assume "?E \<or> (\<exists>ds f u r unit stage'. ?R ds f u r unit stage')"
  then show ?L
  proof
    assume ?E
    then show ?thesis by (simp add: dur_time.simps)
  next
    assume "\<exists>ds f u r unit stage'. ?R ds f u r unit stage'"
    then obtain ds f u r unit stage' where R: "?R ds f u r unit stage'" by blast
    have suffix: "u \<noteq> CHR ''.''" "\<not> is_digit u"
      using R by (auto simp: dur_unit_def is_digit_def chcode_def split: if_splits)
    have fr0: "0 \<le> opt_frac_ms f" using R frac_ms_bounds by (cases f) (auto simp: opt_frac_ms_def)
    have unit: "0 < unit" using R dur_unit_stage by blast
    then have "int (dec_val ds) * 1 \<le> int (dec_val ds) * unit" by (intro mult_left_mono) simp_all
    with R fr0 assms have "int (dec_val ds) \<le> INT64_MAX" by linarith
    then have "dur_number s = Some (int (dec_val ds), frac_text f @ u # r)"
      unfolding dur_number_iff using R suffix by (cases f) (auto simp: frac_text_def is_digit_def chcode_def)
    moreover have "dur_decimal (frac_text f @ u # r) = Some (opt_frac_ms f, u # r)"
      unfolding dur_decimal_iff using R suffix by (cases f) auto
    moreover have "cur (frac_text f @ u # r) = CHR ''.'' \<longleftrightarrow> f \<noteq> None"
      using suffix by (cases f) (auto simp: frac_text_def)
    moreover have "dur_add tot (int (dec_val ds)) unit (opt_frac_ms f)
        = Some (tot + int (dec_val ds) * unit + opt_frac_ms f)"
      using R fr0 unit assms by (simp add: dur_add_iff)
    moreover have "s \<noteq> []" using R by (auto simp: num_ok_def)
    ultimately show ?thesis using R by (subst dur_time.simps) simp
  qed
qed

lemma dur_unit_cases:
  "dur_unit u 3 b = Some us \<longleftrightarrow> False"
  "dur_unit u 2 b = Some us \<longleftrightarrow> u = CHR ''S'' \<and> us = (1000, 3)"
  "dur_unit u 1 b = Some us \<longleftrightarrow> dur_unit u 2 b = Some us \<or> u = CHR ''M'' \<and> \<not> b \<and> us = (60000, 2)"
  "dur_unit u 0 b = Some us \<longleftrightarrow> dur_unit u 1 b = Some us \<or> u = CHR ''H'' \<and> \<not> b \<and> us = (3600000, 1)"
  by (auto simp: dur_unit_def)

definition secs_ok :: "(string \<times> string option) option \<Rightarrow> bool" where
  "secs_ok s \<longleftrightarrow> pred_option (\<lambda>(n, f). num_ok n \<and> pred_option frac_ok f) s"

lemma opt_frac_ms_nonneg: "pred_option frac_ok f \<Longrightarrow> 0 \<le> opt_frac_ms f"
  using frac_ms_bounds by (cases f) (auto simp: opt_frac_ms_def)

lemma secs_ms_nonneg: "secs_ok s \<Longrightarrow> 0 \<le> secs_ms s"
  by (cases s) (auto simp: secs_ms_def secs_ok_def opt_frac_ms_nonneg)

lemma part_ms_nonneg: "0 \<le> unit \<Longrightarrow> 0 \<le> part_ms x unit"
  by (cases x) (auto simp: part_ms_def)

lemma dur_time_3: "dur_time 3 tot s = Some t \<longleftrightarrow> s = [] \<and> t = tot"
  by (auto simp: dur_time.simps [of 3] dur_unit_cases split: option.splits)

lemma ex_secs: "(\<exists>sec. Q sec) \<longleftrightarrow> Q None \<or> (\<exists>ds f. Q (Some (ds, f)))"
  by (metis not_None_eq surj_pair)

lemma dur_time_2:
  assumes "0 \<le> tot" "tot \<le> INT64_MAX"
  shows "dur_time 2 tot s = Some t \<longleftrightarrow>
    (\<exists>sec. s = secs_text sec \<and> secs_ok sec \<and> t = tot + secs_ms sec \<and> t \<le> INT64_MAX)"
proof -
  have "dur_time 2 tot s = Some t \<longleftrightarrow> (s = [] \<and> t = tot) \<or>
     (\<exists>ds f. s = ds @ frac_text f @ [CHR ''S''] \<and> num_ok ds \<and> pred_option frac_ok f \<and>
        t = tot + int (dec_val ds) * 1000 + opt_frac_ms f \<and> t \<le> INT64_MAX)"
    unfolding dur_time_step [OF assms, of 2] dur_unit_cases by (auto simp: dur_time_3)
  also have "\<dots> \<longleftrightarrow> (\<exists>sec. s = secs_text sec \<and> secs_ok sec \<and> t = tot + secs_ms sec \<and> t \<le> INT64_MAX)"
    unfolding ex_secs using assms
    by (simp add: secs_text_def secs_ok_def secs_ms_def add.assoc conj_ac cong: conj_cong)
  finally show ?thesis .
qed

text \<open>Stages 1 and 0 add one unit to the next stage.\<close>

lemma dur_time_unit:
  assumes "0 \<le> tot" "tot \<le> INT64_MAX"
    and "\<And>u b us. dur_unit u stage b = Some us \<longleftrightarrow>
           dur_unit u stage1 b = Some us \<or> u = c \<and> \<not> b \<and> us = (unit, stage1)"
    and "0 < unit" "\<And>x. 0 \<le> ms x"
    and tail: "\<And>tot s. 0 \<le> tot \<Longrightarrow> tot \<le> INT64_MAX \<Longrightarrow> dur_time stage1 tot s = Some t \<longleftrightarrow>
           (\<exists>x. s = txt x \<and> ok x \<and> t = tot + ms x \<and> t \<le> INT64_MAX)"
  shows "dur_time stage tot s = Some t \<longleftrightarrow>
    (\<exists>h x. s = part h c @ txt x \<and> pred_option num_ok h \<and> ok x \<and> t = tot + part_ms h unit + ms x \<and> t \<le> INT64_MAX)"
proof -
  let ?body = "\<lambda>ds f u r un st. s = ds @ frac_text f @ u # r \<and> num_ok ds \<and> pred_option frac_ok f \<and>
       tot + int (dec_val ds) * un + opt_frac_ms f \<le> INT64_MAX \<and>
       dur_time st (tot + int (dec_val ds) * un + opt_frac_ms f) r = Some t"
  have "dur_time stage tot s = Some t \<longleftrightarrow> (s = [] \<and> t = tot) \<or>
     (\<exists>ds f u r un st. ?body ds f u r un st \<and>
        (dur_unit u stage1 (f \<noteq> None) = Some (un, st) \<or> u = c \<and> f = None \<and> un = unit \<and> st = stage1))"
    unfolding dur_time_step [OF assms(1,2), of stage] assms(3) by (simp add: conj_ac)
  also have "\<dots> \<longleftrightarrow> ((s = [] \<and> t = tot) \<or>
     (\<exists>ds f u r un st. ?body ds f u r un st \<and> dur_unit u stage1 (f \<noteq> None) = Some (un, st))) \<or>
     (\<exists>ds r. ?body ds None c r unit stage1)" by blast
  also have "((s = [] \<and> t = tot) \<or>
     (\<exists>ds f u r un st. ?body ds f u r un st \<and> dur_unit u stage1 (f \<noteq> None) = Some (un, st))) \<longleftrightarrow>
     dur_time stage1 tot s = Some t"
    unfolding dur_time_step [OF assms(1,2), of stage1] by (simp only: conj_ac)
  also have "(\<exists>ds r. ?body ds None c r unit stage1) \<longleftrightarrow>
     (\<exists>ds r. s = ds @ c # r \<and> num_ok ds \<and> tot + int (dec_val ds) * unit \<le> INT64_MAX \<and>
        dur_time stage1 (tot + int (dec_val ds) * unit) r = Some t)"
    by (simp add: frac_text_def opt_frac_ms_def)
  also have "dur_time stage1 tot s = Some t \<longleftrightarrow>
      (\<exists>x. s = txt x \<and> ok x \<and> t = tot + ms x \<and> t \<le> INT64_MAX)"
    by (rule tail [OF assms(1,2)])
  also have "(\<exists>ds r. s = ds @ c # r \<and> num_ok ds \<and> tot + int (dec_val ds) * unit \<le> INT64_MAX \<and>
        dur_time stage1 (tot + int (dec_val ds) * unit) r = Some t) \<longleftrightarrow>
     (\<exists>ds x. s = ds @ c # txt x \<and> num_ok ds \<and> ok x \<and> t = tot + int (dec_val ds) * unit + ms x \<and> t \<le> INT64_MAX)"
    (is "?A \<longleftrightarrow> ?B")
  proof
    assume ?A
    then obtain ds r where A: "s = ds @ c # r" "num_ok ds" "tot + int (dec_val ds) * unit \<le> INT64_MAX"
      "dur_time stage1 (tot + int (dec_val ds) * unit) r = Some t" by blast
    have "0 \<le> tot + int (dec_val ds) * unit" using assms by simp
    with A tail show ?B by blast
  next
    assume ?B
    then obtain ds x where B: "s = ds @ c # txt x" "num_ok ds" "ok x"
      "t = tot + int (dec_val ds) * unit + ms x" "t \<le> INT64_MAX" by blast
    have "0 \<le> tot + int (dec_val ds) * unit" using assms by simp
    moreover have "tot + int (dec_val ds) * unit \<le> INT64_MAX" using B assms(5) [of x] by linarith
    ultimately show ?A using B tail by blast
  qed
  finally show ?thesis
    by (simp add: split_option_ex part_def part_ms_def)
qed

definition time_text :: "string option \<Rightarrow> string option \<Rightarrow> (string \<times> string option) option \<Rightarrow> string" where
  "time_text h m sec = part h (CHR ''H'') @ part m (CHR ''M'') @ secs_text sec"

lemma dur_time_1:
  assumes "0 \<le> tot" "tot \<le> INT64_MAX"
  shows "dur_time 1 tot s = Some t \<longleftrightarrow>
    (\<exists>m sec. s = part m (CHR ''M'') @ secs_text sec \<and> pred_option num_ok m \<and> secs_ok sec \<and>
       t = tot + part_ms m 60000 + secs_ms sec \<and> t \<le> INT64_MAX)"
proof -
  have "dur_time 1 tot s = Some t \<longleftrightarrow>
    (\<exists>m sec. s = part m (CHR ''M'') @ secs_text sec \<and> pred_option num_ok m \<and> secs_ok sec \<and>
       t = tot + part_ms m 60000 + (if secs_ok sec then secs_ms sec else 0) \<and> t \<le> INT64_MAX)"
    by (rule dur_time_unit [OF assms dur_unit_cases(3)])
       (use dur_time_2 secs_ms_nonneg in \<open>auto split: if_splits\<close>)
  then show ?thesis by (auto split: if_splits)
qed

lemma dur_time_0:
  assumes "0 \<le> tot" "tot \<le> INT64_MAX"
  shows "dur_time 0 tot s = Some t \<longleftrightarrow>
    (\<exists>h m sec. s = time_text h m sec \<and> pred_option num_ok h \<and> pred_option num_ok m \<and> secs_ok sec \<and>
       t = tot + part_ms h 3600000 + part_ms m 60000 + secs_ms sec \<and> t \<le> INT64_MAX)"
proof -
  let ?ok = "\<lambda>(m, sec). pred_option num_ok m \<and> secs_ok sec"
  let ?ms = "\<lambda>(m, sec). if secs_ok sec then part_ms m 60000 + secs_ms sec else 0"
  have "dur_time 0 tot s = Some t \<longleftrightarrow>
    (\<exists>h x. s = part h (CHR ''H'') @ (\<lambda>(m, sec). part m (CHR ''M'') @ secs_text sec) x \<and>
       pred_option num_ok h \<and> ?ok x \<and> t = tot + part_ms h 3600000 + ?ms x \<and> t \<le> INT64_MAX)"
  proof (rule dur_time_unit [OF assms dur_unit_cases(4)])
    fix tot :: int and s
    assume "0 \<le> tot" "tot \<le> INT64_MAX"
    note dur_time_1 [OF this, of s t]
    also have "(\<exists>m sec. s = part m (CHR ''M'') @ secs_text sec \<and> pred_option num_ok m \<and> secs_ok sec \<and>
       t = tot + part_ms m 60000 + secs_ms sec \<and> t \<le> INT64_MAX) \<longleftrightarrow>
      (\<exists>x. s = (\<lambda>(m, sec). part m (CHR ''M'') @ secs_text sec) x \<and> ?ok x \<and> t = tot + ?ms x \<and> t \<le> INT64_MAX)"
      by (auto simp: add.assoc)
    finally show "dur_time 1 tot s = Some t \<longleftrightarrow>
      (\<exists>x. s = (\<lambda>(m, sec). part m (CHR ''M'') @ secs_text sec) x \<and> ?ok x \<and> t = tot + ?ms x \<and> t \<le> INT64_MAX)" .
  qed (auto simp: secs_ms_nonneg part_ms_nonneg)
  then show ?thesis by (simp add: time_text_def split_paired_Ex add.assoc conj_ac cong: conj_cong) blast
qed

lemma time_text_nonempty:
  assumes "pred_option num_ok h" "pred_option num_ok m" "secs_ok sec"
  shows "time_text h m sec = [] \<longleftrightarrow> (h, m, sec) = (None, None, None)"
  using assms by (auto simp: time_text_def part_def secs_text_def split: option.splits)

lemma dur_time_part_iff:
  assumes "0 \<le> tot" "tot \<le> INT64_MAX"
  shows "dur_time_part tot s = Some t \<longleftrightarrow>
    (\<exists>h m sec. (h, m, sec) \<noteq> (None, None, None) \<and> s = CHR ''T'' # time_text h m sec \<and>
       pred_option num_ok h \<and> pred_option num_ok m \<and> secs_ok sec \<and>
       t = tot + part_ms h 3600000 + part_ms m 60000 + secs_ms sec \<and> t \<le> INT64_MAX)"
proof (cases "cur s = CHR ''T''")
  case False
  then show ?thesis by (auto simp: dur_time_part_def)
next
  case True
  then obtain u where s: "s = CHR ''T'' # u" by (cases s) (auto simp: NUL_def)
  have "dur_time_part tot s = Some t \<longleftrightarrow> u \<noteq> [] \<and> dur_time 0 tot u = Some t"
    by (simp add: dur_time_part_def s)
  also have "\<dots> \<longleftrightarrow> (\<exists>h m sec. u \<noteq> [] \<and> u = time_text h m sec \<and>
       pred_option num_ok h \<and> pred_option num_ok m \<and> secs_ok sec \<and>
       t = tot + part_ms h 3600000 + part_ms m 60000 + secs_ms sec \<and> t \<le> INT64_MAX)"
    unfolding dur_time_0 [OF assms] by simp
  also have "\<dots> \<longleftrightarrow> (\<exists>h m sec. (h, m, sec) \<noteq> (None, None, None) \<and> s = CHR ''T'' # time_text h m sec \<and>
       pred_option num_ok h \<and> pred_option num_ok m \<and> secs_ok sec \<and>
       t = tot + part_ms h 3600000 + part_ms m 60000 + secs_ms sec \<and> t \<le> INT64_MAX)"
  proof (intro ex_cong1)
    fix h m sec
    show "u \<noteq> [] \<and> u = time_text h m sec \<and>
       pred_option num_ok h \<and> pred_option num_ok m \<and> secs_ok sec \<and>
       t = tot + part_ms h 3600000 + part_ms m 60000 + secs_ms sec \<and> t \<le> INT64_MAX \<longleftrightarrow>
      (h, m, sec) \<noteq> (None, None, None) \<and> s = CHR ''T'' # time_text h m sec \<and>
       pred_option num_ok h \<and> pred_option num_ok m \<and> secs_ok sec \<and>
       t = tot + part_ms h 3600000 + part_ms m 60000 + secs_ms sec \<and> t \<le> INT64_MAX"
      using time_text_nonempty [of h m sec] by (auto simp: s)
  qed
  finally show ?thesis .
qed

lemma astools_duration_parse_cases:
  "astools_duration_parse_ms (Some s) = Some t \<longleftrightarrow>
    (\<exists>w. s = ''P'' @ w @ ''W'' \<and> num_ok w \<and> t = int (dec_val w) * 604800000 \<and> t \<le> INT64_MAX) \<or>
    (\<exists>d. s = ''P'' @ d @ ''D'' \<and> num_ok d \<and> t = int (dec_val d) * 86400000 \<and> t \<le> INT64_MAX) \<or>
    (\<exists>d r. s = ''P'' @ d @ ''D'' @ r \<and> num_ok d \<and> int (dec_val d) * 86400000 \<le> INT64_MAX \<and>
       dur_time_part (int (dec_val d) * 86400000) r = Some t) \<or>
    (\<exists>r. s = ''P'' @ r \<and> dur_time_part 0 r = Some t)" (is "?L \<longleftrightarrow> ?W \<or> ?D \<or> ?DT \<or> ?T")
proof
  assume L: ?L
  then obtain u where s: "s = CHR ''P'' # u" "u \<noteq> []"
    by (cases s) (auto simp: astools_duration_parse_ms_def NUL_def split: if_splits)
  show "?W \<or> ?D \<or> ?DT \<or> ?T"
  proof (cases "cur u = CHR ''T''")
    case True
    with L s show ?thesis by (simp add: astools_duration_parse_ms_def)
  next
    case False
    with L s obtain n s1 where n: "dur_number u = Some (n, s1)"
      by (auto simp: astools_duration_parse_ms_def Let_def split: option.splits)
    then obtain ds where ds: "u = ds @ s1" "num_ok ds" "n = int (dec_val ds)" by (auto simp: dur_number_iff)
    have add: "dur_add 0 n unit 0 = Some x \<longleftrightarrow> x = n * unit \<and> x \<le> INT64_MAX" if "0 < unit" for unit x
      using that ds dur_add_iff [of 0 n unit 0 x] by (simp add: INT64_MAX_def)
    have "cur s1 = CHR ''W'' \<or> cur s1 = CHR ''D''"
      using L s False n by (auto simp: astools_duration_parse_ms_def Let_def split: if_splits)
    then obtain c r where s1: "s1 = c # r" "c = CHR ''W'' \<or> c = CHR ''D''"
      by (cases s1) (auto simp: NUL_def)
    show ?thesis
    proof (cases "c = CHR ''W''")
      case True
      with L s False n s1 have "r = []" "dur_add 0 n 604800000 0 = Some t"
        by (auto simp: astools_duration_parse_ms_def split: if_splits)
      with True s ds s1 add have ?W by auto
      then show ?thesis ..
    next
      case D: False
      with s1 have c: "c = CHR ''D''" by simp
      with L s False n s1 obtain x where x: "dur_add 0 n 86400000 0 = Some x"
        "if r = [] then t = x else dur_time_part x r = Some t"
        by (auto simp: astools_duration_parse_ms_def split: if_splits option.splits)
      show ?thesis
      proof (cases "r = []")
        case True
        with x c s ds s1 add have ?D by auto
        then show ?thesis by blast
      next
        case False
        with x c s ds s1 add have ?DT by auto
        then show ?thesis by blast
      qed
    qed
  qed
next
  have num: "dur_number (ds @ c # r) = Some (int (dec_val ds), c # r)"
    if "num_ok ds" "\<not> is_digit c" "int (dec_val ds) \<le> INT64_MAX" for ds c r
    unfolding dur_number_iff using that by auto
  have notT: "cur (ds @ c # r) \<noteq> CHR ''T''" if "num_ok ds" for ds c r
    using that by (cases ds) (auto simp: num_ok_def is_digit_def chcode_def)
  have add: "dur_add 0 n unit 0 = Some (n * unit)" if "0 \<le> n" "0 < unit" "n * unit \<le> INT64_MAX" for n unit
    using that dur_add_iff [of 0 n unit 0 "n * unit"] by (simp add: INT64_MAX_def)
  have WD: "\<not> is_digit (CHR ''W'')" "\<not> is_digit (CHR ''D'')"
    by (simp_all add: is_digit_def chcode_def)
  assume "?W \<or> ?D \<or> ?DT \<or> ?T"
  then consider ?W | ?D | ?DT | ?T by blast
  then show ?L
  proof cases
    case 1
    then show ?thesis
      by (auto simp: astools_duration_parse_ms_def notT num WD INT64_MAX_def add)
  next
    case 2
    then show ?thesis
      by (auto simp: astools_duration_parse_ms_def notT num WD INT64_MAX_def add)
  next
    case 3
    then obtain d r where dr: "s = ''P'' @ d @ ''D'' @ r" "num_ok d" "int (dec_val d) * 86400000 \<le> INT64_MAX"
       "dur_time_part (int (dec_val d) * 86400000) r = Some t" by blast
    then have "r \<noteq> []" by (auto simp: dur_time_part_def)
    with dr show ?thesis
      by (auto simp: astools_duration_parse_ms_def notT num WD INT64_MAX_def add)
  next
    case 4
    then obtain r where "s = ''P'' @ r" "dur_time_part 0 r = Some t" by blast
    moreover from this have "cur r = CHR ''T''" "r \<noteq> []"
      by (auto simp: dur_time_part_def NUL_def split: if_splits)
    ultimately show ?thesis by (simp add: astools_duration_parse_ms_def)
  qed
qed

lemma iso_wf_Dhms:
  "iso_wf (Dhms d h m sec) \<longleftrightarrow> (d, h, m, sec) \<noteq> (None, None, None, None) \<and>
     pred_option num_ok d \<and> pred_option num_ok h \<and> pred_option num_ok m \<and> secs_ok sec"
  by (simp add: secs_ok_def)

lemma iso_text_Dhms:
  "iso_text (Dhms d h m sec) = ''P'' @ part d (CHR ''D'') @
     (if (h, m, sec) = (None, None, None) then [] else CHR ''T'' # time_text h m sec)"
  by (simp add: time_text_def)

declare iso_text.simps(2) [simp del] iso_wf.simps(2) [simp del]

text \<open>
  C15: The duration parser accepts exactly the texts of the profile (weeks alone, or days, hours,
  minutes and seconds in order, each number of 1 to 19 digits and 1 to 3 decimals on the seconds)
  whose value fits an int64, and returns that exact value in milliseconds: no rounding, no
  overflow, no other text.
\<close>

theorem duration_parse_iff:
  "astools_duration_parse_ms (Some s) = Some t \<longleftrightarrow>
   (\<exists>d. iso_wf d \<and> s = iso_text d \<and> t = iso_ms d \<and> t \<le> INT64_MAX)" (is "?L \<longleftrightarrow> ?R")
proof
  assume ?L
  then consider
      (W) w where "s = ''P'' @ w @ ''W''" "num_ok w" "t = int (dec_val w) * 604800000" "t \<le> INT64_MAX"
    | (D) d where "s = ''P'' @ d @ ''D''" "num_ok d" "t = int (dec_val d) * 86400000" "t \<le> INT64_MAX"
    | (DT) d r where "s = ''P'' @ d @ ''D'' @ r" "num_ok d" "int (dec_val d) * 86400000 \<le> INT64_MAX"
        "dur_time_part (int (dec_val d) * 86400000) r = Some t"
    | (T) r where "s = ''P'' @ r" "dur_time_part 0 r = Some t"
    unfolding astools_duration_parse_cases by blast
  then show ?R
  proof cases
    case W
    then show ?thesis by (intro exI [of _ "Weeks w"]) simp
  next
    case D
    then show ?thesis
      by (intro exI [of _ "Dhms (Some d) None None None"])
         (simp add: iso_wf_Dhms iso_text_Dhms part_def part_ms_def secs_ms_def secs_ok_def)
  next
    case DT
    have pos: "0 \<le> int (dec_val d) * 86400000" by simp
    obtain h m sec where "(h, m, sec) \<noteq> (None, None, None)" "r = CHR ''T'' # time_text h m sec"
      "pred_option num_ok h" "pred_option num_ok m" "secs_ok sec"
      "t = int (dec_val d) * 86400000 + part_ms h 3600000 + part_ms m 60000 + secs_ms sec" "t \<le> INT64_MAX"
      using dur_time_part_iff [OF pos DT(3), THEN iffD1, OF DT(4)] by blast
    with DT show ?thesis
      by (intro exI [of _ "Dhms (Some d) h m sec"])
         (auto simp: iso_wf_Dhms iso_text_Dhms part_def [of "Some _"] part_ms_def [of "Some _"])
  next
    case T
    have pos: "0 \<le> (0 :: int)" "(0 :: int) \<le> INT64_MAX" by (simp_all add: INT64_MAX_def)
    obtain h m sec where "(h, m, sec) \<noteq> (None, None, None)" "r = CHR ''T'' # time_text h m sec"
      "pred_option num_ok h" "pred_option num_ok m" "secs_ok sec"
      "t = 0 + part_ms h 3600000 + part_ms m 60000 + secs_ms sec" "t \<le> INT64_MAX"
      using dur_time_part_iff [OF pos, THEN iffD1, OF T(2)] by blast
    with T show ?thesis
      by (intro exI [of _ "Dhms None h m sec"])
         (auto simp: iso_wf_Dhms iso_text_Dhms part_def [of None] part_ms_def [of None])
  qed
next
  assume ?R
  then obtain d where d: "iso_wf d" "s = iso_text d" "t = iso_ms d" "t \<le> INT64_MAX" by blast
  show ?L
  proof (cases d)
    case (Weeks w)
    with d show ?thesis unfolding astools_duration_parse_cases by auto
  next
    case (Dhms dd h m sec)
    note wf = d(1) [unfolded Dhms iso_wf_Dhms]
    have nonneg: "0 \<le> part_ms h 3600000" "0 \<le> part_ms m 60000" "0 \<le> secs_ms sec"
      using wf by (simp_all add: part_ms_nonneg secs_ms_nonneg)
    show ?thesis
    proof (cases "(h, m, sec) = (None, None, None)")
      case True
      with wf obtain ds where "dd = Some ds" by auto
      with True d Dhms wf show ?thesis
        unfolding astools_duration_parse_cases
        by (auto simp: iso_text_Dhms part_def part_ms_def secs_ms_def)
    next
      case False
      let ?base = "part_ms dd 86400000"
      have base: "0 \<le> ?base" "?base \<le> INT64_MAX"
        using d nonneg part_ms_nonneg [of 86400000 dd] unfolding Dhms iso_ms.simps by linarith+
      have T: "dur_time_part ?base (CHR ''T'' # time_text h m sec) = Some t"
        unfolding dur_time_part_iff [OF base] using wf False d Dhms by (intro exI conjI) auto
      show ?thesis
      proof (cases dd)
        case None
        with T False d Dhms show ?thesis
          unfolding astools_duration_parse_cases by (auto simp: iso_text_Dhms part_def part_ms_def)
      next
        case (Some ds)
        with T False d Dhms wf base show ?thesis
          unfolding astools_duration_parse_cases by (auto simp: iso_text_Dhms part_def part_ms_def)
      qed
    qed
  qed
qed

section \<open>Rendered periods\<close>

lemma pad3_frac:
  assumes "n < 1000"
  shows "frac_ok (pad3 n)" "frac_ms (pad3 n) = int n"
proof -
  show "frac_ok (pad3 n)" by (simp add: frac_ok_def pad3_def)
  have "n div 100 mod 10 * 100 + n div 10 mod 10 * 10 + n mod 10 = n"
  proof -
    have "n div 100 = n div 10 div 10" by (simp add: div_mult2_eq [symmetric])
    moreover have "n div 100 mod 10 = n div 100" using assms by simp
    ultimately show ?thesis
      using div_mult_mod_eq [of n 10] div_mult_mod_eq [of "n div 10" 10] by linarith
  qed
  moreover have "n div 100 mod 10 = n div 100" using assms by simp
  ultimately have "n div 100 * 100 + n div 10 mod 10 * 10 + n mod 10 = n" by simp
  then have "int (n div 100 * 100 + n div 10 mod 10 * 10 + n mod 10) = int n" by (rule arg_cong)
  then show "frac_ms (pad3 n) = int n"
    using assms by (simp add: frac_ms_def pad3_def dec_val_Cons del: of_nat_div of_nat_mod)
qed

lemma duration_parse_rendered:
  assumes "int ms \<le> INT64_MAX"
  shows "astools_duration_parse_ms (Some (val_duration_ms ms)) = Some (int ms)"
proof -
  let ?f = "if ms mod 1000 \<noteq> 0 then Some (pad3 (ms mod 1000)) else None"
  let ?d = "Dhms None None None (Some (dec_str (ms div 1000), ?f))"
  have "ms div 1000 < 10 ^ 19" using assms by (simp add: INT64_MAX_def)
  then have "num_ok (dec_str (ms div 1000))" by (simp add: num_ok_def length_dec_str_le)
  then have "iso_wf ?d" by (simp add: iso_wf_Dhms secs_ok_def pad3_frac)
  moreover have "val_duration_ms ms = iso_text ?d"
    by (simp add: val_duration_ms_def iso_text_Dhms time_text_def part_def secs_text_def frac_text_def)
  moreover have "iso_ms ?d = int ms"
  proof -
    have "opt_frac_ms ?f = int (ms mod 1000)"
      using pad3_frac [of "ms mod 1000"] by (auto simp: opt_frac_ms_def)
    moreover have "int (ms div 1000) * 1000 + int (ms mod 1000) = int ms"
      by (simp flip: of_nat_mult of_nat_add add: of_nat_div of_nat_mod)
    ultimately show ?thesis by (simp add: part_ms_def secs_ms_def del: of_nat_div of_nat_mod)
  qed
  ultimately show ?thesis
    using assms duration_parse_iff [of "iso_text ?d" "int ms"] by metis
qed

interpretation period: codec val_duration_ms
  "\<lambda>s. map_option nat (astools_duration_parse_ms (Some s))" "\<lambda>ms. int ms \<le> INT64_MAX"
  by unfold_locales (simp add: duration_parse_rendered)

text \<open>
  The period a manifest dump writes (\<open>PT1.500S\<close>) is read back as the same number of
  milliseconds, and the period test accepts it exactly when it lies in 1 .. 4294967294.
\<close>

theorem period_roundtrip:
  assumes "int ms \<le> INT64_MAX"
  shows "dur_node_ms (Some (val_duration_ms ms)) =
    (if 0 < ms \<and> int ms \<le> ASTOOLS_PERIOD_MAX_MS then Some (int ms) else None)"
proof -
  have "map_option nat (astools_duration_parse_ms (Some (val_duration_ms ms))) = Some ms"
    by (rule period.dec_enc [OF assms])
  then show ?thesis
    using duration_parse_rendered [OF assms] by (simp add: dur_node_ms_def)
qed

theorem period_roundtrip_witness:
  "dur_node_ms (Some (val_duration_ms 1500)) = Some 1500 \<and> val_duration_ms 1500 = ''PT1.500S''"
proof
  show "dur_node_ms (Some (val_duration_ms 1500)) = Some 1500"
    using period_roundtrip [of 1500] by (simp add: INT64_MAX_def ASTOOLS_PERIOD_MAX_MS_def)
  show "val_duration_ms 1500 = ''PT1.500S''"
    by code_simp
qed

end
