(* ===== verification/As_Calendar.thy ===== *)
theory As_Calendar
  imports As_Prelude "HOL-Library.Signed_Division"
begin

text \<open>
  \<^verbatim>\<open>src/time.c\<close>, first part: the civil calendar by the days-from-civil algorithm. The two
  conversions are shown mutually inverse on all valid dates.
\<close>

section \<open>Civil calendar\<close>

text \<open>
  C's \<open>/\<close> and \<open>%\<close> truncate towards zero: \<open>sdiv\<close> and \<open>smod\<close>. The unsigned intermediate values of
  the code are in the ranges its comments give, so they are integers here.
\<close>

definition days_from_civil :: "int \<Rightarrow> int \<Rightarrow> int \<Rightarrow> int" where
  "days_from_civil y0 m d =
     (let y = y0 - (if m \<le> 2 then 1 else 0);
          era = (if y \<ge> 0 then y else y - 399) sdiv 400;
          yoe = y - era * 400;
          doy = (153 * (m + (if m > 2 then - 3 else 9)) + 2) sdiv 5 + d - 1;
          doe = yoe * 365 + yoe sdiv 4 - yoe sdiv 100 + doy
      in era * 146097 + doe - 719468)"

definition civil_from_days :: "int \<Rightarrow> int \<times> int \<times> int" where
  "civil_from_days z0 =
     (let z = z0 + 719468;
          era = (if z \<ge> 0 then z else z - 146096) sdiv 146097;
          doe = z - era * 146097;
          yoe = (doe - doe sdiv 1460 + doe sdiv 36524 - doe sdiv 146096) sdiv 365;
          y = yoe + era * 400;
          doy = doe - (365 * yoe + yoe sdiv 4 - yoe sdiv 100);
          mp = (5 * doy + 2) sdiv 153;
          d = doy - (153 * mp + 2) sdiv 5 + 1;
          m = (if mp < 10 then mp + 3 else mp - 9)
      in (y + (if m \<le> 2 then 1 else 0), m, d))"

definition is_leap :: "int \<Rightarrow> bool" where
  "is_leap y \<longleftrightarrow> (y smod 4 = 0 \<and> y smod 100 \<noteq> 0) \<or> y smod 400 = 0"

definition dm_table :: "int list" where
  "dm_table = [31, 28, 31, 30, 31, 30, 31, 31, 30, 31, 30, 31]"

definition days_in_month :: "int \<Rightarrow> int \<Rightarrow> int" where
  "days_in_month y m = (if m = 2 \<and> is_leap y then 29 else dm_table ! nat (m - 1))"

section \<open>The calendar is a bijection\<close>

lemma sdiv_nonneg: "0 \<le> a \<Longrightarrow> 0 < b \<Longrightarrow> a sdiv b = a div (b :: int)"
  by (cases "a = 0") (simp_all add: signed_divide_int_def)

lemma smod_nonneg: "0 \<le> a \<Longrightarrow> 0 < b \<Longrightarrow> a smod b = a mod (b :: int)"
  by (cases "a = 0") (simp_all add: signed_modulo_int_def sdiv_nonneg minus_div_mult_eq_mod sgn_if)

lemma sdiv_neg: "a < 0 \<Longrightarrow> 0 < b \<Longrightarrow> a sdiv b = - ((- a) div (b :: int))"
  by (simp add: signed_divide_int_def)

lemma floor_sdiv:
  assumes "0 < (b :: int)" "c = b - 1"
  shows "(if a \<ge> 0 then a else a - c) sdiv b = a div b"
proof (cases "a \<ge> 0")
  case True
  with assms show ?thesis by (simp add: sdiv_nonneg)
next
  case False
  have "(- (a - c)) div b = - (a div b)"
  proof (rule int_div_pos_eq)
    show "- (a - c) = b * - (a div b) + (b - 1 - a mod b)"
      using mult_div_mod_eq [of b a] assms by (simp add: algebra_simps)
    show "0 \<le> b - 1 - a mod b" "b - 1 - a mod b < b"
      using assms pos_mod_bound [of b a] pos_mod_sign [of b a] by linarith+
  qed
  with False assms show ?thesis by (simp add: sdiv_neg)
qed

lemma floor_sdiv_eras:
  "(if a \<ge> 0 then a else a - 399) sdiv 400 = a div (400 :: int)"
  "(if b \<ge> 0 then b else b - 146096) sdiv 146097 = b div (146097 :: int)"
  by (rule floor_sdiv; simp)+

text \<open>The first day of year \<open>k\<close> of an era (from March), and the year of a day as the code finds it.\<close>

definition year_start :: "int \<Rightarrow> int" where
  "year_start k = 365 * k + k div 4 - k div 100"

definition year_end :: "int \<Rightarrow> int" where
  "year_end k = (if k = 399 then 146097 else year_start (k + 1))"

definition doe_scaled :: "int \<Rightarrow> int" where
  "doe_scaled doe = doe - doe div 1460 + doe div 36524 - doe div 146096"

lemma div_succ:
  assumes "0 < (c :: int)"
  shows "a div c \<le> (a + 1) div c" "(a + 1) div c \<le> a div c + 1"
proof -
  show "a div c \<le> (a + 1) div c" using assms by (simp add: zdiv_mono1)
  have "(a + 1) div c \<le> (a + c) div c" using assms by (intro zdiv_mono1) simp_all
  moreover have "c \<noteq> 0" using assms by simp
  ultimately show "(a + 1) div c \<le> a div c + 1" using div_add_self2 [of c a] by linarith
qed

lemma doe_scaled_mono: "a \<le> b \<Longrightarrow> doe_scaled a \<le> doe_scaled b"
proof (induction b rule: int_ge_induct)
  case (step b)
  have "doe_scaled b \<le> doe_scaled (b + 1)"
  proof -
    have quarter: "x \<le> y \<Longrightarrow> y \<le> x + 1 \<Longrightarrow> y div 4 - x div 4 \<le> y - x" for x y :: int
      by presburger
    have q: "x div 146096 = x div 36524 div (4 :: int)" for x
      by (simp add: zdiv_zmult2_eq [symmetric])
    have "(b + 1) div 1460 \<le> b div 1460 + 1" by (simp add: div_succ)
    moreover have "b div 36524 \<le> (b + 1) div 36524" "(b + 1) div 36524 \<le> b div 36524 + 1"
      by (simp_all add: div_succ)
    then have "(b + 1) div 36524 div 4 - b div 36524 div 4 \<le> (b + 1) div 36524 - b div 36524"
      by (rule quarter)
    ultimately show ?thesis unfolding doe_scaled_def q by linarith
  qed
  with step show ?case by simp
qed simp

lemma year_table:
  "list_all (\<lambda>k.
     365 * k \<le> doe_scaled (year_start k) \<and> doe_scaled (year_end k - 1) < 365 * (k + 1) \<and>
     year_end k - year_start k = (if (k + 1) mod 4 = 0 \<and> ((k + 1) mod 100 \<noteq> 0 \<or> (k + 1) mod 400 = 0) then 366 else 365)) [0 .. 399]"
  by code_simp

definition month_index :: "int \<Rightarrow> int" where
  "month_index m = m + (if m > 2 then - 3 else 9)"

definition doy_of :: "int \<Rightarrow> int \<Rightarrow> int" where
  "doy_of m d = (153 * month_index m + 2) div 5 + d - 1"

definition month_of_doy :: "int \<Rightarrow> int \<times> int" where
  "month_of_doy doy =
     (let mp = (5 * doy + 2) div 153
      in (if mp < 10 then mp + 3 else mp - 9, doy - (153 * mp + 2) div 5 + 1))"

definition month_days :: "int \<Rightarrow> int \<Rightarrow> int" where
  "month_days feb m =
     (if m = 2 then feb else if m = 4 \<or> m = 6 \<or> m = 9 \<or> m = 11 then 30 else 31)"

lemma doy_table:
  "list_all (\<lambda>doy. case month_of_doy doy of (m, d) \<Rightarrow>
     1 \<le> m \<and> m \<le> 12 \<and> 1 \<le> d \<and> d \<le> month_days (if doy = 365 then 29 else 28) m \<and> doy_of m d = doy \<and>
     (m \<le> 2 \<longleftrightarrow> 306 \<le> doy)) [0 .. 365]"
  by code_simp

lemma month_table:
  "list_all (\<lambda>m. list_all (\<lambda>d. let doy = doy_of m d in
      0 \<le> doy \<and> doy \<le> 365 \<and> (doy = 365 \<longleftrightarrow> m = 2 \<and> d = 29) \<and> month_of_doy doy = (m, d))
     [1 .. month_days 29 m]) [1 .. 12]"
  by code_simp

lemma days_in_month_eq:
  assumes "1 \<le> m" "m \<le> 12"
  shows "days_in_month y m = month_days (if is_leap y then 29 else 28) m"
proof -
  from assms have "m \<in> {1, 2, 3, 4, 5, 6, 7, 8, 9, 10, 11, 12}" by simp presburger
  then show ?thesis by (auto simp: days_in_month_def dm_table_def month_days_def)
qed

text \<open>The facts of the two tables, for a day of an era.\<close>

lemma year_of_day:
  assumes "0 \<le> k" "k \<le> 399" "year_start k \<le> doe" "doe < year_end k"
  shows "doe_scaled doe div 365 = k"
proof -
  have "list_all (\<lambda>k. 365 * k \<le> doe_scaled (year_start k) \<and> doe_scaled (year_end k - 1) < 365 * (k + 1)) [0 .. 399]"
    using year_table by (auto simp: list_all_iff)
  then have "365 * k \<le> doe_scaled (year_start k)" "doe_scaled (year_end k - 1) < 365 * (k + 1)"
    using assms by (auto simp: list_all_iff)
  moreover have "doe_scaled (year_start k) \<le> doe_scaled doe" "doe_scaled doe \<le> doe_scaled (year_end k - 1)"
    using assms by (auto intro!: doe_scaled_mono)
  ultimately show ?thesis by (intro int_div_pos_eq [of _ _ _ "doe_scaled doe - 365 * k"]) auto
qed

lemma year_length:
  assumes "0 \<le> k" "k \<le> 399"
  shows "year_end k - year_start k =
    (if (k + 1) mod 4 = 0 \<and> ((k + 1) mod 100 \<noteq> 0 \<or> (k + 1) mod 400 = 0) then 366 else 365)"
proof -
  have "list_all (\<lambda>k. year_end k - year_start k =
    (if (k + 1) mod 4 = 0 \<and> ((k + 1) mod 100 \<noteq> 0 \<or> (k + 1) mod 400 = 0) then 366 else 365)) [0 .. 399]"
    using year_table unfolding list_all_iff by metis
  then show ?thesis using assms unfolding list_all_iff by simp
qed

lemma year_length_cases:
  "0 \<le> k \<Longrightarrow> k \<le> 399 \<Longrightarrow> year_end k - year_start k = 365 \<or> year_end k - year_start k = 366"
  by (simp add: year_length)

lemma year_exists:
  assumes "0 \<le> doe" "doe < 146097"
  shows "\<exists>k. 0 \<le> k \<and> k \<le> 399 \<and> year_start k \<le> doe \<and> doe < year_end k"
proof -
  have "\<exists>k. 0 \<le> k \<and> k \<le> int n \<and> year_start k \<le> doe \<and> doe < year_end k"
    if "n \<le> 399" "doe < year_end (int n)" for n
    using that
  proof (induction n)
    case 0
    then show ?case using assms by (intro exI [of _ 0]) (simp add: year_start_def)
  next
    case (Suc n)
    show ?case
    proof (cases "year_start (int (Suc n)) \<le> doe")
      case True
      with Suc.prems show ?thesis by (intro exI [of _ "int (Suc n)"]) simp
    next
      case False
      with Suc.prems have "doe < year_end (int n)" by (simp add: year_end_def add.commute)
      with Suc show ?thesis by force
    qed
  qed
  from this [of 399] assms show ?thesis by (simp add: year_end_def)
qed

definition valid_date :: "int \<Rightarrow> int \<Rightarrow> int \<Rightarrow> bool" where
  "valid_date y m d \<longleftrightarrow> 1 \<le> m \<and> m \<le> 12 \<and> 1 \<le> d \<and> d \<le> days_in_month y m"

lemma days_from_civil_eq:
  assumes "1 \<le> m" "m \<le> 12" "1 \<le> d"
  shows "days_from_civil y m d = (let y1 = y - (if m \<le> 2 then 1 else 0) in
     (y1 div 400) * 146097 + year_start (y1 mod 400) + doy_of m d - 719468)"
proof -
  let ?y1 = "y - (if m \<le> 2 then 1 else 0)"
  have era: "(if ?y1 \<ge> 0 then ?y1 else ?y1 - 399) sdiv 400 = ?y1 div 400"
    by (rule floor_sdiv_eras)
  have yoe: "?y1 - ?y1 div 400 * 400 = ?y1 mod 400" by (simp add: minus_div_mult_eq_mod)
  have "0 \<le> 153 * month_index m + 2" using assms by (simp add: month_index_def)
  then have doy: "(153 * month_index m + 2) sdiv 5 = (153 * month_index m + 2) div 5"
    by (simp add: sdiv_nonneg)
  show ?thesis
    unfolding days_from_civil_def Let_def era yoe doy [unfolded month_index_def]
    by (simp add: year_start_def doy_of_def month_index_def sdiv_nonneg)
qed

lemma civil_from_days_eq:
  assumes "0 \<le> k" "k \<le> 399" "year_start k \<le> doe" "doe < year_end k"
    and "0 \<le> doe" "doe < 146097" "z = era * 146097 + doe - 719468"
  shows "civil_from_days z = (case month_of_doy (doe - year_start k) of
     (m, d) \<Rightarrow> (era * 400 + k + (if m \<le> 2 then 1 else 0), m, d))"
proof -
  let ?z = "z + 719468"
  have "?z div 146097 = era" "?z mod 146097 = doe"
    using assms(5,6,7) by (simp_all add: int_div_pos_eq int_mod_pos_eq)
  then have era: "(if ?z \<ge> 0 then ?z else ?z - 146096) sdiv 146097 = era"
    using floor_sdiv_eras(2) [of ?z] by metis
  have doe: "?z - era * 146097 = doe" using assms(7) by simp
  have s: "doe_scaled doe div 365 = k" by (rule year_of_day [OF assms(1-4)])
  have "0 \<le> doe_scaled doe" using doe_scaled_mono [OF assms(5)] by (simp add: doe_scaled_def)
  then have yoe: "(doe - doe sdiv 1460 + doe sdiv 36524 - doe sdiv 146096) sdiv 365 = k"
    using assms(5) s by (simp add: sdiv_nonneg doe_scaled_def)
  have doy: "doe - (365 * k + k sdiv 4 - k sdiv 100) = doe - year_start k"
    using assms(1) by (simp add: sdiv_nonneg year_start_def)
  let ?doy = "doe - year_start k"
  have "0 \<le> 5 * ?doy + 2" using assms(3) by simp
  then have mp: "(5 * ?doy + 2) sdiv 153 = (5 * ?doy + 2) div 153" "0 \<le> (5 * ?doy + 2) div 153"
    by (simp_all add: sdiv_nonneg)
  then have md: "(153 * ((5 * ?doy + 2) div 153) + 2) sdiv 5 = (153 * ((5 * ?doy + 2) div 153) + 2) div 5"
    by (simp add: sdiv_nonneg)
  show ?thesis
    unfolding civil_from_days_def Let_def era doe yoe doy mp(1) md month_of_doy_def by simp
qed

lemma smod_zero_iff: "0 < b \<Longrightarrow> a smod b = 0 \<longleftrightarrow> a mod (b :: int) = 0"
  by (cases "a = 0") (auto simp: signed_modulo_int_def mod_eq_0_iff_dvd sgn_if)

lemma is_leap_eq: "is_leap y \<longleftrightarrow> y mod 4 = 0 \<and> (y mod 100 \<noteq> 0 \<or> y mod 400 = 0)"
proof -
  have "y mod 400 = 0 \<Longrightarrow> y mod 4 = 0"
    using dvd_trans [of 4 400 y] by (simp add: mod_eq_0_iff_dvd)
  then show ?thesis by (auto simp: is_leap_def smod_zero_iff)
qed

lemma is_leap_era:
  assumes "y = era * 400 + x"
  shows "is_leap y \<longleftrightarrow> x mod 4 = 0 \<and> (x mod 100 \<noteq> 0 \<or> x mod 400 = 0)"
proof -
  have "y mod 4 = x mod 4" using mod_mult_self2 [of x 4 "era * 100"] by (simp add: assms add.commute mult.commute)
  moreover have "y mod 100 = x mod 100" using mod_mult_self2 [of x 100 "era * 4"] by (simp add: assms add.commute mult.commute)
  moreover have "y mod 400 = x mod 400" by (simp add: assms)
  ultimately show ?thesis by (simp only: is_leap_eq)
qed

lemma month_of_doy_ok:
  assumes "0 \<le> doy" "doy \<le> 365" "month_of_doy doy = (m, d)"
  shows "1 \<le> m" "m \<le> 12" "1 \<le> d" "doy_of m d = doy" "d \<le> month_days (if doy = 365 then 29 else 28) m"
    "m \<le> 2 \<longleftrightarrow> 306 \<le> doy"
proof -
  from assms have "doy \<in> set [0 .. 365]" by simp
  with doy_table assms(3) show "1 \<le> m" "m \<le> 12" "1 \<le> d" "doy_of m d = doy"
    "d \<le> month_days (if doy = 365 then 29 else 28) m" "m \<le> 2 \<longleftrightarrow> 306 \<le> doy"
    unfolding list_all_iff by fastforce+
qed

lemma doy_of_ok:
  assumes "1 \<le> m" "m \<le> 12" "1 \<le> d" "d \<le> month_days 29 m"
  shows "0 \<le> doy_of m d" "doy_of m d \<le> 365" "doy_of m d = 365 \<longleftrightarrow> m = 2 \<and> d = 29"
    "month_of_doy (doy_of m d) = (m, d)"
proof -
  from assms have "m \<in> set [1 .. 12]" "d \<in> set [1 .. month_days 29 m]" by simp_all
  with month_table show "0 \<le> doy_of m d" "doy_of m d \<le> 365" "doy_of m d = 365 \<longleftrightarrow> m = 2 \<and> d = 29"
    "month_of_doy (doy_of m d) = (m, d)"
    unfolding list_all_iff Let_def by blast+
qed

lemma year_bounds:
  assumes "0 \<le> k" "k \<le> 399"
  shows "0 \<le> year_start k" "year_end k \<le> 146097"
proof -
  have "k div 100 \<le> k" "0 \<le> k div 4"
    using assms zdiv_mono2 [of k 1 100] by (simp_all add: pos_imp_zdiv_nonneg_iff)
  then show "0 \<le> year_start k" unfolding year_start_def using assms by linarith
  have "0 \<le> (k + 1) div 100" using assms by (simp add: pos_imp_zdiv_nonneg_iff)
  moreover have "(k + 1) div 4 \<le> 400 div 4" using assms by (intro zdiv_mono1) simp_all
  ultimately show "year_end k \<le> 146097" unfolding year_end_def year_start_def using assms by simp
qed

text \<open>How a civil date is found: the era and year of the day, then its month.\<close>

lemma civil_parts:
  assumes "civil_from_days z = (y, m, d)"
  obtains k where "0 \<le> k" "k \<le> 399"
    "year_start k \<le> (z + 719468) mod 146097" "(z + 719468) mod 146097 < year_end k"
    "month_of_doy ((z + 719468) mod 146097 - year_start k) = (m, d)"
    "y = (z + 719468) div 146097 * 400 + k + (if m \<le> 2 then 1 else 0)"
proof -
  let ?era = "(z + 719468) div 146097" and ?doe = "(z + 719468) mod 146097"
  have doe: "0 \<le> ?doe" "?doe < 146097" by simp_all
  then obtain k where k: "0 \<le> k" "k \<le> 399" "year_start k \<le> ?doe" "?doe < year_end k"
    using year_exists by blast
  have z: "z = ?era * 146097 + ?doe - 719468" using div_mult_mod_eq [of "z + 719468" 146097] by linarith
  obtain m' d' where md: "month_of_doy (?doe - year_start k) = (m', d')" by force
  with assms civil_from_days_eq [OF k doe z]
  have "y = ?era * 400 + k + (if m \<le> 2 then 1 else 0)" "m' = m" "d' = d"
    by (auto split: if_splits)
  with k md show thesis by (intro that) auto
qed

text \<open>
  The two calendar conversions are mutually inverse: \<open>civil_from_days\<close> maps every day number,
  before or after 1970, to the one valid Gregorian date that \<open>days_from_civil\<close> maps to it.
\<close>

theorem civil_days_bijection:
  "civil_from_days z = (y, m, d) \<longleftrightarrow> valid_date y m d \<and> days_from_civil y m d = z"
proof
  assume civ: "civil_from_days z = (y, m, d)"
  obtain era where er: "era = (z + 719468) div 146097" by blast
  obtain doe where de: "doe = (z + 719468) mod 146097" by blast
  have z: "z = era * 146097 + doe - 719468"
    unfolding er de by (simp only: div_mult_mod_eq add_diff_cancel_right')
  obtain k where k: "0 \<le> k" "k \<le> 399" "year_start k \<le> doe" "doe < year_end k"
    and md: "month_of_doy (doe - year_start k) = (m, d)"
    and y: "y = era * 400 + k + (if m \<le> 2 then 1 else 0)"
    using civil_parts [OF civ] unfolding er de by blast
  let ?doy = "doe - year_start k"
  have doy: "?doy \<le> 365" "?doy = 365 \<Longrightarrow> (k + 1) mod 4 = 0 \<and> ((k + 1) mod 100 \<noteq> 0 \<or> (k + 1) mod 400 = 0)"
    using k year_length [OF k(1,2)] by (auto split: if_splits)
  have "0 \<le> ?doy" using k by simp
  note ok = month_of_doy_ok [OF this doy(1) md]
  have leap: "m = 2 \<Longrightarrow> ?doy = 365 \<Longrightarrow> is_leap y"
    using y doy(2) is_leap_era [of y era "k + 1"] by simp
  have "valid_date y m d"
    using ok leap by (auto simp: valid_date_def days_in_month_eq month_days_def split: if_splits)
  moreover have y1: "y - (if m \<le> 2 then 1 else 0) = 400 * era + k"
    using y by (simp only: diff_eq_eq mult.commute)
  have "(y - (if m \<le> 2 then 1 else 0)) div 400 = era" "(y - (if m \<le> 2 then 1 else 0)) mod 400 = k"
    by (rule int_div_pos_eq [OF y1] int_mod_pos_eq [OF y1]; use k in simp)+
  then have "days_from_civil y m d = z"
    using z ok by (simp only: days_from_civil_eq [OF ok(1-3)] Let_def)
  ultimately show "valid_date y m d \<and> days_from_civil y m d = z" by simp
next
  assume "valid_date y m d \<and> days_from_civil y m d = z"
  then have v: "1 \<le> m" "m \<le> 12" "1 \<le> d" "d \<le> days_in_month y m" and z: "days_from_civil y m d = z"
    by (auto simp: valid_date_def)
  let ?y1 = "y - (if m \<le> 2 then 1 else 0)"
  let ?era = "?y1 div 400" and ?k = "?y1 mod 400"
  have k: "0 \<le> ?k" "?k \<le> 399" by (simp_all add: zle_diff1_eq [symmetric] del: zle_diff1_eq)
  have "d \<le> month_days 29 m"
    using v by (auto simp: days_in_month_eq month_days_def split: if_splits)
  note ok = doy_of_ok [OF v(1-3) this]
  have "year_end ?k - year_start ?k = 366" if "doy_of m d = 365"
  proof -
    have "m = 2" "is_leap y"
      using that ok(3) v by (auto simp: days_in_month_eq month_days_def split: if_splits)
    then have "y = ?era * 400 + (?k + 1)" using div_mult_mod_eq [of ?y1 400] by simp
    from is_leap_era [OF this] \<open>is_leap y\<close> show ?thesis
      by (simp only: year_length [OF k] if_True simp_thms)
  qed
  then have "doy_of m d < year_end ?k - year_start ?k"
    using year_length_cases [OF k] ok(2) by linarith
  then have in_year: "year_start ?k \<le> year_start ?k + doy_of m d" "year_start ?k + doy_of m d < year_end ?k"
    using ok(1) by simp_all
  have "z = ?era * 146097 + (year_start ?k + doy_of m d) - 719468"
    using z days_from_civil_eq [OF v(1-3), of y] by (simp add: Let_def)
  from civil_from_days_eq [OF k in_year _ _ this] year_bounds [OF k] in_year ok
  show "civil_from_days z = (y, m, d)" by (simp add: div_mult_mod_eq)
qed

end
