(* ===== verification/As_Time.thy ===== *)
theory As_Time
  imports As_Calendar
begin

text \<open>
  \<^verbatim>\<open>src/time.c\<close>, second part: RFC 3339 timestamps. The formatter and the parser form a codec on
  the years 0 to 9999.
\<close>

section \<open>RFC 3339\<close>

text \<open>\<open>parse_digits s i n v\<close>: \<open>n\<close> more digits from index \<open>i\<close>; a NUL is not a digit.\<close>

fun parse_digits :: "string \<Rightarrow> nat \<Rightarrow> nat \<Rightarrow> int \<Rightarrow> int option" where
  "parse_digits s i 0 v = Some v"
| "parse_digits s i (Suc n) v =
     (if \<not> is_digit (cget s i) then None
      else parse_digits s (Suc i) n (v * 10 + int (digit_val (cget s i))))"

text \<open>The optional fraction at the cursor: at least one digit, then skipped.\<close>

definition skip_fraction :: "string \<Rightarrow> string option" where
  "skip_fraction p =
     (if cur p = CHR ''.'' then
        if \<not> is_digit (cur (tl p)) then None else Some (dropWhile is_digit (tl p))
      else Some p)"

text \<open>The zone: the offset to add in seconds and the rest of the text.\<close>

definition parse_zone :: "string \<Rightarrow> (int \<times> string) option" where
  "parse_zone p =
     (let sign = cur p in
      if sign = CHR ''Z'' \<or> sign = CHR ''z'' then Some (0, tl p)
      else if sign = CHR ''+'' \<or> sign = CHR ''-'' then
        (case parse_digits (tl p) 0 2 0 of
           None \<Rightarrow> None
         | Some offh \<Rightarrow>
            if cget (tl p) 2 \<noteq> CHR '':'' then None
            else (case parse_digits (tl p) 3 2 0 of
                    None \<Rightarrow> None
                  | Some offm \<Rightarrow>
                     if offh > 23 \<or> offm > 59 then None
                     else let off = offh * 3600 + offm * 60
                          in Some (if sign = CHR ''+'' then - off else off, drop 5 (tl p))))
      else None)"

definition astools_time_parse_rfc3339 :: "string option \<Rightarrow> int option" where
  "astools_time_parse_rfc3339 text =
     (case text of
        None \<Rightarrow> None
      | Some s \<Rightarrow>
         (case parse_digits s 0 4 0 of None \<Rightarrow> None | Some y \<Rightarrow>
          if cget s 4 \<noteq> CHR ''-'' then None else
          case parse_digits s 5 2 0 of None \<Rightarrow> None | Some mo \<Rightarrow>
          if cget s 7 \<noteq> CHR ''-'' then None else
          case parse_digits s 8 2 0 of None \<Rightarrow> None | Some d \<Rightarrow>
          if cget s 10 \<noteq> CHR ''T'' \<and> cget s 10 \<noteq> CHR ''t'' then None else
          case parse_digits s 11 2 0 of None \<Rightarrow> None | Some h \<Rightarrow>
          if cget s 13 \<noteq> CHR '':'' then None else
          case parse_digits s 14 2 0 of None \<Rightarrow> None | Some mi \<Rightarrow>
          if cget s 16 \<noteq> CHR '':'' then None else
          case parse_digits s 17 2 0 of None \<Rightarrow> None | Some se \<Rightarrow>
          case skip_fraction (drop 19 s) of None \<Rightarrow> None | Some p \<Rightarrow>
          case parse_zone p of None \<Rightarrow> None | Some (off, rest) \<Rightarrow>
          if rest \<noteq> [] then None
          else if mo < 1 \<or> mo > 12 then None
          else if d < 1 \<or> d > days_in_month y mo then None
          else if h > 23 \<or> mi > 59 \<or> se > 60 then None
          else Some (days_from_civil y mo d * 86400 + h * 3600 + mi * 60 + se + off)))"

definition idigit :: "int \<Rightarrow> char" where
  "idigit i = digit_char (nat i)"

definition astools_time_format_rfc3339 :: "int \<Rightarrow> string" where
  "astools_time_format_rfc3339 t =
     (let days0 = t sdiv 86400; sod0 = t smod 86400;
          sod = (if sod0 < 0 then sod0 + 86400 else sod0);
          days = (if sod0 < 0 then days0 - 1 else days0)
      in case civil_from_days days of (y, m, d) \<Rightarrow>
         let h = sod sdiv 3600; mi = (sod sdiv 60) smod 60; se = sod smod 60 in
         if y < 0 \<or> y > 9999 then []
         else [idigit ((y sdiv 1000) smod 10), idigit ((y sdiv 100) smod 10),
               idigit ((y sdiv 10) smod 10), idigit (y smod 10), CHR ''-'',
               idigit (m sdiv 10), idigit (m smod 10), CHR ''-'',
               idigit (d sdiv 10), idigit (d smod 10), CHR ''T'',
               idigit (h sdiv 10), idigit (h smod 10), CHR '':'',
               idigit (mi sdiv 10), idigit (mi smod 10), CHR '':'',
               idigit (se sdiv 10), idigit (se smod 10), CHR ''Z''])"

section \<open>Timestamps\<close>

definition time_ok :: "int \<Rightarrow> bool" where
  "time_ok t \<longleftrightarrow> - 62167219200 \<le> t \<and> t \<le> 253402300799"

lemma days_split:
  "(let days0 = t sdiv 86400; sod0 = t smod 86400;
        sod = (if sod0 < 0 then sod0 + 86400 else sod0);
        days = (if sod0 < 0 then days0 - 1 else days0) in (days, sod)) = (t div 86400, t mod (86400 :: int))"
proof (cases "t \<ge> 0")
  case True
  then show ?thesis by (simp add: sdiv_nonneg smod_nonneg Let_def)
next
  case False
  then have q: "t sdiv 86400 = - ((- t) div 86400)" by (simp add: sdiv_neg)
  have r: "t smod 86400 = - ((- t) mod 86400)"
    using False by (simp add: signed_modulo_int_def)
  show ?thesis
    unfolding Let_def q r by (auto simp: zdiv_zminus1_eq_if zmod_zminus1_eq_if)
qed

lemma idigit_props [simp]:
  assumes "0 \<le> i" "i < 10"
  shows "is_digit (idigit i)" "int (digit_val (idigit i)) = i"
  using assms by (simp_all add: idigit_def)

lemma two_digits: "0 \<le> x \<Longrightarrow> x div 10 * 10 + x mod 10 = (x :: int)"
  by simp

lemma four_digits:
  "0 \<le> (y :: int) \<Longrightarrow> ((y div 1000 * 10 + y div 100 mod 10) * 10 + y div 10 mod 10) * 10 + y mod 10 = y"
proof -
  have "y div 1000 = y div 10 div 10 div 10" "y div 100 = y div 10 div 10"
    by (simp_all add: zdiv_zmult2_eq [symmetric])
  then show ?thesis by (simp only: div_mult_mod_eq)
qed


lemma days_year_bounds:
  assumes "time_ok t" "civil_from_days (t div 86400) = (y, m, d)"
  shows "0 \<le> y" "y \<le> 9999"
proof -
  obtain z where zd: "z = t div 86400 + 719468" by blast
  obtain era where er: "era = z div 146097" by blast
  obtain doe where de: "doe = z mod 146097" by blast
  have z: "- 60 \<le> z" "z \<le> 3652364"
    using assms(1) zdiv_mono1 [of "- 62167219200" t 86400] zdiv_mono1 [of t 253402300799 86400]
    by (simp_all add: time_ok_def zd)
  have dm: "era * 146097 + doe = z" "0 \<le> doe" "doe < 146097" by (simp_all add: er de)
  then have era: "- 1 \<le> era" "era \<le> 24" using z by linarith+
  obtain k where k: "0 \<le> k" "k \<le> 399" "year_start k \<le> doe" "doe < year_end k"
    and md: "month_of_doy (doe - year_start k) = (m, d)"
    and y: "y = era * 400 + k + (if m \<le> 2 then 1 else 0)"
    using civil_parts [OF assms(2)] unfolding er de zd by blast
  have doy: "0 \<le> doe - year_start k" "doe - year_start k \<le> 365"
    using k year_length [OF k(1,2)] by (auto split: if_splits)
  note month = month_of_doy_ok(6) [OF doy md]
  have start: "k = 399 \<Longrightarrow> year_start k = 145731" by (simp add: year_start_def)
  show "0 \<le> y"
  proof (cases "era = - 1")
    case True
    with dm z have doe: "146037 \<le> doe" by linarith
    have "k = 399"
    proof (rule ccontr)
      assume "k \<noteq> 399"
      then have k1: "k + 1 \<le> 399" using k by simp
      have "(k + 1) div 4 \<le> 399 div 4" using k1 by (intro zdiv_mono1) simp_all
      moreover have "0 \<le> (k + 1) div 100" using k by (simp add: pos_imp_zdiv_nonneg_iff)
      ultimately have "year_start (k + 1) \<le> 365 * (k + 1) + 99"
        by (simp add: year_start_def)
      with k1 have "year_start (k + 1) \<le> 146037" by simp
      moreover have "doe < year_start (k + 1)" using k \<open>k \<noteq> 399\<close> by (simp add: year_end_def)
      ultimately show False using doe by (meson not_less order.trans)
    qed
    with y True month start doe show ?thesis by simp
  next
    case False
    with era y k show ?thesis by simp
  qed
  show "y \<le> 9999"
  proof (cases "era = 24 \<and> k = 399")
    case True
    with dm z have "doe \<le> 146036" by linarith
    with True y month start show ?thesis by simp
  next
    case False
    with era y k show ?thesis by (auto split: if_splits)
  qed
qed

text \<open>The text \<open>format\<close> writes, by its fields.\<close>

lemma time_format_eq:
  assumes "civil_from_days (t div 86400) = (y, m, d)" "0 \<le> y" "y \<le> 9999"
  shows "astools_time_format_rfc3339 t =
    (let sod = t mod 86400; h = sod div 3600; mi = sod div 60 mod 60; se = sod mod 60 in
     [idigit (y div 1000), idigit (y div 100 mod 10), idigit (y div 10 mod 10), idigit (y mod 10), CHR ''-'',
      idigit (m div 10), idigit (m mod 10), CHR ''-'', idigit (d div 10), idigit (d mod 10), CHR ''T'',
      idigit (h div 10), idigit (h mod 10), CHR '':'', idigit (mi div 10), idigit (mi mod 10), CHR '':'',
      idigit (se div 10), idigit (se mod 10), CHR ''Z''])"
proof -
  have v: "1 \<le> m" "1 \<le> d" using assms(1) by (simp_all add: civil_days_bijection valid_date_def)
  let ?s = "t mod 86400"
  have s: "0 \<le> ?s" by simp
  then have q: "0 \<le> ?s div 60" "0 \<le> ?s div 3600" "0 \<le> ?s mod 60" "0 \<le> ?s div 60 mod 60"
    by (simp_all add: pos_imp_zdiv_nonneg_iff)
  have y: "0 \<le> y div 1000" "y div 1000 < 10" "0 \<le> y div 100" "0 \<le> y div 10"
    using assms(2,3) zdiv_mono1 [of y 9999 1000] by (simp_all add: pos_imp_zdiv_nonneg_iff)
  have "0 \<le> m" "0 \<le> d" using v by simp_all
  note div_eqs = sdiv_nonneg [OF s] sdiv_nonneg [OF assms(2)] sdiv_nonneg [OF this(1)] sdiv_nonneg [OF this(2)]
      sdiv_nonneg [OF q(2)] sdiv_nonneg [OF q(3)] sdiv_nonneg [OF q(4)]
    and mod_eqs = smod_nonneg [OF s] smod_nonneg [OF assms(2)] smod_nonneg [OF this(1)] smod_nonneg [OF this(2)]
      smod_nonneg [OF q(1)] smod_nonneg [OF q(2)] smod_nonneg [OF q(4)] smod_nonneg [OF q(3)]
      smod_nonneg [OF y(1)] smod_nonneg [OF y(3)] smod_nonneg [OF y(4)]
  have y1000: "y div 1000 mod 10 = y div 1000" using y by (simp add: mod_pos_pos_trivial)
  note days = days_split [of t, unfolded Let_def prod.inject, THEN conjunct1]
    and sods = days_split [of t, unfolded Let_def prod.inject, THEN conjunct2]
  have range: "\<not> (y < 0 \<or> y > 9999)" using assms(2,3) by simp
  show ?thesis
    unfolding astools_time_format_rfc3339_def Let_def days sods assms(1) prod.case if_not_P [OF range]
    by (simp only: div_eqs mod_eqs y1000 zero_less_numeral)
qed

lemma parse_two: "is_digit (cget s i) \<Longrightarrow> is_digit (cget s (Suc i)) \<Longrightarrow>
  parse_digits s i 2 0 = Some (int (digit_val (cget s i)) * 10 + int (digit_val (cget s (Suc i))))"
  by (simp add: numeral_2_eq_2)

lemma parse_four:
  assumes "cget s 0 = idigit a" "cget s 1 = idigit b" "cget s 2 = idigit c" "cget s 3 = idigit d"
    and "0 \<le> a" "a < 10" "0 \<le> b" "b < 10" "0 \<le> c" "c < 10" "0 \<le> d" "d < 10"
    and "((a * 10 + b) * 10 + c) * 10 + d = y"
  shows "parse_digits s 0 4 0 = Some y"
  using assms by (simp add: numeral_eq_Suc)

lemma time_roundtrip:
  assumes "time_ok t"
  shows "astools_time_parse_rfc3339 (Some (astools_time_format_rfc3339 t)) = Some t"
proof -
  obtain y m d where civ: "civil_from_days (t div 86400) = (y, m, d)" using prod_cases3 by blast
  note yb = days_year_bounds [OF assms civ]
  have v: "valid_date y m d" "days_from_civil y m d = t div 86400"
    using civ civil_days_bijection by blast+
  have md: "1 \<le> m" "m \<le> 12" "1 \<le> d" "d \<le> days_in_month y m" "d \<le> 31"
    using v by (auto simp: valid_date_def days_in_month_eq month_days_def split: if_splits)
  obtain sod where sod: "sod = t mod 86400" by blast
  obtain h where h: "h = sod div 3600" by blast
  obtain mi where mi: "mi = sod div 60 mod 60" by blast
  obtain se where se: "se = sod mod 60" by blast
  have s86: "0 \<le> sod" "sod \<le> 86399" using pos_mod_bound [of 86400 t] by (simp_all add: sod)
  have q: "0 \<le> h" "h \<le> 23" "0 \<le> mi" "mi \<le> 59" "0 \<le> se" "se \<le> 59"
  proof -
    show "0 \<le> h" using s86 by (simp add: h pos_imp_zdiv_nonneg_iff)
    show "h \<le> 23" using zdiv_mono1 [of sod 86399 3600] s86 by (simp add: h)
    show "mi \<le> 59" "se \<le> 59" using pos_mod_bound [of 60] by (simp_all add: mi se zle_diff1_eq [symmetric])
  qed (simp_all add: mi se)
  have total_s: "h * 3600 + mi * 60 + se = sod"
  proof -
    have "sod div 3600 = sod div 60 div 60" by (simp add: zdiv_zmult2_eq [symmetric])
    then have "h * 60 + mi = sod div 60" unfolding h mi by (simp only: div_mult_mod_eq)
    moreover have "sod div 60 * 60 + se = sod" unfolding se by (simp only: div_mult_mod_eq)
    ultimately have "(h * 60 + mi) * 60 + se = sod" by simp
    then show ?thesis by (simp add: algebra_simps)
  qed
  have yd: "0 \<le> y div 1000" "y div 1000 < 10"
    using yb zdiv_mono1 [of y 9999 1000] by (simp_all add: pos_imp_zdiv_nonneg_iff)
  have two: "0 \<le> x div 10" "x div 10 < 10" "0 \<le> x mod 10" "x mod 10 < 10"
    if "0 \<le> x" "x \<le> 99" for x :: int
    using that zdiv_mono1 [of x 99 10] by (simp_all add: pos_imp_zdiv_nonneg_iff)
  obtain s where s: "s = astools_time_format_rfc3339 t" by blast
  note fmt = time_format_eq [OF civ yb, folded s, unfolded Let_def, folded sod, folded h mi se]
  have two_parse: "parse_digits r i 2 0 = Some x"
    if "cget r i = idigit (x div 10)" "cget r (Suc i) = idigit (x mod 10)" "0 \<le> x" "x \<le> 99" for r i x
    using two [OF that(3,4)] that by (simp add: parse_two)
  have f: "parse_digits s 5 2 0 = Some m" "parse_digits s 8 2 0 = Some d"
    "parse_digits s 11 2 0 = Some h" "parse_digits s 14 2 0 = Some mi" "parse_digits s 17 2 0 = Some se"
    by (rule two_parse; use md q in \<open>simp add: fmt\<close>)+
  have f4: "parse_digits s 0 4 0 = Some y"
    by (rule parse_four [OF _ _ _ _ yd _ _ _ _ _ _ four_digits [OF yb(1)]]) (simp_all add: fmt)
  have c: "cget s 4 = CHR ''-''" "cget s 7 = CHR ''-''" "cget s 10 = CHR ''T''"
    "cget s 13 = CHR '':''" "cget s 16 = CHR '':''" "drop 19 s = ''Z''"
    by (simp_all add: fmt)
  have "t div 86400 * 86400 + sod = t" by (simp add: sod)
  with total_s show ?thesis
    unfolding s [symmetric] astools_time_parse_rfc3339_def
    using f f4 c v md q by (simp add: skip_fraction_def parse_zone_def)
qed

interpretation rfc3339: codec "\<lambda>t. Some (astools_time_format_rfc3339 t)" astools_time_parse_rfc3339 time_ok
  by unfold_locales (rule time_roundtrip)

text \<open>
  C22: Every instant of the years 0 to 9999 survives formatting: the 20-character UTC text is parsed
  back to the same second, so two instants never share a text.
\<close>

theorem time_rfc3339_roundtrip:
  assumes "time_ok t"
  shows "astools_time_parse_rfc3339 (Some (astools_time_format_rfc3339 t)) = Some t \<and>
    (\<forall>u. time_ok u \<and> u \<noteq> t \<longrightarrow> astools_time_format_rfc3339 u \<noteq> astools_time_format_rfc3339 t)"
  using rfc3339.dec_enc [OF assms] rfc3339.enc_inj [OF _ assms] by auto

theorem time_rfc3339_roundtrip_witness:
  "astools_time_parse_rfc3339 (Some (astools_time_format_rfc3339 (- 1))) = Some (- 1) \<and>
   astools_time_format_rfc3339 (- 1) = ''1969-12-31T23:59:59Z''"
proof
  show "astools_time_parse_rfc3339 (Some (astools_time_format_rfc3339 (- 1))) = Some (- 1)"
    using time_rfc3339_roundtrip [of "- 1"] by (simp add: time_ok_def)
  show "astools_time_format_rfc3339 (- 1) = ''1969-12-31T23:59:59Z''" by code_simp
qed

end
