(* ===== verification/As_Uuid.thy ===== *)
theory As_Uuid
  imports As_Prelude
begin

unbundle bit_operations_syntax

text \<open>
  \<^verbatim>\<open>src/uuid.c\<close>: UUIDs between their 16 bytes and their 36-character text. The two directions are
  mutually inverse up to the case of the hexadecimal digits.
\<close>

definition uuid_hexd :: string where
  "uuid_hexd = ''0123456789abcdef''"

definition dash_before :: "nat list" where
  "dash_before = [0, 0, 0, 0, 1, 0, 1, 0, 1, 0, 1, 0, 0, 0, 0, 0]"

definition astools_uuid_from_bytes :: "byte list \<Rightarrow> string" where
  "astools_uuid_from_bytes b =
     concat (map (\<lambda>i. (if dash_before ! i \<noteq> 0 then ''-'' else []) @
                      [uuid_hexd ! unat (drop_bit 4 (b ! i)), uuid_hexd ! unat (b ! i AND 0x0f)]) [0 ..< 16])"

text \<open>\<open>random\<close> is what \<open>os_random_bytes\<close> delivers.\<close>

definition astools_uuid_v4 :: "byte list \<Rightarrow> string" where
  "astools_uuid_v4 random =
     (let b1 = random[6 := (random ! 6 AND 0x0f) OR 0x40];
          b2 = b1[8 := (b1 ! 8 AND 0x3f) OR 0x80]
      in astools_uuid_from_bytes b2)"

definition hex_val :: "char \<Rightarrow> int" where
  "hex_val ch =
     (if is_digit ch then int (chcode ch) - 48
      else if 97 \<le> chcode ch \<and> chcode ch \<le> 102 then int (chcode ch) - 97 + 10
      else if 65 \<le> chcode ch \<and> chcode ch \<le> 70 then int (chcode ch) - 65 + 10
      else - 1)"

definition astools_uuid_valid :: "string option \<Rightarrow> bool" where
  "astools_uuid_valid str =
     (case str of
        None \<Rightarrow> False
      | Some s \<Rightarrow>
         list_all (\<lambda>i. cget s i \<noteq> NUL \<and>
           (if i = 8 \<or> i = 13 \<or> i = 18 \<or> i = 23 then cget s i = CHR ''-'' else \<not> hex_val (cget s i) < 0))
           [0 ..< 36]
         \<and> cget s 36 = NUL)"

function uuid_bytes_loop :: "string \<Rightarrow> nat \<Rightarrow> byte list" where
  "uuid_bytes_loop s i =
     (if i < 36 then
        if cget s i = CHR ''-'' then uuid_bytes_loop s (i + 1)
        else word_of_int (push_bit 4 (hex_val (cget s i)) OR hex_val (cget s (i + 1)))
             # uuid_bytes_loop s (i + 2)
      else [])"
  by pat_completeness auto
termination by (relation "measure (\<lambda>(s, i). 36 - i)") auto

declare uuid_bytes_loop.simps [simp del]

definition astools_uuid_to_bytes :: "string option \<Rightarrow> byte list option" where
  "astools_uuid_to_bytes str =
     (if \<not> astools_uuid_valid str then None else Some (uuid_bytes_loop (the str) 0))"

section \<open>Hexadecimal pairs\<close>

definition hex_lower :: "char \<Rightarrow> char" where
  "hex_lower c = (if is_upper c then char_of (chcode c + 32) else c)"

lemma uuid_hexd_table:
  "list_all (\<lambda>n. uuid_hexd ! n = char_of (if n < 10 then 48 + n else 87 + n)) [0 ..< 16]"
  by code_simp

lemma uuid_hexd_nth:
  "n < 16 \<Longrightarrow> uuid_hexd ! n = char_of (if n < 10 then 48 + n else 87 + n)"
  using uuid_hexd_table unfolding list_all_iff by simp

lemma hex_lower_iff: "n < 16 \<Longrightarrow> hex_lower c = uuid_hexd ! n \<longleftrightarrow> hex_val c = int n"
proof -
  assume n: "n < 16"
  let ?k = "if n < 10 then 48 + n else 87 + n"
  have k: "?k < 256" using n by simp
  have "hex_lower c = uuid_hexd ! n \<longleftrightarrow> chcode (hex_lower c) = ?k"
    using n k by (auto simp: uuid_hexd_nth simp del: char_of_nat intro: chcode_inj)
  also have "\<dots> \<longleftrightarrow> hex_val c = int n"
    using n by (auto simp: hex_lower_def hex_val_def is_upper_def is_digit_def)
  finally show ?thesis .
qed

lemma hex_val_lt: "hex_val c < 16" by (auto simp: hex_val_def is_digit_def)

lemma nibbles:
  "unat (drop_bit 4 (b :: byte)) = unat b div 16" "unat (b AND 0x0f) = unat b mod 16"
proof -
  show "unat (drop_bit 4 b) = unat b div 16" by (simp add: drop_bit_eq_div unat_div)
  have "b AND 0x0f = take_bit 4 b" by (simp add: take_bit_eq_mask mask_eq_exp_minus_1)
  then show "unat (b AND 0x0f) = unat b mod 16" by (simp add: unsigned_take_bit_eq take_bit_eq_mod unat_mod)
qed

lemma byte_of_int_iff: "0 \<le> k \<Longrightarrow> k < 256 \<Longrightarrow> b = word_of_int k \<longleftrightarrow> uint (b :: byte) = k"
  by (auto simp: uint_word_of_int_eq take_bit_int_eq_self)

lemma hex_pair_value:
  assumes "0 \<le> x" "x < 16" "0 \<le> y" "y < 16"
  shows "b = word_of_int (push_bit 4 x OR y) \<longleftrightarrow> int (unat (b :: byte) div 16) = x \<and> int (unat b mod 16) = y"
proof -
  have "push_bit 4 x AND y = 0"
  proof (rule bit_eqI)
    fix n
    have "\<not> bit y n" if "4 \<le> n"
    proof -
      have "(2 :: int) ^ 4 \<le> 2 ^ n" using that by (rule power_increasing) simp
      then have "y div 2 ^ n = 0" using assms by simp
      then show ?thesis by (simp add: bit_iff_odd)
    qed
    then show "bit (push_bit 4 x AND y) n \<longleftrightarrow> bit (0 :: int) n"
      by (auto simp: bit_and_iff bit_push_bit_iff)
  qed
  then have "push_bit 4 x OR y = 16 * x + y"
    using plus_and_or [of "push_bit 4 x" y] by (simp add: push_bit_eq_mult)
  moreover have "b = word_of_int (16 * x + y) \<longleftrightarrow> uint b = 16 * x + y"
    by (rule byte_of_int_iff) (use assms in simp_all)
  moreover have "uint b = 16 * x + y \<longleftrightarrow> uint b div 16 = x \<and> uint b mod 16 = y"
    using assms div_mult_mod_eq [of "uint b" 16] by auto
  ultimately show ?thesis by (simp add: zdiv_int zmod_int)
qed

lemma hex_pair_iff:
  assumes "0 \<le> hex_val c" "0 \<le> hex_val d"
  shows "b = word_of_int (push_bit 4 (hex_val c) OR hex_val d) \<longleftrightarrow>
    hex_lower c = uuid_hexd ! unat (drop_bit 4 (b :: byte)) \<and> hex_lower d = uuid_hexd ! unat (b AND 0x0f)"
proof -
  have "unat b < 256" using unsigned_less [where 'a = nat, of b] by simp
  then have "unat b div 16 < 16" "unat b mod 16 < 16" by auto
  then show ?thesis
    using assms hex_val_lt by (auto simp: hex_pair_value hex_lower_iff nibbles)
qed

section \<open>Round trips\<close>

lemma list_16:
  assumes "length b = 16"
  obtains b0 b1 b2 b3 b4 b5 b6 b7 b8 b9 b10 b11 b12 b13 b14 b15
  where "b = [b0, b1, b2, b3, b4, b5, b6, b7, b8, b9, b10, b11, b12, b13, b14, b15]"
proof -
  have "b = map ((!) b) [0 ..< 16]" using map_nth [of b] assms by simp
  then have "b = [b ! 0, b ! 1, b ! 2, b ! 3, b ! 4, b ! 5, b ! 6, b ! 7, b ! 8, b ! 9, b ! 10, b ! 11, b ! 12, b ! 
     13, b ! 14, b ! 15]"
    by (simp add: upt_rec [of _ 16] numeral_eq_Suc)
  then show thesis by (rule that)
qed

text \<open>The text of a UUID, group by group.\<close>

definition hex_of :: "byte \<Rightarrow> string" where
  "hex_of b = [uuid_hexd ! unat (drop_bit 4 b), uuid_hexd ! unat (b AND 0x0f)]"

lemma uuid_from_bytes_explicit:
  "astools_uuid_from_bytes [b0, b1, b2, b3, b4, b5, b6, b7, b8, b9, b10, b11, b12, b13, b14, b15] =
     hex_of b0 @ hex_of b1 @ hex_of b2 @ hex_of b3 @ ''-'' @ hex_of b4 @ hex_of b5 @ ''-'' @
     hex_of b6 @ hex_of b7 @ ''-'' @ hex_of b8 @ hex_of b9 @ ''-'' @
     hex_of b10 @ hex_of b11 @ hex_of b12 @ hex_of b13 @ hex_of b14 @ hex_of b15"
  by (simp add: astools_uuid_from_bytes_def hex_of_def dash_before_def upt_rec [of _ 16])

lemma list_36:
  assumes "length s = 36"
  obtains s0 s1 s2 s3 s4 s5 s6 s7 s8 s9 s10 s11 s12 s13 s14 s15 s16 s17 s18 s19 s20 s21 s22 s23 s24 s25 s26 
     s27 s28 s29 s30 s31 s32 s33 s34 s35
  where "s = [s0, s1, s2, s3, s4, s5, s6, s7, s8, s9, s10, s11, s12, s13, s14, s15, s16, s17, s18, s19, s20, s21, 
     s22, s23, s24, s25, s26, s27, s28, s29, s30, s31, s32, s33, s34, s35]"
proof -
  have "s = map ((!) s) [0 ..< 36]" using map_nth [of s] assms by simp
  then have "s = [s ! 0, s ! 1, s ! 2, s ! 3, s ! 4, s ! 5, s ! 6, s ! 7, s ! 8, s ! 9, s ! 10, s ! 11, s ! 12, s ! 
     13, s ! 14, s ! 15, s ! 16, s ! 17, s ! 18, s ! 19, s ! 20, s ! 21, s ! 22, s ! 23, s ! 24, s ! 25, 
     s ! 26, s ! 27, s ! 28, s ! 29, s ! 30, s ! 31, s ! 32, s ! 33, s ! 34, s ! 35]"
    by (simp add: upt_rec [of _ 36] numeral_eq_Suc)
  then show thesis by (rule that)
qed

definition hexc :: "char \<Rightarrow> bool" where
  "hexc c \<longleftrightarrow> 0 \<le> hex_val c"

definition byte_of :: "char \<Rightarrow> char \<Rightarrow> byte" where
  "byte_of c d = word_of_int (push_bit 4 (hex_val c) OR hex_val d)"

lemma hexc_not [simp]: "hexc c \<Longrightarrow> c \<noteq> NUL" "hexc c \<Longrightarrow> c \<noteq> CHR ''-''"
  by (auto simp: hexc_def hex_val_def is_digit_def chcode_def NUL_def)

lemma hex_of_iff: "hexc c \<and> hexc d \<and> b = byte_of c d \<longleftrightarrow> map hex_lower [c, d] = hex_of b"
proof -
  have "unat b < 256" using unsigned_less [where 'a = nat, of b] by simp
  then have nib: "unat b div 16 < 16" "unat b mod 16 < 16" by auto
  show ?thesis
  proof (cases "hexc c \<and> hexc d")
    case True
    then show ?thesis using hex_pair_iff [of c d b] by (simp add: hexc_def byte_of_def hex_of_def)
  next
    case False
    then have "map hex_lower [c, d] \<noteq> hex_of b"
      using nib by (auto simp: hex_of_def nibbles hex_lower_iff hexc_def)
    with False show ?thesis by auto
  qed
qed

lemma hex_lower_dash: "hex_lower c = CHR ''-'' \<longleftrightarrow> c = CHR ''-''"
proof -
  have "chcode (CHR ''-'') = 45" by (simp add: chcode_def)
  then show ?thesis
    by (auto simp: hex_lower_def is_upper_def dest!: arg_cong [where f = chcode])
qed

text \<open>The three functions on a text of 36 characters.\<close>

lemma uuid_explicit:
  assumes "s = [s0, s1, s2, s3, s4, s5, s6, s7, s8, s9, s10, s11, s12, s13, s14, s15, s16, s17, s18, s19, s20, s21, 
     s22, s23, s24, s25, s26, s27, s28, s29, s30, s31, s32, s33, s34, s35]"
  shows "astools_uuid_valid (Some s) \<longleftrightarrow>
     hexc s0 \<and> hexc s1 \<and> hexc s2 \<and> hexc s3 \<and> hexc s4 \<and> hexc s5 \<and> hexc s6 
     \<and> hexc s7 \<and> hexc s9 \<and> hexc s10 \<and> hexc s11 \<and> hexc s12 \<and> hexc s14 \<and> 
     hexc s15 \<and> hexc s16 \<and> hexc s17 \<and> hexc s19 \<and> hexc s20 \<and> hexc s21 \<and> hexc 
     s22 \<and> hexc s24 \<and> hexc s25 \<and> hexc s26 \<and> hexc s27 \<and> hexc s28 \<and> hexc s29 
     \<and> hexc s30 \<and> hexc s31 \<and> hexc s32 \<and> hexc s33 \<and> hexc s34 \<and> hexc s35 \<and>
     s8 = CHR ''-'' \<and> s13 = CHR ''-'' \<and> s18 = CHR ''-'' \<and> s23 = CHR ''-''" (is "?V \<longleftrightarrow> ?H")
    and "astools_uuid_valid (Some s) \<Longrightarrow> uuid_bytes_loop s 0 =
     [byte_of s0 s1, byte_of s2 s3, byte_of s4 s5, byte_of s6 s7, byte_of s9 s10, byte_of s11 s12, 
     byte_of s14 s15, byte_of s16 s17, byte_of s19 s20, byte_of s21 s22, byte_of s24 s25, byte_of s26 
     s27, byte_of s28 s29, byte_of s30 s31, byte_of s32 s33, byte_of s34 s35]"
proof -
  have nul: "(c \<noteq> NUL \<and> \<not> hex_val c < 0) \<longleftrightarrow> hexc c" "(c \<noteq> NUL \<and> c = CHR ''-'') \<longleftrightarrow> c = CHR ''-''" for c
    using hexc_not(1) [of c] by (auto simp: hexc_def NUL_def)
  show V: "?V \<longleftrightarrow> ?H"
    by (simp add: assms astools_uuid_valid_def upt_rec [of _ 36] nul conj_ac)
  assume "astools_uuid_valid (Some s)"
  then have ?H by (simp only: V)
  then show "uuid_bytes_loop s 0 =
     [byte_of s0 s1, byte_of s2 s3, byte_of s4 s5, byte_of s6 s7, byte_of s9 s10, byte_of s11 s12, 
     byte_of s14 s15, byte_of s16 s17, byte_of s19 s20, byte_of s21 s22, byte_of s24 s25, byte_of s26 
     s27, byte_of s28 s29, byte_of s30 s31, byte_of s32 s33, byte_of s34 s35]"
    by (simp add: assms uuid_bytes_loop.simps byte_of_def)
qed

lemma uuid_valid_length:
  assumes "nul_free s" "astools_uuid_valid (Some s)"
  shows "length s = 36"
proof -
  from assms(2) have "\<And>i. i < 36 \<Longrightarrow> cget s i \<noteq> NUL" and "cget s 36 = NUL"
    by (auto simp: astools_uuid_valid_def list_all_iff)
  then have "cget s 35 \<noteq> NUL" by simp
  then have "35 < length s" by (auto simp: cget_def split: if_splits)
  moreover have "\<not> 36 < length s"
    using \<open>cget s 36 = NUL\<close> assms(1) nth_mem [of 36 s] by (metis cget_def nul_free_def)
  ultimately show ?thesis by simp
qed

lemma length_uuid_text: "length b = 16 \<Longrightarrow> length (astools_uuid_from_bytes b) = 36"
  by (erule list_16) (simp add: uuid_from_bytes_explicit hex_of_def)

lemma hex_of_pair: "map hex_lower [c, d] @ u = hex_of b @ v \<longleftrightarrow> hexc c \<and> hexc d \<and> byte_of c d = b \<and> u = v"
  using hex_of_iff [of c d b] by (auto simp: hex_of_def)

lemma hex_of_split:
  "hex_lower c # hex_lower d # u = hex_of b @ v \<longleftrightarrow> hexc c \<and> hexc d \<and> byte_of c d = b \<and> u = v"
  "[hex_lower c, hex_lower d] = hex_of b \<longleftrightarrow> hexc c \<and> hexc d \<and> byte_of c d = b"
  using hex_of_pair [of c d u b v] hex_of_iff [of c d b] by auto

lemma uuid_decodes_iff:
  assumes "nul_free s"
  shows "astools_uuid_to_bytes (Some s) = Some b \<longleftrightarrow>
    length b = 16 \<and> map hex_lower s = astools_uuid_from_bytes b" (is "?L \<longleftrightarrow> ?R")
proof (cases "length s = 36")
  case False
  then show ?thesis
    using uuid_valid_length [OF assms] length_uuid_text [of b] length_map [of hex_lower s]
    by (auto simp: astools_uuid_to_bytes_def simp del: length_map)
next
  case True
  then show ?thesis
  proof (rule list_36)
    fix s0 s1 s2 s3 s4 s5 s6 s7 s8 s9 s10 s11 s12 s13 s14 s15 s16 s17 s18 s19 s20 s21 s22 s23 s24 s25 s26 s27 s28 s29 s30 s31 s32 s33 s34 s35
    assume s: "s = [s0, s1, s2, s3, s4, s5, s6, s7, s8, s9, s10, s11, s12, s13, s14, s15, s16, s17, s18, s19, s20, s21, s22, s23, s24, s25, s26, s27, s28, s29, s30, s31, s32, s33, s34, s35]"
    show ?thesis
    proof (cases "length b = 16")
      case False
      with s show ?thesis
        by (auto simp: astools_uuid_to_bytes_def uuid_explicit(2) simp del: astools_uuid_from_bytes_def)
    next
      case True
      then show ?thesis
        by (rule list_16)
           (auto simp add: s astools_uuid_to_bytes_def uuid_explicit uuid_from_bytes_explicit hex_of_split
             hex_lower_dash)
    qed
  qed
qed

text \<open>
  A UUID text decodes to the bytes \<open>b\<close> exactly when, digits taken in lower case, it is the
  text printed for \<open>b\<close>: every printed UUID reads back to its 16 bytes, and nothing but a
  36-character text with hyphens at 8, 13, 18 and 23 is accepted.
\<close>

theorem uuid_to_bytes_iff:
  assumes "nul_free s"
  shows "astools_uuid_to_bytes (Some s) = Some b \<longleftrightarrow>
    length b = 16 \<and> map hex_lower s = astools_uuid_from_bytes b"
  by (rule uuid_decodes_iff [OF assms])

theorem uuid_to_bytes_iff_witness:
  "astools_uuid_to_bytes (Some ''00000000-00FF-0000-0000-000000000001'')
     = Some [0, 0, 0, 0, 0, 255, 0, 0, 0, 0, 0, 0, 0, 0, 0, 1]"
proof -
  let ?s = "''00000000-00FF-0000-0000-000000000001''"
  let ?b = "[0, 0, 0, 0, 0, 255, 0, 0, 0, 0, 0, 0, 0, 0, 0, 1] :: byte list"
  have "nul_free ?s" by code_simp
  moreover have "map hex_lower ?s = astools_uuid_from_bytes ?b" by code_simp
  ultimately show ?thesis using uuid_to_bytes_iff [of ?s ?b] by simp
qed

text \<open>What the generator sets in its random bytes.\<close>

lemma v4_bits:
  "drop_bit 4 (((x :: byte) AND 0x0f) OR 0x40) = 4"
  "drop_bit 6 (((x :: byte) AND 0x3f) OR 0x80) = 2"
  by (simp_all add: drop_bit_and drop_bit_or)

lemma hex_lower_hexd: "n < 16 \<Longrightarrow> hex_lower (uuid_hexd ! n) = uuid_hexd ! n"
proof -
  have "list_all (\<lambda>n. hex_lower (uuid_hexd ! n) = uuid_hexd ! n) [0 ..< 16]" by code_simp
  then show "n < 16 \<Longrightarrow> ?thesis" unfolding list_all_iff by simp
qed

lemma uuid_text_lower: "length b = 16 \<Longrightarrow> map hex_lower (astools_uuid_from_bytes b) = astools_uuid_from_bytes b"
proof (erule list_16)
  have h: "map hex_lower (hex_of c) = hex_of c" for c
  proof -
    have "unat c < 256" using unsigned_less [where 'a = nat, of c] by simp
    then have "unat c div 16 < 16" "unat c mod 16 < 16" by auto
    then show ?thesis by (simp add: hex_of_def nibbles hex_lower_hexd)
  qed
  fix b0 b1 b2 b3 b4 b5 b6 b7 b8 b9 b10 b11 b12 b13 b14 b15
  assume "b = [b0, b1, b2, b3, b4, b5, b6, b7, b8, b9, b10, b11, b12, b13, b14, b15]"
  then show ?thesis by (simp add: uuid_from_bytes_explicit h hex_lower_dash)
qed

lemma uuid_text_nul_free: "length b = 16 \<Longrightarrow> nul_free (astools_uuid_from_bytes b)"
proof (erule list_16)
  have h: "nul_free (hex_of c)" for c
  proof -
    have "unat c < 256" using unsigned_less [where 'a = nat, of c] by simp
    then have "unat c div 16 < 16" "unat c mod 16 < 16" by auto
    moreover have "list_all (\<lambda>n. uuid_hexd ! n \<noteq> NUL) [0 ..< 16]" by code_simp
    ultimately show ?thesis by (simp add: hex_of_def nibbles list_all_iff)
  qed
  fix b0 b1 b2 b3 b4 b5 b6 b7 b8 b9 b10 b11 b12 b13 b14 b15
  assume "b = [b0, b1, b2, b3, b4, b5, b6, b7, b8, b9, b10, b11, b12, b13, b14, b15]"
  then show ?thesis by (simp add: uuid_from_bytes_explicit h NUL_def)
qed

text \<open>
  A generated UUID parses, carries version 4 and the RFC 4122 variant in its 16 bytes, and every
  other byte is the random source's.
\<close>

theorem uuid_v4_shape:
  assumes "length r = 16"
  shows "\<exists>b. astools_uuid_to_bytes (Some (astools_uuid_v4 r)) = Some b \<and>
    drop_bit 4 (b ! 6) = 4 \<and> drop_bit 6 (b ! 8) = 2 \<and> (\<forall>i < 16. i \<noteq> 6 \<and> i \<noteq> 8 \<longrightarrow> b ! i = r ! i)"
proof -
  let ?b = "r[6 := (r ! 6 AND 0x0f) OR 0x40, 8 := (r ! 8 AND 0x3f) OR 0x80]"
  have "astools_uuid_v4 r = astools_uuid_from_bytes ?b" by (simp add: astools_uuid_v4_def Let_def)
  moreover have "length ?b = 16" using assms by simp
  ultimately have "astools_uuid_to_bytes (Some (astools_uuid_v4 r)) = Some ?b"
    using uuid_decodes_iff by (simp add: uuid_text_lower uuid_text_nul_free)
  then show ?thesis using assms by (intro exI [of _ ?b]) (simp add: v4_bits)
qed

theorem uuid_v4_shape_witness:
  "\<exists>b. astools_uuid_to_bytes (Some (astools_uuid_v4 (replicate 16 255))) = Some b \<and> drop_bit 4 (b ! 6) = 4"
  using uuid_v4_shape [of "replicate 16 255"] by auto

end
