(* ===== verification/As_Semver.thy ===== *)
theory As_Semver
  imports As_Prelude "HOL-Library.Product_Lexorder"
begin

text \<open>
  \<^verbatim>\<open>src/semver.c\<close>: strict SemVer 2.0.0 parsing and precedence. The parser is shown equivalent to
  the grammar, the comparison to a key in a linear order, which makes it a comparator, and on
  parsed versions to the precedence of the SemVer document (numeric identifiers by value).
\<close>

record astools_semver =
  major :: int
  minor :: int
  patch :: int
  prerelease :: "string option"

section \<open>Parser\<close>

definition sv_ident_char :: "char \<Rightarrow> bool" where
  "sv_ident_char ch \<longleftrightarrow> is_digit ch \<or> is_lower ch \<or> is_upper ch \<or> ch = CHR ''-''"

fun sv_digits :: "int \<Rightarrow> string \<Rightarrow> (int \<times> string) option" where
  "sv_digits v [] = Some (v, [])"
| "sv_digits v (c # p) =
     (if is_digit c then
        if v > (INT64_MAX - int (digit_val c)) div 10 then None
        else sv_digits (v * 10 + int (digit_val c)) p
      else Some (v, c # p))"

definition sv_number :: "string \<Rightarrow> (int \<times> string) option" where
  "sv_number p =
     (if \<not> is_digit (cur p) then None
      else if cur p = CHR ''0'' \<and> is_digit (cget p 1) then None
      else sv_digits 0 p)"

function sv_idents :: "string \<Rightarrow> bool \<Rightarrow> string option" where
  "sv_idents p strict_num =
     (if \<not> sv_ident_char (cur p) then None
      else let field = takeWhile sv_ident_char p; rest = dropWhile sv_ident_char p in
        if strict_num \<and> list_all is_digit field \<and> length field > 1 \<and> cur field = CHR ''0'' then None
        else if cur rest \<noteq> CHR ''.'' then Some rest
        else sv_idents (tl rest) strict_num)"
  by pat_completeness auto
termination
proof (relation "measure (\<lambda>(p, _). length p)")
  fix p :: string and strict_num :: bool and field rest
  assume "\<not> \<not> sv_ident_char (cur p)" and rest: "rest = dropWhile sv_ident_char p"
    and dot: "\<not> cur rest \<noteq> CHR ''.''"
  then have "cur rest \<noteq> NUL" by (simp add: NUL_def)
  then have "rest \<noteq> []" by (cases rest) auto
  then have "length (tl rest) < length rest" by (cases rest) auto
  also have "\<dots> \<le> length p" unfolding rest by (rule length_dropWhile_le)
  finally show "((tl rest, strict_num), p, strict_num) \<in> measure (\<lambda>(p, _). length p)" by simp
qed simp

declare sv_idents.simps [simp del]

definition astools_semver_parse :: "string option \<Rightarrow> astools_semver option" where
  "astools_semver_parse str =
     (case str of None \<Rightarrow> None | Some s \<Rightarrow>
      case sv_number s of None \<Rightarrow> None | Some (maj, p1) \<Rightarrow>
      if cur p1 \<noteq> CHR ''.'' then None else
      case sv_number (tl p1) of None \<Rightarrow> None | Some (mnr, p2) \<Rightarrow>
      if cur p2 \<noteq> CHR ''.'' then None else
      case sv_number (tl p2) of None \<Rightarrow> None | Some (pat, p3) \<Rightarrow>
      case (if cur p3 = CHR ''-'' then map_option (\<lambda>e. (Some (take (length (tl p3) - length e) (tl p3)), e)) (sv_idents (tl p3) True)
            else Some (None, p3)) of None \<Rightarrow> None | Some (pre, p4) \<Rightarrow>
      case (if cur p4 = CHR ''+'' then sv_idents (tl p4) False else Some p4) of None \<Rightarrow> None | Some p5 \<Rightarrow>
      if cur p5 \<noteq> NUL then None
      else Some \<lparr>major = maj, minor = mnr, patch = pat, prerelease = pre\<rparr>)"

section \<open>Precedence\<close>

definition sv_field_len :: "string \<Rightarrow> nat" where
  "sv_field_len p = length (takeWhile (\<lambda>c. c \<noteq> NUL \<and> c \<noteq> CHR ''.'') p)"

definition sv_field_numeric :: "string \<Rightarrow> nat \<Rightarrow> bool" where
  "sv_field_numeric p n = (if n = 0 then False else list_all is_digit (take n p))"

text \<open>\<open>memcmp\<close> on the first \<open>n\<close> bytes: the sign at the first difference.\<close>

fun memcmp :: "string \<Rightarrow> string \<Rightarrow> nat \<Rightarrow> int" where
  "memcmp a b 0 = 0"
| "memcmp a b (Suc n) =
     (if chcode (cur a) < chcode (cur b) then - 1
      else if chcode (cur a) > chcode (cur b) then 1
      else memcmp (tl a) (tl b) n)"

definition sv_next :: "string \<Rightarrow> string" where
  "sv_next p = (let q = drop (sv_field_len p) p in if cur q = CHR ''.'' then tl q else q)"

lemma sv_next_less: "cur p \<noteq> NUL \<Longrightarrow> length (sv_next p) < length p"
proof -
  assume p: "cur p \<noteq> NUL"
  then obtain c q where pc: "p = c # q" by (cases p) auto
  show ?thesis
  proof (cases "c = CHR ''.''")
    case True
    then show ?thesis by (simp add: pc sv_next_def sv_field_len_def)
  next
    case False
    with p pc have "0 < sv_field_len p" by (simp add: sv_field_len_def)
    then have "length (drop (sv_field_len p) p) < length p" by (simp add: pc)
    then show ?thesis by (auto simp: sv_next_def Let_def)
  qed
qed

function sv_pre_cmp :: "string \<Rightarrow> string \<Rightarrow> int" where
  "sv_pre_cmp pa pb =
     (let done_a = (cur pa = NUL); done_b = (cur pb = NUL) in
      if done_a \<and> done_b then 0
      else if done_a then - 1
      else if done_b then 1
      else let la = sv_field_len pa; lb = sv_field_len pb;
               na = sv_field_numeric pa la; nb = sv_field_numeric pb lb in
        if na \<and> \<not> nb then - 1
        else if \<not> na \<and> nb then 1
        else if na then
          if la \<noteq> lb then (if la < lb then - 1 else 1)
          else let r = memcmp pa pb la in
            if r \<noteq> 0 then (if r < 0 then - 1 else 1) else sv_pre_cmp (sv_next pa) (sv_next pb)
        else let minlen = (if la < lb then la else lb); r = memcmp pa pb minlen in
          if r \<noteq> 0 then (if r < 0 then - 1 else 1)
          else if la \<noteq> lb then (if la < lb then - 1 else 1)
          else sv_pre_cmp (sv_next pa) (sv_next pb))"
  by pat_completeness auto
termination
  by (relation "measure (\<lambda>(pa, _). length pa)") (auto dest: sv_next_less)

declare sv_pre_cmp.simps [simp del]

text \<open>The pointer shortcut \<open>a == b\<close> is subsumed: equal values compare equal.\<close>

fun astools_semver_cmp :: "astools_semver option \<Rightarrow> astools_semver option \<Rightarrow> int" where
  "astools_semver_cmp None None = 0"
| "astools_semver_cmp None (Some b) = - 1"
| "astools_semver_cmp (Some a) None = 1"
| "astools_semver_cmp (Some a) (Some b) =
     (if major a \<noteq> major b then (if major a < major b then - 1 else 1)
      else if minor a \<noteq> minor b then (if minor a < minor b then - 1 else 1)
      else if patch a \<noteq> patch b then (if patch a < patch b then - 1 else 1)
      else case (prerelease a, prerelease b) of
          (None, None) \<Rightarrow> 0
        | (None, Some _) \<Rightarrow> 1
        | (Some _, None) \<Rightarrow> - 1
        | (Some pa, Some pb) \<Rightarrow> sv_pre_cmp pa pb)"

section \<open>The comparison is a key in a linear order\<close>

definition three_way :: "'a::linorder \<Rightarrow> 'a \<Rightarrow> int" where
  "three_way x y = (if x < y then - 1 else if x = y then 0 else 1)"

lemma three_way_simps [simp]:
  "three_way x x = 0" "three_way x y = 0 \<longleftrightarrow> x = y" "three_way x y \<le> 0 \<longleftrightarrow> x \<le> y" "three_way x y < 0 \<longleftrightarrow> x < y"
  by (auto simp: three_way_def)

lemma three_way_comparator: "comparator (\<lambda>a b. three_way (k a) (k b))"
  by unfold_locales (auto simp: three_way_def split: if_splits)

lemma three_way_Pair: "three_way (a, b) (c, d) = (if a \<noteq> c then three_way a c else three_way b d)"
  by (auto simp: three_way_def)

lemma three_way_list:
  "three_way [] [] = 0" "three_way [] (y # ys) = - 1" "three_way (x # xs) [] = 1"
  "three_way (x # xs) (y # ys) = (if x \<noteq> y then three_way x y else three_way xs ys)"
  by (auto simp: three_way_def)

function sv_fields :: "string \<Rightarrow> string list" where
  "sv_fields p = (if cur p = NUL then [] else take (sv_field_len p) p # sv_fields (sv_next p))"
  by pat_completeness auto
termination
  by (relation "measure length") (auto dest: sv_next_less)

declare sv_fields.simps [simp del]

text \<open>Digits by length and then bytes, before everything else by bytes.\<close>

definition sv_field_key :: "string \<Rightarrow> nat \<times> nat \<times> nat list" where
  "sv_field_key f =
     (if f \<noteq> [] \<and> list_all is_digit f then (0, length f, map chcode f) else (1, 0, map chcode f))"

definition sv_key :: "astools_semver \<Rightarrow> int \<times> int \<times> int \<times> nat \<times> (nat \<times> nat \<times> nat list) list" where
  "sv_key v = (major v, minor v, patch v,
     (case prerelease v of None \<Rightarrow> 1 | Some _ \<Rightarrow> 0),
     (case prerelease v of None \<Rightarrow> [] | Some p \<Rightarrow> map sv_field_key (sv_fields p)))"

lemma memcmp_take:
  "n \<le> length a \<Longrightarrow> n \<le> length b \<Longrightarrow>
   memcmp a b n = three_way (map chcode (take n a)) (map chcode (take n b))"
proof (induction n arbitrary: a b)
  case (Suc n)
  then obtain x a' y b' where [simp]: "a = x # a'" "b = y # b'" by (cases a; cases b) auto
  from Suc show ?case by (simp add: three_way_list) (auto simp: three_way_def)
qed simp

lemma three_way_take:
  fixes a b :: "nat list"
  shows "three_way a b = (let m = min (length a) (length b); r = three_way (take m a) (take m b) in
     if r \<noteq> 0 then r else three_way (length a) (length b))"
proof (induction a arbitrary: b)
  case Nil
  then show ?case by (cases b) (simp_all add: three_way_list, simp_all add: three_way_def)
next
  case (Cons x a)
  show ?case
  proof (cases b)
    case Nil
    then show ?thesis by (simp add: three_way_list) (simp add: three_way_def)
  next
    case [simp]: (Cons y b')
    have len: "three_way (length (x # a)) (length b) = three_way (length a) (length b')"
      by (simp add: three_way_def)
    show ?thesis
      unfolding len using Cons.IH [of b']
      by (simp add: three_way_list Let_def split: if_splits)
  qed
qed

lemma three_way_take':
  fixes a b :: "nat list"
  assumes "m = min (length a) (length b)"
  shows "three_way a b = (if three_way (take m a) (take m b) \<noteq> 0 then three_way (take m a) (take m b)
     else three_way (length a) (length b))"
  using three_way_take [of a b] unfolding assms Let_def .

lemma sv_field_take: "sv_field_len p \<le> length p" "length (take (sv_field_len p) p) = sv_field_len p"
  using length_takeWhile_le [of "\<lambda>c. c \<noteq> NUL \<and> c \<noteq> CHR ''.''" p] by (simp_all add: sv_field_len_def min_def)

text \<open>One turn of the loop compares the keys of the two fields.\<close>

lemma sv_pre_cmp_step:
  fixes pa pb
  defines "fa \<equiv> take (sv_field_len pa) pa" and "fb \<equiv> take (sv_field_len pb) pb"
  assumes "cur pa \<noteq> NUL" "cur pb \<noteq> NUL"
  shows "sv_pre_cmp pa pb =
    (if sv_field_key fa \<noteq> sv_field_key fb then three_way (sv_field_key fa) (sv_field_key fb)
     else sv_pre_cmp (sv_next pa) (sv_next pb))"
proof -
  have la: "length fa = sv_field_len pa" "sv_field_len pa \<le> length pa"
    and lb: "length fb = sv_field_len pb" "sv_field_len pb \<le> length pb"
    by (simp_all add: fa_def fb_def sv_field_take)
  obtain NA NB where NA: "NA \<longleftrightarrow> fa \<noteq> [] \<and> list_all is_digit fa"
    and NB: "NB \<longleftrightarrow> fb \<noteq> [] \<and> list_all is_digit fb" by blast
  have "take (length fa) pa = fa" "take (length fb) pb = fb"
    unfolding la(1) lb(1) by (simp_all only: fa_def fb_def)
  then have na: "sv_field_numeric pa (length fa) \<longleftrightarrow> NA" and nb: "sv_field_numeric pb (length fb) \<longleftrightarrow> NB"
    unfolding sv_field_numeric_def NA NB by simp_all
  have ka: "sv_field_key fa = (if NA then (0, length fa, map chcode fa) else (1, 0, map chcode fa))"
    and kb: "sv_field_key fb = (if NB then (0, length fb, map chcode fb) else (1, 0, map chcode fb))"
    unfolding sv_field_key_def NA NB by simp_all
  have mem: "memcmp pa pb n = three_way (take n (map chcode fa)) (take n (map chcode fb))"
    if "n \<le> length fa" "n \<le> length fb" for n
    using that la lb by (simp add: memcmp_take fa_def fb_def take_map min_def)
  obtain m where m: "m = (if length fa < length fb then length fa else length fb)" by blast
  have m_le: "m \<le> length fa" "m \<le> length fb" by (auto simp: m)
  have "m = min (length (map chcode fa)) (length (map chcode fb))" by (simp add: m min_def)
  note tl = three_way_take' [OF this, folded mem [OF m_le], unfolded length_map]
  have sign: "(if r < 0 then - 1 else 1) = r" if "r = three_way x y" "r \<noteq> 0" for r and x y :: "nat list"
    using that by (auto simp: three_way_def split: if_splits)
  have mem_sign: "(if memcmp pa pb n < 0 then - 1 else 1) = memcmp pa pb n"
    if "memcmp pa pb n \<noteq> 0" "n \<le> length fa" "n \<le> length fb" for n
    using sign [OF mem [OF that(2,3)] that(1)] .
  note step = sv_pre_cmp.simps [of pa pb, unfolded Let_def la(1) [symmetric] lb(1) [symmetric], unfolded na nb]
  consider "NA" "\<not> NB" | "\<not> NA" "NB" | "NA" "NB" | "\<not> NA" "\<not> NB" by blast
  then show ?thesis
  proof cases
    case 1
    then show ?thesis unfolding step ka kb using assms(3,4) by (auto simp: three_way_def)
  next
    case 2
    then show ?thesis unfolding step ka kb using assms(3,4) by (auto simp: three_way_def)
  next
    case 3
    then show ?thesis
    proof (cases "length fa = length fb")
      case True
      with 3 mem [of "length fa"] mem_sign [of "length fa"] assms(3,4) show ?thesis
        unfolding step ka kb by (auto simp: three_way_Pair)
    next
      case False
      with 3 assms(3,4) show ?thesis
        unfolding step ka kb by (auto simp: three_way_def)
    qed
  next
    case 4
    have key: "three_way (sv_field_key fa) (sv_field_key fb) = three_way (map chcode fa) (map chcode fb)"
      using 4 by (simp add: ka kb three_way_Pair)
    have eq: "sv_field_key fa = sv_field_key fb \<longleftrightarrow> map chcode fa = map chcode fb"
      using 4 by (simp add: ka kb)
    show ?thesis
    proof (cases "memcmp pa pb m = 0")
      case True
      with tl have "three_way (map chcode fa) (map chcode fb) = three_way (length fa) (length fb)"
        by simp
      moreover from this have "map chcode fa = map chcode fb \<longleftrightarrow> length fa = length fb"
        by (metis three_way_simps(2))
      ultimately show ?thesis
        unfolding key eq step m [symmetric] using 4 True assms(3,4) by (simp add: three_way_def)
    next
      case False
      with tl have "three_way (map chcode fa) (map chcode fb) = memcmp pa pb m"
        by simp
      moreover from this False have "map chcode fa \<noteq> map chcode fb"
        by (metis three_way_simps(1))
      ultimately show ?thesis
        unfolding key eq step m [symmetric] using 4 False mem_sign [OF False m_le] assms(3,4) by simp
    qed
  qed
qed

lemma sv_pre_cmp_key:
  "sv_pre_cmp pa pb = three_way (map sv_field_key (sv_fields pa)) (map sv_field_key (sv_fields pb))"
proof (induction pa arbitrary: pb rule: sv_fields.induct)
  case (1 pa)
  show ?case
  proof (cases "cur pa = NUL \<or> cur pb = NUL")
    case True
    then show ?thesis
      by (subst sv_pre_cmp.simps, subst (1 2) sv_fields.simps) (auto simp: three_way_list)
  next
    case False
    then show ?thesis
      using 1 [of "sv_next pb"] sv_pre_cmp_step [of pa pb]
      by (simp add: sv_fields.simps [of pa] sv_fields.simps [of pb] three_way_list)
  qed
qed

lemma semver_cmp_key: "astools_semver_cmp (Some a) (Some b) = three_way (sv_key a) (sv_key b)"
  by (simp add: sv_key_def three_way_Pair sv_pre_cmp_key three_way_def [of "_ :: int"]
      three_way_def [of "_ :: nat"] split: option.split)

interpretation semver: comparator "\<lambda>a b. astools_semver_cmp (Some a) (Some b)"
  unfolding semver_cmp_key by (rule three_way_comparator)

section \<open>The grammar\<close>

fun join_dots :: "string list \<Rightarrow> string" where
  "join_dots [] = []"
| "join_dots [f] = f"
| "join_dots (f # fs) = f @ CHR ''.'' # join_dots fs"

definition ident_ok :: "bool \<Rightarrow> string \<Rightarrow> bool" where
  "ident_ok strict f \<longleftrightarrow> f \<noteq> [] \<and> list_all sv_ident_char f \<and>
     \<not> (strict \<and> list_all is_digit f \<and> length f > 1 \<and> cur f = CHR ''0'')"

definition sv_num_ok :: "string \<Rightarrow> bool" where
  "sv_num_ok ds \<longleftrightarrow> ds \<noteq> [] \<and> list_all is_digit ds \<and> \<not> (length ds > 1 \<and> cur ds = CHR ''0'') \<and>
     int (dec_val ds) \<le> INT64_MAX"

lemma sv_digits_iff:
  "0 \<le> n \<Longrightarrow> n \<le> INT64_MAX \<Longrightarrow>
   sv_digits n s = Some (v, r) \<longleftrightarrow>
   (\<exists>ds. s = ds @ r \<and> list_all is_digit ds \<and> \<not> is_digit (cur r) \<and>
         v = n * 10 ^ length ds + int (dec_val ds) \<and> v \<le> INT64_MAX)"
proof (induction n s rule: sv_digits.induct)
  case (1 n)
  then show ?case by auto
next
  case (2 n c s)
  show ?case
  proof (cases "is_digit c")
    case False
    have "(\<exists>ds. c # s = ds @ r \<and> list_all is_digit ds \<and> \<not> is_digit (cur r) \<and>
         v = n * 10 ^ length ds + int (dec_val ds) \<and> v \<le> INT64_MAX) \<longleftrightarrow> r = c # s \<and> v = n"
      using False "2.prems" by (auto simp: Cons_eq_append_conv)
    with False show ?thesis by auto
  next
    case True
    let ?d = "int (digit_val c)"
    let ?n = "n * 10 + ?d"
    have step: "(\<exists>ds. c # s = ds @ r \<and> list_all is_digit ds \<and> \<not> is_digit (cur r) \<and>
         v = n * 10 ^ length ds + int (dec_val ds) \<and> v \<le> INT64_MAX) \<longleftrightarrow>
       (\<exists>ds. s = ds @ r \<and> list_all is_digit ds \<and> \<not> is_digit (cur r) \<and>
         v = ?n * 10 ^ length ds + int (dec_val ds) \<and> v \<le> INT64_MAX)"
      using True by (auto simp: Cons_eq_append_conv dec_val_Cons algebra_simps)
    show ?thesis
    proof (cases "n > (INT64_MAX - ?d) div 10")
      case big: True
      have "\<not> ?n * 10 ^ length ds + int (dec_val ds) \<le> INT64_MAX" for ds
      proof -
        have "?n > INT64_MAX" using big int_div_less_iff [of 10 "INT64_MAX - ?d" n] by simp
        moreover have "?n * 1 \<le> ?n * 10 ^ length ds"
          using "2.prems" by (intro mult_left_mono) simp_all
        ultimately show ?thesis by simp
      qed
      then have "\<not> (\<exists>ds. s = ds @ r \<and> list_all is_digit ds \<and> \<not> is_digit (cur r) \<and>
         v = ?n * 10 ^ length ds + int (dec_val ds) \<and> v \<le> INT64_MAX)" by auto
      with big True step show ?thesis by simp
    next
      case small: False
      then have "?n \<le> INT64_MAX" using int_div_less_iff [of 10 "INT64_MAX - ?d" n] by simp
      moreover have "0 \<le> ?n" using "2.prems" by simp
      ultimately show ?thesis
        using small True step "2.IH" by simp
    qed
  qed
qed

lemma sv_number_iff:
  "sv_number p = Some (v, r) \<longleftrightarrow>
   (\<exists>ds. p = ds @ r \<and> sv_num_ok ds \<and> \<not> is_digit (cur r) \<and> v = int (dec_val ds))"
proof -
  have zero: "cget (ds @ r) (Suc 0) = (if length ds > 1 then ds ! 1 else cur r)" if "ds \<noteq> []" for ds
    using that by (cases ds) (auto simp: cget_append cur_eq_cget)
  have eq: "is_digit (cur p) \<and> \<not> (cur p = CHR ''0'' \<and> is_digit (cget p 1)) \<and> p = ds @ r \<and>
      list_all is_digit ds \<and> \<not> is_digit (cur r) \<and> int (dec_val ds) \<le> INT64_MAX \<longleftrightarrow>
      p = ds @ r \<and> sv_num_ok ds \<and> \<not> is_digit (cur r)" for ds
  proof (cases "ds = []")
    case True
    then show ?thesis by (auto simp: sv_num_ok_def)
  next
    case False
    have "length ds > 1 \<Longrightarrow> list_all is_digit ds \<Longrightarrow> is_digit (ds ! 1)" by (simp add: list_all_length)
    with False show ?thesis by (auto simp: sv_num_ok_def zero)
  qed
  have "sv_number p = Some (v, r) \<longleftrightarrow> is_digit (cur p) \<and> \<not> (cur p = CHR ''0'' \<and> is_digit (cget p 1)) \<and>
      sv_digits 0 p = Some (v, r)"
    by (auto simp: sv_number_def)
  also have "\<dots> \<longleftrightarrow> (\<exists>ds. (is_digit (cur p) \<and> \<not> (cur p = CHR ''0'' \<and> is_digit (cget p 1)) \<and> p = ds @ r \<and>
      list_all is_digit ds \<and> \<not> is_digit (cur r) \<and> int (dec_val ds) \<le> INT64_MAX) \<and> v = int (dec_val ds))"
    using sv_digits_iff [of 0 p v r] by (auto simp: INT64_MAX_def)
  also have "\<dots> \<longleftrightarrow> (\<exists>ds. (p = ds @ r \<and> sv_num_ok ds \<and> \<not> is_digit (cur r)) \<and> v = int (dec_val ds))"
    by (simp only: eq)
  finally show ?thesis by blast
qed

text \<open>A maximal run of identifier characters.\<close>

lemma takeWhile_run:
  "list_all P f \<Longrightarrow> \<not> P (cur r) \<or> r = [] \<Longrightarrow> takeWhile P (f @ r) = f \<and> dropWhile P (f @ r) = r"
  by (induction f) (cases r; auto)+

lemma not_ident_char [simp]: "\<not> sv_ident_char NUL" "\<not> sv_ident_char (CHR ''.'')" "\<not> sv_ident_char (CHR ''+'')"
  by (simp_all add: sv_ident_char_def is_digit_def is_lower_def is_upper_def chcode_def NUL_def)

lemma join_dots_Cons: "fs \<noteq> [] \<Longrightarrow> join_dots (f # fs) = f @ CHR ''.'' # join_dots fs"
  by (cases fs) auto

lemma sv_idents_run:
  assumes "ident_ok strict f" "\<not> sv_ident_char (cur r)"
  shows "sv_idents (f @ r) strict = (if cur r \<noteq> CHR ''.'' then Some r else sv_idents (tl r) strict)"
proof -
  have f: "f \<noteq> []" "list_all sv_ident_char f" using assms(1) by (simp_all add: ident_ok_def)
  then have "sv_ident_char (cur f)" by (cases f) auto
  moreover have "takeWhile sv_ident_char (f @ r) = f" "dropWhile sv_ident_char (f @ r) = r"
    using takeWhile_run [of sv_ident_char f r] f assms(2) by simp_all
  ultimately show ?thesis
    using assms(1) f by (subst sv_idents.simps) (auto simp: ident_ok_def Let_def)
qed

lemma sv_idents_join:
  "ids \<noteq> [] \<Longrightarrow> list_all (ident_ok strict) ids \<Longrightarrow> \<not> sv_ident_char (cur r) \<Longrightarrow> cur r \<noteq> CHR ''.'' \<Longrightarrow>
   sv_idents (join_dots ids @ r) strict = Some r"
proof (induction ids rule: join_dots.induct)
  case (2 f)
  then show ?case by (simp add: sv_idents_run)
next
  case (3 f g fs)
  then show ?case using sv_idents_run [of strict f "CHR ''.'' # join_dots (g # fs) @ r"] by simp
qed simp

lemma sv_idents_sound:
  "sv_idents p strict = Some r \<Longrightarrow>
   \<exists>ids. ids \<noteq> [] \<and> list_all (ident_ok strict) ids \<and> p = join_dots ids @ r \<and>
     \<not> sv_ident_char (cur r) \<and> cur r \<noteq> CHR ''.''"
proof (induction p strict rule: sv_idents.induct)
  case (1 p strict)
  let ?f = "takeWhile sv_ident_char p" and ?q = "dropWhile sv_ident_char p"
  have p: "p = ?f @ ?q" by simp
  have head: "sv_ident_char (cur p)" using "1.prems" by (subst (asm) sv_idents.simps) (simp split: if_splits)
  then have "?f \<noteq> []" by (cases p) auto
  moreover have "list_all sv_ident_char ?f" by (auto simp: list_all_iff dest: set_takeWhileD)
  moreover have ok: "\<not> (strict \<and> list_all is_digit ?f \<and> length ?f > 1 \<and> cur ?f = CHR ''0'')"
    using "1.prems" head by (subst (asm) sv_idents.simps) (auto simp: Let_def split: if_splits)
  ultimately have f: "ident_ok strict ?f" by (simp add: ident_ok_def)
  have stop: "\<not> sv_ident_char (cur ?q)"
    by (induction p) auto
  have step: "(if cur ?q \<noteq> CHR ''.'' then Some ?q else sv_idents (tl ?q) strict) = Some r"
    using sv_idents_run [OF f stop] "1.prems" p by simp
  show ?case
  proof (cases "cur ?q = CHR ''.''")
    case False
    with step have "?q = r" by simp
    with f stop False p show ?thesis by (intro exI [of _ "[?f]"]) auto
  next
    case True
    with step have "sv_idents (tl ?q) strict = Some r" by simp
    with 1(1) [of ?f ?q] head ok True obtain ids where ids: "ids \<noteq> []" "list_all (ident_ok strict) ids"
      "tl ?q = join_dots ids @ r" "\<not> sv_ident_char (cur r)" "cur r \<noteq> CHR ''.''" by auto
    have "?q = CHR ''.'' # tl ?q" using True by (cases ?q) (auto simp: NUL_def)
    then have "p = join_dots (?f # ids) @ r" using p ids by (simp add: join_dots_Cons)
    with f ids show ?thesis by (intro exI [of _ "?f # ids"]) simp
  qed
qed

lemma sv_idents_iff:
  "sv_idents p strict = Some r \<longleftrightarrow>
   (\<exists>ids. ids \<noteq> [] \<and> list_all (ident_ok strict) ids \<and> p = join_dots ids @ r \<and>
     \<not> sv_ident_char (cur r) \<and> cur r \<noteq> CHR ''.'')"
  using sv_idents_sound sv_idents_join by blast

text \<open>The parts of a version text.\<close>

definition pre_text :: "string list option \<Rightarrow> string" where
  "pre_text pre = (case pre of None \<Rightarrow> [] | Some ids \<Rightarrow> CHR ''-'' # join_dots ids)"

definition build_text :: "string list option \<Rightarrow> string" where
  "build_text bld = (case bld of None \<Rightarrow> [] | Some ids \<Rightarrow> CHR ''+'' # join_dots ids)"

definition ids_ok :: "bool \<Rightarrow> string list option \<Rightarrow> bool" where
  "ids_ok strict x \<longleftrightarrow> pred_option (\<lambda>ids. ids \<noteq> [] \<and> list_all (ident_ok strict) ids) x"

text \<open>The whole text.\<close>

fun semver_text :: "string \<Rightarrow> string \<Rightarrow> string \<Rightarrow> string list option \<Rightarrow> string list option \<Rightarrow> string" where
  "semver_text ma mi pa pre bld = ma @ ''.'' @ mi @ ''.'' @ pa @ pre_text pre @ build_text bld"

lemma num_then: "sv_num_ok ds \<Longrightarrow> \<not> is_digit (cur r) \<Longrightarrow> sv_number (ds @ r) = Some (int (dec_val ds), r)"
  by (auto simp: sv_number_iff)

lemma pre_text_cur: "cur (pre_text pre @ r) = (if pre = None then cur r else CHR ''-'')"
  by (cases pre) (auto simp: pre_text_def)

lemma build_text_cur: "cur (build_text bld) = (if bld = None then NUL else CHR ''+'')"
  by (cases bld) (auto simp: build_text_def)

lemma semver_seps: "\<not> is_digit (CHR ''-'')" "\<not> is_digit (CHR ''+'')" "\<not> is_digit (CHR ''.'')"
  by (simp_all add: is_digit_def chcode_def)

definition pre_part :: "string \<Rightarrow> (string option \<times> string) option" where
  "pre_part p3 =
     (if cur p3 = CHR ''-'' then map_option (\<lambda>e. (Some (take (length (tl p3) - length e) (tl p3)), e)) (sv_idents (tl p3) True)
      else Some (None, p3))"

lemma cur_tl: "cur p = c \<Longrightarrow> c \<noteq> NUL \<Longrightarrow> p = c # tl p"
  by (cases p) auto

lemma pre_part_iff:
  "pre_part p = Some (x, r) \<longleftrightarrow>
   (\<exists>pre. p = pre_text pre @ r \<and> ids_ok True pre \<and> x = map_option join_dots pre \<and>
      (if pre = None then cur r \<noteq> CHR ''-'' else \<not> sv_ident_char (cur r) \<and> cur r \<noteq> CHR ''.''))"
proof (cases "cur p = CHR ''-''")
  case False
  then show ?thesis
    by (auto simp: pre_part_def pre_text_def ids_ok_def intro!: exI [of _ None] split: option.splits)
next
  case True
  then have p: "p = CHR ''-'' # tl p" by (rule cur_tl) (simp add: NUL_def)
  have "pre_part p = Some (x, r) \<longleftrightarrow> x = Some (take (length (tl p) - length r) (tl p)) \<and> sv_idents (tl p) True = Some r"
    using True by (auto simp: pre_part_def)
  also have "\<dots> \<longleftrightarrow> (\<exists>ids. x = Some (join_dots ids) \<and> ids \<noteq> [] \<and> list_all (ident_ok True) ids \<and>
      tl p = join_dots ids @ r \<and> \<not> sv_ident_char (cur r) \<and> cur r \<noteq> CHR ''.'')"
  proof -
    have "tl p = join_dots ids @ r \<Longrightarrow> take (length (tl p) - length r) (tl p) = join_dots ids" for ids
      by (simp del: length_tl)
    then show ?thesis unfolding sv_idents_iff by (auto simp del: length_tl)
  qed
  also have "\<dots> \<longleftrightarrow> (\<exists>pre. p = pre_text pre @ r \<and> ids_ok True pre \<and> x = map_option join_dots pre \<and>
      (if pre = None then cur r \<noteq> CHR ''-'' else \<not> sv_ident_char (cur r) \<and> cur r \<noteq> CHR ''.''))" (is "?A \<longleftrightarrow> ?B")
  proof
    assume ?A
    then obtain ids where "x = Some (join_dots ids)" "ids \<noteq> []" "list_all (ident_ok True) ids"
      "tl p = join_dots ids @ r" "\<not> sv_ident_char (cur r)" "cur r \<noteq> CHR ''.''" by blast
    with p show ?B by (intro exI [of _ "Some ids"]) (simp add: pre_text_def ids_ok_def)
  next
    assume ?B
    then obtain pre where B: "p = pre_text pre @ r" "ids_ok True pre" "x = map_option join_dots pre"
      "if pre = None then cur r \<noteq> CHR ''-'' else \<not> sv_ident_char (cur r) \<and> cur r \<noteq> CHR ''.''" by blast
    with True have "pre \<noteq> None" by (cases pre) (auto simp: pre_text_def)
    with B show ?A by (auto simp: pre_text_def ids_ok_def)
  qed
  finally show ?thesis .
qed

definition build_part :: "string \<Rightarrow> string option" where
  "build_part p4 = (if cur p4 = CHR ''+'' then sv_idents (tl p4) False else Some p4)"

lemma build_part_iff:
  assumes "nul_free p"
  shows "(\<exists>r. build_part p = Some r \<and> cur r = NUL) \<longleftrightarrow> (\<exists>bld. p = build_text bld \<and> ids_ok False bld)"
proof (cases "cur p = CHR ''+''")
  case False
  then show ?thesis
    using cur_NUL_iff [OF assms]
    by (auto simp: build_part_def build_text_def ids_ok_def intro!: exI [of _ None] split: option.splits)
next
  case True
  then have p: "p = CHR ''+'' # tl p" by (rule cur_tl) (simp add: NUL_def)
  have "build_part p = Some r \<and> cur r = NUL \<longleftrightarrow> (\<exists>ids. ids \<noteq> [] \<and> list_all (ident_ok False) ids \<and> r = [] \<and>
      tl p = join_dots ids)" for r
  proof -
    have "nul_free (tl p)" using assms p by (metis nul_free_simps(2))
    then have "tl p = join_dots ids @ r \<Longrightarrow> cur r = NUL \<longleftrightarrow> r = []" for ids
      using cur_NUL_iff by simp
    moreover have "NUL \<noteq> CHR ''.''" by (simp add: NUL_def)
    ultimately show ?thesis using True by (auto simp: build_part_def sv_idents_iff)
  qed
  then have "(\<exists>r. build_part p = Some r \<and> cur r = NUL) \<longleftrightarrow>
      (\<exists>ids. ids \<noteq> [] \<and> list_all (ident_ok False) ids \<and> tl p = join_dots ids)" by blast
  also have "\<dots> \<longleftrightarrow> (\<exists>bld. p = build_text bld \<and> ids_ok False bld)" (is "?A \<longleftrightarrow> ?B")
  proof
    assume ?A
    then obtain ids where "ids \<noteq> []" "list_all (ident_ok False) ids" "tl p = join_dots ids" by blast
    with p show ?B by (intro exI [of _ "Some ids"]) (simp add: build_text_def ids_ok_def)
  next
    assume ?B
    then obtain bld where "p = build_text bld" "ids_ok False bld" by blast
    with p show ?A by (cases bld) (auto simp: build_text_def ids_ok_def)
  qed
  finally show ?thesis .
qed

lemma semver_text_iff:
  assumes "nul_free s"
  shows "astools_semver_parse (Some s) = Some v \<longleftrightarrow>
    (\<exists>ma mi pa pre bld. s = semver_text ma mi pa pre bld \<and>
       sv_num_ok ma \<and> sv_num_ok mi \<and> sv_num_ok pa \<and> ids_ok True pre \<and> ids_ok False bld \<and>
       v = \<lparr>major = int (dec_val ma), minor = int (dec_val mi), patch = int (dec_val pa),
            prerelease = map_option join_dots pre\<rparr>)" (is "?L \<longleftrightarrow> ?R")
proof
  assume ?L
  then obtain maj p1 mnr p2 pat p3 x p4 p5 where
    n1: "sv_number s = Some (maj, p1)" "cur p1 = CHR ''.''" and
    n2: "sv_number (tl p1) = Some (mnr, p2)" "cur p2 = CHR ''.''" and
    n3: "sv_number (tl p2) = Some (pat, p3)" and
    pre: "pre_part p3 = Some (x, p4)" and bld: "build_part p4 = Some p5" "cur p5 = NUL" and
    v: "v = \<lparr>major = maj, minor = mnr, patch = pat, prerelease = x\<rparr>"
    by (auto simp: astools_semver_parse_def pre_part_def [symmetric] build_part_def [symmetric]
        split: option.splits if_splits)
  from n1(1) obtain ma where ma: "s = ma @ p1" "sv_num_ok ma" "maj = int (dec_val ma)" by (auto simp: sv_number_iff)
  from n2(1) obtain mi where mi: "tl p1 = mi @ p2" "sv_num_ok mi" "mnr = int (dec_val mi)" by (auto simp: sv_number_iff)
  from n3 obtain pa where pa: "tl p2 = pa @ p3" "sv_num_ok pa" "pat = int (dec_val pa)" by (auto simp: sv_number_iff)
  from pre obtain ids where ids: "p3 = pre_text ids @ p4" "ids_ok True ids" "x = map_option join_dots ids"
    by (auto simp: pre_part_iff)
  have dots: "p1 = CHR ''.'' # tl p1" "p2 = CHR ''.'' # tl p2"
    using n1(2) n2(2) by (auto intro: cur_tl simp: NUL_def)
  have s: "s = ma @ ''.'' @ mi @ ''.'' @ pa @ pre_text ids @ p4"
    using ma(1) mi(1) pa(1) ids(1) dots by simp
  with assms have "nul_free p4" by simp
  from build_part_iff [OF this] bld obtain b where "p4 = build_text b" "ids_ok False b" by blast
  with s ma mi pa ids v show ?R by (intro exI [of _ ma] exI [of _ mi] exI [of _ pa] exI [of _ ids] exI [of _ b]) simp
next
  assume ?R
  then obtain ma mi pa pre bld where s: "s = ma @ ''.'' @ mi @ ''.'' @ pa @ pre_text pre @ build_text bld"
    and ok: "sv_num_ok ma" "sv_num_ok mi" "sv_num_ok pa" "ids_ok True pre" "ids_ok False bld"
    and v: "v = \<lparr>major = int (dec_val ma), minor = int (dec_val mi), patch = int (dec_val pa),
            prerelease = map_option join_dots pre\<rparr>" by auto
  let ?p3 = "pre_text pre @ build_text bld"
  have cur3: "cur ?p3 \<in> {NUL, CHR ''-'', CHR ''+''}"
    by (simp add: pre_text_cur build_text_cur)
  then have "\<not> is_digit (cur ?p3)" by (auto simp: semver_seps)
  then have n3: "sv_number (pa @ ?p3) = Some (int (dec_val pa), ?p3)" by (rule num_then [OF ok(3)])
  have "cur (build_text bld) \<noteq> CHR ''-''" "\<not> sv_ident_char (cur (build_text bld))" "cur (build_text bld) \<noteq> CHR ''.''"
  proof -
    have "NUL \<noteq> CHR ''-''" "NUL \<noteq> CHR ''.''" by (simp_all add: NUL_def)
    then show "cur (build_text bld) \<noteq> CHR ''-''" "\<not> sv_ident_char (cur (build_text bld))"
      "cur (build_text bld) \<noteq> CHR ''.''" by (simp_all add: build_text_cur)
  qed
  then have pre: "pre_part ?p3 = Some (map_option join_dots pre, build_text bld)"
    unfolding pre_part_iff using ok(4) by (intro exI [of _ pre]) simp
  have "nul_free (build_text bld)" using assms s by simp
  from build_part_iff [OF this] ok(5) obtain r where "build_part (build_text bld) = Some r" "cur r = NUL" by blast
  then show ?L
    using n3 pre ok by (simp add: astools_semver_parse_def s v num_then semver_seps
        pre_part_def [symmetric] build_part_def [symmetric])
qed

text \<open>
  C14: The version parser accepts exactly the texts of the SemVer 2.0.0 grammar whose numbers fit an
  int64: three numbers without leading zeros, optional pre-release identifiers (numeric ones
  without leading zeros) and optional build identifiers, which are checked and dropped.
\<close>

theorem semver_parse_iff:
  assumes "nul_free s"
  shows "astools_semver_parse (Some s) = Some v \<longleftrightarrow>
    (\<exists>ma mi pa pre bld. s = semver_text ma mi pa pre bld \<and>
       sv_num_ok ma \<and> sv_num_ok mi \<and> sv_num_ok pa \<and> ids_ok True pre \<and> ids_ok False bld \<and>
       v = \<lparr>major = int (dec_val ma), minor = int (dec_val mi), patch = int (dec_val pa),
            prerelease = map_option join_dots pre\<rparr>)"
  by (rule semver_text_iff [OF assms])

theorem semver_parse_iff_witness:
  "astools_semver_parse (Some ''1.20.3-rc.1+x'')
     = Some \<lparr>major = 1, minor = 20, patch = 3, prerelease = Some ''rc.1''\<rparr>"
proof -
  have "nul_free ''1.20.3-rc.1+x''" by (simp add: NUL_def)
  note iff = semver_parse_iff [OF this]
  show ?thesis
    unfolding iff
    by (intro exI [of _ "''1''"] exI [of _ "''20''"] exI [of _ "''3''"] exI [of _ "Some [''rc'', ''1'']"]
          exI [of _ "Some [''x'']"])
       (simp add: pre_text_def build_text_def sv_num_ok_def ids_ok_def ident_ok_def sv_ident_char_def
         dec_val_def digit_val_def is_digit_def is_lower_def is_upper_def chcode_def INT64_MAX_def)
qed

section \<open>Precedence of the SemVer document\<close>

text \<open>Identifiers: numeric ones by value, before the others, which go by their bytes.\<close>

definition prec_ident :: "string \<Rightarrow> nat \<times> nat \<times> nat list" where
  "prec_ident f = (if f \<noteq> [] \<and> list_all is_digit f then (0, dec_val f, []) else (1, 0, map chcode f))"

fun split_dots :: "string \<Rightarrow> string list" where
  "split_dots [] = [[]]"
| "split_dots (c # s) = (if c = CHR ''.'' then [] # split_dots s
     else case split_dots s of [] \<Rightarrow> [[c]] | f # fs \<Rightarrow> (c # f) # fs)"

definition semver_prec :: "astools_semver \<Rightarrow> int \<times> int \<times> int \<times> nat \<times> (nat \<times> nat \<times> nat list) list" where
  "semver_prec v = (major v, minor v, patch v,
     (case prerelease v of None \<Rightarrow> 1 | Some _ \<Rightarrow> 0),
     (case prerelease v of None \<Rightarrow> [] | Some p \<Rightarrow> map prec_ident (split_dots p)))"

lemma ident_char_not_dot: "list_all sv_ident_char f \<Longrightarrow> list_all (\<lambda>c. c \<noteq> NUL \<and> c \<noteq> CHR ''.'') f"
  by (auto simp: list_all_iff)

lemma split_dots_run: "list_all (\<lambda>c. c \<noteq> CHR ''.'') f \<Longrightarrow> split_dots (f @ CHR ''.'' # s) = f # split_dots s"
  "list_all (\<lambda>c. c \<noteq> CHR ''.'') f \<Longrightarrow> split_dots f = [f]"
  by (induction f) auto

lemma split_join:
  "ids \<noteq> [] \<Longrightarrow> list_all (ident_ok st) ids \<Longrightarrow> split_dots (join_dots ids) = ids"
proof (induction ids rule: join_dots.induct)
  case (2 f)
  then have "list_all (\<lambda>c. c \<noteq> CHR ''.'') f"
    using ident_char_not_dot by (auto simp: ident_ok_def list_all_iff)
  then show ?case by (simp add: split_dots_run)
next
  case (3 f g fs)
  then have "list_all (\<lambda>c. c \<noteq> CHR ''.'') f"
    using ident_char_not_dot by (auto simp: ident_ok_def list_all_iff)
  with 3 show ?case by (simp add: split_dots_run)
qed simp

lemma sv_fields_run:
  assumes "ident_ok st f" "cur r = NUL \<or> cur r = CHR ''.''"
  shows "sv_fields (f @ r) = f # sv_fields (if cur r = CHR ''.'' then tl r else r)"
proof -
  have f: "f \<noteq> []" "list_all (\<lambda>c. c \<noteq> NUL \<and> c \<noteq> CHR ''.'') f"
    using assms(1) ident_char_not_dot by (auto simp: ident_ok_def)
  then have "cur (f @ r) \<noteq> NUL" by (cases f) auto
  moreover have "takeWhile (\<lambda>c. c \<noteq> NUL \<and> c \<noteq> CHR ''.'') (f @ r) = f"
    using takeWhile_run [OF f(2), of r] assms(2) by (cases r) auto
  then have "sv_field_len (f @ r) = length f" by (simp add: sv_field_len_def)
  ultimately show ?thesis by (subst sv_fields.simps) (simp add: sv_next_def Let_def)
qed

lemma sv_fields_join: "list_all (ident_ok st) ids \<Longrightarrow> sv_fields (join_dots ids) = ids"
proof (induction ids rule: join_dots.induct)
  case 1
  then show ?case by (simp add: sv_fields.simps)
next
  case (2 f)
  have "NUL \<noteq> CHR ''.''" by (simp add: NUL_def)
  with 2 sv_fields_run [of st f "[]"] show ?case by (simp add: sv_fields.simps [of "[]"])
next
  case (3 f g fs)
  with sv_fields_run [of st f "CHR ''.'' # join_dots (g # fs)"] show ?case by simp
qed

text \<open>Without leading zeros, length and bytes order digit strings by value.\<close>

lemma dec_val_same_length:
  "length f = length g \<Longrightarrow> list_all is_digit f \<Longrightarrow> list_all is_digit g \<Longrightarrow>
   three_way (map chcode f) (map chcode g) = three_way (dec_val f) (dec_val g)"
proof (induction f g rule: list_induct2)
  case (Cons c f d g)
  then have IH: "three_way (map chcode f) (map chcode g) = three_way (dec_val f) (dec_val g)" by simp
  have lt: "dec_val f < 10 ^ length g" "dec_val g < 10 ^ length g"
    using Cons dec_val_lt [of f] dec_val_lt [of g] by simp_all
  have c: "chcode c = digit_val c + 48" "chcode d = digit_val d + 48"
    using Cons by (auto simp: is_digit_def digit_val_def)
  have less: "a * 10 ^ length g + x < b * 10 ^ length g + y"
    if "a < b" "x < 10 ^ length g" for a b x y :: nat
  proof -
    have "(a + 1) * 10 ^ length g \<le> b * 10 ^ length g" using that(1) by (intro mult_right_mono) simp_all
    with that(2) show ?thesis by simp
  qed
  consider "digit_val c < digit_val d" | "digit_val d < digit_val c" | "digit_val c = digit_val d" by linarith
  then show ?case
  proof cases
    case 1
    with less [OF 1 lt(1), of "dec_val g"] Cons(1) c show ?thesis
      by (simp add: three_way_def dec_val_Cons)
  next
    case 2
    with less [OF 2 lt(2), of "dec_val f"] Cons(1) c show ?thesis
      by (simp add: three_way_def dec_val_Cons)
  next
    case 3
    with Cons(1) c have "three_way (map chcode (c # f)) (map chcode (d # g)) = three_way (dec_val f) (dec_val g)"
      by (simp add: three_way_list IH)
    then show ?thesis using 3 Cons(1) by (simp add: dec_val_Cons three_way_def)
  qed
qed simp

lemma dec_val_ge:
  assumes "list_all is_digit f" "f \<noteq> []" "cur f \<noteq> CHR ''0''"
  shows "10 ^ (length f - 1) \<le> dec_val f"
proof -
  obtain c g where f: "f = c # g" using assms(2) by (cases f) auto
  have "chcode c \<noteq> 48" using assms(3) chcode_inj [of c "CHR ''0''"] by (auto simp: f chcode_def)
  then have "1 \<le> digit_val c" using assms(1) by (auto simp: f is_digit_def digit_val_def)
  then have "1 * 10 ^ length g \<le> digit_val c * 10 ^ length g" by (intro mult_right_mono) simp_all
  then have "10 ^ length g \<le> digit_val c * 10 ^ length g + dec_val g" by linarith
  then show ?thesis by (simp add: f dec_val_Cons)
qed

lemma dec_val_shorter:
  assumes "ident_ok True f" "ident_ok True g" "list_all is_digit f" "list_all is_digit g" "length f < length g"
  shows "dec_val f < dec_val g"
proof -
  have "f \<noteq> []" using assms(1) by (simp add: ident_ok_def)
  then have "length g > 1" using assms(5) by (cases f) auto
  then have "10 ^ (length g - 1) \<le> dec_val g"
    using assms(2,4) by (intro dec_val_ge) (auto simp: ident_ok_def)
  moreover have "dec_val f < 10 ^ length f" using assms(3) by (rule dec_val_lt)
  moreover have "(10 :: nat) ^ length f \<le> 10 ^ (length g - 1)" using assms(5) by (intro power_increasing) auto
  ultimately show ?thesis by linarith
qed

lemma field_keys_agree:
  assumes "ident_ok True f" "ident_ok True g"
  shows "three_way (sv_field_key f) (sv_field_key g) = three_way (prec_ident f) (prec_ident g)"
proof (cases "list_all is_digit f \<and> list_all is_digit g")
  case False
  then show ?thesis
    using assms by (auto simp: sv_field_key_def prec_ident_def three_way_Pair ident_ok_def)
next
  case True
  have ne: "f \<noteq> []" "g \<noteq> []" using assms by (simp_all add: ident_ok_def)
  consider "length f < length g" | "length g < length f" | "length f = length g" by linarith
  then show ?thesis
  proof cases
    case 1
    with dec_val_shorter [OF assms] True ne show ?thesis
      by (simp add: sv_field_key_def prec_ident_def three_way_def)
  next
    case 2
    with dec_val_shorter [OF assms(2,1)] True ne show ?thesis
      by (simp add: sv_field_key_def prec_ident_def three_way_def)
  next
    case 3
    with dec_val_same_length [OF 3] True ne show ?thesis
      by (auto simp: sv_field_key_def prec_ident_def three_way_Pair)
  qed
qed

lemma three_way_map_agree:
  "\<forall>x \<in> set xs. \<forall>y \<in> set ys. three_way (k x) (k y) = three_way (l x) (l y) \<Longrightarrow>
   three_way (map k xs) (map k ys) = three_way (map l xs) (map l ys)"
proof (induction xs arbitrary: ys)
  case Nil
  then show ?case by (cases ys) (simp_all add: three_way_list)
next
  case (Cons x xs)
  show ?case
  proof (cases ys)
    case Nil
    then show ?thesis by (simp add: three_way_list)
  next
    case (Cons y ys')
    have "k x = k y \<longleftrightarrow> l x = l y" using Cons.prems Cons by (metis list.set_intros(1) three_way_simps(2))
    then show ?thesis using Cons.IH [of ys'] Cons.prems Cons by (simp add: three_way_list)
  qed
qed

lemma parsed_prerelease:
  assumes "astools_semver_parse (Some s) = Some v" "prerelease v = Some p"
  shows "\<exists>ids. p = join_dots ids \<and> ids \<noteq> [] \<and> list_all (ident_ok True) ids"
proof -
  from assms(1) obtain p3 x p4 where "pre_part p3 = Some (x, p4)" "prerelease v = x"
    by (auto simp: astools_semver_parse_def pre_part_def [symmetric] split: option.splits if_splits)
  moreover from this obtain pre where "ids_ok True pre" "x = map_option join_dots pre"
    by (auto simp: pre_part_iff)
  ultimately show ?thesis using assms(2) by (cases pre) (auto simp: ids_ok_def)
qed

text \<open>
  C13: On parsed versions the comparison is the precedence of SemVer 2.0.0: major, minor and patch in
  turn, a release after its pre-releases, then identifier by identifier with numeric identifiers by
  value and below the others, the shorter list first.
\<close>

theorem semver_cmp_precedence:
  assumes "astools_semver_parse (Some s) = Some a" "astools_semver_parse (Some t) = Some b"
  shows "astools_semver_cmp (Some a) (Some b) = three_way (semver_prec a) (semver_prec b)"
proof -
  have keys: "three_way (map sv_field_key (sv_fields p)) (map sv_field_key (sv_fields q)) =
      three_way (map prec_ident (split_dots p)) (map prec_ident (split_dots q))"
    if pre: "prerelease a = Some p" "prerelease b = Some q" for p q
  proof -
    obtain ids where i: "p = join_dots ids" "ids \<noteq> []" "list_all (ident_ok True) ids"
      using parsed_prerelease [OF assms(1) pre(1)] by blast
    obtain jds where j: "q = join_dots jds" "jds \<noteq> []" "list_all (ident_ok True) jds"
      using parsed_prerelease [OF assms(2) pre(2)] by blast
    have "three_way (map sv_field_key ids) (map sv_field_key jds) = three_way (map prec_ident ids) (map prec_ident jds)"
      by (rule three_way_map_agree) (use i(3) j(3) in \<open>auto simp: list_all_iff intro: field_keys_agree\<close>)
    then show ?thesis
      using i j by (simp add: sv_fields_join split_join)
  qed
  show ?thesis
    unfolding semver_cmp_key sv_key_def semver_prec_def
    using keys by (auto simp: three_way_Pair split: option.split)
qed

theorem semver_cmp_precedence_witness:
  "\<exists>a b. astools_semver_parse (Some ''1.0.0-rc.2'') = Some a \<and> astools_semver_parse (Some ''1.0.0-rc.11'') = Some b \<and>
     astools_semver_cmp (Some a) (Some b) = three_way (semver_prec a) (semver_prec b) \<and>
     three_way (semver_prec a) (semver_prec b) = - 1"
proof -
  let ?a = "\<lparr>major = 1, minor = 0, patch = 0, prerelease = Some ''rc.2''\<rparr>"
  let ?b = "\<lparr>major = 1, minor = 0, patch = 0, prerelease = Some ''rc.11''\<rparr>"
  have a: "astools_semver_parse (Some ''1.0.0-rc.2'') = Some ?a" by code_simp
  have b: "astools_semver_parse (Some ''1.0.0-rc.11'') = Some ?b" by code_simp
  have "three_way (semver_prec ?a) (semver_prec ?b) = - 1" by code_simp
  with a b semver_cmp_precedence [OF a b] show ?thesis by blast
qed

text \<open>
  Version comparison is a total preorder: antisymmetric in sign and transitive, on all values,
  parsed or not, so sorting and picking the greatest version are well defined.
\<close>

theorem semver_cmp_total_preorder:
  "sgn (astools_semver_cmp (Some a) (Some b)) = - sgn (astools_semver_cmp (Some b) (Some a)) \<and>
   (astools_semver_cmp (Some a) (Some b) \<le> 0 \<longrightarrow> astools_semver_cmp (Some b) (Some c) \<le> 0 \<longrightarrow>
    astools_semver_cmp (Some a) (Some c) \<le> 0) \<and>
   (astools_semver_cmp (Some a) (Some b) \<le> 0 \<or> astools_semver_cmp (Some b) (Some a) \<le> 0)"
  using semver.cmp_antisym [of a b] semver.cmp_trans [of a b c] semver.cmp_total [of a b] by blast

theorem semver_cmp_total_preorder_witness:
  "let v = (\<lambda>p. Some \<lparr>major = 1, minor = 0, patch = 0, prerelease = p\<rparr>) in
   astools_semver_cmp (v (Some ''a'')) (v (Some ''b'')) \<le> 0 \<and> astools_semver_cmp (v (Some ''b'')) (v None) \<le> 0 \<and>
   astools_semver_cmp (v (Some ''a'')) (v None) \<le> 0"
proof -
  let ?v = "\<lambda>p. \<lparr>major = 1, minor = 0, patch = 0, prerelease = p\<rparr>"
  have "astools_semver_cmp (Some (?v (Some ''a''))) (Some (?v (Some ''b''))) \<le> 0"
    "astools_semver_cmp (Some (?v (Some ''b''))) (Some (?v None)) \<le> 0" by code_simp+
  with semver_cmp_total_preorder [of "?v (Some ''a'')" "?v (Some ''b'')" "?v None"] show ?thesis
    unfolding Let_def by blast
qed

end
