(* ===== verification/As_Sha256.thy ===== *)
theory As_Sha256
  imports As_Prelude
begin

unbundle bit_operations_syntax

text \<open>
  \<^verbatim>\<open>src/sha256.c\<close>: SHA-256, streaming. The context buffers a partial block; the theory shows that
  any way of cutting a message into updates gives the digest of the padded message hashed block by
  block, as FIPS 180-4 defines it.
\<close>

section \<open>The compression function\<close>

definition ROR :: "32 word \<Rightarrow> nat \<Rightarrow> 32 word" where
  "ROR x n = drop_bit n x OR push_bit (32 - n) x"

text \<open>The round constants, in decimal.\<close>

definition sha256_k :: "32 word list" where
  "sha256_k =
    [1116352408, 1899447441, 3049323471, 3921009573, 961987163, 1508970993, 2453635748, 2870763221,
     3624381080, 310598401, 607225278, 1426881987, 1925078388, 2162078206, 2614888103, 3248222580,
     3835390401, 4022224774, 264347078, 604807628, 770255983, 1249150122, 1555081692, 1996064986,
     2554220882, 2821834349, 2952996808, 3210313671, 3336571891, 3584528711, 113926993, 338241895,
     666307205, 773529912, 1294757372, 1396182291, 1695183700, 1986661051, 2177026350, 2456956037,
     2730485921, 2820302411, 3259730800, 3345764771, 3516065817, 3600352804, 4094571909, 275423344,
     430227734, 506948616, 659060556, 883997877, 958139571, 1322822218, 1537002063, 1747873779,
     1955562222, 2024104815, 2227730452, 2361852424, 2428436474, 2756734187, 3204031479, 3329325298]"

definition be32 :: "byte list \<Rightarrow> nat \<Rightarrow> 32 word" where
  "be32 block i =
     push_bit 24 (ucast (block ! (i * 4))) OR push_bit 16 (ucast (block ! (i * 4 + 1))) OR
     push_bit 8 (ucast (block ! (i * 4 + 2))) OR ucast (block ! (i * 4 + 3))"

text \<open>The message schedule: \<open>n\<close> further words appended to the words so far.\<close>

fun sha256_schedule :: "nat \<Rightarrow> 32 word list \<Rightarrow> 32 word list" where
  "sha256_schedule 0 w = w"
| "sha256_schedule (Suc n) w =
     (let i = length w;
          s0 = ROR (w ! (i - 15)) 7 XOR ROR (w ! (i - 15)) 18 XOR drop_bit 3 (w ! (i - 15));
          s1 = ROR (w ! (i - 2)) 17 XOR ROR (w ! (i - 2)) 19 XOR drop_bit 10 (w ! (i - 2))
      in sha256_schedule n (w @ [w ! (i - 16) + s0 + w ! (i - 7) + s1]))"

record sha256_regs =
  ra :: "32 word"  rb :: "32 word"  rc :: "32 word"  rd :: "32 word"
  re :: "32 word"  rf :: "32 word"  rg :: "32 word"  rh :: "32 word"

definition sha256_round :: "sha256_regs \<Rightarrow> 32 word \<times> 32 word \<Rightarrow> sha256_regs" where
  "sha256_round r kw =
     (case kw of (k, w) \<Rightarrow>
       let s1 = ROR (re r) 6 XOR ROR (re r) 11 XOR ROR (re r) 25;
           ch = (re r AND rf r) XOR (NOT (re r) AND rg r);
           t1 = rh r + s1 + ch + k + w;
           s0 = ROR (ra r) 2 XOR ROR (ra r) 13 XOR ROR (ra r) 22;
           maj = (ra r AND rb r) XOR (ra r AND rc r) XOR (rb r AND rc r);
           t2 = s0 + maj
       in \<lparr>ra = t1 + t2, rb = ra r, rc = rb r, rd = rc r,
           re = rd r + t1, rf = re r, rg = rf r, rh = rg r\<rparr>)"

definition add_regs :: "sha256_regs \<Rightarrow> sha256_regs \<Rightarrow> sha256_regs" where
  "add_regs s r = \<lparr>ra = ra s + ra r, rb = rb s + rb r, rc = rc s + rc r, rd = rd s + rd r,
     re = re s + re r, rf = rf s + rf r, rg = rg s + rg r, rh = rh s + rh r\<rparr>"

definition sha256_transform :: "sha256_regs \<Rightarrow> byte list \<Rightarrow> sha256_regs" where
  "sha256_transform st block =
     (let w = sha256_schedule 48 (map (be32 block) [0 ..< 16])
      in add_regs st (foldl sha256_round st (zip sha256_k w)))"

section \<open>The streaming interface\<close>

text \<open>\<open>sbuffer\<close> is the first \<open>buflen\<close> bytes of the context's 64-byte buffer.\<close>

record astools_sha256_ctx =
  sstate :: sha256_regs
  bitlen :: "64 word"
  sbuffer :: "byte list"

definition sha256_h0 :: sha256_regs where
  "sha256_h0 = \<lparr>ra = 0x6a09e667, rb = 0xbb67ae85, rc = 0x3c6ef372, rd = 0xa54ff53a,
     re = 0x510e527f, rf = 0x9b05688c, rg = 0x1f83d9ab, rh = 0x5be0cd19\<rparr>"

definition astools_sha256_init :: astools_sha256_ctx where
  "astools_sha256_init = \<lparr>sstate = sha256_h0, bitlen = 0, sbuffer = []\<rparr>"

text \<open>
  The loop of \<open>update\<close>. A context with 64 or more buffered bytes does not occur; the loop stops
  there, where C would underflow.
\<close>

function sha256_update_loop :: "astools_sha256_ctx \<Rightarrow> byte list \<Rightarrow> astools_sha256_ctx" where
  "sha256_update_loop ctx p =
     (if p = [] \<or> length (sbuffer ctx) \<ge> 64 then ctx
      else if sbuffer ctx = [] \<and> length p \<ge> 64 then
        sha256_update_loop (ctx\<lparr>sstate := sha256_transform (sstate ctx) (take 64 p)\<rparr>) (drop 64 p)
      else let n0 = 64 - length (sbuffer ctx);
               n = (if n0 > length p then length p else n0);
               buf = sbuffer ctx @ take n p
           in sha256_update_loop
                (if length buf = 64
                 then ctx\<lparr>sstate := sha256_transform (sstate ctx) buf, sbuffer := []\<rparr>
                 else ctx\<lparr>sbuffer := buf\<rparr>)
                (drop n p))"
  by pat_completeness auto
termination
  by (relation "measure (\<lambda>(_, p). length p)") auto

declare sha256_update_loop.simps [simp del]

definition astools_sha256_update :: "astools_sha256_ctx \<Rightarrow> byte list \<Rightarrow> astools_sha256_ctx" where
  "astools_sha256_update ctx data =
     sha256_update_loop (ctx\<lparr>bitlen := bitlen ctx + of_nat (length data) * 8\<rparr>) data"

text \<open>The partial block after one more byte.\<close>

lemma sha256_update_byte:
  assumes "length (sbuffer ctx) < 64"
  shows "length (sbuffer (astools_sha256_update ctx [b])) = (length (sbuffer ctx) + 1) mod 64"
  using assms
  by (subst astools_sha256_update_def, subst sha256_update_loop.simps, subst sha256_update_loop.simps)
     (auto simp: Let_def)

function sha256_zero_pad :: "astools_sha256_ctx \<Rightarrow> astools_sha256_ctx" where
  "sha256_zero_pad ctx =
     (if length (sbuffer ctx) = 56 \<or> length (sbuffer ctx) \<ge> 64 then ctx
      else sha256_zero_pad (astools_sha256_update ctx [0]))"
  by pat_completeness auto
termination
proof (relation "measure (\<lambda>ctx. let n = length (sbuffer ctx) in if n \<le> 56 then 56 - n else 120 - n)")
  fix ctx :: astools_sha256_ctx
  assume "\<not> (length (sbuffer ctx) = 56 \<or> length (sbuffer ctx) \<ge> 64)"
  then have "length (sbuffer ctx) \<noteq> 56" "length (sbuffer ctx) < 64" by auto
  then show "(astools_sha256_update ctx [0], ctx)
      \<in> measure (\<lambda>ctx. let n = length (sbuffer ctx) in if n \<le> 56 then 56 - n else 120 - n)"
    by (cases "length (sbuffer ctx) = 63") (auto simp: sha256_update_byte Let_def)
qed simp

declare sha256_zero_pad.simps [simp del]

definition be_bytes32 :: "32 word \<Rightarrow> byte list" where
  "be_bytes32 x = [ucast (drop_bit 24 x), ucast (drop_bit 16 x), ucast (drop_bit 8 x), ucast x]"

definition be_bytes64 :: "64 word \<Rightarrow> byte list" where
  "be_bytes64 bits = map (\<lambda>i. ucast (drop_bit (56 - 8 * i) bits)) [0 ..< 8]"

definition sha256_out :: "sha256_regs \<Rightarrow> byte list" where
  "sha256_out s = concat (map be_bytes32 [ra s, rb s, rc s, rd s, re s, rf s, rg s, rh s])"

definition astools_sha256_final :: "astools_sha256_ctx \<Rightarrow> byte list" where
  "astools_sha256_final ctx =
     (let bits = bitlen ctx;
          c1 = astools_sha256_update ctx [0x80];
          c2 = sha256_zero_pad c1;
          c3 = astools_sha256_update c2 (be_bytes64 bits)
      in sha256_out (sstate c3))"

definition astools_sha256 :: "byte list \<Rightarrow> byte list" where
  "astools_sha256 data = astools_sha256_final (astools_sha256_update astools_sha256_init data)"

section \<open>The reference: pad, cut into blocks, compress\<close>

function absorb :: "sha256_regs \<Rightarrow> byte list \<Rightarrow> sha256_regs \<times> byte list" where
  "absorb st bs = (if length bs \<ge> 64 then absorb (sha256_transform st (take 64 bs)) (drop 64 bs) else (st, bs))"
  by pat_completeness auto
termination
  by (relation "measure (\<lambda>(_, bs). length bs)") auto

declare absorb.simps [simp del]

definition sha256_pad :: "byte list \<Rightarrow> byte list" where
  "sha256_pad m = m @ [0x80] @ replicate ((119 - length m mod 64) mod 64) 0 @ be_bytes64 (of_nat (8 * length m))"

definition sha256_ref :: "byte list \<Rightarrow> byte list" where
  "sha256_ref m = sha256_out (fst (absorb sha256_h0 (sha256_pad m)))"

lemma absorb_short: "length bs < 64 \<Longrightarrow> absorb st bs = (st, bs)"
  by (subst absorb.simps) simp

lemma absorb_rest: "length (snd (absorb st bs)) < 64"
  by (induction st bs rule: absorb.induct) (subst absorb.simps, auto)

lemma absorb_rest_mod: "length (snd (absorb st bs)) = length bs mod 64"
proof (induction st bs rule: absorb.induct)
  case (1 st bs)
  then show ?case
    by (cases "length bs \<ge> 64") (subst absorb.simps, auto simp: le_mod_geq absorb_short)
qed

lemma absorb_append:
  "absorb st (a @ b) = (case absorb st a of (s, r) \<Rightarrow> absorb s (r @ b))"
proof (induction st a rule: absorb.induct)
  case (1 st a)
  show ?case
  proof (cases "length a \<ge> 64")
    case True
    then have "absorb st (a @ b) = absorb (sha256_transform st (take 64 a)) (drop 64 a @ b)"
      by (subst absorb.simps) simp
    also have "\<dots> = (case absorb (sha256_transform st (take 64 a)) (drop 64 a) of (s, r) \<Rightarrow> absorb s (r @ b))"
      by (rule 1 [OF True])
    also have "absorb (sha256_transform st (take 64 a)) (drop 64 a) = absorb st a"
      using True by (subst (2) absorb.simps) simp
    finally show ?thesis .
  next
    case False
    then show ?thesis by (simp add: absorb_short)
  qed
qed

text \<open>One update absorbs the buffered bytes and the data.\<close>

lemma absorb_block: "length blk = 64 \<Longrightarrow> absorb st (blk @ b) = absorb (sha256_transform st blk) b"
  by (subst absorb.simps) simp

lemma update_loop_absorb:
  "length (sbuffer ctx) < 64 \<Longrightarrow>
   sha256_update_loop ctx p =
     (case absorb (sstate ctx) (sbuffer ctx @ p) of (s, r) \<Rightarrow> ctx\<lparr>sstate := s, sbuffer := r\<rparr>)"
proof (induction ctx p rule: sha256_update_loop.induct)
  case (1 ctx p)
  show ?case
  proof (cases "p = []")
    case True
    with "1.prems" show ?thesis by (simp add: sha256_update_loop.simps absorb_short)
  next
    case ne: False
    show ?thesis
    proof (cases "sbuffer ctx = [] \<and> length p \<ge> 64")
      case True
      have "sha256_update_loop ctx p =
          sha256_update_loop (ctx\<lparr>sstate := sha256_transform (sstate ctx) (take 64 p)\<rparr>) (drop 64 p)"
        using True by (subst sha256_update_loop.simps) auto
      also have "\<dots> = (case absorb (sha256_transform (sstate ctx) (take 64 p)) (drop 64 p) of
          (s, r) \<Rightarrow> ctx\<lparr>sstate := s, sbuffer := r\<rparr>)"
        using 1(1) True ne by (simp split: prod.split)
      also have "absorb (sha256_transform (sstate ctx) (take 64 p)) (drop 64 p) = absorb (sstate ctx) p"
        using absorb_block [of "take 64 p" "sstate ctx" "drop 64 p"] True by simp
      finally show ?thesis using True by simp
    next
      case False
      obtain n where n: "n = (if 64 - length (sbuffer ctx) > length p then length p else 64 - length (sbuffer ctx))"
        by blast
      obtain buf where buf: "buf = sbuffer ctx @ take n p" by blast
      let ?c = "if length buf = 64 then ctx\<lparr>sstate := sha256_transform (sstate ctx) buf, sbuffer := []\<rparr>
                else ctx\<lparr>sbuffer := buf\<rparr>"
      have lb: "length buf \<le> 64" using n "1.prems" by (auto simp: buf split: if_splits)
      have step: "sha256_update_loop ctx p = sha256_update_loop ?c (drop n p)"
      proof -
        have "\<not> (p = [] \<or> 64 \<le> length (sbuffer ctx))" using ne "1.prems" by simp
        show ?thesis
          unfolding sha256_update_loop.simps [of ctx p] Let_def n buf if_not_P [OF \<open>\<not> (p = [] \<or> _)\<close>] if_not_P [OF False] ..
      qed
      have IH: "sha256_update_loop ?c (drop n p) =
          (case absorb (sstate ?c) (sbuffer ?c @ drop n p) of (s, r) \<Rightarrow> ?c\<lparr>sstate := s, sbuffer := r\<rparr>)"
        using 1(2) [of "64 - length (sbuffer ctx)" n buf] False ne "1.prems" lb n buf by auto
      have all: "sbuffer ctx @ p = buf @ drop n p" by (simp add: buf)
      show ?thesis
        unfolding step IH all
        by (cases "length buf = 64") (auto simp: absorb_block split: prod.split)
    qed
  qed
qed

text \<open>The state of a context that has taken in the bytes \<open>m\<close>.\<close>

definition ctx_of :: "byte list \<Rightarrow> astools_sha256_ctx" where
  "ctx_of m = \<lparr>sstate = fst (absorb sha256_h0 m), bitlen = of_nat (8 * length m), sbuffer = snd (absorb sha256_h0 m)\<rparr>"

lemma ctx_of_Nil: "ctx_of [] = astools_sha256_init"
  by (simp add: ctx_of_def absorb_short astools_sha256_init_def)

lemma update_absorb:
  "length (sbuffer ctx) < 64 \<Longrightarrow> astools_sha256_update ctx p =
     \<lparr>sstate = fst (absorb (sstate ctx) (sbuffer ctx @ p)), bitlen = bitlen ctx + of_nat (length p) * 8,
      sbuffer = snd (absorb (sstate ctx) (sbuffer ctx @ p))\<rparr>"
  by (simp add: astools_sha256_update_def update_loop_absorb split: prod.split)

lemma ctx_of_simps [simp]:
  "length (sbuffer (ctx_of m)) < 64" "length (sbuffer (ctx_of m)) = length m mod 64"
  "sstate (ctx_of m) = fst (absorb sha256_h0 m)" "bitlen (ctx_of m) = of_nat (8 * length m)"
  by (simp_all add: ctx_of_def absorb_rest absorb_rest_mod)

lemma absorb_append':
  "absorb st (a @ b) = absorb (fst (absorb st a)) (snd (absorb st a) @ b)"
  using absorb_append [of st a b] by (simp add: case_prod_beta)

lemma update_ctx_of: "astools_sha256_update (ctx_of m) p = ctx_of (m @ p)"
proof -
  have "bitlen (ctx_of m) + of_nat (length p) * 8 = of_nat (8 * length (m @ p))"
    by (simp add: algebra_simps)
  then show ?thesis
    unfolding update_absorb [OF ctx_of_simps(1)]
    by (simp only: ctx_of_def astools_sha256_ctx.select_convs absorb_append' [of _ m p])
qed

lemma pad_mod:
  "x < 64 \<Longrightarrow> (120 - x) mod 64 = (if x \<le> 56 then 56 - x else 120 - x :: nat)"
  "x < 64 \<Longrightarrow> (119 - x) mod 64 = (if x \<le> 55 then 55 - x else 119 - x :: nat)"
  by (cases "x \<le> 56"; simp add: le_mod_geq) (cases "x \<le> 55"; simp add: le_mod_geq)

lemma pad_zero_iff: "x < 64 \<Longrightarrow> (120 - x) mod 64 = 0 \<longleftrightarrow> x = (56 :: nat)"
  by (simp add: pad_mod)

lemma pad_step: "x < 64 \<Longrightarrow> Suc k = (120 - x) mod 64 \<Longrightarrow> k = (120 - (if x = 63 then 0 else Suc x)) mod (64 :: nat)"
  by (auto simp: pad_mod split: if_splits)

lemma pad_total: "x < 64 \<Longrightarrow> (x + (9 + (119 - x) mod 64)) mod 64 = (0 :: nat)"
  by (simp add: pad_mod)

lemma zero_pad_ctx_of: "sha256_zero_pad (ctx_of m) = ctx_of (m @ replicate ((120 - length m mod 64) mod 64) 0)"
proof (induction "(120 - length m mod 64) mod 64" arbitrary: m)
  case 0
  then have "length m mod 64 = 56" using pad_zero_iff [of "length m mod 64"] by simp
  with 0 show ?case by (subst sha256_zero_pad.simps) simp
next
  case (Suc k)
  have lt: "length m mod 64 < 64" by simp
  with Suc(2) have "length m mod 64 \<noteq> 56" by auto
  with lt have step: "sha256_zero_pad (ctx_of m) = sha256_zero_pad (ctx_of (m @ [0]))"
    by (subst sha256_zero_pad.simps) (simp add: update_ctx_of)
  have k: "k = (120 - length (m @ [0 :: byte]) mod 64) mod 64"
    using pad_step [OF lt Suc(2)] by (simp add: mod_Suc)
  have "ctx_of (m @ replicate (Suc k) 0) = ctx_of ((m @ [0]) @ replicate k 0)"
    by simp
  then show ?case using Suc(1) [OF k] step by (simp only: Suc(2) [symmetric] k [symmetric])
qed

lemma final_ctx_of: "astools_sha256_final (ctx_of m) = sha256_ref m"
proof -
  have k: "(120 - length (m @ [0x80 :: byte]) mod 64) mod 64 = (119 - length m mod 64) mod 64"
    by (simp add: mod_Suc)
  show ?thesis
    unfolding astools_sha256_final_def Let_def update_ctx_of zero_pad_ctx_of k ctx_of_simps(3,4)
    by (simp only: sha256_ref_def sha256_pad_def append_assoc)
qed

lemma length_sha256_pad: "length (sha256_pad m) mod 64 = 0"
proof -
  have "length (sha256_pad m) = length m + (9 + (119 - length m mod 64) mod 64)"
    by (simp add: sha256_pad_def be_bytes64_def)
  then have "length (sha256_pad m) mod 64 = (length m mod 64 + (9 + (119 - length m mod 64) mod 64)) mod 64"
    by (simp only: mod_add_left_eq)
  then show ?thesis using pad_total [of "length m mod 64"] by simp
qed

text \<open>
  C9: Hashing is independent of how the data is cut: any sequence of updates, empty ones included,
  followed by the final step gives the SHA-256 of the concatenated data as FIPS 180-4 states it -
  padded with 0x80, zeros and the 64-bit length to a multiple of 64 bytes, and compressed block by
  block.
\<close>

theorem sha256_streaming:
  "astools_sha256_final (foldl astools_sha256_update astools_sha256_init chunks) = sha256_ref (concat chunks) \<and>
   length (sha256_pad (concat chunks)) mod 64 = 0"
proof -
  have "foldl astools_sha256_update (ctx_of m) chunks = ctx_of (m @ concat chunks)" for m
    by (induction chunks arbitrary: m) (simp_all add: update_ctx_of)
  from this [of "[]"] show ?thesis
    by (simp add: ctx_of_Nil final_ctx_of length_sha256_pad)
qed

end
