(* ===== verification/As_Dups.thy ===== *)
theory As_Dups
  imports As_Util
begin

unbundle bit_operations_syntax

text \<open>
  \<^verbatim>\<open>src/types.c\<close>, duplicate-key detection: the quadratic reference and the hash table with linear
  probing that replaces it on large inputs. Both find a duplicate exactly when there is one, and
  the probing loop always ends: the table is at most half full.
\<close>

section \<open>The two searches\<close>

text \<open>A name may be a NULL pointer; those are skipped.\<close>

fun dup_str_pairwise :: "string option list \<Rightarrow> string option" where
  "dup_str_pairwise [] = None"
| "dup_str_pairwise (None # names) = dup_str_pairwise names"
| "dup_str_pairwise (Some s # names) = (if Some s \<in> set names then Some s else dup_str_pairwise names)"

definition dup_hash :: "string \<Rightarrow> nat \<Rightarrow> nat" where
  "dup_hash s cap = unat (astools_fnv1a64 (Some (bytes_of s))) AND (cap - 1)"

text \<open>
  The inner loop \<open>for (;;)\<close>, with fuel: \<open>None\<close> when it runs out. It ends in a free slot (\<open>Inl\<close>) or
  at an equal name (\<open>Inr\<close>). Slots hold an index plus one, 0 when empty.
\<close>

fun dup_probe :: "nat \<Rightarrow> string option list \<Rightarrow> nat list \<Rightarrow> string \<Rightarrow> nat \<Rightarrow> (nat + unit) option" where
  "dup_probe 0 names slots s h = None"
| "dup_probe (Suc fuel) names slots s h =
     (if slots ! h = 0 then Some (Inl h)
      else if names ! (slots ! h - 1) = Some s then Some (Inr ())
      else dup_probe fuel names slots s ((h + 1) AND (length slots - 1)))"

text \<open>The outer loop from index \<open>i\<close>.\<close>

function dup_table :: "string option list \<Rightarrow> nat list \<Rightarrow> nat \<Rightarrow> string option option" where
  "dup_table names slots i =
     (if i \<ge> length names then Some None
      else case names ! i of
        None \<Rightarrow> dup_table names slots (i + 1)
      | Some s \<Rightarrow>
         (case dup_probe (length slots) names slots s (dup_hash s (length slots)) of
            None \<Rightarrow> None
          | Some (Inl h) \<Rightarrow> dup_table names (slots[h := i + 1]) (i + 1)
          | Some (Inr _) \<Rightarrow> Some (Some s)))"
  by pat_completeness auto
termination by (relation "measure (\<lambda>(names, _, i). length names - i)") auto

declare dup_table.simps [simp del]

function dup_cap :: "nat \<Rightarrow> nat \<Rightarrow> nat" where
  "dup_cap cap n = (if cap \<noteq> 0 \<and> cap < n * 2 then dup_cap (push_bit 1 cap) n else cap)"
  by pat_completeness auto
termination by (relation "measure (\<lambda>(cap, n). n * 2 - cap)") auto

declare dup_cap.simps [simp del]

text \<open>\<open>table_ok\<close>: whether \<open>calloc\<close> finds memory for the table. The outer option is the fuel.\<close>

definition dup_str :: "bool \<Rightarrow> string option list \<Rightarrow> string option option" where
  "dup_str table_ok names =
     (let n = length names in
      if n < 2 then Some None
      else if n \<le> 64 \<or> n > SIZE_MAX div 8 then Some (dup_str_pairwise names)
      else if \<not> table_ok then Some (dup_str_pairwise names)
      else dup_table names (replicate (dup_cap 1 n) 0) 0)"

section \<open>Both find a duplicate iff there is one\<close>

definition nonnull_distinct :: "string option list \<Rightarrow> bool" where
  "nonnull_distinct names \<longleftrightarrow> distinct (List.map_filter (\<lambda>x. x) names)"

lemma map_filter_set: "s \<in> set (List.map_filter (\<lambda>x. x) names) \<longleftrightarrow> Some s \<in> set names"
  by (induction names) (auto simp: List.map_filter_simps split: option.splits)

lemma dup_pairwise_iff: "dup_str_pairwise names = None \<longleftrightarrow> nonnull_distinct names"
  by (induction names rule: dup_str_pairwise.induct)
     (auto simp: nonnull_distinct_def List.map_filter_simps map_filter_set)

lemma nonnull_distinct_all: "None \<notin> set names \<Longrightarrow> nonnull_distinct names \<longleftrightarrow> distinct names"
proof (induction names)
  case (Cons x names)
  then obtain s where x: "x = Some s" by (cases x) auto
  have "s \<in> set (List.map_filter (\<lambda>x. x) names) \<longleftrightarrow> Some s \<in> set names" by (rule map_filter_set)
  with Cons x show ?case by (simp add: nonnull_distinct_def List.map_filter_simps)
qed (simp add: nonnull_distinct_def List.map_filter_simps)

lemma nonnull_distinct_nth:
  "nonnull_distinct names \<longleftrightarrow>
   (\<forall>i j. i < j \<and> j < length names \<and> names ! i \<noteq> None \<longrightarrow> names ! i \<noteq> names ! j)"
proof (induction names)
  case Nil
  then show ?case by (simp add: nonnull_distinct_def List.map_filter_simps)
next
  case (Cons x names)
  have "nonnull_distinct (x # names) \<longleftrightarrow> (x = None \<or> x \<notin> set names) \<and> nonnull_distinct names"
    by (cases x) (auto simp: nonnull_distinct_def List.map_filter_simps map_filter_set)
  also have "\<dots> \<longleftrightarrow> (\<forall>i j. i < j \<and> j < length (x # names) \<and> (x # names) ! i \<noteq> None \<longrightarrow>
      (x # names) ! i \<noteq> (x # names) ! j)" (is "?A \<longleftrightarrow> ?B")
  proof
    assume A: ?A
    show ?B
    proof (intro allI impI)
      fix i j assume ij: "i < j \<and> j < length (x # names) \<and> (x # names) ! i \<noteq> None"
      then obtain j' where j: "j = Suc j'" by (cases j) auto
      show "(x # names) ! i \<noteq> (x # names) ! j"
      proof (cases i)
        case 0
        with A ij j show ?thesis by (auto simp: in_set_conv_nth)
      next
        case (Suc i')
        with A ij j Cons.IH show ?thesis by auto
      qed
    qed
  next
    assume B: ?B
    have "x = None \<or> x \<notin> set names"
    proof (rule ccontr)
      assume "\<not> (x = None \<or> x \<notin> set names)"
      then obtain j where "x \<noteq> None" "j < length names" "names ! j = x" by (auto simp: in_set_conv_nth)
      with B [rule_format, of 0 "Suc j"] show False by simp
    qed
    moreover have "nonnull_distinct names"
      unfolding Cons.IH using B [rule_format, of "Suc _" "Suc _"] by auto
    ultimately show ?A by blast
  qed
  finally show ?case .
qed

text \<open>The capacity is a power of two of at least twice the number of names.\<close>

lemma dup_cap_pow:
  "cap = 2 ^ k \<Longrightarrow> (\<exists>k'. dup_cap cap n = 2 ^ k') \<and> n * 2 \<le> dup_cap cap n"
proof (induction cap n arbitrary: k rule: dup_cap.induct)
  case (1 cap n)
  show ?case
  proof (cases "cap < n * 2")
    case True
    have c: "cap \<noteq> 0 \<and> cap < n * 2" using True 1(2) by simp
    have "push_bit 1 cap = 2 ^ Suc k" using 1(2) by (simp add: push_bit_eq_mult)
    from 1(1) [OF c this] have "(\<exists>k'. dup_cap (push_bit 1 cap) n = 2 ^ k') \<and> n * 2 \<le> dup_cap (push_bit 1 cap) n" .
    moreover have "dup_cap cap n = dup_cap (push_bit 1 cap) n"
      using c by (subst dup_cap.simps) (simp only: if_True simp_thms)
    ultimately show ?thesis by (simp only:)
  next
    case False
    then show ?thesis using 1(2) by (subst (1 2) dup_cap.simps) auto
  qed
qed

lemma and_cap: "cap = 2 ^ k \<Longrightarrow> (x :: nat) AND (cap - 1) = x mod cap"
  by (simp add: take_bit_eq_mod [symmetric] take_bit_eq_mask mask_eq_exp_minus_1)

text \<open>
  What the table holds after the names before \<open>i\<close>: every occupied slot names one of them, every
  one of them is reached from its hash over occupied slots, and no more than \<open>i\<close> slots are used.
\<close>

definition dup_inv :: "string option list \<Rightarrow> nat list \<Rightarrow> nat \<Rightarrow> bool" where
  "dup_inv names slots i \<longleftrightarrow>
     (\<forall>h < length slots. slots ! h \<noteq> 0 \<longrightarrow> slots ! h \<le> i \<and> names ! (slots ! h - 1) \<noteq> None) \<and>
     (\<forall>j < i. \<forall>s. names ! j = Some s \<longrightarrow>
        (\<exists>m < length slots. slots ! ((dup_hash s (length slots) + m) mod length slots) = j + 1 \<and>
           (\<forall>m' < m. slots ! ((dup_hash s (length slots) + m') mod length slots) \<noteq> 0))) \<and>
     card {h. h < length slots \<and> slots ! h \<noteq> 0} \<le> i"

lemma probe_stop:
  assumes "length slots = 2 ^ k" "h0 < length slots"
    and "\<And>m'. m \<le> m' \<Longrightarrow> m' < M \<Longrightarrow> slots ! ((h0 + m') mod length slots) \<noteq> 0 \<and>
           names ! (slots ! ((h0 + m') mod length slots) - 1) \<noteq> Some s"
    and "m \<le> M" "M - m < fuel"
    and "slots ! ((h0 + M) mod length slots) = 0 \<or> names ! (slots ! ((h0 + M) mod length slots) - 1) = Some s"
  shows "dup_probe fuel names slots s ((h0 + m) mod length slots) =
    Some (if slots ! ((h0 + M) mod length slots) = 0 then Inl ((h0 + M) mod length slots) else Inr ())"
  using assms
proof (induction fuel arbitrary: m)
  case (Suc fuel)
  show ?case
  proof (cases "m = M")
    case True
    with Suc.prems show ?thesis by auto
  next
    case False
    with Suc.prems(4) have lt: "m < M" by simp
    have next_pos: "((h0 + m) mod length slots + 1) AND (length slots - 1) = (h0 + Suc m) mod length slots"
      unfolding and_cap [OF Suc.prems(1)] by (simp add: mod_Suc_eq)
    have "dup_probe fuel names slots s ((h0 + Suc m) mod length slots) =
      Some (if slots ! ((h0 + M) mod length slots) = 0 then Inl ((h0 + M) mod length slots) else Inr ())"
      using Suc.prems lt by (intro Suc.IH) auto
    moreover have "dup_probe (Suc fuel) names slots s ((h0 + m) mod length slots) =
        dup_probe fuel names slots s ((h0 + Suc m) mod length slots)"
      using Suc.prems(3) [of m] lt next_pos by simp
    ultimately show ?thesis by simp
  qed
qed simp

lemma mod_surj:
  assumes "h < n" "h0 < (n :: nat)"
  shows "\<exists>m < n. (h0 + m) mod n = h"
proof (cases "h0 \<le> h")
  case True
  with assms show ?thesis by (intro exI [of _ "h - h0"]) simp
next
  case False
  with assms have "h0 + (n + h - h0) = h + n" by simp
  then have "(h0 + (n + h - h0)) mod n = h" using assms(1) by simp
  with False assms show ?thesis by (intro exI [of _ "n + h - h0"]) simp
qed

lemma dup_probe_result:
  fixes s :: string
  assumes len: "length slots = 2 ^ k" and inv: "dup_inv names slots i" and room: "i < length slots"
  defines "h0 \<equiv> dup_hash s (length slots)"
  obtains (free) M where "dup_probe (length slots) names slots s h0 = Some (Inl ((h0 + M) mod length slots))"
      "M < length slots" "slots ! ((h0 + M) mod length slots) = 0"
      "\<And>m'. m' < M \<Longrightarrow> slots ! ((h0 + m') mod length slots) \<noteq> 0"
      "\<And>j. j < i \<Longrightarrow> names ! j \<noteq> Some s"
    | (found) j where "dup_probe (length slots) names slots s h0 = Some (Inr ())" "j < i" "names ! j = Some s"
proof -
  let ?n = "length slots"
  let ?stop = "\<lambda>m. slots ! ((h0 + m) mod ?n) = 0 \<or> names ! (slots ! ((h0 + m) mod ?n) - 1) = Some s"
  have h0: "h0 < ?n" unfolding h0_def dup_hash_def and_cap [OF len] by (simp add: len)
  have "\<exists>h < ?n. slots ! h = 0"
  proof (rule ccontr)
    assume "\<not> (\<exists>h < ?n. slots ! h = 0)"
    then have "{h. h < ?n \<and> slots ! h \<noteq> 0} = {..< ?n}" by auto
    with inv room show False by (simp add: dup_inv_def)
  qed
  then obtain m0 where m0: "m0 < ?n" "?stop m0" using mod_surj [OF _ h0] by metis
  obtain M where M: "M = (LEAST m. ?stop m)" by blast
  have stop: "?stop M" unfolding M by (rule LeastI [of ?stop, OF m0(2)])
  have before: "\<not> ?stop m" if "m < M" for m using that not_less_Least unfolding M by blast
  have Mn: "M < ?n" using Least_le [of ?stop, OF m0(2)] m0(1) M by simp
  have res: "dup_probe ?n names slots s ((h0 + 0) mod ?n) =
    Some (if slots ! ((h0 + M) mod ?n) = 0 then Inl ((h0 + M) mod ?n) else Inr ())"
    by (rule probe_stop [OF len h0 _ _ _ stop]) (use before Mn in auto)
  show thesis
  proof (cases "slots ! ((h0 + M) mod ?n) = 0")
    case True
    have "names ! j \<noteq> Some s" if j: "j < i" for j
    proof
      assume "names ! j = Some s"
      with inv j obtain m where m: "slots ! ((h0 + m) mod ?n) = j + 1" "\<forall>m' < m. slots ! ((h0 + m') mod ?n) \<noteq> 0"
        unfolding dup_inv_def h0_def by blast
      with \<open>names ! j = Some s\<close> have "?stop m" by simp
      with before have "M \<le> m" by (meson not_le)
      then consider "M = m" | "M < m" by linarith
      then show False
      proof cases
        case 1
        with m(1) True show False by simp
      next
        case 2
        with m(2) True show False by blast
      qed
    qed
    with res True h0 Mn before show thesis by (intro free [of M]) auto
  next
    case False
    have pos: "(h0 + M) mod ?n < ?n" using h0 by (simp add: len)
    with inv False have "slots ! ((h0 + M) mod ?n) - 1 < i"
      unfolding dup_inv_def by (metis One_nat_def Suc_pred less_eq_Suc_le neq0_conv)
    with res False h0 stop show thesis by (intro found) auto
  qed
qed

lemma dup_inv_skip: "dup_inv names slots i \<Longrightarrow> names ! i = None \<Longrightarrow> dup_inv names slots (i + 1)"
  unfolding dup_inv_def by (auto simp: less_Suc_eq le_SucI)

lemma dup_inv_insert:
  assumes inv: "dup_inv names slots i" and nm: "names ! i = Some s" and M: "M < length slots"
    and h: "h = (dup_hash s (length slots) + M) mod length slots" "slots ! h = 0"
    and path: "\<And>m'. m' < M \<Longrightarrow> slots ! ((dup_hash s (length slots) + m') mod length slots) \<noteq> 0"
  shows "dup_inv names (slots[h := i + 1]) (i + 1)"
proof -
  let ?n = "length slots" and ?sl = "slots[h := i + 1]"
  have "0 < ?n" using M by linarith
  then have hn: "h < ?n" unfolding h(1) by (rule mod_less_divisor)
  have upd: "slots[h := Suc i] ! x = (if x = h then Suc i else slots ! x)" for x using hn by (auto simp: nth_list_update)
  have grow: "slots ! x \<noteq> 0 \<Longrightarrow> ?sl ! x \<noteq> 0" for x using hn by (cases "x = h") auto
  have occ: "\<forall>x < ?n. ?sl ! x \<noteq> 0 \<longrightarrow> ?sl ! x \<le> i + 1 \<and> names ! (?sl ! x - 1) \<noteq> None"
    using inv nm by (auto simp: dup_inv_def upd)
  have reach: "\<exists>m < ?n. ?sl ! ((dup_hash u ?n + m) mod ?n) = j + 1 \<and>
      (\<forall>m' < m. ?sl ! ((dup_hash u ?n + m') mod ?n) \<noteq> 0)"
    if j: "j < i + 1" "names ! j = Some u" for j u
  proof (cases "j = i")
    case True
    with j nm have "u = s" by simp
    have "?sl ! h = j + 1" by (simp add: upd True)
    with \<open>u = s\<close> M path grow show ?thesis by (intro exI [of _ M]) (simp only: h(1) [symmetric], simp)
  next
    case False
    with j have "j < i" by simp
    with inv j(2) obtain m where m: "m < ?n" "slots ! ((dup_hash u ?n + m) mod ?n) = j + 1"
      "\<forall>m' < m. slots ! ((dup_hash u ?n + m') mod ?n) \<noteq> 0"
      unfolding dup_inv_def by blast
    then have "(dup_hash u ?n + m) mod ?n \<noteq> h" using h(2) by auto
    then have "?sl ! ((dup_hash u ?n + m) mod ?n) = j + 1" using m(2) by simp
    with m(1,3) grow show ?thesis by blast
  qed
  have "{x. x < ?n \<and> ?sl ! x \<noteq> 0} \<subseteq> insert h {x. x < ?n \<and> slots ! x \<noteq> 0}" by (auto simp: upd)
  then have "card {x. x < ?n \<and> ?sl ! x \<noteq> 0} \<le> card (insert h {x. x < ?n \<and> slots ! x \<noteq> 0})"
    by (intro card_mono) auto
  also have "\<dots> \<le> i + 1" using inv by (auto simp: dup_inv_def card_insert_if)
  finally show ?thesis using occ reach by (auto simp: dup_inv_def)
qed

lemma dup_table_result:
  "length slots = 2 ^ k \<Longrightarrow> dup_inv names slots i \<Longrightarrow> length names < length slots \<Longrightarrow> i \<le> length names \<Longrightarrow>
   \<exists>r. dup_table names slots i = Some r \<and>
     (r = None \<longleftrightarrow> (\<forall>j j'. i \<le> j \<and> j < length names \<and> j' < j \<and> names ! j' \<noteq> None \<longrightarrow> names ! j' \<noteq> names ! j)) \<and>
     (\<forall>s. r = Some s \<longrightarrow> Some s \<in> set names)"
proof (induction names slots i rule: dup_table.induct)
  case (1 names slots i)
  show ?case
  proof (cases "i \<ge> length names")
    case True
    then have "dup_table names slots i = Some None" by (subst dup_table.simps) simp
    with True show ?thesis by force
  next
    case False
    then have i: "i < length names" by simp
    let ?ok = "\<lambda>i. \<forall>j j'. i \<le> j \<and> j < length names \<and> j' < j \<and> names ! j' \<noteq> None \<longrightarrow> names ! j' \<noteq> names ! j"
    have split: "?ok i \<longleftrightarrow> (\<forall>j' < i. names ! j' \<noteq> None \<longrightarrow> names ! j' \<noteq> names ! i) \<and> ?ok (i + 1)"
      (is "?l \<longleftrightarrow> ?r")
    proof
      assume ?l
      then show ?r using i by auto
    next
      assume r: ?r
      show ?l
      proof (intro allI impI)
        fix j j' assume a: "i \<le> j \<and> j < length names \<and> j' < j \<and> names ! j' \<noteq> None"
        show "names ! j' \<noteq> names ! j"
        proof (cases "j = i")
          case True
          with r a show ?thesis by blast
        next
          case False
          with a have "i + 1 \<le> j" by simp
          with r a show ?thesis by blast
        qed
      qed
    qed
    show ?thesis
    proof (cases "names ! i")
      case None
      have "dup_table names slots i = dup_table names slots (i + 1)"
        using False None by (subst dup_table.simps) simp
      moreover have "?ok i \<longleftrightarrow> ?ok (i + 1)" using split None by auto
      ultimately show ?thesis
        using 1(1) [OF False None] 1(3) i dup_inv_skip [OF 1(4) None] 1(5) by simp
    next
      case (Some s)
      have room: "i < length slots" using i 1(5) by simp
      show ?thesis
      proof (rule dup_probe_result [OF 1(3,4) room, of s])
        fix M
        let ?h = "(dup_hash s (length slots) + M) mod length slots"
        assume pr: "dup_probe (length slots) names slots s (dup_hash s (length slots)) = Some (Inl ?h)"
          and M: "M < length slots" "slots ! ?h = 0"
          "\<And>m'. m' < M \<Longrightarrow> slots ! ((dup_hash s (length slots) + m') mod length slots) \<noteq> 0"
          and new: "\<And>j. j < i \<Longrightarrow> names ! j \<noteq> Some s"
        have "dup_table names slots i = dup_table names (slots[?h := i + 1]) (i + 1)"
          using False Some pr by (subst dup_table.simps) simp
        moreover have "?ok i \<longleftrightarrow> ?ok (i + 1)" using split Some new by auto
        moreover have "dup_inv names (slots[?h := i + 1]) (i + 1)"
          using dup_inv_insert [OF 1(4) Some M(1) refl M(2,3)] .
        ultimately show ?thesis
          using 1(2) [OF False Some pr refl] 1(3,5) i by simp
      next
        fix j
        assume pr: "dup_probe (length slots) names slots s (dup_hash s (length slots)) = Some (Inr ())"
          and j: "j < i" "names ! j = Some s"
        have "dup_table names slots i = Some (Some s)"
          using False Some pr by (subst dup_table.simps) simp
        moreover have "\<not> ?ok i" using split Some j by force
        moreover have "Some s \<in> set names" using Some i by (metis nth_mem)
        ultimately show ?thesis by simp
      qed
    qed
  qed
qed

lemma dup_table_decides:
  assumes "2 \<le> length names"
  shows "\<exists>r. dup_table names (replicate (dup_cap 1 (length names)) 0) 0 = Some r \<and>
    (r = None \<longleftrightarrow> nonnull_distinct names) \<and> (\<forall>s. r = Some s \<longrightarrow> Some s \<in> set names)"
proof -
  let ?cap = "dup_cap 1 (length names)"
  obtain k where k: "?cap = 2 ^ k" and big: "length names * 2 \<le> ?cap"
    using dup_cap_pow [of 1 0 "length names"] by auto
  have "dup_inv names (replicate ?cap 0) 0" by (simp add: dup_inv_def)
  then obtain r where r: "dup_table names (replicate ?cap 0) 0 = Some r"
    "r = None \<longleftrightarrow> (\<forall>j j'. 0 \<le> j \<and> j < length names \<and> j' < j \<and> names ! j' \<noteq> None \<longrightarrow> names ! j' \<noteq> names ! j)"
    "\<forall>s. r = Some s \<longrightarrow> Some s \<in> set names"
    using dup_table_result [of "replicate ?cap 0" k names 0] k big assms by auto
  then show ?thesis unfolding nonnull_distinct_nth by auto
qed

lemma dup_str_total:
  "\<exists>r. dup_str table_ok names = Some r \<and> (r = None \<longleftrightarrow> nonnull_distinct names) \<and>
       Some ` set_option r \<subseteq> set names"
proof -
  have pw: "\<forall>s. dup_str_pairwise names = Some s \<longrightarrow> Some s \<in> set names"
    by (induction names rule: dup_str_pairwise.induct) auto
  have short: "nonnull_distinct names" if "length names < 2"
    using that by (cases names) (auto simp: nonnull_distinct_nth)
  show ?thesis
  proof (cases "length names < 2")
    case True
    then show ?thesis using short by (simp add: dup_str_def)
  next
    case False
    then show ?thesis
      using dup_table_decides [of names] pw dup_pairwise_iff [of names] by (auto simp: dup_str_def Let_def)
  qed
qed

text \<open>
  C20: The duplicate search answers on every input, whether it takes the hash table, the table's
  memory fails or the input is small: the probing ends, no duplicate is reported exactly when all
  (non-NULL) names differ, and a reported name is one of the names.
\<close>

theorem dup_str_decides:
  "\<exists>r. dup_str table_ok names = Some r \<and> (r = None \<longleftrightarrow> nonnull_distinct names) \<and>
       Some ` set_option r \<subseteq> set names"
  by (rule dup_str_total)

end
