(* ===== verification/As_Xcdn.thy ===== *)
theory As_Xcdn
  imports As_Dups Complex_Main
begin

text \<open>
  The document model the library works on and the deep copy of \<^verbatim>\<open>src/types.c\<close>. The xCDN library is a
  git submodule, so its values are a datatype with the fields the code reads, NULL pointers
  included, and its lookup function is a parameter.
\<close>

section \<open>Documents\<close>

text \<open>A C double: a finite one is the rational it denotes, the rest are not told apart.\<close>

datatype dbl = Fin rat | NonFin

datatype xvalue =
    XNull
  | XBool bool
  | XInt int
  | XFloat dbl
  | XDecimal "string option"
  | XString "string option"
  | XBytes "byte list"
  | XDatetime "string option"
  | XDuration "string option"
  | XUuid "string option"
  | XArray "xnode option list"
  | XObject "(string option \<times> xnode option) list"
and xnode =
    XNode (xtags: "string option list") (xannots: "(string option \<times> xvalue option list) list")
      (xval: "xvalue option")

type_synonym xentries = "(string option \<times> xnode option) list"

text \<open>
  \<open>oget keys k\<close> stands for \<open>xcdn_object_get\<close>: the index of an entry with key \<open>k\<close>, if any. The
  documented behaviour is that the entry found has the key, and that none is found only when no
  entry has it.
\<close>

type_synonym xlookup = "string option list \<Rightarrow> string \<Rightarrow> nat option"

definition lookup_ok :: "xlookup \<Rightarrow> bool" where
  "lookup_ok oget \<longleftrightarrow>
     (\<forall>keys k. (case oget keys k of
        None \<Rightarrow> Some k \<notin> set keys
      | Some i \<Rightarrow> i < length keys \<and> keys ! i = Some k))"

text \<open>The node a lookup returns, with its place: a NULL node counts as no node.\<close>

definition xget :: "xlookup \<Rightarrow> xentries \<Rightarrow> string \<Rightarrow> (nat \<times> xnode) option" where
  "xget oget es k =
     (case oget (map fst es) k of
        None \<Rightarrow> None
      | Some i \<Rightarrow> (case snd (es ! i) of None \<Rightarrow> None | Some n \<Rightarrow> Some (i, n)))"

definition xfind :: "xlookup \<Rightarrow> xentries \<Rightarrow> string \<Rightarrow> xnode option" where
  "xfind oget es k = map_option snd (xget oget es k)"

text \<open>An instance for witnesses: the first entry with the key.\<close>

fun first_key :: "string option list \<Rightarrow> string \<Rightarrow> nat option" where
  "first_key [] k = None"
| "first_key (x # xs) k = (if x = Some k then Some 0 else map_option Suc (first_key xs k))"

lemma first_key_ok: "lookup_ok first_key"
proof -
  have "case first_key keys k of None \<Rightarrow> Some k \<notin> set keys | Some i \<Rightarrow> i < length keys \<and> keys ! i = Some k"
    for keys k by (induction keys) (auto split: option.splits)
  then show ?thesis by (simp add: lookup_ok_def)
qed

lemma lookup_Some:
  assumes "lookup_ok oget" "oget keys k = Some i"
  shows "i < length keys" "keys ! i = Some k"
  using assms(1) [unfolded lookup_ok_def, THEN spec, of keys, THEN spec, of k] assms(2) by simp_all

lemma lookup_None:
  assumes "lookup_ok oget" "oget keys k = None"
  shows "Some k \<notin> set keys"
  using assms(1) [unfolded lookup_ok_def, THEN spec, of keys, THEN spec, of k] assms(2) by simp

lemma xget_Some:
  assumes "lookup_ok oget" "xget oget es k = Some (i, n)"
  shows "i < length es" "es ! i = (Some k, Some n)"
proof -
  from assms(2) have i: "oget (map fst es) k = Some i" "snd (es ! i) = Some n"
    by (auto simp: xget_def split: option.splits)
  show "i < length es" using lookup_Some(1) [OF assms(1) i(1)] by simp
  then show "es ! i = (Some k, Some n)"
    using lookup_Some(2) [OF assms(1) i(1)] i(2) by (simp add: prod_eq_iff)
qed

lemma xget_None:
  assumes "lookup_ok oget" "xget oget es k = None" "\<forall>e \<in> set es. snd e \<noteq> None"
  shows "Some k \<notin> fst ` set es"
proof (cases "oget (map fst es) k")
  case None
  from lookup_None [OF assms(1) this] show ?thesis by simp
next
  case (Some i)
  then have "i < length es" using lookup_Some(1) [OF assms(1) Some] by simp
  then have "snd (es ! i) \<noteq> None" using assms(3) by simp
  with Some assms(2) show ?thesis by (auto simp: xget_def)
qed

lemma xget_distinct:
  assumes "lookup_ok oget" "distinct (map fst es)" "i < length es" "es ! i = (Some k, Some n)"
  shows "xget oget es k = Some (i, n)"
proof (cases "oget (map fst es) k")
  case None
  have "map fst es ! i = Some k" using assms(3,4) by simp
  then have "Some k \<in> set (map fst es)" using assms(3) by (metis length_map nth_mem)
  with lookup_None [OF assms(1) None] show ?thesis by simp
next
  case (Some j)
  have "j < length (map fst es)" "map fst es ! j = map fst es ! i" "i < length (map fst es)"
    using lookup_Some [OF assms(1) Some] assms(3,4) by simp_all
  then have "j = i" using assms(2) nth_eq_iff_index_eq by blast
  with Some assms(4) show ?thesis by (simp add: xget_def)
qed

section \<open>Well-formed documents\<close>

text \<open>What a parsed document is: no NULL name, key, item, node or string inside it, integers of 64 bits.\<close>

definition all_some :: "bool option list \<Rightarrow> bool" where
  "all_some xs \<longleftrightarrow> list_all (\<lambda>x. x = Some True) xs"

primrec doc_ok_v :: "xvalue \<Rightarrow> bool" and doc_ok :: "xnode \<Rightarrow> bool" where
  "doc_ok_v XNull = True"
| "doc_ok_v (XBool b) = True"
| "doc_ok_v (XInt i) = int64_ok i"
| "doc_ok_v (XFloat d) = True"
| "doc_ok_v (XDecimal s) = (s \<noteq> None)"
| "doc_ok_v (XString s) = (s \<noteq> None)"
| "doc_ok_v (XBytes b) = True"
| "doc_ok_v (XDatetime s) = (s \<noteq> None)"
| "doc_ok_v (XDuration s) = (s \<noteq> None)"
| "doc_ok_v (XUuid s) = (s \<noteq> None)"
| "doc_ok_v (XArray items) = all_some (map (map_option doc_ok) items)"
| "doc_ok_v (XObject es) =
     list_all (\<lambda>(k, n). k \<noteq> None \<and> n = Some True) (map (map_prod id (map_option doc_ok)) es)"
| "doc_ok (XNode tags annots v) =
     (list_all (\<lambda>t. t \<noteq> None) tags \<and>
      list_all (\<lambda>(k, args). k \<noteq> None \<and> all_some args) (map (map_prod id (map (map_option doc_ok_v))) annots) \<and>
      (case map_option doc_ok_v v of None \<Rightarrow> True | Some b \<Rightarrow> b))"

lemma all_some_iff: "all_some (map (map_option P) xs) \<longleftrightarrow> (\<forall>x \<in> set xs. \<exists>y. x = Some y \<and> P y)"
  by (auto simp: all_some_def list_all_iff)

section \<open>Deep copy\<close>

definition CLONE_DEPTH_MAX :: nat where
  "CLONE_DEPTH_MAX = 64"

definition str_or_empty :: "string option \<Rightarrow> string option" where
  "str_or_empty s = Some (case s of None \<Rightarrow> [] | Some t \<Rightarrow> t)"

text \<open>
  Allocations succeed; a copy fails on a NULL node or value inside arrays, objects and
  annotations and beyond the depth limit.
\<close>

function clone_value :: "xvalue option \<Rightarrow> nat \<Rightarrow> xvalue option"
  and clone_node :: "xnode option \<Rightarrow> nat \<Rightarrow> xnode option" where
  "clone_value v depth =
     (if v = None \<or> depth > CLONE_DEPTH_MAX then None
      else case the v of
        XArray items \<Rightarrow>
          map_option (\<lambda>ns. XArray (map Some ns)) (those (map (\<lambda>n. clone_node n (depth + 1)) items))
      | XObject es \<Rightarrow>
          map_option XObject (those (map (\<lambda>e.
            map_option (\<lambda>n. (str_or_empty (fst e), Some n)) (clone_node (snd e) (depth + 1))) es))
      | w \<Rightarrow> Some w)"
| "clone_node n depth =
     (if n = None \<or> depth > CLONE_DEPTH_MAX then None
      else case the n of XNode tags annots v \<Rightarrow>
        (case those (map (\<lambda>a. map_option (\<lambda>args. (str_or_empty (fst a), map Some args))
                 (those (map (\<lambda>w. clone_value w (depth + 1)) (snd a)))) annots) of
           None \<Rightarrow> None
         | Some annots' \<Rightarrow>
            (if v = None then Some (XNode (map str_or_empty tags) annots' None)
             else map_option (\<lambda>w. XNode (map str_or_empty tags) annots' (Some w)) (clone_value v (depth + 1)))))"
  by pat_completeness auto
termination
  by (relation "measure (\<lambda>x. case x of Inl (v, d) \<Rightarrow> 66 - d | Inr (n, d) \<Rightarrow> 66 - d)")
     (auto simp: CLONE_DEPTH_MAX_def)

declare clone_value.simps [simp del] clone_node.simps [simp del]

text \<open>The depth a document takes.\<close>

definition max0 :: "nat list \<Rightarrow> nat" where
  "max0 xs = foldr max xs 0"

definition opt_nat :: "nat option \<Rightarrow> nat" where
  "opt_nat x = (case x of None \<Rightarrow> 0 | Some n \<Rightarrow> n)"

primrec vdepth :: "xvalue \<Rightarrow> nat" and ndepth :: "xnode \<Rightarrow> nat" where
  "vdepth XNull = 0"
| "vdepth (XBool b) = 0"
| "vdepth (XInt i) = 0"
| "vdepth (XFloat d) = 0"
| "vdepth (XDecimal s) = 0"
| "vdepth (XString s) = 0"
| "vdepth (XBytes b) = 0"
| "vdepth (XDatetime s) = 0"
| "vdepth (XDuration s) = 0"
| "vdepth (XUuid s) = 0"
| "vdepth (XArray items) = max0 (map Suc (map opt_nat (map (map_option ndepth) items)))"
| "vdepth (XObject es) = max0 (map (\<lambda>(k, n). Suc (opt_nat n)) (map (map_prod id (map_option ndepth)) es))"
| "ndepth (XNode tags annots v) =
     max (max0 (map (\<lambda>(k, ds). max0 (map (\<lambda>d. Suc (opt_nat d)) ds)) (map (map_prod id (map (map_option vdepth))) annots)))
         (case map_option vdepth v of None \<Rightarrow> 0 | Some d \<Rightarrow> Suc d)"

lemma max0_le: "max0 xs \<le> n \<longleftrightarrow> (\<forall>x \<in> set xs. x \<le> n)"
  by (induction xs) (auto simp: max0_def)

lemma those_map_Some:
  "\<forall>x \<in> set xs. f x = Some (g x) \<Longrightarrow> those (map f xs) = Some (map g xs)"
  by (induction xs) auto

lemma those_map_None: "x \<in> set xs \<Longrightarrow> f x = None \<Longrightarrow> those (map f xs) = None"
  by (induction xs) (auto split: option.splits)

lemma those_Some_iff: "those (map f xs) = Some ys \<longleftrightarrow> map f xs = map Some ys"
  by (induction xs arbitrary: ys) (auto simp: Cons_eq_map_conv split: option.splits)

lemma max0_gt: "n < max0 xs \<longleftrightarrow> (\<exists>x \<in> set xs. n < x)"
  using max0_le [of xs n] by (auto simp: not_le)

lemma str_or_empty_Some [simp]: "str_or_empty (Some s) = Some s"
  by (simp add: str_or_empty_def)

text \<open>Copying a list whose elements are copied exactly up to a depth.\<close>

lemma those_exact:
  assumes "\<And>x. x \<in> set xs \<Longrightarrow> f x = (if P x then Some (g x) else None)"
  shows "those (map f xs) = (if \<forall>x \<in> set xs. P x then Some (map g xs) else None)"
proof (cases "\<forall>x \<in> set xs. P x")
  case True
  with assms show ?thesis by (simp add: those_map_Some)
next
  case False
  then obtain x where "x \<in> set xs" "\<not> P x" by blast
  with assms [of x] False show ?thesis by (auto intro: those_map_None)
qed

lemma clone_exact:
  "doc_ok_v v \<Longrightarrow> clone_value (Some v) d = (if d + vdepth v \<le> CLONE_DEPTH_MAX then Some v else None)"
  "doc_ok n \<Longrightarrow> clone_node (Some n) d = (if d + ndepth n \<le> CLONE_DEPTH_MAX then Some n else None)"
proof (induction v and n arbitrary: d and d)
  case (XArray items)
  have ok: "\<And>x. x \<in> set items \<Longrightarrow> \<exists>y. x = Some y \<and> doc_ok y"
    using XArray.prems by (simp add: all_some_iff)
  have el: "clone_node x (d + 1) = (if d + 1 + ndepth (the x) \<le> CLONE_DEPTH_MAX then Some (the x) else None)"
    if "x \<in> set items" for x
    using XArray.IH [OF that] ok [OF that] by force
  have "map (Some \<circ> the) items = items" by (rule map_idI) (use ok in force)
  moreover have "d + vdepth (XArray items) \<le> CLONE_DEPTH_MAX \<longleftrightarrow>
      d \<le> CLONE_DEPTH_MAX \<and> (\<forall>x \<in> set items. d + 1 + ndepth (the x) \<le> CLONE_DEPTH_MAX)"
  proof -
    have "opt_nat (map_option ndepth x) = ndepth (the x)" if "x \<in> set items" for x
      using ok [OF that] by (auto simp: opt_nat_def)
    then have "vdepth (XArray items) \<le> CLONE_DEPTH_MAX - d \<longleftrightarrow>
        (\<forall>x \<in> set items. Suc (ndepth (the x)) \<le> CLONE_DEPTH_MAX - d)"
      by (simp add: max0_le)
    then show ?thesis by (auto simp: le_diff_conv2)
  qed
  moreover have "those (map (\<lambda>n. clone_node n (d + 1)) items) =
      (if \<forall>x \<in> set items. d + 1 + ndepth (the x) \<le> CLONE_DEPTH_MAX then Some (map the items) else None)"
    by (rule those_exact) (rule el)
  ultimately show ?case
    by (simp add: clone_value.simps [of _ d] comp_def)
next
  case (XObject es)
  have ok: "\<And>e. e \<in> set es \<Longrightarrow> \<exists>k y. e = (Some k, Some y) \<and> doc_ok y"
    using XObject.prems by (fastforce simp: list_all_iff)
  have el: "map_option (\<lambda>n. (str_or_empty (fst e), Some n)) (clone_node (snd e) (d + 1)) =
      (if d + 1 + ndepth (the (snd e)) \<le> CLONE_DEPTH_MAX then Some e else None)"
    if in_es: "e \<in> set es" for e
  proof -
    obtain k y where e: "e = (Some k, Some y)" "doc_ok y" using ok [OF in_es] by blast
    show ?thesis using XObject.IH [OF in_es, of "Some y" y "d + 1"] e by (simp add: e)
  qed
  have "d + vdepth (XObject es) \<le> CLONE_DEPTH_MAX \<longleftrightarrow>
      d \<le> CLONE_DEPTH_MAX \<and> (\<forall>e \<in> set es. d + 1 + ndepth (the (snd e)) \<le> CLONE_DEPTH_MAX)"
  proof -
    have "(case map_prod id (map_option ndepth) e of (k, n) \<Rightarrow> Suc (opt_nat n)) = Suc (ndepth (the (snd e)))"
      if "e \<in> set es" for e
      using ok [OF that] by (auto simp: opt_nat_def)
    then have "vdepth (XObject es) \<le> CLONE_DEPTH_MAX - d \<longleftrightarrow>
        (\<forall>e \<in> set es. Suc (ndepth (the (snd e))) \<le> CLONE_DEPTH_MAX - d)"
      by (simp add: max0_le)
    then show ?thesis by (auto simp: le_diff_conv2)
  qed
  moreover have "those (map (\<lambda>e. map_option (\<lambda>n. (str_or_empty (fst e), Some n)) (clone_node (snd e) (d + 1))) es) =
      (if \<forall>e \<in> set es. d + 1 + ndepth (the (snd e)) \<le> CLONE_DEPTH_MAX then Some (map (\<lambda>e. e) es) else None)"
    by (rule those_exact) (rule el)
  ultimately show ?case
    by (simp add: clone_value.simps [of _ d])
next
  case (XNode tags annots v)
  have tags: "map str_or_empty tags = tags"
    by (rule map_idI) (use XNode.prems in \<open>auto simp: list_all_iff\<close>)
  have ok: "\<exists>k. fst a = Some k" "\<And>w. w \<in> set (snd a) \<Longrightarrow> \<exists>y. w = Some y \<and> doc_ok_v y" if "a \<in> set annots" for a
  proof -
    have "(case map_prod id (map (map_option doc_ok_v)) a of (k, args) \<Rightarrow> k \<noteq> None \<and> all_some args)"
      using XNode.prems that by (simp add: list_all_iff)
    then show "\<exists>k. fst a = Some k" "\<And>w. w \<in> set (snd a) \<Longrightarrow> \<exists>y. w = Some y \<and> doc_ok_v y"
      by (cases a; auto simp: all_some_iff)+
  qed
  have inner: "those (map (\<lambda>w. clone_value w (d + 1)) (snd a)) =
      (if \<forall>w \<in> set (snd a). d + 1 + vdepth (the w) \<le> CLONE_DEPTH_MAX then Some (map the (snd a)) else None)"
    if a: "a \<in> set annots" for a
  proof (rule those_exact)
    fix w assume w: "w \<in> set (snd a)"
    obtain y where y: "w = Some y" "doc_ok_v y" using ok(2) [OF a w] by blast
    show "clone_value w (d + 1) = (if d + 1 + vdepth (the w) \<le> CLONE_DEPTH_MAX then Some (the w) else None)"
      using XNode.IH(1) [OF a _ w, of y "d + 1"] y by (simp add: snds.simps)
  qed
  let ?P = "\<lambda>a. \<forall>w \<in> set (snd a). d + 1 + vdepth (the w) \<le> CLONE_DEPTH_MAX"
  let ?f = "\<lambda>a. map_option (\<lambda>args. (str_or_empty (fst a), map Some args))
                 (those (map (\<lambda>w. clone_value w (d + 1)) (snd a)))"
  have annots: "those (map ?f annots) = (if \<forall>a \<in> set annots. ?P a then Some (map (\<lambda>a. a) annots) else None)"
  proof (rule those_exact)
    fix a assume a: "a \<in> set annots"
    have "map (Some \<circ> the) (snd a) = snd a" by (rule map_idI) (use ok(2) [OF a] in force)
    then show "?f a = (if ?P a then Some a else None)"
      unfolding inner [OF a] using ok(1) [OF a] by (auto simp: prod_eq_iff comp_def)
  qed
  have depth: "d + ndepth (XNode tags annots v) \<le> CLONE_DEPTH_MAX \<longleftrightarrow>
      d \<le> CLONE_DEPTH_MAX \<and> (\<forall>a \<in> set annots. ?P a) \<and> (\<forall>w. v = Some w \<longrightarrow> d + 1 + vdepth w \<le> CLONE_DEPTH_MAX)"
  proof -
    have "(case map_prod id (map (map_option vdepth)) a of (k, ds) \<Rightarrow> max0 (map (\<lambda>d. Suc (opt_nat d)) ds)) =
        max0 (map (\<lambda>w. Suc (vdepth (the w))) (snd a))" if "a \<in> set annots" for a
    proof -
      have "map ((\<lambda>d. Suc (opt_nat d)) \<circ> map_option vdepth) (snd a) = map (\<lambda>w. Suc (vdepth (the w))) (snd a)"
        by (rule map_cong [OF refl]) (use ok(2) [OF that] in \<open>force simp: opt_nat_def\<close>)
      moreover have "(case map_prod id (map (map_option vdepth)) a of (k, ds) \<Rightarrow> max0 (map (\<lambda>d. Suc (opt_nat d)) ds)) =
          max0 (map ((\<lambda>d. Suc (opt_nat d)) \<circ> map_option vdepth) (snd a))" by (cases a) simp
      ultimately show ?thesis by (simp only:)
    qed
    then have iff: "ndepth (XNode tags annots v) \<le> CLONE_DEPTH_MAX - d \<longleftrightarrow>
        (\<forall>a \<in> set annots. \<forall>w \<in> set (snd a). Suc (vdepth (the w)) \<le> CLONE_DEPTH_MAX - d) \<and>
        (\<forall>w. v = Some w \<longrightarrow> Suc (vdepth w) \<le> CLONE_DEPTH_MAX - d)"
      by (cases v) (simp_all add: max0_le)
    show ?thesis
    proof (cases "d \<le> CLONE_DEPTH_MAX")
      case True
      then have "d + x \<le> CLONE_DEPTH_MAX \<longleftrightarrow> x \<le> CLONE_DEPTH_MAX - d"
        "d + 1 + x \<le> CLONE_DEPTH_MAX \<longleftrightarrow> Suc x \<le> CLONE_DEPTH_MAX - d" for x by auto
      with True iff show ?thesis by (simp only: simp_thms)
    next
      case False
      then show ?thesis by (simp only:) simp
    qed
  qed
  have val: "clone_value v (d + 1) = (if d + 1 + vdepth w \<le> CLONE_DEPTH_MAX then v else None)" if "v = Some w" for w
    using XNode.IH(2) [of w "d + 1"] XNode.prems that by simp
  show ?case
    unfolding depth using annots tags val
    by (cases v) (auto simp: clone_node.simps [of _ d])
qed (simp_all add: clone_value.simps)

text \<open>
  The deep copy of a parsed document is the document itself, tags and annotations included,
  when its nesting fits the limit of 64 levels counted from the given depth; otherwise the copy is
  refused, and never a truncated document.
\<close>

theorem clone_node_exact:
  assumes "doc_ok n"
  shows "clone_node (Some n) d = (if d + ndepth n \<le> CLONE_DEPTH_MAX then Some n else None)"
  by (rule clone_exact(2) [OF assms])

theorem clone_node_exact_witness:
  "let n = XNode [Some ''t''] [] (Some (XArray [Some (XNode [] [] (Some (XInt 3)))])) in
   clone_node (Some n) 0 = Some n \<and> clone_node (Some n) 62 = None"
proof -
  let ?n = "XNode [Some ''t''] [] (Some (XArray [Some (XNode [] [] (Some (XInt 3)))]))"
  have "doc_ok ?n" by (simp add: all_some_def int64_ok_def INT64_MIN_def INT64_MAX_def)
  from clone_node_exact [OF this, of 0] clone_node_exact [OF this, of 62] show ?thesis
    by (simp add: CLONE_DEPTH_MAX_def max0_def opt_nat_def)
qed

end
