(* ===== verification/As_Types.thy ===== *)
theory As_Types
  imports As_Xcdn As_Duration As_Time As_Uuid "HOL-Library.Log_Nat"
begin

text \<open>
  \<^verbatim>\<open>src/types.c\<close>, checking: the type model, the comparisons of integers with double bounds, default
  injection, the strict recursive check of a value against a type and the validation of a command's
  arguments. Errors are codes; the message texts are not modelled.
\<close>

section \<open>Types\<close>

datatype astools_tkind =
    AT_STRING | AT_INTEGER | AT_NUMBER | AT_BOOLEAN | AT_BYTES | AT_DATETIME | AT_DURATION | AT_UUID
  | AT_PATH | AT_ENUM | AT_ARRAY | AT_MAP | AT_OBJECT

definition ASTOOLS_ACCESS_READ :: nat where "ASTOOLS_ACCESS_READ = 1"
definition ASTOOLS_ACCESS_WRITE :: nat where "ASTOOLS_ACCESS_WRITE = 2"
definition ASTOOLS_ACCESS_RW :: nat where "ASTOOLS_ACCESS_RW = 3"

text \<open>
  The flat fields of \<open>struct astools_type\<close>; a length of -1 is unset. The stored bounds are finite
  doubles, that is rationals.
\<close>

record tscalars =
  tkind :: astools_tkind
  tmin_len :: int
  tmax_len :: int
  thas_min :: bool
  thas_max :: bool
  tmin_num :: rat
  tmax_num :: rat
  taccess :: nat
  tmust_exist :: bool
  tvalues :: "string list"
  tmin_items :: int
  tmax_items :: int
  tmax_entries :: int

datatype astools_type =
    AType (tsc: tscalars) (titem: "astools_type option") (tvalue: "astools_type option")
      (tfields: "astools_param list")
and astools_param =
    AParam (pname: "string option") (ptype: "astools_type option") (prequired: bool)
      (pdflt: "xnode option") (pdescription: "string option")

text \<open>A fresh type of a kind: nothing constrained, paths read only.\<close>

definition type_new :: "astools_tkind \<Rightarrow> tscalars" where
  "type_new k = \<lparr>tkind = k, tmin_len = - 1, tmax_len = - 1, thas_min = False, thas_max = False,
     tmin_num = 0, tmax_num = 0, taccess = ASTOOLS_ACCESS_READ, tmust_exist = False, tvalues = [],
     tmin_items = - 1, tmax_items = - 1, tmax_entries = - 1\<rparr>"

section \<open>Integers against double bounds\<close>

definition TWO_POW_63 :: rat where
  "TWO_POW_63 = 9223372036854775808"

definition int_ge :: "int \<Rightarrow> rat \<Rightarrow> bool" where
  "int_ge i bound =
     (if bound \<ge> TWO_POW_63 then False
      else if bound < - TWO_POW_63 then True
      else let c = \<lceil>bound\<rceil> in if of_int c \<ge> TWO_POW_63 then False else i \<ge> c)"

definition int_le :: "int \<Rightarrow> rat \<Rightarrow> bool" where
  "int_le i bound =
     (if bound \<ge> TWO_POW_63 then True
      else if bound < - TWO_POW_63 then False
      else i \<le> \<lfloor>bound\<rfloor>)"

text \<open>
  C's conversion \<open>(double)i\<close>: to the nearest 53-bit value, ties to even (the IEEE default).
\<close>

definition dbl_of_int :: "int \<Rightarrow> rat" where
  "dbl_of_int i =
     (let a = nat \<bar>i\<bar>; e = floorlog 2 a - 53; q = a div 2 ^ e; r = a mod 2 ^ e;
          q' = (if 2 * r > 2 ^ e \<or> (2 * r = 2 ^ e \<and> odd q) then q + 1 else q)
      in of_int (sgn i) * of_nat (q' * 2 ^ e))"

section \<open>Duplicate keys and default injection\<close>

text \<open>
  \<open>table_ok\<close> is what \<open>calloc\<close> does in the duplicate search. An exhausted search (never, by
  \<open>dup_str_decides\<close>) would hang; it is given an error here.
\<close>

definition check_obj_dups :: "bool \<Rightarrow> xentries \<Rightarrow> astools_err" where
  "check_obj_dups table_ok es =
     (if length es < 2 then ASTOOLS_OK
      else case dup_str table_ok (map fst es) of
        None \<Rightarrow> ASTOOLS_ERR_NOMEM
      | Some None \<Rightarrow> ASTOOLS_OK
      | Some (Some _) \<Rightarrow> ASTOOLS_ERR_INVALID)"

definition obj_inject_default :: "xentries \<Rightarrow> string \<Rightarrow> xnode \<Rightarrow> xentries res" where
  "obj_inject_default es key dflt =
     (case clone_node (Some dflt) 0 of
        None \<Rightarrow> Inl ASTOOLS_ERR_NOMEM
      | Some copy \<Rightarrow> Inr (es @ [(Some key, Some copy)]))"

section \<open>Strict validation\<close>

text \<open>The kinds without inner types.\<close>

definition len_ok :: "int \<Rightarrow> int \<Rightarrow> int \<Rightarrow> bool" where
  "len_ok mn mx len \<longleftrightarrow> \<not> (mn \<ge> 0 \<and> len < mn) \<and> \<not> (mx \<ge> 0 \<and> len > mx)"

definition ok_if :: "bool \<Rightarrow> astools_err" where
  "ok_if b = (if b then ASTOOLS_OK else ASTOOLS_ERR_INVALID)"

definition check_number :: "tscalars \<Rightarrow> dbl \<Rightarrow> bool" where
  "check_number t d =
     (case d of NonFin \<Rightarrow> False
      | Fin x \<Rightarrow> \<not> (thas_min t \<and> x < tmin_num t) \<and> \<not> (thas_max t \<and> x > tmax_num t))"

definition check_scalar :: "tscalars \<Rightarrow> xvalue \<Rightarrow> astools_err" where
  "check_scalar t val =
     (case tkind t of
        AT_STRING \<Rightarrow> (case val of
            XString (Some s) \<Rightarrow> ok_if (len_ok (tmin_len t) (tmax_len t) (int (length s)))
          | _ \<Rightarrow> ASTOOLS_ERR_INVALID)
      | AT_INTEGER \<Rightarrow> (case val of
            XInt iv \<Rightarrow> if thas_min t \<and> \<not> int_ge iv (tmin_num t) then ASTOOLS_ERR_INVALID
                        else if thas_max t \<and> \<not> int_le iv (tmax_num t) then ASTOOLS_ERR_INVALID
                        else ASTOOLS_OK
          | _ \<Rightarrow> ASTOOLS_ERR_INVALID)
      | AT_NUMBER \<Rightarrow> (case val of
            XInt iv \<Rightarrow> ok_if (check_number t (Fin (dbl_of_int iv)))
          | XFloat d \<Rightarrow> ok_if (check_number t d)
          | _ \<Rightarrow> ASTOOLS_ERR_INVALID)
      | AT_BOOLEAN \<Rightarrow> (case val of XBool _ \<Rightarrow> ASTOOLS_OK | _ \<Rightarrow> ASTOOLS_ERR_INVALID)
      | AT_BYTES \<Rightarrow> (case val of
            XBytes b \<Rightarrow> ok_if (len_ok (tmin_len t) (tmax_len t) (int (length b)))
          | _ \<Rightarrow> ASTOOLS_ERR_INVALID)
      | AT_DATETIME \<Rightarrow> (case val of
            XDatetime (Some s) \<Rightarrow> ok_if (astools_time_parse_rfc3339 (Some s) \<noteq> None)
          | _ \<Rightarrow> ASTOOLS_ERR_INVALID)
      | AT_DURATION \<Rightarrow> (case val of
            XDuration (Some s) \<Rightarrow> ok_if (astools_duration_parse_ms (Some s) \<noteq> None)
          | _ \<Rightarrow> ASTOOLS_ERR_INVALID)
      | AT_UUID \<Rightarrow> (case val of
            XUuid (Some s) \<Rightarrow> ok_if (astools_uuid_valid (Some s))
          | _ \<Rightarrow> ASTOOLS_ERR_INVALID)
      | AT_PATH \<Rightarrow> (case val of
            XString (Some s) \<Rightarrow> ok_if (s \<noteq> [])
          | _ \<Rightarrow> ASTOOLS_ERR_INVALID)
      | AT_ENUM \<Rightarrow> (case val of
            XString (Some s) \<Rightarrow> ok_if (s \<in> set (tvalues t))
          | _ \<Rightarrow> ASTOOLS_ERR_INVALID)
      | _ \<Rightarrow> ASTOOLS_ERR_INVALID)"

text \<open>
  The loops over items and entries stop at the first error; what was checked before keeps the
  defaults injected into it. A value is checked in place: the result is the code and the value.
\<close>

fun check_items :: "(xnode option \<Rightarrow> astools_err \<times> xnode option) \<Rightarrow> xnode option list
    \<Rightarrow> astools_err \<times> xnode option list" where
  "check_items f [] = (ASTOOLS_OK, [])"
| "check_items f (x # xs) =
     (case f x of (e, x') \<Rightarrow>
        if e \<noteq> ASTOOLS_OK then (e, x' # xs)
        else case check_items f xs of (e', xs') \<Rightarrow> (e', x' # xs'))"

fun check_map_entries :: "(xnode option \<Rightarrow> astools_err \<times> xnode option) \<Rightarrow> xentries
    \<Rightarrow> astools_err \<times> xentries" where
  "check_map_entries f [] = (ASTOOLS_OK, [])"
| "check_map_entries f ((k, x) # xs) =
     (if k = None then (ASTOOLS_ERR_INVALID, (k, x) # xs)
      else case f x of (e, x') \<Rightarrow>
        if e \<noteq> ASTOOLS_OK then (e, (k, x') # xs)
        else case check_map_entries f xs of (e', xs') \<Rightarrow> (e', (k, x') # xs'))"

text \<open>The closed field set: every key is the name of a field.\<close>

definition keys_known :: "astools_param list \<Rightarrow> xentries \<Rightarrow> bool" where
  "keys_known flds es \<longleftrightarrow> list_all (\<lambda>e. fst e \<noteq> None \<and> fst e \<in> set (map pname flds)) es"

function astools_type_check :: "bool \<Rightarrow> xlookup \<Rightarrow> astools_type \<Rightarrow> xnode option
      \<Rightarrow> astools_err \<times> xnode option"
  and check_fields :: "bool \<Rightarrow> xlookup \<Rightarrow> astools_param list \<Rightarrow> xentries \<Rightarrow> astools_err \<times> xentries" where
  "astools_type_check tb oget (AType t item vtype flds) v =
     (case v of
        None \<Rightarrow> (ASTOOLS_ERR_INVALID, v)
      | Some (XNode tags annots None) \<Rightarrow> (ASTOOLS_ERR_INVALID, v)
      | Some (XNode tags annots (Some val)) \<Rightarrow>
         (case tkind t of
            AT_ARRAY \<Rightarrow>
             (case (val, item) of
                (XArray items, Some it) \<Rightarrow>
                  if \<not> len_ok (tmin_items t) (tmax_items t) (int (length items)) then (ASTOOLS_ERR_INVALID, v)
                  else (case check_items (\<lambda>x. astools_type_check tb oget it x) items of
                          (e, items') \<Rightarrow> (e, Some (XNode tags annots (Some (XArray items')))))
              | _ \<Rightarrow> (ASTOOLS_ERR_INVALID, v))
          | AT_MAP \<Rightarrow>
             (case (val, vtype) of
                (XObject es, Some vt) \<Rightarrow>
                  if tmax_entries t \<ge> 0 \<and> int (length es) > tmax_entries t then (ASTOOLS_ERR_INVALID, v)
                  else if check_obj_dups tb es \<noteq> ASTOOLS_OK then (check_obj_dups tb es, v)
                  else (case check_map_entries (\<lambda>x. astools_type_check tb oget vt x) es of
                          (e, es') \<Rightarrow> (e, Some (XNode tags annots (Some (XObject es')))))
              | _ \<Rightarrow> (ASTOOLS_ERR_INVALID, v))
          | AT_OBJECT \<Rightarrow>
             (case val of
                XObject es \<Rightarrow>
                  if check_obj_dups tb es \<noteq> ASTOOLS_OK then (check_obj_dups tb es, v)
                  else if \<not> keys_known flds es then (ASTOOLS_ERR_INVALID, v)
                  else (case check_fields tb oget flds es of
                          (e, es') \<Rightarrow> (e, Some (XNode tags annots (Some (XObject es')))))
              | _ \<Rightarrow> (ASTOOLS_ERR_INVALID, v))
          | _ \<Rightarrow> (check_scalar t val, v)))"
| "check_fields tb oget [] es = (ASTOOLS_OK, es)"
| "check_fields tb oget (AParam nm ty req dflt descr # ps) es =
     (case (nm, ty) of
        (Some name, Some t) \<Rightarrow>
         (case xget oget es name of
            Some (i, n) \<Rightarrow>
             (case astools_type_check tb oget t (Some n) of
                (e, n') \<Rightarrow>
                  let es' = es[i := (fst (es ! i), n')]
                  in if e \<noteq> ASTOOLS_OK then (e, es') else check_fields tb oget ps es')
          | None \<Rightarrow>
             if req then (ASTOOLS_ERR_INVALID, es)
             else (case dflt of
                None \<Rightarrow> check_fields tb oget ps es
              | Some d \<Rightarrow>
                 (case obj_inject_default es name d of
                    Inl e \<Rightarrow> (e, es)
                  | Inr es' \<Rightarrow> check_fields tb oget ps es')))
      | _ \<Rightarrow> (ASTOOLS_ERR_INVALID, es))"
  by pat_completeness auto
termination
  by (relation "measure (\<lambda>x. case x of Inl (_, _, t, _) \<Rightarrow> size t | Inr (_, _, ps, _) \<Rightarrow> size_list size ps)") auto

text \<open>\<open>args\<close> of a command with the given parameters; \<open>None\<close> in place of the array is a NULL schema.\<close>

definition astools_args_validate :: "bool \<Rightarrow> xlookup \<Rightarrow> astools_param list \<Rightarrow> xnode option
    \<Rightarrow> astools_err \<times> xnode option" where
  "astools_args_validate tb oget params args =
     (case args of
        Some (XNode tags annots (Some (XObject es))) \<Rightarrow>
          if check_obj_dups tb es \<noteq> ASTOOLS_OK then (check_obj_dups tb es, args)
          else if \<not> keys_known params es then (ASTOOLS_ERR_INVALID, args)
          else (case check_fields tb oget params es of
                  (e, es') \<Rightarrow> (e, Some (XNode tags annots (Some (XObject es')))))
      | _ \<Rightarrow> (ASTOOLS_ERR_INVALID, args))"

end
