(* ===== verification/As_Check.thy ===== *)
theory As_Check
  imports As_Types
begin

text \<open>
  What the strict check of \<^verbatim>\<open>src/types.c\<close> promises, stated without its loops: the relation \<open>admits\<close>
  between a value and its completion by defaults, and the proofs that the checker computes it, that
  completed values are fixed points, and that argument validation yields a complete argument object.
\<close>

section \<open>Integer bounds\<close>

lemma int_ge_iff:
  assumes "int64_ok i"
  shows "int_ge i b \<longleftrightarrow> b \<le> of_int i"
proof -
  have i: "(of_int i :: rat) < TWO_POW_63" "- TWO_POW_63 \<le> (of_int i :: rat)"
    using assms by (simp_all add: TWO_POW_63_def int64_ok_def INT64_MAX_def INT64_MIN_def)
  have c: "\<lceil>b\<rceil> \<le> i \<longleftrightarrow> b \<le> of_int i" by (rule ceiling_le_iff)
  have "\<not> \<lceil>b\<rceil> \<le> i" if big: "TWO_POW_63 \<le> (of_int \<lceil>b\<rceil> :: rat)"
  proof
    assume "\<lceil>b\<rceil> \<le> i"
    then have "(of_int \<lceil>b\<rceil> :: rat) \<le> of_int i" by simp
    with big i(1) show False by linarith
  qed
  then show ?thesis unfolding int_ge_def Let_def using i c by auto
qed

lemma int_le_iff:
  assumes "int64_ok i"
  shows "int_le i b \<longleftrightarrow> of_int i \<le> b"
proof -
  have i: "(of_int i :: rat) < TWO_POW_63" "- TWO_POW_63 \<le> (of_int i :: rat)"
    using assms by (simp_all add: TWO_POW_63_def int64_ok_def INT64_MAX_def INT64_MIN_def)
  have "i \<le> \<lfloor>b\<rfloor> \<longleftrightarrow> of_int i \<le> b" by (rule le_floor_iff)
  then show ?thesis unfolding int_le_def using i by auto
qed

section \<open>The specification\<close>

definition in_len :: "int \<Rightarrow> int \<Rightarrow> nat \<Rightarrow> bool" where
  "in_len lo hi n \<longleftrightarrow> (lo < 0 \<or> lo \<le> int n) \<and> (hi < 0 \<or> int n \<le> hi)"

definition in_bounds :: "tscalars \<Rightarrow> rat \<Rightarrow> bool" where
  "in_bounds t x \<longleftrightarrow> (thas_min t \<longrightarrow> tmin_num t \<le> x) \<and> (thas_max t \<longrightarrow> x \<le> tmax_num t)"

text \<open>The values of the scalar kinds.\<close>

definition scalar_ok :: "tscalars \<Rightarrow> xvalue \<Rightarrow> bool" where
  "scalar_ok t val \<longleftrightarrow>
     (case tkind t of
        AT_STRING \<Rightarrow> \<exists>s. val = XString (Some s) \<and> in_len (tmin_len t) (tmax_len t) (length s)
      | AT_INTEGER \<Rightarrow> \<exists>i. val = XInt i \<and> in_bounds t (of_int i)
      | AT_NUMBER \<Rightarrow> \<exists>x. (val = XFloat (Fin x) \<or> (\<exists>i. val = XInt i \<and> x = dbl_of_int i)) \<and> in_bounds t x
      | AT_BOOLEAN \<Rightarrow> \<exists>b. val = XBool b
      | AT_BYTES \<Rightarrow> \<exists>b. val = XBytes b \<and> in_len (tmin_len t) (tmax_len t) (length b)
      | AT_DATETIME \<Rightarrow> \<exists>s. val = XDatetime (Some s) \<and> astools_time_parse_rfc3339 (Some s) \<noteq> None
      | AT_DURATION \<Rightarrow> \<exists>s. val = XDuration (Some s) \<and> astools_duration_parse_ms (Some s) \<noteq> None
      | AT_UUID \<Rightarrow> \<exists>s. val = XUuid (Some s) \<and> astools_uuid_valid (Some s)
      | AT_PATH \<Rightarrow> \<exists>s. val = XString (Some s) \<and> s \<noteq> []
      | AT_ENUM \<Rightarrow> \<exists>s. val = XString (Some s) \<and> s \<in> set (tvalues t)
      | _ \<Rightarrow> False)"

lemma check_scalar_iff:
  assumes "doc_ok_v val"
  shows "check_scalar t val = ASTOOLS_OK \<longleftrightarrow> scalar_ok t val"
proof -
  have n: "check_number t (Fin x) \<longleftrightarrow> in_bounds t x" for x
    by (auto simp: check_number_def in_bounds_def)
  have l: "len_ok lo hi (int k) \<longleftrightarrow> in_len lo hi k" for lo hi k
    by (auto simp: len_ok_def in_len_def)
  show ?thesis
    using assms
    by (cases "tkind t"; cases val)
       (auto simp: check_scalar_def scalar_ok_def n l ok_if_def in_bounds_def int_ge_iff int_le_iff check_number_def
         split: option.splits dbl.splits if_splits)
qed

text \<open>The keys a completion adds: the declared defaults of the absent fields, in declaration order.\<close>

definition missing :: "astools_param list \<Rightarrow> string option list \<Rightarrow> string option list" where
  "missing ps keys = map pname (filter (\<lambda>p. pname p \<notin> set keys \<and> pdflt p \<noteq> None) ps)"

definition items_of :: "xvalue \<Rightarrow> xnode option list option" where
  "items_of val = (case val of XArray xs \<Rightarrow> Some xs | _ \<Rightarrow> None)"

definition entries_of :: "xvalue \<Rightarrow> xentries option" where
  "entries_of val = (case val of XObject es \<Rightarrow> Some es | _ \<Rightarrow> None)"

text \<open>
  \<open>admits ty v v'\<close>: \<open>v\<close> is a value of the type, and \<open>v'\<close> is \<open>v\<close> with every absent optional field
  that has a default added at the end of its object. Nothing else differs.
\<close>

fun admits :: "astools_type \<Rightarrow> xnode option \<Rightarrow> xnode option \<Rightarrow> bool"
  and admits_fields :: "astools_param list \<Rightarrow> xentries \<Rightarrow> xentries \<Rightarrow> bool" where
  "admits (AType t item vtype flds) v v' \<longleftrightarrow>
     (case v of Some (XNode tags annots (Some val)) \<Rightarrow>
       (case v' of Some (XNode tags' annots' (Some val')) \<Rightarrow>
          tags' = tags \<and> annots' = annots \<and>
          (if tkind t = AT_ARRAY then
             (case items_of val of None \<Rightarrow> False | Some xs \<Rightarrow>
              case items_of val' of None \<Rightarrow> False | Some xs' \<Rightarrow>
              case item of None \<Rightarrow> False | Some it \<Rightarrow>
                in_len (tmin_items t) (tmax_items t) (length xs) \<and> list_all2 (\<lambda>x x'. admits it x x') xs xs')
           else if tkind t = AT_MAP then
             (case entries_of val of None \<Rightarrow> False | Some es \<Rightarrow>
              case entries_of val' of None \<Rightarrow> False | Some es' \<Rightarrow>
              case vtype of None \<Rightarrow> False | Some vt \<Rightarrow>
                in_len (- 1) (tmax_entries t) (length es) \<and> distinct (map fst es) \<and>
                map fst es' = map fst es \<and>
                list_all2 (\<lambda>x x'. admits vt x x') (map snd es) (map snd es'))
           else if tkind t = AT_OBJECT then
             (case entries_of val of None \<Rightarrow> False | Some es \<Rightarrow>
              case entries_of val' of None \<Rightarrow> False | Some es' \<Rightarrow>
                distinct (map fst es) \<and> set (map fst es) \<subseteq> set (map pname flds) \<and>
                map fst es' = map fst es @ missing flds (map fst es) \<and> admits_fields flds es es')
           else val' = val \<and> scalar_ok t val)
        | _ \<Rightarrow> False)
      | _ \<Rightarrow> False)"
| "admits_fields [] es es' \<longleftrightarrow> True"
| "admits_fields (AParam nm ty req dflt descr # ps) es es' \<longleftrightarrow>
     (case ty of None \<Rightarrow> False | Some t \<Rightarrow>
      case map_of es nm of
        Some x \<Rightarrow> (case map_of es' nm of None \<Rightarrow> False | Some x' \<Rightarrow> admits t x x')
      | None \<Rightarrow> \<not> req \<and>
          (case dflt of None \<Rightarrow> True
           | Some d \<Rightarrow> ndepth d \<le> CLONE_DEPTH_MAX \<and> map_of es' nm = Some (Some d))) \<and>
     admits_fields ps es es'"

text \<open>
  A well-formed type: what the parser guarantees and the checker relies on. Field names are distinct,
  containers have their inner types, and every stored default is a canonical value of its type.
\<close>

definition wf_scalars :: "tscalars \<Rightarrow> bool" where
  "wf_scalars t \<longleftrightarrow>
     (0 \<le> tmin_len t \<and> 0 \<le> tmax_len t \<longrightarrow> tmin_len t \<le> tmax_len t) \<and>
     (thas_min t \<and> thas_max t \<longrightarrow> tmin_num t \<le> tmax_num t) \<and>
     (0 \<le> tmin_items t \<and> 0 \<le> tmax_items t \<longrightarrow> tmin_items t \<le> tmax_items t) \<and>
     taccess t \<in> {ASTOOLS_ACCESS_READ, ASTOOLS_ACCESS_WRITE, ASTOOLS_ACCESS_RW} \<and>
     (tkind t = AT_ENUM \<longrightarrow> tvalues t \<noteq> []) \<and> [] \<notin> set (tvalues t)"

fun wf_type :: "astools_type \<Rightarrow> bool" and wf_params :: "astools_param list \<Rightarrow> bool" where
  "wf_type (AType t item vtype flds) \<longleftrightarrow>
     wf_scalars t \<and>
     (case item of None \<Rightarrow> tkind t \<noteq> AT_ARRAY | Some it \<Rightarrow> wf_type it) \<and>
     (case vtype of None \<Rightarrow> tkind t \<noteq> AT_MAP | Some vt \<Rightarrow> wf_type vt) \<and>
     distinct (map pname flds) \<and> wf_params flds"
| "wf_params [] \<longleftrightarrow> True"
| "wf_params (AParam nm ty req dflt descr # ps) \<longleftrightarrow>
     nm \<noteq> None \<and>
     (case ty of None \<Rightarrow> False | Some t \<Rightarrow>
        wf_type t \<and>
        (case dflt of None \<Rightarrow> True | Some d \<Rightarrow> \<not> req \<and> doc_ok d \<and> admits t (Some d) (Some d))) \<and>
     wf_params ps"

section \<open>The checker computes the specification\<close>

lemma check_items_iff:
  assumes "\<And>x y. x \<in> set xs \<Longrightarrow> f x = (ASTOOLS_OK, y) \<longleftrightarrow> R x y"
  shows "check_items f xs = (ASTOOLS_OK, ys) \<longleftrightarrow> list_all2 R xs ys"
  using assms
proof (induction xs arbitrary: ys)
  case Nil
  then show ?case by auto
next
  case (Cons x xs)
  have IH: "check_items f xs = (ASTOOLS_OK, zs) \<longleftrightarrow> list_all2 R xs zs" for zs
    by (rule Cons.IH) (simp add: Cons.prems)
  have hd: "f x = (ASTOOLS_OK, y) \<longleftrightarrow> R x y" for y by (simp add: Cons.prems)
  obtain e y where fx: "f x = (e, y)" by fastforce
  obtain e' zs where rest: "check_items f xs = (e', zs)" by fastforce
  show ?case
    using IH [of "tl ys"] hd [of "hd ys"] IH [of zs] hd [of y] fx rest
    by (cases ys) auto
qed

lemma check_map_entries_iff:
  assumes "\<And>k x y. (k, x) \<in> set es \<Longrightarrow> f x = (ASTOOLS_OK, y) \<longleftrightarrow> R x y"
    and "\<And>k x. (k, x) \<in> set es \<Longrightarrow> k \<noteq> None"
  shows "check_map_entries f es = (ASTOOLS_OK, es') \<longleftrightarrow>
    map fst es' = map fst es \<and> list_all2 R (map snd es) (map snd es')"
  using assms
proof (induction es arbitrary: es')
  case Nil
  then show ?case by auto
next
  case (Cons a es)
  obtain k x where a: "a = (k, x)" by fastforce
  have IH: "check_map_entries f es = (ASTOOLS_OK, zs) \<longleftrightarrow>
      map fst zs = map fst es \<and> list_all2 R (map snd es) (map snd zs)" for zs
    by (rule Cons.IH) (meson Cons.prems list.set_intros(2))+
  have k: "k \<noteq> None" using Cons.prems(2) [of k x] a by simp
  have hd: "f x = (ASTOOLS_OK, y) \<longleftrightarrow> R x y" for y using Cons.prems(1) [of k x y] a by simp
  have step: "check_map_entries f ((k, x) # es) = (ASTOOLS_OK, es') \<longleftrightarrow>
      (\<exists>y zs. f x = (ASTOOLS_OK, y) \<and> check_map_entries f es = (ASTOOLS_OK, zs) \<and> es' = (k, y) # zs)"
    using k by (auto split: prod.splits if_splits)
  show ?case
    unfolding a step hd IH by (cases es') (auto simp: prod_eq_iff)
qed

text \<open>Lookups, as a map: with distinct keys and no NULL node the lookup is \<open>map_of\<close>.\<close>

lemma xget_map_of:
  assumes "lookup_ok oget" "distinct (map fst es)" "map_of es (Some k) \<noteq> Some None"
  shows "case map_of es (Some k) of
      None \<Rightarrow> xget oget es k = None
    | Some x \<Rightarrow> \<exists>i n. x = Some n \<and> xget oget es k = Some (i, n) \<and> i < length es \<and> es ! i = (Some k, Some n)"
proof (cases "map_of es (Some k)")
  case None
  have "xget oget es k = None"
  proof (cases "xget oget es k")
    case (Some a)
    obtain i n where a: "a = (i, n)" by fastforce
    from xget_Some [OF assms(1) Some [unfolded a]] have "(Some k, Some n) \<in> set es"
      by (metis nth_mem)
    then have "Some k \<in> fst ` set es" by force
    with None show ?thesis by (simp add: map_of_eq_None_iff)
  qed simp
  with None show ?thesis by simp
next
  case (Some x)
  with assms(3) obtain n where x: "x = Some n" by auto
  from map_of_SomeD [OF Some] obtain i where i: "i < length es" "es ! i = (Some k, Some n)"
    unfolding x in_set_conv_nth by blast
  from xget_distinct [OF assms(1,2) i] i show ?thesis using Some x by simp
qed

lemma check_obj_dups_iff:
  assumes "\<forall>e \<in> set es. fst e \<noteq> None"
  shows "check_obj_dups tb es = ASTOOLS_OK \<longleftrightarrow> distinct (map fst es)"
proof (cases "length es < 2")
  case True
  then have "distinct (map fst es)" by (cases es) auto
  with True show ?thesis by (simp add: check_obj_dups_def)
next
  case False
  obtain r where r: "dup_str tb (map fst es) = Some r" "r = None \<longleftrightarrow> nonnull_distinct (map fst es)"
    using dup_str_total [of tb "map fst es"] by blast
  have "nonnull_distinct (map fst es) \<longleftrightarrow> distinct (map fst es)"
    by (rule nonnull_distinct_all) (use assms in force)
  with False r show ?thesis by (cases r) (simp_all add: check_obj_dups_def)
qed

text \<open>\<open>admits_fields\<close> depends on the entries of the listed names only.\<close>

lemma admits_fields_cong:
  assumes "\<And>p. p \<in> set ps \<Longrightarrow> map_of es (pname p) = map_of fs (pname p)"
  shows "admits_fields ps es es' \<longleftrightarrow> admits_fields ps fs es'"
  using assms
proof (induction ps)
  case (Cons p ps)
  obtain nm ty req dflt descr where p: "p = AParam nm ty req dflt descr" by (cases p)
  have "map_of es nm = map_of fs nm" using Cons.prems [of p] p by simp
  moreover have "admits_fields ps es es' \<longleftrightarrow> admits_fields ps fs es'"
    by (rule Cons.IH) (simp add: Cons.prems)
  ultimately show ?case by (cases ty) (simp_all add: p)
qed simp

lemma missing_cong:
  assumes "\<And>p. p \<in> set ps \<Longrightarrow> pname p \<in> set ks \<longleftrightarrow> pname p \<in> set ls"
  shows "missing ps ks = missing ps ls"
proof -
  have "filter (\<lambda>p. pname p \<notin> set ks \<and> pdflt p \<noteq> None) ps = filter (\<lambda>p. pname p \<notin> set ls \<and> pdflt p \<noteq> None) ps"
    using assms by (intro filter_cong) auto
  then show ?thesis by (simp add: missing_def)
qed

lemma missing_Cons:
  "missing (AParam nm ty req dflt descr # ps) ks =
   (if nm \<notin> set ks \<and> dflt \<noteq> None then [nm] else []) @ missing ps ks"
  by (simp add: missing_def)

text \<open>Writing an entry of a list with distinct keys is updating the map.\<close>

lemma map_of_nth_update:
  assumes "distinct (map fst es)" "i < length es" "fst (es ! i) = k"
  shows "map_of (es[i := (k, y)]) = (map_of es)(k \<mapsto> y)"
  using assms
proof (induction es arbitrary: i)
  case (Cons e es)
  show ?case
  proof (cases i)
    case 0
    with Cons.prems show ?thesis by (auto simp: fun_upd_def fun_eq_iff)
  next
    case (Suc j)
    with Cons.prems have j: "j < length es" "fst (es ! j) = k" by simp_all
    then have "k \<in> set (map fst es)" by (metis length_map nth_map nth_mem)
    then have "fst e \<noteq> k" using Cons.prems(1) by auto
    moreover have "map_of (es[j := (k, y)]) = (map_of es)(k \<mapsto> y)"
      by (rule Cons.IH [OF _ j]) (use Cons.prems(1) in simp)
    ultimately show ?thesis by (auto simp: Suc fun_eq_iff)
  qed
qed simp

lemma map_of_snoc:
  "k \<notin> set (map fst es) \<Longrightarrow> map_of (es @ [(k, y)]) = (map_of es)(k \<mapsto> y)"
  using map_of_eq_None_iff [of es k] by (auto simp: fun_eq_iff map_add_def split: option.splits)

lemma map_of_equal_lists:
  assumes "map fst xs = map fst ys" "distinct (map fst xs)" "\<forall>k \<in> set (map fst xs). map_of xs k = map_of ys k"
  shows "xs = ys"
proof (rule nth_equalityI)
  show len: "length xs = length ys" using assms(1) by (metis length_map)
  fix i assume i: "i < length xs"
  have k: "fst (xs ! i) = fst (ys ! i)" using assms(1) i len by (metis nth_map)
  have "fst (xs ! i) \<in> set (map fst xs)" using i by simp
  then have eq: "map_of xs (fst (xs ! i)) = map_of ys (fst (xs ! i))" using assms(3) by blast
  have "map_of xs (fst (xs ! i)) = Some (snd (xs ! i))"
    using assms(2) i by (intro map_of_is_SomeI) simp_all
  moreover have "map_of ys (fst (ys ! i)) = Some (snd (ys ! i))"
    using assms(1,2) i len by (intro map_of_is_SomeI) simp_all
  ultimately have "snd (xs ! i) = snd (ys ! i)" using eq k by simp
  with k show "xs ! i = ys ! i" by (simp add: prod_eq_iff)
qed

text \<open>The check of the fields, given that each field's own check meets its specification.\<close>

definition nodes_ok :: "xentries \<Rightarrow> bool" where
  "nodes_ok es \<longleftrightarrow> (\<forall>e \<in> set es. fst e \<noteq> None \<and> (\<exists>n. snd e = Some n \<and> doc_ok n))"

definition pending_ok :: "astools_param list \<Rightarrow> xentries \<Rightarrow> bool" where
  "pending_ok ps es \<longleftrightarrow> (\<forall>p \<in> set ps. \<forall>x. map_of es (pname p) = Some x \<longrightarrow> (\<exists>n. x = Some n \<and> doc_ok n))"

lemma nodes_pending: "nodes_ok es \<Longrightarrow> pending_ok ps es"
  by (auto simp: nodes_ok_def pending_ok_def dest!: map_of_SomeD)

definition fields_spec :: "astools_param list \<Rightarrow> xentries \<Rightarrow> xentries \<Rightarrow> bool" where
  "fields_spec ps es es' \<longleftrightarrow>
     map fst es' = map fst es @ missing ps (map fst es) \<and> admits_fields ps es es' \<and>
     (\<forall>k. k \<notin> set (map pname ps) \<longrightarrow> map_of es' k = map_of es k)"

text \<open>One field: writing an entry whose key no later field has moves through the specification.\<close>

lemma fields_spec_step:
  assumes "map_of es1 = (map_of es)(nm \<mapsto> y)" "nm \<notin> set (map pname ps)"
    and "map fst es1 = map fst es @ ks" "set ks \<subseteq> {nm}"
  shows "fields_spec ps es1 es' \<longleftrightarrow>
    map fst es' = map fst es @ ks @ missing ps (map fst es) \<and> admits_fields ps es es' \<and>
    map_of es' nm = Some y \<and> (\<forall>k. k \<notin> insert nm (set (map pname ps)) \<longrightarrow> map_of es' k = map_of es k)"
proof -
  have ne: "pname p \<noteq> nm" if "p \<in> set ps" for p using that assms(2) by auto
  have m: "missing ps (map fst es1) = missing ps (map fst es)"
    unfolding assms(3) by (rule missing_cong) (use ne assms(4) in auto)
  have f: "admits_fields ps es1 es' \<longleftrightarrow> admits_fields ps es es'"
    by (rule admits_fields_cong) (simp add: assms(1) ne)
  have k: "(\<forall>k. k \<notin> set (map pname ps) \<longrightarrow> map_of es' k = map_of es1 k) \<longleftrightarrow>
      map_of es' nm = Some y \<and> (\<forall>k. k \<notin> insert nm (set (map pname ps)) \<longrightarrow> map_of es' k = map_of es k)"
    using assms(1,2) by (auto split: if_splits)
  show ?thesis unfolding fields_spec_def m f k unfolding assms(3) by auto
qed

text \<open>The same, for a specification that ends at the type: the checker meets it.\<close>

lemma clone_default:
  "doc_ok d \<Longrightarrow> obj_inject_default es k d =
     (if ndepth d \<le> CLONE_DEPTH_MAX then Inr (es @ [(Some k, Some d)]) else Inl ASTOOLS_ERR_NOMEM)"
  by (simp add: obj_inject_default_def clone_exact)

lemma check_object_iff:
  assumes "nodes_ok es" "distinct (map pname flds)"
    and "distinct (map fst es) \<Longrightarrow> keys_known flds es \<Longrightarrow>
      check_fields tb oget flds es = (ASTOOLS_OK, es') \<longleftrightarrow> fields_spec flds es es'"
  shows "(check_obj_dups tb es = ASTOOLS_OK \<and> keys_known flds es \<and>
      check_fields tb oget flds es = (ASTOOLS_OK, es')) \<longleftrightarrow>
    distinct (map fst es) \<and> set (map fst es) \<subseteq> set (map pname flds) \<and>
      map fst es' = map fst es @ missing flds (map fst es) \<and> admits_fields flds es es'"
proof -
  have k: "\<forall>e \<in> set es. fst e \<noteq> None" using assms(1) by (auto simp: nodes_ok_def)
  have d: "check_obj_dups tb es = ASTOOLS_OK \<longleftrightarrow> distinct (map fst es)" by (rule check_obj_dups_iff [OF k])
  have kn: "keys_known flds es \<longleftrightarrow> set (map fst es) \<subseteq> set (map pname flds)"
    using k by (auto simp: keys_known_def list_all_iff)
  have rest: "map_of es' k = map_of es k"
    if "set (map fst es) \<subseteq> set (map pname flds)" "map fst es' = map fst es @ missing flds (map fst es)"
       "k \<notin> set (map pname flds)" for k
  proof -
    have "set (missing flds (map fst es)) \<subseteq> set (map pname flds)" by (auto simp: missing_def)
    then have "k \<notin> set (map fst es')" "k \<notin> set (map fst es)" using that by auto
    then have "map_of es' k = None" "map_of es k = None" by (simp_all add: map_of_eq_None_iff)
    then show ?thesis by simp
  qed
  show ?thesis
    unfolding d using assms(3) kn rest unfolding fields_spec_def by auto
qed

text \<open>Both sides, kind by kind.\<close>

lemma items_of_iff [simp]: "items_of val = Some xs \<longleftrightarrow> val = XArray xs"
  by (cases val) (simp_all add: items_of_def)

lemma entries_of_iff [simp]: "entries_of val = Some es \<longleftrightarrow> val = XObject es"
  by (cases val) (simp_all add: entries_of_def)

lemma of_simps [simp]: "items_of (XArray xs) = Some xs" "entries_of (XObject es) = Some es"
  by simp_all

lemma admits_node:
  "admits ty v v' \<Longrightarrow> \<exists>tags annots val. v = Some (XNode tags annots (Some val))"
  by (cases ty) (auto split: option.splits xnode.splits)

lemma admits_scalar:
  assumes "tkind t \<noteq> AT_ARRAY" "tkind t \<noteq> AT_MAP" "tkind t \<noteq> AT_OBJECT"
  shows "admits (AType t item vtype flds) (Some (XNode tags annots (Some val))) v' \<longleftrightarrow>
    v' = Some (XNode tags annots (Some val)) \<and> scalar_ok t val"
  by (simp only: admits.simps option.case xnode.case assms if_False)
     (auto split: option.splits xnode.splits)

lemma admits_array:
  assumes "tkind t = AT_ARRAY"
  shows "admits (AType t (Some it) vtype flds) (Some (XNode tags annots (Some val))) v' \<longleftrightarrow>
    (\<exists>xs xs'. val = XArray xs \<and> v' = Some (XNode tags annots (Some (XArray xs'))) \<and>
       in_len (tmin_items t) (tmax_items t) (length xs) \<and> list_all2 (admits it) xs xs')"
  by (simp only: admits.simps option.case xnode.case assms simp_thms if_True if_False astools_tkind.distinct)
     (auto split: option.splits xnode.splits)

lemma admits_map:
  assumes "tkind t = AT_MAP"
  shows "admits (AType t item (Some vt) flds) (Some (XNode tags annots (Some val))) v' \<longleftrightarrow>
    (\<exists>es es'. val = XObject es \<and> v' = Some (XNode tags annots (Some (XObject es'))) \<and>
       in_len (- 1) (tmax_entries t) (length es) \<and> distinct (map fst es) \<and>
       map fst es' = map fst es \<and> list_all2 (admits vt) (map snd es) (map snd es'))"
  by (simp only: admits.simps option.case xnode.case assms simp_thms if_True if_False astools_tkind.distinct)
     (auto split: option.splits xnode.splits)

lemma admits_object:
  assumes "tkind t = AT_OBJECT"
  shows "admits (AType t item vtype flds) (Some (XNode tags annots (Some val))) v' \<longleftrightarrow>
    (\<exists>es es'. val = XObject es \<and> v' = Some (XNode tags annots (Some (XObject es'))) \<and>
       distinct (map fst es) \<and> set (map fst es) \<subseteq> set (map pname flds) \<and>
       map fst es' = map fst es @ missing flds (map fst es) \<and> admits_fields flds es es')"
  by (simp only: admits.simps option.case xnode.case assms simp_thms if_True if_False astools_tkind.distinct)
     (auto split: option.splits xnode.splits)

lemmas admits_kinds = admits_scalar admits_array admits_map admits_object

lemma check_array:
  assumes "tkind t = AT_ARRAY"
  shows "astools_type_check tb oget (AType t (Some it) vtype flds) (Some (XNode tags annots (Some val))) = (ASTOOLS_OK, v') \<longleftrightarrow>
    (\<exists>xs xs'. val = XArray xs \<and> v' = Some (XNode tags annots (Some (XArray xs'))) \<and>
       len_ok (tmin_items t) (tmax_items t) (int (length xs)) \<and>
       check_items (\<lambda>x. astools_type_check tb oget it x) xs = (ASTOOLS_OK, xs'))"
  by (cases val) (auto simp: assms split: prod.splits)

lemma check_map:
  assumes "tkind t = AT_MAP"
  shows "astools_type_check tb oget (AType t item (Some vt) flds) (Some (XNode tags annots (Some val))) = (ASTOOLS_OK, v') \<longleftrightarrow>
    (\<exists>es es'. val = XObject es \<and> v' = Some (XNode tags annots (Some (XObject es'))) \<and>
       \<not> (tmax_entries t \<ge> 0 \<and> int (length es) > tmax_entries t) \<and> check_obj_dups tb es = ASTOOLS_OK \<and>
       check_map_entries (\<lambda>x. astools_type_check tb oget vt x) es = (ASTOOLS_OK, es'))"
  by (cases val) (auto simp: assms split: prod.splits)

lemma check_object:
  assumes "tkind t = AT_OBJECT"
  shows "astools_type_check tb oget (AType t item vtype flds) (Some (XNode tags annots (Some val))) = (ASTOOLS_OK, v') \<longleftrightarrow>
    (\<exists>es es'. val = XObject es \<and> v' = Some (XNode tags annots (Some (XObject es'))) \<and>
       check_obj_dups tb es = ASTOOLS_OK \<and> keys_known flds es \<and>
       check_fields tb oget flds es = (ASTOOLS_OK, es'))"
  by (cases val) (auto simp: assms split: prod.splits)

text \<open>One field of the specification: absent without a default, absent with one, present.\<close>

lemma fields_spec_absent:
  assumes "map_of es nm = None" "nm \<notin> set (map pname ps)" "req \<or> dflt = None"
  shows "fields_spec (AParam nm (Some t) req dflt descr # ps) es es' \<longleftrightarrow> \<not> req \<and> fields_spec ps es es'"
proof (cases req)
  case False
  have keys: "nm \<notin> set (map fst es)" using assms(1) by (simp add: map_of_eq_None_iff)
  have same: "map_of es' nm = map_of es nm" if "map fst es' = map fst es @ missing ps (map fst es)"
  proof -
    have "nm \<notin> set (missing ps (map fst es))" using assms(2) by (auto simp: missing_def)
    with that keys have "nm \<notin> set (map fst es')" by simp
    then have "map_of es' nm = None" by (simp add: map_of_eq_None_iff)
    with assms(1) show ?thesis by simp
  qed
  show ?thesis unfolding fields_spec_def using same False assms by (auto simp: missing_Cons) metis
qed (simp add: fields_spec_def assms(1))

lemma fields_spec_default:
  assumes "map_of es nm = None" "nm \<notin> set (map pname ps)" "ndepth d \<le> CLONE_DEPTH_MAX"
  shows "fields_spec (AParam nm (Some t) False (Some d) descr # ps) es es' \<longleftrightarrow>
    fields_spec ps (es @ [(nm, Some d)]) es'"
proof -
  have keys: "nm \<notin> set (map fst es)" using assms(1) by (simp add: map_of_eq_None_iff)
  have s: "fields_spec ps (es @ [(nm, Some d)]) es' \<longleftrightarrow>
      map fst es' = map fst es @ [nm] @ missing ps (map fst es) \<and>
      admits_fields ps es es' \<and> map_of es' nm = Some (Some d) \<and>
      (\<forall>k. k \<notin> insert nm (set (map pname ps)) \<longrightarrow> map_of es' k = map_of es k)"
    by (rule fields_spec_step [OF map_of_snoc [OF keys] assms(2)]) simp_all
  show ?thesis unfolding s unfolding fields_spec_def using assms keys by (auto simp: missing_Cons)
qed

lemma fields_spec_found:
  assumes "distinct (map fst es)" "i < length es" "es ! i = (nm, x)" "nm \<notin> set (map pname ps)"
    and "\<And>y. admits t x y \<longleftrightarrow> y = n'"
  shows "fields_spec (AParam nm (Some t) req dflt descr # ps) es es' \<longleftrightarrow>
    fields_spec ps (es[i := (nm, n')]) es'"
proof -
  have ks: "map fst (es[i := (nm, n')]) = map fst es"
    using assms(2,3) by (metis fst_conv length_map list_update_id map_update nth_map)
  have x: "map_of es nm = Some x"
    using map_of_is_SomeI [OF assms(1), of nm x] assms(2,3) nth_mem by metis
  have s: "fields_spec ps (es[i := (nm, n')]) es' \<longleftrightarrow>
      map fst es' = map fst es @ [] @ missing ps (map fst es) \<and>
      admits_fields ps es es' \<and> map_of es' nm = Some n' \<and>
      (\<forall>k. k \<notin> insert nm (set (map pname ps)) \<longrightarrow> map_of es' k = map_of es k)"
    by (rule fields_spec_step [OF map_of_nth_update [OF assms(1,2)] assms(4)])
       (use ks assms(3) in simp_all)
  have "nm \<in> set (map fst es)" using x map_of_eq_None_iff [of es nm] by auto
  then show ?thesis
    unfolding s unfolding fields_spec_def using x by (auto simp: missing_Cons assms(5) split: option.splits)
qed

text \<open>The kinds with inner types, given that the inner checks meet their specifications.\<close>

lemma array_spec:
  assumes "tkind t = AT_ARRAY" "doc_ok_v val"
    and "\<And>xs x y. val = XArray xs \<Longrightarrow> x \<in> set xs \<Longrightarrow> len_ok (tmin_items t) (tmax_items t) (int (length xs)) \<Longrightarrow>
      \<forall>n. x = Some n \<longrightarrow> doc_ok n \<Longrightarrow> astools_type_check tb oget it x = (ASTOOLS_OK, y) \<longleftrightarrow> admits it x y"
  shows "astools_type_check tb oget (AType t (Some it) vtype flds) (Some (XNode tags annots (Some val))) = (ASTOOLS_OK, v') \<longleftrightarrow>
    admits (AType t (Some it) vtype flds) (Some (XNode tags annots (Some val))) v'"
proof -
  have l: "len_ok (tmin_items t) (tmax_items t) (int n) \<longleftrightarrow> in_len (tmin_items t) (tmax_items t) n" for n
    by (auto simp: len_ok_def in_len_def)
  have "check_items (\<lambda>x. astools_type_check tb oget it x) xs = (ASTOOLS_OK, xs') \<longleftrightarrow> list_all2 (admits it) xs xs'"
    if xs: "val = XArray xs" "len_ok (tmin_items t) (tmax_items t) (int (length xs))" for xs xs'
  proof (rule check_items_iff)
    fix x y assume x: "x \<in> set xs"
    then have "\<forall>n. x = Some n \<longrightarrow> doc_ok n" using assms(2) by (auto simp: xs all_some_iff)
    from assms(3) [OF xs(1) x xs(2) this]
    show "astools_type_check tb oget it x = (ASTOOLS_OK, y) \<longleftrightarrow> admits it x y" .
  qed
  then show ?thesis unfolding check_array [OF assms(1)] admits_array [OF assms(1)] using l by auto
qed

lemma map_spec:
  assumes "tkind t = AT_MAP" "doc_ok_v val"
    and "\<And>es x y. val = XObject es \<Longrightarrow> x \<in> set (map snd es) \<Longrightarrow> \<not> (tmax_entries t \<ge> 0 \<and> int (length es) > tmax_entries t) \<Longrightarrow>
      check_obj_dups tb es = ASTOOLS_OK \<Longrightarrow> \<forall>n. x = Some n \<longrightarrow> doc_ok n \<Longrightarrow>
      astools_type_check tb oget vt x = (ASTOOLS_OK, y) \<longleftrightarrow> admits vt x y"
  shows "astools_type_check tb oget (AType t item (Some vt) flds) (Some (XNode tags annots (Some val))) = (ASTOOLS_OK, v') \<longleftrightarrow>
    admits (AType t item (Some vt) flds) (Some (XNode tags annots (Some val))) v'"
proof -
  have l: "\<not> (tmax_entries t \<ge> 0 \<and> int n > tmax_entries t) \<longleftrightarrow> in_len (- 1) (tmax_entries t) n" for n
    by (auto simp: in_len_def)
  have "check_obj_dups tb es = ASTOOLS_OK \<and>
      check_map_entries (\<lambda>x. astools_type_check tb oget vt x) es = (ASTOOLS_OK, es') \<longleftrightarrow>
      distinct (map fst es) \<and> map fst es' = map fst es \<and> list_all2 (admits vt) (map snd es) (map snd es')"
    if es: "val = XObject es" and len: "\<not> (tmax_entries t \<ge> 0 \<and> int (length es) > tmax_entries t)" for es es'
  proof -
    have ok: "nodes_ok es" using assms(2) by (auto simp: es nodes_ok_def list_all_iff)
    have d: "check_obj_dups tb es = ASTOOLS_OK \<longleftrightarrow> distinct (map fst es)"
      by (rule check_obj_dups_iff) (use ok in \<open>simp add: nodes_ok_def\<close>)
    have "check_map_entries (\<lambda>x. astools_type_check tb oget vt x) es = (ASTOOLS_OK, es') \<longleftrightarrow>
        map fst es' = map fst es \<and> list_all2 (admits vt) (map snd es) (map snd es')"
      if dup: "check_obj_dups tb es = ASTOOLS_OK"
    proof (rule check_map_entries_iff)
      fix k x y assume kx: "(k, x) \<in> set es"
      then have "\<forall>n. x = Some n \<longrightarrow> doc_ok n" "x \<in> set (map snd es)" using ok by (force simp: nodes_ok_def)+
      from assms(3) [OF es this(2) len dup this(1)]
      show "astools_type_check tb oget vt x = (ASTOOLS_OK, y) \<longleftrightarrow> admits vt x y" .
    qed (use ok in \<open>auto simp: nodes_ok_def\<close>)
    with d show ?thesis by blast
  qed
  then show ?thesis unfolding check_map [OF assms(1)] admits_map [OF assms(1)] using l by blast
qed

lemma object_spec:
  assumes "tkind t = AT_OBJECT" "doc_ok_v val" "distinct (map pname flds)"
    and "\<And>es es'. val = XObject es \<Longrightarrow> distinct (map fst es) \<Longrightarrow> keys_known flds es \<Longrightarrow>
      check_obj_dups tb es = ASTOOLS_OK \<Longrightarrow> pending_ok flds es \<Longrightarrow>
      check_fields tb oget flds es = (ASTOOLS_OK, es') \<longleftrightarrow> fields_spec flds es es'"
  shows "astools_type_check tb oget (AType t item vtype flds) (Some (XNode tags annots (Some val))) = (ASTOOLS_OK, v') \<longleftrightarrow>
    admits (AType t item vtype flds) (Some (XNode tags annots (Some val))) v'"
proof -
  have "(check_obj_dups tb es = ASTOOLS_OK \<and> keys_known flds es \<and>
        check_fields tb oget flds es = (ASTOOLS_OK, es')) \<longleftrightarrow>
      distinct (map fst es) \<and> set (map fst es) \<subseteq> set (map pname flds) \<and>
        map fst es' = map fst es @ missing flds (map fst es) \<and> admits_fields flds es es'"
    if es: "val = XObject es" for es es'
  proof (rule check_object_iff [OF _ assms(3)])
    show ok: "nodes_ok es" using assms(2) by (auto simp: es nodes_ok_def list_all_iff)
    assume d: "distinct (map fst es)" and k: "keys_known flds es"
    have "check_obj_dups tb es = ASTOOLS_OK"
      using check_obj_dups_iff [of es tb] ok d by (simp add: nodes_ok_def)
    from assms(4) [OF es d k this nodes_pending [OF ok]]
    show "check_fields tb oget flds es = (ASTOOLS_OK, es') \<longleftrightarrow> fields_spec flds es es'" .
  qed
  then show ?thesis unfolding check_object [OF assms(1)] admits_object [OF assms(1)] by blast
qed

text \<open>The checker meets the specification, types and field lists together.\<close>

lemma type_check_spec:
  "lookup_ok oget \<Longrightarrow> wf_type ty \<Longrightarrow> (\<forall>n. v = Some n \<longrightarrow> doc_ok n) \<Longrightarrow>
     astools_type_check tb oget ty v = (ASTOOLS_OK, v') \<longleftrightarrow> admits ty v v'"
  "lookup_ok oget \<Longrightarrow> wf_params ps \<Longrightarrow> distinct (map pname ps) \<Longrightarrow> distinct (map fst es) \<Longrightarrow>
     pending_ok ps es \<Longrightarrow> check_fields tb oget ps es = (ASTOOLS_OK, es') \<longleftrightarrow> fields_spec ps es es'"
proof (induction tb oget ty v and tb oget ps es arbitrary: v' and es'
    rule: astools_type_check_check_fields.induct)
  case (1 tb oget t item vtype flds v)
  note wf = "1.prems"(2) [unfolded wf_type.simps]
  show ?case
  proof (cases "\<exists>tags annots val. v = Some (XNode tags annots (Some val))")
    case False
    then show ?thesis using admits_node by (auto split: option.splits xnode.splits)
  next
    case True
    then obtain tags annots val where v: "v = Some (XNode tags annots (Some val))" by blast
    have val: "doc_ok_v val" using "1.prems"(3) v by simp
    consider (arr) "tkind t = AT_ARRAY" | (mp) "tkind t = AT_MAP" | (obj) "tkind t = AT_OBJECT"
      | (sc) "tkind t \<noteq> AT_ARRAY" "tkind t \<noteq> AT_MAP" "tkind t \<noteq> AT_OBJECT" by blast
    then show ?thesis
    proof cases
      case sc
      then have c: "astools_type_check tb oget (AType t item vtype flds) v = (check_scalar t val, v)"
        by (cases "tkind t") (simp_all add: v)
      show ?thesis unfolding c unfolding v admits_scalar [OF sc] using check_scalar_iff [OF val] by auto
    next
      case arr
      then obtain it where it: "item = Some it" "wf_type it" using wf by (auto split: option.splits)
      show ?thesis unfolding v it(1)
        by (rule array_spec [OF arr val])
           (rule "1.IH"(1) [OF v refl refl arr refl _ it(1) _ "1.prems"(1) it(2)], simp_all)
    next
      case mp
      then obtain vt where vt: "vtype = Some vt" "wf_type vt" using wf by (auto split: option.splits)
      show ?thesis unfolding v vt(1)
        by (rule map_spec [OF mp val])
           (rule "1.IH"(2) [OF v refl refl mp refl _ vt(1) _ _ "1.prems"(1) vt(2)], simp_all)
    next
      case obj
      have wfp: "wf_params flds" "distinct (map pname flds)" using wf by auto
      show ?thesis unfolding v
        by (rule object_spec [OF obj val wfp(2)])
           (rule "1.IH"(3) [OF v refl refl obj _ _ _ "1.prems"(1) wfp], simp_all)
    qed
  qed
next
  case (2 tb oget es)
  then show ?case by (auto simp: fields_spec_def missing_def intro: map_of_equal_lists)
next
  case (3 tb oget nm ty req dflt descr ps es)
  note wf = "3.prems"(2) [unfolded wf_params.simps]
  from wf obtain name t where nm: "nm = Some name" and ty: "ty = Some t" "wf_type t"
    by (auto split: option.splits)
  have wfp: "wf_params ps" "distinct (map pname ps)" and fresh: "nm \<notin> set (map pname ps)"
    using "3.prems"(2,3) by simp_all
  have pend: "pending_ok ps es" using "3.prems"(5) by (simp add: pending_ok_def)
  have pend1: "pending_ok ps fs" if "map_of fs = (map_of es)(nm \<mapsto> y)" for fs y
    using pend fresh unfolding pending_ok_def that by (auto split: if_splits)
  show ?case
  proof (cases "map_of es nm")
    case None
    then have get: "xget oget es name = None"
      using xget_map_of [OF "3.prems"(1,4), of name] nm by simp
    have keys: "nm \<notin> set (map fst es)" using None by (simp add: map_of_eq_None_iff)
    show ?thesis
    proof (cases "req \<or> dflt = None")
      case True
      have "check_fields tb oget ps es = (ASTOOLS_OK, es') \<longleftrightarrow> fields_spec ps es es'" if "\<not> req"
        using "3.IH"(1) [OF _ nm ty(1) get that _ "3.prems"(1) wfp "3.prems"(4) pend] nm True that by simp
      then show ?thesis
        unfolding ty(1) fields_spec_absent [OF None fresh True] using True by (simp add: nm get) auto
    next
      case False
      then obtain d where d: "dflt = Some d" "\<not> req" "doc_ok d" using wf ty by (auto split: option.splits)
      show ?thesis
      proof (cases "ndepth d \<le> CLONE_DEPTH_MAX")
        case True
        let ?es1 = "es @ [(nm, Some d)]"
        have inj: "obj_inject_default es name d = Inr ?es1" using True d(3) by (simp add: clone_default nm)
        have "distinct (map fst ?es1)" using "3.prems"(4) keys by simp
        from "3.IH"(2) [OF _ nm ty(1) get d(2) d(1) inj "3.prems"(1) wfp this pend1 [OF map_of_snoc [OF keys]]]
        have "check_fields tb oget ps ?es1 = (ASTOOLS_OK, es') \<longleftrightarrow> fields_spec ps ?es1 es'"
          by (simp add: nm ty)
        then show ?thesis
          using fields_spec_default [OF None fresh True] d inj by (simp add: nm ty get)
      next
        case False
        then have "obj_inject_default es name d = Inl ASTOOLS_ERR_NOMEM" using d(3) by (simp add: clone_default)
        with False d None show ?thesis by (simp add: nm ty get fields_spec_def)
      qed
    qed
  next
    case (Some x)
    obtain n where x: "x = Some n" "doc_ok n"
      using "3.prems"(5) Some by (auto simp: pending_ok_def)
    then obtain i where i: "xget oget es name = Some (i, n)" "i < length es" "es ! i = (nm, Some n)"
      using xget_map_of [OF "3.prems"(1,4), of name] nm Some by auto
    obtain e n' where c: "astools_type_check tb oget t (Some n) = (e, n')" by fastforce
    have spec: "astools_type_check tb oget t (Some n) = (ASTOOLS_OK, y) \<longleftrightarrow> admits t (Some n) y" for y
      using "3.IH"(3) [OF _ nm ty(1) i(1) _ "3.prems"(1) ty(2), of i n] x(2) by (simp add: nm ty)
    show ?thesis
    proof (cases "e = ASTOOLS_OK")
      case False
      then have "\<not> admits t (Some n) y" for y using spec [of y] c by auto
      with False show ?thesis
        using Some x by (auto simp: nm ty i c fields_spec_def split: option.splits)
    next
      case True
      let ?es1 = "es[i := (nm, n')]"
      have adm: "admits t (Some n) y \<longleftrightarrow> y = n'" for y using spec [of y] c True by auto
      have up: "map_of ?es1 = (map_of es)(nm \<mapsto> n')"
        by (rule map_of_nth_update) (use "3.prems"(4) i in simp_all)
      have "map fst ?es1 = map fst es" using i by (metis fst_conv length_map list_update_id map_update nth_map)
      then have "distinct (map fst ?es1)" using "3.prems"(4) by simp
      then have "check_fields tb oget ps ?es1 = (ASTOOLS_OK, es') \<longleftrightarrow> fields_spec ps ?es1 es'"
        using "3.IH"(4) [OF _ nm ty(1) i(1) _ _ _ _ "3.prems"(1) wfp, of i n e n' ?es1] pend1 [OF up] c True i
        by (simp add: nm ty)
      then show ?thesis
        using fields_spec_found [OF "3.prems"(4) i(2,3) fresh adm] True by (simp add: nm ty i c Let_def)
    qed
  qed
qed

section \<open>Completed values are fixed points\<close>

lemma wf_params_names: "wf_params ps \<Longrightarrow> None \<notin> set (map pname ps)"
proof (induction ps)
  case (Cons p ps)
  then show ?case by (cases p) auto
qed simp

lemma pending_entries:
  assumes "pending_ok ps es" "distinct (map fst es)" "set (map fst es) \<subseteq> set (map pname ps)" "wf_params ps"
  shows "nodes_ok es"
proof -
  have names: "k \<noteq> None" if "k \<in> set (map pname ps)" for k
    using that wf_params_names [OF assms(4)] by metis
  have "fst e \<noteq> None \<and> (\<exists>n. snd e = Some n \<and> doc_ok n)" if e: "e \<in> set es" for e
  proof -
    have "fst e \<in> set (map pname ps)" using assms(3) e by auto
    then obtain p where p: "p \<in> set ps" "fst e = pname p" by auto
    have "map_of es (pname p) = Some (snd e)"
      using map_of_is_SomeI [OF assms(2), of "fst e" "snd e"] e p(2) by (cases e) simp
    with assms(1) p(1) have "\<exists>n. snd e = Some n \<and> doc_ok n" unfolding pending_ok_def by blast
    with names [OF \<open>fst e \<in> set (map pname ps)\<close>] show ?thesis by simp
  qed
  then show ?thesis by (simp add: nodes_ok_def)
qed

lemma missing_distinct:
  assumes "distinct (map pname ps)"
  shows "distinct (missing ps keys)" "set (missing ps keys) \<inter> set keys = {}"
    "missing ps (keys @ missing ps keys) = []"
proof -
  show "distinct (missing ps keys)"
    unfolding missing_def using assms by (simp add: distinct_map_filter)
  show "set (missing ps keys) \<inter> set keys = {}" by (auto simp: missing_def)
  show "missing ps (keys @ missing ps keys) = []" by (auto simp: missing_def filter_empty_conv)
qed

lemma fields_fixed:
  assumes "\<forall>p \<in> set ps. \<forall>t x x'. ptype p = Some t \<longrightarrow> (\<exists>n. x = Some n \<and> doc_ok n) \<longrightarrow> admits t x x' \<longrightarrow>
      (\<exists>n'. x' = Some n' \<and> doc_ok n') \<and> admits t x' x'"
    and "wf_params ps" "pending_ok ps es" "admits_fields ps es es'"
    and "\<forall>p \<in> set ps. map_of es (pname p) = None \<longrightarrow> pdflt p = None \<longrightarrow> map_of es' (pname p) = None"
  shows "admits_fields ps es' es' \<and> pending_ok ps es'"
  using assms
proof (induction ps)
  case (Cons p ps)
  obtain nm ty req dflt descr where p: "p = AParam nm ty req dflt descr" by (cases p)
  from Cons.prems(2) obtain t where t: "ty = Some t" by (auto simp: p split: option.splits)
  have "admits_fields ps es' es' \<and> pending_ok ps es'"
    by (rule Cons.IH) (use Cons.prems in \<open>simp_all add: p pending_ok_def\<close>)
  moreover have "case map_of es' nm of
      Some x \<Rightarrow> (\<exists>n. x = Some n \<and> doc_ok n) \<and> admits t x x
    | None \<Rightarrow> \<not> req \<and> dflt = None"
  proof (cases "map_of es nm")
    case None
    then show ?thesis
      using Cons.prems(2,4,5) by (auto simp: p t split: option.splits)
  next
    case (Some x)
    then obtain x' where x': "map_of es' nm = Some x'" "admits t x x'"
      using Cons.prems(4) by (auto simp: p t split: option.splits)
    have "\<exists>n. x = Some n \<and> doc_ok n" using Cons.prems(3) Some by (simp add: pending_ok_def p)
    with Cons.prems(1) x'(2) show ?thesis by (simp add: x' p t)
  qed
  ultimately show ?case by (auto simp: p t pending_ok_def split: option.splits)
qed (simp add: pending_ok_def)

lemma list_fixed:
  assumes "\<And>x x'. \<exists>m. x = Some m \<and> doc_ok m \<Longrightarrow> R x x' \<Longrightarrow> (\<exists>n'. x' = Some n' \<and> doc_ok n') \<and> R x' x'"
    and "list_all2 R xs xs'" "\<forall>x \<in> set xs. \<exists>m. x = Some m \<and> doc_ok m"
  shows "\<forall>x' \<in> set xs'. (\<exists>m. x' = Some m \<and> doc_ok m) \<and> R x' x'"
  using assms(2,3)
proof (induction rule: list_all2_induct)
  case (Cons x xs y ys)
  from Cons.prems assms(1) [OF _ Cons.hyps(1)] Cons.IH show ?case by simp
qed simp

lemma nodes_ok_iff: "doc_ok_v (XObject es) \<longleftrightarrow> nodes_ok es"
  by (auto simp: nodes_ok_def list_all_iff)

lemma param_sizes: "p \<in> set ps \<Longrightarrow> ptype p = Some u \<Longrightarrow> wf_params ps \<Longrightarrow>
    size u < Suc (size_list size ps) \<and> wf_type u"
proof (induction ps)
  case (Cons q ps)
  then show ?case by (cases q) (auto split: option.splits)
qed simp

lemma admits_fixed:
  "wf_type ty \<Longrightarrow> doc_ok n \<Longrightarrow> admits ty (Some n) v' \<Longrightarrow> (\<exists>n'. v' = Some n' \<and> doc_ok n') \<and> admits ty v' v'"
proof (induction "size ty" arbitrary: ty n v' rule: less_induct)
  case less
  obtain t item vtype flds where ty: "ty = AType t item vtype flds" by (cases ty)
  obtain tags annots val where n: "n = XNode tags annots (Some val)"
    using admits_node [OF less.prems(3)] by auto
  have IH: "(\<exists>n'. x' = Some n' \<and> doc_ok n') \<and> admits u x' x'"
    if "size u < size ty" "wf_type u" "\<exists>m. x = Some m \<and> doc_ok m" "admits u x x'" for u x x'
    using less.hyps [OF that(1,2)] that(3,4) by blast
  have node: "(\<exists>m. Some (XNode tags annots (Some w)) = Some m \<and> doc_ok m) \<longleftrightarrow> doc_ok_v w" for w
    using less.prems(2) by (simp add: n)
  note wf = less.prems(1) [unfolded ty wf_type.simps]
  consider (arr) "tkind t = AT_ARRAY" | (mp) "tkind t = AT_MAP" | (obj) "tkind t = AT_OBJECT"
    | (sc) "tkind t \<noteq> AT_ARRAY" "tkind t \<noteq> AT_MAP" "tkind t \<noteq> AT_OBJECT" by blast
  then show ?case
  proof cases
    case sc
    then show ?thesis using less.prems(2,3) unfolding ty n admits_scalar [OF sc] by auto
  next
    case arr
    then obtain it where it: "item = Some it" "wf_type it" using wf by (auto split: option.splits)
    obtain xs xs' where xs: "val = XArray xs" "v' = Some (XNode tags annots (Some (XArray xs')))"
      "in_len (tmin_items t) (tmax_items t) (length xs)" "list_all2 (admits it) xs xs'"
      using less.prems(3) unfolding ty n it admits_array [OF arr] by blast
    have "\<forall>x \<in> set xs. \<exists>m. x = Some m \<and> doc_ok m" using less.prems(2) by (auto simp: n xs all_some_iff)
    from list_fixed [OF IH xs(4) this] it
    have "\<forall>x' \<in> set xs'. (\<exists>m. x' = Some m \<and> doc_ok m) \<and> admits it x' x'" by (simp add: ty)
    then show ?thesis
      using xs(3) list_all2_lengthD [OF xs(4)]
      unfolding xs(2) ty it(1) admits_array [OF arr] node by (simp add: all_some_iff list_all2_same)
  next
    case mp
    then obtain vt where vt: "vtype = Some vt" "wf_type vt" using wf by (auto split: option.splits)
    obtain es es' where es: "val = XObject es" "v' = Some (XNode tags annots (Some (XObject es')))"
      "in_len (- 1) (tmax_entries t) (length es)" "distinct (map fst es)" "map fst es' = map fst es"
      "list_all2 (admits vt) (map snd es) (map snd es')"
      using less.prems(3) unfolding ty n vt admits_map [OF mp] by blast
    have ok: "nodes_ok es" using less.prems(2) by (auto simp: n es nodes_ok_def list_all_iff)
    then have "\<forall>x \<in> set (map snd es). \<exists>m. x = Some m \<and> doc_ok m" by (auto simp: nodes_ok_def)
    from list_fixed [OF IH es(6) this] vt
    have el: "\<forall>x' \<in> set (map snd es'). (\<exists>m. x' = Some m \<and> doc_ok m) \<and> admits vt x' x'" by (simp add: ty)
    have "\<forall>k \<in> set (map fst es'). k \<noteq> None" using ok unfolding es(5) by (auto simp: nodes_ok_def)
    with el have "nodes_ok es'" by (auto simp: nodes_ok_def)
    moreover have "length es' = length es" using es(5) by (metis length_map)
    ultimately show ?thesis
      using es(3,4,5) el
      unfolding es(2) ty vt(1) admits_map [OF mp] node nodes_ok_iff by (auto simp: list_all2_same)
  next
    case obj
    obtain es es' where es: "val = XObject es" "v' = Some (XNode tags annots (Some (XObject es')))"
      "distinct (map fst es)" "set (map fst es) \<subseteq> set (map pname flds)"
      "map fst es' = map fst es @ missing flds (map fst es)" "admits_fields flds es es'"
      using less.prems(3) unfolding ty n admits_object [OF obj] by blast
    have ok: "nodes_ok es" using less.prems(2) by (auto simp: n es nodes_ok_def list_all_iff)
    have wfp: "wf_params flds" "distinct (map pname flds)" using wf by auto
    have sz: "\<forall>p \<in> set flds. \<forall>u. ptype p = Some u \<longrightarrow> size u < size ty \<and> wf_type u"
      using wfp(1) param_sizes [of _ flds] by (force simp: ty)
    have keys: "distinct (map fst es')" "set (map fst es') \<subseteq> set (map pname flds)" "missing flds (map fst es') = []"
      using es(3,4) missing_distinct [OF wfp(2), of "map fst es"] unfolding es(5) by (auto simp: missing_def)
    have "admits_fields flds es' es' \<and> pending_ok flds es'"
    proof (rule fields_fixed [OF _ wfp(1) nodes_pending [OF ok] es(6)])
      show "\<forall>p \<in> set flds. \<forall>u x x'. ptype p = Some u \<longrightarrow> (\<exists>n. x = Some n \<and> doc_ok n) \<longrightarrow> admits u x x' \<longrightarrow>
          (\<exists>n'. x' = Some n' \<and> doc_ok n') \<and> admits u x' x'"
        using IH sz by blast
      show "\<forall>p \<in> set flds. map_of es (pname p) = None \<longrightarrow> pdflt p = None \<longrightarrow> map_of es' (pname p) = None"
      proof (intro ballI impI)
        fix p assume p: "p \<in> set flds" "map_of es (pname p) = None" "pdflt p = None"
        then have "pname p \<notin> set (missing flds (map fst es))"
          using wfp(2) by (auto simp: missing_def distinct_map inj_on_def)
        then have "pname p \<notin> set (map fst es')" using p(2) unfolding es(5) by (simp add: map_of_eq_None_iff)
        then show "map_of es' (pname p) = None" by (simp add: map_of_eq_None_iff)
      qed
    qed
    then show ?thesis
      using keys pending_entries [OF _ keys(1,2) wfp(1)]
      unfolding es(2) ty admits_object [OF obj] node nodes_ok_iff by auto
  qed
qed

section \<open>Properties\<close>

text \<open>
  Integer bounds are exact although they are stored as doubles: for every 64-bit integer and every
  finite bound, beyond the 64-bit range included, the comparisons agree with the order of the
  rationals.
\<close>

theorem int_bounds_exact:
  assumes "int64_ok i"
  shows "(int_ge i b \<longleftrightarrow> b \<le> of_int i) \<and> (int_le i b \<longleftrightarrow> of_int i \<le> b)"
  using int_ge_iff [OF assms] int_le_iff [OF assms] by simp

theorem int_bounds_exact_witness:
  "\<not> int_ge 9223372036854775807 TWO_POW_63 \<and> int_le 9223372036854775807 TWO_POW_63"
  using int_bounds_exact [of 9223372036854775807 TWO_POW_63]
  by (simp add: int64_ok_def INT64_MAX_def INT64_MIN_def TWO_POW_63_def)

text \<open>
  C5: The strict check computes its specification: on a parsed document it succeeds exactly when the
  document is a value of the type, and then the document it leaves is that value with the declared
  defaults of absent fields appended to their objects and nothing else changed. The memory for the
  duplicate search does not matter.
\<close>

theorem type_check_iff:
  assumes "lookup_ok oget" "wf_type ty" "doc_ok n"
  shows "astools_type_check tb oget ty (Some n) = (ASTOOLS_OK, v') \<longleftrightarrow> admits ty (Some n) v'"
  by (rule type_check_spec(1)) (use assms in simp_all)

text \<open>
  A checked value is canonical: it passes a second check unchanged, so defaults are injected once.
\<close>

theorem type_check_idempotent:
  assumes "lookup_ok oget" "wf_type ty" "doc_ok n" "astools_type_check tb oget ty (Some n) = (ASTOOLS_OK, v')"
  shows "astools_type_check tb' oget ty v' = (ASTOOLS_OK, v')"
proof -
  have "admits ty (Some n) v'" using assms type_check_spec(1) [OF assms(1,2), of "Some n" tb v'] by simp
  from admits_fixed [OF assms(2,3) this] obtain n' where n': "v' = Some n'" "doc_ok n'" "admits ty v' v'" by blast
  then show ?thesis using type_check_spec(1) [OF assms(1,2), of v' tb' v'] by simp
qed

section \<open>Arguments\<close>

lemma args_validate_object:
  assumes "tkind t = AT_OBJECT"
  shows "astools_args_validate tb oget ps (Some n) = (ASTOOLS_OK, v') \<longleftrightarrow>
    astools_type_check tb oget (AType t None None ps) (Some n) = (ASTOOLS_OK, v')"
proof -
  obtain tags annots val where n: "n = XNode tags annots val" by (cases n)
  show ?thesis
  proof (cases val)
    case None
    then show ?thesis by (simp add: n astools_args_validate_def)
  next
    case (Some w)
    have "astools_args_validate tb oget ps (Some n) = (ASTOOLS_OK, v') \<longleftrightarrow>
      (\<exists>es es'. w = XObject es \<and> v' = Some (XNode tags annots (Some (XObject es'))) \<and>
        check_obj_dups tb es = ASTOOLS_OK \<and> keys_known ps es \<and> check_fields tb oget ps es = (ASTOOLS_OK, es'))"
      by (cases w) (auto simp: n Some astools_args_validate_def split: prod.splits)
    then show ?thesis unfolding n Some check_object [OF assms] by simp
  qed
qed

text \<open>What a command may rely on: known keys only, each once, and per parameter a canonical value of its
  type, or nothing when it is optional and has no default.\<close>

definition args_complete :: "astools_param list \<Rightarrow> xentries \<Rightarrow> bool" where
  "args_complete params es \<longleftrightarrow>
     distinct (map fst es) \<and> set (map fst es) \<subseteq> set (map pname params) \<and>
     list_all (\<lambda>p. case map_of es (pname p) of
         Some v \<Rightarrow> (case ptype p of None \<Rightarrow> False | Some t \<Rightarrow> admits t v v)
       | None \<Rightarrow> \<not> prequired p \<and> pdflt p = None) params"

lemma admits_fields_self:
  assumes "admits_fields ps es es" "missing ps (map fst es) = []"
  shows "list_all (\<lambda>p. case map_of es (pname p) of
         Some v \<Rightarrow> (case ptype p of None \<Rightarrow> False | Some t \<Rightarrow> admits t v v)
       | None \<Rightarrow> \<not> prequired p \<and> pdflt p = None) ps"
  using assms
proof (induction ps)
  case (Cons p ps)
  obtain nm ty req dflt descr where p: "p = AParam nm ty req dflt descr" by (cases p)
  from Cons.prems(1) obtain t where t: "ty = Some t" by (auto simp: p split: option.splits)
  have m: "missing ps (map fst es) = []" "nm \<in> fst ` set es \<or> dflt = None"
    using Cons.prems(2) by (auto simp: p missing_Cons split: if_splits)
  have "list_all (\<lambda>p. case map_of es (pname p) of
         Some v \<Rightarrow> (case ptype p of None \<Rightarrow> False | Some t \<Rightarrow> admits t v v)
       | None \<Rightarrow> \<not> prequired p \<and> pdflt p = None) ps"
    by (rule Cons.IH [OF _ m(1)]) (use Cons.prems(1) in \<open>simp add: p\<close>)
  then show ?case
    using Cons.prems(1) m(2) map_of_eq_None_iff [of es nm] by (auto simp: p t split: option.splits)
qed simp

text \<open>What validation made of the arguments: a given value is completed as its type says, an absent one is the declared default.\<close>

definition args_from :: "astools_param list \<Rightarrow> xentries \<Rightarrow> xentries \<Rightarrow> bool" where
  "args_from params es es' \<longleftrightarrow>
     list_all (\<lambda>p. case map_of es (pname p) of
         None \<Rightarrow> map_of es' (pname p) = map_option Some (pdflt p)
       | Some x \<Rightarrow> (case (ptype p, map_of es' (pname p)) of (Some t, Some x') \<Rightarrow> admits t x x' | _ \<Rightarrow> False)) params"

lemma admits_fields_from:
  assumes "admits_fields ps es es'" "p \<in> set ps"
  shows "case map_of es (pname p) of
      None \<Rightarrow> (\<forall>d. pdflt p = Some d \<longrightarrow> map_of es' (pname p) = Some (Some d))
    | Some x \<Rightarrow> (case (ptype p, map_of es' (pname p)) of (Some t, Some x') \<Rightarrow> admits t x x' | _ \<Rightarrow> False)"
  using assms
proof (induction ps)
  case (Cons q ps)
  obtain nm ty req dflt descr where q: "q = AParam nm ty req dflt descr" by (cases q)
  from Cons show ?case by (cases "p = q") (auto simp: q split: option.splits)
qed simp

lemma args_from_fields:
  assumes "admits_fields params es es'" "map fst es' = map fst es @ missing params (map fst es)" "distinct (map pname params)"
  shows "args_from params es es'"
  unfolding args_from_def list_all_iff
proof
  fix p assume p: "p \<in> set params"
  have "map_of es' (pname p) = None" if "map_of es (pname p) = None" "pdflt p = None"
  proof -
    have "q = p" if "q \<in> set params" "pname q = pname p" for q
      using that p assms(3) by (auto simp: distinct_map dest: inj_onD)
    then have "pname p \<notin> set (missing params (map fst es))" using that(2) by (force simp: missing_def)
    moreover have "pname p \<notin> set (map fst es)" using that(1) by (simp add: map_of_eq_None_iff)
    ultimately have "pname p \<notin> set (map fst es')" unfolding assms(2) by simp
    then show ?thesis by (simp add: map_of_eq_None_iff)
  qed
  with admits_fields_from [OF assms(1) p]
  show "case map_of es (pname p) of None \<Rightarrow> map_of es' (pname p) = map_option Some (pdflt p)
       | Some x \<Rightarrow> (case (ptype p, map_of es' (pname p)) of (Some t, Some x') \<Rightarrow> admits t x x' | _ \<Rightarrow> False)"
    by (cases "map_of es (pname p)"; cases "pdflt p") auto
qed

lemma args_type_wf: "wf_params ps \<Longrightarrow> distinct (map pname ps) \<Longrightarrow> wf_type (AType (type_new AT_OBJECT) None None ps)"
  by (simp add: wf_scalars_def type_new_def)

lemma args_validate_spec:
  assumes "lookup_ok oget" "wf_params params" "distinct (map pname params)" "doc_ok n"
    and "astools_args_validate tb oget params (Some n) = (ASTOOLS_OK, v')"
  shows "\<exists>tags annots es es'. n = XNode tags annots (Some (XObject es)) \<and>
      v' = Some (XNode tags annots (Some (XObject es'))) \<and>
      map fst es = take (length es) (map fst es') \<and> args_complete params es' \<and> args_from params es es' \<and>
      astools_args_validate tb' oget params v' = (ASTOOLS_OK, v')"
proof -
  let ?t = "type_new AT_OBJECT"
  have k: "tkind ?t = AT_OBJECT" by (simp add: type_new_def)
  note wf = args_type_wf [OF assms(2,3)]
  have adm: "admits (AType ?t None None params) (Some n) v'"
    using assms(5) type_check_spec(1) [OF assms(1) wf, of "Some n" tb v'] assms(4)
    unfolding args_validate_object [OF k] by simp
  obtain tags annots val where n: "n = XNode tags annots (Some val)" using admits_node [OF adm] by auto
  obtain es es' where es: "val = XObject es" "v' = Some (XNode tags annots (Some (XObject es')))"
    "map fst es' = map fst es @ missing params (map fst es)" "admits_fields params es es'"
    using adm unfolding n admits_object [OF k] by blast
  note from_es = args_from_fields [OF es(4,3) assms(3)]
  from admits_fixed [OF wf assms(4) adm] obtain n' where n': "v' = Some n'" "doc_ok n'"
    "admits (AType ?t None None params) v' v'" by blast
  have self: "distinct (map fst es')" "set (map fst es') \<subseteq> set (map pname params)"
      "missing params (map fst es') = []" "admits_fields params es' es'"
    using n'(3) unfolding es(2) admits_object [OF k] by auto
  have "astools_args_validate tb' oget params v' = (ASTOOLS_OK, v')"
    using type_check_spec(1) [OF assms(1) wf, of v' tb' v'] n' args_validate_object [OF k, of tb' oget params n' v'] by simp
  moreover have "args_complete params es'"
    unfolding args_complete_def using self admits_fields_self [OF self(4,3)] by blast
  moreover have "map fst es = take (length es) (map fst es')" unfolding es(3) by simp
  ultimately show ?thesis using n es(1,2) from_es by blast
qed

text \<open>
  C11: What validated arguments are: an object whose keys are the given ones followed by injected
  defaults, every key declared and present once, every required parameter present, every optional one
  present or without a default, and every value canonical for its parameter's type; a given value is the given one
  completed as its type says, and an absent one is exactly the declared default; validating again changes nothing.
\<close>

theorem args_validate_complete:
  assumes "lookup_ok oget" "wf_params params" "distinct (map pname params)" "doc_ok n"
    and "astools_args_validate tb oget params (Some n) = (ASTOOLS_OK, v')"
  shows "\<exists>tags annots es es'. n = XNode tags annots (Some (XObject es)) \<and>
      v' = Some (XNode tags annots (Some (XObject es'))) \<and>
      map fst es = take (length es) (map fst es') \<and> args_complete params es' \<and> args_from params es es' \<and>
      astools_args_validate tb' oget params v' = (ASTOOLS_OK, v')"
  by (rule args_validate_spec [OF assms])

subsection \<open>At a concrete command\<close>

text \<open>A command with a required path, an optional count with a default and an optional flag.\<close>

definition demo_params :: "astools_param list" where
  "demo_params =
     [AParam (Some ''path'') (Some (AType (type_new AT_PATH) None None [])) True None None,
      AParam (Some ''max'') (Some (AType ((type_new AT_INTEGER)\<lparr>thas_min := True, tmin_num := 1\<rparr>) None None []))
        False (Some (XNode [] [] (Some (XInt 10)))) None,
      AParam (Some ''follow'') (Some (AType (type_new AT_BOOLEAN) None None [])) False None None]"

definition demo_args :: "xentries \<Rightarrow> xnode" where
  "demo_args es = XNode [] [] (Some (XObject es))"

lemma demo_wf: "wf_params demo_params" "distinct (map pname demo_params)"
  by (simp_all add: demo_params_def wf_scalars_def type_new_def ASTOOLS_ACCESS_READ_def int64_ok_def
      INT64_MAX_def INT64_MIN_def scalar_ok_def in_bounds_def)

lemma demo_run:
  "astools_args_validate True first_key demo_params
     (Some (demo_args [(Some ''path'', Some (XNode [] [] (Some (XString (Some ''/tmp'')))))])) =
   (ASTOOLS_OK, Some (demo_args [(Some ''path'', Some (XNode [] [] (Some (XString (Some ''/tmp''))))),
     (Some ''max'', Some (XNode [] [] (Some (XInt 10))))]))"
  by (simp add: demo_params_def demo_args_def astools_args_validate_def check_obj_dups_def keys_known_def
      type_new_def xget_def check_scalar_def ok_if_def clone_default int64_ok_def INT64_MAX_def INT64_MIN_def
      max0_def opt_nat_def CLONE_DEPTH_MAX_def)

lemma demo_doc: "doc_ok (demo_args [(Some ''path'', Some (XNode [] [] (Some (XString (Some ''/tmp'')))))])"
  by (simp add: demo_args_def)

theorem args_validate_complete_witness:
  "\<exists>es'. astools_args_validate False first_key demo_params (Some (demo_args es')) =
     (ASTOOLS_OK, Some (demo_args es')) \<and> args_complete demo_params es' \<and> length es' = 2"
  using args_validate_complete [OF first_key_ok demo_wf demo_doc demo_run, of False]
  by (auto simp: demo_args_def)

definition demo_type :: astools_type where
  "demo_type = AType (type_new AT_OBJECT) None None demo_params"

lemma demo_type_wf: "wf_type demo_type"
  unfolding demo_type_def by (rule args_type_wf [OF demo_wf])

theorem type_check_iff_witness:
  "admits demo_type (Some (demo_args [(Some ''path'', Some (XNode [] [] (Some (XString (Some ''/tmp'')))))]))
     (Some (demo_args [(Some ''path'', Some (XNode [] [] (Some (XString (Some ''/tmp''))))),
     (Some ''max'', Some (XNode [] [] (Some (XInt 10))))]))"
  using type_check_iff [OF first_key_ok demo_type_wf demo_doc, of True] demo_run
    args_validate_object [of "type_new AT_OBJECT" True first_key demo_params]
  by (simp add: demo_type_def type_new_def)

theorem type_check_idempotent_witness:
  "\<exists>v'. astools_type_check False first_key demo_type v' = (ASTOOLS_OK, v')"
proof -
  have "astools_type_check True first_key demo_type
      (Some (demo_args [(Some ''path'', Some (XNode [] [] (Some (XString (Some ''/tmp'')))))])) =
    (ASTOOLS_OK, Some (demo_args [(Some ''path'', Some (XNode [] [] (Some (XString (Some ''/tmp''))))),
     (Some ''max'', Some (XNode [] [] (Some (XInt 10))))]))"
    using demo_run args_validate_object [of "type_new AT_OBJECT" True first_key demo_params]
    by (simp add: demo_type_def type_new_def)
  from type_check_idempotent [OF first_key_ok demo_type_wf demo_doc this, of False] show ?thesis by blast
qed

end
