(* ===== verification/As_TypeParse.thy ===== *)
theory As_TypeParse
  imports As_Check
begin

text \<open>
  \<^verbatim>\<open>src/types.c\<close>, parsing: the strict reader of type objects and of the parameters in an object's
  \<open>fields\<close>. A NULL result is \<open>None\<close>; messages and context strings are not modelled.
\<close>

section \<open>Tables\<close>

definition TYPE_DEPTH_MAX :: nat where
  "TYPE_DEPTH_MAX = 32"

definition kind_table :: "(string \<times> astools_tkind) list" where
  "kind_table =
     [(''string'', AT_STRING), (''integer'', AT_INTEGER), (''number'', AT_NUMBER),
      (''boolean'', AT_BOOLEAN), (''bytes'', AT_BYTES), (''datetime'', AT_DATETIME),
      (''duration'', AT_DURATION), (''uuid'', AT_UUID), (''path'', AT_PATH), (''enum'', AT_ENUM),
      (''array'', AT_ARRAY), (''map'', AT_MAP), (''object'', AT_OBJECT)]"

definition kind_lookup :: "string \<Rightarrow> astools_tkind option" where
  "kind_lookup s = map_of kind_table s"

fun kind_name :: "astools_tkind \<Rightarrow> string" where
  "kind_name AT_STRING = ''string''"
| "kind_name AT_INTEGER = ''integer''"
| "kind_name AT_NUMBER = ''number''"
| "kind_name AT_BOOLEAN = ''boolean''"
| "kind_name AT_BYTES = ''bytes''"
| "kind_name AT_DATETIME = ''datetime''"
| "kind_name AT_DURATION = ''duration''"
| "kind_name AT_UUID = ''uuid''"
| "kind_name AT_PATH = ''path''"
| "kind_name AT_ENUM = ''enum''"
| "kind_name AT_ARRAY = ''array''"
| "kind_name AT_MAP = ''map''"
| "kind_name AT_OBJECT = ''object''"

fun kind_keys :: "astools_tkind \<Rightarrow> string list" where
  "kind_keys AT_STRING = [''kind'', ''min_len'', ''max_len'']"
| "kind_keys AT_BYTES = [''kind'', ''min_len'', ''max_len'']"
| "kind_keys AT_INTEGER = [''kind'', ''min'', ''max'']"
| "kind_keys AT_NUMBER = [''kind'', ''min'', ''max'']"
| "kind_keys AT_PATH = [''kind'', ''access'', ''must_exist'']"
| "kind_keys AT_ENUM = [''kind'', ''values'']"
| "kind_keys AT_ARRAY = [''kind'', ''item'', ''min_items'', ''max_items'']"
| "kind_keys AT_MAP = [''kind'', ''value'', ''max_entries'']"
| "kind_keys AT_OBJECT = [''kind'', ''fields'']"
| "kind_keys AT_BOOLEAN = [''kind'']"
| "kind_keys AT_DATETIME = [''kind'']"
| "kind_keys AT_DURATION = [''kind'']"
| "kind_keys AT_UUID = [''kind'']"

text \<open>Every key of an object is among the known ones.\<close>

definition only_keys :: "string list \<Rightarrow> xentries \<Rightarrow> bool" where
  "only_keys known es \<longleftrightarrow> list_all (\<lambda>e. fst e \<in> set (map Some known)) es"

section \<open>Constraint field readers\<close>

text \<open>Failure is \<open>None\<close>; an absent field leaves the current value.\<close>

definition opt_nonneg :: "xlookup \<Rightarrow> xentries \<Rightarrow> string \<Rightarrow> int \<Rightarrow> int option" where
  "opt_nonneg oget es field out =
     (case xfind oget es field of
        None \<Rightarrow> Some out
      | Some n \<Rightarrow> (case xval n of
          Some (XInt i) \<Rightarrow> if i < 0 then None else Some i
        | _ \<Rightarrow> None))"

definition opt_bound :: "xlookup \<Rightarrow> xentries \<Rightarrow> string \<Rightarrow> bool \<times> rat \<Rightarrow> (bool \<times> rat) option" where
  "opt_bound oget es field out =
     (case xfind oget es field of
        None \<Rightarrow> Some out
      | Some n \<Rightarrow> (case xval n of
          Some (XInt i) \<Rightarrow> Some (True, dbl_of_int i)
        | Some (XFloat (Fin x)) \<Rightarrow> Some (True, x)
        | _ \<Rightarrow> None))"

definition opt_bool :: "xlookup \<Rightarrow> xentries \<Rightarrow> string \<Rightarrow> bool \<Rightarrow> bool option" where
  "opt_bool oget es field out =
     (case xfind oget es field of
        None \<Rightarrow> Some out
      | Some n \<Rightarrow> (case xval n of Some (XBool b) \<Rightarrow> Some b | _ \<Rightarrow> None))"

definition param_name_ok :: "string option \<Rightarrow> bool" where
  "param_name_ok str =
     (case str of None \<Rightarrow> False | Some s \<Rightarrow>
        s \<noteq> [] \<and> (is_lower (cur s) \<or> cur s = CHR ''_'') \<and> length s \<le> 64 \<and>
        list_all (\<lambda>ch. is_lower ch \<or> is_digit ch \<or> ch = CHR ''_'') s)"

definition str_val :: "xnode \<Rightarrow> string option" where
  "str_val n = (case xval n of Some (XString s) \<Rightarrow> s | _ \<Rightarrow> None)"

section \<open>Types without inner types\<close>

definition parse_lens :: "xlookup \<Rightarrow> xentries \<Rightarrow> tscalars \<Rightarrow> tscalars option" where
  "parse_lens oget es t =
     (case opt_nonneg oget es ''min_len'' (tmin_len t) of None \<Rightarrow> None | Some mn \<Rightarrow>
      case opt_nonneg oget es ''max_len'' (tmax_len t) of None \<Rightarrow> None | Some mx \<Rightarrow>
        if mn \<ge> 0 \<and> mx \<ge> 0 \<and> mx < mn then None else Some (t\<lparr>tmin_len := mn, tmax_len := mx\<rparr>))"

definition parse_bounds :: "xlookup \<Rightarrow> xentries \<Rightarrow> tscalars \<Rightarrow> tscalars option" where
  "parse_bounds oget es t =
     (case opt_bound oget es ''min'' (thas_min t, tmin_num t) of None \<Rightarrow> None | Some (hmin, mn) \<Rightarrow>
      case opt_bound oget es ''max'' (thas_max t, tmax_num t) of None \<Rightarrow> None | Some (hmax, mx) \<Rightarrow>
        if hmin \<and> hmax \<and> mn > mx then None
        else Some (t\<lparr>thas_min := hmin, tmin_num := mn, thas_max := hmax, tmax_num := mx\<rparr>))"

definition parse_path :: "xlookup \<Rightarrow> xentries \<Rightarrow> tscalars \<Rightarrow> tscalars option" where
  "parse_path oget es t =
     (case (case xfind oget es ''access'' of
              None \<Rightarrow> Some (taccess t)
            | Some an \<Rightarrow>
                (let s = str_val an in
                 if s = Some ''read'' then Some ASTOOLS_ACCESS_READ
                 else if s = Some ''write'' then Some ASTOOLS_ACCESS_WRITE
                 else if s = Some ''read-write'' then Some ASTOOLS_ACCESS_RW
                 else None)) of
        None \<Rightarrow> None
      | Some acc \<Rightarrow>
         (case opt_bool oget es ''must_exist'' (tmust_exist t) of None \<Rightarrow> None
          | Some me \<Rightarrow> Some (t\<lparr>taccess := acc, tmust_exist := me\<rparr>)))"

definition enum_value :: "xnode option \<Rightarrow> string option" where
  "enum_value en =
     (case en of None \<Rightarrow> None | Some n \<Rightarrow>
      case str_val n of None \<Rightarrow> None | Some s \<Rightarrow> if s = [] then None else Some s)"

definition parse_enum :: "xlookup \<Rightarrow> xentries \<Rightarrow> tscalars \<Rightarrow> tscalars option" where
  "parse_enum oget es t =
     (case xfind oget es ''values'' of None \<Rightarrow> None | Some vn \<Rightarrow>
      case xval vn of
        Some (XArray items) \<Rightarrow>
          if items = [] then None
          else map_option (\<lambda>vs. t\<lparr>tvalues := vs\<rparr>) (those (map enum_value items))
      | _ \<Rightarrow> None)"

definition parse_item_bounds :: "xlookup \<Rightarrow> xentries \<Rightarrow> tscalars \<Rightarrow> tscalars option" where
  "parse_item_bounds oget es t =
     (case opt_nonneg oget es ''min_items'' (tmin_items t) of None \<Rightarrow> None | Some mn \<Rightarrow>
      case opt_nonneg oget es ''max_items'' (tmax_items t) of None \<Rightarrow> None | Some mx \<Rightarrow>
        if mn \<ge> 0 \<and> mx \<ge> 0 \<and> mx < mn then None else Some (t\<lparr>tmin_items := mn, tmax_items := mx\<rparr>))"

section \<open>Parameters and types\<close>

definition parse_description :: "xlookup \<Rightarrow> xentries \<Rightarrow> string option option" where
  "parse_description oget es =
     (case xfind oget es ''description'' of
        None \<Rightarrow> Some None
      | Some n \<Rightarrow> (case str_val n of None \<Rightarrow> None | Some d \<Rightarrow> Some (Some d)))"

definition examples_ok :: "xlookup \<Rightarrow> xentries \<Rightarrow> bool" where
  "examples_ok oget es =
     (case xfind oget es ''examples'' of
        None \<Rightarrow> True
      | Some n \<Rightarrow> (case xval n of Some (XArray _) \<Rightarrow> True | _ \<Rightarrow> False))"

text \<open>The default is copied and checked; the check completes the copy, which is what is kept.\<close>

definition parse_default :: "bool \<Rightarrow> xlookup \<Rightarrow> astools_type \<Rightarrow> bool \<Rightarrow> xentries \<Rightarrow> xnode option option" where
  "parse_default tb oget ty req es =
     (case xfind oget es ''default'' of
        None \<Rightarrow> Some None
      | Some n \<Rightarrow>
          if req then None
          else (case clone_node (Some n) 0 of
              None \<Rightarrow> None
            | Some d \<Rightarrow> (case astools_type_check tb oget ty (Some d) of
                (e, d') \<Rightarrow> if e \<noteq> ASTOOLS_OK then None else Some d')))"

text \<open>\<open>parse\<close> is the type parser one level deeper.\<close>

definition param_parse :: "bool \<Rightarrow> xlookup \<Rightarrow> (xnode option \<Rightarrow> astools_type option) \<Rightarrow> xnode option
    \<Rightarrow> astools_param option" where
  "param_parse tb oget parse pn =
     (case pn of
        Some (XNode _ _ (Some (XObject es))) \<Rightarrow>
         (if check_obj_dups tb es \<noteq> ASTOOLS_OK then None
          else if \<not> only_keys [''name'', ''type'', ''required'', ''default'', ''description'', ''examples''] es then None
          else case Option.bind (xfind oget es ''name'') str_val of None \<Rightarrow> None | Some s \<Rightarrow>
          if \<not> param_name_ok (Some s) then None
          else case opt_bool oget es ''required'' False of None \<Rightarrow> None | Some req \<Rightarrow>
          case parse_description oget es of None \<Rightarrow> None | Some descr \<Rightarrow>
          if \<not> examples_ok oget es then None
          else case xfind oget es ''type'' of None \<Rightarrow> None | Some tn \<Rightarrow>
          case parse (Some tn) of None \<Rightarrow> None | Some ty \<Rightarrow>
          case parse_default tb oget ty req es of None \<Rightarrow> None | Some d \<Rightarrow>
            Some (AParam (Some s) (Some ty) req d descr))
      | _ \<Rightarrow> None)"

function type_parse_at :: "bool \<Rightarrow> xlookup \<Rightarrow> nat \<Rightarrow> xnode option \<Rightarrow> astools_type option" where
  "type_parse_at tb oget depth node =
     (if depth > TYPE_DEPTH_MAX then None
      else case node of
        Some (XNode _ _ (Some (XObject es))) \<Rightarrow>
         (if check_obj_dups tb es \<noteq> ASTOOLS_OK then None
          else case Option.bind (xfind oget es ''kind'') str_val of None \<Rightarrow> None | Some ks \<Rightarrow>
          case kind_lookup ks of None \<Rightarrow> None | Some kind \<Rightarrow>
          if \<not> only_keys (kind_keys kind) es then None
          else let t = type_new kind; bare = (\<lambda>t. AType t None None []) in
            (case kind of
               AT_STRING \<Rightarrow> map_option bare (parse_lens oget es t)
             | AT_BYTES \<Rightarrow> map_option bare (parse_lens oget es t)
             | AT_INTEGER \<Rightarrow> map_option bare (parse_bounds oget es t)
             | AT_NUMBER \<Rightarrow> map_option bare (parse_bounds oget es t)
             | AT_PATH \<Rightarrow> map_option bare (parse_path oget es t)
             | AT_ENUM \<Rightarrow> map_option bare (parse_enum oget es t)
             | AT_ARRAY \<Rightarrow>
                 (case xfind oget es ''item'' of None \<Rightarrow> None | Some n \<Rightarrow>
                  case type_parse_at tb oget (depth + 1) (Some n) of None \<Rightarrow> None | Some it \<Rightarrow>
                  map_option (\<lambda>t. AType t (Some it) None []) (parse_item_bounds oget es t))
             | AT_MAP \<Rightarrow>
                 (case xfind oget es ''value'' of None \<Rightarrow> None | Some n \<Rightarrow>
                  case type_parse_at tb oget (depth + 1) (Some n) of None \<Rightarrow> None | Some vt \<Rightarrow>
                  map_option (\<lambda>mx. AType (t\<lparr>tmax_entries := mx\<rparr>) None (Some vt) [])
                    (opt_nonneg oget es ''max_entries'' (tmax_entries t)))
             | AT_OBJECT \<Rightarrow>
                 (case xfind oget es ''fields'' of None \<Rightarrow> None | Some n \<Rightarrow>
                  (case xval n of
                    Some (XArray items) \<Rightarrow>
                      (case those (map (param_parse tb oget (type_parse_at tb oget (depth + 1))) items) of
                         None \<Rightarrow> None
                       | Some ps \<Rightarrow>
                           if dup_str tb (map pname ps) \<noteq> Some None then None
                           else Some (AType t None None ps))
                  | _ \<Rightarrow> None))
             | _ \<Rightarrow> Some (bare t)))
      | _ \<Rightarrow> None)"
  by pat_completeness auto
termination
  by (relation "measure (\<lambda>(tb, oget, depth, node). 33 - depth)") (auto simp: TYPE_DEPTH_MAX_def)

declare type_parse_at.simps [simp del]

definition astools_type_parse :: "bool \<Rightarrow> xlookup \<Rightarrow> xnode option \<Rightarrow> astools_type option" where
  "astools_type_parse tb oget node = type_parse_at tb oget 0 node"

section \<open>Parsed types are well-formed\<close>

fun tdepth :: "astools_type \<Rightarrow> nat" and pdepth :: "astools_param list \<Rightarrow> nat" where
  "tdepth (AType t item vtype flds) =
     Suc (max (case item of None \<Rightarrow> 0 | Some it \<Rightarrow> tdepth it)
       (max (case vtype of None \<Rightarrow> 0 | Some vt \<Rightarrow> tdepth vt) (pdepth flds)))"
| "pdepth [] = 0"
| "pdepth (AParam nm ty req dflt descr # ps) = max (case ty of None \<Rightarrow> 0 | Some t \<Rightarrow> tdepth t) (pdepth ps)"

lemma xfind_doc:
  assumes "lookup_ok oget" "nodes_ok es" "xfind oget es k = Some n"
  shows "doc_ok n"
proof -
  obtain i where "xget oget es k = Some (i, n)" using assms(3) by (auto simp: xfind_def)
  from xget_Some [OF assms(1) this] have "(Some k, Some n) \<in> set es" by (metis nth_mem)
  with assms(2) show ?thesis by (force simp: nodes_ok_def)
qed

lemma wf_new: "k \<noteq> AT_ENUM \<Longrightarrow> wf_scalars (type_new k)" "tkind (type_new k) = k"
  by (simp_all add: wf_scalars_def type_new_def)

text \<open>What the scalar readers leave.\<close>

lemma parse_scalars_wf:
  "parse_lens oget es (type_new k) = Some t \<Longrightarrow> k \<noteq> AT_ENUM \<Longrightarrow> wf_scalars t \<and> tkind t = k"
  "parse_bounds oget es (type_new k) = Some t \<Longrightarrow> k \<noteq> AT_ENUM \<Longrightarrow> wf_scalars t \<and> tkind t = k"
  "parse_path oget es (type_new k) = Some t \<Longrightarrow> k \<noteq> AT_ENUM \<Longrightarrow> wf_scalars t \<and> tkind t = k"
  "parse_item_bounds oget es (type_new k) = Some t \<Longrightarrow> k \<noteq> AT_ENUM \<Longrightarrow> wf_scalars t \<and> tkind t = k"
  by (auto simp: parse_lens_def parse_bounds_def parse_path_def parse_item_bounds_def wf_scalars_def type_new_def
      Let_def split: option.splits if_splits prod.splits)

lemma parse_enum_wf:
  assumes "parse_enum oget es (type_new AT_ENUM) = Some t"
  shows "wf_scalars t \<and> tkind t = AT_ENUM"
proof -
  obtain items vs where vs: "items \<noteq> []" "those (map enum_value items) = Some vs"
    "t = (type_new AT_ENUM)\<lparr>tvalues := vs\<rparr>"
    using assms by (auto simp: parse_enum_def split: option.splits xvalue.splits if_splits)
  have m: "map enum_value items = map Some vs" using vs(2) by (simp add: those_Some_iff)
  have "vs \<noteq> []" using m vs(1) by auto
  moreover have "[] \<notin> set vs"
  proof
    assume "[] \<in> set vs"
    then have "Some [] \<in> set (map enum_value items)" unfolding m by simp
    then show False by (auto simp: enum_value_def split: option.splits if_splits)
  qed
  ultimately show ?thesis by (simp add: vs(3) wf_scalars_def type_new_def)
qed

lemma doc_entries: "doc_ok (XNode a b (Some (XObject es))) \<Longrightarrow> nodes_ok es"
  using nodes_ok_iff [of es] by simp

lemma param_parse_wf:
  assumes "lookup_ok oget" "\<forall>n. pn = Some n \<longrightarrow> doc_ok n"
    and parse: "\<And>n ty. doc_ok n \<Longrightarrow> parse (Some n) = Some ty \<Longrightarrow> wf_type ty \<and> tdepth ty \<le> k"
    and "param_parse tb oget parse pn = Some p"
  shows "wf_params [p] \<and> pdepth [p] \<le> k \<and> param_name_ok (pname p)"
proof -
  obtain a b es where pn: "pn = Some (XNode a b (Some (XObject es)))"
    using assms(4) by (auto simp: param_parse_def split: option.splits xnode.splits xvalue.splits)
  have ok: "nodes_ok es" using doc_entries assms(2) pn by blast
  note eq = assms(4) [unfolded param_parse_def pn option.case xnode.case xvalue.case]
  obtain s req descr tn ty d where base: "param_name_ok (Some s)" "xfind oget es ''type'' = Some tn"
      "parse (Some tn) = Some ty"
    and rest: "parse_default tb oget ty req es = Some d" "p = AParam (Some s) (Some ty) req d descr"
    using eq by (auto split: option.splits if_splits)
  have ty: "wf_type ty" "tdepth ty \<le> k" using parse [OF xfind_doc [OF assms(1) ok base(2)] base(3)] by auto
  show ?thesis
  proof (cases "xfind oget es ''default''")
    case None
    with rest ty base(1) show ?thesis by (auto simp: parse_default_def)
  next
    case (Some n)
    have n: "doc_ok n" by (rule xfind_doc [OF assms(1) ok Some])
    with Some rest(1) have d: "\<not> req" "astools_type_check tb oget ty (Some n) = (ASTOOLS_OK, d)"
      using clone_exact(2) [OF n, of 0] by (auto simp: parse_default_def split: option.splits if_splits prod.splits)
    have "admits ty (Some n) d"
      using type_check_spec(1) [OF assms(1) ty(1), of "Some n" tb d] n d(2) by simp
    from admits_fixed [OF ty(1) n this] obtain m where "d = Some m" "doc_ok m" "admits ty (Some m) (Some m)"
      by blast
    with d rest(2) ty base(1) show ?thesis by simp
  qed
qed


lemma wf_params_list: "wf_params ps \<longleftrightarrow> list_all (\<lambda>p. wf_params [p]) ps"
proof (induction ps)
  case (Cons p ps)
  then show ?case by (cases p) simp
qed simp

lemma pdepth_list: "pdepth ps \<le> k \<longleftrightarrow> list_all (\<lambda>p. pdepth [p] \<le> k) ps"
proof (induction ps)
  case (Cons p ps)
  then show ?case by (cases p) simp
qed simp

lemma type_parse_node:
  assumes "type_parse_at tb oget depth node = Some ty"
  shows "depth \<le> TYPE_DEPTH_MAX \<and> (\<exists>a b es. node = Some (XNode a b (Some (XObject es))))"
  using assms by (auto simp: type_parse_at.simps [of tb oget depth] split: if_splits option.splits xnode.splits xvalue.splits)

lemma type_parse_spec:
  assumes "lookup_ok oget"
  shows "\<forall>n. node = Some n \<longrightarrow> doc_ok n \<Longrightarrow> type_parse_at tb oget depth node = Some ty \<Longrightarrow>
    wf_type ty \<and> depth + tdepth ty \<le> Suc TYPE_DEPTH_MAX"
proof (induction "33 - depth" arbitrary: depth node ty rule: less_induct)
  case less
  obtain a b es where dp: "depth \<le> TYPE_DEPTH_MAX" and node: "node = Some (XNode a b (Some (XObject es)))"
    using type_parse_node [OF less.prems(2)] by blast
  have ok: "nodes_ok es" using doc_entries less.prems(1) node by blast
  have IH: "wf_type u \<and> Suc depth + tdepth u \<le> Suc TYPE_DEPTH_MAX"
    if "doc_ok n" "type_parse_at tb oget (depth + 1) (Some n) = Some u" for n u
    using less.hyps [of "depth + 1" "Some n" u] that dp by (simp add: TYPE_DEPTH_MAX_def)
  note eq = less.prems(2) [unfolded type_parse_at.simps [of tb oget depth] node option.case xnode.case xvalue.case]
  obtain ks kind where k: "check_obj_dups tb es = ASTOOLS_OK" "Option.bind (xfind oget es ''kind'') str_val = Some ks"
      "kind_lookup ks = Some kind" "only_keys (kind_keys kind) es"
    using eq by (auto split: if_splits option.splits)
  note body = eq [simplified k option.case Let_def, simplified]
  have find: "doc_ok n" if "xfind oget es f = Some n" for f n by (rule xfind_doc [OF assms ok that])
  have bare: "wf_type (AType t None None []) \<and> depth + tdepth (AType t None None []) \<le> Suc TYPE_DEPTH_MAX"
    if "wf_scalars t \<and> tkind t = kind" "kind \<noteq> AT_ARRAY" "kind \<noteq> AT_MAP" for t
    using that dp by simp
  consider (scalar) "kind \<notin> {AT_ARRAY, AT_MAP, AT_OBJECT}" | "kind = AT_ARRAY" | "kind = AT_MAP" | "kind = AT_OBJECT"
    by blast
  then show ?case
  proof cases
    case scalar
    then obtain t where t: "ty = AType t None None []" "wf_scalars t \<and> tkind t = kind"
      using body wf_new [of kind] dp by (cases kind) (auto dest: parse_scalars_wf parse_enum_wf)
    with bare scalar show ?thesis by simp
  next
    case 2
    obtain n it t where it: "xfind oget es ''item'' = Some n" "type_parse_at tb oget (depth + 1) (Some n) = Some it"
      "parse_item_bounds oget es (type_new AT_ARRAY) = Some t" "ty = AType t (Some it) None []"
      using body dp by (auto simp: 2 split: option.splits if_splits)
    show ?thesis
      using IH [OF find [OF it(1)] it(2)] parse_scalars_wf(4) [OF it(3)] by (simp add: it(4))
  next
    case 3
    obtain n vt mx where vt: "xfind oget es ''value'' = Some n" "type_parse_at tb oget (depth + 1) (Some n) = Some vt"
      "ty = AType ((type_new AT_MAP)\<lparr>tmax_entries := mx\<rparr>) None (Some vt) []"
      using body dp by (auto simp: 3 split: option.splits if_splits)
    show ?thesis
      using IH [OF find [OF vt(1)] vt(2)] wf_new [of AT_MAP] by (simp add: vt(3) wf_scalars_def)
  next
    case 4
    let ?parse = "param_parse tb oget (type_parse_at tb oget (depth + 1))"
    obtain n items ps where ps: "xfind oget es ''fields'' = Some n" "xval n = Some (XArray items)"
      "those (map ?parse items) = Some ps" "dup_str tb (map pname ps) = Some None"
      "ty = AType (type_new AT_OBJECT) None None ps"
      using body dp by (auto simp: 4 split: option.splits if_splits xvalue.splits)
    have n: "doc_ok n" by (rule find [OF ps(1)])
    have params: "wf_params [p] \<and> pdepth [p] \<le> TYPE_DEPTH_MAX - depth \<and> param_name_ok (pname p)"
      if p: "p \<in> set ps" for p
    proof -
      have "Some p \<in> set (map ?parse items)" using p ps(3) by (simp add: those_Some_iff)
      then obtain x where x: "x \<in> set items" "?parse x = Some p" by auto
      obtain a' b' where "n = XNode a' b' (Some (XArray items))" using ps(2) by (cases n) auto
      with n have "\<forall>m. x = Some m \<longrightarrow> doc_ok m" using x(1) by (auto simp: all_some_iff)
      then show ?thesis
        by (rule param_parse_wf [OF assms _ _ x(2)]) (use IH dp in fastforce)
    qed
    have named: "None \<notin> set (map pname ps)" using params by (force simp: param_name_ok_def)
    have "distinct (map pname ps)"
      using dup_str_total [of tb "map pname ps"] ps(4) nonnull_distinct_all [OF named] by auto
    moreover have "wf_params ps" using params by (simp add: wf_params_list [of ps] list_all_iff)
    moreover have "pdepth ps \<le> TYPE_DEPTH_MAX - depth" using params by (simp add: pdepth_list [of ps] list_all_iff)
    ultimately show ?thesis using dp wf_new [of AT_OBJECT] by (simp add: ps(5))
  qed
qed


section \<open>Properties\<close>

text \<open>
  A parsed type is well-formed, whatever the (parsed) document: field names are distinct, arrays
  and maps have their inner types, limits and bounds are consistent, enumerations are not empty, and
  every stored default is a canonical value of its own type and belongs to an optional parameter; the
  nesting is at most 33 levels, the recursion limit.
\<close>

theorem type_parse_wf:
  assumes "lookup_ok oget" "doc_ok n" "astools_type_parse tb oget (Some n) = Some ty"
  shows "wf_type ty \<and> tdepth ty \<le> Suc TYPE_DEPTH_MAX"
  using type_parse_spec [OF assms(1), of "Some n" tb 0 ty] assms(2,3) by (simp add: astools_type_parse_def)

definition demo_obj :: "(string \<times> xvalue) list \<Rightarrow> xvalue" where
  "demo_obj fs = XObject (map (\<lambda>(k, v). (Some k, Some (XNode [] [] (Some v)))) fs)"

definition demo_type_doc :: xnode where
  "demo_type_doc = XNode [] [] (Some (demo_obj
     [(''kind'', XString (Some ''object'')),
      (''fields'', XArray [Some (XNode [] [] (Some (demo_obj
         [(''name'', XString (Some ''n'')), (''type'', demo_obj [(''kind'', XString (Some ''integer'')), (''min'', XInt 2)]),
          (''default'', XInt 3)])))])]))"

lemma demo_type_parses:
  "astools_type_parse True first_key (Some demo_type_doc) =
     Some (AType (type_new AT_OBJECT) None None
       [AParam (Some ''n'') (Some (AType ((type_new AT_INTEGER)\<lparr>thas_min := True, tmin_num := 2\<rparr>) None None []))
          False (Some (XNode [] [] (Some (XInt 3)))) None])"
  by (simp add: astools_type_parse_def demo_type_doc_def demo_obj_def type_parse_at.simps TYPE_DEPTH_MAX_def
      check_obj_dups_def dup_str_def SIZE_MAX_def xfind_def xget_def str_val_def kind_lookup_def kind_table_def
      only_keys_def param_parse_def param_name_ok_def is_lower_def is_digit_def chcode_def opt_bool_def
      parse_description_def examples_ok_def parse_default_def parse_bounds_def opt_bound_def type_new_def Let_def
      clone_node.simps clone_value.simps CLONE_DEPTH_MAX_def check_scalar_def int_ge_def TWO_POW_63_def
      dbl_of_int_def floorlog_def)

theorem type_parse_wf_witness:
  "\<exists>ty. astools_type_parse True first_key (Some demo_type_doc) = Some ty \<and> wf_type ty \<and> tdepth ty \<le> 33"
proof -
  have "doc_ok demo_type_doc"
    by (simp add: demo_type_doc_def demo_obj_def int64_ok_def INT64_MAX_def INT64_MIN_def all_some_def)
  from type_parse_wf [OF first_key_ok this demo_type_parses] demo_type_parses show ?thesis
    by (simp add: TYPE_DEPTH_MAX_def)
qed

end
