(* ===== verification/As_Path.thy ===== *)
theory As_Path
  imports As_Prelude "HOL-Library.Sublist"
begin

text \<open>
  \<^verbatim>\<open>src/path.c\<close> (POSIX branch): canonical paths and prefix containment, the basis of the filesystem
  grants. The kernel's \<open>realpath\<close> is a parameter; \<open>realpath_ok\<close> is its documented result form.
\<close>

section \<open>Joining and lexical cleanup\<close>

definition os_path_is_abs :: "string \<Rightarrow> bool" where
  "os_path_is_abs path \<longleftrightarrow> cur path = CHR ''/''"

definition os_path_join :: "string option \<Rightarrow> string option \<Rightarrow> string" where
  "os_path_join a b =
     (case a of
        None \<Rightarrow> (case b of None \<Rightarrow> [] | Some b \<Rightarrow> b)
      | Some a \<Rightarrow>
          if a = [] then (case b of None \<Rightarrow> [] | Some b \<Rightarrow> b)
          else (case b of None \<Rightarrow> a | Some b \<Rightarrow>
            if b = [] then a
            else if last a \<noteq> CHR ''/'' \<and> last a \<noteq> CHR 0x5C then a @ ''/'' @ b
            else a @ b))"

text \<open>The copying loop of \<open>path_squeeze\<close>: \<open>out\<close> is what has been written.\<close>

fun squeeze_loop :: "string \<Rightarrow> string \<Rightarrow> string" where
  "squeeze_loop out [] = out"
| "squeeze_loop out (c # s) =
     (if c = CHR ''/'' \<and> out \<noteq> [] \<and> last out = CHR ''/'' then squeeze_loop out s
      else squeeze_loop (out @ [c]) s)"

definition path_squeeze :: "string \<Rightarrow> string" where
  "path_squeeze s =
     (let r = (if cget s 0 = CHR ''/'' \<and> cget s 1 = CHR ''/'' \<and> cget s 2 \<noteq> CHR ''/''
               then squeeze_loop ''//'' (drop 2 s) else squeeze_loop [] s)
      in if length r > 1 \<and> last r = CHR ''/'' then butlast r else r)"

definition comp_rejected :: "string \<Rightarrow> bool" where
  "comp_rejected seg \<longleftrightarrow> seg = [] \<or> seg = ''.'' \<or> seg = ''..''"

section \<open>Canonical paths\<close>

definition last_comp :: "string \<Rightarrow> string" where
  "last_comp work = rev (takeWhile (\<lambda>c. c \<noteq> CHR ''/'') (rev work))"

text \<open>The component handed out and what is left of the path.\<close>

definition strip_last :: "string \<Rightarrow> (string \<times> string) res" where
  "strip_last work =
     (if work = [] \<or> work = ''/'' then Inl ASTOOLS_ERR_IO
      else let seg = last_comp work in
        if comp_rejected seg then Inl ASTOOLS_ERR_INVALID
        else Inr (seg,
          if CHR ''/'' \<notin> set work then []
          else let pre = take (length work - length seg - 1) work in if pre = [] then ''/'' else pre))"

lemma last_comp_length: "length (last_comp work) \<le> length work"
  by (simp add: last_comp_def) (metis length_rev length_takeWhile_le)

lemma strip_last_less:
  assumes "strip_last work = Inr (seg, rest)"
  shows "length rest < length work"
proof -
  have c: "seg = last_comp work" "seg \<noteq> []" "work \<noteq> []" "work \<noteq> ''/''"
    and rest: "rest = (if CHR ''/'' \<notin> set work then []
          else let pre = take (length work - length seg - 1) work in if pre = [] then ''/'' else pre)"
    using assms by (auto simp: strip_last_def comp_rejected_def Let_def split: if_splits)
  have "length work \<noteq> Suc 0" if "CHR ''/'' \<in> set work"
  proof
    assume "length work = Suc 0"
    with that have "work = ''/''" by (cases work) auto
    with c show False by simp
  qed
  moreover have "length work \<noteq> 0" using c by simp
  ultimately show ?thesis
    using c(2) last_comp_length [of work] unfolding rest Let_def by (cases work) auto
qed

type_synonym kernel_path = "string \<Rightarrow> string res"

text \<open>
  The walk to the deepest existing ancestor: its canonical form and the missing components, deepest
  first.
\<close>

function walk_up :: "kernel_path \<Rightarrow> string \<Rightarrow> string list \<Rightarrow> (string \<times> string list) res" where
  "walk_up realpath work tail =
     (case strip_last work of
        Inl e \<Rightarrow> Inl e
      | Inr (seg, rest) \<Rightarrow>
          if rest = [] then Inl ASTOOLS_ERR_IO
          else (case realpath rest of
              Inr canon \<Rightarrow> Inr (canon, tail @ [seg])
            | Inl e \<Rightarrow> if e \<noteq> ASTOOLS_ERR_NOT_FOUND then Inl e else walk_up realpath rest (tail @ [seg])))"
  by pat_completeness auto
termination
  by (relation "measure (\<lambda>(_, work, _). length work)") (auto dest: strip_last_less)

declare walk_up.simps [simp del]

text \<open>Re-appending the tail, shallowest component first.\<close>

definition append_comp :: "string \<Rightarrow> string \<Rightarrow> string" where
  "append_comp b seg = (if b = [] \<or> last b \<noteq> CHR ''/'' then b @ ''/'' @ seg else b @ seg)"

definition astools_path_canonical :: "kernel_path \<Rightarrow> string option \<Rightarrow> string option \<Rightarrow> bool \<Rightarrow> string res" where
  "astools_path_canonical realpath workspace inp missing_ok =
     (case inp of None \<Rightarrow> Inl ASTOOLS_ERR_INVALID | Some p \<Rightarrow>
      if p = [] then Inl ASTOOLS_ERR_INVALID
      else let work = path_squeeze (if os_path_is_abs p then p else os_path_join workspace inp) in
        if work = [] then Inl ASTOOLS_ERR_INVALID
        else (case realpath work of
            Inr canon \<Rightarrow> if canon = [] then Inl ASTOOLS_ERR_IO else Inr canon
          | Inl e \<Rightarrow>
              if e \<noteq> ASTOOLS_ERR_NOT_FOUND then Inl e
              else if \<not> missing_ok then Inl ASTOOLS_ERR_NOT_FOUND
              else (case walk_up realpath work [] of
                  Inl e \<Rightarrow> Inl e
                | Inr (canon, tail) \<Rightarrow>
                    if canon = [] then Inl ASTOOLS_ERR_IO
                    else Inr (foldl append_comp canon (rev tail)))))"

section \<open>Containment\<close>

fun trimmed_len :: "nat \<Rightarrow> string \<Rightarrow> nat" where
  "trimmed_len 0 p = 0"
| "trimmed_len (Suc n) p = (if n \<ge> 1 \<and> cget p n = CHR ''/'' then trimmed_len n p else Suc n)"

definition astools_path_under :: "string option \<Rightarrow> string option \<Rightarrow> bool" where
  "astools_path_under path pre =
     (case (path, pre) of
        (Some path, Some pre) \<Rightarrow>
          if cur path \<noteq> CHR ''/'' \<or> cur pre \<noteq> CHR ''/'' then False
          else let plen = trimmed_len (length pre) pre in
            if plen = 1 then True
            else if take plen path \<noteq> take plen pre then False
            else cget path plen = NUL \<or> cget path plen = CHR ''/''
      | _ \<Rightarrow> False)"

section \<open>Canonical form\<close>

text \<open>An absolute path as the list of its components.\<close>

definition comp_ok :: "string \<Rightarrow> bool" where
  "comp_ok c \<longleftrightarrow> \<not> comp_rejected c \<and> CHR ''/'' \<notin> set c \<and> nul_free c"

definition abs_path :: "string list \<Rightarrow> string" where
  "abs_path comps = (if comps = [] then ''/'' else concat (map (\<lambda>c. CHR ''/'' # c) comps))"

definition canonical :: "string \<Rightarrow> bool" where
  "canonical p \<longleftrightarrow> (\<exists>comps. list_all comp_ok comps \<and> p = abs_path comps)"

text \<open>
  What POSIX promises of \<open>realpath\<close>: an absolute path without empty, dot or dot-dot components, or an
  error code other than success.
\<close>

definition realpath_ok :: "kernel_path \<Rightarrow> bool" where
  "realpath_ok realpath \<longleftrightarrow> (\<forall>p. case realpath p of Inr c \<Rightarrow> canonical c | Inl e \<Rightarrow> e \<noteq> ASTOOLS_OK)"

lemma realpath_okD: "realpath_ok realpath \<Longrightarrow> realpath p = Inr c \<Longrightarrow> canonical c"
  unfolding realpath_ok_def by (metis sum.case(2))

lemma realpath_ok_err: "realpath_ok realpath \<Longrightarrow> realpath p \<noteq> Inl ASTOOLS_OK"
  unfolding realpath_ok_def by (metis sum.case(1))

lemma append_comp_abs:
  assumes "list_all comp_ok comps" "comp_ok c"
  shows "append_comp (abs_path comps) c = abs_path (comps @ [c])"
proof (cases comps rule: rev_cases)
  case Nil
  then show ?thesis by (simp add: append_comp_def abs_path_def)
next
  case (snoc init l)
  have l: "l \<noteq> []" "CHR ''/'' \<notin> set l" using assms(1) by (simp_all add: snoc comp_ok_def comp_rejected_def)
  then have "last l \<noteq> CHR ''/''" using last_in_set by metis
  with l have "last (abs_path comps) \<noteq> CHR ''/''" by (simp add: snoc abs_path_def)
  then show ?thesis by (simp add: append_comp_def snoc abs_path_def)
qed

lemma foldl_append_comp:
  "list_all comp_ok cs \<Longrightarrow> list_all comp_ok comps \<Longrightarrow> foldl append_comp (abs_path comps) cs = abs_path (comps @ cs)"
proof (induction cs arbitrary: comps)
  case (Cons c cs)
  then show ?case using Cons.IH [of "comps @ [c]"] by (simp add: append_comp_abs)
qed simp

lemma strip_last_comp:
  assumes "strip_last work = Inr (seg, rest)" "nul_free work"
  shows "comp_ok seg" "nul_free rest"
proof -
  have c: "seg = last_comp work" "\<not> comp_rejected seg"
    using assms(1) by (auto simp: strip_last_def Let_def split: if_splits)
  have "set seg \<subseteq> set work" unfolding c(1) last_comp_def using set_takeWhileD by fastforce
  moreover have "CHR ''/'' \<notin> set seg"
    unfolding c(1) last_comp_def using set_takeWhileD by fastforce
  ultimately show "comp_ok seg" using c(2) assms(2) by (auto simp: comp_ok_def nul_free_def)
  have "set rest \<subseteq> insert (CHR ''/'') (set work)"
    using assms(1) set_take_subset [of _ work] by (fastforce simp: strip_last_def Let_def split: if_splits)
  then show "nul_free rest" using assms(2) by (auto simp: nul_free_def NUL_def)
qed

lemma walk_up_comps:
  assumes "walk_up realpath work tail = Inr (canon, tail')" "nul_free work" "list_all comp_ok tail"
  shows "list_all comp_ok tail' \<and> (\<exists>rest. realpath rest = Inr canon)"
  using assms
proof (induction realpath work tail rule: walk_up.induct)
  case (1 realpath work tail)
  from "1.prems"(1) obtain seg rest where s: "strip_last work = Inr (seg, rest)" "rest \<noteq> []"
    by (auto simp: walk_up.simps [of _ work] split: sum.splits if_splits)
  note c = strip_last_comp [OF s(1) "1.prems"(2)]
  show ?case
  proof (cases "realpath rest")
    case (Inr canon')
    with "1.prems" s c show ?thesis by (auto simp: walk_up.simps [of _ work])
  next
    case (Inl e)
    with "1.prems"(1) s have e: "e = ASTOOLS_ERR_NOT_FOUND"
      and w: "walk_up realpath rest (tail @ [seg]) = Inr (canon, tail')"
      by (auto simp: walk_up.simps [of _ work] split: if_splits)
    show ?thesis
      by (rule "1.IH" [OF s(1) refl s(2) Inl _ w c(2)]) (use e c "1.prems"(3) in simp_all)
  qed
qed

text \<open>
  What the walk does to the text: it cuts whole components off its end, each after finding that the longer path is missing.
  After a leading double slash the rest of the walk is the root itself.
\<close>

definition tail_text :: "string list \<Rightarrow> string" where
  "tail_text cs = concat (map (\<lambda>c. CHR ''/'' # c) cs)"

lemma tail_text_append [simp]: "tail_text (cs @ [c]) = tail_text cs @ CHR ''/'' # c" "tail_text [] = []"
  by (simp_all add: tail_text_def)

definition cut_at :: "string \<Rightarrow> string list \<Rightarrow> string" where
  "cut_at work cs = take (length work - length (tail_text cs)) work"

definition walk_cut :: "kernel_path \<Rightarrow> string \<Rightarrow> string \<Rightarrow> string list \<Rightarrow> bool" where
  "walk_cut realpath work rest cs \<longleftrightarrow>
     (work = rest @ tail_text cs \<or> rest = ''/'' \<and> work = tail_text cs) \<and>
     (\<forall>k. 0 < k \<and> k < length cs \<longrightarrow> realpath (cut_at work (drop k cs)) = Inl ASTOOLS_ERR_NOT_FOUND)"

lemma last_comp_split: "CHR ''/'' \<in> set work \<Longrightarrow> work = take (length work - length (last_comp work) - 1) work @ CHR ''/'' # last_comp work"
proof -
  assume "CHR ''/'' \<in> set work"
  let ?p = "\<lambda>c. c \<noteq> CHR ''/''"
  obtain y where d: "dropWhile ?p (rev work) = CHR ''/'' # y"
    using \<open>CHR ''/'' \<in> set work\<close> hd_dropWhile [of ?p "rev work"] by (cases "dropWhile ?p (rev work)") (auto simp: dropWhile_eq_Nil_conv)
  have "rev work = takeWhile ?p (rev work) @ CHR ''/'' # y" using takeWhile_dropWhile_id [of ?p "rev work"] d by simp
  from arg_cong [OF this, of rev] have w: "work = rev y @ CHR ''/'' # last_comp work" by (simp add: last_comp_def)
  from arg_cong [OF w, of length] have "length work - length (last_comp work) - 1 = length (rev y)" by simp
  moreover have "take (length (rev y)) work = rev y" by (subst w) simp
  ultimately show ?thesis using w by simp
qed

lemma strip_last_cut:
  assumes "strip_last work = Inr (seg, rest)" "rest \<noteq> []"
  shows "work = rest @ CHR ''/'' # seg \<or> rest = ''/'' \<and> work = CHR ''/'' # seg"
proof -
  have seg: "seg = last_comp work" "CHR ''/'' \<in> set work"
    and rest: "rest = (let pre = take (length work - length seg - 1) work in if pre = [] then ''/'' else pre)"
    using assms by (auto simp: strip_last_def Let_def split: if_splits)
  from last_comp_split [OF seg(2)] show ?thesis unfolding rest Let_def seg(1) by (auto split: if_splits)
qed

lemma strip_last_root: "strip_last ''/'' = Inl ASTOOLS_ERR_IO"
  by (simp add: strip_last_def)

lemma walk_up_cut:
  "walk_up realpath work tl0 = Inr (canon, tl1) \<Longrightarrow>
    \<exists>cs rest. tl1 = tl0 @ rev cs \<and> cs \<noteq> [] \<and> realpath rest = Inr canon \<and> walk_cut realpath work rest cs"
proof (induction realpath work tl0 rule: walk_up.induct)
  case (1 realpath work tl0)
  from "1.prems" obtain seg rest where s: "strip_last work = Inr (seg, rest)" "rest \<noteq> []"
    by (auto simp: walk_up.simps [of _ work] split: sum.splits if_splits)
  note cut = strip_last_cut [OF s]
  show ?case
  proof (cases "realpath rest")
    case (Inr canon')
    with "1.prems" s have "canon' = canon" "tl1 = tl0 @ [seg]" by (auto simp: walk_up.simps [of _ work])
    with Inr cut show ?thesis
      by (intro exI [of _ "[seg]"] exI [of _ rest]) (auto simp: walk_cut_def tail_text_def)
  next
    case (Inl e)
    with "1.prems" s have e: "e = ASTOOLS_ERR_NOT_FOUND" and w: "walk_up realpath rest (tl0 @ [seg]) = Inr (canon, tl1)"
      by (auto simp: walk_up.simps [of _ work] split: if_splits)
    from "1.IH" [OF s(1) refl s(2) Inl _ w] e obtain cs q where ih: "tl1 = (tl0 @ [seg]) @ rev cs" "cs \<noteq> []"
      "realpath q = Inr canon" "walk_cut realpath rest q cs" by auto
    have "rest \<noteq> ''/''" using w strip_last_root by (auto simp: walk_up.simps [of _ rest])
    with cut have work: "work = rest @ CHR ''/'' # seg" by blast
    have last: "cut_at work [seg] = rest" by (simp add: cut_at_def work tail_text_def)
    have early: "cut_at work (ds @ [seg]) = cut_at rest ds" for ds by (simp add: cut_at_def work)
    have "realpath (cut_at work (drop k (cs @ [seg]))) = Inl ASTOOLS_ERR_NOT_FOUND" if "0 < k" "k < length (cs @ [seg])" for k
    proof (cases "k = length cs")
      case True
      then show ?thesis using last Inl e by simp
    next
      case False
      then show ?thesis using ih(4) that early by (simp add: walk_cut_def)
    qed
    moreover have "work = q @ tail_text (cs @ [seg]) \<or> q = ''/'' \<and> work = tail_text (cs @ [seg])"
      using ih(4) by (auto simp: walk_cut_def work)
    ultimately have "walk_cut realpath work q (cs @ [seg])" by (simp add: walk_cut_def)
    with ih(1,3) show ?thesis by (intro exI [of _ "cs @ [seg]"] exI [of _ q]) simp
  qed
qed

lemma squeeze_loop_set: "set (squeeze_loop out s) \<subseteq> set out \<union> set s"
  by (induction out s rule: squeeze_loop.induct) auto

lemma path_squeeze_nul_free: "nul_free s \<Longrightarrow> nul_free (path_squeeze s)"
proof -
  assume s: "nul_free s"
  have a: "nul_free (squeeze_loop [] s)"
    using squeeze_loop_set [of "[]" s] s by (auto simp: nul_free_def)
  have b: "nul_free (squeeze_loop ''//'' (drop 2 s))"
    using squeeze_loop_set [of "''//''" "drop 2 s"] s set_drop_subset [of 2 s] by (auto simp: nul_free_def NUL_def)
  have "nul_free (butlast r)" if "nul_free r" for r
    using that in_set_butlastD [of _ r] by (auto simp: nul_free_def)
  with a b show ?thesis by (simp add: path_squeeze_def Let_def)
qed

lemma os_path_join_nul_free:
  "(\<forall>a. ws = Some a \<longrightarrow> nul_free a) \<Longrightarrow> nul_free p \<Longrightarrow> nul_free (os_path_join ws (Some p))"
  by (auto simp: os_path_join_def nul_free_def NUL_def split: option.splits)

text \<open>The text a canonicalisation starts from: the input itself or under the workspace, its double slashes squeezed.\<close>

definition input_text :: "string option \<Rightarrow> string \<Rightarrow> string" where
  "input_text ws p = path_squeeze (if os_path_is_abs p then p else os_path_join ws (Some p))"

lemma path_canonical_spec:
  assumes "realpath_ok realpath" "\<forall>a. ws = Some a \<longrightarrow> nul_free a" "nul_free p"
    and "astools_path_canonical realpath ws (Some p) missing_ok = Inr out"
  shows "\<exists>anc tail work. list_all comp_ok (anc @ tail) \<and> realpath work = Inr (abs_path anc) \<and>
    out = abs_path (anc @ tail) \<and> (tail = [] \<or> missing_ok) \<and>
    walk_cut realpath (input_text ws p) work tail \<and>
    (tail = [] \<or> realpath (input_text ws p) = Inl ASTOOLS_ERR_NOT_FOUND)"
proof -
  let ?work = "input_text ws p"
  have work: "nul_free ?work"
    using path_squeeze_nul_free os_path_join_nul_free [OF assms(2,3)] assms(3) by (simp add: input_text_def)
  have rp: "canonical c" if "realpath q = Inr c" for q c by (rule realpath_okD [OF assms(1) that])
  from assms(4) have p: "p \<noteq> []" "?work \<noteq> []"
    by (auto simp: astools_path_canonical_def input_text_def Let_def split: if_splits)
  show ?thesis
  proof (cases "realpath ?work")
    case (Inr canon)
    then have "canon = out" using assms(4) p by (auto simp: astools_path_canonical_def input_text_def Let_def split: if_splits)
    with rp [OF Inr] obtain anc where "list_all comp_ok anc" "out = abs_path anc" by (auto simp: canonical_def)
    with Inr \<open>canon = out\<close> show ?thesis
      by (intro exI [of _ anc] exI [of _ "[]"] exI [of _ ?work]) (simp add: walk_cut_def)
  next
    case (Inl e)
    then obtain canon tail where w: "walk_up realpath ?work [] = Inr (canon, tail)" "missing_ok"
      "out = foldl append_comp canon (rev tail)" "e = ASTOOLS_ERR_NOT_FOUND"
      using assms(4) p by (auto simp: astools_path_canonical_def input_text_def Let_def split: if_splits sum.splits)
    from walk_up_cut [OF w(1)] obtain cs rest where c: "tail = rev cs" "cs \<noteq> []" "realpath rest = Inr canon"
      "walk_cut realpath ?work rest cs" by auto
    from walk_up_comps [OF w(1) work] have "list_all comp_ok cs" using c(1) by (simp add: list_all_iff)
    from rp [OF c(3)] obtain anc where anc: "list_all comp_ok anc" "canon = abs_path anc"
      by (auto simp: canonical_def)
    have "out = abs_path (anc @ cs)" using foldl_append_comp [OF \<open>list_all comp_ok cs\<close> anc(1)] w(3) c(1) anc(2) by simp
    with \<open>list_all comp_ok cs\<close> c anc w(2,4) Inl show ?thesis
      by (intro exI [of _ anc] exI [of _ cs] exI [of _ rest]) simp
  qed
qed

lemma walk_up_not_ok: "realpath_ok realpath \<Longrightarrow> walk_up realpath work tail \<noteq> Inl ASTOOLS_OK"
proof (induction realpath work tail rule: walk_up.induct)
  case (1 realpath work tail)
  have "strip_last work \<noteq> Inl ASTOOLS_OK" by (simp add: strip_last_def Let_def)
  with "1.IH" "1.prems" realpath_ok_err [OF "1.prems"] show ?case
    by (simp add: walk_up.simps [of _ work] split: sum.splits) blast
qed

lemma path_canonical_not_ok:
  "realpath_ok realpath \<Longrightarrow> astools_path_canonical realpath ws p missing_ok \<noteq> Inl ASTOOLS_OK"
  using walk_up_not_ok [of realpath] realpath_ok_err [of realpath]
  by (auto simp: astools_path_canonical_def Let_def split: option.splits sum.splits if_splits)

section \<open>Containment on canonical paths\<close>

definition segs :: "string list \<Rightarrow> string" where
  "segs comps = concat (map (\<lambda>c. CHR ''/'' # c) comps)"

lemma segs_simps [simp]:
  "segs [] = []" "segs (c # cs) = CHR ''/'' # c @ segs cs" "segs (xs @ ys) = segs xs @ segs ys"
  by (simp_all add: segs_def)

lemma abs_path_segs: "abs_path comps = (if comps = [] then ''/'' else segs comps)"
  by (simp add: abs_path_def segs_def)

lemma segs_last:
  assumes "comps \<noteq> []" "list_all comp_ok comps"
  shows "last (segs comps) \<noteq> CHR ''/''" "segs comps \<noteq> []"
proof -
  obtain init l where c: "comps = init @ [l]" using assms(1) by (cases comps rule: rev_cases) auto
  have l: "l \<noteq> []" "CHR ''/'' \<notin> set l" using assms(2) by (simp_all add: c comp_ok_def comp_rejected_def)
  then have "last l \<noteq> CHR ''/''" using last_in_set by metis
  with l show "last (segs comps) \<noteq> CHR ''/''" by (simp add: c)
  show "segs comps \<noteq> []" using c by simp
qed

lemma trimmed_len_id: "p \<noteq> [] \<Longrightarrow> last p \<noteq> CHR ''/'' \<Longrightarrow> trimmed_len (length p) p = length p"
  by (cases p rule: rev_cases) (simp_all add: cget_def)

text \<open>A component that a cut of the path leaves whole is the path's first component.\<close>

lemma first_seg:
  assumes "comp_ok x" "comp_ok y" "R = [] \<or> hd R = CHR ''/''"
    and "take (length y) (x @ R) = y" "cget (x @ R) (length y) = NUL \<or> cget (x @ R) (length y) = CHR ''/''"
  shows "x = y"
proof (cases "length y < length x")
  case True
  then have "cget (x @ R) (length y) = x ! length y" by (simp add: cget_def nth_append)
  moreover have "x ! length y \<in> set x" using True by simp
  ultimately show ?thesis using assms(1,5) by (auto simp: comp_ok_def nul_free_def)
next
  case False
  show ?thesis
  proof (cases "length y = length x")
    case True
    with assms(4) show ?thesis by simp
  next
    case longer: False
    with False have l: "length x < length y" by simp
    then have "R \<noteq> []" using assms(4) by auto
    then have "(x @ R) ! length x = CHR ''/''" using assms(3) by (simp add: hd_conv_nth nth_append)
    moreover have "y ! length x = (x @ R) ! length x" using assms(4) l by (metis nth_take)
    ultimately have "CHR ''/'' \<in> set y" using l by (metis nth_mem)
    with assms(2) show ?thesis by (simp add: comp_ok_def)
  qed
qed

lemma segs_prefix:
  assumes "list_all comp_ok xs" "list_all comp_ok ys"
  shows "take (length (segs ys)) (segs xs) = segs ys \<and>
      (cget (segs xs) (length (segs ys)) = NUL \<or> cget (segs xs) (length (segs ys)) = CHR ''/'') \<longleftrightarrow> prefix ys xs"
  using assms
proof (induction ys arbitrary: xs)
  case Nil
  then show ?case by (cases xs) (simp_all add: cget_def)
next
  case (Cons y ys)
  show ?case
  proof (cases xs)
    case (Cons x xs')
    have hd: "segs zs = [] \<or> hd (segs zs) = CHR ''/''" for zs by (cases zs) simp_all
    have IH: "take (length (segs ys)) (segs xs') = segs ys \<and>
        (cget (segs xs') (length (segs ys)) = NUL \<or> cget (segs xs') (length (segs ys)) = CHR ''/'') \<longleftrightarrow> prefix ys xs'"
      using Cons.IH [of xs'] Cons.prems Cons by simp
    have shift: "cget (CHR ''/'' # x @ segs xs') (length (segs (x # ys))) = cget (segs xs') (length (segs ys))"
      by (simp add: cget_def nth_append)
    show ?thesis
    proof (cases "x = y")
      case True
      with IH shift Cons show ?thesis by simp
    next
      case False
      have "x = y" if "take (length (segs (y # ys))) (segs xs) = segs (y # ys)"
        "cget (segs xs) (length (segs (y # ys))) = NUL \<or> cget (segs xs) (length (segs (y # ys))) = CHR ''/''"
      proof (rule first_seg [OF _ _ hd [of xs']])
        show "comp_ok x" "comp_ok y" using Cons.prems Cons by simp_all
        have t: "take (length y + length (segs ys)) (x @ segs xs') = y @ segs ys" using that(1) Cons by simp
        then show "take (length y) (x @ segs xs') = y"
          by (metis append_eq_conv_conj le_add1 min.absorb1 take_take)
        show "cget (x @ segs xs') (length y) = NUL \<or> cget (x @ segs xs') (length y) = CHR ''/''"
        proof (cases ys)
          case Nil
          with that(2) Cons show ?thesis by (auto simp: cget_def split: if_splits)
        next
          case zs: (Cons z zs)
          have "length (take (length y + length (segs ys)) (x @ segs xs')) = length (y @ segs ys)"
            using t by (rule arg_cong)
          then have len: "length y < length (x @ segs xs')" by (simp add: zs min_def split: if_splits)
          have "(x @ segs xs') ! length y = (y @ segs ys) ! length y"
            using t by (metis less_add_same_cancel1 nth_take zs length_greater_0_conv list.discI segs_simps(2))
          then show ?thesis using len by (simp add: cget_def zs nth_append)
        qed
      qed
      with False show ?thesis unfolding Cons by auto
    qed
  qed simp
qed

lemma path_under_spec:
  assumes "list_all comp_ok xs" "list_all comp_ok ys"
  shows "astools_path_under (Some (abs_path xs)) (Some (abs_path ys)) \<longleftrightarrow> prefix ys xs"
proof (cases "ys = []")
  case True
  then show ?thesis by (cases xs) (simp_all add: astools_path_under_def abs_path_segs)
next
  case False
  obtain y ys' where y: "ys = y # ys'" using False by (cases ys) auto
  have yl: "y \<noteq> []" using assms(2) by (auto simp: y comp_ok_def comp_rejected_def)
  then have len: "length (segs ys) \<noteq> Suc 0" by (simp add: y)
  have plen: "trimmed_len (length (segs ys)) (segs ys) = length (segs ys)"
    by (rule trimmed_len_id) (use segs_last [OF False assms(2)] in simp_all)
  have cur: "cur (segs ys) = CHR ''/''" by (simp add: y)
  show ?thesis
  proof (cases "xs = []")
    case True
    have "take (length (segs ys)) ''/'' \<noteq> segs ys" using yl by (simp add: y)
    then show ?thesis using False True cur plen len by (simp add: astools_path_under_def abs_path_segs)
  next
    case xs: False
    then have "cur (segs xs) = CHR ''/''" by (cases xs) simp_all
    then show ?thesis
      using False xs cur plen len segs_prefix [OF assms] by (auto simp: astools_path_under_def abs_path_segs)
  qed
qed

section \<open>The interface of containment\<close>

text \<open>
  What the policy relies on: containment is a partial order in which the containers of a path form a
  chain.
\<close>

locale containment =
  fixes canon :: "'p \<Rightarrow> bool" and under :: "'p \<Rightarrow> 'p \<Rightarrow> bool"
  assumes under_refl: "canon p \<Longrightarrow> under p p"
    and under_trans: "canon p \<Longrightarrow> canon q \<Longrightarrow> canon r \<Longrightarrow> under p q \<Longrightarrow> under q r \<Longrightarrow> under p r"
    and under_antisym: "canon p \<Longrightarrow> canon q \<Longrightarrow> under p q \<Longrightarrow> under q p \<Longrightarrow> p = q"
    and under_chain: "canon p \<Longrightarrow> canon q \<Longrightarrow> canon r \<Longrightarrow> under p q \<Longrightarrow> under p r \<Longrightarrow> under q r \<or> under r q"
begin

text \<open>Being inside both of two prefixes is being inside the deeper one, if one contains the other.\<close>

lemma under_both:
  assumes "canon p" "canon a" "canon b"
  shows "under p a \<and> under p b \<longleftrightarrow> (under a b \<and> under p a) \<or> (\<not> under a b \<and> under b a \<and> under p b)"
  using under_trans [OF assms] under_trans [OF assms(1,3,2)] under_chain [OF assms] by blast

lemma under_widen:
  "canon p \<Longrightarrow> canon q \<Longrightarrow> canon r \<Longrightarrow> \<not> under p r \<Longrightarrow> under p q \<Longrightarrow> \<not> under q r"
  using under_trans by blast

end

interpretation paths: containment canonical "\<lambda>p q. astools_path_under (Some p) (Some q)"
proof unfold_locales
  fix p q r
  show "canonical p \<Longrightarrow> astools_path_under (Some p) (Some p)"
    by (auto simp: canonical_def path_under_spec)
  show "canonical p \<Longrightarrow> canonical q \<Longrightarrow> canonical r \<Longrightarrow> astools_path_under (Some p) (Some q) \<Longrightarrow>
      astools_path_under (Some q) (Some r) \<Longrightarrow> astools_path_under (Some p) (Some r)"
    by (auto simp: canonical_def path_under_spec dest: prefix_order.trans)
  show "canonical p \<Longrightarrow> canonical q \<Longrightarrow> astools_path_under (Some p) (Some q) \<Longrightarrow>
      astools_path_under (Some q) (Some p) \<Longrightarrow> p = q"
    by (auto simp: canonical_def path_under_spec dest: prefix_order.antisym)
  show "canonical p \<Longrightarrow> canonical q \<Longrightarrow> canonical r \<Longrightarrow> astools_path_under (Some p) (Some q) \<Longrightarrow>
      astools_path_under (Some p) (Some r) \<Longrightarrow>
      astools_path_under (Some q) (Some r) \<or> astools_path_under (Some r) (Some q)"
    by (auto simp: canonical_def path_under_spec dest: prefix_same_cases)
qed

section \<open>Properties\<close>

text \<open>
  C7: A canonicalised path has no empty, dot or dot-dot component: it is the kernel's resolution of
  some existing path followed by literal missing components, which appear only when missing paths
  are allowed. The existing path is the input, put under the workspace when relative and squeezed, without exactly
  those components, and every path between it and the input is missing: it is the deepest existing ancestor.
  No input, relative or absolute, escapes its resolved ancestor textually.
\<close>

theorem path_canonical_sound:
  assumes "realpath_ok realpath" "nul_free w" "nul_free p"
    and "astools_path_canonical realpath (Some w) (Some p) missing_ok = Inr out"
  shows "\<exists>anc tail work. list_all comp_ok (anc @ tail) \<and> realpath work = Inr (abs_path anc) \<and>
    out = abs_path (anc @ tail) \<and> (tail = [] \<or> missing_ok) \<and>
    walk_cut realpath (input_text (Some w) p) work tail \<and>
    (tail = [] \<or> realpath (input_text (Some w) p) = Inl ASTOOLS_ERR_NOT_FOUND)"
  by (rule path_canonical_spec [OF assms(1) _ assms(3,4)]) (simp add: assms(2))

text \<open>A file system with only the directory \<open>/w\<close>, for witnesses.\<close>

definition demo_realpath :: kernel_path where
  "demo_realpath p =
     (if p \<in> {''/'', ''/w''} then Inr p else Inl ASTOOLS_ERR_NOT_FOUND)"

lemma demo_realpath_ok: "realpath_ok demo_realpath"
proof -
  have "canonical ''/''" unfolding canonical_def abs_path_def by (rule exI [of _ "[]"]) simp
  moreover have "canonical ''/w''" unfolding canonical_def abs_path_def
    by (rule exI [of _ "[''w'']"]) (simp add: comp_ok_def comp_rejected_def nul_free_def NUL_def)
  ultimately show ?thesis by (auto simp: realpath_ok_def demo_realpath_def split: if_splits)
qed

theorem path_canonical_sound_witness:
  "astools_path_canonical demo_realpath (Some ''/w'') (Some ''a//b/'') True = Inr ''/w/a/b'' \<and>
   (\<exists>anc tail work. list_all comp_ok (anc @ tail) \<and> demo_realpath work = Inr (abs_path anc) \<and> ''/w/a/b'' = abs_path (anc @ tail) \<and>
      walk_cut demo_realpath (input_text (Some ''/w'') ''a//b/'') work tail)"
proof -
  have "astools_path_canonical demo_realpath (Some ''/w'') (Some ''a//b/'') True = Inr ''/w/a/b''"
    by (simp add: astools_path_canonical_def os_path_is_abs_def os_path_join_def path_squeeze_def cget_def
        demo_realpath_def walk_up.simps strip_last_def last_comp_def comp_rejected_def append_comp_def Let_def)
  with path_canonical_sound [OF demo_realpath_ok _ _ this] show ?thesis
    by (fastforce simp: nul_free_def NUL_def)
qed

text \<open>
  On canonical paths the containment test is component-wise: a path is under a prefix exactly when
  the prefix's components are a prefix of the path's, so \<open>/srv/data2\<close> is not under \<open>/srv/data\<close>.
\<close>

theorem path_under_components:
  assumes "list_all comp_ok xs" "list_all comp_ok ys"
  shows "astools_path_under (Some (abs_path xs)) (Some (abs_path ys)) \<longleftrightarrow> prefix ys xs"
  by (rule path_under_spec [OF assms])

theorem path_under_components_witness:
  "\<not> astools_path_under (Some ''/srv/data2'') (Some ''/srv/data'') \<and>
   astools_path_under (Some ''/srv/data/x'') (Some ''/srv/data'')"
  using path_under_components [of "[''srv'', ''data2'']" "[''srv'', ''data'']"]
    path_under_components [of "[''srv'', ''data'', ''x'']" "[''srv'', ''data'']"]
  by (simp add: abs_path_def comp_ok_def comp_rejected_def nul_free_def NUL_def)

end
