(* ===== verification/As_Policy.thy ===== *)
theory As_Policy
  imports As_Path As_Check
begin

unbundle bit_operations_syntax

text \<open>
  \<^verbatim>\<open>src/policy.c\<close>: the effective policy of a tool (manifest request and host grants intersected) and
  the pre-flight, which replaces every path argument by its canonical form and refuses the invocation
  when one is not covered. Messages and log lines are not modelled; of the context, the workspace,
  its access and the grants are arguments.
\<close>

definition POLICY_MAX_DEPTH :: nat where
  "POLICY_MAX_DEPTH = 128"

record astools_fs_perm =
  fpath :: "string option"
  faccess :: nat

record astools_perms =
  pm_fs :: "astools_fs_perm list"
  pm_net :: bool
  pm_proc :: bool
  pm_env :: "string option list"

record astools_grant =
  g_tool :: "string option"
  g_fs :: "astools_fs_perm list"
  g_net :: bool
  g_proc :: bool
  g_env :: "string option list"

record astools_effective =
  ef_fs :: "astools_fs_perm list"
  ef_net :: bool
  ef_proc :: bool
  ef_env :: "string list"

section \<open>Prefix lists\<close>

definition canon_push :: "kernel_path \<Rightarrow> string option \<Rightarrow> astools_fs_perm list \<Rightarrow> astools_fs_perm
    \<Rightarrow> astools_fs_perm list res" where
  "canon_push realpath ws l q =
     (if fpath q = None \<or> faccess q AND ASTOOLS_ACCESS_RW = 0 then Inr l
      else (case astools_path_canonical realpath ws (fpath q) True of
          Inl e \<Rightarrow> if e = ASTOOLS_ERR_NOMEM then Inl e else Inr l
        | Inr canon \<Rightarrow> Inr (l @ [\<lparr>fpath = Some canon, faccess = faccess q AND ASTOOLS_ACCESS_RW\<rparr>])))"

fun canon_push_all :: "kernel_path \<Rightarrow> string option \<Rightarrow> astools_fs_perm list \<Rightarrow> astools_fs_perm list
    \<Rightarrow> astools_fs_perm list res" where
  "canon_push_all realpath ws l [] = Inr l"
| "canon_push_all realpath ws l (q # qs) =
     bind_res (canon_push realpath ws l q) (\<lambda>l'. canon_push_all realpath ws l' qs)"

text \<open>The grants of this tool.\<close>

definition tool_grants :: "string option \<Rightarrow> astools_grant list \<Rightarrow> astools_grant list" where
  "tool_grants tool gs = filter (\<lambda>g. g_tool g \<noteq> None \<and> tool \<noteq> None \<and> g_tool g = tool) gs"

definition granted_prefixes :: "kernel_path \<Rightarrow> string option \<Rightarrow> nat \<Rightarrow> astools_grant list
    \<Rightarrow> astools_fs_perm list res" where
  "granted_prefixes realpath ws ws_access gs =
     canon_push_all realpath ws
       (if ws_access AND ASTOOLS_ACCESS_RW \<noteq> 0 \<and> ws \<noteq> None
        then [\<lparr>fpath = ws, faccess = ws_access AND ASTOOLS_ACCESS_RW\<rparr>] else [])
       (concat (map g_fs gs))"

section \<open>Intersection\<close>

text \<open>One pair of a request and a grant.\<close>

definition meet_pair :: "astools_fs_perm list \<Rightarrow> astools_fs_perm \<Rightarrow> astools_fs_perm \<Rightarrow> astools_fs_perm list" where
  "meet_pair effl r g =
     (let access = faccess r AND faccess g in
      if access = 0 then effl
      else case (if astools_path_under (fpath r) (fpath g) then Some (fpath r)
                 else if astools_path_under (fpath g) (fpath r) then Some (fpath g) else None) of
          None \<Rightarrow> effl
        | Some deep \<Rightarrow>
            if \<exists>x \<in> set effl. faccess x = access \<and> fpath x = deep then effl
            else effl @ [\<lparr>fpath = deep, faccess = access\<rparr>])"

definition meet_all :: "astools_fs_perm list \<Rightarrow> astools_fs_perm list \<Rightarrow> astools_fs_perm list" where
  "meet_all req grant = foldl (\<lambda>l r. foldl (\<lambda>l g. meet_pair l r g) l grant) [] req"

text \<open>
  The candidate names: the requested ones that are granted or, when nothing is requested, every
  granted one up to the first NULL.
\<close>

definition env_candidates :: "string option list \<Rightarrow> astools_grant list \<Rightarrow> string list" where
  "env_candidates req gs =
     (let granted = concat (map g_env gs) in
      if req = [] then map the (takeWhile (\<lambda>x. x \<noteq> None) granted)
      else map the (filter (\<lambda>x. x \<noteq> None \<and> x \<in> set granted) req))"

definition add_name :: "string list \<Rightarrow> string \<Rightarrow> string list" where
  "add_name env n = (if n \<in> set env then env else env @ [n])"

definition astools_policy_effective :: "kernel_path \<Rightarrow> string option \<Rightarrow> nat \<Rightarrow> astools_grant list
    \<Rightarrow> string option \<Rightarrow> astools_perms \<Rightarrow> astools_effective res" where
  "astools_policy_effective realpath ws ws_access grants tool m =
     (let gs = tool_grants tool grants in
      bind_res (canon_push_all realpath ws [] (pm_fs m)) (\<lambda>req.
      bind_res (granted_prefixes realpath ws ws_access gs) (\<lambda>grant.
        Inr \<lparr>ef_fs = meet_all req grant,
             ef_net = (pm_net m \<and> list_ex g_net gs),
             ef_proc = (pm_proc m \<and> list_ex g_proc gs),
             ef_env = foldl add_name [] (env_candidates (pm_env m) gs)\<rparr>)))"

section \<open>Pre-flight\<close>

text \<open>Whether an access to a canonical path is covered.\<close>

definition fs_covered :: "astools_fs_perm list \<Rightarrow> nat \<Rightarrow> string \<Rightarrow> bool" where
  "fs_covered fs access canon =
     list_ex (\<lambda>x. fpath x \<noteq> None \<and> int access AND NOT (int (faccess x)) = 0 \<and>
       astools_path_under (Some canon) (fpath x)) fs"

text \<open>A path argument: canonicalise, check the grant, only then look at the file system.\<close>

definition walk_path :: "kernel_path \<Rightarrow> (string \<Rightarrow> bool) \<Rightarrow> string option \<Rightarrow> astools_fs_perm list \<Rightarrow> tscalars
    \<Rightarrow> xnode \<Rightarrow> astools_err \<times> xnode" where
  "walk_path realpath present ws fs t node =
     (case xval node of
        Some (XString (Some s)) \<Rightarrow>
          (case astools_path_canonical realpath ws (Some s) True of
             Inl e \<Rightarrow> (e, node)
           | Inr canon \<Rightarrow>
               if \<not> fs_covered fs (taccess t) canon then (ASTOOLS_ERR_DENIED, node)
               else if tmust_exist t \<and> \<not> present canon then (ASTOOLS_ERR_INVALID, node)
               else (ASTOOLS_OK, XNode (xtags node) (xannots node) (Some (XString (Some canon)))))
      | _ \<Rightarrow> (ASTOOLS_OK, node))"

definition put_val :: "xnode \<Rightarrow> xvalue \<Rightarrow> xnode" where
  "put_val node v = XNode (xtags node) (xannots node) (Some v)"

function walk_type :: "kernel_path \<Rightarrow> (string \<Rightarrow> bool) \<Rightarrow> xlookup \<Rightarrow> string option \<Rightarrow> astools_fs_perm list
      \<Rightarrow> nat \<Rightarrow> astools_type \<Rightarrow> xnode option \<Rightarrow> astools_err \<times> xnode option"
  and walk_fields :: "kernel_path \<Rightarrow> (string \<Rightarrow> bool) \<Rightarrow> xlookup \<Rightarrow> string option \<Rightarrow> astools_fs_perm list
      \<Rightarrow> nat \<Rightarrow> astools_param list \<Rightarrow> xentries \<Rightarrow> astools_err \<times> xentries" where
  "walk_type realpath present oget ws fs depth (AType t item vtype flds) v =
     (case v of None \<Rightarrow> (ASTOOLS_OK, v) | Some node \<Rightarrow>
      if depth > POLICY_MAX_DEPTH then (ASTOOLS_ERR_INVALID, v)
      else if tkind t = AT_PATH then
        (case walk_path realpath present ws fs t node of (e, node') \<Rightarrow> (e, Some node'))
      else if tkind t = AT_ARRAY then
        (case (xval node, item) of
           (Some (XArray items), Some it) \<Rightarrow>
             (case check_items (\<lambda>x. walk_type realpath present oget ws fs (depth + 1) it x) items of
                (e, items') \<Rightarrow> (e, Some (put_val node (XArray items'))))
         | _ \<Rightarrow> (ASTOOLS_OK, v))
      else if tkind t = AT_MAP then
        (case (xval node, vtype) of
           (Some (XObject es), Some vt) \<Rightarrow>
             (case check_items (\<lambda>x. walk_type realpath present oget ws fs (depth + 1) vt x) (map snd es) of
                (e, vs') \<Rightarrow> (e, Some (put_val node (XObject (zip (map fst es) vs')))))
         | _ \<Rightarrow> (ASTOOLS_OK, v))
      else if tkind t = AT_OBJECT then
        (case xval node of
           Some (XObject es) \<Rightarrow>
             (case walk_fields realpath present oget ws fs (depth + 1) flds es of
                (e, es') \<Rightarrow> (e, Some (put_val node (XObject es'))))
         | _ \<Rightarrow> (ASTOOLS_OK, v))
      else (ASTOOLS_OK, v))"
| "walk_fields realpath present oget ws fs depth [] es = (ASTOOLS_OK, es)"
| "walk_fields realpath present oget ws fs depth (AParam nm ty req dflt descr # ps) es =
     (case (nm, ty) of
        (Some name, Some t) \<Rightarrow>
          (case xget oget es name of
             None \<Rightarrow> walk_fields realpath present oget ws fs depth ps es
           | Some (i, n) \<Rightarrow>
              (case walk_type realpath present oget ws fs depth t (Some n) of
                 (e, n') \<Rightarrow>
                   let es' = es[i := (fst (es ! i), n')]
                   in if e \<noteq> ASTOOLS_OK then (e, es')
                      else walk_fields realpath present oget ws fs depth ps es'))
      | _ \<Rightarrow> walk_fields realpath present oget ws fs depth ps es)"
  by pat_completeness auto
termination
  by (relation "measure (\<lambda>x. case x of Inl (_, _, _, _, _, _, t, _) \<Rightarrow> size t
        | Inr (_, _, _, _, _, _, ps, _) \<Rightarrow> size_list size ps)") auto

definition astools_policy_preflight :: "kernel_path \<Rightarrow> (string \<Rightarrow> bool) \<Rightarrow> xlookup \<Rightarrow> string option \<Rightarrow> astools_perms
    \<Rightarrow> astools_effective \<Rightarrow> astools_param list \<Rightarrow> xnode option \<Rightarrow> astools_err \<times> xnode option" where
  "astools_policy_preflight realpath present oget ws m eff params args =
     (case (case args of
              Some (XNode tags annots (Some (XObject es))) \<Rightarrow>
                (case walk_fields realpath present oget ws (ef_fs eff) 0 params es of
                   (e, es') \<Rightarrow> (e, Some (XNode tags annots (Some (XObject es')))))
            | _ \<Rightarrow> (ASTOOLS_OK, args)) of
        (e, args') \<Rightarrow>
          if e \<noteq> ASTOOLS_OK then (e, args')
          else if pm_proc m \<and> \<not> ef_proc eff then (ASTOOLS_ERR_DENIED, args')
          else if pm_net m \<and> \<not> ef_net eff then (ASTOOLS_ERR_DENIED, args')
          else (ASTOOLS_OK, args'))"

section \<open>The effective policy is the intersection\<close>

text \<open>Access bit \<open>b\<close> (0 read, 1 write) to a path.\<close>

definition fs_allows :: "astools_fs_perm list \<Rightarrow> string \<Rightarrow> nat \<Rightarrow> bool" where
  "fs_allows l p b \<longleftrightarrow> (\<exists>x \<in> set l. astools_path_under (Some p) (fpath x) \<and> bit (faccess x) b)"

definition prefixes_ok :: "astools_fs_perm list \<Rightarrow> bool" where
  "prefixes_ok l \<longleftrightarrow> (\<forall>x \<in> set l. \<exists>q. fpath x = Some q \<and> canonical q)"

lemma fs_allows_simps [simp]:
  "\<not> fs_allows [] p b"
  "fs_allows (x # l) p b \<longleftrightarrow> astools_path_under (Some p) (fpath x) \<and> bit (faccess x) b \<or> fs_allows l p b"
  "fs_allows (l @ l') p b \<longleftrightarrow> fs_allows l p b \<or> fs_allows l' p b"
  by (auto simp: fs_allows_def)

lemma prefixes_ok_simps [simp]:
  "prefixes_ok []"
  "prefixes_ok (x # l) \<longleftrightarrow> (\<exists>q. fpath x = Some q \<and> canonical q) \<and> prefixes_ok l"
  "prefixes_ok (l @ l') \<longleftrightarrow> prefixes_ok l \<and> prefixes_ok l'"
  by (auto simp: prefixes_ok_def)

lemma canonical_nul_free: "canonical q \<Longrightarrow> nul_free q"
proof -
  assume "canonical q"
  then obtain cs where cs: "list_all comp_ok cs" "q = abs_path cs" by (auto simp: canonical_def)
  from cs(1) have "nul_free (abs_path cs)"
    by (induction cs) (auto simp: abs_path_def comp_ok_def nul_free_def NUL_def split: if_splits)
  with cs show ?thesis by simp
qed

lemma canon_push_prefixes:
  assumes "realpath_ok realpath" "canonical w" "canon_push realpath (Some w) l q = Inr l'" "prefixes_ok l"
    and "\<forall>s. fpath q = Some s \<longrightarrow> nul_free s"
  shows "prefixes_ok l'"
proof -
  have "canonical c" if fq: "fpath q = Some s" and fc: "astools_path_canonical realpath (Some w) (fpath q) True = Inr c" for s c
  proof -
    have "nul_free s" using assms(5) fq by simp
    moreover have "\<forall>a. Some w = Some a \<longrightarrow> nul_free a" using canonical_nul_free [OF assms(2)] by simp
    ultimately obtain anc tail where "list_all comp_ok (anc @ tail)" "c = abs_path (anc @ tail)"
      using path_canonical_spec [OF assms(1) _ _ fc [unfolded fq]] by blast
    then show ?thesis unfolding canonical_def by blast
  qed
  with assms(3,4) show ?thesis
    by (auto simp: canon_push_def split: if_splits sum.splits)
qed

lemma canon_push_all_prefixes:
  assumes "realpath_ok realpath" "canonical w"
  shows "canon_push_all realpath (Some w) l qs = Inr l' \<Longrightarrow> prefixes_ok l \<Longrightarrow>
    \<forall>q \<in> set qs. \<forall>s. fpath q = Some s \<longrightarrow> nul_free s \<Longrightarrow> prefixes_ok l'"
proof (induction qs arbitrary: l)
  case (Cons q qs)
  then obtain l1 where l1: "canon_push realpath (Some w) l q = Inr l1" "canon_push_all realpath (Some w) l1 qs = Inr l'"
    by (auto simp: bind_res_Inr_iff)
  have "prefixes_ok l1" by (rule canon_push_prefixes [OF assms l1(1) Cons.prems(2)]) (use Cons.prems(3) in auto)
  from Cons.IH [OF l1(2) this] Cons.prems(3) show ?case by simp
qed simp

lemma meet_pair_allows:
  assumes "canonical p" "prefixes_ok [r]" "prefixes_ok [g]"
  shows "fs_allows (meet_pair l r g) p b \<longleftrightarrow>
    fs_allows l p b \<or> (fs_allows [r] p b \<and> fs_allows [g] p b)"
proof -
  obtain rp gp where q: "fpath r = Some rp" "canonical rp" "fpath g = Some gp" "canonical gp"
    using assms(2,3) by auto
  note both = paths.under_both [OF assms(1) q(2,4)]
  have bits: "bit (faccess r AND faccess g) b \<longleftrightarrow> bit (faccess r) b \<and> bit (faccess g) b"
    by (simp add: bit_and_iff)
  have dup: "fs_allows (if \<exists>x \<in> set l. faccess x = a \<and> fpath x = d then l else l @ [\<lparr>fpath = d, faccess = a\<rparr>]) p b \<longleftrightarrow>
      fs_allows l p b \<or> (astools_path_under (Some p) d \<and> bit a b)" for a d
    by (auto simp: fs_allows_def)
  show ?thesis
  proof (cases "faccess r AND faccess g = 0")
    case True
    then have "\<not> (bit (faccess r) b \<and> bit (faccess g) b)" using bits by simp
    with True show ?thesis by (auto simp: meet_pair_def)
  next
    case False
    then show ?thesis
      using both bits by (auto simp: meet_pair_def Let_def dup q)
  qed
qed

lemma meet_all_allows:
  assumes "canonical p" "prefixes_ok req" "prefixes_ok grant"
  shows "fs_allows (meet_all req grant) p b \<longleftrightarrow> fs_allows req p b \<and> fs_allows grant p b"
proof -
  have inner: "fs_allows (foldl (\<lambda>l g. meet_pair l r g) l gs) p b \<longleftrightarrow>
      fs_allows l p b \<or> (fs_allows [r] p b \<and> fs_allows gs p b)" if "prefixes_ok [r]" "prefixes_ok gs" for r l gs
    using that(2)
  proof (induction gs arbitrary: l)
    case (Cons g gs)
    then have g: "prefixes_ok [g]" by simp
    show ?case using Cons.IH [of "meet_pair l r g"] Cons.prems meet_pair_allows [OF assms(1) that(1) g, of l b] by auto
  qed simp
  have "fs_allows (foldl (\<lambda>l r. foldl (\<lambda>l g. meet_pair l r g) l grant) l rs) p b \<longleftrightarrow>
      fs_allows l p b \<or> (fs_allows rs p b \<and> fs_allows grant p b)" if "prefixes_ok rs" for l rs
    using that
  proof (induction rs arbitrary: l)
    case (Cons r rs)
    then have r: "prefixes_ok [r]" by simp
    show ?case using Cons.IH inner [OF r assms(3), of l] Cons.prems by auto
  qed simp
  from this [OF assms(2), of "[]"] show ?thesis by (simp add: meet_all_def)
qed

lemma meet_all_prefixes:
  assumes "prefixes_ok req" "prefixes_ok grant"
  shows "prefixes_ok (meet_all req grant)"
proof -
  have pair: "prefixes_ok (meet_pair l r g)" if "prefixes_ok l" "prefixes_ok [r]" "prefixes_ok [g]" for l r g
    using that by (auto simp: meet_pair_def Let_def)
  have inner: "prefixes_ok (foldl (\<lambda>l g. meet_pair l r g) l gs)" if "prefixes_ok l" "prefixes_ok [r]" "prefixes_ok gs" for l r gs
    using that by (induction gs arbitrary: l) (simp_all add: pair)
  have "prefixes_ok (foldl (\<lambda>l r. foldl (\<lambda>l g. meet_pair l r g) l grant) l rs)" if "prefixes_ok l" "prefixes_ok rs" for l rs
    using that by (induction rs arbitrary: l) (simp_all add: inner assms(2))
  from this [OF _ assms(1), of "[]"] show ?thesis by (simp add: meet_all_def)
qed

text \<open>Names.\<close>

lemma foldl_add_name:
  "distinct env \<Longrightarrow> distinct (foldl add_name env ns) \<and> set (foldl add_name env ns) = set env \<union> set ns"
  by (induction ns arbitrary: env) (auto simp: add_name_def)

lemma env_candidates_set:
  "n \<in> set (env_candidates req gs) \<longleftrightarrow>
     (if req = [] then Some n \<in> set (takeWhile (\<lambda>x. x \<noteq> None) (concat (map g_env gs)))
      else Some n \<in> set req \<and> Some n \<in> set (concat (map g_env gs)))"
proof -
  have the_some: "n \<in> the ` A \<longleftrightarrow> Some n \<in> A" if "None \<notin> A" for A :: "string option set"
  proof
    assume "n \<in> the ` A"
    then obtain x where "x \<in> A" "n = the x" by blast
    with that show "Some n \<in> A" by (cases x) auto
  qed (metis image_eqI option.sel)
  have "None \<notin> set (takeWhile (\<lambda>x. x \<noteq> None) xs)" for xs :: "string option list"
    using set_takeWhileD by fastforce
  then show ?thesis by (cases "req = []") (simp_all add: env_candidates_def Let_def the_some)
qed

lemma env_candidates_granted:
  "n \<in> set (env_candidates req gs) \<Longrightarrow> Some n \<in> set (concat (map g_env gs)) \<and> (req \<noteq> [] \<longrightarrow> Some n \<in> set req)"
  unfolding env_candidates_set by (auto split: if_splits dest!: set_takeWhileD)

lemma effective_spec:
  assumes "realpath_ok realpath" "canonical w"
    and "\<forall>q \<in> set (pm_fs m) \<union> set (concat (map g_fs grants)). \<forall>s. fpath q = Some s \<longrightarrow> nul_free s"
    and "astools_policy_effective realpath (Some w) wa grants tool m = Inr eff"
  shows "\<exists>req grant. canon_push_all realpath (Some w) [] (pm_fs m) = Inr req \<and>
    granted_prefixes realpath (Some w) wa (tool_grants tool grants) = Inr grant \<and>
    prefixes_ok (ef_fs eff) \<and>
    (\<forall>p b. canonical p \<longrightarrow> fs_allows (ef_fs eff) p b = (fs_allows req p b \<and> fs_allows grant p b)) \<and>
    (ef_net eff = (pm_net m \<and> list_ex g_net (tool_grants tool grants))) \<and>
    (ef_proc eff = (pm_proc m \<and> list_ex g_proc (tool_grants tool grants))) \<and>
    distinct (ef_env eff) \<and> Some ` set (ef_env eff) \<subseteq> set (concat (map g_env (tool_grants tool grants))) \<and>
    (pm_env m = [] \<or> Some ` set (ef_env eff) \<subseteq> set (pm_env m)) \<and>
    (\<forall>n. n \<in> set (ef_env eff) \<longleftrightarrow>
       (if pm_env m = [] then Some n \<in> set (takeWhile (\<lambda>x. x \<noteq> None) (concat (map g_env (tool_grants tool grants))))
        else Some n \<in> set (pm_env m) \<and> Some n \<in> set (concat (map g_env (tool_grants tool grants)))))"
proof -
  obtain req grant where rg: "canon_push_all realpath (Some w) [] (pm_fs m) = Inr req"
    "granted_prefixes realpath (Some w) wa (tool_grants tool grants) = Inr grant"
    and eff: "eff = \<lparr>ef_fs = meet_all req grant,
             ef_net = (pm_net m \<and> list_ex g_net (tool_grants tool grants)),
             ef_proc = (pm_proc m \<and> list_ex g_proc (tool_grants tool grants)),
             ef_env = foldl add_name [] (env_candidates (pm_env m) (tool_grants tool grants))\<rparr>"
    using assms(4) by (auto simp: astools_policy_effective_def Let_def bind_res_Inr_iff)
  have req: "prefixes_ok req"
    by (rule canon_push_all_prefixes [OF assms(1,2) rg(1)]) (use assms(3) in auto)
  have grant: "prefixes_ok grant"
    by (rule canon_push_all_prefixes [OF assms(1,2) rg(2) [unfolded granted_prefixes_def]])
       (use assms(2,3) in \<open>auto simp: tool_grants_def\<close>)
  have names: "distinct (ef_env eff)" "set (ef_env eff) = set (env_candidates (pm_env m) (tool_grants tool grants))"
    using foldl_add_name [of "[]"] by (simp_all add: eff)
  have exact: "\<forall>n. n \<in> set (ef_env eff) \<longleftrightarrow>
       (if pm_env m = [] then Some n \<in> set (takeWhile (\<lambda>x. x \<noteq> None) (concat (map g_env (tool_grants tool grants))))
        else Some n \<in> set (pm_env m) \<and> Some n \<in> set (concat (map g_env (tool_grants tool grants))))"
    unfolding names(2) env_candidates_set by simp
  have sub: "Some ` set (ef_env eff) \<subseteq> set (concat (map g_env (tool_grants tool grants)))"
    "pm_env m = [] \<or> Some ` set (ef_env eff) \<subseteq> set (pm_env m)"
    unfolding names(2) using env_candidates_granted by blast+
  have parts: "prefixes_ok (ef_fs eff)" "ef_net eff = (pm_net m \<and> list_ex g_net (tool_grants tool grants))"
    "ef_proc eff = (pm_proc m \<and> list_ex g_proc (tool_grants tool grants))"
    "\<forall>p b. canonical p \<longrightarrow> fs_allows (ef_fs eff) p b = (fs_allows req p b \<and> fs_allows grant p b)"
    using meet_all_prefixes [OF req grant] meet_all_allows [OF _ req grant] by (simp_all add: eff)
  show ?thesis by (intro exI conjI) (fact rg parts sub names(1) exact)+
qed

text \<open>
  C2: The effective policy is exactly the intersection of what the manifest requests and what the host
  grants: for every canonical path, each of read and write is allowed when and only when both sides
  allow it; network and processes need both; the environment names are exactly the requested names that
  are granted, each once. A manifest that requests no name gets the granted ones instead, up to the
  first NULL entry of the grants.
\<close>

theorem policy_effective_intersection:
  assumes "realpath_ok realpath" "canonical w"
    and "\<forall>q \<in> set (pm_fs m) \<union> set (concat (map g_fs grants)). \<forall>s. fpath q = Some s \<longrightarrow> nul_free s"
    and "astools_policy_effective realpath (Some w) wa grants tool m = Inr eff"
  shows "\<exists>req grant. canon_push_all realpath (Some w) [] (pm_fs m) = Inr req \<and>
    granted_prefixes realpath (Some w) wa (tool_grants tool grants) = Inr grant \<and>
    prefixes_ok (ef_fs eff) \<and>
    (\<forall>p b. canonical p \<longrightarrow> fs_allows (ef_fs eff) p b = (fs_allows req p b \<and> fs_allows grant p b)) \<and>
    (ef_net eff = (pm_net m \<and> list_ex g_net (tool_grants tool grants))) \<and>
    (ef_proc eff = (pm_proc m \<and> list_ex g_proc (tool_grants tool grants))) \<and>
    distinct (ef_env eff) \<and> Some ` set (ef_env eff) \<subseteq> set (concat (map g_env (tool_grants tool grants))) \<and>
    (pm_env m = [] \<or> Some ` set (ef_env eff) \<subseteq> set (pm_env m)) \<and>
    (\<forall>n. n \<in> set (ef_env eff) \<longleftrightarrow>
       (if pm_env m = [] then Some n \<in> set (takeWhile (\<lambda>x. x \<noteq> None) (concat (map g_env (tool_grants tool grants))))
        else Some n \<in> set (pm_env m) \<and> Some n \<in> set (concat (map g_env (tool_grants tool grants)))))"
  by (rule effective_spec [OF assms])

text \<open>A tool that asks to write \<open>/w/sub\<close> and read \<open>/\<close>, in a workspace \<open>/w\<close> granted for reading, with a
  write grant for the tool.\<close>

definition demo_perms :: astools_perms where
  "demo_perms = \<lparr>pm_fs = [\<lparr>fpath = Some ''sub'', faccess = 3\<rparr>, \<lparr>fpath = Some ''/'', faccess = 1\<rparr>],
     pm_net = True, pm_proc = False, pm_env = [Some ''HOME'', Some ''PATH'']\<rparr>"

definition demo_grants :: "astools_grant list" where
  "demo_grants = [\<lparr>g_tool = Some ''t'', g_fs = [\<lparr>fpath = Some ''.'', faccess = 2\<rparr>, \<lparr>fpath = Some ''/w'', faccess = 2\<rparr>],
     g_net = False, g_proc = True, g_env = [Some ''PATH'']\<rparr>]"

lemma demo_canonical: "canonical ''/w''"
  unfolding canonical_def abs_path_def
  by (rule exI [of _ "[''w'']"]) (simp add: comp_ok_def comp_rejected_def nul_free_def NUL_def)

theorem policy_effective_intersection_witness:
  "\<exists>eff. astools_policy_effective demo_realpath (Some ''/w'') 1 demo_grants (Some ''t'') demo_perms = Inr eff \<and>
     ef_env eff = [''PATH''] \<and> \<not> ef_net eff \<and>
     fs_allows (ef_fs eff) ''/w'' 0 \<and> \<not> fs_allows (ef_fs eff) ''/w'' 1"
proof -
  let ?eff = "\<lparr>ef_fs = [\<lparr>fpath = Some ''/w/sub'', faccess = 1\<rparr>, \<lparr>fpath = Some ''/w/sub'', faccess = 2\<rparr>,
      \<lparr>fpath = Some ''/w'', faccess = 1\<rparr>], ef_net = False, ef_proc = False, ef_env = [''PATH'']\<rparr>"
  have run: "astools_policy_effective demo_realpath (Some ''/w'') 1 demo_grants (Some ''t'') demo_perms = Inr ?eff"
    by (simp add: astools_policy_effective_def demo_grants_def demo_perms_def tool_grants_def granted_prefixes_def
        canon_push_def astools_path_canonical_def os_path_is_abs_def os_path_join_def path_squeeze_def cget_def
        demo_realpath_def walk_up.simps strip_last_def last_comp_def comp_rejected_def append_comp_def Let_def
        ASTOOLS_ACCESS_RW_def meet_all_def meet_pair_def astools_path_under_def env_candidates_def add_name_def)
  have free: "\<forall>q \<in> set (pm_fs demo_perms) \<union> set (concat (map g_fs demo_grants)). \<forall>s. fpath q = Some s \<longrightarrow> nul_free s"
    by (simp add: demo_perms_def demo_grants_def nul_free_def NUL_def)
  show ?thesis
    using policy_effective_intersection [OF demo_realpath_ok demo_canonical free run] run
    by (auto simp: astools_path_under_def cget_def bit_simps)
qed

section \<open>What the pre-flight guarantees\<close>

text \<open>Every path-typed leaf of a value satisfies \<open>P\<close>.\<close>

fun paths_sat :: "(tscalars \<Rightarrow> string \<Rightarrow> bool) \<Rightarrow> astools_type \<Rightarrow> xnode option \<Rightarrow> bool"
  and fields_sat :: "(tscalars \<Rightarrow> string \<Rightarrow> bool) \<Rightarrow> astools_param list \<Rightarrow> xentries \<Rightarrow> bool" where
  "paths_sat P (AType t item vtype flds) v \<longleftrightarrow>
     (case Option.bind v xval of None \<Rightarrow> True | Some val \<Rightarrow>
        if tkind t = AT_PATH then (case val of XString (Some s) \<Rightarrow> P t s | _ \<Rightarrow> True)
        else if tkind t = AT_ARRAY then
          (case item of None \<Rightarrow> True | Some it \<Rightarrow>
           case items_of val of None \<Rightarrow> True | Some xs \<Rightarrow> list_all (\<lambda>x. paths_sat P it x) xs)
        else if tkind t = AT_MAP then
          (case vtype of None \<Rightarrow> True | Some vt \<Rightarrow>
           case entries_of val of None \<Rightarrow> True | Some es \<Rightarrow> list_all (\<lambda>x. paths_sat P vt x) (map snd es))
        else if tkind t = AT_OBJECT then
          (case entries_of val of None \<Rightarrow> True | Some es \<Rightarrow> fields_sat P flds es)
        else True)"
| "fields_sat P [] es \<longleftrightarrow> True"
| "fields_sat P (AParam nm ty req dflt descr # ps) es \<longleftrightarrow>
     (case ty of None \<Rightarrow> True | Some t \<Rightarrow>
      case map_of es nm of None \<Rightarrow> True | Some x \<Rightarrow> paths_sat P t x) \<and>
     fields_sat P ps es"

lemma fields_sat_cong:
  assumes "\<And>p. p \<in> set ps \<Longrightarrow> map_of es (pname p) = map_of fs (pname p)"
  shows "fields_sat P ps es \<longleftrightarrow> fields_sat P ps fs"
  using assms
proof (induction ps)
  case (Cons p ps)
  obtain nm ty req dflt descr where p: "p = AParam nm ty req dflt descr" by (cases p)
  have "map_of es nm = map_of fs nm" using Cons.prems [of p] p by simp
  moreover have "fields_sat P ps es \<longleftrightarrow> fields_sat P ps fs"
    by (rule Cons.IH) (simp add: Cons.prems)
  ultimately show ?case by (cases ty) (simp_all add: p)
qed simp

lemma admits_fields_cong2:
  assumes "\<And>p. p \<in> set ps \<Longrightarrow> map_of es (pname p) = map_of fs (pname p)"
  shows "admits_fields ps es es \<longleftrightarrow> admits_fields ps fs fs"
  using assms
proof (induction ps)
  case (Cons p ps)
  obtain nm ty req dflt descr where p: "p = AParam nm ty req dflt descr" by (cases p)
  have "map_of es nm = map_of fs nm" using Cons.prems [of p] p by simp
  moreover have "admits_fields ps es es \<longleftrightarrow> admits_fields ps fs fs"
    by (rule Cons.IH) (simp add: Cons.prems)
  ultimately show ?case by (cases ty; cases "map_of fs nm"; cases dflt) (simp_all add: p)
qed simp

lemma check_items_all:
  assumes "check_items f xs = (ASTOOLS_OK, ys)" "\<And>x y. x \<in> set xs \<Longrightarrow> f x = (ASTOOLS_OK, y) \<Longrightarrow> Q y"
  shows "list_all Q ys \<and> length ys = length xs"
  using assms
proof (induction xs arbitrary: ys)
  case (Cons x xs)
  obtain e y where fx: "f x = (e, y)" by fastforce
  obtain e' zs where rest: "check_items f xs = (e', zs)" by fastforce
  have "e = ASTOOLS_OK" "e' = ASTOOLS_OK" "ys = y # zs"
    using Cons.prems(1) fx rest by (auto split: if_splits)
  with Cons.IH [of zs] Cons.prems(2) fx rest show ?case by auto
qed simp

definition path_granted :: "astools_fs_perm list \<Rightarrow> (string \<Rightarrow> bool) \<Rightarrow> tscalars \<Rightarrow> string \<Rightarrow> bool" where
  "path_granted fs present t s \<longleftrightarrow>
     canonical s \<and> fs_covered fs (taccess t) s \<and> (tmust_exist t \<longrightarrow> present s)"

lemma walk_path_granted:
  assumes "realpath_ok realpath" "\<forall>a. ws = Some a \<longrightarrow> nul_free a" "walk_path realpath present ws fs t node = (ASTOOLS_OK, node')"
    and "\<forall>s. xval node = Some (XString (Some s)) \<longrightarrow> nul_free s"
  shows "case xval node' of Some (XString (Some s)) \<Rightarrow> path_granted fs present t s | _ \<Rightarrow> True"
proof (cases "\<exists>s. xval node = Some (XString (Some s))")
  case True
  then obtain s where s: "xval node = Some (XString (Some s))" by blast
  then obtain c where c: "astools_path_canonical realpath ws (Some s) True = Inr c"
    "fs_covered fs (taccess t) c" "tmust_exist t \<longrightarrow> present c" "xval node' = Some (XString (Some c))"
    using assms(3) path_canonical_not_ok [OF assms(1)] by (auto simp: walk_path_def split: sum.splits if_splits)
  have "canonical c"
    using path_canonical_spec [OF assms(1,2) _ c(1)] assms(4) s unfolding canonical_def by blast
  with c show ?thesis by (simp add: path_granted_def)
next
  case False
  then have "node' = node"
    using assms(3) by (auto simp: walk_path_def split: option.splits xvalue.splits)
  with False show ?thesis by (auto split: option.splits xvalue.splits)
qed

text \<open>Validated values: keys are distinct and every node of a declared field is there.\<close>

definition free_ws :: "string option \<Rightarrow> bool" where
  "free_ws ws \<longleftrightarrow> (\<forall>a. ws = Some a \<longrightarrow> nul_free a)"

lemma walk_granted:
  "realpath_ok realpath \<Longrightarrow> lookup_ok oget \<Longrightarrow> free_ws ws \<Longrightarrow>
      wf_type ty \<Longrightarrow> admits ty v v \<Longrightarrow> paths_sat (\<lambda>_. nul_free) ty v \<Longrightarrow>
      walk_type realpath present oget ws fs depth ty v = (ASTOOLS_OK, v') \<Longrightarrow>
      paths_sat (path_granted fs present) ty v'"
    "realpath_ok realpath \<Longrightarrow> lookup_ok oget \<Longrightarrow> free_ws ws \<Longrightarrow>
      wf_params ps \<Longrightarrow> distinct (map pname ps) \<Longrightarrow> distinct (map fst es) \<Longrightarrow> admits_fields ps es es \<Longrightarrow>
      fields_sat (\<lambda>_. nul_free) ps es \<Longrightarrow>
      walk_fields realpath present oget ws fs depth ps es = (ASTOOLS_OK, es') \<Longrightarrow>
      fields_sat (path_granted fs present) ps es' \<and>
      (\<forall>k. k \<notin> set (map pname ps) \<longrightarrow> map_of es' k = map_of es k)"
proof (induction realpath present oget ws fs depth ty v and realpath present oget ws fs depth ps es
    arbitrary: v' and es' rule: walk_type_walk_fields.induct)
  case (1 realpath present oget ws fs depth t item vtype flds v)
  obtain tags annots val where v: "v = Some (XNode tags annots (Some val))"
    using admits_node [OF "1.prems"(5)] by blast
  note wf = "1.prems"(4) [unfolded wf_type.simps]
  note adm = "1.prems"(5) [unfolded v]
  have dp: "\<not> depth > POLICY_MAX_DEPTH" using "1.prems"(7) by (auto simp: v)
  consider (path) "tkind t = AT_PATH" | (arr) "tkind t = AT_ARRAY" | (mp) "tkind t = AT_MAP" | (obj) "tkind t = AT_OBJECT"
    | (sc) "tkind t \<noteq> AT_PATH" "tkind t \<noteq> AT_ARRAY" "tkind t \<noteq> AT_MAP" "tkind t \<noteq> AT_OBJECT" by blast
  then show ?case
  proof cases
    case path
    obtain node' where w: "walk_path realpath present ws fs t (XNode tags annots (Some val)) = (ASTOOLS_OK, node')"
      "v' = Some node'"
      using "1.prems"(7) dp by (auto simp: v path split: prod.splits)
    have "\<forall>s. val = XString (Some s) \<longrightarrow> nul_free s" using "1.prems"(6) by (auto simp: v path)
    with walk_path_granted [OF "1.prems"(1) "1.prems"(3) [unfolded free_ws_def] w(1)]
    show ?thesis by (auto simp: w(2) path split: option.splits)
  next
    case arr
    then obtain it where it: "item = Some it" "wf_type it" using wf by (auto split: option.splits)
    obtain xs where xs: "val = XArray xs" "list_all2 (admits it) xs xs"
      using adm unfolding it admits_array [OF arr] by auto
    obtain xs' where xs': "check_items (\<lambda>x. walk_type realpath present oget ws fs (depth + 1) it x) xs = (ASTOOLS_OK, xs')"
      "v' = Some (XNode tags annots (Some (XArray xs')))"
      using "1.prems"(7) dp by (auto simp: v arr xs it put_val_def split: prod.splits)
    have free: "list_all (paths_sat (\<lambda>_. nul_free) it) xs" using "1.prems"(6) by (simp add: v arr it xs)
    have "list_all (paths_sat (path_granted fs present) it) xs' \<and> length xs' = length xs"
    proof (rule check_items_all [OF xs'(1)])
      fix x y assume x: "x \<in> set xs" and w: "walk_type realpath present oget ws fs (depth + 1) it x = (ASTOOLS_OK, y)"
      have a: "admits it x x" using xs(2) x by (simp add: list_all2_same)
      have f: "paths_sat (\<lambda>_. nul_free) it x" using free x by (simp add: list_all_iff)
      show "paths_sat (path_granted fs present) it y"
        by (rule "1.IH"(1) [OF v dp _ arr _ refl xs(1) it(1) "1.prems"(1-3) it(2) a f w]) (simp_all add: arr it(1))
    qed
    then show ?thesis by (simp add: xs'(2) arr it)
  next
    case mp
    then obtain vt where vt: "vtype = Some vt" "wf_type vt" using wf by (auto split: option.splits)
    obtain es where es: "val = XObject es" "list_all2 (admits vt) (map snd es) (map snd es)"
      using adm unfolding vt admits_map [OF mp] by auto
    obtain vs' where vs': "check_items (\<lambda>x. walk_type realpath present oget ws fs (depth + 1) vt x) (map snd es) = (ASTOOLS_OK, vs')"
      "v' = Some (XNode tags annots (Some (XObject (zip (map fst es) vs'))))"
      using "1.prems"(7) dp by (auto simp: v mp es vt put_val_def split: prod.splits)
    have free: "list_all (paths_sat (\<lambda>_. nul_free) vt) (map snd es)" using "1.prems"(6) by (simp add: v mp vt es)
    have "list_all (paths_sat (path_granted fs present) vt) vs' \<and> length vs' = length (map snd es)"
    proof (rule check_items_all [OF vs'(1)])
      fix x y assume x: "x \<in> set (map snd es)"
        and w: "walk_type realpath present oget ws fs (depth + 1) vt x = (ASTOOLS_OK, y)"
      have a: "admits vt x x" using es(2) x unfolding list_all2_same by blast
      have f: "paths_sat (\<lambda>_. nul_free) vt x" using free x unfolding list_all_iff by blast
      show "paths_sat (path_granted fs present) vt y"
        by (rule "1.IH"(2) [OF v dp _ _ mp _ refl es(1) vt(1) "1.prems"(1-3) vt(2) a f w]) (simp_all add: mp vt(1))
    qed
    then show ?thesis by (simp add: vs'(2) mp vt)
  next
    case obj
    obtain es where es: "val = XObject es" "distinct (map fst es)" "admits_fields flds es es"
      using adm unfolding admits_object [OF obj] by auto
    obtain es' where es': "walk_fields realpath present oget ws fs (depth + 1) flds es = (ASTOOLS_OK, es')"
      "v' = Some (XNode tags annots (Some (XObject es')))"
      using "1.prems"(7) dp by (auto simp: v obj es put_val_def split: prod.splits)
    have free: "fields_sat (\<lambda>_. nul_free) flds es" using "1.prems"(6) by (simp add: v obj es)
    have wfp: "wf_params flds" "distinct (map pname flds)" using wf by auto
    have "fields_sat (path_granted fs present) flds es' \<and>
        (\<forall>k. k \<notin> set (map pname flds) \<longrightarrow> map_of es' k = map_of es k)"
      by (rule "1.IH"(3) [OF v dp _ _ _ obj _ es(1) "1.prems"(1-3) wfp es(2,3) free es'(1)]) (simp_all add: obj)
    then show ?thesis by (simp add: es'(2) obj)
  next
    case sc
    then show ?thesis by (cases v') (auto split: option.splits)
  qed
next
  case (2 realpath present oget ws fs depth es)
  then show ?case by simp
next
  case (3 realpath present oget ws fs depth nm ty req dflt descr ps es)
  note wf = "3.prems"(4) [unfolded wf_params.simps]
  from wf obtain name u where nm: "nm = Some name" and ty: "ty = Some u" "wf_type u"
    by (auto split: option.splits)
  have wfp: "wf_params ps" "distinct (map pname ps)" and fresh: "nm \<notin> set (map pname ps)"
    using "3.prems"(4,5) by simp_all
  have adm: "admits_fields ps es es" using "3.prems"(7) by simp
  have free: "fields_sat (\<lambda>_. nul_free) ps es" using "3.prems"(8) by simp
  have ne: "pname p \<noteq> nm" if "p \<in> set ps" for p using that fresh by auto
  show ?case
  proof (cases "map_of es nm")
    case None
    then have get: "xget oget es name = None"
      using xget_map_of [OF "3.prems"(2,6), of name] nm by simp
    have w: "walk_fields realpath present oget ws fs depth ps es = (ASTOOLS_OK, es')"
      using "3.prems"(9) by (simp add: nm ty get)
    have "fields_sat (path_granted fs present) ps es' \<and> (\<forall>k. k \<notin> set (map pname ps) \<longrightarrow> map_of es' k = map_of es k)"
      by (rule "3.IH"(3) [OF _ nm ty(1) get "3.prems"(1-3) wfp "3.prems"(6) adm free w]) (simp add: nm ty)
    then show ?thesis using None fresh by (simp add: ty)
  next
    case (Some x)
    have a: "admits u x x" using "3.prems"(7) Some by (simp add: ty)
    then obtain n where n: "x = Some n" using admits_node by blast
    then obtain i where i: "xget oget es name = Some (i, n)" "i < length es" "es ! i = (nm, Some n)"
      using xget_map_of [OF "3.prems"(2,6), of name] nm Some by auto
    obtain e n' where c: "walk_type realpath present oget ws fs depth u (Some n) = (e, n')" by fastforce
    let ?es1 = "es[i := (nm, n')]"
    have e: "e = ASTOOLS_OK" and w: "walk_fields realpath present oget ws fs depth ps ?es1 = (ASTOOLS_OK, es')"
      using "3.prems"(9) i c by (auto simp: nm ty Let_def split: if_splits)
    have f: "paths_sat (\<lambda>_. nul_free) u (Some n)" using "3.prems"(8) Some by (simp add: ty n)
    have leaf: "paths_sat (path_granted fs present) u n'"
      by (rule "3.IH"(4) [OF _ nm ty(1) i(1) refl "3.prems"(1-3) ty(2) a [unfolded n] f c [unfolded e]])
         (simp add: nm ty)
    have up: "map_of ?es1 = (map_of es)(nm \<mapsto> n')"
      by (rule map_of_nth_update) (use "3.prems"(6) i in simp_all)
    have "map fst ?es1 = map fst es" using i by (metis fst_conv length_map list_update_id map_update nth_map)
    then have dist1: "distinct (map fst ?es1)" using "3.prems"(6) by simp
    have adm1: "admits_fields ps ?es1 ?es1"
      using adm admits_fields_cong2 [of ps ?es1 es] by (simp add: up ne)
    have free1: "fields_sat (\<lambda>_. nul_free) ps ?es1"
      using free fields_sat_cong [of ps ?es1 es] by (simp add: up ne)
    have rest: "fields_sat (path_granted fs present) ps es' \<and>
        (\<forall>k. k \<notin> set (map pname ps) \<longrightarrow> map_of es' k = map_of ?es1 k)"
      by (rule "3.IH"(5) [OF _ nm ty(1) i(1) refl _ _ _ "3.prems"(1-3) wfp dist1 adm1 free1 w])
         (simp_all add: nm ty c e i)
    then have "map_of es' nm = Some n'" using fresh by (simp add: up)
    with rest leaf show ?thesis by (simp add: ty up)
  qed
qed

lemma args_complete_admits:
  assumes "args_complete params es" "wf_params params"
  shows "admits_fields params es es"
proof -
  have "admits_fields ps es es"
    if "list_all (\<lambda>p. case map_of es (pname p) of
         Some v \<Rightarrow> (case ptype p of None \<Rightarrow> False | Some t \<Rightarrow> admits t v v)
       | None \<Rightarrow> \<not> prequired p \<and> pdflt p = None) ps" "wf_params ps" for ps
    using that
  proof (induction ps)
    case (Cons p ps)
    then show ?case by (cases p) (auto split: option.splits)
  qed simp
  with assms show ?thesis by (simp add: args_complete_def)
qed

lemma preflight_spec:
  assumes "realpath_ok realpath" "lookup_ok oget" "nul_free w"
    and "wf_params params" "distinct (map pname params)" "args_complete params es"
    and "fields_sat (\<lambda>_. nul_free) params es"
    and "astools_policy_preflight realpath present oget (Some w) m eff params
      (Some (XNode tags annots (Some (XObject es)))) = (ASTOOLS_OK, args')"
  shows "\<exists>es'. args' = Some (XNode tags annots (Some (XObject es'))) \<and>
    fields_sat (path_granted (ef_fs eff) present) params es' \<and>
    (\<not> pm_proc m \<or> ef_proc eff) \<and> (\<not> pm_net m \<or> ef_net eff)"
proof -
  obtain es' where w: "walk_fields realpath present oget (Some w) (ef_fs eff) 0 params es = (ASTOOLS_OK, es')"
    "args' = Some (XNode tags annots (Some (XObject es')))"
    "\<not> pm_proc m \<or> ef_proc eff" "\<not> pm_net m \<or> ef_net eff"
    using assms(8) by (auto simp: astools_policy_preflight_def split: prod.splits if_splits)
  have "distinct (map fst es)" using assms(6) by (simp add: args_complete_def)
  from walk_granted(2) [OF assms(1,2) _ assms(4,5) this args_complete_admits [OF assms(6,4)] assms(7) w(1)]
  have "fields_sat (path_granted (ef_fs eff) present) params es'" by (simp add: free_ws_def assms(3))
  with w show ?thesis by blast
qed

text \<open>
  C3: No invocation leaves the pre-flight with an uncovered path: when it succeeds on validated
  arguments, every path-typed value inside them, at any depth of arrays, maps and objects, has been
  replaced by a canonical path that some effective prefix covers with all the access the parameter
  asks for, and that exists when the parameter says so; processes and network are granted when
  requested.
\<close>

theorem preflight_paths_granted:
  assumes "realpath_ok realpath" "lookup_ok oget" "nul_free w"
    and "wf_params params" "distinct (map pname params)" "args_complete params es"
    and "fields_sat (\<lambda>_. nul_free) params es"
    and "astools_policy_preflight realpath present oget (Some w) m eff params
      (Some (XNode tags annots (Some (XObject es)))) = (ASTOOLS_OK, args')"
  shows "\<exists>es'. args' = Some (XNode tags annots (Some (XObject es'))) \<and>
    fields_sat (path_granted (ef_fs eff) present) params es' \<and>
    (\<not> pm_proc m \<or> ef_proc eff) \<and> (\<not> pm_net m \<or> ef_net eff)"
  by (rule preflight_spec [OF assms])

definition demo_call :: "string \<Rightarrow> xentries" where
  "demo_call p = [(Some ''path'', Some (XNode [] [] (Some (XString (Some p))))),
     (Some ''max'', Some (XNode [] [] (Some (XInt 10))))]"

definition demo_eff :: astools_effective where
  "demo_eff = \<lparr>ef_fs = [\<lparr>fpath = Some ''/w'', faccess = 1\<rparr>], ef_net = False, ef_proc = True, ef_env = []\<rparr>"

lemma demo_preflight:
  "astools_policy_preflight demo_realpath (\<lambda>_. False) first_key (Some ''/w'')
     \<lparr>pm_fs = [], pm_net = False, pm_proc = True, pm_env = []\<rparr> demo_eff demo_params (Some (demo_args (demo_call ''a/b''))) =
   (ASTOOLS_OK, Some (demo_args (demo_call ''/w/a/b'')))"
  "fst (astools_policy_preflight demo_realpath (\<lambda>_. False) first_key (Some ''/w'')
     \<lparr>pm_fs = [], pm_net = False, pm_proc = True, pm_env = []\<rparr> demo_eff demo_params (Some (demo_args (demo_call ''/x'')))) =
   ASTOOLS_ERR_DENIED"
  by (simp_all add: astools_policy_preflight_def demo_args_def demo_call_def demo_params_def demo_eff_def xget_def type_new_def
      walk_path_def fs_covered_def put_val_def POLICY_MAX_DEPTH_def ASTOOLS_ACCESS_READ_def
      astools_path_canonical_def os_path_is_abs_def os_path_join_def path_squeeze_def cget_def
      demo_realpath_def walk_up.simps strip_last_def last_comp_def comp_rejected_def append_comp_def
      astools_path_under_def Let_def)

theorem preflight_paths_granted_witness:
  "fields_sat (path_granted (ef_fs demo_eff) (\<lambda>_. False)) demo_params (demo_call ''/w/a/b'') \<and>
   \<not> fs_covered (ef_fs demo_eff) 1 ''/x''"
proof -
  have c: "args_complete demo_params (demo_call ''a/b'')"
    by (simp add: args_complete_def demo_params_def demo_call_def type_new_def scalar_ok_def in_bounds_def)
  have f: "fields_sat (\<lambda>_. nul_free) demo_params (demo_call ''a/b'')"
    by (simp add: demo_params_def demo_call_def type_new_def nul_free_def NUL_def)
  have w: "nul_free ''/w''" by (simp add: nul_free_def NUL_def)
  from preflight_paths_granted [OF demo_realpath_ok first_key_ok w demo_wf c f demo_preflight(1) [unfolded demo_args_def]]
  show ?thesis
    by (auto simp: demo_eff_def fs_covered_def astools_path_under_def cget_def)
qed

end
