(* ===== verification/As_Strcmp.thy ===== *)
theory As_Strcmp
  imports As_Prelude
begin

text \<open>
  \<open>strcmp\<close> and the order it puts on C strings, as an instance of \<open>linorder\<close> for the type of C strings.
  The tables the library sorts with \<open>qsort\<close> are sorted by this order.
\<close>

fun strcmp :: "string \<Rightarrow> string \<Rightarrow> int" where
  "strcmp [] [] = 0"
| "strcmp [] (d # t) = - 1"
| "strcmp (c # s) [] = 1"
| "strcmp (c # s) (d # t) =
     (if chcode c < chcode d then - 1 else if chcode c > chcode d then 1 else strcmp s t)"

lemma strcmp_zero_iff [simp]: "strcmp s t = 0 \<longleftrightarrow> s = t"
  by (induction s t rule: strcmp.induct) (auto dest: chcode_inj)

lemma strcmp_refl [simp]: "strcmp s s = 0"
  by simp

lemma strcmp_sum: "strcmp s t + strcmp t s = 0"
  by (induction s t rule: strcmp.induct) simp_all

lemma strcmp_antisym: "strcmp s t = - strcmp t s"
  using strcmp_sum [of s t] by linarith

lemma strcmp_le_Cons:
  "strcmp (c # s) (d # t) \<le> 0 \<longleftrightarrow> chcode c < chcode d \<or> (chcode c = chcode d \<and> strcmp s t \<le> 0)"
  by simp

lemma strcmp_trans: "strcmp s t \<le> 0 \<Longrightarrow> strcmp t u \<le> 0 \<Longrightarrow> strcmp s u \<le> 0"
proof (induction s t arbitrary: u rule: strcmp.induct)
  case (4 c s d t)
  show ?case
  proof (cases u)
    case (Cons e v)
    have "strcmp s v \<le> 0" if "chcode c = chcode d" "chcode d = chcode e" "strcmp s t \<le> 0" "strcmp t v \<le> 0"
      using "4.IH" that by simp
    then show ?thesis using "4.prems" unfolding Cons strcmp_le_Cons by linarith
  qed (use 4 in simp)
next
  case 1
  then show ?case by (cases u) auto
next
  case (2 d t)
  then show ?case by (cases u) auto
next
  case 3
  then show ?case by simp
qed

interpretation strcmp: comparator strcmp
proof
  show "sgn (strcmp a b) = - sgn (strcmp b a)" for a b
    unfolding strcmp_antisym [of a b] by (simp only: sgn_minus)
qed (rule strcmp_trans)

datatype cstr = CStr (chars: string)

instantiation cstr :: linorder
begin

definition less_eq_cstr :: "cstr \<Rightarrow> cstr \<Rightarrow> bool" where
  "less_eq_cstr a b \<longleftrightarrow> strcmp (chars a) (chars b) \<le> 0"

definition less_cstr :: "cstr \<Rightarrow> cstr \<Rightarrow> bool" where
  "less_cstr a b \<longleftrightarrow> strcmp (chars a) (chars b) < 0"

instance
proof
  fix a b c :: cstr
  show "a < b \<longleftrightarrow> a \<le> b \<and> \<not> b \<le> a"
    unfolding less_eq_cstr_def less_cstr_def using strcmp_sum [of "chars a" "chars b"] by linarith
  show "a \<le> a" by (simp add: less_eq_cstr_def)
  show "a \<le> b \<Longrightarrow> b \<le> c \<Longrightarrow> a \<le> c" unfolding less_eq_cstr_def by (rule strcmp_trans)
  show "a = b" if "a \<le> b" "b \<le> a"
  proof -
    have "strcmp (chars a) (chars b) = 0"
      using that strcmp_sum [of "chars a" "chars b"] unfolding less_eq_cstr_def by linarith
    then show ?thesis by (cases a; cases b) simp
  qed
  show "a \<le> b \<or> b \<le> a"
    unfolding less_eq_cstr_def using strcmp_sum [of "chars a" "chars b"] by linarith
qed

end

end
