(* ===== verification/As_Selection.thy ===== *)
theory As_Selection
  imports As_Strcmp As_Semver "HOL-Library.Multiset"
begin

text \<open>
  \<^verbatim>\<open>src/selection.c\<close>: which version of each tool a host sees, and in which order - the one order that
  prompts, grammars and schemas are generated from. Tools are values; the table is the list of them.
\<close>

declare astools_semver_cmp.simps [simp del]

record astools_tool =
  t_id :: "string option option"
  t_available :: bool
  t_enabled :: bool
  t_ver :: astools_semver

text \<open>\<open>t_id\<close> is \<open>m->id\<close>: the outer option is the manifest pointer.\<close>

record astools_pin =
  pin_tool :: "string option"
  pin_version :: "string option"

definition tool_listed :: "astools_tool \<Rightarrow> bool" where
  "tool_listed t \<longleftrightarrow> t_available t \<and> t_enabled t \<and> t_id t \<noteq> None \<and> t_id t \<noteq> Some None"

definition tid :: "astools_tool \<Rightarrow> string" where
  "tid t = (case t_id t of Some (Some s) \<Rightarrow> s | _ \<Rightarrow> [])"

fun matches_pin :: "astools_pin list \<Rightarrow> astools_tool \<Rightarrow> bool" where
  "matches_pin [] t \<longleftrightarrow> True"
| "matches_pin (p # ps) t \<longleftrightarrow>
     (if pin_tool p = None \<or> pin_version p = None \<or> pin_tool p \<noteq> Some (tid t) then matches_pin ps t
      else (case astools_semver_parse (pin_version p) of
          None \<Rightarrow> False
        | Some version \<Rightarrow> astools_semver_cmp (Some version) (Some (t_ver t)) = 0))"

definition version_better :: "astools_tool \<Rightarrow> astools_tool \<Rightarrow> bool" where
  "version_better cand old =
     (let cand_rel = (prerelease (t_ver cand) = None); cur_rel = (prerelease (t_ver old) = None) in
      if cand_rel \<noteq> cur_rel then cand_rel
      else astools_semver_cmp (Some (t_ver cand)) (Some (t_ver old)) > 0)"

text \<open>One tool of the table against the selection so far.\<close>

fun place_tool :: "astools_tool \<Rightarrow> astools_tool list \<Rightarrow> astools_tool list" where
  "place_tool t [] = [t]"
| "place_tool t (s # sel) =
     (if tid s = tid t then (if version_better t s then t # sel else s # sel) else s # place_tool t sel)"

definition select_tools :: "astools_pin list \<Rightarrow> astools_tool list \<Rightarrow> astools_tool list" where
  "select_tools pins tools =
     foldl (\<lambda>sel t. if \<not> tool_listed t \<or> \<not> matches_pin pins t then sel else place_tool t sel) [] tools"

text \<open>The first untaken tool with the id moves to the ordered list.\<close>

fun take_tool :: "string \<Rightarrow> astools_tool list \<Rightarrow> astools_tool option \<times> astools_tool list" where
  "take_tool pid [] = (None, [])"
| "take_tool pid (s # sel) =
     (if tid s = pid then (Some s, sel)
      else case take_tool pid sel of (r, rest) \<Rightarrow> (r, s # rest))"

fun take_priority :: "string option list \<Rightarrow> astools_tool list \<Rightarrow> astools_tool list \<times> astools_tool list" where
  "take_priority [] sel = ([], sel)"
| "take_priority (p # ps) sel =
     (case p of
        None \<Rightarrow> take_priority ps sel
      | Some pid \<Rightarrow>
         (case take_tool pid sel of
            (None, _) \<Rightarrow> take_priority ps sel
          | (Some t, rest) \<Rightarrow> (case take_priority ps rest of (ordered, tail) \<Rightarrow> (t # ordered, tail))))"

text \<open>The sort is \<open>qsort\<close> by id; ids are distinct here, so its result is determined.\<close>

definition astools_collect_tools :: "astools_pin list \<Rightarrow> string option list \<Rightarrow> astools_tool list \<Rightarrow> astools_tool list" where
  "astools_collect_tools pins priority tools =
     (case take_priority priority (select_tools pins tools) of
        (ordered, tail) \<Rightarrow> ordered @ sort_key (\<lambda>t. CStr (tid t)) tail)"

section \<open>The version order\<close>

definition version_cmp :: "astools_tool \<Rightarrow> astools_tool \<Rightarrow> int" where
  "version_cmp a b =
     (let ra = (prerelease (t_ver a) = None); rb = (prerelease (t_ver b) = None) in
      if ra \<noteq> rb then (if ra then 1 else - 1) else astools_semver_cmp (Some (t_ver a)) (Some (t_ver b)))"

interpretation version: comparator version_cmp
proof
  fix a b c
  show "sgn (version_cmp a b) = - sgn (version_cmp b a)"
    using semver.cmp_antisym [of "t_ver a" "t_ver b"] by (auto simp: version_cmp_def Let_def)
  show "version_cmp a b \<le> 0 \<Longrightarrow> version_cmp b c \<le> 0 \<Longrightarrow> version_cmp a c \<le> 0"
    using semver.cmp_trans [of "t_ver a" "t_ver b" "t_ver c"] by (auto simp: version_cmp_def Let_def split: if_splits)
qed

lemma version_better_iff: "version_better a b \<longleftrightarrow> version_cmp a b > 0"
  by (auto simp: version_better_def version_cmp_def Let_def)

section \<open>The selection\<close>

definition eligible :: "astools_pin list \<Rightarrow> astools_tool list \<Rightarrow> astools_tool list" where
  "eligible pins tools = filter (\<lambda>t. tool_listed t \<and> matches_pin pins t) tools"

text \<open>
  The best of the tools with an id: one that no other beats, and the first of those in table order.
\<close>

definition best_of :: "astools_tool list \<Rightarrow> astools_tool \<Rightarrow> bool" where
  "best_of cands t \<longleftrightarrow>
     (\<exists>before after. cands = before @ t # after \<and>
        list_all (\<lambda>s. tid s \<noteq> tid t \<or> version_cmp t s > 0) before \<and>
        list_all (\<lambda>s. tid s \<noteq> tid t \<or> version_cmp s t \<le> 0) after)"

definition sel_inv :: "astools_tool list \<Rightarrow> astools_tool list \<Rightarrow> bool" where
  "sel_inv cands sel \<longleftrightarrow>
     distinct (map tid sel) \<and> tid ` set sel = tid ` set cands \<and> list_all (best_of cands) sel"

lemma place_tool_tids:
  "map tid (place_tool t sel) = (if tid t \<in> tid ` set sel then map tid sel else map tid sel @ [tid t])"
  by (induction sel) auto

lemma place_tool_set:
  assumes "distinct (map tid sel)" "x \<in> set (place_tool t sel)"
  shows "(x \<in> set sel \<and> (tid x = tid t \<longrightarrow> \<not> version_better t x)) \<or>
    (x = t \<and> (\<forall>s \<in> set sel. tid s = tid t \<longrightarrow> version_better t s))"
  using assms
proof (induction sel)
  case (Cons s sel)
  show ?case
  proof (cases "tid s = tid t")
    case True
    have "tid y \<noteq> tid t" if "y \<in> set sel" for y using Cons.prems(1) True that by (auto simp: image_iff)
    with Cons.prems True show ?thesis by (auto split: if_splits)
  next
    case False
    with Cons show ?thesis by (auto split: if_splits)
  qed
qed simp

lemma best_of_snoc_old:
  assumes "best_of cands x" "tid x = tid t \<longrightarrow> \<not> version_better t x"
  shows "best_of (cands @ [t]) x"
proof -
  from assms(1) obtain b a where ba: "cands = b @ x # a"
    "list_all (\<lambda>s. tid s \<noteq> tid x \<or> version_cmp x s > 0) b" "list_all (\<lambda>s. tid s \<noteq> tid x \<or> version_cmp s x \<le> 0) a"
    by (auto simp: best_of_def)
  have "tid t \<noteq> tid x \<or> version_cmp t x \<le> 0" using assms(2) by (auto simp: version_better_iff)
  with ba show ?thesis unfolding best_of_def
    by (intro exI [of _ b] exI [of _ "a @ [t]"]) simp
qed

lemma best_of_max: "best_of cands x \<Longrightarrow> s \<in> set cands \<Longrightarrow> tid s = tid x \<Longrightarrow> version_cmp s x \<le> 0"
  using version.cmp_pos_iff version.cmp_refl
  by (fastforce simp: best_of_def list_all_iff)

lemma best_of_snoc_new:
  assumes "sel_inv cands sel" "\<forall>s \<in> set sel. tid s = tid t \<longrightarrow> version_better t s"
  shows "best_of (cands @ [t]) t"
proof -
  have "version_cmp t c > 0" if c: "c \<in> set cands" "tid c = tid t" for c
  proof -
    have "tid c \<in> tid ` set sel" using assms(1) c(1) by (auto simp: sel_inv_def)
    then obtain s where s: "s \<in> set sel" "tid s = tid c" by auto
    have "best_of cands s" using assms(1) s(1) by (simp add: sel_inv_def list_all_iff)
    from best_of_max [OF this c(1)] s have "version_cmp c s \<le> 0" by simp
    then have "version_cmp s c \<ge> 0" using version.cmp_nonpos_iff by blast
    moreover have "version_cmp t s > 0" using assms(2) s c(2) by (simp add: version_better_iff)
    ultimately show ?thesis by (rule version.cmp_less_trans [rotated])
  qed
  then show ?thesis unfolding best_of_def
    by (intro exI [of _ cands] exI [of _ "[]"]) (auto simp: list_all_iff)
qed

lemma place_tool_inv:
  assumes "sel_inv cands sel"
  shows "sel_inv (cands @ [t]) (place_tool t sel)"
proof -
  have d: "distinct (map tid (place_tool t sel))"
    using assms by (auto simp: place_tool_tids sel_inv_def)
  have "set (map tid (place_tool t sel)) = set (map tid (cands @ [t]))"
    unfolding place_tool_tids using assms by (auto simp: sel_inv_def)
  then have s: "tid ` set (place_tool t sel) = tid ` set (cands @ [t])" by simp
  have "best_of (cands @ [t]) x" if x: "x \<in> set (place_tool t sel)" for x
    using place_tool_set [OF _ x] assms best_of_snoc_old best_of_snoc_new [OF assms]
    by (auto simp: sel_inv_def list_all_iff)
  with d s show ?thesis by (simp add: sel_inv_def list_all_iff)
qed

lemma select_tools_inv: "sel_inv (eligible pins tools) (select_tools pins tools)"
proof -
  have "sel_inv (eligible pins tools) (foldl (\<lambda>sel t. if \<not> tool_listed t \<or> \<not> matches_pin pins t then sel else place_tool t sel) [] tools)"
  proof (induction tools rule: rev_induct)
    case Nil
    then show ?case by (simp add: eligible_def sel_inv_def)
  next
    case (snoc t ts)
    then show ?case using place_tool_inv by (auto simp: eligible_def)
  qed
  then show ?thesis by (simp add: select_tools_def)
qed

section \<open>The order\<close>

text \<open>First occurrences.\<close>

fun nub :: "'a list \<Rightarrow> 'a list" where
  "nub [] = []"
| "nub (x # xs) = x # filter (\<lambda>y. y \<noteq> x) (nub xs)"

lemma take_tool_spec:
  assumes "distinct (map tid sel)" "take_tool pid sel = (r, rest)"
  shows "(case r of None \<Rightarrow> rest = sel \<and> pid \<notin> tid ` set sel
     | Some t \<Rightarrow> tid t = pid \<and> mset sel = add_mset t (mset rest) \<and> distinct (map tid rest) \<and>
         tid ` set rest = tid ` set sel - {pid} \<and> pid \<in> tid ` set sel)"
  using assms
proof (induction sel arbitrary: r rest)
  case (Cons s sel)
  show ?case
  proof (cases "tid s = pid")
    case True
    with Cons.prems show ?thesis by (auto simp: image_iff)
  next
    case False
    obtain r' rest' where t: "take_tool pid sel = (r', rest')" by fastforce
    with False Cons.prems have r: "r = r'" "rest = s # rest'" by simp_all
    have IH: "case r' of None \<Rightarrow> rest' = sel \<and> pid \<notin> tid ` set sel
     | Some t \<Rightarrow> tid t = pid \<and> mset sel = add_mset t (mset rest') \<and> distinct (map tid rest') \<and>
         tid ` set rest' = tid ` set sel - {pid} \<and> pid \<in> tid ` set sel"
      by (rule Cons.IH [OF _ t]) (use Cons.prems(1) in simp)
    with False Cons.prems(1) show ?thesis unfolding r by (auto split: option.splits)
  qed
qed simp

lemma take_priority_spec:
  assumes "distinct (map tid sel)" "take_priority ps sel = (ordered, tail)"
  shows "mset sel = mset ordered + mset tail \<and>
    map tid ordered = filter (\<lambda>p. p \<in> tid ` set sel) (nub (map the (filter (\<lambda>p. p \<noteq> None) ps)))"
  using assms
proof (induction ps arbitrary: sel ordered tail)
  case (Cons p ps)
  show ?case
  proof (cases p)
    case None
    with Cons show ?thesis by simp
  next
    case (Some pid)
    obtain r rest where t: "take_tool pid sel = (r, rest)" by fastforce
    note spec = take_tool_spec [OF Cons.prems(1) t]
    show ?thesis
    proof (cases r)
      case None
      with Cons.prems(2) t Some have "take_priority ps sel = (ordered, tail)" by simp
      from Cons.IH [OF Cons.prems(1) this] spec None Some show ?thesis
        by (auto intro: filter_cong)
    next
      case r: (Some u)
      obtain o' tail' where rec: "take_priority ps rest = (o', tail')" by fastforce
      with Cons.prems(2) t Some r have o: "ordered = u # o'" "tail = tail'" by simp_all
      have IH: "mset rest = mset o' + mset tail' \<and>
          map tid o' = filter (\<lambda>p. p \<in> tid ` set rest) (nub (map the (filter (\<lambda>p. p \<noteq> None) ps)))"
        by (rule Cons.IH [OF _ rec]) (use spec r in simp)
      have "filter (\<lambda>p. p \<in> tid ` set rest) xs = filter (\<lambda>p. p \<in> tid ` set sel) (filter (\<lambda>y. y \<noteq> pid) xs)" for xs
        using spec r by (auto intro: filter_cong)
      with IH spec r Some show ?thesis by (simp add: o)
    qed
  qed
qed simp

lemma collect_spec:
  assumes "take_priority priority (select_tools pins tools) = (ordered, tail)"
    and "r = astools_collect_tools pins priority tools"
  shows "distinct (map tid r) \<and> tid ` set r = tid ` set (eligible pins tools) \<and>
    list_all (best_of (eligible pins tools)) r \<and> r = ordered @ sort_key (\<lambda>t. CStr (tid t)) tail \<and>
    map tid ordered = filter (\<lambda>p. p \<in> tid ` set r) (nub (map the (filter (\<lambda>p. p \<noteq> None) priority)))"
proof -
  note inv = select_tools_inv [of pins tools, unfolded sel_inv_def]
  have r: "r = ordered @ sort_key (\<lambda>t. CStr (tid t)) tail"
    using assms by (simp add: astools_collect_tools_def)
  note spec = take_priority_spec [OF conjunct1 [OF inv] assms(1)]
  have m: "mset r = mset (select_tools pins tools)" using spec by (simp add: r)
  then have s: "set r = set (select_tools pins tools)" by (metis set_mset_mset)
  have "mset (map tid r) = mset (map tid (select_tools pins tools))" using m by simp
  then have "distinct (map tid r)" using inv by (metis distinct_count_atmost_1 count_mset set_mset_mset mset_eq_imp_distinct_iff)
  with inv s spec r show ?thesis by (simp add: list_all_iff)
qed

text \<open>
  C17: The listing shows each tool once, at its best version: exactly the ids of the available, enabled
  tools that match their pin; of the versions of an id, a release before any pre-release and the
  highest by SemVer precedence, the earliest root among equals; first the ids the host prioritises,
  in that order and each once, then the rest sorted by id.
\<close>

theorem collect_tools_listing:
  "\<exists>ordered tail. astools_collect_tools pins priority tools = ordered @ tail \<and>
     distinct (map tid (ordered @ tail)) \<and> tid ` set (ordered @ tail) = tid ` set (eligible pins tools) \<and>
     list_all (best_of (eligible pins tools)) (ordered @ tail) \<and>
     map tid ordered = filter (\<lambda>p. p \<in> tid ` set (eligible pins tools)) (nub (map the (filter (\<lambda>p. p \<noteq> None) priority))) \<and>
     sorted (map (\<lambda>t. CStr (tid t)) tail)"
proof -
  obtain ordered tail where t: "take_priority priority (select_tools pins tools) = (ordered, tail)" by fastforce
  obtain r where r: "r = astools_collect_tools pins priority tools" by blast
  obtain rest where rest: "rest = sort_key (\<lambda>t. CStr (tid t)) tail" by blast
  note c = collect_spec [OF t r]
  have eq: "tid ` set r = tid ` set (eligible pins tools)" using c by blast
  have split: "r = ordered @ rest" unfolding rest using c by blast
  have "sorted (map (\<lambda>t. CStr (tid t)) rest)" unfolding rest by (rule sorted_sort_key)
  moreover have "map tid ordered = filter (\<lambda>p. p \<in> tid ` set (eligible pins tools))
      (nub (map the (filter (\<lambda>p. p \<noteq> None) priority)))"
    using c unfolding eq by blast
  ultimately show ?thesis
    using c eq unfolding r [symmetric] split by blast
qed

end
