(* ===== verification/As_Callline.thy ===== *)
theory As_Callline
  imports As_Util
begin

text \<open>
  \<^verbatim>\<open>src/callline.c\<close>: finding the CALL line in a model's output and formatting its RESULT or ERROR line.
  Spans are the substrings themselves; a cursor is the rest of the line. The xCDN writer that
  renders an error object is a parameter.
\<close>

section \<open>Parsing\<close>

definition blank :: "char \<Rightarrow> bool" where
  "blank c \<longleftrightarrow> c = CHR '' '' \<or> c = CHR 0x09"

definition ver_char :: "char \<Rightarrow> bool" where
  "ver_char ch \<longleftrightarrow> is_digit ch \<or> is_lower ch \<or> is_upper ch \<or> ch = CHR ''.'' \<or> ch = CHR ''+'' \<or> ch = CHR ''-''"

definition ref_token_char :: "char \<Rightarrow> bool" where
  "ref_token_char ch \<longleftrightarrow> ver_char ch \<or> ch = CHR ''@''"

text \<open>The split at the last dot: what is before and after it.\<close>

fun split_last_dot :: "string \<Rightarrow> (string \<times> string) option" where
  "split_last_dot [] = None"
| "split_last_dot (c # s) =
     (case split_last_dot s of
        Some (a, b) \<Rightarrow> Some (c # a, b)
      | None \<Rightarrow> if c = CHR ''.'' then Some ([], s) else None)"

definition tool_ref_ok :: "string \<Rightarrow> bool" where
  "tool_ref_ok ref =
     (let tool = takeWhile (\<lambda>c. c \<noteq> CHR ''@'') ref in
      if tool = [] then False
      else if \<not> list_all slug_char tool then False
      else if length tool < length ref then
        (let ver = drop (length tool + 1) ref in ver \<noteq> [] \<and> list_all ver_char ver)
      else True)"

text \<open>
  The scan of the argument object: the text up to and including the brace that closes it. \<open>quoted\<close> and
  \<open>esc\<close> are the quote state.
\<close>

fun scan_object :: "int \<Rightarrow> bool \<Rightarrow> bool \<Rightarrow> string \<Rightarrow> string option" where
  "scan_object depth quoted esc [] = None"
| "scan_object depth quoted esc (ch # s) =
     (if quoted then
        (if esc then map_option ((#) ch) (scan_object depth quoted False s)
         else if ch = CHR 0x5C then map_option ((#) ch) (scan_object depth quoted True s)
         else if ch = CHR 0x22 then map_option ((#) ch) (scan_object depth False esc s)
         else map_option ((#) ch) (scan_object depth quoted esc s))
      else if ch = CHR 0x22 then map_option ((#) ch) (scan_object depth True esc s)
      else if ch = CHR ''{'' then map_option ((#) ch) (scan_object (depth + 1) quoted esc s)
      else if ch = CHR ''}'' then
        (if depth - 1 = 0 then Some [ch] else map_option ((#) ch) (scan_object (depth - 1) quoted esc s))
      else map_option ((#) ch) (scan_object depth quoted esc s))"

definition parse_call_line :: "string \<Rightarrow> (string \<times> string \<times> string) option" where
  "parse_call_line line =
     (let p0 = dropWhile blank line in
      if take 5 p0 \<noteq> ''CALL '' then None
      else let p1 = dropWhile blank (drop 5 p0); tok = takeWhile ref_token_char p1 in
        if tok = [] then None
        else case split_last_dot tok of None \<Rightarrow> None | Some (ref, cmd) \<Rightarrow>
        if ref = [] \<or> cmd = [] then None
        else if \<not> list_all slug_char cmd then None
        else if \<not> tool_ref_ok ref then None
        else let p2 = dropWhile blank (drop (length tok) p1) in
          if cur p2 \<noteq> CHR ''{'' then None
          else map_option (\<lambda>args. (ref, cmd, args)) (scan_object 0 False False p2))"

function callline_loop :: "string \<Rightarrow> (string \<times> string \<times> string) res" where
  "callline_loop p =
     (case parse_call_line (takeWhile (\<lambda>c. c \<noteq> CHR 0x0A) p) of
        Some call \<Rightarrow> Inr call
      | None \<Rightarrow>
          if CHR 0x0A \<notin> set p then Inl ASTOOLS_ERR_NOT_FOUND
          else callline_loop (tl (dropWhile (\<lambda>c. c \<noteq> CHR 0x0A) p)))"
  by pat_completeness auto
termination
proof (relation "measure length")
  fix p :: string and x
  assume "\<not> CHR 0x0A \<notin> set p"
  then have "dropWhile (\<lambda>c. c \<noteq> CHR 0x0A) p \<noteq> []" by (simp add: dropWhile_eq_Nil_conv)
  moreover have "length (dropWhile (\<lambda>c. c \<noteq> CHR 0x0A) p) \<le> length p" by (rule length_dropWhile_le)
  ultimately show "(tl (dropWhile (\<lambda>c. c \<noteq> CHR 0x0A) p), p) \<in> measure length"
    by (cases "dropWhile (\<lambda>c. c \<noteq> CHR 0x0A) p") auto
qed simp

declare callline_loop.simps [simp del]

definition astools_callline_parse :: "string option \<Rightarrow> (string \<times> string \<times> string) res" where
  "astools_callline_parse output =
     (case output of None \<Rightarrow> Inl ASTOOLS_ERR_INVALID | Some p \<Rightarrow> callline_loop p)"

section \<open>Formatting\<close>

fun oneline :: "string \<Rightarrow> string" where
  "oneline [] = []"
| "oneline (ch # s) =
     (if ch = CHR 0x0D then oneline s
      else if ch = CHR 0x0A then CHR '' '' # oneline s else ch # oneline s)"

definition append_oneline :: "string \<Rightarrow> string option \<Rightarrow> string" where
  "append_oneline b s = (case s of None \<Rightarrow> b | Some s \<Rightarrow> b @ oneline s)"

definition buf_rtrim :: "string \<Rightarrow> string" where
  "buf_rtrim b = rev (dropWhile blank (rev b))"

record astools_result =
  r_ok :: bool
  r_xcdn :: "string option"
  r_code :: "string option"
  r_message :: "string option"
  r_exit_code :: int
  r_duration_ms :: nat

text \<open>
  \<open>write\<close> renders the object with the given string fields; \<open>None\<close> is an allocation failure. The
  buffer is its content (\<open>buf_append_refines\<close>), its memory sufficient.
\<close>

definition astools_callline_format :: "((string \<times> string) list \<Rightarrow> string option) \<Rightarrow> string \<Rightarrow> string
    \<Rightarrow> astools_result \<Rightarrow> string res" where
  "astools_callline_format write ref command r =
     (let b = append_oneline (if r_ok r then ''RESULT '' else ''ERROR '') (Some ref) @ ''.'';
          b = append_oneline b (Some command) @ '' ''
      in if r_ok r then
           (let res = (case r_xcdn r of None \<Rightarrow> ''{}''
                       | Some s \<Rightarrow> if astools_str_blank (Some s) then ''{}'' else s)
            in Inr (buf_rtrim (append_oneline b (Some res))))
         else
           (case write [(''code'', case r_code r of None \<Rightarrow> [] | Some s \<Rightarrow> s),
                        (''message'', case r_message r of None \<Rightarrow> [] | Some s \<Rightarrow> s)] of
              None \<Rightarrow> Inl ASTOOLS_ERR_NOMEM
            | Some txt \<Rightarrow> Inr (buf_rtrim (append_oneline b (Some txt)))))"

section \<open>Balanced objects\<close>

text \<open>
  The grammar of the argument text: an object is a pair of braces around items; an item is an object,
  a quoted string or any other character.
\<close>

inductive str_body :: "string \<Rightarrow> bool" where
  body_Nil: "str_body []"
| body_char: "c \<noteq> CHR 0x22 \<Longrightarrow> c \<noteq> CHR 0x5C \<Longrightarrow> str_body s \<Longrightarrow> str_body (c # s)"
| body_esc: "str_body s \<Longrightarrow> str_body (CHR 0x5C # c # s)"

inductive obj_items :: "string \<Rightarrow> bool" where
  items_Nil: "obj_items []"
| items_char: "c \<notin> {CHR 0x22, CHR ''{'', CHR ''}''} \<Longrightarrow> obj_items s \<Longrightarrow> obj_items (c # s)"
| items_str: "str_body b \<Longrightarrow> obj_items s \<Longrightarrow> obj_items (CHR 0x22 # b @ CHR 0x22 # s)"
| items_obj: "obj_items i \<Longrightarrow> obj_items s \<Longrightarrow> obj_items (CHR ''{'' # i @ CHR ''}'' # s)"

lemma scan_body:
  "str_body b \<Longrightarrow> scan_object d True False (b @ CHR 0x22 # s) =
     map_option (\<lambda>r. b @ CHR 0x22 # r) (scan_object d False False s)"
  by (induction rule: str_body.induct) (simp_all add: option.map_comp comp_def)

lemma scan_items:
  "obj_items i \<Longrightarrow> 1 \<le> d \<Longrightarrow> scan_object d False False (i @ CHR ''}'' # s) =
     (if d = 1 then Some (i @ [CHR ''}'']) else map_option (\<lambda>r. i @ CHR ''}'' # r) (scan_object (d - 1) False False s))"
proof (induction arbitrary: d s rule: obj_items.induct)
  case (items_str b t)
  have "scan_object d False False ((CHR 0x22 # b @ CHR 0x22 # t) @ CHR ''}'' # s) =
      map_option ((#) (CHR 0x22)) (scan_object d True False (b @ CHR 0x22 # (t @ CHR ''}'' # s)))" by simp
  then show ?case
    unfolding scan_body [OF items_str.hyps(1)] using items_str.IH [OF items_str.prems, of s]
    by (simp add: option.map_comp comp_def)
next
  case (items_obj i t)
  have "scan_object d False False ((CHR ''{'' # i @ CHR ''}'' # t) @ CHR ''}'' # s) =
      map_option ((#) (CHR ''{'')) (scan_object (d + 1) False False (i @ CHR ''}'' # (t @ CHR ''}'' # s)))" by simp
  moreover have "1 \<le> d + 1" "d + 1 \<noteq> 1" using items_obj.prems by simp_all
  ultimately show ?case
    using items_obj.IH(1) [of "d + 1" "t @ CHR ''}'' # s"] items_obj.IH(2) [OF items_obj.prems, of s]
    by (simp add: option.map_comp comp_def)
qed (auto simp: option.map_comp comp_def)

text \<open>Items closed by \<open>n\<close> braces.\<close>

definition closes :: "nat \<Rightarrow> string \<Rightarrow> bool" where
  "closes n r \<longleftrightarrow> (\<exists>iss. length iss = n \<and> list_all obj_items iss \<and> r = concat (map (\<lambda>i. i @ ''}'') iss))"

lemma closes_prefix:
  assumes "closes (Suc n) r" "\<And>i. obj_items i \<Longrightarrow> obj_items (p @ i)"
  shows "closes (Suc n) (p @ r)"
proof -
  obtain i iss where i: "length iss = n" "obj_items i" "list_all obj_items iss"
    "r = i @ ''}'' @ concat (map (\<lambda>i. i @ ''}'') iss)"
    using assms(1) by (auto simp: closes_def length_Suc_conv)
  show ?thesis unfolding closes_def
    by (rule exI [of _ "(p @ i) # iss"]) (use i assms(2) in simp)
qed

lemma closes_nested: "closes (Suc (Suc n)) r \<Longrightarrow> closes (Suc n) (CHR ''{'' # r)"
proof -
  assume "closes (Suc (Suc n)) r"
  then obtain i j iss where i: "length iss = n" "obj_items i" "obj_items j" "list_all obj_items iss"
    "r = i @ ''}'' @ j @ ''}'' @ concat (map (\<lambda>i. i @ ''}'') iss)"
    by (auto simp: closes_def length_Suc_conv)
  show ?thesis unfolding closes_def
    by (rule exI [of _ "(CHR ''{'' # i @ CHR ''}'' # j) # iss"]) (use i in \<open>simp add: items_obj\<close>)
qed

lemma closes_brace: "closes n r \<Longrightarrow> closes (Suc n) (CHR ''}'' # r)"
proof -
  assume "closes n r"
  then obtain iss where i: "length iss = n" "list_all obj_items iss" "r = concat (map (\<lambda>i. i @ ''}'') iss)"
    by (auto simp: closes_def)
  show ?thesis unfolding closes_def by (rule exI [of _ "[] # iss"]) (use i in \<open>simp add: items_Nil\<close>)
qed

definition in_string :: "nat \<Rightarrow> string \<Rightarrow> bool" where
  "in_string n r \<longleftrightarrow> (\<exists>b t. str_body b \<and> r = b @ CHR 0x22 # t \<and> closes n t)"

definition scan_state :: "nat \<Rightarrow> bool \<Rightarrow> bool \<Rightarrow> string \<Rightarrow> bool" where
  "scan_state n quoted esc r \<longleftrightarrow>
     (if \<not> quoted then closes n r
      else if \<not> esc then in_string n r
      else (\<exists>c t. r = c # t \<and> in_string n t))"

lemma in_string_char: "in_string n r \<Longrightarrow> c \<noteq> CHR 0x22 \<Longrightarrow> c \<noteq> CHR 0x5C \<Longrightarrow> in_string n (c # r)"
  unfolding in_string_def by (metis append_Cons body_char)

lemma in_string_esc: "in_string n r \<Longrightarrow> in_string n (CHR 0x5C # c # r)"
  unfolding in_string_def by (metis append_Cons body_esc)

lemma in_string_end: "closes n r \<Longrightarrow> in_string n (CHR 0x22 # r)"
  unfolding in_string_def by (metis append_Nil body_Nil)

lemma in_string_open: "in_string (Suc n) r \<Longrightarrow> closes (Suc n) (CHR 0x22 # r)"
proof -
  assume "in_string (Suc n) r"
  then obtain b t where b: "str_body b" "r = b @ CHR 0x22 # t" "closes (Suc n) t" by (auto simp: in_string_def)
  have "closes (Suc n) ((CHR 0x22 # b @ [CHR 0x22]) @ t)"
    by (rule closes_prefix [OF b(3)]) (use items_str [OF b(1)] in simp)
  then show ?thesis by (simp add: b(2))
qed

lemma scan_sound:
  "scan_object (int (Suc n)) quoted esc s = Some r \<Longrightarrow> (esc \<longrightarrow> quoted) \<Longrightarrow>
     scan_state (Suc n) quoted esc r \<and> (\<exists>rest. s = r @ rest)"
proof (induction s arbitrary: n quoted esc r)
  case (Cons ch s)
  obtain n' quoted' esc' where st: "(esc' \<longrightarrow> quoted')"
    and step: "(r = [ch] \<and> \<not> quoted \<and> ch = CHR ''}'' \<and> n = 0) \<or>
      (\<exists>r'. r = ch # r' \<and> scan_object (int (Suc n')) quoted' esc' s = Some r' \<and>
        (scan_state (Suc n') quoted' esc' r' \<longrightarrow> scan_state (Suc n) quoted esc (ch # r')))"
  proof (cases quoted)
    case q: True
    consider (esc) esc | (quote) "\<not> esc" "ch = CHR 0x22" | (other) "\<not> esc" "ch \<noteq> CHR 0x22" by blast
    then show ?thesis
    proof cases
      case esc
      show ?thesis by (rule that [of False True n]) (use Cons.prems(1) q esc in \<open>auto simp: scan_state_def\<close>)
    next
      case quote
      show ?thesis
        by (rule that [of False False n]) (use Cons.prems(1) q quote in \<open>auto simp: scan_state_def intro: in_string_end\<close>)
    next
      case other
      show ?thesis
        by (rule that [of "ch = CHR 0x5C" True n])
           (use Cons.prems(1) q other in \<open>auto simp: scan_state_def intro: in_string_char in_string_esc split: if_splits\<close>)
    qed
  next
    case q: False
    then have e: "\<not> esc" using Cons.prems(2) by simp
    have items: "obj_items i \<Longrightarrow> obj_items ([ch] @ i)" if "ch \<notin> {CHR 0x22, CHR ''{'', CHR ''}''}" for i
      using items_char [OF that] by simp
    consider (quote) "ch = CHR 0x22" | (opn) "ch = CHR ''{''" | (cls) "ch = CHR ''}''" "n = 0"
      | (cls') m where "ch = CHR ''}''" "n = Suc m" | (other) "ch \<notin> {CHR 0x22, CHR ''{'', CHR ''}''}"
      by (cases n) auto
    then show ?thesis
    proof cases
      case quote
      show ?thesis
        by (rule that [of False True n]) (use Cons.prems(1) q e quote in \<open>auto simp: scan_state_def intro: in_string_open\<close>)
    next
      case opn
      show ?thesis
        by (rule that [of False False "Suc n"])
           (use Cons.prems(1) q e opn in \<open>auto simp: scan_state_def algebra_simps intro: closes_nested\<close>)
    next
      case cls
      show ?thesis by (rule that [of False False n]) (use Cons.prems(1) q e cls in auto)
    next
      case cls'
      show ?thesis
        by (rule that [of False False m])
           (use Cons.prems(1) q e cls' in \<open>auto simp: scan_state_def algebra_simps intro: closes_brace\<close>)
    next
      case other
      show ?thesis
        by (rule that [of False False n])
           (use Cons.prems(1) q e other closes_prefix [of n _ "[ch]", OF _ items] in \<open>auto simp: scan_state_def\<close>)
    qed
  qed
  from step show ?case
  proof (elim disjE exE conjE)
    assume "r = [ch]" "\<not> quoted" "ch = CHR ''}''" "n = 0"
    then show ?thesis using closes_brace [of 0 "[]"] by (simp add: scan_state_def closes_def)
  next
    fix r' assume r': "r = ch # r'" "scan_object (int (Suc n')) quoted' esc' s = Some r'"
      "scan_state (Suc n') quoted' esc' r' \<longrightarrow> scan_state (Suc n) quoted esc (ch # r')"
    from Cons.IH [OF r'(2) st] r' show ?thesis by auto
  qed
qed simp

lemma scan_object_iff:
  "scan_object 0 False False p = Some args \<and> cur p = CHR ''{'' \<longleftrightarrow>
     (\<exists>items rest. obj_items items \<and> args = CHR ''{'' # items @ ''}'' \<and> p = args @ rest)" (is "?L \<longleftrightarrow> ?R")
proof
  assume L: ?L
  then obtain s where p: "p = CHR ''{'' # s" by (cases p) (auto simp: NUL_def)
  with L obtain r where r: "scan_object (int (Suc 0)) False False s = Some r" "args = CHR ''{'' # r" by auto
  from scan_sound [OF r(1)] obtain rest where "closes (Suc 0) r" "s = r @ rest" by (auto simp: scan_state_def)
  with r p show ?R by (auto simp: closes_def length_Suc_conv)
next
  assume ?R
  then obtain items rest where i: "obj_items items" "args = CHR ''{'' # items @ ''}''" "p = args @ rest" by blast
  then have "scan_object 1 False False (items @ CHR ''}'' # rest) = Some (items @ ''}'')"
    using scan_items [OF i(1), of 1 rest] by simp
  then show ?L by (simp add: i)
qed

section \<open>Call lines\<close>

definition ref_text :: "string \<Rightarrow> bool" where
  "ref_text ref \<longleftrightarrow> (\<exists>tool. tool \<noteq> [] \<and> list_all slug_char tool \<and>
     (ref = tool \<or> (\<exists>ver. ver \<noteq> [] \<and> list_all ver_char ver \<and> ref = tool @ ''@'' @ ver)))"

definition call_line :: "string \<Rightarrow> string \<Rightarrow> string \<Rightarrow> string \<Rightarrow> bool" where
  "call_line line ref cmd args \<longleftrightarrow>
     (\<exists>w1 w2 w3 items rest. list_all blank w1 \<and> list_all blank w2 \<and> list_all blank w3 \<and>
        line = w1 @ ''CALL '' @ w2 @ ref @ ''.'' @ cmd @ w3 @ args @ rest \<and>
        ref_text ref \<and> cmd \<noteq> [] \<and> list_all slug_char cmd \<and>
        obj_items items \<and> args = CHR ''{'' # items @ ''}'')"

lemma slug_ver: "slug_char c \<Longrightarrow> ver_char c"
  by (auto simp: slug_char_def ver_char_def)

lemma ver_token: "ver_char c \<Longrightarrow> ref_token_char c"
  by (simp add: ref_token_char_def)

lemma slug_special: "\<not> slug_char (CHR ''@'')" "\<not> slug_char (CHR ''.'')"
  by code_simp+

lemma token_special:
  "\<not> ref_token_char (CHR ''{'')" "ref_token_char (CHR ''.'')" "ref_token_char (CHR ''@'')"
  "\<not> ref_token_char (CHR '' '')" "\<not> ref_token_char (CHR 0x09)"
  by code_simp+

lemma blank_token: "blank c \<Longrightarrow> \<not> ref_token_char c"
  unfolding blank_def using token_special(4,5) by blast

lemma blank_special: "\<not> blank (CHR ''{'')" "\<not> blank (CHR ''C'')"
  by (simp_all add: blank_def)

lemma tool_ref_ok_iff: "tool_ref_ok ref \<longleftrightarrow> ref_text ref"
proof
  obtain tool rest where tr: "tool = takeWhile (\<lambda>c. c \<noteq> CHR ''@'') ref" "rest = dropWhile (\<lambda>c. c \<noteq> CHR ''@'') ref"
    by blast
  have ref: "ref = tool @ rest" unfolding tr by simp
  assume ok: "tool_ref_ok ref"
  then have t: "tool \<noteq> []" "list_all slug_char tool"
    by (auto simp: tool_ref_ok_def Let_def tr split: if_splits)
  show "ref_text ref"
  proof (cases rest)
    case (Cons c ver)
    then have c: "c = CHR ''@''" using hd_dropWhile [of "\<lambda>c. c \<noteq> CHR ''@''" ref] unfolding tr(2) by auto
    have "length ref = length tool + Suc (length ver)" "drop (Suc (length tool)) ref = ver" unfolding ref Cons by simp_all
    with ok t have "ver \<noteq> []" "list_all ver_char ver"
      by (auto simp: tool_ref_ok_def tr(1) [symmetric])
    with t ref Cons c show ?thesis unfolding ref_text_def by auto
  next
    case Nil
    with t ref show ?thesis unfolding ref_text_def by auto
  qed
next
  assume "ref_text ref"
  then obtain tool where t: "tool \<noteq> []" "list_all slug_char tool"
    and r: "ref = tool \<or> (\<exists>ver. ver \<noteq> [] \<and> list_all ver_char ver \<and> ref = tool @ ''@'' @ ver)"
    by (auto simp: ref_text_def)
  have at: "\<forall>c \<in> set tool. c \<noteq> CHR ''@''" using t(2) slug_special(1) by (auto simp: list_all_iff)
  show "tool_ref_ok ref"
  proof (cases "ref = tool")
    case True
    from at have tw: "takeWhile (\<lambda>c. c \<noteq> CHR ''@'') tool = tool" by (simp add: takeWhile_eq_all_conv)
    from t show ?thesis unfolding True tool_ref_ok_def Let_def tw by simp
  next
    case False
    with r obtain ver where v: "ver \<noteq> []" "list_all ver_char ver" "ref = tool @ ''@'' @ ver" by blast
    with at have "takeWhile (\<lambda>c. c \<noteq> CHR ''@'') ref = tool" by (simp add: takeWhile_append2)
    with t v show ?thesis by (simp add: tool_ref_ok_def Let_def)
  qed
qed

lemma split_last_dot_None: "split_last_dot s = None \<longleftrightarrow> CHR ''.'' \<notin> set s"
  by (induction s) (auto split: option.splits)

lemma split_last_dot_iff: "split_last_dot s = Some (a, b) \<longleftrightarrow> s = a @ ''.'' @ b \<and> CHR ''.'' \<notin> set b"
proof (induction s arbitrary: a b)
  case (Cons c s)
  show ?case
  proof (cases "split_last_dot s")
    case None
    then show ?thesis using split_last_dot_None [of s] by (cases a) auto
  next
    case (Some ab)
    obtain a' b' where ab: "ab = (a', b')" by fastforce
    have "CHR ''.'' \<in> set s" using Some split_last_dot_None [of s] by auto
    then show ?thesis using Some Cons.IH [of "tl a" b] Cons.IH [of a' b'] ab by (cases a) auto
  qed
qed simp

lemma parse_call_line_iff: "parse_call_line line = Some (ref, cmd, args) \<longleftrightarrow> call_line line ref cmd args"
proof
  assume L: "parse_call_line line = Some (ref, cmd, args)"
  obtain p0 where p0: "p0 = dropWhile blank line" by blast
  obtain p1 where p1: "p1 = dropWhile blank (drop 5 p0)" by blast
  obtain tok where tok: "tok = takeWhile ref_token_char p1" by blast
  obtain q where q: "q = drop (length tok) p1" by blast
  obtain p2 where p2: "p2 = dropWhile blank q" by blast
  from L have c: "take 5 p0 = ''CALL ''" "split_last_dot tok = Some (ref, cmd)" "cmd \<noteq> []"
      "list_all slug_char cmd" "tool_ref_ok ref" "cur p2 = CHR ''{''" "scan_object 0 False False p2 = Some args"
    by (auto simp: parse_call_line_def Let_def p0 p1 tok q p2 split: if_splits option.splits)
  obtain items rest where i: "obj_items items" "args = CHR ''{'' # items @ ''}''" "p2 = args @ rest"
    using scan_object_iff [of p2 args] c(6,7) by blast
  have split: "\<exists>w. list_all blank w \<and> x = w @ dropWhile blank x" for x
    by (rule exI [of _ "takeWhile blank x"]) (auto simp: list_all_iff dest: set_takeWhileD)
  obtain w1 where w1: "list_all blank w1" "line = w1 @ p0" unfolding p0 using split by blast
  obtain w2 where w2: "list_all blank w2" "drop 5 p0 = w2 @ p1" unfolding p1 using split by blast
  obtain w3 where w3: "list_all blank w3" "q = w3 @ p2" unfolding p2 using split by blast
  have "p0 = ''CALL '' @ w2 @ p1" using c(1) w2(2) by (metis append_take_drop_id)
  moreover have "p1 = tok @ q" unfolding q tok by (metis append_eq_conv_conj takeWhile_dropWhile_id)
  moreover have "tok = ref @ ''.'' @ cmd" using c(2) by (simp add: split_last_dot_iff)
  ultimately have "line = w1 @ ''CALL '' @ w2 @ ref @ ''.'' @ cmd @ w3 @ args @ rest"
    using w1(2) w3(2) i(3) by (simp only: append_assoc)
  then show "call_line line ref cmd args"
    using c(3,4,5) i(1,2) w1(1) w2(1) w3(1) unfolding call_line_def tool_ref_ok_iff by blast
next
  assume "call_line line ref cmd args"
  then obtain w1 w2 w3 items rest where w: "list_all blank w1" "list_all blank w2" "list_all blank w3"
    and line: "line = w1 @ ''CALL '' @ w2 @ ref @ ''.'' @ cmd @ w3 @ args @ rest"
    and r: "ref_text ref" "cmd \<noteq> []" "list_all slug_char cmd"
    and a: "obj_items items" "args = CHR ''{'' # items @ ''}''"
    by (auto simp: call_line_def)
  have ref: "ref \<noteq> []" "list_all ref_token_char ref" "\<not> blank (hd ref)"
    using r(1) slug_ver ver_token token_special(3) blank_token by (fastforce simp: ref_text_def list_all_iff hd_append)+
  have cmd: "list_all ref_token_char cmd" "CHR ''.'' \<notin> set cmd"
    using r(3) slug_ver ver_token slug_special(2) by (auto simp: list_all_iff)
  have drop_ws: "dropWhile blank (w @ x) = x" if "list_all blank w" "x \<noteq> []" "\<not> blank (hd x)" for w x
    using that by (cases x) (simp_all add: dropWhile_append2 list_all_iff)
  have p0: "dropWhile blank line = ''CALL '' @ w2 @ ref @ ''.'' @ cmd @ w3 @ args @ rest"
    unfolding line by (rule drop_ws [OF w(1)]) (simp_all add: blank_special)
  have p1: "dropWhile blank (w2 @ ref @ ''.'' @ cmd @ w3 @ args @ rest) = ref @ ''.'' @ cmd @ w3 @ args @ rest"
    by (rule drop_ws [OF w(2)]) (use ref in simp_all)
  have stop: "w3 @ args @ rest \<noteq> []" "\<not> ref_token_char (hd (w3 @ args @ rest))"
    using w(3) blank_token token_special(1) by (cases w3; simp add: a(2))+
  have tok: "takeWhile ref_token_char (ref @ ''.'' @ cmd @ w3 @ args @ rest) = ref @ ''.'' @ cmd"
  proof -
    have "takeWhile ref_token_char ((ref @ ''.'' @ cmd) @ (w3 @ args @ rest)) =
        (ref @ ''.'' @ cmd) @ takeWhile ref_token_char (w3 @ args @ rest)"
      using ref(2) cmd(1) token_special(2) by (intro takeWhile_append2) (auto simp: list_all_iff)
    moreover have "takeWhile ref_token_char (w3 @ args @ rest) = []"
      using stop by (cases "w3 @ args @ rest") simp_all
    ultimately show ?thesis by simp
  qed
  have p2: "dropWhile blank (w3 @ args @ rest) = args @ rest"
    by (rule drop_ws [OF w(3)]) (simp_all add: a(2) blank_special)
  have "scan_object 0 False False (args @ rest) = Some args"
    using scan_object_iff [of "args @ rest" args] a by blast
  moreover have "split_last_dot (ref @ ''.'' @ cmd) = Some (ref, cmd)"
    using cmd(2) by (simp only: split_last_dot_iff simp_thms)
  moreover have "drop (length (ref @ ''.'' @ cmd)) (ref @ ''.'' @ cmd @ w3 @ args @ rest) = w3 @ args @ rest"
    by simp
  moreover have "take 5 (''CALL '' @ x) = ''CALL ''" "drop 5 (''CALL '' @ x) = x" for x by simp_all
  moreover have "cur (args @ rest) = CHR ''{''" by (simp add: a(2))
  moreover have "tool_ref_ok ref" using r(1) by (simp only: tool_ref_ok_iff)
  ultimately show "parse_call_line line = Some (ref, cmd, args)"
    using ref(1) r(2,3) by (simp add: parse_call_line_def Let_def p0 p1 tok p2 del: append_assoc append_Cons append.simps take_append drop_append)
qed

section \<open>Properties\<close>

fun lines_of :: "string \<Rightarrow> string list" where
  "lines_of [] = [[]]"
| "lines_of (c # s) =
     (if c = CHR 0x0A then [] # lines_of s
      else (case lines_of s of [] \<Rightarrow> [[c]] | l # ls \<Rightarrow> (c # l) # ls))"

lemma lines_of_step:
  "lines_of p = takeWhile (\<lambda>c. c \<noteq> CHR 0x0A) p #
     (if CHR 0x0A \<in> set p then lines_of (tl (dropWhile (\<lambda>c. c \<noteq> CHR 0x0A) p)) else [])"
  by (induction p) auto

fun first_call :: "string list \<Rightarrow> (string \<times> string \<times> string) option" where
  "first_call [] = None"
| "first_call (l # ls) = (case parse_call_line l of Some c \<Rightarrow> Some c | None \<Rightarrow> first_call ls)"

lemma callline_loop_lines:
  "callline_loop p = (case first_call (lines_of p) of None \<Rightarrow> Inl ASTOOLS_ERR_NOT_FOUND | Some c \<Rightarrow> Inr c)"
proof (induction p rule: callline_loop.induct)
  case (1 p)
  show ?case
  proof (cases "parse_call_line (takeWhile (\<lambda>c. c \<noteq> CHR 0x0A) p)")
    case None
    then show ?thesis
      using "1" [OF None] by (subst callline_loop.simps, subst lines_of_step) simp
  next
    case (Some c)
    then show ?thesis by (subst callline_loop.simps, subst lines_of_step) simp
  qed
qed

lemma first_call_iff:
  "first_call ls = Some call \<longleftrightarrow>
     (\<exists>before l after. ls = before @ l # after \<and> list_all (\<lambda>b. parse_call_line b = None) before \<and>
        parse_call_line l = Some call)"
proof (induction ls)
  case (Cons l ls)
  show ?case
  proof (cases "parse_call_line l")
    case None
    show ?thesis
    proof
      assume "first_call (l # ls) = Some call"
      with None Cons.IH obtain b x a where "ls = b @ x # a" "list_all (\<lambda>b. parse_call_line b = None) b"
        "parse_call_line x = Some call" by auto
      with None show "\<exists>before x after. l # ls = before @ x # after \<and>
          list_all (\<lambda>b. parse_call_line b = None) before \<and> parse_call_line x = Some call"
        by (intro exI [of _ "l # b"] exI [of _ x] exI [of _ a]) simp
    next
      assume "\<exists>before x after. l # ls = before @ x # after \<and>
          list_all (\<lambda>b. parse_call_line b = None) before \<and> parse_call_line x = Some call"
      then obtain b x a where b: "l # ls = b @ x # a" "list_all (\<lambda>b. parse_call_line b = None) b"
        "parse_call_line x = Some call" by blast
      with None obtain b' where "b = l # b'" by (cases b) auto
      with b None Cons.IH show "first_call (l # ls) = Some call" by auto
    qed
  next
    case (Some c)
    show ?thesis
    proof
      assume "first_call (l # ls) = Some call"
      with Some show "\<exists>before x after. l # ls = before @ x # after \<and>
          list_all (\<lambda>b. parse_call_line b = None) before \<and> parse_call_line x = Some call"
        by (intro exI [of _ "[]"] exI [of _ l] exI [of _ ls]) simp
    next
      assume "\<exists>before x after. l # ls = before @ x # after \<and>
          list_all (\<lambda>b. parse_call_line b = None) before \<and> parse_call_line x = Some call"
      then obtain b x a where "l # ls = b @ x # a" "list_all (\<lambda>b. parse_call_line b = None) b"
        "parse_call_line x = Some call" by blast
      with Some show "first_call (l # ls) = Some call" by (cases b) auto
    qed
  qed
qed simp

text \<open>
  The call found in a model's output is the first line of the call grammar: optional blanks,
  \<open>CALL\<close>, a tool slug with an optional version, a dot, a command slug, and an argument object whose
  braces balance outside quoted strings, escapes respected; anything may follow the object. Lines
  before it, however malformed, are skipped, and no line outside the grammar is ever taken.
\<close>

theorem callline_parse_first:
  "astools_callline_parse (Some p) = Inr (ref, cmd, args) \<longleftrightarrow>
   (\<exists>before line after. lines_of p = before @ line # after \<and>
      list_all (\<lambda>b. \<nexists>r c a. call_line b r c a) before \<and> call_line line ref cmd args)"
proof -
  have none: "parse_call_line b = None \<longleftrightarrow> (\<nexists>r c a. call_line b r c a)" for b
    using parse_call_line_iff [of b] by (metis option.distinct(1) option.exhaust prod_cases3)
  have "astools_callline_parse (Some p) = Inr (ref, cmd, args) \<longleftrightarrow> first_call (lines_of p) = Some (ref, cmd, args)"
    by (simp add: astools_callline_parse_def callline_loop_lines split: option.splits)
  then show ?thesis by (simp add: first_call_iff none parse_call_line_iff)
qed

lemma oneline_chars: "c \<in> set (oneline s) \<Longrightarrow> c \<noteq> CHR 0x0A \<and> c \<noteq> CHR 0x0D"
  by (induction s rule: oneline.induct) (auto split: if_splits)

lemma oneline_append: "oneline (a @ b) = oneline a @ oneline b"
  by (induction a rule: oneline.induct) auto

lemma buf_rtrim_last: "buf_rtrim b = [] \<or> \<not> blank (last (buf_rtrim b))"
proof -
  have "dropWhile blank (rev b) = [] \<or> \<not> blank (hd (dropWhile blank (rev b)))"
    using hd_dropWhile by blast
  then show ?thesis by (auto simp: buf_rtrim_def last_rev)
qed

text \<open>
  An answer is one line whatever the tool returned: no newline or carriage return survives in the
  reference, the command, the result or the rendered error, and nothing blank trails.
\<close>

theorem callline_format_one_line:
  assumes "astools_callline_format write ref command r = Inr line"
  shows "CHR 0x0A \<notin> set line \<and> CHR 0x0D \<notin> set line \<and> (line = [] \<or> \<not> blank (last line))"
proof -
  let ?line = "\<lambda>body. buf_rtrim ((if r_ok r then ''RESULT '' else ''ERROR '') @ oneline ref @ ''.'' @ oneline command @ '' '' @ oneline body)"
  have "\<exists>body. line = ?line body"
  proof (cases "r_ok r")
    case True
    with assms have "line = ?line (case r_xcdn r of None \<Rightarrow> ''{}'' | Some s \<Rightarrow> if astools_str_blank (Some s) then ''{}'' else s)"
      by (simp add: astools_callline_format_def append_oneline_def Let_def)
    then show ?thesis by (rule exI)
  next
    case False
    with assms obtain s where "line = ?line s"
      by (auto simp: astools_callline_format_def append_oneline_def Let_def split: option.splits)
    then show ?thesis by (rule exI)
  qed
  then obtain body where body: "line = ?line body" by blast
  have "set (buf_rtrim b) \<subseteq> set b" for b using set_dropWhileD by (fastforce simp: buf_rtrim_def)
  then have "set line \<subseteq> set (''RESULT '' @ ''ERROR '' @ ''. '') \<union> set (oneline ref) \<union> set (oneline command) \<union> set (oneline body)"
    unfolding body by (fastforce split: if_splits)
  then show ?thesis using oneline_chars buf_rtrim_last body by fastforce
qed

theorem callline_format_one_line_witness:
  "\<exists>line. astools_callline_format (\<lambda>_. None) ''fs'' ''read''
     \<lparr>r_ok = True, r_xcdn = Some [CHR ''a'', CHR 0x0A, CHR ''b'', CHR '' ''], r_code = None, r_message = None,
      r_exit_code = 0, r_duration_ms = 0\<rparr> = Inr line \<and>
     CHR 0x0A \<notin> set line \<and> line = ''RESULT fs.read a b''"
proof -
  have "astools_callline_format (\<lambda>_. None) ''fs'' ''read''
     \<lparr>r_ok = True, r_xcdn = Some [CHR ''a'', CHR 0x0A, CHR ''b'', CHR '' ''], r_code = None, r_message = None,
      r_exit_code = 0, r_duration_ms = 0\<rparr> =
     Inr ''RESULT fs.read a b''"
    by (simp add: astools_callline_format_def append_oneline_def buf_rtrim_def blank_def astools_str_blank_def
        is_ascii_space_def Let_def)
  from callline_format_one_line [OF this] this show ?thesis by blast
qed

end
