(* ===== verification/As_Double.thy ===== *)
theory As_Double
  imports As_Prelude Complex_Main
begin

text \<open>
  The C library's conversions between decimal texts and doubles, as the JSON codec
  (\<^verbatim>\<open>src/json.c\<close>) uses them: \<open>strtod\<close> on a decimal text rounds to the nearest double, ties to even,
  and \<open>printf("%.<P>g")\<close> writes the decimal with \<open>P\<close> significant digits nearest to the double. A
  finite double is its sign and its magnitude, a rational; the sign is kept because zero has two.
  The result the codec relies on is that seventeen digits are enough to read any double back.
\<close>

section \<open>Logarithms and rounding\<close>

fun ndig :: "nat \<Rightarrow> nat \<Rightarrow> nat" where
  "ndig b n = (if b < 2 \<or> n < b then 1 else Suc (ndig b (n div b)))"

declare ndig.simps [simp del]

lemma ndig_bounds:
  assumes "2 \<le> b" "0 < n"
  shows "b ^ (ndig b n - 1) \<le> n \<and> n < b ^ ndig b n \<and> 1 \<le> ndig b n"
  using assms
proof (induction b n rule: ndig.induct)
  case (1 b n)
  show ?case
  proof (cases "n < b")
    case True
    with 1 show ?thesis by (subst (1 2 3) ndig.simps) simp
  next
    case False
    let ?m = "n div b"
    from False 1 have m: "0 < ?m" by (simp add: div_greater_zero_iff)
    with 1 False have IH: "b ^ (ndig b ?m - 1) \<le> ?m" "?m < b ^ ndig b ?m" "1 \<le> ndig b ?m" by auto
    have n: "ndig b n = Suc (ndig b ?m)" using False 1 by (subst ndig.simps) auto
    have "b ^ ndig b ?m = b * b ^ (ndig b ?m - 1)" using IH(3) by (cases "ndig b ?m") auto
    also have "\<dots> \<le> b * ?m" using IH(1) by simp
    also have "\<dots> \<le> n" by simp
    finally have lo: "b ^ ndig b ?m \<le> n" .
    have "n < b * Suc ?m" using 1(2) by (metis dividend_less_times_div less_eq_nat.simps(1) mult_Suc_right
        numeral_2_eq_2 order_less_le_trans zero_less_Suc)
    also have "\<dots> \<le> b * b ^ ndig b ?m" using IH(2) by (intro mult_le_mono) auto
    finally show ?thesis using lo n by simp
  qed
qed

text \<open>The greatest \<open>k\<close> with \<open>b ^ k \<le> q\<close>.\<close>

definition ilog :: "nat \<Rightarrow> rat \<Rightarrow> int" where
  "ilog b q =
     (case quotient_of q of (n, d) \<Rightarrow>
        let k = int (ndig b (nat n)) - int (ndig b (nat d))
        in if of_nat b powi k \<le> q then k else k - 1)"

lemma ilog_bounds:
  assumes "2 \<le> b" "0 < q"
  shows "of_nat b powi ilog b q \<le> q" "q < of_nat b powi (ilog b q + 1)"
proof -
  obtain n d where nd: "quotient_of q = (n, d)" by force
  have d: "0 < d" using quotient_of_denom_pos [OF nd] .
  have q: "q = of_int n / of_int d" using quotient_of_div [OF nd] .
  with assms(2) d have n: "0 < n" by (simp add: zero_less_divide_iff)
  let ?B = "of_nat b :: rat"
  have B: "1 < ?B" "?B \<noteq> 0" "0 < ?B" using assms(1) by auto
  let ?i = "ndig b (nat n)" and ?j = "ndig b (nat d)"
  let ?k = "int ?i - int ?j"
  have i: "b ^ (?i - 1) \<le> nat n" "nat n < b ^ ?i" "1 \<le> ?i"
    using ndig_bounds [of b "nat n"] assms(1) n by auto
  have j: "b ^ (?j - 1) \<le> nat d" "nat d < b ^ ?j" "1 \<le> ?j"
    using ndig_bounds [of b "nat d"] assms(1) d by auto
  have n': "rat_of_int n = of_nat (nat n)" "rat_of_int d = of_nat (nat d)" using n d by simp_all
  have p: "?B powi (int m - 1) = ?B ^ (m - 1)" if "1 \<le> m" for m
    using that by (metis (no_types) int_ops(2) of_nat_diff power_int_of_nat)
  have ni: "?B powi (int ?i - 1) \<le> of_int n" "of_int n < ?B powi int ?i"
    using i unfolding n' p [OF i(3)] power_int_of_nat
    by (metis of_nat_le_iff of_nat_power, metis of_nat_less_iff of_nat_power)
  have dj: "?B powi (int ?j - 1) \<le> of_int d" "of_int d < ?B powi int ?j"
    using j unfolding n' p [OF j(3)] power_int_of_nat
    by (metis of_nat_le_iff of_nat_power, metis of_nat_less_iff of_nat_power)
  have dpos: "0 < rat_of_int d" using d by simp
  have pos: "0 < ?B powi m" for m using B(3) by simp
  have "?B powi (?k - 1) * of_int d \<le> ?B powi (?k - 1) * ?B powi int ?j"
    using dj(2) pos [of "?k - 1"] by (intro mult_left_mono) (simp_all add: less_imp_le)
  also have "\<dots> = ?B powi (int ?i - 1)" using B(2) by (subst power_int_add [symmetric]) auto
  also have "\<dots> \<le> of_int n" by (rule ni(1))
  finally have lo: "?B powi (?k - 1) \<le> q" using dpos by (simp add: q pos_le_divide_eq)
  have "of_int n < ?B powi int ?i" by (rule ni(2))
  also have "\<dots> = ?B powi (?k + 1) * ?B powi (int ?j - 1)" using B(2) by (subst power_int_add [symmetric]) auto
  also have "\<dots> \<le> ?B powi (?k + 1) * of_int d"
    using dj(1) pos [of "?k + 1"] by (intro mult_left_mono) (simp_all add: less_imp_le)
  finally have hi: "q < ?B powi (?k + 1)" using dpos by (simp add: q pos_divide_less_eq)
  have v: "ilog b q = (if ?B powi ?k \<le> q then ?k else ?k - 1)"
    by (simp add: ilog_def nd Let_def)
  show "?B powi ilog b q \<le> q" unfolding v using lo by auto
  show "q < ?B powi (ilog b q + 1)" unfolding v using hi by auto
qed

lemma ilog_unique:
  assumes b: "2 \<le> b" and k: "of_nat b powi k \<le> q" "q < of_nat b powi (k + 1)"
  shows "ilog b q = k"
proof -
  let ?B = "of_nat b :: rat"
  have B: "1 \<le> ?B" "0 < ?B" using b by auto
  have q: "0 < q" using k(1) zero_less_power_int [OF B(2), of k] by linarith
  note l = ilog_bounds [OF b q]
  show ?thesis
  proof (rule ccontr)
    assume "ilog b q \<noteq> k"
    then consider "ilog b q + 1 \<le> k" | "k + 1 \<le> ilog b q" by linarith
    then show False
    proof cases
      case 1
      then have "?B powi (ilog b q + 1) \<le> ?B powi k" using B(1) by (rule power_int_increasing)
      with l(2) k(1) show False by linarith
    next
      case 2
      then have "?B powi (k + 1) \<le> ?B powi ilog b q" using B(1) by (rule power_int_increasing)
      with l(1) k(2) show False by linarith
    qed
  qed
qed

text \<open>To the nearest integer, ties to the even one.\<close>

definition round_even :: "rat \<Rightarrow> int" where
  "round_even x =
     (let f = \<lfloor>x\<rfloor>; r = x - of_int f
      in if r > 1 / 2 \<or> (r = 1 / 2 \<and> odd f) then f + 1 else f)"

lemma round_even_near:
  assumes "\<bar>x - of_int n\<bar> < 1 / 2"
  shows "round_even x = n"
proof (cases "of_int n \<le> x")
  case True
  with assms have "\<lfloor>x\<rfloor> = n" by (intro floor_unique) auto
  with assms show ?thesis by (auto simp: round_even_def Let_def abs_less_iff)
next
  case False
  with assms have "\<lfloor>x\<rfloor> = n - 1" by (intro floor_unique) auto
  with assms False show ?thesis by (simp add: round_even_def Let_def)
qed

lemma round_even_error: "\<bar>of_int (round_even x) - x\<bar> \<le> 1 / 2"
proof -
  have "of_int \<lfloor>x\<rfloor> \<le> x" "x < of_int \<lfloor>x\<rfloor> + 1" by linarith+
  then show ?thesis by (auto simp: round_even_def Let_def)
qed

lemma round_even_ge: "of_int a \<le> x \<Longrightarrow> a \<le> round_even x"
proof -
  assume "of_int a \<le> x"
  then have "a \<le> \<lfloor>x\<rfloor>" by (simp add: le_floor_iff)
  then show ?thesis by (simp add: round_even_def Let_def)
qed

lemma round_even_le: "x \<le> of_int a \<Longrightarrow> round_even x \<le> a"
proof -
  assume x: "x \<le> of_int a"
  then have "\<lfloor>x\<rfloor> \<le> a" by linarith
  moreover have "\<lfloor>x\<rfloor> = a \<Longrightarrow> x = of_int a" using x by linarith
  ultimately show ?thesis by (cases "\<lfloor>x\<rfloor> = a") (auto simp: round_even_def Let_def)
qed

lemma scaled_near:
  assumes u: "0 < u" and q: "q = of_int n * u" and near: "\<bar>q' - q\<bar> < u / 2"
  shows "round_even (q' / u) = n"
proof (rule round_even_near)
  have "q' / u - of_int n = (q' - q) / u" using u by (simp add: q field_simps)
  then have "\<bar>q' / u - of_int n\<bar> = \<bar>q' - q\<bar> / u" using u by (simp only: abs_div_pos)
  also have "\<dots> < (u / 2) / u" using near u by (rule divide_strict_right_mono)
  finally show "\<bar>q' / u - of_int n\<bar> < 1 / 2" using u by simp
qed

section \<open>Doubles\<close>

datatype dbl = Dbl (dneg: bool) (dmag: rat)

text \<open>
  The magnitude nearest to \<open>q\<close>: 53 significant bits, fewer below \<open>2 ^ (-1022)\<close>. An overflow is
  an infinity, which the code rejects: \<open>None\<close>.
\<close>

definition dexp :: "rat \<Rightarrow> int" where
  "dexp q = max (ilog 2 q - 52) (- 1074)"

definition round_mag :: "rat \<Rightarrow> rat" where
  "round_mag q = (if q = 0 then 0 else of_int (round_even (q / 2 powi dexp q)) * 2 powi dexp q)"

definition DBL_LIMIT :: rat where
  "DBL_LIMIT = 2 ^ 1024"

definition round_dbl :: "bool \<Rightarrow> rat \<Rightarrow> dbl option" where
  "round_dbl neg q = (if round_mag q < DBL_LIMIT then Some (Dbl neg (round_mag q)) else None)"

text \<open>The magnitudes a double can have.\<close>

definition is_mag :: "rat \<Rightarrow> bool" where
  "is_mag q \<longleftrightarrow> 0 \<le> q \<and> q < DBL_LIMIT \<and> round_mag q = q"

lemma is_mag_grid:
  assumes "is_mag q" "q \<noteq> 0"
  shows "\<exists>n. q = of_int n * 2 powi dexp q"
proof -
  have "of_int (round_even (q / 2 powi dexp q)) * 2 powi dexp q = q"
    using assms by (simp add: is_mag_def round_mag_def)
  then show ?thesis by (intro exI) (rule sym)
qed

text \<open>Everything closer to a double than half the gap to its neighbours rounds to it.\<close>

lemma pow2_grid: "e \<le> k \<Longrightarrow> \<exists>n. (2 :: rat) powi k = of_int n * 2 powi e"
proof -
  assume "e \<le> k"
  then have "(2 :: rat) powi k = 2 powi int (nat (k - e)) * 2 powi e"
    by (simp flip: power_int_add)
  then show ?thesis
    by (intro exI [of _ "2 ^ nat (k - e)"]) (simp only: power_int_of_nat of_int_power of_int_numeral)
qed

lemma grid_gap:
  assumes "a = of_int m * 2 powi e" "b = of_int n * (2 :: rat) powi e" "a < b"
  shows "a + 2 powi e \<le> b"
proof -
  have p: "0 < (2 :: rat) powi e" by simp
  from assms p have "m < n" by (metis mult_less_cancel_right_pos of_int_less_iff)
  then have "of_int m + 1 \<le> (of_int n :: rat)" by linarith
  then have "(of_int m + 1) * 2 powi e \<le> of_int n * (2 :: rat) powi e" using p by (intro mult_right_mono) auto
  then show ?thesis unfolding assms by (simp add: distrib_right)
qed

lemma round_mag_near:
  assumes q: "is_mag q" "0 < q" and e: "e = dexp q"
    and near: "\<bar>q' - q\<bar> < 2 powi e / 2"
    and low: "q = 2 powi ilog 2 q \<Longrightarrow> q' < q \<Longrightarrow> q - q' < 2 powi e / 4"
  shows "round_mag q' = q"
proof -
  let ?k = "ilog 2 q"
  have u: "0 < (2 :: rat) powi e" by simp
  have nr: "q' - q < 2 powi e / 2" "q - q' < 2 powi e / 2"
    using near abs_ge_self [of "q' - q"] abs_ge_minus_self [of "q' - q"] by linarith+
  from is_mag_grid q obtain n where n: "q = of_int n * 2 powi e" unfolding e by auto
  have k: "2 powi ?k \<le> q" "q < 2 powi (?k + 1)" using ilog_bounds [of 2 q] q(2) by simp_all
  have qmax: "ilog 2 q \<ge> -1074"
  proof (rule ccontr)
    assume "\<not> ?thesis"
    then have "e = -1074" "?k + 1 \<le> e" unfolding e dexp_def by auto
    then have "q < 2 powi e" using k(2) power_int_increasing [of "?k + 1" e "2 :: rat"] by linarith
    moreover have "0 < n" using n q(2) u by (metis mult_nonpos_nonneg not_le of_int_0_less_iff order_less_imp_le
        of_int_le_0_iff)
    then have "1 * 2 powi e \<le> of_int n * (2 :: rat) powi e" using u by (intro mult_right_mono) auto
    ultimately show False using n by simp
  qed
  have ek: "e \<le> ?k" unfolding e dexp_def using qmax by auto
  obtain lo where lo: "2 powi ?k = of_int lo * (2 :: rat) powi e" using pow2_grid [OF ek] by blast
  obtain hi where hi: "2 powi (?k + 1) = of_int hi * (2 :: rat) powi e" using pow2_grid [of e "?k + 1"] ek by auto
  have qpos: "0 < q'"
  proof -
    have "2 powi e \<le> (2 :: rat) powi ?k" by (rule power_int_increasing [OF ek]) simp
    with k(1) nr u show ?thesis by linarith
  qed
  have up: "q' < 2 powi (?k + 1)"
    using grid_gap [OF n hi k(2)] nr u by linarith
  show ?thesis
  proof (cases "2 powi ?k \<le> q'")
    case True
    have "ilog 2 q' = ?k" by (rule ilog_unique) (use True up in simp_all)
    then have e': "dexp q' = e" by (simp add: e dexp_def)
    have "round_even (q' / 2 powi e) = n" by (rule scaled_near [OF u n near])
    then show ?thesis using qpos by (simp add: round_mag_def e' n)
  next
    case False
    then have q'lt: "q' < 2 powi ?k" by simp
    have qk: "q = 2 powi ?k"
    proof (rule ccontr)
      assume "q \<noteq> 2 powi ?k"
      with k(1) have "2 powi ?k < q" by simp
      from grid_gap [OF lo n this] nr q'lt u show False by linarith
    qed
    show ?thesis
    proof (cases "e = - 1074")
      case True
      have "ilog 2 q' < ?k"
      proof (rule ccontr)
        assume "\<not> ilog 2 q' < ?k"
        then have "2 powi ?k \<le> (2 :: rat) powi ilog 2 q'" by (intro power_int_increasing) auto
        also have "\<dots> \<le> q'" using ilog_bounds(1) [of 2 q'] qpos by simp
        finally show False using q'lt by simp
      qed
      then have e': "dexp q' = e" using True e by (auto simp: dexp_def)
      have "round_even (q' / 2 powi e) = n" by (rule scaled_near [OF u n near])
      then show ?thesis using qpos by (simp add: round_mag_def e' n)
    next
      case False
      then have ee: "e = ?k - 52" "-1074 < e" using e by (auto simp: dexp_def)
      have d: "q - q' < 2 powi e / 4" using low [OF qk] q'lt qk by simp
      have half: "2 powi (?k - 1) * 2 = (2 :: rat) powi ?k" "2 powi (e - 1) * 2 = (2 :: rat) powi e"
        using power_int_minus_mult [of "2 :: rat"] by simp_all
      have "2 powi e \<le> (2 :: rat) powi ?k" by (rule power_int_increasing [OF ek]) simp
      then have "2 powi (?k - 1) \<le> q'" using d qk half(1) q(2) by linarith
      then have "ilog 2 q' = ?k - 1" by (intro ilog_unique) (use q'lt in simp_all)
      then have e': "dexp q' = e - 1" using ee by (simp add: dexp_def)
      have v: "0 < (2 :: rat) powi (e - 1)" by simp
      have q2: "q = of_int (2 * n) * 2 powi (e - 1)" unfolding n half(2) [symmetric] by simp
      have "\<bar>q' - q\<bar> < 2 powi (e - 1) / 2" using d q'lt qk half(2) by (simp add: abs_if)
      then have "round_even (q' / 2 powi (e - 1)) = 2 * n" by (rule scaled_near [OF v q2])
      then show ?thesis using qpos by (simp add: round_mag_def e' q2)
    qed
  qed
qed

section \<open>Decimal number texts\<close>

text \<open>
  The number grammar of RFC 8259: an optional minus, an integer part without leading zeros, an optional
  fraction and an optional exponent. \<open>scan_number\<close> reads the longest such text and returns it cut
  into its parts with what follows.
\<close>

record numtok =
  nt_neg :: bool
  nt_int :: string
  nt_frac :: "string option"
  nt_exp :: "(bool \<times> string) option"

definition scan_int :: "string \<Rightarrow> (string \<times> string) option" where
  "scan_int s =
     (if s = [] then None
      else if cur s = CHR ''0'' then Some (''0'', tl s)
      else if is_digit (cur s) then Some (takeWhile is_digit s, dropWhile is_digit s)
      else None)"

definition scan_frac :: "string \<Rightarrow> (string option \<times> string) option" where
  "scan_frac s =
     (if s \<noteq> [] \<and> cur s = CHR ''.'' then
        (if tl s = [] \<or> \<not> is_digit (cur (tl s)) then None
         else Some (Some (takeWhile is_digit (tl s)), dropWhile is_digit (tl s)))
      else Some (None, s))"

definition scan_exp :: "string \<Rightarrow> ((bool \<times> string) option \<times> string) option" where
  "scan_exp s =
     (if s \<noteq> [] \<and> (cur s = CHR ''e'' \<or> cur s = CHR ''E'') then
        (let r = tl s;
             neg = (r \<noteq> [] \<and> cur r = CHR ''-'');
             r = (if r \<noteq> [] \<and> (cur r = CHR ''+'' \<or> cur r = CHR ''-'') then tl r else r)
         in if r = [] \<or> \<not> is_digit (cur r) then None
            else Some (Some (neg, takeWhile is_digit r), dropWhile is_digit r))
      else Some (None, s))"

definition scan_number :: "string \<Rightarrow> (numtok \<times> string) option" where
  "scan_number s =
     (let neg = (s \<noteq> [] \<and> cur s = CHR ''-''); s = (if neg then tl s else s) in
      case scan_int s of None \<Rightarrow> None | Some (ip, s) \<Rightarrow>
      (case scan_frac s of None \<Rightarrow> None | Some (fp, s) \<Rightarrow>
       (case scan_exp s of None \<Rightarrow> None | Some (ex, s) \<Rightarrow>
          Some (\<lparr>nt_neg = neg, nt_int = ip, nt_frac = fp, nt_exp = ex\<rparr>, s))))"

definition frac_text :: "numtok \<Rightarrow> string" where
  "frac_text t = (case nt_frac t of None \<Rightarrow> [] | Some f \<Rightarrow> f)"

definition exp_val :: "numtok \<Rightarrow> int" where
  "exp_val t = (case nt_exp t of None \<Rightarrow> 0
                | Some (neg, ds) \<Rightarrow> if neg then - int (dec_val ds) else int (dec_val ds))"

text \<open>The magnitude a number text denotes, and \<open>strtod\<close> on it.\<close>

definition tok_mag :: "numtok \<Rightarrow> rat" where
  "tok_mag t = of_nat (dec_val (nt_int t @ frac_text t)) * 10 powi (exp_val t - int (length (frac_text t)))"

definition strtod :: "string \<Rightarrow> dbl option" where
  "strtod s = (case scan_number s of None \<Rightarrow> None | Some (t, _) \<Rightarrow> round_dbl (nt_neg t) (tok_mag t))"

section \<open>Printing with \<open>%g\<close>\<close>

text \<open>\<open>P\<close> significant digits of a positive magnitude, with the decimal exponent of the first.\<close>

definition sci :: "nat \<Rightarrow> rat \<Rightarrow> nat \<times> int" where
  "sci P q =
     (let x = ilog 10 q; D = nat (round_even (q / 10 powi (x - int P + 1)))
      in if D = 10 ^ P then (10 ^ (P - 1), x + 1) else (D, x))"

definition strip0 :: "string \<Rightarrow> string" where
  "strip0 s = rev (dropWhile (\<lambda>c. c = CHR ''0'') (rev s))"

definition point :: "string \<Rightarrow> string \<Rightarrow> string" where
  "point ip fp = ip @ (if fp = [] then [] else CHR ''.'' # fp)"

definition exp_digits :: "int \<Rightarrow> string" where
  "exp_digits x = (let es = dec_str (nat \<bar>x\<bar>) in if length es < 2 then CHR ''0'' # es else es)"

definition fmt_g :: "nat \<Rightarrow> dbl \<Rightarrow> string" where
  "fmt_g P d =
     (if dneg d then ''-'' else []) @
     (if dmag d = 0 then ''0''
      else case sci P (dmag d) of (D, X) \<Rightarrow>
        let ds = dec_str D in
        if - 4 \<le> X \<and> X < int P then
          (if 0 \<le> X then point (take (nat X + 1) ds) (strip0 (drop (nat X + 1) ds))
           else point ''0'' (strip0 (replicate (nat (- X) - 1) CHR ''0'' @ ds)))
        else point (take 1 ds) (strip0 (drop 1 ds)) @ CHR ''e'' # (if X < 0 then CHR ''-'' else CHR ''+'') # exp_digits X)"

section \<open>A printed number is a number text\<close>

text \<open>What may follow a number text without extending it.\<close>

definition num_end :: "string \<Rightarrow> bool" where
  "num_end s \<longleftrightarrow> s = [] \<or> \<not> (is_digit (cur s) \<or> cur s = CHR ''.'' \<or> cur s = CHR ''e'' \<or> cur s = CHR ''E'')"

definition ip_ok :: "string \<Rightarrow> bool" where
  "ip_ok ip \<longleftrightarrow> ip = ''0'' \<or> (ip \<noteq> [] \<and> list_all is_digit ip \<and> cur ip \<noteq> CHR ''0'')"

definition num_text :: "bool \<Rightarrow> string \<Rightarrow> string \<Rightarrow> (char \<times> bool \<times> string) option \<Rightarrow> string" where
  "num_text neg ip fp ex =
     (if neg then ''-'' else []) @ point ip fp @
     (case ex of None \<Rightarrow> [] | Some (c, xneg, xs) \<Rightarrow> c # (if xneg then CHR ''-'' else CHR ''+'') # xs)"

lemma digit_not [simp]:
  "is_digit c \<Longrightarrow> c \<noteq> CHR ''-''" "is_digit c \<Longrightarrow> c \<noteq> CHR ''.''" "is_digit c \<Longrightarrow> c \<noteq> CHR ''e''"
  "is_digit c \<Longrightarrow> c \<noteq> CHR ''E''" "is_digit c \<Longrightarrow> c \<noteq> CHR ''+''" "is_digit (CHR ''0'')"
  by (auto simp: is_digit_def chcode_def)

lemma span_digits:
  assumes "list_all is_digit ds" "rest = [] \<or> \<not> is_digit (cur rest)"
  shows "takeWhile is_digit (ds @ rest) = ds" "dropWhile is_digit (ds @ rest) = rest"
proof -
  have ds: "\<forall>c \<in> set ds. is_digit c" using assms(1) by (simp add: list_all_iff)
  have "takeWhile is_digit rest = []" "dropWhile is_digit rest = rest" using assms(2) by (cases rest; simp)+
  then show "takeWhile is_digit (ds @ rest) = ds" "dropWhile is_digit (ds @ rest) = rest"
    using ds by (simp_all add: takeWhile_append2 dropWhile_append2)
qed

lemma scan_int_text:
  assumes "ip_ok ip" "rest = [] \<or> \<not> is_digit (cur rest)"
  shows "scan_int (ip @ rest) = Some (ip, rest)"
proof (cases "ip = ''0''")
  case True
  then show ?thesis by (simp add: scan_int_def)
next
  case False
  with assms(1) have ip: "ip \<noteq> []" "list_all is_digit ip" "cur ip \<noteq> CHR ''0''" by (auto simp: ip_ok_def)
  then show ?thesis using span_digits [OF ip(2) assms(2)] by (simp add: scan_int_def)
qed

lemma scan_frac_text:
  assumes "list_all is_digit fp" "rest = [] \<or> \<not> is_digit (cur rest) \<and> cur rest \<noteq> CHR ''.''"
  shows "scan_frac ((if fp = [] then [] else CHR ''.'' # fp) @ rest) =
    Some (if fp = [] then None else Some fp, rest)"
proof (cases "fp = []")
  case True
  then show ?thesis using assms(2) by (auto simp: scan_frac_def)
next
  case False
  then show ?thesis using assms span_digits [of fp rest] by (auto simp: scan_frac_def)
qed

lemma scan_exp_text:
  assumes "num_end rest" "case ex of None \<Rightarrow> True | Some (c, _, xs) \<Rightarrow> (c = CHR ''e'' \<or> c = CHR ''E'') \<and> xs \<noteq> [] \<and> list_all is_digit xs"
  shows "scan_exp ((case ex of None \<Rightarrow> [] | Some (c, xneg, xs) \<Rightarrow> c # (if xneg then CHR ''-'' else CHR ''+'') # xs) @ rest) =
    Some (map_option snd ex, rest)"
proof (cases ex)
  case None
  then show ?thesis using assms(1) by (auto simp: scan_exp_def num_end_def)
next
  case (Some a)
  then obtain c xneg xs where ex: "ex = Some (c, xneg, xs)" by (cases a) auto
  with assms(2) have x: "c = CHR ''e'' \<or> c = CHR ''E''" "xs \<noteq> []" "list_all is_digit xs" by auto
  have "takeWhile is_digit (xs @ rest) = xs" "dropWhile is_digit (xs @ rest) = rest"
    using span_digits [of xs rest] x(3) assms(1) by (auto simp: num_end_def)
  then show ?thesis using x by (auto simp: ex scan_exp_def Let_def)
qed

lemma scan_number_signed:
  assumes "s \<noteq> []" "cur s \<noteq> CHR ''-''"
  shows "scan_number ((if neg then ''-'' else []) @ s) =
      (case scan_int s of None \<Rightarrow> None | Some (ip, s) \<Rightarrow>
      (case scan_frac s of None \<Rightarrow> None | Some (fp, s) \<Rightarrow>
       (case scan_exp s of None \<Rightarrow> None | Some (ex, s) \<Rightarrow>
          Some (\<lparr>nt_neg = neg, nt_int = ip, nt_frac = fp, nt_exp = ex\<rparr>, s))))"
  using assms by (cases neg) (auto simp: scan_number_def split: option.split prod.split)

lemma scan_num_text:
  assumes ip: "ip_ok ip" and fp: "list_all is_digit fp"
    and ex: "case ex of None \<Rightarrow> True | Some (c, _, xs) \<Rightarrow> (c = CHR ''e'' \<or> c = CHR ''E'') \<and> xs \<noteq> [] \<and> list_all is_digit xs"
    and rest: "num_end rest"
  shows "scan_number (num_text neg ip fp ex @ rest) =
    Some (\<lparr>nt_neg = neg, nt_int = ip, nt_frac = (if fp = [] then None else Some fp), nt_exp = map_option snd ex\<rparr>, rest)"
proof -
  let ?x = "(case ex of None \<Rightarrow> [] | Some (c, xneg, xs) \<Rightarrow> c # (if xneg then CHR ''-'' else CHR ''+'') # xs) @ rest"
  let ?f = "(if fp = [] then [] else CHR ''.'' # fp) @ ?x"
  have x: "?x = [] \<or> \<not> is_digit (cur ?x) \<and> cur ?x \<noteq> CHR ''.''"
    using ex rest by (auto simp: num_end_def is_digit_def chcode_def split: option.splits)
  have f: "?f = [] \<or> \<not> is_digit (cur ?f)" using x by (auto simp: is_digit_def chcode_def)
  have ne: "ip @ ?f \<noteq> []" "cur (ip @ ?f) \<noteq> CHR ''-''" using ip by (auto simp: ip_ok_def)
  have "num_text neg ip fp ex @ rest = (if neg then ''-'' else []) @ ip @ ?f" by (simp add: num_text_def point_def)
  then show ?thesis
    by (simp only: scan_number_signed [OF ne] scan_int_text [OF ip f] scan_frac_text [OF fp x]
        scan_exp_text [OF rest ex] option.case prod.case)
qed

lemma dec_str_length:
  assumes "10 ^ (P - 1) \<le> D" "D < 10 ^ P" "1 \<le> P"
  shows "length (dec_str D) = P"
proof (rule antisym)
  show "length (dec_str D) \<le> P" using assms by (intro length_dec_str_le) auto
  show "P \<le> length (dec_str D)"
  proof (rule ccontr)
    assume "\<not> P \<le> length (dec_str D)"
    then have "(10 :: nat) ^ length (dec_str D) \<le> 10 ^ (P - 1)" by (intro power_increasing) auto
    moreover have "D < 10 ^ length (dec_str D)" using dec_val_lt [OF dec_str_digits [of D]] by simp
    ultimately have "D < 10 ^ (P - 1)" by (rule less_le_trans [rotated])
    with assms(1) show False by simp
  qed
qed

lemma cur_dec_str: "0 < n \<Longrightarrow> cur (dec_str n) \<noteq> CHR ''0''"
proof (induction n rule: dec_str.induct)
  case (1 n)
  show ?case
  proof (cases "n < 10")
    case True
    have "digit_char n \<noteq> CHR ''0''"
    proof
      assume "digit_char n = CHR ''0''"
      then have "digit_val (digit_char n) = digit_val CHR ''0''" by (rule arg_cong)
      moreover have "digit_val CHR ''0'' = 0" by (simp add: digit_val_def chcode_def)
      ultimately show False using 1(2) True by simp
    qed
    moreover have "dec_str n = [digit_char n]" using True by (subst dec_str.simps) simp
    ultimately show ?thesis by simp
  next
    case False
    then have "cur (dec_str (n div 10)) \<noteq> CHR ''0''" by (intro "1.IH") auto
    moreover have "dec_str n = dec_str (n div 10) @ [digit_char (n mod 10)]"
      using False by (subst dec_str.simps) simp
    ultimately show ?thesis by simp
  qed
qed

lemma strip0_split: "\<exists>k. s = strip0 s @ replicate k CHR ''0''"
proof -
  let ?z = "\<lambda>c. c = CHR ''0''"
  have "rev s = takeWhile ?z (rev s) @ dropWhile ?z (rev s)" by simp
  then have "s = strip0 s @ rev (takeWhile ?z (rev s))" unfolding strip0_def by (metis rev_append rev_rev_ident)
  moreover have "takeWhile ?z (rev s) = replicate (length (takeWhile ?z (rev s))) CHR ''0''"
    by (rule replicate_eqI) (auto dest: set_takeWhileD)
  ultimately show ?thesis by (metis rev_replicate)
qed

lemma strip0_digits: "list_all is_digit s \<Longrightarrow> list_all is_digit (strip0 s)"
  using strip0_split [of s] by (metis list_all_append)

lemma dec_val_zeros: "dec_val (ds @ replicate k CHR ''0'') = dec_val ds * 10 ^ k"
proof (induction k)
  case (Suc k)
  have "ds @ replicate (Suc k) CHR ''0'' = (ds @ replicate k CHR ''0'') @ [CHR ''0'']"
    by (simp add: replicate_append_same)
  then show ?case using Suc by (simp only: dec_val_snoc) (simp add: digit_val_def chcode_def)
qed simp

lemma tok_mag_strip:
  assumes "frac_text t = strip0 fp" "nt_int t = ip"
  shows "tok_mag t = of_nat (dec_val (ip @ fp)) * 10 powi (exp_val t - int (length fp))"
proof -
  obtain k where k: "fp = strip0 fp @ replicate k CHR ''0''" using strip0_split by blast
  have "dec_val (ip @ fp) = dec_val (ip @ strip0 fp) * 10 ^ k"
    by (subst k) (simp only: append_assoc [symmetric] dec_val_zeros)
  moreover have "length fp = length (strip0 fp) + k" by (subst k) simp
  moreover have "(10 :: rat) powi (exp_val t - int (length (strip0 fp))) =
      10 ^ k * 10 powi (exp_val t - int (length (strip0 fp) + k))"
    by (simp flip: power_int_of_nat power_int_add)
  ultimately show ?thesis using assms by (simp add: tok_mag_def)
qed

lemma exp_digits_val: "dec_val (exp_digits x) = nat \<bar>x\<bar>" "list_all is_digit (exp_digits x)" "exp_digits x \<noteq> []"
  by (auto simp: exp_digits_def Let_def dec_val_Cons digit_val_def chcode_def)

lemma sci_spec:
  assumes q: "0 < q" and P: "1 \<le> P" and s: "sci P q = (D, X)"
  shows "10 ^ (P - 1) \<le> D" "D < 10 ^ P"
    "\<bar>of_nat D * 10 powi (X - int P + 1) - q\<bar> \<le> 10 powi (ilog 10 q - int P + 1) / 2"
proof -
  let ?x = "ilog 10 q"
  let ?u = "10 powi (?x - int P + 1) :: rat"
  have u: "0 < ?u" by simp
  have x: "10 powi ?x \<le> q" "q < 10 powi (?x + 1)" using ilog_bounds [of 10 q] q by simp_all
  let ?r = "round_even (q / ?u)"
  have "(10 :: rat) ^ (P - 1) * ?u = 10 powi (int (P - 1) + (?x - int P + 1))"
    by (subst power_int_add) simp_all
  also have "int (P - 1) + (?x - int P + 1) = ?x" using P by (simp add: of_nat_diff)
  finally have lo: "of_int (10 ^ (P - 1)) \<le> q / ?u" using x(1) u by (simp add: pos_le_divide_eq)
  have "(10 :: rat) ^ P * ?u = 10 powi (int P + (?x - int P + 1))" by (subst power_int_add) simp_all
  then have hi: "q / ?u \<le> of_int (10 ^ P)" using x(2) u by (simp add: pos_divide_le_eq add.commute)
  have r: "10 ^ (P - 1) \<le> ?r" "?r \<le> 10 ^ P" using round_even_ge [OF lo] round_even_le [OF hi] by simp_all
  have r0: "0 \<le> ?r" using r(1) by (meson order_trans zero_le_numeral zero_le_power)
  have "\<bar>of_int ?r - q / ?u\<bar> * ?u \<le> 1 / 2 * ?u" using round_even_error u by (intro mult_right_mono) auto
  moreover have "(of_int ?r - q / ?u) * ?u = of_int ?r * ?u - q" using u by (simp add: left_diff_distrib)
  moreover have "\<bar>of_int ?r - q / ?u\<bar> * ?u = \<bar>(of_int ?r - q / ?u) * ?u\<bar>" using u by (simp add: abs_mult)
  ultimately have err: "\<bar>of_int ?r * ?u - q\<bar> \<le> ?u / 2" by (simp only: mult_1 times_divide_eq_left)
  have "10 ^ (P - 1) \<le> D \<and> D < 10 ^ P \<and> of_nat D * 10 powi (X - int P + 1) = of_int ?r * ?u"
  proof (cases "nat ?r = 10 ^ P")
    case True
    then have DX: "D = 10 ^ (P - 1)" "X = ?x + 1" using s by (auto simp: sci_def Let_def)
    have "?r = 10 ^ P" using True r0 by (metis int_nat_eq of_nat_numeral of_nat_power)
    moreover have "(10 :: rat) ^ P = 10 ^ (P - 1) * 10" using P by (metis Suc_diff_1 less_le_trans mult.commute power_Suc zero_less_one)
    moreover have "10 powi (X - int P + 1) = 10 * ?u" unfolding DX using power_int_add_1' [of "10 :: rat" "?x - int P + 1"]
      by (simp add: algebra_simps)
    moreover have "(10 :: nat) ^ (P - 1) < 10 ^ P" using P by (intro power_strict_increasing) auto
    ultimately show ?thesis using DX by simp
  next
    case False
    then have DX: "D = nat ?r" "X = ?x" using s by (auto simp: sci_def Let_def)
    have "?r < 10 ^ P" using False r(2) by (metis nat_int of_nat_numeral of_nat_power order_le_imp_less_or_eq)
    then have "D < 10 ^ P" unfolding DX by (simp add: nat_less_iff r0)
    moreover have "10 ^ (P - 1) \<le> D" unfolding DX using r(1) r0 by (simp add: le_nat_iff)
    ultimately show ?thesis using DX r0 by simp
  qed
  then show "10 ^ (P - 1) \<le> D" "D < 10 ^ P"
    "\<bar>of_nat D * 10 powi (X - int P + 1) - q\<bar> \<le> 10 powi (ilog 10 q - int P + 1) / 2"
    using err by auto
qed

definition exp_ok :: "(char \<times> bool \<times> string) option \<Rightarrow> bool" where
  "exp_ok ex \<longleftrightarrow> (case ex of None \<Rightarrow> True
     | Some (c, _, xs) \<Rightarrow> (c = CHR ''e'' \<or> c = CHR ''E'') \<and> xs \<noteq> [] \<and> list_all is_digit xs)"

definition parts_tok :: "bool \<Rightarrow> string \<Rightarrow> string \<Rightarrow> (char \<times> bool \<times> string) option \<Rightarrow> numtok" where
  "parts_tok neg ip fp ex =
     \<lparr>nt_neg = neg, nt_int = ip, nt_frac = (if fp = [] then None else Some fp), nt_exp = map_option snd ex\<rparr>"

lemma scan_parts:
  "ip_ok ip \<Longrightarrow> list_all is_digit fp \<Longrightarrow> exp_ok ex \<Longrightarrow> num_end rest \<Longrightarrow>
    scan_number (num_text neg ip fp ex @ rest) = Some (parts_tok neg ip fp ex, rest)"
  unfolding parts_tok_def exp_ok_def by (rule scan_num_text)

lemma parts_tok_simps [simp]:
  "frac_text (parts_tok neg ip fp ex) = fp" "nt_int (parts_tok neg ip fp ex) = ip"
  "nt_neg (parts_tok neg ip fp ex) = neg"
  by (simp_all add: frac_text_def parts_tok_def)

text \<open>The three shapes \<open>%g\<close> prints.\<close>

lemma fmt_g_text:
  assumes P: "1 \<le> P" and q: "0 < dmag d" and s: "sci P (dmag d) = (D, X)"
  shows "\<exists>ip fp ex. fmt_g P d = num_text (dneg d) ip fp ex \<and> ip_ok ip \<and> list_all is_digit fp \<and> exp_ok ex \<and>
    tok_mag (parts_tok (dneg d) ip fp ex) = of_nat D * 10 powi (X - int P + 1)"
proof -
  note D = sci_spec(1,2) [OF q P s]
  let ?ds = "dec_str D"
  have len: "length ?ds = P" using D P by (rule dec_str_length)
  have D0: "0 < D" using D(1) by (metis less_le_trans zero_less_numeral zero_less_power)
  have dig: "list_all is_digit (take n ?ds)" "list_all is_digit (drop n ?ds)" for n
    using dec_str_digits [of D] by (metis append_take_drop_id list_all_append)+
  have hd: "ip_ok (take (Suc n) ?ds)" for n
    using dig(1) [of "Suc n"] cur_dec_str [OF D0] by (cases ?ds) (auto simp: ip_ok_def)
  have mag: "tok_mag (parts_tok neg ip (strip0 fp) ex) = of_nat D * 10 powi (X - int P + 1)"
    if "dec_val (ip @ fp) = D" "exp_val (parts_tok neg ip (strip0 fp) ex) - int (length fp) = X - int P + 1" for neg ip fp ex
    using that tok_mag_strip [of "parts_tok neg ip (strip0 fp) ex" fp ip] by simp
  have g: "fmt_g P d = (if dneg d then ''-'' else []) @
      (if - 4 \<le> X \<and> X < int P then
          (if 0 \<le> X then point (take (nat X + 1) ?ds) (strip0 (drop (nat X + 1) ?ds))
           else point ''0'' (strip0 (replicate (nat (- X) - 1) CHR ''0'' @ ?ds)))
        else point (take 1 ?ds) (strip0 (drop 1 ?ds)) @ CHR ''e'' # (if X < 0 then CHR ''-'' else CHR ''+'') # exp_digits X)"
    using q s by (simp add: fmt_g_def Let_def)
  consider (fixed) "0 \<le> X" "X < int P" | (small) "-4 \<le> X" "X < 0" | (sci) "\<not> (-4 \<le> X \<and> X < int P)" by linarith
  then show ?thesis
  proof cases
    case fixed
    let ?ip = "take (nat X + 1) ?ds" and ?fp = "drop (nat X + 1) ?ds"
    have "fmt_g P d = num_text (dneg d) ?ip (strip0 ?fp) None" using fixed by (simp add: g num_text_def)
    moreover have "tok_mag (parts_tok (dneg d) ?ip (strip0 ?fp) None) = of_nat D * 10 powi (X - int P + 1)"
      by (rule mag) (use fixed len in \<open>auto simp: exp_val_def parts_tok_def\<close>)
    ultimately show ?thesis using hd [of "nat X"] dig strip0_digits by (intro exI conjI) (auto simp: exp_ok_def)
  next
    case small
    let ?fp = "replicate (nat (- X) - 1) CHR ''0'' @ ?ds"
    have "fmt_g P d = num_text (dneg d) ''0'' (strip0 ?fp) None" using small by (simp add: g num_text_def)
    moreover have "tok_mag (parts_tok (dneg d) ''0'' (strip0 ?fp) None) = of_nat D * 10 powi (X - int P + 1)"
    proof (rule mag)
      have z: "dec_val (replicate n CHR ''0'') = 0" for n using dec_val_zeros [of "[]" n] by simp
      have "dec_val (''0'' @ ?fp) = dec_val (replicate (Suc (nat (- X) - 1)) CHR ''0'') * 10 ^ length ?ds + dec_val ?ds"
        by (simp only: dec_val_append [symmetric]) simp
      then show "dec_val (''0'' @ ?fp) = D" by (simp only: z) simp
      show "exp_val (parts_tok (dneg d) ''0'' (strip0 ?fp) None) - int (length ?fp) = X - int P + 1"
        using small len by (simp add: exp_val_def parts_tok_def of_nat_diff)
    qed
    moreover have "list_all is_digit (strip0 ?fp)" by (rule strip0_digits) (use dec_str_digits [of D] in \<open>auto simp: list_all_iff\<close>)
    ultimately show ?thesis by (intro exI conjI) (auto simp: exp_ok_def ip_ok_def)
  next
    case sci
    let ?ip = "take 1 ?ds" and ?fp = "drop 1 ?ds" and ?ex = "Some (CHR ''e'', X < 0, exp_digits X)"
    have "fmt_g P d = num_text (dneg d) ?ip (strip0 ?fp) ?ex" unfolding g if_not_P [OF sci] by (simp add: num_text_def)
    moreover have "tok_mag (parts_tok (dneg d) ?ip (strip0 ?fp) ?ex) = of_nat D * 10 powi (X - int P + 1)"
      by (rule mag) (use P len in \<open>auto simp: exp_val_def parts_tok_def exp_digits_val(1) of_nat_diff\<close>)
    ultimately show ?thesis using hd [of 0] dig [of 1] strip0_digits exp_digits_val(2,3) [of X]
      by (intro exI conjI) (auto simp: exp_ok_def)
  qed
qed

lemma scan_fmt_g:
  assumes P: "1 \<le> P" and q: "0 \<le> dmag d" and rest: "num_end rest"
  shows "\<exists>t. scan_number (fmt_g P d @ rest) = Some (t, rest) \<and> nt_neg t = dneg d \<and>
    tok_mag t = (if dmag d = 0 then 0 else case sci P (dmag d) of (D, X) \<Rightarrow> of_nat D * 10 powi (X - int P + 1))"
proof (cases "dmag d = 0")
  case True
  have "scan_number (num_text (dneg d) ''0'' [] None @ rest) = Some (parts_tok (dneg d) ''0'' [] None, rest)"
    using rest by (intro scan_parts) (auto simp: ip_ok_def exp_ok_def)
  moreover have "fmt_g P d = num_text (dneg d) ''0'' [] None" using True by (simp add: fmt_g_def num_text_def point_def)
  moreover have "dec_val ''0'' = 0" by (simp add: digit_val_def chcode_def)
  ultimately show ?thesis using True
    by (intro exI [of _ "parts_tok (dneg d) ''0'' [] None"]) (simp add: parts_tok_def tok_mag_def frac_text_def)
next
  case False
  obtain D X where s: "sci P (dmag d) = (D, X)" by force
  from False q have "0 < dmag d" by simp
  from fmt_g_text [OF P this s] obtain ip fp ex where f: "fmt_g P d = num_text (dneg d) ip fp ex"
    "ip_ok ip" "list_all is_digit fp" "exp_ok ex"
    "tok_mag (parts_tok (dneg d) ip fp ex) = of_nat D * 10 powi (X - int P + 1)" by blast
  have "scan_number (fmt_g P d @ rest) = Some (parts_tok (dneg d) ip fp ex, rest)"
    unfolding f(1) by (rule scan_parts [OF f(2-4) rest])
  then show ?thesis using f(5) False s by (intro exI [of _ "parts_tok (dneg d) ip fp ex"]) (simp add: parts_tok_def)
qed

section \<open>Seventeen digits are enough\<close>

text \<open>Every \<open>n * 2 ^ e\<close> with \<open>n\<close> of at most 53 bits and \<open>e\<close> in range is a double.\<close>

lemma round_even_of_int [simp]: "round_even (of_int n) = n"
  by (rule round_even_near) simp

lemma is_mag_dyadic:
  assumes n: "0 < n" "n < 2 ^ 53" and e: "- 1074 \<le> e" "e \<le> 971"
  shows "is_mag (of_int n * 2 powi e)"
proof -
  let ?q = "of_int n * 2 powi e :: rat"
  have p: "0 < (2 :: rat) powi i" for i by simp
  have q: "0 < ?q" using n by simp
  have "?q < 2 ^ 53 * 2 powi e"
    using n(2) p by (intro mult_strict_right_mono) (metis of_int_less_iff of_int_numeral of_int_power)+
  also have "(2 :: rat) ^ 53 * 2 powi e = 2 powi (int 53 + e)" by (subst power_int_add) simp_all
  finally have up: "?q < 2 powi (int 53 + e)" .
  have "ilog 2 ?q < int 53 + e"
  proof (rule ccontr)
    assume "\<not> ?thesis"
    then have "2 powi (int 53 + e) \<le> (2 :: rat) powi ilog 2 ?q" by (intro power_int_increasing) auto
    also have "\<dots> \<le> ?q" using ilog_bounds(1) [OF _ q, of 2] by simp
    finally show False using up by simp
  qed
  then have "dexp ?q \<le> e" using e by (simp add: dexp_def)
  then obtain m where m: "(2 :: rat) powi e = of_int m * 2 powi dexp ?q" using pow2_grid by blast
  then have g: "?q = of_int (n * m) * 2 powi dexp ?q" by simp
  then have "?q / 2 powi dexp ?q = of_int (n * m)" using p by (metis less_irrefl nonzero_mult_div_cancel_right)
  then have "round_even (?q / 2 powi dexp ?q) = n * m" by (simp only: round_even_of_int)
  then have "round_mag ?q = of_int (n * m) * 2 powi dexp ?q" unfolding round_mag_def using q by simp
  then have "round_mag ?q = ?q" by (simp only: g [symmetric])
  moreover have "(2 :: rat) powi (int 53 + e) \<le> 2 powi int 1024" using e by (intro power_int_increasing) auto
  then have "?q < DBL_LIMIT" using up unfolding DBL_LIMIT_def power_int_of_nat by simp
  ultimately show ?thesis using q by (simp add: is_mag_def)
qed

lemma sci17_near:
  assumes q: "is_mag q" "0 < q" and s: "sci 17 q = (D, X)"
  shows "round_mag (of_nat D * 10 powi (X - int 17 + 1)) = q"
proof (rule round_mag_near [OF q refl])
  let ?q' = "of_nat D * 10 powi (X - int 17 + 1) :: rat"
  let ?x = "ilog 10 q" and ?k = "ilog 2 q" and ?e = "dexp q"
  let ?T = "10 powi (?x - int 17 + 1) :: rat"
  have err: "\<bar>?q' - q\<bar> \<le> ?T / 2" using sci_spec(3) [OF q(2) _ s] by simp
  have x: "10 powi ?x \<le> q" using ilog_bounds(1) [of 10 q] q(2) by simp
  have "(10 :: rat) powi ?x = 10 ^ 16 * ?T"
  proof -
    have "(10 :: rat) powi ?x = 10 powi (int 16 + (?x - int 17 + 1))" by (rule arg_cong [of _ _ "\<lambda>i. 10 powi i"]) simp
    also have "\<dots> = 10 ^ 16 * ?T" by (subst power_int_add) simp_all
    finally show ?thesis .
  qed
  then have T: "10 ^ 16 * ?T \<le> q" using x by simp
  have "?k - 52 \<le> ?e" by (simp add: dexp_def)
  then have "2 powi (?k + 1) \<le> (2 :: rat) powi (int 53 + ?e)" by (intro power_int_increasing) auto
  also have "\<dots> = 2 ^ 53 * 2 powi ?e" by (subst power_int_add) simp_all
  finally have qe: "q < 2 ^ 53 * 2 powi ?e" using ilog_bounds(2) [of 2 q] q(2) by simp
  have u: "0 < (2 :: rat) powi ?e" by simp
  then have "2 ^ 53 * 2 powi ?e < 10 ^ 16 * (2 :: rat) powi ?e" by (intro mult_strict_right_mono) simp_all
  from le_less_trans [OF T less_trans [OF qe this]] have "?T < 2 powi ?e" by (rule mult_left_less_imp_less) simp
  then show "\<bar>?q' - q\<bar> < 2 powi ?e / 2" using err by simp
  assume two: "q = 2 powi ?k" and "?q' < q"
  note two
  also have "(2 :: rat) powi ?k \<le> 2 powi (int 52 + ?e)" using \<open>?k - 52 \<le> ?e\<close> by (intro power_int_increasing) auto
  also have "\<dots> = 2 ^ 52 * 2 powi ?e" by (subst power_int_add) simp_all
  also have "2 ^ 52 * 2 powi ?e < 10 ^ 16 * ((2 :: rat) powi ?e / 2)" using u by simp
  finally have "10 ^ 16 * ?T < 10 ^ 16 * ((2 :: rat) powi ?e / 2)" by (rule le_less_trans [OF T])
  then have "?T < 2 powi ?e / 2" by (rule mult_left_less_imp_less) simp
  then show "q - ?q' < 2 powi ?e / 4" using err abs_ge_minus_self [of "?q' - q"] by linarith
qed

definition dbl_ok :: "dbl \<Rightarrow> bool" where
  "dbl_ok d \<longleftrightarrow> is_mag (dmag d)"

lemma read17:
  assumes d: "dbl_ok d" and rest: "num_end rest"
  shows "\<exists>t. scan_number (fmt_g 17 d @ rest) = Some (t, rest) \<and> round_dbl (nt_neg t) (tok_mag t) = Some d"
proof -
  have q: "is_mag (dmag d)" "0 \<le> dmag d" "dmag d < DBL_LIMIT" using d by (simp_all add: dbl_ok_def is_mag_def)
  obtain t where t: "scan_number (fmt_g 17 d @ rest) = Some (t, rest)" "nt_neg t = dneg d"
    "tok_mag t = (if dmag d = 0 then 0 else case sci 17 (dmag d) of (D, X) \<Rightarrow> of_nat D * 10 powi (X - int 17 + 1))"
    using scan_fmt_g [of 17 d rest] q rest by auto
  have "round_mag (tok_mag t) = dmag d"
  proof (cases "dmag d = 0")
    case False
    obtain D X where s: "sci 17 (dmag d) = (D, X)" by force
    with False show ?thesis using sci17_near [OF q(1) _ s] q(2) by (simp add: t(3))
  qed (simp add: t(3) round_mag_def)
  then show ?thesis using t q(3) by (intro exI [of _ t]) (simp add: round_dbl_def)
qed

text \<open>
  A finite double printed with seventeen significant digits is read back exactly, sign of zero
  included: the decimal lies closer to it than half the gap to either neighbouring double.
\<close>

theorem strtod_fmt_g_17:
  "dbl_ok d \<Longrightarrow> strtod (fmt_g 17 d) = Some d"
  using read17 [of d "[]"] by (auto simp: strtod_def num_end_def)

definition tenth :: dbl where
  "tenth = Dbl False (3602879701896397 / 36028797018963968)"

theorem strtod_fmt_g_17_witness:
  "dbl_ok tenth \<and> strtod (fmt_g 17 tenth) = Some tenth"
proof -
  have "dmag tenth = of_int 3602879701896397 * 2 powi (- 55)" by (simp add: tenth_def power_int_minus)
  then have "dbl_ok tenth" unfolding dbl_ok_def by (simp only:) (rule is_mag_dyadic; simp)
  then show ?thesis using strtod_fmt_g_17 by blast
qed

end
