(* ===== verification/As_Json.thy ===== *)
theory As_Json
  imports As_Double As_Utf8
begin

text \<open>
  \<^verbatim>\<open>src/json.c\<close>, the JSON codec of the process transports: the value tree with its constructors,
  accessors and containers, the parser and the writer. A JSON string is a counted byte string and may
  hold NULs; a key is a C string. Growing buffers and arrays are their contents (memory suffices), and
  the parse state (text, position) is the text from the position on. The results about parsing and
  writing are in \<open>As_JsonText\<close>.
\<close>

section \<open>Values\<close>

text \<open>A number carries the double and, when the text is an integer in range, its \<open>long long\<close> view.\<close>

datatype jx_value =
    JX_NULL
  | JX_BOOL bool
  | JX_NUMBER dbl int bool
  | JX_STRING string
  | JX_ARRAY "jx_value list"
  | JX_OBJECT "(string \<times> jx_value) list"

type_synonym jx_members = "(string \<times> jx_value) list"

definition JX_MAX_DEPTH :: nat where
  "JX_MAX_DEPTH = 64"

definition bytes :: "string \<Rightarrow> byte list" where
  "bytes s = map (\<lambda>c. word_of_nat (chcode c)) s"

text \<open>The conversion of a \<open>long long\<close> to a double, to the nearest; it cannot overflow.\<close>

definition dbl_of_ll :: "int \<Rightarrow> dbl" where
  "dbl_of_ll i = Dbl (i < 0) (round_mag (of_int \<bar>i\<bar>))"

definition jx_int :: "int \<Rightarrow> jx_value" where
  "jx_int i = JX_NUMBER (dbl_of_ll i) i True"

text \<open>\<open>jx_double\<close> on a finite double; \<open>None\<close> stands for an infinity or a NaN.\<close>

definition jx_double :: "dbl option \<Rightarrow> jx_value option" where
  "jx_double d = map_option (\<lambda>d. JX_NUMBER d 0 False) d"

definition jx_string :: "string option \<Rightarrow> jx_value option" where
  "jx_string s = (case s of None \<Rightarrow> None
     | Some utf8 \<Rightarrow> if \<not> jx_utf8_valid (bytes utf8) then None else Some (JX_STRING utf8))"

definition jx_bool_value :: "jx_value option \<Rightarrow> bool" where
  "jx_bool_value v = (case v of Some (JX_BOOL b) \<Rightarrow> b | _ \<Rightarrow> False)"

definition jx_is_int :: "jx_value option \<Rightarrow> bool" where
  "jx_is_int v = (case v of Some (JX_NUMBER _ _ b) \<Rightarrow> b | _ \<Rightarrow> False)"

definition dbl_zero :: dbl where
  "dbl_zero = Dbl False 0"

definition jx_double_value :: "jx_value option \<Rightarrow> dbl" where
  "jx_double_value v = (case v of Some (JX_NUMBER d _ _) \<Rightarrow> d | _ \<Rightarrow> dbl_zero)"

text \<open>The conversion of a double to \<open>long long\<close> truncates; out of range it is undefined in C.\<close>

definition dbl_trunc :: "dbl \<Rightarrow> int" where
  "dbl_trunc d = (if dneg d then - \<lfloor>dmag d\<rfloor> else \<lfloor>dmag d\<rfloor>)"

definition jx_int_value :: "jx_value option \<Rightarrow> int option" where
  "jx_int_value v =
     (case v of
        Some (JX_NUMBER d i is_int) \<Rightarrow>
          if is_int then Some i else if int64_ok (dbl_trunc d) then Some (dbl_trunc d) else None
      | _ \<Rightarrow> Some 0)"

definition jx_string_value :: "jx_value option \<Rightarrow> string option" where
  "jx_string_value v = (case v of Some (JX_STRING s) \<Rightarrow> Some s | _ \<Rightarrow> None)"

definition jx_string_length :: "jx_value option \<Rightarrow> nat" where
  "jx_string_length v = (case v of Some (JX_STRING s) \<Rightarrow> length s | _ \<Rightarrow> 0)"

section \<open>Containers\<close>

text \<open>
  \<open>None\<close> as a result is the failure code \<open>-1\<close>; the value is owned and freed by then.
\<close>

definition jx_array_push :: "jx_value option \<Rightarrow> jx_value option \<Rightarrow> jx_value option" where
  "jx_array_push arr v =
     (case v of None \<Rightarrow> None
      | Some x \<Rightarrow> (case arr of Some (JX_ARRAY items) \<Rightarrow> Some (JX_ARRAY (items @ [x])) | _ \<Rightarrow> None))"

definition jx_array_len :: "jx_value option \<Rightarrow> nat" where
  "jx_array_len arr = (case arr of Some (JX_ARRAY items) \<Rightarrow> length items | _ \<Rightarrow> 0)"

definition jx_array_at :: "jx_value option \<Rightarrow> nat \<Rightarrow> jx_value option" where
  "jx_array_at arr i =
     (case arr of Some (JX_ARRAY items) \<Rightarrow> if i \<ge> length items then None else Some (items ! i) | _ \<Rightarrow> None)"

fun obj_put :: "jx_members \<Rightarrow> string \<Rightarrow> jx_value \<Rightarrow> jx_members" where
  "obj_put [] key v = [(key, v)]"
| "obj_put ((k, x) # ms) key v = (if k = key then (k, v) # ms else (k, x) # obj_put ms key v)"

definition jx_object_set :: "jx_value option \<Rightarrow> string option \<Rightarrow> jx_value option \<Rightarrow> jx_value option" where
  "jx_object_set obj key v =
     (case v of None \<Rightarrow> None
      | Some x \<Rightarrow>
         (case (obj, key) of
            (Some (JX_OBJECT ms), Some k) \<Rightarrow> Some (JX_OBJECT (obj_put ms k x))
          | _ \<Rightarrow> None))"

fun obj_find :: "jx_members \<Rightarrow> string \<Rightarrow> jx_value option" where
  "obj_find [] key = None"
| "obj_find ((k, x) # ms) key = (if k = key then Some x else obj_find ms key)"

definition jx_object_get :: "jx_value option \<Rightarrow> string option \<Rightarrow> jx_value option" where
  "jx_object_get obj key =
     (case (obj, key) of (Some (JX_OBJECT ms), Some k) \<Rightarrow> obj_find ms k | _ \<Rightarrow> None)"

definition jx_object_count :: "jx_value option \<Rightarrow> nat" where
  "jx_object_count obj = (case obj of Some (JX_OBJECT ms) \<Rightarrow> length ms | _ \<Rightarrow> 0)"

definition jx_object_key_at :: "jx_value option \<Rightarrow> nat \<Rightarrow> string option" where
  "jx_object_key_at obj i =
     (case obj of Some (JX_OBJECT ms) \<Rightarrow> if i \<ge> length ms then None else Some (fst (ms ! i)) | _ \<Rightarrow> None)"

definition jx_object_value_at :: "jx_value option \<Rightarrow> nat \<Rightarrow> jx_value option" where
  "jx_object_value_at obj i =
     (case obj of Some (JX_OBJECT ms) \<Rightarrow> if i \<ge> length ms then None else Some (snd (ms ! i)) | _ \<Rightarrow> None)"

text \<open>The copy rebuilds containers through their insertion operations.\<close>

fun jx_clone :: "jx_value \<Rightarrow> jx_value" where
  "jx_clone (JX_ARRAY items) = JX_ARRAY (fold (\<lambda>v acc. acc @ [jx_clone v]) items [])"
| "jx_clone (JX_OBJECT ms) = JX_OBJECT (fold (\<lambda>m acc. obj_put acc (fst m) (jx_clone (snd m))) ms [])"
| "jx_clone v = v"

section \<open>The parser\<close>

definition jx_ws :: "char \<Rightarrow> bool" where
  "jx_ws c \<longleftrightarrow> c = CHR '' '' \<or> c = CHR 0x09 \<or> c = CHR 0x0A \<or> c = CHR 0x0D"

definition skip_ws :: "string \<Rightarrow> string" where
  "skip_ws s = dropWhile jx_ws s"

definition p_lit :: "string \<Rightarrow> string \<Rightarrow> string option" where
  "p_lit lit s = (if length s < length lit \<or> take (length lit) s \<noteq> lit then None else Some (drop (length lit) s))"

definition hex_digit :: "char \<Rightarrow> nat option" where
  "hex_digit c =
     (if is_digit c then Some (chcode c - 48)
      else if 97 \<le> chcode c \<and> chcode c \<le> 102 then Some (chcode c - 97 + 10)
      else if 65 \<le> chcode c \<and> chcode c \<le> 70 then Some (chcode c - 65 + 10)
      else None)"

fun hex_run :: "nat \<Rightarrow> nat \<Rightarrow> string \<Rightarrow> (nat \<times> string) option" where
  "hex_run 0 v s = Some (v, s)"
| "hex_run (Suc n) v [] = None"
| "hex_run (Suc n) v (c # s) = (case hex_digit c of None \<Rightarrow> None | Some x \<Rightarrow> hex_run n (v * 16 + x) s)"

definition p_hex4 :: "string \<Rightarrow> (nat \<times> string) option" where
  "p_hex4 s = (if length s < 4 then None else hex_run 4 0 s)"

text \<open>The bytes of a code point as characters; \<open>utf8_encode\<close> is the scheme of \<open>As_Utf8\<close>.\<close>

definition enc_chars :: "nat \<Rightarrow> string" where
  "enc_chars cp = map (\<lambda>b. char_of (unat b)) (utf8_encode cp)"

text \<open>After a backslash and \<open>u\<close>: one escape or a surrogate pair.\<close>

definition p_unicode :: "string \<Rightarrow> (string \<times> string) option" where
  "p_unicode s =
     (case p_hex4 s of None \<Rightarrow> None
      | Some (cp, s) \<Rightarrow>
          if 0xDC00 \<le> cp \<and> cp \<le> 0xDFFF then None
          else if 0xD800 \<le> cp \<and> cp \<le> 0xDBFF then
            (if length s < 2 \<or> take 2 s \<noteq> [CHR 0x5C, CHR ''u''] then None
             else case p_hex4 (drop 2 s) of None \<Rightarrow> None
               | Some (lo, s) \<Rightarrow>
                   if lo < 0xDC00 \<or> lo > 0xDFFF then None
                   else Some (enc_chars (0x10000 + (cp - 0xD800) * 1024 + (lo - 0xDC00)), s))
          else Some (enc_chars cp, s))"

definition p_escape :: "string \<Rightarrow> (string \<times> string) option" where
  "p_escape s =
     (case s of [] \<Rightarrow> None
      | e # s \<Rightarrow>
          if e = CHR 0x22 then Some ([CHR 0x22], s)
          else if e = CHR 0x5C then Some ([CHR 0x5C], s)
          else if e = CHR ''/'' then Some (''/'', s)
          else if e = CHR ''b'' then Some ([CHR 0x08], s)
          else if e = CHR ''f'' then Some ([CHR 0x0C], s)
          else if e = CHR ''n'' then Some ([CHR 0x0A], s)
          else if e = CHR ''r'' then Some ([CHR 0x0D], s)
          else if e = CHR ''t'' then Some ([CHR 0x09], s)
          else if e = CHR ''u'' then p_unicode s
          else None)"

lemma hex_run_length: "hex_run n v s = Some (x, r) \<Longrightarrow> length s = length r + n"
  by (induction n v s rule: hex_run.induct) (auto split: option.splits)

lemma p_unicode_length: "p_unicode s = Some (x, r) \<Longrightarrow> length r < length s"
  by (auto simp: p_unicode_def p_hex4_def dest!: hex_run_length split: option.splits if_splits)

lemma p_escape_length: "p_escape s = Some (x, r) \<Longrightarrow> length r < length s"
  by (auto simp: p_escape_def less_Suc_eq dest: p_unicode_length split: list.splits if_splits)

text \<open>The characters after the opening quote, up to the closing one.\<close>

function p_string_loop :: "string \<Rightarrow> string \<Rightarrow> (string \<times> string) option" where
  "p_string_loop b s =
     (case s of [] \<Rightarrow> None
      | c # r \<Rightarrow>
          if c = CHR 0x22 then Some (b, r)
          else if c = CHR 0x5C then
            (case p_escape r of None \<Rightarrow> None | Some (x, r') \<Rightarrow> p_string_loop (b @ x) r')
          else if chcode c < 0x20 then None
          else let sl = jx_utf8_seq (bytes s) in
            if sl = 0 then None else p_string_loop (b @ take sl s) (drop sl s))"
  by pat_completeness auto
termination
  by (relation "measure (\<lambda>(b, s). length s)") (auto dest!: p_escape_length)

declare p_string_loop.simps [simp del]

definition p_number :: "string \<Rightarrow> (jx_value \<times> string) option" where
  "p_number s =
     (case scan_number s of None \<Rightarrow> None
      | Some (t, rest) \<Rightarrow>
         (case round_dbl (nt_neg t) (tok_mag t) of None \<Rightarrow> None
          | Some d \<Rightarrow>
              let n = int (dec_val (nt_int t));
                  ll = (if nt_neg t then - n else n);
                  fits = (nt_frac t = None \<and> nt_exp t = None \<and> int64_ok ll);
                  iv = (if fits then ll else 0)
              in Some (JX_NUMBER d iv (fits \<and> \<not> (iv = 0 \<and> nt_neg t)), rest)))"

function p_value :: "nat \<Rightarrow> string \<Rightarrow> (jx_value \<times> string) option"
  and p_items :: "nat \<Rightarrow> jx_value list \<Rightarrow> string \<Rightarrow> (jx_value \<times> string) option"
  and p_members :: "nat \<Rightarrow> jx_members \<Rightarrow> string \<Rightarrow> (jx_value \<times> string) option" where
  "p_value depth s =
     (case skip_ws s of [] \<Rightarrow> None
      | c # r \<Rightarrow>
          if c = CHR ''n'' then map_option (\<lambda>r'. (JX_NULL, r')) (p_lit ''null'' (c # r))
          else if c = CHR ''t'' then map_option (\<lambda>r'. (JX_BOOL True, r')) (p_lit ''true'' (c # r))
          else if c = CHR ''f'' then map_option (\<lambda>r'. (JX_BOOL False, r')) (p_lit ''false'' (c # r))
          else if c = CHR 0x22 then map_option (\<lambda>(x, r'). (JX_STRING x, r')) (p_string_loop [] r)
          else if c = CHR ''['' then
            (if depth \<ge> JX_MAX_DEPTH then None
             else let r = skip_ws r in
               if r \<noteq> [] \<and> cur r = CHR '']'' then Some (JX_ARRAY [], tl r)
               else p_items (Suc depth) [] r)
          else if c = CHR ''{'' then
            (if depth \<ge> JX_MAX_DEPTH then None
             else let r = skip_ws r in
               if r \<noteq> [] \<and> cur r = CHR ''}'' then Some (JX_OBJECT [], tl r)
               else p_members (Suc depth) [] r)
          else if c = CHR ''-'' \<or> is_digit c then p_number (c # r)
          else None)"
| "p_items depth acc s =
     (case p_value depth s of None \<Rightarrow> None
      | Some (v, s) \<Rightarrow>
         (case skip_ws s of [] \<Rightarrow> None
          | c # r \<Rightarrow>
              if c = CHR '','' then p_items depth (acc @ [v]) r
              else if c = CHR '']'' then Some (JX_ARRAY (acc @ [v]), r)
              else None))"
| "p_members depth acc s =
     (let s = skip_ws s in
      if s = [] \<or> cur s \<noteq> CHR 0x22 then None
      else case p_string_loop [] (tl s) of None \<Rightarrow> None
       | Some (key, s) \<Rightarrow>
           if NUL \<in> set key \<or> obj_find acc key \<noteq> None then None
           else let s = skip_ws s in
             if s = [] \<or> cur s \<noteq> CHR '':'' then None
             else case p_value depth (tl s) of None \<Rightarrow> None
              | Some (v, s) \<Rightarrow>
                 (case skip_ws s of [] \<Rightarrow> None
                  | c # r \<Rightarrow>
                      if c = CHR '','' then p_members depth (obj_put acc key v) r
                      else if c = CHR ''}'' then Some (JX_OBJECT (obj_put acc key v), r)
                      else None))"
  by pat_completeness auto

lemma skip_ws_length: "length (skip_ws s) \<le> length s"
  by (simp add: skip_ws_def length_dropWhile_le)

lemma p_string_loop_length: "p_string_loop b s = Some (x, r) \<Longrightarrow> length r < length s"
proof (induction b s rule: p_string_loop.induct)
  case (1 b s)
  show ?case
  proof (cases s)
    case Nil
    with "1.prems" show ?thesis by (subst (asm) p_string_loop.simps) simp
  next
    case (Cons c q)
    consider "c = CHR 0x22" | (esc) "c = CHR 0x5C" | "c \<noteq> CHR 0x22" "c \<noteq> CHR 0x5C" "chcode c < 0x20"
      | (seq) "c \<noteq> CHR 0x22" "c \<noteq> CHR 0x5C" "\<not> chcode c < 0x20" by blast
    then show ?thesis
    proof cases
      case esc
      with "1.prems" Cons obtain y q' where e: "p_escape q = Some (y, q')" "p_string_loop (b @ y) q' = Some (x, r)"
        by (subst (asm) p_string_loop.simps) (auto split: option.splits)
      from esc have "c \<noteq> CHR 0x22" by simp
      from "1.IH"(1) [OF Cons this esc e(1) refl e(2)] p_escape_length [OF e(1)] Cons show ?thesis by simp
    next
      case seq
      with "1.prems" Cons have e: "jx_utf8_seq (bytes s) \<noteq> 0"
        "p_string_loop (b @ take (jx_utf8_seq (bytes s)) s) (drop (jx_utf8_seq (bytes s)) s) = Some (x, r)"
        by (subst (asm) p_string_loop.simps; auto simp: Let_def split: if_splits)+
      from "1.IH"(2) [OF Cons seq refl e] show ?thesis by simp
    qed (use "1.prems" Cons in \<open>subst (asm) p_string_loop.simps; simp\<close>)+
  qed
qed

lemma p_lit_length: "p_lit lit s = Some r \<Longrightarrow> lit \<noteq> [] \<Longrightarrow> length r < length s"
proof -
  assume "p_lit lit s = Some r" "lit \<noteq> []"
  then have "length r = length s - length lit" "length lit \<le> length s" "0 < length lit"
    by (auto simp: p_lit_def split: if_splits)
  then show ?thesis by linarith
qed

lemma scan_int_length: "scan_int s = Some (x, r) \<Longrightarrow> length r < length s"
  by (cases s) (auto simp: scan_int_def less_Suc_eq_le length_dropWhile_le split: if_splits)

lemma scan_frac_length: "scan_frac s = Some (x, r) \<Longrightarrow> length r \<le> length s"
  by (cases s) (auto simp: scan_frac_def le_SucI length_dropWhile_le split: if_splits)

lemma scan_exp_length: "scan_exp s = Some (x, r) \<Longrightarrow> length r \<le> length s"
proof -
  assume a: "scan_exp s = Some (x, r)"
  have "length (dropWhile is_digit (tl (tl s))) \<le> length s" "length (dropWhile is_digit (tl s)) \<le> length s"
    using length_dropWhile_le [of is_digit "tl (tl s)"] length_dropWhile_le [of is_digit "tl s"] by simp_all
  with a show ?thesis by (auto simp: scan_exp_def Let_def split: if_splits)
qed

lemma scan_number_length: "scan_number s = Some (t, r) \<Longrightarrow> length r < length s"
  by (cases s) (auto simp: scan_number_def Let_def dest!: scan_int_length scan_frac_length scan_exp_length
      split: option.splits if_splits)

lemma p_number_length: "p_number s = Some (v, r) \<Longrightarrow> length r < length s"
  by (auto simp: p_number_def Let_def dest: scan_number_length split: option.splits)

lemma skip_ws_Cons: "skip_ws s = c # r \<Longrightarrow> length r < length s"
  using skip_ws_length [of s] by simp

lemma skip_ws_tl: "skip_ws s \<noteq> [] \<Longrightarrow> length (tl (skip_ws s)) < length s"
  using skip_ws_length [of s] by (cases "skip_ws s") auto

lemma p_shorter:
  "p_value_p_items_p_members_dom (Inl (depth, s)) \<Longrightarrow> p_value depth s = Some (v, r) \<Longrightarrow> length r < length s"
  "p_value_p_items_p_members_dom (Inr (Inl (depth, items, s))) \<Longrightarrow> p_items depth items s = Some (v, r) \<Longrightarrow> length r < length s"
  "p_value_p_items_p_members_dom (Inr (Inr (depth, ms, s))) \<Longrightarrow> p_members depth ms s = Some (v, r) \<Longrightarrow> length r < length s"
proof (induction arbitrary: v r and v r and v r rule: p_value_p_items_p_members.pinduct)
  case (1 depth s)
  obtain c q where s: "skip_ws s = c # q" and q: "length q < length s"
    using 1(1,4) by (cases "skip_ws s") (auto simp: p_value.psimps dest: skip_ws_Cons)
  have lit: "p_lit lit (c # q) = Some r \<Longrightarrow> lit \<noteq> [] \<Longrightarrow> length r < length s" for lit
    using p_lit_length [of lit "c # q" r] skip_ws_length [of s] s by simp
  have num: "p_number (c # q) = Some (v, r) \<Longrightarrow> length r < length s"
    using p_number_length [of "c # q"] skip_ws_length [of s] s by fastforce
  have str: "p_string_loop [] q = Some (x, r) \<Longrightarrow> length r < length s" for x
    using p_string_loop_length q by fastforce
  have tl: "skip_ws q \<noteq> [] \<Longrightarrow> length (tl (skip_ws q)) < length s"
    using skip_ws_tl [of q] q by simp
  have items: "length r < length s"
    if "c = CHR ''[''" "\<not> JX_MAX_DEPTH \<le> depth" "\<not> (skip_ws q \<noteq> [] \<and> cur (skip_ws q) = CHR '']'')"
      "p_items (Suc depth) [] (skip_ws q) = Some (v, r)"
    using 1(2) [OF s _ _ _ _ that(1,2) refl that(3,4)] that(1) skip_ws_length [of q] q by simp
  have members: "length r < length s"
    if "c = CHR ''{''" "\<not> JX_MAX_DEPTH \<le> depth" "\<not> (skip_ws q \<noteq> [] \<and> cur (skip_ws q) = CHR ''}'')"
      "p_members (Suc depth) [] (skip_ws q) = Some (v, r)"
    using 1(3) [OF s _ _ _ _ _ that(1,2) refl that(3,4)] that(1) skip_ws_length [of q] q by simp
  note e = 1(4) [unfolded p_value.psimps [OF 1(1)] s list.case Let_def]
  consider (n) "c = CHR ''n''" | (t) "c = CHR ''t''" | (f) "c = CHR ''f''" | (q) "c = CHR 0x22"
    | (a) "c = CHR ''[''" | (o) "c = CHR ''{''"
    | (z) "c \<noteq> CHR ''n''" "c \<noteq> CHR ''t''" "c \<noteq> CHR ''f''" "c \<noteq> CHR 0x22" "c \<noteq> CHR ''[''" "c \<noteq> CHR ''{''" by blast
  then show ?case
  proof cases
    case n
    with e show ?thesis using lit [of "''null''"] by auto
  next
    case t
    with e show ?thesis using lit [of "''true''"] by auto
  next
    case f
    with e show ?thesis using lit [of "''false''"] by auto
  next
    case q
    with e show ?thesis using str by auto
  next
    case a
    with e show ?thesis using items tl by (simp split: if_splits) auto
  next
    case o
    with e show ?thesis using members tl by (simp split: if_splits) auto
  next
    case z
    with e show ?thesis using num by (simp split: if_splits)
  qed
next
  case (2 depth acc s)
  obtain x s' where v: "p_value depth s = Some (x, s')"
    using 2(4) by (auto simp: p_items.psimps [OF 2(1)] split: option.splits)
  from 2(2) [OF this] have s': "length s' < length s" .
  obtain c q where q: "skip_ws s' = c # q"
    using 2(4) by (auto simp: p_items.psimps [OF 2(1)] v split: list.splits)
  from skip_ws_Cons [OF this] s' have "length q < length s" by simp
  moreover have "p_items depth (acc @ [x]) q = Some (v, r) \<Longrightarrow> c = CHR '','' \<Longrightarrow> length r < length q"
    using 2(3) [OF v refl q] by simp
  ultimately show ?case
    using 2(4) unfolding p_items.psimps [OF 2(1)] v option.case prod.case q list.case
    by (auto split: if_splits)
next
  case (3 depth acc s)
  note eq = p_members.psimps [OF 3(1)]
  have s0: "skip_ws s \<noteq> []" "cur (skip_ws s) = CHR 0x22"
    using 3(4) by (auto simp: eq Let_def split: if_splits)
  obtain key s1 where s1: "p_string_loop [] (tl (skip_ws s)) = Some (key, s1)"
    using 3(4) s0 by (auto simp: eq Let_def split: option.splits)
  have k: "NUL \<notin> set key" "obj_find acc key = None" and s2: "skip_ws s1 \<noteq> []" "cur (skip_ws s1) = CHR '':''"
    using 3(4) s0 s1 by (auto simp: eq Let_def split: if_splits)
  obtain x s3 where v: "p_value depth (tl (skip_ws s1)) = Some (x, s3)"
    using 3(4) s0 s1 k s2 by (auto simp: eq Let_def split: option.splits)
  obtain c q where q: "skip_ws s3 = c # q"
    using 3(4) s0 s1 k s2 v by (auto simp: eq Let_def split: list.splits)
  have "length s3 < length (tl (skip_ws s1))"
    using 3(2) [OF refl _ s1 refl _ refl _ v] s0 k s2 by simp
  then have "length q < length s"
    using p_string_loop_length [OF s1] skip_ws_tl [OF s0(1)] skip_ws_tl [OF s2(1)] skip_ws_Cons [OF q] by simp
  moreover have "p_members depth (obj_put acc key x) q = Some (v, r) \<Longrightarrow> c = CHR '','' \<Longrightarrow> length r < length q"
    using 3(3) [OF refl _ s1 refl _ refl _ v refl q] s0 k s2 by simp
  ultimately show ?case
    using 3(4) s0 s1 k s2 v q by (auto simp: eq Let_def split: if_splits)
qed

termination p_value
proof (relation "measure (\<lambda>x. case x of Inl (_, s) \<Rightarrow> 2 * length s
      | Inr (Inl (_, _, s)) \<Rightarrow> 2 * length s + 1 | Inr (Inr (_, _, s)) \<Rightarrow> 2 * length s + 1)", goal_cases)
  case (2 depth s c r)
  then show ?case using skip_ws_length [of r] skip_ws_Cons [of s] by simp
next
  case (3 depth s c r)
  then show ?case using skip_ws_length [of r] skip_ws_Cons [of s] by simp
next
  case 5
  then show ?case using skip_ws_Cons p_shorter(1) by (force dest!: skip_ws_Cons)
next
  case (6 depth acc s x x2 key y xb)
  have "length y < length (tl (skip_ws s))" using 6 by (auto dest: p_string_loop_length)
  then show ?case using 6 skip_ws_tl [of s] skip_ws_tl [of y] by simp
next
  case (7 depth acc s x x2 key y xb x2a v z c r)
  have "length y < length (tl (skip_ws s))" "length z < length (tl (skip_ws y))" "length r < length z"
    using 7 by (auto dest: p_string_loop_length p_shorter(1) skip_ws_Cons)
  then show ?case using 7 skip_ws_tl [of s] skip_ws_tl [of y] by simp
qed (auto)

declare p_value.simps [simp del] p_items.simps [simp del] p_members.simps [simp del]

definition jx_parse :: "string option \<Rightarrow> jx_value option" where
  "jx_parse text =
     (case text of None \<Rightarrow> None
      | Some s \<Rightarrow>
         (case p_value 0 s of None \<Rightarrow> None
          | Some (v, s) \<Rightarrow> if skip_ws s \<noteq> [] then None else Some v))"

section \<open>The writer\<close>

definition hexd :: "nat \<Rightarrow> char" where
  "hexd n = (if n < 10 then char_of (48 + n) else char_of (87 + n))"

definition w_char :: "char \<Rightarrow> string" where
  "w_char c =
     (if c = CHR 0x22 then [CHR 0x5C, CHR 0x22]
      else if c = CHR 0x5C then [CHR 0x5C, CHR 0x5C]
      else if c = CHR 0x08 then [CHR 0x5C, CHR ''b'']
      else if c = CHR 0x0C then [CHR 0x5C, CHR ''f'']
      else if c = CHR 0x0A then [CHR 0x5C, CHR ''n'']
      else if c = CHR 0x0D then [CHR 0x5C, CHR ''r'']
      else if c = CHR 0x09 then [CHR 0x5C, CHR ''t'']
      else if chcode c < 0x20 then
        [CHR 0x5C, CHR ''u'', CHR ''0'', CHR ''0'', hexd (chcode c div 16), hexd (chcode c mod 16)]
      else [c])"

definition w_string :: "string \<Rightarrow> string" where
  "w_string s = CHR 0x22 # concat (map w_char s) @ [CHR 0x22]"

definition ll_text :: "int \<Rightarrow> string" where
  "ll_text i = (if i < 0 then CHR ''-'' # dec_str (nat (- i)) else dec_str (nat i))"

text \<open>C's \<open>==\<close> on doubles does not see the sign of zero.\<close>

definition dbl_eq :: "dbl \<Rightarrow> dbl \<Rightarrow> bool" where
  "dbl_eq a b \<longleftrightarrow> a = b \<or> dmag a = 0 \<and> dmag b = 0"

definition w_number :: "dbl \<Rightarrow> int \<Rightarrow> bool \<Rightarrow> string" where
  "w_number d i is_int =
     (if is_int then ll_text i
      else let tmp = fmt_g 15 d
           in if (case strtod tmp of None \<Rightarrow> True | Some x \<Rightarrow> \<not> dbl_eq x d) then fmt_g 17 d else tmp)"

definition w_nl_indent :: "nat \<Rightarrow> string" where
  "w_nl_indent level = CHR 0x0A # concat (replicate level ''  '')"

fun w_value :: "bool \<Rightarrow> nat \<Rightarrow> jx_value \<Rightarrow> string"
  and w_items :: "bool \<Rightarrow> nat \<Rightarrow> bool \<Rightarrow> jx_value list \<Rightarrow> string"
  and w_members :: "bool \<Rightarrow> nat \<Rightarrow> bool \<Rightarrow> jx_members \<Rightarrow> string" where
  "w_value pretty level JX_NULL = ''null''"
| "w_value pretty level (JX_BOOL b) = (if b then ''true'' else ''false'')"
| "w_value pretty level (JX_NUMBER d i is_int) = w_number d i is_int"
| "w_value pretty level (JX_STRING s) = w_string s"
| "w_value pretty level (JX_ARRAY items) =
     (if items = [] then ''[]''
      else ''['' @ w_items pretty level True items @ (if pretty then w_nl_indent level else []) @ '']'')"
| "w_value pretty level (JX_OBJECT ms) =
     (if ms = [] then ''{}''
      else ''{'' @ w_members pretty level True ms @ (if pretty then w_nl_indent level else []) @ ''}'')"
| "w_items pretty level first [] = []"
| "w_items pretty level first (v # vs) =
     (if first then [] else '','') @ (if pretty then w_nl_indent (level + 1) else []) @
     w_value pretty (level + 1) v @ w_items pretty level False vs"
| "w_members pretty level first [] = []"
| "w_members pretty level first ((k, v) # ms) =
     (if first then [] else '','') @ (if pretty then w_nl_indent (level + 1) else []) @
     w_string k @ (if pretty then '': '' else '':'') @
     w_value pretty (level + 1) v @ w_members pretty level False ms"

definition jx_write :: "jx_value option \<Rightarrow> bool \<Rightarrow> string option" where
  "jx_write v pretty = map_option (w_value pretty 0) v"

section \<open>Objects are maps\<close>

text \<open>
  What the users of objects rely on: insertion replaces in place or appends, lookup finds what was
  last stored. The interface is a map with an ordered list of keys.
\<close>

locale keyed_map =
  fixes get :: "'m \<Rightarrow> 'k \<Rightarrow> 'v option"
    and put :: "'m \<Rightarrow> 'k \<Rightarrow> 'v \<Rightarrow> 'm"
    and keys :: "'m \<Rightarrow> 'k list"
  assumes get_put: "get (put m k v) k' = (if k' = k then Some v else get m k')"
    and keys_put: "keys (put m k v) = (if k \<in> set (keys m) then keys m else keys m @ [k])"
    and get_None: "get m k = None \<longleftrightarrow> k \<notin> set (keys m)"
begin

lemma put_distinct: "distinct (keys m) \<Longrightarrow> distinct (keys (put m k v))"
  by (simp add: keys_put)

lemma put_put: "get (put (put m k v) k w) = get (put m k w)"
  by (simp add: get_put fun_eq_iff)

lemma put_commute: "k \<noteq> l \<Longrightarrow> get (put (put m k v) l w) = get (put (put m l w) k v)"
  by (auto simp: get_put fun_eq_iff)

lemma keys_put_set: "set (keys (put m k v)) = insert k (set (keys m))"
  by (auto simp: keys_put)

end

lemma obj_find_None: "obj_find ms k = None \<longleftrightarrow> k \<notin> fst ` set ms"
  by (induction ms k rule: obj_find.induct) auto

lemma obj_find_put: "obj_find (obj_put ms k v) k' = (if k' = k then Some v else obj_find ms k')"
  by (induction ms k v rule: obj_put.induct) auto

lemma keys_obj_put: "map fst (obj_put ms k v) = (if k \<in> fst ` set ms then map fst ms else map fst ms @ [k])"
  by (induction ms k v rule: obj_put.induct) auto

interpretation object: keyed_map obj_find obj_put "map fst"
  by unfold_locales (auto simp: obj_find_None obj_find_put keys_obj_put)

lemma obj_put_fresh: "k \<notin> fst ` set ms \<Longrightarrow> obj_put ms k v = ms @ [(k, v)]"
  by (induction ms k v rule: obj_put.induct) auto

text \<open>
  Storing a member in an object and looking any key up: the stored value under its key, the old
  value under every other, and no key twice; a replaced member keeps its place, a new one comes last.
\<close>

theorem object_set_get:
  "\<exists>ms'. jx_object_set (Some (JX_OBJECT ms)) (Some k) (Some v) = Some (JX_OBJECT ms') \<and>
     (\<forall>k'. jx_object_get (Some (JX_OBJECT ms')) (Some k') =
        (if k' = k then Some v else jx_object_get (Some (JX_OBJECT ms)) (Some k'))) \<and>
     map fst ms' = (if k \<in> fst ` set ms then map fst ms else map fst ms @ [k]) \<and>
     distinct (map fst ms') = distinct (map fst ms)"
  by (intro exI [of _ "obj_put ms k v"])
    (simp add: jx_object_set_def jx_object_get_def object.get_put keys_obj_put)

section \<open>Copies\<close>

fun keys_distinct :: "jx_value \<Rightarrow> bool" where
  "keys_distinct (JX_ARRAY items) \<longleftrightarrow> (\<forall>v \<in> set items. keys_distinct v)"
| "keys_distinct (JX_OBJECT ms) \<longleftrightarrow> distinct (map fst ms) \<and> (\<forall>m \<in> set ms. keys_distinct (snd m))"
| "keys_distinct v \<longleftrightarrow> True"

lemma fold_append: "fold (\<lambda>v acc. acc @ [f v]) xs acc = acc @ map f xs"
  by (induction xs arbitrary: acc) simp_all

lemma fold_obj_put:
  "distinct (map fst ms) \<Longrightarrow> fst ` set acc \<inter> fst ` set ms = {} \<Longrightarrow>
    fold (\<lambda>m acc. obj_put acc (fst m) (f (snd m))) ms acc = acc @ map (\<lambda>m. (fst m, f (snd m))) ms"
proof (induction ms arbitrary: acc)
  case (Cons m ms)
  then have "obj_put acc (fst m) (f (snd m)) = acc @ [(fst m, f (snd m))]" by (intro obj_put_fresh) auto
  with Cons show ?case by auto
qed simp

text \<open>A deep copy of a value whose objects have no key twice is the value itself.\<close>

theorem jx_clone_exact: "keys_distinct v \<Longrightarrow> jx_clone v = v"
proof (induction v rule: jx_clone.induct)
  case (1 items)
  then show ?case by (simp add: fold_append map_idI)
next
  case (2 ms)
  then show ?case by (simp add: fold_obj_put map_idI)
qed simp_all

theorem jx_clone_exact_witness:
  "jx_clone (JX_OBJECT [(''a'', JX_ARRAY [JX_NULL, JX_BOOL True]), (''b'', JX_STRING ''x'')]) =
    JX_OBJECT [(''a'', JX_ARRAY [JX_NULL, JX_BOOL True]), (''b'', JX_STRING ''x'')]"
  by (rule jx_clone_exact) simp

end
