(* ===== verification/As_JsonText.thy ===== *)
theory As_JsonText
  imports As_Json
begin

text \<open>
  Reading back what the JSON writer prints (\<^verbatim>\<open>src/json.c\<close>): strings survive escaping, numbers keep
  their double (and their integer view when they have one), containers keep their order, pretty or
  compact; and what the parser returns is always a well-formed value within the depth limit.
\<close>

section \<open>Well-formed values\<close>

fun jx_ok :: "jx_value \<Rightarrow> bool" where
  "jx_ok (JX_NUMBER d i is_int) \<longleftrightarrow>
     dbl_ok d \<and> (if is_int then int64_ok i \<and> d = dbl_of_ll i else i = 0)"
| "jx_ok (JX_STRING s) \<longleftrightarrow> jx_utf8_valid (bytes s)"
| "jx_ok (JX_ARRAY items) \<longleftrightarrow> (\<forall>v \<in> set items. jx_ok v)"
| "jx_ok (JX_OBJECT ms) \<longleftrightarrow> distinct (map fst ms) \<and>
     (\<forall>m \<in> set ms. NUL \<notin> set (fst m) \<and> jx_utf8_valid (bytes (fst m)) \<and> jx_ok (snd m))"
| "jx_ok v \<longleftrightarrow> True"

fun jx_depth :: "jx_value \<Rightarrow> nat" where
  "jx_depth (JX_ARRAY items) = Suc (Max (insert 0 (jx_depth ` set items)))"
| "jx_depth (JX_OBJECT ms) = Suc (Max (insert 0 (jx_depth ` snd ` set ms)))"
| "jx_depth v = 0"

text \<open>The same value, except that an integral double may have gained its integer view.\<close>

fun jx_same :: "jx_value \<Rightarrow> jx_value \<Rightarrow> bool" where
  "jx_same (JX_NUMBER d i b) w = (case w of JX_NUMBER d' i' b' \<Rightarrow> d' = d \<and> (b \<longrightarrow> b' \<and> i' = i) | _ \<Rightarrow> False)"
| "jx_same (JX_ARRAY xs) w = (case w of JX_ARRAY ys \<Rightarrow> list_all2 jx_same xs ys | _ \<Rightarrow> False)"
| "jx_same (JX_OBJECT ms) w =
     (case w of JX_OBJECT ns \<Rightarrow> list_all2 (\<lambda>m n. fst m = fst n \<and> jx_same (snd m) (snd n)) ms ns | _ \<Rightarrow> False)"
| "jx_same v w \<longleftrightarrow> w = v"

section \<open>Characters and bytes\<close>

lemma bytes_simps [simp]:
  "bytes [] = []" "bytes (c # s) = word_of_nat (chcode c) # bytes s" "bytes (s @ t) = bytes s @ bytes t"
  "length (bytes s) = length s" "bytes (take n s) = take n (bytes s)" "bytes (drop n s) = drop n (bytes s)"
  by (simp_all add: bytes_def take_map drop_map)

lemma unat_chcode [simp]: "unat (word_of_nat (chcode c) :: byte) = chcode c"
  by (rule unat_of_byte) simp

lemma bytes_inj: "bytes s = bytes t \<Longrightarrow> s = t"
proof -
  have "map (\<lambda>b. char_of (unat b)) (bytes s) = s" for s by (induction s) simp_all
  then show "bytes s = bytes t \<Longrightarrow> s = t" by metis
qed

lemma bytes_enc_chars: "bytes (enc_chars cp) = utf8_encode cp"
proof -
  have "word_of_nat (chcode (char_of (unat b))) = (b :: byte)" for b
    using unat_byte_lt [of b] by simp
  then show ?thesis by (simp add: bytes_def enc_chars_def map_idI)
qed

text \<open>A sequence is a single ASCII character or a run of characters above them.\<close>

lemma seq_take:
  assumes "jx_utf8_seq (bytes s) = n" "n \<noteq> 0"
  shows "jx_utf8_seq (bytes (take n s @ t)) = n" "n \<le> length s"
proof -
  obtain cp where cp: "scalar_value cp" "take n (bytes s) = utf8_encode cp"
    using seq_sound [of "bytes s"] assms by auto
  show n: "n \<le> length s" using seq_le_length [of "bytes s"] assms by simp
  have "length (utf8_encode cp) = n" using cp(2) n by (metis bytes_simps(4) length_take min.absorb2)
  then show "jx_utf8_seq (bytes (take n s @ t)) = n"
    using seq_complete [OF cp(1), of "bytes t"] by (simp add: cp(2))
qed

lemma seq_one: "jx_utf8_seq (bytes (c # s)) = Suc 0 \<longleftrightarrow> chcode c < 128"
  using seq_1 [of "word_of_nat (chcode c)" "bytes s"] by simp

lemma seq_many_bytes:
  assumes "jx_utf8_seq p = n" "1 < n"
  shows "\<forall>b \<in> set (take n p). 128 \<le> unat b"
proof -
  obtain c q where p: "p = c # q" using assms by (cases p) (auto simp: jx_utf8_seq_def)
  consider "n = 2" | "n = 3" | "n = 4" using seq_range [of p] assms by auto
  then show ?thesis
  proof cases
    case 1
    with assms(1) show ?thesis unfolding p 1 seq_2 by (auto simp: is_cont_def numeral_eq_Suc)
  next
    case 2
    with assms(1) show ?thesis unfolding p 2 seq_3 by (auto simp: is_cont_def numeral_eq_Suc)
  next
    case 3
    with assms(1) show ?thesis unfolding p 3 seq_4 by (auto simp: is_cont_def numeral_eq_Suc)
  qed
qed

lemma seq_many:
  assumes "jx_utf8_seq (bytes s) = n" "1 < n" "c \<in> set (take n s)"
  shows "128 \<le> chcode c"
proof -
  have "word_of_nat (chcode c) \<in> set (take n (bytes s))" using assms(3) by (auto simp: bytes_def take_map)
  with seq_many_bytes [OF assms(1,2)] have "128 \<le> unat (word_of_nat (chcode c) :: byte)" by blast
  then show ?thesis by simp
qed

section \<open>Strings\<close>

lemma char_eq_iff: "c = d \<longleftrightarrow> chcode c = chcode d"
  using chcode_inj by blast

lemma hex_digit_hexd: "n < 16 \<Longrightarrow> hex_digit (hexd n) = Some n"
  by (auto simp: hex_digit_def hexd_def is_digit_def)

lemma p_hex4_control:
  "n < 32 \<Longrightarrow> p_hex4 ([CHR ''0'', CHR ''0'', hexd (n div 16), hexd (n mod 16)] @ s) = Some (n, s)"
proof -
  assume n: "n < 32"
  have z: "hex_digit CHR ''0'' = Some 0" by code_simp
  have four: "hex_run 4 0 (a # b # c # d # s) = Some (((wa * 16 + wb) * 16 + wc) * 16 + wd, s)"
    if "hex_digit a = Some wa" "hex_digit b = Some wb" "hex_digit c = Some wc" "hex_digit d = Some wd"
    for a b c d wa wb wc wd using that by (simp add: eval_nat_numeral)
  have d: "hex_digit (hexd (n div 16)) = Some (n div 16)" "hex_digit (hexd (n mod 16)) = Some (n mod 16)"
    using n by (intro hex_digit_hexd; simp)+
  have "p_hex4 ([CHR ''0'', CHR ''0'', hexd (n div 16), hexd (n mod 16)] @ s) =
      hex_run 4 0 (CHR ''0'' # CHR ''0'' # hexd (n div 16) # hexd (n mod 16) # s)"
    unfolding p_hex4_def by simp
  also have "\<dots> = Some (((0 * 16 + 0) * 16 + n div 16) * 16 + n mod 16, s)" by (rule four [OF z z d])
  finally show ?thesis by simp
qed

lemma p_unicode_control:
  "chcode c < 32 \<Longrightarrow>
    p_unicode ([CHR ''0'', CHR ''0'', hexd (chcode c div 16), hexd (chcode c mod 16)] @ s) = Some ([c], s)"
proof -
  assume c: "chcode c < 32"
  then have "enc_chars (chcode c) = [c]" by (simp add: enc_chars_def utf8_encode_def)
  then show ?thesis using c p_hex4_control [OF c, of s] by (simp add: p_unicode_def)
qed

text \<open>One character of the writer, read by one turn of the loop.\<close>

lemma loop_w_char:
  assumes "chcode c < 128"
  shows "p_string_loop b (w_char c @ s) = p_string_loop (b @ [c]) s"
proof -
  have plain: "p_string_loop b (c # s) = p_string_loop (b @ [c]) s"
    if "c \<noteq> CHR 0x22" "c \<noteq> CHR 0x5C" "\<not> chcode c < 0x20"
    using that assms seq_one [of c s] by (subst p_string_loop.simps) (simp add: Let_def)
  have esc: "p_string_loop b (CHR 0x5C # x) = p_string_loop (b @ [c]) s" if "p_escape x = Some ([c], s)" for x
    using that by (subst p_string_loop.simps) simp
  consider "c \<in> {CHR 0x22, CHR 0x5C, CHR 0x08, CHR 0x0C, CHR 0x0A, CHR 0x0D, CHR 0x09}"
    | (ctl) "c \<notin> {CHR 0x22, CHR 0x5C, CHR 0x08, CHR 0x0C, CHR 0x0A, CHR 0x0D, CHR 0x09}" "chcode c < 32"
    | (raw) "c \<notin> {CHR 0x22, CHR 0x5C, CHR 0x08, CHR 0x0C, CHR 0x0A, CHR 0x0D, CHR 0x09}" "\<not> chcode c < 32"
    by blast
  then show ?thesis
  proof cases
    case 1
    then show ?thesis by (elim insertE emptyE) (simp_all add: w_char_def esc p_escape_def)
  next
    case ctl
    then have "w_char c = CHR 0x5C # CHR ''u'' # [CHR ''0'', CHR ''0'', hexd (chcode c div 16), hexd (chcode c mod 16)]"
      by (simp add: w_char_def)
    moreover have "p_escape (CHR ''u'' # [CHR ''0'', CHR ''0'', hexd (chcode c div 16), hexd (chcode c mod 16)] @ s) = Some ([c], s)"
      using p_unicode_control [OF ctl(2), of s] by (simp add: p_escape_def)
    ultimately show ?thesis by (simp add: esc)
  next
    case raw
    then show ?thesis using plain by (simp add: w_char_def)
  qed
qed

lemma w_char_high: "128 \<le> chcode c \<Longrightarrow> w_char c = [c]"
proof -
  assume c: "128 \<le> chcode c"
  have "chcode d < 128 \<Longrightarrow> c \<noteq> d" for d using c by auto
  moreover have "chcode CHR 0x22 < 128" "chcode CHR 0x5C < 128" "chcode CHR 0x08 < 128" "chcode CHR 0x0C < 128"
    "chcode CHR 0x0A < 128" "chcode CHR 0x0D < 128" "chcode CHR 0x09 < 128" by code_simp+
  ultimately show ?thesis using c by (simp add: w_char_def)
qed

lemma loop_plain:
  assumes "s = c # q" "c \<noteq> CHR 0x22" "c \<noteq> CHR 0x5C" "\<not> chcode c < 0x20" "n \<noteq> 0" "jx_utf8_seq (bytes s) = n"
  shows "p_string_loop b s = p_string_loop (b @ take n s) (drop n s)"
  using assms by (subst p_string_loop.simps) (simp add: Let_def)

lemma w_char_run: "\<forall>c \<in> set t. 128 \<le> chcode c \<Longrightarrow> concat (map w_char t) = t"
  by (induction t) (simp_all add: w_char_high)

lemma loop_w_string:
  assumes "jx_utf8_valid (bytes s)"
  shows "p_string_loop b (concat (map w_char s) @ CHR 0x22 # rest) = Some (b @ s, rest)"
  using assms
proof (induction "length s" arbitrary: s b rule: less_induct)
  case less
  show ?case
  proof (cases "s = []")
    case True
    then show ?thesis by (subst p_string_loop.simps) simp
  next
    case False
    let ?n = "jx_utf8_seq (bytes s)"
    let ?t = "concat (map w_char (drop ?n s)) @ CHR 0x22 # rest"
    have "bytes s \<noteq> []" using False by (cases s) auto
    with less.prems have n: "?n \<noteq> 0" "jx_utf8_valid (bytes (drop ?n s))"
      unfolding jx_utf8_valid.simps [of "bytes s"] by (simp_all add: Let_def split: if_splits)
    have le: "?n \<le> length s" using seq_take(2) [OF refl n(1)] .
    have IH: "p_string_loop b' ?t = Some (b' @ drop ?n s, rest)" for b'
      by (rule less.hyps) (use False n in auto)
    have split: "concat (map w_char s) @ CHR 0x22 # rest = concat (map w_char (take ?n s)) @ ?t"
      by (subst (1) append_take_drop_id [symmetric, of s ?n]) (simp del: append_take_drop_id)
    show ?thesis
    proof (cases "?n = 1")
      case True
      then obtain c p where s: "s = c # p" "chcode c < 128"
        using False seq_one by (cases s) auto
      then show ?thesis using True IH [of "b @ [c]"] unfolding split by (simp add: loop_w_char)
    next
      case False
      with n(1) have "1 < ?n" by linarith
      then have high: "\<forall>c \<in> set (take ?n s). 128 \<le> chcode c" using seq_many [OF refl] by blast
      then have raw: "concat (map w_char (take ?n s)) = take ?n s" by (rule w_char_run)
      obtain c p where cp: "take ?n s = c # p" using n(1) le \<open>s \<noteq> []\<close> by (cases "take ?n s") auto
      with high have "128 \<le> chcode c" by simp
      then have c: "c \<noteq> CHR 0x22" "c \<noteq> CHR 0x5C" "\<not> chcode c < 0x20" by (auto simp: chcode_def)
      have seq: "jx_utf8_seq (bytes (take ?n s @ ?t)) = ?n" by (rule seq_take(1) [OF refl n(1)])
      have "take ?n s @ ?t = c # p @ ?t" unfolding cp by simp
      then have "p_string_loop b (take ?n s @ ?t) = p_string_loop (b @ take ?n (take ?n s @ ?t)) (drop ?n (take ?n s @ ?t))"
        by (intro loop_plain [OF _ c n(1) seq])
      then have "p_string_loop b (take ?n s @ ?t) = p_string_loop (b @ take ?n s) ?t" using le by simp
      then show ?thesis unfolding split raw by (simp add: IH)
    qed
  qed
qed

section \<open>Numbers\<close>

lemma scan_number_cur:
  "scan_number s = Some (t, r) \<Longrightarrow> s \<noteq> [] \<and> (cur s = CHR ''-'' \<or> is_digit (cur s))"
  by (cases s) (auto simp: scan_number_def scan_int_def Let_def split: if_splits option.splits)

lemma p_number_value:
  "scan_number s = Some (t, r) \<Longrightarrow> round_dbl (nt_neg t) (tok_mag t) = Some d \<Longrightarrow>
    \<exists>i b. p_number s = Some (JX_NUMBER d i b, r)"
  by (auto simp: p_number_def Let_def)

lemma ll_text_num: "ll_text i = num_text (i < 0) (dec_str (nat \<bar>i\<bar>)) [] None"
  by (auto simp: ll_text_def num_text_def point_def)

lemma ip_ok_dec_str: "ip_ok (dec_str n)"
proof (cases "n = 0")
  case True
  have "digit_char 0 = CHR ''0''" by code_simp
  then have "dec_str 0 = ''0''" by (subst dec_str.simps) simp
  with True show ?thesis by (simp add: ip_ok_def)
next
  case False
  then show ?thesis using cur_dec_str [of n] by (simp add: ip_ok_def)
qed

lemma int_number_roundtrip:
  assumes "int64_ok i" "dbl_ok (dbl_of_ll i)" "num_end rest"
  shows "p_number (ll_text i @ rest) = Some (JX_NUMBER (dbl_of_ll i) i True, rest)"
proof -
  let ?t = "parts_tok (i < 0) (dec_str (nat \<bar>i\<bar>)) [] None"
  have scan: "scan_number (ll_text i @ rest) = Some (?t, rest)"
    unfolding ll_text_num using assms(3) by (intro scan_parts) (simp_all add: ip_ok_dec_str exp_ok_def)
  have "tok_mag ?t = of_int \<bar>i\<bar>" by (simp add: tok_mag_def exp_val_def) (simp add: parts_tok_def)
  then have "round_dbl (nt_neg ?t) (tok_mag ?t) = Some (dbl_of_ll i)"
    using assms(2) by (simp add: round_dbl_def dbl_of_ll_def dbl_ok_def is_mag_def)
  then show ?thesis using scan assms(1) by (auto simp: p_number_def Let_def) (auto simp: parts_tok_def)
qed

lemma dbl_number_roundtrip:
  assumes d: "dbl_ok d" and rest: "num_end rest"
  shows "\<exists>i b. p_number (w_number d 0 False @ rest) = Some (JX_NUMBER d i b, rest)"
proof (cases "case strtod (fmt_g 15 d) of None \<Rightarrow> True | Some x \<Rightarrow> \<not> dbl_eq x d")
  case True
  then show ?thesis using read17 [OF d rest] p_number_value by (fastforce simp: w_number_def)
next
  case False
  then obtain x where x: "strtod (fmt_g 15 d) = Some x" "dbl_eq x d" by (auto split: option.splits)
  have q: "0 \<le> dmag d" using d by (simp add: dbl_ok_def is_mag_def)
  obtain t where t: "scan_number (fmt_g 15 d @ rest) = Some (t, rest)" "nt_neg t = dneg d"
    "tok_mag t = (if dmag d = 0 then 0 else case sci 15 (dmag d) of (D, X) \<Rightarrow> of_nat D * 10 powi (X - int 15 + 1))"
    using scan_fmt_g [of 15 d rest] q rest by auto
  obtain t' where t': "scan_number (fmt_g 15 d @ []) = Some (t', [])" "nt_neg t' = dneg d"
    "tok_mag t' = (if dmag d = 0 then 0 else case sci 15 (dmag d) of (D, X) \<Rightarrow> of_nat D * 10 powi (X - int 15 + 1))"
    using scan_fmt_g [of 15 d "[]"] q by (auto simp: num_end_def)
  from x(1) t' have rx: "round_dbl (dneg d) (tok_mag t') = Some x" by (simp add: strtod_def)
  then have "dneg x = dneg d" by (auto simp: round_dbl_def split: if_splits)
  with x(2) have "x = d" by (cases x; cases d) (auto simp: dbl_eq_def)
  with rx t t' have "round_dbl (nt_neg t) (tok_mag t) = Some d" by simp
  with t(1) show ?thesis using False p_number_value by (simp add: w_number_def)
qed

lemma number_roundtrip:
  assumes "jx_ok (JX_NUMBER d i b)" "num_end rest"
  shows "\<exists>v'. p_number (w_number d i b @ rest) = Some (v', rest) \<and> jx_same (JX_NUMBER d i b) v'"
proof (cases b)
  case True
  with assms int_number_roundtrip [of i rest] show ?thesis by (auto simp: w_number_def)
next
  case False
  with assms dbl_number_roundtrip [of d rest] show ?thesis by auto
qed

section \<open>White space\<close>

lemma skip_ws_simps [simp]:
  "skip_ws [] = []" "jx_ws c \<Longrightarrow> skip_ws (c # s) = skip_ws s" "\<not> jx_ws c \<Longrightarrow> skip_ws (c # s) = c # s"
  by (simp_all add: skip_ws_def)

lemma skip_ws_append [simp]: "list_all jx_ws w \<Longrightarrow> skip_ws (w @ s) = skip_ws s"
  by (induction w) simp_all

lemma skip_ws_idem [simp]: "skip_ws (skip_ws s) = skip_ws s"
  by (induction s) (auto simp: skip_ws_def)

lemma indent_ws: "list_all jx_ws (w_nl_indent k)"
proof -
  have "jx_ws (CHR 0x0A)" "jx_ws (CHR '' '')" by (simp_all add: jx_ws_def)
  moreover have "list_all jx_ws (concat (replicate k ''  ''))" by (induction k) (simp_all add: jx_ws_def)
  ultimately show ?thesis by (simp add: w_nl_indent_def)
qed

lemma p_value_skip: "p_value depth (skip_ws s) = p_value depth s"
  by (subst (1 2) p_value.simps) simp

lemma p_value_ws: "list_all jx_ws w \<Longrightarrow> p_value depth (w @ s) = p_value depth s"
  by (metis p_value_skip skip_ws_append)

lemma p_items_skip: "p_items depth acc (skip_ws s) = p_items depth acc s"
  by (subst (1 2) p_items.simps) (simp add: p_value_skip)

lemma p_members_skip: "p_members depth acc (skip_ws s) = p_members depth acc s"
  by (subst (1 2) p_members.simps) simp

lemma not_ws [simp]:
  "\<not> jx_ws CHR ''n''" "\<not> jx_ws CHR ''t''" "\<not> jx_ws CHR ''f''" "\<not> jx_ws CHR 0x22" "\<not> jx_ws CHR ''[''"
  "\<not> jx_ws CHR ''{''" "\<not> jx_ws CHR ''-''" "\<not> jx_ws CHR '',''" "\<not> jx_ws CHR '']''" "\<not> jx_ws CHR ''}''" "\<not> jx_ws CHR '':''"
  by (simp_all add: jx_ws_def)

lemma digit_not_ws: "is_digit c \<Longrightarrow> \<not> jx_ws c"
  by (auto simp: jx_ws_def is_digit_def chcode_def)

lemma p_value_number:
  assumes "p_number s = Some (v, r)"
  shows "p_value depth s = Some (v, r)"
proof -
  from assms obtain t where "scan_number s = Some (t, r)" by (auto simp: p_number_def Let_def split: option.splits)
  then obtain c q where s: "s = c # q" "c = CHR ''-'' \<or> is_digit c" using scan_number_cur [of s] by (cases s) auto
  have d: "c \<noteq> CHR ''n''" "c \<noteq> CHR ''t''" "c \<noteq> CHR ''f''" "c \<noteq> CHR 0x22" "c \<noteq> CHR ''[''" "c \<noteq> CHR ''{''"
    using s(2) by (auto simp: is_digit_def chcode_def)
  have "skip_ws s = c # q" using s digit_not_ws by auto
  then show ?thesis using s d assms by (subst p_value.simps) simp
qed

lemma p_value_string:
  assumes "jx_utf8_valid (bytes s)"
  shows "p_value depth (w_string s @ rest) = Some (JX_STRING s, rest)"
  using loop_w_string [OF assms, of "[]" rest] by (subst p_value.simps) (simp add: w_string_def)

section \<open>Values\<close>

lemma w_items_False: "w_items pretty level False vs = (if vs = [] then [] else CHR '','' # w_items pretty level True vs)"
  by (cases vs) auto

lemma w_members_False:
  "w_members pretty level False ms = (if ms = [] then [] else CHR '','' # w_members pretty level True ms)"
  by (cases ms) auto

lemma not_close:
  "p_items depth acc s = Some x \<Longrightarrow> cur (skip_ws s) \<noteq> CHR '']''"
  by (subst (asm) p_items.simps, subst (asm) p_value.simps)
    (auto simp: is_digit_def chcode_def split: list.splits)

lemma not_close_brace:
  "p_members depth acc s = Some x \<Longrightarrow> cur (skip_ws s) \<noteq> CHR ''}''"
  by (subst (asm) p_members.simps) (auto simp: Let_def split: if_splits)

lemma num_end_Cons: "c \<in> {CHR '','', CHR '']'', CHR ''}'', CHR 0x0A} \<Longrightarrow> num_end (c # s)"
  by (auto simp: num_end_def is_digit_def chcode_def)

lemma num_end_close:
  "c = CHR '']'' \<or> c = CHR ''}'' \<Longrightarrow> num_end ((if pretty then w_nl_indent level else []) @ c # rest)"
  by (auto simp: w_nl_indent_def num_end_Cons)

lemma jx_depth_items: "v \<in> set vs \<Longrightarrow> jx_depth v < jx_depth (JX_ARRAY vs)"
  by (auto simp: less_Suc_eq_le intro: Max_ge)

lemma jx_depth_members: "m \<in> set ms \<Longrightarrow> jx_depth (snd m) < jx_depth (JX_OBJECT ms)"
  by (auto simp: less_Suc_eq_le intro!: Max_ge)

abbreviation same_member :: "string \<times> jx_value \<Rightarrow> string \<times> jx_value \<Rightarrow> bool" where
  "same_member m n \<equiv> fst m = fst n \<and> jx_same (snd m) (snd n)"

lemma items_step:
  assumes "p_value depth s = Some (v, r)" "skip_ws r = CHR '','' # q"
  shows "p_items depth acc s = p_items depth (acc @ [v]) q"
  using assms by (subst p_items.simps) simp

lemma items_last:
  assumes "p_value depth s = Some (v, r)" "skip_ws r = CHR '']'' # q"
  shows "p_items depth acc s = Some (JX_ARRAY (acc @ [v]), q)"
  using assms by (subst p_items.simps) simp

lemma members_head:
  assumes k: "jx_utf8_valid (bytes k)" "NUL \<notin> set k" "k \<notin> fst ` set acc"
    and s: "skip_ws s = w_string k @ CHR '':'' # s'" and v: "p_value depth s' = Some (v, r)"
  shows "p_members depth acc s =
    (case skip_ws r of [] \<Rightarrow> None
     | c # r \<Rightarrow>
         if c = CHR '','' then p_members depth (acc @ [(k, v)]) r
         else if c = CHR ''}'' then Some (JX_OBJECT (acc @ [(k, v)]), r)
         else None)"
proof -
  have "p_string_loop [] (tl (skip_ws s)) = Some (k, CHR '':'' # s')"
    using loop_w_string [OF k(1), of "[]"] by (simp add: s w_string_def)
  moreover have "skip_ws s \<noteq> []" "cur (skip_ws s) = CHR 0x22" by (simp_all add: s w_string_def)
  moreover have "obj_find acc k = None" using k(3) by (simp add: obj_find_None)
  ultimately show ?thesis
    using k(2) v by (subst p_members.simps) (simp add: Let_def obj_put_fresh [OF k(3)] split: list.split)
qed

lemma write_read:
  "jx_ok v \<Longrightarrow> depth + jx_depth v \<le> JX_MAX_DEPTH \<Longrightarrow> num_end rest \<Longrightarrow>
    \<exists>v'. p_value depth (w_value pretty level v @ rest) = Some (v', rest) \<and> jx_same v v'"
  "vs \<noteq> [] \<Longrightarrow> \<forall>v \<in> set vs. jx_ok v \<and> depth + jx_depth v \<le> JX_MAX_DEPTH \<Longrightarrow>
    \<exists>vs'. p_items depth acc (w_items pretty level True vs @ (if pretty then w_nl_indent level else []) @ CHR '']'' # rest) =
        Some (JX_ARRAY (acc @ vs'), rest) \<and> list_all2 jx_same vs vs'"
  "ms \<noteq> [] \<Longrightarrow> distinct (map fst ms) \<Longrightarrow> fst ` set macc \<inter> fst ` set ms = {} \<Longrightarrow>
    \<forall>m \<in> set ms. NUL \<notin> set (fst m) \<and> jx_utf8_valid (bytes (fst m)) \<and> jx_ok (snd m) \<and> depth + jx_depth (snd m) \<le> JX_MAX_DEPTH \<Longrightarrow>
    \<exists>ms'. p_members depth macc (w_members pretty level True ms @ (if pretty then w_nl_indent level else []) @ CHR ''}'' # rest) =
        Some (JX_OBJECT (macc @ ms'), rest) \<and> list_all2 same_member ms ms'"
proof (induction pretty level v and pretty level "first :: bool" vs and pretty level "first :: bool" ms
    arbitrary: depth rest and depth rest acc and depth rest macc rule: w_value_w_items_w_members.induct)
  case (1 pretty level)
  then show ?case by (subst p_value.simps) (simp add: p_lit_def)
next
  case (2 pretty level b)
  then show ?case by (subst p_value.simps) (simp add: p_lit_def)
next
  case (3 pretty level d i b)
  from number_roundtrip [OF 3(1,3)] show ?case using p_value_number by (simp only: w_value.simps) blast
next
  case (4 pretty level s)
  then show ?case using p_value_string by simp
next
  case (5 pretty level items)
  let ?ws = "if pretty then w_nl_indent level else []"
  have d: "depth < JX_MAX_DEPTH" using 5(3) by simp
  show ?case
  proof (cases "items = []")
    case True
    then show ?thesis using d by (subst p_value.simps) simp
  next
    case False
    have "\<forall>v \<in> set items. jx_ok v \<and> Suc depth + jx_depth v \<le> JX_MAX_DEPTH"
      using 5(2,3) jx_depth_items [of _ items] by fastforce
    from "5.IH" [OF False False this, of "[]" rest] obtain vs' where
      i: "p_items (Suc depth) [] (w_items pretty level True items @ ?ws @ CHR '']'' # rest) = Some (JX_ARRAY vs', rest)"
         "list_all2 jx_same items vs'" by auto
    then have "p_value depth (CHR ''['' # w_items pretty level True items @ ?ws @ CHR '']'' # rest) = Some (JX_ARRAY vs', rest)"
      using d not_close [OF i(1)] by (subst p_value.simps) (simp add: Let_def p_items_skip)
    then show ?thesis using i(2) False by simp
  qed
next
  case (6 pretty level ms)
  let ?ws = "if pretty then w_nl_indent level else []"
  have d: "depth < JX_MAX_DEPTH" using 6(3) by simp
  show ?case
  proof (cases "ms = []")
    case True
    then show ?thesis using d by (subst p_value.simps) simp
  next
    case False
    have m: "distinct (map fst ms)" "\<forall>m \<in> set ms. NUL \<notin> set (fst m) \<and> jx_utf8_valid (bytes (fst m)) \<and> jx_ok (snd m) \<and>
        Suc depth + jx_depth (snd m) \<le> JX_MAX_DEPTH"
      using 6(2,3) jx_depth_members [of _ ms] by fastforce+
    from "6.IH" [OF False False m(1) _ m(2), of "[]" rest] obtain ms' where
      i: "p_members (Suc depth) [] (w_members pretty level True ms @ ?ws @ CHR ''}'' # rest) = Some (JX_OBJECT ms', rest)"
         "list_all2 same_member ms ms'" by auto
    then have "p_value depth (CHR ''{'' # w_members pretty level True ms @ ?ws @ CHR ''}'' # rest) = Some (JX_OBJECT ms', rest)"
      using d not_close_brace [OF i(1)] by (subst p_value.simps) (simp add: Let_def p_members_skip)
    then show ?thesis using i(2) False by simp
  qed
next
  case (7 pretty level first)
  then show ?case by simp
next
  case (8 pretty level first v vs)
  let ?ws = "if pretty then w_nl_indent level else []"
  let ?nl = "if pretty then w_nl_indent (level + 1) else []"
  let ?rest = "w_items pretty level False vs @ ?ws @ CHR '']'' # rest"
  have nl: "list_all jx_ws ?nl" "list_all jx_ws ?ws" using indent_ws by auto
  have "num_end ?rest" by (simp add: w_items_False num_end_close num_end_Cons)
  from "8.IH"(1) [OF _ _ this] 8(4) obtain v' where
    v: "p_value depth (w_value pretty (level + 1) v @ ?rest) = Some (v', ?rest)" "jx_same v v'" by auto
  have pv: "p_value depth (?nl @ w_value pretty (level + 1) v @ ?rest) = Some (v', ?rest)"
    using p_value_ws [OF nl(1)] v(1) by simp
  show ?case
  proof (cases "vs = []")
    case True
    then have "skip_ws ?rest = CHR '']'' # rest" using skip_ws_append [OF nl(2)] by simp
    from items_last [OF pv this, of acc] show ?thesis using True v(2) by (intro exI [of _ "[v']"]) simp
  next
    case False
    have "skip_ws ?rest = CHR '','' # w_items pretty level True vs @ ?ws @ CHR '']'' # rest"
      using False by (simp add: w_items_False)
    note step = items_step [OF pv this, of acc]
    from "8.IH"(2) [OF False, of depth "acc @ [v']" rest] 8(4) obtain vs' where
      "p_items depth (acc @ [v']) (w_items pretty level True vs @ ?ws @ CHR '']'' # rest) = Some (JX_ARRAY ((acc @ [v']) @ vs'), rest)"
      "list_all2 jx_same vs vs'" by auto
    then show ?thesis using step v(2) by (intro exI [of _ "v' # vs'"]) simp
  qed
next
  case (9 pretty level first)
  then show ?case by simp
next
  case (10 pretty level first k v ms)
  let ?ws = "if pretty then w_nl_indent level else []"
  let ?nl = "if pretty then w_nl_indent (level + 1) else []"
  let ?rest = "w_members pretty level False ms @ ?ws @ CHR ''}'' # rest"
  let ?sp = "if pretty then '' '' else []"
  have nl: "list_all jx_ws ?nl" "list_all jx_ws ?ws" "list_all jx_ws ?sp" using indent_ws by (auto simp: jx_ws_def)
  have "num_end ?rest" by (simp add: w_members_False num_end_close num_end_Cons)
  from "10.IH"(1) [OF _ _ this] 10(6) obtain v' where
    v: "p_value depth (w_value pretty (level + 1) v @ ?rest) = Some (v', ?rest)" "jx_same v v'" by auto
  have pv: "p_value depth (?sp @ w_value pretty (level + 1) v @ ?rest) = Some (v', ?rest)"
    using p_value_ws [OF nl(3)] v(1) by simp
  have k: "jx_utf8_valid (bytes k)" "NUL \<notin> set k" "k \<notin> fst ` set macc" using 10(5,6) by auto
  let ?text = "w_members pretty level True ((k, v) # ms) @ ?ws @ CHR ''}'' # rest"
  have "?text = ?nl @ w_string k @ CHR '':'' # ?sp @ w_value pretty (level + 1) v @ ?rest" by simp
  then have "skip_ws ?text = w_string k @ CHR '':'' # ?sp @ w_value pretty (level + 1) v @ ?rest"
    using skip_ws_append [OF nl(1)] by (simp add: w_string_def)
  note head = members_head [OF k this pv]
  show ?case
  proof (cases "ms = []")
    case True
    then have "skip_ws ?rest = CHR ''}'' # rest" using skip_ws_append [OF nl(2)] by simp
    then show ?thesis using head v(2) True by (intro exI [of _ "[(k, v')]"]) simp
  next
    case False
    have rest: "skip_ws ?rest = CHR '','' # w_members pretty level True ms @ ?ws @ CHR ''}'' # rest"
      using False by (simp add: w_members_False)
    from "10.IH"(2) [OF False, of "macc @ [(k, v')]" depth rest] 10(4,5,6) obtain ms' where
      "p_members depth (macc @ [(k, v')]) (w_members pretty level True ms @ ?ws @ CHR ''}'' # rest) =
        Some (JX_OBJECT ((macc @ [(k, v')]) @ ms'), rest)" "list_all2 same_member ms ms'" by auto
    then show ?thesis using head rest v(2) by (intro exI [of _ "(k, v') # ms'"]) simp
  qed
qed

text \<open>
  C6: What the writer prints, pretty or compact, the parser reads back: the same tree, every string and key
  byte for byte, every double exact, integers as integers. A double without an integer view may
  come back with one, when its text has neither fraction nor exponent.
\<close>

theorem json_write_parse:
  assumes "jx_ok v" and "jx_depth v \<le> JX_MAX_DEPTH"
  shows "\<exists>v'. jx_parse (jx_write (Some v) pretty) = Some v' \<and> jx_same v v'"
  using write_read(1) [of v 0 "[]" pretty 0] assms by (auto simp: jx_parse_def jx_write_def num_end_def)

lemma dbl_of_ll_ok: "0 < i \<Longrightarrow> i < 2 ^ 53 \<Longrightarrow> dbl_ok (dbl_of_ll i)"
  using is_mag_dyadic [of i 0] by (simp add: dbl_ok_def dbl_of_ll_def is_mag_def)

definition demo_json :: jx_value where
  "demo_json = JX_OBJECT [(''id'', jx_int 7), (''xs'', JX_ARRAY [JX_STRING [CHR 0x0A, CHR 0x22], JX_NULL])]"

theorem json_write_parse_witness:
  "jx_ok demo_json \<and> (\<exists>v'. jx_parse (jx_write (Some demo_json) True) = Some v' \<and> jx_same demo_json v')"
proof -
  have "jx_utf8_valid (bytes ''id'')" "jx_utf8_valid (bytes ''xs'')" "jx_utf8_valid (bytes [CHR 0x0A, CHR 0x22])"
    by code_simp+
  moreover have "NUL \<notin> set ''id''" "NUL \<notin> set ''xs''" by (simp_all add: NUL_def)
  ultimately have ok: "jx_ok demo_json"
    using dbl_of_ll_ok [of 7] by (simp add: demo_json_def jx_int_def int64_ok_def INT64_MIN_def INT64_MAX_def del: bytes_simps)
  have "jx_depth demo_json \<le> JX_MAX_DEPTH" by (simp add: demo_json_def jx_int_def JX_MAX_DEPTH_def)
  from json_write_parse [OF ok this, of True] ok show ?thesis by blast
qed

section \<open>What the parser returns\<close>

lemma powi2_less: "(2 :: rat) powi a < 2 powi b \<Longrightarrow> a < b"
  using power_int_increasing [of b a "2 :: rat"] by (metis linorder_not_less one_le_numeral)

lemma is_mag_round:
  assumes q: "0 \<le> q" and lim: "round_mag q < DBL_LIMIT"
  shows "is_mag (round_mag q)"
proof (cases "round_mag q = 0")
  case True
  then show ?thesis by (simp add: is_mag_def round_mag_def DBL_LIMIT_def)
next
  case False
  let ?e = "dexp q" and ?n = "round_even (q / 2 powi dexp q)" and ?k = "ilog 2 q"
  have q0: "0 < q" using q False by (cases "q = 0") (auto simp: round_mag_def)
  have u: "0 < (2 :: rat) powi i" for i by simp
  have r: "round_mag q = of_int ?n * 2 powi ?e" using q0 by (simp add: round_mag_def)
  have e: "-1074 \<le> ?e" "?k - 52 \<le> ?e" by (simp_all add: dexp_def)
  have lim': "of_int ?n * 2 powi ?e < (2 :: rat) powi 1024" using lim r power_int_of_nat [of "2 :: rat" 1024]
    by (simp only: DBL_LIMIT_def of_nat_numeral)
  have "q < 2 powi (?k + 1)" using ilog_bounds(2) [of 2 q] q0 by simp
  also have "\<dots> \<le> 2 powi (int 53 + ?e)" using e by (intro power_int_increasing) auto
  also have "\<dots> = 2 ^ 53 * 2 powi ?e" by (subst power_int_add) simp_all
  finally have "q / 2 powi ?e \<le> of_int (2 ^ 53)" using u by (simp add: pos_divide_le_eq)
  then have hi: "?n \<le> 2 ^ 53" by (rule round_even_le)
  have "0 \<le> ?n" using q u [of ?e] by (intro round_even_ge) simp
  moreover have "?n \<noteq> 0" using False r by auto
  ultimately have lo: "0 < ?n" by simp
  show ?thesis
  proof (cases "?n = 2 ^ 53")
    case True
    have two: "of_int ?n * 2 powi ?e = of_int (2 ^ 52) * (2 :: rat) powi (?e + 1)"
      unfolding True by (simp add: power_int_add)
    have "(2 :: rat) powi (int 53 + ?e) = 2 ^ 53 * 2 powi ?e" by (subst power_int_add) simp_all
    with lim' True have "(2 :: rat) powi (int 53 + ?e) < 2 powi 1024" by simp
    then have "?e + 1 \<le> 971" using powi2_less by fastforce
    then show ?thesis unfolding r two using e(1) by (intro is_mag_dyadic) simp_all
  next
    case False
    with hi have n: "?n < 2 ^ 53" by simp
    have "?e \<le> 971"
    proof (cases "?e = -1074")
      case False
      then have ek: "?e = ?k - 52" by (simp add: dexp_def max_def split: if_splits)
      have "of_int (2 ^ 52) * 2 powi ?e = (2 :: rat) powi (int 52 + ?e)" by (subst power_int_add) simp_all
      also have "\<dots> = 2 powi ?k" using ek by simp
      also have "\<dots> \<le> q" using ilog_bounds(1) [of 2 q] q0 by simp
      finally have "2 ^ 52 \<le> ?n" using u by (intro round_even_ge) (simp add: pos_le_divide_eq)
      then have "(2 :: rat) ^ 52 * 2 powi ?e \<le> of_int ?n * 2 powi ?e"
        by (intro mult_right_mono) (metis of_int_le_iff of_int_numeral of_int_power, simp)
      moreover have "(2 :: rat) powi (int 52 + ?e) = 2 ^ 52 * 2 powi ?e" by (subst power_int_add) simp_all
      ultimately have "(2 :: rat) powi (int 52 + ?e) < 2 powi 1024" using lim' by (simp only:)
      from powi2_less [OF this] show ?thesis by simp
    qed simp
    then show ?thesis unfolding r using lo n e(1) by (intro is_mag_dyadic)
  qed
qed

lemma tok_mag_nonneg: "0 \<le> tok_mag t"
  by (simp add: tok_mag_def)

lemma round_dbl_ok: "round_dbl neg (tok_mag t) = Some d \<Longrightarrow> dbl_ok d"
  using is_mag_round [OF tok_mag_nonneg] by (auto simp: round_dbl_def dbl_ok_def split: if_splits)

lemma p_number_ok: "p_number s = Some (v, r) \<Longrightarrow> jx_ok v \<and> jx_depth v = 0"
proof -
  assume p: "p_number s = Some (v, r)"
  then obtain t d where t: "scan_number s = Some (t, r)" "round_dbl (nt_neg t) (tok_mag t) = Some d"
    by (auto simp: p_number_def Let_def split: option.splits)
  let ?n = "int (dec_val (nt_int t))"
  let ?ll = "if nt_neg t then - ?n else ?n"
  let ?fits = "nt_frac t = None \<and> nt_exp t = None \<and> int64_ok ?ll"
  let ?iv = "if ?fits then ?ll else 0"
  let ?b = "?fits \<and> \<not> (?iv = 0 \<and> nt_neg t)"
  have v: "v = JX_NUMBER d ?iv ?b" using p t by (simp add: p_number_def Let_def)
  have yes: "d = dbl_of_ll ?ll" if b: ?b
  proof -
    have "tok_mag t = of_int ?n" using b by (simp add: tok_mag_def frac_text_def exp_val_def)
    moreover have "(?ll < 0) = nt_neg t" "\<bar>?ll\<bar> = ?n" using b by auto
    ultimately show ?thesis using t(2) by (auto simp: round_dbl_def dbl_of_ll_def split: if_splits)
  qed
  show ?thesis
  proof (cases ?b)
    case True
    have fits: ?fits using True by blast
    then have iv: "?iv = ?ll" by (rule if_P)
    have b: "(?fits \<and> \<not> (?ll = 0 \<and> nt_neg t)) = True" using True unfolding iv by blast
    have w: "v = JX_NUMBER d ?ll True" using v unfolding iv b .
    have "int64_ok ?ll" using True by blast
    with yes [OF True] round_dbl_ok [OF t(2)] show ?thesis unfolding w by simp
  next
    case False
    have w: "v = JX_NUMBER d 0 False" using v False by (cases ?fits) auto
    with round_dbl_ok [OF t(2)] show ?thesis by simp
  qed
qed

lemma valid_append: "jx_utf8_valid a \<Longrightarrow> jx_utf8_valid b \<Longrightarrow> jx_utf8_valid (a @ b)"
  by (metis concat_append list_all_append map_append valid_concat valid_decomposes)

lemma valid_enc: "scalar_value cp \<Longrightarrow> jx_utf8_valid (bytes (enc_chars cp))"
  using valid_encode_append [of cp "[]"] by (simp add: bytes_enc_chars)

lemma valid_seq: "jx_utf8_seq p \<noteq> 0 \<Longrightarrow> jx_utf8_valid (take (jx_utf8_seq p) p)"
  using seq_sound [of p] valid_encode_append [of _ "[]"] by fastforce

lemma hex_digit_lt: "hex_digit c = Some n \<Longrightarrow> n < 16"
  by (auto simp: hex_digit_def is_digit_def split: if_splits)

lemma hex_run_lt: "hex_run n v s = Some (x, r) \<Longrightarrow> v < 16 ^ m \<Longrightarrow> x < 16 ^ (m + n)"
proof (induction n v s arbitrary: m rule: hex_run.induct)
  case (3 n v c s)
  then obtain d where d: "hex_digit c = Some d" "hex_run n (v * 16 + d) s = Some (x, r)"
    by (auto split: option.splits)
  have "v + 1 \<le> 16 ^ m" using "3.prems"(2) by simp
  then have "(v + 1) * 16 \<le> 16 ^ m * 16" by (rule mult_le_mono1)
  then have "v * 16 + d < 16 ^ Suc m" using hex_digit_lt [OF d(1)] by simp
  from "3.IH" [OF d(1) d(2) this] show ?case by simp
qed simp_all

lemma p_hex4_lt: "p_hex4 s = Some (x, r) \<Longrightarrow> x < 65536"
  using hex_run_lt [of 4 0 s x r 0] by (auto simp: p_hex4_def split: if_splits)

lemma p_unicode_valid:
  assumes p: "p_unicode s = Some (x, r)"
  shows "jx_utf8_valid (bytes x)"
proof -
  obtain cp s1 where cp: "p_hex4 s = Some (cp, s1)" using p by (auto simp: p_unicode_def split: option.splits)
  show ?thesis
  proof (cases "0xD800 \<le> cp \<and> cp \<le> 0xDBFF")
    case True
    then have "\<not> (0xDC00 \<le> cp \<and> cp \<le> 0xDFFF)" by auto
    with p cp True obtain lo s2 where "p_hex4 (drop 2 s1) = Some (lo, s2)" by (auto simp: p_unicode_def split: option.splits if_splits)
    with p cp True have lo: "0xDC00 \<le> lo" "lo \<le> 0xDFFF"
      "x = enc_chars (0x10000 + (cp - 0xD800) * 1024 + (lo - 0xDC00))"
      by (auto simp: p_unicode_def split: if_splits)
    have "scalar_value (0x10000 + (cp - 0xD800) * 1024 + (lo - 0xDC00))"
      using True lo by (auto simp: scalar_value_def)
    then show ?thesis unfolding lo(3) by (rule valid_enc)
  next
    case False
    with p cp have x: "x = enc_chars cp" "\<not> (0xDC00 \<le> cp \<and> cp \<le> 0xDFFF)"
      by (auto simp: p_unicode_def split: option.splits if_splits)
    have "scalar_value cp" using False x(2) p_hex4_lt [OF cp] by (auto simp: scalar_value_def)
    then show ?thesis unfolding x(1) by (rule valid_enc)
  qed
qed

lemma valid_ascii: "chcode c < 128 \<Longrightarrow> jx_utf8_valid (bytes [c])"
  using valid_seq [of "bytes [c]"] seq_one [of c "[]"] by simp

lemma p_escape_valid: "p_escape s = Some (x, r) \<Longrightarrow> jx_utf8_valid (bytes x)"
proof -
  have "chcode CHR 0x22 < 128" "chcode CHR 0x5C < 128" "chcode CHR ''/'' < 128" "chcode CHR 0x08 < 128"
    "chcode CHR 0x0C < 128" "chcode CHR 0x0A < 128" "chcode CHR 0x0D < 128" "chcode CHR 0x09 < 128" by code_simp+
  note ascii = this [THEN valid_ascii]
  show "p_escape s = Some (x, r) \<Longrightarrow> jx_utf8_valid (bytes x)"
    unfolding p_escape_def using ascii p_unicode_valid by (auto split: list.splits if_splits simp del: bytes_simps(2))
qed

lemma p_string_loop_valid:
  "p_string_loop b s = Some (x, r) \<Longrightarrow> jx_utf8_valid (bytes b) \<Longrightarrow> jx_utf8_valid (bytes x)"
proof (induction b s rule: p_string_loop.induct)
  case (1 b s)
  show ?case
  proof (cases s)
    case Nil
    with "1.prems" show ?thesis by (subst (asm) p_string_loop.simps) simp
  next
    case (Cons c q)
    consider (close) "c = CHR 0x22" | (esc) "c = CHR 0x5C" | "c \<noteq> CHR 0x22" "c \<noteq> CHR 0x5C" "chcode c < 0x20"
      | (seq) "c \<noteq> CHR 0x22" "c \<noteq> CHR 0x5C" "\<not> chcode c < 0x20" by blast
    then show ?thesis
    proof cases
      case esc
      with "1.prems" Cons obtain y q' where e: "p_escape q = Some (y, q')" "p_string_loop (b @ y) q' = Some (x, r)"
        by (subst (asm) p_string_loop.simps) (auto split: option.splits)
      from esc have "c \<noteq> CHR 0x22" by simp
      from "1.IH"(1) [OF Cons this esc e(1) refl e(2)] p_escape_valid [OF e(1)] "1.prems"(2)
      show ?thesis by (simp add: valid_append)
    next
      case seq
      with "1.prems"(1) Cons have e: "jx_utf8_seq (bytes s) \<noteq> 0"
        "p_string_loop (b @ take (jx_utf8_seq (bytes s)) s) (drop (jx_utf8_seq (bytes s)) s) = Some (x, r)"
        by (subst (asm) p_string_loop.simps; auto simp: Let_def split: if_splits)+
      from "1.IH"(2) [OF Cons seq refl e] "1.prems"(2) valid_seq [OF e(1)] show ?thesis by (simp add: valid_append)
    qed (use "1.prems" Cons in \<open>subst (asm) p_string_loop.simps; simp\<close>)+
  qed
qed

lemma array_depth_le:
  "Suc depth \<le> n \<Longrightarrow> \<forall>x \<in> set items. Suc depth + jx_depth x \<le> n \<Longrightarrow> depth + jx_depth (JX_ARRAY items) \<le> n"
proof -
  assume n: "Suc depth \<le> n" "\<forall>x \<in> set items. Suc depth + jx_depth x \<le> n"
  have "Max (insert 0 (jx_depth ` set items)) \<le> n - Suc depth"
    using n by (intro Max.boundedI) (auto simp: le_diff_conv2)
  then show ?thesis using n(1) unfolding jx_depth.simps by linarith
qed

lemma object_depth_le:
  "Suc depth \<le> n \<Longrightarrow> \<forall>m \<in> set ms. Suc depth + jx_depth (snd m) \<le> n \<Longrightarrow> depth + jx_depth (JX_OBJECT ms) \<le> n"
proof -
  assume n: "Suc depth \<le> n" "\<forall>m \<in> set ms. Suc depth + jx_depth (snd m) \<le> n"
  have "Max (insert 0 (jx_depth ` snd ` set ms)) \<le> n - Suc depth"
    using n by (intro Max.boundedI) (auto simp: le_diff_conv2)
  then show ?thesis using n(1) unfolding jx_depth.simps by linarith
qed

abbreviation member_ok :: "nat \<Rightarrow> string \<times> jx_value \<Rightarrow> bool" where
  "member_ok depth m \<equiv> NUL \<notin> set (fst m) \<and> jx_utf8_valid (bytes (fst m)) \<and> jx_ok (snd m) \<and>
     depth + jx_depth (snd m) \<le> JX_MAX_DEPTH"

lemma parse_ok:
  "p_value depth s = Some (v, r) \<Longrightarrow> depth \<le> JX_MAX_DEPTH \<Longrightarrow> jx_ok v \<and> depth + jx_depth v \<le> JX_MAX_DEPTH"
  "p_items depth items s = Some (v, r) \<Longrightarrow> depth \<le> JX_MAX_DEPTH \<Longrightarrow>
    \<forall>x \<in> set items. jx_ok x \<and> depth + jx_depth x \<le> JX_MAX_DEPTH \<Longrightarrow>
    \<exists>xs. v = JX_ARRAY xs \<and> (\<forall>x \<in> set xs. jx_ok x \<and> depth + jx_depth x \<le> JX_MAX_DEPTH)"
  "p_members depth ms s = Some (v, r) \<Longrightarrow> depth \<le> JX_MAX_DEPTH \<Longrightarrow>
    distinct (map fst ms) \<Longrightarrow> \<forall>m \<in> set ms. member_ok depth m \<Longrightarrow>
    \<exists>ns. v = JX_OBJECT ns \<and> distinct (map fst ns) \<and> (\<forall>m \<in> set ns. member_ok depth m)"
proof (induction depth s and depth items s and depth ms s arbitrary: v r and v r and v r
    rule: p_value_p_items_p_members.induct)
  case (1 depth s)
  note e = 1(3) [unfolded p_value.simps [of depth s]]
  then obtain c q where s: "skip_ws s = c # q" by (cases "skip_ws s") auto
  note e = e [unfolded s list.case Let_def]
  consider (lit) "c = CHR ''n'' \<or> c = CHR ''t'' \<or> c = CHR ''f''" | (q) "c = CHR 0x22"
    | (a) "c = CHR ''[''" | (o) "c = CHR ''{''"
    | (z) "c \<noteq> CHR ''n''" "c \<noteq> CHR ''t''" "c \<noteq> CHR ''f''" "c \<noteq> CHR 0x22" "c \<noteq> CHR ''[''" "c \<noteq> CHR ''{''" by blast
  then show ?case
  proof cases
    case lit
    with e 1(4) show ?thesis by auto
  next
    case q
    with e 1(4) show ?thesis using p_string_loop_valid [of "[]"] by auto
  next
    case a
    note o = e [unfolded a]
    show ?thesis
    proof (cases "skip_ws q \<noteq> [] \<and> cur (skip_ws q) = CHR '']''")
      case True
      with o show ?thesis by (auto split: if_splits)
    next
      case False
      with o have d: "\<not> JX_MAX_DEPTH \<le> depth" and p: "p_items (Suc depth) [] (skip_ws q) = Some (v, r)"
        by (auto split: if_splits)
      from 1(1) [OF s _ _ _ _ a d refl False p] a d obtain xs where
        "v = JX_ARRAY xs" "\<forall>x \<in> set xs. jx_ok x \<and> Suc depth + jx_depth x \<le> JX_MAX_DEPTH" by auto
      then show ?thesis using array_depth_le [of depth JX_MAX_DEPTH xs] d by simp
    qed
  next
    case o
    note e = e [unfolded o]
    show ?thesis
    proof (cases "skip_ws q \<noteq> [] \<and> cur (skip_ws q) = CHR ''}''")
      case True
      with e show ?thesis by (auto split: if_splits)
    next
      case False
      with e have d: "\<not> JX_MAX_DEPTH \<le> depth" and p: "p_members (Suc depth) [] (skip_ws q) = Some (v, r)"
        by (auto split: if_splits)
      from 1(2) [OF s _ _ _ _ _ o d refl False p] o d obtain ns where
        "v = JX_OBJECT ns" "distinct (map fst ns)" "\<forall>m \<in> set ns. member_ok (Suc depth) m" by auto
      then show ?thesis using object_depth_le [of depth JX_MAX_DEPTH ns] d by simp
    qed
  next
    case z
    with e have "p_number (c # q) = Some (v, r)" by (auto split: if_splits)
    then show ?thesis using p_number_ok 1(4) by fastforce
  qed
next
  case (2 depth acc s)
  obtain x s' where v: "p_value depth s = Some (x, s')"
    using 2(3) by (auto simp: p_items.simps [of depth acc s] split: option.splits)
  obtain c q where q: "skip_ws s' = c # q"
    using 2(3) by (auto simp: p_items.simps [of depth acc s] v split: list.splits)
  have ok: "\<forall>y \<in> set (acc @ [x]). jx_ok y \<and> depth + jx_depth y \<le> JX_MAX_DEPTH"
    using 2(1) [OF v 2(4)] 2(5) by auto
  show ?case
  proof (cases "c = CHR '',''")
    case True
    with 2(3) have "p_items depth (acc @ [x]) q = Some (v, r)" by (simp add: p_items.simps [of depth acc s] v q)
    from 2(2) [OF v refl q True this 2(4) ok] show ?thesis .
  next
    case False
    with 2(3) have "v = JX_ARRAY (acc @ [x])" by (auto simp: p_items.simps [of depth acc s] v q split: if_splits)
    with ok show ?thesis by blast
  qed
next
  case (3 depth acc s)
  note eq = p_members.simps [of depth acc s]
  have s0: "skip_ws s \<noteq> []" "cur (skip_ws s) = CHR 0x22"
    using 3(3) by (auto simp: eq Let_def split: if_splits)
  obtain key s1 where s1: "p_string_loop [] (tl (skip_ws s)) = Some (key, s1)"
    using 3(3) s0 by (auto simp: eq Let_def split: option.splits)
  have k: "NUL \<notin> set key" "obj_find acc key = None" and s2: "skip_ws s1 \<noteq> []" "cur (skip_ws s1) = CHR '':''"
    using 3(3) s0 s1 by (auto simp: eq Let_def split: if_splits)
  obtain x s3 where v: "p_value depth (tl (skip_ws s1)) = Some (x, s3)"
    using 3(3) s0 s1 k s2 by (auto simp: eq Let_def split: option.splits)
  obtain c q where q: "skip_ws s3 = c # q"
    using 3(3) s0 s1 k s2 v by (auto simp: eq Let_def split: list.splits)
  have x: "jx_ok x \<and> depth + jx_depth x \<le> JX_MAX_DEPTH"
    using 3(1) [OF refl _ s1 refl _ refl _ v] s0 k s2 3(4) by simp
  have key: "jx_utf8_valid (bytes key)" using p_string_loop_valid [OF s1] by simp
  have fresh: "key \<notin> fst ` set acc" using k(2) by (simp add: obj_find_None)
  note put = obj_put_fresh [OF fresh]
  have d: "distinct (map fst (obj_put acc key x))" using 3(5) by (rule object.put_distinct)
  have ok: "\<forall>m \<in> set (obj_put acc key x). member_ok depth m" unfolding put using 3(6) x key k(1) by auto
  show ?case
  proof (cases "c = CHR '',''")
    case True
    with 3(3) s0 s1 k s2 v q have "p_members depth (obj_put acc key x) q = Some (v, r)" by (simp add: eq Let_def)
    from 3(2) [OF refl _ s1 refl _ refl _ v refl q True this 3(4) d ok] s0 k s2 show ?thesis by simp
  next
    case False
    with 3(3) s0 s1 k s2 v q have "v = JX_OBJECT (obj_put acc key x)" by (auto simp: eq Let_def split: if_splits)
    with d ok show ?thesis by blast
  qed
qed

text \<open>
  Whatever text the parser accepts, the value it returns is well formed: at most 64 containers deep,
  every string and key valid UTF-8, no NUL in a key, no key twice in an object, every number a
  finite double, and an integer view only where the double is that integer's.
\<close>

theorem json_parse_ok:
  assumes "jx_parse (Some s) = Some v"
  shows "jx_ok v \<and> jx_depth v \<le> JX_MAX_DEPTH"
proof -
  obtain r where "p_value 0 s = Some (v, r)" using assms by (auto simp: jx_parse_def split: option.splits if_splits)
  from parse_ok(1) [OF this] show ?thesis by simp
qed

theorem json_parse_ok_witness:
  "jx_parse (Some [CHR ''['', CHR ''t'', CHR ''r'', CHR ''u'', CHR ''e'', CHR '','', CHR '' '', CHR 0x22, CHR ''k'', CHR 0x22, CHR '']'']) =
     Some (JX_ARRAY [JX_BOOL True, JX_STRING ''k'']) \<and> jx_ok (JX_ARRAY [JX_BOOL True, JX_STRING ''k''])"
proof -
  have "jx_parse (Some [CHR ''['', CHR ''t'', CHR ''r'', CHR ''u'', CHR ''e'', CHR '','', CHR '' '', CHR 0x22, CHR ''k'', CHR 0x22, CHR '']'']) =
     Some (JX_ARRAY [JX_BOOL True, JX_STRING ''k''])" by code_simp
  from json_parse_ok [OF this] this show ?thesis by blast
qed

section \<open>Compact text is one line\<close>

abbreviation printable :: "string \<Rightarrow> bool" where
  "printable s \<equiv> list_all (\<lambda>c. 32 \<le> chcode c) s"

lemma printable_digits: "list_all is_digit s \<Longrightarrow> printable s"
  by (auto simp: list_all_iff is_digit_def)

lemma printable_w_char: "printable (w_char c)"
proof -
  have h: "n < 16 \<Longrightarrow> 32 \<le> chcode (hexd n)" for n by (simp add: hexd_def)
  show ?thesis unfolding w_char_def using h [of "chcode c div 16"] h [of "chcode c mod 16"]
    by (auto simp: chcode_def)
qed

lemma printable_w_string: "printable (w_string s)"
proof -
  have "printable (concat (map w_char s))" by (induction s) (simp_all add: printable_w_char)
  then show ?thesis by (simp add: w_string_def) (simp add: chcode_def)
qed

lemma printable_take_drop: "printable s \<Longrightarrow> printable (take n s) \<and> printable (drop n s)"
  by (metis append_take_drop_id list_all_append)

lemma printable_strip0: "printable s \<Longrightarrow> printable (strip0 s)"
  using strip0_split [of s] by (metis list_all_append)

lemma printable_fmt_g: "printable (fmt_g P d)"
proof -
  have ds: "printable (dec_str D)" for D by (rule printable_digits) simp
  have z: "32 \<le> chcode CHR ''0''" "32 \<le> chcode CHR ''.''" "32 \<le> chcode CHR ''e''" "32 \<le> chcode CHR ''-''" "32 \<le> chcode CHR ''+''"
    by code_simp+
  have rep: "printable (replicate n CHR ''0'')" for n using z by (simp add: list_all_iff)
  have pt: "printable a \<Longrightarrow> printable b \<Longrightarrow> printable (point a b)" for a b using z by (simp add: point_def)
  have ex: "printable (exp_digits x)" for x by (rule printable_digits) (rule exp_digits_val(2))
  show ?thesis unfolding fmt_g_def Let_def
    using ds rep z ex by (auto intro!: pt printable_strip0 simp: printable_take_drop split: prod.split)
qed

lemma printable_value:
  "\<not> pretty \<Longrightarrow> printable (w_value pretty level v)"
  "\<not> pretty \<Longrightarrow> printable (w_items pretty level first vs)"
  "\<not> pretty \<Longrightarrow> printable (w_members pretty level first ms)"
proof (induction pretty level v and pretty level first vs and pretty level first ms
    rule: w_value_w_items_w_members.induct)
  case (3 pretty level d i b)
  have "printable (ll_text i)" using printable_digits [OF dec_str_digits] by (simp add: ll_text_def) (simp add: chcode_def)
  then show ?case using printable_fmt_g by (simp add: w_number_def Let_def)
qed (simp_all add: printable_w_string, auto simp: chcode_def)

text \<open>
  Compact JSON has no character below the space, so it is one line and safe on a line-delimited
  stream, whatever the value holds.
\<close>

theorem json_compact_one_line:
  "\<exists>text. jx_write (Some v) False = Some text \<and> list_all (\<lambda>c. 32 \<le> chcode c) text"
  using printable_value(1) [of False 0 v] by (simp add: jx_write_def)

end
