(* ===== verification/As_Trans.thy ===== *)
theory As_Trans
  imports Main
begin

text \<open>
  The interface of the state machines: a step relation from an initial state with an invariant that
  holds at first and that every step keeps. What follows for every reachable state, along every run
  and along every schedule is proved here once.
\<close>

locale inv_system =
  fixes step :: "'s \<Rightarrow> 's \<Rightarrow> bool" and init :: 's and inv :: "'s \<Rightarrow> bool"
  assumes inv_init: "inv init"
    and inv_step: "inv y \<Longrightarrow> step y z \<Longrightarrow> inv z"
begin

lemma inv_steps: "step\<^sup>*\<^sup>* y z \<Longrightarrow> inv y \<Longrightarrow> inv z"
  by (induction rule: rtranclp_induct) (auto intro: inv_step)

lemma reachable_inv: "step\<^sup>*\<^sup>* init y \<Longrightarrow> inv y"
  by (rule inv_steps [OF _ inv_init])

lemma reachable_step: "step\<^sup>*\<^sup>* init y \<Longrightarrow> step y z \<Longrightarrow> inv z"
  by (rule inv_step [OF reachable_inv])

end

section \<open>Counting threads\<close>

text \<open>How the number of threads in a kind of state changes when one of them moves.\<close>

lemma card_fun_upd:
  assumes "finite {j. P (f j)}"
  shows "card {j. P ((f(i := x)) j)} + (if P (f i) then 1 else 0) = card {j. P (f j)} + (if P x then 1 else 0)"
proof -
  let ?rest = "{j. j \<noteq> i \<and> P (f j)}"
  have fin: "finite ?rest" by (rule finite_subset [OF _ assms]) auto
  have "{j. P ((f(i := x)) j)} = (if P x then insert i ?rest else ?rest)" by auto
  moreover have "{j. P (f j)} = (if P (f i) then insert i ?rest else ?rest)" by auto
  ultimately show ?thesis using fin by simp
qed

end
