(* ===== verification/As_Pool.thy ===== *)
theory As_Pool
  imports As_Prelude As_Trans
begin

text \<open>
  Bounded residency of tool instances: \<^verbatim>\<open>src/process_pool.c\<close> and the reaping pass of
  \<^verbatim>\<open>src/worker.c\<close>. Each function's critical section under \<open>pp_mu\<close> is one atomic step on the pool;
  the threads that call them are a map from thread ids to what each is doing, and the steps may come
  in any order. The instances are the linked list in its order; an instance is known by its address.
  The digest that is the key, the tool's parallelism and the clock's verdicts are inputs of a step.
\<close>

section \<open>Instances\<close>

datatype pp_kind = PP_KIND_PROC | PP_KIND_LIB

type_synonym addr = nat
type_synonym ikey = "string"

record astools_pproc =
  p_addr :: addr
  p_kind :: pp_kind
  p_key :: ikey
  p_busy :: int
  p_last_used :: int
  p_idle_timeout :: int

definition ASTOOLS_INSTANCE_LIMIT :: nat where
  "ASTOOLS_INSTANCE_LIMIT = 64"

record pool =
  pprocs :: "astools_pproc list"
  pp_count :: nat
  pp_waiters :: nat

section \<open>Acquisition\<close>

text \<open>The scan of one turn: the last usable member of the key, its members, and all instances.\<close>

definition usable :: "pp_kind \<Rightarrow> astools_pproc \<Rightarrow> bool" where
  "usable kind p \<longleftrightarrow> p_busy p = 0 \<or> kind = PP_KIND_LIB"

fun pp_scan :: "pp_kind \<Rightarrow> ikey \<Rightarrow> astools_pproc option \<Rightarrow> nat \<Rightarrow> nat \<Rightarrow> astools_pproc list
    \<Rightarrow> astools_pproc option \<times> nat \<times> nat" where
  "pp_scan kind key chosen count n [] = (chosen, count, n)"
| "pp_scan kind key chosen count n (p # ps) =
     (if p_kind p \<noteq> kind \<or> p_key p \<noteq> key then pp_scan kind key chosen count (n + 1) ps
      else pp_scan kind key (if usable kind p then Some p else chosen) (count + 1) (n + 1) ps)"

datatype turn = Failed astools_err | Got addr | Wait

text \<open>
  What one turn of the loop sees besides the pool: whether the caller is cancelled, whether its
  deadline has passed, and the address \<open>calloc\<close> returns, if any.
\<close>

record request =
  rq_kind :: pp_kind
  rq_key :: ikey
  rq_parallel :: int

record seen =
  cancelled :: bool
  expired :: bool
  fresh :: "addr option"

definition pp_limit :: "request \<Rightarrow> nat" where
  "pp_limit r = (if rq_parallel r > 0 then nat (rq_parallel r) else 1)"

definition take_busy :: "addr \<Rightarrow> astools_pproc list \<Rightarrow> astools_pproc list" where
  "take_busy a ps = map (\<lambda>p. if p_addr p = a then p\<lparr>p_busy := p_busy p + 1\<rparr> else p) ps"

definition pp_turn :: "request \<Rightarrow> seen \<Rightarrow> pool \<Rightarrow> turn \<times> pool" where
  "pp_turn r s c =
     (if cancelled s then (Failed ASTOOLS_ERR_CANCELLED, c)
      else if expired s then (Failed ASTOOLS_ERR_TIMEOUT, c)
      else case pp_scan (rq_kind r) (rq_key r) None 0 0 (pprocs c) of
        (Some p, _, _) \<Rightarrow> (Got (p_addr p), c\<lparr>pprocs := take_busy (p_addr p) (pprocs c)\<rparr>)
      | (None, count, n) \<Rightarrow>
          if count < pp_limit r then
            (if n \<ge> ASTOOLS_INSTANCE_LIMIT then (Failed ASTOOLS_ERR_BUSY, c)
             else case fresh s of
               None \<Rightarrow> (Failed ASTOOLS_ERR_NOMEM, c)
             | Some a \<Rightarrow>
                 (Got a, c\<lparr>pprocs := \<lparr>p_addr = a, p_kind = rq_kind r, p_key = rq_key r, p_busy = 1,
                                        p_last_used = 0, p_idle_timeout = 0\<rparr> # pprocs c,
                           pp_count := pp_count c + 1\<rparr>))
          else (Wait, c))"

text \<open>The first turn registers a waiter when it must wait; a later one unregisters it when it ends.\<close>

definition pp_enter :: "request \<Rightarrow> seen \<Rightarrow> pool \<Rightarrow> turn \<times> pool" where
  "pp_enter r s c =
     (case pp_turn r s c of
        (Wait, c) \<Rightarrow> (Wait, c\<lparr>pp_waiters := pp_waiters c + 1\<rparr>)
      | (t, c) \<Rightarrow> (t, c))"

definition pp_wake :: "request \<Rightarrow> seen \<Rightarrow> pool \<Rightarrow> turn \<times> pool" where
  "pp_wake r s c =
     (case pp_turn r s c of
        (Wait, c) \<Rightarrow> (Wait, c)
      | (t, c) \<Rightarrow> (t, c\<lparr>pp_waiters := pp_waiters c - 1\<rparr>))"

section \<open>Release and supervision\<close>

definition on_addr :: "addr \<Rightarrow> (astools_pproc \<Rightarrow> astools_pproc) \<Rightarrow> pool \<Rightarrow> pool" where
  "on_addr a f c = c\<lparr>pprocs := map (\<lambda>p. if p_addr p = a then f p else p) (pprocs c)\<rparr>"

definition astools_pp_release :: "int \<Rightarrow> addr \<Rightarrow> pool \<Rightarrow> pool" where
  "astools_pp_release now a c =
     on_addr a (\<lambda>p. p\<lparr>p_busy := (if p_busy p > 0 then p_busy p - 1 else p_busy p), p_last_used := now\<rparr>) c"

text \<open>The reaper pins every idle process, at most as many as it can list.\<close>

fun pin_idle :: "nat \<Rightarrow> astools_pproc list \<Rightarrow> addr list \<times> astools_pproc list" where
  "pin_idle n [] = ([], [])"
| "pin_idle 0 (p # ps) = ([], p # ps)"
| "pin_idle (Suc n) (p # ps) =
     (if p_kind p = PP_KIND_PROC \<and> p_busy p = 0 then
        (case pin_idle n ps of (as, ps') \<Rightarrow> (p_addr p # as, p\<lparr>p_busy := 1\<rparr> # ps'))
      else case pin_idle (Suc n) ps of (as, ps') \<Rightarrow> (as, p # ps'))"

definition worker_pin :: "pool \<Rightarrow> addr list \<times> pool" where
  "worker_pin c = (case pin_idle ASTOOLS_INSTANCE_LIMIT (pprocs c) of (as, ps) \<Rightarrow> (as, c\<lparr>pprocs := ps\<rparr>))"

fun unlink :: "addr \<Rightarrow> astools_pproc list \<Rightarrow> astools_pproc list" where
  "unlink a [] = []"
| "unlink a (p # ps) = (if p_addr p = a then ps else p # unlink a ps)"

definition worker_remove :: "addr \<Rightarrow> pool \<Rightarrow> pool" where
  "worker_remove a c =
     (if a \<in> p_addr ` set (pprocs c)
      then c\<lparr>pprocs := unlink a (pprocs c), pp_count := pp_count c - 1\<rparr> else c)"

definition worker_unpin :: "addr \<Rightarrow> pool \<Rightarrow> pool" where
  "worker_unpin a c = on_addr a (\<lambda>p. p\<lparr>p_busy := 0\<rparr>) c"

definition reap_expired :: "int \<Rightarrow> astools_pproc \<Rightarrow> bool" where
  "reap_expired now p \<longleftrightarrow> p_idle_timeout p > 0 \<and> now - p_last_used p \<ge> p_idle_timeout p"

text \<open>What a holder of a process writes without the lock: nobody else looks while it is busy.\<close>

definition pp_set_idle :: "int \<Rightarrow> addr \<Rightarrow> pool \<Rightarrow> pool" where
  "pp_set_idle timeout a c = on_addr a (\<lambda>p. p\<lparr>p_idle_timeout := timeout\<rparr>) c"

definition pp_touch :: "int \<Rightarrow> addr \<Rightarrow> pool \<Rightarrow> pool" where
  "pp_touch now a c = on_addr a (\<lambda>p. p\<lparr>p_last_used := now\<rparr>) c"

section \<open>The system\<close>

text \<open>
  A thread is outside, waiting, holding an instance, or supervising: what a pass has pinned and not
  yet given back. Every step is one critical section by one thread.
\<close>

datatype tstate = Outside | Waiting request | Holding addr pp_kind | Reaping "addr list"

record sys =
  s_pool :: pool
  s_threads :: "nat \<Rightarrow> tstate"

definition after :: "request \<Rightarrow> turn \<Rightarrow> tstate" where
  "after r t = (case t of Failed _ \<Rightarrow> Outside | Got a \<Rightarrow> Holding a (rq_kind r) | Wait \<Rightarrow> Waiting r)"

text \<open>\<open>calloc\<close> never returns the address of a live instance.\<close>

definition fresh_ok :: "seen \<Rightarrow> pool \<Rightarrow> bool" where
  "fresh_ok s c \<longleftrightarrow> (\<forall>a. fresh s = Some a \<longrightarrow> a \<notin> p_addr ` set (pprocs c))"

inductive pool_step :: "sys \<Rightarrow> sys \<Rightarrow> bool" where
  enter: "s_threads y i = Outside \<Longrightarrow> fresh_ok s (s_pool y) \<Longrightarrow> pp_enter r s (s_pool y) = (t, c) \<Longrightarrow>
    pool_step y \<lparr>s_pool = c, s_threads = (s_threads y)(i := after r t)\<rparr>"
| wake: "s_threads y i = Waiting r \<Longrightarrow> fresh_ok s (s_pool y) \<Longrightarrow> pp_wake r s (s_pool y) = (t, c) \<Longrightarrow>
    pool_step y \<lparr>s_pool = c, s_threads = (s_threads y)(i := after r t)\<rparr>"
| release: "s_threads y i = Holding a k \<Longrightarrow>
    pool_step y \<lparr>s_pool = astools_pp_release now a (s_pool y), s_threads = (s_threads y)(i := Outside)\<rparr>"
| set_idle: "s_threads y i = Holding a PP_KIND_PROC \<Longrightarrow>
    pool_step y (y\<lparr>s_pool := pp_set_idle timeout a (s_pool y)\<rparr>)"
| touch: "s_threads y i = Holding a PP_KIND_PROC \<Longrightarrow>
    pool_step y (y\<lparr>s_pool := pp_touch now a (s_pool y)\<rparr>)"
| pin: "s_threads y i = Outside \<Longrightarrow> worker_pin (s_pool y) = (as, c) \<Longrightarrow>
    pool_step y \<lparr>s_pool = c, s_threads = (s_threads y)(i := Reaping as)\<rparr>"
| unpin: "s_threads y i = Reaping (a # as) \<Longrightarrow> p \<in> set (pprocs (s_pool y)) \<Longrightarrow> p_addr p = a \<Longrightarrow>
    \<not> (reap_expired now p \<or> revoked) \<Longrightarrow>
    pool_step y \<lparr>s_pool = worker_unpin a (s_pool y), s_threads = (s_threads y)(i := Reaping as)\<rparr>"
| remove: "s_threads y i = Reaping (a # as) \<Longrightarrow> p \<in> set (pprocs (s_pool y)) \<Longrightarrow> p_addr p = a \<Longrightarrow>
    reap_expired now p \<or> revoked \<Longrightarrow>
    pool_step y \<lparr>s_pool = worker_remove a (s_pool y), s_threads = (s_threads y)(i := Reaping as)\<rparr>"
| rest: "s_threads y i = Reaping [] \<Longrightarrow>
    pool_step y (y\<lparr>s_threads := (s_threads y)(i := Outside)\<rparr>)"

inductive_cases pool_stepE: "pool_step y z"

definition pool_init :: sys where
  "pool_init = \<lparr>s_pool = \<lparr>pprocs = [], pp_count = 0, pp_waiters = 0\<rparr>, s_threads = (\<lambda>_. Outside)\<rparr>"

section \<open>Scans and turns\<close>

definition members :: "pp_kind \<Rightarrow> ikey \<Rightarrow> astools_pproc list \<Rightarrow> astools_pproc list" where
  "members kind key ps = filter (\<lambda>p. p_kind p = kind \<and> p_key p = key) ps"

lemma members_simps [simp]:
  "members kind key [] = []"
  "members kind key (p # ps) =
     (if p_kind p = kind \<and> p_key p = key then p # members kind key ps else members kind key ps)"
  by (simp_all add: members_def)

lemma set_members: "set (members kind key ps) = {p \<in> set ps. p_kind p = kind \<and> p_key p = key}"
  by (auto simp: members_def)

lemma pp_scan_counts:
  "pp_scan kind key chosen count n ps = (ch, c, m) \<Longrightarrow>
    c = count + length (members kind key ps) \<and> m = n + length ps"
  by (induction kind key chosen count n ps rule: pp_scan.induct) (auto split: if_splits)

lemma pp_scan_chosen:
  "fst (pp_scan kind key chosen count n ps) = Some p \<Longrightarrow>
    chosen = Some p \<or> (p \<in> set ps \<and> p_kind p = kind \<and> p_key p = key \<and> usable kind p)"
  by (induction kind key chosen count n ps rule: pp_scan.induct) (auto split: if_splits)

lemma pp_scan_None:
  "fst (pp_scan kind key chosen count n ps) = None \<longleftrightarrow>
    chosen = None \<and> (\<forall>p \<in> set (members kind key ps). \<not> usable kind p)"
  by (induction kind key chosen count n ps rule: pp_scan.induct) auto

lemma pp_scan_cases:
  obtains (old) p c m where "pp_scan kind key None 0 0 ps = (Some p, c, m)" "p \<in> set ps" "p_kind p = kind"
      "p_key p = key" "usable kind p"
  | (none) "pp_scan kind key None 0 0 ps = (None, length (members kind key ps), length ps)"
      "\<forall>p \<in> set (members kind key ps). \<not> usable kind p"
proof (cases "pp_scan kind key None 0 0 ps")
  case (fields ch c m)
  show ?thesis
  proof (cases ch)
    case None
    then show ?thesis using none pp_scan_counts [OF fields] pp_scan_None [of kind key None 0 0 ps] fields by simp
  next
    case (Some p)
    then show ?thesis using old pp_scan_chosen [of kind key None 0 0 ps p] fields by simp
  qed
qed

lemma pp_limit_pos: "0 < pp_limit r"
  by (simp add: pp_limit_def)

lemma busy_members_proc:
  assumes "\<forall>p \<in> set (members (rq_kind r) (rq_key r) ps). \<not> usable (rq_kind r) p"
    and "pp_limit r \<le> length (members (rq_kind r) (rq_key r) ps)"
  shows "rq_kind r = PP_KIND_PROC"
proof (cases "members (rq_kind r) (rq_key r) ps")
  case Nil
  then show ?thesis using assms(2) pp_limit_pos [of r] by simp
next
  case (Cons p qs)
  then have "\<not> usable (rq_kind r) p" using assms(1) by simp
  then show ?thesis by (cases "rq_kind r") (auto simp: usable_def)
qed

lemma pool_turn_wait:
  "fst (pp_turn r s c) = Wait \<longleftrightarrow> \<not> cancelled s \<and> \<not> expired s \<and> rq_kind r = PP_KIND_PROC \<and>
     list_all (\<lambda>p. p_busy p \<noteq> 0) (members (rq_kind r) (rq_key r) (pprocs c)) \<and>
     pp_limit r \<le> length (members (rq_kind r) (rq_key r) (pprocs c))"
proof (cases rule: pp_scan_cases [of "rq_kind r" "rq_key r" "pprocs c"])
  case (old p k m)
  then have "p \<in> set (members (rq_kind r) (rq_key r) (pprocs c))" by (simp add: set_members)
  then have "\<not> (rq_kind r = PP_KIND_PROC \<and> list_all (\<lambda>p. p_busy p \<noteq> 0) (members (rq_kind r) (rq_key r) (pprocs c)))"
    using old(5) by (auto simp: usable_def list_all_iff)
  then show ?thesis using old(1) by (auto simp: pp_turn_def)
next
  case none
  have all: "list_all (\<lambda>p. p_busy p \<noteq> 0) (members (rq_kind r) (rq_key r) (pprocs c))"
    using none(2) by (auto simp: usable_def list_all_iff)
  show ?thesis using none(1) all busy_members_proc [OF none(2)]
    by (auto simp: pp_turn_def split: option.splits)
qed

lemma length_take_busy: "length (members k key (take_busy a ps)) = length (members k key ps)"
  unfolding take_busy_def by (induction ps) auto

text \<open>
  A turn makes its caller wait exactly when it is neither cancelled nor late and its key is at its
  limit with every member busy; it fails with BUSY exactly when the key has room but the pool has not;
  and no turn takes a key beyond its limit.
\<close>

theorem pool_turn_outcome:
  "(fst (pp_turn r s c) = Wait \<longleftrightarrow> \<not> cancelled s \<and> \<not> expired s \<and> rq_kind r = PP_KIND_PROC \<and>
      list_all (\<lambda>p. p_busy p \<noteq> 0) (members (rq_kind r) (rq_key r) (pprocs c)) \<and>
      pp_limit r \<le> length (members (rq_kind r) (rq_key r) (pprocs c))) \<and>
   (fst (pp_turn r s c) = Failed ASTOOLS_ERR_BUSY \<longleftrightarrow> \<not> cancelled s \<and> \<not> expired s \<and>
      list_all (\<lambda>p. \<not> usable (rq_kind r) p) (members (rq_kind r) (rq_key r) (pprocs c)) \<and>
      length (members (rq_kind r) (rq_key r) (pprocs c)) < pp_limit r \<and> 64 \<le> length (pprocs c)) \<and>
   length (members (rq_kind r) (rq_key r) (pprocs (snd (pp_turn r s c)))) \<le>
     max (length (members (rq_kind r) (rq_key r) (pprocs c))) (pp_limit r)"
proof (intro conjI pool_turn_wait)
  let ?ms = "members (rq_kind r) (rq_key r) (pprocs c)"
  show "fst (pp_turn r s c) = Failed ASTOOLS_ERR_BUSY \<longleftrightarrow> \<not> cancelled s \<and> \<not> expired s \<and>
      list_all (\<lambda>p. \<not> usable (rq_kind r) p) ?ms \<and> length ?ms < pp_limit r \<and> 64 \<le> length (pprocs c)"
  proof (cases rule: pp_scan_cases [of "rq_kind r" "rq_key r" "pprocs c"])
    case (old p k m)
    then have "\<not> list_all (\<lambda>p. \<not> usable (rq_kind r) p) ?ms" by (auto simp: set_members list_all_iff)
    then show ?thesis using old(1) by (simp add: pp_turn_def)
  next
    case none
    then show ?thesis
      by (auto simp: pp_turn_def ASTOOLS_INSTANCE_LIMIT_def list_all_iff split: option.splits)
  qed
  show "length (members (rq_kind r) (rq_key r) (pprocs (snd (pp_turn r s c)))) \<le> max (length ?ms) (pp_limit r)"
  proof (cases rule: pp_scan_cases [of "rq_kind r" "rq_key r" "pprocs c"])
    case (old p k m)
    then show ?thesis by (simp add: pp_turn_def length_take_busy)
  next
    case none
    then show ?thesis by (auto simp: pp_turn_def split: option.splits)
  qed
qed

section \<open>Counting users\<close>

definition users :: "addr \<Rightarrow> tstate \<Rightarrow> bool" where
  "users a t = (case t of Holding b _ \<Rightarrow> b = a | Reaping as \<Rightarrow> a \<in> set as | _ \<Rightarrow> False)"

definition is_waiting :: "tstate \<Rightarrow> bool" where
  "is_waiting t = (case t of Waiting _ \<Rightarrow> True | _ \<Rightarrow> False)"

definition nusers :: "addr \<Rightarrow> (nat \<Rightarrow> tstate) \<Rightarrow> nat" where
  "nusers a f = card {j. users a (f j)}"

definition nwaiting :: "(nat \<Rightarrow> tstate) \<Rightarrow> nat" where
  "nwaiting f = card {j. is_waiting (f j)}"

definition active :: "(nat \<Rightarrow> tstate) \<Rightarrow> bool" where
  "active f \<longleftrightarrow> finite {j. f j \<noteq> Outside}"

lemma users_simps [simp]:
  "\<not> users a Outside" "\<not> users a (Waiting r)" "users a (Holding b k) \<longleftrightarrow> b = a" "users a (Reaping as) \<longleftrightarrow> a \<in> set as"
  by (simp_all add: users_def)

lemma is_waiting_simps [simp]:
  "\<not> is_waiting Outside" "is_waiting (Waiting r)" "\<not> is_waiting (Holding b k)" "\<not> is_waiting (Reaping as)"
  by (simp_all add: is_waiting_def)

lemma active_users: "active f \<Longrightarrow> finite {j. users a (f j)}"
  unfolding active_def by (rule finite_subset [rotated]) (auto intro: ccontr)

lemma active_waiting: "active f \<Longrightarrow> finite {j. is_waiting (f j)}"
  unfolding active_def by (rule finite_subset [rotated]) (auto intro: ccontr)

lemma active_upd: "active f \<Longrightarrow> active (f(i := t))"
  unfolding active_def by (rule finite_subset [of _ "insert i {j. f j \<noteq> Outside}"]) auto

lemma nusers_upd:
  "active f \<Longrightarrow> nusers a (f(i := t)) + (if users a (f i) then 1 else 0) = nusers a f + (if users a t then 1 else 0)"
  unfolding nusers_def by (rule card_fun_upd) (rule active_users)

lemma nwaiting_upd:
  "active f \<Longrightarrow> nwaiting (f(i := t)) + (if is_waiting (f i) then 1 else 0) = nwaiting f + (if is_waiting t then 1 else 0)"
  unfolding nwaiting_def by (rule card_fun_upd) (rule active_waiting)

lemma nusers_zero: "\<forall>j. \<not> users a (f j) \<Longrightarrow> nusers a f = 0"
  by (simp add: nusers_def)

lemma nusers_one:
  assumes "active f" "nusers a f \<le> 1" "users a (f i)" "users a (f j)"
  shows "i = j"
proof (rule ccontr)
  assume "i \<noteq> j"
  then have "card {i, j} = 2" by simp
  moreover have "card {i, j} \<le> nusers a f"
    unfolding nusers_def using assms by (intro card_mono active_users) auto
  ultimately show False using assms(2) by simp
qed

section \<open>The invariant\<close>

definition nodes_inv :: "astools_pproc list \<Rightarrow> bool" where
  "nodes_inv ps \<longleftrightarrow> distinct (map p_addr ps) \<and> length ps \<le> ASTOOLS_INSTANCE_LIMIT \<and>
     (\<forall>p \<in> set ps. 0 \<le> p_busy p \<and> (p_kind p = PP_KIND_PROC \<longrightarrow> p_busy p \<le> 1)) \<and>
     (\<forall>key. length (members PP_KIND_LIB key ps) \<le> 1)"

definition has_node :: "astools_pproc list \<Rightarrow> addr \<Rightarrow> pp_kind \<Rightarrow> bool" where
  "has_node ps a k \<longleftrightarrow> (\<exists>p \<in> set ps. p_addr p = a \<and> p_kind p = k)"

definition thread_inv :: "astools_pproc list \<Rightarrow> tstate \<Rightarrow> bool" where
  "thread_inv ps t =
     (case t of Holding a k \<Rightarrow> has_node ps a k
      | Reaping as \<Rightarrow> distinct as \<and> (\<forall>a \<in> set as. has_node ps a PP_KIND_PROC)
      | _ \<Rightarrow> True)"

definition busy_inv :: "astools_pproc list \<Rightarrow> (nat \<Rightarrow> tstate) \<Rightarrow> bool" where
  "busy_inv ps f \<longleftrightarrow> (\<forall>p \<in> set ps. p_busy p = int (nusers (p_addr p) f))"

definition pool_inv :: "sys \<Rightarrow> bool" where
  "pool_inv y \<longleftrightarrow>
     active (s_threads y) \<and> nodes_inv (pprocs (s_pool y)) \<and>
     pp_count (s_pool y) = length (pprocs (s_pool y)) \<and> pp_waiters (s_pool y) = nwaiting (s_threads y) \<and>
     (\<forall>i. thread_inv (pprocs (s_pool y)) (s_threads y i)) \<and> busy_inv (pprocs (s_pool y)) (s_threads y)"

lemma pool_inv_init: "pool_inv pool_init"
  by (simp add: pool_inv_def pool_init_def active_def nodes_inv_def nwaiting_def thread_inv_def busy_inv_def)

lemma thread_inv_simps [simp]:
  "thread_inv ps Outside" "thread_inv ps (Waiting r)" "thread_inv ps (Holding a k) \<longleftrightarrow> has_node ps a k"
  "thread_inv ps (Reaping as) \<longleftrightarrow> distinct as \<and> (\<forall>a \<in> set as. has_node ps a PP_KIND_PROC)"
  by (simp_all add: thread_inv_def)

text \<open>A node somebody uses is in the pool.\<close>

lemma users_node: "thread_inv ps t \<Longrightarrow> users a t \<Longrightarrow> a \<in> p_addr ` set ps"
  by (cases t) (auto simp: has_node_def)

section \<open>Every step keeps it\<close>

text \<open>Rewriting the node at an address, identity kept.\<close>

abbreviation upd :: "addr \<Rightarrow> (astools_pproc \<Rightarrow> astools_pproc) \<Rightarrow> astools_pproc list \<Rightarrow> astools_pproc list" where
  "upd a f ps \<equiv> map (\<lambda>p. if p_addr p = a then f p else p) ps"

definition keeps_id :: "(astools_pproc \<Rightarrow> astools_pproc) \<Rightarrow> bool" where
  "keeps_id f \<longleftrightarrow> (\<forall>p. p_addr (f p) = p_addr p \<and> p_kind (f p) = p_kind p \<and> p_key (f p) = p_key p)"

lemma upd_addrs [simp]: "keeps_id f \<Longrightarrow> map p_addr (upd a f ps) = map p_addr ps"
  by (simp add: keeps_id_def comp_def cong: map_cong)

lemma upd_members: "keeps_id f \<Longrightarrow> length (members k key (upd a f ps)) = length (members k key ps)"
  by (induction ps) (auto simp: keeps_id_def)

lemma upd_has_node: "keeps_id f \<Longrightarrow> has_node (upd a f ps) b k \<longleftrightarrow> has_node ps b k"
  by (auto simp: has_node_def keeps_id_def)

lemma upd_thread_inv: "keeps_id f \<Longrightarrow> thread_inv (upd a f ps) t \<longleftrightarrow> thread_inv ps t"
  by (cases t) (simp_all add: upd_has_node)

lemma upd_nodes_inv:
  assumes "nodes_inv ps" "keeps_id f"
    and "\<And>p. p \<in> set ps \<Longrightarrow> p_addr p = a \<Longrightarrow> 0 \<le> p_busy (f p) \<and> (p_kind p = PP_KIND_PROC \<longrightarrow> p_busy (f p) \<le> 1)"
  shows "nodes_inv (upd a f ps)"
proof -
  have "distinct (map p_addr (upd a f ps))" using assms(1,2) by (simp only: upd_addrs) (simp add: nodes_inv_def)
  moreover have "p_kind (f p) = p_kind p" for p using assms(2) by (simp add: keeps_id_def)
  ultimately show ?thesis using assms by (auto simp: nodes_inv_def upd_members)
qed

lemma upd_busy_inv:
  assumes "busy_inv ps g" "keeps_id f"
    and "\<And>p. p \<in> set ps \<Longrightarrow> p_addr p = a \<Longrightarrow> p_busy p = int (nusers a g) \<Longrightarrow> p_busy (f p) = int (nusers a h)"
    and "\<And>b. b \<noteq> a \<Longrightarrow> nusers b h = nusers b g"
  shows "busy_inv (upd a f ps) h"
  using assms by (auto simp: busy_inv_def keeps_id_def)

text \<open>The common shape of a step: one node rewritten, one thread moved.\<close>

lemma step_upd:
  assumes inv: "pool_inv y" and f: "keeps_id f"
    and busy: "\<And>p. p \<in> set (pprocs (s_pool y)) \<Longrightarrow> p_addr p = a \<Longrightarrow> p_busy p = int (nusers a (s_threads y)) \<Longrightarrow>
        p_busy (f p) = int (nusers a ((s_threads y)(i := t))) \<and> (p_kind p = PP_KIND_PROC \<longrightarrow> p_busy (f p) \<le> 1)"
    and other: "\<And>b. b \<noteq> a \<Longrightarrow> users b t = users b (s_threads y i)"
    and thr: "thread_inv (pprocs (s_pool y)) t"
    and pool: "pprocs c = upd a f (pprocs (s_pool y))" "pp_count c = pp_count (s_pool y)"
    and wait: "pp_waiters c = nwaiting ((s_threads y)(i := t))"
  shows "pool_inv \<lparr>s_pool = c, s_threads = (s_threads y)(i := t)\<rparr>"
proof -
  let ?ps = "pprocs (s_pool y)" and ?g = "s_threads y" and ?h = "(s_threads y)(i := t)"
  have I: "active ?g" "nodes_inv ?ps" "pp_count (s_pool y) = length ?ps" "\<And>i. thread_inv ?ps (?g i)" "busy_inv ?ps ?g"
    using inv by (auto simp: pool_inv_def)
  have same: "nusers b ?h = nusers b ?g" if "b \<noteq> a" for b
    using nusers_upd [OF I(1), of b i t] other [OF that] by (auto split: if_splits)
  have b: "p_busy p = int (nusers a ?g)" if "p \<in> set ?ps" "p_addr p = a" for p
    using I(5) that by (auto simp: busy_inv_def)
  have "nodes_inv (upd a f ?ps)" by (rule upd_nodes_inv [OF I(2) f]) (use busy b in fastforce)
  moreover have "busy_inv (upd a f ?ps) ?h"
    by (rule upd_busy_inv [OF I(5) f]) (use busy b same in auto)
  ultimately show ?thesis
    using I(1,3,4) thr wait by (simp add: pool_inv_def pool active_upd upd_thread_inv [OF f])
qed

lemma waiting_same:
  "pool_inv y \<Longrightarrow> is_waiting t = is_waiting (s_threads y i) \<Longrightarrow>
    pp_waiters (s_pool y) = nwaiting ((s_threads y)(i := t))"
  using nwaiting_upd [of "s_threads y" i t] by (auto simp: pool_inv_def split: if_splits)

lemma users_busy:
  assumes "pool_inv y" "users a (s_threads y i)" "p \<in> set (pprocs (s_pool y))" "p_addr p = a"
  shows "p_busy p = int (nusers a (s_threads y))" "0 < nusers a (s_threads y)"
proof -
  show "p_busy p = int (nusers a (s_threads y))" using assms by (auto simp: pool_inv_def busy_inv_def)
  have "active (s_threads y)" using assms(1) by (simp add: pool_inv_def)
  from active_users [OF this, of a] assms(2) show "0 < nusers a (s_threads y)"
    unfolding nusers_def by (auto simp: card_gt_0_iff)
qed

lemma release_inv:
  assumes inv: "pool_inv y" and t: "s_threads y i = Holding a k"
  shows "pool_inv \<lparr>s_pool = astools_pp_release now a (s_pool y), s_threads = (s_threads y)(i := Outside)\<rparr>"
proof (rule step_upd [OF inv])
  let ?f = "\<lambda>p. p\<lparr>p_busy := (if p_busy p > 0 then p_busy p - 1 else p_busy p), p_last_used := now\<rparr>"
  show "keeps_id ?f" by (simp add: keeps_id_def)
  show "pprocs (astools_pp_release now a (s_pool y)) = upd a ?f (pprocs (s_pool y))"
    by (simp add: astools_pp_release_def on_addr_def)
  have act: "active (s_threads y)" using inv by (simp add: pool_inv_def)
  fix p assume p: "p \<in> set (pprocs (s_pool y))" "p_addr p = a"
  have u: "p_busy p = int (nusers a (s_threads y))" "0 < nusers a (s_threads y)"
    using users_busy [OF inv _ p, of i] t by auto
  have "nodes_inv (pprocs (s_pool y))" using inv by (simp add: pool_inv_def)
  then show "p_busy (?f p) = int (nusers a ((s_threads y)(i := Outside))) \<and> (p_kind p = PP_KIND_PROC \<longrightarrow> p_busy (?f p) \<le> 1)"
    using nusers_upd [OF act, of a i Outside] t u p by (auto simp: nodes_inv_def)
qed (use t waiting_same [OF inv, of Outside i] in \<open>auto simp: astools_pp_release_def on_addr_def\<close>)

lemma take_inv:
  assumes inv: "pool_inv y" and t: "\<not> users a (s_threads y i)" "\<And>b. b \<noteq> a \<Longrightarrow> \<not> users b (s_threads y i)"
    and p: "p \<in> set (pprocs (s_pool y))" "p_addr p = a" "p_kind p = k" "usable k p"
    and c: "pprocs c = take_busy a (pprocs (s_pool y))" "pp_count c = pp_count (s_pool y)"
    and wait: "pp_waiters c = nwaiting ((s_threads y)(i := Holding a k))"
  shows "pool_inv \<lparr>s_pool = c, s_threads = (s_threads y)(i := Holding a k)\<rparr>"
proof (rule step_upd [OF inv])
  let ?f = "\<lambda>p. p\<lparr>p_busy := p_busy p + 1\<rparr>"
  show "keeps_id ?f" by (simp add: keeps_id_def)
  show "pprocs c = upd a ?f (pprocs (s_pool y))" using c by (simp add: take_busy_def)
  have act: "active (s_threads y)" using inv by (simp add: pool_inv_def)
  have dist: "distinct (map p_addr (pprocs (s_pool y)))" using inv by (simp add: pool_inv_def nodes_inv_def)
  fix q assume q: "q \<in> set (pprocs (s_pool y))" "p_addr q = a" "p_busy q = int (nusers a (s_threads y))"
  have "q = p" using dist q p by (auto simp: distinct_map inj_on_def)
  then show "p_busy (?f q) = int (nusers a ((s_threads y)(i := Holding a k))) \<and> (p_kind q = PP_KIND_PROC \<longrightarrow> p_busy (?f q) \<le> 1)"
    using nusers_upd [OF act, of a i "Holding a k"] t q p by (auto simp: usable_def)
qed (use t p c wait in \<open>auto simp: has_node_def\<close>)

lemma new_inv:
  assumes inv: "pool_inv y" and t: "\<And>b. \<not> users b (s_threads y i)"
    and a: "a \<notin> p_addr ` set (pprocs (s_pool y))"
    and room: "length (pprocs (s_pool y)) < ASTOOLS_INSTANCE_LIMIT"
    and lib: "k = PP_KIND_LIB \<Longrightarrow> members PP_KIND_LIB key (pprocs (s_pool y)) = []"
    and c: "pprocs c = \<lparr>p_addr = a, p_kind = k, p_key = key, p_busy = 1, p_last_used = 0, p_idle_timeout = 0\<rparr> # pprocs (s_pool y)"
      "pp_count c = pp_count (s_pool y) + 1"
    and wait: "pp_waiters c = nwaiting ((s_threads y)(i := Holding a k))"
  shows "pool_inv \<lparr>s_pool = c, s_threads = (s_threads y)(i := Holding a k)\<rparr>"
proof -
  let ?ps = "pprocs (s_pool y)" and ?g = "s_threads y" and ?h = "(s_threads y)(i := Holding a k)"
  have I: "active ?g" "nodes_inv ?ps" "pp_count (s_pool y) = length ?ps" "\<And>i. thread_inv ?ps (?g i)" "busy_inv ?ps ?g"
    using inv by (auto simp: pool_inv_def)
  have "nusers a ?g = 0" using users_node [OF I(4)] a by (intro nusers_zero) blast
  then have one: "nusers a ?h = 1" using nusers_upd [OF I(1), of a i "Holding a k"] t by simp
  have same: "nusers b ?h = nusers b ?g" if "b \<noteq> a" for b
    using nusers_upd [OF I(1), of b i "Holding a k"] t that by simp
  have "nodes_inv (pprocs c)" using I(2) a room lib unfolding c by (cases k) (auto simp: nodes_inv_def)
  moreover have "busy_inv (pprocs c) ?h"
  proof -
    have "p_busy p = int (nusers (p_addr p) ?h)" if "p \<in> set ?ps" for p
    proof -
      have "p_addr p \<noteq> a" using that a by blast
      then show ?thesis using same I(5) that by (simp add: busy_inv_def)
    qed
    then show ?thesis using one unfolding c by (simp add: busy_inv_def)
  qed
  moreover have "has_node (pprocs c) b l" if "has_node ?ps b l" for b l using that unfolding c by (auto simp: has_node_def)
  then have "thread_inv (pprocs c) u" if "thread_inv ?ps u" for u using that by (cases u) auto
  moreover have "has_node (pprocs c) a k" unfolding c by (simp add: has_node_def)
  ultimately show ?thesis using I wait c by (simp add: pool_inv_def active_upd)
qed

text \<open>A turn, by any thread that uses nothing yet.\<close>

lemma turn_inv:
  assumes inv: "pool_inv y" and t: "\<And>b. \<not> users b (s_threads y i)"
    and fresh: "fresh_ok s (s_pool y)" and turn: "pp_turn r s (s_pool y) = (Got a, c)"
    and c': "pprocs c' = pprocs c" "pp_count c' = pp_count c" "pp_waiters c' = nwaiting ((s_threads y)(i := Holding a (rq_kind r)))"
  shows "pool_inv \<lparr>s_pool = c', s_threads = (s_threads y)(i := Holding a (rq_kind r))\<rparr>"
proof (cases rule: pp_scan_cases [of "rq_kind r" "rq_key r" "pprocs (s_pool y)"])
  case (old p k m)
  with turn have c: "a = p_addr p" "c = (s_pool y)\<lparr>pprocs := take_busy (p_addr p) (pprocs (s_pool y))\<rparr>"
    by (auto simp: pp_turn_def split: if_splits)
  show ?thesis by (rule take_inv [OF inv t t old(2) c(1) [symmetric] old(3)]) (use old(5) c c' in auto)
next
  case none
  with turn have n: "length (members (rq_kind r) (rq_key r) (pprocs (s_pool y))) < pp_limit r"
    "length (pprocs (s_pool y)) < ASTOOLS_INSTANCE_LIMIT" "fresh s = Some a"
    "pprocs c = \<lparr>p_addr = a, p_kind = rq_kind r, p_key = rq_key r, p_busy = 1, p_last_used = 0, p_idle_timeout = 0\<rparr> # pprocs (s_pool y)"
    "pp_count c = pp_count (s_pool y) + 1"
    by (auto simp: pp_turn_def split: if_splits option.splits)
  have "members PP_KIND_LIB (rq_key r) (pprocs (s_pool y)) = []" if "rq_kind r = PP_KIND_LIB"
    using none(2) that by (cases "members PP_KIND_LIB (rq_key r) (pprocs (s_pool y))") (auto simp: usable_def)
  moreover have "a \<notin> p_addr ` set (pprocs (s_pool y))" using fresh n(3) by (auto simp: fresh_ok_def)
  ultimately show ?thesis using n c' by (intro new_inv [OF inv t]) auto
qed

lemma turn_same: "pp_turn r s c = (t, c') \<Longrightarrow> (\<And>a. t \<noteq> Got a) \<Longrightarrow> c' = c"
  by (auto simp: pp_turn_def split: if_splits option.splits prod.splits)

lemma turn_waiters: "pp_turn r s c = (t, c') \<Longrightarrow> pp_waiters c' = pp_waiters c"
  by (auto simp: pp_turn_def split: if_splits option.splits prod.splits)

lemma idle_inv:
  assumes "pool_inv y" "\<And>b. \<not> users b (s_threads y i)" "\<And>b. \<not> users b t" "thread_inv (pprocs (s_pool y)) t"
    "pprocs c = pprocs (s_pool y)" "pp_count c = pp_count (s_pool y)" "pp_waiters c = nwaiting ((s_threads y)(i := t))"
  shows "pool_inv \<lparr>s_pool = c, s_threads = (s_threads y)(i := t)\<rparr>"
proof -
  have act: "active (s_threads y)" using assms(1) by (simp add: pool_inv_def)
  have "nusers b ((s_threads y)(i := t)) = nusers b (s_threads y)" for b
    using nusers_upd [OF act, of b i t] assms(2,3) by simp
  then show ?thesis using assms act by (auto simp: pool_inv_def active_upd busy_inv_def)
qed

text \<open>The supervisor's steps.\<close>

lemma addr_fresh: "distinct (map p_addr (p # ps)) \<Longrightarrow> q \<in> set ps \<Longrightarrow> p_addr q \<noteq> p_addr p"
  by (auto simp: image_iff)

lemma pin_idle_spec:
  "distinct (map p_addr ps) \<Longrightarrow> pin_idle n ps = (as, ps') \<Longrightarrow>
    distinct as \<and> (\<forall>a \<in> set as. \<exists>p \<in> set ps. p_addr p = a \<and> p_kind p = PP_KIND_PROC \<and> p_busy p = 0) \<and>
    ps' = map (\<lambda>p. if p_addr p \<in> set as then p\<lparr>p_busy := 1\<rparr> else p) ps"
proof (induction n ps arbitrary: as ps' rule: pin_idle.induct)
  case (3 n p ps)
  show ?case
  proof (cases "p_kind p = PP_KIND_PROC \<and> p_busy p = 0")
    case True
    obtain bs qs where b: "pin_idle n ps = (bs, qs)" by force
    from "3.IH"(1) [OF True _ b] "3.prems"(1) have IH: "distinct bs"
      "\<forall>a \<in> set bs. \<exists>p \<in> set ps. p_addr p = a \<and> p_kind p = PP_KIND_PROC \<and> p_busy p = 0"
      "qs = map (\<lambda>p. if p_addr p \<in> set bs then p\<lparr>p_busy := 1\<rparr> else p) ps" by auto
    have "p_addr p \<notin> set bs" using addr_fresh [OF "3.prems"(1)] IH(2) by blast
    moreover have "map (\<lambda>q. if p_addr q \<in> set (p_addr p # bs) then q\<lparr>p_busy := 1\<rparr> else q) ps = qs"
      unfolding IH(3) using addr_fresh [OF "3.prems"(1)] by (intro map_cong) auto
    ultimately show ?thesis using "3.prems"(2) True b IH by auto
  next
    case False
    obtain bs qs where b: "pin_idle (Suc n) ps = (bs, qs)" by force
    from "3.IH"(2) [OF False _ b] "3.prems"(1) have IH: "distinct bs"
      "\<forall>a \<in> set bs. \<exists>p \<in> set ps. p_addr p = a \<and> p_kind p = PP_KIND_PROC \<and> p_busy p = 0"
      "qs = map (\<lambda>p. if p_addr p \<in> set bs then p\<lparr>p_busy := 1\<rparr> else p) ps" by auto
    have "p_addr p \<notin> set bs" using addr_fresh [OF "3.prems"(1)] IH(2) by blast
    then show ?thesis using "3.prems"(2) False b IH by auto
  qed
qed auto

lemma pin_inv:
  assumes inv: "pool_inv y" and t: "s_threads y i = Outside" and pin: "worker_pin (s_pool y) = (as, c)"
  shows "pool_inv \<lparr>s_pool = c, s_threads = (s_threads y)(i := Reaping as)\<rparr>"
proof -
  let ?ps = "pprocs (s_pool y)" and ?g = "s_threads y" and ?h = "(s_threads y)(i := Reaping as)"
  let ?f = "\<lambda>p. if p_addr p \<in> set as then p\<lparr>p_busy := 1\<rparr> else p"
  have I: "active ?g" "nodes_inv ?ps" "pp_count (s_pool y) = length ?ps" "\<And>i. thread_inv ?ps (?g i)" "busy_inv ?ps ?g"
    using inv by (auto simp: pool_inv_def)
  have dist: "distinct (map p_addr ?ps)" using I(2) by (simp add: nodes_inv_def)
  obtain qs where q: "pin_idle ASTOOLS_INSTANCE_LIMIT ?ps = (as, qs)" "c = (s_pool y)\<lparr>pprocs := qs\<rparr>"
    using pin by (auto simp: worker_pin_def split: prod.splits)
  from pin_idle_spec [OF dist q(1)] have as: "distinct as"
    "\<forall>a \<in> set as. \<exists>p \<in> set ?ps. p_addr p = a \<and> p_kind p = PP_KIND_PROC \<and> p_busy p = 0" and qs: "qs = map ?f ?ps" by auto
  have idle: "p_kind p = PP_KIND_PROC \<and> p_busy p = 0" if "p \<in> set ?ps" "p_addr p \<in> set as" for p
  proof -
    from as(2) that(2) obtain p' where p': "p' \<in> set ?ps" "p_addr p' = p_addr p" "p_kind p' = PP_KIND_PROC" "p_busy p' = 0"
      by blast
    with dist that(1) have "p' = p" by (auto simp: distinct_map inj_on_def)
    with p' show ?thesis by simp
  qed
  have addrs: "map p_addr qs = map p_addr ?ps" unfolding qs by (simp add: comp_def cong: map_cong)
  have kinds: "length (members k key (map ?f ps)) = length (members k key ps)" for k key ps
    by (induction ps) auto
  have "nodes_inv qs"
    using I(2) addrs idle unfolding nodes_inv_def qs by (auto simp: kinds comp_def cong: map_cong)
  moreover have "busy_inv qs ?h"
  proof -
    have "p_busy (?f p) = int (nusers (p_addr p) ?h)" if p: "p \<in> set ?ps" for p
    proof (cases "p_addr p \<in> set as")
      case True
      then show ?thesis using nusers_upd [OF I(1), of "p_addr p" i "Reaping as"] t idle [OF p True] I(5) p
        by (auto simp: busy_inv_def)
    next
      case False
      then show ?thesis using nusers_upd [OF I(1), of "p_addr p" i "Reaping as"] t I(5) p
        by (auto simp: busy_inv_def)
    qed
    moreover have "p_addr (?f p) = p_addr p" for p :: astools_pproc by simp
    ultimately have "p_busy (?f p) = int (nusers (p_addr (?f p)) ?h)" if "p \<in> set ?ps" for p
      using that by (simp only:)
    then show ?thesis unfolding busy_inv_def qs set_map by blast
  qed
  moreover have has: "has_node qs a k \<longleftrightarrow> has_node ?ps a k" for a k
  proof -
    have "p_addr (?f p) = p_addr p \<and> p_kind (?f p) = p_kind p" for p :: astools_pproc by simp
    then show ?thesis unfolding has_node_def qs set_map by (simp only: bex_simps)
  qed
  then have "thread_inv qs u \<longleftrightarrow> thread_inv ?ps u" for u by (cases u) auto
  moreover have "thread_inv ?ps (Reaping as)" using as by (auto simp: has_node_def)
  ultimately show ?thesis using I inv t waiting_same [OF inv, of "Reaping as" i] qs q(2)
    by (simp add: pool_inv_def active_upd)
qed

lemma reaping_node:
  assumes inv: "pool_inv y" and t: "s_threads y i = Reaping (a # as)"
    and p: "p \<in> set (pprocs (s_pool y))" "p_addr p = a"
  shows "p_kind p = PP_KIND_PROC" "p_busy p = 1" "nusers a (s_threads y) = 1" "a \<notin> set as"
    "thread_inv (pprocs (s_pool y)) (Reaping as)"
proof -
  have n: "nodes_inv (pprocs (s_pool y))" and th: "thread_inv (pprocs (s_pool y)) (Reaping (a # as))"
    using inv t by (auto simp: pool_inv_def dest: spec [of _ i])
  from th show "a \<notin> set as" "thread_inv (pprocs (s_pool y)) (Reaping as)" by auto
  from th obtain q where q: "q \<in> set (pprocs (s_pool y))" "p_addr q = a" "p_kind q = PP_KIND_PROC"
    by (auto simp: has_node_def)
  with n p have "q = p" by (auto simp: nodes_inv_def distinct_map inj_on_def)
  with q show k: "p_kind p = PP_KIND_PROC" by simp
  have "p_busy p = int (nusers a (s_threads y))" "0 < nusers a (s_threads y)"
    using users_busy [OF inv _ p, of i] t by auto
  moreover have "p_busy p \<le> 1" using n p k by (auto simp: nodes_inv_def)
  ultimately show "p_busy p = 1" "nusers a (s_threads y) = 1" by linarith+
qed

lemma unpin_inv:
  assumes inv: "pool_inv y" and t: "s_threads y i = Reaping (a # as)"
    and p: "p \<in> set (pprocs (s_pool y))" "p_addr p = a"
  shows "pool_inv \<lparr>s_pool = worker_unpin a (s_pool y), s_threads = (s_threads y)(i := Reaping as)\<rparr>"
proof (rule step_upd [OF inv])
  note n = reaping_node [OF inv t p]
  let ?f = "\<lambda>p. p\<lparr>p_busy := 0\<rparr> :: astools_pproc"
  show "keeps_id ?f" by (simp add: keeps_id_def)
  show "pprocs (worker_unpin a (s_pool y)) = upd a ?f (pprocs (s_pool y))" by (simp add: worker_unpin_def on_addr_def)
  show "thread_inv (pprocs (s_pool y)) (Reaping as)" by (rule n)
  have act: "active (s_threads y)" using inv by (simp add: pool_inv_def)
  fix q
  show "p_busy (?f q) = int (nusers a ((s_threads y)(i := Reaping as))) \<and> (p_kind q = PP_KIND_PROC \<longrightarrow> p_busy (?f q) \<le> 1)"
    using nusers_upd [OF act, of a i "Reaping as"] t n by simp
qed (use t waiting_same [OF inv, of "Reaping as" i] in \<open>auto simp: worker_unpin_def on_addr_def\<close>)

lemma unlink_filter: "distinct (map p_addr ps) \<Longrightarrow> unlink a ps = filter (\<lambda>p. p_addr p \<noteq> a) ps"
proof (induction ps)
  case (Cons p ps)
  have "p_addr p = a \<Longrightarrow> filter (\<lambda>q. p_addr q \<noteq> a) ps = ps"
    using addr_fresh [OF Cons.prems] by (intro filter_True) auto
  with Cons show ?case by auto
qed simp

lemma unlink_length: "a \<in> p_addr ` set ps \<Longrightarrow> length (unlink a ps) + 1 = length ps"
  by (induction ps) auto

lemma remove_inv:
  assumes inv: "pool_inv y" and t: "s_threads y i = Reaping (a # as)"
    and p: "p \<in> set (pprocs (s_pool y))" "p_addr p = a"
  shows "pool_inv \<lparr>s_pool = worker_remove a (s_pool y), s_threads = (s_threads y)(i := Reaping as)\<rparr>"
proof -
  note n = reaping_node [OF inv t p]
  let ?ps = "pprocs (s_pool y)" and ?g = "s_threads y" and ?h = "(s_threads y)(i := Reaping as)"
  let ?qs = "unlink a ?ps"
  have I: "active ?g" "nodes_inv ?ps" "pp_count (s_pool y) = length ?ps" "\<And>i. thread_inv ?ps (?g i)" "busy_inv ?ps ?g"
    using inv by (auto simp: pool_inv_def)
  have dist: "distinct (map p_addr ?ps)" using I(2) by (simp add: nodes_inv_def)
  note u = unlink_filter [OF dist, of a]
  have set: "set ?qs = {q \<in> set ?ps. p_addr q \<noteq> a}" unfolding u by auto
  have le: "length (members k key ?qs) \<le> length (members k key ?ps)" for k key
    unfolding u members_def filter_filter by (rule order_trans [OF _ length_filter_le [of "\<lambda>p. p_addr p \<noteq> a"]])
      (simp add: filter_filter conj_commute)
  have "length ?qs + 1 = length ?ps" using p by (intro unlink_length) auto
  moreover have "nodes_inv ?qs"
    using I(2) le [of PP_KIND_LIB] set unfolding nodes_inv_def
    by (auto simp: u distinct_map_filter order_trans [OF length_filter_le] intro: order_trans)
  moreover have "busy_inv ?qs ?h"
    using I(5) nusers_upd [OF I(1), of _ i "Reaping as"] t unfolding busy_inv_def set by (fastforce split: if_splits)
  moreover have "thread_inv ?qs (?h j)" for j
  proof -
    have no: "\<not> users a (?h j)"
    proof (cases "j = i")
      case False
      then show ?thesis using nusers_one [OF I(1), of a j i] n(3) t by auto
    qed (use n in simp)
    have "thread_inv ?ps (?h j)" using I(4) n(5) by simp
    then show ?thesis using no by (cases "?h j") (auto simp: has_node_def set)
  qed
  ultimately show ?thesis using I inv t p waiting_same [OF inv, of "Reaping as" i]
    by (auto simp: pool_inv_def active_upd worker_remove_def)
qed

lemma use_inv:
  assumes inv: "pool_inv y" and t: "s_threads y i = Holding a PP_KIND_PROC"
    and f: "keeps_id f" "\<And>p. p_busy (f p) = p_busy p"
  shows "pool_inv (y\<lparr>s_pool := on_addr a f (s_pool y)\<rparr>)"
proof -
  have th: "(s_threads y)(i := Holding a PP_KIND_PROC) = s_threads y" using t by auto
  have n: "nodes_inv (pprocs (s_pool y))" and w: "pp_waiters (s_pool y) = nwaiting (s_threads y)"
    and h: "thread_inv (pprocs (s_pool y)) (s_threads y i)"
    using inv by (auto simp: pool_inv_def)
  have "pool_inv \<lparr>s_pool = on_addr a f (s_pool y), s_threads = (s_threads y)(i := Holding a PP_KIND_PROC)\<rparr>"
  proof (rule step_upd [OF inv])
    show "keeps_id f" by (rule f)
    show "pprocs (on_addr a f (s_pool y)) = upd a f (pprocs (s_pool y))" by (simp add: on_addr_def)
    show "thread_inv (pprocs (s_pool y)) (Holding a PP_KIND_PROC)" using h t by simp
    fix p assume "p \<in> set (pprocs (s_pool y))" "p_busy p = int (nusers a (s_threads y))"
    then show "p_busy (f p) = int (nusers a ((s_threads y)(i := Holding a PP_KIND_PROC))) \<and>
        (p_kind p = PP_KIND_PROC \<longrightarrow> p_busy (f p) \<le> 1)"
      unfolding th using n by (auto simp: nodes_inv_def f)
  qed (use t w in \<open>auto simp: on_addr_def th\<close>)
  then show ?thesis unfolding th by (cases y) simp
qed

lemma waits_after:
  assumes inv: "pool_inv y" and t: "\<not> is_waiting (s_threads y i)"
  shows "nwaiting ((s_threads y)(i := u)) = pp_waiters (s_pool y) + (if is_waiting u then 1 else 0)"
  using nwaiting_upd [of "s_threads y" i u] inv t by (simp add: pool_inv_def)

lemma waits_before:
  assumes inv: "pool_inv y" and t: "is_waiting (s_threads y i)"
  shows "nwaiting ((s_threads y)(i := u)) = pp_waiters (s_pool y) - (if is_waiting u then 0 else 1)"
  using nwaiting_upd [of "s_threads y" i u] inv t by (auto simp: pool_inv_def)

lemma enter_inv:
  assumes inv: "pool_inv y" and i: "s_threads y i = Outside" and f: "fresh_ok s (s_pool y)"
    and e: "pp_enter r s (s_pool y) = (t, c)"
  shows "pool_inv \<lparr>s_pool = c, s_threads = (s_threads y)(i := after r t)\<rparr>"
proof -
  obtain u d where ud: "pp_turn r s (s_pool y) = (u, d)" by force
  note same = turn_same [OF ud] and w = turn_waiters [OF ud]
  have nw: "nwaiting ((s_threads y)(i := v)) = pp_waiters (s_pool y) + (if is_waiting v then 1 else 0)" for v
    by (rule waits_after [OF inv]) (simp add: i)
  show ?thesis
  proof (cases u)
    case (Got a)
    with ud e have tc: "t = Got a" "c = d" by (auto simp: pp_enter_def)
    have "pool_inv \<lparr>s_pool = c, s_threads = (s_threads y)(i := Holding a (rq_kind r))\<rparr>"
      by (rule turn_inv [OF inv _ f]) (use i ud Got tc w nw in auto)
    then show ?thesis using tc by (simp add: after_def)
  next
    case (Failed x)
    with ud e same have "t = Failed x" "c = s_pool y" by (auto simp: pp_enter_def)
    then show ?thesis by (simp add: after_def) (rule idle_inv [OF inv]; use i nw in simp)
  next
    case Wait
    with ud e same have "t = Wait" "c = (s_pool y)\<lparr>pp_waiters := pp_waiters (s_pool y) + 1\<rparr>"
      by (auto simp: pp_enter_def)
    then show ?thesis by (simp add: after_def) (rule idle_inv [OF inv]; use i nw in simp)
  qed
qed

lemma wake_inv:
  assumes inv: "pool_inv y" and i: "s_threads y i = Waiting r" and f: "fresh_ok s (s_pool y)"
    and e: "pp_wake r s (s_pool y) = (t, c)"
  shows "pool_inv \<lparr>s_pool = c, s_threads = (s_threads y)(i := after r t)\<rparr>"
proof -
  obtain u d where ud: "pp_turn r s (s_pool y) = (u, d)" by force
  note same = turn_same [OF ud] and w = turn_waiters [OF ud]
  have nw: "nwaiting ((s_threads y)(i := v)) = pp_waiters (s_pool y) - (if is_waiting v then 0 else 1)" for v
    by (rule waits_before [OF inv]) (simp add: i)
  show ?thesis
  proof (cases u)
    case (Got a)
    with ud e have tc: "t = Got a" "c = d\<lparr>pp_waiters := pp_waiters d - 1\<rparr>" by (auto simp: pp_wake_def)
    have "pool_inv \<lparr>s_pool = c, s_threads = (s_threads y)(i := Holding a (rq_kind r))\<rparr>"
      by (rule turn_inv [OF inv _ f]) (use i ud Got tc w nw in auto)
    then show ?thesis using tc by (simp add: after_def)
  next
    case (Failed x)
    with ud e same have "t = Failed x" "c = (s_pool y)\<lparr>pp_waiters := pp_waiters (s_pool y) - 1\<rparr>"
      by (auto simp: pp_wake_def)
    then show ?thesis by (simp add: after_def) (rule idle_inv [OF inv]; use i nw in simp)
  next
    case Wait
    with ud e same have "t = Wait" "c = s_pool y" by (auto simp: pp_wake_def)
    then show ?thesis by (simp add: after_def) (rule idle_inv [OF inv]; use i nw in simp)
  qed
qed

lemma rest_inv:
  assumes inv: "pool_inv y" and i: "s_threads y i = Reaping []"
  shows "pool_inv (y\<lparr>s_threads := (s_threads y)(i := Outside)\<rparr>)"
proof -
  have "pool_inv \<lparr>s_pool = s_pool y, s_threads = (s_threads y)(i := Outside)\<rparr>"
    by (rule idle_inv [OF inv]) (use i waiting_same [OF inv, of Outside i] in auto)
  then show ?thesis by (cases y) simp
qed

lemma pool_inv_step:
  assumes "pool_inv y" "pool_step y z"
  shows "pool_inv z"
  using assms(2)
proof (cases rule: pool_step.cases)
  case enter then show ?thesis using enter_inv assms(1) by blast
next
  case wake then show ?thesis using wake_inv assms(1) by blast
next
  case release then show ?thesis using release_inv assms(1) by blast
next
  case set_idle
  then show ?thesis unfolding pp_set_idle_def by (simp add: use_inv [OF assms(1)] keeps_id_def)
next
  case touch
  then show ?thesis unfolding pp_touch_def by (simp add: use_inv [OF assms(1)] keeps_id_def)
next
  case pin then show ?thesis using pin_inv assms(1) by blast
next
  case unpin then show ?thesis using unpin_inv assms(1) by blast
next
  case remove then show ?thesis using remove_inv assms(1) by blast
next
  case rest then show ?thesis using rest_inv assms(1) by blast
qed

interpretation pool: inv_system pool_step pool_init pool_inv
  by unfold_locales (rule pool_inv_init, rule pool_inv_step)

section \<open>What holds of every reachable pool\<close>

lemma node_of:
  assumes "nodes_inv ps" "has_node ps a k" "p \<in> set ps" "p_addr p = a"
  shows "p_kind p = k"
  using assms by (auto simp: nodes_inv_def has_node_def distinct_map inj_on_def)

lemma inv_exclusive:
  assumes inv: "pool_inv y" and n: "has_node (pprocs (s_pool y)) a PP_KIND_PROC"
    and u: "users a (s_threads y i)" "users a (s_threads y j)"
  shows "i = j"
proof -
  obtain p where p: "p \<in> set (pprocs (s_pool y))" "p_addr p = a" "p_kind p = PP_KIND_PROC"
    using n by (auto simp: has_node_def)
  have "p_busy p \<le> 1" using inv p by (auto simp: pool_inv_def nodes_inv_def)
  then have "nusers a (s_threads y) \<le> 1" using users_busy(1) [OF inv u(1) p(1,2)] by simp
  moreover have "active (s_threads y)" using inv by (simp add: pool_inv_def)
  ultimately show ?thesis using nusers_one u by blast
qed

lemma waiter_blocked:
  assumes inv: "pool_inv y" and w: "fst (pp_turn r s (s_pool y)) = Wait"
    and p: "p \<in> set (members (rq_kind r) (rq_key r) (pprocs (s_pool y)))"
  shows "\<exists>j. users (p_addr p) (s_threads y j)"
proof -
  have "p_busy p \<noteq> 0" using w p pool_turn_wait [of r s "s_pool y"] by (auto simp: list_all_iff)
  moreover have "p_busy p = int (nusers (p_addr p) (s_threads y))"
    using inv p by (auto simp: pool_inv_def busy_inv_def set_members)
  ultimately show ?thesis using nusers_zero [of "p_addr p" "s_threads y"] by auto
qed

lemma release_frees:
  assumes inv: "pool_inv y" and h: "s_threads y i = Holding a PP_KIND_PROC"
    and p: "p \<in> set (members PP_KIND_PROC (rq_key r) (pprocs (s_pool y)))" "p_addr p = a"
    and r: "rq_kind r = PP_KIND_PROC"
  shows "\<not> fst (pp_turn r s (astools_pp_release now a (s_pool y))) = Wait"
proof
  assume w: "fst (pp_turn r s (astools_pp_release now a (s_pool y))) = Wait"
  let ?q = "p\<lparr>p_busy := p_busy p - 1, p_last_used := now\<rparr>"
  have pp: "p \<in> set (pprocs (s_pool y))" "p_kind p = PP_KIND_PROC" "p_key p = rq_key r"
    using p by (auto simp: set_members)
  have "p_busy p \<le> 1" using inv pp by (auto simp: pool_inv_def nodes_inv_def)
  moreover have b: "0 < p_busy p" using users_busy [OF inv _ pp(1) p(2), of i] h by simp
  ultimately have z: "p_busy ?q = 0" by simp
  have "?q \<in> set (pprocs (astools_pp_release now a (s_pool y)))"
    using pp(1) p(2) b by (force simp: astools_pp_release_def on_addr_def)
  then have "?q \<in> set (members PP_KIND_PROC (rq_key r) (pprocs (astools_pp_release now a (s_pool y))))"
    using pp by (simp add: set_members)
  then show False using w z pool_turn_wait [of r s "astools_pp_release now a (s_pool y)"] r
    by (auto simp: list_all_iff)
qed

text \<open>A first run: one thread asks for a process of a key with room for one, and gets it.\<close>

definition demo_request :: request where
  "demo_request = \<lparr>rq_kind = PP_KIND_PROC, rq_key = ''ab'', rq_parallel = 0\<rparr>"

definition demo_node :: astools_pproc where
  "demo_node = \<lparr>p_addr = 7, p_kind = PP_KIND_PROC, p_key = ''ab'', p_busy = 1, p_last_used = 0, p_idle_timeout = 0\<rparr>"

definition demo_pool :: sys where
  "demo_pool = \<lparr>s_pool = \<lparr>pprocs = [demo_node], pp_count = 1, pp_waiters = 0\<rparr>,
     s_threads = (\<lambda>_. Outside)(0 := Holding 7 PP_KIND_PROC)\<rparr>"

lemma demo_reached: "pool_step\<^sup>*\<^sup>* pool_init demo_pool"
proof (rule r_into_rtranclp)
  let ?s = "\<lparr>cancelled = False, expired = False, fresh = Some 7\<rparr>"
  have "pp_enter demo_request ?s (s_pool pool_init) = (Got 7, s_pool demo_pool)"
    by (simp add: pp_enter_def pp_turn_def demo_request_def pool_init_def demo_pool_def demo_node_def
        pp_limit_def ASTOOLS_INSTANCE_LIMIT_def)
  from pool_step.enter [OF _ _ this, where i = 0]
  have "pool_step pool_init \<lparr>s_pool = s_pool demo_pool, s_threads = (s_threads pool_init)(0 := after demo_request (Got 7))\<rparr>"
    by (simp add: pool_init_def fresh_ok_def)
  then show "pool_step pool_init demo_pool"
    by (simp add: demo_pool_def pool_init_def after_def demo_request_def)
qed

text \<open>
  C4: Whatever the order of the threads' steps, no two of them ever use the same process: one that holds
  it or has pinned it for supervision is the only one, and what a thread uses has not been freed.
\<close>

theorem pool_exclusive:
  assumes "pool_step\<^sup>*\<^sup>* pool_init y" "users a (s_threads y i)"
  shows "a \<in> p_addr ` set (pprocs (s_pool y)) \<and>
    (has_node (pprocs (s_pool y)) a PP_KIND_PROC \<and> users a (s_threads y j) \<longrightarrow> i = j)"
proof -
  have inv: "pool_inv y" by (rule pool.reachable_inv [OF assms(1)])
  then have "thread_inv (pprocs (s_pool y)) (s_threads y i)" by (simp add: pool_inv_def)
  from users_node [OF this assms(2)] inv_exclusive [OF inv _ assms(2)] show ?thesis by blast
qed

theorem pool_exclusive_witness:
  "pool_step\<^sup>*\<^sup>* pool_init demo_pool \<and> users 7 (s_threads demo_pool 0) \<and>
   7 \<in> p_addr ` set (pprocs (s_pool demo_pool)) \<and>
   has_node (pprocs (s_pool demo_pool)) 7 PP_KIND_PROC \<and> \<not> users 7 (s_threads demo_pool 1)"
  using demo_reached pool_exclusive [OF demo_reached, of 7 0 1]
  by (simp add: demo_pool_def demo_node_def has_node_def)

text \<open>
  C18: In every reachable state at most 64 instances are resident, the two counters are exact, every busy
  count is the number of threads that use the instance, and a library is loaded at most once per key.
\<close>

theorem pool_bounds:
  assumes "pool_step\<^sup>*\<^sup>* pool_init y"
  shows "pp_count (s_pool y) = length (pprocs (s_pool y)) \<and> pp_count (s_pool y) \<le> 64 \<and>
    pp_waiters (s_pool y) = card {i. is_waiting (s_threads y i)} \<and>
    list_all (\<lambda>p. p_busy p = int (card {i. users (p_addr p) (s_threads y i)}) \<and>
      (p_kind p = PP_KIND_PROC \<longrightarrow> p_busy p \<le> 1)) (pprocs (s_pool y)) \<and>
    length (members PP_KIND_LIB key (pprocs (s_pool y))) \<le> 1"
  using pool.reachable_inv [OF assms]
  by (auto simp: pool_inv_def nodes_inv_def ASTOOLS_INSTANCE_LIMIT_def nwaiting_def busy_inv_def nusers_def list_all_iff)

theorem pool_bounds_witness:
  "pool_step\<^sup>*\<^sup>* pool_init demo_pool \<and> pp_count (s_pool demo_pool) = 1 \<and>
   pp_waiters (s_pool demo_pool) = card {i. is_waiting (s_threads demo_pool i)}"
  using demo_reached pool_bounds [OF demo_reached] by (simp add: demo_pool_def)

text \<open>
  C12: A caller waits only for somebody: when its turn makes it wait, every member of its key is used by a
  thread, and as soon as one of them is released its next turn does not wait.
\<close>

theorem pool_no_lost_wait:
  assumes "pool_step\<^sup>*\<^sup>* pool_init y" "fst (pp_turn r s (s_pool y)) = Wait"
    and "s_threads y i = Holding (p_addr p) PP_KIND_PROC"
    and "p \<in> set (members PP_KIND_PROC (rq_key r) (pprocs (s_pool y)))"
  shows "list_all (\<lambda>q. \<exists>j. users (p_addr q) (s_threads y j)) (members (rq_kind r) (rq_key r) (pprocs (s_pool y))) \<and>
    fst (pp_turn r s' (astools_pp_release now (p_addr p) (s_pool y))) \<noteq> Wait"
proof -
  have inv: "pool_inv y" by (rule pool.reachable_inv [OF assms(1)])
  have "rq_kind r = PP_KIND_PROC" using assms(2) by (simp add: pool_turn_wait)
  with release_frees [OF inv assms(3,4)] waiter_blocked [OF inv assms(2)] show ?thesis
    by (auto simp: list_all_iff)
qed

theorem pool_no_lost_wait_witness:
  "fst (pp_turn demo_request \<lparr>cancelled = False, expired = False, fresh = None\<rparr> (s_pool demo_pool)) = Wait \<and>
   fst (pp_turn demo_request \<lparr>cancelled = False, expired = False, fresh = None\<rparr>
     (astools_pp_release 5 (p_addr demo_node) (s_pool demo_pool))) \<noteq> Wait"
proof -
  let ?s = "\<lparr>cancelled = False, expired = False, fresh = None\<rparr>"
  have w: "fst (pp_turn demo_request ?s (s_pool demo_pool)) = Wait"
    by (simp add: pool_turn_wait demo_request_def demo_pool_def demo_node_def pp_limit_def)
  have "s_threads demo_pool 0 = Holding (p_addr demo_node) PP_KIND_PROC"
    "demo_node \<in> set (members PP_KIND_PROC (rq_key demo_request) (pprocs (s_pool demo_pool)))"
    by (simp_all add: demo_pool_def demo_node_def demo_request_def)
  from pool_no_lost_wait [OF demo_reached w this] w show ?thesis by blast
qed

end
