(* ===== verification/As_Queue.thy ===== *)
theory As_Queue
  imports As_Trans As_Callline
begin

text \<open>
  Admission and asynchronous tasks: \<^verbatim>\<open>src/execution_queue.c\<close>. The slots of
  \<open>invocation.max_concurrent\<close> are counted under \<open>slot_mu\<close>: each turn of the admission loop and each
  release is one atomic step of one thread. A task is the state under its own mutex; its operations
  come in any order.
\<close>

section \<open>Slot admission\<close>

record slot_cfg =
  max_concurrent :: int
  no_threads :: bool

record slots =
  slots_used :: int
  slots_waiting :: nat

datatype slot_turn_result = SlotFailed astools_err | SlotGot | SlotWait

definition slot_max :: "slot_cfg \<Rightarrow> int" where
  "slot_max g = (if max_concurrent g > 0 then max_concurrent g else 1)"

definition slot_turn :: "slot_cfg \<Rightarrow> bool \<Rightarrow> bool \<Rightarrow> slots \<Rightarrow> slot_turn_result \<times> slots" where
  "slot_turn g cancelled late c =
     (if cancelled then (SlotFailed ASTOOLS_ERR_CANCELLED, c)
      else if late then (SlotFailed ASTOOLS_ERR_TIMEOUT, c)
      else if slots_used c < slot_max g then (SlotGot, c\<lparr>slots_used := slots_used c + 1\<rparr>)
      else if no_threads g then (SlotFailed ASTOOLS_ERR_BUSY, c)
      else (SlotWait, c))"

definition slot_enter :: "slot_cfg \<Rightarrow> bool \<Rightarrow> bool \<Rightarrow> slots \<Rightarrow> slot_turn_result \<times> slots" where
  "slot_enter g cancelled late c =
     (case slot_turn g cancelled late c of
        (SlotWait, c) \<Rightarrow> (SlotWait, c\<lparr>slots_waiting := slots_waiting c + 1\<rparr>)
      | (t, c) \<Rightarrow> (t, c))"

definition slot_wake :: "slot_cfg \<Rightarrow> bool \<Rightarrow> bool \<Rightarrow> slots \<Rightarrow> slot_turn_result \<times> slots" where
  "slot_wake g cancelled late c =
     (case slot_turn g cancelled late c of
        (SlotWait, c) \<Rightarrow> (SlotWait, c)
      | (t, c) \<Rightarrow> (t, c\<lparr>slots_waiting := slots_waiting c - 1\<rparr>))"

definition astools_slot_release :: "slots \<Rightarrow> slots" where
  "astools_slot_release c = (if slots_used c > 0 then c\<lparr>slots_used := slots_used c - 1\<rparr> else c)"

text \<open>The threads: outside, in the queue, or running an invocation.\<close>

datatype caller = Away | Queued | Admitted

record admission =
  a_slots :: slots
  a_callers :: "nat \<Rightarrow> caller"

definition slot_after :: "slot_turn_result \<Rightarrow> caller" where
  "slot_after t = (case t of SlotFailed _ \<Rightarrow> Away | SlotGot \<Rightarrow> Admitted | SlotWait \<Rightarrow> Queued)"

inductive slot_step :: "slot_cfg \<Rightarrow> admission \<Rightarrow> admission \<Rightarrow> bool" for g where
  slot_enters: "a_callers y i = Away \<Longrightarrow> slot_enter g cancelled late (a_slots y) = (t, c) \<Longrightarrow>
    slot_step g y \<lparr>a_slots = c, a_callers = (a_callers y)(i := slot_after t)\<rparr>"
| slot_wakes: "a_callers y i = Queued \<Longrightarrow> slot_wake g cancelled late (a_slots y) = (t, c) \<Longrightarrow>
    slot_step g y \<lparr>a_slots = c, a_callers = (a_callers y)(i := slot_after t)\<rparr>"
| slot_releases: "a_callers y i = Admitted \<Longrightarrow>
    slot_step g y \<lparr>a_slots = astools_slot_release (a_slots y), a_callers = (a_callers y)(i := Away)\<rparr>"

definition slot_init :: admission where
  "slot_init = \<lparr>a_slots = \<lparr>slots_used = 0, slots_waiting = 0\<rparr>, a_callers = (\<lambda>_. Away)\<rparr>"

definition slot_inv :: "slot_cfg \<Rightarrow> admission \<Rightarrow> bool" where
  "slot_inv g y \<longleftrightarrow> finite {j. a_callers y j \<noteq> Away} \<and>
     slots_used (a_slots y) = int (card {j. a_callers y j = Admitted}) \<and> slots_used (a_slots y) \<le> slot_max g \<and>
     slots_waiting (a_slots y) = card {j. a_callers y j = Queued} \<and>
     (no_threads g \<longrightarrow> slots_waiting (a_slots y) = 0)"

lemma slot_max_pos: "0 < slot_max g"
  by (simp add: slot_max_def)

lemma slot_inv_init: "slot_inv g slot_init"
  using slot_max_pos [of g] by (simp add: slot_inv_def slot_init_def)

text \<open>The two counts when caller \<open>i\<close> moves to \<open>t\<close>.\<close>

lemma slot_move:
  assumes "slot_inv g y"
  shows "finite {j. ((a_callers y)(i := t)) j \<noteq> Away}"
    and "int (card {j. ((a_callers y)(i := t)) j = Admitted}) + (if a_callers y i = Admitted then 1 else 0) =
         slots_used (a_slots y) + (if t = Admitted then 1 else 0)"
    and "card {j. ((a_callers y)(i := t)) j = Queued} + (if a_callers y i = Queued then 1 else 0) =
         slots_waiting (a_slots y) + (if t = Queued then 1 else 0)"
proof -
  have fin: "finite {j. a_callers y j \<noteq> Away}" using assms by (simp add: slot_inv_def)
  show "finite {j. ((a_callers y)(i := t)) j \<noteq> Away}"
    by (rule finite_subset [of _ "insert i {j. a_callers y j \<noteq> Away}"]) (use fin in auto)
  have a: "finite {j. a_callers y j = Admitted}" and q: "finite {j. a_callers y j = Queued}"
    by (rule finite_subset [OF _ fin]; auto)+
  show "int (card {j. ((a_callers y)(i := t)) j = Admitted}) + (if a_callers y i = Admitted then 1 else 0) =
         slots_used (a_slots y) + (if t = Admitted then 1 else 0)"
    using card_fun_upd [of "\<lambda>x. x = Admitted", OF a, of i t] assms
    unfolding slot_inv_def by (simp del: fun_upd_apply split: if_splits)
  show "card {j. ((a_callers y)(i := t)) j = Queued} + (if a_callers y i = Queued then 1 else 0) =
         slots_waiting (a_slots y) + (if t = Queued then 1 else 0)"
    using card_fun_upd [of "\<lambda>x. x = Queued", OF q, of i t] assms unfolding slot_inv_def by (simp del: fun_upd_apply split: if_splits)
qed

lemma slot_inv_move:
  assumes inv: "slot_inv g y"
    and used: "slots_used c + (if a_callers y i = Admitted then 1 else 0) = slots_used (a_slots y) + (if t = Admitted then 1 else 0)"
    and wait: "slots_waiting c + (if a_callers y i = Queued then 1 else 0) = slots_waiting (a_slots y) + (if t = Queued then 1 else 0)"
    and max: "slots_used c \<le> slot_max g" and nt: "t = Queued \<Longrightarrow> \<not> no_threads g"
  shows "slot_inv g \<lparr>a_slots = c, a_callers = (a_callers y)(i := t)\<rparr>"
proof -
  note m = slot_move [OF inv, of i t]
  have "slots_used c = int (card {j. ((a_callers y)(i := t)) j = Admitted})" using m(2) used by simp
  moreover have "slots_waiting c = card {j. ((a_callers y)(i := t)) j = Queued}" using m(3) wait by simp
  moreover have "no_threads g \<longrightarrow> slots_waiting c = 0"
    using inv wait nt by (auto simp: slot_inv_def split: if_splits)
  ultimately show ?thesis using m(1) max by (simp add: slot_inv_def)
qed

lemma slot_turn_cases:
  obtains (fail) e where "slot_turn g x l c = (SlotFailed e, c)"
  | (got) "slot_turn g x l c = (SlotGot, c\<lparr>slots_used := slots_used c + 1\<rparr>)" "slots_used c < slot_max g"
  | (wait) "slot_turn g x l c = (SlotWait, c)" "\<not> no_threads g"
proof (cases "slot_turn g x l c")
  case (Pair r d)
  then show thesis
    by (cases r) (auto simp: slot_turn_def split: if_splits intro: fail got wait)
qed

lemma queued_counted:
  assumes "slot_inv g y" "a_callers y i = Queued"
  shows "0 < slots_waiting (a_slots y)"
proof -
  have "finite {j. a_callers y j = Queued}"
    by (rule finite_subset [of _ "{j. a_callers y j \<noteq> Away}"]) (use assms in \<open>auto simp: slot_inv_def\<close>)
  then show ?thesis using assms by (auto simp: slot_inv_def card_gt_0_iff)
qed

lemma admitted_counted:
  assumes "slot_inv g y" "a_callers y i = Admitted"
  shows "0 < slots_used (a_slots y)"
proof -
  have "finite {j. a_callers y j = Admitted}"
    by (rule finite_subset [of _ "{j. a_callers y j \<noteq> Away}"]) (use assms in \<open>auto simp: slot_inv_def\<close>)
  then show ?thesis using assms by (auto simp: slot_inv_def card_gt_0_iff)
qed

lemma slot_inv_step:
  assumes inv: "slot_inv g y" and step: "slot_step g y z"
  shows "slot_inv g z"
  using step
proof (cases rule: slot_step.cases)
  case (slot_enters i x l t c)
  have le: "slots_used (a_slots y) \<le> slot_max g" using inv by (simp add: slot_inv_def)
  show ?thesis
    unfolding slot_enters(1)
    by (rule slot_turn_cases [of g x l "a_slots y"]; rule slot_inv_move [OF inv])
      (use slot_enters le in \<open>auto simp: slot_enter_def slot_after_def\<close>)
next
  case (slot_wakes i x l t c)
  have le: "slots_used (a_slots y) \<le> slot_max g" using inv by (simp add: slot_inv_def)
  note q = queued_counted [OF inv slot_wakes(2)]
  show ?thesis
    unfolding slot_wakes(1)
    by (rule slot_turn_cases [of g x l "a_slots y"]; rule slot_inv_move [OF inv])
      (use slot_wakes le q in \<open>auto simp: slot_wake_def slot_after_def\<close>)
next
  case (slot_releases i)
  have le: "slots_used (a_slots y) \<le> slot_max g" using inv by (simp add: slot_inv_def)
  note a = admitted_counted [OF inv slot_releases(2)]
  show ?thesis unfolding slot_releases(1)
    by (rule slot_inv_move [OF inv]) (use slot_releases le a in \<open>auto simp: astools_slot_release_def\<close>)
qed

interpretation slots: inv_system "slot_step g" slot_init "slot_inv g" for g
  by unfold_locales (rule slot_inv_init, rule slot_inv_step)

text \<open>
  However the callers interleave, the slots in use are exactly the admitted callers and never more
  than the configured maximum, the queue length is exact, nobody queues in no-thread mode, and a
  turn makes its caller wait only when every slot is taken by somebody, whose release lets it in.
\<close>

theorem slots_bounded:
  assumes "(slot_step g)\<^sup>*\<^sup>* slot_init y"
  shows "slots_used (a_slots y) = int (card {i. a_callers y i = Admitted}) \<and> slots_used (a_slots y) \<le> slot_max g \<and>
    slots_waiting (a_slots y) = card {i. a_callers y i = Queued} \<and>
    (fst (slot_turn g False False (a_slots y)) = SlotWait \<longleftrightarrow>
       \<not> no_threads g \<and> int (card {i. a_callers y i = Admitted}) = slot_max g) \<and>
    (a_callers y i = Admitted \<longrightarrow> fst (slot_turn g False False (astools_slot_release (a_slots y))) = SlotGot)"
proof -
  have inv: "slot_inv g y" by (rule slots.reachable_inv [OF assms])
  then have "a_callers y i = Admitted \<Longrightarrow> 0 < slots_used (a_slots y)" by (rule admitted_counted)
  then show ?thesis using inv by (auto simp: slot_inv_def slot_turn_def astools_slot_release_def)
qed

definition demo_admitted :: admission where
  "demo_admitted = \<lparr>a_slots = \<lparr>slots_used = 1, slots_waiting = 0\<rparr>, a_callers = (\<lambda>_. Away)(0 := Admitted)\<rparr>"

lemma demo_admitted_reached: "(slot_step g)\<^sup>*\<^sup>* slot_init demo_admitted"
proof (rule r_into_rtranclp)
  have "slot_enter g False False (a_slots slot_init) = (SlotGot, a_slots demo_admitted)"
    using slot_max_pos [of g] by (simp add: slot_enter_def slot_turn_def slot_init_def demo_admitted_def)
  from slot_step.slot_enters [OF _ this, where i = 0] show "slot_step g slot_init demo_admitted"
    by (simp add: slot_init_def demo_admitted_def slot_after_def)
qed

theorem slots_bounded_witness:
  "(slot_step \<lparr>max_concurrent = 1, no_threads = False\<rparr>)\<^sup>*\<^sup>* slot_init demo_admitted \<and>
   fst (slot_turn \<lparr>max_concurrent = 1, no_threads = False\<rparr> False False (a_slots demo_admitted)) = SlotWait"
proof -
  have c: "card {i. a_callers demo_admitted i = Admitted} = 1" by (simp add: demo_admitted_def)
  show ?thesis
    using slots_bounded [OF demo_admitted_reached [of "\<lparr>max_concurrent = 1, no_threads = False\<rparr>"]]
      demo_admitted_reached c by (simp add: slot_max_def)
qed

section \<open>Asynchronous tasks\<close>

record astools_task =
  t_done :: bool
  t_cancelled :: bool
  t_verdict :: astools_err
  t_result :: astools_result

definition task_main_end :: "astools_err \<Rightarrow> astools_result \<Rightarrow> astools_task \<Rightarrow> astools_task" where
  "task_main_end v r t = t\<lparr>t_result := r, t_verdict := v, t_done := True\<rparr>"

definition astools_task_cancel :: "astools_task \<Rightarrow> astools_task" where
  "astools_task_cancel t = t\<lparr>t_cancelled := True\<rparr>"

definition no_strings :: "astools_result \<Rightarrow> astools_result" where
  "no_strings r = r\<lparr>r_xcdn := None, r_code := None, r_message := None\<rparr>"

text \<open>
  One look of a wait at the task: the verdict if it returns, what it stores through \<open>out\<close> when the
  caller wants it, and the task; \<open>late\<close> says that the timeout has run out.
\<close>

definition astools_task_wait :: "bool \<Rightarrow> bool \<Rightarrow> astools_task \<Rightarrow> (astools_err option \<times> astools_result option) \<times> astools_task" where
  "astools_task_wait late want t =
     (if \<not> t_done t then (if late then ((Some ASTOOLS_ERR_BUSY, None), t) else ((None, None), t))
      else if want then ((Some (t_verdict t), Some (t_result t)), t\<lparr>t_result := no_strings (t_result t)\<rparr>)
      else ((Some (t_verdict t), None), t))"

datatype task_op = Cancel | Look bool bool

fun task_op_step :: "task_op \<Rightarrow> astools_task \<Rightarrow> (astools_err option \<times> astools_result option) \<times> astools_task" where
  "task_op_step Cancel t = ((None, None), astools_task_cancel t)"
| "task_op_step (Look late want) t = astools_task_wait late want t"

fun task_run :: "task_op list \<Rightarrow> astools_task \<Rightarrow> (astools_err option \<times> astools_result option) list \<times> astools_task" where
  "task_run [] t = ([], t)"
| "task_run (p # ps) t =
     (case task_op_step p t of (r, t) \<Rightarrow> (case task_run ps t of (rs, t) \<Rightarrow> (r # rs, t)))"

definition wanting :: "task_op list \<Rightarrow> nat" where
  "wanting ps = length (filter (\<lambda>p. case p of Look _ w \<Rightarrow> w | Cancel \<Rightarrow> False) ps)"

lemma wanting_simps [simp]:
  "wanting [] = 0" "wanting (Cancel # ps) = wanting ps"
  "wanting (Look l w # ps) = (if w then 1 else 0) + wanting ps"
  by (simp_all add: wanting_def)

lemma no_strings_idem [simp]: "no_strings (no_strings r) = no_strings r"
  by (simp add: no_strings_def)

lemma delivered_later:
  "t_done t \<Longrightarrow> t_result t = no_strings r \<Longrightarrow>
    List.map_filter snd (fst (task_run ps t)) = replicate (wanting ps) (no_strings r)"
proof (induction ps arbitrary: t)
  case (Cons p ps)
  show ?case
  proof (cases p)
    case Cancel
    then show ?thesis using Cons.IH [of "astools_task_cancel t"] Cons.prems
      by (simp add: astools_task_cancel_def map_filter_simps case_prod_beta split: nat.split)
  next
    case (Look late want)
    then show ?thesis using Cons.IH [of t] Cons.IH [of "t\<lparr>t_result := no_strings (t_result t)\<rparr>"] Cons.prems
      by (cases want) (simp_all add: astools_task_wait_def map_filter_simps case_prod_beta split: nat.split)
  qed
qed (simp add: map_filter_simps)

lemma delivered_first:
  "t_done t \<Longrightarrow> List.map_filter snd (fst (task_run ps t)) =
    (case wanting ps of 0 \<Rightarrow> [] | Suc n \<Rightarrow> t_result t # replicate n (no_strings (t_result t)))"
proof (induction ps arbitrary: t)
  case (Cons p ps)
  show ?case
  proof (cases p)
    case Cancel
    then show ?thesis using Cons.IH [of "astools_task_cancel t"] Cons.prems
      by (simp add: astools_task_cancel_def map_filter_simps case_prod_beta split: nat.split)
  next
    case (Look late want)
    then show ?thesis
      using Cons.IH [of t] delivered_later [of "t\<lparr>t_result := no_strings (t_result t)\<rparr>" "t_result t" ps] Cons.prems
      by (cases want) (simp_all add: astools_task_wait_def map_filter_simps case_prod_beta split: nat.split)
  qed
qed (simp add: map_filter_simps)

text \<open>
  Once the invocation has ended, the waits deliver its result: the first that asks for it owns the
  strings, every later one sees the same scalars without them, whatever cancels come between.
\<close>

theorem task_result_once:
  "List.map_filter snd (fst (task_run ps (task_main_end v r t))) =
     (case wanting ps of 0 \<Rightarrow> [] | Suc n \<Rightarrow> r # replicate n (no_strings r))"
  using delivered_first [of "task_main_end v r t" ps] by (simp add: task_main_end_def split: nat.split)

end
