(* ===== verification/As_Frame.thy ===== *)
theory As_Frame
  imports As_Prelude "HOL-Library.Sublist"
begin

text \<open>
  Messages on a pipe: the header-framed payloads of \<^verbatim>\<open>src/process_frame.c\<close> and the lines, the read
  loop and the write loop of \<^verbatim>\<open>src/process_io.c\<close>. The pending buffer is its content; what the
  operating system answers to each poll, read and write is the input of one turn of a loop. The
  interface \<open>framing\<close> is what the read loop needs of a message format; lines and frames provide it.
\<close>

section \<open>Frames\<close>

abbreviation CR :: char where "CR \<equiv> CHR 0x0D"
abbreviation LF :: char where "LF \<equiv> CHR 0x0A"
abbreviation HT :: char where "HT \<equiv> CHR 0x09"

definition HEADER_CAP :: nat where
  "HEADER_CAP = 8192"

definition to_lower :: "char \<Rightarrow> char" where
  "to_lower ch = (if is_upper ch then char_of (chcode ch + 32) else ch)"

definition equal_word :: "string \<Rightarrow> string \<Rightarrow> bool" where
  "equal_word s word \<longleftrightarrow> length word = length s \<and> map to_lower s = word"

definition bad_header_char :: "char \<Rightarrow> bool" where
  "bad_header_char ch \<longleftrightarrow> ch = NUL \<or> chcode ch > 127 \<or> (chcode ch < 32 \<and> ch \<noteq> CR \<and> ch \<noteq> LF \<and> ch \<noteq> HT)"

text \<open>The search for the empty line; \<open>seen\<close> is what was read, newest first. 0 is not found.\<close>

fun scan_header :: "string \<Rightarrow> nat \<Rightarrow> string \<Rightarrow> nat res" where
  "scan_header seen i [] = Inr 0"
| "scan_header seen i (ch # s) =
     (if i \<ge> HEADER_CAP then Inr 0
      else if bad_header_char ch then Inl ASTOOLS_ERR_PROTOCOL
      else if take 4 (ch # seen) = [LF, CR, LF, CR] then Inr (i + 1)
      else scan_header (ch # seen) (i + 1) s)"

text \<open>The index of the next CR LF; the last byte when there is none.\<close>

fun line_end :: "string \<Rightarrow> nat" where
  "line_end (a # b # s) = (if a = CR \<and> b = LF then 0 else 1 + line_end (b # s))"
| "line_end s = 0"

definition is_hsp :: "char \<Rightarrow> bool" where
  "is_hsp ch \<longleftrightarrow> ch = CHR '' '' \<or> ch = HT"

definition trim_hsp :: "string \<Rightarrow> string" where
  "trim_hsp s = rev (dropWhile is_hsp (rev (dropWhile is_hsp s)))"

fun frame_digits :: "nat \<Rightarrow> nat \<Rightarrow> string \<Rightarrow> nat res" where
  "frame_digits cap n [] = Inr n"
| "frame_digits cap n (ch # s) =
     (if \<not> is_digit ch then Inl ASTOOLS_ERR_PROTOCOL
      else if digit_val ch > cap \<or> n > (cap - digit_val ch) div 10 then Inl ASTOOLS_ERR_TOOL
      else frame_digits cap (n * 10 + digit_val ch) s)"

record frame_header =
  have_length :: bool
  have_type :: bool
  frame_length :: nat

text \<open>One header line, without its CR LF.\<close>

definition frame_field :: "nat \<Rightarrow> string \<Rightarrow> frame_header \<Rightarrow> frame_header res" where
  "frame_field cap line h =
     (let name = takeWhile (\<lambda>c. c \<noteq> CHR '':'') line; rest = dropWhile (\<lambda>c. c \<noteq> CHR '':'') line in
      if name = [] \<or> rest = [] then Inl ASTOOLS_ERR_PROTOCOL
      else let val = trim_hsp (tl rest) in
        if equal_word name ''content-length'' then
          (if have_length h \<or> val = [] then Inl ASTOOLS_ERR_PROTOCOL
           else bind_res (frame_digits cap (frame_length h) val) (\<lambda>n.
             if n = 0 then Inl ASTOOLS_ERR_PROTOCOL else Inr (h\<lparr>have_length := True, frame_length := n\<rparr>)))
        else if equal_word name ''content-type'' then
          (if have_type h \<or> (\<not> equal_word val ''application/vscode-jsonrpc; charset=utf-8'' \<and>
                             \<not> equal_word val ''application/vscode-jsonrpc'')
           then Inl ASTOOLS_ERR_PROTOCOL else Inr (h\<lparr>have_type := True\<rparr>))
        else Inl ASTOOLS_ERR_PROTOCOL)"

function frame_fields :: "nat \<Rightarrow> string \<Rightarrow> frame_header \<Rightarrow> frame_header res" where
  "frame_fields cap s h =
     (if length s \<le> 2 then Inr h
      else bind_res (frame_field cap (take (line_end s) s) h) (\<lambda>h'. frame_fields cap (drop (line_end s + 2) s) h'))"
  by pat_completeness auto
termination frame_fields
  by (relation "measure (\<lambda>(cap, s, h). length s)") auto

declare frame_fields.simps [simp del]

text \<open>The payload is copied up to its first NUL, its length reported beside it; \<open>mem\<close> is whether the copy succeeds.\<close>

definition strndup_text :: "string \<Rightarrow> string" where
  "strndup_text s = takeWhile (\<lambda>c. c \<noteq> NUL) s"

definition astools_pp_take_frame :: "bool \<Rightarrow> nat \<Rightarrow> string \<Rightarrow> (string \<times> nat) res \<times> string" where
  "astools_pp_take_frame mem cap b =
     (case scan_header [] 0 b of
        Inl e \<Rightarrow> (Inl e, b)
      | Inr header \<Rightarrow>
          if header = 0 then (Inl (if length b \<ge> HEADER_CAP then ASTOOLS_ERR_PROTOCOL else ASTOOLS_ERR_BUSY), b)
          else case frame_fields cap (take header b) \<lparr>have_length = False, have_type = False, frame_length = 0\<rparr> of
            Inl e \<Rightarrow> (Inl e, b)
          | Inr h \<Rightarrow>
              if \<not> have_length h then (Inl ASTOOLS_ERR_PROTOCOL, b)
              else if frame_length h > length b - header then (Inl ASTOOLS_ERR_BUSY, b)
              else if \<not> mem then (Inl ASTOOLS_ERR_NOMEM, b)
              else (Inr (strndup_text (take (frame_length h) (drop header b)), frame_length h),
                    drop (header + frame_length h) b))"

section \<open>Lines\<close>

definition pp_take_line :: "bool \<Rightarrow> string \<Rightarrow> (string \<times> nat) res \<times> string" where
  "pp_take_line mem b =
     (if LF \<notin> set b then (Inl ASTOOLS_ERR_BUSY, b)
      else if \<not> mem then (Inl ASTOOLS_ERR_NOMEM, b)
      else let line = takeWhile (\<lambda>c. c \<noteq> LF) b in
        (Inr (strndup_text line, length line), drop (length line + 1) b))"

section \<open>The read loop\<close>

datatype pp_why = PP_WHY_NONE | PP_WHY_EOF | PP_WHY_OVERFLOW

definition payload_limit :: "int \<Rightarrow> bool \<Rightarrow> nat" where
  "payload_limit max_output_bytes rpc_lines =
     (let n = (if max_output_bytes > 0 then nat max_output_bytes else 1048576);
          n = (if rpc_lines \<and> n > 1048576 then 1048576 else n)
      in if n > SIZE_MAX - 8192 then SIZE_MAX - 8192 else n)"

datatype os_read = ReadSome string | ReadBusy | ReadError

text \<open>
  What one turn sees: the two looks at the task and at the clock, memory for the message, whether poll
  succeeds, what a read of the output brings when it is ready, memory for the append, and whether the pipe is closed.
\<close>

record read_turn =
  rt_cancelled :: bool
  rt_late :: bool
  rt_mem :: bool
  rt_cancelled_again :: bool
  rt_late_again :: bool
  rt_poll :: bool
  rt_out :: "os_read option"
  rt_append :: bool
  rt_closed :: bool

text \<open>The rest of a turn once no message is buffered: the error that ends the loop, or the grown buffer.\<close>

definition read_more :: "nat \<Rightarrow> read_turn \<Rightarrow> string \<Rightarrow> (astools_err \<times> pp_why) option \<times> string" where
  "read_more cap t b =
     (if rt_cancelled_again t then (Some (ASTOOLS_ERR_CANCELLED, PP_WHY_NONE), b)
      else if rt_late_again t then (Some (ASTOOLS_ERR_TIMEOUT, PP_WHY_NONE), b)
      else if \<not> rt_poll t then (Some (ASTOOLS_ERR_TOOL, PP_WHY_EOF), b)
      else case rt_out t of
        Some (ReadSome s) \<Rightarrow>
          if s = [] then (Some (ASTOOLS_ERR_TOOL, PP_WHY_EOF), b)
          else if \<not> rt_append t then (Some (ASTOOLS_ERR_NOMEM, PP_WHY_NONE), b)
          else if length (b @ s) > cap then (Some (ASTOOLS_ERR_TOOL, PP_WHY_OVERFLOW), b @ s)
          else if rt_closed t then (Some (ASTOOLS_ERR_TOOL, PP_WHY_EOF), b @ s)
          else (None, b @ s)
      | Some ReadError \<Rightarrow> (Some (ASTOOLS_ERR_TOOL, PP_WHY_EOF), b)
      | _ \<Rightarrow> if rt_closed t then (Some (ASTOOLS_ERR_TOOL, PP_WHY_EOF), b) else (None, b))"

text \<open>The loop over the turns; \<open>None\<close> is still reading when the turns run out.\<close>

fun read_message :: "(bool \<Rightarrow> string \<Rightarrow> (string \<times> nat) res \<times> string) \<Rightarrow> nat \<Rightarrow> read_turn list \<Rightarrow> string
    \<Rightarrow> ((string \<times> nat) res \<times> pp_why) option \<times> string" where
  "read_message take_one cap [] b = (None, b)"
| "read_message take_one cap (t # ts) b =
     (if rt_cancelled t then (Some (Inl ASTOOLS_ERR_CANCELLED, PP_WHY_NONE), b)
      else if rt_late t then (Some (Inl ASTOOLS_ERR_TIMEOUT, PP_WHY_NONE), b)
      else case take_one (rt_mem t) b of
        (Inr m, b) \<Rightarrow> (Some (Inr m, PP_WHY_NONE), b)
      | (Inl e, b) \<Rightarrow>
          if e \<noteq> ASTOOLS_ERR_BUSY
          then (Some (Inl e, if e = ASTOOLS_ERR_TOOL then PP_WHY_OVERFLOW else PP_WHY_NONE), b)
          else case read_more cap t b of
            (Some (e, why), b) \<Rightarrow> (Some (Inl e, why), b)
          | (None, b) \<Rightarrow> read_message take_one cap ts b)"

definition astools_pp_read_line :: "nat \<Rightarrow> read_turn list \<Rightarrow> string \<Rightarrow> ((string \<times> nat) res \<times> pp_why) option \<times> string" where
  "astools_pp_read_line limit = read_message pp_take_line (limit + 8192)"

definition astools_pp_read_frame :: "nat \<Rightarrow> read_turn list \<Rightarrow> string \<Rightarrow> ((string \<times> nat) res \<times> pp_why) option \<times> string" where
  "astools_pp_read_frame limit = read_message (\<lambda>mem. astools_pp_take_frame mem limit) (limit + 8192)"

section \<open>The write loop\<close>

record write_turn =
  wt_cancelled :: bool
  wt_late :: bool
  wt_poll :: bool
  wt_out :: "os_read option"
  wt_append :: bool
  wt_in :: "nat res option"

record writer =
  w_off :: nat
  w_nl_done :: bool
  w_pending :: string
  w_sent :: string

text \<open>Early output of the child is buffered for the read loop.\<close>

definition write_early :: "nat \<Rightarrow> write_turn \<Rightarrow> writer \<Rightarrow> (astools_err \<times> pp_why) option \<times> writer" where
  "write_early cap t w =
     (case wt_out t of
        Some (ReadSome s) \<Rightarrow>
          if s = [] then (Some (ASTOOLS_ERR_TOOL, PP_WHY_EOF), w)
          else if \<not> wt_append t then (Some (ASTOOLS_ERR_NOMEM, PP_WHY_NONE), w)
          else if length (w_pending w @ s) > cap then (Some (ASTOOLS_ERR_TOOL, PP_WHY_OVERFLOW), w\<lparr>w_pending := w_pending w @ s\<rparr>)
          else (None, w\<lparr>w_pending := w_pending w @ s\<rparr>)
      | _ \<Rightarrow> (None, w))"

text \<open>What the pipe accepted: the first \<open>n\<close> bytes of what was offered.\<close>

definition write_some :: "string \<Rightarrow> write_turn \<Rightarrow> writer \<Rightarrow> (astools_err \<times> pp_why) option \<times> writer" where
  "write_some msg t w =
     (case wt_in t of
        None \<Rightarrow> (None, w)
      | Some (Inl e) \<Rightarrow> (if e = ASTOOLS_ERR_BUSY then None else Some (ASTOOLS_ERR_TOOL, PP_WHY_EOF), w)
      | Some (Inr n) \<Rightarrow>
          if w_off w < length msg
          then (None, w\<lparr>w_off := w_off w + n, w_sent := w_sent w @ take n (drop (w_off w) msg)\<rparr>)
          else (None, w\<lparr>w_nl_done := w_nl_done w \<or> n > 0, w_sent := w_sent w @ take n [LF]\<rparr>))"

fun write_loop :: "nat \<Rightarrow> string \<Rightarrow> write_turn list \<Rightarrow> writer \<Rightarrow> (astools_err \<times> pp_why) option \<times> writer" where
  "write_loop cap msg [] w =
     (if w_off w < length msg \<or> \<not> w_nl_done w then (None, w) else (Some (ASTOOLS_OK, PP_WHY_NONE), w))"
| "write_loop cap msg (t # ts) w =
     (if \<not> (w_off w < length msg \<or> \<not> w_nl_done w) then (Some (ASTOOLS_OK, PP_WHY_NONE), w)
      else if wt_cancelled t then (Some (ASTOOLS_ERR_CANCELLED, PP_WHY_NONE), w)
      else if wt_late t then (Some (ASTOOLS_ERR_TIMEOUT, PP_WHY_NONE), w)
      else if \<not> wt_poll t then (Some (ASTOOLS_ERR_TOOL, PP_WHY_EOF), w)
      else case write_early cap t w of
        (Some x, w) \<Rightarrow> (Some x, w)
      | (None, w) \<Rightarrow>
          (case write_some msg t w of
             (Some x, w) \<Rightarrow> (Some x, w)
           | (None, w) \<Rightarrow> write_loop cap msg ts w))"

definition write_message :: "nat \<Rightarrow> string \<Rightarrow> bool \<Rightarrow> write_turn list \<Rightarrow> string \<Rightarrow> (astools_err \<times> pp_why) option \<times> writer" where
  "write_message limit msg newline ts pending =
     write_loop (limit + 8192) msg ts
       \<lparr>w_off = 0, w_nl_done = (\<not> newline \<or> (msg \<noteq> [] \<and> last msg = LF)), w_pending = pending, w_sent = []\<rparr>"

definition frame_header_text :: "nat \<Rightarrow> string" where
  "frame_header_text n = ''Content-Length: '' @ dec_str n @ [CR, LF, CR, LF]"

text \<open>The header and then the payload, each by the write loop; a 64-bit length needs less than the 80 bytes.\<close>

definition astools_pp_write_frame :: "nat \<Rightarrow> string \<Rightarrow> write_turn list \<Rightarrow> write_turn list \<Rightarrow> string
    \<Rightarrow> (astools_err \<times> pp_why) option \<times> string \<times> string" where
  "astools_pp_write_frame limit json ts us pending =
     (if length (frame_header_text (length json)) \<ge> 80 then (Some (ASTOOLS_ERR_TOOL, PP_WHY_NONE), [], pending)
      else case write_message limit (frame_header_text (length json)) False ts pending of
        (Some (ASTOOLS_OK, _), w) \<Rightarrow>
          (case write_message limit json False us (w_pending w) of (r, v) \<Rightarrow> (r, w_sent w @ w_sent v, w_pending v))
      | (r, w) \<Rightarrow> (r, w_sent w, w_pending w))"

section \<open>Reading a frame\<close>

text \<open>A stretch without line feeds cannot end a header.\<close>

definition plain :: "string \<Rightarrow> bool" where
  "plain s \<longleftrightarrow> list_all (\<lambda>c. \<not> bad_header_char c \<and> c \<noteq> LF \<and> c \<noteq> CR) s"

lemma plain_simps [simp]:
  "plain []" "plain (c # s) \<longleftrightarrow> \<not> bad_header_char c \<and> c \<noteq> LF \<and> c \<noteq> CR \<and> plain s"
  "plain (s @ t) \<longleftrightarrow> plain s \<and> plain t"
  by (auto simp: plain_def)

lemma plain_prefix: "prefix p s \<Longrightarrow> plain s \<Longrightarrow> plain p"
  by (auto simp: prefix_def)

lemma scan_plain:
  "plain xs \<Longrightarrow> i + length xs \<le> HEADER_CAP \<Longrightarrow>
    scan_header seen i (xs @ s) = scan_header (rev xs @ seen) (i + length xs) s"
  by (induction xs arbitrary: seen i) auto

lemma good_crlf [simp]: "\<not> bad_header_char CR" "\<not> bad_header_char LF"
  by (simp_all add: bad_header_char_def NUL_def chcode_def)

lemma scan_found:
  assumes "plain xs" "xs \<noteq> []" "length xs + 4 \<le> HEADER_CAP"
  shows "scan_header [] 0 (xs @ [CR, LF, CR, LF] @ s) = Inr (length xs + 4)"
proof -
  obtain y ys where r: "rev xs = y # ys" using assms(2) by (cases "rev xs") auto
  then have "y \<in> set xs" by (metis list.set_intros(1) set_rev)
  then have y: "y \<noteq> LF" "y \<noteq> CR" using assms(1) by (auto simp: plain_def list_all_iff)
  show ?thesis using scan_plain [OF assms(1), of 0 "[]" "[CR, LF, CR, LF] @ s"] assms(3) r y by simp
qed

lemma scan_short:
  assumes "plain xs" "xs \<noteq> []" "length xs + 4 \<le> HEADER_CAP" "strict_prefix p (xs @ [CR, LF, CR, LF])"
  shows "scan_header [] 0 p = Inr 0"
proof (cases "length p \<le> length xs")
  case True
  then have "prefix p xs" using assms(4) by (auto simp: strict_prefix_def prefix_append)
  then have "plain p" using assms(1) by (rule plain_prefix)
  then show ?thesis using scan_plain [of p 0 "[]" "[]"] True assms(3) by simp
next
  case False
  obtain y ys where r: "rev xs = y # ys" using assms(2) by (cases "rev xs") auto
  then have "y \<in> set xs" by (metis list.set_intros(1) set_rev)
  then have y: "y \<noteq> LF" "y \<noteq> CR" using assms(1) by (auto simp: plain_def list_all_iff)
  from False assms(4) obtain q where q: "p = xs @ q" "strict_prefix q [CR, LF, CR, LF]"
    by (auto simp: strict_prefix_def prefix_append dest: prefix_length_le)
  then consider "q = []" | "q = [CR]" | "q = [CR, LF]" | "q = [CR, LF, CR]"
    by (auto simp: strict_prefix_def prefix_Cons)
  then show ?thesis
    using scan_plain [OF assms(1), of 0 "[]" q] assms(3) r y q(1) by cases simp_all
qed

lemma line_end_crlf: "CR \<notin> set xs \<Longrightarrow> line_end (xs @ CR # LF # s) = length xs"
proof (induction xs)
  case (Cons x xs)
  then show ?case by (cases xs) auto
qed simp

lemma frame_digits_value:
  "list_all is_digit ds \<Longrightarrow> n * 10 ^ length ds + dec_val ds \<le> cap \<Longrightarrow>
    frame_digits cap n ds = Inr (n * 10 ^ length ds + dec_val ds)"
proof (induction ds arbitrary: n)
  case (Cons d ds)
  have eq: "n * 10 ^ length (d # ds) + dec_val (d # ds) = (n * 10 + digit_val d) * 10 ^ length ds + dec_val ds"
    by (simp add: dec_val_Cons algebra_simps)
  have "n * 10 + digit_val d \<le> (n * 10 + digit_val d) * 10 ^ length ds" by simp
  then have le: "n * 10 + digit_val d \<le> cap" using Cons.prems(2) unfolding eq by linarith
  then have "\<not> (digit_val d > cap \<or> n > (cap - digit_val d) div 10)" by linarith
  then show ?case using Cons.IH [of "n * 10 + digit_val d"] Cons.prems unfolding eq by simp
qed simp

abbreviation no_header :: frame_header where
  "no_header \<equiv> \<lparr>have_length = False, have_type = False, frame_length = 0\<rparr>"

lemma digit_plain: "is_digit c \<Longrightarrow> \<not> bad_header_char c \<and> c \<noteq> LF \<and> c \<noteq> CR"
  by (auto simp: is_digit_def bad_header_char_def NUL_def chcode_def)

lemma digits_plain: "list_all is_digit ds \<Longrightarrow> plain ds"
  using digit_plain by (auto simp: plain_def list_all_iff)

lemma plain_length_line: "plain (''Content-Length: '' @ dec_str n)"
proof -
  have "plain ''Content-Length: ''" by code_simp
  then show ?thesis using digits_plain [OF dec_str_digits] plain_simps(3) by blast
qed

lemma trim_number: "list_all is_digit ds \<Longrightarrow> ds \<noteq> [] \<Longrightarrow> trim_hsp (CHR '' '' # ds) = ds"
proof -
  assume ds: "list_all is_digit ds" "ds \<noteq> []"
  have no: "\<not> is_hsp c" if "is_digit c" for c using that by (auto simp: is_hsp_def is_digit_def chcode_def)
  have "is_digit (hd ds)" "is_digit (hd (rev ds))"
    using ds by (auto simp: list_all_iff hd_rev)
  then have "dropWhile is_hsp ds = ds" "dropWhile is_hsp (rev ds) = rev ds"
    using no [of "hd ds"] no [of "hd (rev ds)"] ds(2) by (auto simp: dropWhile_eq_self_iff)
  then show ?thesis by (simp add: trim_hsp_def is_hsp_def)
qed

lemma frame_field_length:
  assumes "0 < n" "n \<le> cap"
  shows "frame_field cap (''Content-Length: '' @ dec_str n) no_header =
    Inr \<lparr>have_length = True, have_type = False, frame_length = n\<rparr>"
proof -
  have w: "equal_word ''Content-Length'' ''content-length''"
    by code_simp
  have d: "frame_digits cap 0 (dec_str n) = Inr n"
    using frame_digits_value [of "dec_str n" 0 cap] assms by simp
  show ?thesis using assms w d
    by (simp add: frame_field_def trim_number Let_def)
qed

lemma header_bound: "n < 10 ^ 30 \<Longrightarrow> length (''Content-Length: '' @ dec_str n) + 4 \<le> 50"
  using length_dec_str_le [of 30 n] by simp

lemma frame_fields_length:
  assumes "0 < n" "n \<le> cap"
  shows "frame_fields cap (frame_header_text n) no_header = Inr \<lparr>have_length = True, have_type = False, frame_length = n\<rparr>"
proof -
  let ?l = "''Content-Length: '' @ dec_str n"
  have cr: "CR \<notin> set ?l" using plain_length_line [of n] by (auto simp: plain_def list_all_iff)
  have t: "frame_header_text n = ?l @ CR # LF # [CR, LF]" by (simp add: frame_header_text_def)
  have e: "line_end (frame_header_text n) = length ?l" unfolding t by (rule line_end_crlf [OF cr])
  have "take (line_end (frame_header_text n)) (frame_header_text n) = ?l"
    "drop (line_end (frame_header_text n) + 2) (frame_header_text n) = [CR, LF]"
    unfolding e unfolding t by (simp_all del: append.simps)
  then show ?thesis
    using frame_field_length [OF assms] frame_fields.simps [of cap "[CR, LF]"]
    by (subst frame_fields.simps) (simp add: frame_header_text_def)
qed

text \<open>The frames the writer makes: text payloads of at most \<open>limit\<close> bytes.\<close>

definition frame_text :: "string \<Rightarrow> string" where
  "frame_text m = frame_header_text (length m) @ m"

definition frame_ok :: "nat \<Rightarrow> string \<Rightarrow> bool" where
  "frame_ok limit m \<longleftrightarrow> m \<noteq> [] \<and> nul_free m \<and> length m \<le> limit \<and> length m \<le> SIZE_MAX"

lemma strndup_nul_free: "nul_free m \<Longrightarrow> strndup_text m = m"
  by (auto simp: strndup_text_def nul_free_def takeWhile_eq_all_conv)

lemma frame_ok_header:
  assumes "frame_ok limit m"
  shows "length (''Content-Length: '' @ dec_str (length m)) + 4 \<le> HEADER_CAP"
proof -
  have "length m < 10 ^ 30" using assms by (simp add: frame_ok_def SIZE_MAX_def)
  from header_bound [OF this] show ?thesis by (simp add: HEADER_CAP_def)
qed

lemma frame_scan:
  assumes "frame_ok limit m"
  shows "scan_header [] 0 (frame_header_text (length m) @ s) = Inr (length (frame_header_text (length m)))"
  using scan_found [OF plain_length_line _ frame_ok_header [OF assms], of s] by (simp add: frame_header_text_def)

lemma take_frame_text:
  assumes ok: "frame_ok limit m"
  shows "astools_pp_take_frame True limit (frame_text m @ r) = (Inr (m, length m), r)"
proof -
  have m: "0 < length m" "length m \<le> limit" "nul_free m" using ok by (auto simp: frame_ok_def)
  have h: "frame_header_text n \<noteq> []" for n by (simp add: frame_header_text_def)
  show ?thesis
    using frame_scan [OF ok, of "m @ r"] frame_fields_length [OF m(1,2)] h strndup_nul_free [OF m(3)]
    by (simp add: astools_pp_take_frame_def frame_text_def)
qed

lemma take_frame_short:
  assumes ok: "frame_ok limit m" and p: "strict_prefix p (frame_text m)"
  shows "astools_pp_take_frame mem limit p = (Inl ASTOOLS_ERR_BUSY, p)"
proof -
  let ?h = "frame_header_text (length m)"
  have m: "0 < length m" "length m \<le> limit" using ok by (auto simp: frame_ok_def)
  have hc: "length ?h \<le> HEADER_CAP" using frame_ok_header [OF ok] by (simp add: frame_header_text_def)
  show ?thesis
  proof (cases "strict_prefix p ?h")
    case True
    have "scan_header [] 0 p = Inr 0"
      by (rule scan_short [OF plain_length_line _ frame_ok_header [OF ok]]) (use True in \<open>simp_all add: frame_header_text_def\<close>)
    moreover have "length p < HEADER_CAP" using prefix_length_less [OF True] hc by simp
    ultimately show ?thesis by (simp add: astools_pp_take_frame_def)
  next
    case False
    then obtain q where q: "p = ?h @ q" "strict_prefix q m"
      using p m(1) by (auto simp: frame_text_def strict_prefix_def prefix_append)
    have "?h \<noteq> []" by (simp add: frame_header_text_def)
    then show ?thesis
      using frame_scan [OF ok, of q] frame_fields_length [OF m] prefix_length_less [OF q(2)] q(1)
      by (simp add: astools_pp_take_frame_def)
  qed
qed

section \<open>What an accepted frame is\<close>

lemma scan_header_sound:
  "scan_header seen i s = Inr k \<Longrightarrow> k \<noteq> 0 \<Longrightarrow>
    i < k \<and> k \<le> i + length s \<and> k \<le> HEADER_CAP \<and> take 4 (rev (take (k - i) s) @ seen) = [LF, CR, LF, CR]"
proof (induction seen i s rule: scan_header.induct)
  case (2 seen i ch s)
  show ?case
  proof (cases "take 4 (ch # seen) = [LF, CR, LF, CR]")
    case True
    then have "k = i + 1" "i < HEADER_CAP" using "2.prems" by (auto split: if_splits)
    then show ?thesis using True by simp
  next
    case False
    with "2.prems" have "\<not> i \<ge> HEADER_CAP" "\<not> bad_header_char ch" "scan_header (ch # seen) (i + 1) s = Inr k"
      by (auto split: if_splits)
    from "2.IH" [OF this(1,2) False this(3) "2.prems"(2)]
    have ih: "i + 1 < k" "k \<le> i + 1 + length s" "k \<le> HEADER_CAP"
      "take 4 (rev (take (k - (i + 1)) s) @ ch # seen) = [LF, CR, LF, CR]" by auto
    then have "take (k - i) (ch # s) = ch # take (k - (i + 1)) s" by (simp add: take_Cons')
    then show ?thesis using ih by simp
  qed
qed simp

lemma frame_digits_le: "frame_digits cap n s = Inr k \<Longrightarrow> n \<le> cap \<Longrightarrow> k \<le> cap"
proof (induction cap n s rule: frame_digits.induct)
  case (2 cap n ch s)
  then have d: "is_digit ch" "\<not> (digit_val ch > cap \<or> n > (cap - digit_val ch) div 10)"
    "frame_digits cap (n * 10 + digit_val ch) s = Inr k" by (auto split: if_splits)
  then have "n * 10 + digit_val ch \<le> cap" by linarith
  with "2.IH" d show ?case by blast
qed simp

definition header_inv :: "nat \<Rightarrow> frame_header \<Rightarrow> bool" where
  "header_inv cap h \<longleftrightarrow> frame_length h \<le> cap \<and> (have_length h \<longrightarrow> 0 < frame_length h)"

lemma frame_field_inv: "frame_field cap line h = Inr h' \<Longrightarrow> header_inv cap h \<Longrightarrow> header_inv cap h'"
  by (auto simp: frame_field_def Let_def header_inv_def bind_res_Inr_iff dest: frame_digits_le split: if_splits)

lemma frame_fields_inv: "frame_fields cap s h = Inr h' \<Longrightarrow> header_inv cap h \<Longrightarrow> header_inv cap h'"
proof (induction cap s h rule: frame_fields.induct)
  case (1 cap s h)
  show ?case
  proof (cases "length s \<le> 2")
    case True
    then show ?thesis using "1.prems" by (simp add: frame_fields.simps [of cap s h])
  next
    case False
    with "1.prems"(1) obtain g where g: "frame_field cap (take (line_end s) s) h = Inr g"
      "frame_fields cap (drop (line_end s + 2) s) g = Inr h'"
      by (auto simp: frame_fields.simps [of cap s h] bind_res_Inr_iff)
    show ?thesis by (rule "1.IH" [OF False g(2) frame_field_inv [OF g(1) "1.prems"(2)]])
  qed
qed

text \<open>What a header says: its lines, each ended by CR LF, then the empty line; a line has a name, a colon and a value.\<close>

definition header_text :: "string list \<Rightarrow> string" where
  "header_text ls = concat (map (\<lambda>l. l @ [CR, LF]) ls) @ [CR, LF]"

definition field_name :: "string \<Rightarrow> string" where
  "field_name l = map to_lower (takeWhile (\<lambda>c. c \<noteq> CHR '':'') l)"

definition field_value :: "string \<Rightarrow> string" where
  "field_value l = trim_hsp (tl (dropWhile (\<lambda>c. c \<noteq> CHR '':'') l))"

definition announces :: "string \<Rightarrow> nat \<Rightarrow> bool" where
  "announces l n \<longleftrightarrow> field_name l = ''content-length'' \<and> CHR '':'' \<in> set l \<and>
     field_value l \<noteq> [] \<and> list_all is_digit (field_value l) \<and> dec_val (field_value l) = n"

lemma frame_digits_exact:
  "frame_digits cap n s = Inr k \<Longrightarrow> list_all is_digit s \<and> k = n * 10 ^ length s + dec_val s"
proof (induction cap n s rule: frame_digits.induct)
  case (2 cap n ch s)
  then have d: "is_digit ch" "\<not> (digit_val ch > cap \<or> n > (cap - digit_val ch) div 10)"
    "frame_digits cap (n * 10 + digit_val ch) s = Inr k" by (auto split: if_splits)
  with "2.IH" have "list_all is_digit s" "k = (n * 10 + digit_val ch) * 10 ^ length s + dec_val s" by blast+
  with d(1) show ?case by (simp add: dec_val_Cons algebra_simps)
qed simp

lemma dropWhile_colon: "dropWhile (\<lambda>c. c \<noteq> CHR '':'') l \<noteq> [] \<Longrightarrow> CHR '':'' \<in> set l"
  by (auto simp: dropWhile_eq_Nil_conv)

lemma frame_field_reads:
  assumes "frame_field cap l h = Inr g" "\<not> have_length h \<longrightarrow> frame_length h = 0"
  shows "field_name l = ''content-length'' \<and> \<not> have_length h \<and> have_length g \<and> have_type g = have_type h \<and>
      announces l (frame_length g) \<or>
    field_name l = ''content-type'' \<and> \<not> have_type h \<and> have_type g \<and> have_length g = have_length h \<and>
      frame_length g = frame_length h"
  using assms
  by (auto simp: frame_field_def Let_def bind_res_Inr_iff announces_def field_name_def field_value_def equal_word_def
      dest!: frame_digits_exact dropWhile_colon split: if_splits)

lemma line_end_bound: "line_end s \<le> length s"
  by (induction s rule: line_end.induct) auto

text \<open>In a text that ends in CR LF the first line ends at the first CR LF.\<close>

lemma line_end_first:
  "suffix [CR, LF] s \<Longrightarrow> s = take (line_end s) s @ [CR, LF] @ drop (line_end s + 2) s \<and>
    \<not> sublist [CR, LF] (take (line_end s) s)"
proof (induction s rule: line_end.induct)
  case (1 a b s)
  show ?case
  proof (cases "a = CR \<and> b = LF")
    case False
    from "1.prems" have suf: "suffix [CR, LF] (b # s)" using False by (cases s) (auto simp: suffix_Cons)
    note ih = "1.IH" [OF False suf]
    have "\<not> prefix [CR, LF] (a # take (line_end (b # s)) (b # s))"
      using False by (cases "line_end (b # s)") auto
    with ih False show ?thesis by (auto simp: sublist_Cons_right)
  qed simp
qed (auto simp: suffix_def append_eq_Cons_conv)

lemma below_four:
  "length q < 4 \<Longrightarrow> q = [] \<or> (\<exists>a. q = [a]) \<or> (\<exists>a b. q = [a, b]) \<or> (\<exists>a b c. q = [a, b, c])"
  by (auto simp: numeral_eq_Suc less_Suc_eq length_Suc_conv)

lemma line_end_rest:
  assumes "suffix [CR, LF, CR, LF] s" "s = l @ [CR, LF] @ r \<and> \<not> sublist [CR, LF] l"
  shows "r = [CR, LF] \<or> suffix [CR, LF, CR, LF] r"
proof (cases "length r < 4")
  case True
  from assms obtain x where "l @ [CR, LF] @ r = x @ [CR, LF, CR, LF]" by (auto simp: suffix_def)
  from arg_cong [OF this, of rev] have r: "rev r @ LF # CR # rev l = LF # CR # LF # CR # rev x" by simp
  have l: "rev l \<noteq> LF # CR # y" for y
  proof
    assume "rev l = LF # CR # y"
    from arg_cong [OF this, of rev] have "l = rev y @ [CR, LF]" by simp
    with assms(2) show False by simp
  qed
  have "length (rev r) < 4" using True by simp
  from below_four [OF this] consider "rev r = []" | a where "rev r = [a]" | a b where "rev r = [a, b]" | a b c where "rev r = [a, b, c]"
    by blast
  then show ?thesis
  proof cases
    case (3 a b)
    with r have "rev r = [LF, CR]" by simp
    from arg_cong [OF this, of rev] have "r = [CR, LF]" by simp
    then show ?thesis by simp
  qed (use r l in auto)
next
  case False
  then show ?thesis using assms suffix_length_suffix [of "[CR, LF, CR, LF]" s r] by (auto simp: suffix_def)
qed

definition header_lines :: "frame_header \<Rightarrow> string list \<Rightarrow> frame_header \<Rightarrow> bool" where
  "header_lines h ls h' \<longleftrightarrow>
     list_all (\<lambda>l. \<not> sublist [CR, LF] l) ls \<and> distinct (map field_name ls) \<and>
     set (map field_name ls) \<subseteq> {''content-length'', ''content-type''} \<and>
     (have_length h \<longrightarrow> ''content-length'' \<notin> set (map field_name ls) \<and> frame_length h' = frame_length h) \<and>
     (have_type h \<longrightarrow> ''content-type'' \<notin> set (map field_name ls)) \<and>
     (\<not> have_length h \<and> have_length h' \<longrightarrow> list_ex (\<lambda>l. announces l (frame_length h')) ls)"

lemma header_lines_length:
  assumes "header_lines g ls h'" "\<not> sublist [CR, LF] l" "field_name l = ''content-length''" "\<not> have_length h" "have_length g"
    and "have_type g = have_type h" "announces l (frame_length g)"
  shows "header_lines h (l # ls) h'"
  using assms by (auto simp: header_lines_def)

lemma header_lines_type:
  assumes "header_lines g ls h'" "\<not> sublist [CR, LF] l" "field_name l = ''content-type''" "\<not> have_type h" "have_type g"
    and "have_length g = have_length h" "frame_length g = frame_length h"
  shows "header_lines h (l # ls) h'"
  using assms by (auto simp: header_lines_def)

lemma frame_fields_lines:
  "frame_fields cap s h = Inr h' \<Longrightarrow> s = [CR, LF] \<or> suffix [CR, LF, CR, LF] s \<Longrightarrow>
    (\<not> have_length h \<longrightarrow> frame_length h = 0) \<Longrightarrow> \<exists>ls. s = header_text ls \<and> header_lines h ls h'"
proof (induction cap s h rule: frame_fields.induct)
  case (1 cap s h)
  show ?case
  proof (cases "length s \<le> 2")
    case True
    with "1.prems"(2) have "s = [CR, LF]" by (auto dest: suffix_length_le)
    with True "1.prems"(1) show ?thesis
      by (intro exI [of _ "[]"]) (simp add: header_text_def header_lines_def frame_fields.simps [of cap "[CR, LF]" h])
  next
    case False
    let ?l = "take (line_end s) s" and ?s = "drop (line_end s + 2) s"
    from False "1.prems"(1) obtain g where g: "frame_field cap ?l h = Inr g" "frame_fields cap ?s g = Inr h'"
      by (auto simp: frame_fields.simps [of cap s h] bind_res_Inr_iff)
    have suf: "suffix [CR, LF, CR, LF] s" using "1.prems"(2) False by auto
    then have "suffix [CR, LF] s" by (auto simp: suffix_def)
    note cut = line_end_first [OF this]
    have rest: "?s = [CR, LF] \<or> suffix [CR, LF, CR, LF] ?s" by (rule line_end_rest [OF suf cut])
    note f = frame_field_reads [OF g(1) "1.prems"(3)]
    then have "\<not> have_length g \<longrightarrow> frame_length g = 0" using "1.prems"(3) by argo
    from "1.IH" [OF False g(2) rest this] obtain ls where ls: "?s = header_text ls" "header_lines g ls h'" by blast
    have "header_text (?l # ls) = ?l @ [CR, LF] @ header_text ls" by (simp add: header_text_def)
    then have "s = header_text (?l # ls)" using cut unfolding ls(1) [symmetric] by simp
    moreover have "header_lines h (?l # ls) h'"
      using f header_lines_length [OF ls(2) conjunct2 [OF cut]] header_lines_type [OF ls(2) conjunct2 [OF cut]] by blast
    ultimately show ?thesis by blast
  qed
qed

lemma take_frame_inv:
  assumes "astools_pp_take_frame mem cap b = (Inr (m, n), rest)"
  shows "\<exists>ls body. b = header_text ls @ body @ rest \<and> length body = n \<and> 0 < n \<and> n \<le> cap \<and> m = strndup_text body \<and>
    length (header_text ls) \<le> HEADER_CAP \<and> suffix [CR, LF, CR, LF] (header_text ls) \<and>
    list_all (\<lambda>l. \<not> sublist [CR, LF] l) ls \<and> distinct (map field_name ls) \<and>
    set (map field_name ls) \<subseteq> {''content-length'', ''content-type''} \<and> list_ex (\<lambda>l. announces l n) ls"
proof -
  from assms obtain k h where k: "scan_header [] 0 b = Inr k" "k \<noteq> 0"
    and h: "frame_fields cap (take k b) no_header = Inr h" "have_length h" "frame_length h \<le> length b - k"
    and m: "m = strndup_text (take (frame_length h) (drop k b))" "n = frame_length h" "rest = drop (k + frame_length h) b"
    by (auto simp: astools_pp_take_frame_def split: sum.splits if_splits)
  from scan_header_sound [OF k] have s: "k \<le> length b" "k \<le> HEADER_CAP" "take 4 (rev (take k b)) = [LF, CR, LF, CR]" by auto
  have "header_inv cap h" by (rule frame_fields_inv [OF h(1)]) (simp add: header_inv_def)
  then have n: "0 < n" "n \<le> cap" using h(2) m(2) by (auto simp: header_inv_def)
  have "rev (take k b) = [LF, CR, LF, CR] @ drop 4 (rev (take k b))" using s(3) by (metis append_take_drop_id)
  then have "take k b = rev (drop 4 (rev (take k b))) @ [CR, LF, CR, LF]"
    by (metis rev_append rev_rev_ident rev.simps append.simps append_Nil)
  then have suf: "suffix [CR, LF, CR, LF] (take k b)" unfolding suffix_def by blast
  have "b = take k b @ take n (drop k b) @ drop n (drop k b)" by (simp only: append_take_drop_id)
  then have "b = take k b @ take n (drop k b) @ rest" using m by (simp add: add.commute)
  moreover have "length (take n (drop k b)) = n" using h(3) m(2) s(1) by simp
  moreover obtain ls where "take k b = header_text ls" "list_all (\<lambda>l. \<not> sublist [CR, LF] l) ls"
    "set (map field_name ls) \<subseteq> {''content-length'', ''content-type''}" "distinct (map field_name ls)"
    "list_ex (\<lambda>l. announces l n) ls"
    using frame_fields_lines [OF h(1)] suf h(2) m(2) by (auto simp: header_lines_def)
  ultimately show ?thesis using n suf s(1,2) m(1,2)
    by (intro exI [of _ ls] exI [of _ "take n (drop k b)"]) (metis length_take min.absorb2)
qed

lemma take_frame_error: "astools_pp_take_frame mem cap b = (Inl e, c) \<Longrightarrow> c = b"
  by (auto simp: astools_pp_take_frame_def split: sum.splits if_splits)

text \<open>
  C19: A frame is taken only behind a header of at most 8192 bytes that consists of Content-Length and
  Content-Type lines, each at most once, and an empty line; the payload's length is the positive decimal
  number the one Content-Length line announces, within the limit. Any other answer leaves the buffer as it was.
\<close>

theorem take_frame_sound:
  "case astools_pp_take_frame mem cap b of
     (Inr (m, n), rest) \<Rightarrow> \<exists>ls body. b = header_text ls @ body @ rest \<and> length body = n \<and> 0 < n \<and> n \<le> cap \<and>
       m = strndup_text body \<and> length (header_text ls) \<le> 8192 \<and> suffix [CR, LF, CR, LF] (header_text ls) \<and>
       list_all (\<lambda>l. \<not> sublist [CR, LF] l) ls \<and> distinct (map field_name ls) \<and>
       set (map field_name ls) \<subseteq> {''content-length'', ''content-type''} \<and> list_ex (\<lambda>l. announces l n) ls
   | (Inl e, rest) \<Rightarrow> rest = b"
proof (cases "astools_pp_take_frame mem cap b")
  case (Pair r c)
  then show ?thesis
  proof (cases r)
    case (Inl e)
    then show ?thesis using take_frame_error Pair by simp
  next
    case (Inr x)
    then show ?thesis using take_frame_inv [of mem cap b] Pair by (cases x) (simp add: HEADER_CAP_def)
  qed
qed

section \<open>The interface of the message formats\<close>

text \<open>A turn that brings some output and nothing else.\<close>

definition feed :: "string \<Rightarrow> read_turn" where
  "feed s = \<lparr>rt_cancelled = False, rt_late = False, rt_mem = True, rt_cancelled_again = False, rt_late_again = False,
     rt_poll = True, rt_out = Some (ReadSome s), rt_append = True, rt_closed = False\<rparr>"

lemma feed_simps [simp]:
  "\<not> rt_cancelled (feed s)" "\<not> rt_late (feed s)" "rt_mem (feed s)"
  "read_more cap (feed s) b =
     (if s = [] then (Some (ASTOOLS_ERR_TOOL, PP_WHY_EOF), b)
      else if length (b @ s) > cap then (Some (ASTOOLS_ERR_TOOL, PP_WHY_OVERFLOW), b @ s) else (None, b @ s))"
  by (simp_all add: feed_def read_more_def)

locale framing =
  fixes take_one :: "bool \<Rightarrow> string \<Rightarrow> (string \<times> nat) res \<times> string"
    and enc :: "string \<Rightarrow> string" and ok :: "string \<Rightarrow> bool"
  assumes take_enc: "ok m \<Longrightarrow> take_one True (enc m @ r) = (Inr (m, length m), r)"
    and take_short: "ok m \<Longrightarrow> strict_prefix p (enc m) \<Longrightarrow> take_one mem p = (Inl ASTOOLS_ERR_BUSY, p)"
begin

lemma read_chunks:
  assumes "ok m" "list_all (\<lambda>s. s \<noteq> []) cs" "b @ concat cs = enc m @ r" "length (b @ concat cs) \<le> cap"
    and "cs = [] \<or> length (b @ concat (butlast cs)) < length (enc m)"
    and "\<not> rt_cancelled t" "\<not> rt_late t" "rt_mem t"
  shows "read_message take_one cap (map feed cs @ t # ts) b = (Some (Inr (m, length m), PP_WHY_NONE), r)"
  using assms(2-5)
proof (induction cs arbitrary: b)
  case Nil
  then show ?case using take_enc [OF assms(1), of r] assms(6-8) by simp
next
  case (Cons c cs)
  have "length b < length (enc m)" using Cons.prems(4) by simp
  then have "strict_prefix b (enc m)"
    using Cons.prems(2) prefix_length_prefix [of b "enc m @ r" "enc m"]
    by (auto simp: strict_prefix_def dest: sym [of _ "enc m @ r"])
  note short = take_short [OF assms(1) this, of True]
  have next_cs: "cs = [] \<or> length ((b @ c) @ concat (butlast cs)) < length (enc m)"
    using Cons.prems(4) by (cases cs) auto
  have "read_message take_one cap (map feed cs @ t # ts) (b @ c) = (Some (Inr (m, length m), PP_WHY_NONE), r)"
    by (rule Cons.IH) (use Cons.prems next_cs in auto)
  then show ?case using short Cons.prems(1,3) by simp
qed

text \<open>Messages one after the other: each read leaves the buffer that the next one starts from.\<close>

lemma take_second: "ok m \<Longrightarrow> ok n \<Longrightarrow>
    take_one True (snd (take_one True (enc m @ enc n @ r))) = (Inr (n, length n), r)"
  by (simp add: take_enc)

end

text \<open>Lines: texts without a line feed.\<close>

definition line_text :: "string \<Rightarrow> string" where
  "line_text m = m @ [LF]"

definition line_ok :: "string \<Rightarrow> bool" where
  "line_ok m \<longleftrightarrow> nul_free m \<and> LF \<notin> set m"

lemma line_take: "LF \<notin> set m \<Longrightarrow> takeWhile (\<lambda>c. c \<noteq> LF) (m @ LF # r) = m"
  by (induction m) auto

interpretation line: framing pp_take_line line_text line_ok
proof
  fix m r assume "line_ok m"
  then show "pp_take_line True (line_text m @ r) = (Inr (m, length m), r)"
    by (simp add: pp_take_line_def line_text_def line_ok_def line_take strndup_nul_free Let_def)
next
  fix m p mem assume "line_ok m" "strict_prefix p (line_text m)"
  then have "LF \<notin> set p"
    by (auto simp: line_ok_def line_text_def strict_prefix_def prefix_append prefix_Cons dest: set_mono_prefix)
  then show "pp_take_line mem p = (Inl ASTOOLS_ERR_BUSY, p)" by (simp add: pp_take_line_def)
qed

interpretation frame: framing "\<lambda>mem. astools_pp_take_frame mem limit" frame_text "frame_ok limit" for limit
  by unfold_locales (rule take_frame_text, assumption, rule take_frame_short)

text \<open>
  However the pipe cuts a frame into reads, the loop returns exactly the payload and keeps what
  came after the frame for the next message.
\<close>

theorem frame_read_chunks:
  assumes "frame_ok limit m" "list_all (\<lambda>s. s \<noteq> []) cs" "concat cs = frame_text m @ r"
    and "length (concat cs) \<le> limit + 8192" "length (concat (butlast cs)) < length (frame_text m)"
    and "\<not> rt_cancelled t" "\<not> rt_late t" "rt_mem t"
  shows "astools_pp_read_frame limit (map feed cs @ t # ts) [] = (Some (Inr (m, length m), PP_WHY_NONE), r)"
  unfolding astools_pp_read_frame_def by (rule frame.read_chunks) (use assms in auto)

text \<open>
  However the pipe cuts a line into reads, the loop returns the line without its line feed and keeps the rest.
\<close>

theorem line_read_chunks:
  assumes "line_ok m" "list_all (\<lambda>s. s \<noteq> []) cs" "concat cs = line_text m @ r"
    and "length (concat cs) \<le> limit + 8192" "length (concat (butlast cs)) < length (line_text m)"
    and "\<not> rt_cancelled t" "\<not> rt_late t" "rt_mem t"
  shows "astools_pp_read_line limit (map feed cs @ t # ts) [] = (Some (Inr (m, length m), PP_WHY_NONE), r)"
  unfolding astools_pp_read_line_def by (rule line.read_chunks) (use assms in auto)

section \<open>What the write loop sends\<close>

text \<open>What has been sent is the text up to the offset, and the line feed when one was missing.\<close>

definition writer_inv :: "string \<Rightarrow> bool \<Rightarrow> writer \<Rightarrow> bool" where
  "writer_inv msg need w \<longleftrightarrow>
     w_sent w = take (w_off w) msg @ (if need \<and> w_nl_done w then [LF] else []) \<and>
     (need \<and> w_nl_done w \<longrightarrow> length msg \<le> w_off w) \<and> (need \<or> w_nl_done w)"

lemma write_early_inv: "writer_inv msg need w \<Longrightarrow> writer_inv msg need (snd (write_early cap t w))"
  by (auto simp: write_early_def writer_inv_def split: option.splits os_read.splits)

lemma write_early_same:
  "w_off (snd (write_early cap t w)) = w_off w" "w_nl_done (snd (write_early cap t w)) = w_nl_done w"
  by (auto simp: write_early_def split: option.splits os_read.splits)

lemma take_take_drop: "take a xs @ take b (drop a xs) = take (a + b) xs"
  by (simp add: take_add)

lemma write_some_inv:
  assumes "writer_inv msg need w" "w_off w < length msg \<or> \<not> w_nl_done w"
  shows "writer_inv msg need (snd (write_some msg t w))"
proof (cases "wt_in t")
  case (Some a)
  show ?thesis
  proof (cases a)
    case (Inr n)
    show ?thesis
    proof (cases "w_off w < length msg")
      case True
      then have "\<not> (need \<and> w_nl_done w)" using assms(1) by (auto simp: writer_inv_def)
      then show ?thesis using assms(1) True Some Inr by (auto simp: write_some_def writer_inv_def take_add)
    next
      case False
      then have "\<not> w_nl_done w" "need" using assms by (auto simp: writer_inv_def)
      then show ?thesis using assms(1) False Some Inr
        by (cases n) (auto simp: write_some_def writer_inv_def)
    qed
  qed (use assms Some in \<open>simp add: write_some_def\<close>)
qed (use assms in \<open>simp add: write_some_def\<close>)

lemma write_loop_sent:
  "writer_inv msg need w \<Longrightarrow> write_loop cap msg ts w = (r, v) \<Longrightarrow>
    writer_inv msg need v \<and> (fst (the r) = ASTOOLS_OK \<and> r \<noteq> None \<longrightarrow> length msg \<le> w_off v \<and> w_nl_done v)"
proof (induction cap msg ts w rule: write_loop.induct)
  case (1 cap msg w)
  then show ?case by (auto split: if_splits)
next
  case (2 cap msg t ts w)
  show ?case
  proof (cases "w_off w < length msg \<or> \<not> w_nl_done w")
    case go: True
    obtain x u where e: "write_early cap t w = (x, u)" by force
    obtain y u' where w: "write_some msg t u = (y, u')" by force
    have iu: "writer_inv msg need u" using write_early_inv [OF "2.prems"(1), of cap t] e by simp
    have "w_off u < length msg \<or> \<not> w_nl_done u" using write_early_same [of cap t w] e go by simp
    with write_some_inv [OF iu] w have iu': "writer_inv msg need u'" by (metis snd_conv)
    have errs: "x = Some p \<Longrightarrow> fst p \<noteq> ASTOOLS_OK" for p
      using e by (auto simp: write_early_def split: option.splits os_read.splits if_splits)
    have errs': "y = Some p \<Longrightarrow> fst p \<noteq> ASTOOLS_OK" for p
      using w by (auto simp: write_some_def split: option.splits sum.splits if_splits)
    show ?thesis
    proof (cases "\<not> wt_cancelled t \<and> \<not> wt_late t \<and> wt_poll t \<and> x = None \<and> y = None")
      case True
      then have eq: "write_loop cap msg (t # ts) w = write_loop cap msg ts u'" using go e w by simp
      have g: "\<not> \<not> (w_off w < length msg \<or> \<not> w_nl_done w)" "\<not> wt_cancelled t" "\<not> wt_late t" "\<not> \<not> wt_poll t"
        using True go by auto
      have e': "write_early cap t w = (None, u)" and w': "write_some msg t u = (None, u')" using True e w by auto
      show ?thesis
        using "2.IH" [OF g e' [symmetric] refl w' [symmetric] refl iu'] "2.prems"(2) unfolding eq by blast
    next
      case False
      then show ?thesis using "2.prems" go e w iu iu' errs errs'
        by (auto split: if_splits option.splits)
    qed
  next
    case False
    then show ?thesis using "2.prems" by auto
  qed
qed

lemma write_message_sent:
  assumes "write_message limit msg newline ts pending = (r, v)"
  defines "need \<equiv> newline \<and> (msg = [] \<or> last msg \<noteq> LF)"
  shows "prefix (w_sent v) (msg @ (if need then [LF] else []))"
    and "r = Some (ASTOOLS_OK, why) \<Longrightarrow> w_sent v = msg @ (if need then [LF] else [])"
proof -
  have "writer_inv msg need \<lparr>w_off = 0, w_nl_done = (\<not> newline \<or> (msg \<noteq> [] \<and> last msg = LF)), w_pending = pending, w_sent = []\<rparr>"
    by (auto simp: writer_inv_def need_def)
  from write_loop_sent [OF this] assms(1) have inv: "writer_inv msg need v"
    and ok: "fst (the r) = ASTOOLS_OK \<and> r \<noteq> None \<longrightarrow> length msg \<le> w_off v \<and> w_nl_done v"
    by (auto simp: write_message_def)
  show "prefix (w_sent v) (msg @ (if need then [LF] else []))"
    using inv by (auto simp: writer_inv_def prefix_append take_is_prefix)
  show "w_sent v = msg @ (if need then [LF] else [])" if "r = Some (ASTOOLS_OK, why)"
    using inv ok that by (auto simp: writer_inv_def)
qed

text \<open>
  A message write that ends with success has sent the text and, if a line feed was asked for and
  missing, one line feed; whatever way it ends, what was sent is a prefix of that.
\<close>

theorem write_message_exact:
  assumes "write_message limit msg newline ts pending = (r, v)"
  shows "prefix (w_sent v) (msg @ (if newline \<and> (msg = [] \<or> last msg \<noteq> LF) then [LF] else [])) \<and>
    (r = Some (ASTOOLS_OK, why) \<longrightarrow> w_sent v = msg @ (if newline \<and> (msg = [] \<or> last msg \<noteq> LF) then [LF] else []))"
  using write_message_sent [OF assms] by blast

lemma write_message_ok_why: "write_message limit msg nl ts pd = (Some (ASTOOLS_OK, why), w) \<Longrightarrow> why = PP_WHY_NONE"
proof -
  have "write_loop cap msg ts w = (Some (ASTOOLS_OK, why), v) \<Longrightarrow> why = PP_WHY_NONE" for cap ts w v
    by (induction cap msg ts w rule: write_loop.induct)
      (auto simp: write_early_def write_some_def split: if_splits option.splits os_read.splits sum.splits prod.splits)
  then show "write_message limit msg nl ts pd = (Some (ASTOOLS_OK, why), w) \<Longrightarrow> why = PP_WHY_NONE"
    by (simp add: write_message_def)
qed

lemma concat_butlast_last: "cs \<noteq> [] \<Longrightarrow> concat cs = concat (butlast cs) @ last cs"
  by (induction cs) auto

lemma write_frame_sends:
  assumes "astools_pp_write_frame limit json ts us pd = (Some (ASTOOLS_OK, why), sent, pd')"
  shows "sent = frame_text json"
proof -
  obtain r w where w: "write_message limit (frame_header_text (length json)) False ts pd = (r, w)" by force
  obtain q v where v: "write_message limit json False us (w_pending w) = (q, v)" by force
  from assms w v have r: "\<exists>y. r = Some (ASTOOLS_OK, y)" and q: "q = Some (ASTOOLS_OK, why)" "sent = w_sent w @ w_sent v"
    by (auto simp: astools_pp_write_frame_def split: if_splits option.splits prod.splits astools_err.splits)
  from r obtain y where y: "r = Some (ASTOOLS_OK, y)" by blast
  show ?thesis using write_message_sent(2) [OF w y] write_message_sent(2) [OF v q(1)] q(2) by (simp add: frame_text_def)
qed

text \<open>
  C8: What one side writes as a frame the other side reads: after a successful write of a payload within
  the limit, however the pipe cuts the bytes, the read loop returns the payload and an empty buffer.
\<close>

theorem frame_write_read:
  assumes "astools_pp_write_frame limit json ts us pd = (Some (ASTOOLS_OK, why), sent, pd')" "frame_ok limit json"
    and "list_all (\<lambda>s. s \<noteq> []) cs" "concat cs = sent"
    and "\<not> rt_cancelled t" "\<not> rt_late t" "rt_mem t"
  shows "astools_pp_read_frame limit (map feed cs @ t # vs) [] = (Some (Inr (json, length json), PP_WHY_NONE), [])"
proof -
  have sent: "sent = frame_text json" by (rule write_frame_sends [OF assms(1)])
  have le: "length (frame_text json) \<le> limit + 8192"
    using frame_ok_header [OF assms(2)] assms(2) by (simp add: frame_text_def frame_header_text_def HEADER_CAP_def frame_ok_def)
  have "cs \<noteq> []" using assms(4) sent by (auto simp: frame_text_def frame_header_text_def)
  then have "concat cs = concat (butlast cs) @ last cs" "last cs \<noteq> []"
    using assms(3) by (simp_all add: concat_butlast_last list_all_iff)
  then have "length (concat (butlast cs)) < length (concat cs)" by simp
  then show ?thesis unfolding astools_pp_read_frame_def
    using assms le sent by (intro frame.read_chunks) auto
qed

text \<open>A frame that arrives in two reads, the first ending inside the header.\<close>

definition quiet_write :: "nat \<Rightarrow> write_turn" where
  "quiet_write n = \<lparr>wt_cancelled = False, wt_late = False, wt_poll = True, wt_out = None, wt_append = True, wt_in = Some (Inr n)\<rparr>"

lemma demo_dec: "dec_str 2 = ''2''"
  by code_simp

lemma demo_header: "frame_header_text 2 = ''Content-Length: 2'' @ [CR, LF, CR, LF]"
  by (simp add: frame_header_text_def demo_dec)

theorem frame_read_chunks_witness:
  "astools_pp_read_frame 100 (map feed [''Cont'', ''ent-Length: 2'' @ [CR, LF, CR, LF] @ ''{}''] @ [feed ''x'']) [] =
     (Some (Inr (''{}'', 2), PP_WHY_NONE), [])"
proof -
  have "frame_text ''{}'' = ''Content-Length: 2'' @ [CR, LF, CR, LF] @ ''{}''"
    using demo_header by (simp add: frame_text_def numeral_2_eq_2)
  then show ?thesis
    using frame_read_chunks [of 100 "''{}''" "[''Cont'', ''ent-Length: 2'' @ [CR, LF, CR, LF] @ ''{}'']" "[]" "feed ''x''" "[]"]
    by (simp add: frame_ok_def NUL_def SIZE_MAX_def)
qed

theorem line_read_chunks_witness:
  "astools_pp_read_line 100 (map feed [''ab'', ''c'' @ [LF] @ ''d''] @ [feed ''x'']) [] = (Some (Inr (''abc'', 3), PP_WHY_NONE), ''d'')"
  using line_read_chunks [of "''abc''" "[''ab'', ''c'' @ [LF] @ ''d'']" "''d''" 100 "feed ''x''" "[]"]
  by (simp add: line_ok_def line_text_def NUL_def)

theorem write_message_exact_witness:
  "w_sent (snd (write_message 100 ''ab'' True [quiet_write 1, quiet_write 5, quiet_write 1] [])) = ''ab'' @ [LF]"
proof -
  let ?ts = "[quiet_write 1, quiet_write 5, quiet_write 1]"
  have "fst (write_message 100 ''ab'' True ?ts []) = Some (ASTOOLS_OK, PP_WHY_NONE)"
    by (simp add: write_message_def quiet_write_def write_early_def write_some_def)
  then have "write_message 100 ''ab'' True ?ts [] = (Some (ASTOOLS_OK, PP_WHY_NONE), snd (write_message 100 ''ab'' True ?ts []))"
    by (metis prod.collapse)
  from write_message_exact [OF this] show ?thesis by simp
qed

theorem frame_write_read_witness:
  "\<exists>sent. astools_pp_write_frame 100 ''{}'' [quiet_write 90, quiet_write 1] [quiet_write 90] [] = (Some (ASTOOLS_OK, PP_WHY_NONE), sent, []) \<and>
     astools_pp_read_frame 100 (map feed [sent] @ [feed ''x'']) [] = (Some (Inr (''{}'', 2), PP_WHY_NONE), [])"
proof -
  let ?s = "frame_text ''{}''"
  have t: "frame_header_text (length ''{}'') = ''Content-Length: 2'' @ [CR, LF, CR, LF]"
    using demo_header by (simp add: numeral_2_eq_2)
  have s: "?s = (''Content-Length: 2'' @ [CR, LF, CR, LF]) @ ''{}''" unfolding frame_text_def t ..
  have w: "astools_pp_write_frame 100 ''{}'' [quiet_write 90, quiet_write 1] [quiet_write 90] [] = (Some (ASTOOLS_OK, PP_WHY_NONE), ?s, [])"
    unfolding astools_pp_write_frame_def t s
    by (simp add: write_message_def quiet_write_def write_early_def write_some_def)
  have "?s \<noteq> []" unfolding s by simp
  with frame_write_read [OF w, of "[?s]" "feed ''x''" "[]"] w show ?thesis
    by (intro exI [of _ ?s]) (simp add: frame_ok_def NUL_def SIZE_MAX_def)
qed

end
