(* ===== verification/As_Regex.thy ===== *)
theory As_Regex
  imports As_Prelude
begin

text \<open>
  The regular expressions of the standard tools, \<^verbatim>\<open>std/regex.c\<close>: the parser of the ERE subset. A
  pattern is a string without NUL, a class is its 32-byte bitmap, the tree is \<open>rnode\<close> with the
  chains of \<open>RN_CAT\<close> ending in an absent tail. Messages are the source's; memory suffices.
\<close>

unbundle bit_operations_syntax

section \<open>Limits and trees\<close>

definition RE_MAX_INSTS :: nat where "RE_MAX_INSTS = 4096"
definition RE_MAX_NODES :: nat where "RE_MAX_NODES = 8192"
definition RE_MAX_DEPTH :: nat where "RE_MAX_DEPTH = 100"
definition RE_MAX_COUNT :: nat where "RE_MAX_COUNT = 4096"

datatype rnode =
    RN_EMPTY | RN_CHAR char | RN_CLASS nat | RN_ANY | RN_BOL | RN_EOL
  | RN_CAT rnode "rnode option"
  | RN_ALT rnode rnode
  | RN_REP rnode int int

type_synonym cmap = "byte list"
type_synonym 'a rres = "string + 'a"

record rparse =
  rp_p :: string
  rp_nnodes :: nat
  rp_depth :: nat
  rp_cls :: "cmap list"

definition bindr :: "'a rres \<Rightarrow> ('a \<Rightarrow> 'b rres) \<Rightarrow> 'b rres" where
  "bindr r f = (case r of Inl e \<Rightarrow> Inl e | Inr x \<Rightarrow> f x)"

lemma bindr_simps [simp]: "bindr (Inl e) f = Inl e" "bindr (Inr x) f = f x"
  by (simp_all add: bindr_def)

lemma bindr_Inr_iff: "bindr r f = Inr y \<longleftrightarrow> (\<exists>x. r = Inr x \<and> f x = Inr y)"
  by (cases r) auto

lemma bindr_cong [fundef_cong]:
  "r = r' \<Longrightarrow> (\<And>x. r' = Inr x \<Longrightarrow> f x = f' x) \<Longrightarrow> bindr r f = bindr r' f'"
  by (cases r') simp_all

definition fold_ch :: "bool \<Rightarrow> char \<Rightarrow> char" where
  "fold_ch ci c = (if ci \<and> is_upper c then char_of (chcode c + 32) else c)"

definition node_new :: "rparse \<Rightarrow> rparse rres" where
  "node_new ps = (if rp_nnodes ps \<ge> RE_MAX_NODES then Inl ''pattern too large''
     else Inr (ps\<lparr>rp_nnodes := rp_nnodes ps + 1\<rparr>))"

definition new_leaf :: "rnode \<Rightarrow> rparse \<Rightarrow> (rnode \<times> rparse) rres" where
  "new_leaf n ps = bindr (node_new ps) (\<lambda>ps. Inr (n, ps))"

section \<open>Classes\<close>

definition cls_set :: "nat \<Rightarrow> cmap \<Rightarrow> cmap" where
  "cls_set v m = m[v div 8 := m ! (v div 8) OR push_bit (v mod 8) 1]"

definition cls_has :: "cmap \<Rightarrow> char \<Rightarrow> bool" where
  "cls_has m c \<longleftrightarrow> drop_bit (chcode c mod 8) (m ! (chcode c div 8)) AND 1 = 1"

text \<open>One byte of a range, with its other case when folding; then the range from \<open>lo\<close> up.\<close>

definition cls_set_byte :: "bool \<Rightarrow> nat \<Rightarrow> cmap \<Rightarrow> cmap" where
  "cls_set_byte ci v m =
     (let m = cls_set v m in
      if \<not> ci then m
      else if 65 \<le> v \<and> v \<le> 90 then cls_set (v + 32) m
      else if 97 \<le> v \<and> v \<le> 122 then cls_set (v - 32) m
      else m)"

function cls_set_range :: "bool \<Rightarrow> nat \<Rightarrow> nat \<Rightarrow> cmap \<Rightarrow> cmap" where
  "cls_set_range ci lo hi m = (if lo > hi then m else cls_set_range ci (lo + 1) hi (cls_set_byte ci lo m))"
  by pat_completeness auto
termination cls_set_range
  by (relation "measure (\<lambda>(ci, lo, hi, m). hi + 1 - lo)") auto

declare cls_set_range.simps [simp del]

lemma bit_test: "drop_bit k (b :: byte) AND 1 = 1 \<longleftrightarrow> bit b k"
  by (simp add: and_one_eq bit_iff_odd_drop_bit mod2_eq_if)

lemma length_cls_set [simp]: "length (cls_set v m) = length m"
  by (simp add: cls_set_def)

lemma cls_has_set:
  assumes "length m = 32" "v < 256"
  shows "cls_has (cls_set v m) c \<longleftrightarrow> chcode c = v \<or> cls_has m c"
proof -
  have q: "v div 8 < 32" "chcode c div 8 < 32" using assms(2) chcode_lt [of c]
    by (simp_all add: less_mult_imp_div_less del: chcode_lt)
  have eq: "chcode c = v \<longleftrightarrow> chcode c div 8 = v div 8 \<and> chcode c mod 8 = v mod 8"
    by (metis div_mult_mod_eq)
  have k: "chcode c mod 8 < 8" "v mod 8 < 8" by simp_all
  have one: "bit (push_bit j (1 :: byte)) i \<longleftrightarrow> i = j" if "j < 8" "i < 8" for i j
    using that by (auto simp: bit_exp_iff)
  show ?thesis
  proof (cases "chcode c div 8 = v div 8")
    case True
    then show ?thesis
      unfolding cls_has_def cls_set_def bit_test eq using assms(1) q one [OF k(2,1)] by (simp add: bit_or_iff) blast
  next
    case False
    then show ?thesis unfolding cls_has_def cls_set_def bit_test eq by simp
  qed
qed

text \<open>The bytes that are set for \<open>v\<close>: itself and, when folding, its other case.\<close>

definition same_letter :: "bool \<Rightarrow> nat \<Rightarrow> nat \<Rightarrow> bool" where
  "same_letter ci v x \<longleftrightarrow> x = v \<or> (ci \<and> ((65 \<le> v \<and> v \<le> 90 \<and> x = v + 32) \<or> (97 \<le> v \<and> v \<le> 122 \<and> x + 32 = v)))"

lemma cls_has_byte:
  "length m = 32 \<Longrightarrow> v < 256 \<Longrightarrow> cls_has (cls_set_byte ci v m) c \<longleftrightarrow> same_letter ci v (chcode c) \<or> cls_has m c"
  by (auto simp: cls_set_byte_def cls_has_set same_letter_def Let_def)

lemma range_step:
  assumes "lo \<le> hi"
  shows "(\<exists>v. lo \<le> v \<and> v \<le> hi \<and> Q v) \<longleftrightarrow> Q lo \<or> (\<exists>v. lo + 1 \<le> v \<and> v \<le> hi \<and> Q (v :: nat))"
proof -
  have eq: "lo \<le> v \<longleftrightarrow> v = lo \<or> lo + 1 \<le> v" for v by linarith
  have "(\<exists>v. lo \<le> v \<and> v \<le> hi \<and> Q v) \<longleftrightarrow> (\<exists>v. v = lo \<and> v \<le> hi \<and> Q v) \<or> (\<exists>v. lo + 1 \<le> v \<and> v \<le> hi \<and> Q v)"
    unfolding eq conj_disj_distribR ex_disj_distrib ..
  then show ?thesis using assms by (simp only: simp_thms)
qed

text \<open>
  A range of a bracket class adds exactly the bytes between its ends, in both cases when the
  expression ignores case, to the bitmap.
\<close>

theorem cls_range_exact:
  assumes "length m = 32" "hi < 256"
  shows "cls_has (cls_set_range ci lo hi m) c \<longleftrightarrow> (\<exists>v. lo \<le> v \<and> v \<le> hi \<and> same_letter ci v (chcode c)) \<or> cls_has m c"
  using assms
proof (induction ci lo hi m rule: cls_set_range.induct)
  case (1 ci lo hi m)
  show ?case
  proof (cases "lo > hi")
    case True
    then have "\<not> (lo \<le> v \<and> v \<le> hi)" for v by linarith
    with True show ?thesis by (simp only: cls_set_range.simps [of ci lo hi m]) auto
  next
    case False
    have "length (cls_set_byte ci lo m) = 32" using 1(2) by (simp add: cls_set_byte_def Let_def)
    from 1(1) [OF False this 1(3)] False cls_has_byte [OF 1(2), of lo ci c] 1(3)
    have "cls_has (cls_set_range ci lo hi m) c \<longleftrightarrow>
        (\<exists>v. lo + 1 \<le> v \<and> v \<le> hi \<and> same_letter ci v (chcode c)) \<or> same_letter ci lo (chcode c) \<or> cls_has m c"
      by (simp add: cls_set_range.simps [of ci lo hi m])
    then show ?thesis
      using range_step [of lo hi "\<lambda>v. same_letter ci v (chcode c)"] False by (simp only: not_less) blast
  qed
qed

definition cls_add :: "cmap \<Rightarrow> rparse \<Rightarrow> (nat \<times> rparse) rres" where
  "cls_add m ps = (if length (rp_cls ps) \<ge> 65535 then Inl ''pattern too large''
     else Inr (length (rp_cls ps), ps\<lparr>rp_cls := rp_cls ps @ [m]\<rparr>))"

function class_loop :: "bool \<Rightarrow> bool \<Rightarrow> cmap \<Rightarrow> string \<Rightarrow> (cmap \<times> string) rres" where
  "class_loop ci first m s =
     (let c = cur s in
      if c = NUL then Inl ''unterminated character class (missing ']')''
      else if c = CHR '']'' \<and> \<not> first then Inr (m, tl s)
      else if c = CHR ''['' \<and> cget s 1 = CHR '':'' then Inl ''POSIX [:class:] classes are not supported''
      else if cget s 1 = CHR ''-'' \<and> cget s 2 \<noteq> CHR '']'' \<and> cget s 2 \<noteq> NUL then
        (if chcode c > chcode (cget s 2) then Inl ''invalid range in character class''
         else class_loop ci False (cls_set_range ci (chcode c) (chcode (cget s 2)) m) (drop 3 s))
      else class_loop ci False (cls_set_range ci (chcode c) (chcode c) m) (tl s))"
  by pat_completeness auto
termination class_loop
proof (relation "measure (\<lambda>(ci, first, m, s). length s)", goal_cases)
  case (2 ci first m s c)
  then show ?case by (cases s) auto
next
  case (3 ci first m s c)
  then show ?case by (cases s) auto
qed simp

declare class_loop.simps [simp del]

definition parse_class :: "bool \<Rightarrow> rparse \<Rightarrow> (rnode \<times> rparse) rres" where
  "parse_class ci ps =
     (let s = tl (rp_p ps); neg = (cur s = CHR ''^''); s = (if neg then tl s else s) in
      bindr (class_loop ci True (replicate 32 0) s) (\<lambda>(m, s).
      bindr (cls_add (if neg then map (\<lambda>b. NOT b) m else m) (ps\<lparr>rp_p := s\<rparr>)) (\<lambda>(idx, ps).
      new_leaf (RN_CLASS idx) ps)))"

section \<open>Escapes and repetitions\<close>

definition is_alpha :: "char \<Rightarrow> bool" where
  "is_alpha c \<longleftrightarrow> is_lower c \<or> is_upper c"

definition escape_lit :: "char \<Rightarrow> char rres" where
  "escape_lit e =
     (if e = NUL then Inl ''trailing backslash''
      else if e = CHR ''n'' then Inr (CHR 0x0A)
      else if e = CHR ''t'' then Inr (CHR 0x09)
      else if e = CHR ''r'' then Inr (CHR 0x0D)
      else if e = CHR ''d'' then Inl (''escape '' @ [CHR 0x5C] @ ''d is not supported (use [0-9])'')
      else if e = CHR ''w'' then Inl (''escape '' @ [CHR 0x5C] @ ''w is not supported (use [A-Za-z0-9_])'')
      else if e = CHR ''s'' then Inl (''escape '' @ [CHR 0x5C] @ ''s is not supported (use a bracket class)'')
      else if is_digit e then Inl ''backreferences are not supported''
      else if is_alpha e then Inl ''unsupported escape sequence''
      else Inr e)"

fun uint_loop :: "nat \<Rightarrow> string \<Rightarrow> (nat \<times> string) rres" where
  "uint_loop v [] = Inr (v, [])"
| "uint_loop v (c # s) =
     (if is_digit c then
        (let v = v * 10 + digit_val c in
         if v > RE_MAX_COUNT then Inl ''repetition count too large'' else uint_loop v s)
      else Inr (v, c # s))"

definition parse_uint :: "string \<Rightarrow> (nat \<times> string) rres" where
  "parse_uint s = (if \<not> is_digit (cur s) then Inl ''malformed {m,n} repetition'' else uint_loop 0 s)"

text \<open>A quantifier at the cursor, if there is one: its bounds, \<open>- 1\<close> for none, and what follows it.\<close>

definition parse_bounds :: "string \<Rightarrow> (int \<times> int \<times> string) rres" where
  "parse_bounds s =
     bindr (parse_uint s) (\<lambda>(m, q).
       if cur q = CHR ''}'' then Inr (int m, int m, tl q)
       else if cur q = CHR '','' then
         (let q = tl q in
          if cur q = CHR ''}'' then Inr (int m, - 1, tl q)
          else bindr (parse_uint q) (\<lambda>(n, q).
            if cur q \<noteq> CHR ''}'' then Inl ''malformed {m,n} repetition''
            else if n < m then Inl ''invalid repetition range (m greater than n)''
            else Inr (int m, int n, tl q)))
       else Inl ''malformed {m,n} repetition'')"

definition parse_quant :: "string \<Rightarrow> (int \<times> int \<times> string) option rres" where
  "parse_quant s =
     (let c = cur s in
      if c = CHR ''*'' then Inr (Some (0, - 1, tl s))
      else if c = CHR ''+'' then Inr (Some (1, - 1, tl s))
      else if c = CHR ''?'' then Inr (Some (0, 1, tl s))
      else if c = CHR ''{'' then bindr (parse_bounds (tl s)) (\<lambda>x. Inr (Some x))
      else Inr None)"

lemma tl_shorter: "cur s \<noteq> NUL \<Longrightarrow> length (tl s) < length s"
  by (cases s) auto

lemma uint_loop_length: "uint_loop v s = Inr (n, r) \<Longrightarrow> length r \<le> length s"
  by (induction v s rule: uint_loop.induct) (fastforce simp: Let_def split: if_splits)+

lemma parse_uint_length: "parse_uint s = Inr (n, r) \<Longrightarrow> length r \<le> length s"
  by (auto simp: parse_uint_def dest: uint_loop_length split: if_splits)

lemma parse_bounds_length: "parse_bounds s = Inr (m, n, r) \<Longrightarrow> length r \<le> length s"
  by (auto simp: parse_bounds_def bindr_Inr_iff Let_def dest!: parse_uint_length split: if_splits)

lemma parse_quant_length: "parse_quant s = Inr (Some (m, n, r)) \<Longrightarrow> length r < length s"
proof -
  assume q: "parse_quant s = Inr (Some (m, n, r))"
  then have "cur s \<noteq> NUL" by (auto simp: parse_quant_def NUL_def Let_def)
  from tl_shorter [OF this] q show ?thesis
    by (auto simp: parse_quant_def bindr_Inr_iff Let_def dest!: parse_bounds_length split: if_splits)
qed

function parse_reps :: "rnode \<Rightarrow> rparse \<Rightarrow> (rnode \<times> rparse) rres" where
  "parse_reps atom ps =
     bindr (parse_quant (rp_p ps)) (\<lambda>q.
       case q of None \<Rightarrow> Inr (atom, ps)
       | Some (m, n, s) \<Rightarrow>
           bindr (node_new (ps\<lparr>rp_p := s\<rparr>)) (\<lambda>ps. parse_reps (RN_REP atom m n) ps))"
  by pat_completeness auto
termination parse_reps
  by (relation "measure (\<lambda>(atom, ps). length (rp_p ps))")
    (auto simp: node_new_def dest: parse_quant_length split: if_splits)

declare parse_reps.simps [simp del]

section \<open>The parser\<close>

text \<open>
  An atom is never looked for at the end of the pattern: the loop of \<open>parse_cats\<close> stops there. Its
  first branch stands for the read past the end that this guard excludes.
\<close>

abbreviation stops :: "char \<Rightarrow> bool" where
  "stops c \<equiv> c = NUL \<or> c = CHR ''|'' \<or> c = CHR '')''"

function parse_atom :: "bool \<Rightarrow> rparse \<Rightarrow> (rnode \<times> rparse) rres"
  and parse_piece :: "bool \<Rightarrow> rparse \<Rightarrow> (rnode \<times> rparse) rres"
  and parse_cats :: "bool \<Rightarrow> rparse \<Rightarrow> (rnode option \<times> rparse) rres"
  and parse_concat :: "bool \<Rightarrow> rparse \<Rightarrow> (rnode \<times> rparse) rres"
  and parse_alt :: "bool \<Rightarrow> rparse \<Rightarrow> (rnode \<times> rparse) rres" where
  "parse_atom ci ps =
     (let c = cur (rp_p ps); next_ps = ps\<lparr>rp_p := tl (rp_p ps)\<rparr> in
      if c = NUL then Inl []
      else if c = CHR ''('' then
        (if rp_depth ps \<ge> RE_MAX_DEPTH then Inl ''groups nested too deeply''
         else bindr (parse_alt ci (ps\<lparr>rp_depth := rp_depth ps + 1, rp_p := tl (rp_p ps)\<rparr>)) (\<lambda>(inner, ps).
           if cur (rp_p ps) \<noteq> CHR '')'' then Inl ''unterminated group (missing ')')''
           else Inr (inner, ps\<lparr>rp_p := tl (rp_p ps), rp_depth := rp_depth ps - 1\<rparr>)))
      else if c = CHR ''.'' then new_leaf RN_ANY next_ps
      else if c = CHR ''^'' then new_leaf RN_BOL next_ps
      else if c = CHR ''$'' then new_leaf RN_EOL next_ps
      else if c = CHR ''['' then parse_class ci ps
      else if c = CHR ''*'' \<or> c = CHR ''+'' \<or> c = CHR ''?'' \<or> c = CHR ''{'' then Inl ''quantifier has nothing to repeat''
      else if c = CHR 0x5C then
        bindr (escape_lit (cget (rp_p ps) 1)) (\<lambda>lit. new_leaf (RN_CHAR (fold_ch ci lit)) (ps\<lparr>rp_p := drop 2 (rp_p ps)\<rparr>))
      else new_leaf (RN_CHAR (fold_ch ci c)) next_ps)"
| "parse_piece ci ps = bindr (parse_atom ci ps) (\<lambda>(atom, ps). parse_reps atom ps)"
| "parse_cats ci ps =
     (if stops (cur (rp_p ps)) then Inr (None, ps)
      else bindr (parse_piece ci ps) (\<lambda>(piece, ps).
        bindr (node_new ps) (\<lambda>ps.
        bindr (parse_cats ci ps) (\<lambda>(b, ps). Inr (Some (RN_CAT piece b), ps)))))"
| "parse_concat ci ps =
     bindr (parse_cats ci ps) (\<lambda>(head, ps). case head of None \<Rightarrow> new_leaf RN_EMPTY ps | Some n \<Rightarrow> Inr (n, ps))"
| "parse_alt ci ps =
     bindr (parse_concat ci ps) (\<lambda>(br, ps).
       if cur (rp_p ps) = CHR ''|'' then
         bindr (node_new ps) (\<lambda>ps.
         bindr (parse_alt ci (ps\<lparr>rp_p := tl (rp_p ps)\<rparr>)) (\<lambda>(b, ps). Inr (RN_ALT br b, ps)))
       else Inr (br, ps))"
  by pat_completeness auto

lemma new_leaf_p: "new_leaf n ps = Inr (x, ps') \<Longrightarrow> rp_p ps' = rp_p ps"
  by (auto simp: new_leaf_def node_new_def bindr_Inr_iff split: if_splits)

lemma node_new_p: "node_new ps = Inr ps' \<Longrightarrow> rp_p ps' = rp_p ps"
  by (auto simp: node_new_def split: if_splits)

lemma class_loop_length: "class_loop ci first m s = Inr (m', r) \<Longrightarrow> length r \<le> length s"
proof (induction ci first m s rule: class_loop.induct)
  case (1 ci first m s)
  show ?case using 1 unfolding class_loop.simps [of ci first m s]
    by (cases s) (fastforce simp: Let_def split: if_splits)+
qed

lemma parse_class_length: "cur (rp_p ps) \<noteq> NUL \<Longrightarrow> parse_class ci ps = Inr (x, ps') \<Longrightarrow> length (rp_p ps') < length (rp_p ps)"
proof -
  assume c: "cur (rp_p ps) \<noteq> NUL" and p: "parse_class ci ps = Inr (x, ps')"
  have "length (tl (rp_p ps)) < length (rp_p ps)" "length (tl (tl (rp_p ps))) < length (rp_p ps)"
    using tl_shorter [OF c] by (simp_all del: length_tl add: length_tl)
  with p show ?thesis
    by (auto simp: parse_class_def Let_def bindr_Inr_iff cls_add_def dest!: class_loop_length new_leaf_p split: if_splits)
qed

lemma parse_reps_length: "parse_reps a ps = Inr (x, ps') \<Longrightarrow> length (rp_p ps') \<le> length (rp_p ps)"
proof (induction a ps rule: parse_reps.induct)
  case (1 a ps)
  obtain q where q: "parse_quant (rp_p ps) = Inr q"
    using 1(2) unfolding parse_reps.simps [of a ps] by (auto simp: bindr_Inr_iff)
  show ?case
  proof (cases q)
    case None
    then show ?thesis using 1(2) q unfolding parse_reps.simps [of a ps] by simp
  next
    case (Some y)
    obtain m n s where y: "y = (m, n, s)" by (cases y)
    obtain ps1 where n: "node_new (ps\<lparr>rp_p := s\<rparr>) = Inr ps1" "parse_reps (RN_REP a m n) ps1 = Inr (x, ps')"
      using 1(2) q Some y unfolding parse_reps.simps [of a ps] by (auto simp: bindr_Inr_iff)
    have "length (rp_p ps') \<le> length (rp_p ps1)" using 1(1) [OF q _ _ _ n] Some y by blast
    then show ?thesis using node_new_p [OF n(1)] parse_quant_length [of "rp_p ps" m n s] q Some y by simp
  qed
qed

lemma parse_shorter:
  "parse_atom_parse_piece_parse_cats_parse_concat_parse_alt_dom (Inl (Inl (ci, ps))) \<Longrightarrow>
    parse_atom ci ps = Inr (x, ps') \<Longrightarrow> length (rp_p ps') < length (rp_p ps)"
  "parse_atom_parse_piece_parse_cats_parse_concat_parse_alt_dom (Inl (Inr (ci, ps))) \<Longrightarrow>
    parse_piece ci ps = Inr (x, ps') \<Longrightarrow> length (rp_p ps') < length (rp_p ps)"
  "parse_atom_parse_piece_parse_cats_parse_concat_parse_alt_dom (Inr (Inl (ci, ps))) \<Longrightarrow>
    parse_cats ci ps = Inr (y, ps') \<Longrightarrow> length (rp_p ps') \<le> length (rp_p ps)"
  "parse_atom_parse_piece_parse_cats_parse_concat_parse_alt_dom (Inr (Inr (Inl (ci, ps)))) \<Longrightarrow>
    parse_concat ci ps = Inr (x, ps') \<Longrightarrow> length (rp_p ps') \<le> length (rp_p ps)"
  "parse_atom_parse_piece_parse_cats_parse_concat_parse_alt_dom (Inr (Inr (Inr (ci, ps)))) \<Longrightarrow>
    parse_alt ci ps = Inr (x, ps') \<Longrightarrow> length (rp_p ps') \<le> length (rp_p ps)"
proof (induction arbitrary: x ps' and x ps' and y ps' and x ps' and x ps'
    rule: parse_atom_parse_piece_parse_cats_parse_concat_parse_alt.pinduct)
  case (1 ci ps)
  note e = 1(3) [unfolded parse_atom.psimps [OF 1(1)] Let_def]
  have c: "cur (rp_p ps) \<noteq> NUL" using e by auto
  have tl: "length (tl (rp_p ps)) < length (rp_p ps)" "length (drop 2 (rp_p ps)) < length (rp_p ps)"
    using tl_shorter [OF c] by auto
  show ?case
  proof (cases "cur (rp_p ps) = CHR ''(''")
    case True
    then obtain inner ps1 where a: "\<not> RE_MAX_DEPTH \<le> rp_depth ps"
      "parse_alt ci (ps\<lparr>rp_depth := rp_depth ps + 1, rp_p := tl (rp_p ps)\<rparr>) = Inr (inner, ps1)"
      "rp_p ps' = tl (rp_p ps1)"
      using e c by (auto simp: bindr_Inr_iff split: if_splits)
    from 1(2) [OF refl refl c True a(1,2)] a(3) tl(1) show ?thesis by simp
  next
    case False
    show ?thesis using e c False tl parse_class_length [OF c, of ci x ps']
      by (auto simp: bindr_Inr_iff dest!: new_leaf_p split: if_splits)
  qed
next
  case (2 ci ps)
  then obtain a ps1 where a: "parse_atom ci ps = Inr (a, ps1)" "parse_reps a ps1 = Inr (x, ps')"
    by (auto simp: parse_piece.psimps bindr_Inr_iff)
  from 2(2) [OF a(1)] parse_reps_length [OF a(2)] show ?case by simp
next
  case (3 ci ps)
  show ?case
  proof (cases "stops (cur (rp_p ps))")
    case True
    then show ?thesis using 3(4) by (auto simp: parse_cats.psimps [OF 3(1)])
  next
    case False
    then obtain a ps1 ps2 b where a: "parse_piece ci ps = Inr (a, ps1)" "node_new ps1 = Inr ps2"
      "parse_cats ci ps2 = Inr (b, ps')"
      using 3(4) by (auto simp: parse_cats.psimps [OF 3(1)] bindr_Inr_iff)
    from 3(2) [OF False a(1)] 3(3) [OF False a(1) refl a(2,3)] node_new_p [OF a(2)] show ?thesis by simp
  qed
next
  case (4 ci ps)
  then obtain h ps1 where h: "parse_cats ci ps = Inr (h, ps1)" and r: "rp_p ps' = rp_p ps1"
    by (auto simp: parse_concat.psimps bindr_Inr_iff dest: new_leaf_p split: option.splits)
  from 4(2) [OF h] r show ?case by simp
next
  case (5 ci ps)
  then obtain br ps1 where br: "parse_concat ci ps = Inr (br, ps1)"
    by (auto simp: parse_alt.psimps bindr_Inr_iff)
  note le = 5(2) [OF br]
  show ?case
  proof (cases "cur (rp_p ps1) = CHR ''|''")
    case True
    then obtain ps2 b where b: "node_new ps1 = Inr ps2" "parse_alt ci (ps2\<lparr>rp_p := tl (rp_p ps2)\<rparr>) = Inr (b, ps')"
      using 5(4) br by (auto simp: parse_alt.psimps [OF 5(1)] bindr_Inr_iff)
    from 5(3) [OF br refl True b] le node_new_p [OF b(1)] show ?thesis by simp
  next
    case False
    then show ?thesis using 5(4) br le by (auto simp: parse_alt.psimps [OF 5(1)])
  qed
qed

termination parse_atom
proof (relation "measure (\<lambda>x. case x of Inl (Inl (_, ps)) \<Rightarrow> 5 * length (rp_p ps)
      | Inl (Inr (_, ps)) \<Rightarrow> 5 * length (rp_p ps) + 1 | Inr (Inl (_, ps)) \<Rightarrow> 5 * length (rp_p ps) + 2
      | Inr (Inr (Inl (_, ps))) \<Rightarrow> 5 * length (rp_p ps) + 3 | Inr (Inr (Inr (_, ps))) \<Rightarrow> 5 * length (rp_p ps) + 4)", goal_cases)
  case (2 ci ps c)
  then show ?case using tl_shorter [of "rp_p ps"] by simp
next
  case (5 ci ps x a b xb)
  then show ?case using parse_shorter(2) [of ci ps a b] node_new_p [of b xb] by simp
next
  case (8 ci ps x a b xb)
  have "rp_p b \<noteq> []" using 8 by (auto simp: NUL_def)
  then have "length (tl (rp_p b)) < length (rp_p b)" by (cases "rp_p b") auto
  then show ?case using 8 parse_shorter(4) [of ci ps a b] node_new_p [of b xb] by simp
qed auto

declare parse_atom.simps [simp del] parse_piece.simps [simp del] parse_cats.simps [simp del]
  parse_concat.simps [simp del] parse_alt.simps [simp del]

definition parse_pattern :: "bool \<Rightarrow> string \<Rightarrow> (rnode \<times> rparse) rres" where
  "parse_pattern ci pattern =
     bindr (parse_alt ci \<lparr>rp_p = pattern, rp_nnodes = 0, rp_depth = 0, rp_cls = []\<rparr>) (\<lambda>(root, ps).
       if rp_p ps \<noteq> [] then Inl ''unmatched )'' else Inr (root, ps))"


end
