(* ===== verification/As_RegexProg.thy ===== *)
theory As_RegexProg
  imports As_Regex
begin

text \<open>
  Code emission of \<^verbatim>\<open>std/regex.c\<close> and what the emitted program means. \<open>re_lang\<close> is the meaning of a
  tree as a relation on positions of the input, \<open>rstep\<close> one step of the program. Emission appends to
  the program and patches pending jumps, which are linked through the fields they will overwrite;
  \<open>code\<close> is the same program written down by position.
\<close>

section \<open>The meaning of a tree\<close>

definition ch_rel :: "string \<Rightarrow> (char \<Rightarrow> bool) \<Rightarrow> (nat \<times> nat) set" where
  "ch_rel w f = {(i, Suc i) | i. i < length w \<and> f (w ! i)}"

fun re_lang :: "bool \<Rightarrow> cmap list \<Rightarrow> string \<Rightarrow> rnode \<Rightarrow> (nat \<times> nat) set" where
  "re_lang ci cls w RN_EMPTY = Id"
| "re_lang ci cls w (RN_CHAR c) = ch_rel w (\<lambda>d. fold_ch ci d = c)"
| "re_lang ci cls w (RN_CLASS k) = ch_rel w (cls_has (cls ! k))"
| "re_lang ci cls w RN_ANY = ch_rel w (\<lambda>_. True)"
| "re_lang ci cls w RN_BOL = {(0, 0)}"
| "re_lang ci cls w RN_EOL = {(length w, length w)}"
| "re_lang ci cls w (RN_CAT a None) = re_lang ci cls w a"
| "re_lang ci cls w (RN_CAT a (Some b)) = re_lang ci cls w a O re_lang ci cls w b"
| "re_lang ci cls w (RN_ALT a b) = re_lang ci cls w a \<union> re_lang ci cls w b"
| "re_lang ci cls w (RN_REP a m n) =
     (if n < 0 then \<Union>k \<in> {nat m..}. re_lang ci cls w a ^^ k
      else \<Union>k \<in> {nat m..nat n}. re_lang ci cls w a ^^ k)"

text \<open>The repetitions the parser builds.\<close>

fun rep_ok :: "rnode \<Rightarrow> bool" where
  "rep_ok (RN_CAT a None) = rep_ok a"
| "rep_ok (RN_CAT a (Some b)) \<longleftrightarrow> rep_ok a \<and> rep_ok b"
| "rep_ok (RN_ALT a b) \<longleftrightarrow> rep_ok a \<and> rep_ok b"
| "rep_ok (RN_REP a m n) \<longleftrightarrow> rep_ok a \<and> 0 \<le> m \<and> (n < 0 \<or> m \<le> n)"
| "rep_ok _ = True"

section \<open>Programs\<close>

datatype re_op = RI_CHAR | RI_CLASS | RI_ANY | RI_BOL | RI_EOL | RI_SPLIT | RI_JMP | RI_MATCH

record re_inst =
  ri_op :: re_op
  ri_ch :: char
  ri_cls :: nat
  ri_x :: int
  ri_y :: int

type_synonym prog = "re_inst list"

definition inst :: "re_op \<Rightarrow> char \<Rightarrow> nat \<Rightarrow> re_inst" where
  "inst op ch cls = \<lparr>ri_op = op, ri_ch = ch, ri_cls = cls, ri_x = 0, ri_y = 0\<rparr>"

definition emit1 :: "re_op \<Rightarrow> char \<Rightarrow> nat \<Rightarrow> prog \<Rightarrow> prog rres" where
  "emit1 op ch cls p = (if length p \<ge> RE_MAX_INSTS then Inl ''pattern too large'' else Inr (p @ [inst op ch cls]))"

definition set_x :: "nat \<Rightarrow> int \<Rightarrow> prog \<Rightarrow> prog" where
  "set_x i v p = p[i := (p ! i)\<lparr>ri_x := v\<rparr>]"

definition set_y :: "nat \<Rightarrow> int \<Rightarrow> prog \<Rightarrow> prog" where
  "set_y i v p = p[i := (p ! i)\<lparr>ri_y := v\<rparr>]"

text \<open>
  The patching loops: along the links, every field is set to the end. A link points to a smaller
  index, so as many turns as instructions are enough.
\<close>

fun patch_x :: "nat \<Rightarrow> int \<Rightarrow> int \<Rightarrow> prog \<Rightarrow> prog" where
  "patch_x 0 plist e p = p"
| "patch_x (Suc k) plist e p = (if plist < 0 then p else patch_x k (ri_x (p ! nat plist)) e (set_x (nat plist) e p))"

fun patch_y :: "nat \<Rightarrow> int \<Rightarrow> int \<Rightarrow> prog \<Rightarrow> prog" where
  "patch_y 0 plist e p = p"
| "patch_y (Suc k) plist e p = (if plist < 0 then p else patch_y k (ri_y (p ! nat plist)) e (set_y (nat plist) e p))"

text \<open>The two counted loops of a repetition, over the emission of its body.\<close>

fun emit_copies :: "nat \<Rightarrow> (prog \<Rightarrow> prog rres) \<Rightarrow> prog \<Rightarrow> prog rres" where
  "emit_copies 0 f p = Inr p"
| "emit_copies (Suc k) f p = bindr (f p) (emit_copies k f)"

fun emit_opts :: "nat \<Rightarrow> (prog \<Rightarrow> prog rres) \<Rightarrow> int \<Rightarrow> prog \<Rightarrow> prog rres" where
  "emit_opts 0 f plist p = Inr (patch_y (length p) plist (int (length p)) p)"
| "emit_opts (Suc k) f plist p =
     (let s = length p in
      bindr (emit1 RI_SPLIT NUL 0 p) (\<lambda>p.
      bindr (f (set_y s plist (set_x s (int s + 1) p))) (emit_opts k f (int s))))"

fun emit_node :: "rnode \<Rightarrow> prog \<Rightarrow> prog rres" and emit_alts :: "rnode \<Rightarrow> int \<Rightarrow> prog \<Rightarrow> prog rres" where
  "emit_node RN_EMPTY p = Inr p"
| "emit_node (RN_CHAR c) p = emit1 RI_CHAR c 0 p"
| "emit_node (RN_CLASS k) p = emit1 RI_CLASS NUL k p"
| "emit_node RN_ANY p = emit1 RI_ANY NUL 0 p"
| "emit_node RN_BOL p = emit1 RI_BOL NUL 0 p"
| "emit_node RN_EOL p = emit1 RI_EOL NUL 0 p"
| "emit_node (RN_CAT a None) p = emit_node a p"
| "emit_node (RN_CAT a (Some b)) p = bindr (emit_node a p) (\<lambda>p. emit_node b p)"
| "emit_node (RN_ALT a b) p =
     (let s = length p in
      bindr (emit1 RI_SPLIT NUL 0 p) (\<lambda>p.
      bindr (emit_node a (set_x s (int s + 1) p)) (\<lambda>p. let j = length p in
      bindr (emit1 RI_JMP NUL 0 p) (\<lambda>p.
      emit_alts b (int j) (set_y s (int (length p)) (set_x j (- 1) p))))))"
| "emit_node (RN_REP a m n) p =
     (if n < 0 then
        (if m = 0 then
           (let l1 = length p in
            bindr (emit1 RI_SPLIT NUL 0 p) (\<lambda>p.
            bindr (emit_node a (set_x l1 (int l1 + 1) p)) (\<lambda>p. let j = length p in
            bindr (emit1 RI_JMP NUL 0 p) (\<lambda>p.
            Inr (set_y l1 (int (length p)) (set_x j (int l1) p))))))
         else
           bindr (emit_copies (nat (m - 1)) (\<lambda>p. emit_node a p) p) (\<lambda>p. let l = length p in
           bindr (emit_node a p) (\<lambda>p. let s = length p in
           bindr (emit1 RI_SPLIT NUL 0 p) (\<lambda>p.
           Inr (set_y s (int s + 1) (set_x s (int l) p))))))
      else
        bindr (emit_copies (nat m) (\<lambda>p. emit_node a p) p) (\<lambda>p.
        emit_opts (nat (n - m)) (\<lambda>p. emit_node a p) (- 1) p))"
| "emit_alts (RN_ALT a b) plist p =
     (let s = length p in
      bindr (emit1 RI_SPLIT NUL 0 p) (\<lambda>p.
      bindr (emit_node a (set_x s (int s + 1) p)) (\<lambda>p. let j = length p in
      bindr (emit1 RI_JMP NUL 0 p) (\<lambda>p.
      emit_alts b (int j) (set_y s (int (length p)) (set_x j plist p))))))"
| "emit_alts r plist p = bindr (emit_node r p) (\<lambda>p. Inr (patch_x (length p) plist (int (length p)) p))"

section \<open>The program by position\<close>

fun csize :: "rnode \<Rightarrow> nat" where
  "csize RN_EMPTY = 0"
| "csize (RN_CAT a None) = csize a"
| "csize (RN_CAT a (Some b)) = csize a + csize b"
| "csize (RN_ALT a b) = csize a + csize b + 2"
| "csize (RN_REP a m n) =
     (if n < 0 then (if m = 0 then csize a + 2 else (nat (m - 1) + 1) * csize a + 1)
      else nat m * csize a + nat (n - m) * (csize a + 1))"
| "csize _ = 1"

definition split_to :: "nat \<Rightarrow> nat \<Rightarrow> re_inst" where
  "split_to a b = \<lparr>ri_op = RI_SPLIT, ri_ch = NUL, ri_cls = 0, ri_x = int a, ri_y = int b\<rparr>"

definition jmp_to :: "nat \<Rightarrow> re_inst" where
  "jmp_to a = \<lparr>ri_op = RI_JMP, ri_ch = NUL, ri_cls = 0, ri_x = int a, ri_y = 0\<rparr>"

text \<open>\<open>k\<close> copies of a piece of \<open>n\<close> instructions, one behind the other.\<close>

fun copies :: "nat \<Rightarrow> nat \<Rightarrow> (nat \<Rightarrow> prog) \<Rightarrow> nat \<Rightarrow> prog" where
  "copies 0 n f s = []"
| "copies (Suc k) n f s = f s @ copies k n f (s + n)"

fun code :: "rnode \<Rightarrow> nat \<Rightarrow> prog" where
  "code RN_EMPTY s = []"
| "code (RN_CHAR c) s = [inst RI_CHAR c 0]"
| "code (RN_CLASS k) s = [inst RI_CLASS NUL k]"
| "code RN_ANY s = [inst RI_ANY NUL 0]"
| "code RN_BOL s = [inst RI_BOL NUL 0]"
| "code RN_EOL s = [inst RI_EOL NUL 0]"
| "code (RN_CAT a None) s = code a s"
| "code (RN_CAT a (Some b)) s = code a s @ code b (s + csize a)"
| "code (RN_ALT a b) s =
     split_to (s + 1) (s + csize a + 2) # code a (s + 1) @ jmp_to (s + csize a + csize b + 2) # code b (s + csize a + 2)"
| "code (RN_REP a m n) s =
     (if n < 0 then
        (if m = 0 then split_to (s + 1) (s + csize a + 2) # code a (s + 1) @ [jmp_to s]
         else let l = s + nat (m - 1) * csize a in
           copies (nat (m - 1)) (csize a) (\<lambda>s. code a s) s @ code a l @ [split_to l (l + csize a + 1)])
      else let l = s + nat m * csize a; e = l + nat (n - m) * (csize a + 1) in
        copies (nat m) (csize a) (\<lambda>s. code a s) s @
        copies (nat (n - m)) (csize a + 1) (\<lambda>s. split_to (s + 1) e # code a (s + 1)) l)"

lemma length_copies: "(\<And>s. length (f s) = n) \<Longrightarrow> length (copies k n f s) = k * n"
  by (induction k arbitrary: s) auto

lemma length_code [simp]: "length (code r s) = csize r"
proof (induction r arbitrary: s)
  case (RN_CAT a b)
  then show ?case by (cases b) auto
next
  case (RN_REP a m n)
  have 1: "length (copies k (csize a) (\<lambda>s. code a s) s) = k * csize a" for k s
    by (rule length_copies) (rule RN_REP)
  have 2: "length (copies k (csize a + 1) (\<lambda>s. split_to (s + 1) e # code a (s + 1)) s) = k * (csize a + 1)" for k s e
    by (rule length_copies) (simp add: RN_REP)
  show ?case using RN_REP 1 2 by (simp add: Let_def)
qed auto

section \<open>Emission writes the program\<close>

text \<open>Pending instructions: linked by decreasing indices through the field that \<open>g\<close> reads.\<close>

fun chain :: "(re_inst \<Rightarrow> int) \<Rightarrow> prog \<Rightarrow> int \<Rightarrow> nat list \<Rightarrow> bool" where
  "chain g p pl [] \<longleftrightarrow> pl = - 1"
| "chain g p pl (j # js) \<longleftrightarrow> pl = int j \<and> j < length p \<and> list_all (\<lambda>i. i < j) js \<and> chain g p (g (p ! j)) js"

definition set_all :: "(nat \<Rightarrow> prog \<Rightarrow> prog) \<Rightarrow> nat list \<Rightarrow> prog \<Rightarrow> prog" where
  "set_all f js p = fold f js p"

lemma set_all_simps [simp]: "set_all f [] p = p" "set_all f (j # js) p = set_all f js (f j p)"
  by (simp_all add: set_all_def)

lemma chain_bound: "chain g p pl js \<Longrightarrow> length js \<le> length p"
proof -
  assume "chain g p pl js"
  then have "distinct js \<and> set js \<subseteq> {..<length p}"
  proof (induction g p pl js rule: chain.induct)
    case (2 g p pl j js)
    then show ?case by (auto simp: list_all_iff)
  qed simp
  then show ?thesis by (metis card_lessThan card_mono distinct_card finite_lessThan)
qed

lemma chain_cong: "chain g p pl js \<Longrightarrow> length p \<le> length q \<Longrightarrow> (\<And>j. j \<in> set js \<Longrightarrow> g (q ! j) = g (p ! j)) \<Longrightarrow> chain g q pl js"
  by (induction g p pl js rule: chain.induct) auto

lemma length_set [simp]: "length (set_x i v p) = length p" "length (set_y i v p) = length p"
  by (simp_all add: set_x_def set_y_def)

lemma set_append [simp]:
  "i < length p \<Longrightarrow> set_x i v (p @ q) = set_x i v p @ q" "i < length p \<Longrightarrow> set_y i v (p @ q) = set_y i v p @ q"
  by (simp_all add: set_x_def set_y_def nth_append list_update_append)

lemma set_here [simp]:
  "set_x (length p) v (p @ a # q) = p @ a\<lparr>ri_x := v\<rparr> # q" "set_y (length p) v (p @ a # q) = p @ a\<lparr>ri_y := v\<rparr> # q"
  by (simp_all add: set_x_def set_y_def nth_append)

lemma patch_x_chain: "chain ri_x p pl js \<Longrightarrow> length js \<le> k \<Longrightarrow> patch_x k pl e p = set_all (\<lambda>j. set_x j e) js p"
proof (induction js arbitrary: k pl p)
  case Nil
  then show ?case by (cases k) auto
next
  case (Cons j js)
  then obtain k' where k: "k = Suc k'" by (cases k) auto
  have "chain ri_x (set_x j e p) (ri_x (p ! j)) js"
    by (rule chain_cong [of _ p]) (use Cons.prems in \<open>auto simp: list_all_iff set_x_def nth_list_update\<close>)
  then show ?case using Cons k by simp
qed

lemma patch_y_chain: "chain ri_y p pl js \<Longrightarrow> length js \<le> k \<Longrightarrow> patch_y k pl e p = set_all (\<lambda>j. set_y j e) js p"
proof (induction js arbitrary: k pl p)
  case Nil
  then show ?case by (cases k) auto
next
  case (Cons j js)
  then obtain k' where k: "k = Suc k'" by (cases k) auto
  have "chain ri_y (set_y j e p) (ri_y (p ! j)) js"
    by (rule chain_cong [of _ p]) (use Cons.prems in \<open>auto simp: list_all_iff set_y_def nth_list_update\<close>)
  then show ?case using Cons k by simp
qed

lemma set_all_append:
  "list_all (\<lambda>j. j < length p) js \<Longrightarrow> (\<And>j p. length (f j p) = length p) \<Longrightarrow>
    (\<And>j p q. j < length p \<Longrightarrow> f j (p @ q) = f j p @ q) \<Longrightarrow> set_all f js (p @ q) = set_all f js p @ q"
  by (induction js arbitrary: p) auto

lemma length_set_all [simp]: "(\<And>j p. length (f j p) = length p) \<Longrightarrow> length (set_all f js p) = length p"
  by (induction js arbitrary: p) auto

lemma chain_less: "chain g p pl js \<Longrightarrow> list_all (\<lambda>j. j < length p) js"
  by (induction g p pl js rule: chain.induct) auto

abbreviation fits :: "prog \<Rightarrow> nat \<Rightarrow> (nat \<Rightarrow> prog) \<Rightarrow> prog rres" where
  "fits p n f \<equiv> if length p + n \<le> RE_MAX_INSTS then Inr (p @ f (length p)) else Inl ''pattern too large''"

lemma emit1_eq: "emit1 op ch k p = fits p 1 (\<lambda>s. [inst op ch k])"
  by (simp add: emit1_def Suc_le_eq)

lemma emit_copies_eq:
  assumes "\<And>p. length p \<le> RE_MAX_INSTS \<Longrightarrow> f p = fits p n c" "\<And>s. length (c s) = n" "length p \<le> RE_MAX_INSTS"
  shows "emit_copies k f p = fits p (k * n) (copies k n c)"
  using assms(3)
proof (induction k arbitrary: p)
  case (Suc k)
  show ?case
  proof (cases "length p + n \<le> RE_MAX_INSTS")
    case True
    then have "emit_copies (Suc k) f p = emit_copies k f (p @ c (length p))" using assms(1) [OF Suc.prems] by simp
    also have "\<dots> = fits (p @ c (length p)) (k * n) (copies k n c)" by (rule Suc.IH) (use True assms(2) in simp)
    finally show ?thesis using assms(2) by (simp add: add.assoc)
  next
    case False
    then show ?thesis using assms(1) [OF Suc.prems] by simp
  qed
qed simp

text \<open>The optional copies: every pending \<open>SPLIT\<close> will point to the common end \<open>e\<close>.\<close>

lemma emit_opts_eq:
  assumes f: "\<And>p. length p \<le> RE_MAX_INSTS \<Longrightarrow> f p = fits p n c" and len: "\<And>s. length (c s) = n"
    and p: "length p \<le> RE_MAX_INSTS" "chain ri_y p pl js"
  shows "emit_opts k f pl p =
    (if length p + k * (n + 1) \<le> RE_MAX_INSTS
     then let e = length p + k * (n + 1) in
       Inr (set_all (\<lambda>j. set_y j (int e)) js p @ copies k (n + 1) (\<lambda>s. split_to (s + 1) e # c (s + 1)) (length p))
     else Inl ''pattern too large'')"
  using p
proof (induction k arbitrary: p pl js)
  case 0
  then show ?case using patch_y_chain [OF 0(2) chain_bound [OF 0(2)]] by simp
next
  case (Suc k)
  let ?s = "length p" and ?e = "length p + Suc k * (n + 1)"
  let ?i = "(inst RI_SPLIT NUL 0)\<lparr>ri_x := int ?s + 1, ri_y := pl\<rparr>"
  show ?case
  proof (cases "?s + 1 + n \<le> RE_MAX_INSTS")
    case True
    let ?p = "p @ ?i # c (?s + 1)"
    have lp: "length ?p = ?s + 1 + n" using len by simp
    have less: "list_all (\<lambda>j. j < ?s) js" by (rule chain_less [OF Suc.prems(2)])
    have ch: "chain ri_y ?p pl js"
      by (rule chain_cong [OF Suc.prems(2)]) (use less in \<open>auto simp: list_all_iff nth_append\<close>)
    have "emit_opts (Suc k) f pl p = emit_opts k f (int ?s) ?p"
      using True f [of "p @ [?i]"] by (simp add: emit1_def inst_def Let_def)
    also have "\<dots> = (if length ?p + k * (n + 1) \<le> RE_MAX_INSTS
     then let e = length ?p + k * (n + 1) in
       Inr (set_all (\<lambda>j. set_y j (int e)) (?s # js) ?p @ copies k (n + 1) (\<lambda>s. split_to (s + 1) e # c (s + 1)) (length ?p))
     else Inl ''pattern too large'')"
      by (rule Suc.IH) (use True lp ch less in \<open>auto simp: nth_append\<close>)
    finally have ih: "emit_opts (Suc k) f pl p = \<dots>" .
    have ee: "length ?p + k * (n + 1) = ?e" using lp by simp
    have patched: "set_all (\<lambda>j. set_y j (int ?e)) (?s # js) ?p =
        set_all (\<lambda>j. set_y j (int ?e)) js p @ split_to (?s + 1) ?e # c (?s + 1)"
    proof -
      have "set_y ?s (int ?e) ?p = p @ split_to (?s + 1) ?e # c (?s + 1)"
        by (simp only: set_here) (simp add: inst_def split_to_def)
      then show ?thesis using set_all_append [OF less, of "\<lambda>j. set_y j (int ?e)"] by simp
    qed
    show ?thesis by (subst ih, (subst ee)+, unfold Let_def, subst patched) (simp add: add.assoc len)
  next
    case False
    then show ?thesis using f [of "p @ [?i]"] by (auto simp: emit1_def inst_def Let_def Suc_le_eq)
  qed
qed

definition emits :: "rnode \<Rightarrow> bool" where
  "emits r \<longleftrightarrow> (\<forall>p. length p \<le> RE_MAX_INSTS \<longrightarrow> emit_node r p = fits p (csize r) (code r))"

definition emits_alts :: "rnode \<Rightarrow> bool" where
  "emits_alts r \<longleftrightarrow> (\<forall>p pl js. length p \<le> RE_MAX_INSTS \<longrightarrow> chain ri_x p pl js \<longrightarrow>
     emit_alts r pl p =
       (if length p + csize r \<le> RE_MAX_INSTS
        then Inr (set_all (\<lambda>j. set_x j (int (length p + csize r))) js p @ code r (length p))
        else Inl ''pattern too large''))"

lemma emitsD: "emits r \<Longrightarrow> length p \<le> RE_MAX_INSTS \<Longrightarrow> emit_node r p = fits p (csize r) (code r)"
  by (simp add: emits_def)

lemma emits_altsD:
  "emits_alts r \<Longrightarrow> length p \<le> RE_MAX_INSTS \<Longrightarrow> chain ri_x p pl js \<Longrightarrow>
     emit_alts r pl p =
       (if length p + csize r \<le> RE_MAX_INSTS
        then Inr (set_all (\<lambda>j. set_x j (int (length p + csize r))) js p @ code r (length p))
        else Inl ''pattern too large'')"
  unfolding emits_alts_def by blast

text \<open>One branch of an alternation, with the branches before it pending in \<open>js\<close>.\<close>

lemma emit_branch:
  assumes a: "emits a" and b: "emits_alts b" and p: "length p \<le> RE_MAX_INSTS" "chain ri_x p pl js"
  shows "emit_alts (RN_ALT a b) pl p =
    (if length p + csize (RN_ALT a b) \<le> RE_MAX_INSTS
     then Inr (set_all (\<lambda>j. set_x j (int (length p + csize (RN_ALT a b)))) js p @ code (RN_ALT a b) (length p))
     else Inl ''pattern too large'')"
proof (cases "length p + csize a + 2 \<le> RE_MAX_INSTS")
  case True
  let ?s = "length p" and ?j = "length p + csize a + 1" and ?e = "length p + csize (RN_ALT a b)"
  let ?q = "p @ split_to (?s + 1) (?s + csize a + 2) # code a (?s + 1)"
  let ?p = "?q @ [(inst RI_JMP NUL 0)\<lparr>ri_x := pl\<rparr>]"
  have lq: "length ?q = ?j" by simp
  have lp: "length ?p = ?s + csize a + 2" by simp
  have less: "list_all (\<lambda>j. j < ?s) js" by (rule chain_less [OF p(2)])
  have "chain ri_x ?p pl js"
    by (rule chain_cong [OF p(2)]) (use less in \<open>auto simp: list_all_iff nth_append\<close>)
  then have ch: "chain ri_x ?p (int ?j) (?j # js)"
    using less lq by (auto simp: list_all_iff nth_append)
  let ?r = "p @ (inst RI_SPLIT NUL 0)\<lparr>ri_x := int ?s + 1\<rparr> # code a (?s + 1)"
  have r1: "set_x ?s (int ?s + 1) (p @ [inst RI_SPLIT NUL 0]) = p @ [(inst RI_SPLIT NUL 0)\<lparr>ri_x := int ?s + 1\<rparr>]"
    by simp
  have r2: "emit_node a (p @ [(inst RI_SPLIT NUL 0)\<lparr>ri_x := int ?s + 1\<rparr>]) = Inr ?r"
    using True emitsD [OF a, of "p @ [(inst RI_SPLIT NUL 0)\<lparr>ri_x := int ?s + 1\<rparr>]"] by simp
  have lr: "length ?r = ?j" by simp
  have r3: "set_x ?j pl (?r @ [inst RI_JMP NUL 0]) = ?r @ [(inst RI_JMP NUL 0)\<lparr>ri_x := pl\<rparr>]"
    using set_here(1) [of ?r pl "inst RI_JMP NUL 0" "[]"] by (simp only: lr)
  have r4: "set_y ?s (int (?s + csize a + 2)) (?r @ [(inst RI_JMP NUL 0)\<lparr>ri_x := pl\<rparr>]) = ?p"
    using set_here(2) [of p "int (?s + csize a + 2)"]
    by (simp add: split_to_def inst_def)
  have "emit_alts (RN_ALT a b) pl p = emit_alts b (int ?j) ?p"
    using True r2 r3 r4 lr by (simp add: emit1_def Let_def)
  also have "\<dots> = (if length ?p + csize b \<le> RE_MAX_INSTS
        then Inr (set_all (\<lambda>j. set_x j (int (length ?p + csize b))) (?j # js) ?p @ code b (length ?p))
        else Inl ''pattern too large'')"
    by (rule emits_altsD [OF b _ ch]) (use True lp in simp)
  also have "length ?p + csize b = ?e" by simp
  also have "set_all (\<lambda>j. set_x j (int ?e)) (?j # js) ?p = set_all (\<lambda>j. set_x j (int ?e)) js (?q @ [jmp_to ?e])"
    using set_here(1) [of ?q "int ?e" "(inst RI_JMP NUL 0)\<lparr>ri_x := pl\<rparr>" "[]"] lq
    by (simp add: inst_def jmp_to_def)
  also have "\<dots> = set_all (\<lambda>j. set_x j (int ?e)) js p @ split_to (?s + 1) (?s + csize a + 2) # code a (?s + 1) @ [jmp_to ?e]"
    using set_all_append [OF less, of "\<lambda>j. set_x j (int ?e)"] by simp
  finally show ?thesis by (simp add: add.assoc)
next
  case False
  then show ?thesis
    using emitsD [OF a, of "p @ [(inst RI_SPLIT NUL 0)\<lparr>ri_x := int (length p) + 1\<rparr>]"]
    by (auto simp: emit1_def Let_def Suc_le_eq)
qed

lemma emits_alts_other:
  assumes "emits r" "\<And>pl p. emit_alts r pl p = bindr (emit_node r p) (\<lambda>p. Inr (patch_x (length p) pl (int (length p)) p))"
  shows "emits_alts r"
  unfolding emits_alts_def
proof (intro allI impI)
  fix p pl js assume p: "length p \<le> RE_MAX_INSTS" "chain ri_x p pl js"
  show "emit_alts r pl p =
       (if length p + csize r \<le> RE_MAX_INSTS
        then Inr (set_all (\<lambda>j. set_x j (int (length p + csize r))) js p @ code r (length p))
        else Inl ''pattern too large'')"
  proof (cases "length p + csize r \<le> RE_MAX_INSTS")
    case True
    let ?q = "p @ code r (length p)"
    have less: "list_all (\<lambda>j. j < length p) js" by (rule chain_less [OF p(2)])
    have ch: "chain ri_x ?q pl js"
      by (rule chain_cong [OF p(2)]) (use less in \<open>auto simp: list_all_iff nth_append\<close>)
    show ?thesis
      using True assms(2) [of pl p] emitsD [OF assms(1) p(1)] patch_x_chain [OF ch chain_bound [OF ch]]
        set_all_append [OF less, of "\<lambda>j. set_x j (int (length ?q))"] by simp
  next
    case False
    then show ?thesis using assms(2) [of pl p] emitsD [OF assms(1) p(1)] by simp
  qed
qed

lemma emits_cat: "emits a \<Longrightarrow> emits b \<Longrightarrow> emits (RN_CAT a (Some b))"
  unfolding emits_def [of "RN_CAT a (Some b)"]
proof (intro allI impI)
  fix p :: prog assume a: "emits a" and b: "emits b" and p: "length p \<le> RE_MAX_INSTS"
  show "emit_node (RN_CAT a (Some b)) p = fits p (csize (RN_CAT a (Some b))) (code (RN_CAT a (Some b)))"
    using emitsD [OF a p] emitsD [OF b, of "p @ code a (length p)"] by (simp add: add.assoc)
qed

lemma emits_rep: "emits a \<Longrightarrow> emits (RN_REP a m n)"
  unfolding emits_def [of "RN_REP a m n"]
proof (intro allI impI)
  fix p :: prog assume a: "emits a" and p: "length p \<le> RE_MAX_INSTS"
  have copies: "emit_copies k (\<lambda>p. emit_node a p) p = fits p (k * csize a) (copies k (csize a) (\<lambda>s. code a s))" for k
    by (rule emit_copies_eq [OF emitsD [OF a] length_code p])
  let ?f = "\<lambda>p. emit_node a p"
  consider (star) "n < 0" "m = 0" | (plus) "n < 0" "m \<noteq> 0" | (opts) "0 \<le> n" by linarith
  then show "emit_node (RN_REP a m n) p = fits p (csize (RN_REP a m n)) (code (RN_REP a m n))"
  proof cases
    case star
    let ?s = "length p" and ?i = "(inst RI_SPLIT NUL 0)\<lparr>ri_x := int (length p) + 1\<rparr>"
    let ?q = "p @ ?i # code a (?s + 1)"
    have j: "set_x (length ?q) (int ?s) (?q @ [inst RI_JMP NUL 0]) = ?q @ [jmp_to ?s]"
      using set_here(1) [of ?q "int ?s" "inst RI_JMP NUL 0" "[]"] by (simp add: inst_def jmp_to_def)
    have s: "set_y ?s (int (?s + csize a + 2)) (?q @ [jmp_to ?s]) = p @ split_to (?s + 1) (?s + csize a + 2) # code a (?s + 1) @ [jmp_to ?s]"
      using set_here(2) [of p "int (?s + csize a + 2)"] by (simp add: split_to_def inst_def)
    show ?thesis
    proof (cases "?s + csize a + 2 \<le> RE_MAX_INSTS")
      case True
      then show ?thesis using star emitsD [OF a, of "p @ [?i]"] j s by (simp add: emit1_def Let_def)
    next
      case False
      then show ?thesis using star emitsD [OF a, of "p @ [?i]"] by (auto simp: emit1_def Let_def Suc_le_eq)
    qed
  next
    case plus
    let ?k = "nat (m - 1)"
    let ?p1 = "p @ copies ?k (csize a) (\<lambda>s. code a s) (length p)"
    let ?l = "length p + ?k * csize a"
    let ?p2 = "?p1 @ code a ?l"
    have l1: "length ?p1 = ?l" by (simp add: length_copies)
    have l2: "length ?p2 = ?l + csize a" using l1 by simp
    have s: "set_y (?l + csize a) (int (?l + csize a) + 1) (set_x (?l + csize a) (int ?l) (?p2 @ [inst RI_SPLIT NUL 0])) =
        ?p2 @ [split_to ?l (?l + csize a + 1)]"
      using set_here(1) [of ?p2 "int ?l" "inst RI_SPLIT NUL 0" "[]"]
        set_here(2) [of ?p2 "int (?l + csize a) + 1" "(inst RI_SPLIT NUL 0)\<lparr>ri_x := int ?l\<rparr>" "[]"]
      unfolding l2 by (simp add: inst_def split_to_def)
    show ?thesis
    proof (cases "?l \<le> RE_MAX_INSTS")
      case True
      then show ?thesis using plus copies [of ?k] emitsD [OF a, of ?p1] l1 l2 s
        by (auto simp: emit1_def Let_def Suc_le_eq add.assoc)
    next
      case False
      then show ?thesis using plus copies [of ?k] by simp
    qed
  next
    case opts
    let ?p1 = "p @ copies (nat m) (csize a) (\<lambda>s. code a s) (length p)"
    let ?l = "length p + nat m * csize a"
    have l1: "length ?p1 = ?l" by (simp add: length_copies)
    show ?thesis
    proof (cases "?l \<le> RE_MAX_INSTS")
      case True
      have "emit_opts (nat (n - m)) ?f (- 1) ?p1 =
        (if length ?p1 + nat (n - m) * (csize a + 1) \<le> RE_MAX_INSTS
         then let e = length ?p1 + nat (n - m) * (csize a + 1) in
           Inr (set_all (\<lambda>j. set_y j (int e)) [] ?p1 @
             copies (nat (n - m)) (csize a + 1) (\<lambda>s. split_to (s + 1) e # code a (s + 1)) (length ?p1))
         else Inl ''pattern too large'')"
        by (rule emit_opts_eq [OF emitsD [OF a] length_code]) (use True l1 in simp_all)
      then show ?thesis using opts copies [of "nat m"] True l1 by (simp add: Let_def add.assoc)
    next
      case False
      then show ?thesis using opts copies [of "nat m"] by simp
    qed
  qed
qed

lemma emission: "emits r \<and> emits_alts r"
proof (induction r)
  case (RN_CAT a b)
  then have "emits (RN_CAT a b)" by (cases b) (auto simp: emits_cat emits_def)
  then show ?case by (intro conjI emits_alts_other) auto
next
  case (RN_ALT a b)
  have alts: "emits_alts (RN_ALT a b)"
    unfolding emits_alts_def using emit_branch RN_ALT by blast
  have "emit_node (RN_ALT a b) p = emit_alts (RN_ALT a b) (- 1) p" for p by simp
  then have "emits (RN_ALT a b)"
    unfolding emits_def using emits_altsD [OF alts, of _ "- 1" "[]"] by simp
  with alts show ?case by blast
next
  case (RN_REP a m n)
  then have "emits (RN_REP a m n)" by (simp add: emits_rep)
  then show ?case by (intro conjI emits_alts_other) auto
qed (intro conjI emits_alts_other; auto simp: emits_def emit1_def Suc_le_eq)+

text \<open>
  C10: Code emission writes exactly the program of the tree behind what is there, its pending jumps all
  resolved, when it fits the 4096 instructions, and refuses the pattern otherwise.
\<close>

theorem emit_node_code:
  assumes "length p \<le> RE_MAX_INSTS"
  shows "emit_node r p =
    (if length p + csize r \<le> RE_MAX_INSTS then Inr (p @ code r (length p)) else Inl ''pattern too large'')"
  using emission [of r] emitsD [OF _ assms] by blast

theorem emit_node_code_witness:
  "emit_node (RN_REP (RN_CHAR (CHR ''a'')) 0 (- 1)) [] = Inr [split_to 1 3, inst RI_CHAR (CHR ''a'') 0, jmp_to 0]"
  using emit_node_code [of "[]" "RN_REP (RN_CHAR (CHR ''a'')) 0 (- 1)"] by (simp add: RE_MAX_INSTS_def eval_nat_numeral)

section \<open>What a program does\<close>

text \<open>
  A configuration is an instruction and a position. \<open>eps\<close> moves without reading, \<open>reads\<close> says that an
  instruction accepts the byte at a position.
\<close>

definition eps :: "prog \<Rightarrow> nat \<Rightarrow> nat \<Rightarrow> nat \<Rightarrow> nat set" where
  "eps P len i pc =
     (case ri_op (P ! pc) of
        RI_JMP \<Rightarrow> {nat (ri_x (P ! pc))}
      | RI_SPLIT \<Rightarrow> {nat (ri_x (P ! pc)), nat (ri_y (P ! pc))}
      | RI_BOL \<Rightarrow> (if i = 0 then {Suc pc} else {})
      | RI_EOL \<Rightarrow> (if i = len then {Suc pc} else {})
      | _ \<Rightarrow> {})"

definition takes :: "bool \<Rightarrow> cmap list \<Rightarrow> re_inst \<Rightarrow> char \<Rightarrow> bool" where
  "takes ci cls ip c =
     (case ri_op ip of
        RI_CHAR \<Rightarrow> fold_ch ci c = ri_ch ip
      | RI_CLASS \<Rightarrow> cls_has (cls ! ri_cls ip) c
      | RI_ANY \<Rightarrow> True
      | _ \<Rightarrow> False)"

inductive rstep :: "bool \<Rightarrow> cmap list \<Rightarrow> string \<Rightarrow> prog \<Rightarrow> nat \<times> nat \<Rightarrow> nat \<times> nat \<Rightarrow> bool" for ci cls w P where
  eps_step: "pc < length P \<Longrightarrow> pc' \<in> eps P (length w) i pc \<Longrightarrow> rstep ci cls w P (pc, i) (pc', i)"
| read_step: "pc < length P \<Longrightarrow> i < length w \<Longrightarrow> takes ci cls (P ! pc) (w ! i) \<Longrightarrow> rstep ci cls w P (pc, i) (Suc pc, Suc i)"

inductive_simps rstep_simps: "rstep ci cls w P (pc, i) y"

definition code_at :: "prog \<Rightarrow> nat \<Rightarrow> prog \<Rightarrow> bool" where
  "code_at P s c \<longleftrightarrow> s + length c \<le> length P \<and> (\<forall>k < length c. P ! (s + k) = c ! k)"

lemma code_at_append: "code_at P s (c @ d) \<longleftrightarrow> code_at P s c \<and> code_at P (s + length c) d"
proof (intro iffI conjI)
  assume a: "code_at P s (c @ d)"
  show "code_at P s c" using a unfolding code_at_def
    by (metis add_leD1 add.assoc length_append nth_append trans_less_add1)
  show "code_at P (s + length c) d" unfolding code_at_def
  proof (intro conjI allI impI)
    fix k assume "k < length d"
    then have "P ! (s + (length c + k)) = (c @ d) ! (length c + k)" using a unfolding code_at_def by simp
    then show "P ! (s + length c + k) = d ! k" by (simp add: add.assoc)
  qed (use a in \<open>simp add: code_at_def\<close>)
next
  assume a: "code_at P s c \<and> code_at P (s + length c) d"
  show "code_at P s (c @ d)" unfolding code_at_def
  proof (intro conjI allI impI)
    fix k assume k: "k < length (c @ d)"
    show "P ! (s + k) = (c @ d) ! k"
    proof (cases "k < length c")
      case False
      then obtain q where q: "k = length c + q" by (metis le_iff_add not_less)
      then have "P ! (s + length c + q) = d ! q" using a k unfolding code_at_def by simp
      then show ?thesis using q by (simp add: nth_append add.assoc)
    qed (use a in \<open>simp add: code_at_def nth_append\<close>)
  qed (use a in \<open>simp add: code_at_def\<close>)
qed

lemma code_at_Cons: "code_at P s (x # c) \<longleftrightarrow> s < length P \<and> P ! s = x \<and> code_at P (Suc s) c"
proof -
  have "code_at P s [x] \<longleftrightarrow> s < length P \<and> P ! s = x" by (auto simp: code_at_def)
  then show ?thesis using code_at_append [of P s "[x]" c] by simp
qed

lemma code_at_Nil [simp]: "code_at P s [] \<longleftrightarrow> s \<le> length P"
  by (simp add: code_at_def)

text \<open>The steps out of the instructions that emission writes.\<close>

lemma rstep_split: "code_at P s (split_to a b # c) \<Longrightarrow> rstep ci cls w P (s, i) y \<longleftrightarrow> y = (a, i) \<or> y = (b, i)"
  by (auto simp: code_at_Cons rstep_simps eps_def split_to_def takes_def)

lemma rstep_jmp: "code_at P s (jmp_to a # c) \<Longrightarrow> rstep ci cls w P (s, i) y \<longleftrightarrow> y = (a, i)"
  by (auto simp: code_at_Cons rstep_simps eps_def jmp_to_def takes_def)

lemma rstep_into:
  "code_at P s (split_to a b # c) \<Longrightarrow> rstep ci cls w P (s, i) (a, i)"
  "code_at P s (split_to a b # c) \<Longrightarrow> rstep ci cls w P (s, i) (b, i)"
  "code_at P s (jmp_to a # c) \<Longrightarrow> rstep ci cls w P (s, i) (a, i)"
  by (simp_all only: rstep_split rstep_jmp simp_thms)

text \<open>Reaching the end in exactly \<open>n\<close> steps.\<close>

definition ends :: "bool \<Rightarrow> cmap list \<Rightarrow> string \<Rightarrow> prog \<Rightarrow> nat \<Rightarrow> nat \<times> nat \<Rightarrow> nat \<Rightarrow> bool" where
  "ends ci cls w P n x j \<longleftrightarrow> (\<exists>m. (rstep ci cls w P ^^ n) x (m, j) \<and> m < length P \<and> ri_op (P ! m) = RI_MATCH)"

lemma ends_0: "ends ci cls w P 0 (m, i) j \<longleftrightarrow> i = j \<and> m < length P \<and> ri_op (P ! m) = RI_MATCH"
  by (auto simp: ends_def)

lemma ends_Suc: "ends ci cls w P (Suc n) x j \<longleftrightarrow> (\<exists>y. rstep ci cls w P x y \<and> ends ci cls w P n y j)"
  unfolding ends_def relpowp_Suc_left OO_def by blast

text \<open>A piece of code from \<open>s\<close> to \<open>t\<close> computes the relation \<open>R\<close>: every accepting run from its start passes its end, no step later.\<close>

definition runs :: "bool \<Rightarrow> cmap list \<Rightarrow> string \<Rightarrow> prog \<Rightarrow> nat \<Rightarrow> nat \<Rightarrow> (nat \<times> nat) set \<Rightarrow> bool" where
  "runs ci cls w P s t R \<longleftrightarrow>
     (\<forall>n i j. ends ci cls w P n (s, i) j \<longrightarrow> (\<exists>k n'. n' \<le> n \<and> (i, k) \<in> R \<and> ends ci cls w P n' (t, k) j)) \<and>
     (\<forall>i k. (i, k) \<in> R \<longrightarrow> (rstep ci cls w P)\<^sup>*\<^sup>* (s, i) (t, k))"

lemma runsD1:
  "runs ci cls w P s t R \<Longrightarrow> ends ci cls w P n (s, i) j \<Longrightarrow> \<exists>k n'. n' \<le> n \<and> (i, k) \<in> R \<and> ends ci cls w P n' (t, k) j"
  unfolding runs_def by blast

lemma runsD2: "runs ci cls w P s t R \<Longrightarrow> (i, k) \<in> R \<Longrightarrow> (rstep ci cls w P)\<^sup>*\<^sup>* (s, i) (t, k)"
  unfolding runs_def by blast

lemma runs_Id: "runs ci cls w P s s Id"
  unfolding runs_def by auto

lemma runs_comp: "runs ci cls w P s m R \<Longrightarrow> runs ci cls w P m t S \<Longrightarrow> runs ci cls w P s t (R O S)"
  unfolding runs_def [of ci cls w P s t]
proof (intro conjI allI impI)
  assume a: "runs ci cls w P s m R" and b: "runs ci cls w P m t S"
  fix n i j assume "ends ci cls w P n (s, i) j"
  from runsD1 [OF a this] obtain k n' where k: "n' \<le> n" "(i, k) \<in> R" "ends ci cls w P n' (m, k) j" by blast
  from runsD1 [OF b k(3)] k show "\<exists>k n'. n' \<le> n \<and> (i, k) \<in> R O S \<and> ends ci cls w P n' (t, k) j"
    by (meson le_trans relcomp.relcompI)
next
  assume a: "runs ci cls w P s m R" and b: "runs ci cls w P m t S"
  fix i k assume "(i, k) \<in> R O S"
  then show "(rstep ci cls w P)\<^sup>*\<^sup>* (s, i) (t, k)" using runsD2 [OF a] runsD2 [OF b] by (blast intro: rtranclp_trans)
qed

lemma ends_step:
  assumes "s < length P" "ri_op (P ! s) \<noteq> RI_MATCH" "ends ci cls w P n (s, i) j"
  obtains n1 y where "n = Suc n1" "rstep ci cls w P (s, i) y" "ends ci cls w P n1 y j"
proof (cases n)
  case 0
  then show ?thesis using assms by (simp add: ends_0)
next
  case (Suc n1)
  then show ?thesis using assms(3) that unfolding Suc ends_Suc by blast
qed

lemma runs_one:
  assumes "s < length P" "ri_op (P ! s) \<noteq> RI_MATCH"
    and step: "\<And>i y. rstep ci cls w P (s, i) y \<longleftrightarrow> (\<exists>k. (i, k) \<in> R \<and> y = (Suc s, k))"
  shows "runs ci cls w P s (Suc s) R"
  unfolding runs_def
proof (intro conjI allI impI)
  fix n i j assume "ends ci cls w P n (s, i) j"
  then obtain n1 y where n: "n = Suc n1" "rstep ci cls w P (s, i) y" "ends ci cls w P n1 y j"
    by (rule ends_step [OF assms(1,2)])
  then obtain k where "(i, k) \<in> R" "y = (Suc s, k)" using step by blast
  with n show "\<exists>k n'. n' \<le> n \<and> (i, k) \<in> R \<and> ends ci cls w P n' (Suc s, k) j" by (intro exI [of _ k] exI [of _ n1]) simp
next
  fix i k assume "(i, k) \<in> R"
  then show "(rstep ci cls w P)\<^sup>*\<^sup>* (s, i) (Suc s, k)" using step by blast
qed

lemma runs_split:
  assumes c: "code_at P s (split_to a b # c)" and a: "runs ci cls w P a t R" and b: "runs ci cls w P b t S"
  shows "runs ci cls w P s t (R \<union> S)"
  unfolding runs_def
proof (intro conjI allI impI)
  have s: "s < length P" "ri_op (P ! s) \<noteq> RI_MATCH" using c by (auto simp: code_at_Cons split_to_def)
  fix n i j assume "ends ci cls w P n (s, i) j"
  then obtain n1 y where n: "n = Suc n1" "rstep ci cls w P (s, i) y" "ends ci cls w P n1 y j"
    by (rule ends_step [OF s])
  from iffD1 [OF rstep_split [OF c] n(2)] n(3)
  consider "ends ci cls w P n1 (a, i) j" | "ends ci cls w P n1 (b, i) j" by blast
  then show "\<exists>k n'. n' \<le> n \<and> (i, k) \<in> R \<union> S \<and> ends ci cls w P n' (t, k) j"
    by cases (use runsD1 [OF a, of n1 i j] runsD1 [OF b, of n1 i j] n(1) in \<open>auto intro: le_SucI\<close>)
next
  fix i k assume "(i, k) \<in> R \<union> S"
  moreover have "rstep ci cls w P (s, i) (a, i)" "rstep ci cls w P (s, i) (b, i)" by (rule rstep_into(1,2) [OF c])+
  ultimately show "(rstep ci cls w P)\<^sup>*\<^sup>* (s, i) (t, k)"
    using runsD2 [OF a] runsD2 [OF b] by (blast intro: converse_rtranclp_into_rtranclp)
qed

lemma runs_jmp:
  assumes c: "code_at P s (jmp_to t # c)"
  shows "runs ci cls w P s t Id"
  unfolding runs_def
proof (intro conjI allI impI)
  have s: "s < length P" "ri_op (P ! s) \<noteq> RI_MATCH" using c by (auto simp: code_at_Cons jmp_to_def)
  fix n i j assume "ends ci cls w P n (s, i) j"
  then obtain n1 y where "n = Suc n1" "rstep ci cls w P (s, i) y" "ends ci cls w P n1 y j"
    by (rule ends_step [OF s])
  then show "\<exists>k n'. n' \<le> n \<and> (i, k) \<in> Id \<and> ends ci cls w P n' (t, k) j"
    using rstep_jmp [OF c] by (intro exI [of _ i] exI [of _ n1]) auto
next
  fix i k :: nat assume "(i, k) \<in> Id"
  then show "(rstep ci cls w P)\<^sup>*\<^sup>* (s, i) (t, k)" using rstep_jmp [OF c] by auto
qed

text \<open>A loop: \<open>SPLIT\<close> into the body, which jumps back, or out.\<close>

lemma runs_star:
  assumes c: "code_at P s (split_to a t # c)" and body: "runs ci cls w P a u R" and bk: "code_at P u (jmp_to s # d)"
  shows "runs ci cls w P s t (R\<^sup>*)"
  unfolding runs_def
proof (intro conjI allI impI)
  have s: "s < length P" "ri_op (P ! s) \<noteq> RI_MATCH" using c by (auto simp: code_at_Cons split_to_def)
  have u: "u < length P" "ri_op (P ! u) \<noteq> RI_MATCH" using bk by (auto simp: code_at_Cons jmp_to_def)
  fix n i j assume "ends ci cls w P n (s, i) j"
  then show "\<exists>k n'. n' \<le> n \<and> (i, k) \<in> R\<^sup>* \<and> ends ci cls w P n' (t, k) j"
  proof (induction n arbitrary: i rule: less_induct)
    case (less n)
    from less.prems obtain n1 y where n: "n = Suc n1" "rstep ci cls w P (s, i) y" "ends ci cls w P n1 y j"
      by (rule ends_step [OF s])
    from iffD1 [OF rstep_split [OF c] n(2)] n(3)
    consider (into) "ends ci cls w P n1 (a, i) j" | (out) "ends ci cls w P n1 (t, i) j" by blast
    then show ?case
    proof cases
      case into
      from runsD1 [OF body this] obtain k n2 where k: "n2 \<le> n1" "(i, k) \<in> R" "ends ci cls w P n2 (u, k) j" by blast
      from k(3) obtain n3 z where z: "n2 = Suc n3" "rstep ci cls w P (u, k) z" "ends ci cls w P n3 z j"
        by (rule ends_step [OF u])
      have "z = (s, k)" by (rule iffD1 [OF rstep_jmp [OF bk] z(2)])
      with z(3) have "ends ci cls w P n3 (s, k) j" by simp
      moreover have "n3 < n" using z(1) k(1) n(1) by simp
      ultimately obtain l n4 where "n4 \<le> n3" "(k, l) \<in> R\<^sup>*" "ends ci cls w P n4 (t, l) j" using less.IH by blast
      with k(2) \<open>n3 < n\<close> show ?thesis
        by (intro exI [of _ l] exI [of _ n4]) (auto intro: converse_rtrancl_into_rtrancl)
    next
      case out
      then show ?thesis using n(1) by (intro exI [of _ i] exI [of _ n1]) simp
    qed
  qed
next
  fix i k assume "(i, k) \<in> R\<^sup>*"
  then show "(rstep ci cls w P)\<^sup>*\<^sup>* (s, i) (t, k)"
  proof (induction rule: converse_rtrancl_induct)
    case base
    show ?case by (rule r_into_rtranclp, rule rstep_into(2) [OF c])
  next
    case (step y z)
    have "rstep ci cls w P (s, y) (a, y)" "rstep ci cls w P (u, z) (s, z)"
      by (rule rstep_into(1) [OF c], rule rstep_into(3) [OF bk])
    with runsD2 [OF body step(1)] step(3) show ?case
      by (meson converse_rtranclp_into_rtranclp rtranclp_trans)
  qed
qed

text \<open>A body that is run at least once: behind it, \<open>SPLIT\<close> back or on.\<close>

lemma runs_plus:
  assumes body: "runs ci cls w P s u R" and bk: "code_at P u (split_to s (Suc u) # d)"
  shows "runs ci cls w P s (Suc u) (R\<^sup>+)"
  unfolding runs_def
proof (intro conjI allI impI)
  have u: "u < length P" "ri_op (P ! u) \<noteq> RI_MATCH" using bk by (auto simp: code_at_Cons split_to_def)
  fix n i j assume "ends ci cls w P n (s, i) j"
  then show "\<exists>k n'. n' \<le> n \<and> (i, k) \<in> R\<^sup>+ \<and> ends ci cls w P n' (Suc u, k) j"
  proof (induction n arbitrary: i rule: less_induct)
    case (less n)
    from runsD1 [OF body less.prems] obtain k n2 where k: "n2 \<le> n" "(i, k) \<in> R" "ends ci cls w P n2 (u, k) j" by blast
    from k(3) obtain n3 z where z: "n2 = Suc n3" "rstep ci cls w P (u, k) z" "ends ci cls w P n3 z j"
      by (rule ends_step [OF u])
    from iffD1 [OF rstep_split [OF bk] z(2)] z(3)
    consider (again) "ends ci cls w P n3 (s, k) j" | (leave) "ends ci cls w P n3 (Suc u, k) j" by blast
    then show ?case
    proof cases
      case again
      moreover have "n3 < n" using z(1) k(1) by simp
      ultimately obtain l n4 where "n4 \<le> n3" "(k, l) \<in> R\<^sup>+" "ends ci cls w P n4 (Suc u, l) j" using less.IH by blast
      with k(2) \<open>n3 < n\<close> show ?thesis
        by (intro exI [of _ l] exI [of _ n4]) (auto intro: trancl_into_trancl2)
    next
      case leave
      then show ?thesis using k z(1) by (intro exI [of _ k] exI [of _ n3]) auto
    qed
  qed
next
  have st: "rstep ci cls w P (u, z) (s, z)" "rstep ci cls w P (u, z) (Suc u, z)" for z
    by (rule rstep_into(1,2) [OF bk])+
  fix i k assume "(i, k) \<in> R\<^sup>+"
  then show "(rstep ci cls w P)\<^sup>*\<^sup>* (s, i) (Suc u, k)"
  proof (induction rule: converse_trancl_induct)
    case (base y)
    then show ?case using runsD2 [OF body] st by (meson rtranclp.rtrancl_into_rtrancl)
  next
    case (step y z)
    then show ?case using runsD2 [OF body step(1)] st
      by (meson converse_rtranclp_into_rtranclp rtranclp_trans)
  qed
qed

text \<open>Copies of a piece compute the powers of its relation.\<close>

lemma runs_copies:
  assumes f: "\<And>s. code_at P s (f s) \<Longrightarrow> runs ci cls w P s (s + n) R" and len: "\<And>s. length (f s) = n"
    and c: "code_at P s (copies k n f s)"
  shows "runs ci cls w P s (s + k * n) (R ^^ k)"
  using c
proof (induction k arbitrary: s)
  case 0
  then show ?case by (simp add: runs_Id)
next
  case (Suc k)
  then have c: "code_at P s (f s)" "code_at P (s + n) (copies k n f (s + n))"
    by (simp_all add: code_at_append len)
  have "runs ci cls w P s (s + n + k * n) (R O R ^^ k)" by (rule runs_comp [OF f [OF c(1)] Suc.IH [OF c(2)]])
  then show ?case by (simp add: relpow_commute add.assoc)
qed

text \<open>Optional copies, each of which may leave for the common end.\<close>

lemma runs_opts:
  assumes f: "\<And>s. code_at P s (f s) \<Longrightarrow> runs ci cls w P s (s + n) R" and len: "\<And>s. length (f s) = n"
    and c: "code_at P s (copies k (Suc n) (\<lambda>s. split_to (Suc s) (s0 + k0) # f (Suc s)) s)" "s0 + k0 = s + k * Suc n"
  shows "runs ci cls w P s (s0 + k0) (\<Union>i \<in> {..k}. R ^^ i)"
  using c
proof (induction k arbitrary: s)
  case 0
  then show ?case by (simp add: runs_Id)
next
  case (Suc k)
  then have c: "code_at P s (split_to (Suc s) (s0 + k0) # f (Suc s))" "code_at P (Suc s) (f (Suc s))"
    "code_at P (s + Suc n) (copies k (Suc n) (\<lambda>s. split_to (Suc s) (s0 + k0) # f (Suc s)) (s + Suc n))"
    by (simp_all add: code_at_append code_at_Cons len)
  have "runs ci cls w P (s + Suc n) (s0 + k0) (\<Union>i \<in> {..k}. R ^^ i)"
    by (rule Suc.IH [OF c(3)]) (use Suc.prems(2) in simp)
  moreover have "runs ci cls w P (Suc s) (s + Suc n) R" using f [OF c(2)] by simp
  ultimately have "runs ci cls w P (Suc s) (s0 + k0) (R O (\<Union>i \<in> {..k}. R ^^ i))" by (rule runs_comp [rotated])
  from runs_split [OF c(1) this runs_Id]
  have "runs ci cls w P s (s0 + k0) (R O (\<Union>i \<in> {..k}. R ^^ i) \<union> Id)" .
  moreover have "R O (\<Union>i \<in> {..k}. R ^^ i) \<union> Id = (\<Union>i \<in> {..Suc k}. R ^^ i)"
  proof -
    have "(\<Union>i \<in> {..Suc k}. R ^^ i) = R ^^ 0 \<union> (\<Union>i \<in> {..k}. R ^^ Suc i)"
      by (simp only: atMost_Suc_eq_insert_0 UN_insert image_image UN_simps)
    also have "(\<Union>i \<in> {..k}. R ^^ Suc i) = R O (\<Union>i \<in> {..k}. R ^^ i)"
      by (simp only: relpow.simps relpow_commute relcomp_UNION_distrib)
    finally show ?thesis by auto
  qed
  ultimately show ?case by simp
qed

lemma relpow_Union: "(\<Union>k \<in> {a..a + b}. R ^^ k) = R ^^ a O (\<Union>i \<in> {..b}. R ^^ i)"
proof -
  have "{a..a + b} = (\<lambda>i. a + i) ` {..b}" by (auto simp: image_iff le_iff_add)
  then show ?thesis by (simp only: UN_simps relpow_add relcomp_UNION_distrib)
qed

lemma relpow_star: "(\<Union>k \<in> {0..}. R ^^ k) = R\<^sup>*"
  by (auto simp: rtrancl_power)

lemma relpow_plus: "(\<Union>k \<in> {Suc a..}. R ^^ k) = R ^^ a O R\<^sup>+"
proof -
  have "{Suc a..} = (\<lambda>i. a + i) ` {1..}" by (auto simp: image_iff le_iff_add)
  then have "(\<Union>k \<in> {Suc a..}. R ^^ k) = R ^^ a O (\<Union>k \<in> {1..}. R ^^ k)"
    by (simp only: UN_simps relpow_add relcomp_UNION_distrib)
  also have "(\<Union>k \<in> {1..}. R ^^ k) = R\<^sup>+" by (auto simp: trancl_power Bex_def Suc_le_eq)
  finally show ?thesis .
qed

text \<open>The program of a tree computes the meaning of the tree.\<close>

lemma code_runs: "rep_ok r \<Longrightarrow> code_at P s (code r s) \<Longrightarrow> runs ci cls w P s (s + csize r) (re_lang ci cls w r)"
proof (induction r arbitrary: s)
  case RN_EMPTY
  then show ?case by (simp add: runs_Id)
next
  case (RN_CAT a b)
  show ?case
  proof (cases b)
    case None
    then show ?thesis using RN_CAT by simp
  next
    case (Some d)
    then have c: "code_at P s (code a s)" "code_at P (s + csize a) (code d (s + csize a))" "rep_ok a" "rep_ok d"
      using RN_CAT.prems by (simp_all add: code_at_append)
    have "runs ci cls w P (s + csize a) (s + csize a + csize d) (re_lang ci cls w d)"
      using RN_CAT.IH(2) [of d "s + csize a"] Some c by simp
    from runs_comp [OF RN_CAT.IH(1) [OF c(3,1)] this] show ?thesis using Some by (simp add: add.assoc)
  qed
next
  case (RN_ALT a b)
  let ?e = "s + csize a + csize b + 2" and ?m = "s + csize a + 2"
  have c: "code_at P s (split_to (s + 1) ?m # code a (s + 1) @ jmp_to ?e # code b ?m)"
    "code_at P (s + 1) (code a (s + 1))" "code_at P (s + 1 + csize a) (jmp_to ?e # code b ?m)" "code_at P ?m (code b ?m)"
    using RN_ALT.prems(2) by (auto simp: code_at_Cons code_at_append)
  have "runs ci cls w P (s + 1) (s + 1 + csize a) (re_lang ci cls w a)"
    using RN_ALT.IH(1) [OF _ c(2)] RN_ALT.prems(1) by simp
  from runs_comp [OF this runs_jmp [OF c(3)]]
  have a: "runs ci cls w P (s + 1) ?e (re_lang ci cls w a)" by simp
  have "runs ci cls w P ?m (?m + csize b) (re_lang ci cls w b)"
    using RN_ALT.IH(2) [OF _ c(4)] RN_ALT.prems(1) by simp
  moreover have "?m + csize b = ?e" by simp
  ultimately have b: "runs ci cls w P ?m ?e (re_lang ci cls w b)" by simp
  from runs_split [OF c(1) a b] show ?case by (simp add: add.assoc)
next
  case (RN_REP a m n)
  let ?R = "re_lang ci cls w a"
  have f: "code_at P s (code a s) \<Longrightarrow> runs ci cls w P s (s + csize a) ?R" for s
    using RN_REP by simp
  consider (star) "n < 0" "m = 0" | (plus) "n < 0" "m \<noteq> 0" | (opts) "0 \<le> n" by linarith
  then show ?case
  proof cases
    case star
    then have c: "code_at P s (split_to (s + 1) (s + csize a + 2) # code a (s + 1) @ [jmp_to s])"
      using RN_REP.prems(2) by simp
    then have c2: "code_at P (s + 1) (code a (s + 1))" "code_at P (s + 1 + csize a) [jmp_to s]"
      by (simp_all add: code_at_Cons code_at_append)
    from runs_star [OF c f [OF c2(1)] c2(2)] show ?thesis using star relpow_star [of ?R]
      by (simp add: add.assoc)
  next
    case plus
    let ?k = "nat (m - 1)"
    let ?l = "s + ?k * csize a"
    have "0 < m" using plus RN_REP.prems(1) by auto
    then have m: "nat m = Suc ?k" by (simp add: nat_diff_distrib)
    have c: "code_at P s (copies ?k (csize a) (\<lambda>s. code a s) s)" "code_at P ?l (code a ?l)"
      "code_at P (?l + csize a) [split_to ?l (Suc (?l + csize a))]"
      using plus RN_REP.prems(2) by (simp_all add: code_at_append Let_def length_copies)
    have "runs ci cls w P s ?l (?R ^^ ?k)" by (rule runs_copies [OF f length_code c(1)])
    from runs_comp [OF this runs_plus [OF f [OF c(2)] c(3)]]
    have "runs ci cls w P s (Suc (?l + csize a)) (?R ^^ ?k O ?R\<^sup>+)" .
    then show ?thesis using plus m relpow_plus [of ?R ?k] by (simp add: ac_simps)
  next
    case opts
    let ?l = "s + nat m * csize a" and ?e = "nat (n - m) * Suc (csize a)"
    have n: "nat n = nat m + nat (n - m)" using opts RN_REP.prems(1) by auto
    have c: "code_at P s (copies (nat m) (csize a) (\<lambda>s. code a s) s)"
      "code_at P ?l (copies (nat (n - m)) (Suc (csize a)) (\<lambda>s. split_to (Suc s) (?l + ?e) # code a (Suc s)) ?l)"
      using opts RN_REP.prems(2) by (simp_all add: code_at_append Let_def length_copies)
    have "runs ci cls w P s ?l (?R ^^ nat m)" by (rule runs_copies [OF f length_code c(1)])
    from runs_comp [OF this runs_opts [OF f length_code c(2) refl]]
    have "runs ci cls w P s (?l + ?e) (?R ^^ nat m O (\<Union>i \<in> {..nat (n - m)}. ?R ^^ i))" .
    then show ?thesis using opts relpow_Union [of ?R "nat m" "nat (n - m)"] n by (simp add: add.assoc)
  qed
qed (auto simp: code_at_Cons rstep_simps eps_def takes_def inst_def ch_rel_def intro!: runs_one split: if_splits)

section \<open>Well-formed programs\<close>

text \<open>All jumps stay within the program, whose last instruction is its only \<open>RI_MATCH\<close>.\<close>

definition targets_ok :: "nat \<Rightarrow> re_inst \<Rightarrow> bool" where
  "targets_ok e ip \<longleftrightarrow> ri_op ip \<noteq> RI_MATCH \<and>
     (ri_op ip = RI_JMP \<longrightarrow> 0 \<le> ri_x ip \<and> ri_x ip \<le> int e) \<and>
     (ri_op ip = RI_SPLIT \<longrightarrow> 0 \<le> ri_x ip \<and> ri_x ip \<le> int e \<and> 0 \<le> ri_y ip \<and> ri_y ip \<le> int e)"

lemma targets_simps [simp]:
  "targets_ok e (split_to a b) \<longleftrightarrow> a \<le> e \<and> b \<le> e" "targets_ok e (jmp_to a) \<longleftrightarrow> a \<le> e"
  by (auto simp: targets_ok_def split_to_def jmp_to_def)

lemma targets_copies:
  "(\<And>s. s + n \<le> e \<Longrightarrow> list_all (targets_ok e) (f s)) \<Longrightarrow> s + k * n \<le> e \<Longrightarrow> list_all (targets_ok e) (copies k n f s)"
  by (induction k arbitrary: s) (simp_all add: add.assoc)

lemma code_targets: "s + csize r \<le> e \<Longrightarrow> list_all (targets_ok e) (code r s)"
proof (induction r arbitrary: s)
  case (RN_CAT a b)
  then show ?case by (cases b) (auto simp: add.assoc)
next
  case (RN_REP a m n)
  have f: "s + csize a \<le> e \<Longrightarrow> list_all (targets_ok e) (code a s)" for s by (rule RN_REP)
  consider (star) "n < 0" "m = 0" | (plus) "n < 0" "m \<noteq> 0" | (opts) "0 \<le> n" by linarith
  then show ?case
  proof cases
    case star
    then show ?thesis using RN_REP.prems f [of "s + 1"] by simp
  next
    case plus
    then show ?thesis
      using RN_REP.prems targets_copies [of "csize a" e "\<lambda>s. code a s" s "nat (m - 1)"] f
      by (auto simp: Let_def algebra_simps)
  next
    case opts
    let ?l = "s + nat m * csize a"
    have "list_all (targets_ok e) (copies (nat (n - m)) (csize a + 1) (\<lambda>s. split_to (s + 1) (?l + nat (n - m) * (csize a + 1)) # code a (s + 1)) ?l)"
      by (rule targets_copies) (use opts RN_REP.prems f in \<open>auto simp: algebra_simps\<close>)
    moreover have "list_all (targets_ok e) (copies (nat m) (csize a) (\<lambda>s. code a s) s)"
      by (rule targets_copies) (use opts RN_REP.prems f in \<open>auto simp: algebra_simps\<close>)
    ultimately show ?thesis using opts by (simp add: Let_def)
  qed
next
  case (RN_ALT a b)
  then show ?case by simp
qed (simp_all add: targets_ok_def inst_def)

definition prog_ok :: "prog \<Rightarrow> bool" where
  "prog_ok P \<longleftrightarrow> P \<noteq> [] \<and> ri_op (last P) = RI_MATCH \<and> list_all (targets_ok (length P - 1)) (butlast P)"

definition whole :: "rnode \<Rightarrow> prog" where
  "whole r = code r 0 @ [inst RI_MATCH NUL 0]"

lemma whole_ok: "prog_ok (whole r)"
  using code_targets [of 0 r "csize r"] by (simp add: prog_ok_def whole_def butlast_append inst_def)

lemma prog_ok_match: "prog_ok P \<Longrightarrow> pc < length P \<Longrightarrow> ri_op (P ! pc) = RI_MATCH \<longleftrightarrow> pc = length P - 1"
proof -
  assume P: "prog_ok P" "pc < length P"
  show ?thesis
  proof (cases "pc = length P - 1")
    case True
    have "P \<noteq> []" "ri_op (last P) = RI_MATCH" using P(1) by (auto simp: prog_ok_def)
    then show ?thesis using True by (metis last_conv_nth)
  next
    case False
    then have "pc < length (butlast P)" using P(2) by simp
    then have "targets_ok (length P - 1) (P ! pc)" using P(1) by (simp add: prog_ok_def list_all_length nth_butlast)
    then show ?thesis using False by (simp add: targets_ok_def)
  qed
qed

lemma prog_ok_eps: "prog_ok P \<Longrightarrow> pc < length P \<Longrightarrow> pc' \<in> eps P len i pc \<Longrightarrow> pc' < length P"
proof -
  assume P: "prog_ok P" "pc < length P" "pc' \<in> eps P len i pc"
  then have "ri_op (P ! pc) \<noteq> RI_MATCH" by (auto simp: eps_def)
  then have "pc < length P - 1" using prog_ok_match [OF P(1,2)] P(2) by linarith
  then have pc: "pc < length (butlast P)" by simp
  then have "targets_ok (length P - 1) (P ! pc)" using P(1) by (simp add: prog_ok_def list_all_length nth_butlast)
  then show ?thesis using P(3) pc by (auto simp: targets_ok_def eps_def split: re_op.splits if_splits)
qed

lemma prog_ok_takes: "prog_ok P \<Longrightarrow> pc < length P \<Longrightarrow> takes ci cls (P ! pc) c \<Longrightarrow> Suc pc < length P"
proof -
  assume P: "prog_ok P" "pc < length P" "takes ci cls (P ! pc) c"
  then have "ri_op (P ! pc) \<noteq> RI_MATCH" by (auto simp: takes_def)
  then show ?thesis using prog_ok_match [OF P(1,2)] P(2) by linarith
qed

text \<open>The runs of the whole program are the meaning of the tree.\<close>

lemma whole_matches:
  assumes "rep_ok r"
  shows "(rstep ci cls w (whole r))\<^sup>*\<^sup>* (0, s) (length (whole r) - 1, e) \<longleftrightarrow> (s, e) \<in> re_lang ci cls w r"
proof -
  let ?P = "whole r"
  have c: "code_at ?P 0 (code r 0)" by (auto simp: code_at_def whole_def nth_append)
  note R = code_runs [OF assms c, of ci cls w, simplified]
  have len: "length ?P - 1 = csize r" "csize r < length ?P" by (simp_all add: whole_def)
  have m: "ri_op (?P ! csize r) = RI_MATCH" by (simp add: whole_def nth_append inst_def)
  show ?thesis unfolding len
  proof
    assume "(rstep ci cls w ?P)\<^sup>*\<^sup>* (0, s) (csize r, e)"
    then obtain n where "(rstep ci cls w ?P ^^ n) (0, s) (csize r, e)" using rtranclp_imp_relpowp by metis
    then have "ends ci cls w ?P n (0, s) e" unfolding ends_def using m len by blast
    from runsD1 [OF R this] obtain k n' where k: "(s, k) \<in> re_lang ci cls w r" "ends ci cls w ?P n' (csize r, k) e" by blast
    have "\<not> rstep ci cls w ?P (csize r, k) y" for y using m by (auto simp: rstep_simps eps_def takes_def)
    with k(2) have "n' = 0" using ends_Suc by (cases n') blast+
    with k show "(s, e) \<in> re_lang ci cls w r" by (simp add: ends_0)
  next
    assume "(s, e) \<in> re_lang ci cls w r"
    then show "(rstep ci cls w ?P)\<^sup>*\<^sup>* (0, s) (csize r, e)" by (rule runsD2 [OF R])
  qed
qed

end
