(* ===== verification/As_RegexSearch.thy ===== *)
theory As_RegexSearch
  imports As_RegexProg
begin

text \<open>
  Compilation and search of \<^verbatim>\<open>std/regex.c\<close>. The search keeps two lists of threads with their match
  starts; the marks that keep one thread per instruction are stamped with a generation counter of 32
  bits that survives from search to search. A position is a byte of the input.
\<close>

section \<open>Compilation\<close>

record astd_regex =
  re_prog :: prog
  re_cls :: "cmap list"
  re_fold :: bool
  re_marka :: "nat list"
  re_markb :: "nat list"
  re_genp :: nat

definition astd_regex_compile :: "string option \<Rightarrow> bool \<Rightarrow> astd_regex rres" where
  "astd_regex_compile pattern case_sensitive =
     (case pattern of None \<Rightarrow> Inl ''null pattern''
      | Some p \<Rightarrow>
          bindr (parse_pattern (\<not> case_sensitive) p) (\<lambda>(root, ps).
          bindr (emit_node root []) (\<lambda>prog.
          bindr (emit1 RI_MATCH NUL 0 prog) (\<lambda>prog.
          Inr \<lparr>re_prog = prog, re_cls = rp_cls ps, re_fold = (\<not> case_sensitive),
               re_marka = replicate (length prog) 0, re_markb = replicate (length prog) 0, re_genp = 0\<rparr>))))"

section \<open>Thread lists\<close>

record threads =
  th_mark :: "nat list"
  th_start :: "nat list"
  th_list :: "nat list"

text \<open>
  Insertion of a program counter with all it reaches without reading. A counter outside the program
  is skipped; no program has a jump to one.
\<close>

function re_add_loop :: "prog \<Rightarrow> nat \<Rightarrow> nat \<Rightarrow> nat \<Rightarrow> nat \<Rightarrow> nat list \<Rightarrow> threads \<Rightarrow> threads" where
  "re_add_loop P gen s pos len [] th = th"
| "re_add_loop P gen s pos len (pc # stk) th =
     (if pc \<ge> length (th_mark th) \<or> th_mark th ! pc = gen then re_add_loop P gen s pos len stk th
      else
        let th = th\<lparr>th_mark := (th_mark th)[pc := gen], th_start := (th_start th)[pc := s]\<rparr>; ip = P ! pc in
        (case ri_op ip of
           RI_JMP \<Rightarrow> re_add_loop P gen s pos len (nat (ri_x ip) # stk) th
         | RI_SPLIT \<Rightarrow> re_add_loop P gen s pos len (nat (ri_x ip) # nat (ri_y ip) # stk) th
         | RI_BOL \<Rightarrow> re_add_loop P gen s pos len (if pos = 0 then (pc + 1) # stk else stk) th
         | RI_EOL \<Rightarrow> re_add_loop P gen s pos len (if pos = len then (pc + 1) # stk else stk) th
         | _ \<Rightarrow> re_add_loop P gen s pos len stk (th\<lparr>th_list := th_list th @ [pc]\<rparr>)))"
  by pat_completeness auto

definition unmarked :: "nat \<Rightarrow> threads \<Rightarrow> nat" where
  "unmarked gen th = length (filter (\<lambda>g. g \<noteq> gen) (th_mark th))"

lemma filter_update_less: "k < length xs \<Longrightarrow> xs ! k \<noteq> g \<Longrightarrow> length (filter (\<lambda>x. x \<noteq> g) (xs[k := g])) < length (filter (\<lambda>x. x \<noteq> g) xs)"
proof (induction xs arbitrary: k)
  case (Cons x xs)
  then show ?case by (cases k) auto
qed simp

termination re_add_loop
  by (relation "measures [\<lambda>(P, gen, s, pos, len, stk, th). unmarked gen th, \<lambda>(P, gen, s, pos, len, stk, th). length stk]")
    (auto simp: unmarked_def filter_update_less)

declare re_add_loop.simps(2) [simp del]

definition re_add :: "prog \<Rightarrow> nat \<Rightarrow> nat \<Rightarrow> nat \<Rightarrow> nat \<Rightarrow> nat \<Rightarrow> threads \<Rightarrow> threads" where
  "re_add P gen pc s pos len th = re_add_loop P gen s pos len [pc] th"

section \<open>Search\<close>

record best =
  b_found :: bool
  b_start :: nat
  b_end :: nat

definition harvest_one :: "prog \<Rightarrow> nat \<Rightarrow> nat list \<Rightarrow> nat \<Rightarrow> best \<Rightarrow> best" where
  "harvest_one P pos start pc b =
     (if ri_op (P ! pc) = RI_MATCH then
        let s = start ! pc in
        if \<not> b_found b \<or> s < b_start b then \<lparr>b_found = True, b_start = s, b_end = pos\<rparr>
        else if s = b_start b \<and> pos > b_end b then b\<lparr>b_end := pos\<rparr>
        else b
      else b)"

definition harvest :: "prog \<Rightarrow> nat \<Rightarrow> threads \<Rightarrow> best \<Rightarrow> best" where
  "harvest P pos cur_th b = fold (harvest_one P pos (th_start cur_th)) (th_list cur_th) b"

definition step_one :: "bool \<Rightarrow> cmap list \<Rightarrow> prog \<Rightarrow> char \<Rightarrow> best \<Rightarrow> nat \<Rightarrow> nat \<Rightarrow> nat \<Rightarrow> nat list \<Rightarrow> nat \<Rightarrow> threads \<Rightarrow> threads" where
  "step_one ci cls P c b gen pos len start pc nxt =
     (let s = start ! pc in
      if b_found b \<and> s > b_start b then nxt
      else if takes ci cls (P ! pc) c then re_add P gen (pc + 1) s (pos + 1) len nxt
      else nxt)"

definition next_gen :: "nat \<Rightarrow> nat" where
  "next_gen g = (g + 1) mod 2 ^ 32"

text \<open>
  The loop from a position: the threads there, the other arrays, the generation, the best match so far;
  \<open>flip\<close> says that the two pairs of arrays have changed places an odd number of times.
\<close>

function search_loop :: "bool \<Rightarrow> cmap list \<Rightarrow> prog \<Rightarrow> string \<Rightarrow> nat \<Rightarrow> nat \<Rightarrow> threads \<Rightarrow> threads \<Rightarrow> bool \<Rightarrow> best
    \<Rightarrow> best \<times> nat \<times> threads \<times> threads \<times> bool" where
  "search_loop ci cls P w pos gen cth oth flip b =
     (let b = harvest P pos cth b in
      if pos \<ge> length w then (b, gen, cth, oth, flip)
      else
        let gen = next_gen gen;
            oth = fold (step_one ci cls P (w ! pos) b gen pos (length w) (th_start cth)) (th_list cth) (oth\<lparr>th_list := []\<rparr>);
            oth = (if \<not> b_found b then re_add P gen 0 (pos + 1) (pos + 1) (length w) oth else oth)
        in if th_list oth = [] \<and> b_found b then (b, gen, oth, cth, \<not> flip)
           else search_loop ci cls P w (pos + 1) gen oth cth (\<not> flip) b)"
  by pat_completeness auto
termination search_loop
  by (relation "measure (\<lambda>(ci, cls, P, w, pos, gen, cth, oth, flip, b). length w - pos)") auto

declare search_loop.simps [simp del]

definition no_best :: best where
  "no_best = \<lparr>b_found = False, b_start = 0, b_end = 0\<rparr>"

text \<open>The whole search: the match, and the scratch memory it leaves.\<close>

definition astd_regex_search :: "astd_regex \<Rightarrow> string \<Rightarrow> (nat \<times> nat) option \<times> astd_regex" where
  "astd_regex_search re w =
     (let n = length (re_prog re);
          re = (if re_genp re \<ge> 0xc0000000
                then re\<lparr>re_marka := replicate n 0, re_markb := replicate n 0, re_genp := 0\<rparr> else re);
          gen = next_gen (re_genp re);
          cth = re_add (re_prog re) gen 0 0 0 (length w) \<lparr>th_mark = re_marka re, th_start = replicate n 0, th_list = []\<rparr>;
          oth = \<lparr>th_mark = re_markb re, th_start = replicate n 0, th_list = []\<rparr>
      in case search_loop (re_fold re) (re_cls re) (re_prog re) w 0 gen cth oth False no_best of
           (b, gen, cth, oth, flip) \<Rightarrow>
             (if b_found b then Some (b_start b, b_end b) else None,
              re\<lparr>re_marka := th_mark (if flip then oth else cth), re_markb := th_mark (if flip then cth else oth), re_genp := gen\<rparr>))"

section \<open>Insertion closes the marks\<close>

definition eps_list :: "prog \<Rightarrow> nat \<Rightarrow> nat \<Rightarrow> nat \<Rightarrow> nat list" where
  "eps_list P len i pc =
     (case ri_op (P ! pc) of
        RI_JMP \<Rightarrow> [nat (ri_x (P ! pc))]
      | RI_SPLIT \<Rightarrow> [nat (ri_x (P ! pc)), nat (ri_y (P ! pc))]
      | RI_BOL \<Rightarrow> (if i = 0 then [Suc pc] else [])
      | RI_EOL \<Rightarrow> (if i = len then [Suc pc] else [])
      | _ \<Rightarrow> [])"

lemma set_eps_list: "set (eps_list P len i pc) = eps P len i pc"
  by (auto simp: eps_list_def eps_def split: re_op.splits)

definition listed :: "prog \<Rightarrow> nat \<Rightarrow> bool" where
  "listed P pc \<longleftrightarrow> ri_op (P ! pc) \<in> {RI_CHAR, RI_CLASS, RI_ANY, RI_MATCH}"

definition marked :: "nat \<Rightarrow> threads \<Rightarrow> nat set" where
  "marked gen th = {pc. pc < length (th_mark th) \<and> th_mark th ! pc = gen}"

definition put :: "prog \<Rightarrow> nat \<Rightarrow> nat \<Rightarrow> nat \<Rightarrow> threads \<Rightarrow> threads" where
  "put P gen s pc th = th\<lparr>th_mark := (th_mark th)[pc := gen], th_start := (th_start th)[pc := s],
     th_list := (if listed P pc then th_list th @ [pc] else th_list th)\<rparr>"

lemma re_add_step:
  "re_add_loop P gen s pos len (pc # stk) th =
     (if pc \<notin> {..<length (th_mark th)} - marked gen th then re_add_loop P gen s pos len stk th
      else re_add_loop P gen s pos len (eps_list P len pos pc @ stk) (put P gen s pc th))"
  by (cases "ri_op (P ! pc)")
    (auto simp: re_add_loop.simps(2) [of P gen s pos len pc stk th] marked_def put_def listed_def eps_list_def Let_def)

text \<open>An induction that follows the loop.\<close>

lemma re_add_induct:
  assumes nil: "\<And>th. Q [] th"
    and skip: "\<And>pc stk th. pc \<notin> {..<length (th_mark th)} - marked gen th \<Longrightarrow> Q stk th \<Longrightarrow> Q (pc # stk) th"
    and push: "\<And>pc stk th. pc < length (th_mark th) \<Longrightarrow> pc \<notin> marked gen th \<Longrightarrow>
      Q (eps_list P len pos pc @ stk) (put P gen s pc th) \<Longrightarrow> Q (pc # stk) th"
  shows "Q stk th"
proof (induction "(stk, th)" arbitrary: stk th rule: wf_induct_rule [OF wf_measures [of "[\<lambda>(stk, th). unmarked gen th, \<lambda>(stk, th). length stk]"]])
  case (1 stk th)
  show ?case
  proof (cases stk)
    case Nil
    then show ?thesis using nil by simp
  next
    case (Cons pc r)
    show ?thesis
    proof (cases "pc < length (th_mark th) \<and> pc \<notin> marked gen th")
      case True
      then have "unmarked gen (put P gen s pc th) < unmarked gen th"
        by (auto simp: unmarked_def put_def marked_def intro: filter_update_less)
      then have "Q (eps_list P len pos pc @ r) (put P gen s pc th)" by (intro 1) simp
      then show ?thesis using push True Cons by blast
    next
      case False
      have "Q r th" by (rule 1) (simp add: Cons)
      then show ?thesis using skip False Cons by auto
    qed
  qed
qed

text \<open>Lists and marks that belong together: one start per marked instruction, none after \<open>s\<close>, in the order of the list.\<close>

definition th_ok :: "prog \<Rightarrow> nat \<Rightarrow> nat \<Rightarrow> threads \<Rightarrow> bool" where
  "th_ok P gen s th \<longleftrightarrow> length (th_mark th) = length P \<and> length (th_start th) = length P \<and>
     distinct (th_list th) \<and> set (th_list th) = {pc \<in> marked gen th. listed P pc} \<and>
     sorted (map ((!) (th_start th)) (th_list th)) \<and> (\<forall>pc \<in> marked gen th. th_start th ! pc \<le> s)"

text \<open>Every step without reading from a marked instruction leads to one marked no later, or pending in \<open>X\<close> from one marked now.\<close>

definition closed_upto :: "prog \<Rightarrow> nat \<Rightarrow> nat \<Rightarrow> nat \<Rightarrow> nat \<Rightarrow> nat set \<Rightarrow> threads \<Rightarrow> bool" where
  "closed_upto P len pos gen s X th \<longleftrightarrow>
     (\<forall>pc \<in> marked gen th. \<forall>q \<in> eps P len pos pc. (q \<in> X \<and> th_start th ! pc = s) \<or> (q \<in> marked gen th \<and> th_start th ! q \<le> th_start th ! pc))"

lemma marked_put: "pc < length (th_mark th) \<Longrightarrow> marked gen (put P gen s pc th) = insert pc (marked gen th)"
  by (auto simp: marked_def put_def nth_list_update)

lemma put_start: "length (th_start th) = length P \<Longrightarrow> pc < length P \<Longrightarrow> th_start (put P gen s pc th) ! q = (if q = pc then s else th_start th ! q)"
  by (simp add: put_def nth_list_update)

lemma put_ok:
  assumes ok: "th_ok P gen s th" and pc: "pc < length P" "pc \<notin> marked gen th"
  shows "th_ok P gen s (put P gen s pc th)"
proof -
  have len: "length (th_mark th) = length P" "length (th_start th) = length P" using ok by (auto simp: th_ok_def)
  have m: "marked gen (put P gen s pc th) = insert pc (marked gen th)" using marked_put pc(1) len(1) by simp
  have no: "pc \<notin> set (th_list th)" using ok pc(2) by (auto simp: th_ok_def)
  have "(th_start th)[pc := s] ! x = th_start th ! x" if "x \<in> set (th_list th)" for x
    using that no by (metis nth_list_update_neq)
  then have same: "map ((!) ((th_start th)[pc := s])) (th_list th) = map ((!) (th_start th)) (th_list th)" by simp
  have "sorted (map ((!) (th_start th)) (th_list th))" using ok by (simp add: th_ok_def)
  then have srt: "sorted (map ((!) ((th_start th)[pc := s])) (th_list th))" unfolding same .
  show ?thesis
    using ok no srt len pc(1) unfolding th_ok_def m
    by (auto simp: put_def nth_list_update sorted_append)
qed

text \<open>What is reached without reading.\<close>

abbreviation estep :: "prog \<Rightarrow> nat \<Rightarrow> nat \<Rightarrow> nat \<Rightarrow> nat \<Rightarrow> bool" where
  "estep P len pos \<equiv> \<lambda>a b. b \<in> eps P len pos a"

definition grows :: "prog \<Rightarrow> nat \<Rightarrow> nat \<Rightarrow> nat \<Rightarrow> nat \<Rightarrow> nat set \<Rightarrow> threads \<Rightarrow> threads \<Rightarrow> bool" where
  "grows P len pos gen s X th th' \<longleftrightarrow>
     marked gen th \<subseteq> marked gen th' \<and> X \<subseteq> marked gen th' \<and>
     (\<forall>pc \<in> marked gen th. th_start th' ! pc = th_start th ! pc) \<and>
     (\<forall>pc \<in> marked gen th' - marked gen th. th_start th' ! pc = s \<and> (\<exists>q \<in> X. (estep P len pos)\<^sup>*\<^sup>* q pc))"

lemma closed_uptoD:
  "closed_upto P len pos gen s X th \<Longrightarrow> p \<in> marked gen th \<Longrightarrow> q \<in> eps P len pos p \<Longrightarrow>
    (q \<in> X \<and> th_start th ! p = s) \<or> (q \<in> marked gen th \<and> th_start th ! q \<le> th_start th ! p)"
  unfolding closed_upto_def by blast

lemma closed_skip:
  assumes "closed_upto P len pos gen s (insert pc X) th" "pc \<in> marked gen th" "th_start th ! pc \<le> s"
  shows "closed_upto P len pos gen s X th"
  using assms unfolding closed_upto_def by (metis insert_iff)

lemma closed_put:
  assumes "closed_upto P len pos gen s (insert pc X) th" "th_ok P gen s th" "pc < length P" "pc \<notin> marked gen th"
  shows "closed_upto P len pos gen s (eps P len pos pc \<union> X) (put P gen s pc th)"
proof -
  have len: "length (th_mark th) = length P" "length (th_start th) = length P" using assms(2) by (auto simp: th_ok_def)
  have m: "marked gen (put P gen s pc th) = insert pc (marked gen th)" using marked_put assms(3) len(1) by simp
  note st = put_start [OF len(2) assms(3)]
  show ?thesis
    unfolding closed_upto_def m st
  proof (intro ballI)
    fix p q assume p: "p \<in> insert pc (marked gen th)" and q: "q \<in> eps P len pos p"
    show "q \<in> eps P len pos pc \<union> X \<and> (if p = pc then s else th_start th ! p) = s \<or>
          q \<in> insert pc (marked gen th) \<and>
          (if q = pc then s else th_start th ! q) \<le> (if p = pc then s else th_start th ! p)"
    proof (cases "p = pc")
      case True
      then show ?thesis using q by simp
    next
      case False
      then have "p \<in> marked gen th" using p by simp
      from closed_uptoD [OF assms(1) this q] False assms(4) show ?thesis by auto
    qed
  qed
qed

lemma grows_put:
  assumes g: "grows P len pos gen s (eps P len pos pc \<union> X) (put P gen s pc th) th'" and ok: "th_ok P gen s th"
    and pc: "pc < length P" "pc \<notin> marked gen th"
  shows "grows P len pos gen s (insert pc X) th th'"
proof -
  have len: "length (th_mark th) = length P" "length (th_start th) = length P" using ok by (auto simp: th_ok_def)
  have m: "marked gen (put P gen s pc th) = insert pc (marked gen th)" using marked_put pc(1) len(1) by simp
  note st = put_start [OF len(2) pc(1)]
  have new: "th_start th' ! x = s \<and> (\<exists>q \<in> insert pc X. (estep P len pos)\<^sup>*\<^sup>* q x)"
    if x: "x \<in> marked gen th' - marked gen th" for x
  proof (cases "x = pc")
    case True
    have "pc \<in> marked gen (put P gen s pc th)" using m by simp
    then have "th_start th' ! pc = s" using g st unfolding grows_def by simp
    then show ?thesis using True by blast
  next
    case False
    then have "x \<in> marked gen th' - marked gen (put P gen s pc th)" using x m by simp
    then obtain q where q: "th_start th' ! x = s" "q \<in> eps P len pos pc \<union> X" "(estep P len pos)\<^sup>*\<^sup>* q x"
      using g unfolding grows_def by blast
    show ?thesis
    proof (cases "q \<in> X")
      case False
      then have "(estep P len pos)\<^sup>*\<^sup>* pc x" using q by (auto intro: converse_rtranclp_into_rtranclp)
      then show ?thesis using q(1) by blast
    qed (use q in blast)
  qed
  have "\<forall>x \<in> marked gen th. th_start th' ! x = th_start th ! x"
    using g st m pc(2) unfolding grows_def by (metis insert_iff)
  then show ?thesis using g m new unfolding grows_def by blast
qed

lemma re_add_loop_spec:
  assumes P: "prog_ok P"
  shows "th_ok P gen s th \<Longrightarrow> set stk \<subseteq> {..<length P} \<Longrightarrow> closed_upto P len pos gen s (set stk) th \<Longrightarrow>
    th_ok P gen s (re_add_loop P gen s pos len stk th) \<and>
    closed_upto P len pos gen s {} (re_add_loop P gen s pos len stk th) \<and>
    grows P len pos gen s (set stk) th (re_add_loop P gen s pos len stk th)"
proof (induction stk th rule: re_add_induct [where P = P and gen = gen and s = s and pos = pos and len = len])
  case (1 th)
  then show ?case by (simp add: grows_def)
next
  case (2 pc stk th)
  have len: "length (th_mark th) = length P" and le: "\<forall>p \<in> marked gen th. th_start th ! p \<le> s"
    using 2(3) by (simp_all add: th_ok_def)
  then have pc: "pc \<in> marked gen th" using 2(1,4) by auto
  have "closed_upto P len pos gen s (set stk) th"
    by (rule closed_skip [of _ _ _ _ _ pc]) (use 2(5) pc le in auto)
  with 2(2-4) have ih: "th_ok P gen s (re_add_loop P gen s pos len stk th)"
    "closed_upto P len pos gen s {} (re_add_loop P gen s pos len stk th)"
    "grows P len pos gen s (set stk) th (re_add_loop P gen s pos len stk th)" by auto
  then show ?case using 2(1) pc by (auto simp: re_add_step grows_def)
next
  case (3 pc stk th)
  have len: "length (th_mark th) = length P" using 3(4) by (simp add: th_ok_def)
  have pc: "pc < length P" using 3(1) len by simp
  let ?t = "put P gen s pc th" and ?stk = "eps_list P len pos pc @ stk"
  have ok: "th_ok P gen s ?t" by (rule put_ok [OF 3(4) pc 3(2)])
  have set: "set ?stk = eps P len pos pc \<union> set stk" by (simp add: set_eps_list)
  have bound: "set ?stk \<subseteq> {..<length P}" using 3(5) prog_ok_eps [OF P pc] by (auto simp: set_eps_list)
  have cl: "closed_upto P len pos gen s (set ?stk) ?t"
    unfolding set by (rule closed_put) (use 3 pc in auto)
  have step: "re_add_loop P gen s pos len (pc # stk) th = re_add_loop P gen s pos len ?stk ?t"
    using 3(1,2) by (simp add: re_add_step)
  from 3(3) [OF ok bound cl] grows_put [OF _ 3(4) pc 3(2), of len pos "set stk"] show ?case
    unfolding step set by simp
qed

lemma re_add_spec:
  assumes "prog_ok P" "th_ok P gen s th" "pc < length P" "closed_upto P len pos gen s {} th"
  shows "th_ok P gen s (re_add P gen pc s pos len th)"
    and "closed_upto P len pos gen s {} (re_add P gen pc s pos len th)"
    and "grows P len pos gen s {pc} th (re_add P gen pc s pos len th)"
proof -
  have "closed_upto P len pos gen s {pc} th" using assms(4) unfolding closed_upto_def by blast
  then show "th_ok P gen s (re_add P gen pc s pos len th)"
    "closed_upto P len pos gen s {} (re_add P gen pc s pos len th)"
    "grows P len pos gen s {pc} th (re_add P gen pc s pos len th)"
    using re_add_loop_spec [OF assms(1,2), of "[pc]"] assms(3) by (auto simp: re_add_def)
qed

text \<open>With nothing pending, the bound \<open>s\<close> may grow.\<close>

lemma th_ok_mono: "th_ok P gen s th \<Longrightarrow> s \<le> s' \<Longrightarrow> th_ok P gen s' th"
  unfolding th_ok_def using le_trans by blast

lemma closed_any: "closed_upto P len pos gen s {} th \<Longrightarrow> closed_upto P len pos gen s' {} th"
  unfolding closed_upto_def by simp

lemma closed_star:
  assumes "closed_upto P len pos gen s {} th" "(estep P len pos)\<^sup>*\<^sup>* p q" "p \<in> marked gen th"
  shows "q \<in> marked gen th \<and> th_start th ! q \<le> th_start th ! p"
  using assms(2)
proof (induction rule: rtranclp_induct)
  case (step q r)
  then show ?case using closed_uptoD [OF assms(1), of q r] by auto
qed (use assms(3) in simp)

section \<open>Runs by position\<close>

lemma estep_rstep:
  assumes "prog_ok P" "(estep P (length w) i)\<^sup>*\<^sup>* p q" "p < length P"
  shows "(rstep ci cls w P)\<^sup>*\<^sup>* (p, i) (q, i) \<and> q < length P"
  using assms(2)
proof (induction rule: rtranclp_induct)
  case (step q r)
  then have "rstep ci cls w P (q, i) (r, i)" "r < length P"
    using prog_ok_eps [OF assms(1)] by (auto intro: eps_step)
  then show ?case using step.IH by (meson rtranclp.rtrancl_into_rtrancl)
qed (use assms(3) in simp)

lemma rstep_bound: "prog_ok P \<Longrightarrow> rstep ci cls w P (p, i) (q, j) \<Longrightarrow> q < length P \<and> i \<le> j"
  by (auto simp: rstep_simps dest: prog_ok_eps prog_ok_takes)

lemma runs_bound:
  assumes "prog_ok P" "(rstep ci cls w P)\<^sup>*\<^sup>* (p, i) (q, j)" "p < length P"
  shows "q < length P \<and> i \<le> j"
  using assms(2)
proof (induction rule: rtranclp_induct2)
  case (step x k q j)
  then show ?case using rstep_bound [OF assms(1) step(2)] by simp
qed (use assms(3) in simp)

text \<open>A run to a position either read nothing, or read its last byte just before it.\<close>

lemma run_last:
  assumes P: "prog_ok P" and r: "(rstep ci cls w P)\<^sup>*\<^sup>* (p, s) (q, j)" "p < length P"
  shows "(j = s \<and> (estep P (length w) s)\<^sup>*\<^sup>* p q) \<or>
    (\<exists>i x. j = Suc i \<and> s \<le> i \<and> (rstep ci cls w P)\<^sup>*\<^sup>* (p, s) (x, i) \<and> x < length P \<and> i < length w \<and>
       takes ci cls (P ! x) (w ! i) \<and> (estep P (length w) j)\<^sup>*\<^sup>* (Suc x) q)"
  using r(1)
proof (induction rule: rtranclp_induct2)
  case refl
  then show ?case by simp
next
  case (step x i q j)
  have b: "x < length P" "s \<le> i" using runs_bound [OF P step(1) r(2)] by auto
  from step(2) consider (eps) "j = i" "q \<in> eps P (length w) i x"
    | (read) "j = Suc i" "q = Suc x" "i < length w" "takes ci cls (P ! x) (w ! i)"
    by (auto simp: rstep_simps)
  then show ?case
  proof cases
    case eps
    from step(3) show ?thesis
      using eps by (auto intro: rtranclp.rtrancl_into_rtrancl)
  next
    case read
    then show ?thesis using step(1) b by blast
  qed
qed

text \<open>A run beyond a position stands at that position before an instruction that reads.\<close>

lemma run_through:
  assumes P: "prog_ok P" and r: "(rstep ci cls w P)\<^sup>*\<^sup>* (p, s) (q, j)" "p < length P" and i: "s \<le> i" "i < j"
  shows "\<exists>x. (rstep ci cls w P)\<^sup>*\<^sup>* (p, s) (x, i) \<and> x < length P \<and> i < length w \<and> takes ci cls (P ! x) (w ! i)"
  using r(1) i(2)
proof (induction rule: rtranclp_induct2)
  case refl
  then show ?case using i(1) by simp
next
  case (step x k q j)
  show ?case
  proof (cases "i < k")
    case True
    then show ?thesis using step(3) by simp
  next
    case False
    with step(2,4) have "j = Suc k" "k = i" "k < length w" "takes ci cls (P ! x) (w ! k)"
      by (auto simp: rstep_simps)
    then show ?thesis using step(1) runs_bound [OF P step(1) r(2)] by blast
  qed
qed

section \<open>The invariant of the search\<close>

text \<open>
  At a position: every marked instruction is reached by a run from its start, and every run from a
  start that can still win has its instruction marked, from no later start.
\<close>

definition threads_inv :: "bool \<Rightarrow> cmap list \<Rightarrow> string \<Rightarrow> prog \<Rightarrow> nat \<Rightarrow> nat \<Rightarrow> threads \<Rightarrow> best \<Rightarrow> bool" where
  "threads_inv ci cls w P pos gen th b \<longleftrightarrow>
     th_ok P gen pos th \<and>
     (\<forall>pc \<in> marked gen th. (rstep ci cls w P)\<^sup>*\<^sup>* (0, th_start th ! pc) (pc, pos)) \<and>
     (\<forall>s pc. s \<le> pos \<longrightarrow> (b_found b \<longrightarrow> s \<le> b_start b) \<longrightarrow> (rstep ci cls w P)\<^sup>*\<^sup>* (0, s) (pc, pos) \<longrightarrow>
        pc \<in> marked gen th \<and> th_start th ! pc \<le> s)"

lemma threads_complete:
  "threads_inv ci cls w P pos gen th b \<Longrightarrow> s \<le> pos \<Longrightarrow> (b_found b \<longrightarrow> s \<le> b_start b) \<Longrightarrow>
    (rstep ci cls w P)\<^sup>*\<^sup>* (0, s) (pc, pos) \<Longrightarrow> pc \<in> marked gen th \<and> th_start th ! pc \<le> s"
  unfolding threads_inv_def by blast

lemma threads_sound:
  "threads_inv ci cls w P pos gen th b \<Longrightarrow> pc \<in> marked gen th \<Longrightarrow>
    pc < length P \<and> th_start th ! pc \<le> pos \<and> (rstep ci cls w P)\<^sup>*\<^sup>* (0, th_start th ! pc) (pc, pos)"
  by (auto simp: threads_inv_def th_ok_def marked_def)

definition matches :: "bool \<Rightarrow> cmap list \<Rightarrow> string \<Rightarrow> prog \<Rightarrow> nat \<Rightarrow> nat \<Rightarrow> bool" where
  "matches ci cls w P s e \<longleftrightarrow> s \<le> length w \<and> (rstep ci cls w P)\<^sup>*\<^sup>* (0, s) (length P - 1, e)"

text \<open>The best of the matches that end before \<open>pos\<close>: leftmost, then longest.\<close>

definition best_ok :: "(nat \<Rightarrow> nat \<Rightarrow> bool) \<Rightarrow> nat \<Rightarrow> best \<Rightarrow> bool" where
  "best_ok M pos b \<longleftrightarrow>
     (if b_found b
      then M (b_start b) (b_end b) \<and> b_start b \<le> b_end b \<and> b_end b < pos \<and>
        (\<forall>s e. M s e \<longrightarrow> e < pos \<longrightarrow> b_start b < s \<or> (b_start b = s \<and> e \<le> b_end b))
      else (\<forall>s e. M s e \<longrightarrow> pos \<le> e))"

lemma harvest_fold:
  assumes "distinct L" "\<And>pc. pc \<in> set L \<Longrightarrow> ri_op (P ! pc) = RI_MATCH \<longleftrightarrow> pc = m"
  shows "fold (harvest_one P pos start) L b = (if m \<in> set L then harvest_one P pos start m b else b)"
  using assms
proof (induction L arbitrary: b)
  case (Cons pc L)
  then show ?case by (cases "pc = m") (auto simp: harvest_one_def)
qed simp

lemma harvest_inv:
  assumes P: "prog_ok P" and inv: "threads_inv ci cls w P pos gen th b" and len: "pos \<le> length w"
    and best: "best_ok (matches ci cls w P) pos b"
  shows "best_ok (matches ci cls w P) (Suc pos) (harvest P pos th b)"
    and "threads_inv ci cls w P pos gen th (harvest P pos th b)"
proof -
  let ?m = "length P - 1" and ?M = "matches ci cls w P" and ?b = "harvest P pos th b"
  have ok: "th_ok P gen pos th" using inv by (simp add: threads_inv_def)
  then have L: "distinct (th_list th)" "set (th_list th) = {pc \<in> marked gen th. listed P pc}"
    and bound: "\<And>pc. pc \<in> marked gen th \<Longrightarrow> pc < length P \<and> th_start th ! pc \<le> pos"
    by (auto simp: th_ok_def marked_def)
  have m: "?m < length P" using P by (simp add: prog_ok_def)
  then have lm: "listed P ?m" using prog_ok_match [OF P] by (simp add: listed_def)
  have eq: "?b = (if ?m \<in> marked gen th then harvest_one P pos (th_start th) ?m b else b)"
    unfolding harvest_def using harvest_fold [OF L(1), of P ?m] prog_ok_match [OF P] bound L(2) lm by simp
  have one: "harvest_one P pos st ?m b =
      (if \<not> b_found b \<or> st ! ?m < b_start b then \<lparr>b_found = True, b_start = st ! ?m, b_end = pos\<rparr>
       else if st ! ?m = b_start b \<and> pos > b_end b then b\<lparr>b_end := pos\<rparr> else b)" for st
    using prog_ok_match [OF P m] by (simp add: harvest_one_def Let_def)
  have here: "?m \<in> marked gen th \<and> th_start th ! ?m \<le> s" if "?M s pos" "b_found b \<longrightarrow> s \<le> b_start b" for s
  proof -
    have r: "(rstep ci cls w P)\<^sup>*\<^sup>* (0, s) (?m, pos)" using that(1) by (simp add: matches_def)
    have "P \<noteq> []" using P by (simp add: prog_ok_def)
    then have "s \<le> pos" using runs_bound [OF P r] by simp
    from threads_complete [OF inv this that(2) r] show ?thesis .
  qed
  show "best_ok ?M (Suc pos) ?b"
  proof (cases "?m \<in> marked gen th")
    case True
    let ?s = "th_start th ! ?m"
    have s: "?M ?s pos" "?s \<le> pos" using inv True bound [OF True] len unfolding threads_inv_def matches_def by auto
    have now: "e < pos \<or> ?s < a \<or> (?s = a \<and> e = pos) \<or> (b_found b \<and> b_start b < a)" if "?M a e" "e < Suc pos" for a e
      using here [of a] that by (cases "e = pos"; cases "b_found b \<and> b_start b < a") (auto simp: not_less)
    have old: "b_start b < a \<or> (b_start b = a \<and> e \<le> b_end b)" if "b_found b" "?M a e" "e < pos" for a e
      using best that by (simp add: best_ok_def)
    have none: "\<not> e < pos" if "\<not> b_found b" "?M a e" for a e
      using best that by (auto simp: best_ok_def not_less)
    have b: "b_found b \<Longrightarrow> ?M (b_start b) (b_end b) \<and> b_start b \<le> b_end b \<and> b_end b < pos"
      using best by (simp add: best_ok_def)
    consider (new) "\<not> b_found b \<or> ?s < b_start b" | (longer) "b_found b" "?s = b_start b" | (old) "b_found b" "b_start b < ?s"
      by linarith
    then show ?thesis
    proof cases
      case new
      then have "?b = \<lparr>b_found = True, b_start = ?s, b_end = pos\<rparr>" unfolding eq one using True by simp
      moreover have "?s < a \<or> (?s = a \<and> e \<le> pos)" if "?M a e" "e < Suc pos" for a e
        using now [OF that] old [of a e] none [of a e] new that by (cases "b_found b") auto
      ultimately show ?thesis using s by (simp add: best_ok_def)
    next
      case longer
      then have "?b = b\<lparr>b_end := pos\<rparr>" unfolding eq one using True b by simp
      moreover have "b_start b < a \<or> (b_start b = a \<and> e \<le> pos)" if "?M a e" "e < Suc pos" for a e
        using now [OF that] old [of a e] longer that by auto
      ultimately show ?thesis using s longer by (simp add: best_ok_def)
    next
      case old2: old
      then have "?b = b" unfolding eq one using True by simp
      moreover have "b_start b < a \<or> (b_start b = a \<and> e \<le> b_end b)" if "?M a e" "e < Suc pos" for a e
        using now [OF that] old [of a e] old2 that by auto
      ultimately show ?thesis using b old2 by (simp add: best_ok_def)
    qed
  next
    case False
    then have b: "?b = b" unfolding eq by simp
    have now: "b_found b \<and> b_start b < a" if "?M a pos" for a
      using here [of a] that False by (cases "b_found b \<and> b_start b < a") (auto simp: not_less)
    show ?thesis
    proof (cases "b_found b")
      case True
      then show ?thesis unfolding b using best now by (fastforce simp: best_ok_def less_Suc_eq)
    next
      case nf: False
      have "Suc pos \<le> e" if "?M a e" for a e
      proof -
        have "pos \<le> e" using best nf that by (auto simp: best_ok_def)
        then show ?thesis using now [of a] nf that by (cases "e = pos") auto
      qed
      then show ?thesis unfolding b using nf by (simp add: best_ok_def)
    qed
  qed
  have "b_found ?b \<longrightarrow> s \<le> b_start ?b \<Longrightarrow> b_found b \<longrightarrow> s \<le> b_start b" for s
    unfolding eq one by (auto split: if_splits)
  then show "threads_inv ci cls w P pos gen th ?b" using inv unfolding threads_inv_def by blast
qed

text \<open>The next threads, after the threads \<open>ys\<close> have stepped; \<open>s\<close> bounds the starts used so far.\<close>

definition next_inv :: "bool \<Rightarrow> cmap list \<Rightarrow> string \<Rightarrow> prog \<Rightarrow> nat \<Rightarrow> nat \<Rightarrow> (nat \<Rightarrow> bool) \<Rightarrow> (nat \<Rightarrow> nat) \<Rightarrow> nat \<Rightarrow> threads \<Rightarrow> bool" where
  "next_inv ci cls w P pos gen dn st s th \<longleftrightarrow>
     th_ok P gen s th \<and> closed_upto P (length w) (Suc pos) gen s {} th \<and>
     (\<forall>pc \<in> marked gen th. (rstep ci cls w P)\<^sup>*\<^sup>* (0, th_start th ! pc) (pc, Suc pos)) \<and>
     (\<forall>y. dn y \<longrightarrow> Suc y \<in> marked gen th \<and> th_start th ! Suc y \<le> st y)"

lemma next_inv_add:
  assumes P: "prog_ok P" and inv: "next_inv ci cls w P pos gen dn st s th" and s: "s \<le> s'"
    and pc: "pc < length P" and run: "(rstep ci cls w P)\<^sup>*\<^sup>* (0, s') (pc, Suc pos)"
    and new: "\<And>y. dn' y \<Longrightarrow> dn y \<or> (Suc y = pc \<and> s' \<le> st y)"
  shows "next_inv ci cls w P pos gen dn' st s' (re_add P gen pc s' (Suc pos) (length w) th)"
proof -
  let ?t = "re_add P gen pc s' (Suc pos) (length w) th"
  have ok: "th_ok P gen s' th" and cl: "closed_upto P (length w) (Suc pos) gen s' {} th"
    using inv s th_ok_mono closed_any unfolding next_inv_def by blast+
  note r = re_add_spec [OF P ok pc cl]
  have sound: "(rstep ci cls w P)\<^sup>*\<^sup>* (0, th_start ?t ! p) (p, Suc pos)" if p: "p \<in> marked gen ?t" for p
  proof (cases "p \<in> marked gen th")
    case True
    then show ?thesis using inv r(3) unfolding next_inv_def grows_def by simp
  next
    case False
    then have q: "th_start ?t ! p = s'" "(estep P (length w) (Suc pos))\<^sup>*\<^sup>* pc p" using r(3) p unfolding grows_def by auto
    have "(rstep ci cls w P)\<^sup>*\<^sup>* (pc, Suc pos) (p, Suc pos)" using estep_rstep [OF P q(2) pc] by blast
    with run show ?thesis unfolding q(1) by (rule rtranclp_trans)
  qed
  have at: "pc \<in> marked gen ?t" "th_start ?t ! pc \<le> s'" using r(1,3) unfolding grows_def th_ok_def by auto
  have "Suc y \<in> marked gen ?t \<and> th_start ?t ! Suc y \<le> st y" if "dn' y" for y
    using new [OF that]
  proof
    assume "dn y"
    then have "Suc y \<in> marked gen th" "th_start th ! Suc y \<le> st y" using inv unfolding next_inv_def by blast+
    then show ?thesis using r(3) unfolding grows_def by auto
  next
    assume "Suc y = pc \<and> s' \<le> st y"
    then show ?thesis using at by auto
  qed
  then show ?thesis using r(1,2) sound unfolding next_inv_def by blast
qed

lemma next_inv_weaken:
  "next_inv ci cls w P pos gen dn st s th \<Longrightarrow> s \<le> s' \<Longrightarrow> (\<And>y. dn' y \<Longrightarrow> dn y) \<Longrightarrow> next_inv ci cls w P pos gen dn' st s' th"
  unfolding next_inv_def using th_ok_mono closed_any by blast

text \<open>Which threads step on at a position.\<close>

definition survives :: "bool \<Rightarrow> cmap list \<Rightarrow> prog \<Rightarrow> char \<Rightarrow> best \<Rightarrow> nat list \<Rightarrow> nat \<Rightarrow> bool" where
  "survives ci cls P c b start pc \<longleftrightarrow> \<not> (b_found b \<and> start ! pc > b_start b) \<and> takes ci cls (P ! pc) c"

lemma steps_inv:
  assumes P: "prog_ok P" and pos: "pos < length w"
    and runs: "\<And>pc. pc \<in> set L \<Longrightarrow> pc < length P \<and> (rstep ci cls w P)\<^sup>*\<^sup>* (0, start ! pc) (pc, pos)"
    and sorted: "sorted (map ((!) start) L)" and le: "\<And>pc. pc \<in> set L \<Longrightarrow> s \<le> start ! pc \<and> start ! pc \<le> e" and se: "s \<le> e"
    and inv: "next_inv ci cls w P pos gen dn ((!) start) s th"
  shows "next_inv ci cls w P pos gen (\<lambda>y. dn y \<or> (y \<in> set L \<and> survives ci cls P (w ! pos) b start y)) ((!) start) e
    (fold (step_one ci cls P (w ! pos) b gen pos (length w) start) L th)"
  using runs sorted le se inv
proof (induction L arbitrary: s th dn)
  case Nil
  then show ?case using next_inv_weaken by simp
next
  case (Cons pc L)
  let ?t = "step_one ci cls P (w ! pos) b gen pos (length w) start pc th"
  let ?d = "\<lambda>y. dn y \<or> (y = pc \<and> survives ci cls P (w ! pos) b start y)"
  have r: "pc < length P" "(rstep ci cls w P)\<^sup>*\<^sup>* (0, start ! pc) (pc, pos)" using Cons.prems(1) by auto
  have s: "s \<le> start ! pc" "start ! pc \<le> e" using Cons.prems(3) by auto
  have "next_inv ci cls w P pos gen ?d ((!) start) (start ! pc) ?t"
  proof (cases "survives ci cls P (w ! pos) b start pc")
    case True
    then have t: "takes ci cls (P ! pc) (w ! pos)" "?t = re_add P gen (Suc pc) (start ! pc) (Suc pos) (length w) th"
      by (auto simp: survives_def step_one_def Let_def)
    have "Suc pc < length P" using prog_ok_takes [OF P r(1) t(1)] .
    moreover have "rstep ci cls w P (pc, pos) (Suc pc, Suc pos)" using r(1) pos t(1) by (rule read_step)
    with r(2) have "(rstep ci cls w P)\<^sup>*\<^sup>* (0, start ! pc) (Suc pc, Suc pos)" by (rule rtranclp.rtrancl_into_rtrancl)
    ultimately show ?thesis unfolding t(2) by (intro next_inv_add [OF P Cons.prems(5) s(1)]) auto
  next
    case False
    have "?t = th" using False by (auto simp: survives_def step_one_def Let_def)
    show ?thesis unfolding \<open>?t = th\<close>
      by (rule next_inv_weaken [OF Cons.prems(5) s(1)]) (use False in auto)
  qed
  from Cons.IH [OF _ _ _ s(2) this] Cons.prems(1-3)
  have "next_inv ci cls w P pos gen (\<lambda>y. ?d y \<or> (y \<in> set L \<and> survives ci cls P (w ! pos) b start y)) ((!) start) e
    (fold (step_one ci cls P (w ! pos) b gen pos (length w) start) L ?t)" by auto
  then show ?case by (auto intro: next_inv_weaken)
qed

lemma re_add_marks: "set (th_mark (re_add P gen pc s pos len th)) \<subseteq> insert gen (set (th_mark th))"
proof -
  have "set (th_mark (re_add_loop P gen s pos len stk th)) \<subseteq> insert gen (set (th_mark th))" for stk
  proof (induction stk th rule: re_add_induct [where P = P and gen = gen and s = s and pos = pos and len = len])
    case (2 pc stk th)
    then show ?case by (auto simp: re_add_step)
  next
    case (3 pc stk th)
    have "set (th_mark (put P gen s pc th)) \<subseteq> insert gen (set (th_mark th))"
      by (simp add: put_def set_update_subset_insert)
    with 3 show ?case by (auto simp: re_add_step)
  qed auto
  then show ?thesis by (simp add: re_add_def)
qed

lemma steps_marks: "set (th_mark (fold (step_one ci cls P c b gen pos len start) L th)) \<subseteq> insert gen (set (th_mark th))"
proof (induction L arbitrary: th)
  case (Cons pc L)
  have "set (th_mark (step_one ci cls P c b gen pos len start pc th)) \<subseteq> insert gen (set (th_mark th))"
    using re_add_marks by (auto simp: step_one_def Let_def)
  with Cons [of "step_one ci cls P c b gen pos len start pc th"] show ?case by auto
qed auto

text \<open>Fresh arrays: nothing is marked with a generation above all marks.\<close>

definition spare :: "prog \<Rightarrow> nat \<Rightarrow> threads \<Rightarrow> bool" where
  "spare P gen th \<longleftrightarrow> length (th_mark th) = length P \<and> length (th_start th) = length P \<and> (\<forall>g \<in> set (th_mark th). g \<le> gen)"

lemma spare_empty: "spare P gen th \<Longrightarrow> marked (Suc gen) th = {}"
  unfolding spare_def marked_def by (metis (mono_tags, lifting) Collect_empty_eq Suc_n_not_le_n nth_mem)

lemma spare_start:
  assumes "spare P gen th" "th_list th = []"
  shows "th_ok P (Suc gen) s th" "closed_upto P len pos (Suc gen) s X th"
  using assms spare_empty [OF assms(1)] by (auto simp: th_ok_def closed_upto_def spare_def)

lemma th_ok_spare: "th_ok P g s th \<Longrightarrow> set (th_mark th) \<subseteq> insert gen' (set (th_mark th0)) \<Longrightarrow> spare P gen th0 \<Longrightarrow> gen \<le> gen' \<Longrightarrow> spare P gen' th"
  unfolding th_ok_def spare_def by force

lemma listed_takes: "takes ci cls (P ! pc) c \<Longrightarrow> listed P pc"
  by (auto simp: takes_def listed_def split: re_op.splits)

text \<open>One turn of the loop: from the threads at a position to the threads at the next one.\<close>

lemma turn_step:
  assumes P: "prog_ok P" and pos: "pos < length w" and inv: "threads_inv ci cls w P pos gen0 cth b"
    and best: "best_ok (matches ci cls w P) (Suc pos) b" and oth: "spare P gen oth"
  defines "nt \<equiv> fold (step_one ci cls P (w ! pos) b (Suc gen) pos (length w) (th_start cth)) (th_list cth) (oth\<lparr>th_list := []\<rparr>)"
  defines "nt' \<equiv> (if \<not> b_found b then re_add P (Suc gen) 0 (pos + 1) (pos + 1) (length w) nt else nt)"
  shows "threads_inv ci cls w P (Suc pos) (Suc gen) nt' b" and "spare P (Suc gen) nt'"
proof -
  let ?g = "Suc gen" and ?st = "(!) (th_start cth)" and ?L = "th_list cth"
  let ?d = "\<lambda>y. y \<in> set ?L \<and> survives ci cls P (w ! pos) b (th_start cth) y"
  let ?d' = "\<lambda>y. ?d y"
  have ok: "th_ok P gen0 pos cth" using inv by (simp add: threads_inv_def)
  have L: "set ?L = {pc \<in> marked gen0 cth. listed P pc}" "sorted (map ?st ?L)" using ok by (auto simp: th_ok_def)
  have spare0: "spare P gen (oth\<lparr>th_list := []\<rparr>)" using oth by (simp add: spare_def)
  have start: "next_inv ci cls w P pos ?g (\<lambda>y. False) ?st 0 (oth\<lparr>th_list := []\<rparr>)"
    using spare_start [OF spare0] spare_empty [OF spare0] by (simp add: next_inv_def)
  have ninv: "next_inv ci cls w P pos ?g ?d ?st pos nt"
    using steps_inv [OF P pos _ L(2) _ _ start, of pos b] threads_sound [OF inv] L(1) unfolding nt_def by auto
  have P0: "0 < length P" using P by (auto simp: prog_ok_def)
  have ninv': "next_inv ci cls w P pos ?g ?d ?st (Suc pos) nt'"
  proof (cases "b_found b")
    case True
    then show ?thesis using next_inv_weaken [OF ninv, of "Suc pos" ?d] by (simp add: nt'_def)
  next
    case False
    then show ?thesis using next_inv_add [OF P ninv, of "Suc pos" 0 ?d] P0 by (simp add: nt'_def)
  qed
  then have ok': "th_ok P ?g (Suc pos) nt'" and cl': "closed_upto P (length w) (Suc pos) ?g (Suc pos) {} nt'"
    by (auto simp: next_inv_def)
  have inj: "0 \<in> marked ?g nt' \<and> th_start nt' ! 0 \<le> Suc pos" if "\<not> b_found b"
  proof -
    have okn: "th_ok P ?g (Suc pos) nt" "closed_upto P (length w) (Suc pos) ?g (Suc pos) {} nt"
      using next_inv_weaken [OF ninv, of "Suc pos" ?d] by (auto simp: next_inv_def)
    from re_add_spec(1,3) [OF P okn(1) P0 okn(2)] show ?thesis
      using that unfolding nt'_def grows_def th_ok_def by auto
  qed
  have complete: "pc \<in> marked ?g nt' \<and> th_start nt' ! pc \<le> s"
    if s: "s \<le> Suc pos" "b_found b \<longrightarrow> s \<le> b_start b" and r: "(rstep ci cls w P)\<^sup>*\<^sup>* (0, s) (pc, Suc pos)" for s pc
  proof -
    consider (now) "s = Suc pos" "(estep P (length w) s)\<^sup>*\<^sup>* 0 pc"
      | (later) x where "s \<le> pos" "(rstep ci cls w P)\<^sup>*\<^sup>* (0, s) (x, pos)" "x < length P"
          "takes ci cls (P ! x) (w ! pos)" "(estep P (length w) (Suc pos))\<^sup>*\<^sup>* (Suc x) pc"
      using run_last [OF P r P0] by auto
    then show ?thesis
    proof cases
      case now
      have "\<not> b_found b" using best s(2) now(1) by (auto simp: best_ok_def split: if_splits)
      from inj [OF this] now closed_star [OF cl' _, of 0 pc] show ?thesis by auto
    next
      case later
      from threads_complete [OF inv later(1) s(2) later(2)]
      have x: "x \<in> marked gen0 cth" "th_start cth ! x \<le> s" by auto
      have "x \<in> set ?L" using L(1) x(1) listed_takes [OF later(4)] by simp
      moreover have "survives ci cls P (w ! pos) b (th_start cth) x" using x(2) s(2) later(4) by (auto simp: survives_def)
      ultimately have "Suc x \<in> marked ?g nt'" "th_start nt' ! Suc x \<le> th_start cth ! x"
        using ninv' unfolding next_inv_def by blast+
      with closed_star [OF cl' later(5)] x(2) show ?thesis by auto
    qed
  qed
  show "threads_inv ci cls w P (Suc pos) ?g nt' b"
    using ninv' complete unfolding threads_inv_def next_inv_def by blast
  have "set (th_mark nt') \<subseteq> insert ?g (set (th_mark (oth\<lparr>th_list := []\<rparr>)))"
    using steps_marks [of ci cls P "w ! pos" b ?g pos "length w" "th_start cth" ?L "oth\<lparr>th_list := []\<rparr>"]
      re_add_marks [of P ?g 0 "pos + 1" "pos + 1" "length w" nt]
    unfolding nt'_def nt_def by auto
  from th_ok_spare [OF ok' this spare0] show "spare P ?g nt'" by simp
qed

lemma next_gen_Suc: "g + 1 < 2 ^ 32 \<Longrightarrow> next_gen g = Suc g"
  by (simp add: next_gen_def)

lemma matches_bound: "prog_ok P \<Longrightarrow> matches ci cls w P s e \<Longrightarrow> s \<le> e \<and> e \<le> length w"
proof -
  assume P: "prog_ok P" and m: "matches ci cls w P s e"
  have P0: "0 < length P" using P by (auto simp: prog_ok_def)
  have r: "(rstep ci cls w P)\<^sup>*\<^sup>* (0, s) (length P - 1, e)" "s \<le> length w" using m by (auto simp: matches_def)
  have "s \<le> e" using runs_bound [OF P r(1) P0] by simp
  moreover have "e \<le> length w"
  proof (rule ccontr)
    assume "\<not> e \<le> length w"
    then have "s \<le> length w" "length w < e" using r(2) by auto
    from run_through [OF P r(1) P0 this] show False by simp
  qed
  ultimately show ?thesis ..
qed

text \<open>Nothing more can come once a match is known and no thread is left.\<close>

lemma no_threads_final:
  assumes P: "prog_ok P" and inv: "threads_inv ci cls w P pos gen th b" and b: "b_found b" "th_list th = []"
    and best: "best_ok (matches ci cls w P) pos b"
  shows "best_ok (matches ci cls w P) (Suc (length w)) b"
proof -
  have P0: "0 < length P" using P by (auto simp: prog_ok_def)
  have none: "\<not> (pc \<in> marked gen th \<and> listed P pc)" for pc
    using inv b(2) by (auto simp: threads_inv_def th_ok_def)
  have "b_start b < s \<or> (b_start b = s \<and> e \<le> b_end b)" if m: "matches ci cls w P s e" for s e
  proof (cases "e < pos \<or> b_start b < s")
    case True
    then show ?thesis using best b(1) m by (auto simp: best_ok_def)
  next
    case False
    have r: "(rstep ci cls w P)\<^sup>*\<^sup>* (0, s) (length P - 1, e)" using m by (simp add: matches_def)
    have s: "s \<le> pos" using best b(1) False by (auto simp: best_ok_def)
    have "\<exists>x. (rstep ci cls w P)\<^sup>*\<^sup>* (0, s) (x, pos) \<and> x < length P \<and> listed P x"
    proof (cases "e = pos")
      case True
      then show ?thesis using r P0 prog_ok_match [OF P, of "length P - 1"] by (auto simp: listed_def)
    next
      case e: False
      then have "pos < e" using False by simp
      from run_through [OF P r P0 s this] show ?thesis using listed_takes by blast
    qed
    then obtain x where "(rstep ci cls w P)\<^sup>*\<^sup>* (0, s) (x, pos)" "listed P x" by blast
    with threads_complete [OF inv s, of x] none [of x] False show ?thesis by auto
  qed
  then show ?thesis using best b(1) matches_bound [OF P] by (auto simp: best_ok_def less_Suc_eq_le)
qed

lemma search_loop_spec:
  "prog_ok P \<Longrightarrow> pos \<le> length w \<Longrightarrow> threads_inv ci cls w P pos gen cth b \<Longrightarrow> best_ok (matches ci cls w P) pos b \<Longrightarrow>
    spare P gen cth \<Longrightarrow> spare P gen oth \<Longrightarrow> gen + (length w - pos) < 2 ^ 32 \<Longrightarrow>
    search_loop ci cls P w pos gen cth oth flip b = (b', gen', c', o', f') \<Longrightarrow>
    best_ok (matches ci cls w P) (Suc (length w)) b' \<and> spare P gen' c' \<and> spare P gen' o' \<and> gen' \<le> gen + (length w - pos)"
proof (induction ci cls P w pos gen cth oth flip b arbitrary: b' gen' c' o' f' rule: search_loop.induct)
  case (1 ci cls P w pos gen cth oth flip b)
  note P = "1.prems"(1)
  let ?b = "harvest P pos cth b"
  note hb = harvest_inv [OF P "1.prems"(3,2,4)]
  show ?case
  proof (cases "pos \<ge> length w")
    case True
    then have "search_loop ci cls P w pos gen cth oth flip b = (?b, gen, cth, oth, flip)"
      by (subst search_loop.simps) (simp add: Let_def)
    then show ?thesis using "1.prems" hb(1) True by simp
  next
    case False
    then have pos: "pos < length w" by simp
    have g: "next_gen gen = Suc gen" by (rule next_gen_Suc) (use "1.prems"(7) pos in simp)
    let ?n = "fold (step_one ci cls P (w ! pos) ?b (Suc gen) pos (length w) (th_start cth)) (th_list cth) (oth\<lparr>th_list := []\<rparr>)"
    let ?n' = "if \<not> b_found ?b then re_add P (Suc gen) 0 (pos + 1) (pos + 1) (length w) ?n else ?n"
    note t = turn_step [OF P pos hb(2,1) "1.prems"(6)]
    have spare_c: "spare P (Suc gen) cth" using "1.prems"(5) by (force simp: spare_def)
    have eq: "search_loop ci cls P w pos gen cth oth flip b =
      (if th_list ?n' = [] \<and> b_found ?b then (?b, Suc gen, ?n', cth, \<not> flip)
       else search_loop ci cls P w (pos + 1) (Suc gen) ?n' cth (\<not> flip) ?b)"
      using False g by (subst search_loop.simps) (simp add: Let_def)
    show ?thesis
    proof (cases "th_list ?n' = [] \<and> b_found ?b")
      case True
      with eq "1.prems"(8) have r: "b' = ?b" "gen' = Suc gen" "c' = ?n'" "o' = cth" by auto
      have "best_ok (matches ci cls w P) (Suc (length w)) ?b"
        by (rule no_threads_final [OF P t(1) _ _ hb(1)]) (use True in auto)
      then show ?thesis using r t(2) spare_c pos by simp
    next
      case go: False
      have run: "search_loop ci cls P w (pos + 1) (Suc gen) ?n' cth (\<not> flip) ?b = (b', gen', c', o', f')"
        using eq "1.prems"(8) go by simp
      have ih: "best_ok (matches ci cls w P) (Suc (length w)) b' \<and> spare P gen' c' \<and> spare P gen' o' \<and>
          gen' \<le> Suc gen + (length w - (pos + 1))"
        by (rule "1.IH" [unfolded g, OF refl False refl refl refl _ P])
          (use go pos t hb spare_c run "1.prems"(7) in auto)
      then show ?thesis using pos by auto
    qed
  qed
qed

section \<open>The parser builds repetitions in order\<close>

lemma parse_quant_ok: "parse_quant s = Inr (Some (m, n, r)) \<Longrightarrow> 0 \<le> m \<and> (n < 0 \<or> m \<le> n)"
  by (auto simp: parse_quant_def parse_bounds_def bindr_Inr_iff Let_def split: if_splits)

lemma parse_reps_ok: "parse_reps a ps = Inr (x, ps') \<Longrightarrow> rep_ok a \<Longrightarrow> rep_ok x"
proof (induction a ps rule: parse_reps.induct)
  case (1 a ps)
  obtain q where q: "parse_quant (rp_p ps) = Inr q"
    using 1(2) unfolding parse_reps.simps [of a ps] by (auto simp: bindr_Inr_iff)
  show ?case
  proof (cases q)
    case None
    then show ?thesis using 1(2,3) q unfolding parse_reps.simps [of a ps] by simp
  next
    case (Some y)
    obtain m n s where y: "y = (m, n, s)" by (cases y)
    obtain ps1 where n: "node_new (ps\<lparr>rp_p := s\<rparr>) = Inr ps1" "parse_reps (RN_REP a m n) ps1 = Inr (x, ps')"
      using 1(2) q Some y unfolding parse_reps.simps [of a ps] by (auto simp: bindr_Inr_iff)
    have "rep_ok (RN_REP a m n)" using 1(3) parse_quant_ok [of "rp_p ps" m n s] q Some y by simp
    with 1(1) [OF q _ _ _ n] Some y show ?thesis by blast
  qed
qed

lemma new_leaf_ok: "new_leaf n ps = Inr (x, ps') \<Longrightarrow> x = n"
  by (auto simp: new_leaf_def bindr_Inr_iff)

lemma parse_class_ok: "parse_class ci ps = Inr (x, ps') \<Longrightarrow> rep_ok x"
  by (auto simp: parse_class_def Let_def bindr_Inr_iff dest!: new_leaf_ok)

lemma parse_rep_ok:
  "parse_atom ci ps = Inr (x, ps') \<Longrightarrow> rep_ok x"
  "parse_piece ci ps = Inr (x, ps') \<Longrightarrow> rep_ok x"
  "parse_cats ci ps = Inr (y, ps') \<Longrightarrow> pred_option rep_ok y"
  "parse_concat ci ps = Inr (x, ps') \<Longrightarrow> rep_ok x"
  "parse_alt ci ps = Inr (x, ps') \<Longrightarrow> rep_ok x"
proof (induction ci ps and ci ps and ci ps and ci ps and ci ps arbitrary: x ps' and x ps' and y ps' and x ps' and x ps'
    rule: parse_atom_parse_piece_parse_cats_parse_concat_parse_alt.induct)
  case (1 ci ps)
  note e = 1(2) [unfolded parse_atom.simps [of ci ps] Let_def]
  have c: "cur (rp_p ps) \<noteq> NUL" using e by auto
  show ?case
  proof (cases "cur (rp_p ps) = CHR ''(''")
    case True
    then obtain ps1 where a: "\<not> RE_MAX_DEPTH \<le> rp_depth ps"
      "parse_alt ci (ps\<lparr>rp_depth := rp_depth ps + 1, rp_p := tl (rp_p ps)\<rparr>) = Inr (x, ps1)"
      using e c by (auto simp: bindr_Inr_iff split: if_splits)
    from 1(1) [OF refl refl c True a] show ?thesis .
  next
    case False
    show ?thesis using e c False
      by (auto simp: bindr_Inr_iff dest!: new_leaf_ok parse_class_ok split: if_splits)
  qed
next
  case (2 ci ps)
  then obtain a ps1 where a: "parse_atom ci ps = Inr (a, ps1)" "parse_reps a ps1 = Inr (x, ps')"
    by (auto simp: parse_piece.simps [of ci ps] bindr_Inr_iff)
  from parse_reps_ok [OF a(2) 2(1) [OF a(1)]] show ?case .
next
  case (3 ci ps)
  show ?case
  proof (cases "stops (cur (rp_p ps))")
    case True
    then show ?thesis using 3(3) by (auto simp: parse_cats.simps [of ci ps])
  next
    case False
    then obtain a ps1 ps2 b where a: "parse_piece ci ps = Inr (a, ps1)" "node_new ps1 = Inr ps2"
      "parse_cats ci ps2 = Inr (b, ps')" "y = Some (RN_CAT a b)"
      using 3(3) by (auto simp: parse_cats.simps [of ci ps] bindr_Inr_iff)
    from 3(1) [OF False a(1)] 3(2) [OF False a(1) refl a(2,3)] show ?thesis unfolding a(4) by (cases b) auto
  qed
next
  case (4 ci ps)
  then obtain h ps1 where h: "parse_cats ci ps = Inr (h, ps1)" "case h of None \<Rightarrow> new_leaf RN_EMPTY ps1 = Inr (x, ps') | Some n \<Rightarrow> n = x"
    by (auto simp: parse_concat.simps [of ci ps] bindr_Inr_iff split: option.splits)
  from 4(1) [OF h(1)] h(2) show ?case by (cases h) (auto dest: new_leaf_ok)
next
  case (5 ci ps)
  then obtain br ps1 where br: "parse_concat ci ps = Inr (br, ps1)"
    by (auto simp: parse_alt.simps [of ci ps] bindr_Inr_iff)
  note ok = 5(1) [OF br]
  show ?case
  proof (cases "cur (rp_p ps1) = CHR ''|''")
    case True
    then obtain ps2 b where b: "node_new ps1 = Inr ps2" "parse_alt ci (ps2\<lparr>rp_p := tl (rp_p ps2)\<rparr>) = Inr (b, ps')" "x = RN_ALT br b"
      using 5(3) br by (auto simp: parse_alt.simps [of ci ps] bindr_Inr_iff)
    from 5(2) [OF br refl True b(1,2)] ok b(3) show ?thesis by simp
  next
    case False
    then show ?thesis using 5(3) br ok by (auto simp: parse_alt.simps [of ci ps])
  qed
qed

section \<open>The search is leftmost-longest\<close>

text \<open>The scratch memory between two searches.\<close>

definition scratch_ok :: "astd_regex \<Rightarrow> bool" where
  "scratch_ok re \<longleftrightarrow> length (re_marka re) = length (re_prog re) \<and> length (re_markb re) = length (re_prog re) \<and>
     (\<forall>g \<in> set (re_marka re) \<union> set (re_markb re). g \<le> re_genp re)"

definition compiled :: "astd_regex \<Rightarrow> rnode \<Rightarrow> bool" where
  "compiled re root \<longleftrightarrow> re_prog re = whole root \<and> rep_ok root \<and> scratch_ok re"

lemma compile_spec:
  assumes "astd_regex_compile (Some p) cs = Inr re"
  shows "\<exists>root ps. parse_pattern (\<not> cs) p = Inr (root, ps) \<and> compiled re root \<and> re_cls re = rp_cls ps \<and> re_fold re = (\<not> cs)"
proof -
  obtain root ps prog prog' where r: "parse_pattern (\<not> cs) p = Inr (root, ps)" "emit_node root [] = Inr prog"
    "emit1 RI_MATCH NUL 0 prog = Inr prog'"
    "re = \<lparr>re_prog = prog', re_cls = rp_cls ps, re_fold = (\<not> cs), re_marka = replicate (length prog') 0,
       re_markb = replicate (length prog') 0, re_genp = 0\<rparr>"
    using assms by (auto simp: astd_regex_compile_def bindr_Inr_iff)
  have "prog = code root 0" using r(2) emission [of root] emitsD [of root "[]"] by (auto split: if_splits)
  then have "prog' = whole root" using r(3) by (simp add: emit1_def whole_def split: if_splits)
  moreover have "rep_ok root" using r(1) by (auto simp: parse_pattern_def bindr_Inr_iff dest: parse_rep_ok(5) split: if_splits)
  ultimately show ?thesis using r(1,4) by (simp add: compiled_def scratch_ok_def)
qed

lemma search_spec:
  assumes c: "compiled re root" and len: "length w < 2 ^ 30" and s: "astd_regex_search re w = (r, re')"
  defines "M \<equiv> \<lambda>a e. a \<le> length w \<and> (a, e) \<in> re_lang (re_fold re) (re_cls re) w root"
  shows "case r of None \<Rightarrow> \<forall>a e. \<not> M a e
    | Some (a, e) \<Rightarrow> M a e \<and> (\<forall>a' e'. M a' e' \<longrightarrow> a < a' \<or> (a = a' \<and> e' \<le> e))"
    and "compiled re' root" "re_cls re' = re_cls re" "re_fold re' = re_fold re"
proof -
  let ?P = "whole root" and ?n = "length (whole root)"
  have P: "prog_ok ?P" by (rule whole_ok)
  have P0: "0 < length ?P" by (simp add: whole_def)
  have prog: "re_prog re = ?P" and rep: "rep_ok root" and sc: "scratch_ok re" using c by (auto simp: compiled_def)
  have M: "M = matches (re_fold re) (re_cls re) w ?P"
    using whole_matches [OF rep] by (auto simp: M_def matches_def fun_eq_iff)
  obtain re1 where re1_def: "re1 = (if re_genp re \<ge> 0xc0000000 then re\<lparr>re_marka := replicate ?n 0, re_markb := replicate ?n 0, re_genp := 0\<rparr> else re)"
    by blast
  have same: "re_prog re1 = ?P" "re_cls re1 = re_cls re" "re_fold re1 = re_fold re" using prog by (auto simp: re1_def)
  have sc1: "scratch_ok re1" using sc prog by (auto simp: re1_def scratch_ok_def)
  have g1: "re_genp re1 < 0xc0000000" by (simp add: re1_def)
  have gen: "next_gen (re_genp re1) = Suc (re_genp re1)" by (rule next_gen_Suc) (use g1 in simp)
  let ?g = "Suc (re_genp re1)"
  let ?a = "\<lparr>th_mark = re_marka re1, th_start = replicate ?n 0, th_list = []\<rparr>"
  let ?b = "\<lparr>th_mark = re_markb re1, th_start = replicate ?n 0, th_list = []\<rparr>"
  have spare: "spare ?P (re_genp re1) ?a" "spare ?P (re_genp re1) ?b" using sc1 same by (auto simp: scratch_ok_def spare_def)
  let ?c = "re_add ?P ?g 0 0 0 (length w) ?a"
  note start = spare_start [OF spare(1)]
  have a: "th_ok ?P ?g 0 ?a" "closed_upto ?P (length w) 0 ?g 0 {} ?a" using start by auto
  note add = re_add_spec [OF P a(1) P0 a(2)]
  have empty: "marked ?g ?a = {}" by (rule spare_empty [OF spare(1)])
  have cl: "closed_upto ?P (length w) 0 ?g 0 {} ?c" by (rule add(2))
  have zero: "th_start ?c ! pc = 0" if "pc \<in> marked ?g ?c" for pc using add(1) that by (auto simp: th_ok_def)
  have inv: "threads_inv (re_fold re) (re_cls re) w ?P 0 ?g ?c no_best"
    unfolding threads_inv_def
  proof (intro conjI ballI allI impI)
    show "th_ok ?P ?g 0 ?c" by (rule add(1))
  next
    fix pc assume pc: "pc \<in> marked ?g ?c"
    then have "(estep ?P (length w) 0)\<^sup>*\<^sup>* 0 pc" using add(3) empty unfolding grows_def by auto
    from estep_rstep [OF P this P0]
    show "(rstep (re_fold re) (re_cls re) w ?P)\<^sup>*\<^sup>* (0, th_start ?c ! pc) (pc, 0)" using zero [OF pc] by simp
  next
    fix s pc assume s: "s \<le> (0::nat)" and r: "(rstep (re_fold re) (re_cls re) w ?P)\<^sup>*\<^sup>* (0, s) (pc, 0)"
    then have "(estep ?P (length w) 0)\<^sup>*\<^sup>* 0 pc" using run_last [OF P r P0] by auto
    moreover have "0 \<in> marked ?g ?c" using add(3) unfolding grows_def by auto
    ultimately show "pc \<in> marked ?g ?c" "th_start ?c ! pc \<le> s" using closed_star [OF cl, of 0 pc] zero s by auto
  qed
  have best: "best_ok M 0 no_best" by (simp add: best_ok_def no_best_def)
  have spc: "spare ?P ?g ?c" by (rule th_ok_spare [OF add(1) re_add_marks spare(1)]) simp
  have spb: "spare ?P ?g ?b" using spare(2) by (force simp: spare_def)
  obtain b gen' c' o' f where loop: "search_loop (re_fold re) (re_cls re) ?P w 0 ?g ?c ?b False no_best = (b, gen', c', o', f)"
    by (metis prod.collapse)
  have "best_ok M (Suc (length w)) b \<and> spare ?P gen' c' \<and> spare ?P gen' o' \<and> gen' \<le> ?g + (length w - 0)"
    unfolding M by (rule search_loop_spec [OF P _ inv _ spc spb _ loop]) (use best len g1 in \<open>auto simp: M\<close>)
  then have fin: "best_ok M (Suc (length w)) b" "spare ?P gen' c'" "spare ?P gen' o'" by auto
  have out: "r = (if b_found b then Some (b_start b, b_end b) else None)"
    "re' = re1\<lparr>re_marka := th_mark (if f then o' else c'), re_markb := th_mark (if f then c' else o'), re_genp := gen'\<rparr>"
    using s loop gen same unfolding astd_regex_search_def prog Let_def re1_def [symmetric] by auto
  have bound: "e \<le> length w" if "M a e" for a e using matches_bound [OF P] that unfolding M by blast
  show "case r of None \<Rightarrow> \<forall>a e. \<not> M a e
    | Some (a, e) \<Rightarrow> M a e \<and> (\<forall>a' e'. M a' e' \<longrightarrow> a < a' \<or> (a = a' \<and> e' \<le> e))"
    using fin(1) bound unfolding out(1) best_ok_def by (auto simp: less_Suc_eq_le split: if_splits) (meson Suc_n_not_le_n le_trans)
  show "compiled re' root" using rep fin(2,3) same unfolding out(2) compiled_def scratch_ok_def spare_def by auto
  show "re_cls re' = re_cls re" "re_fold re' = re_fold re" using same by (simp_all add: out(2))
qed

text \<open>A compiled expression after some searches.\<close>

definition after_searches :: "string list \<Rightarrow> astd_regex \<Rightarrow> astd_regex" where
  "after_searches ws re = fold (\<lambda>w re. snd (astd_regex_search re w)) ws re"

lemma after_searches_compiled:
  "compiled re root \<Longrightarrow> list_all (\<lambda>w. length w < 2 ^ 30) ws \<Longrightarrow>
    compiled (after_searches ws re) root \<and> re_cls (after_searches ws re) = re_cls re \<and> re_fold (after_searches ws re) = re_fold re"
proof (induction ws arbitrary: re)
  case (Cons w ws)
  obtain r re' where s: "astd_regex_search re w = (r, re')" by force
  have len: "length w < 2 ^ 30" using Cons.prems(2) by simp
  note sp = search_spec [OF Cons.prems(1) len s]
  show ?case using Cons.IH [OF sp(2)] sp(3,4) Cons.prems(2) s by (simp add: after_searches_def)
qed (simp add: after_searches_def)

text \<open>
  C1: Whatever was searched before with the same compiled expression, a search finds a match exactly when
  the tree of the pattern has one, and it is the leftmost, and the longest of those from its start.
\<close>

theorem regex_search_leftmost_longest:
  assumes "astd_regex_compile (Some p) cs = Inr re" "list_all (\<lambda>w. length w < 2 ^ 30) (w # ws)"
  shows "\<exists>root ps. parse_pattern (\<not> cs) p = Inr (root, ps) \<and>
    (case fst (astd_regex_search (after_searches ws re) w) of
       None \<Rightarrow> \<forall>s e. s \<le> length w \<longrightarrow> (s, e) \<notin> re_lang (\<not> cs) (rp_cls ps) w root
     | Some (s, e) \<Rightarrow> s \<le> length w \<and> (s, e) \<in> re_lang (\<not> cs) (rp_cls ps) w root \<and>
         (\<forall>s' e'. s' \<le> length w \<and> (s', e') \<in> re_lang (\<not> cs) (rp_cls ps) w root \<longrightarrow> s < s' \<or> (s = s' \<and> e' \<le> e)))"
proof -
  obtain root ps where r: "parse_pattern (\<not> cs) p = Inr (root, ps)" "compiled re root" "re_cls re = rp_cls ps" "re_fold re = (\<not> cs)"
    using compile_spec [OF assms(1)] by blast
  let ?re = "after_searches ws re"
  have c: "compiled ?re root" "re_cls ?re = rp_cls ps" "re_fold ?re = (\<not> cs)"
    using after_searches_compiled [OF r(2)] r(3,4) assms(2) by auto
  obtain m re' where s: "astd_regex_search ?re w = (m, re')" by force
  have len: "length w < 2 ^ 30" using assms(2) by simp
  from search_spec(1) [OF c(1) len s] c(2,3) s r(1) show ?thesis
    by (intro exI [of _ root] exI [of _ ps]) (auto split: option.splits)
qed

lemma demo_parse: "\<exists>ps. parse_pattern False ''a'' = Inr (RN_CAT (RN_CHAR (CHR ''a'')) None, ps)"
proof -
  let ?s0 = "\<lparr>rp_p = ''a'', rp_nnodes = 0, rp_depth = 0, rp_cls = []\<rparr> :: rparse"
  let ?s1 = "\<lparr>rp_p = [], rp_nnodes = Suc 0, rp_depth = 0, rp_cls = []\<rparr> :: rparse"
  let ?s2 = "\<lparr>rp_p = [], rp_nnodes = Suc (Suc 0), rp_depth = 0, rp_cls = []\<rparr> :: rparse"
  let ?c = "RN_CHAR (CHR ''a'')"
  have "parse_atom False ?s0 = Inr (?c, ?s1)"
    by (simp add: parse_atom.simps [of False ?s0] new_leaf_def node_new_def RE_MAX_NODES_def fold_ch_def NUL_def Let_def)
  moreover have "parse_reps ?c ?s1 = Inr (?c, ?s1)"
    by (simp add: parse_reps.simps [of ?c ?s1] parse_quant_def NUL_def Let_def)
  ultimately have piece: "parse_piece False ?s0 = Inr (?c, ?s1)" by (simp add: parse_piece.simps [of False ?s0])
  have "node_new ?s1 = Inr ?s2" by (simp add: node_new_def RE_MAX_NODES_def)
  moreover have "parse_cats False ?s2 = Inr (None, ?s2)" by (simp add: parse_cats.simps [of False ?s2])
  ultimately have "parse_cats False ?s0 = Inr (Some (RN_CAT ?c None), ?s2)"
    using piece by (simp add: parse_cats.simps [of False ?s0] NUL_def)
  then have "parse_concat False ?s0 = Inr (RN_CAT ?c None, ?s2)" by (simp add: parse_concat.simps [of False ?s0])
  then have "parse_alt False ?s0 = Inr (RN_CAT ?c None, ?s2)" by (simp add: parse_alt.simps [of False ?s0] NUL_def)
  then show ?thesis by (simp add: parse_pattern_def)
qed

lemma demo_compile: "\<exists>re. astd_regex_compile (Some ''a'') True = Inr re"
proof -
  obtain ps where "parse_pattern False ''a'' = Inr (RN_CAT (RN_CHAR (CHR ''a'')) None, ps)" using demo_parse by blast
  then show ?thesis by (simp add: astd_regex_compile_def emit1_def RE_MAX_INSTS_def)
qed

theorem regex_search_leftmost_longest_witness:
  "\<exists>re. astd_regex_compile (Some ''a'') True = Inr re \<and> fst (astd_regex_search (after_searches [''b''] re) ''bab'') = Some (1, 2)"
proof -
  obtain re where re: "astd_regex_compile (Some ''a'') True = Inr re" using demo_compile by blast
  let ?r = "fst (astd_regex_search (after_searches [''b''] re) ''bab'')"
  have l: "(s, e) \<in> ch_rel ''bab'' (\<lambda>d. fold_ch False d = CHR ''a'') \<longleftrightarrow> s = 1 \<and> e = 2" for s e
    by (auto simp: ch_rel_def fold_ch_def nth_Cons split: nat.splits)
  obtain ps where p: "parse_pattern False ''a'' = Inr (RN_CAT (RN_CHAR (CHR ''a'')) None, ps)" using demo_parse by blast
  from regex_search_leftmost_longest [OF re, of "''bab''" "[''b'']"] p l have "?r = Some (1, 2)"
    by (auto split: option.splits)
  with re show ?thesis by blast
qed

end
