(* ===== verification/As_McpSchema.thy ===== *)
theory As_McpSchema
  imports As_JsonText
begin

text \<open>
  \<^verbatim>\<open>src/mcp_schema_profile.c\<close>, \<^verbatim>\<open>src/mcp_schema_validate.c\<close> and the equality of \<^verbatim>\<open>src/mcp_contract.c\<close>: the
  bounded JSON Schema profile that reviewed MCP contracts are written in. Admission of a schema,
  equality of JSON values, and the check of a value against a schema with its node and depth budgets;
  then what they mean without budgets and without machine arithmetic.
\<close>

unbundle bit_operations_syntax

section \<open>Equality\<close>

definition DBL_EXACT :: int where
  "DBL_EXACT = 9007199254740992"

fun schema_equal :: "jx_value \<Rightarrow> jx_value \<Rightarrow> bool" where
  "schema_equal JX_NULL w \<longleftrightarrow> w = JX_NULL"
| "schema_equal (JX_BOOL b) w \<longleftrightarrow> w = JX_BOOL b"
| "schema_equal (JX_NUMBER d i p) w \<longleftrightarrow>
     (case w of JX_NUMBER e j q \<Rightarrow>
        if p \<and> q then i = j
        else if p \<noteq> q \<and> (let n = if p then i else j in n < - DBL_EXACT \<or> n > DBL_EXACT) then False
        else dbl_eq d e
      | _ \<Rightarrow> False)"
| "schema_equal (JX_STRING s) w \<longleftrightarrow> w = JX_STRING s"
| "schema_equal (JX_ARRAY xs) w \<longleftrightarrow>
     (case w of JX_ARRAY ys \<Rightarrow> length xs = length ys \<and> list_all2 schema_equal xs ys | _ \<Rightarrow> False)"
| "schema_equal (JX_OBJECT ms) w \<longleftrightarrow>
     (case w of JX_OBJECT ns \<Rightarrow>
        length ms = length ns \<and>
        list_all (\<lambda>m. case obj_find ns (fst m) of None \<Rightarrow> False | Some y \<Rightarrow> schema_equal (snd m) y) ms
      | _ \<Rightarrow> False)"

definition astools_mcp_schema_equal :: "jx_value option \<Rightarrow> jx_value option \<Rightarrow> bool" where
  "astools_mcp_schema_equal a b =
     (case (a, b) of (Some x, Some y) \<Rightarrow> schema_equal x y | _ \<Rightarrow> a = None \<and> b = None)"

text \<open>
  What a JSON value means: an object is a map, a number its exact value. An integer outside the exact
  range of a double is kept apart from the doubles, as the code keeps it.
\<close>

datatype jmean =
    MNull | MBool bool | MNum rat | MBig int | MStr string | MArr "jmean list" | MObj "string \<Rightarrow> jmean option"

definition dval :: "dbl \<Rightarrow> rat" where
  "dval d = (if dneg d then - dmag d else dmag d)"

fun mean :: "jx_value \<Rightarrow> jmean" where
  "mean JX_NULL = MNull"
| "mean (JX_BOOL b) = MBool b"
| "mean (JX_NUMBER d i p) =
     (if p then (if i < - DBL_EXACT \<or> i > DBL_EXACT then MBig i else MNum (of_int i)) else MNum (dval d))"
| "mean (JX_STRING s) = MStr s"
| "mean (JX_ARRAY xs) = MArr (map mean xs)"
| "mean (JX_OBJECT ms) = MObj (map_of (map (\<lambda>m. (fst m, mean (snd m))) ms))"

lemma ilog_int_le:
  assumes "0 < n" "n \<le> DBL_EXACT"
  shows "ilog 2 (of_int n) \<le> 53"
proof (rule ccontr)
  assume "\<not> ?thesis"
  then have "(2 :: rat) powi 54 \<le> 2 powi ilog 2 (of_int n)" by (intro power_int_increasing) auto
  also have "\<dots> \<le> of_int n" using ilog_bounds(1) [of 2 "of_int n"] assms by simp
  also have "of_int n \<le> (of_int DBL_EXACT :: rat)" using assms by simp
  finally show False by (simp add: DBL_EXACT_def)
qed

lemma round_even_int [simp]: "round_even (of_int k) = k"
  by (rule round_even_near) simp

lemma round_mag_int:
  assumes "\<bar>i\<bar> \<le> DBL_EXACT"
  shows "round_mag (of_int \<bar>i\<bar>) = of_int \<bar>i\<bar>"
proof (cases "i = 0")
  case False
  let ?n = "\<bar>i\<bar>"
  have l: "ilog 2 (of_int ?n) \<le> 53" using ilog_int_le [of ?n] assms False by simp
  have "\<exists>k. (of_int ?n :: rat) / 2 powi dexp (of_int ?n) = of_int k"
  proof (cases "ilog 2 (of_int ?n) = 53")
    case True
    then have "(2 :: rat) powi 53 \<le> of_int ?n" using ilog_bounds(1) [of 2 "of_int ?n"] False by simp
    then have "(9007199254740992 :: rat) \<le> of_int ?n" by simp
    then have "9007199254740992 \<le> ?n" by linarith
    with assms have "?n = DBL_EXACT" by (simp add: DBL_EXACT_def)
    then have "of_int ?n / 2 powi dexp (of_int ?n) = (of_int 4503599627370496 :: rat)"
      using True by (simp add: dexp_def DBL_EXACT_def)
    then show ?thesis by blast
  next
    case False
    obtain e where e_def: "e = nat (- dexp (of_int ?n))" by blast
    have "dexp (of_int ?n) \<le> 0" using l False by (simp add: dexp_def)
    then have "(2 :: rat) powi dexp (of_int ?n) = 1 / 2 ^ e" by (simp add: e_def power_int_def field_simps)
    then have "of_int ?n / 2 powi dexp (of_int ?n) = (of_int (?n * 2 ^ e) :: rat)" by simp
    then show ?thesis by blast
  qed
  then obtain k where k: "(of_int ?n :: rat) / 2 powi dexp (of_int ?n) = of_int k" by blast
  then have n: "(of_int ?n :: rat) = of_int k * 2 powi dexp (of_int ?n)" by (simp add: divide_eq_eq)
  have "(of_int ?n :: rat) \<noteq> 0" using False by simp
  then have "round_mag (of_int ?n) = of_int k * 2 powi dexp (of_int ?n)"
    by (simp only: round_mag_def if_False k round_even_int)
  with n show ?thesis by simp
qed (simp add: round_mag_def)

lemma dval_of_ll: "\<bar>i\<bar> \<le> DBL_EXACT \<Longrightarrow> dval (dbl_of_ll i) = of_int i"
  using round_mag_int [of i] by (auto simp: dval_def dbl_of_ll_def)

lemma dbl_eq_iff: "0 \<le> dmag d \<Longrightarrow> 0 \<le> dmag e \<Longrightarrow> dbl_eq d e \<longleftrightarrow> dval d = dval e"
  by (cases d; cases e) (auto simp: dbl_eq_def dval_def)

lemma jx_ok_dbl: "jx_ok (JX_NUMBER d i p) \<Longrightarrow> 0 \<le> dmag d"
  by (simp add: dbl_ok_def is_mag_def)

lemma jx_ok_exact: "jx_ok (JX_NUMBER d i True) \<Longrightarrow> \<bar>i\<bar> \<le> DBL_EXACT \<Longrightarrow> dval d = of_int i"
  by (simp add: dval_of_ll)

lemma number_equal:
  assumes "jx_ok (JX_NUMBER d i p)" "jx_ok (JX_NUMBER e j q)"
  shows "schema_equal (JX_NUMBER d i p) (JX_NUMBER e j q) \<longleftrightarrow> mean (JX_NUMBER d i p) = mean (JX_NUMBER e j q)"
proof -
  have eq: "dbl_eq d e \<longleftrightarrow> dval d = dval e" by (rule dbl_eq_iff [OF jx_ok_dbl [OF assms(1)] jx_ok_dbl [OF assms(2)]])
  have x: "p \<Longrightarrow> \<bar>i\<bar> \<le> DBL_EXACT \<Longrightarrow> dval d = of_int i" "q \<Longrightarrow> \<bar>j\<bar> \<le> DBL_EXACT \<Longrightarrow> dval e = of_int j"
    using jx_ok_exact [of d i] jx_ok_exact [of e j] assms by (auto simp del: jx_ok.simps)
  show ?thesis
    using x by (cases p; cases q) (auto simp: eq Let_def abs_le_iff not_less)
qed

lemma map_of_map_snd: "map_of (map (\<lambda>m. (fst m, h (snd m))) xs) k = map_option h (map_of xs k)"
  by (induction xs) auto

lemma equal_members:
  assumes d: "distinct (map fst ms)" "distinct (map fst ns)"
    and eq: "\<And>m y. m \<in> set ms \<Longrightarrow> obj_find ns (fst m) = Some y \<Longrightarrow> E (snd m) y \<longleftrightarrow> f (snd m) = g y"
  shows "length ms = length ns \<and>
      list_all (\<lambda>m. case obj_find ns (fst m) of None \<Rightarrow> False | Some y \<Rightarrow> E (snd m) y) ms \<longleftrightarrow>
    map_of (map (\<lambda>m. (fst m, f (snd m))) ms) = map_of (map (\<lambda>m. (fst m, g (snd m))) ns)"
  (is "?L \<longleftrightarrow> ?F = ?G")
proof -
  have find: "obj_find ns k = map_of ns k" for k by (induction ns k rule: obj_find.induct) auto
  have doms: "dom (map_of ms) = fst ` set ms" "dom (map_of ns) = fst ` set ns" by (simp_all add: dom_map_of_conv_image_fst)
  have cards: "card (fst ` set ms) = length ms" "card (fst ` set ns) = length ns"
    using distinct_card [OF d(1)] distinct_card [OF d(2)] by simp_all
  show ?thesis
  proof
    assume L: ?L
    have inc: "\<exists>y. map_of ns k = Some y \<and> f x = g y" if "map_of ms k = Some x" for k x
    proof -
      have m: "(k, x) \<in> set ms" by (rule map_of_SomeD [OF that])
      with L obtain y where y: "map_of ns k = Some y" "E x y" by (force simp: find list_all_iff split: option.splits)
      with eq [OF m] show ?thesis by (auto simp: find)
    qed
    have "dom (map_of ms) \<subseteq> dom (map_of ns)"
    proof
      fix k
      assume "k \<in> dom (map_of ms)"
      then obtain x where "map_of ms k = Some x" by blast
      from inc [OF this] show "k \<in> dom (map_of ns)" by blast
    qed
    then have sub: "fst ` set ms \<subseteq> fst ` set ns" unfolding doms .
    have "card (fst ` set ms) = card (fst ` set ns)" using L cards by simp
    then have same: "dom (map_of ms) = dom (map_of ns)"
      using card_subset_eq [OF _ sub] doms by simp
    have none: "map_of ns k = None" if "map_of ms k = None" for k using that same by (metis domIff)
    show "?F = ?G"
    proof
      fix k
      show "?F k = ?G k"
        unfolding map_of_map_snd using inc [of k] same by (cases "map_of ms k") (simp_all add: none, force)
    qed
  next
    assume R: "?F = ?G"
    have pt: "map_option f (map_of ms k) = map_option g (map_of ns k)" for k
      using fun_cong [OF R, of k] unfolding map_of_map_snd .
    have "map_of ms k = None \<longleftrightarrow> map_of ns k = None" for k
      using pt [of k] by (cases "map_of ms k"; cases "map_of ns k") auto
    then have "dom (map_of ms) = dom (map_of ns)" unfolding dom_def by simp
    then have "card (fst ` set ms) = card (fst ` set ns)" unfolding doms by simp
    then have len: "length ms = length ns" using cards by simp
    have "\<exists>y. map_of ns (fst m) = Some y \<and> E (snd m) y" if m: "m \<in> set ms" for m
    proof -
      have "map_of ms (fst m) = Some (snd m)" using m d(1) by simp
      with pt [of "fst m"] obtain y where y: "map_of ns (fst m) = Some y" "f (snd m) = g y"
        by (cases "map_of ns (fst m)") auto
      with eq [OF m, of y] show ?thesis by (auto simp: find)
    qed
    then have "list_all (\<lambda>m. case obj_find ns (fst m) of None \<Rightarrow> False | Some y \<Rightarrow> E (snd m) y) ms"
      unfolding find list_all_iff by force
    with len show ?L by simp
  qed
qed

lemma obj_find_member: "obj_find ns k = Some y \<Longrightarrow> (k, y) \<in> set ns"
  by (induction ns k rule: obj_find.induct) (auto split: if_splits)

lemma schema_equal_mean: "jx_ok v \<Longrightarrow> jx_ok w \<Longrightarrow> schema_equal v w \<longleftrightarrow> mean v = mean w"
proof (induction v w rule: schema_equal.induct)
  case (3 d i p w)
  then show ?case
  proof (cases w)
    case (JX_NUMBER e j q)
    show ?thesis using number_equal 3 unfolding JX_NUMBER by blast
  qed auto
next
  case (5 xs w)
  show ?case
  proof (cases w)
    case (JX_ARRAY ys)
    have "schema_equal x y \<longleftrightarrow> mean x = mean y" if "x \<in> set xs" "y \<in> set ys" for x y
      using 5 that JX_ARRAY by auto
    then have "length xs = length ys \<and> list_all2 schema_equal xs ys \<longleftrightarrow> map mean xs = map mean ys"
      by (auto simp: list_all2_conv_all_nth list_eq_iff_nth_eq)
    then show ?thesis using JX_ARRAY by simp
  qed (simp_all split: if_splits)
next
  case (6 ms w)
  show ?case
  proof (cases w)
    case (JX_OBJECT ns)
    have eq: "schema_equal (snd m) y \<longleftrightarrow> mean (snd m) = mean y"
      if m: "m \<in> set ms" and y: "obj_find ns (fst m) = Some y" for m y
    proof -
      have "jx_ok (snd m)" "jx_ok y" using 6 m obj_find_member [OF y] JX_OBJECT by auto
      with 6 m y JX_OBJECT show ?thesis by simp
    qed
    have "distinct (map fst ms)" "distinct (map fst ns)" using 6 JX_OBJECT by auto
    from equal_members [where E = schema_equal and f = mean and g = mean, OF this eq] show ?thesis by (simp add: JX_OBJECT)
  qed (simp_all split: if_splits)
next
  case (1 w)
  show ?case by (cases w) (auto split: if_splits)
next
  case (2 b w)
  show ?case by (cases w) (auto split: if_splits)
next
  case (4 s w)
  show ?case by (cases w) (auto split: if_splits)
qed

section \<open>Admission\<close>

definition c_strlen :: "string \<Rightarrow> nat" where
  "c_strlen s = length (takeWhile (\<lambda>c. c \<noteq> NUL) s)"

definition astools_rpc_string :: "jx_value option \<Rightarrow> string \<Rightarrow> string option" where
  "astools_rpc_string object key =
     (let v = jx_object_get object (Some key) in
      case jx_string_value v of None \<Rightarrow> None
      | Some str \<Rightarrow> if c_strlen str = jx_string_length v then Some str else None)"

fun strings_loop :: "string list \<Rightarrow> jx_value list \<Rightarrow> bool" where
  "strings_loop seen [] = True"
| "strings_loop seen (v # vs) =
     (case jx_string_value (Some v) of None \<Rightarrow> False
      | Some s \<Rightarrow> c_strlen s = jx_string_length (Some v) \<and> s \<notin> set seen \<and> strings_loop (seen @ [s]) vs)"

definition schema_strings :: "jx_value \<Rightarrow> bool" where
  "schema_strings arr = (case arr of JX_ARRAY vs \<Rightarrow> length vs \<le> 256 \<and> strings_loop [] vs | _ \<Rightarrow> False)"

fun enum_distinct :: "jx_value list \<Rightarrow> jx_value list \<Rightarrow> bool" where
  "enum_distinct seen [] = True"
| "enum_distinct seen (v # vs) =
     (list_all (\<lambda>w. \<not> astools_mcp_schema_equal (Some v) (Some w)) seen \<and> enum_distinct (seen @ [v]) vs)"

definition schema_types :: "string list" where
  "schema_types = [''null'', ''boolean'', ''number'', ''integer'', ''string'', ''array'', ''object'']"

definition schema_counts :: "string list" where
  "schema_counts = [''minLength'', ''maxLength'', ''minItems'', ''maxItems'', ''minProperties'', ''maxProperties'']"

definition schema_bounds :: "string list" where
  "schema_bounds = [''minimum'', ''maximum'', ''exclusiveMinimum'', ''exclusiveMaximum'']"

definition SCHEMA_URI :: string where
  "SCHEMA_URI = ''https://json-schema.org/draft/2020-12/schema''"

text \<open>The node budget is threaded through the walk; a failure loses it.\<close>

definition keep :: "bool \<Rightarrow> nat \<Rightarrow> nat option" where
  "keep b left = (if b then Some left else None)"

fun thread :: "('a \<Rightarrow> nat \<Rightarrow> nat option) \<Rightarrow> 'a list \<Rightarrow> nat \<Rightarrow> nat option" where
  "thread f [] left = Some left"
| "thread f (x # xs) left = (case f x left of None \<Rightarrow> None | Some left' \<Rightarrow> thread f xs left')"

text \<open>One keyword; \<open>inner\<close> admits a schema one level deeper.\<close>

definition supported_member :: "(jx_value \<Rightarrow> nat \<Rightarrow> nat option) \<Rightarrow> jx_value \<Rightarrow> string \<times> jx_value \<Rightarrow> nat \<Rightarrow> nat option" where
  "supported_member inner schema m left =
     (case m of (key, v) \<Rightarrow>
        if key = ''$schema'' then keep (astools_rpc_string (Some schema) key = Some SCHEMA_URI) left
        else if key = ''type'' then
          (case astools_rpc_string (Some schema) key of None \<Rightarrow> None | Some t \<Rightarrow> keep (t \<in> set schema_types) left)
        else if key = ''properties'' then
          (case v of JX_OBJECT ps \<Rightarrow> if length ps > 256 then None else thread (\<lambda>p left. inner (snd p) left) ps left
           | _ \<Rightarrow> None)
        else if key = ''items'' \<or> key = ''additionalProperties'' then inner v left
        else if key = ''required'' then keep (schema_strings v) left
        else if key \<in> set schema_counts then
          keep (case v of JX_NUMBER d i True \<Rightarrow> 0 \<le> i \<and> i \<le> DBL_EXACT | _ \<Rightarrow> False) left
        else if key \<in> set schema_bounds then
          keep (case v of JX_NUMBER d i p \<Rightarrow>
              dmag d \<le> of_int DBL_EXACT \<and> \<not> (p \<and> (i < - DBL_EXACT \<or> i > DBL_EXACT)) | _ \<Rightarrow> False) left
        else if key = ''enum'' then
          keep (case v of JX_ARRAY vs \<Rightarrow> vs \<noteq> [] \<and> length vs \<le> 256 \<and> enum_distinct [] vs | _ \<Rightarrow> False) left
        else if key \<in> {''title'', ''description'', ''$comment''} then
          keep (case v of JX_STRING _ \<Rightarrow> True | _ \<Rightarrow> False) left
        else if key \<in> {''readOnly'', ''writeOnly'', ''deprecated''} then
          keep (case v of JX_BOOL _ \<Rightarrow> True | _ \<Rightarrow> False) left
        else if key = ''examples'' then keep (case v of JX_ARRAY _ \<Rightarrow> True | _ \<Rightarrow> False) left
        else keep (key = ''default'' \<or> key = ''const'') left)"

function schema_supported :: "nat \<Rightarrow> jx_value \<Rightarrow> nat \<Rightarrow> nat option" where
  "schema_supported depth schema left =
     (if depth > 32 \<or> left = 0 then None
      else case schema of
        JX_BOOL _ \<Rightarrow> Some (left - 1)
      | JX_OBJECT ms \<Rightarrow>
          thread (supported_member (\<lambda>v left. schema_supported (depth + 1) v left) schema) ms (left - 1)
      | _ \<Rightarrow> None)"
  by pat_completeness auto
termination
  by (relation "measure (\<lambda>(depth, schema, left). 33 - depth)") auto

declare schema_supported.simps [simp del]

definition astools_mcp_schema_supported :: "jx_value option \<Rightarrow> bool" where
  "astools_mcp_schema_supported schema =
     (case schema of None \<Rightarrow> False | Some v \<Rightarrow> schema_supported 0 v 1024 \<noteq> None)"

section \<open>Validation\<close>

text \<open>C's \<open>(uint64_t)\<close> of an integer member; the profile has made it an integer.\<close>

definition count_bound :: "jx_value \<Rightarrow> nat" where
  "count_bound v = nat ((case jx_int_value (Some v) of None \<Rightarrow> 0 | Some i \<Rightarrow> i) mod 2 ^ 64)"

definition count_ok :: "jx_value option \<Rightarrow> string \<Rightarrow> string \<Rightarrow> nat \<Rightarrow> bool" where
  "count_ok schema mn mx n \<longleftrightarrow>
     (case jx_object_get schema (Some mn) of None \<Rightarrow> True | Some lo \<Rightarrow> n \<ge> count_bound lo) \<and>
     (case jx_object_get schema (Some mx) of None \<Rightarrow> True | Some hi \<Rightarrow> n \<le> count_bound hi)"

text \<open>The order of a number and a bound: -1, 0 or 1.\<close>

definition num_order :: "jx_value \<Rightarrow> jx_value \<Rightarrow> int" where
  "num_order value bound =
     (case (value, bound) of
        (JX_NUMBER d i p, JX_NUMBER e j q) \<Rightarrow>
          if p \<and> q then (if i > j then 1 else 0) - (if i < j then 1 else 0)
          else if p \<and> i > DBL_EXACT then 1
          else if p \<and> i < - DBL_EXACT then - 1
          else (if dval d > dval e then 1 else 0) - (if dval d < dval e then 1 else 0)
      | _ \<Rightarrow> 0)"

definition bound_ok :: "jx_value option \<Rightarrow> jx_value \<Rightarrow> string \<Rightarrow> (int \<Rightarrow> bool) \<Rightarrow> bool" where
  "bound_ok schema value key fails =
     (case jx_object_get schema (Some key) of None \<Rightarrow> True | Some bound \<Rightarrow> \<not> fails (num_order value bound))"

definition number_ok :: "jx_value option \<Rightarrow> jx_value \<Rightarrow> bool" where
  "number_ok schema value \<longleftrightarrow>
     bound_ok schema value ''minimum'' (\<lambda>order. order < 0) \<and>
     bound_ok schema value ''maximum'' (\<lambda>order. order > 0) \<and>
     bound_ok schema value ''exclusiveMinimum'' (\<lambda>order. order \<le> 0) \<and>
     bound_ok schema value ''exclusiveMaximum'' (\<lambda>order. order \<ge> 0)"

fun type_name :: "jx_value \<Rightarrow> string" where
  "type_name JX_NULL = ''null''"
| "type_name (JX_BOOL _) = ''boolean''"
| "type_name (JX_NUMBER _ _ _) = ''number''"
| "type_name (JX_STRING _) = ''string''"
| "type_name (JX_ARRAY _) = ''array''"
| "type_name (JX_OBJECT _) = ''object''"

definition type_ok :: "jx_value option \<Rightarrow> jx_value \<Rightarrow> bool" where
  "type_ok schema value =
     (case astools_rpc_string schema ''type'' of None \<Rightarrow> True
      | Some t \<Rightarrow> t = type_name value \<or>
          (t = ''integer'' \<and>
           (case value of JX_NUMBER d _ _ \<Rightarrow> of_int \<lfloor>dval d\<rfloor> = dval d | _ \<Rightarrow> False)))"

definition const_ok :: "jx_value option \<Rightarrow> jx_value \<Rightarrow> bool" where
  "const_ok schema value =
     (case jx_object_get schema (Some ''const'') of None \<Rightarrow> True
      | Some fixed \<Rightarrow> astools_mcp_schema_equal (Some fixed) (Some value))"

definition enum_ok :: "jx_value option \<Rightarrow> jx_value \<Rightarrow> bool" where
  "enum_ok schema value =
     (case jx_object_get schema (Some ''enum'') of None \<Rightarrow> True
      | Some (JX_ARRAY choices) \<Rightarrow> list_ex (\<lambda>w. astools_mcp_schema_equal (Some w) (Some value)) choices
      | Some _ \<Rightarrow> False)"

text \<open>The bytes that do not continue a character.\<close>

definition char_count :: "string \<Rightarrow> nat" where
  "char_count s = length (filter (\<lambda>b. b AND 0xC0 \<noteq> 0x80) (bytes s))"

definition required_ok :: "jx_value option \<Rightarrow> jx_value \<Rightarrow> bool" where
  "required_ok schema value =
     (case jx_object_get schema (Some ''required'') of
        Some (JX_ARRAY names) \<Rightarrow>
          list_all (\<lambda>n. jx_object_get (Some value) (jx_string_value (Some n)) \<noteq> None) names
      | _ \<Rightarrow> True)"

definition child_schema :: "jx_value option \<Rightarrow> string \<Rightarrow> jx_value option" where
  "child_schema schema key =
     (case jx_object_get (jx_object_get schema (Some ''properties'')) (Some key) of
        Some child \<Rightarrow> Some child
      | None \<Rightarrow> jx_object_get schema (Some ''additionalProperties''))"

function schema_validate :: "jx_value option \<Rightarrow> jx_value option \<Rightarrow> nat \<Rightarrow> nat \<Rightarrow> nat option" where
  "schema_validate schema value depth left =
     (case value of None \<Rightarrow> None
      | Some v \<Rightarrow>
        if left = 0 \<or> depth > 64 then None
        else let left = left - 1 in
          case schema of
            None \<Rightarrow> Some left
          | Some (JX_BOOL b) \<Rightarrow> keep b left
          | Some _ \<Rightarrow>
              if \<not> type_ok schema v \<or> \<not> const_ok schema v \<or> \<not> enum_ok schema v then None
              else (case v of
                  JX_NUMBER _ _ _ \<Rightarrow> keep (number_ok schema v) left
                | JX_STRING s \<Rightarrow> keep (count_ok schema ''minLength'' ''maxLength'' (char_count s)) left
                | JX_ARRAY xs \<Rightarrow>
                    if \<not> count_ok schema ''minItems'' ''maxItems'' (length xs) then None
                    else thread (\<lambda>x left. schema_validate (jx_object_get schema (Some ''items'')) (Some x) (depth + 1) left) xs left
                | JX_OBJECT ms \<Rightarrow>
                    if \<not> count_ok schema ''minProperties'' ''maxProperties'' (length ms) then None
                    else if \<not> required_ok schema v then None
                    else thread (\<lambda>m left. schema_validate (child_schema schema (fst m)) (Some (snd m)) (depth + 1) left) ms left
                | _ \<Rightarrow> Some left))"
  by pat_completeness auto
termination
  by (relation "measure (\<lambda>(schema, value, depth, left). 65 - depth)") auto

declare schema_validate.simps [simp del]

definition astools_mcp_schema_validate :: "jx_value option \<Rightarrow> jx_value option \<Rightarrow> bool" where
  "astools_mcp_schema_validate schema value \<longleftrightarrow> schema_validate schema value 0 32768 \<noteq> None"

section \<open>What conformance means\<close>

text \<open>
  The same profile over exact numbers, maps and sets, without budgets: \<open>meets\<close> is the keywords that
  look at the value itself, \<open>conforms\<close> adds the schemas of items and members.
\<close>

definition num_val :: "jx_value \<Rightarrow> rat" where
  "num_val v = (case v of JX_NUMBER d i p \<Rightarrow> if p then of_int i else dval d | _ \<Rightarrow> 0)"

definition has_type :: "string \<Rightarrow> jx_value \<Rightarrow> bool" where
  "has_type t v \<longleftrightarrow> t = type_name v \<or> t = ''integer'' \<and> type_name v = ''number'' \<and> num_val v \<in> \<int>"

definition size_within :: "jx_value \<Rightarrow> string \<Rightarrow> string \<Rightarrow> nat \<Rightarrow> bool" where
  "size_within s mn mx n \<longleftrightarrow>
     (\<forall>b. jx_object_get (Some s) (Some mn) = Some b \<longrightarrow> num_val b \<le> of_nat n) \<and>
     (\<forall>b. jx_object_get (Some s) (Some mx) = Some b \<longrightarrow> of_nat n \<le> num_val b)"

definition in_range :: "jx_value \<Rightarrow> jx_value \<Rightarrow> bool" where
  "in_range s v \<longleftrightarrow>
     (\<forall>b. jx_object_get (Some s) (Some ''minimum'') = Some b \<longrightarrow> num_val b \<le> num_val v) \<and>
     (\<forall>b. jx_object_get (Some s) (Some ''maximum'') = Some b \<longrightarrow> num_val v \<le> num_val b) \<and>
     (\<forall>b. jx_object_get (Some s) (Some ''exclusiveMinimum'') = Some b \<longrightarrow> num_val b < num_val v) \<and>
     (\<forall>b. jx_object_get (Some s) (Some ''exclusiveMaximum'') = Some b \<longrightarrow> num_val v < num_val b)"

definition meets :: "jx_value \<Rightarrow> jx_value \<Rightarrow> bool" where
  "meets s v \<longleftrightarrow>
     (\<forall>t. jx_object_get (Some s) (Some ''type'') = Some (JX_STRING t) \<longrightarrow> has_type t v) \<and>
     (\<forall>c. jx_object_get (Some s) (Some ''const'') = Some c \<longrightarrow> mean v = mean c) \<and>
     (\<forall>cs. jx_object_get (Some s) (Some ''enum'') = Some (JX_ARRAY cs) \<longrightarrow> mean v \<in> mean ` set cs) \<and>
     (case v of
        JX_NUMBER _ _ _ \<Rightarrow> in_range s v
      | JX_STRING str \<Rightarrow> size_within s ''minLength'' ''maxLength'' (char_count str)
      | JX_ARRAY xs \<Rightarrow> size_within s ''minItems'' ''maxItems'' (length xs)
      | JX_OBJECT ms \<Rightarrow> size_within s ''minProperties'' ''maxProperties'' (length ms) \<and>
          (\<forall>names. jx_object_get (Some s) (Some ''required'') = Some (JX_ARRAY names) \<longrightarrow>
             (\<forall>n. JX_STRING n \<in> set names \<longrightarrow> n \<in> fst ` set ms))
      | _ \<Rightarrow> True)"

fun conforms :: "jx_value option \<Rightarrow> jx_value \<Rightarrow> bool" where
  "conforms schema (JX_ARRAY xs) \<longleftrightarrow>
     (case schema of None \<Rightarrow> True | Some (JX_BOOL b) \<Rightarrow> b
      | Some s \<Rightarrow> meets s (JX_ARRAY xs) \<and> (\<forall>x \<in> set xs. conforms (jx_object_get schema (Some ''items'')) x))"
| "conforms schema (JX_OBJECT ms) \<longleftrightarrow>
     (case schema of None \<Rightarrow> True | Some (JX_BOOL b) \<Rightarrow> b
      | Some s \<Rightarrow> meets s (JX_OBJECT ms) \<and> (\<forall>m \<in> set ms. conforms (child_schema schema (fst m)) (snd m)))"
| "conforms schema v \<longleftrightarrow> (case schema of None \<Rightarrow> True | Some (JX_BOOL b) \<Rightarrow> b | Some s \<Rightarrow> meets s v)"

fun nodes :: "jx_value \<Rightarrow> nat" where
  "nodes (JX_ARRAY xs) = Suc (sum_list (map nodes xs))"
| "nodes (JX_OBJECT ms) = Suc (sum_list (map (\<lambda>m. nodes (snd m)) ms))"
| "nodes v = 1"

section \<open>Admitted schemas\<close>

definition admitted :: "jx_value \<Rightarrow> bool" where
  "admitted s \<longleftrightarrow> (\<exists>depth left left'. schema_supported depth s left = Some left')"

lemma keep_Some [simp]: "keep b left = Some l \<longleftrightarrow> b \<and> l = left" "keep b left = None \<longleftrightarrow> \<not> b"
  by (auto simp: keep_def)

lemma thread_member: "thread f xs l = Some l' \<Longrightarrow> x \<in> set xs \<Longrightarrow> \<exists>a b. f x a = Some b"
  by (induction xs arbitrary: l) (auto split: option.splits)

lemma thread_complete:
  assumes "\<And>x l. x \<in> set xs \<Longrightarrow> cost x \<le> l \<Longrightarrow> \<exists>l'. f x l = Some l' \<and> l \<le> l' + cost x"
    and "sum_list (map cost xs) \<le> l"
  shows "\<exists>l'. thread f xs l = Some l' \<and> l \<le> l' + sum_list (map cost xs)"
  using assms
proof (induction xs arbitrary: l)
  case (Cons x xs)
  obtain l1 where l1: "f x l = Some l1" "l \<le> l1 + cost x" using Cons.prems(1) [of x l] Cons.prems(2) by auto
  have "sum_list (map cost xs) \<le> l1" using l1(2) Cons.prems(2) by simp
  from Cons.IH [OF Cons.prems(1) this] l1 show ?case by fastforce
qed simp

lemma admittedI: "schema_supported depth s left = Some left' \<Longrightarrow> admitted s"
  by (auto simp: admitted_def)

lemma admitted_shape: "admitted s \<Longrightarrow> (\<exists>b. s = JX_BOOL b) \<or> (\<exists>ms. s = JX_OBJECT ms)"
  by (auto simp: admitted_def schema_supported.simps [of _ s] split: if_splits jx_value.splits)

lemma admitted_member:
  assumes "admitted (JX_OBJECT ms)" "jx_object_get (Some (JX_OBJECT ms)) (Some k) = Some x"
  shows "\<exists>depth l l'. supported_member (\<lambda>v left. schema_supported depth v left) (JX_OBJECT ms) (k, x) l = Some l'"
proof -
  have "(k, x) \<in> set ms" using assms(2) obj_find_member by (simp add: jx_object_get_def)
  with assms(1) show ?thesis
    by (auto simp: admitted_def schema_supported.simps [of _ "JX_OBJECT ms"] split: if_splits dest!: thread_member)
qed

lemmas key_defs = supported_member_def schema_counts_def schema_bounds_def

lemma admitted_items:
  "admitted (JX_OBJECT ms) \<Longrightarrow> jx_object_get (Some (JX_OBJECT ms)) (Some k) = Some x \<Longrightarrow>
    k = ''items'' \<or> k = ''additionalProperties'' \<Longrightarrow> admitted x"
  using admitted_member [of ms k x] by (auto simp: key_defs intro: admittedI)

lemma admitted_property:
  assumes "admitted (JX_OBJECT ms)" "jx_object_get (Some (JX_OBJECT ms)) (Some ''properties'') = Some p"
    and "jx_object_get (Some p) (Some k) = Some x"
  shows "admitted x"
proof -
  obtain depth l l' where "supported_member (\<lambda>v left. schema_supported depth v left) (JX_OBJECT ms) (''properties'', p) l = Some l'"
    using admitted_member [OF assms(1,2)] by blast
  then obtain ps where ps: "p = JX_OBJECT ps" and t: "thread (\<lambda>m left. schema_supported depth (snd m) left) ps l = Some l'"
    by (auto simp: key_defs split: jx_value.splits if_splits)
  have "(k, x) \<in> set ps" using assms(3) obj_find_member by (simp add: ps jx_object_get_def)
  with thread_member [OF t] show ?thesis by (force intro: admittedI)
qed

lemma admitted_count:
  "admitted (JX_OBJECT ms) \<Longrightarrow> jx_object_get (Some (JX_OBJECT ms)) (Some k) = Some x \<Longrightarrow> k \<in> set schema_counts \<Longrightarrow>
    \<exists>d i. x = JX_NUMBER d i True \<and> 0 \<le> i \<and> i \<le> DBL_EXACT"
  using admitted_member [of ms k x] by (auto simp: key_defs split: jx_value.splits bool.splits)

lemma admitted_bound:
  "admitted (JX_OBJECT ms) \<Longrightarrow> jx_object_get (Some (JX_OBJECT ms)) (Some k) = Some x \<Longrightarrow> k \<in> set schema_bounds \<Longrightarrow>
    \<exists>d i p. x = JX_NUMBER d i p \<and> dmag d \<le> of_int DBL_EXACT \<and> (p \<longrightarrow> \<bar>i\<bar> \<le> DBL_EXACT)"
  using admitted_member [of ms k x] by (auto simp: key_defs abs_le_iff split: jx_value.splits bool.splits)

lemma admitted_enum:
  "admitted (JX_OBJECT ms) \<Longrightarrow> jx_object_get (Some (JX_OBJECT ms)) (Some ''enum'') = Some x \<Longrightarrow> \<exists>cs. x = JX_ARRAY cs"
  using admitted_member [of ms "''enum''" x] by (auto simp: key_defs split: jx_value.splits)

lemma strings_loop_strings: "strings_loop seen vs \<Longrightarrow> v \<in> set vs \<Longrightarrow> \<exists>s. v = JX_STRING s"
  by (induction vs arbitrary: seen) (auto simp: jx_string_value_def split: option.splits jx_value.splits)

lemma admitted_required:
  "admitted (JX_OBJECT ms) \<Longrightarrow> jx_object_get (Some (JX_OBJECT ms)) (Some ''required'') = Some x \<Longrightarrow>
    \<exists>vs. x = JX_ARRAY vs \<and> (\<forall>v \<in> set vs. \<exists>s. v = JX_STRING s)"
  using admitted_member [of ms "''required''" x]
  by (auto simp: key_defs schema_strings_def dest: strings_loop_strings split: jx_value.splits)

lemma c_strlen_full: "c_strlen s = length s \<longleftrightarrow> NUL \<notin> set s"
proof -
  have "c_strlen s = length s \<longleftrightarrow> takeWhile (\<lambda>c. c \<noteq> NUL) s = s"
    unfolding c_strlen_def by (metis takeWhile_eq_take take_all order_refl)
  also have "\<dots> \<longleftrightarrow> NUL \<notin> set s" by (auto simp: takeWhile_eq_all_conv)
  finally show ?thesis .
qed

lemma admitted_type:
  "admitted (JX_OBJECT ms) \<Longrightarrow> jx_object_get (Some (JX_OBJECT ms)) (Some ''type'') = Some x \<Longrightarrow>
    \<exists>t. x = JX_STRING t \<and> astools_rpc_string (Some (JX_OBJECT ms)) ''type'' = Some t"
  using admitted_member [of ms "''type''" x]
  by (auto simp: key_defs astools_rpc_string_def jx_string_value_def Let_def split: option.splits jx_value.splits if_splits)

lemma admitted_type_None:
  "jx_object_get (Some (JX_OBJECT ms)) (Some ''type'') = None \<Longrightarrow> astools_rpc_string (Some (JX_OBJECT ms)) ''type'' = None"
  by (simp add: astools_rpc_string_def jx_string_value_def)

section \<open>The keywords\<close>

lemma jx_ok_get: "jx_ok s \<Longrightarrow> jx_object_get (Some s) k = Some x \<Longrightarrow> jx_ok x"
  by (auto simp: jx_object_get_def dest!: obj_find_member split: jx_value.splits option.splits)

lemma num_val_dval: "jx_ok (JX_NUMBER d i p) \<Longrightarrow> p \<longrightarrow> \<bar>i\<bar> \<le> DBL_EXACT \<Longrightarrow> num_val (JX_NUMBER d i p) = dval d"
  using jx_ok_exact [of d i] by (cases p) (auto simp: num_val_def simp del: jx_ok.simps)

lemma num_val_bound:
  assumes "jx_ok (JX_NUMBER d i p)" "dmag d \<le> of_int DBL_EXACT" "p \<longrightarrow> \<bar>i\<bar> \<le> DBL_EXACT"
  shows "\<bar>num_val (JX_NUMBER d i p)\<bar> \<le> of_int DBL_EXACT"
proof -
  have "\<bar>dval d\<bar> \<le> of_int DBL_EXACT" using jx_ok_dbl [OF assms(1)] assms(2) by (simp add: dval_def)
  then show ?thesis using num_val_dval [OF assms(1,3)] by simp
qed

text \<open>The mixed comparison of the code is the comparison of the exact values.\<close>

lemma num_order_exact:
  assumes v: "jx_ok (JX_NUMBER d i p)" and b: "jx_ok (JX_NUMBER e j q)"
    and bound: "dmag e \<le> of_int DBL_EXACT" "q \<longrightarrow> \<bar>j\<bar> \<le> DBL_EXACT"
  shows "num_order (JX_NUMBER d i p) (JX_NUMBER e j q) =
    (let x = num_val (JX_NUMBER d i p); y = num_val (JX_NUMBER e j q) in (if x > y then 1 else 0) - (if x < y then 1 else 0))"
proof -
  let ?x = "num_val (JX_NUMBER d i p)" and ?y = "num_val (JX_NUMBER e j q)"
  have y: "\<bar>?y\<bar> \<le> of_int DBL_EXACT" "?y = dval e"
    using num_val_bound [OF b bound] num_val_dval [OF b bound(2)] by auto
  consider (ints) "p" "q" | (big) "p" "\<not> q" "i > DBL_EXACT" | (small) "p" "\<not> q" "i < - DBL_EXACT"
    | (exact) "\<not> (p \<and> q)" "p \<longrightarrow> \<bar>i\<bar> \<le> DBL_EXACT" by (cases p; cases q) fastforce+
  then show ?thesis
  proof cases
    case ints
    then show ?thesis by (simp add: num_order_def num_val_def Let_def)
  next
    case big
    then have x: "?x = of_int i" by (simp add: num_val_def)
    have "(of_int DBL_EXACT :: rat) < of_int i" using big by (simp only: of_int_less_iff)
    then have "?y < ?x" using y(1) unfolding x by linarith
    then show ?thesis using big by (simp add: num_order_def Let_def)
  next
    case small
    then have x: "?x = of_int i" by (simp add: num_val_def)
    have "(of_int i :: rat) < - of_int DBL_EXACT" using small by (simp flip: of_int_minus)
    then have "?x < ?y" using y(1) unfolding x by linarith
    moreover have "\<not> DBL_EXACT < i" using small by (simp add: DBL_EXACT_def)
    ultimately show ?thesis using small by (simp add: num_order_def Let_def)
  next
    case exact
    have "num_order (JX_NUMBER d i p) (JX_NUMBER e j q) =
        (if dval d > dval e then 1 else 0) - (if dval d < dval e then 1 else 0)"
      using exact by (auto simp: num_order_def)
    then show ?thesis using num_val_dval [OF v exact(2)] y(2) by (simp add: Let_def)
  qed
qed

lemma round_mag_Ints: "round_mag (of_int \<bar>i\<bar>) \<in> \<int>"
proof (cases "\<bar>i\<bar> \<le> DBL_EXACT")
  case True
  then show ?thesis by (metis round_mag_int Ints_of_int)
next
  case False
  let ?q = "of_int \<bar>i\<bar> :: rat"
  have pos: "0 < ?q" using False by (auto simp: DBL_EXACT_def)
  have "(2 :: rat) powi 53 = of_int DBL_EXACT" by (simp add: DBL_EXACT_def)
  also have "(of_int DBL_EXACT :: rat) < ?q" using False by (simp only: of_int_less_iff not_le)
  also have "?q < 2 powi (ilog 2 ?q + 1)" using ilog_bounds(2) [of 2 ?q] pos by simp
  finally have "\<not> ilog 2 ?q + 1 \<le> 53" using power_int_increasing [of "ilog 2 ?q + 1" 53 "2 :: rat"] by auto
  then have "dexp ?q = int (nat (ilog 2 ?q - 52))" by (simp add: dexp_def)
  then have "(2 :: rat) powi dexp ?q = 2 ^ nat (ilog 2 ?q - 52)" by (simp only: power_int_of_nat)
  then have "round_mag ?q = of_int (round_even (?q / 2 powi dexp ?q) * 2 ^ nat (ilog 2 ?q - 52))"
    using pos by (simp add: round_mag_def)
  then show ?thesis by (simp only: Ints_of_int)
qed

lemma integer_type:
  assumes "jx_ok (JX_NUMBER d i p)"
  shows "of_int \<lfloor>dval d\<rfloor> = dval d \<longleftrightarrow> num_val (JX_NUMBER d i p) \<in> \<int>"
proof (cases p)
  case True
  then have "dval d \<in> \<int>" using assms round_mag_Ints [of i] by (auto simp: dval_def dbl_of_ll_def)
  then show ?thesis using True by (auto simp: num_val_def elim: Ints_cases)
next
  case False
  then show ?thesis by (auto simp: num_val_def elim: Ints_cases)
qed

lemma type_ok_iff:
  assumes "admitted (JX_OBJECT ms)" "jx_ok v"
  shows "type_ok (Some (JX_OBJECT ms)) v \<longleftrightarrow>
    (\<forall>t. jx_object_get (Some (JX_OBJECT ms)) (Some ''type'') = Some (JX_STRING t) \<longrightarrow> has_type t v)"
proof (cases "jx_object_get (Some (JX_OBJECT ms)) (Some ''type'')")
  case None
  then show ?thesis using admitted_type_None [OF None] by (simp add: type_ok_def)
next
  case (Some x)
  obtain t where t: "x = JX_STRING t" "astools_rpc_string (Some (JX_OBJECT ms)) ''type'' = Some t"
    using admitted_type [OF assms(1) Some] by blast
  have "(case v of JX_NUMBER d _ _ \<Rightarrow> of_int \<lfloor>dval d\<rfloor> = dval d | _ \<Rightarrow> False) \<longleftrightarrow>
      type_name v = ''number'' \<and> num_val v \<in> \<int>"
    using assms(2) integer_type by (cases v) (auto simp del: jx_ok.simps)
  then show ?thesis using Some t by (auto simp: type_ok_def has_type_def)
qed

lemma const_ok_iff:
  assumes "jx_ok (JX_OBJECT ms)" "jx_ok v"
  shows "const_ok (Some (JX_OBJECT ms)) v \<longleftrightarrow>
    (\<forall>c. jx_object_get (Some (JX_OBJECT ms)) (Some ''const'') = Some c \<longrightarrow> mean v = mean c)"
  using jx_ok_get [OF assms(1)] schema_equal_mean assms(2)
  by (auto simp: const_ok_def astools_mcp_schema_equal_def simp del: jx_ok.simps split: option.splits)

lemma enum_ok_iff:
  assumes "admitted (JX_OBJECT ms)" "jx_ok (JX_OBJECT ms)" "jx_ok v"
  shows "enum_ok (Some (JX_OBJECT ms)) v \<longleftrightarrow>
    (\<forall>cs. jx_object_get (Some (JX_OBJECT ms)) (Some ''enum'') = Some (JX_ARRAY cs) \<longrightarrow> mean v \<in> mean ` set cs)"
proof (cases "jx_object_get (Some (JX_OBJECT ms)) (Some ''enum'')")
  case (Some x)
  obtain cs where cs: "x = JX_ARRAY cs" using admitted_enum [OF assms(1) Some] by blast
  have "\<forall>c \<in> set cs. schema_equal c v \<longleftrightarrow> mean v = mean c"
    using jx_ok_get [OF assms(2) Some] schema_equal_mean assms(3) by (auto simp: cs)
  then show ?thesis using Some cs by (auto simp: enum_ok_def astools_mcp_schema_equal_def list_ex_iff image_iff)
qed (simp add: enum_ok_def)

lemma count_ok_iff:
  assumes "admitted (JX_OBJECT ms)" "mn \<in> set schema_counts" "mx \<in> set schema_counts"
  shows "count_ok (Some (JX_OBJECT ms)) mn mx n \<longleftrightarrow> size_within (JX_OBJECT ms) mn mx n"
proof -
  have val: "num_val x = of_nat (count_bound x)"
    if "jx_object_get (Some (JX_OBJECT ms)) (Some k) = Some x" "k \<in> set schema_counts" for k x
    using admitted_count [OF assms(1) that]
    by (auto simp: num_val_def count_bound_def jx_int_value_def DBL_EXACT_def)
  show ?thesis using assms(2,3) val by (auto simp: count_ok_def size_within_def split: option.splits)
qed

lemma bound_ok_iff:
  assumes "admitted (JX_OBJECT ms)" "jx_ok (JX_OBJECT ms)" "jx_ok (JX_NUMBER d i p)" "k \<in> set schema_bounds"
    and R: "\<And>x y :: rat. fails ((if x > y then 1 else 0) - (if x < y then 1 else 0)) \<longleftrightarrow> \<not> R x y"
  shows "bound_ok (Some (JX_OBJECT ms)) (JX_NUMBER d i p) k fails \<longleftrightarrow>
    (\<forall>b. jx_object_get (Some (JX_OBJECT ms)) (Some k) = Some b \<longrightarrow> R (num_val (JX_NUMBER d i p)) (num_val b))"
proof (cases "jx_object_get (Some (JX_OBJECT ms)) (Some k)")
  case (Some b)
  obtain e j q where b: "b = JX_NUMBER e j q" "dmag e \<le> of_int DBL_EXACT" "q \<longrightarrow> \<bar>j\<bar> \<le> DBL_EXACT"
    using admitted_bound [OF assms(1) Some assms(4)] by blast
  have "jx_ok (JX_NUMBER e j q)" using jx_ok_get [OF assms(2) Some] b(1) by simp
  from num_order_exact [OF assms(3) this b(2,3)] Some b(1) show ?thesis by (simp add: bound_ok_def Let_def R)
qed (simp add: bound_ok_def)

lemma number_ok_iff:
  assumes "admitted (JX_OBJECT ms)" "jx_ok (JX_OBJECT ms)" "jx_ok (JX_NUMBER d i p)"
  shows "number_ok (Some (JX_OBJECT ms)) (JX_NUMBER d i p) \<longleftrightarrow> in_range (JX_OBJECT ms) (JX_NUMBER d i p)"
proof -
  note iff = bound_ok_iff [OF assms]
  have "bound_ok (Some (JX_OBJECT ms)) (JX_NUMBER d i p) ''minimum'' (\<lambda>order. order < 0) \<longleftrightarrow>
      (\<forall>b. jx_object_get (Some (JX_OBJECT ms)) (Some ''minimum'') = Some b \<longrightarrow> num_val b \<le> num_val (JX_NUMBER d i p))"
    by (rule iff) (auto simp: schema_bounds_def)
  moreover have "bound_ok (Some (JX_OBJECT ms)) (JX_NUMBER d i p) ''maximum'' (\<lambda>order. order > 0) \<longleftrightarrow>
      (\<forall>b. jx_object_get (Some (JX_OBJECT ms)) (Some ''maximum'') = Some b \<longrightarrow> num_val (JX_NUMBER d i p) \<le> num_val b)"
    by (rule iff) (auto simp: schema_bounds_def)
  moreover have "bound_ok (Some (JX_OBJECT ms)) (JX_NUMBER d i p) ''exclusiveMinimum'' (\<lambda>order. order \<le> 0) \<longleftrightarrow>
      (\<forall>b. jx_object_get (Some (JX_OBJECT ms)) (Some ''exclusiveMinimum'') = Some b \<longrightarrow> num_val b < num_val (JX_NUMBER d i p))"
    by (rule iff) (auto simp: schema_bounds_def)
  moreover have "bound_ok (Some (JX_OBJECT ms)) (JX_NUMBER d i p) ''exclusiveMaximum'' (\<lambda>order. order \<ge> 0) \<longleftrightarrow>
      (\<forall>b. jx_object_get (Some (JX_OBJECT ms)) (Some ''exclusiveMaximum'') = Some b \<longrightarrow> num_val (JX_NUMBER d i p) < num_val b)"
    by (rule iff) (auto simp: schema_bounds_def)
  ultimately show ?thesis by (simp only: number_ok_def in_range_def)
qed

lemma required_ok_iff:
  assumes "admitted (JX_OBJECT ms)"
  shows "required_ok (Some (JX_OBJECT ms)) (JX_OBJECT vs) \<longleftrightarrow>
    (\<forall>names. jx_object_get (Some (JX_OBJECT ms)) (Some ''required'') = Some (JX_ARRAY names) \<longrightarrow>
       (\<forall>n. JX_STRING n \<in> set names \<longrightarrow> n \<in> fst ` set vs))"
proof (cases "jx_object_get (Some (JX_OBJECT ms)) (Some ''required'')")
  case (Some x)
  obtain ns where ns: "x = JX_ARRAY ns" "\<forall>v \<in> set ns. \<exists>s. v = JX_STRING s" using admitted_required [OF assms Some] by blast
  have "(\<forall>n \<in> set ns. jx_object_get (Some (JX_OBJECT vs)) (jx_string_value (Some n)) \<noteq> None) \<longleftrightarrow>
      (\<forall>n. JX_STRING n \<in> set ns \<longrightarrow> n \<in> fst ` set vs)"
  proof -
    have look: "jx_object_get (Some (JX_OBJECT vs)) (jx_string_value (Some (JX_STRING n))) \<noteq> None \<longleftrightarrow> n \<in> fst ` set vs" for n
      by (simp add: jx_object_get_def jx_string_value_def obj_find_None)
    show ?thesis
    proof
      assume all: "\<forall>n \<in> set ns. jx_object_get (Some (JX_OBJECT vs)) (jx_string_value (Some n)) \<noteq> None"
      show "\<forall>n. JX_STRING n \<in> set ns \<longrightarrow> n \<in> fst ` set vs" using all look by blast
    next
      assume all: "\<forall>n. JX_STRING n \<in> set ns \<longrightarrow> n \<in> fst ` set vs"
      show "\<forall>n \<in> set ns. jx_object_get (Some (JX_OBJECT vs)) (jx_string_value (Some n)) \<noteq> None"
        using all look ns(2) by metis
    qed
  qed
  then show ?thesis using Some ns(1) by (simp add: required_ok_def list_all_iff)
qed (simp add: required_ok_def)

section \<open>Validation decides conformance\<close>

definition own_ok :: "jx_value option \<Rightarrow> jx_value \<Rightarrow> bool" where
  "own_ok schema v \<longleftrightarrow> type_ok schema v \<and> const_ok schema v \<and> enum_ok schema v \<and>
     (case v of
        JX_NUMBER _ _ _ \<Rightarrow> number_ok schema v
      | JX_STRING s \<Rightarrow> count_ok schema ''minLength'' ''maxLength'' (char_count s)
      | JX_ARRAY xs \<Rightarrow> count_ok schema ''minItems'' ''maxItems'' (length xs)
      | JX_OBJECT ms \<Rightarrow> count_ok schema ''minProperties'' ''maxProperties'' (length ms) \<and> required_ok schema v
      | _ \<Rightarrow> True)"

lemma own_ok_iff:
  assumes "admitted (JX_OBJECT ms)" "jx_ok (JX_OBJECT ms)" "jx_ok v"
  shows "own_ok (Some (JX_OBJECT ms)) v \<longleftrightarrow> meets (JX_OBJECT ms) v"
proof -
  note iffs = type_ok_iff [OF assms(1,3)] const_ok_iff [OF assms(2,3)] enum_ok_iff [OF assms]
  show ?thesis
    unfolding own_ok_def meets_def iffs
    using number_ok_iff [OF assms(1,2)] count_ok_iff [OF assms(1)] required_ok_iff [OF assms(1)] assms(3)
    by (cases v) (simp_all add: schema_counts_def del: jx_ok.simps)
qed

lemma validate_object:
  "schema_validate (Some (JX_OBJECT ms)) (Some v) depth left =
     (if left = 0 \<or> depth > 64 \<or> \<not> own_ok (Some (JX_OBJECT ms)) v then None
      else case v of
        JX_ARRAY xs \<Rightarrow> thread (\<lambda>x left. schema_validate (jx_object_get (Some (JX_OBJECT ms)) (Some ''items'')) (Some x) (depth + 1) left) xs (left - 1)
      | JX_OBJECT vs \<Rightarrow> thread (\<lambda>m left. schema_validate (child_schema (Some (JX_OBJECT ms)) (fst m)) (Some (snd m)) (depth + 1) left) vs (left - 1)
      | _ \<Rightarrow> Some (left - 1))"
  by (subst schema_validate.simps) (auto simp: own_ok_def Let_def keep_def split: jx_value.split)

lemma validate_other:
  "schema_validate None (Some v) depth left = keep (left \<noteq> 0 \<and> depth \<le> 64) (left - 1)"
  "schema_validate (Some (JX_BOOL b)) (Some v) depth left = keep (left \<noteq> 0 \<and> depth \<le> 64 \<and> b) (left - 1)"
  by (subst schema_validate.simps; auto simp: keep_def)+

definition good_schema :: "jx_value option \<Rightarrow> bool" where
  "good_schema schema \<longleftrightarrow> (case schema of None \<Rightarrow> True | Some s \<Rightarrow> admitted s \<and> jx_ok s)"

lemma good_items: "good_schema (Some (JX_OBJECT ms)) \<Longrightarrow> good_schema (jx_object_get (Some (JX_OBJECT ms)) (Some ''items''))"
  using jx_ok_get [of "JX_OBJECT ms"] admitted_items [of ms]
  by (auto simp: good_schema_def simp del: jx_ok.simps split: option.split)

lemma good_child:
  assumes "good_schema (Some (JX_OBJECT ms))"
  shows "good_schema (child_schema (Some (JX_OBJECT ms)) k)"
proof (cases "child_schema (Some (JX_OBJECT ms)) k")
  case (Some c)
  have s: "admitted (JX_OBJECT ms)" "jx_ok (JX_OBJECT ms)" using assms by (simp_all add: good_schema_def)
  show ?thesis
  proof (cases "jx_object_get (jx_object_get (Some (JX_OBJECT ms)) (Some ''properties'')) (Some k)")
    case None
    then have "jx_object_get (Some (JX_OBJECT ms)) (Some ''additionalProperties'') = Some c"
      using Some by (simp add: child_schema_def)
    from Some admitted_items [OF s(1) this] jx_ok_get [OF s(2) this] show ?thesis by (simp add: good_schema_def)
  next
    case (Some c')
    then have c: "child_schema (Some (JX_OBJECT ms)) k = Some c'" by (simp add: child_schema_def)
    obtain p where p: "jx_object_get (Some (JX_OBJECT ms)) (Some ''properties'') = Some p" "jx_object_get (Some p) (Some k) = Some c'"
      using Some by (cases "jx_object_get (Some (JX_OBJECT ms)) (Some ''properties'')") (simp_all add: jx_object_get_def [of None])
    from admitted_property [OF s(1) p] jx_ok_get [OF jx_ok_get [OF s(2) p(1)] p(2)] c show ?thesis by (simp add: good_schema_def)
  qed
qed (simp add: good_schema_def)

lemma good_cases:
  assumes "good_schema schema"
  obtains "schema = None" | b where "schema = Some (JX_BOOL b)"
    | ms where "schema = Some (JX_OBJECT ms)" "admitted (JX_OBJECT ms)" "jx_ok (JX_OBJECT ms)"
proof (cases schema)
  case (Some s)
  then have "admitted s" "jx_ok s" using assms by (simp_all add: good_schema_def)
  with admitted_shape [of s] that Some show ?thesis by blast
qed

lemma nodes_pos [simp]: "0 < nodes v"
  by (cases v) auto

lemma validate_spec:
  assumes "good_schema schema" "jx_ok v"
  shows "(\<forall>l. schema_validate schema (Some v) depth left = Some l \<longrightarrow> conforms schema v) \<and>
    (conforms schema v \<longrightarrow> nodes v \<le> left \<longrightarrow> depth + jx_depth v \<le> 64 \<longrightarrow>
      (\<exists>l. schema_validate schema (Some v) depth left = Some l \<and> left \<le> l + nodes v))"
  using assms
proof (induction v arbitrary: schema depth left)
  case (JX_ARRAY xs)
  show ?case
  proof (rule good_cases [OF JX_ARRAY.prems(1)])
    fix ms
    assume s: "schema = Some (JX_OBJECT ms)" "admitted (JX_OBJECT ms)" "jx_ok (JX_OBJECT ms)"
    let ?c = "jx_object_get (Some (JX_OBJECT ms)) (Some ''items'')"
    let ?f = "\<lambda>x left. schema_validate ?c (Some x) (depth + 1) left"
    have c: "good_schema ?c" using good_items JX_ARRAY.prems(1) s(1) by simp
    note IH = JX_ARRAY.IH [OF _ c]
    have ok: "jx_ok x" if "x \<in> set xs" for x using that JX_ARRAY.prems(2) by simp
    have eq: "schema_validate schema (Some (JX_ARRAY xs)) depth left =
        (if left = 0 \<or> depth > 64 \<or> \<not> meets (JX_OBJECT ms) (JX_ARRAY xs) then None else thread ?f xs (left - 1))"
      unfolding s(1) validate_object own_ok_iff [OF s(2,3) JX_ARRAY.prems(2)] by simp
    have conf: "conforms schema (JX_ARRAY xs) \<longleftrightarrow> meets (JX_OBJECT ms) (JX_ARRAY xs) \<and> (\<forall>x \<in> set xs. conforms ?c x)"
      by (simp add: s(1))
    show ?thesis
    proof (intro conjI allI impI)
      fix l
      assume "schema_validate schema (Some (JX_ARRAY xs)) depth left = Some l"
      then have m: "meets (JX_OBJECT ms) (JX_ARRAY xs)" and t: "thread ?f xs (left - 1) = Some l"
        unfolding eq by (auto split: if_splits)
      have "conforms ?c x" if x: "x \<in> set xs" for x using thread_member [OF t x] IH [OF x ok [OF x]] by blast
      with m show "conforms schema (JX_ARRAY xs)" unfolding conf by blast
    next
      assume a: "conforms schema (JX_ARRAY xs)" "nodes (JX_ARRAY xs) \<le> left" "depth + jx_depth (JX_ARRAY xs) \<le> 64"
      have one: "\<exists>l'. ?f x l = Some l' \<and> l \<le> l' + nodes x" if x: "x \<in> set xs" "nodes x \<le> l" for x l
      proof -
        have "jx_depth x \<le> Max (insert 0 (jx_depth ` set xs))" using x(1) by (intro Max_ge) auto
        then have "depth + 1 + jx_depth x \<le> 64" using a(3) by simp
        then show ?thesis using IH [OF x(1) ok [OF x(1)]] x a(1) unfolding conf by blast
      qed
      have "sum_list (map nodes xs) \<le> left - 1" using a(2) by simp
      from thread_complete [where f = ?f and cost = nodes, OF one this] obtain l where
        "thread ?f xs (left - 1) = Some l" "left - 1 \<le> l + sum_list (map nodes xs)" by blast
      then show "\<exists>l. schema_validate schema (Some (JX_ARRAY xs)) depth left = Some l \<and> left \<le> l + nodes (JX_ARRAY xs)"
        unfolding eq using a conf by auto
    qed
  qed (auto simp: validate_other)
next
  case (JX_OBJECT vs)
  show ?case
  proof (rule good_cases [OF JX_OBJECT.prems(1)])
    fix ms
    assume s: "schema = Some (JX_OBJECT ms)" "admitted (JX_OBJECT ms)" "jx_ok (JX_OBJECT ms)"
    let ?c = "\<lambda>m. child_schema (Some (JX_OBJECT ms)) (fst m)"
    let ?f = "\<lambda>m left. schema_validate (?c m) (Some (snd m)) (depth + 1) left"
    have c: "good_schema (?c m)" for m using good_child JX_OBJECT.prems(1) s(1) by simp
    have IH: "(\<forall>l. ?f m left = Some l \<longrightarrow> conforms (?c m) (snd m)) \<and>
        (conforms (?c m) (snd m) \<longrightarrow> nodes (snd m) \<le> left \<longrightarrow> depth + 1 + jx_depth (snd m) \<le> 64 \<longrightarrow>
          (\<exists>l. ?f m left = Some l \<and> left \<le> l + nodes (snd m)))" if m: "m \<in> set vs" for m left
      using JX_OBJECT.IH [OF m _ c, of "snd m" m "depth + 1" left] m JX_OBJECT.prems(2)
      by (cases m) (auto simp: snds.simps)
    have eq: "schema_validate schema (Some (JX_OBJECT vs)) depth left =
        (if left = 0 \<or> depth > 64 \<or> \<not> meets (JX_OBJECT ms) (JX_OBJECT vs) then None else thread ?f vs (left - 1))"
      unfolding s(1) validate_object own_ok_iff [OF s(2,3) JX_OBJECT.prems(2)] by simp
    have conf: "conforms schema (JX_OBJECT vs) \<longleftrightarrow> meets (JX_OBJECT ms) (JX_OBJECT vs) \<and> (\<forall>m \<in> set vs. conforms (?c m) (snd m))"
      by (simp add: s(1))
    show ?thesis
    proof (intro conjI allI impI)
      fix l
      assume "schema_validate schema (Some (JX_OBJECT vs)) depth left = Some l"
      then have m: "meets (JX_OBJECT ms) (JX_OBJECT vs)" and t: "thread ?f vs (left - 1) = Some l"
        unfolding eq by (auto split: if_splits)
      have "conforms (?c m) (snd m)" if x: "m \<in> set vs" for m using thread_member [OF t x] IH [OF x] by blast
      with m show "conforms schema (JX_OBJECT vs)" unfolding conf by blast
    next
      assume a: "conforms schema (JX_OBJECT vs)" "nodes (JX_OBJECT vs) \<le> left" "depth + jx_depth (JX_OBJECT vs) \<le> 64"
      have one: "\<exists>l'. ?f m l = Some l' \<and> l \<le> l' + nodes (snd m)" if x: "m \<in> set vs" "nodes (snd m) \<le> l" for m l
      proof -
        have "jx_depth (snd m) \<le> Max (insert 0 (jx_depth ` snd ` set vs))" using x(1) by (intro Max_ge) auto
        then have "depth + 1 + jx_depth (snd m) \<le> 64" using a(3) by simp
        then show ?thesis using IH [OF x(1)] x a(1) unfolding conf by blast
      qed
      have "sum_list (map (\<lambda>m. nodes (snd m)) vs) \<le> left - 1" using a(2) by simp
      from thread_complete [where f = ?f and cost = "\<lambda>m. nodes (snd m)", OF one this] obtain l where
        "thread ?f vs (left - 1) = Some l" "left - 1 \<le> l + sum_list (map (\<lambda>m. nodes (snd m)) vs)" by blast
      then show "\<exists>l. schema_validate schema (Some (JX_OBJECT vs)) depth left = Some l \<and> left \<le> l + nodes (JX_OBJECT vs)"
        unfolding eq using a conf by auto
    qed
  qed (auto simp: validate_other)
qed (erule good_cases; auto simp: validate_other validate_object own_ok_iff simp del: jx_ok.simps split: if_splits)+

text \<open>The lengths of strings count Unicode scalar values.\<close>

lemma one_start: "scalar_value cp \<Longrightarrow> length (filter (\<lambda>b. b AND 0xC0 \<noteq> 0x80) (utf8_encode cp)) = 1"
proof -
  assume cp: "scalar_value cp"
  have "utf8_encode cp = (case utf8_encode cp of [] \<Rightarrow> [] | b # bs \<Rightarrow> b # bs)" by (simp split: list.split)
  have lead: "\<not> is_cont (word_of_nat n)" if "n < 128 \<or> 192 \<le> n" "n < 256" for n
    using that by (auto simp: is_cont_def unat_of_byte)
  have cont: "is_cont (word_of_nat (0x80 + n mod 64))" for n
  proof -
    have "n mod 64 < 64" by simp
    then have "unat (word_of_nat (0x80 + n mod 64) :: byte) = 0x80 + n mod 64" by (intro unat_of_byte) simp
    with \<open>n mod 64 < 64\<close> show ?thesis unfolding is_cont_def by simp
  qed
  have lim: "cp < 0x110000" using cp by (simp add: scalar_value_def)
  have leads: "cp < 0x800 \<Longrightarrow> 0xC0 + cp div 64 < 256" "cp < 0x10000 \<Longrightarrow> 0xE0 + cp div 4096 < 256"
    "0xF0 + cp div 262144 < 256" using lim by auto
  show ?thesis
    unfolding utf8_encode_def cont_byte using leads
    by (auto simp: cont lead simp del: of_nat_add of_nat_numeral)
qed

lemma char_count_scalars:
  assumes "list_all scalar_value cps" "bytes s = concat (map utf8_encode cps)"
  shows "char_count s = length cps"
proof -
  have "length (filter (\<lambda>b. b AND 0xC0 \<noteq> 0x80) (concat (map utf8_encode cps))) = length cps"
    using assms(1) by (induction cps) (simp_all add: one_start)
  then show ?thesis by (simp add: char_count_def assms(2))
qed

section \<open>Properties\<close>

text \<open>
  Two JSON values count as equal exactly when they mean the same: the same type, the same
  string, arrays element by element, objects as maps whatever the order of their members, numbers by
  exact value - where an integer beyond 2^53 is never taken for a double. So the relation is an
  equivalence, although the code only looks the members of one side up in the other.
\<close>

theorem mcp_equal_iff:
  assumes "jx_ok v" "jx_ok w"
  shows "astools_mcp_schema_equal (Some v) (Some w) \<longleftrightarrow> mean v = mean w"
  using schema_equal_mean [OF assms] by (simp add: astools_mcp_schema_equal_def)

text \<open>
  C23: A value accepted under an admitted schema conforms to it in exact arithmetic, and a conforming value
  of at most 32768 nodes and depth 64 is accepted: the mixed comparisons of 64-bit integers with
  doubles lose nothing, and the budgets are the only other reason to refuse.
\<close>

theorem mcp_validate_conforms:
  assumes "astools_mcp_schema_supported (Some s)" "jx_ok s" "jx_ok v"
  shows "(astools_mcp_schema_validate (Some s) (Some v) \<longrightarrow> conforms (Some s) v) \<and>
    (conforms (Some s) v \<and> nodes v \<le> 32768 \<and> jx_depth v \<le> 64 \<longrightarrow> astools_mcp_schema_validate (Some s) (Some v))"
proof -
  have "good_schema (Some s)"
    using assms(1,2) by (auto simp: good_schema_def astools_mcp_schema_supported_def intro: admittedI)
  from validate_spec [OF this assms(3), of 0 32768] show ?thesis
    unfolding astools_mcp_schema_validate_def by auto
qed

text \<open>A reviewed contract with one required positive integer, and a call.\<close>

definition demo_schema :: jx_value where
  "demo_schema = JX_OBJECT
     [(''type'', JX_STRING ''object''),
      (''properties'', JX_OBJECT [(''line'', JX_OBJECT [(''type'', JX_STRING ''integer''), (''minimum'', jx_int 1)])]),
      (''required'', JX_ARRAY [JX_STRING ''line'']),
      (''additionalProperties'', JX_BOOL False)]"

definition demo_instance :: jx_value where
  "demo_instance = JX_OBJECT [(''line'', jx_int 7)]"

lemma demo_small: "jx_ok (jx_int 1)" "jx_ok (jx_int 7)" "dmag (dbl_of_ll 1) = 1"
  using dbl_of_ll_ok [of 1] dbl_of_ll_ok [of 7] round_mag_int [of 1]
  by (simp_all add: jx_int_def int64_ok_def INT64_MIN_def INT64_MAX_def dbl_of_ll_def DBL_EXACT_def)

lemma demo_ok: "jx_ok demo_schema" "jx_ok demo_instance"
proof -
  have v: "jx_utf8_valid (bytes ''type'')" "jx_utf8_valid (bytes ''object'')" "jx_utf8_valid (bytes ''properties'')"
    "jx_utf8_valid (bytes ''line'')" "jx_utf8_valid (bytes ''integer'')" "jx_utf8_valid (bytes ''minimum'')"
    "jx_utf8_valid (bytes ''required'')" "jx_utf8_valid (bytes ''additionalProperties'')"
    by code_simp+
  show "jx_ok demo_schema" "jx_ok demo_instance"
    using demo_small v by (simp_all add: demo_schema_def demo_instance_def NUL_def del: bytes_simps)
qed

lemma demo_supported: "astools_mcp_schema_supported (Some demo_schema)"
  using demo_small(3)
  by (simp add: astools_mcp_schema_supported_def demo_schema_def schema_supported.simps key_defs schema_types_def
      schema_strings_def astools_rpc_string_def jx_object_get_def jx_string_value_def jx_string_length_def
      c_strlen_def NUL_def jx_int_def DBL_EXACT_def keep_def)

theorem mcp_validate_conforms_witness:
  "astools_mcp_schema_validate (Some demo_schema) (Some demo_instance)"
proof -
  have "conforms (Some demo_schema) demo_instance"
    by (simp add: demo_schema_def demo_instance_def meets_def has_type_def size_within_def in_range_def jx_object_get_def
        child_schema_def jx_int_def num_val_def)
  moreover have "nodes demo_instance \<le> 32768" "jx_depth demo_instance \<le> 64"
    by (simp_all add: demo_instance_def jx_int_def)
  ultimately show ?thesis using mcp_validate_conforms [OF demo_supported demo_ok] by blast
qed

theorem mcp_equal_iff_witness:
  "astools_mcp_schema_equal
     (Some (JX_OBJECT [(''a'', JX_NULL), (''b'', JX_BOOL True)]))
     (Some (JX_OBJECT [(''b'', JX_BOOL True), (''a'', JX_NULL)]))"
proof -
  have v: "jx_utf8_valid (bytes ''a'')" "jx_utf8_valid (bytes ''b'')" by code_simp+
  have "jx_ok (JX_OBJECT [(''a'', JX_NULL), (''b'', JX_BOOL True)])" "jx_ok (JX_OBJECT [(''b'', JX_BOOL True), (''a'', JX_NULL)])"
    using v by (simp_all add: NUL_def del: bytes_simps)
  from mcp_equal_iff [OF this] show ?thesis by (simp add: fun_upd_twist)
qed

end
