(* ===== verification/As_Manifest.thy ===== *)
theory As_Manifest
  imports As_TypeParse As_Policy As_Semver As_Util As_McpSchema "HOL-Library.Monad_Syntax"
begin

text \<open>
  \<^verbatim>\<open>src/manifest.c\<close>, parsing: a tool's manifest from its xCDN document, with the closed contracts of
  \<^verbatim>\<open>src/lsp_manifest.c\<close> and the reviewed MCP bindings of \<^verbatim>\<open>src/mcp_contract.c\<close>. A failure is \<open>None\<close>;
  the messages are not modelled and memory suffices. Fields the parser always sets are plain strings,
  fields it may leave NULL are options.
\<close>

section \<open>The xCDN library\<close>

text \<open>
  What the code calls of the xCDN library, with the behaviour it relies on: lookup by key, the tag
  test, a parser that returns well-formed documents.
\<close>

record xcdn =
  x_get :: xlookup
  x_has_tag :: "string option list \<Rightarrow> string \<Rightarrow> bool"
  x_parse :: "string \<Rightarrow> xnode option list option"
  x_pretty :: "xnode \<Rightarrow> string option"

definition xcdn_ok :: "xcdn \<Rightarrow> bool" where
  "xcdn_ok x \<longleftrightarrow> lookup_ok (x_get x) \<and> (\<forall>ts t. x_has_tag x ts t \<longleftrightarrow> Some t \<in> set ts) \<and>
     (\<forall>s ns n. x_parse x s = Some ns \<longrightarrow> Some n \<in> set ns \<longrightarrow> doc_ok n)"

text \<open>A document survives printing and parsing.\<close>

definition prints_back :: "xcdn \<Rightarrow> xnode \<Rightarrow> bool" where
  "prints_back x n \<longleftrightarrow> (\<forall>s. x_pretty x n = Some s \<longrightarrow> x_parse x s = Some [Some n])"

text \<open>The first top-level value.\<close>

definition doc_first :: "xnode option list \<Rightarrow> xnode option" where
  "doc_first ns = (case ns of [] \<Rightarrow> None | n # _ \<Rightarrow> n)"

section \<open>The manifest\<close>

definition ASTOOLS_KIND_EXECUTABLE :: nat where "ASTOOLS_KIND_EXECUTABLE = 0"
definition ASTOOLS_KIND_LIBRARY :: nat where "ASTOOLS_KIND_LIBRARY = 1"
definition ASTOOLS_MODE_ONESHOT :: nat where "ASTOOLS_MODE_ONESHOT = 0"
definition ASTOOLS_MODE_PERSISTENT :: nat where "ASTOOLS_MODE_PERSISTENT = 1"
definition ASTOOLS_PROTOCOL_NATIVE :: nat where "ASTOOLS_PROTOCOL_NATIVE = 0"
definition ASTOOLS_PROTOCOL_LSP :: nat where "ASTOOLS_PROTOCOL_LSP = 1"
definition ASTOOLS_PROTOCOL_MCP :: nat where "ASTOOLS_PROTOCOL_MCP = 2"

record astools_entry =
  en_os :: string
  en_arch :: string
  en_argv :: "string list"

record astools_errdecl =
  ed_code :: string
  ed_description :: "string option"

record astools_example =
  ex_title :: "string option"
  ex_call :: xnode
  ex_result :: "xnode option"
  ex_note :: "string option"

record astools_cmd =
  c_name :: string
  c_mcp_name :: "string option"
  c_mcp_input_schema :: "string option"
  c_mcp_output_schema :: "string option"
  c_summary :: string
  c_description :: "string option"
  c_read_only :: bool
  c_destructive :: bool
  c_idempotent :: bool
  c_long_running :: bool
  c_deprecated :: bool
  c_timeout_ms :: int
  c_params :: "astools_param list"
  c_returns_type :: "astools_type option"
  c_returns_desc :: "string option"
  c_errors :: "astools_errdecl list"
  c_examples :: "astools_example list"

record astools_manifest =
  m_manifest_version :: int
  m_id :: string
  m_version :: string
  m_title :: string
  m_summary :: string
  m_description :: "string option"
  m_kind :: nat
  m_platforms :: "string list"
  m_mode :: nat
  m_protocol :: nat
  m_entries :: "astools_entry list"
  m_parallel :: int
  m_idle_timeout_ms :: int
  m_startup_timeout_ms :: int
  m_perms :: astools_perms
  m_commands :: "astools_cmd list"

section \<open>Node inspection\<close>

definition ensure :: "bool \<Rightarrow> unit option" where
  "ensure b = (if b then Some () else None)"

definition node_str :: "xnode option \<Rightarrow> string option" where
  "node_str n = (case n of Some (XNode _ _ (Some (XString s))) \<Rightarrow> s | _ \<Rightarrow> None)"

definition node_array :: "xnode option \<Rightarrow> xnode option list option" where
  "node_array n = (case n of Some (XNode _ _ (Some (XArray xs))) \<Rightarrow> Some xs | _ \<Rightarrow> None)"

definition node_object :: "xnode option \<Rightarrow> xentries option" where
  "node_object n = (case n of Some (XNode _ _ (Some (XObject es))) \<Rightarrow> Some es | _ \<Rightarrow> None)"

definition get_opt_bool :: "xcdn \<Rightarrow> xentries \<Rightarrow> string \<Rightarrow> bool \<Rightarrow> bool option" where
  "get_opt_bool x es key out =
     (case xfind (x_get x) es key of None \<Rightarrow> Some out
      | Some n \<Rightarrow> (case xval n of Some (XBool b) \<Rightarrow> Some b | _ \<Rightarrow> None))"

definition get_opt_string :: "xcdn \<Rightarrow> xentries \<Rightarrow> string \<Rightarrow> string option option" where
  "get_opt_string x es key =
     (case xfind (x_get x) es key of None \<Rightarrow> Some None
      | Some n \<Rightarrow> (case node_str (Some n) of None \<Rightarrow> None | Some s \<Rightarrow> Some (Some s)))"

definition node_period :: "xnode \<Rightarrow> int option" where
  "node_period n = (case xval n of Some (XDuration s) \<Rightarrow> dur_node_ms s | _ \<Rightarrow> None)"

definition param_name_valid :: "string option \<Rightarrow> bool" where
  "param_name_valid str =
     (case str of None \<Rightarrow> False
      | Some s \<Rightarrow> is_lower (cur s) \<and> length s \<le> 32 \<and>
          list_all (\<lambda>ch. is_lower ch \<or> is_digit ch \<or> ch = CHR ''_'') (tl s))"

definition env_name_valid :: "string option \<Rightarrow> bool" where
  "env_name_valid str =
     (case str of None \<Rightarrow> False
      | Some s \<Rightarrow> (is_upper (cur s) \<or> is_lower (cur s) \<or> cur s = CHR ''_'') \<and>
          list_all (\<lambda>ch. is_upper ch \<or> is_lower ch \<or> is_digit ch \<or> ch = CHR ''_'') (tl s))"

definition os_name_valid :: "string option \<Rightarrow> bool" where
  "os_name_valid s \<longleftrightarrow> s = Some ''linux'' \<or> s = Some ''macos'' \<or> s = Some ''windows''"

definition arch_name_valid :: "string option \<Rightarrow> bool" where
  "arch_name_valid s \<longleftrightarrow> s = Some ''x86_64'' \<or> s = Some ''arm64''"

definition access_from_string :: "string option \<Rightarrow> nat" where
  "access_from_string s =
     (if s = Some ''read'' then ASTOOLS_ACCESS_READ
      else if s = Some ''write'' then ASTOOLS_ACCESS_WRITE
      else if s = Some ''read-write'' then ASTOOLS_ACCESS_RW
      else 0)"

definition access_to_string :: "nat \<Rightarrow> string option" where
  "access_to_string access =
     (if access = ASTOOLS_ACCESS_READ then Some ''read''
      else if access = ASTOOLS_ACCESS_WRITE then Some ''write''
      else if access = ASTOOLS_ACCESS_RW then Some ''read-write''
      else None)"

text \<open>\<open>strstr\<close>: what comes before and after the first occurrence.\<close>

fun split_at :: "string \<Rightarrow> string \<Rightarrow> (string \<times> string) option" where
  "split_at needle s =
     (if take (length needle) s = needle then Some ([], drop (length needle) s)
      else case s of [] \<Rightarrow> None
        | c # r \<Rightarrow> map_option (\<lambda>(a, b). (c # a, b)) (split_at needle r))"

declare split_at.simps [simp del]

definition WORKSPACE_REF :: string where
  "WORKSPACE_REF = ''${workspace}''"

lemma split_at_length: "split_at needle s = Some (a, b) \<Longrightarrow> length a + length needle + length b = length s"
proof (induction s arbitrary: a)
  case Nil
  then show ?case by (auto simp: split_at.simps [of needle "[]"] split: if_splits)
next
  case (Cons c s)
  show ?case
  proof (cases "take (length needle) (c # s) = needle")
    case True
    then have "length needle \<le> length (c # s)" by (metis length_take min.cobounded1)
    with True Cons.prems show ?thesis by (auto simp: split_at.simps [of needle "c # s"])
  next
    case False
    with Cons.prems Cons.IH show ?thesis by (fastforce simp: split_at.simps [of needle "c # s"] split: option.splits)
  qed
qed

function expand_loop :: "string \<Rightarrow> string \<Rightarrow> string" where
  "expand_loop ws p =
     (case split_at WORKSPACE_REF p of None \<Rightarrow> p | Some (a, r) \<Rightarrow> a @ ws @ expand_loop ws r)"
  by pat_completeness auto
termination
  by (relation "measure (\<lambda>(ws, p). length p)") (auto simp: WORKSPACE_REF_def dest!: split_at_length)

declare expand_loop.simps [simp del]

definition expand_workspace :: "string \<Rightarrow> string option \<Rightarrow> string" where
  "expand_workspace path workspace =
     (case workspace of None \<Rightarrow> path
      | Some ws \<Rightarrow> if split_at WORKSPACE_REF path = None then path else expand_loop ws path)"

section \<open>Deep copy\<close>

text \<open>Without a depth limit; a NULL name, key, node or value inside fails it.\<close>

primrec mclone_value :: "xvalue \<Rightarrow> xvalue option" and mclone_node :: "xnode \<Rightarrow> xnode option" where
  "mclone_value XNull = Some XNull"
| "mclone_value (XBool b) = Some (XBool b)"
| "mclone_value (XInt i) = Some (XInt i)"
| "mclone_value (XFloat d) = Some (XFloat d)"
| "mclone_value (XDecimal s) = Some (XDecimal s)"
| "mclone_value (XString s) = Some (XString s)"
| "mclone_value (XBytes b) = Some (XBytes b)"
| "mclone_value (XDatetime s) = Some (XDatetime s)"
| "mclone_value (XDuration s) = Some (XDuration s)"
| "mclone_value (XUuid s) = Some (XUuid s)"
| "mclone_value (XArray items) =
     map_option (\<lambda>ns. XArray (map Some ns)) (those (map (\<lambda>n. Option.bind n id) (map (map_option mclone_node) items)))"
| "mclone_value (XObject es) =
     map_option XObject (those (map (\<lambda>(k, n). if k = None then None
        else map_option (\<lambda>c. (k, Some c)) (Option.bind n id)) (map (map_prod id (map_option mclone_node)) es)))"
| "mclone_node (XNode tags annots v) =
     (if None \<in> set tags then None
      else case those (map (\<lambda>(k, args). if k = None then None
          else map_option (\<lambda>vs. (k, map Some vs)) (those (map (\<lambda>w. Option.bind w id) args)))
          (map (map_prod id (map (map_option mclone_value))) annots)) of
        None \<Rightarrow> None
      | Some as \<Rightarrow>
          (case map_option mclone_value v of None \<Rightarrow> Some (XNode tags as None)
           | Some w \<Rightarrow> map_option (\<lambda>c. XNode tags as (Some c)) w))"

lemma mclone_exact:
  "doc_ok_v v \<Longrightarrow> mclone_value v = Some v"
  "doc_ok n \<Longrightarrow> mclone_node n = Some n"
proof (induction v and n)
  case (XArray items)
  have "\<exists>y. x = Some y \<and> mclone_node y = Some y" if "x \<in> set items" for x
    using XArray.IH [OF that] XArray.prems that by (auto simp: all_some_iff)
  then have "map ((\<lambda>n. Option.bind n id) \<circ> map_option mclone_node) items = map Some (map the items)"
    and m: "map (Some \<circ> the) items = items"
    by (force simp: comp_def intro!: map_idI)+
  then have "those (map ((\<lambda>n. Option.bind n id) \<circ> map_option mclone_node) items) = Some (map the items)"
    by (simp only: those_Some_iff)
  then show ?case using m by simp
next
  case (XObject es)
  have ok: "\<And>e. e \<in> set es \<Longrightarrow> \<exists>k y. e = (Some k, Some y) \<and> doc_ok y"
    using XObject.prems by (fastforce simp: list_all_iff)
  have "\<exists>k y. e = (Some k, Some y) \<and> mclone_node y = Some y" if e: "e \<in> set es" for e
  proof -
    obtain k y where y: "e = (Some k, Some y)" "doc_ok y" using ok [OF e] by blast
    with XObject.IH [OF e, of "Some y" y] show ?thesis by (simp add: snds.simps)
  qed
  then have "map ((\<lambda>(k, n). if k = None then None else map_option (\<lambda>c. (k, Some c)) (Option.bind n id)) \<circ>
      map_prod id (map_option mclone_node)) es = map Some es"
    by (force simp: comp_def)
  then show ?case by (simp add: those_Some_iff)
next
  case (XNode tags annots v)
  have "\<exists>k. fst a = Some k \<and> (\<forall>w \<in> set (snd a). \<exists>y. w = Some y \<and> mclone_value y = Some y)" if a: "a \<in> set annots" for a
  proof -
    obtain k args where ka: "a = (k, args)" by force
    have "k \<noteq> None" "all_some (map (map_option doc_ok_v) args)"
      using XNode.prems a ka by (auto simp: list_all_iff)
    then have ok: "\<exists>k'. k = Some k'" "\<And>w. w \<in> set args \<Longrightarrow> \<exists>y. w = Some y \<and> doc_ok_v y" by (auto simp: all_some_iff)
    have "\<exists>y. w = Some y \<and> mclone_value y = Some y" if w: "w \<in> set args" for w
    proof -
      obtain y where y: "w = Some y" "doc_ok_v y" using ok(2) [OF w] by blast
      with XNode.IH(1) [OF a, of args w y] w ka show ?thesis by (simp add: snds.simps)
    qed
    then show ?thesis using ok(1) ka by auto
  qed
  note A = this
  have "map ((\<lambda>(k, args). if k = None then None
          else map_option (\<lambda>vs. (k, map Some vs)) (those (map (\<lambda>w. Option.bind w id) args))) \<circ>
          map_prod id (map (map_option mclone_value))) annots = map Some annots"
  proof (rule map_cong [OF refl])
    fix a
    assume "a \<in> set annots"
    with A obtain k args where a: "a = (Some k, args)" and "\<forall>w \<in> set args. \<exists>y. w = Some y \<and> mclone_value y = Some y"
      by (cases a) fastforce
    then have eq: "map ((\<lambda>w. Option.bind w id) \<circ> map_option mclone_value) args = map Some (map the args)"
      and m: "map (Some \<circ> the) args = args"
      by (force simp: comp_def intro!: map_idI)+
    have "those (map ((\<lambda>w. Option.bind w id) \<circ> map_option mclone_value) args) = Some (map the args)"
      using eq by (simp only: those_Some_iff)
    then show "((\<lambda>(k, args). if k = None then None
          else map_option (\<lambda>vs. (k, map Some vs)) (those (map (\<lambda>w. Option.bind w id) args))) \<circ>
          map_prod id (map (map_option mclone_value))) a = Some a"
      using m by (simp add: a)
  qed
  then have "those (map (\<lambda>(k, args). if k = None then None
          else map_option (\<lambda>vs. (k, map Some vs)) (those (map (\<lambda>w. Option.bind w id) args)))
          (map (map_prod id (map (map_option mclone_value))) annots)) = Some annots"
    by (simp add: those_Some_iff)
  moreover have "None \<notin> set tags" using XNode.prems by (auto simp: list_all_iff)
  moreover have "map_option mclone_value v = map_option Some v"
    using XNode.IH(2) XNode.prems by (cases v) auto
  ultimately show ?case by (cases v) (simp_all add: Option.bind_def)
qed simp_all

section \<open>Header, platforms and runtime\<close>

abbreviation xf :: "xcdn \<Rightarrow> xentries \<Rightarrow> string \<Rightarrow> xnode option" where
  "xf x es key \<equiv> xfind (x_get x) es key"

text \<open>The manifest as allocated, with its defaults.\<close>

definition manifest_new :: astools_manifest where
  "manifest_new = \<lparr>m_manifest_version = 0, m_id = [], m_version = [], m_title = [], m_summary = [],
     m_description = None, m_kind = 0, m_platforms = [], m_mode = ASTOOLS_MODE_ONESHOT, m_protocol = 0,
     m_entries = [], m_parallel = 1, m_idle_timeout_ms = 120000, m_startup_timeout_ms = 10000,
     m_perms = \<lparr>pm_fs = [], pm_net = False, pm_proc = False, pm_env = []\<rparr>, m_commands = []\<rparr>"

definition parse_kind :: "xnode option \<Rightarrow> nat option" where
  "parse_kind kn =
     (case kn of None \<Rightarrow> Some ASTOOLS_KIND_EXECUTABLE
      | Some n \<Rightarrow>
          if node_str (Some n) = Some ''executable'' then Some ASTOOLS_KIND_EXECUTABLE
          else if node_str (Some n) = Some ''library'' then Some ASTOOLS_KIND_LIBRARY
          else None)"

definition parse_header :: "xcdn \<Rightarrow> xentries \<Rightarrow> astools_manifest \<Rightarrow> astools_manifest option" where
  "parse_header x es m =
     do {
       n \<leftarrow> xf x es ''manifest_version'';
       ensure (xval n = Some (XInt 1));
       ident \<leftarrow> node_str (xf x es ''id'');
       ensure (astools_slug_valid (Some ident) \<and> length ident \<le> 32);
       ver \<leftarrow> node_str (xf x es ''version'');
       ensure (astools_semver_parse (Some ver) \<noteq> None);
       title \<leftarrow> node_str (xf x es ''title'');
       ensure (\<not> astools_str_blank (Some title));
       summary \<leftarrow> node_str (xf x es ''summary'');
       ensure (\<not> astools_str_blank (Some summary) \<and> length summary \<le> 80 \<and>
         CHR 0x0A \<notin> set summary \<and> CHR 0x0D \<notin> set summary);
       descr \<leftarrow> get_opt_string x es ''description'';
       kind \<leftarrow> parse_kind (xf x es ''kind'');
       Some (m\<lparr>m_manifest_version := 1, m_id := ident, m_version := ver, m_title := title,
         m_summary := summary, m_description := descr, m_kind := kind\<rparr>)
     }"

definition platform_name :: "xnode option \<Rightarrow> string option" where
  "platform_name n = do { s \<leftarrow> node_str n; ensure (os_name_valid (Some s)); Some s }"

definition parse_platforms :: "xcdn \<Rightarrow> xentries \<Rightarrow> astools_manifest \<Rightarrow> astools_manifest option" where
  "parse_platforms x es m =
     (case xf x es ''platforms'' of
        None \<Rightarrow> Some (m\<lparr>m_platforms := [''linux'', ''macos'', ''windows'']\<rparr>)
      | Some n \<Rightarrow>
          do {
            items \<leftarrow> node_array (Some n);
            names \<leftarrow> those (map platform_name items);
            Some (m\<lparr>m_platforms := names\<rparr>)
          })"

text \<open>One runtime entry, after the entries already parsed.\<close>

definition parse_entry :: "xcdn \<Rightarrow> astools_entry list \<Rightarrow> xnode option \<Rightarrow> astools_entry option" where
  "parse_entry x earlier item =
     do {
       es \<leftarrow> node_object item;
       os \<leftarrow> node_str (xf x es ''os'');
       ensure (os_name_valid (Some os));
       arch \<leftarrow> node_str (xf x es ''arch'');
       ensure (arch_name_valid (Some arch));
       ensure (list_all (\<lambda>e. \<not> (en_os e = os \<and> en_arch e = arch)) earlier);
       items \<leftarrow> node_array (xf x es ''argv'');
       ensure (items \<noteq> []);
       argv \<leftarrow> those (map node_str items);
       ensure (hd argv \<noteq> []);
       Some \<lparr>en_os = os, en_arch = arch, en_argv = argv\<rparr>
     }"

fun parse_list :: "('a list \<Rightarrow> xnode option \<Rightarrow> 'a option) \<Rightarrow> 'a list \<Rightarrow> xnode option list \<Rightarrow> 'a list option" where
  "parse_list f earlier [] = Some earlier"
| "parse_list f earlier (n # ns) = (case f earlier n of None \<Rightarrow> None | Some a \<Rightarrow> parse_list f (earlier @ [a]) ns)"

definition parse_mode :: "nat \<Rightarrow> xnode option \<Rightarrow> nat option" where
  "parse_mode mode mn =
     (case mn of None \<Rightarrow> Some mode
      | Some n \<Rightarrow>
          if node_str (Some n) = Some ''oneshot'' then Some ASTOOLS_MODE_ONESHOT
          else if node_str (Some n) = Some ''persistent'' then Some ASTOOLS_MODE_PERSISTENT
          else None)"

definition parse_protocol :: "nat \<Rightarrow> xnode option \<Rightarrow> nat option" where
  "parse_protocol protocol pn =
     (case pn of None \<Rightarrow> Some protocol
      | Some n \<Rightarrow>
          if node_str (Some n) = Some ''astools'' then Some ASTOOLS_PROTOCOL_NATIVE
          else if node_str (Some n) = Some ''lsp'' then Some ASTOOLS_PROTOCOL_LSP
          else if node_str (Some n) = Some ''mcp'' then Some ASTOOLS_PROTOCOL_MCP
          else None)"

definition parse_parallel :: "int \<Rightarrow> xnode option \<Rightarrow> int option" where
  "parse_parallel par pn =
     (case pn of None \<Rightarrow> Some par
      | Some n \<Rightarrow> (case xval n of Some (XInt i) \<Rightarrow> if i < 1 then None else Some i | _ \<Rightarrow> None))"

definition opt_period :: "int \<Rightarrow> xnode option \<Rightarrow> int option" where
  "opt_period ms n = (case n of None \<Rightarrow> Some ms | Some d \<Rightarrow> node_period d)"

definition parse_runtime :: "xcdn \<Rightarrow> xentries \<Rightarrow> astools_manifest \<Rightarrow> astools_manifest option" where
  "parse_runtime x es m =
     (case xf x es ''runtime'' of
        None \<Rightarrow> Some m
      | Some rt \<Rightarrow>
          do {
            r \<leftarrow> node_object (Some rt);
            mode \<leftarrow> parse_mode (m_mode m) (xf x r ''mode'');
            protocol \<leftarrow> parse_protocol (m_protocol m) (xf x r ''protocol'');
            ensure (protocol = ASTOOLS_PROTOCOL_NATIVE \<or>
              m_kind m = ASTOOLS_KIND_EXECUTABLE \<and> mode = ASTOOLS_MODE_PERSISTENT);
            entries \<leftarrow> (case xf x r ''entry'' of
                None \<Rightarrow> Some (m_entries m)
              | Some n \<Rightarrow> do { items \<leftarrow> node_array (Some n); parse_list (parse_entry x) [] items });
            par \<leftarrow> parse_parallel (m_parallel m) (xf x r ''parallel'');
            idle \<leftarrow> opt_period (m_idle_timeout_ms m) (xf x r ''idle_timeout'');
            startup \<leftarrow> opt_period (m_startup_timeout_ms m) (xf x r ''startup_timeout'');
            Some (m\<lparr>m_mode := mode, m_protocol := protocol, m_entries := entries, m_parallel := par,
              m_idle_timeout_ms := idle, m_startup_timeout_ms := startup\<rparr>)
          })"

section \<open>Permissions\<close>

definition parse_fs_perm :: "xcdn \<Rightarrow> string option \<Rightarrow> xnode option \<Rightarrow> astools_fs_perm option" where
  "parse_fs_perm x workspace item =
     do {
       es \<leftarrow> node_object item;
       path \<leftarrow> node_str (xf x es ''path'');
       ensure (path \<noteq> []);
       let a = access_from_string (node_str (xf x es ''access''));
       ensure (a \<noteq> 0);
       Some \<lparr>fpath = Some (expand_workspace path workspace), faccess = a\<rparr>
     }"

definition env_name :: "xnode option \<Rightarrow> string option option" where
  "env_name n = do { s \<leftarrow> node_str n; ensure (env_name_valid (Some s)); Some (Some s) }"

definition opt_items :: "(xnode option \<Rightarrow> 'a option) \<Rightarrow> xnode option \<Rightarrow> 'a list option" where
  "opt_items f n = (case n of None \<Rightarrow> Some [] | Some d \<Rightarrow> do { items \<leftarrow> node_array (Some d); those (map f items) })"

definition parse_permissions :: "xcdn \<Rightarrow> xentries \<Rightarrow> string option \<Rightarrow> astools_manifest \<Rightarrow> astools_manifest option" where
  "parse_permissions x es workspace m =
     (case xf x es ''permissions'' of
        None \<Rightarrow> Some m
      | Some pn \<Rightarrow>
          do {
            p \<leftarrow> node_object (Some pn);
            fs \<leftarrow> opt_items (parse_fs_perm x workspace) (xf x p ''fs'');
            net \<leftarrow> get_opt_bool x p ''net'' (pm_net (m_perms m));
            prc \<leftarrow> get_opt_bool x p ''proc'' (pm_proc (m_perms m));
            env \<leftarrow> opt_items env_name (xf x p ''env'');
            Some (m\<lparr>m_perms := \<lparr>pm_fs = fs, pm_net = net, pm_proc = prc, pm_env = env\<rparr>\<rparr>)
          })"

section \<open>Parameters\<close>

text \<open>One parameter, after the parameters already parsed.\<close>

definition parse_dflt :: "bool \<Rightarrow> xcdn \<Rightarrow> astools_type \<Rightarrow> bool \<Rightarrow> xnode option \<Rightarrow> xnode option option" where
  "parse_dflt tb x ty req dn =
     (case dn of None \<Rightarrow> Some None
      | Some n \<Rightarrow>
          if req then None
          else (case mclone_node n of None \<Rightarrow> None
                | Some c \<Rightarrow> (case astools_type_check tb (x_get x) ty (Some c) of
                    (e, c') \<Rightarrow> if e \<noteq> ASTOOLS_OK then None else Some c')))"

definition parse_param :: "bool \<Rightarrow> xcdn \<Rightarrow> astools_param list \<Rightarrow> xnode option \<Rightarrow> astools_param option" where
  "parse_param tb x earlier item =
     do {
       po \<leftarrow> node_object item;
       name \<leftarrow> node_str (xf x po ''name'');
       ensure (param_name_valid (Some name));
       ensure (Some name \<notin> set (map pname earlier));
       tn \<leftarrow> xf x po ''type'';
       ty \<leftarrow> astools_type_parse tb (x_get x) (Some tn);
       req \<leftarrow> get_opt_bool x po ''required'' False;
       d \<leftarrow> parse_dflt tb x ty req (xf x po ''default'');
       descr \<leftarrow> get_opt_string x po ''description'';
       Some (AParam (Some name) (Some ty) req d descr)
     }"

definition parse_params :: "bool \<Rightarrow> xcdn \<Rightarrow> xnode option \<Rightarrow> astools_param list option" where
  "parse_params tb x pn = do { items \<leftarrow> node_array pn; parse_list (parse_param tb x) [] items }"

section \<open>Closed contracts\<close>

text \<open>A reviewed schema text of an MCP binding.\<close>

definition mcp_schema :: "string option \<Rightarrow> bool \<Rightarrow> bool" where
  "mcp_schema str input =
     (case str of None \<Rightarrow> False
      | Some t \<Rightarrow> length t \<le> 65536 \<and>
          (case jx_parse (Some t) of None \<Rightarrow> False
           | Some v \<Rightarrow> astools_mcp_schema_supported (Some v) \<and>
               (input \<longrightarrow> astools_rpc_string (Some v) ''type'' = Some ''object'')))"

definition mcp_name_char :: "char \<Rightarrow> bool" where
  "mcp_name_char c \<longleftrightarrow> is_lower c \<or> is_upper c \<or> is_digit c \<or> c \<in> {CHR ''_'', CHR ''.'', CHR ''-''}"

text \<open>The name and the schemas the binding gives the command; nothing without the MCP protocol.\<close>

definition astools_mcp_command_parse :: "xcdn \<Rightarrow> nat \<Rightarrow> bool \<Rightarrow> xnode option
    \<Rightarrow> (string option \<times> string option \<times> string option) option" where
  "astools_mcp_command_parse x protocol idempotent binding =
     (if protocol \<noteq> ASTOOLS_PROTOCOL_MCP then (if binding = None then Some (None, None, None) else None)
      else do {
        es \<leftarrow> node_object binding;
        ensure (\<not> idempotent);
        name \<leftarrow> node_str (xf x es ''name'');
        let input = node_str (xf x es ''input_schema'');
        let output = node_str (xf x es ''output_schema'');
        ensure (name \<noteq> [] \<and> length name \<le> 128 \<and> list_all mcp_name_char name);
        ensure (mcp_schema input True);
        ensure (xf x es ''output_schema'' \<noteq> None \<longrightarrow> mcp_schema output False);
        ensure (length es = (if output \<noteq> None then 3 else 2));
        Some (Some name, input, output)
      })"

text \<open>The bit a parameter of an LSP command contributes.\<close>

definition lsp_field :: "bool \<Rightarrow> astools_param \<Rightarrow> nat option" where
  "lsp_field position p =
     (case p of AParam name ty req d descr \<Rightarrow>
        if \<not> req \<or> d \<noteq> None then None
        else (case ty of None \<Rightarrow> None | Some u \<Rightarrow>
          let t = tsc u in
          if name = Some ''path'' \<and> tkind t = AT_PATH \<and> taccess t = ASTOOLS_ACCESS_READ \<and> tmust_exist t then Some 1
          else if name = Some ''sha256'' \<and> tkind t = AT_STRING \<and> tmin_len t = 64 \<and> tmax_len t = 64 then Some 2
          else if position \<and> tkind t = AT_INTEGER \<and> thas_min t \<and> tmin_num t = 1 \<and> thas_max t \<and> tmax_num t = 2147483647
          then (if name = Some ''line'' then Some 4 else if name = Some ''column'' then Some 8 else None)
          else None))"

fun lsp_fields :: "bool \<Rightarrow> astools_param list \<Rightarrow> nat \<Rightarrow> nat option" where
  "lsp_fields position [] bits = Some bits"
| "lsp_fields position (p # ps) bits =
     (case lsp_field position p of None \<Rightarrow> None | Some b \<Rightarrow> lsp_fields position ps (bits OR b))"

definition lsp_command_valid :: "astools_cmd \<Rightarrow> bool" where
  "lsp_command_valid cmd =
     (let position = (c_name cmd = ''definition'' \<or> c_name cmd = ''references'') in
      if \<not> position \<and> c_name cmd \<noteq> ''symbols'' \<and> c_name cmd \<noteq> ''diagnostics'' \<or>
         \<not> c_read_only cmd \<or> c_destructive cmd \<or> c_idempotent cmd \<or>
         length (c_params cmd) \<noteq> (if position then 4 else 2)
      then False
      else lsp_fields position (c_params cmd) 0 = Some (if position then 15 else 3))"

definition astools_lsp_manifest_valid :: "astools_manifest \<Rightarrow> bool" where
  "astools_lsp_manifest_valid m =
     (if m_protocol m \<noteq> ASTOOLS_PROTOCOL_LSP then True else list_all lsp_command_valid (m_commands m))"

section \<open>Commands\<close>

definition parse_annotations :: "xcdn \<Rightarrow> xnode option \<Rightarrow> (bool \<times> bool \<times> bool \<times> bool) option" where
  "parse_annotations x an =
     (case an of None \<Rightarrow> Some (False, False, False, False)
      | Some n \<Rightarrow>
          do {
            es \<leftarrow> node_object (Some n);
            r \<leftarrow> get_opt_bool x es ''read_only'' False;
            d \<leftarrow> get_opt_bool x es ''destructive'' False;
            i \<leftarrow> get_opt_bool x es ''idempotent'' False;
            l \<leftarrow> get_opt_bool x es ''long_running'' False;
            Some (r, d, i, l)
          })"

definition parse_returns :: "bool \<Rightarrow> xcdn \<Rightarrow> xnode option \<Rightarrow> (astools_type option \<times> string option) option" where
  "parse_returns tb x rn =
     (case rn of None \<Rightarrow> Some (None, None)
      | Some n \<Rightarrow>
          do {
            es \<leftarrow> node_object (Some n);
            tn \<leftarrow> xf x es ''type'';
            ty \<leftarrow> astools_type_parse tb (x_get x) (Some tn);
            descr \<leftarrow> get_opt_string x es ''description'';
            Some (Some ty, descr)
          })"

definition error_code_ok :: "string \<Rightarrow> string \<Rightarrow> bool" where
  "error_code_ok ident code \<longleftrightarrow>
     take (length ident) code = ident \<and> cget code (length ident) = CHR ''/'' \<and>
     astools_slug_valid (Some (drop (length ident + 1) code))"

definition parse_error :: "xcdn \<Rightarrow> string \<Rightarrow> xnode option \<Rightarrow> astools_errdecl option" where
  "parse_error x ident item =
     do {
       es \<leftarrow> node_object item;
       code \<leftarrow> node_str (xf x es ''code'');
       ensure (error_code_ok ident code);
       descr \<leftarrow> get_opt_string x es ''description'';
       Some \<lparr>ed_code = code, ed_description = descr\<rparr>
     }"

definition parse_example :: "xcdn \<Rightarrow> xnode option \<Rightarrow> astools_example option" where
  "parse_example x item =
     do {
       es \<leftarrow> node_object item;
       title \<leftarrow> get_opt_string x es ''title'';
       cn \<leftarrow> xf x es ''call'';
       _ \<leftarrow> node_object (Some cn);
       call \<leftarrow> mclone_node cn;
       result \<leftarrow> (case xf x es ''result'' of None \<Rightarrow> Some None | Some rn \<Rightarrow> map_option Some (mclone_node rn));
       note \<leftarrow> get_opt_string x es ''note'';
       Some \<lparr>ex_title = title, ex_call = call, ex_result = result, ex_note = note\<rparr>
     }"

definition parse_command :: "bool \<Rightarrow> xcdn \<Rightarrow> astools_manifest \<Rightarrow> astools_cmd list \<Rightarrow> xnode option \<Rightarrow> astools_cmd option" where
  "parse_command tb x m earlier item =
     do {
       co \<leftarrow> node_object item;
       name \<leftarrow> node_str (xf x co ''name'');
       ensure (astools_slug_valid (Some name));
       ensure (name \<notin> set (map c_name earlier));
       summary \<leftarrow> node_str (xf x co ''summary'');
       ensure (\<not> astools_str_blank (Some summary));
       descr \<leftarrow> get_opt_string x co ''description'';
       (r, d, i, l) \<leftarrow> parse_annotations x (xf x co ''annotations'');
       deprecated \<leftarrow> get_opt_bool x co ''deprecated'' False;
       (mname, minput, moutput) \<leftarrow> astools_mcp_command_parse x (m_protocol m) i (xf x co ''mcp'');
       tmo \<leftarrow> opt_period 0 (xf x co ''timeout'');
       params \<leftarrow> (case xf x co ''params'' of None \<Rightarrow> Some [] | Some pn \<Rightarrow> parse_params tb x (Some pn));
       (rtype, rdesc) \<leftarrow> parse_returns tb x (xf x co ''returns'');
       errors \<leftarrow> opt_items (parse_error x (m_id m)) (xf x co ''errors'');
       examples \<leftarrow> opt_items (parse_example x) (xf x co ''examples'');
       Some \<lparr>c_name = name, c_mcp_name = mname, c_mcp_input_schema = minput, c_mcp_output_schema = moutput,
         c_summary = summary, c_description = descr, c_read_only = r, c_destructive = d, c_idempotent = i,
         c_long_running = l, c_deprecated = deprecated, c_timeout_ms = tmo, c_params = params,
         c_returns_type = rtype, c_returns_desc = rdesc, c_errors = errors, c_examples = examples\<rparr>
     }"

definition parse_commands :: "bool \<Rightarrow> xcdn \<Rightarrow> xentries \<Rightarrow> astools_manifest \<Rightarrow> astools_manifest option" where
  "parse_commands tb x es m =
     do {
       items \<leftarrow> node_array (xf x es ''commands'');
       ensure (items \<noteq> []);
       cmds \<leftarrow> parse_list (parse_command tb x m) [] items;
       Some (m\<lparr>m_commands := cmds\<rparr>)
     }"

section \<open>Entry point, lookup and lint\<close>

definition manifest_of_root :: "bool \<Rightarrow> xcdn \<Rightarrow> string option \<Rightarrow> xnode \<Rightarrow> astools_manifest option" where
  "manifest_of_root tb x workspace tool =
     do {
       ensure (x_has_tag x (xtags tool) ''astools_tool'');
       es \<leftarrow> node_object (Some tool);
       m \<leftarrow> parse_header x es manifest_new;
       m \<leftarrow> parse_platforms x es m;
       m \<leftarrow> parse_runtime x es m;
       m \<leftarrow> parse_permissions x es workspace m;
       m \<leftarrow> parse_commands tb x es m;
       ensure (astools_lsp_manifest_valid m);
       Some m
     }"

definition astools_manifest_parse :: "bool \<Rightarrow> xcdn \<Rightarrow> string option \<Rightarrow> string option \<Rightarrow> astools_manifest option" where
  "astools_manifest_parse tb x workspace str =
     do {
       s \<leftarrow> str;
       doc \<leftarrow> x_parse x s;
       tool \<leftarrow> doc_first doc;
       manifest_of_root tb x workspace tool
     }"

definition astools_manifest_cmd :: "astools_manifest option \<Rightarrow> string option \<Rightarrow> astools_cmd option" where
  "astools_manifest_cmd m name =
     (case (m, name) of (Some m, Some nm) \<Rightarrow> find (\<lambda>c. c_name c = nm) (m_commands m) | _ \<Rightarrow> None)"

definition lint_pathish_name :: "string option \<Rightarrow> bool" where
  "lint_pathish_name name =
     (case name of None \<Rightarrow> False
      | Some s \<Rightarrow> s \<in> {''path'', ''src'', ''dst'', ''file'', ''dir''} \<or>
          list_ex (\<lambda>suf. length s > length suf \<and> drop (length s - length suf) s = suf) [''_path'', ''_dir'', ''_file''])"

definition lint_param :: "string \<Rightarrow> astools_param \<Rightarrow> string list \<times> nat" where
  "lint_param cmd p =
     (case ptype p of None \<Rightarrow> ([], 0)
      | Some ty \<Rightarrow>
          if tkind (tsc ty) = AT_STRING \<and> lint_pathish_name (pname p)
          then ([''error: command '' @ [CHR 0x27] @ cmd @ [CHR 0x27] @ '': param '' @ [CHR 0x27] @ (case pname p of None \<Rightarrow> [] | Some n \<Rightarrow> n) @
                 [CHR 0x27] @ '' must be typed path, not string'' @ [CHR 0x0A]], 1)
          else ([], 0))"

definition lint_line :: "string \<Rightarrow> string \<Rightarrow> string \<Rightarrow> string" where
  "lint_line kind name what = kind @ [CHR 0x27] @ name @ [CHR 0x27] @ '': '' @ what @ [CHR 0x0A]"

definition lint_command :: "astools_cmd \<Rightarrow> string list \<times> nat" where
  "lint_command c =
     (let params = map (lint_param (c_name c)) (c_params c);
          bad = c_destructive c \<and> c_read_only c in
      ((if astools_str_blank (c_description c) then [lint_line ''warn: command '' (c_name c) ''no description''] else []) @
       (if bad then [lint_line ''error: command '' (c_name c) ''destructive contradicts read_only''] else []) @
       (if c_long_running c \<and> c_timeout_ms c = 0 then [lint_line ''warn: command '' (c_name c) ''long_running but no timeout''] else []) @
       concat (map fst params) @
       (if c_examples c = [] then [lint_line ''warn: command '' (c_name c) ''no examples''] else []),
       (if bad then 1 else 0) + sum_list (map snd params)))"

text \<open>The lines appended to the report and the number of errors.\<close>

definition astools_manifest_lint :: "astools_manifest \<Rightarrow> string list \<times> nat" where
  "astools_manifest_lint m =
     (let cmds = map lint_command (m_commands m) in
      ((if astools_str_blank (m_description m) then [lint_line ''warn: tool '' (m_id m) ''no description''] else []) @
       concat (map fst cmds), sum_list (map snd cmds)))"

end
