(* ===== verification/As_TypeRender.thy ===== *)
theory As_TypeRender
  imports As_Manifest
begin

text \<open>
  \<^verbatim>\<open>src/manifest.c\<close>, rendering of types: the document of a type and of its parameters, and what the
  type parser makes of it. Objects are built field by field; memory suffices.
\<close>

section \<open>Building documents\<close>

definition wrap_value :: "xvalue \<Rightarrow> xnode" where
  "wrap_value v = XNode [] [] (Some v)"

definition val_string :: "string \<Rightarrow> xvalue" where
  "val_string s = XString (Some s)"

type_synonym xfields = "(string \<times> xnode) list"

text \<open>An object value from its fields in order, and a field that may be left out.\<close>

definition obj_of :: "xfields \<Rightarrow> xvalue" where
  "obj_of fs = XObject (map (\<lambda>(k, n). (Some k, Some n)) fs)"

definition fopt :: "string \<Rightarrow> xnode option \<Rightarrow> xfields" where
  "fopt k v = (case v of None \<Rightarrow> [] | Some n \<Rightarrow> [(k, n)])"

definition str_node :: "string \<Rightarrow> xnode" where
  "str_node s = wrap_value (val_string s)"

definition int_node :: "int \<Rightarrow> xnode" where
  "int_node i = wrap_value (XInt i)"

definition bool_node :: "bool \<Rightarrow> xnode" where
  "bool_node b = wrap_value (XBool b)"

definition arr_node :: "xnode list \<Rightarrow> xnode" where
  "arr_node ns = wrap_value (XArray (map Some ns))"

definition tagged_obj_node :: "string option \<Rightarrow> xfields \<Rightarrow> xnode" where
  "tagged_obj_node tag fs = XNode (case tag of None \<Rightarrow> [] | Some t \<Rightarrow> [Some t]) [] (Some (obj_of fs))"

definition render_strv :: "string list \<Rightarrow> xnode" where
  "render_strv ss = arr_node (map str_node ss)"

section \<open>Types\<close>

text \<open>C's \<open>(int64_t)\<close> of a double truncates; outside the range it is undefined.\<close>

definition ll_of_dbl :: "rat \<Rightarrow> int" where
  "ll_of_dbl q = (if q < 0 then \<lceil>q\<rceil> else \<lfloor>q\<rfloor>)"

definition nonneg_field :: "string \<Rightarrow> int \<Rightarrow> xfields" where
  "nonneg_field k i = fopt k (if i \<ge> 0 then Some (int_node i) else None)"

definition bound_field :: "string \<Rightarrow> bool \<Rightarrow> xnode \<Rightarrow> xfields" where
  "bound_field k has n = fopt k (if has then Some n else None)"

text \<open>The attributes of the kinds without inner types.\<close>

definition render_attrs :: "tscalars \<Rightarrow> xfields" where
  "render_attrs t =
     (case tkind t of
        AT_STRING \<Rightarrow> nonneg_field ''min_len'' (tmin_len t) @ nonneg_field ''max_len'' (tmax_len t)
      | AT_BYTES \<Rightarrow> nonneg_field ''min_len'' (tmin_len t) @ nonneg_field ''max_len'' (tmax_len t)
      | AT_INTEGER \<Rightarrow> bound_field ''min'' (thas_min t) (int_node (ll_of_dbl (tmin_num t))) @
          bound_field ''max'' (thas_max t) (int_node (ll_of_dbl (tmax_num t)))
      | AT_NUMBER \<Rightarrow> bound_field ''min'' (thas_min t) (wrap_value (XFloat (Fin (tmin_num t)))) @
          bound_field ''max'' (thas_max t) (wrap_value (XFloat (Fin (tmax_num t))))
      | AT_PATH \<Rightarrow> fopt ''access'' (map_option str_node (access_to_string (taccess t))) @
          bound_field ''must_exist'' (tmust_exist t) (bool_node True)
      | AT_ENUM \<Rightarrow> [(''values'', render_strv (tvalues t))]
      | AT_ARRAY \<Rightarrow> nonneg_field ''min_items'' (tmin_items t) @ nonneg_field ''max_items'' (tmax_items t)
      | AT_MAP \<Rightarrow> nonneg_field ''max_entries'' (tmax_entries t)
      | _ \<Rightarrow> [])"

definition param_node :: "string \<Rightarrow> xnode \<Rightarrow> bool \<Rightarrow> xnode option \<Rightarrow> string option \<Rightarrow> xnode" where
  "param_node name tn req dn descr = tagged_obj_node (Some ''param'')
     ([(''name'', str_node name), (''type'', tn)] @
      bound_field ''required'' req (bool_node True) @
      fopt ''default'' dn @
      fopt ''description'' (map_option str_node descr))"

text \<open>A NULL name, inner type or failed copy fails the rendering.\<close>

definition clone_opt :: "xnode option \<Rightarrow> xnode option option" where
  "clone_opt n = (case n of None \<Rightarrow> Some None | Some d \<Rightarrow> map_option Some (mclone_node d))"

fun render_type :: "astools_type \<Rightarrow> xnode option" and render_params :: "astools_param list \<Rightarrow> xnode list option" where
  "render_type (AType t item vtype flds) =
     map_option (\<lambda>inner. tagged_obj_node (Some ''type'') ((''kind'', str_node (kind_name (tkind t))) # inner @ render_attrs t))
       (case tkind t of
          AT_ARRAY \<Rightarrow> (case item of None \<Rightarrow> None | Some it \<Rightarrow> map_option (\<lambda>n. [(''item'', n)]) (render_type it))
        | AT_MAP \<Rightarrow> (case vtype of None \<Rightarrow> None | Some vt \<Rightarrow> map_option (\<lambda>n. [(''value'', n)]) (render_type vt))
        | AT_OBJECT \<Rightarrow> map_option (\<lambda>ns. [(''fields'', arr_node ns)]) (render_params flds)
        | _ \<Rightarrow> Some [])"
| "render_params [] = Some []"
| "render_params (AParam nm ty req d descr # ps) =
     (case (nm, ty) of
        (Some name, Some t) \<Rightarrow>
          (case render_type t of None \<Rightarrow> None | Some tn \<Rightarrow>
           case clone_opt d of None \<Rightarrow> None | Some dn \<Rightarrow>
           map_option (Cons (param_node name tn req dn descr)) (render_params ps))
      | _ \<Rightarrow> None)"

section \<open>Looking fields up\<close>

declare map_of_append [simp del]

definition keys_of :: "xfields \<Rightarrow> string set" where
  "keys_of fs = fst ` set fs"

lemma map_of_fields [simp]:
  "map_of (fopt k v @ r) j = (if j = k \<and> v \<noteq> None then v else map_of r j)"
  "map_of (fopt k v) j = (if j = k then v else None)"
  by (auto simp: fopt_def split: option.splits)

lemma keys_of_simps [simp]:
  "keys_of [] = {}" "keys_of ((k, n) # fs) = insert k (keys_of fs)" "keys_of (fs @ gs) = keys_of fs \<union> keys_of gs"
  "keys_of (fopt k v) = (if v = None then {} else {k})"
  by (auto simp: keys_of_def fopt_def split: option.splits)

definition dkeys :: "xfields \<Rightarrow> bool" where
  "dkeys fs \<longleftrightarrow> distinct (map fst fs)"

lemma dkeys_simps [simp]:
  "dkeys []" "dkeys ((k, n) # fs) \<longleftrightarrow> k \<notin> keys_of fs \<and> dkeys fs"
  "dkeys (fs @ gs) \<longleftrightarrow> dkeys fs \<and> dkeys gs \<and> keys_of fs \<inter> keys_of gs = {}"
  "dkeys (fopt k v)"
  by (auto simp: dkeys_def keys_of_def fopt_def split: option.splits)

lemma xfind_obj:
  assumes "lookup_ok oget" "dkeys fs"
  shows "xfind oget (map (\<lambda>(k, n). (Some k, Some n)) fs) k = map_of fs k"
proof (cases "map_of fs k")
  case None
  then have "(Some k) \<notin> fst ` set (map (\<lambda>(k, n). (Some k, Some n)) fs)"
    by (force simp: map_of_eq_None_iff)
  have "xget oget (map (\<lambda>(k, n). (Some k, Some n)) fs) k = None"
  proof (rule ccontr)
    assume "xget oget (map (\<lambda>(k, n). (Some k, Some n)) fs) k \<noteq> None"
    then obtain i n where "xget oget (map (\<lambda>(k, n). (Some k, Some n)) fs) k = Some (i, n)" by auto
    from xget_Some [OF assms(1) this] have "(Some k, Some n) \<in> set (map (\<lambda>(k, n). (Some k, Some n)) fs)" by (metis nth_mem)
    then have "(k, n) \<in> set fs" by auto
    with None show False by (force simp: map_of_eq_None_iff)
  qed
  with None show ?thesis by (simp add: xfind_def)
next
  case (Some n)
  then obtain i where i: "i < length fs" "fs ! i = (k, n)" by (metis in_set_conv_nth map_of_SomeD)
  have "distinct (map fst (map (\<lambda>(k, n). (Some k, Some n)) fs :: xentries))"
    using assms(2) by (auto simp: dkeys_def distinct_map comp_def case_prod_beta inj_on_def)
  from xget_distinct [OF assms(1) this, of i k n] i Some show ?thesis by (simp add: xfind_def)
qed

section \<open>What rendering keeps\<close>

text \<open>
  The shape the type parser leaves: attributes a kind does not have are those of a fresh type, inner
  types belong to their kinds, field names are parameter names.
\<close>

definition kind_shape :: "tscalars \<Rightarrow> bool" where
  "kind_shape t \<longleftrightarrow>
     (let n = type_new (tkind t) in
      case tkind t of
        AT_STRING \<Rightarrow> t = n\<lparr>tmin_len := tmin_len t, tmax_len := tmax_len t\<rparr> \<and> - 1 \<le> tmin_len t \<and> - 1 \<le> tmax_len t
      | AT_BYTES \<Rightarrow> t = n\<lparr>tmin_len := tmin_len t, tmax_len := tmax_len t\<rparr> \<and> - 1 \<le> tmin_len t \<and> - 1 \<le> tmax_len t
      | AT_INTEGER \<Rightarrow> t = n\<lparr>thas_min := thas_min t, tmin_num := tmin_num t, thas_max := thas_max t, tmax_num := tmax_num t\<rparr> \<and>
          (thas_min t \<or> tmin_num t = 0) \<and> (thas_max t \<or> tmax_num t = 0)
      | AT_NUMBER \<Rightarrow> t = n\<lparr>thas_min := thas_min t, tmin_num := tmin_num t, thas_max := thas_max t, tmax_num := tmax_num t\<rparr> \<and>
          (thas_min t \<or> tmin_num t = 0) \<and> (thas_max t \<or> tmax_num t = 0)
      | AT_PATH \<Rightarrow> t = n\<lparr>taccess := taccess t, tmust_exist := tmust_exist t\<rparr>
      | AT_ENUM \<Rightarrow> t = n\<lparr>tvalues := tvalues t\<rparr>
      | AT_ARRAY \<Rightarrow> t = n\<lparr>tmin_items := tmin_items t, tmax_items := tmax_items t\<rparr> \<and> - 1 \<le> tmin_items t \<and> - 1 \<le> tmax_items t
      | AT_MAP \<Rightarrow> t = n\<lparr>tmax_entries := tmax_entries t\<rparr> \<and> - 1 \<le> tmax_entries t
      | _ \<Rightarrow> t = n)"

fun shaped :: "astools_type \<Rightarrow> bool" and shaped_params :: "astools_param list \<Rightarrow> bool" where
  "shaped (AType t item vtype flds) \<longleftrightarrow>
     kind_shape t \<and>
     (case item of None \<Rightarrow> tkind t \<noteq> AT_ARRAY | Some it \<Rightarrow> tkind t = AT_ARRAY \<and> shaped it) \<and>
     (case vtype of None \<Rightarrow> tkind t \<noteq> AT_MAP | Some vt \<Rightarrow> tkind t = AT_MAP \<and> shaped vt) \<and>
     (flds = [] \<or> tkind t = AT_OBJECT) \<and> shaped_params flds"
| "shaped_params [] \<longleftrightarrow> True"
| "shaped_params (AParam nm ty req d descr # ps) \<longleftrightarrow>
     param_name_ok nm \<and> (case ty of None \<Rightarrow> False | Some t \<Rightarrow> shaped t) \<and> shaped_params ps"

text \<open>
  What rendering can express: bounds of integers are integers that a double holds exactly, defaults
  are within the depth the type parser copies.
\<close>

definition int_bound :: "rat \<Rightarrow> bool" where
  "int_bound q \<longleftrightarrow> q = of_int \<lfloor>q\<rfloor> \<and> dbl_of_int \<lfloor>q\<rfloor> = q \<and> int64_ok \<lfloor>q\<rfloor>"

fun exact_type :: "astools_type \<Rightarrow> bool" and exact_params :: "astools_param list \<Rightarrow> bool" where
  "exact_type (AType t item vtype flds) \<longleftrightarrow>
     (tkind t = AT_INTEGER \<longrightarrow> (thas_min t \<longrightarrow> int_bound (tmin_num t)) \<and> (thas_max t \<longrightarrow> int_bound (tmax_num t))) \<and>
     (case item of None \<Rightarrow> True | Some it \<Rightarrow> exact_type it) \<and>
     (case vtype of None \<Rightarrow> True | Some vt \<Rightarrow> exact_type vt) \<and> exact_params flds"
| "exact_params [] \<longleftrightarrow> True"
| "exact_params (AParam nm ty req d descr # ps) \<longleftrightarrow>
     (case ty of None \<Rightarrow> True | Some t \<Rightarrow> exact_type t) \<and>
     (case d of None \<Rightarrow> True | Some n \<Rightarrow> ndepth n \<le> CLONE_DEPTH_MAX) \<and> exact_params ps"

lemma int_bound_ll: "int_bound q \<Longrightarrow> dbl_of_int (ll_of_dbl q) = q"
proof -
  assume q: "int_bound q"
  have "\<lceil>q\<rceil> = \<lfloor>q\<rfloor>" using q by (metis ceiling_of_int int_bound_def)
  with q show ?thesis by (simp add: ll_of_dbl_def int_bound_def)
qed

lemma kind_lookup_name: "kind_lookup (kind_name k) = Some k"
  by (cases k) (simp_all add: kind_lookup_def kind_table_def)

lemma node_simps [simp]:
  "xval (wrap_value v) = Some v" "str_val (str_node s) = Some s" "xval (str_node s) = Some (XString (Some s))"
  "xval (int_node i) = Some (XInt i)" "xval (bool_node b) = Some (XBool b)" "xval (arr_node ns) = Some (XArray (map Some ns))"
  by (simp_all add: wrap_value_def str_node_def str_val_def val_string_def int_node_def bool_node_def arr_node_def)

lemma field_simps [simp]:
  "map_of (nonneg_field k i @ r) j = (if j = k \<and> i \<ge> 0 then Some (int_node i) else map_of r j)"
  "map_of (nonneg_field k i) j = (if j = k \<and> i \<ge> 0 then Some (int_node i) else None)"
  "map_of (bound_field k b n @ r) j = (if j = k \<and> b then Some n else map_of r j)"
  "map_of (bound_field k b n) j = (if j = k \<and> b then Some n else None)"
  "keys_of (nonneg_field k i) = (if i \<ge> 0 then {k} else {})" "dkeys (nonneg_field k i)"
  "keys_of (bound_field k b n) = (if b then {k} else {})" "dkeys (bound_field k b n)"
  by (auto simp: nonneg_field_def bound_field_def)

lemma attrs_keys: "keys_of (render_attrs t) \<subseteq> set (kind_keys (tkind t)) - {''kind'', ''item'', ''value'', ''fields''}"
  by (cases "tkind t") (auto simp: render_attrs_def)

lemma attrs_dkeys: "dkeys (render_attrs t)"
  by (cases "tkind t") (auto simp: render_attrs_def)

section \<open>Reading the attributes back\<close>

lemma opt_nonneg_map:
  assumes "xfind oget es k = (if i \<ge> 0 then Some (int_node i) else None)" "- 1 \<le> i"
  shows "opt_nonneg oget es k (- 1) = Some i"
  using assms by (auto simp: opt_nonneg_def split: if_splits)

lemma opt_bound_int:
  assumes "xfind oget es k = (if b then Some (int_node (ll_of_dbl q)) else None)" "b \<longrightarrow> int_bound q" "b \<or> q = 0"
  shows "opt_bound oget es k (False, 0) = Some (b, q)"
  using assms int_bound_ll [of q] by (auto simp: opt_bound_def)

lemma opt_bound_num:
  assumes "xfind oget es k = (if b then Some (wrap_value (XFloat (Fin q))) else None)" "b \<or> q = 0"
  shows "opt_bound oget es k (False, 0) = Some (b, q)"
  using assms by (auto simp: opt_bound_def)

text \<open>The readers of the kinds without inner types, on the fields of a type object.\<close>

definition reads_attrs :: "xlookup \<Rightarrow> xentries \<Rightarrow> tscalars \<Rightarrow> bool" where
  "reads_attrs oget es t \<longleftrightarrow> (\<forall>k. k \<in> set (kind_keys (tkind t)) - {''kind'', ''item'', ''value'', ''fields''} \<longrightarrow>
     xfind oget es k = map_of (render_attrs t) k)"

lemma lens_back:
  assumes "reads_attrs oget es t" "kind_shape t" "wf_scalars t" "tkind t = AT_STRING \<or> tkind t = AT_BYTES"
  shows "parse_lens oget es (type_new (tkind t)) = Some t"
proof -
  have f: "xfind oget es ''min_len'' = (if tmin_len t \<ge> 0 then Some (int_node (tmin_len t)) else None)"
    "xfind oget es ''max_len'' = (if tmax_len t \<ge> 0 then Some (int_node (tmax_len t)) else None)"
    using assms(1,4) by (auto simp: reads_attrs_def render_attrs_def)
  have s: "t = (type_new (tkind t))\<lparr>tmin_len := tmin_len t, tmax_len := tmax_len t\<rparr>" "- 1 \<le> tmin_len t" "- 1 \<le> tmax_len t"
    using assms(2,4) by (auto simp: kind_shape_def Let_def)
  have b: "\<not> (0 \<le> tmin_len t \<and> 0 \<le> tmax_len t \<and> tmax_len t < tmin_len t)" using assms(3) by (auto simp: wf_scalars_def)
  have new: "tmin_len (type_new k) = - 1" "tmax_len (type_new k) = - 1" for k by (simp_all add: type_new_def)
  show ?thesis
    unfolding parse_lens_def new opt_nonneg_map [OF f(1) s(2)] opt_nonneg_map [OF f(2) s(3)] option.case
    using b s(1) by simp
qed

lemma bounds_back:
  assumes "reads_attrs oget es t" "kind_shape t" "wf_scalars t" "tkind t = AT_INTEGER \<or> tkind t = AT_NUMBER"
    and "tkind t = AT_INTEGER \<longrightarrow> (thas_min t \<longrightarrow> int_bound (tmin_num t)) \<and> (thas_max t \<longrightarrow> int_bound (tmax_num t))"
  shows "parse_bounds oget es (type_new (tkind t)) = Some t"
proof -
  have s: "t = (type_new (tkind t))\<lparr>thas_min := thas_min t, tmin_num := tmin_num t, thas_max := thas_max t, tmax_num := tmax_num t\<rparr>"
    "thas_min t \<or> tmin_num t = 0" "thas_max t \<or> tmax_num t = 0"
    using assms(2,4) by (auto simp: kind_shape_def Let_def)
  have "opt_bound oget es ''min'' (False, 0) = Some (thas_min t, tmin_num t) \<and>
    opt_bound oget es ''max'' (False, 0) = Some (thas_max t, tmax_num t)"
  proof (cases "tkind t = AT_INTEGER")
    case True
    then have f: "xfind oget es ''min'' = (if thas_min t then Some (int_node (ll_of_dbl (tmin_num t))) else None)"
      "xfind oget es ''max'' = (if thas_max t then Some (int_node (ll_of_dbl (tmax_num t))) else None)"
      using assms(1) by (simp_all add: reads_attrs_def render_attrs_def)
    show ?thesis using opt_bound_int [OF f(1)] opt_bound_int [OF f(2)] True assms(5) s(2,3) by simp
  next
    case False
    then have f: "xfind oget es ''min'' = (if thas_min t then Some (wrap_value (XFloat (Fin (tmin_num t)))) else None)"
      "xfind oget es ''max'' = (if thas_max t then Some (wrap_value (XFloat (Fin (tmax_num t)))) else None)"
      using assms(1,4) by (simp_all add: reads_attrs_def render_attrs_def)
    show ?thesis using opt_bound_num [OF f(1) s(2)] opt_bound_num [OF f(2) s(3)] by simp
  qed
  then have b: "opt_bound oget es ''min'' (False, 0) = Some (thas_min t, tmin_num t)"
    "opt_bound oget es ''max'' (False, 0) = Some (thas_max t, tmax_num t)"
    by simp_all
  have o: "\<not> (thas_min t \<and> thas_max t \<and> tmax_num t < tmin_num t)" using assms(3) by (auto simp: wf_scalars_def)
  have new: "thas_min (type_new k) = False" "thas_max (type_new k) = False" "tmin_num (type_new k) = 0" "tmax_num (type_new k) = 0" for k
    by (simp_all add: type_new_def)
  show ?thesis
    unfolding parse_bounds_def new b option.case prod.case using o s(1) by simp
qed

lemma path_back:
  assumes "reads_attrs oget es t" "kind_shape t" "wf_scalars t" "tkind t = AT_PATH"
  shows "parse_path oget es (type_new AT_PATH) = Some t"
proof -
  have s: "t = (type_new AT_PATH)\<lparr>taccess := taccess t, tmust_exist := tmust_exist t\<rparr>"
    using assms(2,4) by (auto simp: kind_shape_def Let_def)
  have "taccess t \<in> {ASTOOLS_ACCESS_READ, ASTOOLS_ACCESS_WRITE, ASTOOLS_ACCESS_RW}" using assms(3) by (simp add: wf_scalars_def)
  then have acc: "\<exists>str. access_to_string (taccess t) = Some str \<and> (str = ''read'' \<and> taccess t = ASTOOLS_ACCESS_READ \<or>
      str = ''write'' \<and> taccess t = ASTOOLS_ACCESS_WRITE \<or> str = ''read-write'' \<and> taccess t = ASTOOLS_ACCESS_RW)"
    by (auto simp: access_to_string_def ASTOOLS_ACCESS_READ_def ASTOOLS_ACCESS_WRITE_def ASTOOLS_ACCESS_RW_def)
  have f: "xfind oget es ''access'' = map_option str_node (access_to_string (taccess t))"
    "xfind oget es ''must_exist'' = (if tmust_exist t then Some (bool_node True) else None)"
    using assms(1,4) by (auto simp: reads_attrs_def render_attrs_def)
  have "opt_bool oget es ''must_exist'' False = Some (tmust_exist t)" by (simp add: opt_bool_def f(2))
  moreover have "tmust_exist (type_new AT_PATH) = False" by (simp add: type_new_def)
  ultimately show ?thesis using acc s by (auto simp: parse_path_def f(1) Let_def)
qed

lemma enum_back:
  assumes "reads_attrs oget es t" "kind_shape t" "wf_scalars t" "tkind t = AT_ENUM"
  shows "parse_enum oget es (type_new AT_ENUM) = Some t"
proof -
  have s: "t = (type_new AT_ENUM)\<lparr>tvalues := tvalues t\<rparr>" using assms(2,4) by (simp add: kind_shape_def Let_def)
  have v: "tvalues t \<noteq> []" "[] \<notin> set (tvalues t)" using assms(3,4) by (auto simp: wf_scalars_def)
  have f: "xfind oget es ''values'' = Some (render_strv (tvalues t))"
    using assms(1,4) by (auto simp: reads_attrs_def render_attrs_def)
  have "those (map enum_value (map Some (map str_node (tvalues t)))) = Some (tvalues t)"
    using v(2) by (auto simp: those_Some_iff enum_value_def)
  then show ?thesis using v(1) s by (simp add: parse_enum_def f render_strv_def)
qed

lemma item_bounds_back:
  assumes "reads_attrs oget es t" "kind_shape t" "wf_scalars t" "tkind t = AT_ARRAY"
  shows "parse_item_bounds oget es (type_new AT_ARRAY) = Some t"
proof -
  have f: "xfind oget es ''min_items'' = (if tmin_items t \<ge> 0 then Some (int_node (tmin_items t)) else None)"
    "xfind oget es ''max_items'' = (if tmax_items t \<ge> 0 then Some (int_node (tmax_items t)) else None)"
    using assms(1,4) by (auto simp: reads_attrs_def render_attrs_def)
  have s: "t = (type_new AT_ARRAY)\<lparr>tmin_items := tmin_items t, tmax_items := tmax_items t\<rparr>" "- 1 \<le> tmin_items t" "- 1 \<le> tmax_items t"
    using assms(2,4) by (auto simp: kind_shape_def Let_def)
  have b: "\<not> (0 \<le> tmin_items t \<and> 0 \<le> tmax_items t \<and> tmax_items t < tmin_items t)" using assms(3) by (auto simp: wf_scalars_def)
  have new: "tmin_items (type_new k) = - 1" "tmax_items (type_new k) = - 1" for k by (simp_all add: type_new_def)
  show ?thesis
    unfolding parse_item_bounds_def new opt_nonneg_map [OF f(1) s(2)] opt_nonneg_map [OF f(2) s(3)] option.case
    using b s(1) by simp
qed

section \<open>Reading a type back\<close>

abbreviation entries_in :: "xfields \<Rightarrow> xentries" where
  "entries_in fs \<equiv> map (\<lambda>(k, n). (Some k, Some n)) fs"

lemma dkeys_entries: "dkeys fs \<longleftrightarrow> distinct (map fst (entries_in fs))"
  by (auto simp: dkeys_def distinct_map comp_def case_prod_beta inj_on_def)

lemma no_dups: "dkeys fs \<Longrightarrow> check_obj_dups tb (entries_in fs) = ASTOOLS_OK"
proof -
  have all: "\<forall>e \<in> set (entries_in fs). fst e \<noteq> None" by auto
  show "dkeys fs \<Longrightarrow> ?thesis" using check_obj_dups_iff [OF all] unfolding dkeys_entries by blast
qed

lemma only_keys_in: "only_keys known (entries_in fs) \<longleftrightarrow> keys_of fs \<subseteq> set known"
  by (auto simp: only_keys_def list_all_iff keys_of_def)

definition type_fields :: "tscalars \<Rightarrow> xfields \<Rightarrow> xfields" where
  "type_fields t inner = (''kind'', str_node (kind_name (tkind t))) # inner @ render_attrs t"

lemma type_fields_dkeys:
  assumes "keys_of inner \<subseteq> {''item'', ''value'', ''fields''}" "dkeys inner"
  shows "dkeys (type_fields t inner)"
  using attrs_keys [of t] attrs_dkeys [of t] assms by (auto simp: type_fields_def)

lemma type_fields_look:
  assumes "lookup_ok oget" "keys_of inner \<subseteq> {''item'', ''value'', ''fields''}" "dkeys inner"
  shows "xfind oget (entries_in (type_fields t inner)) ''kind'' = Some (str_node (kind_name (tkind t)))"
    and "reads_attrs oget (entries_in (type_fields t inner)) t"
    and "k \<in> keys_of inner \<Longrightarrow> xfind oget (entries_in (type_fields t inner)) k = map_of inner k"
proof -
  note look = xfind_obj [OF assms(1) type_fields_dkeys [OF assms(2,3), of t]]
  have none: "map_of fs k = None \<longleftrightarrow> k \<notin> keys_of fs" for fs :: xfields and k by (simp add: map_of_eq_None_iff keys_of_def)
  have app: "map_of (inner @ render_attrs t) k =
      (if k \<in> keys_of inner then map_of inner k else map_of (render_attrs t) k)" for k
  proof (cases "k \<in> keys_of inner")
    case True
    with assms(2) attrs_keys [of t] have "k \<notin> keys_of (render_attrs t)" by auto
    then have "map_of (render_attrs t) k = None" by (simp add: none)
    with True none [of inner k] show ?thesis by (auto simp: map_of_append map_add_def split: option.splits)
  next
    case False
    then have "map_of inner k = None" by (simp add: none)
    with False show ?thesis by (auto simp: map_of_append map_add_def split: option.splits)
  qed
  show "xfind oget (entries_in (type_fields t inner)) ''kind'' = Some (str_node (kind_name (tkind t)))"
    by (simp only: look) (simp add: type_fields_def)
  have "map_of (type_fields t inner) k = map_of (render_attrs t) k" if "k \<notin> {''kind'', ''item'', ''value'', ''fields''}" for k
    using that assms(2) by (auto simp: type_fields_def app)
  then show "reads_attrs oget (entries_in (type_fields t inner)) t" by (auto simp: reads_attrs_def look)
  show "k \<in> keys_of inner \<Longrightarrow> xfind oget (entries_in (type_fields t inner)) k = map_of inner k"
    using assms(2) by (simp only: look) (auto simp: type_fields_def app)
qed

lemma type_head:
  assumes "lookup_ok oget" "keys_of inner \<subseteq> {''item'', ''value'', ''fields''}" "dkeys inner"
    and "keys_of inner \<subseteq> set (kind_keys (tkind t))" "depth \<le> TYPE_DEPTH_MAX"
  shows "type_parse_at tb oget depth (Some (tagged_obj_node tag (type_fields t inner))) =
    (let es = entries_in (type_fields t inner); n = type_new (tkind t); bare = (\<lambda>t. AType t None None []) in
     case tkind t of
       AT_STRING \<Rightarrow> map_option bare (parse_lens oget es n)
     | AT_BYTES \<Rightarrow> map_option bare (parse_lens oget es n)
     | AT_INTEGER \<Rightarrow> map_option bare (parse_bounds oget es n)
     | AT_NUMBER \<Rightarrow> map_option bare (parse_bounds oget es n)
     | AT_PATH \<Rightarrow> map_option bare (parse_path oget es n)
     | AT_ENUM \<Rightarrow> map_option bare (parse_enum oget es n)
     | AT_ARRAY \<Rightarrow>
         (case xfind oget es ''item'' of None \<Rightarrow> None | Some m \<Rightarrow>
          case type_parse_at tb oget (depth + 1) (Some m) of None \<Rightarrow> None | Some it \<Rightarrow>
          map_option (\<lambda>t. AType t (Some it) None []) (parse_item_bounds oget es n))
     | AT_MAP \<Rightarrow>
         (case xfind oget es ''value'' of None \<Rightarrow> None | Some m \<Rightarrow>
          case type_parse_at tb oget (depth + 1) (Some m) of None \<Rightarrow> None | Some vt \<Rightarrow>
          map_option (\<lambda>mx. AType (n\<lparr>tmax_entries := mx\<rparr>) None (Some vt) [])
            (opt_nonneg oget es ''max_entries'' (tmax_entries n)))
     | AT_OBJECT \<Rightarrow>
         (case xfind oget es ''fields'' of None \<Rightarrow> None | Some m \<Rightarrow>
          (case xval m of
            Some (XArray items) \<Rightarrow>
              (case those (map (param_parse tb oget (type_parse_at tb oget (depth + 1))) items) of
                 None \<Rightarrow> None
               | Some ps \<Rightarrow> if dup_str tb (map pname ps) \<noteq> Some None then None else Some (AType n None None ps))
          | _ \<Rightarrow> None))
     | _ \<Rightarrow> Some (bare n))"
proof -
  let ?fs = "type_fields t inner"
  have k: "Option.bind (xfind oget (entries_in ?fs) ''kind'') str_val = Some (kind_name (tkind t))"
    using type_fields_look(1) [OF assms(1-3), of t] by simp
  have o: "only_keys (kind_keys (tkind t)) (entries_in ?fs)"
    unfolding only_keys_in using attrs_keys [of t] assms(4) by (cases "tkind t") (auto simp: type_fields_def)
  have d: "check_obj_dups tb (entries_in ?fs) = ASTOOLS_OK" by (rule no_dups [OF type_fields_dkeys [OF assms(2,3)]])
  have node: "tagged_obj_node tag ?fs = XNode (case tag of None \<Rightarrow> [] | Some t \<Rightarrow> [Some t]) [] (Some (XObject (entries_in ?fs)))"
    by (simp add: tagged_obj_node_def obj_of_def)
  show ?thesis
    unfolding node type_parse_at.simps [of tb oget depth] option.case xnode.case xvalue.case k kind_lookup_name
    using assms(5) d o by (simp add: Let_def)
qed

definition dflt_ok :: "astools_type \<Rightarrow> bool \<Rightarrow> xnode option \<Rightarrow> bool" where
  "dflt_ok t req d \<longleftrightarrow> (case d of None \<Rightarrow> True | Some n \<Rightarrow> \<not> req \<and> doc_ok n \<and> admits t (Some n) (Some n))"

definition param_fields :: "string \<Rightarrow> xnode \<Rightarrow> bool \<Rightarrow> xnode option \<Rightarrow> string option \<Rightarrow> xfields" where
  "param_fields name tn req dn descr = [(''name'', str_node name), (''type'', tn)] @
      bound_field ''required'' req (bool_node True) @ fopt ''default'' dn @
      fopt ''description'' (map_option str_node descr)"

lemma param_fields_look:
  assumes "lookup_ok oget"
  shows "xfind oget (entries_in (param_fields name tn req dn descr)) k = map_of (param_fields name tn req dn descr) k"
  by (rule xfind_obj [OF assms]) (auto simp: param_fields_def)

lemma param_back:
  assumes "lookup_ok oget" "param_name_ok (Some name)" "parse (Some tn) = Some t" "wf_type t" "dflt_ok t req d"
    and "\<forall>n. d = Some n \<longrightarrow> ndepth n \<le> CLONE_DEPTH_MAX"
  shows "param_parse tb oget parse (Some (param_node name tn req d descr)) = Some (AParam (Some name) (Some t) req d descr)"
proof -
  let ?es = "entries_in (param_fields name tn req d descr)"
  note look = param_fields_look [OF assms(1), of name tn req d descr]
  have node: "param_node name tn req d descr = XNode [Some ''param''] [] (Some (XObject ?es))"
    by (simp add: param_node_def param_fields_def tagged_obj_node_def obj_of_def)
  have dups: "check_obj_dups tb ?es = ASTOOLS_OK" by (rule no_dups) (auto simp: param_fields_def)
  have only: "only_keys [''name'', ''type'', ''required'', ''default'', ''description'', ''examples''] ?es"
    unfolding only_keys_in by (auto simp: param_fields_def)
  have f: "xfind oget ?es ''name'' = Some (str_node name)" "xfind oget ?es ''type'' = Some tn"
    "xfind oget ?es ''required'' = (if req then Some (bool_node True) else None)"
    "xfind oget ?es ''description'' = map_option str_node descr" "xfind oget ?es ''examples'' = None"
    "xfind oget ?es ''default'' = d"
    by (simp_all only: look) (simp_all add: param_fields_def)
  have req: "opt_bool oget ?es ''required'' False = Some req" by (simp add: opt_bool_def f(3))
  have descr: "parse_description oget ?es = Some descr" using f(4) by (cases descr) (simp_all add: parse_description_def)
  have dflt: "parse_default tb oget t req ?es = Some d"
  proof (cases d)
    case (Some n)
    then have n: "\<not> req" "doc_ok n" "admits t (Some n) (Some n)" "ndepth n \<le> CLONE_DEPTH_MAX"
      using assms(5,6) by (simp_all add: dflt_ok_def)
    have "clone_node (Some n) 0 = Some n" using clone_exact(2) [OF n(2), of 0] n(4) by simp
    moreover have "astools_type_check tb oget t (Some n) = (ASTOOLS_OK, Some n)"
      using type_check_spec(1) [OF assms(1,4), of "Some n" tb "Some n"] n(2,3) by simp
    ultimately show ?thesis using Some n(1) f(6) by (simp add: parse_default_def)
  qed (use f(6) in \<open>simp add: parse_default_def\<close>)
  show ?thesis
    unfolding param_parse_def node option.case xnode.case xvalue.case
    using dups only assms(2,3) req descr dflt by (simp add: f(1,2,5) examples_ok_def)
qed

lemma clone_opt_exact: "\<forall>n. d = Some n \<longrightarrow> doc_ok n \<Longrightarrow> clone_opt d = Some d"
  by (auto simp: clone_opt_def mclone_exact split: option.splits)

lemma type_back:
  "lookup_ok oget \<Longrightarrow> wf_type ty \<Longrightarrow> shaped ty \<Longrightarrow> exact_type ty \<Longrightarrow> depth + tdepth ty \<le> Suc TYPE_DEPTH_MAX \<Longrightarrow>
    \<exists>n. render_type ty = Some n \<and> type_parse_at tb oget depth (Some n) = Some ty"
  "lookup_ok oget \<Longrightarrow> wf_params ps \<Longrightarrow> shaped_params ps \<Longrightarrow> exact_params ps \<Longrightarrow> depth + pdepth ps \<le> Suc TYPE_DEPTH_MAX \<Longrightarrow>
    \<exists>ns. render_params ps = Some ns \<and>
      those (map (param_parse tb oget (type_parse_at tb oget depth)) (map Some ns)) = Some ps"
proof (induction ty and ps arbitrary: depth and depth rule: render_type_render_params.induct)
  case (1 t item vtype flds)
  note prems = "1.prems"
  have wf: "wf_scalars t" "kind_shape t" using prems by simp_all
  have dep: "depth \<le> TYPE_DEPTH_MAX" using prems(5) by simp
  have node: "tagged_obj_node (Some ''type'') ((''kind'', str_node (kind_name (tkind t))) # inner @ render_attrs t) =
      tagged_obj_node (Some ''type'') (type_fields t inner)" for inner
    by (simp add: type_fields_def)
  have bounds: "tkind t = AT_INTEGER \<longrightarrow> (thas_min t \<longrightarrow> int_bound (tmin_num t)) \<and> (thas_max t \<longrightarrow> int_bound (tmax_num t))"
    using prems(4) by simp
  consider (scalar) "tkind t \<notin> {AT_ARRAY, AT_MAP, AT_OBJECT}" | (array) "tkind t = AT_ARRAY" | (map) "tkind t = AT_MAP"
    | (object) "tkind t = AT_OBJECT" by blast
  then show ?case
  proof cases
    case scalar
    have inner: "keys_of [] \<subseteq> {''item'', ''value'', ''fields''}" "dkeys []" "keys_of [] \<subseteq> set (kind_keys (tkind t))" by simp_all
    have none: "item = None" "vtype = None" "flds = []" using prems(3) scalar by (auto split: option.splits)
    note reads = type_fields_look(2) [OF prems(1) inner(1,2), of t]
    have "type_parse_at tb oget depth (Some (tagged_obj_node (Some ''type'') (type_fields t []))) = Some (AType t None None [])"
      unfolding type_head [OF prems(1) inner dep] Let_def
      using scalar lens_back [OF reads wf(2,1)] bounds_back [OF reads wf(2,1) _ bounds] path_back [OF reads wf(2,1)]
        enum_back [OF reads wf(2,1)] wf(2)
      by (cases "tkind t") (simp_all add: kind_shape_def Let_def)
    then show ?thesis using scalar none by (cases "tkind t") (simp_all add: type_fields_def)
  next
    case array
    obtain it where it: "item = Some it" "vtype = None" "flds = []" "shaped it" using prems(3) array by (auto split: option.splits)
    have "Suc depth + tdepth it \<le> Suc TYPE_DEPTH_MAX" using prems(5) it(1) by simp
    then obtain n where n: "render_type it = Some n" "type_parse_at tb oget (depth + 1) (Some n) = Some it"
      using "1.IH"(1) [OF array it(1) prems(1) _ it(4), of "depth + 1"] prems(2,4) it(1) by auto
    have inner: "keys_of [(''item'', n)] \<subseteq> {''item'', ''value'', ''fields''}" "dkeys [(''item'', n)]"
      "keys_of [(''item'', n)] \<subseteq> set (kind_keys (tkind t))" by (simp_all add: array)
    have "xfind oget (entries_in (type_fields t [(''item'', n)])) ''item'' = Some n"
      using type_fields_look(3) [OF prems(1) inner(1,2), of "''item''" t] by simp
    then have "type_parse_at tb oget depth (Some (tagged_obj_node (Some ''type'') (type_fields t [(''item'', n)]))) =
        Some (AType t (Some it) None [])"
      unfolding type_head [OF prems(1) inner dep] Let_def
      using array n(2) item_bounds_back [OF type_fields_look(2) [OF prems(1) inner(1,2), of t] wf(2,1) array] by simp
    then show ?thesis using array it n(1) node [of "[(''item'', n)]"] by simp
  next
    case map
    obtain vt where vt: "item = None" "vtype = Some vt" "flds = []" "shaped vt" using prems(3) map by (auto split: option.splits)
    have "Suc depth + tdepth vt \<le> Suc TYPE_DEPTH_MAX" using prems(5) vt(2) by simp
    then obtain n where n: "render_type vt = Some n" "type_parse_at tb oget (depth + 1) (Some n) = Some vt"
      using "1.IH"(2) [OF map vt(2) prems(1) _ vt(4), of "depth + 1"] prems(2,4) vt(2) by auto
    have inner: "keys_of [(''value'', n)] \<subseteq> {''item'', ''value'', ''fields''}" "dkeys [(''value'', n)]"
      "keys_of [(''value'', n)] \<subseteq> set (kind_keys (tkind t))" by (simp_all add: map)
    let ?es = "entries_in (type_fields t [(''value'', n)])"
    have reads: "reads_attrs oget ?es t" by (rule type_fields_look(2) [OF prems(1) inner(1,2)])
    have v: "xfind oget ?es ''value'' = Some n" using type_fields_look(3) [OF prems(1) inner(1,2), of "''value''" t] by simp
    have f: "xfind oget ?es ''max_entries'' = (if tmax_entries t \<ge> 0 then Some (int_node (tmax_entries t)) else None)"
      using reads map by (auto simp: reads_attrs_def render_attrs_def)
    have s: "t = (type_new AT_MAP)\<lparr>tmax_entries := tmax_entries t\<rparr>" "- 1 \<le> tmax_entries t"
      using wf(2) map by (auto simp: kind_shape_def Let_def)
    have mx: "opt_nonneg oget ?es ''max_entries'' (tmax_entries (type_new AT_MAP)) = Some (tmax_entries t)"
      using opt_nonneg_map [OF f s(2)] by (simp add: type_new_def)
    have "type_parse_at tb oget depth (Some (tagged_obj_node (Some ''type'') (type_fields t [(''value'', n)]))) =
        Some (AType ((type_new AT_MAP)\<lparr>tmax_entries := tmax_entries t\<rparr>) None (Some vt) [])"
      unfolding type_head [OF prems(1) inner dep] Let_def
      using map v n(2) mx by simp
    also have "\<dots> = Some (AType t None (Some vt) [])" using s(1) by simp
    finally show ?thesis using map vt n(1) node [of "[(''value'', n)]"] by simp
  next
    case object
    have none: "item = None" "vtype = None" using prems(3) object by (auto split: option.splits)
    have "Suc depth + pdepth flds \<le> Suc TYPE_DEPTH_MAX" using prems(5) by simp
    then obtain ns where ns: "render_params flds = Some ns"
      "those (map (param_parse tb oget (type_parse_at tb oget (depth + 1))) (map Some ns)) = Some flds"
      using "1.IH"(3) [OF object prems(1), of "depth + 1"] prems(2-4) by auto
    let ?in = "[(''fields'', arr_node ns)]"
    have inner: "keys_of ?in \<subseteq> {''item'', ''value'', ''fields''}" "dkeys ?in" "keys_of ?in \<subseteq> set (kind_keys (tkind t))"
      by (simp_all add: object)
    have v: "xfind oget (entries_in (type_fields t ?in)) ''fields'' = Some (arr_node ns)"
      using type_fields_look(3) [OF prems(1) inner(1,2), of "''fields''" t] by simp
    have "distinct (map pname flds)" "None \<notin> set (map pname flds)" using prems(2) wf_params_names by auto
    then have dup: "dup_str tb (map pname flds) = Some None"
      using dup_str_total [of tb "map pname flds"] nonnull_distinct_all by auto
    have "type_parse_at tb oget depth (Some (tagged_obj_node (Some ''type'') (type_fields t ?in))) =
        Some (AType (type_new AT_OBJECT) None None flds)"
      unfolding type_head [OF prems(1) inner dep] Let_def
      using object v ns(2) dup by simp
    moreover have "t = type_new AT_OBJECT" using wf(2) object by (simp add: kind_shape_def Let_def)
    ultimately show ?thesis using object none ns(1) node [of ?in] by simp
  qed
next
  case 2
  then show ?case by simp
next
  case (3 nm ty req d descr ps)
  obtain name t where nt: "nm = Some name" "ty = Some t" using "3.prems"(2) by (cases nm; cases ty) auto
  have d: "dflt_ok t req d" "wf_type t" "wf_params ps" using "3.prems"(2) nt by (simp_all add: dflt_ok_def)
  have s: "param_name_ok (Some name)" "shaped t" "shaped_params ps" using "3.prems"(3) nt by simp_all
  have e: "exact_type t" "exact_params ps" "\<forall>n. d = Some n \<longrightarrow> ndepth n \<le> CLONE_DEPTH_MAX"
    using "3.prems"(4) nt by auto
  have dep: "depth + tdepth t \<le> Suc TYPE_DEPTH_MAX" "depth + pdepth ps \<le> Suc TYPE_DEPTH_MAX" using "3.prems"(5) nt by simp_all
  have nt': "(nm, ty) = (Some name, Some t)" using nt by simp
  obtain tn where tn: "render_type t = Some tn" "type_parse_at tb oget depth (Some tn) = Some t"
    using "3.IH"(1) [OF nt' [symmetric] refl refl "3.prems"(1) d(2) s(2) e(1) dep(1)] by blast
  have c: "clone_opt d = Some d" by (rule clone_opt_exact) (use d(1) in \<open>simp add: dflt_ok_def split: option.splits\<close>)
  obtain ns where ns: "render_params ps = Some ns"
    "those (map (param_parse tb oget (type_parse_at tb oget depth)) (map Some ns)) = Some ps"
    using "3.IH"(2) [OF nt' [symmetric] refl refl tn(1) c "3.prems"(1) d(3) s(3) e(2) dep(2)] by blast
  have "param_parse tb oget (type_parse_at tb oget depth) (Some (param_node name tn req d descr)) = Some (AParam (Some name) (Some t) req d descr)"
    by (rule param_back [where parse = "type_parse_at tb oget depth", OF "3.prems"(1) s(1) tn(2) d(2,1) e(3)])
  then show ?case using ns tn(1) c nt by simp
qed

section \<open>Parsed types have the shape\<close>

lemma opt_nonneg_ge: "opt_nonneg oget es k (- 1) = Some i \<Longrightarrow> - 1 \<le> i"
  by (auto simp: opt_nonneg_def split: option.splits xvalue.splits if_splits)

lemma opt_bound_zero: "opt_bound oget es k (False, 0) = Some (b, q) \<Longrightarrow> b \<or> q = 0"
  by (auto simp: opt_bound_def split: option.splits xvalue.splits As_Xcdn.dbl.splits)

lemma scalars_shape:
  "parse_lens oget es (type_new k) = Some t \<Longrightarrow> k = AT_STRING \<or> k = AT_BYTES \<Longrightarrow> kind_shape t"
  "parse_bounds oget es (type_new k) = Some t \<Longrightarrow> k = AT_INTEGER \<or> k = AT_NUMBER \<Longrightarrow> kind_shape t"
  "parse_path oget es (type_new AT_PATH) = Some t \<Longrightarrow> kind_shape t"
  "parse_enum oget es (type_new AT_ENUM) = Some t \<Longrightarrow> kind_shape t"
  "parse_item_bounds oget es (type_new AT_ARRAY) = Some t \<Longrightarrow> kind_shape t"
  "opt_nonneg oget es k' (tmax_entries (type_new AT_MAP)) = Some mx \<Longrightarrow> kind_shape ((type_new AT_MAP)\<lparr>tmax_entries := mx\<rparr>)"
  "k \<in> {AT_BOOLEAN, AT_DATETIME, AT_DURATION, AT_UUID, AT_OBJECT} \<Longrightarrow> kind_shape (type_new k)"
  by (auto simp: parse_lens_def parse_bounds_def parse_path_def parse_enum_def parse_item_bounds_def kind_shape_def
      type_new_def Let_def dest!: opt_nonneg_ge opt_bound_zero split: option.splits if_splits prod.splits xvalue.splits)

lemma shaped_params_list: "shaped_params ps \<longleftrightarrow> list_all (\<lambda>p. shaped_params [p]) ps"
proof (induction ps)
  case (Cons p ps)
  then show ?case by (cases p) simp
qed simp

lemma param_parse_inv:
  assumes "param_parse tb oget parse pn = Some p"
  shows "\<exists>s tn ty req d descr. p = AParam (Some s) (Some ty) req d descr \<and> param_name_ok (Some s) \<and> parse (Some tn) = Some ty"
  using assms by (auto simp: param_parse_def split: option.splits xnode.splits xvalue.splits if_splits)

lemma type_parse_shaped: "type_parse_at tb oget depth node = Some ty \<Longrightarrow> shaped ty"
proof (induction "33 - depth" arbitrary: depth node ty rule: less_induct)
  case less
  obtain a b es where dp: "depth \<le> TYPE_DEPTH_MAX" and node: "node = Some (XNode a b (Some (XObject es)))"
    using type_parse_node [OF less.prems] by blast
  have IH: "shaped u" if "type_parse_at tb oget (depth + 1) n = Some u" for n u
    using less.hyps [of "depth + 1" n u] that dp by (simp add: TYPE_DEPTH_MAX_def)
  note eq = less.prems [unfolded type_parse_at.simps [of tb oget depth] node option.case xnode.case xvalue.case]
  obtain ks kind where k: "check_obj_dups tb es = ASTOOLS_OK" "Option.bind (xfind oget es ''kind'') str_val = Some ks"
      "kind_lookup ks = Some kind" "only_keys (kind_keys kind) es"
    using eq by (auto split: if_splits option.splits)
  note body = eq [simplified k option.case Let_def, simplified]
  have bare: "shaped (AType t None None [])" if "kind_shape t" "tkind t \<noteq> AT_ARRAY" "tkind t \<noteq> AT_MAP" for t
    using that by simp
  consider (scalar) "kind \<notin> {AT_ARRAY, AT_MAP, AT_OBJECT}" | "kind = AT_ARRAY" | "kind = AT_MAP" | "kind = AT_OBJECT"
    by blast
  then show ?case
  proof cases
    case scalar
    have "\<exists>t. ty = AType t None None [] \<and> kind_shape t \<and> tkind t = kind"
      using body scalar wf_new(2) [of kind] dp scalars_shape(7) [of kind]
      by (cases kind) (auto dest: parse_scalars_wf parse_enum_wf scalars_shape)
    then show ?thesis using bare scalar by auto
  next
    case 2
    obtain n it t where it: "type_parse_at tb oget (depth + 1) (Some n) = Some it"
      "parse_item_bounds oget es (type_new AT_ARRAY) = Some t" "ty = AType t (Some it) None []"
      using body dp by (auto simp: 2 split: option.splits if_splits)
    show ?thesis using IH [OF it(1)] scalars_shape(5) [OF it(2)] parse_scalars_wf(4) [OF it(2)] by (simp add: it(3))
  next
    case 3
    obtain n vt mx where vt: "type_parse_at tb oget (depth + 1) (Some n) = Some vt"
      "opt_nonneg oget es ''max_entries'' (tmax_entries (type_new AT_MAP)) = Some mx"
      "ty = AType ((type_new AT_MAP)\<lparr>tmax_entries := mx\<rparr>) None (Some vt) []"
      using body dp by (auto simp: 3 split: option.splits if_splits)
    show ?thesis using IH [OF vt(1)] scalars_shape(6) [OF vt(2)] by (simp add: vt(3) wf_new)
  next
    case 4
    let ?parse = "param_parse tb oget (type_parse_at tb oget (depth + 1))"
    obtain items ps where ps: "those (map ?parse items) = Some ps" "ty = AType (type_new AT_OBJECT) None None ps"
      using body dp by (auto simp: 4 split: option.splits if_splits xvalue.splits)
    have "shaped_params [p]" if p: "p \<in> set ps" for p
    proof -
      have "Some p \<in> set (map ?parse items)" using p ps(1) by (simp add: those_Some_iff)
      then obtain i where "?parse i = Some p" by auto
      from param_parse_inv [OF this] IH show ?thesis by auto
    qed
    then have "shaped_params ps" by (simp add: shaped_params_list [of ps] list_all_iff)
    then show ?thesis using scalars_shape(7) [of AT_OBJECT] by (simp add: ps(2) wf_new)
  qed
qed

section \<open>Properties\<close>

text \<open>
  A parsed type survives rendering: its document is parsed back to the same type, whatever the
  memory, provided its integer bounds are integers a double holds exactly and its defaults are within
  the copy depth.
\<close>

theorem type_render_parse:
  assumes "lookup_ok oget" "doc_ok n" "astools_type_parse tb oget (Some n) = Some ty" "exact_type ty"
  shows "\<exists>r. render_type ty = Some r \<and> astools_type_parse tb' oget (Some r) = Some ty"
proof -
  have "wf_type ty \<and> tdepth ty \<le> Suc TYPE_DEPTH_MAX"
    using type_parse_spec [OF assms(1), of "Some n" tb 0 ty] assms(2,3) by (simp add: astools_type_parse_def)
  moreover have "shaped ty" using assms(3) type_parse_shaped by (simp add: astools_type_parse_def)
  ultimately show ?thesis using type_back(1) [OF assms(1) _ _ assms(4), of 0 tb'] by (simp add: astools_type_parse_def)
qed

definition half_type :: astools_type where
  "half_type = AType ((type_new AT_INTEGER)\<lparr>thas_min := True, tmin_num := 1 / 2\<rparr>) None None []"

definition half_doc :: xnode where
  "half_doc = XNode [] [] (Some (demo_obj [(''kind'', XString (Some ''integer'')), (''min'', XFloat (Fin (1 / 2)))]))"

lemma half_type_parses: "astools_type_parse True first_key (Some half_doc) = Some half_type"
  by (simp add: astools_type_parse_def half_doc_def half_type_def demo_obj_def type_parse_at.simps TYPE_DEPTH_MAX_def
      check_obj_dups_def dup_str_def SIZE_MAX_def xfind_def xget_def str_val_def kind_lookup_def kind_table_def
      only_keys_def parse_bounds_def opt_bound_def type_new_def Let_def)

text \<open>
  Without exact bounds the rendering is weaker than the type: the type of the integers from 1/2 up, which refuses 0, is rendered
  as the type of the integers from 0 up, which accepts it.
\<close>

theorem fractional_bound_weakened:
  "\<exists>r ty. astools_type_parse True first_key (Some half_doc) = Some half_type \<and> render_type half_type = Some r \<and>
     astools_type_parse True first_key (Some r) = Some ty \<and>
     fst (astools_type_check True first_key half_type (Some (int_node 0))) = ASTOOLS_ERR_INVALID \<and>
     fst (astools_type_check True first_key ty (Some (int_node 0))) = ASTOOLS_OK"
proof -
  let ?r = "tagged_obj_node (Some ''type'') [(''kind'', str_node ''integer''), (''min'', int_node 0)]"
  let ?ty = "AType ((type_new AT_INTEGER)\<lparr>thas_min := True, tmin_num := 0\<rparr>) None None []"
  have "\<lfloor>1 / 2 :: rat\<rfloor> = 0" by (simp add: floor_eq_iff)
  then have "render_type half_type = Some ?r"
    by (simp add: half_type_def render_attrs_def bound_field_def fopt_def type_new_def ll_of_dbl_def)
  moreover have "astools_type_parse True first_key (Some ?r) = Some ?ty"
    by (simp add: astools_type_parse_def tagged_obj_node_def obj_of_def type_parse_at.simps TYPE_DEPTH_MAX_def
        check_obj_dups_def dup_str_def SIZE_MAX_def xfind_def xget_def kind_lookup_def kind_table_def
        only_keys_def parse_bounds_def opt_bound_def type_new_def Let_def dbl_of_int_def)
  moreover have "fst (astools_type_check True first_key half_type (Some (int_node 0))) = ASTOOLS_ERR_INVALID"
    by (simp add: half_type_def int_node_def wrap_value_def check_scalar_def type_new_def int_ge_def TWO_POW_63_def)
  moreover have "fst (astools_type_check True first_key ?ty (Some (int_node 0))) = ASTOOLS_OK"
    by (simp add: int_node_def wrap_value_def check_scalar_def type_new_def int_ge_def TWO_POW_63_def)
  ultimately show ?thesis using half_type_parses by blast
qed

theorem type_render_parse_witness:
  "\<exists>r ty. astools_type_parse True first_key (Some demo_type_doc) = Some ty \<and> render_type ty = Some r \<and>
     astools_type_parse False first_key (Some r) = Some ty"
proof -
  have ok: "doc_ok demo_type_doc"
    by (simp add: demo_type_doc_def demo_obj_def int64_ok_def INT64_MAX_def INT64_MIN_def all_some_def)
  have "exact_type (AType (type_new AT_OBJECT) None None
       [AParam (Some ''n'') (Some (AType ((type_new AT_INTEGER)\<lparr>thas_min := True, tmin_num := 2\<rparr>) None None []))
          False (Some (XNode [] [] (Some (XInt 3)))) None])"
    by (simp add: type_new_def int_bound_def dbl_of_int_def floorlog_def int64_ok_def INT64_MAX_def INT64_MIN_def CLONE_DEPTH_MAX_def max0_def)
  from type_render_parse [OF first_key_ok ok demo_type_parses this, of False] demo_type_parses show ?thesis by blast
qed

end
