(* ===== verification/As_ManifestRender.thy ===== *)
theory As_ManifestRender
  imports As_TypeRender
begin

text \<open>
  \<^verbatim>\<open>src/manifest.c\<close>, canonical rendering of a manifest; what every parsed manifest satisfies, and that
  parsing a rendered manifest gives the manifest back.
\<close>

section \<open>Rendering\<close>

definition dur_node :: "int \<Rightarrow> xnode" where
  "dur_node ms = wrap_value (XDuration (Some (val_duration_ms (nat ms))))"

definition render_entry :: "astools_entry \<Rightarrow> xnode" where
  "render_entry e = tagged_obj_node None
     [(''os'', str_node (en_os e)), (''arch'', str_node (en_arch e)), (''argv'', render_strv (en_argv e))]"

definition runtime_fields :: "astools_manifest \<Rightarrow> xfields" where
  "runtime_fields m =
     [(''protocol'', str_node (if m_protocol m = ASTOOLS_PROTOCOL_LSP then ''lsp''
         else if m_protocol m = ASTOOLS_PROTOCOL_MCP then ''mcp'' else ''astools'')),
      (''mode'', str_node (if m_mode m = ASTOOLS_MODE_PERSISTENT then ''persistent'' else ''oneshot'')),
      (''entry'', arr_node (map render_entry (m_entries m))),
      (''parallel'', int_node (m_parallel m)),
      (''idle_timeout'', dur_node (m_idle_timeout_ms m)),
      (''startup_timeout'', dur_node (m_startup_timeout_ms m))]"

definition render_runtime :: "astools_manifest \<Rightarrow> xnode" where
  "render_runtime m = tagged_obj_node None (runtime_fields m)"

text \<open>A NULL path, an access without a name or a NULL variable name fails the rendering.\<close>

definition render_fs_perm :: "astools_fs_perm \<Rightarrow> xnode option" where
  "render_fs_perm q =
     (case (access_to_string (faccess q), fpath q) of
        (Some acc, Some p) \<Rightarrow> Some (tagged_obj_node None [(''path'', str_node p), (''access'', str_node acc)])
      | _ \<Rightarrow> None)"

definition permission_fields :: "xnode list \<Rightarrow> bool \<Rightarrow> bool \<Rightarrow> string list \<Rightarrow> xfields" where
  "permission_fields fs net prc env =
     [(''fs'', arr_node fs), (''net'', bool_node net), (''proc'', bool_node prc), (''env'', render_strv env)]"

definition render_permissions :: "astools_perms \<Rightarrow> xnode option" where
  "render_permissions p =
     do {
       fs \<leftarrow> those (map render_fs_perm (pm_fs p));
       env \<leftarrow> those (pm_env p);
       Some (tagged_obj_node None (permission_fields fs (pm_net p) (pm_proc p) env))
     }"

definition render_binding :: "astools_cmd \<Rightarrow> xnode option option" where
  "render_binding c =
     (case c_mcp_name c of None \<Rightarrow> Some None
      | Some name \<Rightarrow> map_option (\<lambda>input. Some (tagged_obj_node None
          ([(''name'', str_node name), (''input_schema'', str_node input)] @
           fopt ''output_schema'' (map_option str_node (c_mcp_output_schema c))))) (c_mcp_input_schema c))"

definition annotation_fields :: "astools_cmd \<Rightarrow> xfields" where
  "annotation_fields c =
     [(''read_only'', bool_node (c_read_only c)), (''destructive'', bool_node (c_destructive c)),
      (''idempotent'', bool_node (c_idempotent c)), (''long_running'', bool_node (c_long_running c))]"

definition render_returns :: "astools_cmd \<Rightarrow> xnode option option" where
  "render_returns c =
     (case c_returns_type c of None \<Rightarrow> Some None
      | Some ty \<Rightarrow> map_option (\<lambda>tn. Some (tagged_obj_node None
          ((''type'', tn) # fopt ''description'' (map_option str_node (c_returns_desc c))))) (render_type ty))"

definition render_error :: "astools_errdecl \<Rightarrow> xnode" where
  "render_error e = tagged_obj_node None
     ((''code'', str_node (ed_code e)) # fopt ''description'' (map_option str_node (ed_description e)))"

definition example_fields :: "string option \<Rightarrow> xnode \<Rightarrow> xnode option \<Rightarrow> string option \<Rightarrow> xfields" where
  "example_fields title call result note =
     fopt ''title'' (map_option str_node title) @ [(''call'', call)] @ fopt ''result'' result @
     fopt ''note'' (map_option str_node note)"

definition render_example :: "astools_example \<Rightarrow> xnode option" where
  "render_example e =
     do {
       call \<leftarrow> mclone_node (ex_call e);
       result \<leftarrow> clone_opt (ex_result e);
       Some (tagged_obj_node (Some ''example'') (example_fields (ex_title e) call result (ex_note e)))
     }"

definition arr_opt :: "xnode list \<Rightarrow> xnode option" where
  "arr_opt ns = (if ns = [] then None else Some (arr_node ns))"

definition command_fields :: "astools_cmd \<Rightarrow> xnode option \<Rightarrow> xnode list \<Rightarrow> xnode option \<Rightarrow> xnode list \<Rightarrow> xfields" where
  "command_fields c binding params returns examples =
     [(''name'', str_node (c_name c))] @ fopt ''mcp'' binding @ [(''summary'', str_node (c_summary c))] @
     fopt ''description'' (map_option str_node (c_description c)) @
     bound_field ''annotations'' (c_read_only c \<or> c_destructive c \<or> c_idempotent c \<or> c_long_running c)
       (tagged_obj_node None (annotation_fields c)) @
     bound_field ''timeout'' (c_timeout_ms c > 0) (dur_node (c_timeout_ms c)) @
     fopt ''params'' (arr_opt params) @ fopt ''returns'' returns @
     fopt ''errors'' (arr_opt (map render_error (c_errors c))) @ fopt ''examples'' (arr_opt examples) @
     bound_field ''deprecated'' (c_deprecated c) (bool_node True)"

definition render_command :: "astools_cmd \<Rightarrow> xnode option" where
  "render_command c =
     do {
       binding \<leftarrow> render_binding c;
       params \<leftarrow> render_params (c_params c);
       returns \<leftarrow> render_returns c;
       examples \<leftarrow> those (map render_example (c_examples c));
       Some (tagged_obj_node (Some ''command'') (command_fields c binding params returns examples))
     }"

definition manifest_fields :: "astools_manifest \<Rightarrow> xnode \<Rightarrow> xnode list \<Rightarrow> xfields" where
  "manifest_fields m perms cmds =
     [(''manifest_version'', int_node (m_manifest_version m)), (''id'', str_node (m_id m)),
      (''version'', str_node (m_version m)), (''title'', str_node (m_title m)),
      (''summary'', str_node (m_summary m))] @
     fopt ''description'' (map_option str_node (m_description m)) @
     [(''kind'', str_node (if m_kind m = ASTOOLS_KIND_LIBRARY then ''library'' else ''executable'')),
      (''platforms'', render_strv (m_platforms m)), (''runtime'', render_runtime m),
      (''permissions'', perms), (''commands'', arr_node cmds)]"

definition render_manifest :: "astools_manifest \<Rightarrow> xnode option" where
  "render_manifest m =
     do {
       perms \<leftarrow> render_permissions (m_perms m);
       cmds \<leftarrow> those (map render_command (m_commands m));
       Some (tagged_obj_node (Some ''astools_tool'') (manifest_fields m perms cmds))
     }"

definition astools_manifest_render :: "xcdn \<Rightarrow> astools_manifest \<Rightarrow> string res" where
  "astools_manifest_render x m =
     (case render_manifest m of None \<Rightarrow> Inl ASTOOLS_ERR_NOMEM
      | Some n \<Rightarrow> (case x_pretty x n of None \<Rightarrow> Inl ASTOOLS_ERR_NOMEM | Some s \<Rightarrow> Inr s))"

section \<open>What a parsed manifest satisfies\<close>

definition type_fine :: "astools_type \<Rightarrow> bool" where
  "type_fine t \<longleftrightarrow> wf_type t \<and> shaped t \<and> tdepth t \<le> Suc TYPE_DEPTH_MAX"

definition param_fine :: "astools_param \<Rightarrow> bool" where
  "param_fine p \<longleftrightarrow> (\<exists>name t req d descr. p = AParam (Some name) (Some t) req d descr \<and>
     param_name_valid (Some name) \<and> type_fine t \<and> dflt_ok t req d)"

definition params_fine :: "astools_param list \<Rightarrow> bool" where
  "params_fine ps \<longleftrightarrow> list_all param_fine ps \<and> distinct (map pname ps)"

definition entry_fine :: "astools_entry \<Rightarrow> bool" where
  "entry_fine e \<longleftrightarrow> os_name_valid (Some (en_os e)) \<and> arch_name_valid (Some (en_arch e)) \<and>
     en_argv e \<noteq> [] \<and> hd (en_argv e) \<noteq> []"

definition period_fine :: "int \<Rightarrow> bool" where
  "period_fine ms \<longleftrightarrow> 1 \<le> ms \<and> ms \<le> ASTOOLS_PERIOD_MAX_MS"

definition example_fine :: "astools_example \<Rightarrow> bool" where
  "example_fine e \<longleftrightarrow> node_object (Some (ex_call e)) \<noteq> None \<and> doc_ok (ex_call e) \<and>
     (\<forall>n. ex_result e = Some n \<longrightarrow> doc_ok n)"

definition binding_fine :: "nat \<Rightarrow> astools_cmd \<Rightarrow> bool" where
  "binding_fine protocol c \<longleftrightarrow>
     (if protocol \<noteq> ASTOOLS_PROTOCOL_MCP
      then c_mcp_name c = None \<and> c_mcp_input_schema c = None \<and> c_mcp_output_schema c = None
      else \<not> c_idempotent c \<and> mcp_schema (c_mcp_input_schema c) True \<and>
        (c_mcp_output_schema c \<noteq> None \<longrightarrow> mcp_schema (c_mcp_output_schema c) False) \<and>
        (\<exists>name. c_mcp_name c = Some name \<and> name \<noteq> [] \<and> length name \<le> 128 \<and> list_all mcp_name_char name))"

definition cmd_fine :: "string \<Rightarrow> nat \<Rightarrow> astools_cmd \<Rightarrow> bool" where
  "cmd_fine ident protocol c \<longleftrightarrow>
     astools_slug_valid (Some (c_name c)) \<and> \<not> astools_str_blank (Some (c_summary c)) \<and>
     (c_timeout_ms c = 0 \<or> period_fine (c_timeout_ms c)) \<and> params_fine (c_params c) \<and>
     (case c_returns_type c of None \<Rightarrow> c_returns_desc c = None | Some t \<Rightarrow> type_fine t) \<and>
     list_all (\<lambda>e. error_code_ok ident (ed_code e)) (c_errors c) \<and> list_all example_fine (c_examples c) \<and>
     binding_fine protocol c"

definition perms_fine :: "astools_perms \<Rightarrow> bool" where
  "perms_fine p \<longleftrightarrow>
     list_all (\<lambda>q. fpath q \<noteq> None \<and> faccess q \<in> {ASTOOLS_ACCESS_READ, ASTOOLS_ACCESS_WRITE, ASTOOLS_ACCESS_RW}) (pm_fs p) \<and>
     list_all env_name_valid (pm_env p)"

definition entries_fine :: "astools_entry list \<Rightarrow> bool" where
  "entries_fine es \<longleftrightarrow> list_all entry_fine es \<and> distinct (map (\<lambda>e. (en_os e, en_arch e)) es)"

definition header_fine :: "astools_manifest \<Rightarrow> bool" where
  "header_fine m \<longleftrightarrow>
     m_manifest_version m = 1 \<and> astools_slug_valid (Some (m_id m)) \<and> length (m_id m) \<le> 32 \<and>
     astools_semver_parse (Some (m_version m)) \<noteq> None \<and> \<not> astools_str_blank (Some (m_title m)) \<and>
     \<not> astools_str_blank (Some (m_summary m)) \<and> length (m_summary m) \<le> 80 \<and>
     CHR 0x0A \<notin> set (m_summary m) \<and> CHR 0x0D \<notin> set (m_summary m) \<and>
     m_kind m \<in> {ASTOOLS_KIND_EXECUTABLE, ASTOOLS_KIND_LIBRARY} \<and>
     list_all (\<lambda>s. os_name_valid (Some s)) (m_platforms m)"

definition runtime_fine :: "astools_manifest \<Rightarrow> bool" where
  "runtime_fine m \<longleftrightarrow>
     m_mode m \<in> {ASTOOLS_MODE_ONESHOT, ASTOOLS_MODE_PERSISTENT} \<and>
     m_protocol m \<in> {ASTOOLS_PROTOCOL_NATIVE, ASTOOLS_PROTOCOL_LSP, ASTOOLS_PROTOCOL_MCP} \<and>
     (m_protocol m = ASTOOLS_PROTOCOL_NATIVE \<or>
       m_kind m = ASTOOLS_KIND_EXECUTABLE \<and> m_mode m = ASTOOLS_MODE_PERSISTENT) \<and>
     entries_fine (m_entries m) \<and> 1 \<le> m_parallel m \<and>
     period_fine (m_idle_timeout_ms m) \<and> period_fine (m_startup_timeout_ms m)"

definition manifest_fine :: "astools_manifest \<Rightarrow> bool" where
  "manifest_fine m \<longleftrightarrow> header_fine m \<and> runtime_fine m \<and> perms_fine (m_perms m) \<and>
     m_commands m \<noteq> [] \<and> distinct (map c_name (m_commands m)) \<and>
     list_all (cmd_fine (m_id m) (m_protocol m)) (m_commands m) \<and> astools_lsp_manifest_valid m"

section \<open>Parsing establishes it\<close>

lemma ensure_Some [simp]: "ensure b = Some u \<longleftrightarrow> b" "ensure True = Some ()" "ensure False = None"
  by (simp_all add: ensure_def)

lemmas parse_conv = bind_eq_Some_conv

lemma node_list_docs:
  assumes "doc_ok n" "node_array (Some n) = Some items" "Some i \<in> set items"
  shows "doc_ok i"
  using assms by (cases n) (auto simp: node_array_def all_some_iff split: option.splits xvalue.splits)

lemma node_object_docs:
  assumes "doc_ok n" "node_object (Some n) = Some es"
  shows "nodes_ok es"
  using assms doc_entries by (cases n) (auto simp: node_object_def split: option.splits xvalue.splits)

lemma xf_doc: "xcdn_ok x \<Longrightarrow> nodes_ok es \<Longrightarrow> xf x es k = Some n \<Longrightarrow> doc_ok n"
  using xfind_doc by (auto simp: xcdn_ok_def)

lemma node_inv:
  "node_object n = Some es \<Longrightarrow> \<exists>m. n = Some m" "node_array n = Some xs \<Longrightarrow> \<exists>m. n = Some m" "node_str n = Some s \<Longrightarrow> \<exists>m. n = Some m"
  by (auto simp: node_object_def node_array_def node_str_def split: option.splits)

lemma header_fine_parse:
  assumes "parse_header x es m0 = Some m" "m_platforms m = []"
  shows "header_fine m"
  using assms
  by (auto simp: parse_header_def parse_conv header_fine_def parse_kind_def simp del: in_set_conv_decomp split: option.splits if_splits)

lemma header_rest:
  "parse_header x es m0 = Some m \<Longrightarrow> m_platforms m = m_platforms m0 \<and> m_mode m = m_mode m0 \<and>
     m_protocol m = m_protocol m0 \<and> m_entries m = m_entries m0 \<and> m_parallel m = m_parallel m0 \<and>
     m_idle_timeout_ms m = m_idle_timeout_ms m0 \<and> m_startup_timeout_ms m = m_startup_timeout_ms m0 \<and>
     m_perms m = m_perms m0"
  by (auto simp: parse_header_def parse_conv)

lemma those_all: "those (map f xs) = Some ys \<Longrightarrow> (\<And>x y. x \<in> set xs \<Longrightarrow> f x = Some y \<Longrightarrow> P y) \<Longrightarrow> list_all P ys"
proof (induction xs arbitrary: ys)
  case (Cons x xs)
  then obtain y zs where "f x = Some y" "those (map f xs) = Some zs" "ys = y # zs" by (auto split: option.splits)
  with Cons show ?case by auto
qed simp

lemma platforms_parse:
  assumes "parse_platforms x es m0 = Some m"
  shows "\<exists>ps. m = m0\<lparr>m_platforms := ps\<rparr> \<and> list_all (\<lambda>s. os_name_valid (Some s)) ps"
proof (cases "xf x es ''platforms''")
  case None
  with assms show ?thesis
    by (intro exI [of _ "[''linux'', ''macos'', ''windows'']"]) (simp add: parse_platforms_def os_name_valid_def)
next
  case (Some n)
  with assms obtain items ps where "those (map platform_name items) = Some ps" "m = m0\<lparr>m_platforms := ps\<rparr>"
    by (auto simp: parse_platforms_def parse_conv)
  with those_all [OF this(1), of "\<lambda>s. os_name_valid (Some s)"] show ?thesis by (auto simp: platform_name_def parse_conv)
qed

lemma parse_list_inv:
  assumes step: "\<And>earlier n a. n \<in> set ns \<Longrightarrow> f earlier n = Some a \<Longrightarrow> I earlier \<Longrightarrow> I (earlier @ [a])"
    and "parse_list f earlier ns = Some as" "I earlier"
  shows "I as"
  using assms
proof (induction ns arbitrary: earlier)
  case (Cons n ns)
  from Cons.prems(2) obtain a where a: "f earlier n = Some a" "parse_list f (earlier @ [a]) ns = Some as"
    by (auto split: option.splits)
  have "I (earlier @ [a])" using Cons.prems(1) [OF _ a(1) Cons.prems(3)] by simp
  with Cons.IH [OF _ a(2)] Cons.prems(1) show ?case by auto
qed simp

lemma parse_list_length: "parse_list f earlier ns = Some as \<Longrightarrow> length as = length earlier + length ns"
  by (induction ns arbitrary: earlier) (auto split: option.splits)

lemma entries_parse:
  assumes "parse_list (parse_entry x) [] items = Some es"
  shows "entries_fine es"
proof (rule parse_list_inv [OF _ assms])
  fix earlier n e
  assume p: "parse_entry x earlier n = Some e" and I: "entries_fine earlier"
  have "entry_fine e" "\<forall>e' \<in> set earlier. \<not> (en_os e' = en_os e \<and> en_arch e' = en_arch e)"
  proof -
    obtain its argv where "its \<noteq> []" "those (map node_str its) = Some argv" "en_argv e = argv" "hd argv \<noteq> []"
      "os_name_valid (Some (en_os e))" "arch_name_valid (Some (en_arch e))"
      using p by (auto simp: parse_entry_def parse_conv)
    then show "entry_fine e" by (auto simp: entry_fine_def those_Some_iff)
    show "\<forall>e' \<in> set earlier. \<not> (en_os e' = en_os e \<and> en_arch e' = en_arch e)"
      using p by (auto simp: parse_entry_def parse_conv list_all_iff)
  qed
  with I show "entries_fine (earlier @ [e])" by (auto simp: entries_fine_def)
qed (simp add: entries_fine_def)

lemma period_parse: "node_period n = Some ms \<Longrightarrow> period_fine ms"
  by (auto simp: node_period_def dur_node_ms_def period_fine_def split: option.splits xvalue.splits if_splits)

lemma opt_period_fine: "opt_period ms n = Some p \<Longrightarrow> period_fine ms \<or> n \<noteq> None \<Longrightarrow> period_fine p"
  by (auto simp: opt_period_def dest: period_parse split: option.splits)

lemma runtime_parse:
  assumes "parse_runtime x es m0 = Some m" "runtime_fine m0"
  shows "runtime_fine m \<and> (header_fine m \<longleftrightarrow> header_fine m0) \<and> m_perms m = m_perms m0"
proof (cases "xf x es ''runtime''")
  case None
  with assms have "m = m0" by (simp add: parse_runtime_def)
  then show ?thesis using assms(2) by simp
next
  case (Some n)
  with assms(1) obtain r md pr en pa i st where p: "parse_mode (m_mode m0) (xf x r ''mode'') = Some md"
    "parse_protocol (m_protocol m0) (xf x r ''protocol'') = Some pr"
    "pr = ASTOOLS_PROTOCOL_NATIVE \<or> m_kind m0 = ASTOOLS_KIND_EXECUTABLE \<and> md = ASTOOLS_MODE_PERSISTENT"
    "(case xf x r ''entry'' of None \<Rightarrow> Some (m_entries m0)
      | Some n \<Rightarrow> do { items \<leftarrow> node_array (Some n); parse_list (parse_entry x) [] items }) = Some en"
    "parse_parallel (m_parallel m0) (xf x r ''parallel'') = Some pa"
    "opt_period (m_idle_timeout_ms m0) (xf x r ''idle_timeout'') = Some i"
    "opt_period (m_startup_timeout_ms m0) (xf x r ''startup_timeout'') = Some st"
    and m: "m = m0\<lparr>m_mode := md, m_protocol := pr, m_entries := en, m_parallel := pa,
      m_idle_timeout_ms := i, m_startup_timeout_ms := st\<rparr>"
    by (auto simp: parse_runtime_def parse_conv)
  have "md \<in> {ASTOOLS_MODE_ONESHOT, ASTOOLS_MODE_PERSISTENT}"
    using p(1) assms(2) by (auto simp: parse_mode_def runtime_fine_def split: option.splits if_splits)
  moreover have "pr \<in> {ASTOOLS_PROTOCOL_NATIVE, ASTOOLS_PROTOCOL_LSP, ASTOOLS_PROTOCOL_MCP}"
    using p(2) assms(2) by (auto simp: parse_protocol_def runtime_fine_def split: option.splits if_splits)
  moreover have "entries_fine en"
    using p(4) assms(2) entries_parse by (auto simp: runtime_fine_def parse_conv split: option.splits)
  moreover have "1 \<le> pa"
    using p(5) assms(2) by (auto simp: parse_parallel_def runtime_fine_def split: option.splits xvalue.splits if_splits)
  moreover have "period_fine i" "period_fine st"
    using opt_period_fine [OF p(6)] opt_period_fine [OF p(7)] assms(2) by (auto simp: runtime_fine_def)
  ultimately show ?thesis using p(3) by (simp add: m runtime_fine_def header_fine_def)
qed

lemma opt_items_all:
  assumes "opt_items f n = Some ys" "\<And>i y. f i = Some y \<Longrightarrow> P y"
  shows "list_all P ys"
  using assms those_all [of f _ ys P] by (auto simp: opt_items_def parse_conv split: option.splits)

lemma permissions_parse:
  assumes "parse_permissions x es ws m0 = Some m" "perms_fine (m_perms m0)"
  shows "perms_fine (m_perms m) \<and> (header_fine m \<longleftrightarrow> header_fine m0) \<and> (runtime_fine m \<longleftrightarrow> runtime_fine m0)"
proof (cases "xf x es ''permissions''")
  case None
  with assms have "m = m0" by (simp add: parse_permissions_def)
  then show ?thesis using assms(2) by simp
next
  case (Some n)
  with assms(1) obtain p fs net prc env where p: "opt_items (parse_fs_perm x ws) (xf x p ''fs'') = Some fs"
    "opt_items env_name (xf x p ''env'') = Some env"
    and m: "m = m0\<lparr>m_perms := \<lparr>pm_fs = fs, pm_net = net, pm_proc = prc, pm_env = env\<rparr>\<rparr>"
    by (auto simp: parse_permissions_def parse_conv)
  have "list_all (\<lambda>q. fpath q \<noteq> None \<and> faccess q \<in> {ASTOOLS_ACCESS_READ, ASTOOLS_ACCESS_WRITE, ASTOOLS_ACCESS_RW}) fs"
    by (rule opt_items_all [OF p(1)]) (auto simp: parse_fs_perm_def parse_conv Let_def access_from_string_def split: if_splits)
  moreover have "list_all env_name_valid env"
    by (rule opt_items_all [OF p(2)]) (auto simp: env_name_def parse_conv)
  ultimately show ?thesis by (simp add: m perms_fine_def header_fine_def runtime_fine_def)
qed

lemma type_fine_parse:
  assumes "xcdn_ok x" "doc_ok n" "astools_type_parse tb (x_get x) (Some n) = Some ty"
  shows "type_fine ty"
proof -
  have "lookup_ok (x_get x)" using assms(1) by (simp add: xcdn_ok_def)
  from type_parse_spec [OF this, of "Some n" tb 0 ty] type_parse_shaped [of tb "x_get x" 0 "Some n" ty] assms(2,3)
  show ?thesis by (simp add: astools_type_parse_def type_fine_def)
qed

definition item_docs :: "xnode option list \<Rightarrow> bool" where
  "item_docs ns \<longleftrightarrow> (\<forall>n. Some n \<in> set ns \<longrightarrow> doc_ok n)"

lemma param_fine_parse:
  assumes x: "xcdn_ok x" and item: "\<forall>n. item = Some n \<longrightarrow> doc_ok n" and p: "parse_param tb x earlier item = Some p"
  shows "param_fine p \<and> pname p \<notin> set (map pname earlier)"
proof -
  obtain po name tn ty req d descr where p: "node_object item = Some po" "param_name_valid (Some name)"
    "Some name \<notin> set (map pname earlier)" "xf x po ''type'' = Some tn"
    "astools_type_parse tb (x_get x) (Some tn) = Some ty" "parse_dflt tb x ty req (xf x po ''default'') = Some d"
    "p = AParam (Some name) (Some ty) req d descr"
    using p by (auto simp: parse_param_def parse_conv)
  obtain n where n: "item = Some n" "doc_ok n" using node_inv(1) [OF p(1)] item by blast
  have docs: "nodes_ok po" using node_object_docs [OF n(2)] p(1) n(1) by simp
  have ty: "type_fine ty" by (rule type_fine_parse [OF x xf_doc [OF x docs p(4)] p(5)])
  have l: "lookup_ok (x_get x)" using x by (simp add: xcdn_ok_def)
  have "dflt_ok ty req d"
  proof (cases "xf x po ''default''")
    case None
    with p(6) show ?thesis by (simp add: parse_dflt_def dflt_ok_def)
  next
    case (Some dn)
    have dn: "doc_ok dn" by (rule xf_doc [OF x docs Some])
    with Some p(6) have c: "\<not> req" "astools_type_check tb (x_get x) ty (Some dn) = (ASTOOLS_OK, d)"
      by (auto simp: parse_dflt_def mclone_exact(2) split: if_splits prod.splits)
    have wf: "wf_type ty" using ty by (simp add: type_fine_def)
    have "admits ty (Some dn) d" using type_check_spec(1) [OF l wf, of "Some dn" tb d] dn c(2) by simp
    from admits_fixed [OF wf dn this] obtain d' where "d = Some d'" "doc_ok d'" "admits ty (Some d') (Some d')" by blast
    with c(1) show ?thesis by (simp add: dflt_ok_def)
  qed
  with p ty show ?thesis by (simp add: param_fine_def)
qed

lemma params_fine_parse:
  assumes x: "xcdn_ok x" and n: "doc_ok n" and p: "parse_params tb x (Some n) = Some ps"
  shows "params_fine ps"
proof -
  obtain items where items: "node_array (Some n) = Some items" "parse_list (parse_param tb x) [] items = Some ps"
    using p by (auto simp: parse_params_def parse_conv)
  show ?thesis
  proof (rule parse_list_inv [OF _ items(2)])
    fix earlier i q
    assume i: "i \<in> set items" and q: "parse_param tb x earlier i = Some q" and I: "params_fine earlier"
    have "\<forall>m. i = Some m \<longrightarrow> doc_ok m" using node_list_docs [OF n items(1)] i by auto
    from param_fine_parse [OF x this q] I show "params_fine (earlier @ [q])" by (auto simp: params_fine_def)
  qed (simp add: params_fine_def)
qed

lemma binding_parse:
  "astools_mcp_command_parse x protocol i b = Some (mname, minput, moutput) \<Longrightarrow>
    (if protocol \<noteq> ASTOOLS_PROTOCOL_MCP then mname = None \<and> minput = None \<and> moutput = None
     else \<not> i \<and> mcp_schema minput True \<and> (moutput \<noteq> None \<longrightarrow> mcp_schema moutput False) \<and>
       (\<exists>name. mname = Some name \<and> name \<noteq> [] \<and> length name \<le> 128 \<and> list_all mcp_name_char name))"
  by (auto simp: astools_mcp_command_parse_def parse_conv Let_def node_str_def split: if_splits option.splits)

lemma example_parse:
  assumes x: "xcdn_ok x" and item: "\<forall>n. item = Some n \<longrightarrow> doc_ok n" and e: "parse_example x item = Some e"
  shows "example_fine e"
proof -
  obtain es cn o' call result where p: "node_object item = Some es" "xf x es ''call'' = Some cn" "node_object (Some cn) = Some o'"
    "mclone_node cn = Some call" "ex_call e = call" "ex_result e = result"
    "(case xf x es ''result'' of None \<Rightarrow> Some None | Some rn \<Rightarrow> map_option Some (mclone_node rn)) = Some result"
    using e by (auto simp: parse_example_def parse_conv)
  obtain n where n: "item = Some n" "doc_ok n" using node_inv(1) [OF p(1)] item by blast
  have docs: "nodes_ok es" using node_object_docs [OF n(2)] p(1) n(1) by simp
  have cn: "doc_ok cn" by (rule xf_doc [OF x docs p(2)])
  then have "call = cn" using p(4) mclone_exact(2) by simp
  moreover have "doc_ok r" if "result = Some r" for r
    using that p(7) xf_doc [OF x docs, of "''result''"] mclone_exact(2) by (auto split: option.splits)
  ultimately show ?thesis using p cn by (simp add: example_fine_def)
qed

lemma items_docs:
  assumes "xcdn_ok x" "nodes_ok es" "opt_items f (xf x es k) = Some ys"
    and "\<And>i y. \<forall>n. i = Some n \<longrightarrow> doc_ok n \<Longrightarrow> f i = Some y \<Longrightarrow> P y"
  shows "list_all P ys"
proof (cases "xf x es k")
  case None
  with assms(3) show ?thesis by (simp add: opt_items_def)
next
  case (Some n)
  with assms(3) obtain items where items: "node_array (Some n) = Some items" "those (map f items) = Some ys"
    by (auto simp: opt_items_def parse_conv)
  have "doc_ok n" by (rule xf_doc [OF assms(1,2) Some])
  note docs = node_list_docs [OF this items(1)]
  show ?thesis
  proof (rule those_all [OF items(2)])
    fix i y
    assume "i \<in> set items" "f i = Some y"
    with docs show "P y" by (intro assms(4) [of i]) auto
  qed
qed

lemma command_parse:
  assumes x: "xcdn_ok x" and item: "\<forall>n. item = Some n \<longrightarrow> doc_ok n" and c: "parse_command tb x m earlier item = Some c"
  shows "cmd_fine (m_id m) (m_protocol m) c \<and> c_name c \<notin> set (map c_name earlier)"
proof -
  obtain co name summary descr r d i l deprecated mname minput moutput tmo params rtype rdesc errors examples where
    p: "node_object item = Some co" "astools_slug_valid (Some name)" "name \<notin> set (map c_name earlier)"
    "\<not> astools_str_blank (Some summary)"
    "astools_mcp_command_parse x (m_protocol m) i (xf x co ''mcp'') = Some (mname, minput, moutput)"
    "opt_period 0 (xf x co ''timeout'') = Some tmo"
    "(case xf x co ''params'' of None \<Rightarrow> Some [] | Some pn \<Rightarrow> parse_params tb x (Some pn)) = Some params"
    "parse_returns tb x (xf x co ''returns'') = Some (rtype, rdesc)"
    "opt_items (parse_error x (m_id m)) (xf x co ''errors'') = Some errors"
    "opt_items (parse_example x) (xf x co ''examples'') = Some examples"
    and c: "c = \<lparr>c_name = name, c_mcp_name = mname, c_mcp_input_schema = minput, c_mcp_output_schema = moutput,
         c_summary = summary, c_description = descr, c_read_only = r, c_destructive = d, c_idempotent = i,
         c_long_running = l, c_deprecated = deprecated, c_timeout_ms = tmo, c_params = params,
         c_returns_type = rtype, c_returns_desc = rdesc, c_errors = errors, c_examples = examples\<rparr>"
    using c by (auto simp: parse_command_def parse_conv)
  obtain n where n: "item = Some n" "doc_ok n" using node_inv(1) [OF p(1)] item by blast
  have docs: "nodes_ok co" using node_object_docs [OF n(2)] p(1) n(1) by simp
  have "tmo = 0 \<or> period_fine tmo" using p(6) by (auto simp: opt_period_def dest: period_parse split: option.splits)
  moreover have "params_fine params"
    using p(7) params_fine_parse [OF x xf_doc [OF x docs]] by (auto simp: params_fine_def split: option.splits)
  moreover have "case rtype of None \<Rightarrow> rdesc = None | Some t \<Rightarrow> type_fine t"
  proof (cases "xf x co ''returns''")
    case (Some rn)
    then obtain es tn where es: "node_object (Some rn) = Some es" "xf x es ''type'' = Some tn" "rtype \<noteq> None"
      "astools_type_parse tb (x_get x) (Some tn) = rtype"
      using p(8) by (auto simp: parse_returns_def parse_conv)
    have "nodes_ok es" by (rule node_object_docs [OF xf_doc [OF x docs Some] es(1)])
    from type_fine_parse [OF x xf_doc [OF x this es(2)]] es(3,4) show ?thesis by auto
  qed (use p(8) in \<open>simp add: parse_returns_def\<close>)
  moreover have "list_all (\<lambda>e. error_code_ok (m_id m) (ed_code e)) errors"
    by (rule items_docs [OF x docs p(9)]) (auto simp: parse_error_def parse_conv)
  moreover have "list_all example_fine examples"
    by (rule items_docs [OF x docs p(10)]) (rule example_parse [OF x])
  moreover have "binding_fine (m_protocol m) c" using binding_parse [OF p(5)] by (simp add: binding_fine_def c)
  ultimately show ?thesis using p(2-4) by (cases rtype) (simp_all add: cmd_fine_def c)
qed

lemma manifest_fine_parse:
  assumes x: "xcdn_ok x" and doc: "doc_ok n" and m: "manifest_of_root tb x ws n = Some m"
  shows "manifest_fine m"
proof -
  obtain es m1 m2 m3 m4 items cmds where es: "node_object (Some n) = Some es"
    and m1: "parse_header x es manifest_new = Some m1" and m2: "parse_platforms x es m1 = Some m2"
    and m3: "parse_runtime x es m2 = Some m3" and m4: "parse_permissions x es ws m3 = Some m4"
    and items: "node_array (xf x es ''commands'') = Some items" "items \<noteq> []"
    and cmds: "parse_list (parse_command tb x m4) [] items = Some cmds"
    and m: "m = m4\<lparr>m_commands := cmds\<rparr>" "astools_lsp_manifest_valid m"
    using m by (auto simp: manifest_of_root_def parse_conv parse_commands_def)
  have docs: "nodes_ok es" by (rule node_object_docs [OF doc es])
  note rest = header_rest [OF m1]
  have h1: "header_fine m1" using header_fine_parse [OF m1] rest by (simp add: manifest_new_def)
  obtain ps where ps: "m2 = m1\<lparr>m_platforms := ps\<rparr>" "list_all (\<lambda>s. os_name_valid (Some s)) ps"
    using platforms_parse [OF m2] by blast
  have h2: "header_fine m2" using h1 ps by (simp add: header_fine_def)
  have r2: "runtime_fine m2" "perms_fine (m_perms m2)"
    using rest by (simp_all add: ps(1) runtime_fine_def perms_fine_def manifest_new_def entries_fine_def period_fine_def
        ASTOOLS_PERIOD_MAX_MS_def ASTOOLS_PROTOCOL_NATIVE_def)
  have r3: "runtime_fine m3" "header_fine m3" "perms_fine (m_perms m3)"
    using runtime_parse [OF m3 r2(1)] h2 r2(2) by simp_all
  have r4: "perms_fine (m_perms m4)" "header_fine m4" "runtime_fine m4"
    using permissions_parse [OF m4 r3(3)] r3 by simp_all
  obtain cn where cn: "xf x es ''commands'' = Some cn" using node_inv(2) [OF items(1)] by blast
  have "distinct (map c_name cmds) \<and> list_all (cmd_fine (m_id m4) (m_protocol m4)) cmds"
  proof (rule parse_list_inv [OF _ cmds])
    fix earlier i c
    assume i: "i \<in> set items" and c: "parse_command tb x m4 earlier i = Some c"
      and I: "distinct (map c_name earlier) \<and> list_all (cmd_fine (m_id m4) (m_protocol m4)) earlier"
    have "\<forall>q. i = Some q \<longrightarrow> doc_ok q"
      using node_list_docs [OF xf_doc [OF x docs cn]] items(1) i cn by auto
    from command_parse [OF x this c] I
    show "distinct (map c_name (earlier @ [c])) \<and> list_all (cmd_fine (m_id m4) (m_protocol m4)) (earlier @ [c])" by auto
  qed simp
  moreover have "cmds \<noteq> []" using parse_list_length [OF cmds] items(2) by auto
  ultimately show ?thesis using r4 m(2) by (simp add: m(1) manifest_fine_def header_fine_def runtime_fine_def)
qed

section \<open>Reading a rendering back\<close>

lemma node_reads [simp]:
  "node_object (Some (tagged_obj_node tag fs)) = Some (entries_in fs)"
  "node_array (Some (arr_node ns)) = Some (map Some ns)"
  "node_str (Some (str_node s)) = Some s"
  by (simp_all add: node_object_def node_array_def node_str_def tagged_obj_node_def obj_of_def arr_node_def str_node_def
      wrap_value_def val_string_def)

lemma look_fields:
  assumes "xcdn_ok x" "dkeys fs"
  shows "xf x (entries_in fs) k = map_of fs k"
  using assms xfind_obj by (simp add: xcdn_ok_def)

lemma opt_string_back:
  "xf x es k = map_option str_node v \<Longrightarrow> get_opt_string x es k = Some v"
  by (cases v) (simp_all add: get_opt_string_def)

lemma opt_bool_back:
  "xf x es k = (if b then Some (bool_node True) else None) \<Longrightarrow> get_opt_bool x es k False = Some b"
  "xf x es k = Some (bool_node b) \<Longrightarrow> get_opt_bool x es k d = Some b"
  by (simp_all add: get_opt_bool_def)

lemma period_back: "period_fine ms \<Longrightarrow> node_period (dur_node ms) = Some ms"
proof -
  assume ms: "period_fine ms"
  then have "int (nat ms) \<le> INT64_MAX" by (simp add: period_fine_def ASTOOLS_PERIOD_MAX_MS_def INT64_MAX_def)
  from duration_parse_rendered [OF this] ms show ?thesis
    by (simp add: node_period_def dur_node_def dur_node_ms_def period_fine_def)
qed

lemma strv_back: "those (map node_str (map Some (map str_node ss))) = Some ss"
  by (simp add: those_Some_iff comp_def)

lemma those_back: "(\<And>a. a \<in> set as \<Longrightarrow> f (Some (g a)) = Some a) \<Longrightarrow> those (map f (map Some (map g as))) = Some as"
  by (simp add: those_Some_iff comp_def)

text \<open>Items parsed one after the other, each against those before it.\<close>

lemma parse_list_back:
  assumes "\<And>pre a post n. all = pre @ a # post \<Longrightarrow> g a = Some n \<Longrightarrow> f pre (Some n) = Some a"
    and "those (map g as) = Some ns" "all = pre @ as"
  shows "parse_list f pre (map Some ns) = Some all"
  using assms(2,3)
proof (induction as arbitrary: pre ns)
  case (Cons a as)
  then obtain n ms where n: "g a = Some n" "those (map g as) = Some ms" "ns = n # ms" by (auto split: option.splits)
  have "f pre (Some n) = Some a" by (rule assms(1) [OF Cons.prems(2) n(1)])
  then show ?case using Cons.IH [OF n(2), of "pre @ [a]"] Cons.prems(2) n(3) by simp
qed simp

lemma distinct_split: "distinct (map h (pre @ a # post)) \<Longrightarrow> h a \<notin> h ` set pre"
  by auto

lemma entry_back:
  assumes x: "xcdn_ok x" and e: "entry_fine e" "(en_os e, en_arch e) \<notin> (\<lambda>e. (en_os e, en_arch e)) ` set pre"
  shows "parse_entry x pre (Some (render_entry e)) = Some e"
proof -
  let ?fs = "[(''os'', str_node (en_os e)), (''arch'', str_node (en_arch e)), (''argv'', render_strv (en_argv e))]"
  have look: "xf x (entries_in ?fs) k = map_of ?fs k" for k by (rule look_fields [OF x]) simp
  have f: "xf x (entries_in ?fs) ''os'' = Some (str_node (en_os e))" "xf x (entries_in ?fs) ''arch'' = Some (str_node (en_arch e))"
    "xf x (entries_in ?fs) ''argv'' = Some (render_strv (en_argv e))"
    by (simp_all only: look) simp_all
  have "list_all (\<lambda>d. \<not> (en_os d = en_os e \<and> en_arch d = en_arch e)) pre" using e(2) unfolding list_all_iff image_iff by auto
  then show ?thesis
    using e(1) strv_back [of "en_argv e"]
    unfolding parse_entry_def render_entry_def node_reads bind.simps f
    by (simp add: render_strv_def entry_fine_def)
qed

lemma entries_back:
  assumes "xcdn_ok x" "entries_fine es"
  shows "parse_list (parse_entry x) [] (map Some (map render_entry es)) = Some es"
proof (rule parse_list_back [where g = "\<lambda>e. Some (render_entry e)" and as = es])
  fix pre e post n
  assume a: "es = pre @ e # post" "Some (render_entry e) = Some n"
  have "(en_os e, en_arch e) \<notin> (\<lambda>e. (en_os e, en_arch e)) ` set pre"
    using assms(2) unfolding entries_fine_def a(1) by (intro distinct_split) (elim conjE)
  moreover have "entry_fine e" using assms(2) by (simp add: entries_fine_def a(1))
  moreover have "n = render_entry e" using a(2) by simp
  ultimately show "parse_entry x pre (Some n) = Some e" by (simp only:) (rule entry_back [OF assms(1)])
qed (simp_all add: those_Some_iff)

lemma runtime_back:
  assumes x: "xcdn_ok x" and m: "runtime_fine m" and look: "xf x es ''runtime'' = Some (render_runtime m)"
    and k: "m_kind m0 = m_kind m"
  shows "parse_runtime x es m0 = Some (m0\<lparr>m_mode := m_mode m, m_protocol := m_protocol m, m_entries := m_entries m,
      m_parallel := m_parallel m, m_idle_timeout_ms := m_idle_timeout_ms m, m_startup_timeout_ms := m_startup_timeout_ms m\<rparr>)"
proof -
  let ?r = "entries_in (runtime_fields m)"
  have l: "xf x ?r k = map_of (runtime_fields m) k" for k by (rule look_fields [OF x]) (simp add: runtime_fields_def)
  have f: "xf x ?r ''protocol'' = Some (str_node (if m_protocol m = ASTOOLS_PROTOCOL_LSP then ''lsp''
         else if m_protocol m = ASTOOLS_PROTOCOL_MCP then ''mcp'' else ''astools''))"
    "xf x ?r ''mode'' = Some (str_node (if m_mode m = ASTOOLS_MODE_PERSISTENT then ''persistent'' else ''oneshot''))"
    "xf x ?r ''entry'' = Some (arr_node (map render_entry (m_entries m)))"
    "xf x ?r ''parallel'' = Some (int_node (m_parallel m))"
    "xf x ?r ''idle_timeout'' = Some (dur_node (m_idle_timeout_ms m))"
    "xf x ?r ''startup_timeout'' = Some (dur_node (m_startup_timeout_ms m))"
    by (simp_all only: l) (simp_all add: runtime_fields_def)
  have mode: "parse_mode md (xf x ?r ''mode'') = Some (m_mode m)" for md
    using m by (auto simp: f parse_mode_def runtime_fine_def ASTOOLS_MODE_PERSISTENT_def ASTOOLS_MODE_ONESHOT_def)
  have proto: "parse_protocol pr (xf x ?r ''protocol'') = Some (m_protocol m)" for pr
    using m by (auto simp: f parse_protocol_def runtime_fine_def ASTOOLS_PROTOCOL_NATIVE_def ASTOOLS_PROTOCOL_LSP_def
        ASTOOLS_PROTOCOL_MCP_def)
  have ent: "parse_list (parse_entry x) [] (map Some (map render_entry (m_entries m))) = Some (m_entries m)"
    using entries_back [OF x] m by (simp add: runtime_fine_def)
  have par: "parse_parallel pa (xf x ?r ''parallel'') = Some (m_parallel m)" for pa
    using m by (simp add: f parse_parallel_def runtime_fine_def)
  have per: "opt_period d (xf x ?r ''idle_timeout'') = Some (m_idle_timeout_ms m)"
    "opt_period d (xf x ?r ''startup_timeout'') = Some (m_startup_timeout_ms m)" for d
    using m period_back by (simp_all add: f opt_period_def runtime_fine_def)
  have en: "ensure (m_protocol m = ASTOOLS_PROTOCOL_NATIVE \<or> m_kind m0 = ASTOOLS_KIND_EXECUTABLE \<and> m_mode m = ASTOOLS_MODE_PERSISTENT)
      = Some ()"
    using m by (simp add: runtime_fine_def k)
  show ?thesis
    unfolding parse_runtime_def look option.case render_runtime_def node_reads bind.simps mode proto en f(3) ent par per ..
qed

lemma access_back: "access_to_string a = Some s \<Longrightarrow> access_from_string (Some s) = a"
  by (auto simp: access_to_string_def access_from_string_def split: if_splits)

lemma fs_perm_back:
  assumes x: "xcdn_ok x" and q: "fpath q \<noteq> Some []" "render_fs_perm q = Some n"
  shows "parse_fs_perm x None (Some n) = Some q"
proof -
  obtain acc p where p: "access_to_string (faccess q) = Some acc" "fpath q = Some p"
    "n = tagged_obj_node None [(''path'', str_node p), (''access'', str_node acc)]"
    using q(2) by (auto simp: render_fs_perm_def split: option.splits)
  let ?fs = "[(''path'', str_node p), (''access'', str_node acc)]"
  have look: "xf x (entries_in ?fs) k = map_of ?fs k" for k by (rule look_fields [OF x]) simp
  have f: "xf x (entries_in ?fs) ''path'' = Some (str_node p)" "xf x (entries_in ?fs) ''access'' = Some (str_node acc)"
    by (simp_all only: look) simp_all
  have "faccess q \<noteq> 0" using p(1) by (auto simp: access_to_string_def ASTOOLS_ACCESS_READ_def ASTOOLS_ACCESS_WRITE_def
        ASTOOLS_ACCESS_RW_def split: if_splits)
  then show ?thesis
    using q(1) p(2) access_back [OF p(1)] unfolding parse_fs_perm_def p(3) node_reads bind.simps f
    by (cases q) (simp add: expand_workspace_def Let_def)
qed

lemma opt_items_back:
  assumes "those (map g as) = Some ns" "\<And>a n. a \<in> set as \<Longrightarrow> g a = Some n \<Longrightarrow> f (Some n) = Some a"
  shows "opt_items f (Some (arr_node ns)) = Some as" "opt_items f (arr_opt ns) = Some as"
proof -
  have *: "those (map f (map Some ns)) = Some as"
    using assms
  proof (induction as arbitrary: ns)
    case (Cons a as)
    then obtain n ms where n: "g a = Some n" "those (map g as) = Some ms" "ns = n # ms" by (auto split: option.splits)
    have "f (Some n) = Some a" using Cons.prems(2) [OF _ n(1)] by simp
    then show ?case using Cons.IH [OF n(2)] Cons.prems(2) n(3) by simp
  qed simp
  show "opt_items f (Some (arr_node ns)) = Some as" using * by (simp add: opt_items_def)
  show "opt_items f (arr_opt ns) = Some as" using * by (cases ns) (simp_all add: opt_items_def arr_opt_def)
qed

lemma permissions_back:
  assumes x: "xcdn_ok x" and p: "perms_fine p" "\<forall>q \<in> set (pm_fs p). fpath q \<noteq> Some []"
    and r: "render_permissions p = Some n" and look: "xf x es ''permissions'' = Some n"
  shows "parse_permissions x es None m0 = Some (m0\<lparr>m_perms := p\<rparr>)"
proof -
  obtain fs env where fs: "those (map render_fs_perm (pm_fs p)) = Some fs" and env: "those (pm_env p) = Some env"
    and n: "n = tagged_obj_node None (permission_fields fs (pm_net p) (pm_proc p) env)"
    using r by (auto simp: render_permissions_def parse_conv)
  let ?p = "entries_in (permission_fields fs (pm_net p) (pm_proc p) env)"
  have l: "xf x ?p k = map_of (permission_fields fs (pm_net p) (pm_proc p) env) k" for k
    by (rule look_fields [OF x]) (simp add: permission_fields_def)
  have f: "xf x ?p ''fs'' = Some (arr_node fs)" "xf x ?p ''net'' = Some (bool_node (pm_net p))"
    "xf x ?p ''proc'' = Some (bool_node (pm_proc p))" "xf x ?p ''env'' = Some (render_strv env)"
    by (simp_all only: l) (simp_all add: permission_fields_def)
  have a: "opt_items (parse_fs_perm x None) (xf x ?p ''fs'') = Some (pm_fs p)"
    unfolding f by (rule opt_items_back(1) [OF fs]) (use fs_perm_back [OF x] p(2) in auto)
  have pe: "pm_env p = map Some env" using env those_Some_iff [of id "pm_env p" env] by simp
  have "env_name_valid (Some s)" if "s \<in> set env" for s
    using p(1) that by (simp add: perms_fine_def pe list_all_iff)
  then have "those (map env_name (map Some (map str_node env))) = Some (map Some env)"
    by (auto simp: those_Some_iff env_name_def comp_def)
  then have b: "opt_items env_name (xf x ?p ''env'') = Some (pm_env p)"
    by (simp add: f opt_items_def render_strv_def pe)
  have c: "get_opt_bool x ?p ''net'' d = Some (pm_net p)" "get_opt_bool x ?p ''proc'' d = Some (pm_proc p)" for d
    by (rule opt_bool_back(2), rule f)+
  show ?thesis unfolding parse_permissions_def look option.case n node_reads bind.simps a b c by simp
qed

definition exact_param :: "astools_param \<Rightarrow> bool" where
  "exact_param p \<longleftrightarrow> (case ptype p of None \<Rightarrow> True | Some t \<Rightarrow> exact_type t)"

lemma render_params_list: "render_params ps = those (map (\<lambda>p. Option.bind (render_params [p]) (\<lambda>ns. Some (hd ns))) ps)"
proof (induction ps)
  case (Cons p ps)
  then show ?case
    by (cases p) (auto simp: map_option_case split: option.splits)
qed simp

lemma render_type_back:
  assumes "xcdn_ok x" "type_fine t" "exact_type t"
  shows "\<exists>n. render_type t = Some n \<and> astools_type_parse tb (x_get x) (Some n) = Some t"
proof -
  have "lookup_ok (x_get x)" using assms(1) by (simp add: xcdn_ok_def)
  from type_back(1) [OF this, of t 0 tb] assms(2,3) show ?thesis
    by (simp add: type_fine_def astools_type_parse_def)
qed

lemma manifest_param_back:
  assumes x: "xcdn_ok x" and p: "param_fine p" "exact_param p" "pname p \<notin> pname ` set pre"
    and n: "Option.bind (render_params [p]) (\<lambda>ns. Some (hd ns)) = Some n"
  shows "parse_param tb x pre (Some n) = Some p"
proof -
  obtain name t req d descr where q: "p = AParam (Some name) (Some t) req d descr" "param_name_valid (Some name)"
    "type_fine t" "dflt_ok t req d" using p(1) by (auto simp: param_fine_def)
  have wf: "wf_type t" using q(3) by (simp add: type_fine_def)
  have et: "exact_type t" using p(2) by (simp add: exact_param_def q(1))
  obtain tn where tn: "render_type t = Some tn" "astools_type_parse tb (x_get x) (Some tn) = Some t"
    using render_type_back [OF x q(3) et] by blast
  have c: "clone_opt d = Some d" by (rule clone_opt_exact) (use q(4) in \<open>simp add: dflt_ok_def split: option.splits\<close>)
  have n: "n = tagged_obj_node (Some ''param'') (param_fields name tn req d descr)"
    using n by (simp add: q(1) tn(1) c param_node_def param_fields_def)
  let ?es = "entries_in (param_fields name tn req d descr)"
  have look: "xf x ?es k = map_of (param_fields name tn req d descr) k" for k
    by (rule look_fields [OF x]) (auto simp: param_fields_def)
  have f: "xf x ?es ''name'' = Some (str_node name)" "xf x ?es ''type'' = Some tn"
    "xf x ?es ''required'' = (if req then Some (bool_node True) else None)"
    "xf x ?es ''description'' = map_option str_node descr" "xf x ?es ''default'' = d"
    by (simp_all only: look) (simp_all add: param_fields_def)
  have l: "lookup_ok (x_get x)" using x by (simp add: xcdn_ok_def)
  have dflt: "parse_dflt tb x t req d = Some d"
  proof (cases d)
    case (Some dn)
    then have dn: "\<not> req" "doc_ok dn" "admits t (Some dn) (Some dn)" using q(4) by (simp_all add: dflt_ok_def)
    moreover have "astools_type_check tb (x_get x) t (Some dn) = (ASTOOLS_OK, Some dn)"
      using type_check_spec(1) [OF l wf, of "Some dn" tb "Some dn"] dn by simp
    ultimately show ?thesis using Some by (simp add: parse_dflt_def mclone_exact)
  qed (simp add: parse_dflt_def)
  have new: "Some name \<notin> set (map pname pre)" using p(3) by (simp add: q(1))
  show ?thesis
    unfolding parse_param_def n node_reads bind.simps f dflt opt_string_back [OF f(4)] opt_bool_back(1) [OF f(3)] tn(2)
    using q(2) new by (simp add: q(1))
qed

lemma params_back:
  assumes x: "xcdn_ok x" and ps: "params_fine ps" "\<forall>p \<in> set ps. exact_param p" "render_params ps = Some ns"
  shows "parse_list (parse_param tb x) [] (map Some ns) = Some ps"
proof (rule parse_list_back [OF _ ps(3) [unfolded render_params_list [of ps]]])
  fix pre p post n
  assume a: "ps = pre @ p # post" and n: "Option.bind (render_params [p]) (\<lambda>ns. Some (hd ns)) = Some n"
  have "pname p \<notin> pname ` set pre" using ps(1) unfolding params_fine_def a by (intro distinct_split) (elim conjE)
  moreover have "param_fine p" "exact_param p" using ps(1,2) by (simp_all add: params_fine_def a)
  ultimately show "parse_param tb x pre (Some n) = Some p" using manifest_param_back [OF x _ _ _ n] by blast
qed simp

lemma binding_back:
  assumes x: "xcdn_ok x" and c: "binding_fine protocol c" and r: "render_binding c = Some b"
  shows "astools_mcp_command_parse x protocol (c_idempotent c) b =
    Some (c_mcp_name c, c_mcp_input_schema c, c_mcp_output_schema c)"
proof (cases "protocol = ASTOOLS_PROTOCOL_MCP")
  case False
  with c r show ?thesis by (simp add: binding_fine_def render_binding_def astools_mcp_command_parse_def)
next
  case True
  with c obtain name where name: "c_mcp_name c = Some name" "name \<noteq> []" "length name \<le> 128" "list_all mcp_name_char name"
    and b: "\<not> c_idempotent c" "mcp_schema (c_mcp_input_schema c) True"
      "c_mcp_output_schema c \<noteq> None \<longrightarrow> mcp_schema (c_mcp_output_schema c) False"
    by (auto simp: binding_fine_def)
  obtain input where input: "c_mcp_input_schema c = Some input" using b(2) by (auto simp: mcp_schema_def split: option.splits)
  let ?fs = "[(''name'', str_node name), (''input_schema'', str_node input)] @
           fopt ''output_schema'' (map_option str_node (c_mcp_output_schema c))"
  have n: "b = Some (tagged_obj_node None ?fs)" using r by (simp add: render_binding_def name(1) input)
  have look: "xf x (entries_in ?fs) k = map_of ?fs k" for k by (rule look_fields [OF x]) simp
  have f: "xf x (entries_in ?fs) ''name'' = Some (str_node name)" "xf x (entries_in ?fs) ''input_schema'' = Some (str_node input)"
    "xf x (entries_in ?fs) ''output_schema'' = map_option str_node (c_mcp_output_schema c)"
    by (simp_all only: look) simp_all
  have len: "length (entries_in ?fs) = (if c_mcp_output_schema c \<noteq> None then 3 else 2)"
    by (cases "c_mcp_output_schema c") (simp_all add: fopt_def)
  have out: "node_str (map_option str_node (c_mcp_output_schema c)) = c_mcp_output_schema c"
  proof (cases "c_mcp_output_schema c")
    case None
    then show ?thesis by (simp add: node_str_def)
  qed simp
  show ?thesis
    unfolding astools_mcp_command_parse_def n node_reads bind.simps f Let_def out len
    using True name b by (simp add: input)
qed

lemma returns_back:
  assumes x: "xcdn_ok x" and c: "case c_returns_type c of None \<Rightarrow> c_returns_desc c = None | Some t \<Rightarrow> type_fine t \<and> exact_type t"
    and r: "render_returns c = Some rn"
  shows "parse_returns tb x rn = Some (c_returns_type c, c_returns_desc c)"
proof (cases "c_returns_type c")
  case None
  with c r show ?thesis by (simp add: render_returns_def parse_returns_def)
next
  case (Some t)
  with c obtain tn where tn: "render_type t = Some tn" "astools_type_parse tb (x_get x) (Some tn) = Some t"
    using render_type_back [OF x] by auto
  let ?fs = "(''type'', tn) # fopt ''description'' (map_option str_node (c_returns_desc c))"
  have n: "rn = Some (tagged_obj_node None ?fs)" using r Some tn(1) by (simp add: render_returns_def)
  have look: "xf x (entries_in ?fs) k = map_of ?fs k" for k by (rule look_fields [OF x]) simp
  have f: "xf x (entries_in ?fs) ''type'' = Some tn" "xf x (entries_in ?fs) ''description'' = map_option str_node (c_returns_desc c)"
    by (simp_all only: look) simp_all
  show ?thesis
    unfolding parse_returns_def n option.case node_reads bind.simps f(1) tn(2) opt_string_back [OF f(2)] Some ..
qed

lemma error_back:
  assumes x: "xcdn_ok x" and e: "error_code_ok ident (ed_code e)"
  shows "parse_error x ident (Some (render_error e)) = Some e"
proof -
  let ?fs = "(''code'', str_node (ed_code e)) # fopt ''description'' (map_option str_node (ed_description e))"
  have look: "xf x (entries_in ?fs) k = map_of ?fs k" for k by (rule look_fields [OF x]) simp
  have f: "xf x (entries_in ?fs) ''code'' = Some (str_node (ed_code e))"
    "xf x (entries_in ?fs) ''description'' = map_option str_node (ed_description e)"
    by (simp_all only: look) simp_all
  show ?thesis
    unfolding parse_error_def render_error_def node_reads bind.simps f(1) opt_string_back [OF f(2)] using e by simp
qed

lemma example_back:
  assumes x: "xcdn_ok x" and e: "example_fine e" and r: "render_example e = Some n"
  shows "parse_example x (Some n) = Some e"
proof -
  have d: "mclone_node (ex_call e) = Some (ex_call e)" "clone_opt (ex_result e) = Some (ex_result e)"
    using e by (auto simp: example_fine_def mclone_exact intro!: clone_opt_exact)
  let ?fs = "example_fields (ex_title e) (ex_call e) (ex_result e) (ex_note e)"
  have n: "n = tagged_obj_node (Some ''example'') ?fs" using r d by (simp add: render_example_def)
  have look: "xf x (entries_in ?fs) k = map_of ?fs k" for k by (rule look_fields [OF x]) (auto simp: example_fields_def)
  have f: "xf x (entries_in ?fs) ''title'' = map_option str_node (ex_title e)" "xf x (entries_in ?fs) ''call'' = Some (ex_call e)"
    "xf x (entries_in ?fs) ''result'' = ex_result e" "xf x (entries_in ?fs) ''note'' = map_option str_node (ex_note e)"
    by (simp_all only: look) (simp_all add: example_fields_def)
  have res: "(case ex_result e of None \<Rightarrow> Some None | Some rn \<Rightarrow> map_option Some (mclone_node rn)) = Some (ex_result e)"
    using d(2) by (simp add: clone_opt_def)
  obtain es where "node_object (Some (ex_call e)) = Some es" using e by (auto simp: example_fine_def)
  then show ?thesis
    unfolding parse_example_def n node_reads bind.simps f opt_string_back [OF f(1)] opt_string_back [OF f(4)] d(1) res
    by simp
qed

definition exact_cmd :: "astools_cmd \<Rightarrow> bool" where
  "exact_cmd c \<longleftrightarrow> list_all exact_param (c_params c) \<and>
     (case c_returns_type c of None \<Rightarrow> True | Some t \<Rightarrow> exact_type t)"

definition exact_manifest :: "astools_manifest \<Rightarrow> bool" where
  "exact_manifest m \<longleftrightarrow> list_all exact_cmd (m_commands m) \<and> list_all (\<lambda>q. fpath q \<noteq> Some []) (pm_fs (m_perms m))"

lemma dkeys_optional:
  "j \<in> keys_of (fopt k v) \<longleftrightarrow> j = k \<and> v \<noteq> None" "j \<in> keys_of (bound_field k b n) \<longleftrightarrow> j = k \<and> b"
  "dkeys (fopt k v @ fs) \<longleftrightarrow> dkeys fs \<and> (v \<noteq> None \<longrightarrow> k \<notin> keys_of fs)"
  "dkeys (bound_field k b n @ fs) \<longleftrightarrow> dkeys fs \<and> (b \<longrightarrow> k \<notin> keys_of fs)"
  by auto

lemma command_dkeys: "dkeys (command_fields c b ps r ex)"
  by (simp add: command_fields_def dkeys_optional del: dkeys_simps(3) keys_of_simps(4) field_simps(7))

lemma annotations_back:
  assumes x: "xcdn_ok x"
    and a: "a = (if c_read_only c \<or> c_destructive c \<or> c_idempotent c \<or> c_long_running c
      then Some (tagged_obj_node None (annotation_fields c)) else None)"
  shows "parse_annotations x a = Some (c_read_only c, c_destructive c, c_idempotent c, c_long_running c)"
proof (cases "c_read_only c \<or> c_destructive c \<or> c_idempotent c \<or> c_long_running c")
  case True
  let ?es = "entries_in (annotation_fields c)"
  have look: "xf x ?es k = map_of (annotation_fields c) k" for k by (rule look_fields [OF x]) (simp add: annotation_fields_def)
  have f: "xf x ?es ''read_only'' = Some (bool_node (c_read_only c))" "xf x ?es ''destructive'' = Some (bool_node (c_destructive c))"
    "xf x ?es ''idempotent'' = Some (bool_node (c_idempotent c))" "xf x ?es ''long_running'' = Some (bool_node (c_long_running c))"
    by (simp_all only: look) (simp_all add: annotation_fields_def)
  have n: "a = Some (tagged_obj_node None (annotation_fields c))" using a True by simp
  show ?thesis
    unfolding parse_annotations_def n option.case node_reads bind.simps f [THEN opt_bool_back(2)] by simp
qed (simp add: a parse_annotations_def)

lemma command_back:
  assumes x: "xcdn_ok x" and c: "cmd_fine (m_id m) (m_protocol m) c" "exact_cmd c" "c_name c \<notin> c_name ` set pre"
    and r: "render_command c = Some n"
  shows "parse_command tb x m pre (Some n) = Some c"
proof -
  obtain b ps rn ex where b: "render_binding c = Some b" and ps: "render_params (c_params c) = Some ps"
    and rn: "render_returns c = Some rn" and ex: "those (map render_example (c_examples c)) = Some ex"
    and n: "n = tagged_obj_node (Some ''command'') (command_fields c b ps rn ex)"
    using r by (auto simp: render_command_def parse_conv)
  let ?fs = "command_fields c b ps rn ex"
  let ?es = "entries_in ?fs"
  note look = look_fields [OF x command_dkeys, of c b ps rn ex]
  have f: "xf x ?es ''name'' = Some (str_node (c_name c))" "xf x ?es ''mcp'' = b" "xf x ?es ''summary'' = Some (str_node (c_summary c))"
    "xf x ?es ''description'' = map_option str_node (c_description c)" by (simp_all only: look) (simp_all add: command_fields_def)
  have fa: "xf x ?es ''annotations'' = (if c_read_only c \<or> c_destructive c \<or> c_idempotent c \<or> c_long_running c
      then Some (tagged_obj_node None (annotation_fields c)) else None)" by (simp only: look) (simp add: command_fields_def)
  have ft: "xf x ?es ''timeout'' = (if c_timeout_ms c > 0 then Some (dur_node (c_timeout_ms c)) else None)"
    by (simp only: look) (simp add: command_fields_def)
  have g: "xf x ?es ''params'' = arr_opt ps" "xf x ?es ''returns'' = rn" "xf x ?es ''errors'' = arr_opt (map render_error (c_errors c))"
    "xf x ?es ''examples'' = arr_opt ex" by (simp_all only: look) (simp_all add: command_fields_def)
  have fd: "xf x ?es ''deprecated'' = (if c_deprecated c then Some (bool_node True) else None)"
    by (simp only: look) (simp add: command_fields_def)
  have an: "parse_annotations x (xf x ?es ''annotations'') =
      Some (c_read_only c, c_destructive c, c_idempotent c, c_long_running c)" by (rule annotations_back [OF x fa])
  have bi: "astools_mcp_command_parse x (m_protocol m) (c_idempotent c) b =
      Some (c_mcp_name c, c_mcp_input_schema c, c_mcp_output_schema c)"
    by (rule binding_back [OF x _ b]) (use c(1) in \<open>simp add: cmd_fine_def\<close>)
  have ti: "opt_period 0 (xf x ?es ''timeout'') = Some (c_timeout_ms c)"
    using c(1) period_back [of "c_timeout_ms c"] by (auto simp: ft opt_period_def cmd_fine_def period_fine_def)
  have list: "parse_list (parse_param tb x) [] (map Some ps) = Some (c_params c)"
    by (rule params_back [OF x _ _ ps]) (use c(1,2) in \<open>simp_all add: cmd_fine_def exact_cmd_def list_all_iff\<close>)
  have pa: "(case arr_opt ps of None \<Rightarrow> Some [] | Some pn \<Rightarrow> parse_params tb x (Some pn)) = Some (c_params c)"
    using list by (cases ps) (simp_all add: arr_opt_def parse_params_def)
  have re: "parse_returns tb x rn = Some (c_returns_type c, c_returns_desc c)"
    by (rule returns_back [OF x _ rn]) (use c(1,2) in \<open>simp add: cmd_fine_def exact_cmd_def split: option.splits\<close>)
  have er: "opt_items (parse_error x (m_id m)) (arr_opt (map render_error (c_errors c))) = Some (c_errors c)"
    by (rule opt_items_back(2) [where g = "\<lambda>e. Some (render_error e)"])
      (use c(1) error_back [OF x] in \<open>auto simp: those_Some_iff cmd_fine_def list_all_iff\<close>)
  have exs: "opt_items (parse_example x) (arr_opt ex) = Some (c_examples c)"
    by (rule opt_items_back(2) [OF ex]) (use c(1) example_back [OF x] in \<open>auto simp: cmd_fine_def list_all_iff\<close>)
  have new: "ensure (c_name c \<notin> set (map c_name pre)) = Some ()" using c(3) by simp
  have ok: "ensure (astools_slug_valid (Some (c_name c))) = Some ()" "ensure (\<not> astools_str_blank (Some (c_summary c))) = Some ()"
    using c(1) by (simp_all add: cmd_fine_def)
  show ?thesis
    unfolding parse_command_def n node_reads bind.simps f(1,2,3) opt_string_back [OF f(4)] an prod.case
      opt_bool_back(1) [OF fd] bi ti g pa re er exs new ok by simp
qed

lemma commands_back:
  assumes x: "xcdn_ok x" and c: "list_all (cmd_fine (m_id m) (m_protocol m)) cs" "list_all exact_cmd cs" "distinct (map c_name cs)"
    and r: "those (map render_command cs) = Some ns"
  shows "parse_list (parse_command tb x m) [] (map Some ns) = Some cs"
proof (rule parse_list_back [OF _ r])
  fix pre c' post n
  assume a: "cs = pre @ c' # post" and n: "render_command c' = Some n"
  have "c_name c' \<notin> c_name ` set pre" using c(3) unfolding a by (intro distinct_split)
  moreover have "cmd_fine (m_id m) (m_protocol m) c'" "exact_cmd c'" using c(1,2) by (simp_all add: a)
  ultimately show "parse_command tb x m pre (Some n) = Some c'" using command_back [OF x _ _ _ n] by blast
qed simp

lemma manifest_dkeys: "dkeys (manifest_fields m p cs)"
  by (auto simp: manifest_fields_def)

lemma manifest_back:
  assumes x: "xcdn_ok x" and m: "manifest_fine m" "exact_manifest m" and r: "render_manifest m = Some n"
  shows "manifest_of_root tb x None n = Some m"
proof -
  obtain pn cs where pn: "render_permissions (m_perms m) = Some pn" and cs: "those (map render_command (m_commands m)) = Some cs"
    and n: "n = tagged_obj_node (Some ''astools_tool'') (manifest_fields m pn cs)"
    using r by (auto simp: render_manifest_def parse_conv)
  let ?es = "entries_in (manifest_fields m pn cs)"
  note look = look_fields [OF x manifest_dkeys, of m pn cs]
  have f: "xf x ?es ''manifest_version'' = Some (int_node (m_manifest_version m))" "xf x ?es ''id'' = Some (str_node (m_id m))"
    "xf x ?es ''version'' = Some (str_node (m_version m))" "xf x ?es ''title'' = Some (str_node (m_title m))"
    "xf x ?es ''summary'' = Some (str_node (m_summary m))" "xf x ?es ''description'' = map_option str_node (m_description m)"
    "xf x ?es ''kind'' = Some (str_node (if m_kind m = ASTOOLS_KIND_LIBRARY then ''library'' else ''executable''))"
    by (simp_all only: look) (simp_all add: manifest_fields_def)
  have g: "xf x ?es ''platforms'' = Some (render_strv (m_platforms m))" "xf x ?es ''runtime'' = Some (render_runtime m)"
    "xf x ?es ''permissions'' = Some pn" "xf x ?es ''commands'' = Some (arr_node cs)"
    by (simp_all only: look) (simp_all add: manifest_fields_def)
  have h: "header_fine m" and ru: "runtime_fine m" and pe: "perms_fine (m_perms m)" and lsp: "astools_lsp_manifest_valid m"
    and cm: "m_commands m \<noteq> []" "distinct (map c_name (m_commands m))" "list_all (cmd_fine (m_id m) (m_protocol m)) (m_commands m)"
    using m(1) by (simp_all add: manifest_fine_def)
  have kind: "parse_kind (xf x ?es ''kind'') = Some (m_kind m)"
    using h by (auto simp: f parse_kind_def header_fine_def ASTOOLS_KIND_LIBRARY_def ASTOOLS_KIND_EXECUTABLE_def)
  let ?m1 = "manifest_new\<lparr>m_manifest_version := 1, m_id := m_id m, m_version := m_version m, m_title := m_title m,
         m_summary := m_summary m, m_description := m_description m, m_kind := m_kind m\<rparr>"
  have 1: "parse_header x ?es manifest_new = Some ?m1"
    unfolding parse_header_def f(1-5) bind.simps node_reads opt_string_back [OF f(6)] kind
    using h by (simp add: header_fine_def)
  let ?m2 = "?m1\<lparr>m_platforms := m_platforms m\<rparr>"
  have "those (map platform_name (map Some (map str_node (m_platforms m)))) = Some (m_platforms m)"
    by (rule those_back) (use h in \<open>simp add: header_fine_def platform_name_def list_all_iff\<close>)
  then have 2: "parse_platforms x ?es ?m1 = Some ?m2"
    unfolding parse_platforms_def g(1) option.case render_strv_def node_reads bind.simps by simp
  let ?m3 = "?m2\<lparr>m_mode := m_mode m, m_protocol := m_protocol m, m_entries := m_entries m,
      m_parallel := m_parallel m, m_idle_timeout_ms := m_idle_timeout_ms m, m_startup_timeout_ms := m_startup_timeout_ms m\<rparr>"
  have 3: "parse_runtime x ?es ?m2 = Some ?m3" by (rule runtime_back [OF x ru g(2)]) simp
  let ?m4 = "?m3\<lparr>m_perms := m_perms m\<rparr>"
  have 4: "parse_permissions x ?es None ?m3 = Some ?m4"
    by (rule permissions_back [OF x pe _ pn g(3)]) (use m(2) in \<open>simp add: exact_manifest_def list_all_iff\<close>)
  have "m_id ?m4 = m_id m" "m_protocol ?m4 = m_protocol m" by simp_all
  then have c: "parse_list (parse_command tb x ?m4) [] (map Some cs) = Some (m_commands m)"
    using commands_back [OF x, of ?m4 "m_commands m" cs tb] cm m(2) cs by (simp add: exact_manifest_def)
  have "length cs = length (m_commands m)" using cs by (auto simp: those_Some_iff dest: map_eq_imp_length_eq)
  then have "map Some cs \<noteq> []" using cm(1) by auto
  moreover have "?m4\<lparr>m_commands := m_commands m\<rparr> = m" using h by (simp add: header_fine_def)
  ultimately have 5: "parse_commands tb x ?es ?m4 = Some m"
    unfolding parse_commands_def g(4) node_reads bind.simps c by simp
  have tag: "ensure (x_has_tag x (xtags n) ''astools_tool'') = Some ()"
    using x by (simp add: xcdn_ok_def n tagged_obj_node_def)
  have node: "node_object (Some n) = Some ?es" by (simp add: n)
  show ?thesis unfolding manifest_of_root_def tag node bind.simps 1 2 3 4 5 using lsp by simp
qed

section \<open>Rendering succeeds\<close>

lemma those_exists: "(\<And>a. a \<in> set as \<Longrightarrow> f a \<noteq> None) \<Longrightarrow> \<exists>bs. those (map f as) = Some bs"
proof (induction as)
  case (Cons a as)
  then obtain bs where "those (map f as) = Some bs" by auto
  moreover obtain b where "f a = Some b" using Cons.prems [of a] by auto
  ultimately show ?case by simp
qed simp

lemma render_permissions_exists: "perms_fine p \<Longrightarrow> \<exists>n. render_permissions p = Some n"
proof -
  assume p: "perms_fine p"
  have "render_fs_perm q \<noteq> None" if "q \<in> set (pm_fs p)" for q
    using p that by (auto simp: perms_fine_def list_all_iff render_fs_perm_def access_to_string_def split: option.splits)
  from those_exists [of "pm_fs p" render_fs_perm, OF this] obtain fs where fs: "those (map render_fs_perm (pm_fs p)) = Some fs" by blast
  have "id e \<noteq> None" if "e \<in> set (pm_env p)" for e
    using p that by (auto simp: perms_fine_def list_all_iff env_name_valid_def split: option.splits)
  from those_exists [of "pm_env p" id, OF this] obtain env where "those (pm_env p) = Some env" by auto
  with fs show ?thesis by (simp add: render_permissions_def)
qed

lemma render_params_exists:
  assumes x: "xcdn_ok x" and ps: "params_fine ps" "list_all exact_param ps"
  shows "\<exists>ns. render_params ps = Some ns"
  unfolding render_params_list [of ps]
proof (rule those_exists)
  fix p
  assume "p \<in> set ps"
  then have p: "param_fine p" "exact_param p" using ps by (simp_all add: params_fine_def list_all_iff)
  then obtain name t req d descr where q: "p = AParam (Some name) (Some t) req d descr" "type_fine t" "dflt_ok t req d"
    by (auto simp: param_fine_def)
  obtain tn where tn: "render_type t = Some tn"
    using render_type_back [OF x q(2), of False] p(2) by (auto simp: exact_param_def q(1))
  have "clone_opt d = Some d" by (rule clone_opt_exact) (use q(3) in \<open>simp add: dflt_ok_def split: option.splits\<close>)
  then show "Option.bind (render_params [p]) (\<lambda>ns. Some (hd ns)) \<noteq> None" by (simp add: q(1) tn)
qed

lemma render_command_exists:
  assumes x: "xcdn_ok x" and c: "cmd_fine ident protocol c" "exact_cmd c"
  shows "render_command c \<noteq> None"
proof -
  have b: "binding_fine protocol c" and ps: "params_fine (c_params c)" "list_all exact_param (c_params c)"
    and exs: "list_all example_fine (c_examples c)"
    using c by (simp_all add: cmd_fine_def exact_cmd_def)
  obtain bn where bn: "render_binding c = Some bn"
    using b by (cases "protocol = ASTOOLS_PROTOCOL_MCP")
      (auto simp: binding_fine_def render_binding_def mcp_schema_def split: option.splits)
  obtain ns where ns: "render_params (c_params c) = Some ns" using render_params_exists [OF x ps] by blast
  have "render_returns c \<noteq> None"
  proof (cases "c_returns_type c")
    case (Some t)
    then have "type_fine t" "exact_type t" using c by (simp_all add: cmd_fine_def exact_cmd_def)
    from render_type_back [OF x this, of False] Some show ?thesis by (auto simp: render_returns_def)
  qed (simp add: render_returns_def)
  moreover have "render_example e \<noteq> None" if "e \<in> set (c_examples c)" for e
  proof -
    have "example_fine e" using exs that by (simp add: list_all_iff)
    then have "mclone_node (ex_call e) = Some (ex_call e)" "clone_opt (ex_result e) = Some (ex_result e)"
      by (auto simp: example_fine_def mclone_exact intro!: clone_opt_exact)
    then show ?thesis by (simp add: render_example_def)
  qed
  from those_exists [of "c_examples c" render_example, OF this] obtain es where "those (map render_example (c_examples c)) = Some es" by blast
  ultimately show ?thesis using bn ns by (auto simp: render_command_def)
qed

lemma render_manifest_exists:
  assumes "xcdn_ok x" "manifest_fine m" "exact_manifest m"
  shows "\<exists>n. render_manifest m = Some n"
proof -
  obtain pn where "render_permissions (m_perms m) = Some pn"
    using render_permissions_exists assms(2) by (auto simp: manifest_fine_def)
  moreover have "render_command c \<noteq> None" if "c \<in> set (m_commands m)" for c
    using render_command_exists [OF assms(1), of "m_id m" "m_protocol m" c] assms(2,3) that
    by (auto simp: manifest_fine_def exact_manifest_def list_all_iff)
  from those_exists [of "m_commands m" render_command, OF this] obtain cs where "those (map render_command (m_commands m)) = Some cs" by blast
  ultimately show ?thesis by (simp add: render_manifest_def)
qed

lemma parse_root_doc:
  assumes "xcdn_ok x" "astools_manifest_parse tb x ws str = Some m"
  shows "\<exists>n. doc_ok n \<and> manifest_of_root tb x ws n = Some m"
proof -
  obtain s ns n where s: "x_parse x s = Some ns" "doc_first ns = Some n" "manifest_of_root tb x ws n = Some m"
    using assms(2) by (auto simp: astools_manifest_parse_def parse_conv)
  then have "Some n \<in> set ns" by (auto simp: doc_first_def split: list.splits)
  with s(1) assms(1) have "doc_ok n" by (simp add: xcdn_ok_def)
  with s(3) show ?thesis by blast
qed

section \<open>A sample\<close>

definition demo_tool :: astools_manifest where
  "demo_tool = manifest_new\<lparr>m_manifest_version := 1, m_id := ''demo'', m_version := ''1.0.0'', m_title := ''Demo'',
     m_summary := ''A tool'', m_platforms := [''linux''],
     m_entries := [\<lparr>en_os = ''linux'', en_arch = ''x86_64'', en_argv = [''run'']\<rparr>],
     m_perms := \<lparr>pm_fs = [\<lparr>fpath = Some ''/w'', faccess = ASTOOLS_ACCESS_READ\<rparr>], pm_net = False, pm_proc = True,
       pm_env = [Some ''HOME'']\<rparr>,
     m_commands := [\<lparr>c_name = ''go'', c_mcp_name = None, c_mcp_input_schema = None, c_mcp_output_schema = None,
       c_summary = ''go'', c_description = None, c_read_only = True, c_destructive = False, c_idempotent = False,
       c_long_running = False, c_deprecated = False, c_timeout_ms = 1500,
       c_params = [AParam (Some ''n'') (Some (AType (type_new AT_BOOLEAN) None None [])) False
         (Some (bool_node True)) None],
       c_returns_type = None, c_returns_desc = None, c_errors = [], c_examples = []\<rparr>]\<rparr>"

definition demo_tool_doc :: xnode where
  "demo_tool_doc = the (render_manifest demo_tool)"

definition demo_xcdn :: xcdn where
  "demo_xcdn = \<lparr>x_get = first_key, x_has_tag = (\<lambda>ts t. Some t \<in> set ts), x_parse = (\<lambda>s. if s = ''doc'' then Some [Some demo_tool_doc] else None),
     x_pretty = (\<lambda>n. if n = demo_tool_doc then Some ''doc'' else None)\<rparr>"

lemma demo_tool_checks:
  "astools_slug_valid (Some ''demo'')" "astools_slug_valid (Some ''go'')" "astools_semver_parse (Some ''1.0.0'') \<noteq> None"
  "\<not> astools_str_blank (Some ''Demo'')" "\<not> astools_str_blank (Some ''A tool'')" "\<not> astools_str_blank (Some ''go'')"
  "os_name_valid (Some ''linux'')" "arch_name_valid (Some ''x86_64'')" "env_name_valid (Some ''HOME'')" "param_name_valid (Some ''n'')"
  by code_simp+

lemma demo_tool_fine: "manifest_fine demo_tool" "exact_manifest demo_tool"
proof -
  have h: "header_fine demo_tool"
    using demo_tool_checks by (simp add: header_fine_def demo_tool_def manifest_new_def ASTOOLS_KIND_EXECUTABLE_def)
  have r: "runtime_fine demo_tool"
    using demo_tool_checks by (simp add: runtime_fine_def demo_tool_def manifest_new_def entries_fine_def entry_fine_def
        period_fine_def ASTOOLS_PERIOD_MAX_MS_def ASTOOLS_PROTOCOL_NATIVE_def)
  have p: "perms_fine (m_perms demo_tool)"
    using demo_tool_checks by (simp add: perms_fine_def demo_tool_def)
  have "param_fine (AParam (Some ''n'') (Some (AType (type_new AT_BOOLEAN) None None [])) False (Some (bool_node True)) None)"
    using demo_tool_checks
    by (auto simp: scalar_ok_def param_fine_def type_fine_def dflt_ok_def kind_shape_def type_new_def wf_scalars_def bool_node_def wrap_value_def TYPE_DEPTH_MAX_def)
  then have "list_all (cmd_fine (m_id demo_tool) (m_protocol demo_tool)) (m_commands demo_tool)"
    using demo_tool_checks
    by (simp add: demo_tool_def manifest_new_def cmd_fine_def params_fine_def period_fine_def binding_fine_def
        ASTOOLS_PERIOD_MAX_MS_def ASTOOLS_PROTOCOL_MCP_def)
  then show "manifest_fine demo_tool"
    using h r p by (simp add: manifest_fine_def demo_tool_def manifest_new_def astools_lsp_manifest_valid_def ASTOOLS_PROTOCOL_LSP_def)
  show "exact_manifest demo_tool"
    by (simp add: exact_manifest_def demo_tool_def manifest_new_def exact_cmd_def exact_param_def type_new_def)
qed

lemma demo_tool_rendered: "render_manifest demo_tool = Some demo_tool_doc" "doc_ok demo_tool_doc"
proof -
  have "\<exists>n. render_manifest demo_tool = Some n \<and> doc_ok n"
    by (simp add: demo_tool_def manifest_new_def render_manifest_def render_permissions_def render_fs_perm_def render_command_def
        access_to_string_def ASTOOLS_ACCESS_READ_def render_binding_def render_returns_def type_new_def render_attrs_def
        clone_opt_def bool_node_def wrap_value_def tagged_obj_node_def obj_of_def manifest_fields_def command_fields_def
        fopt_def bound_field_def arr_opt_def arr_node_def str_node_def val_string_def int_node_def dur_node_def
        runtime_fields_def render_runtime_def render_entry_def render_strv_def permission_fields_def annotation_fields_def
        param_node_def int64_ok_def INT64_MAX_def INT64_MIN_def all_some_def)
  then show "render_manifest demo_tool = Some demo_tool_doc" "doc_ok demo_tool_doc" by (auto simp: demo_tool_doc_def)
qed

lemma demo_xcdn_ok: "xcdn_ok demo_xcdn"
  using first_key_ok demo_tool_rendered(2) by (simp add: xcdn_ok_def demo_xcdn_def)

lemma demo_tool_parses: "astools_manifest_parse True demo_xcdn None (Some ''doc'') = Some demo_tool"
  using manifest_back [OF demo_xcdn_ok demo_tool_fine demo_tool_rendered(1), of True]
  by (simp add: astools_manifest_parse_def demo_xcdn_def doc_first_def)

section \<open>Properties\<close>

text \<open>
  C24: Whatever document the xCDN library returns, a manifest the parser accepts is well formed: slugs and
  names in their alphabets, distinct entries, commands and parameters, periods in range, valid types
  with defaults their types admit, error codes under the tool's id, and the closed contracts of the LSP
  and MCP protocols.
\<close>

theorem manifest_parse_fine:
  assumes "xcdn_ok x" "astools_manifest_parse tb x ws str = Some m"
  shows "manifest_fine m"
  using parse_root_doc [OF assms] manifest_fine_parse [OF assms(1)] by blast

theorem manifest_parse_fine_witness: "manifest_fine demo_tool"
  by (rule manifest_parse_fine [OF demo_xcdn_ok demo_tool_parses])

text \<open>
  C25: The canonical rendering of a parsed manifest succeeds and parses back to the same manifest, whatever the
  memory, provided its integer bounds are exact (whole numbers within 64 bits), its defaults lie within the depth of a copy,
  and no permission path has become empty by expansion - \<open>exact_manifest\<close>; a fractional bound is weakened, see \<open>fractional_bound_weakened\<close> - and provided the
  printer succeeds and the printed document is read back as it was.
\<close>

theorem manifest_render_parse:
  assumes "xcdn_ok x" "astools_manifest_parse tb x ws str = Some m" "exact_manifest m"
    and "\<And>n. render_manifest m = Some n \<Longrightarrow> prints_back x n \<and> x_pretty x n \<noteq> None"
  shows "\<exists>text. astools_manifest_render x m = Inr text \<and> astools_manifest_parse tb' x None (Some text) = Some m"
proof -
  obtain doc where doc: "doc_ok doc" "manifest_of_root tb x ws doc = Some m" using parse_root_doc [OF assms(1,2)] by blast
  have fine: "manifest_fine m" by (rule manifest_fine_parse [OF assms(1) doc])
  obtain n where n: "render_manifest m = Some n" using render_manifest_exists [OF assms(1) fine assms(3)] by blast
  obtain s where s: "x_pretty x n = Some s" "x_parse x s = Some [Some n]" using assms(4) [OF n] by (auto simp: prints_back_def)
  have "manifest_of_root tb' x None n = Some m" by (rule manifest_back [OF assms(1) fine assms(3) n])
  then show ?thesis using s n by (simp add: astools_manifest_render_def astools_manifest_parse_def doc_first_def)
qed

theorem manifest_render_parse_witness:
  "\<exists>text. astools_manifest_render demo_xcdn demo_tool = Inr text \<and>
     astools_manifest_parse False demo_xcdn None (Some text) = Some demo_tool"
  by (rule manifest_render_parse [OF demo_xcdn_ok demo_tool_parses demo_tool_fine(2)])
    (simp add: demo_tool_rendered(1) prints_back_def demo_xcdn_def)

end
