(* ===== verification/As_Disk.thy ===== *)
theory As_Disk
  imports As_Path As_Sha256 As_Util
begin

text \<open>
  Files as the code of the operating system layer uses them (\<^verbatim>\<open>src/os_common.c\<close>, \<^verbatim>\<open>src/os_posix.c\<close>) and the
  hash of a file (\<^verbatim>\<open>src/hash_file.c\<close>). The C library's streams are modelled on a state of the disk that
  says which operation fails and where; memory suffices unless the code itself refuses a size.
\<close>

section \<open>The disk\<close>

text \<open>
  A path names a place (\<open>d_loc\<close>): two paths of one file have the same place. A place holds a regular
  file or something else; the other fields are the faults: a place that cannot be opened for reading, a
  read that fails after some bytes, a place that cannot be examined, that cannot be written, a write that
  fails leaving some bytes, a rename that fails (\<open>Some True\<close> because something is missing), a removal that fails.
\<close>

record disk =
  d_loc :: "string \<Rightarrow> string"
  d_files :: "string \<Rightarrow> byte list option"
  d_other :: "string \<Rightarrow> bool"
  d_deny :: "string \<Rightarrow> bool"
  d_bad :: "string \<Rightarrow> nat option"
  d_hidden :: "string \<Rightarrow> bool"
  d_ro :: "string \<Rightarrow> bool"
  d_werr :: "string \<Rightarrow> nat option"
  d_mverr :: "string \<Rightarrow> string \<Rightarrow> bool option"
  d_pin :: "string \<Rightarrow> bool"

text \<open>\<open>fopen (path, "rb")\<close>: the bytes a reader gets before the end and whether the stream then fails.\<close>

definition fopen_rb :: "disk \<Rightarrow> string \<Rightarrow> (byte list \<times> bool) res" where
  "fopen_rb d path =
     (let l = d_loc d path in
      if d_deny d l \<or> d_hidden d l then Inl ASTOOLS_ERR_IO
      else case d_files d l of
        Some bs \<Rightarrow> (case d_bad d l of None \<Rightarrow> Inr (bs, False) | Some n \<Rightarrow> Inr (take n bs, True))
      | None \<Rightarrow> if d_other d l then Inr ([], True) else Inl ASTOOLS_ERR_NOT_FOUND)"

definition os_file_exists :: "disk \<Rightarrow> string \<Rightarrow> bool" where
  "os_file_exists d path \<longleftrightarrow>
     (let l = d_loc d path in \<not> d_hidden d l \<and> (d_files d l \<noteq> None \<or> d_other d l))"

definition lf_is_file :: "disk \<Rightarrow> string \<Rightarrow> bool" where
  "lf_is_file d path \<longleftrightarrow> (let l = d_loc d path in \<not> d_hidden d l \<and> d_files d l \<noteq> None)"

section \<open>Reading and writing whole files\<close>

text \<open>
  The reading loop with a buffer of \<open>4096 * 2 ^ k\<close> bytes that holds \<open>buf\<close>: \<open>rest\<close> is what the stream
  still gives, \<open>bad\<close> whether it then fails. A read that fills its request loops again.
\<close>

function os_read_loop :: "nat \<Rightarrow> byte list \<Rightarrow> byte list \<Rightarrow> bool \<Rightarrow> byte list res" where
  "os_read_loop k buf rest bad =
     (let cap = 4096 * 2 ^ k; want = cap - length buf - 1 in
      if want = 0 then
        (if cap > SIZE_MAX div 2 then Inl ASTOOLS_ERR_NOMEM else os_read_loop (Suc k) buf rest bad)
      else if length rest < want then (if bad then Inl ASTOOLS_ERR_IO else Inr (buf @ rest))
      else os_read_loop k (buf @ take want rest) (drop want rest) bad)"
  by pat_completeness auto
termination
proof (relation "inv_image (less_than <*lex*> less_than) (\<lambda>(k, buf, rest, bad). (length rest, length buf + 2 - 4096 * 2 ^ k))", goal_cases)
  case (2 k buf rest bad cap want)
  have "0 < (2 :: nat) ^ k" by simp
  moreover have "4096 * 2 ^ k \<le> Suc (length buf)" using 2 by simp
  ultimately have "Suc (Suc (length buf)) - 8192 * 2 ^ k < Suc (Suc (length buf)) - 4096 * 2 ^ k" by linarith
  then show ?case by simp
next
  case (3 k buf rest bad cap want)
  then show ?case by auto
qed (intro wf_inv_image wf_lex_prod wf_less_than)

declare os_read_loop.simps [simp del]

definition os_read_file :: "disk \<Rightarrow> string option \<Rightarrow> byte list res" where
  "os_read_file d path =
     (case path of None \<Rightarrow> Inl ASTOOLS_ERR_INVALID
      | Some p \<Rightarrow> (case fopen_rb d p of Inl e \<Rightarrow> Inl e | Inr (rest, bad) \<Rightarrow> os_read_loop 0 [] rest bad))"

definition set_file :: "disk \<Rightarrow> string \<Rightarrow> byte list option \<Rightarrow> disk" where
  "set_file d l bs = d\<lparr>d_files := (d_files d)(l := bs)\<rparr>"

definition os_write_file :: "disk \<Rightarrow> string option \<Rightarrow> byte list \<Rightarrow> astools_err \<times> disk" where
  "os_write_file d path data =
     (case path of None \<Rightarrow> (ASTOOLS_ERR_INVALID, d)
      | Some p \<Rightarrow>
          (let l = d_loc d p in
           if d_ro d l \<or> d_other d l \<or> d_hidden d l then (ASTOOLS_ERR_IO, d)
           else case d_werr d l of
             None \<Rightarrow> (ASTOOLS_OK, set_file d l (Some data))
           | Some n \<Rightarrow> (ASTOOLS_ERR_IO, set_file d l (Some (take n data)))))"

text \<open>\<open>rename\<close> within one file system; a file renamed onto itself stays.\<close>

definition os_file_replace :: "disk \<Rightarrow> string option \<Rightarrow> string option \<Rightarrow> astools_err \<times> disk" where
  "os_file_replace d src dst =
     (case (src, dst) of
        (Some s, Some t) \<Rightarrow>
          (let ls = d_loc d s; lt = d_loc d t in
           case d_mverr d ls lt of
             Some missing \<Rightarrow> (if missing then ASTOOLS_ERR_NOT_FOUND else ASTOOLS_ERR_IO, d)
           | None \<Rightarrow>
               if d_files d ls = None then (ASTOOLS_ERR_NOT_FOUND, d)
               else if d_other d lt then (ASTOOLS_ERR_IO, d)
               else if ls = lt then (ASTOOLS_OK, d)
               else (ASTOOLS_OK, set_file (set_file d lt (d_files d ls)) ls None))
      | _ \<Rightarrow> (ASTOOLS_ERR_INVALID, d))"

definition os_remove_file :: "disk \<Rightarrow> string option \<Rightarrow> astools_err \<times> disk" where
  "os_remove_file d path =
     (case path of None \<Rightarrow> (ASTOOLS_ERR_INVALID, d)
      | Some p \<Rightarrow>
          (let l = d_loc d p in
           if d_pin d l \<or> d_other d l then (ASTOOLS_ERR_IO, d)
           else if d_files d l = None then (ASTOOLS_ERR_NOT_FOUND, d)
           else (ASTOOLS_OK, set_file d l None)))"

section \<open>The hash of a file\<close>

text \<open>The stream in pieces of at most 65536 bytes.\<close>

function sha256_read_loop :: "astools_sha256_ctx \<Rightarrow> byte list \<Rightarrow> astools_sha256_ctx" where
  "sha256_read_loop ctx rest =
     (if rest = [] then ctx
      else sha256_read_loop (astools_sha256_update ctx (take 65536 rest)) (drop 65536 rest))"
  by pat_completeness auto
termination by (relation "measure (\<lambda>(ctx, rest). length rest)") auto

declare sha256_read_loop.simps [simp del]

definition astools_sha256_file :: "disk \<Rightarrow> string option \<Rightarrow> byte list res" where
  "astools_sha256_file d path =
     (case path of None \<Rightarrow> Inl ASTOOLS_ERR_INVALID
      | Some p \<Rightarrow>
          (case fopen_rb d p of
             Inl _ \<Rightarrow> Inl (if os_file_exists d p then ASTOOLS_ERR_IO else ASTOOLS_ERR_NOT_FOUND)
           | Inr (rest, bad) \<Rightarrow>
               (let ctx = sha256_read_loop astools_sha256_init rest in
                if bad then Inl ASTOOLS_ERR_IO else Inr (astools_sha256_final ctx))))"

section \<open>What they give\<close>

text \<open>The content of a file that can be read to its end.\<close>

definition content :: "disk \<Rightarrow> string \<Rightarrow> byte list option" where
  "content d path = (case fopen_rb d path of Inr (bs, False) \<Rightarrow> Some bs | _ \<Rightarrow> None)"

lemma os_read_loop_all:
  assumes "length buf < 4096 * 2 ^ k" "length (buf @ rest) + 1 < SIZE_MAX div 4" "4096 * 2 ^ k \<le> SIZE_MAX div 2 + 1"
  shows "os_read_loop k buf rest False = Inr (buf @ rest)"
  using assms
proof (induction k buf rest "False" rule: os_read_loop.induct)
  case (1 k buf rest)
  let ?cap = "4096 * 2 ^ k :: nat"
  let ?want = "?cap - length buf - 1"
  show ?case
  proof (cases "?want = 0")
    case True
    then have len: "length buf + 1 = ?cap" using "1.prems"(1) by simp
    then have cap: "?cap < SIZE_MAX div 4" using "1.prems"(2) by simp
    have cap2: "\<not> ?cap > SIZE_MAX div 2" using cap by (simp add: SIZE_MAX_def)
    have "os_read_loop (Suc k) buf rest False = Inr (buf @ rest)"
      by (rule "1.hyps"(1) [OF refl refl True cap2])
        (use "1.prems" len cap in \<open>simp_all add: SIZE_MAX_def\<close>)
    with True cap2 show ?thesis by (subst os_read_loop.simps) (simp add: Let_def)
  next
    case False
    show ?thesis
    proof (cases "length rest < ?want")
      case True
      with False show ?thesis by (subst os_read_loop.simps) (simp add: Let_def)
    next
      case more: False
      have "os_read_loop k (buf @ take ?want rest) (drop ?want rest) False = Inr ((buf @ take ?want rest) @ drop ?want rest)"
        by (rule "1.hyps"(2) [OF refl refl False more]) (use "1.prems" False more in simp_all)
      with False more show ?thesis by (subst os_read_loop.simps) (simp add: Let_def)
    qed
  qed
qed

lemma sha256_read_loop_ctx: "sha256_read_loop (ctx_of m) rest = ctx_of (m @ rest)"
proof (induction "ctx_of m" rest arbitrary: m rule: sha256_read_loop.induct)
  case (1 rest)
  then show ?case by (subst sha256_read_loop.simps) (simp add: update_ctx_of)
qed

text \<open>The hash of a file is the SHA-256 of its content; anything unreadable is an error.\<close>

lemma sha256_file_Inr: "astools_sha256_file d (Some p) = Inr h \<longleftrightarrow> (\<exists>bs. content d p = Some bs \<and> h = sha256_ref bs)"
  using sha256_read_loop_ctx [of "[]"]
  by (auto simp: astools_sha256_file_def content_def ctx_of_Nil final_ctx_of Let_def split: sum.splits prod.splits if_splits bool.splits)

lemma length_sha256_out [simp]: "length (sha256_out s) = 32"
  by (simp add: sha256_out_def be_bytes32_def)

lemma length_sha256_ref [simp]: "length (sha256_ref m) = 32"
  by (simp add: sha256_ref_def)

lemma content_file: "content d p = Some bs \<Longrightarrow> d_files d (d_loc d p) = Some bs"
  by (auto simp: content_def fopen_rb_def Let_def split: sum.splits prod.splits if_splits bool.splits option.splits)

text \<open>A file at another place is not affected.\<close>

lemma set_file_simps [simp]:
  "d_loc (set_file d l bs) = d_loc d" "d_files (set_file d l bs) = (d_files d)(l := bs)" "d_other (set_file d l bs) = d_other d"
  "d_deny (set_file d l bs) = d_deny d" "d_bad (set_file d l bs) = d_bad d" "d_hidden (set_file d l bs) = d_hidden d"
  "d_ro (set_file d l bs) = d_ro d" "d_werr (set_file d l bs) = d_werr d" "d_mverr (set_file d l bs) = d_mverr d"
  "d_pin (set_file d l bs) = d_pin d"
  by (simp_all add: set_file_def)

text \<open>Two disks that hold the same at the place of a path, and fail there alike.\<close>

definition same_at :: "disk \<Rightarrow> disk \<Rightarrow> string \<Rightarrow> bool" where
  "same_at d d' p \<longleftrightarrow> fopen_rb d p = fopen_rb d' p \<and> os_file_exists d p = os_file_exists d' p \<and> lf_is_file d p = lf_is_file d' p"

lemma set_file_same: "d_loc d p \<noteq> l \<Longrightarrow> same_at d (set_file d l bs) p"
  by (cases "d_files d (d_loc d p)") (simp_all add: same_at_def fopen_rb_def os_file_exists_def lf_is_file_def Let_def)

lemma same_at_trans: "same_at d d' p \<Longrightarrow> same_at d' d'' p \<Longrightarrow> same_at d d'' p"
  by (simp add: same_at_def)

lemma same_at_hash: "same_at d d' p \<Longrightarrow> astools_sha256_file d (Some p) = astools_sha256_file d' (Some p)"
  by (simp add: same_at_def astools_sha256_file_def)

lemma write_same: "os_write_file d (Some q) data = (e, d') \<Longrightarrow> d_loc d p \<noteq> d_loc d q \<Longrightarrow> same_at d d' p \<and> d_loc d' = d_loc d"
  using set_file_same by (auto simp: os_write_file_def Let_def same_at_def split: if_splits option.splits)

lemma remove_same: "os_remove_file d (Some q) = (e, d') \<Longrightarrow> d_loc d p \<noteq> d_loc d q \<Longrightarrow> same_at d d' p \<and> d_loc d' = d_loc d"
  using set_file_same by (auto simp: os_remove_file_def Let_def same_at_def split: if_splits option.splits)

lemma replace_same:
  assumes "os_file_replace d (Some s) (Some t) = (e, d')" "d_loc d p \<noteq> d_loc d s" "d_loc d p \<noteq> d_loc d t"
  shows "same_at d d' p \<and> d_loc d' = d_loc d"
proof -
  have "same_at d (set_file (set_file d (d_loc d t) (d_files d (d_loc d s))) (d_loc d s) None) p"
    by (rule same_at_trans [OF set_file_same set_file_same]) (use assms(2,3) in simp_all)
  then show ?thesis using assms(1) by (auto simp: os_file_replace_def Let_def same_at_def split: if_splits option.splits)
qed

end
