(* ===== verification/As_Lockfile.thy ===== *)
theory As_Lockfile
  imports As_Disk As_Time As_ManifestRender
begin

text \<open>
  \<^verbatim>\<open>src/lockfile.c\<close>: loading, checking and approving the lockfile that pins the bytes of tools. NULL
  arguments are \<open>None\<close>; memory suffices.
\<close>

section \<open>The lockfile\<close>

record astools_lock_artifact =
  la_path :: string
  la_sha256 :: "byte list"

record astools_lock_entry =
  le_id :: string
  le_version :: string
  le_manifest_sha256 :: "byte list"
  le_artifacts :: "astools_lock_artifact list"
  le_approved_at :: int

type_synonym astools_lockfile = "astools_lock_entry list"

datatype astools_lock_state = ASTOOLS_LOCK_UNLISTED | ASTOOLS_LOCK_OK | ASTOOLS_LOCK_MISMATCH

text \<open>The components of a path that either slash separates; the loop tests one at a time.\<close>

definition is_sep :: "char \<Rightarrow> bool" where
  "is_sep c \<longleftrightarrow> c = CHR ''/'' \<or> c = CHR 0x5C"

function rel_loop :: "string \<Rightarrow> bool \<Rightarrow> bool" where
  "rel_loop p sep =
     (let part = takeWhile (\<lambda>c. \<not> is_sep c) p; rest = dropWhile (\<lambda>c. \<not> is_sep c) p in
      if part = ''..'' then False
      else if rest = [] then sep
      else rel_loop (tl rest) True)"
  by pat_completeness auto
termination
proof (relation "measure (\<lambda>(p, sep). length p)", goal_cases)
  case (2 p sep part rest)
  have "length rest \<le> length p" unfolding 2(2) by (rule length_dropWhile_le)
  moreover have "length (tl rest) < length rest" using 2(4) by (cases rest) auto
  ultimately show ?case by simp
qed simp

declare rel_loop.simps [simp del]

definition pkg_relative :: "string option \<Rightarrow> bool" where
  "pkg_relative path =
     (case path of None \<Rightarrow> False
      | Some p \<Rightarrow>
          if p = [] \<or> is_sep (cur p) then False
          else if (is_upper (cur p) \<or> is_lower (cur p)) \<and> cget p 1 = CHR '':'' then False
          else if os_path_is_abs p then False
          else rel_loop p False)"

section \<open>Loading\<close>

definition obj_string :: "xcdn \<Rightarrow> xentries \<Rightarrow> string \<Rightarrow> string option" where
  "obj_string x es key =
     (case xf x es key of Some (XNode _ _ (Some (XString s))) \<Rightarrow> s | _ \<Rightarrow> None)"

definition obj_bytes32 :: "xcdn \<Rightarrow> xentries \<Rightarrow> string \<Rightarrow> byte list option" where
  "obj_bytes32 x es key =
     (case xf x es key of Some (XNode _ _ (Some (XBytes b))) \<Rightarrow> if length b = 32 then Some b else None | _ \<Rightarrow> None)"

definition lf_parse_artifact :: "xcdn \<Rightarrow> xnode option \<Rightarrow> astools_lock_artifact option" where
  "lf_parse_artifact x item =
     do {
       es \<leftarrow> node_object item;
       p \<leftarrow> obj_string x es ''path'';
       ensure (p \<noteq> []);
       h \<leftarrow> obj_bytes32 x es ''sha256'';
       Some \<lparr>la_path = p, la_sha256 = h\<rparr>
     }"

definition lf_parse_stamp :: "xnode option \<Rightarrow> int option" where
  "lf_parse_stamp n =
     (case n of None \<Rightarrow> Some 0
      | Some v \<Rightarrow> (case xval v of Some (XDatetime s) \<Rightarrow> astools_time_parse_rfc3339 s | _ \<Rightarrow> None))"

definition lf_parse_entry :: "xcdn \<Rightarrow> xnode option \<Rightarrow> astools_lock_entry option" where
  "lf_parse_entry x item =
     do {
       es \<leftarrow> node_object item;
       ident \<leftarrow> obj_string x es ''id'';
       ver \<leftarrow> obj_string x es ''version'';
       sha \<leftarrow> obj_bytes32 x es ''manifest_sha256'';
       ensure (ident \<noteq> [] \<and> ver \<noteq> []);
       stamp \<leftarrow> lf_parse_stamp (xf x es ''approved_at'');
       arts \<leftarrow> opt_items (lf_parse_artifact x) (xf x es ''artifacts'');
       Some \<lparr>le_id = ident, le_version = ver, le_manifest_sha256 = sha, le_artifacts = arts, le_approved_at = stamp\<rparr>
     }"

definition lf_parse_root :: "xcdn \<Rightarrow> xnode \<Rightarrow> astools_lockfile option" where
  "lf_parse_root x rn =
     do {
       ensure (x_has_tag x (xtags rn) ''astools_lock'');
       es \<leftarrow> node_object (Some rn);
       vn \<leftarrow> xf x es ''version'';
       ensure (xval vn = Some (XInt 1));
       opt_items (lf_parse_entry x) (xf x es ''tools'')
     }"

definition text_of :: "byte list \<Rightarrow> string" where
  "text_of bs = map (\<lambda>b. char_of (unat b)) bs"

definition astools_lockfile_load :: "xcdn \<Rightarrow> disk \<Rightarrow> string option \<Rightarrow> astools_lockfile res" where
  "astools_lockfile_load x d path =
     (case path of None \<Rightarrow> Inl ASTOOLS_ERR_INVALID
      | Some p \<Rightarrow>
          (case os_read_file d (Some p) of
             Inl e \<Rightarrow> if e = ASTOOLS_ERR_NOT_FOUND then Inr [] else Inl e
           | Inr text \<Rightarrow>
               (case x_parse x (text_of text) of None \<Rightarrow> Inl ASTOOLS_ERR_PARSE
                | Some doc \<Rightarrow>
                    (case Option.bind (doc_first doc) (lf_parse_root x) of
                       None \<Rightarrow> Inl ASTOOLS_ERR_PARSE
                     | Some lf \<Rightarrow> Inr lf))))"

section \<open>Checking\<close>

definition lf_lookup :: "astools_lockfile \<Rightarrow> string \<Rightarrow> string \<Rightarrow> astools_lock_entry option" where
  "lf_lookup lf ident version = find (\<lambda>en. le_id en = ident \<and> le_version en = version) lf"

definition lf_row :: "astools_lock_artifact list \<Rightarrow> string \<Rightarrow> astools_lock_artifact option" where
  "lf_row arts path = find (\<lambda>a. la_path a = path) arts"

definition entry_argv0 :: "astools_entry \<Rightarrow> string option" where
  "entry_argv0 e = (case en_argv e of [] \<Rightarrow> None | a # _ \<Rightarrow> Some a)"

definition pkg_file :: "string \<Rightarrow> string \<Rightarrow> string" where
  "pkg_file pkg_dir rel = os_path_join (Some pkg_dir) (Some rel)"

text \<open>One runtime entry against the rows, one row against the disk.\<close>

definition check_entry :: "disk \<Rightarrow> string \<Rightarrow> astools_lock_artifact list \<Rightarrow> astools_entry \<Rightarrow> bool" where
  "check_entry d pkg_dir arts e =
     (case entry_argv0 e of
        None \<Rightarrow> True
      | Some a0 \<Rightarrow>
          if \<not> pkg_relative (Some a0) \<or> \<not> lf_is_file d (pkg_file pkg_dir a0) then True
          else (case astools_sha256_file d (Some (pkg_file pkg_dir a0)) of
              Inl _ \<Rightarrow> False
            | Inr h \<Rightarrow> (case lf_row arts a0 of None \<Rightarrow> False | Some row \<Rightarrow> la_sha256 row = h)))"

definition check_row :: "disk \<Rightarrow> string \<Rightarrow> astools_lock_artifact \<Rightarrow> bool" where
  "check_row d pkg_dir row =
     (if \<not> pkg_relative (Some (la_path row)) then False
      else if \<not> lf_is_file d (pkg_file pkg_dir (la_path row)) then True
      else astools_sha256_file d (Some (pkg_file pkg_dir (la_path row))) = Inr (la_sha256 row))"

definition astools_lockfile_check :: "disk \<Rightarrow> astools_lockfile option \<Rightarrow> string option \<Rightarrow> string option \<Rightarrow>
    string option \<Rightarrow> astools_manifest option \<Rightarrow> astools_lock_state" where
  "astools_lockfile_check d lf ident version pkg_dir m =
     (case (lf, ident, version, pkg_dir, m) of
        (Some lf, Some ident, Some version, Some pkg_dir, Some m) \<Rightarrow>
          (case lf_lookup lf ident version of
             None \<Rightarrow> ASTOOLS_LOCK_UNLISTED
           | Some en \<Rightarrow>
               if astools_sha256_file d (Some (pkg_file pkg_dir ''manifest.xcdn'')) \<noteq> Inr (le_manifest_sha256 en)
               then ASTOOLS_LOCK_MISMATCH
               else if \<not> list_all (check_entry d pkg_dir (le_artifacts en)) (m_entries m) then ASTOOLS_LOCK_MISMATCH
               else if \<not> list_all (check_row d pkg_dir) (le_artifacts en) then ASTOOLS_LOCK_MISMATCH
               else ASTOOLS_LOCK_OK)
      | _ \<Rightarrow> ASTOOLS_LOCK_MISMATCH)"

section \<open>Approving\<close>

fun lf_collect :: "disk \<Rightarrow> string \<Rightarrow> astools_lock_artifact list \<Rightarrow> astools_entry list \<Rightarrow> astools_lock_artifact list res" where
  "lf_collect d pkg_dir v [] = Inr v"
| "lf_collect d pkg_dir v (e # es) =
     (case entry_argv0 e of
        None \<Rightarrow> lf_collect d pkg_dir v es
      | Some a0 \<Rightarrow>
          if \<not> pkg_relative (Some a0) \<or> a0 \<in> la_path ` set v \<or> \<not> lf_is_file d (pkg_file pkg_dir a0)
          then lf_collect d pkg_dir v es
          else (case astools_sha256_file d (Some (pkg_file pkg_dir a0)) of
              Inl e \<Rightarrow> Inl e
            | Inr h \<Rightarrow> lf_collect d pkg_dir (v @ [\<lparr>la_path = a0, la_sha256 = h\<rparr>]) es))"

definition lf_collect_artifacts :: "disk \<Rightarrow> string \<Rightarrow> astools_manifest \<Rightarrow> astools_lock_artifact list res" where
  "lf_collect_artifacts d pkg_dir m = lf_collect d pkg_dir [] (m_entries m)"

text \<open>Checked construction of documents.\<close>

definition lf_put :: "xentries \<Rightarrow> string \<Rightarrow> xvalue \<Rightarrow> xentries" where
  "lf_put es key v = es @ [(Some key, Some (XNode [] [] (Some v)))]"

definition lf_pushv :: "xnode option list \<Rightarrow> xvalue \<Rightarrow> xnode option list" where
  "lf_pushv ns v = ns @ [Some (XNode [] [] (Some v))]"

definition lf_add_tag :: "xnode \<Rightarrow> string \<Rightarrow> xnode" where
  "lf_add_tag n name = (case n of XNode tags annots v \<Rightarrow> XNode (tags @ [Some name]) annots v)"

definition lf_vstring :: "string \<Rightarrow> xvalue" where
  "lf_vstring s = XString (Some s)"

definition lf_vdatetime :: "string \<Rightarrow> xvalue" where
  "lf_vdatetime s = XDatetime (Some s)"

definition lf_vbytes :: "byte list \<Rightarrow> xvalue" where
  "lf_vbytes b = XBytes b"

definition lf_emit_artifact :: "astools_lock_artifact \<Rightarrow> xvalue" where
  "lf_emit_artifact a = XObject (lf_put (lf_put [] ''path'' (lf_vstring (la_path a))) ''sha256'' (lf_vbytes (la_sha256 a)))"

definition lf_emit_entry :: "xnode option list \<Rightarrow> string \<Rightarrow> string \<Rightarrow> byte list \<Rightarrow> astools_lock_artifact list \<Rightarrow> int \<Rightarrow> xnode option list" where
  "lf_emit_entry tools ident version msha arts approved_at =
     (let es = lf_put (lf_put (lf_put [] ''id'' (lf_vstring ident)) ''version'' (lf_vstring version)) ''manifest_sha256'' (lf_vbytes msha);
          arr = foldl (\<lambda>ns a. lf_pushv ns (lf_emit_artifact a)) [] arts;
          es = lf_put es ''artifacts'' (XArray arr);
          es = lf_put es ''approved_at'' (lf_vdatetime (astools_time_format_rfc3339 approved_at))
      in lf_pushv tools (XObject es))"

fun lf_emit_tools :: "astools_lock_entry \<Rightarrow> bool \<Rightarrow> xnode option list \<Rightarrow> astools_lockfile \<Rightarrow> xnode option list" where
  "lf_emit_tools new replaced tools [] =
     (if replaced then tools
      else lf_emit_entry tools (le_id new) (le_version new) (le_manifest_sha256 new) (le_artifacts new) (le_approved_at new))"
| "lf_emit_tools new replaced tools (en # ens) =
     (if \<not> replaced \<and> le_id en = le_id new \<and> le_version en = le_version new
      then lf_emit_tools new True
        (lf_emit_entry tools (le_id new) (le_version new) (le_manifest_sha256 new) (le_artifacts new) (le_approved_at new)) ens
      else lf_emit_tools new replaced
        (lf_emit_entry tools (le_id en) (le_version en) (le_manifest_sha256 en) (le_artifacts en) (le_approved_at en)) ens)"

definition lf_build_doc :: "astools_lockfile \<Rightarrow> astools_lock_entry \<Rightarrow> xnode" where
  "lf_build_doc lf new =
     lf_add_tag (XNode [] [] (Some (XObject
       (lf_put (lf_put [] ''version'' (XInt 1)) ''tools'' (XArray (lf_emit_tools new False [] lf)))))) ''astools_lock''"

text \<open>The new content goes to a temporary file that then replaces the lockfile.\<close>

definition lf_write :: "disk \<Rightarrow> string \<Rightarrow> string \<Rightarrow> astools_err \<times> disk" where
  "lf_write d path text =
     (let tmp = Some (path @ ''.tmp'');
          (e, d1) = os_write_file d tmp (bytes_of text);
          (e, d2) = (if e = ASTOOLS_OK then os_file_replace d1 tmp (Some path) else (e, d1))
      in if e \<noteq> ASTOOLS_OK then (e, snd (os_remove_file d2 tmp)) else (e, d2))"

definition lf_new_entry :: "disk \<Rightarrow> string \<Rightarrow> string \<Rightarrow> string \<Rightarrow> astools_manifest \<Rightarrow> int \<Rightarrow> astools_lock_entry res" where
  "lf_new_entry d ident version pkg_dir m now =
     bind_res (astools_sha256_file d (Some (pkg_file pkg_dir ''manifest.xcdn''))) (\<lambda>msha.
     bind_res (lf_collect_artifacts d pkg_dir m) (\<lambda>arts.
       Inr \<lparr>le_id = ident, le_version = version, le_manifest_sha256 = msha, le_artifacts = arts, le_approved_at = now\<rparr>))"

definition astools_lockfile_approve :: "xcdn \<Rightarrow> disk \<Rightarrow> string option \<Rightarrow> string option \<Rightarrow> string option \<Rightarrow>
    string option \<Rightarrow> astools_manifest option \<Rightarrow> int \<Rightarrow> astools_err \<times> disk" where
  "astools_lockfile_approve x d path ident version pkg_dir m now =
     (case (path, ident, version, pkg_dir, m) of
        (Some path, Some ident, Some version, Some pkg_dir, Some m) \<Rightarrow>
          (case astools_lockfile_load x d (Some path) of
             Inl e \<Rightarrow> (e, d)
           | Inr lf \<Rightarrow>
               (case lf_new_entry d ident version pkg_dir m now of
                  Inl e \<Rightarrow> (e, d)
                | Inr new \<Rightarrow>
                    (case x_pretty x (lf_build_doc lf new) of
                       None \<Rightarrow> (ASTOOLS_ERR_NOMEM, d)
                     | Some text \<Rightarrow> lf_write d path text)))
      | _ \<Rightarrow> (ASTOOLS_ERR_INVALID, d))"

section \<open>Documents read back\<close>

definition lf_entry_node :: "astools_lock_entry \<Rightarrow> xnode" where
  "lf_entry_node en = tagged_obj_node None
     [(''id'', str_node (le_id en)), (''version'', str_node (le_version en)),
      (''manifest_sha256'', wrap_value (XBytes (le_manifest_sha256 en))),
      (''artifacts'', arr_node (map (\<lambda>a. tagged_obj_node None
         [(''path'', str_node (la_path a)), (''sha256'', wrap_value (XBytes (la_sha256 a)))]) (le_artifacts en))),
      (''approved_at'', wrap_value (XDatetime (Some (astools_time_format_rfc3339 (le_approved_at en)))))]"

lemmas lf_nodes = lf_put_def lf_pushv_def lf_vstring_def lf_vbytes_def lf_vdatetime_def
  tagged_obj_node_def obj_of_def str_node_def val_string_def wrap_value_def arr_node_def

lemma emit_entry_node: "lf_emit_entry tools (le_id en) (le_version en) (le_manifest_sha256 en) (le_artifacts en) (le_approved_at en)
    = tools @ [Some (lf_entry_node en)]"
proof -
  have "foldl (\<lambda>ns a. lf_pushv ns (lf_emit_artifact a)) ns as = ns @ map Some (map (\<lambda>a. tagged_obj_node None
         [(''path'', str_node (la_path a)), (''sha256'', wrap_value (XBytes (la_sha256 a)))]) as)" for ns as
    by (induction as arbitrary: ns) (simp_all add: lf_emit_artifact_def lf_nodes)
  then show ?thesis by (simp add: lf_emit_entry_def lf_entry_node_def lf_nodes Let_def)
qed

text \<open>The list with the entry in place of the one it replaces, or at the end.\<close>

fun lf_set :: "astools_lock_entry \<Rightarrow> astools_lockfile \<Rightarrow> astools_lockfile" where
  "lf_set new [] = [new]"
| "lf_set new (en # ens) = (if le_id en = le_id new \<and> le_version en = le_version new then new # ens else en # lf_set new ens)"

lemma emit_tools_replaced: "lf_emit_tools new True tools lf = tools @ map Some (map lf_entry_node lf)"
  by (induction lf arbitrary: tools) (simp_all add: emit_entry_node)

lemma emit_tools_set: "lf_emit_tools new False tools lf = tools @ map Some (map lf_entry_node (lf_set new lf))"
  by (induction lf arbitrary: tools) (simp_all add: emit_entry_node emit_tools_replaced)

lemma build_doc_node:
  "lf_build_doc lf new = tagged_obj_node (Some ''astools_lock'')
     [(''version'', int_node 1), (''tools'', arr_node (map lf_entry_node (lf_set new lf)))]"
  by (simp add: lf_build_doc_def lf_add_tag_def emit_tools_set int_node_def lf_nodes)

definition artifact_fine :: "astools_lock_artifact \<Rightarrow> bool" where
  "artifact_fine a \<longleftrightarrow> la_path a \<noteq> [] \<and> length (la_sha256 a) = 32"

definition lock_fine :: "astools_lock_entry \<Rightarrow> bool" where
  "lock_fine en \<longleftrightarrow> le_id en \<noteq> [] \<and> le_version en \<noteq> [] \<and> length (le_manifest_sha256 en) = 32 \<and>
     list_all artifact_fine (le_artifacts en)"

lemma obj_string_look: "xf x es k = Some (str_node s) \<Longrightarrow> obj_string x es k = Some s"
  by (simp add: obj_string_def str_node_def wrap_value_def val_string_def)

lemma obj_bytes_look: "xf x es k = Some (wrap_value (XBytes b)) \<Longrightarrow> length b = 32 \<Longrightarrow> obj_bytes32 x es k = Some b"
  by (simp add: obj_bytes32_def wrap_value_def)

lemma artifact_back:
  assumes x: "xcdn_ok x" and a: "artifact_fine a"
  shows "lf_parse_artifact x (Some (tagged_obj_node None
    [(''path'', str_node (la_path a)), (''sha256'', wrap_value (XBytes (la_sha256 a)))])) = Some a"
proof -
  let ?fs = "[(''path'', str_node (la_path a)), (''sha256'', wrap_value (XBytes (la_sha256 a)))]"
  have look: "xf x (entries_in ?fs) k = map_of ?fs k" for k by (rule look_fields [OF x]) simp
  have f: "xf x (entries_in ?fs) ''path'' = Some (str_node (la_path a))"
    "xf x (entries_in ?fs) ''sha256'' = Some (wrap_value (XBytes (la_sha256 a)))"
    by (simp_all only: look) simp_all
  have "length (la_sha256 a) = 32" "la_path a \<noteq> []" using a by (simp_all add: artifact_fine_def)
  then show ?thesis
    unfolding lf_parse_artifact_def node_reads bind.simps obj_string_look [OF f(1)] obj_bytes_look [OF f(2) \<open>length _ = 32\<close>]
    by simp
qed

lemma lock_entry_back:
  assumes x: "xcdn_ok x" and en: "lock_fine en" "time_ok (le_approved_at en)"
  shows "lf_parse_entry x (Some (lf_entry_node en)) = Some en"
proof -
  let ?arts = "map (\<lambda>a. tagged_obj_node None
         [(''path'', str_node (la_path a)), (''sha256'', wrap_value (XBytes (la_sha256 a)))]) (le_artifacts en)"
  let ?fs = "[(''id'', str_node (le_id en)), (''version'', str_node (le_version en)),
      (''manifest_sha256'', wrap_value (XBytes (le_manifest_sha256 en))), (''artifacts'', arr_node ?arts),
      (''approved_at'', wrap_value (XDatetime (Some (astools_time_format_rfc3339 (le_approved_at en)))))]"
  have look: "xf x (entries_in ?fs) k = map_of ?fs k" for k by (rule look_fields [OF x]) simp
  have f: "xf x (entries_in ?fs) ''id'' = Some (str_node (le_id en))" "xf x (entries_in ?fs) ''version'' = Some (str_node (le_version en))"
    "xf x (entries_in ?fs) ''manifest_sha256'' = Some (wrap_value (XBytes (le_manifest_sha256 en)))"
    "xf x (entries_in ?fs) ''artifacts'' = Some (arr_node ?arts)"
    "xf x (entries_in ?fs) ''approved_at'' = Some (wrap_value (XDatetime (Some (astools_time_format_rfc3339 (le_approved_at en)))))"
    by (simp_all only: look) simp_all
  have ok: "le_id en \<noteq> []" "le_version en \<noteq> []" "length (le_manifest_sha256 en) = 32" using en(1) by (simp_all add: lock_fine_def)
  have stamp: "lf_parse_stamp (xf x (entries_in ?fs) ''approved_at'') = Some (le_approved_at en)"
    unfolding f by (simp add: lf_parse_stamp_def time_roundtrip [OF en(2)])
  have "opt_items (lf_parse_artifact x) (Some (arr_node ?arts)) = Some (le_artifacts en)"
    unfolding opt_items_def option.case node_reads bind.simps
    by (rule those_back) (use en(1) artifact_back [OF x] in \<open>simp add: lock_fine_def list_all_iff\<close>)
  then have arts: "opt_items (lf_parse_artifact x) (xf x (entries_in ?fs) ''artifacts'') = Some (le_artifacts en)" by (simp only: f)
  show ?thesis
    unfolding lf_parse_entry_def lf_entry_node_def node_reads bind.simps obj_string_look [OF f(1)] obj_string_look [OF f(2)]
      obj_bytes_look [OF f(3) ok(3)] stamp arts
    using ok by simp
qed

lemma build_doc_back:
  assumes x: "xcdn_ok x" and en: "\<And>en. en \<in> set (lf_set new lf) \<Longrightarrow> lock_fine en \<and> time_ok (le_approved_at en)"
  shows "lf_parse_root x (lf_build_doc lf new) = Some (lf_set new lf)"
proof -
  let ?fs = "[(''version'', int_node 1), (''tools'', arr_node (map lf_entry_node (lf_set new lf)))]"
  have look: "xf x (entries_in ?fs) k = map_of ?fs k" for k by (rule look_fields [OF x]) simp
  have f: "xf x (entries_in ?fs) ''version'' = Some (int_node 1)"
    "xf x (entries_in ?fs) ''tools'' = Some (arr_node (map lf_entry_node (lf_set new lf)))"
    by (simp_all only: look) simp_all
  have "opt_items (lf_parse_entry x) (Some (arr_node (map lf_entry_node (lf_set new lf)))) = Some (lf_set new lf)"
    unfolding opt_items_def option.case node_reads bind.simps
    by (rule those_back) (use en lock_entry_back [OF x] in blast)
  moreover have "ensure (x_has_tag x (xtags (tagged_obj_node (Some ''astools_lock'') ?fs)) ''astools_lock'') = Some ()"
    using x by (simp add: xcdn_ok_def tagged_obj_node_def)
  ultimately show ?thesis
    unfolding lf_parse_root_def build_doc_node node_reads bind.simps f by simp
qed

text \<open>What a load can return.\<close>

lemma parse_entry_fine: "lf_parse_entry x item = Some en \<Longrightarrow> lock_fine en"
proof -
  assume "lf_parse_entry x item = Some en"
  then obtain es arts where p: "obj_bytes32 x es ''manifest_sha256'' = Some (le_manifest_sha256 en)" "le_id en \<noteq> []" "le_version en \<noteq> []"
    "opt_items (lf_parse_artifact x) (xf x es ''artifacts'') = Some (le_artifacts en)"
    by (auto simp: lf_parse_entry_def parse_conv)
  have len: "obj_bytes32 x es' k = Some b \<Longrightarrow> length b = 32" for es' k b
    by (auto simp: obj_bytes32_def split: option.splits xnode.splits xvalue.splits if_splits)
  have "list_all artifact_fine (le_artifacts en)"
    by (rule opt_items_all [OF p(4)]) (auto simp: lf_parse_artifact_def parse_conv artifact_fine_def dest: len)
  with p len show ?thesis by (auto simp: lock_fine_def)
qed

lemma load_fine: "astools_lockfile_load x d path = Inr lf \<Longrightarrow> list_all lock_fine lf"
proof -
  assume l: "astools_lockfile_load x d path = Inr lf"
  have *: "list_all lock_fine lf'" if root: "lf_parse_root x n = Some lf'" for n lf'
  proof -
    obtain es where "opt_items (lf_parse_entry x) (xf x es ''tools'') = Some lf'"
      using root by (auto simp: lf_parse_root_def parse_conv)
    from opt_items_all [OF this, of lock_fine] parse_entry_fine show ?thesis by blast
  qed
  show ?thesis using l
    by (auto simp: astools_lockfile_load_def bind_eq_Some_conv split: option.splits sum.splits if_splits dest!: *)
qed

lemma text_of_bytes_of [simp]: "text_of (bytes_of s) = s"
proof -
  have "char_of (unat (of_char c :: byte)) = c" for c
  proof -
    have "unat (of_nat (of_char c :: nat) :: byte) = of_char c" by (simp add: unat_of_nat)
    moreover have "(of_char c :: byte) = of_nat (of_char c)" by (cases c) (simp add: of_nat_of_char)
    ultimately show ?thesis by simp
  qed
  then show ?thesis by (simp add: text_of_def bytes_of_def map_idI)
qed

section \<open>What approval writes\<close>

lemma lookup_set: "lf_lookup (lf_set new lf) (le_id new) (le_version new) = Some new"
  by (induction lf) (auto simp: lf_lookup_def)

lemma set_lf_set: "en \<in> set (lf_set new lf) \<Longrightarrow> en = new \<or> en \<in> set lf"
  by (induction lf) (auto split: if_splits)

text \<open>
  The rows collected so far, against the entries seen: rows are package-relative files with the hash of
  their content, distinct, and every package-relative file among the entries has a row.
\<close>

definition rows_ok :: "disk \<Rightarrow> string \<Rightarrow> astools_lock_artifact list \<Rightarrow> bool" where
  "rows_ok d pkg_dir v \<longleftrightarrow> distinct (map la_path v) \<and>
     list_all (\<lambda>a. pkg_relative (Some (la_path a)) \<and> astools_sha256_file d (Some (pkg_file pkg_dir (la_path a))) = Inr (la_sha256 a)) v"

lemma collect_rows:
  assumes "lf_collect d pkg_dir v es = Inr w" "rows_ok d pkg_dir v"
  shows "rows_ok d pkg_dir w \<and> la_path ` set v \<subseteq> la_path ` set w \<and>
    (\<forall>e \<in> set es. \<forall>a0. entry_argv0 e = Some a0 \<longrightarrow> pkg_relative (Some a0) \<longrightarrow> lf_is_file d (pkg_file pkg_dir a0) \<longrightarrow> a0 \<in> la_path ` set w)"
  using assms
proof (induction es arbitrary: v)
  case (Cons e es)
  show ?case
  proof (cases "entry_argv0 e")
    case None
    with Cons.prems Cons.IH [of v] show ?thesis by simp
  next
    case (Some a0)
    show ?thesis
    proof (cases "\<not> pkg_relative (Some a0) \<or> a0 \<in> la_path ` set v \<or> \<not> lf_is_file d (pkg_file pkg_dir a0)")
      case True
      with Some Cons.prems(1) have "lf_collect d pkg_dir v es = Inr w" by (simp only: lf_collect.simps option.case if_True)
      from Cons.IH [OF this Cons.prems(2)] True Some show ?thesis by auto
    next
      case False
      with Some Cons.prems(1) obtain h where h: "astools_sha256_file d (Some (pkg_file pkg_dir a0)) = Inr h"
        "lf_collect d pkg_dir (v @ [\<lparr>la_path = a0, la_sha256 = h\<rparr>]) es = Inr w"
        by (auto split: sum.splits)
      have "rows_ok d pkg_dir (v @ [\<lparr>la_path = a0, la_sha256 = h\<rparr>])"
        using Cons.prems(2) False h(1) by (simp add: rows_ok_def)
      from Cons.IH [OF h(2) this] Some show ?thesis by auto
    qed
  qed
qed simp

lemma row_of_path:
  "distinct (map la_path v) \<Longrightarrow> a \<in> set v \<Longrightarrow> lf_row v (la_path a) = Some a"
  by (induction v) (auto simp: lf_row_def)

lemma rel_nonempty: "pkg_relative (Some p) \<Longrightarrow> p \<noteq> []"
  by (auto simp: pkg_relative_def split: if_splits)

lemma new_entry_inv:
  assumes "lf_new_entry d ident version pkg_dir m now = Inr new"
  shows "le_id new = ident \<and> le_version new = version \<and> le_approved_at new = now \<and>
    astools_sha256_file d (Some (pkg_file pkg_dir ''manifest.xcdn'')) = Inr (le_manifest_sha256 new) \<and>
    rows_ok d pkg_dir (le_artifacts new) \<and>
    (\<forall>e \<in> set (m_entries m). \<forall>a0. entry_argv0 e = Some a0 \<longrightarrow> pkg_relative (Some a0) \<longrightarrow>
      lf_is_file d (pkg_file pkg_dir a0) \<longrightarrow> a0 \<in> la_path ` set (le_artifacts new))"
proof -
  obtain msha arts where n: "astools_sha256_file d (Some (pkg_file pkg_dir ''manifest.xcdn'')) = Inr msha"
    "lf_collect d pkg_dir [] (m_entries m) = Inr arts"
    "new = \<lparr>le_id = ident, le_version = version, le_manifest_sha256 = msha, le_artifacts = arts, le_approved_at = now\<rparr>"
    using assms by (auto simp: lf_new_entry_def bind_res_Inr_iff lf_collect_artifacts_def)
  from collect_rows [OF n(2)] n(1,3) show ?thesis by (simp add: rows_ok_def)
qed

lemma new_entry_fine:
  assumes "lf_new_entry d ident version pkg_dir m now = Inr new" "ident \<noteq> []" "version \<noteq> []"
  shows "lock_fine new"
proof -
  note inv = new_entry_inv [OF assms(1)]
  have len: "astools_sha256_file d q = Inr h \<Longrightarrow> length h = 32" for q h
    using sha256_file_Inr by (cases q) (auto simp: astools_sha256_file_def)
  have "artifact_fine a" if "a \<in> set (le_artifacts new)" for a
    using inv that len rel_nonempty by (fastforce simp: rows_ok_def list_all_iff artifact_fine_def)
  then show ?thesis using inv assms(2,3) len by (auto simp: lock_fine_def list_all_iff)
qed

text \<open>On the disk that was hashed the new entry passes the check.\<close>

lemma check_new:
  assumes "lf_new_entry d ident version pkg_dir m now = Inr new"
    and same: "\<And>f. f = pkg_file pkg_dir ''manifest.xcdn'' \<or> (\<exists>e \<in> set (m_entries m). \<exists>a0. entry_argv0 e = Some a0 \<and> f = pkg_file pkg_dir a0)
      \<Longrightarrow> same_at d d' f"
    and rows: "\<And>a. a \<in> set (le_artifacts new) \<Longrightarrow> same_at d d' (pkg_file pkg_dir (la_path a))"
    and lf: "lf_lookup lf ident version = Some new"
  shows "astools_lockfile_check d' (Some lf) (Some ident) (Some version) (Some pkg_dir) (Some m) = ASTOOLS_LOCK_OK"
proof -
  note inv = new_entry_inv [OF assms(1)]
  have m: "astools_sha256_file d' (Some (pkg_file pkg_dir ''manifest.xcdn'')) = Inr (le_manifest_sha256 new)"
    using inv same_at_hash [OF same] by simp
  have row: "astools_sha256_file d' (Some (pkg_file pkg_dir (la_path a))) = Inr (la_sha256 a)" "pkg_relative (Some (la_path a))"
    if "a \<in> set (le_artifacts new)" for a
    using inv that same_at_hash [OF rows [OF that]] by (auto simp: rows_ok_def list_all_iff)
  have "check_row d' pkg_dir a" if "a \<in> set (le_artifacts new)" for a
    using row [OF that] by (simp add: check_row_def)
  moreover have "check_entry d' pkg_dir (le_artifacts new) e" if e: "e \<in> set (m_entries m)" for e
  proof (cases "entry_argv0 e")
    case (Some a0)
    have s: "same_at d d' (pkg_file pkg_dir a0)" using same e Some by blast
    show ?thesis
    proof (cases "pkg_relative (Some a0) \<and> lf_is_file d' (pkg_file pkg_dir a0)")
      case True
      then have "lf_is_file d (pkg_file pkg_dir a0)" using s by (simp add: same_at_def)
      then obtain a where a: "a \<in> set (le_artifacts new)" "la_path a = a0" using inv e Some True by blast
      then have "lf_row (le_artifacts new) a0 = Some a" using inv row_of_path by (auto simp: rows_ok_def)
      then show ?thesis using row(1) [OF a(1)] a(2) Some by (simp add: check_entry_def)
    qed (auto simp: check_entry_def Some)
  qed (simp add: check_entry_def)
  ultimately show ?thesis using lf m by (simp add: astools_lockfile_check_def list_all_iff)
qed

lemma collect_paths:
  "lf_collect d pkg_dir v es = Inr w \<Longrightarrow> a \<in> set w \<Longrightarrow> a \<in> set v \<or> (\<exists>e \<in> set es. entry_argv0 e = Some (la_path a))"
  by (induction es arbitrary: v) (fastforce split: option.splits if_splits sum.splits)+

text \<open>Writing the lockfile: what it leaves, whether it succeeds or not.\<close>

lemma lf_write_spec:
  assumes "lf_write d path text = (e, d')" "d_loc d path \<noteq> d_loc d (path @ ''.tmp'')"
  shows "(d_loc d p \<noteq> d_loc d path \<longrightarrow> d_loc d p \<noteq> d_loc d (path @ ''.tmp'') \<longrightarrow> same_at d d' p) \<and>
    (if e = ASTOOLS_OK then d_files d' (d_loc d path) = Some (bytes_of text) \<and> \<not> d_other d (d_loc d path) \<and> d_loc d' = d_loc d \<and>
       d_deny d' = d_deny d \<and> d_hidden d' = d_hidden d \<and> d_bad d' = d_bad d
     else same_at d d' path)"
proof -
  let ?tmp = "path @ ''.tmp''"
  obtain e1 d1 where w: "os_write_file d (Some ?tmp) (bytes_of text) = (e1, d1)" by fastforce
  have keep1: "d_loc d q \<noteq> d_loc d ?tmp \<Longrightarrow> same_at d d1 q" "d_loc d1 = d_loc d" for q
    using write_same [OF w] w by (auto simp: os_write_file_def Let_def split: if_splits option.splits)
  obtain e2 d2 where r: "(if e1 = ASTOOLS_OK then os_file_replace d1 (Some ?tmp) (Some path) else (e1, d1)) = (e2, d2)" by fastforce
  have keep2: "d_loc d q \<noteq> d_loc d ?tmp \<Longrightarrow> d_loc d q \<noteq> d_loc d path \<Longrightarrow> same_at d1 d2 q" for q
    using r replace_same [of d1 ?tmp path e2 d2 q] keep1(2) by (auto simp: same_at_def split: if_splits)
  have loc2: "d_loc d2 = d_loc d"
    using r keep1(2) by (auto simp: os_file_replace_def Let_def split: if_splits option.splits)
  have fail2: "e2 \<noteq> ASTOOLS_OK \<Longrightarrow> d2 = d1"
    using r by (auto simp: os_file_replace_def Let_def split: if_splits option.splits)
  show ?thesis
  proof (cases "e2 = ASTOOLS_OK")
    case True
    with r have e1: "e1 = ASTOOLS_OK" by (auto split: if_splits)
    have d1: "d1 = set_file d (d_loc d ?tmp) (Some (bytes_of text))"
      using w e1 by (auto simp: os_write_file_def Let_def split: if_splits option.splits)
    have "os_file_replace d1 (Some ?tmp) (Some path) = (ASTOOLS_OK, d2)" using r e1 True by simp
    then have d2: "d2 = set_file (set_file d1 (d_loc d path) (Some (bytes_of text))) (d_loc d ?tmp) None \<and> \<not> d_other d (d_loc d path)"
      using assms(2) by (auto simp: os_file_replace_def Let_def d1 split: if_splits option.splits)
    have res: "e = ASTOOLS_OK" "d' = d2" using assms(1) w r True by (auto simp: lf_write_def)
    have "same_at d d2 p" if "d_loc d p \<noteq> d_loc d path" "d_loc d p \<noteq> d_loc d ?tmp"
      by (rule same_at_trans [OF keep1(1) keep2]) (use that in simp_all)
    moreover have "d_files d2 (d_loc d path) = Some (bytes_of text)" "\<not> d_other d (d_loc d path)" "d_loc d2 = d_loc d"
      "d_deny d2 = d_deny d" "d_hidden d2 = d_hidden d" "d_bad d2 = d_bad d"
      using d2 assms(2) by (simp_all add: d1)
    ultimately show ?thesis by (simp add: res)
  next
    case False
    have "e = e2" "d' = snd (os_remove_file d1 (Some ?tmp))"
      using assms(1) w r False fail2 by (auto simp: lf_write_def)
    moreover obtain e3 d3 where "os_remove_file d1 (Some ?tmp) = (e3, d3)" by fastforce
    moreover have "d_loc d q \<noteq> d_loc d ?tmp \<Longrightarrow> same_at d d3 q" for q
      using same_at_trans [OF keep1(1)] remove_same [of d1 ?tmp e3 d3 q] calculation(3) keep1(2) by simp
    ultimately show ?thesis using False assms(2) by simp
  qed
qed

lemma new_entry_error: "lf_new_entry d ident version pkg_dir m now \<noteq> Inl ASTOOLS_OK"
proof -
  have h: "astools_sha256_file d q \<noteq> Inl ASTOOLS_OK" for q
    by (auto simp: astools_sha256_file_def Let_def split: option.splits sum.splits prod.splits if_splits)
  have "lf_collect d pkg_dir v es \<noteq> Inl ASTOOLS_OK" for v es
    by (induction es arbitrary: v) (auto split: option.splits sum.splits if_splits simp: h dest: h [THEN notE])
  then show ?thesis using h by (auto simp: lf_new_entry_def lf_collect_artifacts_def bind_res_def split: sum.splits)
qed

lemma os_read_loop_error: "os_read_loop k buf rest bad \<noteq> Inl ASTOOLS_OK"
proof (induction k buf rest bad rule: os_read_loop.induct)
  case (1 k buf rest bad)
  then show ?case by (subst os_read_loop.simps) (simp add: Let_def)
qed

lemma load_error: "astools_lockfile_load x d path \<noteq> Inl ASTOOLS_OK"
  using os_read_loop_error
  by (auto simp: astools_lockfile_load_def os_read_file_def fopen_rb_def Let_def split: option.splits sum.splits prod.splits if_splits)

lemma approve_cases:
  assumes "astools_lockfile_approve x d path ident version pkg_dir m now = (e, d')"
  shows "(d' = d \<and> e \<noteq> ASTOOLS_OK) \<or>
    (\<exists>p i v g mf lf new out. path = Some p \<and> ident = Some i \<and> version = Some v \<and> pkg_dir = Some g \<and> m = Some mf \<and>
      astools_lockfile_load x d (Some p) = Inr lf \<and> lf_new_entry d i v g mf now = Inr new \<and>
      x_pretty x (lf_build_doc lf new) = Some out \<and> lf_write d p out = (e, d'))"
  using assms new_entry_error load_error
  by (auto simp: astools_lockfile_approve_def split: option.splits sum.splits)

lemma approve_inv:
  assumes "astools_lockfile_approve x d (Some path) (Some ident) (Some version) (Some pkg_dir) (Some m) now = (ASTOOLS_OK, d')"
    and "astools_lockfile_load x d (Some path) = Inr lf"
  shows "\<exists>new out. lf_new_entry d ident version pkg_dir m now = Inr new \<and> x_pretty x (lf_build_doc lf new) = Some out \<and>
    lf_write d path out = (ASTOOLS_OK, d')"
  using approve_cases [OF assms(1)] assms(2) by auto

text \<open>The places the manifest and the runtime files of a package take.\<close>

definition pkg_paths :: "string \<Rightarrow> astools_manifest \<Rightarrow> string set" where
  "pkg_paths pkg_dir m = insert (pkg_file pkg_dir ''manifest.xcdn'')
     {pkg_file pkg_dir a0 | a0 e. e \<in> set (m_entries m) \<and> entry_argv0 e = Some a0}"

lemma load_readable:
  "astools_lockfile_load x d (Some path) = Inr lf \<Longrightarrow> \<not> d_deny d (d_loc d path) \<and> \<not> d_hidden d (d_loc d path)"
  by (auto simp: astools_lockfile_load_def os_read_file_def fopen_rb_def Let_def split: sum.splits option.splits if_splits)

lemma approve_check:
  assumes x: "xcdn_ok x" and load: "astools_lockfile_load x d (Some path) = Inr lf"
    and ok: "astools_lockfile_approve x d (Some path) (Some ident) (Some version) (Some pkg_dir) (Some m) now = (ASTOOLS_OK, d')"
    and names: "ident \<noteq> []" "version \<noteq> []" and times: "list_all (\<lambda>en. time_ok (le_approved_at en)) lf" "time_ok now"
    and print: "\<And>n s. x_pretty x n = Some s \<Longrightarrow> prints_back x n \<and> length s < 2 ^ 60"
    and bad: "d_bad d (d_loc d path) = None"
    and apart: "d_loc d path \<noteq> d_loc d (path @ ''.tmp'')"
      "\<And>f. f \<in> pkg_paths pkg_dir m \<Longrightarrow> d_loc d f \<noteq> d_loc d path \<and> d_loc d f \<noteq> d_loc d (path @ ''.tmp'')"
  shows "\<exists>new. le_id new = ident \<and> le_version new = version \<and> le_approved_at new = now \<and>
    astools_lockfile_load x d' (Some path) = Inr (lf_set new lf) \<and>
    astools_lockfile_check d' (Some (lf_set new lf)) (Some ident) (Some version) (Some pkg_dir) (Some m) = ASTOOLS_LOCK_OK"
proof -
  obtain new out where new: "lf_new_entry d ident version pkg_dir m now = Inr new"
    and out: "x_pretty x (lf_build_doc lf new) = Some out" and w: "lf_write d path out = (ASTOOLS_OK, d')"
    using approve_inv [OF ok load] by blast
  note inv = new_entry_inv [OF new]
  have same: "same_at d d' f" if "f \<in> pkg_paths pkg_dir m" for f
    using lf_write_spec [OF w apart(1), of f] apart(2) [OF that] by simp
  have at: "d_files d' (d_loc d' path) = Some (bytes_of out)" "d_loc d' = d_loc d" "d_deny d' = d_deny d"
    "d_hidden d' = d_hidden d" "d_bad d' = d_bad d"
    using lf_write_spec [OF w apart(1)] by simp_all
  have "fopen_rb d' path = Inr (bytes_of out, False)"
    using load_readable [OF load] bad at by (simp add: fopen_rb_def Let_def)
  moreover have "length (bytes_of out) < 2 ^ 60" using print [OF out] by (simp add: bytes_of_def)
  ultimately have read: "os_read_file d' (Some path) = Inr (bytes_of out)"
    using os_read_loop_all [of "[]" 0 "bytes_of out"] by (simp add: os_read_file_def SIZE_MAX_def)
  have "lock_fine en \<and> time_ok (le_approved_at en)" if "en \<in> set (lf_set new lf)" for en
    using set_lf_set [OF that] load_fine [OF load] new_entry_fine [OF new names] times inv by (auto simp: list_all_iff)
  then have "lf_parse_root x (lf_build_doc lf new) = Some (lf_set new lf)" by (rule build_doc_back [OF x])
  moreover have "x_parse x out = Some [Some (lf_build_doc lf new)]"
    using print [OF out] out by (simp add: prints_back_def)
  ultimately have l: "astools_lockfile_load x d' (Some path) = Inr (lf_set new lf)"
    by (simp add: astools_lockfile_load_def read doc_first_def)
  have found: "lf_lookup (lf_set new lf) ident version = Some new" using lookup_set [of new lf] inv by simp
  have "astools_lockfile_check d' (Some (lf_set new lf)) (Some ident) (Some version) (Some pkg_dir) (Some m) = ASTOOLS_LOCK_OK"
  proof (rule check_new [OF new _ _ found])
    fix f
    assume "f = pkg_file pkg_dir ''manifest.xcdn'' \<or> (\<exists>e \<in> set (m_entries m). \<exists>a0. entry_argv0 e = Some a0 \<and> f = pkg_file pkg_dir a0)"
    then show "same_at d d' f" by (intro same) (auto simp: pkg_paths_def)
  next
    fix a
    assume a: "a \<in> set (le_artifacts new)"
    have "lf_collect d pkg_dir [] (m_entries m) = Inr (le_artifacts new)"
      using new by (auto simp: lf_new_entry_def bind_res_Inr_iff lf_collect_artifacts_def)
    from collect_paths [OF this a] show "same_at d d' (pkg_file pkg_dir (la_path a))"
      by (intro same) (auto simp: pkg_paths_def)
  qed
  with l inv show ?thesis by blast
qed

section \<open>A sample\<close>

definition lock_tool :: astools_manifest where
  "lock_tool = demo_tool\<lparr>m_entries := [\<lparr>en_os = ''linux'', en_arch = ''x86_64'', en_argv = [''bin/run'']\<rparr>]\<rparr>"

definition lock_disk :: disk where
  "lock_disk = \<lparr>d_loc = (\<lambda>p. p), d_files = (\<lambda>l. if l = ''/p/manifest.xcdn'' then Some [1, 2] else if l = ''/p/bin/run'' then Some [3] else None),
     d_other = (\<lambda>l. False), d_deny = (\<lambda>l. False), d_bad = (\<lambda>l. None), d_hidden = (\<lambda>l. False), d_ro = (\<lambda>l. False),
     d_werr = (\<lambda>l. None), d_mverr = (\<lambda>l k. None), d_pin = (\<lambda>l. False)\<rparr>"

definition lock_new :: astools_lock_entry where
  "lock_new = \<lparr>le_id = ''demo'', le_version = ''1.0.0'', le_manifest_sha256 = sha256_ref [1, 2],
     le_artifacts = [\<lparr>la_path = ''bin/run'', la_sha256 = sha256_ref [3]\<rparr>], le_approved_at = 0\<rparr>"

definition lock_xcdn :: xcdn where
  "lock_xcdn = \<lparr>x_get = first_key, x_has_tag = (\<lambda>ts t. Some t \<in> set ts),
     x_parse = (\<lambda>s. if s = ''lock'' then Some [Some (lf_build_doc [] lock_new)] else None),
     x_pretty = (\<lambda>n. if n = lf_build_doc [] lock_new then Some ''lock'' else None)\<rparr>"

lemma lock_xcdn_ok: "xcdn_ok lock_xcdn"
proof -
  have "doc_ok (lf_build_doc [] lock_new)"
    by (simp add: build_doc_node lf_entry_node_def lock_new_def tagged_obj_node_def obj_of_def arr_node_def wrap_value_def
        str_node_def val_string_def int_node_def int64_ok_def INT64_MAX_def INT64_MIN_def all_some_def)
  then show ?thesis using first_key_ok by (simp add: xcdn_ok_def lock_xcdn_def)
qed

lemma lock_relative: "pkg_relative (Some ''bin/run'')"
  by (simp add: pkg_relative_def rel_loop.simps is_sep_def os_path_is_abs_def Let_def)

lemma lock_paths: "pkg_file ''/p'' ''manifest.xcdn'' = ''/p/manifest.xcdn''" "pkg_file ''/p'' ''bin/run'' = ''/p/bin/run''"
  by (simp_all add: pkg_file_def os_path_join_def)

lemma lock_hashes:
  "astools_sha256_file lock_disk (Some ''/p/manifest.xcdn'') = Inr (sha256_ref [1, 2])"
  "astools_sha256_file lock_disk (Some ''/p/bin/run'') = Inr (sha256_ref [3])"
  by (simp_all add: sha256_file_Inr content_def fopen_rb_def lock_disk_def)

lemma lock_is_file: "lf_is_file lock_disk ''/p/bin/run''"
  by (simp add: lf_is_file_def lock_disk_def)

lemma lock_new_entry: "lf_new_entry lock_disk ''demo'' ''1.0.0'' ''/p'' lock_tool 0 = Inr lock_new"
  by (simp add: lf_new_entry_def lf_collect_artifacts_def lock_tool_def entry_argv0_def lock_paths lock_relative lock_hashes lock_new_def
      lock_is_file)

lemma lock_load: "astools_lockfile_load lock_xcdn lock_disk (Some ''l'') = Inr []"
  by (simp add: astools_lockfile_load_def os_read_file_def fopen_rb_def lock_disk_def)

lemma lock_approve:
  "astools_lockfile_approve lock_xcdn lock_disk (Some ''l'') (Some ''demo'') (Some ''1.0.0'') (Some ''/p'') (Some lock_tool) 0 =
    (ASTOOLS_OK, set_file (set_file (set_file lock_disk ''l.tmp'' (Some (bytes_of ''lock''))) ''l'' (Some (bytes_of ''lock''))) ''l.tmp'' None)"
proof -
  have d: "d_loc lock_disk p = p" "d_ro lock_disk l = False" "d_other lock_disk l = False" "d_hidden lock_disk l = False"
    "d_werr lock_disk l = None" "d_mverr lock_disk l k = None" for p l k
    by (simp_all add: lock_disk_def)
  have "x_pretty lock_xcdn (lf_build_doc [] lock_new) = Some ''lock''" by (simp add: lock_xcdn_def)
  then show ?thesis
    by (simp add: astools_lockfile_approve_def lock_load lock_new_entry lf_write_def os_write_file_def os_file_replace_def d Let_def)
qed

section \<open>Properties\<close>

text \<open>
  C27: After a successful approval the lockfile loads as the earlier one with the approved entry in its
  place, every other entry as it was, and the package checks as OK - provided the recorded times and the
  time of the approval are printable (years 0 to 9999; a later one makes the lockfile unreadable, see
  \<open>late_stamp_unreadable\<close>), the printed document is read back, and the lockfile can be read and with its temporary
  file is not a file of the package.
\<close>

theorem lockfile_approve_check:
  assumes "xcdn_ok x" "astools_lockfile_load x d (Some path) = Inr lf"
    and "astools_lockfile_approve x d (Some path) (Some ident) (Some version) (Some pkg_dir) (Some m) now = (ASTOOLS_OK, d')"
    and "ident \<noteq> []" "version \<noteq> []" "list_all (\<lambda>en. time_ok (le_approved_at en)) lf" "time_ok now"
    and "\<And>n s. x_pretty x n = Some s \<Longrightarrow> prints_back x n \<and> length s < 2 ^ 60"
    and "d_bad d (d_loc d path) = None" "d_loc d path \<noteq> d_loc d (path @ ''.tmp'')"
    and "\<And>f. f \<in> pkg_paths pkg_dir m \<Longrightarrow> d_loc d f \<noteq> d_loc d path \<and> d_loc d f \<noteq> d_loc d (path @ ''.tmp'')"
  shows "\<exists>new. le_id new = ident \<and> le_version new = version \<and> le_approved_at new = now \<and>
    astools_lockfile_load x d' (Some path) = Inr (lf_set new lf) \<and>
    astools_lockfile_check d' (Some (lf_set new lf)) (Some ident) (Some version) (Some pkg_dir) (Some m) = ASTOOLS_LOCK_OK"
  by (rule approve_check [OF assms])

theorem lockfile_approve_check_witness:
  "\<exists>new d'. le_id new = ''demo'' \<and> astools_lockfile_load lock_xcdn d' (Some ''l'') = Inr [new] \<and>
    astools_lockfile_check d' (Some [new]) (Some ''demo'') (Some ''1.0.0'') (Some ''/p'') (Some lock_tool) = ASTOOLS_LOCK_OK"
proof -
  have files: "pkg_paths ''/p'' lock_tool = {''/p/manifest.xcdn'', ''/p/bin/run''}"
    by (auto simp: pkg_paths_def lock_paths lock_tool_def entry_argv0_def)
  have print: "prints_back lock_xcdn n \<and> length s < 2 ^ 60" if "x_pretty lock_xcdn n = Some s" for n s
    using that by (auto simp: lock_xcdn_def prints_back_def split: if_splits)
  have "\<exists>new. le_id new = ''demo'' \<and> le_version new = ''1.0.0'' \<and> le_approved_at new = 0 \<and>
    astools_lockfile_load lock_xcdn (set_file (set_file (set_file lock_disk ''l.tmp'' (Some (bytes_of ''lock''))) ''l''
      (Some (bytes_of ''lock''))) ''l.tmp'' None) (Some ''l'') = Inr (lf_set new []) \<and>
    astools_lockfile_check (set_file (set_file (set_file lock_disk ''l.tmp'' (Some (bytes_of ''lock''))) ''l''
      (Some (bytes_of ''lock''))) ''l.tmp'' None) (Some (lf_set new [])) (Some ''demo'') (Some ''1.0.0'') (Some ''/p'')
      (Some lock_tool) = ASTOOLS_LOCK_OK"
  proof (rule lockfile_approve_check [OF lock_xcdn_ok lock_load lock_approve _ _ _ _ print])
    show "d_loc lock_disk f \<noteq> d_loc lock_disk ''l'' \<and> d_loc lock_disk f \<noteq> d_loc lock_disk (''l'' @ ''.tmp'')"
      if "f \<in> pkg_paths ''/p'' lock_tool" for f
      using that by (auto simp: files lock_disk_def)
  qed (simp_all add: lock_disk_def time_ok_def)
  then show ?thesis by auto
qed

text \<open>
  C28: A package that checks as OK against an approved entry has the manifest that was hashed at approval,
  and every file its manifest starts from inside the package was hashed then as it is now: on whatever
  disk, under whatever manifest, the SHA-256 digests agree.
\<close>

theorem lockfile_ok_pins:
  assumes "lf_new_entry d0 ident version pkg_dir m0 now = Inr new" "lf_lookup lf ident version = Some new"
    and "astools_lockfile_check d (Some lf) (Some ident) (Some version) (Some pkg_dir) (Some m) = ASTOOLS_LOCK_OK"
    and "f = pkg_file pkg_dir ''manifest.xcdn'' \<or>
      (\<exists>e \<in> set (m_entries m). \<exists>a0. entry_argv0 e = Some a0 \<and> pkg_relative (Some a0) \<and> f = pkg_file pkg_dir a0 \<and> lf_is_file d f)"
  shows "\<exists>b0 b. content d0 f = Some b0 \<and> content d f = Some b \<and> sha256_ref b = sha256_ref b0"
proof -
  note inv = new_entry_inv [OF assms(1)]
  have hash: "\<exists>b0 b. content d0 q = Some b0 \<and> content d q = Some b \<and> sha256_ref b = sha256_ref b0"
    if "astools_sha256_file d0 (Some q) = Inr h" "astools_sha256_file d (Some q) = Inr h" for q h
    using that by (auto simp: sha256_file_Inr)
  have man: "astools_sha256_file d (Some (pkg_file pkg_dir ''manifest.xcdn'')) = Inr (le_manifest_sha256 new)"
    and ents: "list_all (check_entry d pkg_dir (le_artifacts new)) (m_entries m)"
    using assms(2,3) by (auto simp: astools_lockfile_check_def split: if_splits)
  from assms(4) show ?thesis
  proof (elim disjE bexE exE conjE)
    assume "f = pkg_file pkg_dir ''manifest.xcdn''"
    with hash man inv show ?thesis by blast
  next
    fix e a0
    assume e: "e \<in> set (m_entries m)" "entry_argv0 e = Some a0" "pkg_relative (Some a0)" "f = pkg_file pkg_dir a0" "lf_is_file d f"
    then have "check_entry d pkg_dir (le_artifacts new) e" using ents by (simp add: list_all_iff)
    then obtain row where row: "lf_row (le_artifacts new) a0 = Some row" "astools_sha256_file d (Some f) = Inr (la_sha256 row)"
      using e by (auto simp: check_entry_def split: sum.splits option.splits)
    then have "row \<in> set (le_artifacts new)" "la_path row = a0" by (auto simp: lf_row_def find_Some_iff)
    then have "astools_sha256_file d0 (Some f) = Inr (la_sha256 row)" using inv e(4) by (auto simp: rows_ok_def list_all_iff)
    with hash row(2) show ?thesis by blast
  qed
qed

theorem lockfile_ok_pins_witness:
  "\<exists>b0 b. content lock_disk ''/p/bin/run'' = Some b0 \<and> content lock_disk ''/p/bin/run'' = Some b \<and> sha256_ref b = sha256_ref b0"
proof -
  have look: "lf_lookup [lock_new] ''demo'' ''1.0.0'' = Some lock_new" by (simp add: lf_lookup_def lock_new_def)
  have "same_at lock_disk lock_disk f" for f by (simp add: same_at_def)
  from check_new [OF lock_new_entry this this look]
  have "astools_lockfile_check lock_disk (Some [lock_new]) (Some ''demo'') (Some ''1.0.0'') (Some ''/p'') (Some lock_tool) = ASTOOLS_LOCK_OK" .
  from lockfile_ok_pins [OF lock_new_entry look this, of "''/p/bin/run''"] show ?thesis
    using lock_relative lock_is_file by (auto simp: lock_tool_def entry_argv0_def lock_paths)
qed

text \<open>
  C29: Approval is atomic. When it fails, for whatever reason, the lockfile reads exactly as before; when it
  succeeds the lockfile holds the whole new text, which is the document made from the lockfile as it was and the new entry
  with the digests of the package; and no other file but the temporary one is touched.
\<close>

theorem lockfile_approve_atomic:
  assumes "astools_lockfile_approve x d (Some path) ident version pkg_dir m now = (e, d')"
    and "d_loc d path \<noteq> d_loc d (path @ ''.tmp'')"
  shows "(if e = ASTOOLS_OK then \<exists>i v g mf lf new out. ident = Some i \<and> version = Some v \<and> pkg_dir = Some g \<and> m = Some mf \<and>
        astools_lockfile_load x d (Some path) = Inr lf \<and> lf_new_entry d i v g mf now = Inr new \<and>
        x_pretty x (lf_build_doc lf new) = Some out \<and> d_files d' (d_loc d path) = Some (bytes_of out)
      else same_at d d' path) \<and>
    (d_loc d p \<in> {d_loc d path, d_loc d (path @ ''.tmp'')} \<or> same_at d d' p)"
  using approve_cases [OF assms(1)]
proof (elim disjE exE conjE)
  fix q i v g mf lf new out
  assume w: "Some path = Some q" "x_pretty x (lf_build_doc lf new) = Some out" "lf_write d q out = (e, d')"
    and l: "ident = Some i" "version = Some v" "pkg_dir = Some g" "m = Some mf" "astools_lockfile_load x d (Some q) = Inr lf"
      "lf_new_entry d i v g mf now = Inr new"
  then have "lf_write d path out = (e, d')" by simp
  from lf_write_spec [OF this assms(2), of p] w(1,2) l show ?thesis by auto
qed (simp add: same_at_def)

theorem lockfile_approve_atomic_witness:
  "fst (astools_lockfile_approve lock_xcdn (lock_disk\<lparr>d_werr := (\<lambda>l. Some 2)\<rparr>) (Some ''l'') (Some ''demo'') (Some ''1.0.0'') (Some ''/p'')
      (Some lock_tool) 0) = ASTOOLS_ERR_IO \<and>
   same_at (lock_disk\<lparr>d_werr := (\<lambda>l. Some 2)\<rparr>) (snd (astools_lockfile_approve lock_xcdn (lock_disk\<lparr>d_werr := (\<lambda>l. Some 2)\<rparr>)
      (Some ''l'') (Some ''demo'') (Some ''1.0.0'') (Some ''/p'') (Some lock_tool) 0)) ''l''"
proof -
  let ?d = "lock_disk\<lparr>d_werr := (\<lambda>l. Some 2)\<rparr>"
  let ?r = "astools_lockfile_approve lock_xcdn ?d (Some ''l'') (Some ''demo'') (Some ''1.0.0'') (Some ''/p'') (Some lock_tool) 0"
  have f: "fopen_rb ?d = fopen_rb lock_disk" "lf_is_file ?d = lf_is_file lock_disk" "os_file_exists ?d = os_file_exists lock_disk"
    by (simp_all add: fun_eq_iff fopen_rb_def lf_is_file_def os_file_exists_def Let_def split: option.split)
  have h: "astools_sha256_file ?d = astools_sha256_file lock_disk" by (intro ext) (simp only: astools_sha256_file_def f)
  have "lf_collect ?d g v es = lf_collect lock_disk g v es" for g v es
    by (induction es arbitrary: v) (simp_all add: f h split: option.split sum.split)
  then have new: "lf_new_entry ?d ''demo'' ''1.0.0'' ''/p'' lock_tool 0 = Inr lock_new"
    using lock_new_entry by (simp add: lf_new_entry_def lf_collect_artifacts_def h)
  have load: "astools_lockfile_load lock_xcdn ?d (Some ''l'') = Inr []"
    using lock_load by (simp add: astools_lockfile_load_def os_read_file_def f)
  have "x_pretty lock_xcdn (lf_build_doc [] lock_new) = Some ''lock''" by (simp add: lock_xcdn_def)
  moreover have "d_loc ?d p = p" "d_ro ?d l = False" "d_other ?d l = False" "d_hidden ?d l = False" "d_werr ?d l = Some 2" for p l
    by (simp_all add: lock_disk_def)
  ultimately have e: "fst ?r = ASTOOLS_ERR_IO"
    by (simp add: astools_lockfile_approve_def load new lf_write_def os_write_file_def Let_def)
  obtain d' where r: "?r = (ASTOOLS_ERR_IO, d')" using e by (metis prod.collapse)
  have "same_at ?d d' ''l''"
    using lockfile_approve_atomic [OF r, of "''l''"] by (simp add: lock_disk_def)
  with r show ?thesis by simp
qed

text \<open>
  A time the parser accepts may lie beyond the years the formatter prints: such a stamp is written as an
  empty text, and the entry then no longer loads.
\<close>

lemma late_stamp_unreadable:
  assumes "xcdn_ok x" "le_approved_at en = 253402300859" "lock_fine en"
  shows "lf_parse_stamp (Some (wrap_value (XDatetime (Some ''9999-12-31T23:59:59-00:01'')))) = Some 253402300859 \<and>
    lf_parse_entry x (Some (lf_entry_node en)) = None"
proof -
  have p: "astools_time_parse_rfc3339 (Some ''9999-12-31T23:59:59-00:01'') = Some 253402300859" by code_simp
  have f: "astools_time_format_rfc3339 253402300859 = []" by code_simp
  have n: "astools_time_parse_rfc3339 (Some []) = None" by code_simp
  let ?arts = "map (\<lambda>a. tagged_obj_node None
         [(''path'', str_node (la_path a)), (''sha256'', wrap_value (XBytes (la_sha256 a)))]) (le_artifacts en)"
  let ?fs = "[(''id'', str_node (le_id en)), (''version'', str_node (le_version en)),
      (''manifest_sha256'', wrap_value (XBytes (le_manifest_sha256 en))), (''artifacts'', arr_node ?arts),
      (''approved_at'', wrap_value (XDatetime (Some (astools_time_format_rfc3339 (le_approved_at en)))))]"
  have look: "xf x (entries_in ?fs) k = map_of ?fs k" for k by (rule look_fields [OF assms(1)]) simp
  have "xf x (entries_in ?fs) ''approved_at'' = Some (wrap_value (XDatetime (Some [])))"
    by (simp only: look) (simp add: assms(2) f)
  then have "lf_parse_stamp (xf x (entries_in ?fs) ''approved_at'') = None" by (simp add: lf_parse_stamp_def n)
  then have "lf_parse_entry x (Some (lf_entry_node en)) = None"
    unfolding lf_parse_entry_def lf_entry_node_def node_reads bind.simps by (auto simp: bind_eq_None_conv)
  then show ?thesis by (simp add: lf_parse_stamp_def p)
qed

end
