(* ===== verification/As_Config.thy ===== *)
theory As_Config
  imports As_Lockfile As_Selection
begin

text \<open>
  \<^verbatim>\<open>src/config.c\<close>: the defaults, the merge of a configuration document over them, and the tool roots of
  the environment. Every failure of the document is \<open>ASTOOLS_ERR_CONFIG\<close>; after one the caller discards
  the configuration, so that the result carries none. The messages are not modelled.
\<close>

section \<open>The configuration\<close>

definition ASTOOLS_TRUST_STANDARD :: nat where "ASTOOLS_TRUST_STANDARD = 0"
definition ASTOOLS_TRUST_FULL :: nat where "ASTOOLS_TRUST_FULL = 1"
definition ASTOOLS_PIN_OFF :: nat where "ASTOOLS_PIN_OFF = 0"
definition ASTOOLS_PIN_WARN :: nat where "ASTOOLS_PIN_WARN = 1"
definition ASTOOLS_PIN_ENFORCE :: nat where "ASTOOLS_PIN_ENFORCE = 2"
definition ASTOOLS_SB_NONE :: nat where "ASTOOLS_SB_NONE = 0"
definition ASTOOLS_SB_BASIC :: nat where "ASTOOLS_SB_BASIC = 1"
definition ASTOOLS_SB_STRICT :: nat where "ASTOOLS_SB_STRICT = 2"
definition ASTOOLS_RESVAL_OFF :: nat where "ASTOOLS_RESVAL_OFF = 0"
definition ASTOOLS_RESVAL_WARN :: nat where "ASTOOLS_RESVAL_WARN = 1"
definition ASTOOLS_RESVAL_ENFORCE :: nat where "ASTOOLS_RESVAL_ENFORCE = 2"
definition ASTOOLS_CATALOG_INDEX :: nat where "ASTOOLS_CATALOG_INDEX = 0"
definition ASTOOLS_CATALOG_SUMMARY :: nat where "ASTOOLS_CATALOG_SUMMARY = 1"
definition ASTOOLS_CATALOG_FULL :: nat where "ASTOOLS_CATALOG_FULL = 2"
definition ASTOOLS_LOG_ERROR :: nat where "ASTOOLS_LOG_ERROR = 0"
definition ASTOOLS_LOG_WARN :: nat where "ASTOOLS_LOG_WARN = 1"
definition ASTOOLS_LOG_INFO :: nat where "ASTOOLS_LOG_INFO = 2"
definition ASTOOLS_LOG_DEBUG :: nat where "ASTOOLS_LOG_DEBUG = 3"

record astools_root =
  r_path :: "string option"
  r_trust :: nat

record astools_config =
  cf_reg_paths :: "astools_root list"
  cf_watch_poll :: bool
  cf_poll_interval_ms :: int
  cf_pinning :: nat
  cf_lock_path :: "string option"
  cf_pins :: "astools_pin list"
  cf_workspace_root :: "string option"
  cf_scratch :: "string option"
  cf_sandbox_level :: nat
  cf_strict_fallback_reject :: bool
  cf_allow_library :: bool
  cf_executable_paths :: "string list"
  cf_workspace_access :: nat
  cf_tool_grants :: "astools_grant list"
  cf_timeout_ms :: int
  cf_max_concurrent :: int
  cf_max_output_bytes :: int
  cf_stderr_max_bytes :: int
  cf_result_validation :: nat
  cf_catalog_level :: nat
  cf_char_budget :: int
  cf_priority :: "string list"
  cf_mcp_management :: bool
  cf_log_path :: "string option"
  cf_log_level :: nat
  cf_log_max_size_kb :: int
  cf_log_max_files :: int
  cf_log_sync :: bool
  cf_audit :: bool
  cf_config_dir :: string

definition astools_config_defaults :: astools_config where
  "astools_config_defaults = \<lparr>
     cf_reg_paths = [\<lparr>r_path = Some ''tools'', r_trust = ASTOOLS_TRUST_STANDARD\<rparr>],
     cf_watch_poll = True, cf_poll_interval_ms = 5000, cf_pinning = ASTOOLS_PIN_WARN,
     cf_lock_path = Some ''astools.lock.xcdn'', cf_pins = [],
     cf_workspace_root = Some ''.'', cf_scratch = None,
     cf_sandbox_level = ASTOOLS_SB_BASIC, cf_strict_fallback_reject = False, cf_allow_library = False,
     cf_executable_paths = [],
     cf_workspace_access = ASTOOLS_ACCESS_RW, cf_tool_grants = [],
     cf_timeout_ms = 30000, cf_max_concurrent = 4, cf_max_output_bytes = 1048576, cf_stderr_max_bytes = 262144,
     cf_result_validation = ASTOOLS_RESVAL_WARN,
     cf_catalog_level = ASTOOLS_CATALOG_SUMMARY, cf_char_budget = 8000, cf_priority = [],
     cf_mcp_management = False,
     cf_log_path = None, cf_log_level = ASTOOLS_LOG_INFO, cf_log_max_size_kb = 5120, cf_log_max_files = 3,
     cf_log_sync = False, cf_audit = False, cf_config_dir = ''.''\<rparr>"

section \<open>Values\<close>

definition cfg_fail :: "'a res" where
  "cfg_fail = Inl ASTOOLS_ERR_CONFIG"

definition get_string :: "xnode \<Rightarrow> string res" where
  "get_string n = (case xval n of Some (XString (Some s)) \<Rightarrow> Inr s | _ \<Rightarrow> cfg_fail)"

definition get_bool :: "xnode \<Rightarrow> bool res" where
  "get_bool n = (case xval n of Some (XBool b) \<Rightarrow> Inr b | _ \<Rightarrow> cfg_fail)"

definition get_int :: "int \<Rightarrow> int \<Rightarrow> xnode \<Rightarrow> int res" where
  "get_int minv maxv n =
     (case xval n of Some (XInt i) \<Rightarrow> if i < minv \<or> i > maxv then cfg_fail else Inr i | _ \<Rightarrow> cfg_fail)"

definition get_duration_ms :: "xnode \<Rightarrow> int res" where
  "get_duration_ms n =
     (case xval n of
        Some (XDuration (Some s)) \<Rightarrow>
          (case astools_duration_parse_ms (Some s) of
             None \<Rightarrow> cfg_fail
           | Some ms \<Rightarrow> if ms \<le> 0 then cfg_fail else if ms > ASTOOLS_PERIOD_MAX_MS then cfg_fail else Inr ms)
      | _ \<Rightarrow> cfg_fail)"

definition get_enum :: "(string \<times> nat) list \<Rightarrow> xnode \<Rightarrow> nat res" where
  "get_enum choices n =
     bind_res (get_string n) (\<lambda>s. case map_of choices s of None \<Rightarrow> cfg_fail | Some v \<Rightarrow> Inr v)"

section \<open>Entries in order\<close>

text \<open>
  Every object of the document is read entry by entry; an entry without a key or a node, or with an
  unknown key, is an error. A key given twice is taken twice, the later value staying.
\<close>

fun cfg_entries :: "(string \<Rightarrow> xnode \<Rightarrow> 'c \<Rightarrow> 'c res) \<Rightarrow> xentries \<Rightarrow> 'c \<Rightarrow> 'c res" where
  "cfg_entries f [] c = Inr c"
| "cfg_entries f ((k, n) # es) c =
     (case (k, n) of
        (Some k, Some n) \<Rightarrow> bind_res (f k n c) (cfg_entries f es)
      | _ \<Rightarrow> cfg_fail)"

definition cfg_object :: "(string \<Rightarrow> xnode \<Rightarrow> 'c \<Rightarrow> 'c res) \<Rightarrow> xvalue option \<Rightarrow> 'c \<Rightarrow> 'c res" where
  "cfg_object f v c = (case v of Some (XObject es) \<Rightarrow> cfg_entries f es c | _ \<Rightarrow> cfg_fail)"

fun cfg_items :: "(xvalue option \<Rightarrow> 'a res) \<Rightarrow> xnode option list \<Rightarrow> 'a list res" where
  "cfg_items f [] = Inr []"
| "cfg_items f (n # ns) =
     bind_res (f (Option.bind n xval)) (\<lambda>a. bind_res (cfg_items f ns) (\<lambda>as. Inr (a # as)))"

definition cfg_array :: "(xvalue option \<Rightarrow> 'a res) \<Rightarrow> xvalue option \<Rightarrow> 'a list res" where
  "cfg_array f v = (case v of Some (XArray ns) \<Rightarrow> cfg_items f ns | _ \<Rightarrow> cfg_fail)"

section \<open>Compound values\<close>

definition access_vals :: "(string \<times> nat) list" where
  "access_vals = [(''read'', ASTOOLS_ACCESS_READ), (''write'', ASTOOLS_ACCESS_WRITE), (''read-write'', ASTOOLS_ACCESS_RW)]"

definition cfg_fs_key :: "string \<Rightarrow> xnode \<Rightarrow> astools_fs_perm \<times> bool \<Rightarrow> (astools_fs_perm \<times> bool) res" where
  "cfg_fs_key k n = (\<lambda>(f, has_access).
     if k = ''path'' then bind_res (get_string n) (\<lambda>s. Inr (f\<lparr>fpath := Some s\<rparr>, has_access))
     else if k = ''access'' then bind_res (get_enum access_vals n) (\<lambda>a. Inr (f\<lparr>faccess := a\<rparr>, True))
     else cfg_fail)"

definition cfg_fs_perm :: "xvalue option \<Rightarrow> astools_fs_perm res" where
  "cfg_fs_perm v =
     bind_res (cfg_object cfg_fs_key v (\<lparr>fpath = None, faccess = 0\<rparr>, False)) (\<lambda>(f, has_access).
       if fpath f = None then cfg_fail else if \<not> has_access then cfg_fail else Inr f)"

definition parse_fs_perms :: "xvalue option \<Rightarrow> astools_fs_perm list res" where
  "parse_fs_perms v = cfg_array cfg_fs_perm v"

definition parse_str_array :: "xvalue option \<Rightarrow> string list res" where
  "parse_str_array v = cfg_array (\<lambda>w. case w of Some (XString (Some s)) \<Rightarrow> Inr s | _ \<Rightarrow> cfg_fail) v"

definition trust_vals :: "(string \<times> nat) list" where
  "trust_vals = [(''standard'', ASTOOLS_TRUST_STANDARD), (''full'', ASTOOLS_TRUST_FULL)]"

definition cfg_root_key :: "string \<Rightarrow> xnode \<Rightarrow> astools_root \<Rightarrow> astools_root res" where
  "cfg_root_key k n r =
     (if k = ''path'' then bind_res (get_string n) (\<lambda>s. Inr (r\<lparr>r_path := Some s\<rparr>))
      else if k = ''trust'' then bind_res (get_enum trust_vals n) (\<lambda>t. Inr (r\<lparr>r_trust := t\<rparr>))
      else cfg_fail)"

definition cfg_root :: "xvalue option \<Rightarrow> astools_root res" where
  "cfg_root v =
     bind_res (cfg_object cfg_root_key v \<lparr>r_path = None, r_trust = ASTOOLS_TRUST_STANDARD\<rparr>) (\<lambda>r.
       if r_path r = None then cfg_fail else Inr r)"

definition parse_reg_paths :: "xvalue option \<Rightarrow> astools_config \<Rightarrow> astools_config res" where
  "parse_reg_paths v cfg = bind_res (cfg_array cfg_root v) (\<lambda>rs. Inr (cfg\<lparr>cf_reg_paths := rs\<rparr>))"

definition cfg_pin_key :: "string \<Rightarrow> xnode \<Rightarrow> astools_pin \<Rightarrow> astools_pin res" where
  "cfg_pin_key k n p =
     (if k = ''tool'' then bind_res (get_string n) (\<lambda>s. Inr (p\<lparr>pin_tool := Some s\<rparr>))
      else if k = ''version'' then bind_res (get_string n) (\<lambda>s. Inr (p\<lparr>pin_version := Some s\<rparr>))
      else cfg_fail)"

definition cfg_pin :: "xvalue option \<Rightarrow> astools_pin res" where
  "cfg_pin v =
     bind_res (cfg_object cfg_pin_key v \<lparr>pin_tool = None, pin_version = None\<rparr>) (\<lambda>p.
       if pin_tool p = None \<or> pin_version p = None then cfg_fail else Inr p)"

definition parse_reg_pins :: "xvalue option \<Rightarrow> astools_config \<Rightarrow> astools_config res" where
  "parse_reg_pins v cfg = bind_res (cfg_array cfg_pin v) (\<lambda>ps. Inr (cfg\<lparr>cf_pins := ps\<rparr>))"

definition cfg_grant_key :: "string \<Rightarrow> xnode \<Rightarrow> astools_grant \<Rightarrow> astools_grant res" where
  "cfg_grant_key k n g =
     (if k = ''tool'' then bind_res (get_string n) (\<lambda>s. Inr (g\<lparr>g_tool := Some s\<rparr>))
      else if k = ''fs'' then bind_res (parse_fs_perms (xval n)) (\<lambda>fs. Inr (g\<lparr>g_fs := fs\<rparr>))
      else if k = ''net'' then bind_res (get_bool n) (\<lambda>b. Inr (g\<lparr>g_net := b\<rparr>))
      else if k = ''proc'' then bind_res (get_bool n) (\<lambda>b. Inr (g\<lparr>g_proc := b\<rparr>))
      else if k = ''env'' then bind_res (parse_str_array (xval n)) (\<lambda>es. Inr (g\<lparr>g_env := map Some es\<rparr>))
      else cfg_fail)"

definition cfg_grant :: "xvalue option \<Rightarrow> astools_grant res" where
  "cfg_grant v =
     bind_res (cfg_object cfg_grant_key v \<lparr>g_tool = None, g_fs = [], g_net = False, g_proc = False, g_env = []\<rparr>) (\<lambda>g.
       if g_tool g = None then cfg_fail else Inr g)"

definition parse_grant_list :: "xvalue option \<Rightarrow> astools_config \<Rightarrow> astools_config res" where
  "parse_grant_list v cfg = bind_res (cfg_array cfg_grant v) (\<lambda>gs. Inr (cfg\<lparr>cf_tool_grants := gs\<rparr>))"

section \<open>Sections\<close>

definition pin_vals :: "(string \<times> nat) list" where
  "pin_vals = [(''off'', ASTOOLS_PIN_OFF), (''warn'', ASTOOLS_PIN_WARN), (''enforce'', ASTOOLS_PIN_ENFORCE)]"

definition sec_registry :: "string \<Rightarrow> xnode \<Rightarrow> astools_config \<Rightarrow> astools_config res" where
  "sec_registry k n cfg =
     (if k = ''paths'' then parse_reg_paths (xval n) cfg
      else if k = ''watch'' then bind_res (get_enum [(''poll'', 1), (''off'', 0)] n) (\<lambda>w. Inr (cfg\<lparr>cf_watch_poll := w \<noteq> 0\<rparr>))
      else if k = ''poll_interval'' then bind_res (get_duration_ms n) (\<lambda>ms. Inr (cfg\<lparr>cf_poll_interval_ms := ms\<rparr>))
      else if k = ''pinning'' then bind_res (get_enum pin_vals n) (\<lambda>p. Inr (cfg\<lparr>cf_pinning := p\<rparr>))
      else if k = ''lock_path'' then bind_res (get_string n) (\<lambda>s. Inr (cfg\<lparr>cf_lock_path := Some s\<rparr>))
      else if k = ''pins'' then parse_reg_pins (xval n) cfg
      else cfg_fail)"

definition sec_workspace :: "string \<Rightarrow> xnode \<Rightarrow> astools_config \<Rightarrow> astools_config res" where
  "sec_workspace k n cfg =
     (if k = ''root'' then bind_res (get_string n) (\<lambda>s. Inr (cfg\<lparr>cf_workspace_root := Some s\<rparr>))
      else if k = ''scratch'' then
        (if xval n = Some XNull then Inr (cfg\<lparr>cf_scratch := None\<rparr>)
         else bind_res (get_string n) (\<lambda>s. Inr (cfg\<lparr>cf_scratch := Some s\<rparr>)))
      else cfg_fail)"

definition level_vals :: "(string \<times> nat) list" where
  "level_vals = [(''none'', ASTOOLS_SB_NONE), (''basic'', ASTOOLS_SB_BASIC), (''strict'', ASTOOLS_SB_STRICT)]"

definition sec_sandbox :: "string \<Rightarrow> xnode \<Rightarrow> astools_config \<Rightarrow> astools_config res" where
  "sec_sandbox k n cfg =
     (if k = ''default_level'' then bind_res (get_enum level_vals n) (\<lambda>l. Inr (cfg\<lparr>cf_sandbox_level := l\<rparr>))
      else if k = ''strict_fallback'' then
        bind_res (get_enum [(''degrade'', 0), (''reject'', 1)] n) (\<lambda>r. Inr (cfg\<lparr>cf_strict_fallback_reject := r \<noteq> 0\<rparr>))
      else if k = ''allow_library'' then bind_res (get_bool n) (\<lambda>b. Inr (cfg\<lparr>cf_allow_library := b\<rparr>))
      else if k = ''executable_paths'' then
        bind_res (parse_str_array (xval n)) (\<lambda>arr.
          if list_ex (\<lambda>p. p = [] \<or> \<not> os_path_is_abs p) arr then cfg_fail else Inr (cfg\<lparr>cf_executable_paths := arr\<rparr>))
      else cfg_fail)"

definition wa_vals :: "(string \<times> nat) list" where
  "wa_vals = [(''none'', 0), (''read'', ASTOOLS_ACCESS_READ), (''read-write'', ASTOOLS_ACCESS_RW)]"

definition sec_grants :: "string \<Rightarrow> xnode \<Rightarrow> astools_config \<Rightarrow> astools_config res" where
  "sec_grants k n cfg =
     (if k = ''workspace_access'' then bind_res (get_enum wa_vals n) (\<lambda>a. Inr (cfg\<lparr>cf_workspace_access := a\<rparr>))
      else if k = ''tools'' then parse_grant_list (xval n) cfg
      else cfg_fail)"

definition rv_vals :: "(string \<times> nat) list" where
  "rv_vals = [(''off'', ASTOOLS_RESVAL_OFF), (''warn'', ASTOOLS_RESVAL_WARN), (''enforce'', ASTOOLS_RESVAL_ENFORCE)]"

text \<open>The conversions \<open>(int)\<close> and \<open>(size_t)\<close> of a checked value.\<close>

definition as_int :: "int \<Rightarrow> int" where
  "as_int i = sint (word_of_int i :: 32 word)"

definition as_size :: "int \<Rightarrow> int" where
  "as_size i = uint (word_of_int i :: 64 word)"

definition sec_invocation :: "string \<Rightarrow> xnode \<Rightarrow> astools_config \<Rightarrow> astools_config res" where
  "sec_invocation k n cfg =
     (if k = ''timeout'' then bind_res (get_duration_ms n) (\<lambda>ms. Inr (cfg\<lparr>cf_timeout_ms := ms\<rparr>))
      else if k = ''max_concurrent'' then bind_res (get_int 1 (int INT_MAX) n) (\<lambda>i. Inr (cfg\<lparr>cf_max_concurrent := as_int i\<rparr>))
      else if k = ''max_output_bytes'' then bind_res (get_int 1 INT64_MAX n) (\<lambda>i. Inr (cfg\<lparr>cf_max_output_bytes := i\<rparr>))
      else if k = ''stderr_max_bytes'' then bind_res (get_int 0 INT64_MAX n) (\<lambda>i. Inr (cfg\<lparr>cf_stderr_max_bytes := i\<rparr>))
      else if k = ''result_validation'' then bind_res (get_enum rv_vals n) (\<lambda>r. Inr (cfg\<lparr>cf_result_validation := r\<rparr>))
      else cfg_fail)"

definition lvl_vals :: "(string \<times> nat) list" where
  "lvl_vals = [(''index'', ASTOOLS_CATALOG_INDEX), (''summary'', ASTOOLS_CATALOG_SUMMARY), (''full'', ASTOOLS_CATALOG_FULL)]"

definition sec_catalog :: "string \<Rightarrow> xnode \<Rightarrow> astools_config \<Rightarrow> astools_config res" where
  "sec_catalog k n cfg =
     (if k = ''level'' then bind_res (get_enum lvl_vals n) (\<lambda>l. Inr (cfg\<lparr>cf_catalog_level := l\<rparr>))
      else if k = ''char_budget'' then bind_res (get_int 0 (int INT_MAX) n) (\<lambda>i. Inr (cfg\<lparr>cf_char_budget := as_size i\<rparr>))
      else if k = ''priority'' then bind_res (parse_str_array (xval n)) (\<lambda>arr. Inr (cfg\<lparr>cf_priority := arr\<rparr>))
      else cfg_fail)"

definition sec_mcp :: "string \<Rightarrow> xnode \<Rightarrow> astools_config \<Rightarrow> astools_config res" where
  "sec_mcp k n cfg =
     (if k = ''management'' then bind_res (get_bool n) (\<lambda>b. Inr (cfg\<lparr>cf_mcp_management := b\<rparr>)) else cfg_fail)"

definition log_vals :: "(string \<times> nat) list" where
  "log_vals = [(''error'', ASTOOLS_LOG_ERROR), (''warn'', ASTOOLS_LOG_WARN), (''info'', ASTOOLS_LOG_INFO), (''debug'', ASTOOLS_LOG_DEBUG)]"

definition sec_logging :: "string \<Rightarrow> xnode \<Rightarrow> astools_config \<Rightarrow> astools_config res" where
  "sec_logging k n cfg =
     (if k = ''path'' then
        (if xval n = Some XNull then Inr (cfg\<lparr>cf_log_path := None\<rparr>)
         else bind_res (get_string n) (\<lambda>s. Inr (cfg\<lparr>cf_log_path := Some s\<rparr>)))
      else if k = ''level'' then bind_res (get_enum log_vals n) (\<lambda>l. Inr (cfg\<lparr>cf_log_level := l\<rparr>))
      else if k = ''max_size_kb'' then bind_res (get_int 0 (INT64_MAX div 1024) n) (\<lambda>i. Inr (cfg\<lparr>cf_log_max_size_kb := i\<rparr>))
      else if k = ''max_files'' then bind_res (get_int 1 (int INT_MAX) n) (\<lambda>i. Inr (cfg\<lparr>cf_log_max_files := as_int i\<rparr>))
      else if k = ''sync'' then bind_res (get_bool n) (\<lambda>b. Inr (cfg\<lparr>cf_log_sync := b\<rparr>))
      else if k = ''audit'' then bind_res (get_bool n) (\<lambda>b. Inr (cfg\<lparr>cf_audit := b\<rparr>))
      else cfg_fail)"

definition cfg_sections :: "(string \<times> (string \<Rightarrow> xnode \<Rightarrow> astools_config \<Rightarrow> astools_config res)) list" where
  "cfg_sections = [(''registry'', sec_registry), (''workspace'', sec_workspace), (''sandbox'', sec_sandbox),
     (''grants'', sec_grants), (''invocation'', sec_invocation), (''catalog'', sec_catalog), (''mcp'', sec_mcp),
     (''logging'', sec_logging)]"

definition cfg_top :: "string \<Rightarrow> xnode \<Rightarrow> astools_config \<Rightarrow> astools_config res" where
  "cfg_top k n cfg =
     (case map_of cfg_sections k of None \<Rightarrow> cfg_fail | Some sec \<Rightarrow> cfg_object sec (xval n) cfg)"

section \<open>The roots of the environment\<close>

text \<open>The scanning loop on \<open>ASTOOLS_PATH\<close>: a run of characters up to a colon, kept unless it is empty.\<close>

function env_segments :: "string \<Rightarrow> string list" where
  "env_segments p =
     (if p = [] then []
      else let seg = takeWhile (\<lambda>c. c \<noteq> CHR '':'') p; rest = dropWhile (\<lambda>c. c \<noteq> CHR '':'') p in
        (if seg = [] then [] else [seg]) @ env_segments (tl rest))"
  by pat_completeness auto
termination
proof (relation "measure length", goal_cases)
  case (2 p seg rest)
  have "length rest \<le> length p" unfolding 2(3) by (rule length_dropWhile_le)
  with 2(1) show ?case by (cases rest) auto
qed simp

declare env_segments.simps [simp del]

definition prepend_env_paths :: "string option \<Rightarrow> astools_config \<Rightarrow> astools_config" where
  "prepend_env_paths env cfg =
     (case env of None \<Rightarrow> cfg
      | Some e \<Rightarrow> cfg\<lparr>cf_reg_paths :=
          map (\<lambda>s. \<lparr>r_path = Some s, r_trust = ASTOOLS_TRUST_STANDARD\<rparr>) (env_segments e) @ cf_reg_paths cfg\<rparr>)"

definition dir_of :: "string \<Rightarrow> string" where
  "dir_of path =
     (if CHR ''/'' \<notin> set path then ''.''
      else let before = rev (tl (dropWhile (\<lambda>c. c \<noteq> CHR ''/'') (rev path))) in
        if before = [] then take 1 path else before)"

section \<open>Loading\<close>

definition cfg_document :: "xcdn \<Rightarrow> string \<Rightarrow> xnode option list \<Rightarrow> astools_config \<Rightarrow> astools_config res" where
  "cfg_document x path doc cfg =
     (case doc of
        [Some tn] \<Rightarrow>
          if xval tn = None then cfg_fail
          else if xtags tn \<noteq> [] \<and> \<not> x_has_tag x (xtags tn) ''astools_config'' then cfg_fail
          else bind_res (cfg_object cfg_top (xval tn) cfg) (\<lambda>c. Inr (c\<lparr>cf_config_dir := dir_of path\<rparr>))
      | _ \<Rightarrow> cfg_fail)"

definition astools_config_load :: "xcdn \<Rightarrow> disk \<Rightarrow> string option \<Rightarrow> string option \<Rightarrow> astools_config \<Rightarrow> astools_config res" where
  "astools_config_load x d env path cfg =
     (case path of
        None \<Rightarrow> Inr (prepend_env_paths env cfg)
      | Some p \<Rightarrow>
          if p = [] then Inr (prepend_env_paths env cfg)
          else (case os_read_file d (Some p) of
              Inl e \<Rightarrow>
                if e = ASTOOLS_ERR_NOT_FOUND then Inr (prepend_env_paths env cfg)
                else if e = ASTOOLS_ERR_NOMEM then Inl ASTOOLS_ERR_NOMEM else cfg_fail
            | Inr text \<Rightarrow>
                (case x_parse x (text_of text) of
                   None \<Rightarrow> cfg_fail
                 | Some doc \<Rightarrow> bind_res (cfg_document x p doc cfg) (\<lambda>c. Inr (prepend_env_paths env c)))))"

section \<open>What a load keeps\<close>

lemma cfg_fail_simps [simp]: "cfg_fail = Inr a \<longleftrightarrow> False" "cfg_fail = Inl e \<longleftrightarrow> e = ASTOOLS_ERR_CONFIG"
  by (auto simp: cfg_fail_def)

lemma cfg_entries_inv:
  assumes "\<And>k n c c'. f k n c = Inr c' \<Longrightarrow> I c \<Longrightarrow> I c'" "cfg_entries f es c = Inr c'" "I c"
  shows "I c'"
  using assms(2,3)
proof (induction es arbitrary: c)
  case (Cons e es)
  obtain k n where "e = (k, n)" by fastforce
  with Cons assms(1) show ?case by (auto simp: bind_res_Inr_iff split: option.splits)
qed simp

lemma cfg_object_inv:
  "cfg_object f v c = Inr c' \<Longrightarrow> (\<And>k n c c'. f k n c = Inr c' \<Longrightarrow> I c \<Longrightarrow> I c') \<Longrightarrow> I c \<Longrightarrow> I c'"
  using cfg_entries_inv [of f I] by (auto simp: cfg_object_def split: option.splits xvalue.splits)

lemma cfg_items_all:
  "cfg_items f ns = Inr as \<Longrightarrow> (\<And>v a. f v = Inr a \<Longrightarrow> P a) \<Longrightarrow> list_all P as"
  by (induction ns arbitrary: as) (auto simp: bind_res_Inr_iff)

lemma cfg_array_all:
  "cfg_array f v = Inr as \<Longrightarrow> (\<And>v a. f v = Inr a \<Longrightarrow> P a) \<Longrightarrow> list_all P as"
  by (auto simp: cfg_array_def split: option.splits xvalue.splits intro: cfg_items_all)

lemma get_enum_in: "get_enum choices n = Inr v \<Longrightarrow> v \<in> snd ` set choices"
proof -
  assume "get_enum choices n = Inr v"
  then obtain s where "map_of choices s = Some v" by (auto simp: get_enum_def bind_res_Inr_iff split: option.splits)
  then have "(s, v) \<in> set choices" by (rule map_of_SomeD)
  then show ?thesis by force
qed

lemma get_duration_range: "get_duration_ms n = Inr ms \<Longrightarrow> period_fine ms"
  by (auto simp: get_duration_ms_def period_fine_def split: option.splits xvalue.splits if_splits)

lemma get_int_range: "get_int lo hi n = Inr i \<Longrightarrow> lo \<le> i \<and> i \<le> hi"
  by (auto simp: get_int_def split: option.splits xvalue.splits if_splits)

definition fs_fine :: "astools_fs_perm \<Rightarrow> bool" where
  "fs_fine q \<longleftrightarrow> fpath q \<noteq> None \<and> faccess q \<in> {ASTOOLS_ACCESS_READ, ASTOOLS_ACCESS_WRITE, ASTOOLS_ACCESS_RW}"

definition grant_fine :: "astools_grant \<Rightarrow> bool" where
  "grant_fine g \<longleftrightarrow> g_tool g \<noteq> None \<and> list_all fs_fine (g_fs g) \<and> None \<notin> set (g_env g)"

definition root_fine :: "astools_root \<Rightarrow> bool" where
  "root_fine r \<longleftrightarrow> r_path r \<noteq> None \<and> r_trust r \<in> {ASTOOLS_TRUST_STANDARD, ASTOOLS_TRUST_FULL}"

definition config_fine :: "astools_config \<Rightarrow> bool" where
  "config_fine c \<longleftrightarrow>
     list_all root_fine (cf_reg_paths c) \<and> period_fine (cf_poll_interval_ms c) \<and>
     cf_pinning c \<in> {ASTOOLS_PIN_OFF, ASTOOLS_PIN_WARN, ASTOOLS_PIN_ENFORCE} \<and> cf_lock_path c \<noteq> None \<and>
     list_all (\<lambda>p. pin_tool p \<noteq> None \<and> pin_version p \<noteq> None) (cf_pins c) \<and> cf_workspace_root c \<noteq> None \<and>
     cf_sandbox_level c \<in> {ASTOOLS_SB_NONE, ASTOOLS_SB_BASIC, ASTOOLS_SB_STRICT} \<and>
     list_all os_path_is_abs (cf_executable_paths c) \<and>
     cf_workspace_access c \<in> {0, ASTOOLS_ACCESS_READ, ASTOOLS_ACCESS_RW} \<and> list_all grant_fine (cf_tool_grants c) \<and>
     period_fine (cf_timeout_ms c) \<and> 1 \<le> cf_max_concurrent c \<and> cf_max_concurrent c \<le> int INT_MAX \<and>
     1 \<le> cf_max_output_bytes c \<and> cf_max_output_bytes c \<le> INT64_MAX \<and>
     0 \<le> cf_stderr_max_bytes c \<and> cf_stderr_max_bytes c \<le> INT64_MAX \<and>
     cf_result_validation c \<in> {ASTOOLS_RESVAL_OFF, ASTOOLS_RESVAL_WARN, ASTOOLS_RESVAL_ENFORCE} \<and>
     cf_catalog_level c \<in> {ASTOOLS_CATALOG_INDEX, ASTOOLS_CATALOG_SUMMARY, ASTOOLS_CATALOG_FULL} \<and>
     0 \<le> cf_char_budget c \<and> cf_char_budget c \<le> int INT_MAX \<and>
     cf_log_level c \<in> {ASTOOLS_LOG_ERROR, ASTOOLS_LOG_WARN, ASTOOLS_LOG_INFO, ASTOOLS_LOG_DEBUG} \<and>
     0 \<le> cf_log_max_size_kb c \<and> cf_log_max_size_kb c * 1024 \<le> INT64_MAX \<and>
     1 \<le> cf_log_max_files c \<and> cf_log_max_files c \<le> int INT_MAX"

lemma fs_perms_fine: "parse_fs_perms v = Inr fs \<Longrightarrow> list_all fs_fine fs"
proof -
  assume fs: "parse_fs_perms v = Inr fs"
  have "fs_fine q" if q: "cfg_fs_perm w = Inr q" for w q
  proof -
    obtain ha where o: "cfg_object cfg_fs_key w (\<lparr>fpath = None, faccess = 0\<rparr>, False) = Inr (q, ha)" "ha" "fpath q \<noteq> None"
      using q by (auto simp: cfg_fs_perm_def bind_res_Inr_iff split: if_splits)
    have "(\<lambda>(f, ha). ha \<longrightarrow> faccess f \<in> {ASTOOLS_ACCESS_READ, ASTOOLS_ACCESS_WRITE, ASTOOLS_ACCESS_RW}) (q, ha)"
      by (rule cfg_object_inv [OF o(1)])
        (auto simp: cfg_fs_key_def access_vals_def bind_res_Inr_iff dest!: get_enum_in split: if_splits)
    with o show ?thesis by (simp add: fs_fine_def)
  qed
  then show ?thesis by (rule cfg_array_all [OF fs [unfolded parse_fs_perms_def]])
qed

lemma cfg_grant_fine: "cfg_grant v = Inr g \<Longrightarrow> grant_fine g"
proof -
  assume g: "cfg_grant v = Inr g"
  then have o: "cfg_object cfg_grant_key v \<lparr>g_tool = None, g_fs = [], g_net = False, g_proc = False, g_env = []\<rparr> = Inr g" "g_tool g \<noteq> None"
    by (auto simp: cfg_grant_def bind_res_Inr_iff split: if_splits)
  have "list_all fs_fine (g_fs g) \<and> None \<notin> set (g_env g)"
    by (rule cfg_object_inv [OF o(1)]) (auto simp: cfg_grant_key_def bind_res_Inr_iff dest: fs_perms_fine split: if_splits)
  with o(2) show ?thesis by (simp add: grant_fine_def)
qed

lemma cfg_root_fine: "cfg_root v = Inr r \<Longrightarrow> root_fine r"
proof -
  assume r: "cfg_root v = Inr r"
  then have o: "cfg_object cfg_root_key v \<lparr>r_path = None, r_trust = ASTOOLS_TRUST_STANDARD\<rparr> = Inr r" "r_path r \<noteq> None"
    by (auto simp: cfg_root_def bind_res_Inr_iff split: if_splits)
  have "r_trust r \<in> {ASTOOLS_TRUST_STANDARD, ASTOOLS_TRUST_FULL}"
    by (rule cfg_object_inv [OF o(1)])
      (auto simp: cfg_root_key_def trust_vals_def bind_res_Inr_iff dest!: get_enum_in split: if_splits)
  with o(2) show ?thesis by (simp add: root_fine_def)
qed

lemma cfg_pin_fine: "cfg_pin v = Inr p \<Longrightarrow> pin_tool p \<noteq> None \<and> pin_version p \<noteq> None"
  by (auto simp: cfg_pin_def bind_res_Inr_iff split: if_splits)

lemmas cfg_vals = pin_vals_def level_vals_def wa_vals_def rv_vals_def lvl_vals_def log_vals_def

lemma arrays_fine:
  "parse_reg_paths v c = Inr c' \<Longrightarrow> \<exists>rs. c' = c\<lparr>cf_reg_paths := rs\<rparr> \<and> list_all root_fine rs"
  "parse_reg_pins v c = Inr c' \<Longrightarrow> \<exists>ps. c' = c\<lparr>cf_pins := ps\<rparr> \<and> list_all (\<lambda>p. pin_tool p \<noteq> None \<and> pin_version p \<noteq> None) ps"
  "parse_grant_list v c = Inr c' \<Longrightarrow> \<exists>gs. c' = c\<lparr>cf_tool_grants := gs\<rparr> \<and> list_all grant_fine gs"
proof -
  show "\<exists>rs. c' = c\<lparr>cf_reg_paths := rs\<rparr> \<and> list_all root_fine rs" if e: "parse_reg_paths v c = Inr c'"
  proof -
    obtain rs where rs: "cfg_array cfg_root v = Inr rs" "c' = c\<lparr>cf_reg_paths := rs\<rparr>"
      using e by (auto simp: parse_reg_paths_def bind_res_Inr_iff)
    have "list_all root_fine rs" by (rule cfg_array_all [OF rs(1) cfg_root_fine])
    with rs(2) show ?thesis by blast
  qed
  show "\<exists>ps. c' = c\<lparr>cf_pins := ps\<rparr> \<and> list_all (\<lambda>p. pin_tool p \<noteq> None \<and> pin_version p \<noteq> None) ps"
    if e: "parse_reg_pins v c = Inr c'"
  proof -
    obtain ps where ps: "cfg_array cfg_pin v = Inr ps" "c' = c\<lparr>cf_pins := ps\<rparr>"
      using e by (auto simp: parse_reg_pins_def bind_res_Inr_iff)
    have "list_all (\<lambda>p. pin_tool p \<noteq> None \<and> pin_version p \<noteq> None) ps" by (rule cfg_array_all [OF ps(1) cfg_pin_fine])
    with ps(2) show ?thesis by blast
  qed
  show "\<exists>gs. c' = c\<lparr>cf_tool_grants := gs\<rparr> \<and> list_all grant_fine gs" if e: "parse_grant_list v c = Inr c'"
  proof -
    obtain gs where gs: "cfg_array cfg_grant v = Inr gs" "c' = c\<lparr>cf_tool_grants := gs\<rparr>"
      using e by (auto simp: parse_grant_list_def bind_res_Inr_iff)
    have "list_all grant_fine gs" by (rule cfg_array_all [OF gs(1) cfg_grant_fine])
    with gs(2) show ?thesis by blast
  qed
qed

lemma arrays_keep:
  "parse_reg_paths v c = Inr c' \<Longrightarrow> config_fine c \<Longrightarrow> config_fine c'"
  "parse_reg_pins v c = Inr c' \<Longrightarrow> config_fine c \<Longrightarrow> config_fine c'"
  "parse_grant_list v c = Inr c' \<Longrightarrow> config_fine c \<Longrightarrow> config_fine c'"
  by (drule arrays_fine, clarsimp simp: config_fine_def)+

lemma as_int_id: "1 \<le> i \<and> i \<le> int INT_MAX \<Longrightarrow> as_int i = i"
  unfolding as_int_def int_word_sint by (simp add: INT_MAX_def)

lemma as_size_id: "0 \<le> i \<and> i \<le> int INT_MAX \<Longrightarrow> as_size i = i"
  unfolding as_size_def uint_word_of_int_eq by (simp add: take_bit_int_eq_self INT_MAX_def)

lemma keeps:
  assumes "config_fine c"
  shows "list_all root_fine rs \<Longrightarrow> config_fine (c\<lparr>cf_reg_paths := rs\<rparr>)"
    "config_fine (c\<lparr>cf_watch_poll := b\<rparr>)" "period_fine i \<Longrightarrow> config_fine (c\<lparr>cf_poll_interval_ms := i\<rparr>)"
    "v \<in> {ASTOOLS_PIN_OFF, ASTOOLS_PIN_WARN, ASTOOLS_PIN_ENFORCE} \<Longrightarrow> config_fine (c\<lparr>cf_pinning := v\<rparr>)"
    "config_fine (c\<lparr>cf_lock_path := Some s\<rparr>)" "config_fine (c\<lparr>cf_workspace_root := Some s\<rparr>)" "config_fine (c\<lparr>cf_scratch := s'\<rparr>)"
    "v \<in> {ASTOOLS_SB_NONE, ASTOOLS_SB_BASIC, ASTOOLS_SB_STRICT} \<Longrightarrow> config_fine (c\<lparr>cf_sandbox_level := v\<rparr>)"
    "config_fine (c\<lparr>cf_strict_fallback_reject := b\<rparr>)" "config_fine (c\<lparr>cf_allow_library := b\<rparr>)"
    "list_all os_path_is_abs ss \<Longrightarrow> config_fine (c\<lparr>cf_executable_paths := ss\<rparr>)"
    "v \<in> {0, ASTOOLS_ACCESS_READ, ASTOOLS_ACCESS_RW} \<Longrightarrow> config_fine (c\<lparr>cf_workspace_access := v\<rparr>)"
    "period_fine i \<Longrightarrow> config_fine (c\<lparr>cf_timeout_ms := i\<rparr>)"
    "1 \<le> i \<and> i \<le> int INT_MAX \<Longrightarrow> config_fine (c\<lparr>cf_max_concurrent := as_int i\<rparr>)"
    "1 \<le> i \<and> i \<le> INT64_MAX \<Longrightarrow> config_fine (c\<lparr>cf_max_output_bytes := i\<rparr>)"
    "0 \<le> i \<and> i \<le> INT64_MAX \<Longrightarrow> config_fine (c\<lparr>cf_stderr_max_bytes := i\<rparr>)"
    "v \<in> {ASTOOLS_RESVAL_OFF, ASTOOLS_RESVAL_WARN, ASTOOLS_RESVAL_ENFORCE} \<Longrightarrow> config_fine (c\<lparr>cf_result_validation := v\<rparr>)"
    "v \<in> {ASTOOLS_CATALOG_INDEX, ASTOOLS_CATALOG_SUMMARY, ASTOOLS_CATALOG_FULL} \<Longrightarrow> config_fine (c\<lparr>cf_catalog_level := v\<rparr>)"
    "0 \<le> i \<and> i \<le> int INT_MAX \<Longrightarrow> config_fine (c\<lparr>cf_char_budget := as_size i\<rparr>)" "config_fine (c\<lparr>cf_priority := ss\<rparr>)" "config_fine (c\<lparr>cf_mcp_management := b\<rparr>)"
    "config_fine (c\<lparr>cf_log_path := s'\<rparr>)"
    "v \<in> {ASTOOLS_LOG_ERROR, ASTOOLS_LOG_WARN, ASTOOLS_LOG_INFO, ASTOOLS_LOG_DEBUG} \<Longrightarrow> config_fine (c\<lparr>cf_log_level := v\<rparr>)"
    "0 \<le> i \<and> i \<le> INT64_MAX div 1024 \<Longrightarrow> config_fine (c\<lparr>cf_log_max_size_kb := i\<rparr>)" "1 \<le> i \<and> i \<le> int INT_MAX \<Longrightarrow> config_fine (c\<lparr>cf_log_max_files := as_int i\<rparr>)"
    "config_fine (c\<lparr>cf_log_sync := b\<rparr>)" "config_fine (c\<lparr>cf_audit := b\<rparr>)" "config_fine (c\<lparr>cf_config_dir := s\<rparr>)"
  using assms by (simp_all add: config_fine_def INT64_MAX_def as_int_id as_size_id)

lemma abs_paths: "\<not> list_ex (\<lambda>p. p = [] \<or> \<not> os_path_is_abs p) ss \<Longrightarrow> list_all os_path_is_abs ss"
  by (auto simp: list_ex_iff list_all_iff)

lemmas section_keeps = bind_res_Inr_iff keeps abs_paths

lemma sections_fine:
  assumes "config_fine c"
  shows "sec_registry k n c = Inr c' \<Longrightarrow> config_fine c'" "sec_workspace k n c = Inr c' \<Longrightarrow> config_fine c'"
    "sec_sandbox k n c = Inr c' \<Longrightarrow> config_fine c'" "sec_grants k n c = Inr c' \<Longrightarrow> config_fine c'"
    "sec_invocation k n c = Inr c' \<Longrightarrow> config_fine c'" "sec_catalog k n c = Inr c' \<Longrightarrow> config_fine c'"
    "sec_mcp k n c = Inr c' \<Longrightarrow> config_fine c'" "sec_logging k n c = Inr c' \<Longrightarrow> config_fine c'"
  using assms arrays_keep
  by (auto simp: sec_registry_def section_keeps pin_vals_def dest!: get_enum_in get_duration_range split: if_splits)
    (auto simp: sec_workspace_def sec_sandbox_def sec_grants_def sec_invocation_def sec_catalog_def sec_mcp_def sec_logging_def
      section_keeps cfg_vals dest!: get_enum_in get_duration_range get_int_range split: if_splits)

lemma section_fine:
  "map_of cfg_sections k = Some sec \<Longrightarrow> sec k' n c = Inr c' \<Longrightarrow> config_fine c \<Longrightarrow> config_fine c'"
  by (auto simp: cfg_sections_def intro: sections_fine split: if_splits)

lemma top_fine: "cfg_top k n c = Inr c' \<Longrightarrow> config_fine c \<Longrightarrow> config_fine c'"
proof -
  assume top: "cfg_top k n c = Inr c'" and c: "config_fine c"
  then obtain sec where sec: "map_of cfg_sections k = Some sec" "cfg_object sec (xval n) c = Inr c'"
    by (auto simp: cfg_top_def split: option.splits)
  show ?thesis by (rule cfg_object_inv [where I = config_fine, OF sec(2) _ c]) (rule section_fine [OF sec(1)])
qed

lemma env_fine: "config_fine c \<Longrightarrow> config_fine (prepend_env_paths env c)"
proof (cases env)
  case (Some e)
  assume c: "config_fine c"
  then have "list_all root_fine (cf_reg_paths c)" by (simp add: config_fine_def)
  then have "list_all root_fine (map (\<lambda>s. \<lparr>r_path = Some s, r_trust = ASTOOLS_TRUST_STANDARD\<rparr>) (env_segments e) @ cf_reg_paths c)"
    by (auto simp: list_all_iff root_fine_def)
  with c show ?thesis by (simp add: Some prepend_env_paths_def keeps)
qed (simp add: prepend_env_paths_def)

lemma load_config_fine:
  assumes "astools_config_load x d env path cfg = Inr c" "config_fine cfg"
  shows "config_fine c"
proof -
  have doc: "config_fine c'" if d: "cfg_document x p doc cfg = Inr c'" for p doc c'
  proof -
    have "\<exists>v c0. cfg_object cfg_top v cfg = Inr c0 \<and> c' = c0\<lparr>cf_config_dir := dir_of p\<rparr>"
      using d by (auto simp: cfg_document_def bind_res_Inr_iff split: list.splits option.splits if_splits)
    then obtain v c0 where "cfg_object cfg_top v cfg = Inr c0" "c' = c0\<lparr>cf_config_dir := dir_of p\<rparr>" by blast
    moreover from cfg_object_inv [where I = config_fine, OF this(1) top_fine assms(2)] have "config_fine c0" .
    ultimately show ?thesis by (simp add: keeps)
  qed
  show ?thesis
    using assms by (auto simp: astools_config_load_def bind_res_Inr_iff env_fine doc split: option.splits sum.splits if_splits)
qed

lemma defaults_fine: "config_fine astools_config_defaults"
  by (simp add: config_fine_def astools_config_defaults_def root_fine_def period_fine_def ASTOOLS_PERIOD_MAX_MS_def
      INT_MAX_def INT64_MAX_def)

section \<open>Keys\<close>

text \<open>The keys of each section, as the documentation lists them.\<close>

definition known_keys :: "(string \<times> string list) list" where
  "known_keys =
     [(''registry'', [''paths'', ''watch'', ''poll_interval'', ''pinning'', ''lock_path'', ''pins'']),
      (''workspace'', [''root'', ''scratch'']),
      (''sandbox'', [''default_level'', ''strict_fallback'', ''allow_library'', ''executable_paths'']),
      (''grants'', [''workspace_access'', ''tools'']),
      (''invocation'', [''timeout'', ''max_concurrent'', ''max_output_bytes'', ''stderr_max_bytes'', ''result_validation'']),
      (''catalog'', [''level'', ''char_budget'', ''priority'']),
      (''mcp'', [''management'']),
      (''logging'', [''path'', ''level'', ''max_size_kb'', ''max_files'', ''sync'', ''audit''])]"

lemma cfg_entries_each:
  "cfg_entries f es c = Inr c' \<Longrightarrow>
   \<forall>e \<in> set es. \<exists>k n c0 c1. e = (Some k, Some n) \<and> f k n c0 = Inr c1"
proof (induction es arbitrary: c)
  case (Cons e es)
  obtain k n where e: "e = (k, n)" by fastforce
  with Cons.prems obtain k' n' c1 where s: "k = Some k'" "n = Some n'" "f k' n' c = Inr c1" "cfg_entries f es c1 = Inr c'"
    by (auto simp: bind_res_Inr_iff split: option.splits)
  have "\<exists>k n c0 c1. e = (Some k, Some n) \<and> f k n c0 = Inr c1" using e s(1-3) by blast
  with Cons.IH [OF s(4)] show ?case by simp
qed simp

lemma cfg_object_each:
  "cfg_object f v c = Inr c' \<Longrightarrow>
   \<exists>es. v = Some (XObject es) \<and> (\<forall>e \<in> set es. \<exists>k n c0 c1. e = (Some k, Some n) \<and> f k n c0 = Inr c1)"
proof -
  assume "cfg_object f v c = Inr c'"
  then obtain es where "v = Some (XObject es)" "cfg_entries f es c = Inr c'"
    by (auto simp: cfg_object_def split: option.splits xvalue.splits)
  with cfg_entries_each [OF this(2)] show ?thesis by blast
qed

lemma section_keys:
  assumes "map_of cfg_sections s = Some sec" "sec k n c = Inr c'"
  shows "\<exists>ks. (s, ks) \<in> set known_keys \<and> k \<in> set ks"
  using assms
  by (auto simp: cfg_sections_def known_keys_def sec_registry_def sec_workspace_def sec_sandbox_def sec_grants_def
      sec_invocation_def sec_catalog_def sec_mcp_def sec_logging_def split: if_splits)

lemma document_keys:
  assumes "cfg_object cfg_top v c = Inr c'"
  shows "\<exists>es. v = Some (XObject es) \<and>
     (\<forall>e \<in> set es. \<exists>s n fs ks. e = (Some s, Some n) \<and> xval n = Some (XObject fs) \<and> (s, ks) \<in> set known_keys \<and>
        (\<forall>f \<in> set fs. \<exists>k m. f = (Some k, Some m) \<and> k \<in> set ks))"
proof -
  obtain es where es: "v = Some (XObject es)"
    and each: "\<And>e. e \<in> set es \<Longrightarrow> \<exists>k n c0 c1. e = (Some k, Some n) \<and> cfg_top k n c0 = Inr c1"
    using cfg_object_each [OF assms] by blast
  have "\<exists>s n fs ks. e = (Some s, Some n) \<and> xval n = Some (XObject fs) \<and> (s, ks) \<in> set known_keys \<and>
        (\<forall>f \<in> set fs. \<exists>k m. f = (Some k, Some m) \<and> k \<in> set ks)" if "e \<in> set es" for e
  proof -
    obtain s n c0 c1 where e: "e = (Some s, Some n)" "cfg_top s n c0 = Inr c1" using each [OF \<open>e \<in> set es\<close>] by blast
    then obtain sec where sec: "map_of cfg_sections s = Some sec" "cfg_object sec (xval n) c0 = Inr c1"
      by (auto simp: cfg_top_def split: option.splits)
    obtain fs where fs: "xval n = Some (XObject fs)"
      and in_fs: "\<And>f. f \<in> set fs \<Longrightarrow> \<exists>k m c0 c1. f = (Some k, Some m) \<and> sec k m c0 = Inr c1"
      using cfg_object_each [OF sec(2)] by blast
    have "s \<in> fst ` set known_keys"
      using map_of_SomeD [OF sec(1)] by (auto simp: cfg_sections_def known_keys_def)
    then obtain ks where ks: "(s, ks) \<in> set known_keys" by force
    have dist: "distinct (map fst known_keys)" by (simp add: known_keys_def)
    have "\<exists>k m. f = (Some k, Some m) \<and> k \<in> set ks" if "f \<in> set fs" for f
    proof -
      obtain k m d0 d1 where f: "f = (Some k, Some m)" "sec k m d0 = Inr d1" using in_fs [OF \<open>f \<in> set fs\<close>] by blast
      from section_keys [OF sec(1) f(2)] obtain ks' where "(s, ks') \<in> set known_keys" "k \<in> set ks'" by blast
      with ks dist have "k \<in> set ks" by (metis map_of_is_SomeI option.inject)
      with f(1) show ?thesis by blast
    qed
    with e(1) fs ks show ?thesis by blast
  qed
  with es show ?thesis by blast
qed

section \<open>Segments of the environment\<close>

lemma env_segments_clean: "s \<in> set (env_segments p) \<Longrightarrow> s \<noteq> [] \<and> CHR '':'' \<notin> set s"
proof (induction p rule: env_segments.induct)
  case (1 p)
  have "CHR '':'' \<notin> set (takeWhile (\<lambda>c. c \<noteq> CHR '':'') p)" by (auto dest: set_takeWhileD)
  with 1 show ?case by (subst (asm) (2) env_segments.simps) (auto simp: Let_def split: if_splits)
qed

lemma env_segments_step: "CHR '':'' \<notin> set s \<Longrightarrow>
  env_segments (s @ CHR '':'' # p) = (if s = [] then [] else [s]) @ env_segments p"
  by (subst env_segments.simps) (auto simp: Let_def takeWhile_append dropWhile_append takeWhile_eq_all_conv)

lemma env_segments_last: "CHR '':'' \<notin> set s \<Longrightarrow> env_segments s = (if s = [] then [] else [s])"
proof -
  assume "CHR '':'' \<notin> set s"
  then have "takeWhile (\<lambda>c. c \<noteq> CHR '':'') s = s" "dropWhile (\<lambda>c. c \<noteq> CHR '':'') s = []"
    by (auto simp: takeWhile_eq_all_conv)
  moreover have "env_segments [] = []" by (simp add: env_segments.simps)
  ultimately show ?thesis by (subst env_segments.simps) (simp only: Let_def list.sel(2) append_Nil2 if_cancel split: if_split, simp)
qed

text \<open>The pieces of a text made by joining pieces with colons are the pieces that are not empty.\<close>

fun colon_join :: "string list \<Rightarrow> string" where
  "colon_join [] = []"
| "colon_join [s] = s"
| "colon_join (s # ss) = s @ CHR '':'' # colon_join ss"

lemma env_segments_join:
  "list_all (\<lambda>s. CHR '':'' \<notin> set s) ss \<Longrightarrow> env_segments (colon_join ss) = filter (\<lambda>s. s \<noteq> []) ss"
  by (induction ss rule: colon_join.induct) (simp_all add: env_segments_step env_segments_last env_segments.simps [of "[]"])

lemma load_env:
  assumes "list_all (\<lambda>s. CHR '':'' \<notin> set s) ss" "astools_config_load x d (Some (colon_join ss)) path cfg = Inr c"
  shows "\<exists>c0. astools_config_load x d None path cfg = Inr c0 \<and>
     c = c0\<lparr>cf_reg_paths := map (\<lambda>s. \<lparr>r_path = Some s, r_trust = ASTOOLS_TRUST_STANDARD\<rparr>) (filter (\<lambda>s. s \<noteq> []) ss) @ cf_reg_paths c0\<rparr>"
  using assms(2)
  by (auto simp: astools_config_load_def bind_res_Inr_iff prepend_env_paths_def env_segments_join [OF assms(1)]
      split: option.splits sum.splits if_splits)

section \<open>Failures\<close>

lemma bind_res_Inl_iff:
  "bind_res r f = Inl e \<longleftrightarrow> r = Inl e \<or> (\<exists>x. r = Inr x \<and> f x = Inl e)"
  by (cases r) auto

lemma cfg_entries_err:
  "cfg_entries f es c = Inl e \<Longrightarrow> (\<And>k n c e. f k n c = Inl e \<Longrightarrow> e = ASTOOLS_ERR_CONFIG) \<Longrightarrow> e = ASTOOLS_ERR_CONFIG"
  by (induction es arbitrary: c) (auto simp: bind_res_Inl_iff split: option.splits)

lemma cfg_object_err:
  "cfg_object f v c = Inl e \<Longrightarrow> (\<And>k n c e. f k n c = Inl e \<Longrightarrow> e = ASTOOLS_ERR_CONFIG) \<Longrightarrow> e = ASTOOLS_ERR_CONFIG"
  using cfg_entries_err [of f] by (auto simp: cfg_object_def split: option.splits xvalue.splits)

lemma cfg_array_err:
  assumes "cfg_array f v = Inl e" "\<And>v e. f v = Inl e \<Longrightarrow> e = ASTOOLS_ERR_CONFIG"
  shows "e = ASTOOLS_ERR_CONFIG"
proof -
  have "cfg_items f ns = Inl e \<Longrightarrow> e = ASTOOLS_ERR_CONFIG" for ns
    by (induction ns) (auto simp: bind_res_Inl_iff dest: assms(2))
  with assms(1) show ?thesis by (auto simp: cfg_array_def split: option.splits xvalue.splits)
qed

lemma get_errs:
  "get_string n = Inl e \<Longrightarrow> e = ASTOOLS_ERR_CONFIG" "get_bool n = Inl e \<Longrightarrow> e = ASTOOLS_ERR_CONFIG"
  "get_int lo hi n = Inl e \<Longrightarrow> e = ASTOOLS_ERR_CONFIG" "get_duration_ms n = Inl e \<Longrightarrow> e = ASTOOLS_ERR_CONFIG"
  by (auto simp: get_string_def get_bool_def get_int_def get_duration_ms_def split: option.splits xvalue.splits if_splits)

lemma get_enum_err: "get_enum cs n = Inl e \<Longrightarrow> e = ASTOOLS_ERR_CONFIG"
  by (auto simp: get_enum_def bind_res_Inl_iff dest: get_errs split: option.splits)

lemma str_array_err: "parse_str_array v = Inl e \<Longrightarrow> e = ASTOOLS_ERR_CONFIG"
  unfolding parse_str_array_def by (erule cfg_array_err) (auto split: option.splits xvalue.splits)

lemma fs_perms_err: "parse_fs_perms v = Inl e \<Longrightarrow> e = ASTOOLS_ERR_CONFIG"
  unfolding parse_fs_perms_def
proof (erule cfg_array_err)
  fix v e assume "cfg_fs_perm v = Inl e"
  moreover have "cfg_object cfg_fs_key v c = Inl e \<Longrightarrow> e = ASTOOLS_ERR_CONFIG" for c
    by (erule cfg_object_err) (auto simp: cfg_fs_key_def bind_res_Inl_iff dest: get_errs get_enum_err split: if_splits)
  ultimately show "e = ASTOOLS_ERR_CONFIG" by (auto simp: cfg_fs_perm_def bind_res_Inl_iff split: if_splits)
qed

lemma array_errs:
  "parse_reg_paths v c = Inl e \<Longrightarrow> e = ASTOOLS_ERR_CONFIG" "parse_reg_pins v c = Inl e \<Longrightarrow> e = ASTOOLS_ERR_CONFIG"
  "parse_grant_list v c = Inl e \<Longrightarrow> e = ASTOOLS_ERR_CONFIG"
proof -
  have r: "cfg_root v = Inl e \<Longrightarrow> e = ASTOOLS_ERR_CONFIG" for v e
  proof -
    have "cfg_object cfg_root_key v c = Inl e \<Longrightarrow> e = ASTOOLS_ERR_CONFIG" for c
      by (erule cfg_object_err) (auto simp: cfg_root_key_def bind_res_Inl_iff dest: get_errs get_enum_err split: if_splits)
    then show "cfg_root v = Inl e \<Longrightarrow> e = ASTOOLS_ERR_CONFIG" by (auto simp: cfg_root_def bind_res_Inl_iff split: if_splits)
  qed
  have p: "cfg_pin v = Inl e \<Longrightarrow> e = ASTOOLS_ERR_CONFIG" for v e
  proof -
    have "cfg_object cfg_pin_key v c = Inl e \<Longrightarrow> e = ASTOOLS_ERR_CONFIG" for c
      by (erule cfg_object_err) (auto simp: cfg_pin_key_def bind_res_Inl_iff dest: get_errs split: if_splits)
    then show "cfg_pin v = Inl e \<Longrightarrow> e = ASTOOLS_ERR_CONFIG" by (auto simp: cfg_pin_def bind_res_Inl_iff split: if_splits)
  qed
  have g: "cfg_grant v = Inl e \<Longrightarrow> e = ASTOOLS_ERR_CONFIG" for v e
  proof -
    have "cfg_object cfg_grant_key v c = Inl e \<Longrightarrow> e = ASTOOLS_ERR_CONFIG" for c
      by (erule cfg_object_err)
        (auto simp: cfg_grant_key_def bind_res_Inl_iff dest: get_errs str_array_err fs_perms_err split: if_splits)
    then show "cfg_grant v = Inl e \<Longrightarrow> e = ASTOOLS_ERR_CONFIG" by (auto simp: cfg_grant_def bind_res_Inl_iff split: if_splits)
  qed
  show "parse_reg_paths v c = Inl e \<Longrightarrow> e = ASTOOLS_ERR_CONFIG" "parse_reg_pins v c = Inl e \<Longrightarrow> e = ASTOOLS_ERR_CONFIG"
    "parse_grant_list v c = Inl e \<Longrightarrow> e = ASTOOLS_ERR_CONFIG"
    by (auto simp: parse_reg_paths_def parse_reg_pins_def parse_grant_list_def bind_res_Inl_iff elim!: cfg_array_err dest: r p g)
qed

lemma section_err:
  assumes "map_of cfg_sections s = Some sec" "sec k n c = Inl e"
  shows "e = ASTOOLS_ERR_CONFIG"
  using assms
  by (auto simp: cfg_sections_def sec_registry_def sec_workspace_def sec_sandbox_def sec_grants_def sec_invocation_def
      sec_catalog_def sec_mcp_def sec_logging_def bind_res_Inl_iff
      dest: get_errs get_enum_err str_array_err array_errs split: if_splits)

lemma document_err: "cfg_object cfg_top v c = Inl e \<Longrightarrow> e = ASTOOLS_ERR_CONFIG"
proof (erule cfg_object_err)
  fix k n c e assume t: "cfg_top k n c = Inl e"
  show "e = ASTOOLS_ERR_CONFIG"
  proof (cases "map_of cfg_sections k")
    case (Some sec)
    with t have "cfg_object sec (xval n) c = Inl e" by (simp add: cfg_top_def)
    then show ?thesis by (rule cfg_object_err) (rule section_err [OF Some])
  qed (use t in \<open>simp add: cfg_top_def\<close>)
qed

lemma load_keys:
  assumes "path \<noteq> []" "os_read_file d (Some path) = Inr bs" "x_parse x (text_of bs) = Some doc"
  shows "astools_config_load x d env (Some path) cfg = Inl ASTOOLS_ERR_CONFIG \<or>
    (\<exists>n es. doc = [Some n] \<and> xval n = Some (XObject es) \<and>
      (\<forall>e \<in> set es. \<exists>s n fs ks. e = (Some s, Some n) \<and> xval n = Some (XObject fs) \<and> (s, ks) \<in> set known_keys \<and>
         (\<forall>f \<in> set fs. \<exists>k m. f = (Some k, Some m) \<and> k \<in> set ks)))"
proof -
  have load: "astools_config_load x d env (Some path) cfg =
      bind_res (cfg_document x path doc cfg) (\<lambda>c. Inr (prepend_env_paths env c))"
    by (simp add: astools_config_load_def assms)
  show ?thesis
  proof (cases "cfg_document x path doc cfg")
    case (Inl e)
    then have "e = ASTOOLS_ERR_CONFIG"
      by (auto simp: cfg_document_def bind_res_Inl_iff dest: document_err split: list.splits option.splits if_splits)
    with Inl load show ?thesis by (simp add: bind_res_def)
  next
    case (Inr c)
    then have "\<exists>n c0. doc = [Some n] \<and> cfg_object cfg_top (xval n) cfg = Inr c0"
      by (auto simp: cfg_document_def bind_res_Inr_iff split: list.splits option.splits if_splits)
    then obtain n c0 where "doc = [Some n]" "cfg_object cfg_top (xval n) cfg = Inr c0" by blast
    with document_keys [OF this(2)] show ?thesis by blast
  qed
qed

section \<open>A sample\<close>

definition cfg_doc :: "string \<Rightarrow> xnode" where
  "cfg_doc k = XNode [] [] (Some (XObject [(Some ''invocation'', Some (XNode [] [] (Some (XObject
     [(Some k, Some (XNode [] [] (Some (XInt 8))))]))))]))"

definition cfg_xcdn :: xcdn where
  "cfg_xcdn = lock_xcdn\<lparr>x_parse := (\<lambda>s.
     if s = ''c'' then Some [Some (cfg_doc ''max_concurrent'')] else Some [Some (cfg_doc ''max_concurent'')])\<rparr>"

definition cfg_disk :: "string \<Rightarrow> disk" where
  "cfg_disk s = lock_disk\<lparr>d_files := (\<lambda>l. if l = ''conf'' then Some (bytes_of s) else None)\<rparr>"

lemma cfg_disk_read: "length s < 10 \<Longrightarrow> os_read_file (cfg_disk s) (Some ''conf'') = Inr (bytes_of s)"
  using os_read_loop_all [of "[]" 0 "bytes_of s"]
  by (simp add: os_read_file_def SIZE_MAX_def bytes_of_def fopen_rb_def cfg_disk_def lock_disk_def)

lemma cfg_doc_load:
  "cfg_object cfg_top (xval (cfg_doc ''max_concurrent'')) astools_config_defaults =
     Inr (astools_config_defaults\<lparr>cf_max_concurrent := 8\<rparr>)"
  "cfg_object cfg_top (xval (cfg_doc ''max_concurent'')) cfg = cfg_fail"
  by (simp_all add: cfg_doc_def cfg_object_def cfg_top_def cfg_sections_def
      sec_invocation_def get_int_def INT_MAX_def as_int_def bind_res_def cfg_fail_def)

lemma cfg_sample:
  "astools_config_load cfg_xcdn (cfg_disk ''c'') (Some ''/a::/b'') (Some ''conf'') astools_config_defaults =
     Inr (astools_config_defaults\<lparr>cf_max_concurrent := 8, cf_reg_paths :=
       [\<lparr>r_path = Some ''/a'', r_trust = ASTOOLS_TRUST_STANDARD\<rparr>, \<lparr>r_path = Some ''/b'', r_trust = ASTOOLS_TRUST_STANDARD\<rparr>,
        \<lparr>r_path = Some ''tools'', r_trust = ASTOOLS_TRUST_STANDARD\<rparr>]\<rparr>)"
proof -
  have segs: "env_segments ''/a::/b'' = [''/a'', ''/b'']" using env_segments_join [of "[''/a'', [], ''/b'']"] by simp
  moreover have "xval (cfg_doc ''max_concurrent'') \<noteq> None" "xtags (cfg_doc ''max_concurrent'') = []" by (simp_all add: cfg_doc_def)
  moreover from this have "cfg_document cfg_xcdn ''conf'' [Some (cfg_doc ''max_concurrent'')] astools_config_defaults =
      Inr (astools_config_defaults\<lparr>cf_max_concurrent := 8, cf_config_dir := ''.''\<rparr>)"
    by (simp add: cfg_document_def cfg_doc_load bind_res_def dir_of_def)
  moreover have "x_parse cfg_xcdn (text_of (bytes_of ''c'')) = Some [Some (cfg_doc ''max_concurrent'')]" by (simp add: cfg_xcdn_def)
  ultimately have "astools_config_load cfg_xcdn (cfg_disk ''c'') (Some ''/a::/b'') (Some ''conf'') astools_config_defaults =
     Inr (prepend_env_paths (Some ''/a::/b'') (astools_config_defaults\<lparr>cf_max_concurrent := 8, cf_config_dir := ''.''\<rparr>))"
    by (simp add: astools_config_load_def cfg_disk_read bind_res_def)
  with segs show ?thesis by (simp add: prepend_env_paths_def astools_config_defaults_def)
qed

section \<open>Properties\<close>

text \<open>
  C30: In a configuration loaded over the defaults every number is within its limits: periods positive and no longer than
  the largest one, concurrency and log files from 1 and the character budget from 0, all three within an int, so that the
  casts to int and size_t keep them; the output budget positive, the error budget not negative, both within 64 bits, the log
  size within 64 bits as bytes; executable paths are absolute, each selector is one of its constants, and roots, pins
  and grants are complete.
\<close>

theorem config_load_fine:
  "astools_config_load x d env path astools_config_defaults = Inr c \<Longrightarrow> config_fine c"
  by (rule load_config_fine [OF _ defaults_fine])

lemma config_load_fine_witness:
  "\<exists>c. astools_config_load cfg_xcdn (cfg_disk ''c'') (Some ''/a::/b'') (Some ''conf'') astools_config_defaults = Inr c \<and>
     cf_max_concurrent c = 8 \<and> config_fine c"
  using config_load_fine [OF cfg_sample(1)] by (simp add: cfg_sample(1))

text \<open>
  No misspelt setting is passed over: when a document that could be read and parsed is accepted, it is one
  object, every one of its keys names a section, and every key in a section is a key of that section. Any
  other document is refused as a configuration error.
\<close>

theorem config_keys_known:
  assumes "path \<noteq> []" "os_read_file d (Some path) = Inr bs" "x_parse x (text_of bs) = Some doc"
  shows "astools_config_load x d env (Some path) cfg = Inl ASTOOLS_ERR_CONFIG \<or>
    (\<exists>n es. doc = [Some n] \<and> xval n = Some (XObject es) \<and>
      (\<forall>e \<in> set es. \<exists>s n fs ks. e = (Some s, Some n) \<and> xval n = Some (XObject fs) \<and> (s, ks) \<in> set known_keys \<and>
         (\<forall>f \<in> set fs. \<exists>k m. f = (Some k, Some m) \<and> k \<in> set ks)))"
  by (rule load_keys [OF assms])

lemma config_keys_known_witness:
  "astools_config_load cfg_xcdn (cfg_disk ''d'') None (Some ''conf'') astools_config_defaults = Inl ASTOOLS_ERR_CONFIG"
proof -
  have "x_parse cfg_xcdn (text_of (bytes_of ''d'')) = Some [Some (cfg_doc ''max_concurent'')]" by (simp add: cfg_xcdn_def)
  from config_keys_known [OF _ cfg_disk_read this] show ?thesis
    by (fastforce simp: cfg_doc_def known_keys_def)
qed

text \<open>
  The roots of \<open>ASTOOLS_PATH\<close> come first: its pieces between colons, the empty ones left out, stand in their
  order and with standard trust before the roots the configuration has without the variable, and nothing
  else changes.
\<close>

theorem config_env_first:
  assumes "list_all (\<lambda>s. CHR '':'' \<notin> set s) ss" "astools_config_load x d (Some (colon_join ss)) path cfg = Inr c"
  shows "\<exists>c0. astools_config_load x d None path cfg = Inr c0 \<and>
     c = c0\<lparr>cf_reg_paths := map (\<lambda>s. \<lparr>r_path = Some s, r_trust = ASTOOLS_TRUST_STANDARD\<rparr>) (filter (\<lambda>s. s \<noteq> []) ss) @ cf_reg_paths c0\<rparr>"
  by (rule load_env [OF assms])

lemma config_env_first_witness:
  "\<exists>c0. astools_config_load cfg_xcdn (cfg_disk ''c'') None (Some ''conf'') astools_config_defaults = Inr c0 \<and> cf_max_concurrent c0 = 8"
proof -
  have "astools_config_load cfg_xcdn (cfg_disk ''c'') (Some (colon_join [''/a'', [], ''/b''])) (Some ''conf'') astools_config_defaults =
     Inr (astools_config_defaults\<lparr>cf_max_concurrent := 8, cf_reg_paths :=
       [\<lparr>r_path = Some ''/a'', r_trust = ASTOOLS_TRUST_STANDARD\<rparr>, \<lparr>r_path = Some ''/b'', r_trust = ASTOOLS_TRUST_STANDARD\<rparr>,
        \<lparr>r_path = Some ''tools'', r_trust = ASTOOLS_TRUST_STANDARD\<rparr>]\<rparr>)"
    using cfg_sample by simp
  from config_env_first [OF _ this] obtain c0 where
    "astools_config_load cfg_xcdn (cfg_disk ''c'') None (Some ''conf'') astools_config_defaults = Inr c0"
    "astools_config_defaults\<lparr>cf_max_concurrent := 8, cf_reg_paths :=
       [\<lparr>r_path = Some ''/a'', r_trust = ASTOOLS_TRUST_STANDARD\<rparr>, \<lparr>r_path = Some ''/b'', r_trust = ASTOOLS_TRUST_STANDARD\<rparr>,
        \<lparr>r_path = Some ''tools'', r_trust = ASTOOLS_TRUST_STANDARD\<rparr>]\<rparr> = c0\<lparr>cf_reg_paths := map (\<lambda>s. \<lparr>r_path = Some s,
       r_trust = ASTOOLS_TRUST_STANDARD\<rparr>) (filter (\<lambda>s. s \<noteq> []) [''/a'', [], ''/b'']) @ cf_reg_paths c0\<rparr>" by auto
  from arg_cong [OF this(2), of cf_max_concurrent] this(1) show ?thesis by auto
qed

end
