(* ===== verification/As_Registry.thy ===== *)
theory As_Registry
  imports As_Config As_ManifestRender
begin

text \<open>
  \<^verbatim>\<open>src/registry.c\<close>: the scan of the tool roots, the published table, the resolution of references and the
  references to descriptors; and the administration of the table by \<^verbatim>\<open>src/api.c\<close>. A descriptor is a value that
  extends the one of the selection. The files, the canonical paths and the directory listing are parameters;
  memory failures and messages are not modelled, so that an error is its code.
\<close>

declare astools_semver_cmp.simps [simp del]

section \<open>Descriptors\<close>

record reg_tool = astools_tool +
  rt_m :: astools_manifest
  rt_pkg_dir :: string
  rt_trust :: nat
  rt_host_disabled :: bool
  rt_lock_state :: astools_lock_state
  rt_entry :: "astools_entry option"
  rt_content_sha256 :: "byte list"

text \<open>What the scan reads: the xCDN library, the memory for the hashed search, files, paths and directories.\<close>

record reg_env =
  e_xcdn :: xcdn
  e_table :: bool
  e_disk :: disk
  e_realpath :: "string \<Rightarrow> string res"
  e_subdirs :: "string \<Rightarrow> string list res"

definition astools_plat_os :: string where
  "astools_plat_os = ''linux''"

definition astools_plat_arch :: string where
  "astools_plat_arch = ''x86_64''"

section \<open>One package\<close>

text \<open>The gate on an entry's program: present, and inside the package unless the root is fully trusted.\<close>

definition entry_rejected :: "nat \<Rightarrow> astools_entry \<Rightarrow> bool" where
  "entry_rejected trust e =
     (case entry_argv0 e of
        None \<Rightarrow> True
      | Some a0 \<Rightarrow> a0 = [] \<or> (trust \<noteq> ASTOOLS_TRUST_FULL \<and> \<not> pkg_relative (Some a0)))"

definition hash_entry :: "disk \<Rightarrow> string \<Rightarrow> astools_sha256_ctx \<Rightarrow> astools_entry \<Rightarrow> astools_sha256_ctx" where
  "hash_entry d pkg_dir ctx e =
     (case entry_argv0 e of
        None \<Rightarrow> ctx
      | Some a0 \<Rightarrow>
          if \<not> pkg_relative (Some a0) then ctx
          else astools_sha256_update (astools_sha256_update ctx (bytes_of a0 @ [0]))
            (case astools_sha256_file d (Some (pkg_file pkg_dir a0)) of Inr h \<Rightarrow> h | Inl _ \<Rightarrow> replicate 32 0))"

definition content_hash :: "disk \<Rightarrow> string \<Rightarrow> byte list \<Rightarrow> astools_entry list \<Rightarrow> byte list" where
  "content_hash d pkg_dir manifest_hash es =
     astools_sha256_final (foldl (hash_entry d pkg_dir) (astools_sha256_update astools_sha256_init manifest_hash) es)"

definition select_entry :: "astools_entry list \<Rightarrow> astools_entry option" where
  "select_entry es = find (\<lambda>e. en_os e = astools_plat_os \<and> en_arch e = astools_plat_arch) es"

definition plat_ok :: "string list \<Rightarrow> bool" where
  "plat_ok ps \<longleftrightarrow> ps = [] \<or> list_ex (\<lambda>p. p = astools_plat_os) ps"

definition load_package :: "reg_env \<Rightarrow> string option \<Rightarrow> nat \<Rightarrow> string \<Rightarrow> reg_tool option" where
  "load_package env workspace trust pkg_dir =
     (case os_read_file (e_disk env) (Some (pkg_file pkg_dir ''manifest.xcdn'')) of
        Inl _ \<Rightarrow> None
      | Inr text \<Rightarrow>
          (case astools_manifest_parse (e_table env) (e_xcdn env) workspace (Some (text_of text)) of
             None \<Rightarrow> None
           | Some m \<Rightarrow>
               if m_kind m = ASTOOLS_KIND_LIBRARY \<and> trust \<noteq> ASTOOLS_TRUST_FULL then None
               else if list_ex (entry_rejected trust) (m_entries m) then None
               else (case astools_semver_parse (Some (m_version m)) of
                   None \<Rightarrow> None
                 | Some ver \<Rightarrow>
                     Some \<lparr>t_id = Some (Some (m_id m)), t_available = plat_ok (m_platforms m) \<and> select_entry (m_entries m) \<noteq> None,
                       t_enabled = False, t_ver = ver, rt_m = m, rt_pkg_dir = pkg_dir, rt_trust = trust,
                       rt_host_disabled = False, rt_lock_state = ASTOOLS_LOCK_UNLISTED, rt_entry = select_entry (m_entries m),
                       rt_content_sha256 = content_hash (e_disk env) pkg_dir (astools_sha256 text) (m_entries m)\<rparr>)))"

section \<open>Comparison of tables\<close>

definition key_hex :: "nat \<Rightarrow> char" where
  "key_hex n = char_of (if n < 10 then 48 + n else 87 + n)"

definition hex_byte :: "byte \<Rightarrow> string" where
  "hex_byte b = [key_hex (unat b div 16), key_hex (unat b mod 16)]"

definition tool_key :: "reg_tool \<Rightarrow> string" where
  "tool_key t =
     m_id (rt_m t) @ ''@'' @ m_version (rt_m t) @ '':'' @ (if t_enabled t then ''1'' else ''0'') @ '':'' @ rt_pkg_dir t @ '':'' @
     concat (map hex_byte (rt_content_sha256 t))"

text \<open>\<open>qsort\<close> by \<open>strcmp\<close>: equal keys are equal strings, so that the sorted list is determined.\<close>

definition tables_differ :: "reg_tool list \<Rightarrow> reg_tool list \<Rightarrow> bool" where
  "tables_differ a b =
     (if length a \<noteq> length b then True
      else sort_key CStr (map tool_key a) \<noteq> sort_key CStr (map tool_key b))"

section \<open>The context\<close>

record reg_stats =
  s_tools_total :: nat
  s_tools_enabled :: nat
  s_tools_unavailable :: nat
  s_last_refresh_unix :: int

record reg_ctx =
  rc_cfg :: astools_config
  rc_workspace :: "string option"
  rc_tools :: "reg_tool list"
  rc_lockfile :: astools_lockfile
  rc_last_scan_mono :: int
  rc_registry_revision :: "64 word"
  rc_scan_fingerprint :: "64 word"
  rc_last_refresh_unix :: int
  rc_tools_changed_flag :: bool
  rc_stats :: reg_stats

definition lock_path_abs :: "astools_config \<Rightarrow> string" where
  "lock_path_abs cfg =
     (let lp = (case cf_lock_path cfg of Some (c # s) \<Rightarrow> c # s | _ \<Rightarrow> ''astools.lock.xcdn'') in
      if os_path_is_abs lp \<or> cf_config_dir cfg = [] then lp
      else os_path_join (Some (cf_config_dir cfg)) (Some lp))"

section \<open>The scan\<close>

definition same_tool :: "reg_tool \<Rightarrow> reg_tool \<Rightarrow> bool" where
  "same_tool o' t \<longleftrightarrow> m_id (rt_m o') = m_id (rt_m t) \<and> astools_semver_cmp (Some (t_ver o')) (Some (t_ver t)) = 0"

definition add_package :: "reg_env \<Rightarrow> string option \<Rightarrow> nat \<Rightarrow> string \<Rightarrow> reg_tool list \<Rightarrow> string \<Rightarrow> reg_tool list" where
  "add_package env workspace trust path tv name =
     (case load_package env workspace trust (os_path_join (Some path) (Some name)) of
        None \<Rightarrow> tv
      | Some t \<Rightarrow> if list_ex (\<lambda>o'. same_tool o' t) tv then tv else tv @ [t])"

definition scan_root :: "reg_env \<Rightarrow> string option \<Rightarrow> reg_tool list \<Rightarrow> astools_root \<Rightarrow> reg_tool list" where
  "scan_root env workspace tv rt =
     (case r_path rt of
        None \<Rightarrow> tv
      | Some p \<Rightarrow>
          (let path = (case e_realpath env p of Inr canon \<Rightarrow> canon | Inl _ \<Rightarrow> p) in
           case e_subdirs env path of
             Inl _ \<Rightarrow> tv
           | Inr names \<Rightarrow> foldl (add_package env workspace (r_trust rt) path) tv (sort_key CStr names)))"

definition scan_candidates :: "reg_env \<Rightarrow> string option \<Rightarrow> astools_root list \<Rightarrow> reg_tool list" where
  "scan_candidates env workspace roots = foldl (scan_root env workspace) [] roots"

definition lock_gate :: "nat \<Rightarrow> astools_lock_state \<Rightarrow> bool" where
  "lock_gate pinning ls \<longleftrightarrow> pinning \<noteq> ASTOOLS_PIN_ENFORCE \<or> ls = ASTOOLS_LOCK_OK"

definition judge_tool :: "disk \<Rightarrow> nat \<Rightarrow> astools_lockfile \<Rightarrow> reg_tool \<Rightarrow> reg_tool" where
  "judge_tool d pinning lf t =
     (let ls = astools_lockfile_check d (Some lf) (Some (m_id (rt_m t))) (Some (m_version (rt_m t))) (Some (rt_pkg_dir t)) (Some (rt_m t)) in
      t\<lparr>rt_lock_state := ls, t_enabled := t_available t \<and> lock_gate pinning ls\<rparr>)"

definition fp_part :: "byte list \<Rightarrow> 64 word" where
  "fp_part h = foldr (\<lambda>b acc. push_bit 8 acc OR ucast b) (take 8 h) 0"

definition keep_host_state :: "reg_tool list \<Rightarrow> reg_tool \<Rightarrow> reg_tool" where
  "keep_host_state old t =
     (let t' = (case find (\<lambda>o'. same_tool o' t) old of None \<Rightarrow> t | Some o' \<Rightarrow> t\<lparr>rt_host_disabled := rt_host_disabled o'\<rparr>) in
      if rt_host_disabled t' then t'\<lparr>t_enabled := False\<rparr> else t')"

text \<open>The swap under the write lock: host switches carried over, the counters and the change flag.\<close>

definition publish_tools :: "int \<Rightarrow> int \<Rightarrow> astools_lockfile \<Rightarrow> reg_tool list \<Rightarrow> reg_ctx \<Rightarrow> bool \<times> reg_ctx" where
  "publish_tools mono_ms now lf judged c =
     (let fp = foldl (\<lambda>acc t. acc XOR fp_part (rt_content_sha256 t)) 0 judged;
          tools = map (keep_host_state (rc_tools c)) judged;
          changed = tables_differ (rc_tools c) tools
      in (changed, c\<lparr>rc_tools := tools, rc_lockfile := lf, rc_scan_fingerprint := fp, rc_last_scan_mono := mono_ms,
            rc_last_refresh_unix := now,
            rc_stats := (rc_stats c)\<lparr>s_tools_total := length tools, s_tools_enabled := length (filter t_enabled tools),
              s_tools_unavailable := length (filter (\<lambda>t. \<not> t_available t) tools), s_last_refresh_unix := now\<rparr>,
            rc_tools_changed_flag := changed \<or> rc_tools_changed_flag c,
            rc_registry_revision := (if changed then rc_registry_revision c + 1 else rc_registry_revision c)\<rparr>))"

definition astools_registry_scan :: "reg_env \<Rightarrow> int \<Rightarrow> int \<Rightarrow> reg_ctx \<Rightarrow> bool res \<times> reg_ctx" where
  "astools_registry_scan env mono_ms now c =
     (let tv = scan_candidates env (rc_workspace c) (cf_reg_paths (rc_cfg c));
          loaded = astools_lockfile_load (e_xcdn env) (e_disk env) (Some (lock_path_abs (rc_cfg c)))
      in if loaded = Inl ASTOOLS_ERR_NOMEM then (Inl ASTOOLS_ERR_NOMEM, c)
         else
           let lf = (case loaded of Inr lf \<Rightarrow> lf | Inl _ \<Rightarrow> []);
               (changed, c') = publish_tools mono_ms now lf (map (judge_tool (e_disk env) (cf_pinning (rc_cfg c)) lf) tv) c
           in (Inr changed, c'))"

section \<open>Resolution\<close>

definition tool_better :: "reg_tool \<Rightarrow> reg_tool \<Rightarrow> bool" where
  "tool_better cand old =
     (let cand_rel = (prerelease (t_ver cand) = None); cur_rel = (prerelease (t_ver old) = None) in
      if cand_rel \<noteq> cur_rel then cand_rel
      else astools_semver_cmp (Some (t_ver cand)) (Some (t_ver old)) > 0)"

text \<open>The loop over the table: the best usable tool, the best blocked one, and what else was seen of the id.\<close>

record resolve_state =
  rs_hit :: "reg_tool option"
  rs_blocked :: "reg_tool option"
  rs_platform_missing :: bool
  rs_id_seen :: bool

definition better_of :: "reg_tool option \<Rightarrow> reg_tool \<Rightarrow> reg_tool option" where
  "better_of best t = (case best of None \<Rightarrow> Some t | Some b \<Rightarrow> if tool_better t b then Some t else Some b)"

definition resolve_step :: "string \<Rightarrow> astools_semver option \<Rightarrow> resolve_state \<Rightarrow> reg_tool \<Rightarrow> resolve_state" where
  "resolve_step ident want st t =
     (if m_id (rt_m t) \<noteq> ident then st
      else let st = st\<lparr>rs_id_seen := True\<rparr> in
        if (case want of Some w \<Rightarrow> astools_semver_cmp (Some (t_ver t)) (Some w) \<noteq> 0 | None \<Rightarrow> False) then st
        else if t_available t \<and> t_enabled t then st\<lparr>rs_hit := better_of (rs_hit st) t\<rparr>
        else if t_available t then st\<lparr>rs_blocked := better_of (rs_blocked st) t\<rparr>
        else st\<lparr>rs_platform_missing := True\<rparr>)"

definition pin_for :: "astools_pin list \<Rightarrow> string \<Rightarrow> string option" where
  "pin_for pins ident =
     (case find (\<lambda>p. pin_tool p \<noteq> None \<and> pin_version p \<noteq> None \<and> pin_tool p = Some ident) pins of
        None \<Rightarrow> None | Some p \<Rightarrow> pin_version p)"

definition astools_registry_resolve :: "reg_ctx \<Rightarrow> string option \<Rightarrow> reg_tool res" where
  "astools_registry_resolve c ref =
     (case ref of
        None \<Rightarrow> Inl ASTOOLS_ERR_INVALID
      | Some r \<Rightarrow>
          if r = [] then Inl ASTOOLS_ERR_INVALID
          else
            let ident = takeWhile (\<lambda>ch. ch \<noteq> CHR ''@'') r;
                verstr = (if CHR ''@'' \<in> set r then Some (tl (dropWhile (\<lambda>ch. ch \<noteq> CHR ''@'') r)) else None)
            in if ident = [] \<or> verstr = Some [] then Inl ASTOOLS_ERR_NOT_FOUND
               else
                 let verstr = (if verstr = None then pin_for (cf_pins (rc_cfg c)) ident else verstr);
                     want = astools_semver_parse verstr
                 in if verstr \<noteq> None \<and> want = None then Inl ASTOOLS_ERR_NOT_FOUND
                    else
                      let st = foldl (resolve_step ident want)
                        \<lparr>rs_hit = None, rs_blocked = None, rs_platform_missing = False, rs_id_seen = False\<rparr> (rc_tools c)
                      in (case rs_hit st of
                            Some t \<Rightarrow> Inr t
                          | None \<Rightarrow> if rs_blocked st \<noteq> None then Inl ASTOOLS_ERR_DENIED else Inl ASTOOLS_ERR_NOT_FOUND))"

section \<open>Poll and later checks\<close>

definition astools_registry_poll_due :: "int \<Rightarrow> reg_ctx \<Rightarrow> bool" where
  "astools_registry_poll_due mono_ms c =
     (if \<not> cf_watch_poll (rc_cfg c) then False
      else mono_ms - rc_last_scan_mono c \<ge> cf_poll_interval_ms (rc_cfg c))"

definition astools_registry_revalidate :: "disk \<Rightarrow> reg_ctx \<Rightarrow> reg_tool \<Rightarrow> astools_err" where
  "astools_registry_revalidate d c t =
     (if cf_pinning (rc_cfg c) \<noteq> ASTOOLS_PIN_ENFORCE then ASTOOLS_OK
      else if astools_lockfile_check d (Some (rc_lockfile c)) (Some (m_id (rt_m t))) (Some (m_version (rt_m t)))
          (Some (rt_pkg_dir t)) (Some (rt_m t)) = ASTOOLS_LOCK_OK then ASTOOLS_OK
      else ASTOOLS_ERR_DENIED)"

definition astools_registry_check_snapshot :: "reg_env \<Rightarrow> reg_ctx \<Rightarrow> reg_tool \<Rightarrow> byte list \<Rightarrow> astools_err" where
  "astools_registry_check_snapshot env c t expected =
     (case load_package env (rc_workspace c) (rt_trust t) (rt_pkg_dir t) of
        None \<Rightarrow> ASTOOLS_ERR_DENIED
      | Some now \<Rightarrow>
          if expected = rt_content_sha256 t \<and> expected = rt_content_sha256 now then ASTOOLS_OK else ASTOOLS_ERR_DENIED)"

section \<open>Administration\<close>

definition ref_split :: "string option \<Rightarrow> (string \<times> string option) res" where
  "ref_split ref =
     (case ref of
        None \<Rightarrow> Inl ASTOOLS_ERR_INVALID
      | Some r \<Rightarrow>
          if r = [] then Inl ASTOOLS_ERR_INVALID
          else if CHR ''@'' \<in> set r then
            (let rest = dropWhile (\<lambda>ch. ch \<noteq> CHR ''@'') r in
             if rest = r \<or> tl rest = [] then Inl ASTOOLS_ERR_INVALID
             else Inr (takeWhile (\<lambda>ch. ch \<noteq> CHR ''@'') r, Some (tl rest)))
          else Inr (r, None))"

definition ref_matches :: "string \<Rightarrow> string option \<Rightarrow> reg_tool \<Rightarrow> bool" where
  "ref_matches ident ver t \<longleftrightarrow> m_id (rt_m t) = ident \<and> (case ver of None \<Rightarrow> True | Some v \<Rightarrow> m_version (rt_m t) = v)"

definition enable_tool :: "nat \<Rightarrow> bool \<Rightarrow> reg_tool \<Rightarrow> reg_tool" where
  "enable_tool pinning on t =
     t\<lparr>rt_host_disabled := \<not> on, t_enabled := on \<and> lock_gate pinning (rt_lock_state t)\<rparr>"

definition astools_tool_enable :: "reg_ctx \<Rightarrow> string option \<Rightarrow> bool \<Rightarrow> astools_err \<times> reg_ctx" where
  "astools_tool_enable c ref on =
     (if ref = None then (ASTOOLS_ERR_INVALID, c)
      else case ref_split ref of
        Inl e \<Rightarrow> (e, c)
      | Inr (ident, ver) \<Rightarrow>
          (let old = rc_tools c;
               tools = map (\<lambda>t. if ref_matches ident ver t then enable_tool (cf_pinning (rc_cfg c)) on t else t) old;
               changed = list_ex (\<lambda>t. ref_matches ident ver t \<and> rt_host_disabled t \<noteq> (\<not> on)) old;
               matched = list_ex (ref_matches ident ver) old;
               c1 = c\<lparr>rc_tools := tools\<rparr>;
               c2 = (if changed then c1\<lparr>rc_registry_revision := rc_registry_revision c + 1, rc_tools_changed_flag := True\<rparr> else c1);
               c3 = (if matched then c2\<lparr>rc_stats := (rc_stats c)\<lparr>s_tools_enabled := length (filter (\<lambda>t. t_enabled t \<and> t_available t) tools)\<rparr>\<rparr>
                 else c2)
           in (if matched then ASTOOLS_OK else ASTOOLS_ERR_NOT_FOUND, c3)))"

definition astools_tool_list :: "reg_ctx \<Rightarrow> string list" where
  "astools_tool_list c = remdups_adj (sort_key CStr (map (\<lambda>t. m_id (rt_m t)) (rc_tools c)))"

definition astools_tool_state :: "reg_ctx \<Rightarrow> string option \<Rightarrow> (bool \<times> bool) res" where
  "astools_tool_state c ref =
     (if ref = None then Inl ASTOOLS_ERR_INVALID
      else bind_res (ref_split ref) (\<lambda>(ident, ver).
        let ts = filter (ref_matches ident ver) (rc_tools c) in
        if ts = [] then Inl ASTOOLS_ERR_NOT_FOUND else Inr (list_ex t_enabled ts, list_ex t_available ts)))"

definition pin_version_of :: "astools_pin list \<Rightarrow> string \<Rightarrow> string option" where
  "pin_version_of pins ident =
     (case find (\<lambda>p. pin_tool p \<noteq> None \<and> pin_tool p = Some ident) pins of None \<Rightarrow> None | Some p \<Rightarrow> pin_version p)"

definition admin_step :: "reg_tool option \<Rightarrow> reg_tool \<Rightarrow> reg_tool option" where
  "admin_step best t =
     (case best of
        None \<Rightarrow> Some t
      | Some b \<Rightarrow>
          (let best_pre = (prerelease (t_ver b) \<noteq> None); cand_pre = (prerelease (t_ver t) \<noteq> None) in
           if (best_pre \<and> \<not> cand_pre) \<or> (best_pre = cand_pre \<and> astools_semver_cmp (Some (t_ver t)) (Some (t_ver b)) > 0)
           then Some t else Some b))"

definition find_tool_admin :: "reg_ctx \<Rightarrow> string option \<Rightarrow> reg_tool res" where
  "find_tool_admin c ref =
     bind_res (ref_split ref) (\<lambda>(ident, ver).
       let pv = pin_version_of (cf_pins (rc_cfg c)) ident;
           ver = (if ver = None \<and> pv \<noteq> Some [] then pv else ver);
           ts = filter (\<lambda>t. m_id (rt_m t) = ident) (rc_tools c);
           best = (case ver of Some v \<Rightarrow> find (\<lambda>t. m_version (rt_m t) = v) ts | None \<Rightarrow> foldl admin_step None ts)
       in case best of None \<Rightarrow> Inl ASTOOLS_ERR_NOT_FOUND | Some t \<Rightarrow> Inr t)"

definition astools_tool_approve :: "reg_env \<Rightarrow> int \<Rightarrow> int \<Rightarrow> reg_ctx \<Rightarrow> string option \<Rightarrow> astools_err \<times> reg_env \<times> reg_ctx" where
  "astools_tool_approve env mono_ms now c ref =
     (if ref = None then (ASTOOLS_ERR_INVALID, env, c)
      else case find_tool_admin c ref of
        Inl e \<Rightarrow> (e, env, c)
      | Inr t \<Rightarrow>
          (case astools_lockfile_approve (e_xcdn env) (e_disk env) (Some (lock_path_abs (rc_cfg c))) (Some (m_id (rt_m t)))
                 (Some (m_version (rt_m t))) (Some (rt_pkg_dir t)) (Some (rt_m t)) now of
             (e, d) \<Rightarrow>
               (let env' = env\<lparr>e_disk := d\<rparr> in
                if e \<noteq> ASTOOLS_OK then (e, env', c)
                else
                  let c1 = (case astools_lockfile_load (e_xcdn env') d (Some (lock_path_abs (rc_cfg c))) of
                        Inr fresh \<Rightarrow> c\<lparr>rc_lockfile := fresh\<rparr> | Inl _ \<Rightarrow> c)
                  in (ASTOOLS_OK, env', snd (astools_registry_scan env' mono_ms now c1)))))"

section \<open>Comparison\<close>

lemma sort_eq_iff: "sort_key CStr xs = sort_key CStr ys \<longleftrightarrow> mset xs = mset ys"
proof
  assume "mset xs = mset ys"
  then show "sort_key CStr xs = sort_key CStr ys"
    by (intro sort_key_inj_key_eq) (auto simp: inj_on_def)
qed (metis mset_sort)

lemma tables_differ_mset: "tables_differ a b \<longleftrightarrow> mset (map tool_key a) \<noteq> mset (map tool_key b)"
  unfolding tables_differ_def sort_eq_iff by (metis length_map mset_eq_length)

text \<open>What a descriptor stands for in the comparison.\<close>

definition tool_identity :: "reg_tool \<Rightarrow> string \<times> string \<times> bool \<times> string \<times> byte list" where
  "tool_identity t = (m_id (rt_m t), m_version (rt_m t), t_enabled t, rt_pkg_dir t, rt_content_sha256 t)"

definition key_fine :: "reg_tool \<Rightarrow> bool" where
  "key_fine t \<longleftrightarrow> CHR ''@'' \<notin> set (m_id (rt_m t)) \<and> CHR '':'' \<notin> set (m_version (rt_m t)) \<and> length (rt_content_sha256 t) = 32"

lemma split_at_char: "c \<notin> set a \<Longrightarrow> c \<notin> set b \<Longrightarrow> a @ c # r = b @ c # s \<longleftrightarrow> a = b \<and> r = s"
proof (induction a arbitrary: b)
  case Nil
  then show ?case by (cases b) auto
next
  case (Cons x a)
  then show ?case by (cases b) auto
qed

lemma of_key_hex: "n < 16 \<Longrightarrow> (of_char (key_hex n) :: nat) = (if n < 10 then 48 + n else 87 + n)"
  by (simp add: key_hex_def)

lemma key_hex_inj: "m < 16 \<Longrightarrow> n < 16 \<Longrightarrow> key_hex m = key_hex n \<Longrightarrow> m = n"
proof -
  assume lt: "m < 16" "n < 16" and "key_hex m = key_hex n"
  then have "(of_char (key_hex m) :: nat) = of_char (key_hex n)" by simp
  then have "(if m < 10 then 48 + m else 87 + m) = (if n < 10 then 48 + n else 87 + n)"
    unfolding of_key_hex [OF lt(1)] of_key_hex [OF lt(2)] .
  with lt show ?thesis by (simp split: if_splits)
qed

lemma hex_byte_inj: "hex_byte a = hex_byte b \<longleftrightarrow> a = b"
proof
  assume e: "hex_byte a = hex_byte b"
  have lt: "unat a < 256" "unat b < 256" using unsigned_less [of a, where ?'a = nat] unsigned_less [of b, where ?'a = nat] by simp_all
  have "unat a div 16 = unat b div 16"
    by (rule key_hex_inj) (use e lt in \<open>auto simp: hex_byte_def less_mult_imp_div_less\<close>)
  moreover have "unat a mod 16 = unat b mod 16" by (rule key_hex_inj) (use e in \<open>simp_all add: hex_byte_def\<close>)
  ultimately have "unat a = unat b" by (metis div_mult_mod_eq)
  then show "a = b" by (simp add: word_unat_eq_iff)
qed simp

lemma hex_inj: "length a = length b \<Longrightarrow> concat (map hex_byte a) = concat (map hex_byte b) \<longleftrightarrow> a = b"
proof (induction a b rule: list_induct2)
  case (Cons x xs y ys)
  have "hex_byte x @ u = hex_byte y @ v \<longleftrightarrow> x = y \<and> u = v" for u v
    using hex_byte_inj [of x y] by (auto simp: hex_byte_def)
  with Cons show ?case by simp
qed simp

lemma hex_length: "length (concat (map hex_byte a)) = 2 * length a"
  by (induction a) (simp_all add: hex_byte_def)

lemma tool_key_inj:
  assumes "key_fine t" "key_fine u"
  shows "tool_key t = tool_key u \<longleftrightarrow> tool_identity t = tool_identity u"
proof -
  let ?h = "\<lambda>t. concat (map hex_byte (rt_content_sha256 t))"
  let ?e = "\<lambda>t. (if t_enabled t then ''1'' else ''0'')"
  have "tool_key t = tool_key u \<longleftrightarrow> m_id (rt_m t) = m_id (rt_m u) \<and> m_version (rt_m t) = m_version (rt_m u) \<and>
     ?e t @ '':'' @ rt_pkg_dir t @ '':'' @ ?h t = ?e u @ '':'' @ rt_pkg_dir u @ '':'' @ ?h u"
    using assms unfolding tool_key_def key_fine_def
    by (simp add: split_at_char [of "CHR ''@''"] split_at_char [of "CHR '':''" "m_version (rt_m t)"])
  also have "?e t @ '':'' @ rt_pkg_dir t @ '':'' @ ?h t = ?e u @ '':'' @ rt_pkg_dir u @ '':'' @ ?h u \<longleftrightarrow>
     t_enabled t = t_enabled u \<and> rt_pkg_dir t @ '':'' @ ?h t = rt_pkg_dir u @ '':'' @ ?h u" by auto
  also have "rt_pkg_dir t @ '':'' @ ?h t = rt_pkg_dir u @ '':'' @ ?h u \<longleftrightarrow>
     rt_pkg_dir t = rt_pkg_dir u \<and> rt_content_sha256 t = rt_content_sha256 u"
  proof -
    have "length ('':'' @ ?h t) = length ('':'' @ ?h u)" using assms by (simp only: length_append hex_length key_fine_def)
    then have "rt_pkg_dir t @ '':'' @ ?h t = rt_pkg_dir u @ '':'' @ ?h u \<longleftrightarrow> rt_pkg_dir t = rt_pkg_dir u \<and> ?h t = ?h u"
      by simp
    then show ?thesis using hex_inj [of "rt_content_sha256 t" "rt_content_sha256 u"] assms by (simp add: key_fine_def)
  qed
  finally show ?thesis by (simp add: tool_identity_def)
qed

lemma mset_map_agree:
  assumes "\<And>x y. x \<in> set a \<union> set b \<Longrightarrow> y \<in> set a \<union> set b \<Longrightarrow> f x = f y \<longleftrightarrow> g x = g y"
  shows "mset (map f a) = mset (map f b) \<longleftrightarrow> mset (map g a) = mset (map g b)"
proof -
  have one: "mset (map g' a) = mset (map g' b)" if e: "mset (map f' a) = mset (map f' b)"
    and d: "\<And>x y. x \<in> set a \<union> set b \<Longrightarrow> y \<in> set a \<union> set b \<Longrightarrow> f' x = f' y \<Longrightarrow> g' x = g' y"
    for f' :: "'a \<Rightarrow> 'e" and g' :: "'a \<Rightarrow> 'd"
  proof -
    let ?h = "\<lambda>k. g' (SOME x. x \<in> set a \<union> set b \<and> f' x = k)"
    have h: "?h (f' x) = g' x" if "x \<in> set a \<union> set b" for x
    proof -
      have "(SOME y. y \<in> set a \<union> set b \<and> f' y = f' x) \<in> set a \<union> set b \<and> f' (SOME y. y \<in> set a \<union> set b \<and> f' y = f' x) = f' x"
        by (rule someI [of _ x]) (use that in simp)
      with d that show ?thesis by blast
    qed
    have "mset (map g' c) = image_mset ?h (mset (map f' c))" if "set c \<subseteq> set a \<union> set b" for c
    proof -
      have "g' x = ?h (f' x)" if "x \<in> set c" for x
        by (rule h [symmetric]) (use that \<open>set c \<subseteq> set a \<union> set b\<close> in blast)
      then have "map g' c = map ?h (map f' c)" unfolding map_map comp_def by (rule map_cong [OF refl])
      then show ?thesis by (metis mset_map)
    qed
    with e show ?thesis by simp
  qed
  show ?thesis using one [of f g] one [of g f] assms by blast
qed

lemma tables_differ_identity:
  assumes "\<And>t. t \<in> set a \<union> set b \<Longrightarrow> key_fine t"
  shows "tables_differ a b \<longleftrightarrow> mset (map tool_identity a) \<noteq> mset (map tool_identity b)"
  unfolding tables_differ_mset using mset_map_agree [of a b tool_key tool_identity] tool_key_inj assms by blast

section \<open>What the scan publishes\<close>

text \<open>
  A descriptor as a package of a root gives it: the manifest is valid, the gates of the root's trust hold, and
  the version, the entry, the availability and the digest are those of the manifest.
\<close>

definition package_ok :: "reg_tool \<Rightarrow> bool" where
  "package_ok t \<longleftrightarrow>
     manifest_fine (rt_m t) \<and> t_id t = Some (Some (m_id (rt_m t))) \<and>
     astools_semver_parse (Some (m_version (rt_m t))) = Some (t_ver t) \<and>
     rt_entry t = select_entry (m_entries (rt_m t)) \<and>
     t_available t = (plat_ok (m_platforms (rt_m t)) \<and> rt_entry t \<noteq> None) \<and> length (rt_content_sha256 t) = 32 \<and>
     list_all (\<lambda>e. \<exists>a0. entry_argv0 e = Some a0 \<and> a0 \<noteq> []) (m_entries (rt_m t)) \<and>
     (rt_trust t \<noteq> ASTOOLS_TRUST_FULL \<longrightarrow>
        m_kind (rt_m t) \<noteq> ASTOOLS_KIND_LIBRARY \<and> list_all (\<lambda>e. pkg_relative (entry_argv0 e)) (m_entries (rt_m t)))"

lemma hash_entry_ctx: "\<exists>m'. hash_entry d pkg_dir (ctx_of m) e = ctx_of m'"
  by (auto simp: hash_entry_def update_ctx_of split: option.split)

text \<open>The bytes whose digest identifies a package: the manifest's digest, then each program's name and digest.\<close>

definition entry_image :: "disk \<Rightarrow> string \<Rightarrow> astools_entry \<Rightarrow> byte list" where
  "entry_image d pkg_dir e =
     (case entry_argv0 e of
        None \<Rightarrow> []
      | Some a0 \<Rightarrow>
          if pkg_relative (Some a0)
          then bytes_of a0 @ [0] @ (case content d (pkg_file pkg_dir a0) of Some bs \<Rightarrow> sha256_ref bs | None \<Rightarrow> replicate 32 0)
          else [])"

definition package_image :: "disk \<Rightarrow> string \<Rightarrow> byte list \<Rightarrow> astools_entry list \<Rightarrow> byte list" where
  "package_image d pkg_dir text es = sha256_ref text @ concat (map (entry_image d pkg_dir) es)"

lemma file_hash_content:
  "(case astools_sha256_file d (Some p) of Inr h \<Rightarrow> h | Inl _ \<Rightarrow> replicate 32 0) =
   (case content d p of Some bs \<Rightarrow> sha256_ref bs | None \<Rightarrow> replicate 32 0)"
proof (cases "astools_sha256_file d (Some p)")
  case (Inl e)
  then have "content d p = None"
    by (metis Inl_Inr_False not_None_eq sha256_file_Inr)
  with Inl show ?thesis by simp
next
  case (Inr h)
  then obtain bs where "content d p = Some bs" "h = sha256_ref bs" by (auto simp: sha256_file_Inr)
  with Inr show ?thesis by simp
qed

lemma hash_entry_image: "hash_entry d pkg_dir (ctx_of m) e = ctx_of (m @ entry_image d pkg_dir e)"
  unfolding hash_entry_def entry_image_def file_hash_content
  by (auto simp: update_ctx_of split: option.split)

lemma hash_entries_image: "foldl (hash_entry d pkg_dir) (ctx_of m) es = ctx_of (m @ concat (map (entry_image d pkg_dir) es))"
  by (induction es arbitrary: m) (simp_all add: hash_entry_image)

lemma content_hash_image:
  "content_hash d pkg_dir (astools_sha256 text) es = sha256_ref (package_image d pkg_dir text es)"
proof -
  have "astools_sha256 text = sha256_ref text"
    using update_ctx_of [of "[]" "text"] by (simp add: astools_sha256_def ctx_of_Nil final_ctx_of)
  moreover have "astools_sha256_update astools_sha256_init m = ctx_of m" for m
    using update_ctx_of [of "[]" m] by (simp add: ctx_of_Nil)
  ultimately show ?thesis by (simp add: content_hash_def package_image_def hash_entries_image final_ctx_of)
qed

lemma load_package_inv:
  assumes "load_package env ws trust dir = Some t"
  shows "\<exists>text m. os_read_file (e_disk env) (Some (pkg_file dir ''manifest.xcdn'')) = Inr text \<and>
    astools_manifest_parse (e_table env) (e_xcdn env) ws (Some (text_of text)) = Some m \<and>
    \<not> (m_kind m = ASTOOLS_KIND_LIBRARY \<and> trust \<noteq> ASTOOLS_TRUST_FULL) \<and> \<not> list_ex (entry_rejected trust) (m_entries m) \<and>
    astools_semver_parse (Some (m_version m)) = Some (t_ver t) \<and> rt_m t = m \<and> t_id t = Some (Some (m_id m)) \<and>
    rt_entry t = select_entry (m_entries m) \<and> t_available t = (plat_ok (m_platforms m) \<and> select_entry (m_entries m) \<noteq> None) \<and>
    rt_trust t = trust \<and> rt_pkg_dir t = dir \<and> \<not> rt_host_disabled t \<and>
    rt_content_sha256 t = sha256_ref (package_image (e_disk env) dir text (m_entries m))"
  using assms by (auto simp: load_package_def content_hash_image split: sum.splits option.splits if_splits)

lemma load_package_ok:
  assumes "xcdn_ok (e_xcdn env)" "load_package env ws trust dir = Some t"
  shows "package_ok t \<and> \<not> rt_host_disabled t \<and> rt_trust t = trust"
proof -
  obtain bs where bs: "astools_manifest_parse (e_table env) (e_xcdn env) ws (Some (text_of bs)) = Some (rt_m t)"
    "\<not> (m_kind (rt_m t) = ASTOOLS_KIND_LIBRARY \<and> trust \<noteq> ASTOOLS_TRUST_FULL)"
    "\<not> list_ex (entry_rejected trust) (m_entries (rt_m t))" "rt_trust t = trust"
    using load_package_inv [OF assms(2)] by blast
  obtain n where "doc_ok n" "manifest_of_root (e_table env) (e_xcdn env) ws n = Some (rt_m t)"
    using parse_root_doc [OF assms(1) bs(1)] by blast
  with assms(1) have "manifest_fine (rt_m t)" by (blast intro: manifest_fine_parse)
  moreover have "list_all (\<lambda>e. \<exists>a0. entry_argv0 e = Some a0 \<and> a0 \<noteq> []) (m_entries (rt_m t))"
    "trust \<noteq> ASTOOLS_TRUST_FULL \<Longrightarrow> list_all (\<lambda>e. pkg_relative (entry_argv0 e)) (m_entries (rt_m t))"
    using bs(3) by (fastforce simp: list_all_iff list_ex_iff entry_rejected_def split: option.splits)+
  ultimately show ?thesis
    using load_package_inv [OF assms(2)] bs by (auto simp: package_ok_def)
qed

definition table_unique :: "reg_tool list \<Rightarrow> bool" where
  "table_unique ts \<longleftrightarrow> sorted_wrt (\<lambda>a b. \<not> same_tool a b) ts"

definition fresh_tool :: "reg_tool \<Rightarrow> bool" where
  "fresh_tool t \<longleftrightarrow> package_ok t \<and> \<not> rt_host_disabled t"

lemma add_package_inv:
  assumes "xcdn_ok (e_xcdn env)" "list_all fresh_tool tv" "table_unique tv"
  shows "list_all fresh_tool (add_package env ws trust path tv name) \<and> table_unique (add_package env ws trust path tv name)"
proof (cases "load_package env ws trust (os_path_join (Some path) (Some name))")
  case (Some t)
  with assms load_package_ok [OF assms(1) Some] show ?thesis
    by (auto simp: add_package_def fresh_tool_def table_unique_def sorted_wrt_append list_ex_iff)
qed (use assms in \<open>simp add: add_package_def\<close>)

lemma foldl_inv: "I a \<Longrightarrow> (\<And>a x. I a \<Longrightarrow> I (f a x)) \<Longrightarrow> I (foldl f a xs)"
  by (induction xs arbitrary: a) simp_all

lemma scan_root_inv:
  assumes "xcdn_ok (e_xcdn env)" "list_all fresh_tool tv \<and> table_unique tv"
  shows "list_all fresh_tool (scan_root env ws tv r) \<and> table_unique (scan_root env ws tv r)"
proof -
  have "list_all fresh_tool (foldl (add_package env ws trust path) tv ns) \<and> table_unique (foldl (add_package env ws trust path) tv ns)"
    for trust path ns
    by (rule foldl_inv [where I = "\<lambda>tv. list_all fresh_tool tv \<and> table_unique tv", OF assms(2)])
      (rule add_package_inv [OF assms(1)], simp_all)
  with assms(2) show ?thesis by (simp add: scan_root_def Let_def split: option.split sum.split)
qed

lemma scan_candidates_inv:
  "xcdn_ok (e_xcdn env) \<Longrightarrow> list_all fresh_tool (scan_candidates env ws roots) \<and> table_unique (scan_candidates env ws roots)"
  unfolding scan_candidates_def
  by (rule foldl_inv [where I = "\<lambda>tv. list_all fresh_tool tv \<and> table_unique tv"])
    (auto simp: scan_root_inv table_unique_def [of "[]"])

lemma judge_tool_simps [simp]:
  "rt_m (judge_tool d p lf t) = rt_m t" "t_ver (judge_tool d p lf t) = t_ver t" "rt_host_disabled (judge_tool d p lf t) = rt_host_disabled t"
  "t_available (judge_tool d p lf t) = t_available t" "rt_pkg_dir (judge_tool d p lf t) = rt_pkg_dir t"
  "package_ok (judge_tool d p lf t) = package_ok t" "rt_content_sha256 (judge_tool d p lf t) = rt_content_sha256 t"
  "rt_lock_state (judge_tool d p lf t) = astools_lockfile_check d (Some lf) (Some (m_id (rt_m t))) (Some (m_version (rt_m t)))
     (Some (rt_pkg_dir t)) (Some (rt_m t))"
  "t_enabled (judge_tool d p lf t) \<longleftrightarrow> t_available t \<and> lock_gate p (rt_lock_state (judge_tool d p lf t))"
  by (simp_all add: judge_tool_def Let_def package_ok_def)

lemma keep_host_state_simps [simp]:
  "rt_m (keep_host_state old t) = rt_m t" "t_ver (keep_host_state old t) = t_ver t" "t_available (keep_host_state old t) = t_available t"
  "rt_pkg_dir (keep_host_state old t) = rt_pkg_dir t" "package_ok (keep_host_state old t) = package_ok t"
  "rt_lock_state (keep_host_state old t) = rt_lock_state t" "rt_content_sha256 (keep_host_state old t) = rt_content_sha256 t"
  "t_enabled (keep_host_state old t) \<longleftrightarrow> t_enabled t \<and> \<not> rt_host_disabled (keep_host_state old t)"
  by (auto simp: keep_host_state_def package_ok_def Let_def split: option.split)

lemma same_tool_simps [simp]:
  "same_tool a (judge_tool d p lf b) = same_tool a b" "same_tool (judge_tool d p lf a) b = same_tool a b"
  "same_tool a (keep_host_state old b) = same_tool a b" "same_tool (keep_host_state old a) b = same_tool a b"
  by (simp_all add: same_tool_def)

lemma same_tool_refl: "same_tool a a"
  by (simp add: same_tool_def semver.cmp_refl)

lemma same_tool_sym: "same_tool a b = same_tool b a"
  unfolding same_tool_def using semver.cmp_zero_sym by metis

lemma same_tool_trans: "same_tool a b \<Longrightarrow> same_tool b c \<Longrightarrow> same_tool a c"
  unfolding same_tool_def using semver.cmp_zero_trans by metis

section \<open>The context as a state machine\<close>

text \<open>What every step keeps of the table: valid packages, one descriptor per version, and nothing enabled past its gates.\<close>

definition gate_ok :: "nat \<Rightarrow> reg_tool \<Rightarrow> bool" where
  "gate_ok pinning t \<longleftrightarrow> (t_enabled t \<longrightarrow> \<not> rt_host_disabled t \<and> lock_gate pinning (rt_lock_state t))"

definition ctx_ok :: "reg_ctx \<Rightarrow> bool" where
  "ctx_ok c \<longleftrightarrow> list_all package_ok (rc_tools c) \<and> table_unique (rc_tools c) \<and>
     list_all (gate_ok (cf_pinning (rc_cfg c))) (rc_tools c)"

text \<open>The steps of a context: a scan, a host switching a tool, an approval.\<close>

inductive reg_step :: "reg_ctx \<Rightarrow> reg_ctx \<Rightarrow> bool" where
  scan: "xcdn_ok (e_xcdn env) \<Longrightarrow> reg_step c (snd (astools_registry_scan env mono_ms now c))"
| enable: "reg_step c (snd (astools_tool_enable c ref on))"
| approve: "xcdn_ok (e_xcdn env) \<Longrightarrow> reg_step c (snd (snd (astools_tool_approve env mono_ms now c ref)))"

inductive reg_reach :: "reg_ctx \<Rightarrow> reg_ctx \<Rightarrow> bool" for c0 where
  init: "reg_reach c0 c0"
| step: "reg_reach c0 c \<Longrightarrow> reg_step c c' \<Longrightarrow> reg_reach c0 c'"

inductive_cases reg_stepE: "reg_step c c'"

text \<open>The outcome of a scan that is not out of memory.\<close>

definition scan_judged :: "reg_env \<Rightarrow> reg_ctx \<Rightarrow> astools_lockfile \<Rightarrow> reg_tool list" where
  "scan_judged env c lf =
     map (judge_tool (e_disk env) (cf_pinning (rc_cfg c)) lf) (scan_candidates env (rc_workspace c) (cf_reg_paths (rc_cfg c)))"

lemma scan_cases:
  assumes "astools_registry_scan env mono_ms now c = (r, c')"
  shows "r = Inl ASTOOLS_ERR_NOMEM \<and> c' = c \<or>
    (\<exists>lf changed. lf = (case astools_lockfile_load (e_xcdn env) (e_disk env) (Some (lock_path_abs (rc_cfg c))) of Inr lf \<Rightarrow> lf | Inl _ \<Rightarrow> []) \<and>
      r = Inr changed \<and> publish_tools mono_ms now lf (scan_judged env c lf) c = (changed, c'))"
  using assms by (auto simp: astools_registry_scan_def scan_judged_def Let_def split: if_splits prod.splits)

lemma publish_tools_inv:
  assumes "publish_tools mono_ms now lf judged c = (changed, c')"
  shows "rc_tools c' = map (keep_host_state (rc_tools c)) judged \<and> rc_cfg c' = rc_cfg c \<and> rc_lockfile c' = lf \<and>
    changed = tables_differ (rc_tools c) (rc_tools c') \<and>
    s_tools_total (rc_stats c') = length (rc_tools c') \<and> s_tools_enabled (rc_stats c') = length (filter t_enabled (rc_tools c')) \<and>
    s_tools_unavailable (rc_stats c') = length (filter (\<lambda>t. \<not> t_available t) (rc_tools c')) \<and>
    rc_registry_revision c' = (if changed then rc_registry_revision c + 1 else rc_registry_revision c) \<and>
    rc_tools_changed_flag c' = (changed \<or> rc_tools_changed_flag c)"
proof -
  have c': "c' = snd (publish_tools mono_ms now lf judged c)" "changed = fst (publish_tools mono_ms now lf judged c)"
    using assms by simp_all
  show ?thesis unfolding c' by (simp add: publish_tools_def Let_def)
qed

lemma sorted_wrt_same: "table_unique (map f ts) \<longleftrightarrow> table_unique ts" if "\<And>a b. same_tool (f a) (f b) = same_tool a b"
  using that by (simp add: table_unique_def sorted_wrt_map)

lemma scan_judged_inv:
  assumes "xcdn_ok (e_xcdn env)"
  shows "list_all package_ok (scan_judged env c lf)" "table_unique (scan_judged env c lf)"
    "list_all (gate_ok (cf_pinning (rc_cfg c))) (map (keep_host_state old) (scan_judged env c lf))"
    "list_all (\<lambda>t. \<not> rt_host_disabled t) (scan_judged env c lf)"
  using scan_candidates_inv [OF assms, of "rc_workspace c" "cf_reg_paths (rc_cfg c)"]
  by (auto simp: scan_judged_def list_all_iff fresh_tool_def sorted_wrt_same gate_ok_def)

lemma scan_ok:
  assumes "xcdn_ok (e_xcdn env)" "ctx_ok c" "astools_registry_scan env mono_ms now c = (r, c')"
  shows "ctx_ok c' \<and> rc_cfg c' = rc_cfg c"
  using scan_cases [OF assms(3)]
proof (elim disjE exE conjE)
  fix lf changed
  assume "publish_tools mono_ms now lf (scan_judged env c lf) c = (changed, c')"
  then have t: "rc_tools c' = map (keep_host_state (rc_tools c)) (scan_judged env c lf)" "rc_cfg c' = rc_cfg c"
    using publish_tools_inv by blast+
  have "list_all package_ok (rc_tools c')" "table_unique (rc_tools c')" "list_all (gate_ok (cf_pinning (rc_cfg c))) (rc_tools c')"
    unfolding t(1) using scan_judged_inv(1,2) [OF assms(1), of c lf] scan_judged_inv(3) [OF assms(1), of c "rc_tools c" lf]
    by (simp_all add: sorted_wrt_same list_all_iff)
  with t(2) show ?thesis by (simp add: ctx_ok_def)
qed (use assms(2) in simp_all)

lemma enable_tool_simps [simp]:
  "rt_m (enable_tool p on t) = rt_m t" "t_ver (enable_tool p on t) = t_ver t" "t_available (enable_tool p on t) = t_available t"
  "package_ok (enable_tool p on t) = package_ok t" "gate_ok p (enable_tool p on t)"
  by (auto simp: enable_tool_def package_ok_def gate_ok_def)

lemma enable_tools:
  "rc_tools (snd (astools_tool_enable c ref on)) =
     (case ref_split ref of
        Inl _ \<Rightarrow> rc_tools c
      | Inr (ident, ver) \<Rightarrow> map (\<lambda>t. if ref_matches ident ver t then enable_tool (cf_pinning (rc_cfg c)) on t else t) (rc_tools c))"
  "rc_cfg (snd (astools_tool_enable c ref on)) = rc_cfg c"
  by (cases ref; simp add: astools_tool_enable_def ref_split_def Let_def split: sum.split prod.split)+

lemma enable_ok: "ctx_ok c \<Longrightarrow> ctx_ok (snd (astools_tool_enable c ref on))"
proof -
  assume c: "ctx_ok c"
  have "table_unique (map (\<lambda>t. if P t then enable_tool p on t else t) ts) = table_unique ts" for P p ts
    by (rule sorted_wrt_same) (simp add: same_tool_def)
  moreover have "list_all Q (map (\<lambda>t. if P t then enable_tool p on t else t) ts)"
    if "list_all Q ts" "\<And>t. Q t \<Longrightarrow> Q (enable_tool p on t)" for P Q p ts
    using that by (auto simp: list_all_iff)
  ultimately show ?thesis using c by (simp add: ctx_ok_def enable_tools split: sum.split prod.split)
qed

lemma approve_ok:
  assumes "xcdn_ok (e_xcdn env)" "ctx_ok c" "astools_tool_approve env mono_ms now c ref = (e, env', c')"
  shows "ctx_ok c' \<and> rc_cfg c' = rc_cfg c"
proof -
  have "c' = c \<or> (\<exists>d lf. c' = snd (astools_registry_scan (env\<lparr>e_disk := d\<rparr>) mono_ms now (c\<lparr>rc_lockfile := lf\<rparr>))) \<or>
    (\<exists>d. c' = snd (astools_registry_scan (env\<lparr>e_disk := d\<rparr>) mono_ms now c))"
    using assms(3) by (auto simp: astools_tool_approve_def Let_def split: sum.splits prod.splits if_splits)
  moreover have "ctx_ok (snd (astools_registry_scan (env\<lparr>e_disk := d\<rparr>) mono_ms now b)) \<and>
      rc_cfg (snd (astools_registry_scan (env\<lparr>e_disk := d\<rparr>) mono_ms now b)) = rc_cfg b" if "ctx_ok b" for d b
    using scan_ok [of "env\<lparr>e_disk := d\<rparr>" b mono_ms now] assms(1) that
    by (cases "astools_registry_scan (env\<lparr>e_disk := d\<rparr>) mono_ms now b") simp
  moreover have "ctx_ok (c\<lparr>rc_lockfile := lf\<rparr>)" for lf using assms(2) by (simp add: ctx_ok_def)
  ultimately show ?thesis using assms(2) by fastforce
qed

lemma step_ok: "reg_step c c' \<Longrightarrow> ctx_ok c \<Longrightarrow> ctx_ok c' \<and> rc_cfg c' = rc_cfg c"
proof (induction rule: reg_step.induct)
  case (scan env c mono_ms now)
  then show ?case using scan_ok [of env c mono_ms now] by (cases "astools_registry_scan env mono_ms now c") simp
next
  case (enable c ref on)
  then show ?case using enable_ok [of c ref on] by (simp add: enable_tools)
next
  case (approve env c mono_ms now ref)
  then show ?case using approve_ok [of env c mono_ms now ref] by (cases "astools_tool_approve env mono_ms now c ref") simp
qed

lemma reach_ok: "reg_reach c0 c \<Longrightarrow> ctx_ok c0 \<Longrightarrow> ctx_ok c \<and> rc_cfg c = rc_cfg c0"
  by (induction rule: reg_reach.induct) (auto dest: step_ok)

section \<open>What a reference resolves to\<close>

definition usable_for :: "string \<Rightarrow> astools_semver option \<Rightarrow> reg_tool \<Rightarrow> bool" where
  "usable_for ident want t \<longleftrightarrow> m_id (rt_m t) = ident \<and> t_available t \<and> t_enabled t \<and>
     (case want of Some w \<Rightarrow> astools_semver_cmp (Some (t_ver t)) (Some w) = 0 | None \<Rightarrow> True)"

lemma resolve_hit:
  "rs_hit (foldl (resolve_step ident want) st ts) = foldl better_of (rs_hit st) (filter (usable_for ident want) ts)"
proof (induction ts arbitrary: st)
  case (Cons t ts)
  have "rs_hit (resolve_step ident want st t) = (if usable_for ident want t then better_of (rs_hit st) t else rs_hit st)"
    by (auto simp: resolve_step_def usable_for_def Let_def split: option.splits)
  with Cons show ?case by simp
qed simp

lemma better_of_mem: "foldl better_of h ts = Some t \<Longrightarrow> h = Some t \<or> t \<in> set ts"
proof (induction ts arbitrary: h)
  case (Cons u ts)
  from Cons.IH [of "better_of h u"] Cons.prems show ?case
    by (auto simp: better_of_def split: option.splits if_splits)
qed simp

lemma resolve_usable:
  assumes "astools_registry_resolve c ref = Inr t"
  shows "t \<in> set (rc_tools c) \<and> t_available t \<and> t_enabled t"
proof -
  have "\<exists>ident want st. rs_hit (foldl (resolve_step ident want) st (rc_tools c)) = Some t \<and> rs_hit st = None"
    using assms by (auto simp: astools_registry_resolve_def Let_def split: option.splits if_splits)
      (metis resolve_state.select_convs(1))+
  then obtain ident want where "foldl better_of None (filter (usable_for ident want) (rc_tools c)) = Some t"
    by (auto simp: resolve_hit)
  from better_of_mem [OF this] show ?thesis by (auto simp: usable_for_def)
qed

section \<open>Resolution and the listing\<close>

definition plain_tool :: "reg_tool \<Rightarrow> astools_tool" where
  "plain_tool t = astools_tool.truncate t"

lemma plain_tool_simps [simp]:
  "t_available (plain_tool t) = t_available t" "t_enabled (plain_tool t) = t_enabled t" "t_ver (plain_tool t) = t_ver t" "t_id (plain_tool t) = t_id t"
  by (simp_all add: plain_tool_def astools_tool.truncate_def)

lemma tid_plain: "package_ok t \<Longrightarrow> tid (plain_tool t) = m_id (rt_m t)"
  by (simp add: tid_def package_ok_def)

lemma tool_better_plain: "tool_better a b = version_better (plain_tool a) (plain_tool b)"
  by (simp add: tool_better_def version_better_def)

text \<open>The pin of an id, as the matching of tools sees it.\<close>

lemma matches_pin_for:
  "tid t = ident \<Longrightarrow> matches_pin pins t \<longleftrightarrow>
     (case pin_for pins ident of None \<Rightarrow> True
      | Some v \<Rightarrow> (case astools_semver_parse (Some v) of None \<Rightarrow> False
          | Some w \<Rightarrow> astools_semver_cmp (Some w) (Some (t_ver t)) = 0))"
proof (induction pins)
  case (Cons p pins)
  show ?case
  proof (cases "pin_tool p \<noteq> None \<and> pin_version p \<noteq> None \<and> pin_tool p = Some ident")
    case True
    then obtain v where "pin_version p = Some v" by auto
    with True Cons.prems show ?thesis by (auto simp: pin_for_def split: option.split)
  next
    case False
    then have "matches_pin (p # pins) t = matches_pin pins t" using Cons.prems by auto
    moreover have "pin_for (p # pins) ident = pin_for pins ident" using False by (auto simp: pin_for_def)
    ultimately show ?thesis using Cons by simp
  qed
qed (simp add: pin_for_def)

lemma find_place:
  "find (\<lambda>s. tid s = i) (place_tool t sel) =
     (if tid t \<noteq> i then find (\<lambda>s. tid s = i) sel
      else case find (\<lambda>s. tid s = i) sel of None \<Rightarrow> Some t | Some b \<Rightarrow> if version_better t b then Some t else Some b)"
  by (induction sel) auto

definition tool_hit :: "string \<Rightarrow> astools_semver option \<Rightarrow> reg_tool option \<Rightarrow> reg_tool list \<Rightarrow> reg_tool option" where
  "tool_hit ident want h ts = foldl better_of h (filter (usable_for ident want) ts)"

lemma select_hit:
  assumes "list_all package_ok ts"
    and "\<And>t. t \<in> set ts \<Longrightarrow> m_id (rt_m t) = ident \<Longrightarrow>
      matches_pin pins (plain_tool t) \<longleftrightarrow> (case want of Some w \<Rightarrow> astools_semver_cmp (Some (t_ver t)) (Some w) = 0 | None \<Rightarrow> True)"
    and "find (\<lambda>s. tid s = ident) sel = map_option plain_tool h"
  shows "find (\<lambda>s. tid s = ident) (foldl (\<lambda>sel t. if \<not> tool_listed t \<or> \<not> matches_pin pins t then sel else place_tool t sel) sel (map plain_tool ts)) =
    map_option plain_tool (tool_hit ident want h ts)"
  using assms
proof (induction ts arbitrary: sel h)
  case (Cons t ts)
  have t: "package_ok t" "list_all package_ok ts" using Cons.prems(1) by simp_all
  let ?f = "\<lambda>sel t. if \<not> tool_listed t \<or> \<not> matches_pin pins t then sel else place_tool t sel"
  let ?h = "if usable_for ident want t then better_of h t else h"
  have listed: "tool_listed (plain_tool t) \<longleftrightarrow> t_available t \<and> t_enabled t" using t(1) by (simp add: tool_listed_def package_ok_def)
  have step: "find (\<lambda>s. tid s = ident) (?f sel (plain_tool t)) = map_option plain_tool ?h"
  proof (cases "m_id (rt_m t) = ident")
    case True
    then have "usable_for ident want t \<longleftrightarrow> tool_listed (plain_tool t) \<and> matches_pin pins (plain_tool t)"
      using Cons.prems(2) [of t] by (simp add: usable_for_def listed)
    with True Cons.prems(3) tid_plain [OF t(1)] show ?thesis
      by (auto simp: find_place better_of_def tool_better_plain split: option.splits)
  next
    case False
    with Cons.prems(3) tid_plain [OF t(1)] show ?thesis by (simp add: find_place usable_for_def)
  qed
  have "tool_hit ident want h (t # ts) = tool_hit ident want ?h ts" by (simp add: tool_hit_def)
  with Cons.IH [OF t(2) _ step] Cons.prems(2) show ?case by simp
qed (simp add: tool_hit_def)

lemma find_distinct:
  "distinct (map tid xs) \<Longrightarrow> find (\<lambda>s. tid s = i) xs = Some s \<longleftrightarrow> s \<in> set xs \<and> tid s = i"
proof (induction xs)
  case (Cons x xs)
  then show ?case by (auto simp: image_iff)
qed simp

lemma find_distinct_set:
  assumes "distinct (map tid xs)" "distinct (map tid ys)" "set xs = set ys"
  shows "find (\<lambda>s. tid s = i) xs = find (\<lambda>s. tid s = i) ys"
proof -
  have "find (\<lambda>s. tid s = i) xs = Some s \<longleftrightarrow> find (\<lambda>s. tid s = i) ys = Some s" for s
    using assms by (simp add: find_distinct)
  then show ?thesis by (metis not_None_eq)
qed

lemma collect_find: "find (\<lambda>s. tid s = i) (astools_collect_tools pins priority tools) = find (\<lambda>s. tid s = i) (select_tools pins tools)"
proof (rule find_distinct_set)
  note inv = select_tools_inv [of pins tools, unfolded sel_inv_def]
  obtain ordered tail where t: "take_priority priority (select_tools pins tools) = (ordered, tail)" by fastforce
  show "distinct (map tid (select_tools pins tools))" using inv by blast
  show "distinct (map tid (astools_collect_tools pins priority tools))" using collect_spec [OF t refl] by blast
  have "mset (astools_collect_tools pins priority tools) = mset (select_tools pins tools)"
    using take_priority_spec [OF conjunct1 [OF inv] t] t by (simp add: astools_collect_tools_def)
  then show "set (astools_collect_tools pins priority tools) = set (select_tools pins tools)" by (metis set_mset_mset)
qed

lemma resolve_bare:
  assumes "list_all package_ok (rc_tools c)" "ident \<noteq> []" "CHR ''@'' \<notin> set ident"
  shows "(case astools_registry_resolve c (Some ident) of Inr t \<Rightarrow> Some (plain_tool t) | Inl _ \<Rightarrow> None) =
    find (\<lambda>s. tid s = ident) (astools_collect_tools (cf_pins (rc_cfg c)) priority (map plain_tool (rc_tools c)))"
proof -
  let ?pins = "cf_pins (rc_cfg c)"
  let ?want = "case pin_for ?pins ident of None \<Rightarrow> None | Some v \<Rightarrow> astools_semver_parse (Some v)"
  have ident: "takeWhile (\<lambda>ch. ch \<noteq> CHR ''@'') ident = ident" using assms(3) by (auto simp: takeWhile_eq_all_conv)
  have parse: "astools_semver_parse None = None" by (simp add: astools_semver_parse_def)
  have m: "matches_pin ?pins (plain_tool t) \<longleftrightarrow>
      (case pin_for ?pins ident of None \<Rightarrow> True | Some v \<Rightarrow> (case astools_semver_parse (Some v) of None \<Rightarrow> False
        | Some w \<Rightarrow> astools_semver_cmp (Some w) (Some (t_ver t)) = 0))"
    if "t \<in> set (rc_tools c)" "m_id (rt_m t) = ident" for t
    using matches_pin_for [of "plain_tool t" ident ?pins] that assms(1) unfolding plain_tool_simps by (simp add: tid_plain list_all_iff)
  show ?thesis
  proof (cases "pin_for ?pins ident \<noteq> None \<and> ?want = None")
    case True
    then obtain v where v: "pin_for ?pins ident = Some v" "astools_semver_parse (Some v) = None" by auto
    have "\<not> (tool_listed s \<and> matches_pin ?pins s)" if "s \<in> set (map plain_tool (rc_tools c))" "tid s = ident" for s
      using that m assms(1) v by (auto simp: tid_plain list_all_iff)
    then have "ident \<notin> tid ` set (eligible ?pins (map plain_tool (rc_tools c)))" by (auto simp: eligible_def)
    moreover have "tid ` set (select_tools ?pins (map plain_tool (rc_tools c))) = tid ` set (eligible ?pins (map plain_tool (rc_tools c)))"
      using select_tools_inv [of ?pins "map plain_tool (rc_tools c)"] by (simp add: sel_inv_def)
    ultimately have "ident \<notin> tid ` set (select_tools ?pins (map plain_tool (rc_tools c)))" by simp
    then have "find (\<lambda>s. tid s = ident) (select_tools ?pins (map plain_tool (rc_tools c))) = None"
      by (auto simp: find_None_iff)
    moreover have "astools_registry_resolve c (Some ident) = Inl ASTOOLS_ERR_NOT_FOUND"
      using assms(2,3) v by (simp add: astools_registry_resolve_def Let_def ident)
    ultimately show ?thesis by (simp add: collect_find)
  next
    case False
    then have w: "astools_registry_resolve c (Some ident) =
        (let st = foldl (resolve_step ident ?want) \<lparr>rs_hit = None, rs_blocked = None, rs_platform_missing = False, rs_id_seen = False\<rparr> (rc_tools c)
         in case rs_hit st of Some t \<Rightarrow> Inr t
            | None \<Rightarrow> if rs_blocked st \<noteq> None then Inl ASTOOLS_ERR_DENIED else Inl ASTOOLS_ERR_NOT_FOUND)"
      using assms(2,3) parse by (auto simp: astools_registry_resolve_def Let_def ident split: option.split)
    have "(case astools_registry_resolve c (Some ident) of Inr t \<Rightarrow> Some (plain_tool t) | Inl _ \<Rightarrow> None) =
        map_option plain_tool (tool_hit ident ?want None (rc_tools c))"
      unfolding w Let_def resolve_hit tool_hit_def by (simp split: option.split)
    also have "\<dots> = find (\<lambda>s. tid s = ident) (select_tools ?pins (map plain_tool (rc_tools c)))"
      unfolding select_tools_def
    proof (rule select_hit [symmetric, OF assms(1)])
      fix t assume "t \<in> set (rc_tools c)" "m_id (rt_m t) = ident"
      from m [OF this] False show "matches_pin ?pins (plain_tool t) \<longleftrightarrow>
          (case ?want of Some w \<Rightarrow> astools_semver_cmp (Some (t_ver t)) (Some w) = 0 | None \<Rightarrow> True)"
        by (auto simp: semver.cmp_zero_sym split: option.splits)
    qed simp
    finally show ?thesis by (simp add: collect_find)
  qed
qed

section \<open>Texts of the comparison\<close>

lemma join_dots_set: "set (join_dots ids) \<subseteq> insert (CHR ''.'') (\<Union> (set ` set ids))"
  by (induction ids rule: join_dots.induct) auto

lemma ids_no_colon: "ids_ok strict (Some ids) \<Longrightarrow> CHR '':'' \<notin> set (join_dots ids)"
proof -
  assume "ids_ok strict (Some ids)"
  then have "\<forall>f \<in> set ids. list_all sv_ident_char f" by (simp add: ids_ok_def ident_ok_def list_all_iff)
  moreover have "\<not> sv_ident_char (CHR '':'')" by code_simp
  ultimately show ?thesis using join_dots_set [of ids] by (fastforce simp: list_all_iff)
qed

lemma version_no_colon:
  assumes "nul_free v" "astools_semver_parse (Some v) \<noteq> None"
  shows "CHR '':'' \<notin> set v"
proof -
  obtain ma mi pa pre bld where v: "v = semver_text ma mi pa pre bld"
    and ok: "sv_num_ok ma" "sv_num_ok mi" "sv_num_ok pa" "ids_ok True pre" "ids_ok False bld"
    using assms semver_text_iff [OF assms(1)] by blast
  have num: "CHR '':'' \<notin> set ds" if "sv_num_ok ds" for ds
    using that by (auto simp: sv_num_ok_def list_all_iff is_digit_def chcode_def)
  have "CHR '':'' \<notin> set (pre_text pre)" using ok(4) ids_no_colon by (cases pre) (auto simp: pre_text_def)
  moreover have "CHR '':'' \<notin> set (build_text bld)" using ok(5) ids_no_colon by (cases bld) (auto simp: build_text_def)
  ultimately show ?thesis using num ok by (simp add: v)
qed

lemma slug_no_at: "astools_slug_valid (Some s) \<Longrightarrow> CHR ''@'' \<notin> set s"
proof -
  assume "astools_slug_valid (Some s)"
  then have "is_lower (cur s) \<or> is_digit (cur s)" "list_all slug_char (tl s)"
    by (auto simp: astools_slug_valid_def slug_rest_iff)
  moreover have "\<not> is_lower (CHR ''@'')" "\<not> is_digit (CHR ''@'')" "\<not> slug_char (CHR ''@'')" by code_simp+
  ultimately show ?thesis by (cases s) (auto simp: list_all_iff)
qed

lemma key_fine_package: "package_ok t \<Longrightarrow> nul_free (m_version (rt_m t)) \<Longrightarrow> key_fine t"
  using version_no_colon slug_no_at by (auto simp: key_fine_def package_ok_def manifest_fine_def header_fine_def)

lemma scan_changed:
  assumes "xcdn_ok (e_xcdn env)" "ctx_ok c" "astools_registry_scan env mono_ms now c = (Inr changed, c')"
    and nul: "\<forall>t \<in> set (rc_tools c) \<union> set (rc_tools c'). nul_free (m_version (rt_m t))"
  shows "changed \<longleftrightarrow> mset (map tool_identity (rc_tools c)) \<noteq> mset (map tool_identity (rc_tools c'))"
    and "rc_registry_revision c' = (if changed then rc_registry_revision c + 1 else rc_registry_revision c)"
    and "rc_tools_changed_flag c' = (changed \<or> rc_tools_changed_flag c)"
proof -
  obtain lf where p: "publish_tools mono_ms now lf (scan_judged env c lf) c = (changed, c')"
    using scan_cases [OF assms(3)] by auto
  note inv = publish_tools_inv [OF p]
  have "ctx_ok c'" using scan_ok [OF assms(1-3)] by simp
  with assms(2) nul have "key_fine t" if "t \<in> set (rc_tools c) \<union> set (rc_tools c')" for t
    using that key_fine_package by (auto simp: ctx_ok_def list_all_iff)
  from tables_differ_identity [OF this] inv
  show "changed \<longleftrightarrow> mset (map tool_identity (rc_tools c)) \<noteq> mset (map tool_identity (rc_tools c'))"
    "rc_registry_revision c' = (if changed then rc_registry_revision c + 1 else rc_registry_revision c)"
    "rc_tools_changed_flag c' = (changed \<or> rc_tools_changed_flag c)" by blast+
qed

section \<open>The lockfile and the switches of the host\<close>

lemma scan_tools_inv:
  assumes "astools_registry_scan env mono_ms now c = (Inr changed, c')" "t \<in> set (rc_tools c')"
  shows "rt_lock_state t = astools_lockfile_check (e_disk env) (Some (rc_lockfile c')) (Some (m_id (rt_m t)))
      (Some (m_version (rt_m t))) (Some (rt_pkg_dir t)) (Some (rt_m t))" "rc_cfg c' = rc_cfg c"
    "\<exists>u. t = keep_host_state (rc_tools c) u"
proof -
  obtain lf where p: "publish_tools mono_ms now lf (scan_judged env c lf) c = (changed, c')"
    using scan_cases [OF assms(1)] by auto
  note inv = publish_tools_inv [OF p]
  with assms(2) show "rt_lock_state t = astools_lockfile_check (e_disk env) (Some (rc_lockfile c')) (Some (m_id (rt_m t)))
      (Some (m_version (rt_m t))) (Some (rt_pkg_dir t)) (Some (rt_m t))" "rc_cfg c' = rc_cfg c"
    "\<exists>u. t = keep_host_state (rc_tools c) u" by (auto simp: scan_judged_def)
qed

lemma keep_disabled:
  assumes "table_unique old" "o' \<in> set old" "same_tool o' u" "rt_host_disabled o'"
  shows "rt_host_disabled (keep_host_state old u)"
proof -
  have "\<exists>f. find (\<lambda>o'. same_tool o' u) old = Some f" using assms(2,3) by (metis find_None_iff not_None_eq)
  then obtain f where f: "find (\<lambda>o'. same_tool o' u) old = Some f" by blast
  then have "f \<in> set old" "same_tool f u" by (auto simp: find_Some_iff)
  then have "same_tool f o'" using assms(3) same_tool_sym same_tool_trans by blast
  then have "f = o'"
    using assms(1,2) \<open>f \<in> set old\<close> same_tool_sym [of f o']
    by (auto simp: table_unique_def sorted_wrt_iff_nth_less in_set_conv_nth) (metis linorder_neqE_nat)
  with f assms(4) show ?thesis by (simp add: keep_host_state_def)
qed

lemma scan_keeps_disabled:
  assumes "table_unique (rc_tools c)" "astools_registry_scan env mono_ms now c = (Inr changed, c')"
    and "t \<in> set (rc_tools c')" "o' \<in> set (rc_tools c)" "same_tool o' t" "rt_host_disabled o'"
  shows "rt_host_disabled t \<and> \<not> t_enabled t"
proof -
  obtain u where u: "t = keep_host_state (rc_tools c) u" using scan_tools_inv(3) [OF assms(2,3)] by blast
  with keep_disabled [OF assms(1,4) _ assms(6), of u] assms(5) show ?thesis by simp
qed

section \<open>A sample\<close>

definition reg_lock :: astools_lock_entry where
  "reg_lock = \<lparr>le_id = ''demo'', le_version = ''1.0.0'', le_manifest_sha256 = sha256_ref (bytes_of ''doc''), le_artifacts = [],
     le_approved_at = 0\<rparr>"

definition reg_xcdn :: xcdn where
  "reg_xcdn = \<lparr>x_get = first_key, x_has_tag = (\<lambda>ts t. Some t \<in> set ts),
     x_parse = (\<lambda>s. if s = ''doc'' then Some [Some demo_tool_doc]
       else if s = ''lock'' then Some [Some (lf_build_doc [] reg_lock)] else None),
     x_pretty = (\<lambda>n. if n = lf_build_doc [] reg_lock then Some ''lock'' else None)\<rparr>"

definition reg_disk :: disk where
  "reg_disk = lock_disk\<lparr>d_files := (\<lambda>l. if l = ''/r/demo/manifest.xcdn'' then Some (bytes_of ''doc'')
     else if l = ''/l'' then Some (bytes_of ''lock'') else None)\<rparr>"

definition reg_sample_env :: reg_env where
  "reg_sample_env = \<lparr>e_xcdn = reg_xcdn, e_table = True, e_disk = reg_disk, e_realpath = Inr, e_subdirs = (\<lambda>p. Inr [''demo''])\<rparr>"

definition reg_sample_ctx :: reg_ctx where
  "reg_sample_ctx = \<lparr>rc_cfg = astools_config_defaults\<lparr>cf_reg_paths := [\<lparr>r_path = Some ''/r'', r_trust = ASTOOLS_TRUST_FULL\<rparr>],
       cf_pinning := ASTOOLS_PIN_ENFORCE, cf_lock_path := Some ''/l''\<rparr>,
     rc_workspace = None, rc_tools = [], rc_lockfile = [], rc_last_scan_mono = 0, rc_registry_revision = 0, rc_scan_fingerprint = 0,
     rc_last_refresh_unix = 0, rc_tools_changed_flag = False,
     rc_stats = \<lparr>s_tools_total = 0, s_tools_enabled = 0, s_tools_unavailable = 0, s_last_refresh_unix = 0\<rparr>\<rparr>"

definition sample_fresh :: reg_tool where
  "sample_fresh = \<lparr>t_id = Some (Some ''demo''), t_available = True, t_enabled = False,
     t_ver = \<lparr>major = 1, minor = 0, patch = 0, prerelease = None\<rparr>, rt_m = demo_tool, rt_pkg_dir = ''/r/demo'',
     rt_trust = ASTOOLS_TRUST_FULL, rt_host_disabled = False, rt_lock_state = ASTOOLS_LOCK_UNLISTED,
     rt_entry = select_entry (m_entries demo_tool),
     rt_content_sha256 = sha256_ref (package_image reg_disk ''/r/demo'' (bytes_of ''doc'') (m_entries demo_tool))\<rparr>"

definition sample_tool :: reg_tool where
  "sample_tool = sample_fresh\<lparr>t_enabled := True, rt_lock_state := ASTOOLS_LOCK_OK\<rparr>"

lemma reg_xcdn_ok: "xcdn_ok reg_xcdn"
proof -
  have "doc_ok (lf_build_doc [] reg_lock)"
    by (simp add: build_doc_node lf_entry_node_def reg_lock_def tagged_obj_node_def obj_of_def arr_node_def wrap_value_def
        str_node_def val_string_def int_node_def int64_ok_def INT64_MAX_def INT64_MIN_def all_some_def)
  then show ?thesis using first_key_ok demo_tool_rendered(2) by (simp add: xcdn_ok_def reg_xcdn_def)
qed

lemma sample_reads:
  "os_read_file reg_disk (Some ''/r/demo/manifest.xcdn'') = Inr (bytes_of ''doc'')"
  "os_read_file reg_disk (Some ''/l'') = Inr (bytes_of ''lock'')"
  using os_read_loop_all [of "[]" 0 "bytes_of ''doc''"] os_read_loop_all [of "[]" 0 "bytes_of ''lock''"]
  by (simp_all add: os_read_file_def SIZE_MAX_def bytes_of_def fopen_rb_def reg_disk_def lock_disk_def)

lemma sample_parses: "astools_manifest_parse True reg_xcdn None (Some ''doc'') = Some demo_tool"
  using manifest_back [OF reg_xcdn_ok demo_tool_fine demo_tool_rendered(1), of True]
  by (simp add: astools_manifest_parse_def reg_xcdn_def doc_first_def)

lemma sample_ids: "m_id demo_tool = ''demo''" "m_version demo_tool = ''1.0.0''" "m_kind demo_tool = ASTOOLS_KIND_EXECUTABLE"
  "m_entries demo_tool = [\<lparr>en_os = ''linux'', en_arch = ''x86_64'', en_argv = [''run'']\<rparr>]" "m_platforms demo_tool = [''linux'']"
  by (simp_all add: demo_tool_def manifest_new_def ASTOOLS_KIND_EXECUTABLE_def)

lemma sample_version: "astools_semver_parse (Some ''1.0.0'') = Some \<lparr>major = 1, minor = 0, patch = 0, prerelease = None\<rparr>"
  by code_simp

lemma sample_path: "pkg_file ''/r/demo'' ''manifest.xcdn'' = ''/r/demo/manifest.xcdn''" "os_path_join (Some ''/r'') (Some ''demo'') = ''/r/demo''"
  by (simp_all add: pkg_file_def os_path_join_def)

lemma sample_package: "load_package reg_sample_env None ASTOOLS_TRUST_FULL ''/r/demo'' = Some sample_fresh"
  by (simp add: load_package_def reg_sample_env_def sample_reads sample_path sample_parses sample_ids sample_version ASTOOLS_KIND_EXECUTABLE_def ASTOOLS_KIND_LIBRARY_def
      entry_rejected_def entry_argv0_def sample_fresh_def content_hash_image plat_ok_def astools_plat_os_def astools_plat_arch_def
      select_entry_def)

lemma sample_lockfile: "astools_lockfile_load reg_xcdn reg_disk (Some ''/l'') = Inr [reg_lock]"
proof -
  have "lf_parse_root reg_xcdn (lf_build_doc [] reg_lock) = Some (lf_set reg_lock [])"
    by (rule build_doc_back [OF reg_xcdn_ok]) (auto simp: reg_lock_def lock_fine_def time_ok_def)
  then show ?thesis
    by (simp add: astools_lockfile_load_def sample_reads reg_xcdn_def doc_first_def)
qed

lemma sample_check:
  "astools_lockfile_check reg_disk (Some [reg_lock]) (Some ''demo'') (Some ''1.0.0'') (Some ''/r/demo'') (Some demo_tool) = ASTOOLS_LOCK_OK"
proof -
  have "astools_sha256_file reg_disk (Some ''/r/demo/manifest.xcdn'') = Inr (sha256_ref (bytes_of ''doc''))"
    by (simp add: sha256_file_Inr content_def fopen_rb_def reg_disk_def lock_disk_def)
  moreover have "\<not> pkg_relative (Some ''run'')"
    by (simp add: pkg_relative_def rel_loop.simps is_sep_def os_path_is_abs_def Let_def)
  ultimately show ?thesis
    by (simp add: astools_lockfile_check_def lf_lookup_def reg_lock_def sample_path sample_ids check_entry_def entry_argv0_def)
qed

lemma sample_scan_from:
  assumes "rc_cfg c = rc_cfg reg_sample_ctx" "rc_workspace c = None"
  shows "astools_registry_scan reg_sample_env 0 0 c = map_prod Inr id (publish_tools 0 0 [reg_lock] [sample_tool] c)"
proof -
  have cfg: "cf_reg_paths (rc_cfg c) = [\<lparr>r_path = Some ''/r'', r_trust = ASTOOLS_TRUST_FULL\<rparr>]" "cf_pinning (rc_cfg c) = ASTOOLS_PIN_ENFORCE"
    using assms by (simp_all add: reg_sample_ctx_def)
  have "add_package reg_sample_env None ASTOOLS_TRUST_FULL ''/r'' [] ''demo'' = [sample_fresh]"
    by (simp add: add_package_def sample_path sample_package)
  then have cand: "scan_candidates reg_sample_env (rc_workspace c) (cf_reg_paths (rc_cfg c)) = [sample_fresh]"
    by (simp add: scan_candidates_def scan_root_def assms(2) cfg) (simp add: reg_sample_env_def)
  have judged: "judge_tool reg_disk ASTOOLS_PIN_ENFORCE [reg_lock] sample_fresh = sample_tool"
    by (simp add: judge_tool_def sample_tool_def sample_fresh_def sample_ids sample_check lock_gate_def)
  have lp: "lock_path_abs (rc_cfg c) = ''/l''"
    by (simp add: assms lock_path_abs_def reg_sample_ctx_def os_path_is_abs_def Let_def)
  show ?thesis
    unfolding astools_registry_scan_def cand lp
    by (simp add: Let_def reg_sample_env_def sample_lockfile cfg judged split: prod.split)
qed

lemma sample_scan:
  "\<exists>c. astools_registry_scan reg_sample_env 0 0 reg_sample_ctx = (Inr True, c) \<and> rc_tools c = [sample_tool] \<and>
     rc_cfg c = rc_cfg reg_sample_ctx \<and> rc_workspace c = None"
proof -
  have "rc_workspace reg_sample_ctx = None" by (simp add: reg_sample_ctx_def)
  from sample_scan_from [OF refl this] show ?thesis
    by (simp add: publish_tools_def reg_sample_ctx_def tables_differ_def Let_def keep_host_state_def sample_tool_def sample_fresh_def)
qed


lemma sample_tool_ok: "package_ok sample_tool"
  using load_package_ok [OF _ sample_package] reg_xcdn_ok
  by (simp add: sample_tool_def package_ok_def reg_sample_env_def)

lemma sample_resolves:
  assumes "rc_tools c = [sample_tool]" "rc_cfg c = rc_cfg reg_sample_ctx"
  shows "astools_registry_resolve c (Some ''demo'') = Inr sample_tool"
  using assms
  by (simp add: astools_registry_resolve_def reg_sample_ctx_def pin_for_def astools_config_defaults_def astools_semver_parse_def
      resolve_step_def better_of_def Let_def sample_tool_def sample_fresh_def sample_ids)

section \<open>What the host has switched off\<close>

text \<open>
  A run of a context beside the record of what is switched off: the descriptors a host has switched off, not
  switched on since, and that every table published since has had.
\<close>

definition switched :: "string option \<Rightarrow> reg_ctx \<Rightarrow> reg_tool list" where
  "switched ref c = (case ref_split ref of Inl _ \<Rightarrow> [] | Inr (ident, ver) \<Rightarrow> filter (ref_matches ident ver) (rc_tools c))"

definition is_off :: "reg_tool list \<Rightarrow> reg_tool \<Rightarrow> bool" where
  "is_off off t \<longleftrightarrow> list_ex (\<lambda>o'. same_tool o' t) off"

definition still_there :: "reg_tool list \<Rightarrow> reg_ctx \<Rightarrow> reg_tool list" where
  "still_there off c = filter (\<lambda>o'. list_ex (same_tool o') (rc_tools c)) off"

inductive reg_run :: "reg_ctx \<Rightarrow> reg_tool list \<Rightarrow> reg_ctx \<Rightarrow> bool" for c0 where
  init: "reg_run c0 [] c0"
| scan: "reg_run c0 off c \<Longrightarrow> xcdn_ok (e_xcdn env) \<Longrightarrow> c' = snd (astools_registry_scan env mono_ms now c) \<Longrightarrow>
    reg_run c0 (still_there off c') c'"
| approve: "reg_run c0 off c \<Longrightarrow> xcdn_ok (e_xcdn env) \<Longrightarrow> c' = snd (snd (astools_tool_approve env mono_ms now c ref)) \<Longrightarrow>
    reg_run c0 (still_there off c') c'"
| switch_off: "reg_run c0 off c \<Longrightarrow> reg_run c0 (off @ switched ref c) (snd (astools_tool_enable c ref False))"
| switch_on: "reg_run c0 off c \<Longrightarrow>
    reg_run c0 (filter (\<lambda>o'. \<not> list_ex (same_tool o') (switched ref c)) off) (snd (astools_tool_enable c ref True))"

lemma run_reach: "reg_run c0 off c \<Longrightarrow> reg_reach c0 c"
  by (induction rule: reg_run.induct) (auto intro: reg_reach.intros reg_step.intros)

lemma reach_run: "reg_reach c0 c \<Longrightarrow> \<exists>off. reg_run c0 off c"
proof (induction rule: reg_reach.induct)
  case (step c c')
  then obtain off where r: "reg_run c0 off c" by blast
  from step.hyps(2) show ?case
  proof (cases rule: reg_step.cases)
    case (enable ref on)
    then show ?thesis using reg_run.switch_off [OF r] reg_run.switch_on [OF r] by (cases on) auto
  qed (use reg_run.scan [OF r] reg_run.approve [OF r] in blast)+
qed (blast intro: reg_run.init)

definition off_ok :: "reg_tool list \<Rightarrow> reg_ctx \<Rightarrow> bool" where
  "off_ok off c \<longleftrightarrow> list_all (\<lambda>o'. list_ex (same_tool o') (rc_tools c)) off \<and>
     list_all (\<lambda>t. is_off off t \<longrightarrow> rt_host_disabled t) (rc_tools c)"

lemma rescan_off_ok:
  assumes "table_unique (rc_tools c)" "off_ok off c"
    and "rc_tools c' = rc_tools c \<or> (\<forall>t \<in> set (rc_tools c'). \<exists>u. t = keep_host_state (rc_tools c) u)"
  shows "off_ok (still_there off c') c'"
proof -
  have "rt_host_disabled t" if t: "t \<in> set (rc_tools c')" "o' \<in> set off" "same_tool o' t" for t o'
  proof -
    obtain v where v: "v \<in> set (rc_tools c)" "same_tool o' v" "rt_host_disabled v"
      using assms(2) t(2) by (auto simp: off_ok_def is_off_def list_all_iff list_ex_iff)
    have vt: "same_tool v t" using v(2) t(3) same_tool_sym same_tool_trans by blast
    from assms(3) show ?thesis
    proof
      assume "rc_tools c' = rc_tools c"
      then show ?thesis using assms(2) t by (auto simp: off_ok_def is_off_def list_all_iff list_ex_iff)
    next
      assume "\<forall>t \<in> set (rc_tools c'). \<exists>u. t = keep_host_state (rc_tools c) u"
      with t(1) obtain u where "t = keep_host_state (rc_tools c) u" by blast
      with keep_disabled [OF assms(1) v(1) _ v(3), of u] vt show ?thesis by simp
    qed
  qed
  then show ?thesis by (auto simp: off_ok_def still_there_def is_off_def list_all_iff list_ex_iff)
qed

lemma scan_rescan:
  "rc_tools (snd (astools_registry_scan env mono_ms now c)) = rc_tools c \<or>
    (\<forall>t \<in> set (rc_tools (snd (astools_registry_scan env mono_ms now c))). \<exists>u. t = keep_host_state (rc_tools c) u)"
proof (cases "astools_registry_scan env mono_ms now c")
  case (Pair r c')
  show ?thesis
  proof (cases r)
    case (Inl e)
    then show ?thesis using scan_cases [OF Pair] Pair by auto
  next
    case (Inr changed)
    then show ?thesis using scan_tools_inv(3) [of env mono_ms now c changed c'] Pair by auto
  qed
qed

lemma approve_rescan:
  "rc_tools (snd (snd (astools_tool_approve env mono_ms now c ref))) = rc_tools c \<or>
    (\<forall>t \<in> set (rc_tools (snd (snd (astools_tool_approve env mono_ms now c ref)))). \<exists>u. t = keep_host_state (rc_tools c) u)"
proof -
  obtain e env' c' where a: "astools_tool_approve env mono_ms now c ref = (e, env', c')" by (metis prod_cases3)
  then have "c' = c \<or> (\<exists>d lf. c' = snd (astools_registry_scan (env\<lparr>e_disk := d\<rparr>) mono_ms now (c\<lparr>rc_lockfile := lf\<rparr>))) \<or>
    (\<exists>d. c' = snd (astools_registry_scan (env\<lparr>e_disk := d\<rparr>) mono_ms now c))"
    by (auto simp: astools_tool_approve_def Let_def split: sum.splits prod.splits if_splits)
  moreover have "rc_tools (c\<lparr>rc_lockfile := lf\<rparr>) = rc_tools c" for lf by simp
  ultimately show ?thesis using scan_rescan [of _ mono_ms now] unfolding a by (metis snd_conv)
qed

lemma unique_same: "table_unique ts \<Longrightarrow> a \<in> set ts \<Longrightarrow> b \<in> set ts \<Longrightarrow> same_tool a b \<Longrightarrow> a = b"
  using same_tool_sym [of a b]
  by (auto simp: table_unique_def sorted_wrt_iff_nth_less in_set_conv_nth) (metis linorder_neqE_nat)

lemma enable_off_tools:
  "rc_tools (snd (astools_tool_enable c ref on)) =
     map (\<lambda>t. if t \<in> set (switched ref c) then enable_tool (cf_pinning (rc_cfg c)) on t else t) (rc_tools c)"
  by (auto simp: enable_tools switched_def split: sum.split prod.split)

lemma same_tool_enable:
  "same_tool a (enable_tool p on b) = same_tool a b" "same_tool (enable_tool p on a) b = same_tool a b"
  by (simp_all add: same_tool_def)

lemma switch_off_ok:
  assumes "table_unique (rc_tools c)" "off_ok off c"
  shows "off_ok (off @ switched ref c) (snd (astools_tool_enable c ref False))"
proof -
  have sub: "set (switched ref c) \<subseteq> set (rc_tools c)" by (auto simp: switched_def split: sum.splits)
  have "t \<in> set (switched ref c)" if "t \<in> set (rc_tools c)" "o' \<in> set (switched ref c)" "same_tool o' t" for t o'
    using unique_same [OF assms(1) _ that(1,3)] that(2) sub by auto
  note own = this
  let ?f = "\<lambda>t. if t \<in> set (switched ref c) then enable_tool (cf_pinning (rc_cfg c)) False t else t"
  have f: "same_tool a (?f t) = same_tool a t" for a t by (simp add: same_tool_enable)
  show ?thesis unfolding off_ok_def enable_off_tools list_all_iff
  proof (intro conjI ballI impI)
    fix o' assume "o' \<in> set (off @ switched ref c)"
    then have "list_ex (same_tool o') (rc_tools c)"
      using assms(2) sub same_tool_refl by (auto simp: off_ok_def list_all_iff list_ex_iff)
    then obtain v where "v \<in> set (rc_tools c)" "same_tool o' v" by (auto simp: list_ex_iff)
    then show "list_ex (same_tool o') (map ?f (rc_tools c))"
      unfolding list_ex_iff set_map by (intro bexI [of _ "?f v"] imageI) (simp_all only: f)
  next
    fix t' assume t': "t' \<in> set (map ?f (rc_tools c))" "is_off (off @ switched ref c) t'"
    then obtain t where t: "t \<in> set (rc_tools c)" "t' = ?f t" by auto
    from t'(2) have "is_off off t \<or> is_off (switched ref c) t" by (simp only: t(2) is_off_def list_ex_append f)
    then have "rt_host_disabled t \<or> t \<in> set (switched ref c)"
    proof
      assume "is_off off t"
      then show ?thesis using assms(2) t(1) by (simp add: off_ok_def list_all_iff)
    next
      assume "is_off (switched ref c) t"
      then show ?thesis using own [OF t(1)] unfolding is_off_def list_ex_iff by blast
    qed
    then show "rt_host_disabled t'" unfolding t(2) by (auto simp: enable_tool_def)
  qed
qed

lemma switch_on_ok:
  assumes "off_ok off c"
  shows "off_ok (filter (\<lambda>o'. \<not> list_ex (same_tool o') (switched ref c)) off) (snd (astools_tool_enable c ref True))"
proof -
  let ?f = "\<lambda>t. if t \<in> set (switched ref c) then enable_tool (cf_pinning (rc_cfg c)) True t else t"
  let ?off = "filter (\<lambda>o'. \<not> list_ex (same_tool o') (switched ref c)) off"
  have f: "same_tool a (?f t) = same_tool a t" for a t by (simp add: same_tool_enable)
  show ?thesis unfolding off_ok_def enable_off_tools list_all_iff
  proof (intro conjI ballI impI)
    fix o' assume "o' \<in> set ?off"
    then have "list_ex (same_tool o') (rc_tools c)" using assms by (simp add: off_ok_def list_all_iff)
    then obtain v where "v \<in> set (rc_tools c)" "same_tool o' v" by (auto simp: list_ex_iff)
    then show "list_ex (same_tool o') (map ?f (rc_tools c))"
      unfolding list_ex_iff set_map by (intro bexI [of _ "?f v"] imageI) (simp_all only: f)
  next
    fix t' assume t': "t' \<in> set (map ?f (rc_tools c))" "is_off ?off t'"
    then obtain t where t: "t \<in> set (rc_tools c)" "t' = ?f t" by auto
    from t'(2) obtain o' where o': "o' \<in> set off" "\<not> list_ex (same_tool o') (switched ref c)" "same_tool o' t"
      by (auto simp: is_off_def list_ex_iff t(2) f)
    then have "t \<notin> set (switched ref c)" by (auto simp: list_ex_iff)
    moreover have "rt_host_disabled t" using assms o'(1,3) t(1) by (auto simp: off_ok_def is_off_def list_all_iff list_ex_iff)
    ultimately show "rt_host_disabled t'" unfolding t(2) by simp
  qed
qed

lemma ctx_unique: "ctx_ok c \<Longrightarrow> table_unique (rc_tools c)"
  by (simp add: ctx_ok_def)

lemma run_ok: "reg_run c0 off c \<Longrightarrow> ctx_ok c0 \<Longrightarrow> ctx_ok c \<and> rc_cfg c = rc_cfg c0 \<and> off_ok off c"
proof (induction rule: reg_run.induct)
  case init
  then show ?case by (simp add: off_ok_def is_off_def list_all_iff)
next
  case (scan off c env c' mono_ms now)
  then show ?case using step_ok [OF reg_step.scan [OF scan.hyps(2)], of c mono_ms now]
      rescan_off_ok [OF _ _ scan_rescan, of c off env mono_ms now] by (simp add: ctx_unique)
next
  case (approve off c env c' mono_ms now ref)
  then show ?case using step_ok [OF reg_step.approve [OF approve.hyps(2)], of c mono_ms now ref]
      rescan_off_ok [OF _ _ approve_rescan, of c off env mono_ms now ref] by (simp add: ctx_unique)
next
  case (switch_off off c ref)
  then show ?case using step_ok [OF reg_step.enable, of c ref False] switch_off_ok [of c off ref] by (simp add: ctx_unique)
next
  case (switch_on off c ref)
  then show ?case using step_ok [OF reg_step.enable, of c ref True] switch_on_ok [of off c ref] by simp
qed

section \<open>Properties\<close>

text \<open>
  C31: Whatever scans, switches and approvals a context has been through since it was opened, a reference only
  resolves to a tool of the current table that runs on this platform, that is not marked as switched off, and
  that is none of the tools the host has switched off, not switched on since, and that every table since then
  has had (a tool missing from one table loses its mark, see \<open>switch_lost\<close>); that under pinning "enforce"
  had the hashes the lockfile records when it was scanned, whose manifest is valid, and that, unless its root
  is fully trusted, is no library and starts no program outside its package.
\<close>

theorem registry_resolve_safe:
  assumes "reg_run c0 off c" "rc_tools c0 = []" "astools_registry_resolve c ref = Inr t"
  shows "t \<in> set (rc_tools c) \<and> t_available t \<and> rt_entry t \<noteq> None \<and> \<not> rt_host_disabled t \<and> \<not> is_off off t \<and>
    (cf_pinning (rc_cfg c0) = ASTOOLS_PIN_ENFORCE \<longrightarrow> rt_lock_state t = ASTOOLS_LOCK_OK) \<and> manifest_fine (rt_m t) \<and>
    (rt_trust t \<noteq> ASTOOLS_TRUST_FULL \<longrightarrow> m_kind (rt_m t) \<noteq> ASTOOLS_KIND_LIBRARY \<and>
      list_all (\<lambda>e. pkg_relative (entry_argv0 e)) (m_entries (rt_m t)))"
proof -
  have "ctx_ok c0" using assms(2) by (simp add: ctx_ok_def table_unique_def)
  with run_ok [OF assms(1)] have c: "ctx_ok c" "rc_cfg c = rc_cfg c0" and off: "off_ok off c" by simp_all
  moreover have t: "t \<in> set (rc_tools c)" "t_available t" "t_enabled t" using resolve_usable [OF assms(3)] by simp_all
  ultimately have "package_ok t" "gate_ok (cf_pinning (rc_cfg c0)) t" by (auto simp: ctx_ok_def list_all_iff)
  moreover from calculation(1) t(2) have "rt_entry t \<noteq> None" unfolding package_ok_def by metis
  moreover from off t(1) have "is_off off t \<longrightarrow> rt_host_disabled t" by (simp add: off_ok_def list_all_iff)
  ultimately show ?thesis using t by (auto simp: package_ok_def gate_ok_def lock_gate_def)
qed

theorem registry_resolve_safe_witness:
  "\<exists>c. reg_run reg_sample_ctx [] c \<and> astools_registry_resolve c (Some ''demo'') = Inr sample_tool \<and>
     rt_lock_state sample_tool = ASTOOLS_LOCK_OK"
proof -
  obtain c where c: "astools_registry_scan reg_sample_env 0 0 reg_sample_ctx = (Inr True, c)" "rc_tools c = [sample_tool]"
    "rc_cfg c = rc_cfg reg_sample_ctx" using sample_scan by blast
  have "c = snd (astools_registry_scan reg_sample_env 0 0 reg_sample_ctx)" using c(1) by simp
  from reg_run.scan [OF reg_run.init _ this] have "reg_run reg_sample_ctx (still_there [] c) c"
    by (simp add: reg_sample_env_def reg_xcdn_ok)
  then have "reg_run reg_sample_ctx [] c" by (simp add: still_there_def)
  moreover note sample_resolves [OF c(2,3)]
  moreover have "rc_tools reg_sample_ctx = []" "cf_pinning (rc_cfg reg_sample_ctx) = ASTOOLS_PIN_ENFORCE"
    by (simp_all add: reg_sample_ctx_def)
  moreover note registry_resolve_safe [OF calculation(1,3,2)]
  ultimately show ?thesis by blast
qed

text \<open>
  C32: What a host names is what it was shown: in any context, a bare id resolves exactly when the listing that
  prompts, grammars and schemas are made from has a tool of that id, and it resolves to that version of it -
  the pinned one, or the best by release and precedence, the first root winning among equals.
\<close>

theorem registry_resolve_listing:
  assumes "reg_reach c0 c" "rc_tools c0 = []" "ident \<noteq> []" "CHR ''@'' \<notin> set ident"
  shows "(case astools_registry_resolve c (Some ident) of Inr t \<Rightarrow> Some (plain_tool t) | Inl _ \<Rightarrow> None) =
    find (\<lambda>s. tid s = ident) (astools_collect_tools (cf_pins (rc_cfg c)) priority (map plain_tool (rc_tools c)))"
proof -
  have "ctx_ok c0" using assms(2) by (simp add: ctx_ok_def table_unique_def)
  with reach_ok [OF assms(1)] have "list_all package_ok (rc_tools c)" by (simp add: ctx_ok_def)
  from resolve_bare [OF this assms(3,4)] show ?thesis .
qed

theorem registry_resolve_listing_witness:
  "\<exists>c. astools_registry_resolve c (Some ''demo'') = Inr sample_tool \<and>
     find (\<lambda>s. tid s = ''demo'') (astools_collect_tools (cf_pins (rc_cfg c)) [] (map plain_tool (rc_tools c))) = Some (plain_tool sample_tool)"
proof -
  obtain c where c: "astools_registry_scan reg_sample_env 0 0 reg_sample_ctx = (Inr True, c)" "rc_tools c = [sample_tool]"
    "rc_cfg c = rc_cfg reg_sample_ctx" using sample_scan by blast
  have "reg_step reg_sample_ctx (snd (astools_registry_scan reg_sample_env 0 0 reg_sample_ctx))"
    by (rule reg_step.scan) (simp add: reg_sample_env_def reg_xcdn_ok)
  then have r: "reg_reach reg_sample_ctx c" using reg_reach.step [OF reg_reach.init] by (simp add: c(1))
  have e: "rc_tools reg_sample_ctx = []" by (simp add: reg_sample_ctx_def)
  from registry_resolve_listing [OF r e, of "''demo''" "[]"] sample_resolves [OF c(2,3)] show ?thesis by fastforce
qed

text \<open>
  C33: A scan reports a change exactly when the tables differ as collections of tools - by id, version, whether
  enabled, directory and content digest - so that a reordering is no change and a new binary is one; the
  revision is advanced and the flag of the listeners raised exactly then.
\<close>

theorem registry_scan_changed:
  assumes "xcdn_ok (e_xcdn env)" "ctx_ok c" "astools_registry_scan env mono_ms now c = (Inr changed, c')"
    and "\<forall>t \<in> set (rc_tools c) \<union> set (rc_tools c'). nul_free (m_version (rt_m t))"
  shows "(changed \<longleftrightarrow> mset (map tool_identity (rc_tools c)) \<noteq> mset (map tool_identity (rc_tools c'))) \<and>
    rc_registry_revision c' = (if changed then rc_registry_revision c + 1 else rc_registry_revision c) \<and>
    rc_tools_changed_flag c' = (changed \<or> rc_tools_changed_flag c)"
  using scan_changed [OF assms] by blast

theorem registry_scan_changed_witness:
  "\<exists>c. astools_registry_scan reg_sample_env 0 0 reg_sample_ctx = (Inr True, c) \<and> rc_registry_revision c = 1"
proof -
  obtain c where c: "astools_registry_scan reg_sample_env 0 0 reg_sample_ctx = (Inr True, c)" "rc_tools c = [sample_tool]"
    using sample_scan by blast
  have "nul_free (m_version (rt_m sample_tool))" by (simp add: sample_tool_def sample_fresh_def sample_ids NUL_def)
  then have "\<forall>t \<in> set (rc_tools reg_sample_ctx) \<union> set (rc_tools c). nul_free (m_version (rt_m t))"
    by (simp add: c(2) reg_sample_ctx_def)
  moreover have "ctx_ok reg_sample_ctx" by (simp add: ctx_ok_def table_unique_def reg_sample_ctx_def)
  ultimately have "rc_registry_revision c = rc_registry_revision reg_sample_ctx + 1"
    using registry_scan_changed [OF _ _ c(1)] reg_xcdn_ok by (simp add: reg_sample_env_def)
  with c(1) show ?thesis by (simp add: reg_sample_ctx_def)
qed

text \<open>
  Under pinning "enforce", a tool that resolves right after a scan passes the check made again before it is
  run, as long as the files have not changed.
\<close>

theorem registry_scan_enforced:
  assumes "xcdn_ok (e_xcdn env)" "ctx_ok c" "cf_pinning (rc_cfg c) = ASTOOLS_PIN_ENFORCE"
    and "astools_registry_scan env mono_ms now c = (Inr changed, c')" "astools_registry_resolve c' ref = Inr t"
  shows "astools_lockfile_check (e_disk env) (Some (rc_lockfile c')) (Some (m_id (rt_m t))) (Some (m_version (rt_m t)))
      (Some (rt_pkg_dir t)) (Some (rt_m t)) = ASTOOLS_LOCK_OK \<and> astools_registry_revalidate (e_disk env) c' t = ASTOOLS_OK"
proof -
  have t: "t \<in> set (rc_tools c')" "t_enabled t" using resolve_usable [OF assms(5)] by simp_all
  have "ctx_ok c'" "rc_cfg c' = rc_cfg c" using scan_ok [OF assms(1,2,4)] by simp_all
  with t assms(3) have "rt_lock_state t = ASTOOLS_LOCK_OK" by (auto simp: ctx_ok_def list_all_iff gate_ok_def lock_gate_def)
  with scan_tools_inv(1) [OF assms(4) t(1)] show ?thesis by (simp add: astools_registry_revalidate_def)
qed

theorem registry_scan_enforced_witness:
  "\<exists>c. astools_registry_resolve c (Some ''demo'') = Inr sample_tool \<and> astools_registry_revalidate reg_disk c sample_tool = ASTOOLS_OK"
proof -
  obtain c where c: "astools_registry_scan reg_sample_env 0 0 reg_sample_ctx = (Inr True, c)" "rc_tools c = [sample_tool]"
    "rc_cfg c = rc_cfg reg_sample_ctx" using sample_scan by blast
  have "ctx_ok reg_sample_ctx" "cf_pinning (rc_cfg reg_sample_ctx) = ASTOOLS_PIN_ENFORCE" "e_disk reg_sample_env = reg_disk"
    "xcdn_ok (e_xcdn reg_sample_env)"
    by (simp_all add: ctx_ok_def table_unique_def reg_sample_ctx_def reg_sample_env_def reg_xcdn_ok)
  from registry_scan_enforced [OF this(4,1,2) c(1) sample_resolves [OF c(2,3)]] sample_resolves [OF c(2,3)] this(3)
  show ?thesis by auto
qed

text \<open>
  What a host has switched off stays off when the roots are scanned again: each version of it the new table
  still has is disabled.
\<close>

theorem registry_switch_sticky:
  assumes "ctx_ok c" "astools_tool_enable c (Some ref) False = (ASTOOLS_OK, c1)" "ref_split (Some ref) = Inr (ident, ver)"
    and "astools_registry_scan env mono_ms now c1 = (Inr changed, c2)" "t \<in> set (rc_tools c2)"
    and "o' \<in> set (rc_tools c)" "ref_matches ident ver o'" "same_tool o' t"
  shows "rt_host_disabled t \<and> \<not> t_enabled t"
proof -
  have c1: "c1 = snd (astools_tool_enable c (Some ref) False)" using assms(2) by simp
  have tools: "rc_tools c1 = map (\<lambda>t. if ref_matches ident ver t then enable_tool (cf_pinning (rc_cfg c)) False t else t) (rc_tools c)"
    unfolding c1 enable_tools assms(3) by simp
  let ?o = "enable_tool (cf_pinning (rc_cfg c)) False o'"
  have "?o \<in> set (rc_tools c1)" using assms(6,7) by (force simp: tools)
  moreover have "same_tool ?o t" "rt_host_disabled ?o" using assms(8) by (simp_all add: same_tool_def) (simp add: enable_tool_def)
  moreover have "table_unique (rc_tools c1)" using enable_ok [OF assms(1)] by (simp add: c1 ctx_ok_def)
  ultimately show ?thesis using scan_keeps_disabled [OF _ assms(4,5)] by blast
qed

theorem registry_switch_sticky_witness:
  "\<exists>c c1 c2. rc_tools c = [sample_tool] \<and> astools_tool_enable c (Some ''demo'') False = (ASTOOLS_OK, c1) \<and>
     astools_registry_scan reg_sample_env 0 0 c1 = (Inr False, c2) \<and> list_all (\<lambda>t. \<not> t_enabled t) (rc_tools c2)"
proof -
  obtain c where c: "astools_registry_scan reg_sample_env 0 0 reg_sample_ctx = (Inr True, c)" "rc_tools c = [sample_tool]"
    "rc_cfg c = rc_cfg reg_sample_ctx" "rc_workspace c = None" using sample_scan by blast
  have "ctx_ok reg_sample_ctx" "xcdn_ok (e_xcdn reg_sample_env)"
    by (simp_all add: ctx_ok_def table_unique_def reg_sample_ctx_def reg_sample_env_def reg_xcdn_ok)
  then have ok: "ctx_ok c" using scan_ok [OF _ _ c(1)] by simp
  obtain c1 where c1: "c1 = snd (astools_tool_enable c (Some ''demo'') False)" by blast
  have split: "ref_split (Some ''demo'') = Inr (''demo'', None)" by (simp add: ref_split_def)
  have m: "ref_matches ''demo'' None sample_tool" by (simp add: ref_matches_def sample_tool_def sample_fresh_def sample_ids)
  have e: "astools_tool_enable c (Some ''demo'') False = (ASTOOLS_OK, c1)"
    by (simp add: c1 astools_tool_enable_def split Let_def c(2) m)
  have w: "rc_workspace c1 = None" "rc_cfg c1 = rc_cfg reg_sample_ctx" "rc_tools c1 = [enable_tool ASTOOLS_PIN_ENFORCE False sample_tool]"
    using c(3,4) by (simp_all add: c1 enable_tools split c(2) m) (simp_all add: astools_tool_enable_def split Let_def reg_sample_ctx_def)
  obtain c2 where c2: "c2 = snd (publish_tools 0 0 [reg_lock] [sample_tool] c1)" by blast
  have same: "same_tool (enable_tool ASTOOLS_PIN_ENFORCE False sample_tool) sample_tool" by (simp add: same_tool_def semver.cmp_refl)
  have kept: "keep_host_state [enable_tool ASTOOLS_PIN_ENFORCE False sample_tool] sample_tool =
      enable_tool ASTOOLS_PIN_ENFORCE False sample_tool"
    by (simp add: keep_host_state_def same) (simp add: enable_tool_def)
  have s: "astools_registry_scan reg_sample_env 0 0 c1 = (Inr False, c2)"
  proof -
    have "fst (publish_tools 0 0 [reg_lock] [sample_tool] c1) = False"
      by (simp add: publish_tools_def Let_def tables_differ_def w(3) kept)
    then have "publish_tools 0 0 [reg_lock] [sample_tool] c1 = (False, c2)" unfolding c2 by (metis prod.collapse)
    then show ?thesis by (simp add: sample_scan_from [OF w(2,1)])
  qed
  have t: "rc_tools c2 = [enable_tool ASTOOLS_PIN_ENFORCE False sample_tool]"
    by (simp add: c2 publish_tools_def Let_def w(3) kept)
  have "\<not> t_enabled (enable_tool ASTOOLS_PIN_ENFORCE False sample_tool)"
    using registry_switch_sticky [OF ok e split s, of "enable_tool ASTOOLS_PIN_ENFORCE False sample_tool" sample_tool] m
    by (simp add: t c(2) same_tool_def semver.cmp_refl)
  with e s c(2) t show ?thesis by auto
qed

text \<open>
  C35: A command bound to a content digest runs only while the package still has it: the package then loads anew,
  and its manifest's digest with the names and digests of its programs hash to the digest the command was
  bound to.
\<close>

theorem registry_snapshot_binds:
  assumes "astools_registry_check_snapshot env c t expected = ASTOOLS_OK"
  shows "\<exists>bs m. os_read_file (e_disk env) (Some (pkg_file (rt_pkg_dir t) ''manifest.xcdn'')) = Inr bs \<and>
    astools_manifest_parse (e_table env) (e_xcdn env) (rc_workspace c) (Some (text_of bs)) = Some m \<and>
    expected = rt_content_sha256 t \<and> expected = sha256_ref (package_image (e_disk env) (rt_pkg_dir t) bs (m_entries m))"
proof -
  obtain u where "load_package env (rc_workspace c) (rt_trust t) (rt_pkg_dir t) = Some u"
    "expected = rt_content_sha256 t" "expected = rt_content_sha256 u"
    using assms by (auto simp: astools_registry_check_snapshot_def split: option.splits if_splits)
  with load_package_inv [OF this(1)] show ?thesis by auto
qed

theorem registry_snapshot_binds_witness:
  "\<exists>bs (m :: astools_manifest). os_read_file reg_disk (Some ''/r/demo/manifest.xcdn'') = Inr bs \<and>
     rt_content_sha256 sample_tool = sha256_ref (package_image reg_disk ''/r/demo'' bs (m_entries m))"
proof -
  have c: "rc_workspace reg_sample_ctx = None" "rt_trust sample_tool = ASTOOLS_TRUST_FULL" "rt_pkg_dir sample_tool = ''/r/demo''"
    "rt_content_sha256 sample_tool = rt_content_sha256 sample_fresh" "e_disk reg_sample_env = reg_disk"
    by (simp_all add: reg_sample_ctx_def sample_tool_def sample_fresh_def reg_sample_env_def)
  have "astools_registry_check_snapshot reg_sample_env reg_sample_ctx sample_tool (rt_content_sha256 sample_fresh) = ASTOOLS_OK"
    by (simp add: astools_registry_check_snapshot_def c sample_package)
  from registry_snapshot_binds [OF this] show ?thesis unfolding c sample_path by blast
qed

section \<open>Two divergences\<close>

text \<open>
  The switch is lost when the package is missing from one scan: it then comes back enabled, although no
  host switched it on.
\<close>

lemma switch_lost:
  assumes "rc_cfg c = rc_cfg reg_sample_ctx" "rc_workspace c = None"
  shows "\<exists>c1. snd (astools_registry_scan (reg_sample_env\<lparr>e_subdirs := (\<lambda>p. Inr [])\<rparr>) 0 0 c) = c1 \<and>
    rc_tools (snd (astools_registry_scan reg_sample_env 0 0 c1)) = [sample_tool] \<and> t_enabled sample_tool"
proof -
  let ?c1 = "snd (astools_registry_scan (reg_sample_env\<lparr>e_subdirs := (\<lambda>p. Inr [])\<rparr>) 0 0 c)"
  have lp: "lock_path_abs (rc_cfg c) = ''/l''"
    by (simp add: assms lock_path_abs_def reg_sample_ctx_def os_path_is_abs_def Let_def)
  have c1: "rc_cfg ?c1 = rc_cfg reg_sample_ctx" "rc_workspace ?c1 = None" "rc_tools ?c1 = []"
    unfolding astools_registry_scan_def lp
    by (simp_all add: assms Let_def reg_sample_env_def sample_lockfile publish_tools_def scan_candidates_def scan_root_def
        reg_sample_ctx_def)
  have "rc_tools (snd (astools_registry_scan reg_sample_env 0 0 ?c1)) = [sample_tool]"
    using sample_scan_from [OF c1(1,2)] c1(3)
    by (simp add: publish_tools_def Let_def keep_host_state_def sample_tool_def sample_fresh_def)
  moreover have "t_enabled sample_tool" by (simp add: sample_tool_def)
  ultimately show ?thesis by blast
qed

text \<open>
  A pin without build metadata selects a version that has some, when a tool is resolved; the lookup of an
  approval compares the texts and does not find it.
\<close>

lemma approve_misses_pin:
  assumes "rc_tools c = [t]" "m_id (rt_m t) = ''demo''" "m_version (rt_m t) = ''1.0.0+b''" "t_available t" "t_enabled t"
    and "astools_semver_parse (Some (m_version (rt_m t))) = Some (t_ver t)"
    and "cf_pins (rc_cfg c) = [\<lparr>pin_tool = Some ''demo'', pin_version = Some ''1.0.0''\<rparr>]"
  shows "astools_registry_resolve c (Some ''demo'') = Inr t \<and> find_tool_admin c (Some ''demo'') = Inl ASTOOLS_ERR_NOT_FOUND"
proof -
  have "astools_semver_parse (Some ''1.0.0+b'') = Some \<lparr>major = 1, minor = 0, patch = 0, prerelease = None\<rparr>" by code_simp
  with assms(3,6) have v: "t_ver t = \<lparr>major = 1, minor = 0, patch = 0, prerelease = None\<rparr>" by simp
  have "astools_registry_resolve c (Some ''demo'') = Inr t"
    using assms(1,2,4,5,7) sample_version
    by (simp add: astools_registry_resolve_def pin_for_def resolve_step_def better_of_def Let_def v semver.cmp_refl)
  moreover have "find_tool_admin c (Some ''demo'') = Inl ASTOOLS_ERR_NOT_FOUND"
    using assms(1,2,3,7) by (simp add: find_tool_admin_def ref_split_def bind_res_def pin_version_of_def Let_def)
  ultimately show ?thesis by simp
qed

end
