(* ===== verification/As_Refs.thy ===== *)
theory As_Refs
  imports As_Prelude
begin

text \<open>
  The references to tool descriptors of \<^verbatim>\<open>src/registry.c\<close>: who holds one, when a descriptor is destroyed, and
  how the steps of the threads interleave. Descriptors are addresses; every update of a count is one step,
  as it is under the process-wide mutex.
\<close>

section \<open>Counts\<close>

record refs =
  rf_count :: "nat \<Rightarrow> int"
  rf_destroyed :: "nat list"

definition astools_tool_ref :: "nat \<Rightarrow> refs \<Rightarrow> refs" where
  "astools_tool_ref p s = s\<lparr>rf_count := (rf_count s)(p := rf_count s p + 1)\<rparr>"

definition astools_tool_unref :: "nat \<Rightarrow> refs \<Rightarrow> refs" where
  "astools_tool_unref p s =
     (let n = rf_count s p - 1; s' = s\<lparr>rf_count := (rf_count s)(p := n)\<rparr> in
      if n \<le> 0 then s'\<lparr>rf_destroyed := rf_destroyed s' @ [p]\<rparr> else s')"

text \<open>A new descriptor starts with the reference of the table.\<close>

definition tool_alloc :: "nat \<Rightarrow> refs \<Rightarrow> refs" where
  "tool_alloc p s = s\<lparr>rf_count := (rf_count s)(p := 1)\<rparr>"

section \<open>Holders\<close>

text \<open>
  The table, the replaced descriptors a scan has yet to release after it gave up the lock, and the
  descriptors that invocations hold; \<open>h_next\<close> is the next fresh address.
\<close>

record holders =
  h_refs :: refs
  h_table :: "nat list"
  h_pending :: "nat list"
  h_held :: "nat list"
  h_next :: nat

definition publish_refs :: "nat \<Rightarrow> holders \<Rightarrow> holders" where
  "publish_refs k h =
     (let new = [h_next h ..< h_next h + k] in
      h\<lparr>h_refs := foldr tool_alloc new (h_refs h), h_table := new, h_pending := h_pending h @ h_table h, h_next := h_next h + k\<rparr>)"

definition release_pending :: "nat \<Rightarrow> holders \<Rightarrow> holders" where
  "release_pending p h = h\<lparr>h_refs := astools_tool_unref p (h_refs h), h_pending := remove1 p (h_pending h)\<rparr>"

definition resolve_ref :: "nat \<Rightarrow> holders \<Rightarrow> holders" where
  "resolve_ref p h = h\<lparr>h_refs := astools_tool_ref p (h_refs h), h_held := p # h_held h\<rparr>"

definition release_held :: "nat \<Rightarrow> holders \<Rightarrow> holders" where
  "release_held p h = h\<lparr>h_refs := astools_tool_unref p (h_refs h), h_held := remove1 p (h_held h)\<rparr>"

text \<open>
  A scan publishes \<open>k\<close> new descriptors, and releases the replaced ones one by one; a resolution takes a
  descriptor of the table; whoever holds one releases it.
\<close>

inductive ref_step :: "holders \<Rightarrow> holders \<Rightarrow> bool" where
  publish: "ref_step h (publish_refs k h)"
| pending: "p \<in> set (h_pending h) \<Longrightarrow> ref_step h (release_pending p h)"
| resolve: "p \<in> set (h_table h) \<Longrightarrow> ref_step h (resolve_ref p h)"
| release: "p \<in> set (h_held h) \<Longrightarrow> ref_step h (release_held p h)"

definition holders_init :: holders where
  "holders_init = \<lparr>h_refs = \<lparr>rf_count = (\<lambda>p. 0), rf_destroyed = []\<rparr>, h_table = [], h_pending = [], h_held = [], h_next = 0\<rparr>"

inductive ref_reach :: "holders \<Rightarrow> bool" where
  init: "ref_reach holders_init"
| step: "ref_reach h \<Longrightarrow> ref_step h h' \<Longrightarrow> ref_reach h'"

section \<open>The invariant\<close>

definition holds :: "holders \<Rightarrow> nat \<Rightarrow> nat" where
  "holds h p = count_list (h_table h) p + count_list (h_pending h) p + count_list (h_held h) p"

definition refs_ok :: "holders \<Rightarrow> bool" where
  "refs_ok h \<longleftrightarrow>
     (\<forall>p. (p < h_next h \<longrightarrow> rf_count (h_refs h) p = int (holds h p)) \<and> (\<not> p < h_next h \<longrightarrow> holds h p = 0)) \<and>
     distinct (rf_destroyed (h_refs h)) \<and> (\<forall>p. p \<in> set (rf_destroyed (h_refs h)) \<longleftrightarrow> p < h_next h \<and> holds h p = 0)"

lemma holds_zero_iff: "holds h p = 0 \<longleftrightarrow> p \<notin> set (h_table h) \<union> set (h_pending h) \<union> set (h_held h)"
  by (simp add: holds_def count_list_0_iff)

lemma count_remove1: "p \<in> set xs \<Longrightarrow> count_list (remove1 p xs) q = (if q = p then count_list xs q - 1 else count_list xs q)"
  by (induction xs) (auto simp: count_list_0_iff)

lemma count_distinct: "distinct xs \<Longrightarrow> count_list xs p = (if p \<in> set xs then 1 else 0)"
  by (induction xs) auto

lemma alloc_count: "rf_count (foldr tool_alloc ps s) p = (if p \<in> set ps then 1 else rf_count s p)"
  "rf_destroyed (foldr tool_alloc ps s) = rf_destroyed s"
  by (induction ps) (auto simp: tool_alloc_def)

lemma unref_ok:
  assumes ok: "refs_ok h" and p: "holds h p > 0"
    and h': "h_refs h' = astools_tool_unref p (h_refs h)" "h_next h' = h_next h"
      "\<And>q. holds h' q = (if q = p then holds h q - 1 else holds h q)"
  shows "refs_ok h'"
proof -
  have lt: "p < h_next h" using ok p by (metis refs_ok_def neq0_conv)
  then have c: "rf_count (h_refs h) p = int (holds h p)" using ok by (simp add: refs_ok_def)
  have np: "p \<notin> set (rf_destroyed (h_refs h))" using ok p by (simp add: refs_ok_def)
  have cnt: "rf_count (h_refs h') q = (if q = p then int (holds h p) - 1 else rf_count (h_refs h) q)" for q
    by (simp add: h' astools_tool_unref_def Let_def c)
  have des: "rf_destroyed (h_refs h') = rf_destroyed (h_refs h) @ (if holds h p = 1 then [p] else [])"
    using p by (auto simp: h' astools_tool_unref_def Let_def c)
  show ?thesis
    unfolding refs_ok_def
  proof (intro conjI allI)
    show "q < h_next h' \<longrightarrow> rf_count (h_refs h') q = int (holds h' q)" for q
      using ok p by (simp add: refs_ok_def cnt h'(2,3) of_nat_diff)
    show "\<not> q < h_next h' \<longrightarrow> holds h' q = 0" for q using ok by (simp add: refs_ok_def h'(2,3))
    show "distinct (rf_destroyed (h_refs h'))" using ok np by (simp add: refs_ok_def des)
    show "q \<in> set (rf_destroyed (h_refs h')) \<longleftrightarrow> q < h_next h' \<and> holds h' q = 0" for q
    proof (cases "q = p")
      case True
      have "holds h p - 1 = 0 \<longleftrightarrow> holds h p = 1" using p by linarith
      with True np lt show ?thesis by (simp add: des h'(2,3))
    next
      case False
      with ok show ?thesis by (simp add: refs_ok_def des h'(2,3))
    qed
  qed
qed

lemma step_refs_ok: "ref_step h h' \<Longrightarrow> refs_ok h \<Longrightarrow> refs_ok h'"
proof (induction rule: ref_step.induct)
  case (publish h k)
  have fresh: "holds h p = 0" if "\<not> p < h_next h" for p using publish that by (simp add: refs_ok_def)
  have in_new: "count_list [h_next h ..< h_next h + k] p = (if h_next h \<le> p \<and> p < h_next h + k then 1 else 0)" for p
    using count_distinct [of "[h_next h ..< h_next h + k]" p] by simp
  then have holds: "holds (publish_refs k h) p = (if h_next h \<le> p \<and> p < h_next h + k then 1 else holds h p)" for p
    using fresh [of p] by (auto simp: holds_def publish_refs_def Let_def)
  show ?case using publish fresh
    unfolding refs_ok_def holds by (auto simp: publish_refs_def Let_def alloc_count)
next
  case (pending p h)
  then have c: "count_list (h_pending h) p > 0" by (simp add: count_list_0_iff neq0_conv [symmetric] del: neq0_conv)
  show ?case
    by (rule unref_ok [OF pending(2), of p])
      (use pending(1) c in \<open>simp_all add: release_pending_def holds_def count_remove1\<close>)
next
  case (resolve p h)
  then have p: "holds h p \<noteq> 0" by (simp add: holds_zero_iff)
  then have "p < h_next h" using resolve(2) by (meson refs_ok_def)
  moreover have "holds (resolve_ref p h) q = (if q = p then holds h q + 1 else holds h q)" for q
    by (simp add: resolve_ref_def holds_def)
  ultimately show ?case using resolve(2) p
    by (auto simp: refs_ok_def resolve_ref_def astools_tool_ref_def)
next
  case (release p h)
  then have c: "count_list (h_held h) p > 0" by (simp add: count_list_0_iff neq0_conv [symmetric] del: neq0_conv)
  show ?case
    by (rule unref_ok [OF release(2), of p])
      (use release(1) c in \<open>simp_all add: release_held_def holds_def count_remove1\<close>)
qed

lemma reach_refs_ok: "ref_reach h \<Longrightarrow> refs_ok h"
proof (induction rule: ref_reach.induct)
  case init
  show ?case by (simp add: refs_ok_def holders_init_def holds_def)
qed (rule step_refs_ok)

section \<open>Properties\<close>

text \<open>
  C36: However scans, resolutions and releases interleave, a descriptor that the table, a scan or an invocation
  still holds is never destroyed, none is destroyed twice, and one that nobody holds has been destroyed.
\<close>

theorem refs_exact:
  assumes "ref_reach h"
  shows "distinct (rf_destroyed (h_refs h)) \<and>
    set (rf_destroyed (h_refs h)) = {p. p < h_next h} - (set (h_table h) \<union> set (h_pending h) \<union> set (h_held h))"
  using reach_refs_ok [OF assms] unfolding refs_ok_def holds_zero_iff by blast

text \<open>A descriptor survives its replacement while an invocation holds it, and goes with the last release.\<close>

theorem refs_exact_witness:
  "\<exists>h. ref_reach h \<and> h_held h = [0] \<and> h_table h = [1] \<and> rf_destroyed (h_refs h) = []"
proof -
  let ?h1 = "publish_refs 1 holders_init"
  let ?h2 = "resolve_ref 0 ?h1"
  let ?h3 = "publish_refs 1 ?h2"
  let ?h4 = "release_pending 0 ?h3"
  have l: "h_table ?h1 = [0]" "h_pending ?h3 = [0]" "h_held ?h4 = [0]" "h_table ?h4 = [1]" "h_next ?h4 = 2" "h_pending ?h4 = []"
    by (simp_all add: publish_refs_def resolve_ref_def release_pending_def holders_init_def Let_def upt_rec)
  have "ref_reach ?h1" by (rule ref_reach.step [OF ref_reach.init ref_step.publish])
  then have "ref_reach ?h2" by (rule ref_reach.step) (rule ref_step.resolve, simp only: l list.set insertI1)
  then have "ref_reach ?h3" by (rule ref_reach.step) (rule ref_step.publish)
  then have r: "ref_reach ?h4" by (rule ref_reach.step) (rule ref_step.pending, simp only: l list.set insertI1)
  have "{p. p < (2 :: nat)} - (set [1] \<union> set [] \<union> set [0]) = {}" by auto
  then have "set (rf_destroyed (h_refs ?h4)) = {}" using refs_exact [OF r] unfolding l by simp
  then have "rf_destroyed (h_refs ?h4) = []" by (simp only: set_empty)
  with r l show ?thesis by blast
qed

end
