(* ===== verification/As_Proto.thy ===== *)
theory As_Proto
  imports As_Policy As_ManifestRender As_Uuid As_Time
begin

text \<open>
  \<^verbatim>\<open>src/proto.c\<close>: the messages of the wire protocol - the request a tool is sent, the response and the
  hello it sends, and the cancellation. The xCDN library reads and prints the documents; its compact printer and
  the texts of its parse errors are parameters. Allocations succeed, so that a builder fails only where the
  printer or a copy does.
\<close>

record xwire =
  w_x :: xcdn
  w_compact :: "xnode \<Rightarrow> string option"
  w_message :: "string \<Rightarrow> string"

text \<open>A document survives compact printing as a line and parsing.\<close>

definition line_back :: "xwire \<Rightarrow> xnode \<Rightarrow> bool" where
  "line_back w n \<longleftrightarrow> (\<forall>s. w_compact w n = Some s \<longrightarrow> x_parse (w_x w) (s @ [CHR 0x0A]) = Some [Some n])"

section \<open>Copies and printing\<close>

text \<open>
  The copy made before printing: a missing value becomes null, a missing name the empty text, a tag without
  a name is left out; a missing node makes the copy fail. There is no limit on the depth.
\<close>

primrec pclone_value :: "xvalue \<Rightarrow> xvalue option" and pclone_node :: "xnode \<Rightarrow> xnode option" where
  "pclone_value XNull = Some XNull"
| "pclone_value (XBool b) = Some (XBool b)"
| "pclone_value (XInt i) = Some (XInt i)"
| "pclone_value (XFloat d) = Some (XFloat d)"
| "pclone_value (XDecimal s) = Some (XDecimal s)"
| "pclone_value (XString s) = Some (XString s)"
| "pclone_value (XBytes b) = Some (XBytes b)"
| "pclone_value (XDatetime s) = Some (XDatetime s)"
| "pclone_value (XDuration s) = Some (XDuration s)"
| "pclone_value (XUuid s) = Some (XUuid s)"
| "pclone_value (XArray items) =
     map_option (\<lambda>ns. XArray (map Some ns))
       (those (map (\<lambda>c. case c of None \<Rightarrow> None | Some n \<Rightarrow> n) (map (map_option pclone_node) items)))"
| "pclone_value (XObject es) =
     map_option XObject (those (map (\<lambda>(k, c). case c of None \<Rightarrow> None | Some n \<Rightarrow> map_option (\<lambda>m. (str_or_empty k, Some m)) n)
       (map (map_prod id (map_option pclone_node)) es)))"
| "pclone_node (XNode tags annots v) =
     (case (case map_option pclone_value v of None \<Rightarrow> Some XNull | Some c \<Rightarrow> c) of
        None \<Rightarrow> None
      | Some cv \<Rightarrow>
          map_option (\<lambda>as. XNode (filter (\<lambda>t. t \<noteq> None) tags) as (Some cv))
            (those (map (\<lambda>(k, cs). map_option (\<lambda>args. (str_or_empty k, map Some args))
                 (those (map (\<lambda>c. case c of None \<Rightarrow> Some XNull | Some c \<Rightarrow> c) cs)))
               (map (map_prod id (map (map_option pclone_value))) annots))))"

definition astools_xcdn_write_node :: "xwire \<Rightarrow> xnode option \<Rightarrow> bool \<Rightarrow> string option" where
  "astools_xcdn_write_node w n pretty =
     (case Option.bind n pclone_node of
        None \<Rightarrow> None
      | Some c \<Rightarrow> if pretty then x_pretty (w_x w) c else w_compact w c)"

definition astools_xcdn_write_value :: "xwire \<Rightarrow> xvalue option \<Rightarrow> bool \<Rightarrow> string option" where
  "astools_xcdn_write_value w v pretty =
     (case Option.bind v pclone_value of
        None \<Rightarrow> None
      | Some c \<Rightarrow> if pretty then x_pretty (w_x w) (wrap_value c) else w_compact w (wrap_value c))"

definition astools_xcdn_parse_first :: "xwire \<Rightarrow> string option \<Rightarrow> (xnode option list \<times> xnode) res" where
  "astools_xcdn_parse_first w str =
     (case str of
        None \<Rightarrow> Inl ASTOOLS_ERR_PARSE
      | Some s \<Rightarrow>
          (case x_parse (w_x w) s of
             None \<Rightarrow> Inl ASTOOLS_ERR_PARSE
           | Some doc \<Rightarrow> (case doc_first doc of None \<Rightarrow> Inl ASTOOLS_ERR_PARSE | Some n \<Rightarrow> Inr (doc, n))))"

text \<open>The printed document with the newline that ends a message.\<close>

definition doc_compact_line :: "xwire \<Rightarrow> xnode \<Rightarrow> string option" where
  "doc_compact_line w n = map_option (\<lambda>s. s @ [CHR 0x0A]) (w_compact w n)"

section \<open>Requests\<close>

definition access_str :: "nat \<Rightarrow> string" where
  "access_str access =
     (if access = ASTOOLS_ACCESS_WRITE then ''write'' else if access = ASTOOLS_ACCESS_RW then ''read-write'' else ''read'')"

definition mk_string :: "string option \<Rightarrow> xvalue" where
  "mk_string s = XString (str_or_empty s)"

definition obj_put_node :: "xentries \<Rightarrow> string \<Rightarrow> xvalue \<Rightarrow> xentries" where
  "obj_put_node es key v = es @ [(Some key, Some (wrap_value v))]"

definition arr_put :: "xnode option list \<Rightarrow> xvalue \<Rightarrow> xnode option list" where
  "arr_put ns v = ns @ [Some (wrap_value v)]"

definition obj_set_checked :: "xentries \<Rightarrow> string \<Rightarrow> xnode \<Rightarrow> xentries" where
  "obj_set_checked es key n = es @ [(Some key, Some n)]"

definition request_fs :: "astools_fs_perm list \<Rightarrow> xnode option list" where
  "request_fs fs =
     foldl (\<lambda>arr q. arr_put arr (XObject (obj_put_node (obj_put_node [] ''path'' (mk_string (fpath q))) ''access''
       (mk_string (Some (access_str (faccess q))))))) [] fs"

definition request_env :: "string list \<Rightarrow> xnode option list" where
  "request_env env = foldl (\<lambda>arr s. arr_put arr (mk_string (Some s))) [] env"

definition request_grants :: "astools_effective \<Rightarrow> xentries" where
  "request_grants eff =
     (let sub = obj_put_node [] ''fs'' (XArray (request_fs (ef_fs eff)));
          sub = obj_put_node sub ''net'' (XBool (ef_net eff));
          sub = obj_put_node sub ''proc'' (XBool (ef_proc eff))
      in obj_put_node sub ''env'' (XArray (request_env (ef_env eff))))"

definition request_node :: "astools_manifest \<Rightarrow> astools_cmd \<Rightarrow> xnode \<Rightarrow> string \<Rightarrow> int \<Rightarrow> int \<Rightarrow> astools_effective \<Rightarrow>
    string \<Rightarrow> string \<Rightarrow> xnode" where
  "request_node m cmd args_clone invocation_id deadline max_output_bytes eff workspace scratch =
     (let r = obj_put_node [] ''protocol'' (XInt 1);
          r = obj_put_node r ''invocation_id'' (XUuid (Some invocation_id));
          r = obj_put_node r ''tool'' (mk_string (Some (m_id m)));
          r = obj_put_node r ''version'' (mk_string (Some (m_version m)));
          r = obj_put_node r ''command'' (mk_string (Some (c_name cmd)));
          r = obj_set_checked r ''args'' args_clone;
          r = obj_put_node r ''deadline'' (XDatetime (Some (astools_time_format_rfc3339 deadline)));
          r = obj_put_node r ''limits'' (XObject (obj_put_node [] ''max_output_bytes'' (XInt max_output_bytes)));
          r = obj_put_node r ''grants'' (XObject (request_grants eff));
          r = obj_put_node r ''workspace'' (mk_string (Some workspace));
          r = obj_put_node r ''scratch'' (mk_string (Some scratch))
      in XNode [Some ''tool_request''] [] (Some (XObject r)))"

definition astools_proto_request :: "xwire \<Rightarrow> astools_manifest \<Rightarrow> astools_cmd \<Rightarrow> xnode \<Rightarrow> string \<Rightarrow> int \<Rightarrow> int \<Rightarrow>
    astools_effective \<Rightarrow> string \<Rightarrow> string \<Rightarrow> string res" where
  "astools_proto_request w m cmd args invocation_id deadline max_output_bytes eff workspace scratch =
     (case pclone_node args of
        None \<Rightarrow> Inl ASTOOLS_ERR_NOMEM
      | Some args_clone \<Rightarrow>
          (case doc_compact_line w (request_node m cmd args_clone invocation_id deadline max_output_bytes eff workspace scratch) of
             None \<Rightarrow> Inl ASTOOLS_ERR_NOMEM
           | Some out \<Rightarrow> Inr out))"

section \<open>Responses\<close>

definition node_tagged :: "string \<Rightarrow> xnode option \<Rightarrow> bool" where
  "node_tagged name n = (case n of None \<Rightarrow> False | Some n \<Rightarrow> Some name \<in> set (xtags n))"

definition first_tagged :: "string \<Rightarrow> xnode option list \<Rightarrow> xnode option" where
  "first_tagged name doc = (case find (node_tagged name) doc of None \<Rightarrow> None | Some n \<Rightarrow> n)"

definition node_int :: "xnode option \<Rightarrow> int option" where
  "node_int n = (case n of Some (XNode _ _ (Some (XInt i))) \<Rightarrow> Some i | _ \<Rightarrow> None)"

definition node_bool :: "xnode option \<Rightarrow> bool option" where
  "node_bool n = (case n of Some (XNode _ _ (Some (XBool b))) \<Rightarrow> Some b | _ \<Rightarrow> None)"

definition node_id_string :: "xnode option \<Rightarrow> string option" where
  "node_id_string n =
     (case n of Some (XNode _ _ (Some (XUuid s))) \<Rightarrow> s | Some (XNode _ _ (Some (XString s))) \<Rightarrow> s | _ \<Rightarrow> None)"

record astools_response =
  rs_ok :: bool
  rs_result_xcdn :: "string option"
  rs_error_code :: "string option"
  rs_error_message :: "string option"
  rs_id :: string

text \<open>The part of an accepted response that depends on its outcome.\<close>

definition response_outcome :: "xwire \<Rightarrow> xentries \<Rightarrow> string \<Rightarrow> bool \<Rightarrow> astools_response res" where
  "response_outcome w es ident okval =
     (if okval then
        (case xf (w_x w) es ''result'' of
           None \<Rightarrow> Inl ASTOOLS_ERR_PROTOCOL
         | Some n \<Rightarrow>
             (case astools_xcdn_write_node w (Some n) False of
                None \<Rightarrow> Inl ASTOOLS_ERR_NOMEM
              | Some out \<Rightarrow> Inr \<lparr>rs_ok = True, rs_result_xcdn = Some out, rs_error_code = None, rs_error_message = None, rs_id = ident\<rparr>))
      else
        (case node_object (xf (w_x w) es ''error'') of
           None \<Rightarrow> Inl ASTOOLS_ERR_PROTOCOL
         | Some eo \<Rightarrow>
             (case node_str (xf (w_x w) eo ''code'') of
                None \<Rightarrow> Inl ASTOOLS_ERR_PROTOCOL
              | Some code \<Rightarrow>
                  if code = [] then Inl ASTOOLS_ERR_PROTOCOL
                  else (case node_str (xf (w_x w) eo ''message'') of
                      None \<Rightarrow> Inl ASTOOLS_ERR_PROTOCOL
                    | Some msg \<Rightarrow>
                        if xf (w_x w) eo ''retriable'' \<noteq> None \<and> node_bool (xf (w_x w) eo ''retriable'') = None
                        then Inl ASTOOLS_ERR_PROTOCOL
                        else Inr \<lparr>rs_ok = False, rs_result_xcdn = None, rs_error_code = Some code, rs_error_message = Some msg, rs_id = ident\<rparr>))))"

definition astools_proto_parse_response :: "xwire \<Rightarrow> string option \<Rightarrow> string option \<Rightarrow> astools_response res" where
  "astools_proto_parse_response w str expect_id =
     (case str of
        None \<Rightarrow> Inl ASTOOLS_ERR_INVALID
      | Some s \<Rightarrow>
          (case x_parse (w_x w) s of
             None \<Rightarrow> Inl ASTOOLS_ERR_PROTOCOL
           | Some doc \<Rightarrow>
               (case node_object (first_tagged ''tool_response'' doc) of
                  None \<Rightarrow> Inl ASTOOLS_ERR_PROTOCOL
                | Some es \<Rightarrow>
                    if node_int (xf (w_x w) es ''protocol'') \<noteq> Some 1 then Inl ASTOOLS_ERR_PROTOCOL
                    else (case node_id_string (xf (w_x w) es ''invocation_id'') of
                        None \<Rightarrow> Inl ASTOOLS_ERR_PROTOCOL
                      | Some ident \<Rightarrow>
                          if ident = [] then Inl ASTOOLS_ERR_PROTOCOL
                          else if expect_id \<noteq> None \<and> expect_id \<noteq> Some ident then Inl ASTOOLS_ERR_PROTOCOL
                          else (case node_bool (xf (w_x w) es ''ok'') of
                              None \<Rightarrow> Inl ASTOOLS_ERR_PROTOCOL
                            | Some okval \<Rightarrow> response_outcome w es ident okval)))))"

section \<open>Persistent tools\<close>

definition astools_proto_parse_hello :: "xwire \<Rightarrow> string option \<Rightarrow> astools_manifest \<Rightarrow> astools_err" where
  "astools_proto_parse_hello w str m =
     (case str of
        None \<Rightarrow> ASTOOLS_ERR_INVALID
      | Some s \<Rightarrow>
          (case x_parse (w_x w) s of
             None \<Rightarrow> ASTOOLS_ERR_PROTOCOL
           | Some doc \<Rightarrow>
               (case node_object (first_tagged ''tool_hello'' doc) of
                  None \<Rightarrow> ASTOOLS_ERR_PROTOCOL
                | Some es \<Rightarrow>
                    if node_int (xf (w_x w) es ''protocol'') \<noteq> Some 1 then ASTOOLS_ERR_PROTOCOL
                    else if node_str (xf (w_x w) es ''tool'') \<noteq> Some (m_id m) then ASTOOLS_ERR_PROTOCOL
                    else if node_str (xf (w_x w) es ''version'') \<noteq> Some (m_version m) then ASTOOLS_ERR_PROTOCOL
                    else (case node_int (xf (w_x w) es ''parallel'') of
                        None \<Rightarrow> ASTOOLS_ERR_PROTOCOL
                      | Some iv \<Rightarrow> if iv < 1 then ASTOOLS_ERR_PROTOCOL else ASTOOLS_OK))))"

definition astools_proto_cancel :: "xwire \<Rightarrow> string option \<Rightarrow> string option" where
  "astools_proto_cancel w invocation_id =
     (if invocation_id = None \<or> \<not> astools_uuid_valid invocation_id then None
      else doc_compact_line w (XNode [Some ''tool_cancel''] []
        (Some (XObject (obj_put_node [] ''invocation_id'' (XUuid invocation_id))))))"

end
