(* ===== verification/As_Sdk.thy ===== *)
theory As_Sdk
  imports As_Proto As_Json As_Base64
begin

text \<open>
  \<^verbatim>\<open>std/sdk.c\<close>: the tool's side of the wire protocol in the standard tools - reading the request, printing the
  response - and its codecs; and the dispatch of \<^verbatim>\<open>std/main.c\<close>. What is written to the standard output is the
  result; a response to a malformed request is a result too.
\<close>

section \<open>Building responses\<close>

text \<open>
  \<open>xcdn_object_set\<close> appends an entry for a new key; the keys set here are new, and the check that the entry
  is found afterwards then passes.
\<close>

definition astd_set_val :: "xentries \<Rightarrow> string \<Rightarrow> xvalue \<Rightarrow> xentries" where
  "astd_set_val es k v = es @ [(Some k, Some (XNode [] [] (Some v)))]"

definition astd_set_str :: "xentries \<Rightarrow> string \<Rightarrow> string option \<Rightarrow> xentries" where
  "astd_set_str es k v = astd_set_val es k (XString (str_or_empty v))"

definition astd_set_int :: "xentries \<Rightarrow> string \<Rightarrow> int \<Rightarrow> xentries" where
  "astd_set_int es k v = astd_set_val es k (XInt v)"

definition astd_set_bool :: "xentries \<Rightarrow> string \<Rightarrow> bool \<Rightarrow> xentries" where
  "astd_set_bool es k v = astd_set_val es k (XBool v)"

definition astd_arr_push_val :: "xnode option list \<Rightarrow> xvalue \<Rightarrow> xnode option list" where
  "astd_arr_push_val ns v = ns @ [Some (XNode [] [] (Some v))]"

definition fallback_text :: string where
  "fallback_text =
     ''#tool_response {protocol: 1, ok: false, error: {code: '' @ [CHR 0x22] @ ''astools/protocol'' @ [CHR 0x22] @
     '', message: '' @ [CHR 0x22] @ ''internal error while building response'' @ [CHR 0x22] @ '', retriable: false}}'' @ [CHR 0x0A]"

definition response_entries :: "string option \<Rightarrow> bool \<Rightarrow> xvalue option \<Rightarrow> string option \<Rightarrow> string option \<Rightarrow> xentries option" where
  "response_entries invocation_id ok payload code msg =
     (let es = astd_set_int [] ''protocol'' 1;
          es = (case invocation_id of None \<Rightarrow> es | Some u \<Rightarrow> astd_set_val es ''invocation_id'' (XUuid (Some u)));
          es = astd_set_bool es ''ok'' ok
      in if ok then (case payload of None \<Rightarrow> None | Some v \<Rightarrow> Some (astd_set_val es ''result'' v))
         else
           let e = astd_set_str [] ''code'' (Some (case code of None \<Rightarrow> ''astools/protocol'' | Some c \<Rightarrow> c));
               e = astd_set_str e ''message'' msg;
               e = astd_set_bool e ''retriable'' False
           in Some (astd_set_val es ''error'' (XObject e)))"

definition emit_response :: "xwire \<Rightarrow> string option \<Rightarrow> bool \<Rightarrow> xvalue option \<Rightarrow> string option \<Rightarrow> string option \<Rightarrow> string" where
  "emit_response w invocation_id ok payload code msg =
     (case response_entries invocation_id ok payload code msg of
        None \<Rightarrow> fallback_text
      | Some es \<Rightarrow>
          (case w_compact w (XNode [Some ''tool_response''] [] (Some (XObject es))) of
             None \<Rightarrow> fallback_text
           | Some out \<Rightarrow> out @ [CHR 0x0A]))"

definition astd_ok :: "xwire \<Rightarrow> string option \<Rightarrow> xvalue option \<Rightarrow> string" where
  "astd_ok w invocation_id result =
     (if result = None then emit_response w invocation_id False None (Some ''astools/protocol'') (Some ''tool produced no result'')
      else emit_response w invocation_id True result None None)"

text \<open>The message is formatted into 1024 bytes.\<close>

definition astd_fail :: "xwire \<Rightarrow> string option \<Rightarrow> string option \<Rightarrow> string \<Rightarrow> string" where
  "astd_fail w invocation_id code msg = emit_response w invocation_id False None code (Some (take 1023 msg))"

section \<open>Reading the request\<close>

record astd_req =
  q_invocation_id :: "string option"
  q_tool :: string
  q_version :: string
  q_command :: string
  q_args :: xentries
  q_grants :: "xentries option"
  q_workspace :: "string option"
  q_scratch :: "string option"
  q_max_output_bytes :: int

definition obj_field :: "xwire \<Rightarrow> xentries \<Rightarrow> string \<Rightarrow> xvalue option" where
  "obj_field w es k = Option.bind (xf (w_x w) es k) xval"

definition obj_field_str :: "xwire \<Rightarrow> xentries \<Rightarrow> string \<Rightarrow> string option" where
  "obj_field_str w es k = (case obj_field w es k of Some (XString s) \<Rightarrow> s | _ \<Rightarrow> None)"

text \<open>
  The buffer of \<^verbatim>\<open>astd_req_read\<close>: its capacity is doubled until a chunk and the final NUL fit; a doubling
  past \<open>SIZE_MAX\<close> is refused.
\<close>

function req_grow :: "nat \<Rightarrow> nat \<Rightarrow> nat option" where
  "req_grow ncap len =
     (if ncap - len < 65537 then (if ncap > SIZE_MAX div 2 then None else if ncap = 0 then None else req_grow (ncap * 2) len)
      else Some ncap)"
  by pat_completeness auto
termination
  by (relation "measure (\<lambda>(ncap, len). SIZE_MAX - ncap)") (auto simp: SIZE_MAX_def)

declare req_grow.simps [simp del]

text \<open>
  The loop over \<open>fread\<close>: \<open>rest\<close> is what the stream still gives, \<open>bad\<close> whether it then fails. The texts are those of
  the error responses.
\<close>

function req_fill :: "nat \<Rightarrow> nat \<Rightarrow> string \<Rightarrow> bool \<Rightarrow> string + string \<Rightarrow> string + string" where
  "req_fill cap len rest bad acc =
     (case acc of Inl e \<Rightarrow> Inl e
      | Inr buf \<Rightarrow>
          (case (if cap - len < 65537 then req_grow (if cap = 0 then 65537 else cap) len else Some cap) of
             None \<Rightarrow> Inl ''request too large''
           | Some cap' \<Rightarrow>
               if length rest < 65536 then (if bad then Inl ''error reading request from stdin'' else Inr (buf @ rest))
               else req_fill cap' (len + 65536) (drop 65536 rest) bad (Inr (buf @ take 65536 rest))))"
  by pat_completeness auto
termination
  by (relation "measure (\<lambda>(cap, len, rest, bad, acc). length rest)") auto

declare req_fill.simps [simp del]

text \<open>A malformed request: the response that says so, with the id when it is known.\<close>

definition req_error :: "xwire \<Rightarrow> string option \<Rightarrow> string \<Rightarrow> string" where
  "req_error w invocation_id msg = astd_fail w invocation_id (Some ''astools/protocol'') (take 511 msg)"

definition req_fields :: "xwire \<Rightarrow> xentries \<Rightarrow> string + astd_req" where
  "req_fields w es =
     (let inv = (case obj_field w es ''invocation_id'' of Some (XUuid s) \<Rightarrow> s | Some (XString s) \<Rightarrow> s | _ \<Rightarrow> None);
          err = (\<lambda>msg. Inl (req_error w inv msg))
      in case obj_field w es ''protocol'' of
           Some (XInt i) \<Rightarrow>
             if i \<noteq> 1 then err (''unsupported protocol '' @ ll_text i @ '' (expected 1)'')
             else if inv = None then err ''missing invocation_id''
             else (case obj_field_str w es ''tool'' of None \<Rightarrow> err ''missing tool field''
               | Some tool \<Rightarrow>
               case obj_field_str w es ''version'' of None \<Rightarrow> err ''missing version field''
               | Some version \<Rightarrow>
               case obj_field_str w es ''command'' of None \<Rightarrow> err ''missing command field''
               | Some command \<Rightarrow>
               case obj_field w es ''args'' of
                 Some (XObject args) \<Rightarrow>
                   Inr \<lparr>q_invocation_id = inv, q_tool = tool, q_version = version, q_command = command, q_args = args,
                     q_grants = (case obj_field w es ''grants'' of Some (XObject g) \<Rightarrow> Some g | _ \<Rightarrow> None),
                     q_workspace = obj_field_str w es ''workspace'', q_scratch = obj_field_str w es ''scratch'',
                     q_max_output_bytes = (case obj_field w es ''limits'' of
                       Some (XObject l) \<Rightarrow> (case obj_field w l ''max_output_bytes'' of Some (XInt m) \<Rightarrow> if m > 0 then m else 0 | _ \<Rightarrow> 0)
                     | _ \<Rightarrow> 0)\<rparr>
               | _ \<Rightarrow> err ''missing args object'')
         | _ \<Rightarrow> err ''missing or non-integer protocol field'')"

definition req_tagged :: "xwire \<Rightarrow> xnode option list \<Rightarrow> xnode option" where
  "req_tagged w doc =
     (case find (\<lambda>n. case n of None \<Rightarrow> False | Some n \<Rightarrow> x_has_tag (w_x w) (xtags n) ''tool_request'') doc of
        None \<Rightarrow> None | Some n \<Rightarrow> n)"

definition astd_req_read :: "xwire \<Rightarrow> string \<Rightarrow> bool \<Rightarrow> string + astd_req" where
  "astd_req_read w input bad =
     (case req_fill 0 0 input bad (Inr []) of
        Inl msg \<Rightarrow> Inl (req_error w None msg)
      | Inr buf \<Rightarrow>
          (case x_parse (w_x w) buf of
             None \<Rightarrow> Inl (req_error w None (''request parse error: '' @ w_message w buf))
           | Some doc \<Rightarrow>
               (case req_tagged w doc of
                  None \<Rightarrow> Inl (req_error w None ''no #tool_request node in input'')
                | Some n \<Rightarrow>
                    (case xval n of
                       Some (XObject es) \<Rightarrow> req_fields w es
                     | _ \<Rightarrow> Inl (req_error w None ''#tool_request is not an object'')))))"

section \<open>Arguments\<close>

definition astd_arg :: "xwire \<Rightarrow> astd_req \<Rightarrow> string \<Rightarrow> xvalue option" where
  "astd_arg w r name = obj_field w (q_args r) name"

definition astd_arg_str :: "xwire \<Rightarrow> astd_req \<Rightarrow> string \<Rightarrow> string option \<Rightarrow> string option" where
  "astd_arg_str w r name dflt = (case astd_arg w r name of Some (XString (Some s)) \<Rightarrow> Some s | _ \<Rightarrow> dflt)"

definition astd_arg_int :: "xwire \<Rightarrow> astd_req \<Rightarrow> string \<Rightarrow> int \<Rightarrow> int" where
  "astd_arg_int w r name dflt = (case astd_arg w r name of Some (XInt i) \<Rightarrow> i | _ \<Rightarrow> dflt)"

definition astd_arg_bool :: "xwire \<Rightarrow> astd_req \<Rightarrow> string \<Rightarrow> bool \<Rightarrow> bool" where
  "astd_arg_bool w r name dflt = (case astd_arg w r name of Some (XBool b) \<Rightarrow> b | _ \<Rightarrow> dflt)"

section \<open>Dispatch\<close>

text \<open>
  \<^verbatim>\<open>std/main.c\<close>: the options, the request, and the tool it is given to. \<open>Stop rc\<close> is an exit that writes nothing to
  the standard output, \<open>Reply out rc\<close> one that wrote \<open>out\<close>, \<open>Run tool req\<close> the call of a tool's entry point.
\<close>

datatype std_exit = Stop int | Reply string int | Run string astd_req

definition k_tools :: "string list" where
  "k_tools = [''fs'', ''grep'', ''edit'', ''sys'', ''env'', ''proc'', ''git'', ''code'', ''project'']"

fun main_options :: "string list \<Rightarrow> string option \<Rightarrow> int + string option" where
  "main_options [] tool = Inr tool"
| "main_options (a # as) tool =
     (if a = ''--tool'' then (case as of [] \<Rightarrow> Inl 2 | t # as' \<Rightarrow> main_options as' (Some t))
      else if a = ''--version'' then Inl 0
      else if a = ''--help'' then Inl 0
      else Inl 2)"

definition std_main :: "xwire \<Rightarrow> string list \<Rightarrow> string option \<Rightarrow> string \<Rightarrow> bool \<Rightarrow> std_exit" where
  "std_main w args env input bad =
     (case main_options args None of
        Inl rc \<Rightarrow> Stop rc
      | Inr opt \<Rightarrow>
          (let tool_id = (if opt = None then env else opt);
               tool_id = (if tool_id = Some [] then None else tool_id)
           in case astd_req_read w input bad of
                Inl out \<Rightarrow> Reply out 1
              | Inr req \<Rightarrow>
                  if tool_id \<noteq> None \<and> tool_id \<noteq> Some (q_tool req) then
                    Reply (astd_fail w (q_invocation_id req) (Some ''astools/protocol'')
                      (''request tool '' @ [CHR 0x22] @ q_tool req @ [CHR 0x22] @ '' does not match --tool '' @ [CHR 0x22] @
                       (case tool_id of None \<Rightarrow> [] | Some t \<Rightarrow> t) @ [CHR 0x22])) 0
                  else
                    let t = (case tool_id of None \<Rightarrow> q_tool req | Some t \<Rightarrow> t) in
                    if t \<in> set k_tools then Run t req
                    else Reply (astd_fail w (q_invocation_id req) (Some ''astools/protocol'')
                      (''unknown tool '' @ [CHR 0x22] @ t @ [CHR 0x22])) 0))"

section \<open>Codecs\<close>

text \<open>Times outside the years 0 to 9999 are clamped; the casts to the narrow fields lose nothing.\<close>

definition two_dec :: "int \<Rightarrow> string" where
  "two_dec i = [idigit (i div 10 mod 10), idigit (i mod 10)]"

definition astd_rfc3339 :: "int \<Rightarrow> string" where
  "astd_rfc3339 unix_s =
     (let days0 = unix_s sdiv 86400; rem0 = unix_s smod 86400;
          rem = (if rem0 < 0 then rem0 + 86400 else rem0);
          days = (if rem0 < 0 then days0 - 1 else days0)
      in case civil_from_days days of (y, m, d) \<Rightarrow>
         if y < 0 then ''0000-01-01T00:00:00Z''
         else if y > 9999 then ''9999-12-31T23:59:59Z''
         else two_dec (y div 100) @ two_dec y @ ''-'' @ two_dec m @ ''-'' @ two_dec d @ ''T'' @ two_dec (rem sdiv 3600) @ '':'' @
           two_dec ((rem sdiv 60) smod 60) @ '':'' @ two_dec (rem smod 60) @ ''Z'')"

definition astd_base64_encode :: "byte list \<Rightarrow> string option" where
  "astd_base64_encode data =
     (if length data > (SIZE_MAX div 4) * 3 - 2 then None else Some (b64_groups data))"

definition astd_base64_decode :: "string \<Rightarrow> byte list option" where
  "astd_base64_decode s =
     (let n = length s in
      if n mod 4 \<noteq> 0 then None
      else if n = 0 then Some []
      else let pad = b64_pad s in
        if list_ex (\<lambda>c. b64_val c < 0) (take (n - pad) s) then None
        else b64_dec_groups pad s)"

definition astd_looks_binary :: "byte list \<Rightarrow> bool" where
  "astd_looks_binary buf = (0 \<in> set (take 4096 buf))"

section \<open>Reading all of the input\<close>

lemma req_grow_room: "req_grow ncap len = Some c \<Longrightarrow> 65537 \<le> c - len"
proof (induction ncap len rule: req_grow.induct)
  case (1 ncap len)
  show ?case
  proof (cases "ncap - len < 65537")
    case True
    then show ?thesis using 1 by (simp add: req_grow.simps [of ncap len] split: if_splits)
  next
    case False
    then show ?thesis using 1(2) by (simp add: req_grow.simps [of ncap len])
  qed
qed

lemma req_grow_ok: "0 < ncap \<Longrightarrow> len + 65537 \<le> SIZE_MAX div 2 \<Longrightarrow> req_grow ncap len \<noteq> None"
proof (induction ncap len rule: req_grow.induct)
  case (1 ncap len)
  show ?case
  proof (cases "ncap - len < 65537")
    case True
    then show ?thesis using 1 by (simp add: req_grow.simps [of ncap len])
  next
    case False
    then show ?thesis by (simp add: req_grow.simps [of ncap len])
  qed
qed

lemma req_fill_all:
  "len + length rest + 65537 \<le> SIZE_MAX div 2 \<Longrightarrow> req_fill cap len rest False (Inr buf) = Inr (buf @ rest)"
proof (induction "length rest" arbitrary: cap len rest buf rule: less_induct)
  case less
  obtain c where c: "(if cap - len < 65537 then req_grow (if cap = 0 then 65537 else cap) len else Some cap) = Some c"
  proof (cases "cap - len < 65537")
    case True
    have "req_grow (if cap = 0 then 65537 else cap) len \<noteq> None"
      by (rule req_grow_ok) (use less.prems in simp_all)
    then show ?thesis using True that by fastforce
  qed (use that in simp)
  show ?case
  proof (cases "length rest < 65536")
    case True
    then show ?thesis using c by (simp add: req_fill.simps [of cap len])
  next
    case False
    then have "req_fill c (len + 65536) (drop 65536 rest) False (Inr (buf @ take 65536 rest)) = Inr (buf @ rest)"
      using less.hyps [of "drop 65536 rest" "len + 65536" c "buf @ take 65536 rest"] less.prems by simp
    then show ?thesis using c False by (simp add: req_fill.simps [of cap len])
  qed
qed

section \<open>The request of the library, read by a tool\<close>

definition request_fields :: "astools_manifest \<Rightarrow> astools_cmd \<Rightarrow> xnode \<Rightarrow> string \<Rightarrow> int \<Rightarrow> int \<Rightarrow> astools_effective \<Rightarrow>
    string \<Rightarrow> string \<Rightarrow> xfields" where
  "request_fields m cmd args ident deadline mob eff workspace scratch =
     [(''protocol'', int_node 1), (''invocation_id'', wrap_value (XUuid (Some ident))), (''tool'', str_node (m_id m)),
      (''version'', str_node (m_version m)), (''command'', str_node (c_name cmd)), (''args'', args),
      (''deadline'', wrap_value (XDatetime (Some (astools_time_format_rfc3339 deadline)))),
      (''limits'', wrap_value (XObject (entries_in [(''max_output_bytes'', int_node mob)]))),
      (''grants'', wrap_value (XObject (request_grants eff))), (''workspace'', str_node workspace), (''scratch'', str_node scratch)]"

lemma request_node_fields:
  "request_node m cmd args ident deadline mob eff workspace scratch =
     XNode [Some ''tool_request''] [] (Some (XObject (entries_in (request_fields m cmd args ident deadline mob eff workspace scratch))))"
  by (simp add: request_node_def request_fields_def obj_put_node_def obj_set_checked_def mk_string_def str_node_def val_string_def
      int_node_def Let_def)

lemma request_dkeys: "dkeys (request_fields m cmd args ident deadline mob eff workspace scratch)"
  by (simp add: request_fields_def dkeys_def)

lemma req_fields_request:
  assumes x: "xcdn_ok (w_x w)" and args: "xval args = Some (XObject es)" and mob: "0 < mob"
  shows "req_fields w (entries_in (request_fields m cmd args ident deadline mob eff workspace scratch)) =
    Inr \<lparr>q_invocation_id = Some ident, q_tool = m_id m, q_version = m_version m, q_command = c_name cmd, q_args = es,
      q_grants = Some (request_grants eff), q_workspace = Some workspace, q_scratch = Some scratch, q_max_output_bytes = mob\<rparr>"
proof -
  let ?fs = "request_fields m cmd args ident deadline mob eff workspace scratch"
  have f: "obj_field w (entries_in ?fs) k = Option.bind (map_of ?fs k) xval" for k
    unfolding obj_field_def by (simp only: look_fields [OF x request_dkeys])
  have l: "obj_field w (entries_in [(''max_output_bytes'', int_node mob)]) ''max_output_bytes'' = Some (XInt mob)"
    unfolding obj_field_def by (subst look_fields [OF x]) (simp_all add: int_node_def wrap_value_def)
  have v: "obj_field w (entries_in ?fs) ''invocation_id'' = Some (XUuid (Some ident))"
    "obj_field w (entries_in ?fs) ''protocol'' = Some (XInt 1)" "obj_field w (entries_in ?fs) ''tool'' = Some (XString (Some (m_id m)))"
    "obj_field w (entries_in ?fs) ''version'' = Some (XString (Some (m_version m)))"
    "obj_field w (entries_in ?fs) ''command'' = Some (XString (Some (c_name cmd)))" "obj_field w (entries_in ?fs) ''args'' = Some (XObject es)"
    "obj_field w (entries_in ?fs) ''grants'' = Some (XObject (request_grants eff))"
    "obj_field w (entries_in ?fs) ''workspace'' = Some (XString (Some workspace))"
    "obj_field w (entries_in ?fs) ''scratch'' = Some (XString (Some scratch))"
    "obj_field w (entries_in ?fs) ''limits'' = Some (XObject (entries_in [(''max_output_bytes'', int_node mob)]))"
    by (simp_all only: f) (simp_all add: request_fields_def args str_node_def val_string_def int_node_def wrap_value_def)
  show ?thesis
    unfolding req_fields_def obj_field_str_def v Let_def option.case xvalue.case l using mob by simp
qed

definition response_doc :: "xentries \<Rightarrow> xnode" where
  "response_doc es = XNode [Some ''tool_response''] [] (Some (XObject es))"

text \<open>A wire on three documents, for the witnesses.\<close>

definition demo_ok_doc :: xnode where
  "demo_ok_doc = response_doc (entries_in [(''protocol'', int_node 1), (''invocation_id'', wrap_value (XUuid (Some ''u''))),
     (''ok'', bool_node True), (''result'', wrap_value (XInt 7))])"

definition demo_fail_doc :: xnode where
  "demo_fail_doc = response_doc (entries_in [(''protocol'', int_node 1), (''invocation_id'', wrap_value (XUuid (Some ''u''))),
     (''ok'', bool_node False),
     (''error'', wrap_value (XObject (entries_in [(''code'', str_node ''fs/io''), (''message'', str_node ''gone''), (''retriable'', bool_node False)])))])"

definition demo_request_doc :: xnode where
  "demo_request_doc = request_node demo_tool (hd (m_commands demo_tool)) (XNode [] [] (Some (XObject (entries_in [(''n'', int_node 3)]))))
     ''u'' 0 4096 \<lparr>ef_fs = [], ef_net = False, ef_proc = False, ef_env = [''HOME'']\<rparr> ''/ws'' ''/tmp''"

definition demo_wire :: xwire where
  "demo_wire = \<lparr>w_x = \<lparr>x_get = first_key, x_has_tag = (\<lambda>ts t. Some t \<in> set ts),
       x_parse = (\<lambda>s. if s = ''a'' @ [CHR 0x0A] then Some [Some demo_ok_doc] else if s = ''b'' @ [CHR 0x0A] then Some [Some demo_fail_doc]
         else if s = ''r'' @ [CHR 0x0A] then Some [Some demo_request_doc] else None), x_pretty = (\<lambda>n. None)\<rparr>,
     w_compact = (\<lambda>n. Some (if n = demo_ok_doc then ''a'' else if n = demo_fail_doc then ''b'' else if n = demo_request_doc then ''r'' else ''c'')),
     w_message = (\<lambda>s. ''bad'')\<rparr>"

lemma demo_docs_ok: "doc_ok demo_ok_doc" "doc_ok demo_fail_doc" "doc_ok demo_request_doc"
  unfolding demo_ok_doc_def demo_fail_doc_def demo_request_doc_def request_node_fields
  by (simp_all add: response_doc_def request_fields_def request_grants_def request_fs_def request_env_def obj_put_node_def arr_put_def mk_string_def
      all_some_def int64_ok_def INT64_MIN_def INT64_MAX_def int_node_def bool_node_def str_node_def val_string_def wrap_value_def Let_def)

lemma demo_docs_distinct: "demo_ok_doc \<noteq> demo_fail_doc" "demo_ok_doc \<noteq> demo_request_doc" "demo_fail_doc \<noteq> demo_request_doc"
  unfolding demo_ok_doc_def demo_fail_doc_def demo_request_doc_def request_node_fields
  by (simp_all add: response_doc_def request_fields_def bool_node_def wrap_value_def)

lemma demo_wire_ok: "xcdn_ok (w_x demo_wire)"
  using first_key_ok demo_docs_ok by (auto simp: xcdn_ok_def demo_wire_def)

lemma demo_back: "line_back demo_wire demo_ok_doc" "line_back demo_wire demo_fail_doc" "line_back demo_wire demo_request_doc"
  using demo_docs_distinct by (auto simp: line_back_def demo_wire_def)

text \<open>The grants as the protocol writes them: each path with its access, the two flags, the names.\<close>

definition grant_fields :: "astools_effective \<Rightarrow> xfields" where
  "grant_fields eff =
     [(''fs'', arr_node (map (\<lambda>q. tagged_obj_node None
         [(''path'', str_node (case fpath q of None \<Rightarrow> [] | Some s \<Rightarrow> s)),
          (''access'', str_node (if faccess q = ASTOOLS_ACCESS_WRITE then ''write''
             else if faccess q = ASTOOLS_ACCESS_RW then ''read-write'' else ''read''))]) (ef_fs eff))),
      (''net'', bool_node (ef_net eff)), (''proc'', bool_node (ef_proc eff)), (''env'', arr_node (map str_node (ef_env eff)))]"

lemma foldl_arr_put: "foldl (\<lambda>arr q. arr_put arr (f q)) ns qs = ns @ map (\<lambda>q. Some (wrap_value (f q))) qs"
  by (induction qs arbitrary: ns) (simp_all add: arr_put_def)

lemma request_grants_fields: "request_grants eff = entries_in (grant_fields eff)"
  by (auto simp: request_grants_def grant_fields_def request_fs_def request_env_def foldl_arr_put obj_put_node_def mk_string_def
      str_or_empty_def access_str_def arr_node_def str_node_def bool_node_def val_string_def tagged_obj_node_def obj_of_def wrap_value_def
      comp_def Let_def split: option.splits)

text \<open>
  C37: A tool of the kit reads back exactly what the library wrote: the request is accepted, and its tool, version, command,
  arguments (the copy the library made of them), grants, directories and output limit are those of the invocation; the
  grants are the effective paths with their accesses, the two flags and the names, in order.
\<close>

theorem proto_request_read:
  assumes "xcdn_ok (w_x w)" "astools_proto_request w m cmd args ident deadline mob eff workspace scratch = Inr out"
    and "pclone_node args = Some (XNode ts an (Some (XObject es)))" "0 < mob" "length out + 65537 \<le> SIZE_MAX div 2"
    and "line_back w (request_node m cmd (XNode ts an (Some (XObject es))) ident deadline mob eff workspace scratch)"
  shows "astd_req_read w out False =
    Inr \<lparr>q_invocation_id = Some ident, q_tool = m_id m, q_version = m_version m, q_command = c_name cmd, q_args = es,
      q_grants = Some (request_grants eff), q_workspace = Some workspace, q_scratch = Some scratch, q_max_output_bytes = mob\<rparr> \<and>
    request_grants eff = entries_in (grant_fields eff)"
proof -
  let ?n = "request_node m cmd (XNode ts an (Some (XObject es))) ident deadline mob eff workspace scratch"
  obtain s where s: "w_compact w ?n = Some s" "out = s @ [CHR 0x0A]"
    using assms(2,3) by (auto simp: astools_proto_request_def doc_compact_line_def split: option.splits)
  have parse: "x_parse (w_x w) out = Some [Some ?n]" using assms(6) s by (simp add: line_back_def)
  have tag: "x_has_tag (w_x w) (xtags ?n) ''tool_request''" using assms(1) by (simp add: xcdn_ok_def request_node_fields)
  have fields: "req_fields w (entries_in (request_fields m cmd (XNode ts an (Some (XObject es))) ident deadline mob eff workspace scratch)) =
    Inr \<lparr>q_invocation_id = Some ident, q_tool = m_id m, q_version = m_version m, q_command = c_name cmd, q_args = es,
      q_grants = Some (request_grants eff), q_workspace = Some workspace, q_scratch = Some scratch, q_max_output_bytes = mob\<rparr>"
    by (rule req_fields_request [OF assms(1) _ assms(4)]) simp
  have "req_tagged w [Some ?n] = Some ?n" using tag by (simp add: req_tagged_def)
  then show ?thesis
    using req_fill_all [of 0 out 0 "[]"] assms(5) fields parse request_grants_fields
    by (simp add: astd_req_read_def request_node_fields)
qed

theorem proto_request_read_witness:
  "\<exists>out r. astools_proto_request demo_wire demo_tool (hd (m_commands demo_tool)) (XNode [] [] (Some (XObject (entries_in [(''n'', int_node 3)]))))
       ''u'' 0 4096 \<lparr>ef_fs = [], ef_net = False, ef_proc = False, ef_env = [''HOME'']\<rparr> ''/ws'' ''/tmp'' = Inr out \<and>
     astd_req_read demo_wire out False = Inr r \<and> q_tool r = ''demo'' \<and> q_max_output_bytes r = 4096 \<and> q_args r = entries_in [(''n'', int_node 3)]"
proof -
  let ?args = "XNode [] [] (Some (XObject (entries_in [(''n'', int_node 3)])))"
  let ?eff = "\<lparr>ef_fs = [], ef_net = False, ef_proc = False, ef_env = [''HOME'']\<rparr>"
  have c: "pclone_node ?args = Some ?args" by (simp add: int_node_def wrap_value_def)
  have r: "astools_proto_request demo_wire demo_tool (hd (m_commands demo_tool)) ?args ''u'' 0 4096 ?eff ''/ws'' ''/tmp'' = Inr (''r'' @ [CHR 0x0A])"
    unfolding astools_proto_request_def c option.case doc_compact_line_def demo_request_doc_def [symmetric]
    using demo_docs_distinct by (auto simp: demo_wire_def)
  have "m_id demo_tool = ''demo''" by (simp add: demo_tool_def)
  with proto_request_read [OF demo_wire_ok r c _ _ demo_back(3) [unfolded demo_request_doc_def]] r show ?thesis
    by (simp add: SIZE_MAX_def)
qed

section \<open>The response of a tool, read by the library\<close>

lemma response_entries_ok:
  "response_entries (Some ident) True (Some v) c msg =
     Some (entries_in [(''protocol'', int_node 1), (''invocation_id'', wrap_value (XUuid (Some ident))), (''ok'', bool_node True), (''result'', wrap_value v)])"
  by (simp add: response_entries_def astd_set_val_def astd_set_int_def astd_set_bool_def int_node_def bool_node_def wrap_value_def)

lemma response_entries_fail:
  "response_entries (Some ident) False pl (Some code) (Some msg) =
     Some (entries_in [(''protocol'', int_node 1), (''invocation_id'', wrap_value (XUuid (Some ident))), (''ok'', bool_node False),
       (''error'', wrap_value (XObject (entries_in [(''code'', str_node code), (''message'', str_node msg), (''retriable'', bool_node False)])))])"
  by (simp add: response_entries_def astd_set_val_def astd_set_int_def astd_set_str_def astd_set_bool_def int_node_def bool_node_def
      wrap_value_def str_node_def val_string_def Let_def)

text \<open>The common part of reading a response.\<close>

lemma parse_response_fields:
  assumes x: "xcdn_ok (w_x w)" and parse: "x_parse (w_x w) s = Some [Some (XNode [Some ''tool_response''] [] (Some (XObject (entries_in fs))))]"
    and fs: "dkeys fs" "map_of fs ''protocol'' = Some (int_node 1)" "map_of fs ''invocation_id'' = Some (wrap_value (XUuid (Some ident)))"
      "map_of fs ''ok'' = Some (bool_node b)" and ident: "ident \<noteq> []"
  shows "astools_proto_parse_response w (Some s) (Some ident) = response_outcome w (entries_in fs) ident b"
proof -
  have f: "xf (w_x w) (entries_in fs) k = map_of fs k" for k by (rule look_fields [OF x fs(1)])
  have "node_object (first_tagged ''tool_response'' [Some (XNode [Some ''tool_response''] [] (Some (XObject (entries_in fs))))]) = Some (entries_in fs)"
    by (simp add: first_tagged_def node_tagged_def node_object_def)
  then show ?thesis
    using ident by (simp only: astools_proto_parse_response_def parse option.case f fs)
      (simp add: node_int_def node_id_string_def node_bool_def int_node_def bool_node_def wrap_value_def)
qed

text \<open>
  C39: What a tool of the kit reports is what the library gets: a result arrives as its compact text, and a failure with its
  code and the first 1023 characters of its message.
\<close>

theorem sdk_response_read:
  assumes "xcdn_ok (w_x w)" "ident \<noteq> []"
    and "\<And>es. response_entries (Some ident) True (Some v) None None = Some es \<or>
        response_entries (Some ident) False None (Some code) (Some (take 1023 msg)) = Some es \<Longrightarrow>
      line_back w (response_doc es) \<and> w_compact w (response_doc es) \<noteq> None"
    and "astools_xcdn_write_node w (Some (wrap_value v)) False = Some result" "code \<noteq> []"
  shows "astools_proto_parse_response w (Some (astd_ok w (Some ident) (Some v))) (Some ident) =
      Inr \<lparr>rs_ok = True, rs_result_xcdn = Some result, rs_error_code = None, rs_error_message = None, rs_id = ident\<rparr> \<and>
    astools_proto_parse_response w (Some (astd_fail w (Some ident) (Some code) msg)) (Some ident) =
      Inr \<lparr>rs_ok = False, rs_result_xcdn = None, rs_error_code = Some code, rs_error_message = Some (take 1023 msg), rs_id = ident\<rparr>"
proof -
  have again: "x_parse (w_x w) (case w_compact w (XNode [Some ''tool_response''] [] (Some (XObject es))) of None \<Rightarrow> fallback_text | Some out \<Rightarrow> out @ [CHR 0x0A]) =
      Some [Some (XNode [Some ''tool_response''] [] (Some (XObject es)))]"
    if "response_entries (Some ident) True (Some v) None None = Some es \<or>
        response_entries (Some ident) False None (Some code) (Some (take 1023 msg)) = Some es" for es
    using assms(3) [OF that] by (auto simp: line_back_def response_doc_def)
  have "astools_proto_parse_response w (Some (astd_ok w (Some ident) (Some v))) (Some ident) =
      Inr \<lparr>rs_ok = True, rs_result_xcdn = Some result, rs_error_code = None, rs_error_message = None, rs_id = ident\<rparr>"
  proof -
    let ?fs = "[(''protocol'', int_node 1), (''invocation_id'', wrap_value (XUuid (Some ident))), (''ok'', bool_node True), (''result'', wrap_value v)]"
    have dk: "dkeys ?fs" by (simp add: dkeys_def)
    have "astools_proto_parse_response w (Some (astd_ok w (Some ident) (Some v))) (Some ident) = response_outcome w (entries_in ?fs) ident True"
      unfolding astd_ok_def emit_response_def if_not_P [OF option.distinct(2)] response_entries_ok option.case(2)
      by (rule parse_response_fields [OF assms(1) again dk _ _ _ assms(2)]) (simp_all add: response_entries_ok del: list.map)
    moreover have "xf (w_x w) (entries_in ?fs) ''result'' = Some (wrap_value v)"
      by (subst look_fields [OF assms(1) dk]) simp
    ultimately show ?thesis using assms(4) by (simp add: response_outcome_def del: list.map)
  qed
  moreover have "astools_proto_parse_response w (Some (astd_fail w (Some ident) (Some code) msg)) (Some ident) =
      Inr \<lparr>rs_ok = False, rs_result_xcdn = None, rs_error_code = Some code, rs_error_message = Some (take 1023 msg), rs_id = ident\<rparr>"
  proof -
    let ?efs = "[(''code'', str_node code), (''message'', str_node (take 1023 msg)), (''retriable'', bool_node False)]"
    let ?fs = "[(''protocol'', int_node 1), (''invocation_id'', wrap_value (XUuid (Some ident))), (''ok'', bool_node False),
       (''error'', wrap_value (XObject (entries_in ?efs)))]"
    have dk: "dkeys ?fs" "dkeys ?efs" by (simp_all add: dkeys_def)
    have "astools_proto_parse_response w (Some (astd_fail w (Some ident) (Some code) msg)) (Some ident) = response_outcome w (entries_in ?fs) ident False"
      unfolding astd_fail_def emit_response_def response_entries_fail option.case(2)
      by (rule parse_response_fields [OF assms(1) again dk(1) _ _ _ assms(2)]) (simp_all add: response_entries_fail del: list.map)
    moreover have "xf (w_x w) (entries_in ?fs) ''error'' = Some (wrap_value (XObject (entries_in ?efs)))"
      by (subst look_fields [OF assms(1) dk(1)]) simp
    moreover have "xf (w_x w) (entries_in ?efs) ''code'' = Some (str_node code)" "xf (w_x w) (entries_in ?efs) ''message'' = Some (str_node (take 1023 msg))"
      "xf (w_x w) (entries_in ?efs) ''retriable'' = Some (bool_node False)"
      by (subst look_fields [OF assms(1) dk(2)], simp)+
    ultimately show ?thesis using assms(5)
      by (simp add: response_outcome_def node_object_def node_str_def node_bool_def str_node_def bool_node_def wrap_value_def val_string_def del: list.map)
  qed
  ultimately show ?thesis by simp
qed

theorem sdk_response_read_witness:
  "rs_result_xcdn (projr (astools_proto_parse_response demo_wire (Some (astd_ok demo_wire (Some ''u'') (Some (XInt 7)))) (Some ''u''))) = Some ''c'' \<and>
   rs_error_message (projr (astools_proto_parse_response demo_wire (Some (astd_fail demo_wire (Some ''u'') (Some ''fs/io'') ''gone'')) (Some ''u''))) = Some ''gone''"
proof -
  have entries: "response_doc es \<in> {demo_ok_doc, demo_fail_doc}"
    if "response_entries (Some ''u'') True (Some (XInt 7)) None None = Some es \<or>
      response_entries (Some ''u'') False None (Some ''fs/io'') (Some (take 1023 ''gone'')) = Some es" for es
    using that unfolding response_entries_ok response_entries_fail demo_ok_doc_def demo_fail_doc_def by (simp del: list.map) blast
  have "line_back demo_wire (response_doc es) \<and> w_compact demo_wire (response_doc es) \<noteq> None"
    if "response_entries (Some ''u'') True (Some (XInt 7)) None None = Some es \<or>
      response_entries (Some ''u'') False None (Some ''fs/io'') (Some (take 1023 ''gone'')) = Some es" for es
    using entries [OF that] demo_back by (auto simp: demo_wire_def)
  moreover have "astools_xcdn_write_node demo_wire (Some (wrap_value (XInt 7))) False = Some ''c''"
    by (simp add: astools_xcdn_write_node_def wrap_value_def demo_wire_def demo_ok_doc_def demo_fail_doc_def demo_request_doc_def
        request_node_fields response_doc_def)
  ultimately have r: "astools_proto_parse_response demo_wire (Some (astd_ok demo_wire (Some ''u'') (Some (XInt 7)))) (Some ''u'') =
      Inr \<lparr>rs_ok = True, rs_result_xcdn = Some ''c'', rs_error_code = None, rs_error_message = None, rs_id = ''u''\<rparr> \<and>
    astools_proto_parse_response demo_wire (Some (astd_fail demo_wire (Some ''u'') (Some ''fs/io'') ''gone'')) (Some ''u'') =
      Inr \<lparr>rs_ok = False, rs_result_xcdn = None, rs_error_code = Some ''fs/io'', rs_error_message = Some (take 1023 ''gone''), rs_id = ''u''\<rparr>"
    by (intro sdk_response_read [OF demo_wire_ok]) simp_all
  then show ?thesis by simp
qed

text \<open>
  C38: The library trusts no answer: a response it accepts is the first tagged object of a document, of protocol version 1,
  carries a nonempty id, the one that is expected if one is, and has either a result or a nonempty error code with a
  message, as its outcome says.
\<close>

theorem proto_response_sound:
  assumes "astools_proto_parse_response w str expect = Inr r"
  shows "rs_id r \<noteq> [] \<and> (expect = None \<or> expect = Some (rs_id r)) \<and>
    (rs_ok r \<longleftrightarrow> rs_result_xcdn r \<noteq> None) \<and> (rs_ok r \<longleftrightarrow> rs_error_code r = None) \<and> (rs_ok r \<longleftrightarrow> rs_error_message r = None) \<and>
    rs_error_code r \<noteq> Some [] \<and>
    (\<exists>s doc es. str = Some s \<and> x_parse (w_x w) s = Some doc \<and> node_object (first_tagged ''tool_response'' doc) = Some es \<and>
       node_int (xf (w_x w) es ''protocol'') = Some 1 \<and> node_bool (xf (w_x w) es ''ok'') = Some (rs_ok r))"
proof -
  obtain s doc es ident okval where p: "str = Some s" "x_parse (w_x w) s = Some doc"
      "node_object (first_tagged ''tool_response'' doc) = Some es"
    and f: "node_int (xf (w_x w) es ''protocol'') = Some 1" "node_id_string (xf (w_x w) es ''invocation_id'') = Some ident"
      "ident \<noteq> []" "\<not> (expect \<noteq> None \<and> expect \<noteq> Some ident)" "node_bool (xf (w_x w) es ''ok'') = Some okval"
    and r: "response_outcome w es ident okval = Inr r"
    using assms unfolding astools_proto_parse_response_def
    by (simp split: option.splits if_splits)
  from r have "rs_id r = ident \<and> rs_ok r = okval \<and> (okval \<longleftrightarrow> rs_result_xcdn r \<noteq> None) \<and> (okval \<longleftrightarrow> rs_error_code r = None) \<and>
      (okval \<longleftrightarrow> rs_error_message r = None) \<and> rs_error_code r \<noteq> Some []"
    unfolding response_outcome_def by (auto split: if_splits option.splits)
  with p f show ?thesis by auto
qed

theorem proto_response_sound_witness:
  "\<exists>r. astools_proto_parse_response demo_wire (Some (''b'' @ [CHR 0x0A])) (Some ''u'') = Inr r \<and> \<not> rs_ok r \<and>
     rs_error_code r \<noteq> None \<and> rs_id r = ''u''"
proof -
  have p: "x_parse (w_x demo_wire) (''b'' @ [CHR 0x0A]) = Some [Some demo_fail_doc]" by (simp add: demo_wire_def)
  let ?efs = "[(''code'', str_node ''fs/io''), (''message'', str_node ''gone''), (''retriable'', bool_node False)]"
  let ?fs = "[(''protocol'', int_node 1), (''invocation_id'', wrap_value (XUuid (Some ''u''))), (''ok'', bool_node False),
       (''error'', wrap_value (XObject (entries_in ?efs)))]"
  have dk: "dkeys ?fs" "dkeys ?efs" by (simp_all add: dkeys_def)
  have "astools_proto_parse_response demo_wire (Some (''b'' @ [CHR 0x0A])) (Some ''u'') = response_outcome demo_wire (entries_in ?fs) ''u'' False"
    by (rule parse_response_fields [OF demo_wire_ok p [unfolded demo_fail_doc_def response_doc_def] dk(1)]) simp_all
  moreover have "xf (w_x demo_wire) (entries_in ?fs) ''error'' = Some (wrap_value (XObject (entries_in ?efs)))"
    by (subst look_fields [OF demo_wire_ok dk(1)]) simp
  moreover have "xf (w_x demo_wire) (entries_in ?efs) ''code'' = Some (str_node ''fs/io'')"
    "xf (w_x demo_wire) (entries_in ?efs) ''message'' = Some (str_node ''gone'')"
    "xf (w_x demo_wire) (entries_in ?efs) ''retriable'' = Some (bool_node False)"
    by (subst look_fields [OF demo_wire_ok dk(2)], simp)+
  ultimately obtain r where r: "astools_proto_parse_response demo_wire (Some (''b'' @ [CHR 0x0A])) (Some ''u'') = Inr r" "\<not> rs_ok r"
    by (simp add: response_outcome_def node_object_def node_str_def node_bool_def str_node_def bool_node_def wrap_value_def val_string_def
        del: list.map)
  from proto_response_sound [OF r(1)] r show ?thesis by auto
qed

section \<open>The codecs against those of the library\<close>

text \<open>The last year of an era begins at day 145731, its March to December ends at day 146036.\<close>

lemma last_year_of_era:
  assumes "0 \<le> k" "k \<le> 399" "doe < year_end k" "146037 \<le> doe"
  shows "k = (399 :: int)"
proof (rule ccontr)
  assume "k \<noteq> 399"
  then have k1: "k + 1 \<le> 399" using assms by simp
  have "(k + 1) div 4 \<le> 399 div 4" using k1 by (intro zdiv_mono1) simp_all
  moreover have "0 \<le> (k + 1) div 100" using assms(1) by (simp add: pos_imp_zdiv_nonneg_iff)
  ultimately have "year_start (k + 1) \<le> 365 * (k + 1) + 99" by (simp add: year_start_def)
  with k1 have "year_start (k + 1) \<le> 146037" by simp
  moreover have "doe < year_start (k + 1)" using assms(3) \<open>k \<noteq> 399\<close> by (simp add: year_end_def)
  ultimately show False using assms(4) by simp
qed

lemma year_out_of_range:
  assumes civ: "civil_from_days (t div 86400) = (y, m, d)" and out: "\<not> time_ok t"
  shows "if t < 0 then y < 0 else 9999 < y"
proof -
  define z where "z = t div 86400 + 719468"
  define era where "era = z div 146097"
  define doe where "doe = z mod 146097"
  have dm: "era * 146097 + doe = z" "0 \<le> doe" "doe < 146097" by (simp_all add: era_def doe_def)
  obtain k where k: "0 \<le> k" "k \<le> 399" "year_start k \<le> doe" "doe < year_end k"
    and md: "month_of_doy (doe - year_start k) = (m, d)"
    and y: "y = era * 400 + k + (if m \<le> 2 then 1 else 0)"
    using civil_parts [OF civ] unfolding era_def doe_def z_def by blast
  have doy: "0 \<le> doe - year_start k" "doe - year_start k \<le> 365"
    using k year_length [OF k(1,2)] by (auto split: if_splits)
  note month = month_of_doy_ok(6) [OF doy md]
  have start: "k = 399 \<Longrightarrow> year_start k = 145731" by (simp add: year_start_def)
  show ?thesis
  proof (cases "t < 0")
    case True
    with out have "t \<le> - 62167219201" by (simp add: time_ok_def)
    then have "t div 86400 \<le> - 62167219201 div 86400" by (rule zdiv_mono1) simp
    then have z: "z \<le> - 61" by (simp add: z_def)
    with dm have "era \<le> - 1" by linarith
    then show ?thesis
    proof (cases "era = - 1")
      case era1: True
      with dm z have "doe \<le> 146036" by linarith
      with era1 y k month start True show ?thesis by (cases "k = 399") auto
    next
      case False
      with \<open>era \<le> - 1\<close> y k True show ?thesis by (auto split: if_splits)
    qed
  next
    case False
    with out have "253402300800 \<le> t" by (simp add: time_ok_def)
    then have "253402300800 div 86400 \<le> t div 86400" by (rule zdiv_mono1) simp
    then have z: "3652365 \<le> z" by (simp add: z_def)
    with dm have "24 \<le> era" by linarith
    then show ?thesis
    proof (cases "era = 24")
      case era24: True
      with dm z have doe: "146037 \<le> doe" by linarith
      from last_year_of_era [OF k(1,2,4) doe] start doe month y era24 False show ?thesis by simp
    next
      case no: False
      with \<open>24 \<le> era\<close> y k False show ?thesis by (auto split: if_splits)
    qed
  qed
qed

lemma two_dec_two: "0 \<le> i \<Longrightarrow> i < 100 \<Longrightarrow> two_dec i = [idigit (i div 10), idigit (i mod 10)]"
proof -
  assume "0 \<le> i" "i < 100"
  then have "i div 10 mod 10 = i div 10" by presburger
  then show ?thesis by (simp add: two_dec_def)
qed

text \<open>
  The kit formats a time exactly as the library does when the time is between the years 0 and 9999, and clamps it to
  the ends of that range otherwise, where the library gives an empty text.
\<close>

theorem sdk_rfc3339_exact:
  "astd_rfc3339 t =
     (if time_ok t then astools_time_format_rfc3339 t
      else if t < 0 then ''0000-01-01T00:00:00Z'' else ''9999-12-31T23:59:59Z'')"
proof -
  obtain y m d where c: "civil_from_days (t div 86400) = (y, m, d)" by (cases "civil_from_days (t div 86400)")
  note days = days_split [of t, unfolded Let_def prod.inject, THEN conjunct1]
    and sods = days_split [of t, unfolded Let_def prod.inject, THEN conjunct2]
  let ?s = "t mod 86400"
  have kit: "astd_rfc3339 t =
    (if y < 0 then ''0000-01-01T00:00:00Z'' else if y > 9999 then ''9999-12-31T23:59:59Z''
     else two_dec (y div 100) @ two_dec y @ ''-'' @ two_dec m @ ''-'' @ two_dec d @ ''T'' @ two_dec (?s sdiv 3600) @ '':'' @
       two_dec ((?s sdiv 60) smod 60) @ '':'' @ two_dec (?s smod 60) @ ''Z'')"
    unfolding astd_rfc3339_def Let_def days sods c prod.case ..
  show ?thesis
  proof (cases "time_ok t")
    case False
    with year_out_of_range [OF c False] show ?thesis unfolding kit by (auto split: if_splits)
  next
    case True
    note y = days_year_bounds [OF True c]
    have v: "1 \<le> m" "m \<le> 12" "1 \<le> d" "d < 100"
      using c days_in_month_eq [of m y] by (auto simp: civil_days_bijection valid_date_def month_days_def split: if_splits)
    have s: "0 \<le> ?s" "?s < 86400" by simp_all
    have q: "0 \<le> ?s div 3600" "?s div 3600 < 100" "0 \<le> ?s div 60" "0 \<le> ?s div 60 mod 60" "?s div 60 mod 60 < 60" "0 \<le> ?s mod 60" "?s mod 60 < 60"
      using s by linarith+
    have eqs: "?s sdiv 3600 = ?s div 3600" "(?s sdiv 60) smod 60 = ?s div 60 mod 60" "?s smod 60 = ?s mod 60"
      by (simp_all only: sdiv_nonneg [OF s(1)] smod_nonneg [OF s(1)] smod_nonneg [OF q(3)] zero_less_numeral)
    have yy: "two_dec (y div 100) = [idigit (y div 1000), idigit (y div 100 mod 10)]"
      "two_dec y = [idigit (y div 10 mod 10), idigit (y mod 10)]"
    proof -
      have "y div 100 div 10 = y div 1000" using zdiv_zmult2_eq [of 10 y 100] by simp
      moreover have "0 \<le> y div 1000" "y div 1000 < 10" using y by linarith+
      ultimately have "y div 100 div 10 mod 10 = y div 1000" by (simp only: mod_pos_pos_trivial)
      then show "two_dec (y div 100) = [idigit (y div 1000), idigit (y div 100 mod 10)]" by (simp only: two_dec_def)
    qed (simp only: two_dec_def)
    have two: "two_dec m = [idigit (m div 10), idigit (m mod 10)]" "two_dec d = [idigit (d div 10), idigit (d mod 10)]"
      "two_dec (?s div 3600) = [idigit (?s div 3600 div 10), idigit (?s div 3600 mod 10)]"
      "two_dec (?s div 60 mod 60) = [idigit (?s div 60 mod 60 div 10), idigit (?s div 60 mod 60 mod 10)]"
      "two_dec (?s mod 60) = [idigit (?s mod 60 div 10), idigit (?s mod 60 mod 10)]"
      by (rule two_dec_two; use v q in linarith)+
    show ?thesis
      unfolding kit eqs time_format_eq [OF c y] Let_def yy if_P [OF True] if_not_P [OF y(1) [folded not_less]] if_not_P [OF y(2) [folded not_less]] two
      by (simp only: append.simps)
  qed
qed

text \<open>The codec of the kit accepts and produces the same texts as the library's.\<close>

lemma sdk_base64_same:
  "astd_base64_encode data = astools_base64_encode data" "astd_base64_decode s = astools_base64_decode s"
  by (simp_all add: astd_base64_encode_def astools_base64_encode_def astd_base64_decode_def astools_base64_decode_def list_ex_iff Let_def)

end
