(* ===== verification/As_Glob.thy ===== *)
theory As_Glob
  imports As_Prelude
begin

text \<open>
  The shell pattern matcher of \<^verbatim>\<open>std/sdk.c\<close>: a loop that remembers the last star and goes back to it when a
  character fails. It is compared with the recursive meaning of a pattern, in which every star may take
  any run of characters without a slash.
\<close>

section \<open>Brackets\<close>

text \<open>The members of a class: ranges of three characters and single characters.\<close>

fun bracket_members :: "char \<Rightarrow> string \<Rightarrow> bool" where
  "bracket_members c (lo # d # hi # m) =
     (if d = CHR ''-'' then (chcode lo \<le> chcode c \<and> chcode c \<le> chcode hi) \<or> bracket_members c m
      else c = lo \<or> bracket_members c (d # hi # m))"
| "bracket_members c (x # m) = (c = x \<or> bracket_members c m)"
| "bracket_members c [] = False"

text \<open>\<open>glob_bracket p ch\<close> for \<open>p\<close> after the opening bracket: whether \<open>ch\<close> matches, and the pattern after the class.\<close>

definition glob_bracket :: "string \<Rightarrow> char \<Rightarrow> bool \<times> string" where
  "glob_bracket body ch =
     (let neg = (cur body = CHR ''!'' \<or> cur body = CHR ''^'');
          p = (if neg then tl body else body);
          first = (if cur p = CHR '']'' then 1 else 0);
          len = first + length (takeWhile (\<lambda>c. c \<noteq> CHR '']'') (drop first p));
          scan = drop len p
      in if scan = [] then (ch = CHR ''['', body)
         else
           let matched = bracket_members ch (take len p);
               matched = (if neg then \<not> matched else matched)
           in (matched \<and> ch \<noteq> CHR ''/'', tl scan))"

text \<open>One position of the pattern that is no star: whether it takes the character, and what follows it.\<close>

definition glob_one :: "string \<Rightarrow> char \<Rightarrow> bool \<times> string" where
  "glob_one p ch =
     (if cur p = CHR ''?'' then (ch \<noteq> CHR ''/'', tl p)
      else if cur p = CHR ''['' then glob_bracket (tl p) ch
      else (p \<noteq> [] \<and> cur p = ch, tl p))"

section \<open>The loop\<close>

partial_function (option) glob_loop :: "string \<Rightarrow> string \<Rightarrow> (string \<times> string) option \<Rightarrow> bool option" where
  "glob_loop p s star =
     (if s = [] then Some (dropWhile (\<lambda>c. c = CHR ''*'') p = [])
      else if cur p = CHR ''*'' then glob_loop (tl p) s (Some (p, s))
      else
        let (ok, np) = glob_one p (cur s) in
        if ok then glob_loop np (tl s) star
        else (case star of
            None \<Rightarrow> Some False
          | Some (star_p, star_s) \<Rightarrow>
              if cur star_s \<noteq> CHR ''/'' then glob_loop (tl star_p) (tl star_s) (Some (star_p, tl star_s))
              else Some False))"

definition last_component :: "string \<Rightarrow> string" where
  "last_component path = (if CHR ''/'' \<in> set path then rev (takeWhile (\<lambda>c. c \<noteq> CHR ''/'') (rev path)) else path)"

definition astd_glob_match :: "string option \<Rightarrow> string option \<Rightarrow> bool option" where
  "astd_glob_match pattern path =
     (case (pattern, path) of
        (Some p, Some s) \<Rightarrow> glob_loop p (if CHR ''/'' \<notin> set p then last_component s else s) None
      | _ \<Rightarrow> Some False)"

section \<open>The meaning of a pattern\<close>

lemma bracket_shorter: "length (snd (glob_bracket body ch)) \<le> length body"
proof -
  have "length (tl (drop k (if b then tl body else body))) \<le> length body" for k b
    by (cases b) (auto simp: length_tl)
  then show ?thesis by (simp add: glob_bracket_def Let_def)
qed

lemma glob_one_shorter: "p \<noteq> [] \<Longrightarrow> length (snd (glob_one p ch)) < length p"
  using bracket_shorter [of "tl p" ch] by (cases p) (auto simp: glob_one_def)

text \<open>What follows a position does not depend on the character.\<close>

lemma glob_one_rest: "snd (glob_one p c) = snd (glob_one p d)"
  by (simp add: glob_one_def glob_bracket_def Let_def)

function glob :: "string \<Rightarrow> string \<Rightarrow> bool" where
  "glob p s =
     (if p = [] then s = []
      else if cur p = CHR ''*'' then (if glob (tl p) s then True else if s = [] \<or> cur s = CHR ''/'' then False else glob p (tl s))
      else if s = [] then False
      else if fst (glob_one p (cur s)) then glob (snd (glob_one p (cur s))) (tl s)
      else False)"
  by pat_completeness auto
termination
proof (relation "measure (\<lambda>(p, s). length p + length s)", goal_cases)
  case (2 p s)
  then show ?case by (cases p) auto
next
  case (3 p s)
  then show ?case by (cases s) auto
next
  case (4 p s)
  then show ?case using glob_one_shorter [of p "cur s"] by (cases s) auto
qed simp

declare glob.simps [simp del]

text \<open>Only the position for the slash takes the slash, and it takes nothing else.\<close>

lemma glob_one_slash: "fst (glob_one p (CHR ''/'')) \<Longrightarrow> fst (glob_one p c) \<Longrightarrow> c = CHR ''/''"
  by (auto simp: glob_one_def glob_bracket_def Let_def split: if_splits)

lemma glob_star: "p \<noteq> [] \<Longrightarrow> cur p = CHR ''*'' \<Longrightarrow>
  glob p s \<longleftrightarrow> glob (tl p) s \<or> (s \<noteq> [] \<and> cur s \<noteq> CHR ''/'' \<and> glob p (tl s))"
  by (subst glob.simps) simp

lemma glob_plain: "p \<noteq> [] \<Longrightarrow> cur p \<noteq> CHR ''*'' \<Longrightarrow>
  glob p s \<longleftrightarrow> s \<noteq> [] \<and> fst (glob_one p (cur s)) \<and> glob (snd (glob_one p (cur s))) (tl s)"
  by (subst glob.simps) simp

lemma cur_star: "cur p = CHR ''*'' \<Longrightarrow> p \<noteq> []"
  by (auto simp: NUL_def)

lemma glob_nothing: "glob p [] \<longleftrightarrow> dropWhile (\<lambda>c. c = CHR ''*'') p = []"
proof (induction p)
  case Nil
  show ?case by (simp add: glob.simps [of "[]"])
next
  case (Cons c p)
  show ?case
  proof (cases "c = CHR ''*''")
    case True
    with Cons show ?thesis using glob_star [of "c # p" "[]"] by simp
  next
    case False
    then show ?thesis using glob_plain [of "c # p" "[]"] by simp
  qed
qed

text \<open>A star takes any run without a slash.\<close>

lemma glob_star_runs:
  "cur p = CHR ''*'' \<Longrightarrow> glob p s \<longleftrightarrow>
    (\<exists>j \<le> length s. (\<forall>i < j. s ! i \<noteq> CHR ''/'') \<and> glob (tl p) (drop j s))"
proof (induction s)
  case Nil
  then show ?case using glob_star [OF cur_star, of p "[]"] by simp
next
  case (Cons c s)
  have "(\<exists>j \<le> length (c # s). (\<forall>i < j. (c # s) ! i \<noteq> CHR ''/'') \<and> glob (tl p) (drop j (c # s))) \<longleftrightarrow>
      glob (tl p) (c # s) \<or> (c \<noteq> CHR ''/'' \<and> (\<exists>j \<le> length s. (\<forall>i < j. s ! i \<noteq> CHR ''/'') \<and> glob (tl p) (drop j s)))"
    (is "(\<exists>j \<le> _. ?P j) \<longleftrightarrow> ?R")
  proof
    assume "\<exists>j \<le> length (c # s). ?P j"
    then obtain j where "j \<le> length (c # s)" "?P j" by blast
    then show ?R by (cases j) (auto simp: All_less_Suc2)
  next
    assume r: ?R
    then show "\<exists>j \<le> length (c # s). ?P j"
    proof
      assume "glob (tl p) (c # s)"
      then show ?thesis by (intro exI [of _ 0]) simp
    next
      assume "c \<noteq> CHR ''/'' \<and> (\<exists>j \<le> length s. (\<forall>i < j. s ! i \<noteq> CHR ''/'') \<and> glob (tl p) (drop j s))"
      then obtain j where "c \<noteq> CHR ''/''" "j \<le> length s" "\<forall>i < j. s ! i \<noteq> CHR ''/''" "glob (tl p) (drop j s)" by blast
      then show ?thesis by (intro exI [of _ "Suc j"]) (auto simp: All_less_Suc2)
    qed
  qed
  with Cons show ?case using glob_star [OF cur_star, of p "c # s"] by simp
qed

section \<open>Runs between stars\<close>

text \<open>The positions a run of the loop takes after a star, each with one character.\<close>

fun advance :: "nat \<Rightarrow> string \<Rightarrow> string \<Rightarrow> (string \<times> string) option" where
  "advance 0 p s = Some (p, s)"
| "advance (Suc n) p s =
     (if p = [] \<or> cur p = CHR ''*'' \<or> s = [] \<or> \<not> fst (glob_one p (cur s)) then None
      else advance n (snd (glob_one p (cur s))) (tl s))"

lemma advance_lengths:
  "advance n p s = Some (p', s') \<Longrightarrow> length p' \<le> length p \<and> s' = drop n s \<and> n \<le> length s"
proof (induction n arbitrary: p s)
  case (Suc n)
  then have ne: "p \<noteq> []" "s \<noteq> []" "advance n (snd (glob_one p (cur s))) (tl s) = Some (p', s')"
    by (auto split: if_splits)
  from Suc.IH [OF ne(3)] glob_one_shorter [OF ne(1), of "cur s"] ne(2) show ?case
    by (cases s) auto
qed simp

lemma advance_snoc:
  "advance n p s = Some (p', s') \<Longrightarrow> p' \<noteq> [] \<Longrightarrow> cur p' \<noteq> CHR ''*'' \<Longrightarrow> s' \<noteq> [] \<Longrightarrow> fst (glob_one p' (cur s')) \<Longrightarrow>
   advance (Suc n) p s = Some (snd (glob_one p' (cur s')), tl s')"
proof (induction n arbitrary: p s)
  case (Suc n)
  then have ne: "\<not> (p = [] \<or> cur p = CHR ''*'' \<or> s = [] \<or> \<not> fst (glob_one p (cur s)))"
    "advance n (snd (glob_one p (cur s))) (tl s) = Some (p', s')"
    by (auto split: if_splits)
  from Suc.IH [OF ne(2)] Suc.prems have "advance (Suc n) (snd (glob_one p (cur s))) (tl s) = Some (snd (glob_one p' (cur s')), tl s')"
    by blast
  with ne(1) show ?case by (simp only: advance.simps(2) [of "Suc n"] if_False)
qed auto

text \<open>A pattern that starts with these positions matches another text only by the same positions.\<close>

lemma advance_glob:
  "advance n q s = Some (p, s') \<Longrightarrow> glob q u \<Longrightarrow> advance n q u = Some (p, drop n u) \<and> glob p (drop n u)"
proof (induction n arbitrary: q s u)
  case (Suc n)
  then have ne: "q \<noteq> []" "cur q \<noteq> CHR ''*''" "advance n (snd (glob_one q (cur s))) (tl s) = Some (p, s')"
    by (auto split: if_splits)
  with Suc.prems(2) have u: "u \<noteq> []" "fst (glob_one q (cur u))" "glob (snd (glob_one q (cur u))) (tl u)"
    by (simp_all add: glob_plain)
  have "snd (glob_one q (cur u)) = snd (glob_one q (cur s))" by (rule glob_one_rest)
  with Suc.IH [OF ne(3)] u(3) have "advance n (snd (glob_one q (cur u))) (tl u) = Some (p, drop n (tl u)) \<and> glob p (drop n (tl u))"
    by simp
  with ne u show ?case by (simp add: drop_Suc)
qed simp

lemma advance_slashes:
  "advance n q s = Some (p, s') \<Longrightarrow> advance n q u = Some (p, u') \<Longrightarrow> i < n \<Longrightarrow> s ! i = CHR ''/'' \<longleftrightarrow> u ! i = CHR ''/''"
proof (induction n arbitrary: q s u i)
  case (Suc n)
  then have s: "s \<noteq> []" "fst (glob_one q (cur s))" "advance n (snd (glob_one q (cur s))) (tl s) = Some (p, s')"
    and u: "u \<noteq> []" "fst (glob_one q (cur u))" "advance n (snd (glob_one q (cur u))) (tl u) = Some (p, u')"
    by (auto split: if_splits)
  have rest: "snd (glob_one q (cur u)) = snd (glob_one q (cur s))" by (rule glob_one_rest)
  show ?case
  proof (cases i)
    case 0
    have "cur s = CHR ''/'' \<longleftrightarrow> cur u = CHR ''/''" using s(2) u(2) glob_one_slash by metis
    with 0 s(1) u(1) show ?thesis by (cases s; cases u) simp_all
  next
    case (Suc k)
    have "tl s ! k = CHR ''/'' \<longleftrightarrow> tl u ! k = CHR ''/''"
      using Suc.IH [OF s(3) u(3) [unfolded rest], of k] \<open>i < Suc n\<close> Suc by simp
    with Suc s(1) u(1) show ?thesis by (cases s; cases u) simp_all
  qed
qed simp

section \<open>The loop and the meaning\<close>

lemma glob_star_skip:
  assumes "cur p = CHR ''*''" "glob p (drop k s)" "k \<le> length s" "\<And>i. i < k \<Longrightarrow> s ! i \<noteq> CHR ''/''"
  shows "glob p s"
  using assms
proof (induction k arbitrary: s)
  case (Suc k)
  then obtain c s' where s: "s = c # s'" by (cases s) auto
  have "glob p s'"
  proof (rule Suc.IH)
    show "s' ! i \<noteq> CHR ''/''" if "i < k" for i using Suc.prems(4) [of "Suc i"] that s by simp
  qed (use Suc.prems s in simp_all)
  with s Suc.prems(4) [of 0] glob_star [OF cur_star, of p s] Suc.prems(1) show ?case by simp
qed simp

text \<open>What going back to the last star would still find.\<close>

fun retry :: "(string \<times> string) option \<Rightarrow> bool" where
  "retry None = False"
| "retry (Some (sp, ss)) = (ss \<noteq> [] \<and> cur ss \<noteq> CHR ''/'' \<and> glob sp (tl ss))"

fun star_inv :: "string \<Rightarrow> string \<Rightarrow> (string \<times> string) option \<Rightarrow> bool" where
  "star_inv p s None = True"
| "star_inv p s (Some (sp, ss)) = (cur sp = CHR ''*'' \<and> (\<exists>n. advance n (tl sp) ss = Some (p, s)))"

lemma retry_runs:
  assumes "cur sp = CHR ''*''" "advance n (tl sp) ss = Some (p, s)" "retry (Some (sp, ss))"
  obtains k where "0 < k" "k + n \<le> length ss" "\<And>i. i < k \<Longrightarrow> ss ! i \<noteq> CHR ''/''"
    "advance n (tl sp) (drop k ss) = Some (p, drop (n + k) ss)" "glob p (drop (n + k) ss)"
proof -
  obtain c ss' where ss: "ss = c # ss'" using assms(3) by (cases ss) auto
  with assms(3) have r: "c \<noteq> CHR ''/''" "glob sp ss'" by simp_all
  from r(2) assms(1) obtain j where j: "j \<le> length ss'" "\<forall>i < j. ss' ! i \<noteq> CHR ''/''" "glob (tl sp) (drop j ss')"
    using glob_star_runs by blast
  from advance_glob [OF assms(2) j(3)]
  have a: "advance n (tl sp) (drop j ss') = Some (p, drop (n + j) ss')" "glob p (drop (n + j) ss')" by (simp_all add: drop_drop)
  show thesis
  proof
    show "Suc j + n \<le> length ss" using advance_lengths [OF a(1)] j(1) ss by auto
    show "ss ! i \<noteq> CHR ''/''" if "i < Suc j" for i using that ss r(1) j(2) by (cases i) auto
    show "advance n (tl sp) (drop (Suc j) ss) = Some (p, drop (n + Suc j) ss)" using a(1) ss by simp
    show "glob p (drop (n + Suc j) ss)" using a(2) ss by simp
  qed simp
qed

text \<open>At the end of the text, going back finds nothing.\<close>

lemma retry_end: "star_inv p [] star \<Longrightarrow> \<not> retry star"
proof (cases star)
  case (Some st)
  obtain sp ss where st: "st = (sp, ss)" by (cases st)
  assume "star_inv p [] star"
  with Some st obtain n where a: "cur sp = CHR ''*''" "advance n (tl sp) ss = Some (p, [])" by auto
  show ?thesis
  proof
    assume "retry star"
    with Some st have "retry (Some (sp, ss))" by simp
    from retry_runs [OF a this] obtain k where "0 < k" "k + n \<le> length ss" by metis
    with advance_lengths [OF a(2)] show False by auto
  qed
qed simp

text \<open>At a later star, going back to the earlier one finds nothing that the later one does not.\<close>

lemma retry_later:
  assumes "star_inv p s star" "cur p = CHR ''*''" "retry star"
  shows "glob p s"
proof -
  obtain sp ss n where star: "star = Some (sp, ss)" and a: "cur sp = CHR ''*''" "advance n (tl sp) ss = Some (p, s)"
    using assms(1, 3) by (cases star) auto
  from retry_runs [OF a] assms(3) star obtain k where k: "0 < k" "k + n \<le> length ss" "\<And>i. i < k \<Longrightarrow> ss ! i \<noteq> CHR ''/''"
    "advance n (tl sp) (drop k ss) = Some (p, drop (n + k) ss)" "glob p (drop (n + k) ss)" by metis
  have s: "s = drop n ss" using advance_lengths [OF a(2)] by simp
  have clean: "ss ! i \<noteq> CHR ''/''" if "i < n + k" for i
    using that
  proof (induction i rule: less_induct)
    case (less i)
    show ?case
    proof (cases "i < k")
      case False
      with less.prems have "i - k < n" by simp
      from advance_slashes [OF a(2) k(4) this] have "ss ! (i - k) = CHR ''/'' \<longleftrightarrow> ss ! i = CHR ''/''"
        using False k(2) by (simp add: nth_drop)
      with less.IH [of "i - k"] False less.prems k(1) show ?thesis by auto
    qed (use k(3) in blast)
  qed
  show ?thesis
  proof (rule glob_star_skip [OF assms(2), of k])
    show "glob p (drop k s)" using k(5) s by (simp add: add.commute)
    show "k \<le> length s" using k(2) s by simp
    show "s ! i \<noteq> CHR ''/''" if "i < k" for i using clean [of "n + i"] that s k(2) by simp
  qed
qed

definition loop_size :: "string \<Rightarrow> string \<Rightarrow> (string \<times> string) option \<Rightarrow> nat \<times> nat \<times> nat" where
  "loop_size p s star =
     (case star of None \<Rightarrow> (Suc (length p), 0, length s) | Some (sp, ss) \<Rightarrow> (length sp, length ss, length s))"

lemma glob_loop_step:
  "s = [] \<Longrightarrow> glob_loop p s star = Some (dropWhile (\<lambda>c. c = CHR ''*'') p = [])"
  "s \<noteq> [] \<Longrightarrow> cur p = CHR ''*'' \<Longrightarrow> glob_loop p s star = glob_loop (tl p) s (Some (p, s))"
  "s \<noteq> [] \<Longrightarrow> cur p \<noteq> CHR ''*'' \<Longrightarrow> fst (glob_one p (cur s)) \<Longrightarrow>
    glob_loop p s star = glob_loop (snd (glob_one p (cur s))) (tl s) star"
  "s \<noteq> [] \<Longrightarrow> cur p \<noteq> CHR ''*'' \<Longrightarrow> \<not> fst (glob_one p (cur s)) \<Longrightarrow>
    glob_loop p s star = (case star of None \<Rightarrow> Some False
      | Some (sp, ss) \<Rightarrow> if cur ss \<noteq> CHR ''/'' then glob_loop (tl sp) (tl ss) (Some (sp, tl ss)) else Some False)"
  by (subst glob_loop.simps; simp add: case_prod_beta Let_def)+

lemma glob_one_ne: "fst (glob_one p c) \<Longrightarrow> p \<noteq> []"
  by (auto simp: glob_one_def NUL_def split: if_splits)

lemma loop_wf: "wf (less_than <*lex*> less_than <*lex*> less_than)"
  by (intro wf_lex_prod wf_less_than)

lemma glob_loop_exact: "star_inv p s star \<Longrightarrow> glob_loop p s star = Some (glob p s \<or> retry star)"
proof (induction "loop_size p s star" arbitrary: p s star
    rule: wf_induct_rule [OF loop_wf])
  case (1 p s star)
  consider "s = []" | "s \<noteq> []" "cur p = CHR ''*''"
    | "s \<noteq> []" "cur p \<noteq> CHR ''*''" "fst (glob_one p (cur s))"
    | "s \<noteq> []" "cur p \<noteq> CHR ''*''" "\<not> fst (glob_one p (cur s))" by blast
  then show ?case
  proof cases
    case done_: 1
    then show ?thesis using retry_end 1(2) by (simp add: glob_loop_step glob_nothing)
  next
    case star_next: 2
    have "length p < length sp" if "star = Some (sp, ss)" for sp ss
    proof -
      from that 1(2) obtain n where "cur sp = CHR ''*''" "advance n (tl sp) ss = Some (p, s)" by auto
      then have "sp \<noteq> []" "length p \<le> length (tl sp)" using cur_star advance_lengths by blast+
      then show ?thesis by (cases sp) auto
    qed
    then have "(loop_size (tl p) s (Some (p, s)), loop_size p s star) \<in> less_than <*lex*> less_than <*lex*> less_than"
      by (cases star) (auto simp: loop_size_def)
    from 1(1) [OF this] star_next have "glob_loop p s star = Some (glob (tl p) s \<or> retry (Some (p, s)))"
      by (simp add: glob_loop_step exI [of _ 0])
    then show ?thesis using retry_later [OF 1(2) star_next(2)] star_next glob_star [OF cur_star, of p s] by auto
  next
    case 3
    note ne = glob_one_ne [OF 3(3)]
    have shorter: "length (snd (glob_one p (cur s))) < length p" by (rule glob_one_shorter [OF ne])
    have "star_inv (snd (glob_one p (cur s))) (tl s) star"
    proof (cases star)
      case (Some st)
      obtain sp ss where st: "st = (sp, ss)" by (cases st)
      with Some 1(2) obtain n where n: "cur sp = CHR ''*''" "advance n (tl sp) ss = Some (p, s)" by auto
      from n(1) advance_snoc [OF n(2) ne 3(2) 3(1) 3(3)] show ?thesis
        unfolding Some st star_inv.simps by blast
    qed simp
    moreover have "(loop_size (snd (glob_one p (cur s))) (tl s) star, loop_size p s star) \<in> less_than <*lex*> less_than <*lex*> less_than"
      using shorter 3(1) by (cases star) (auto simp: loop_size_def)
    ultimately show ?thesis using 1(1) 3 glob_plain [OF ne 3(2), of s] by (simp add: glob_loop_step)
  next
    case 4
    have no: "\<not> glob p s"
    proof (cases "p = []")
      case True
      then show ?thesis using 4 by (simp add: glob.simps [of "[]" s])
    next
      case False
      then show ?thesis using 4 glob_plain [OF False, of s] by simp
    qed
    show ?thesis
    proof (cases star)
      case None
      then show ?thesis using 4 no by (simp add: glob_loop_step)
    next
      case (Some st)
      obtain sp ss where st: "st = (sp, ss)" by (cases st)
      have sp: "cur sp = CHR ''*''" and ss: "ss \<noteq> []" using 1(2) Some st 4(1) advance_lengths by fastforce+
      show ?thesis
      proof (cases "cur ss = CHR ''/''")
        case True
        then show ?thesis using 4 no Some st by (simp add: glob_loop_step)
      next
        case False
        have "(loop_size (tl sp) (tl ss) (Some (sp, tl ss)), loop_size p s star) \<in> less_than <*lex*> less_than <*lex*> less_than"
          using ss Some st by (auto simp: loop_size_def)
        from 1(1) [OF this] sp have "glob_loop (tl sp) (tl ss) (Some (sp, tl ss)) = Some (glob (tl sp) (tl ss) \<or> retry (Some (sp, tl ss)))"
          by (simp add: exI [of _ 0])
        with glob_star [OF cur_star [OF sp] sp, of "tl ss"] have "glob_loop (tl sp) (tl ss) (Some (sp, tl ss)) = Some (glob sp (tl ss))" by simp
        with False ss 4 no Some st show ?thesis by (simp add: glob_loop_step)
      qed
    qed
  qed
qed

text \<open>
  C40: \<open>astd_glob_match\<close> always returns, and says whether the pattern matches: a star takes any run of characters
  without a slash, a question mark and a class one character that is no slash, every other character itself. A
  pattern without a slash is matched with the last component of the path. Going back only to the last star
  loses no match.
\<close>

theorem glob_match_exact:
  "astd_glob_match (Some pattern) (Some path) =
     Some (glob pattern (if CHR ''/'' \<notin> set pattern then last_component path else path))"
  by (simp add: astd_glob_match_def glob_loop_exact)

end
