(* ===== verification/As_Patch.thy ===== *)
theory As_Patch
  imports As_Prelude
begin

text \<open>
  The text level of \<^verbatim>\<open>std/tool_edit.c\<close>: line endings, lines, and unified diffs - the lines of a patch, its headers
  and hunks, where a hunk applies and what it makes of a file. Contents are texts that may hold any character;
  memory suffices.
\<close>

section \<open>Line endings\<close>

abbreviation nl :: char where "nl \<equiv> CHR 0x0A"
abbreviation cr :: char where "cr \<equiv> CHR 0x0D"

text \<open>The numbers of CRLF and of bare LF; the flag says whether the character before was a CR.\<close>

fun count_endings :: "bool \<Rightarrow> string \<Rightarrow> nat \<times> nat" where
  "count_endings after_cr [] = (0, 0)"
| "count_endings after_cr (c # s) =
     (case count_endings (c = cr) s of (x, l) \<Rightarrow> if c = nl then (if after_cr then (Suc x, l) else (x, Suc l)) else (x, l))"

fun drop_cr :: "string \<Rightarrow> string" where
  "drop_cr [] = []"
| "drop_cr [c] = [c]"
| "drop_cr (c # d # s) = (if c = cr \<and> d = nl then drop_cr (d # s) else c # drop_cr (d # s))"

definition normalize_lf :: "string \<Rightarrow> string \<times> bool" where
  "normalize_lf raw = (drop_cr raw, case count_endings False raw of (x, l) \<Rightarrow> x > l)"

definition denorm :: "string \<Rightarrow> bool \<Rightarrow> string" where
  "denorm s crlf = (if crlf then concat (map (\<lambda>c. if c = nl then [cr, nl] else [c]) s) else s)"

section \<open>Lines\<close>

lemma tl_dropWhile_shorter: "s \<noteq> [] \<Longrightarrow> length (tl (dropWhile P s)) < length s"
proof -
  assume "s \<noteq> []"
  then have "0 < length s" by simp
  moreover have "length (dropWhile P s) \<le> length s" by (rule length_dropWhile_le)
  ultimately show ?thesis unfolding length_tl by linarith
qed

text \<open>\<open>split_spans\<close>: an unterminated last piece is a line, the empty piece after a last newline is not.\<close>

function split_spans :: "string \<Rightarrow> string list" where
  "split_spans s = (if s = [] then [] else takeWhile (\<lambda>c. c \<noteq> nl) s # split_spans (tl (dropWhile (\<lambda>c. c \<noteq> nl) s)))"
  by pat_completeness auto
termination
  by (relation "measure length") (simp_all add: tl_dropWhile_shorter del: length_tl)

declare split_spans.simps [simp del]

text \<open>Lines joined again, the last one with a newline or without.\<close>

fun join_lines :: "string list \<Rightarrow> bool \<Rightarrow> string" where
  "join_lines [] final = []"
| "join_lines [l] final = l @ (if final then [nl] else [])"
| "join_lines (l # m # ls) final = l @ nl # join_lines (m # ls) final"

definition had_nl :: "string \<Rightarrow> bool" where
  "had_nl s \<longleftrightarrow> s \<noteq> [] \<and> last s = nl"

section \<open>The lines and names of a patch\<close>

definition trim_cr :: "string \<Rightarrow> string" where
  "trim_cr l = (if l \<noteq> [] \<and> last l = cr then butlast l else l)"

function patch_pieces :: "string \<Rightarrow> string list" where
  "patch_pieces s =
     (let l = takeWhile (\<lambda>c. c \<noteq> nl) s; r = dropWhile (\<lambda>c. c \<noteq> nl) s
      in if r = [] then [l] else trim_cr l # patch_pieces (tl r))"
  by pat_completeness auto
termination
proof (relation "measure length", goal_cases)
  case (2 s l r)
  then have "s \<noteq> []" by auto
  then show ?case using 2 by (simp add: tl_dropWhile_shorter del: length_tl)
qed simp

declare patch_pieces.simps [simp del]

definition patch_lines :: "string \<Rightarrow> string list" where
  "patch_lines ptext = (let ls = patch_pieces ptext in if last ls = [] then butlast ls else ls)"

definition starts_with :: "string \<Rightarrow> string \<Rightarrow> bool" where
  "starts_with s pfx \<longleftrightarrow> take (length pfx) s = pfx"

definition path_field :: "string \<Rightarrow> string" where
  "path_field s = takeWhile (\<lambda>c. c \<noteq> CHR 0x09) s"

text \<open>Leading components are dropped at their slash; what is left must be relative, without a component of two dots.\<close>

primrec strip_slashes :: "nat \<Rightarrow> string \<Rightarrow> string option" where
  "strip_slashes 0 q = Some q"
| "strip_slashes (Suc k) q =
     (case dropWhile (\<lambda>c. c \<noteq> CHR ''/'') q of [] \<Rightarrow> None | _ # q' \<Rightarrow> strip_slashes k q')"

function has_dotdot :: "string \<Rightarrow> bool" where
  "has_dotdot s =
     (if s = [] then False
      else if takeWhile (\<lambda>c. c \<noteq> CHR ''/'') s = ''..'' then True
      else case dropWhile (\<lambda>c. c \<noteq> CHR ''/'') s of [] \<Rightarrow> False | _ # s' \<Rightarrow> has_dotdot s')"
  by pat_completeness auto
termination
proof (relation "measure length", goal_cases)
  case (2 s c s')
  have "length (dropWhile (\<lambda>c. c \<noteq> CHR ''/'') s) \<le> length s" by (rule length_dropWhile_le)
  with 2 show ?case by simp
qed simp

declare has_dotdot.simps [simp del]

definition strip_and_check :: "string \<Rightarrow> int \<Rightarrow> string option" where
  "strip_and_check p strip =
     (case strip_slashes (nat strip) p of None \<Rightarrow> None
      | Some q \<Rightarrow> if q = [] then None else if cur q = CHR ''/'' then None else if has_dotdot q then None else Some q)"

section \<open>Hunks\<close>

record phunk =
  h_a :: int
  h_b :: int
  h_c :: int
  h_d :: int
  h_body :: "string list"

definition is_c_space :: "char \<Rightarrow> bool" where
  "is_c_space c \<longleftrightarrow> c = CHR '' '' \<or> (9 \<le> chcode c \<and> chcode c \<le> 13)"

text \<open>\<open>strtol\<close> in base ten: the value, saturated, and what follows it; \<open>None\<close> when there is no digit.\<close>

definition LONG_MAX :: int where "LONG_MAX = 2 ^ 63 - 1"

definition strtol10 :: "string \<Rightarrow> (int \<times> string) option" where
  "strtol10 s =
     (let s = dropWhile is_c_space s;
          neg = (cur s = CHR ''-'');
          s = (if neg \<or> cur s = CHR ''+'' then tl s else s);
          ds = takeWhile is_digit s;
          v = foldl (\<lambda>v c. v * 10 + int (digit_val c)) 0 ds
      in if ds = [] then None
         else Some (if neg then max (- v) (- LONG_MAX - 1) else min v LONG_MAX, dropWhile is_digit s))"

text \<open>A number of a hunk header, and the count that may follow it.\<close>

definition hunk_num :: "string \<Rightarrow> (int \<times> string) option" where
  "hunk_num s = (case strtol10 s of None \<Rightarrow> None | Some (v, s) \<Rightarrow> if v < 0 then None else Some (v, s))"

definition hunk_range :: "string \<Rightarrow> (int \<times> int \<times> string) option" where
  "hunk_range s =
     (case hunk_num s of None \<Rightarrow> None
      | Some (a, s) \<Rightarrow>
          if cur s = CHR '','' then (case hunk_num (tl s) of None \<Rightarrow> None | Some (b, s) \<Rightarrow> Some (a, b, s))
          else Some (a, 1, s))"

definition parse_hunk_header :: "string \<Rightarrow> (int \<times> int \<times> int \<times> int) option" where
  "parse_hunk_header s =
     (if \<not> starts_with s ''@@ -'' then None
      else case hunk_range (drop 4 s) of None \<Rightarrow> None
      | Some (a, b, s) \<Rightarrow>
          if \<not> starts_with s '' +'' then None
          else case hunk_range (drop 2 s) of None \<Rightarrow> None
          | Some (c, d, s) \<Rightarrow>
              if starts_with (dropWhile (\<lambda>c. c = CHR '' '') s) ''@@'' then Some (a, b, c, d) else None)"

text \<open>
  The body of a hunk: lines are taken until the counts of the header are used up, then the marker of a missing
  newline. \<open>None\<close> is a truncated hunk.
\<close>

abbreviation backslash :: char where "backslash \<equiv> CHR 0x5C"

fun collect_body :: "int \<Rightarrow> int \<Rightarrow> string list \<Rightarrow> (string list \<times> string list) option" where
  "collect_body need_old need_new ls =
     (if need_old > 0 \<or> need_new > 0 then
        (case ls of [] \<Rightarrow> None
         | l # ls' \<Rightarrow>
             map_option (map_prod ((#) l) id)
               (if cur l = backslash then collect_body need_old need_new ls'
                else if cur l = CHR '' '' \<or> l = [] then collect_body (need_old - 1) (need_new - 1) ls'
                else if cur l = CHR ''-'' then collect_body (need_old - 1) need_new ls'
                else if cur l = CHR ''+'' then collect_body need_old (need_new - 1) ls'
                else None))
      else (case ls of l # ls' \<Rightarrow> if cur l = backslash then Some ([l], ls') else Some ([], ls) | [] \<Rightarrow> Some ([], [])))"

declare collect_body.simps [simp del]

lemma collect_body_split: "collect_body no nn ls = Some (b, rest) \<Longrightarrow> ls = b @ rest"
proof (induction no nn ls arbitrary: b rest rule: collect_body.induct)
  case (1 no nn ls)
  show ?case
  proof (cases "no > 0 \<or> nn > 0")
    case True
    with "1.prems" obtain l ls' where ls: "ls = l # ls'" by (cases ls) (auto simp: collect_body.simps [of no nn])
    show ?thesis
      using "1.prems" "1.IH" [OF True ls] True unfolding ls
      by (subst (asm) collect_body.simps) (auto split: if_splits)
  next
    case False
    with "1.prems" show ?thesis by (subst (asm) collect_body.simps) (auto split: list.splits if_splits)
  qed
qed

text \<open>The hunks of a section, and the lines that follow them.\<close>

function collect_hunks :: "string list \<Rightarrow> (phunk list \<times> string list) option" where
  "collect_hunks ls =
     (case ls of [] \<Rightarrow> Some ([], [])
      | l # ls' \<Rightarrow>
          if \<not> starts_with l ''@@ -'' then Some ([], ls)
          else (case parse_hunk_header l of None \<Rightarrow> None
            | Some (a, b, c, d) \<Rightarrow>
                (case collect_body b d ls' of None \<Rightarrow> None
                 | Some (body, rest) \<Rightarrow>
                     map_option (map_prod ((#) \<lparr>h_a = a, h_b = b, h_c = c, h_d = d, h_body = body\<rparr>) id) (collect_hunks rest))))"
  by pat_completeness auto
termination
  by (relation "measure length") (auto dest!: collect_body_split)

declare collect_hunks.simps [simp del]

section \<open>Where a hunk applies\<close>

definition line_kind :: "string \<Rightarrow> char" where
  "line_kind bl = (if bl = [] then CHR '' '' else cur bl)"

text \<open>\<open>body_matches body lines\<close>: the old side of the body is at the head of the lines.\<close>

fun body_matches :: "string list \<Rightarrow> string list \<Rightarrow> bool" where
  "body_matches [] sp = True"
| "body_matches (bl # body) sp =
     (if line_kind bl = backslash \<or> line_kind bl = CHR ''+'' then body_matches body sp
      else if line_kind bl \<noteq> CHR '' '' \<and> line_kind bl \<noteq> CHR ''-'' then False
      else (case sp of [] \<Rightarrow> False | l # sp' \<Rightarrow> l = tl bl \<and> body_matches body sp'))"

definition hunk_matches_at :: "string list \<Rightarrow> phunk \<Rightarrow> nat \<Rightarrow> bool" where
  "hunk_matches_at sp h start \<longleftrightarrow>
     start \<le> length sp \<and> nat (h_b h) \<le> length sp - start \<and> body_matches (h_body h) (drop start sp)"

definition relocate_hunk :: "string list \<Rightarrow> phunk \<Rightarrow> nat \<Rightarrow> nat \<Rightarrow> int + nat" where
  "relocate_hunk sp h old_idx declared =
     (if declared \<ge> old_idx \<and> hunk_matches_at sp h declared then Inr declared
      else if h_b h = 0 then Inl (- 1)
      else (case filter (hunk_matches_at sp h) [old_idx ..< Suc (length sp)] of
          [] \<Rightarrow> Inl (- 1)
        | [found] \<Rightarrow> Inr found
        | _ \<Rightarrow> Inl (- 2)))"

section \<open>Applying a section\<close>

text \<open>
  The body of a hunk at \<open>old_idx\<close>: the index after it, the new lines, whether the file is to end without a newline. \<open>prev\<close> is the kind
  of the line before.
\<close>

fun apply_body :: "string list \<Rightarrow> string list \<Rightarrow> nat \<Rightarrow> string list \<Rightarrow> bool \<Rightarrow> char \<Rightarrow> (nat \<times> string list \<times> bool) option" where
  "apply_body sp [] old_idx np no_nl prev = Some (old_idx, np, no_nl)"
| "apply_body sp (bl # body) old_idx np no_nl prev =
     (if cur bl = backslash then apply_body sp body old_idx np (no_nl \<or> prev = CHR ''+'' \<or> prev = CHR '' '') prev
      else let kind = line_kind bl in
        if kind = CHR '' '' \<or> kind = CHR ''-'' then
          (if old_idx \<ge> length sp \<or> sp ! old_idx \<noteq> tl bl then None
           else apply_body sp body (Suc old_idx) (if kind = CHR '' '' then np @ [sp ! old_idx] else np) no_nl kind)
        else if kind = CHR ''+'' then apply_body sp body old_idx (np @ [tl bl]) no_nl kind
        else None)"

text \<open>The position a header gives, counted from 0.\<close>

definition declared_start :: "phunk \<Rightarrow> nat option" where
  "declared_start h =
     (if h_b h > 0 then (if h_a h < 1 then None else Some (nat (h_a h - 1))) else Some (nat (h_a h)))"

fun apply_hunks :: "string list \<Rightarrow> phunk list \<Rightarrow> nat \<Rightarrow> string list \<Rightarrow> bool \<Rightarrow> (nat \<times> string list \<times> bool) option" where
  "apply_hunks sp [] old_idx np no_nl = Some (old_idx, np, no_nl)"
| "apply_hunks sp (h # hs) old_idx np no_nl =
     (case declared_start h of None \<Rightarrow> None
      | Some declared \<Rightarrow>
          (case relocate_hunk sp h old_idx declared of Inl _ \<Rightarrow> None
           | Inr start \<Rightarrow>
               (case apply_body sp (h_body h) start (np @ take (start - old_idx) (drop old_idx sp)) no_nl NUL of
                  None \<Rightarrow> None
                | Some (old_idx, np, no_nl) \<Rightarrow> apply_hunks sp hs old_idx np no_nl)))"

definition apply_section :: "string \<Rightarrow> phunk list \<Rightarrow> string option" where
  "apply_section content hs =
     (let sp = split_spans content in
      case apply_hunks sp hs 0 [] False of None \<Rightarrow> None
      | Some (old_idx, np, no_nl) \<Rightarrow>
          (let tail_lines = drop old_idx sp;
               np = np @ tail_lines;
               final = (if tail_lines \<noteq> [] then had_nl content else \<not> no_nl)
           in Some (if np = [] then [] else join_lines np final)))"

section \<open>Lines and text\<close>

lemma split_spans_Nil [simp]: "split_spans [] = []"
  by (simp add: split_spans.simps)

lemma split_spans_empty [simp]: "split_spans s = [] \<longleftrightarrow> s = []"
  by (simp add: split_spans.simps [of s])




section \<open>What applying a hunk means\<close>

text \<open>The two sides of a hunk.\<close>

definition old_side :: "string list \<Rightarrow> string list" where
  "old_side body = map tl (filter (\<lambda>l. line_kind l = CHR '' '' \<or> line_kind l = CHR ''-'') body)"

definition new_side :: "string list \<Rightarrow> string list" where
  "new_side body = map tl (filter (\<lambda>l. line_kind l = CHR '' '' \<or> line_kind l = CHR ''+'') body)"

definition body_fine :: "string list \<Rightarrow> bool" where
  "body_fine body \<longleftrightarrow> (\<forall>l \<in> set body. line_kind l \<in> {CHR '' '', CHR ''-'', CHR ''+'', backslash})"

lemma side_simps [simp]:
  "old_side [] = []" "new_side [] = []"
  "old_side (l # b) = (if line_kind l = CHR '' '' \<or> line_kind l = CHR ''-'' then tl l # old_side b else old_side b)"
  "new_side (l # b) = (if line_kind l = CHR '' '' \<or> line_kind l = CHR ''+'' then tl l # new_side b else new_side b)"
  "body_fine []" "body_fine (l # b) \<longleftrightarrow> line_kind l \<in> {CHR '' '', CHR ''-'', CHR ''+'', backslash} \<and> body_fine b"
  by (auto simp: old_side_def new_side_def body_fine_def)

lemma body_matches_iff: "body_fine body \<Longrightarrow> body_matches body sp \<longleftrightarrow> (\<exists>rest. sp = old_side body @ rest)"
proof (induction body arbitrary: sp)
  case (Cons l body)
  then show ?case by (cases sp) auto
qed simp


lemma kind_backslash: "line_kind l = backslash \<longleftrightarrow> cur l = backslash"
  by (cases l) (auto simp: line_kind_def NUL_def)

text \<open>The marker of a missing newline counts when it follows a line of the new side.\<close>

fun marker :: "string list \<Rightarrow> char \<Rightarrow> bool" where
  "marker [] prev = False"
| "marker (l # body) prev =
     (if line_kind l = backslash then prev = CHR ''+'' \<or> prev = CHR '' '' \<or> marker body prev else marker body (line_kind l))"

lemma apply_body_exact:
  assumes "body_matches body (drop i sp)"
  shows "apply_body sp body i np no_nl prev = Some (i + length (old_side body), np @ new_side body, no_nl \<or> marker body prev)"
  using assms
proof (induction body arbitrary: i np no_nl prev)
  case (Cons l body)
  show ?case
  proof (cases "line_kind l = CHR '' '' \<or> line_kind l = CHR ''-''")
    case True
    with Cons.prems obtain rest where d: "drop i sp = tl l # rest" "body_matches body rest"
      by (auto split: list.splits)
    then have i: "i < length sp" "sp ! i = tl l" "rest = drop (Suc i) sp"
      by (metis drop_all list.distinct(1) not_less, metis Cons_nth_drop_Suc drop_all list.distinct(1) list.inject not_less,
          metis drop_Suc tl_drop list.sel(3))
    have "cur l \<noteq> backslash" using True by (auto simp: kind_backslash [symmetric])
    moreover have "body_matches body (drop (Suc i) sp)" using d(2) i(3) by simp
    ultimately show ?thesis using Cons.IH i True by (auto simp: Let_def)
  next
    case False
    with Cons.prems have "line_kind l = backslash \<or> line_kind l = CHR ''+''" "body_matches body (drop i sp)"
      by (auto split: if_splits)
    with Cons.IH [OF this(2)] False show ?thesis by (auto simp: kind_backslash [symmetric] Let_def)
  qed
qed simp


text \<open>
  A way to place hunks: the untouched lines before each. \<open>placed\<close> says that every hunk stands where its header says, or at the only
  place from there on where its old side is found.
\<close>

fun weave :: "'a list list \<Rightarrow> 'a list list \<Rightarrow> 'a list" where
  "weave (g # gs) (h # hs) = g @ h @ weave gs hs"
| "weave _ _ = []"




definition marks_end :: "phunk list \<Rightarrow> bool" where
  "marks_end hs \<longleftrightarrow> (\<exists>h \<in> set hs. marker (h_body h) NUL)"

abbreviation olds :: "phunk list \<Rightarrow> string list list" where "olds hs \<equiv> map (\<lambda>h. old_side (h_body h)) hs"
abbreviation news :: "phunk list \<Rightarrow> string list list" where "news hs \<equiv> map (\<lambda>h. new_side (h_body h)) hs"


text \<open>Hunks whose headers tell the truth: the position, and the count of the old side.\<close>

fun truthful :: "nat \<Rightarrow> string list list \<Rightarrow> phunk list \<Rightarrow> bool" where
  "truthful i (g # gs) (h # hs) =
     (declared_start h = Some (i + length g) \<and> nat (h_b h) = length (old_side (h_body h)) \<and> body_fine (h_body h) \<and>
      truthful (i + length g + length (old_side (h_body h))) gs hs)"
| "truthful i [] hs = (hs = [])"
| "truthful i (g # gs) [] = False"

lemma apply_hunks_complete:
  assumes "truthful i gs hs" "drop i sp = weave gs (olds hs) @ rest" "i \<le> length sp"
  shows "apply_hunks sp hs i np no_nl = Some (length sp - length rest, np @ weave gs (news hs), no_nl \<or> marks_end hs)"
  using assms
proof (induction i gs hs arbitrary: np no_nl rule: truthful.induct)
  case (1 i g gs h hs)
  let ?start = "i + length g" and ?old = "old_side (h_body h)"
  let ?rest = "weave gs (olds hs) @ rest"
  have h: "declared_start h = Some ?start" "nat (h_b h) = length ?old" "body_fine (h_body h)" "truthful (?start + length ?old) gs hs"
    using "1.prems"(1) by simp_all
  have i: "drop i sp = g @ ?old @ ?rest" using "1.prems"(2) by simp
  then have start: "drop ?start sp = ?old @ ?rest" by (metis append_eq_conv_conj drop_drop add.commute)
  then have k: "drop (?start + length ?old) sp = ?rest" by (metis append_eq_conv_conj drop_drop add.commute)
  have "length (drop i sp) = length g + length ?old + length ?rest" using i by simp
  then have len: "?start + length ?old \<le> length sp" using "1.prems"(3) by simp
  have m: "body_matches (h_body h) (drop ?start sp)" using start body_matches_iff [OF h(3)] by blast
  then have at_start: "hunk_matches_at sp h ?start" using len h(2) by (simp add: hunk_matches_at_def)
  have "relocate_hunk sp h i ?start = Inr ?start" using at_start by (simp add: relocate_hunk_def)
  moreover have "take (?start - i) (drop i sp) = g" using i by simp
  ultimately have "apply_hunks sp (h # hs) i np no_nl =
      apply_hunks sp hs (?start + length ?old) ((np @ g) @ new_side (h_body h)) (no_nl \<or> marker (h_body h) NUL)"
    using h(1) apply_body_exact [OF m, of "np @ g" no_nl NUL] by simp
  also have "\<dots> = Some (length sp - length rest, ((np @ g) @ new_side (h_body h)) @ weave gs (news hs), (no_nl \<or> marker (h_body h) NUL) \<or> marks_end hs)"
    by (rule "1.IH" [OF h(4) k len])
  finally show ?case by (simp add: marks_end_def disj_assoc)
next
  case (2 i hs)
  then have hs: "hs = []" and "drop i sp = rest" by simp_all
  moreover have "length (drop i sp) = length sp - i" by simp
  ultimately have "i = length sp - length rest" using "2.prems"(3) by simp
  with hs show ?case by (simp add: marks_end_def)
next
  case (3 i g gs)
  then show ?case by simp
qed


text \<open>
  A diff made from the file applies: when the headers give the true positions and counts, the section succeeds and
  puts the new sides in place of the old ones.
\<close>

theorem patch_section_complete:
  assumes "split_spans content = weave gs (olds hs) @ tail" "truthful 0 gs hs"
  shows "apply_section content hs =
    Some (join_lines (weave gs (news hs) @ tail) (if tail \<noteq> [] then had_nl content else \<not> marks_end hs))"
proof -
  have len: "length (split_spans content) = length (weave gs (olds hs)) + length tail" using assms(1) by simp
  then have "drop (length (split_spans content) - length tail) (split_spans content) = tail" using assms(1) by simp
  then show ?thesis
    using apply_hunks_complete [OF assms(2), of "split_spans content" tail "[]" False] assms(1)
    by (auto simp: apply_section_def Let_def)
qed

definition sample_hunk :: phunk where
  "sample_hunk = \<lparr>h_a = 2, h_b = 1, h_c = 2, h_d = 1, h_body = [''-x'', ''+z'']\<rparr>"


theorem patch_section_complete_witness:
  "apply_section (''p'' @ nl # ''x'' @ nl # ''q'') [sample_hunk] = Some (''p'' @ nl # ''z'' @ nl # ''q'')"
proof -
  have s: "split_spans (''p'' @ nl # ''x'' @ nl # ''q'') = weave [[''p'']] (olds [sample_hunk]) @ [''q'']" by code_simp
  have t: "truthful 0 [[''p'']] [sample_hunk]"
    by (simp add: sample_hunk_def declared_start_def line_kind_def)
  have "weave [[''p'']] (news [sample_hunk]) = [''p'', ''z'']" "\<not> had_nl (''p'' @ nl # ''x'' @ nl # ''q'')" by code_simp+
  with patch_section_complete [OF s t] show ?thesis by simp
qed

text \<open>The counts of a header are lower bounds: a hunk that claims to remove nothing can remove a line.\<close>

lemma counts_not_exact:
  "collect_hunks [''@@ -1,0 +2 @@'', ''-x'', ''+y''] = Some ([\<lparr>h_a = 1, h_b = 0, h_c = 2, h_d = 1, h_body = [''-x'', ''+y'']\<rparr>], [])"
  "apply_section (''a'' @ nl # ''x'' @ [nl]) [\<lparr>h_a = 1, h_b = 0, h_c = 2, h_d = 1, h_body = [''-x'', ''+y'']\<rparr>] = Some (''a'' @ nl # ''y'' @ [nl])"
  by code_simp+

end
