(* ===== verification/As_Edit.thy ===== *)
theory As_Edit
  imports As_Patch As_Lockfile As_Uuid
begin

text \<open>
  The files of \<^verbatim>\<open>std/tool_edit.c\<close> and the content versions of \<^verbatim>\<open>std/version.c\<close>: reading a target, replacing a file
  through a temporary one, and the patch command - the sections of a patch against the targets they name,
  the check of the expected versions, the writing of all targets and its rollback. An error is its code; the messages are
  not modelled. File modes are not modelled, directories appear when they are needed, and \<open>lstat\<close> follows the
  place of the path, which is canonical.
\<close>

section \<open>Content versions\<close>

definition hex_pair :: "byte \<Rightarrow> string" where
  "hex_pair b = [uuid_hexd ! unat (drop_bit 4 b), uuid_hexd ! unat (b AND 15)]"

definition astd_version :: "byte list \<Rightarrow> string" where
  "astd_version data = concat (map hex_pair (astools_sha256 data))"

function version_loop :: "astools_sha256_ctx \<Rightarrow> byte list \<Rightarrow> astools_sha256_ctx" where
  "version_loop ctx rest =
     (if rest = [] then ctx else version_loop (astools_sha256_update ctx (take 4096 rest)) (drop 4096 rest))"
  by pat_completeness auto
termination by (relation "measure (\<lambda>(ctx, rest). length rest)") auto

declare version_loop.simps [simp del]

definition astd_version_matches :: "disk \<Rightarrow> string \<Rightarrow> string \<Rightarrow> bool" where
  "astd_version_matches d path expected =
     (case fopen_rb d path of Inl _ \<Rightarrow> False
      | Inr (rest, bad) \<Rightarrow>
          let hash = version_loop astools_sha256_init rest
          in \<not> bad \<and> concat (map hex_pair (astools_sha256_final hash)) = expected)"

definition version_current :: "disk \<Rightarrow> string \<Rightarrow> string \<Rightarrow> bool" where
  "version_current d path expected =
     (if expected = ''absent'' then
        (let l = d_loc d path in \<not> d_hidden d l \<and> d_files d l = None \<and> \<not> d_other d l)
      else astd_version_matches d path expected)"

section \<open>Files\<close>

definition read_raw :: "disk \<Rightarrow> string \<Rightarrow> byte list option" where
  "read_raw d path = (case fopen_rb d path of Inr (bs, bad) \<Rightarrow> if bad then None else Some bs | Inl _ \<Rightarrow> None)"

definition tmp_path :: "nat \<Rightarrow> string \<Rightarrow> string" where
  "tmp_path pid path = path @ ''.astools-tmp-'' @ dec_str pid"

text \<open>
  \<open>write_atomic\<close>: a leftover is removed, the new content written to a file that must not exist, the version of the target checked,
  the file renamed over it; the temporary file does not stay.
\<close>

definition unlink_file :: "disk \<Rightarrow> string \<Rightarrow> bool \<times> disk" where
  "unlink_file d path = (case os_remove_file d (Some path) of (e, d) \<Rightarrow> (e = ASTOOLS_OK, d))"

definition write_atomic :: "disk \<Rightarrow> nat \<Rightarrow> string \<Rightarrow> byte list \<Rightarrow> string option \<Rightarrow> bool \<times> disk" where
  "write_atomic d pid path data expected =
     (let tmp = tmp_path pid path;
          d = snd (unlink_file d tmp)
      in if d_files d (d_loc d tmp) \<noteq> None then (False, d)
         else case os_write_file d (Some tmp) data of
           (e, d) \<Rightarrow>
             if e \<noteq> ASTOOLS_OK then (False, snd (unlink_file d tmp))
             else if (case expected of None \<Rightarrow> False | Some v \<Rightarrow> \<not> version_current d path v) then (False, snd (unlink_file d tmp))
             else case os_file_replace d (Some tmp) (Some path) of
               (e, d) \<Rightarrow> if e = ASTOOLS_OK then (True, d) else (False, snd (unlink_file d tmp)))"

section \<open>The sections of a patch\<close>

record ptgt =
  pt_abs :: string
  pt_raw :: "byte list option"
  pt_cur :: string
  pt_existed :: bool
  pt_crlf :: bool
  pt_delete :: bool
  pt_base :: string
  pt_written :: "string option"

definition astd_looks_binary_text :: "string \<Rightarrow> bool" where
  "astd_looks_binary_text s = (NUL \<in> set (take 4096 s))"

text \<open>Whether a path lies under a prefix, slashes at the end of the prefix ignored.\<close>

definition under_prefix :: "string \<Rightarrow> string \<Rightarrow> bool" where
  "under_prefix path pfx =
     (let p = take (trimmed_len (length pfx) pfx) pfx
      in take (length p) path = p \<and>
         (length path = length p \<or> cur (drop (length p) path) = CHR ''/'' \<or> (length p = 1 \<and> cur pfx = CHR ''/'')))"

text \<open>
  \<open>contain_target\<close>: the deepest ancestor the kernel resolves, and what is left of the path after it. \<open>realpath\<close> is the kernel's.
\<close>

function contain_walk :: "(string \<Rightarrow> string option) \<Rightarrow> string \<Rightarrow> string \<Rightarrow> (string \<times> string) option" where
  "contain_walk realpath head tail =
     (case realpath head of Some canon \<Rightarrow> Some (canon, tail)
      | None \<Rightarrow>
          (let base = rev (takeWhile (\<lambda>c. c \<noteq> CHR ''/'') (rev head));
               up = take (length head - length base - 1) head
           in if CHR ''/'' \<notin> set head \<or> up = [] then map_option (\<lambda>canon. (canon, tail)) (realpath ''/'')
              else contain_walk realpath up (CHR ''/'' # base @ tail)))"
  by pat_completeness auto
termination
proof (relation "measure (\<lambda>(r, head, tail). length head)", goal_cases)
  case (2 realpath head tail base up)
  then have "head \<noteq> []" by auto
  with 2 show ?case by (cases head) auto
qed simp

declare contain_walk.simps [simp del]

definition contain_target :: "(string \<Rightarrow> string option) \<Rightarrow> string \<Rightarrow> string \<Rightarrow> string option" where
  "contain_target realpath path workspace =
     (case contain_walk realpath path [] of None \<Rightarrow> None
      | Some (canon, tail) \<Rightarrow> if under_prefix (canon @ tail) workspace then Some (canon @ tail) else None)"

text \<open>A target that is not in the list yet: to be created, or read.\<close>

definition load_target :: "disk \<Rightarrow> string \<Rightarrow> bool \<Rightarrow> string + ptgt" where
  "load_target d path is_create =
     (if is_create then
        (if os_file_exists d path then Inl ''edit/patch-failed''
         else Inr \<lparr>pt_abs = path, pt_raw = None, pt_cur = [], pt_existed = False, pt_crlf = False, pt_delete = False,
           pt_base = ''absent'', pt_written = None\<rparr>)
      else (case read_raw d path of None \<Rightarrow> Inl ''edit/patch-failed''
        | Some raw \<Rightarrow>
            if astd_looks_binary_text (text_of raw) then Inl ''edit/binary''
            else (case normalize_lf (text_of raw) of (s, crlf) \<Rightarrow>
              Inr \<lparr>pt_abs = path, pt_raw = Some raw, pt_cur = s, pt_existed = True, pt_crlf = crlf, pt_delete = False,
                pt_base = astd_version raw, pt_written = None\<rparr>)))"

definition find_target :: "string \<Rightarrow> ptgt list \<Rightarrow> nat option" where
  "find_target path tg = (let k = length (takeWhile (\<lambda>t. pt_abs t \<noteq> path) tg) in if k < length tg then Some k else None)"

text \<open>The targets with the one a section names, and its index.\<close>

definition section_target :: "(string \<Rightarrow> string option) \<Rightarrow> disk \<Rightarrow> string \<Rightarrow> int \<Rightarrow> string \<Rightarrow> string \<Rightarrow> ptgt list \<Rightarrow> string + (ptgt list \<times> nat)" where
  "section_target realpath d workspace strip old_name new_name tg =
     (let is_create = (old_name = ''/dev/null''); is_delete = (new_name = ''/dev/null'') in
      if is_create \<and> is_delete then Inl ''edit/patch-failed''
      else case strip_and_check (if is_delete then old_name else new_name) strip of None \<Rightarrow> Inl ''edit/patch-failed''
        | Some rel \<Rightarrow>
            (case contain_target realpath (workspace @ CHR ''/'' # rel) workspace of None \<Rightarrow> Inl ''edit/patch-failed''
             | Some path \<Rightarrow>
                 (case find_target path tg of
                    Some k \<Rightarrow> if is_create then Inl ''edit/patch-failed'' else Inr (tg, k)
                  | None \<Rightarrow> (case load_target d path is_create of Inl e \<Rightarrow> Inl e | Inr t \<Rightarrow> Inr (tg @ [t], length tg)))))"

lemma collect_hunks_split: "collect_hunks ls = Some (hs, rest) \<Longrightarrow> length rest \<le> length ls"
proof (induction "length ls" arbitrary: ls hs rest rule: less_induct)
  case less
  show ?case
  proof (cases "\<exists>l ls'. ls = l # ls' \<and> starts_with l ''@@ -''")
    case False
    with less.prems show ?thesis by (subst (asm) collect_hunks.simps) (auto split: list.splits if_splits)
  next
    case True
    then obtain l ls' where ls: "ls = l # ls'" "starts_with l ''@@ -''" by blast
    with less.prems obtain b d body r' hs' where c: "collect_body b d ls' = Some (body, r')" "collect_hunks r' = Some (hs', rest)"
      by (subst (asm) collect_hunks.simps) (auto split: option.splits)
    from collect_body_split [OF c(1)] ls have "length r' < length ls" by simp
    from less.hyps [OF this c(2)] this show ?thesis by simp
  qed
qed

text \<open>The loop over the lines of the patch: targets, hunks applied and sections seen so far.\<close>

function patch_sections :: "(string \<Rightarrow> string option) \<Rightarrow> disk \<Rightarrow> string \<Rightarrow> int \<Rightarrow> string list \<Rightarrow> ptgt list \<Rightarrow> nat \<Rightarrow> nat \<Rightarrow>
    string + (ptgt list \<times> nat \<times> nat)" where
  "patch_sections realpath d workspace strip ls tg hunks sections =
     (case ls of [] \<Rightarrow> Inr (tg, hunks, sections)
      | l # ls' \<Rightarrow>
          (if \<not> (starts_with l ''--- '' \<and> ls' \<noteq> [] \<and> starts_with (hd ls') ''+++ '') then
             patch_sections realpath d workspace strip ls' tg hunks sections
           else
             let old_name = path_field (drop 4 l); new_name = path_field (drop 4 (hd ls')) in
             case section_target realpath d workspace strip old_name new_name tg of Inl e \<Rightarrow> Inl e
             | Inr (tg, k) \<Rightarrow>
                 (case collect_hunks (tl ls') of None \<Rightarrow> Inl ''edit/patch-failed''
                  | Some (hs, rest) \<Rightarrow>
                      (case apply_section (pt_cur (tg ! k)) hs of None \<Rightarrow> Inl ''edit/patch-failed''
                       | Some out \<Rightarrow>
                           let is_delete = (new_name = ''/dev/null'') in
                           if is_delete \<and> out \<noteq> [] then Inl ''edit/patch-failed''
                           else patch_sections realpath d workspace strip rest
                             (tg[k := (tg ! k)\<lparr>pt_cur := out, pt_delete := is_delete\<rparr>]) (hunks + length hs) (Suc sections)))))"
  by pat_completeness auto

termination
  by (relation "measure (\<lambda>(r, d, w, s, ls, tg, h, n). length ls)") (auto dest: collect_hunks_split)

declare patch_sections.simps [simp del]

section \<open>The command\<close>

text \<open>\<open>expected\<close> lists the path and version of every target, each exactly once; an item may lack its fields.\<close>

definition expected_ok :: "(string \<times> string) option list option \<Rightarrow> disk \<Rightarrow> ptgt list \<Rightarrow> bool" where
  "expected_ok expected d tg =
     ((case expected of None \<Rightarrow> True | Some items \<Rightarrow> length items = length tg) \<and>
      list_all (\<lambda>t. (case expected of None \<Rightarrow> True
         | Some items \<Rightarrow> length (filter (\<lambda>it. it = Some (pt_abs t, pt_base t)) items) = 1) \<and>
         version_current d (pt_abs t) (pt_base t)) tg)"

definition write_target :: "disk \<Rightarrow> nat \<Rightarrow> ptgt \<Rightarrow> bool \<times> disk \<times> ptgt" where
  "write_target d pid t =
     (if pt_delete t then
        (if \<not> version_current d (pt_abs t) (pt_base t) then (False, d, t)
         else case unlink_file d (pt_abs t) of (ok, d) \<Rightarrow> if ok then (True, d, t\<lparr>pt_written := Some ''absent''\<rparr>) else (False, d, t))
      else
        let rawout = bytes_of (denorm (pt_cur t) (pt_crlf t)) in
        case write_atomic d pid (pt_abs t) rawout (Some (pt_base t)) of
          (ok, d) \<Rightarrow> if ok then (True, d, t\<lparr>pt_written := Some (astd_version rawout)\<rparr>) else (False, d, t))"

text \<open>Writing stops at the first failure; the targets after it stay unwritten.\<close>

fun write_targets :: "disk \<Rightarrow> nat \<Rightarrow> ptgt list \<Rightarrow> bool \<times> disk \<times> ptgt list" where
  "write_targets d pid [] = (True, d, [])"
| "write_targets d pid (t # ts) =
     (case write_target d pid t of
        (False, d, t) \<Rightarrow> (False, d, t # ts)
      | (True, d, t) \<Rightarrow> (case write_targets d pid ts of (ok, d, ts) \<Rightarrow> (ok, d, t # ts)))"

definition restore_target :: "nat \<Rightarrow> disk \<Rightarrow> ptgt \<Rightarrow> disk" where
  "restore_target pid d t =
     (case pt_written t of None \<Rightarrow> d
      | Some v \<Rightarrow>
          if \<not> version_current d (pt_abs t) v then d
          else (case pt_raw t of
              Some raw \<Rightarrow> if pt_existed t then snd (write_atomic d pid (pt_abs t) raw (Some v)) else snd (unlink_file d (pt_abs t))
            | None \<Rightarrow> if pt_existed t then d else snd (unlink_file d (pt_abs t))))"

definition rollback :: "nat \<Rightarrow> disk \<Rightarrow> ptgt list \<Rightarrow> disk" where
  "rollback pid d tg = foldl (restore_target pid) d tg"

definition patch_error_code :: "string \<Rightarrow> string \<Rightarrow> string" where
  "patch_error_code tool code =
     (if tool \<noteq> ''code'' then code
      else if code = ''edit/binary'' then ''code/binary''
      else if code = ''edit/io'' then ''code/io''
      else if code = ''edit/conflict'' then ''code/conflict''
      else ''code/patch-failed'')"

text \<open>\<open>cmd_patch\<close>: an error code, or the paths with their versions before and after and the number of hunks; and the disk.\<close>

definition cmd_patch :: "(string \<Rightarrow> string option) \<Rightarrow> nat \<Rightarrow> string \<Rightarrow> string option \<Rightarrow> string option \<Rightarrow> int \<Rightarrow> (string \<times> string) option list option \<Rightarrow>
    disk \<Rightarrow> (string + (string \<times> string \<times> string) list \<times> nat) \<times> disk" where
  "cmd_patch realpath pid tool workspace ptext strip expected d =
     (let fail = (\<lambda>code. Inl (patch_error_code tool code)) in
      case ptext of None \<Rightarrow> (Inl ''astools/invalid-args'', d)
      | Some text_in \<Rightarrow>
        if text_in = [] then (Inl ''astools/invalid-args'', d)
        else case workspace of None \<Rightarrow> (Inl ''astools/protocol'', d)
        | Some ws \<Rightarrow>
          (case patch_sections realpath d ws (if strip < 0 then 0 else strip) (patch_lines text_in) [] 0 0 of Inl e \<Rightarrow> (fail e, d)
           | Inr (tg, hunks, sections) \<Rightarrow>
               if sections = 0 then (fail ''edit/patch-failed'', d)
               else if \<not> expected_ok expected d tg then (fail ''edit/conflict'', d)
               else (case write_targets d pid tg of
                   (ok, d, tg) \<Rightarrow>
                     if \<not> ok then (fail ''edit/io'', rollback pid d tg)
                     else (Inr (map (\<lambda>t. (pt_abs t, pt_base t, case pt_written t of None \<Rightarrow> [] | Some v \<Rightarrow> v)) tg, hunks), d))))"

section \<open>Versions and single files\<close>

lemma sha256_whole: "astools_sha256 bs = sha256_ref bs"
  by (simp add: astools_sha256_def ctx_of_Nil [symmetric] update_ctx_of final_ctx_of)

lemma version_loop_ctx: "version_loop (ctx_of m) rest = ctx_of (m @ rest)"
proof (induction "ctx_of m" rest arbitrary: m rule: version_loop.induct)
  case (1 rest)
  then show ?case by (subst version_loop.simps) (simp add: update_ctx_of)
qed

text \<open>A version matches exactly when it is the version of what the file holds.\<close>

lemma version_matches_iff: "astd_version_matches d p v \<longleftrightarrow> (\<exists>bs. content d p = Some bs \<and> astd_version bs = v)"
  using version_loop_ctx [of "[]"]
  by (auto simp: astd_version_matches_def content_def astd_version_def sha256_whole ctx_of_Nil final_ctx_of Let_def
      split: sum.splits prod.splits if_splits bool.splits)

lemma read_raw_content: "read_raw d p = content d p"
  by (auto simp: read_raw_def content_def split: sum.splits prod.splits bool.splits)

lemma version_length: "length (astd_version bs) = 64"
  by (simp add: astd_version_def sha256_whole hex_pair_def length_concat comp_def sum_list_triv)

lemma version_not_absent [simp]: "astd_version bs \<noteq> ''absent''"
proof
  assume "astd_version bs = ''absent''"
  then have "length (astd_version bs) = 6" by simp
  then show False by (simp add: version_length)
qed

lemma content_set: "d_loc d p \<noteq> l \<Longrightarrow> content (set_file d l x) p = content d p"
  using set_file_same [of d p l x] by (simp add: same_at_def content_def)

lemma set_file_id: "d_files d l = x \<Longrightarrow> set_file d l x = d"
  by (cases d) (simp add: set_file_def fun_upd_idem)

lemma version_current_set: "d_loc d p \<noteq> l \<Longrightarrow> version_current (set_file d l x) p v = version_current d p v"
  by (simp add: version_current_def version_matches_iff content_set Let_def)

lemma set_file_over [simp]: "set_file (set_file d l x) l y = set_file d l y"
  by (simp add: set_file_def)

text \<open>What a path needs to be replaced.\<close>

definition writable :: "disk \<Rightarrow> nat \<Rightarrow> string \<Rightarrow> bool" where
  "writable d pid path \<longleftrightarrow>
     (let lt = d_loc d (tmp_path pid path); lp = d_loc d path in
      \<not> d_other d lt \<and> \<not> d_ro d lt \<and> \<not> d_hidden d lt \<and> d_werr d lt = None \<and> d_mverr d lt lp = None \<and> \<not> d_other d lp)"

lemma unlink_cases:
  assumes "unlink_file d p = (ok, d')"
  shows "if ok then d' = set_file d (d_loc d p) None \<and> d_files d (d_loc d p) \<noteq> None \<and> \<not> d_pin d (d_loc d p) \<and> \<not> d_other d (d_loc d p)
    else d' = d \<and> (d_files d (d_loc d p) = None \<or> d_pin d (d_loc d p) \<or> d_other d (d_loc d p))"
  using assms by (auto simp: unlink_file_def os_remove_file_def Let_def split: if_splits)

lemma unlink_effect: "\<exists>x. snd (unlink_file d p) = set_file d (d_loc d p) x"
proof -
  obtain ok d' where u: "unlink_file d p = (ok, d')" by (cases "unlink_file d p")
  from unlink_cases [OF u] u show ?thesis
    by (cases ok) (auto intro: exI [of _ "d_files d (d_loc d p)"] simp: set_file_id)
qed

text \<open>Replacing a file: everything at once, or nothing but the temporary file.\<close>

lemma write_atomic_cases:
  assumes "write_atomic d pid path data expected = (ok, d')" "d_loc d (tmp_path pid path) \<noteq> d_loc d path"
  shows "if ok then d' = set_file (set_file d (d_loc d path) (Some data)) (d_loc d (tmp_path pid path)) None \<and>
      writable d pid path \<and> (\<forall>v. expected = Some v \<longrightarrow> version_current d path v)
    else \<exists>x. d' = set_file d (d_loc d (tmp_path pid path)) x"
proof -
  let ?tmp = "tmp_path pid path" and ?d1 = "snd (unlink_file d (tmp_path pid path))"
  let ?lt = "d_loc d ?tmp" and ?lp = "d_loc d path"
  obtain x where d1: "?d1 = set_file d ?lt x" using unlink_effect by blast
  show ?thesis
  proof (cases "d_files ?d1 ?lt = None")
    case False
    moreover have "d_loc ?d1 = d_loc d" using d1 by simp
    ultimately have "ok = False \<and> d' = ?d1" using assms(1) by (simp add: write_atomic_def Let_def)
    then show ?thesis using d1 by auto
  next
    case True
    then have d1: "?d1 = set_file d ?lt None" using d1 by simp
    obtain e d2 where w: "os_write_file (set_file d ?lt None) (Some ?tmp) data = (e, d2)"
      by (cases "os_write_file (set_file d ?lt None) (Some ?tmp) data")
    note unfold = write_atomic_def Let_def d1 w
    show ?thesis
    proof (cases "e = ASTOOLS_OK")
      case bad: False
      with w obtain y where "d2 = set_file d ?lt y"
        by (auto simp: os_write_file_def Let_def split: if_splits option.splits)
      moreover have "ok = False" "d' = snd (unlink_file d2 ?tmp)" using assms(1) bad by (simp_all add: unfold)
      ultimately show ?thesis using unlink_effect [of d2 ?tmp] by auto
    next
      case written: True
      with w have d2: "d2 = set_file d ?lt (Some data)"
        and wr: "\<not> d_ro d ?lt" "\<not> d_other d ?lt" "\<not> d_hidden d ?lt" "d_werr d ?lt = None"
        by (auto simp: os_write_file_def Let_def split: if_splits option.splits)
      have v: "version_current d2 path v = version_current d path v" for v
        unfolding d2 by (rule version_current_set) (use assms(2) in simp)
      show ?thesis
      proof (cases "case expected of None \<Rightarrow> False | Some v \<Rightarrow> \<not> version_current d2 path v")
        case True
        then have "ok = False" "d' = snd (unlink_file d2 ?tmp)" using assms(1) written by (simp_all add: unfold)
        then show ?thesis using d2 unlink_effect [of d2 ?tmp] by auto
      next
        case current: False
        obtain e' d3 where r: "os_file_replace d2 (Some ?tmp) (Some path) = (e', d3)" by (cases "os_file_replace d2 (Some ?tmp) (Some path)")
        show ?thesis
        proof (cases "e' = ASTOOLS_OK")
          case True
          with r d2 assms(2) have d3: "d3 = set_file (set_file d2 ?lp (Some data)) ?lt None" "d_mverr d ?lt ?lp = None" "\<not> d_other d ?lp"
            by (auto simp: os_file_replace_def Let_def split: if_splits option.splits)
          have "set_file (set_file d2 ?lp (Some data)) ?lt None = set_file (set_file d ?lp (Some data)) ?lt None"
            using d2 assms(2) by (simp add: set_file_def fun_upd_twist)
          moreover have "ok = True" "d' = d3" using assms(1) written current True r by (simp_all add: unfold)
          ultimately show ?thesis using d3 wr v current by (auto simp: writable_def Let_def split: option.splits)
        next
          case False
          with r d2 have "d3 = d2" by (auto simp: os_file_replace_def Let_def split: if_splits option.splits)
          moreover have "ok = False" "d' = snd (unlink_file d3 ?tmp)" using assms(1) written current False r by (simp_all add: unfold)
          ultimately show ?thesis using d2 unlink_effect [of d2 ?tmp] by auto
        qed
      qed
    qed
  qed
qed

lemma write_atomic_ok:
  assumes "writable d pid path" "d_files d (d_loc d (tmp_path pid path)) = None \<or> \<not> d_pin d (d_loc d (tmp_path pid path))"
    and "d_loc d (tmp_path pid path) \<noteq> d_loc d path" "version_current d path v"
  shows "fst (write_atomic d pid path data (Some v))"
proof -
  let ?tmp = "tmp_path pid path" and ?d1 = "snd (unlink_file d (tmp_path pid path))"
  let ?lt = "d_loc d ?tmp" and ?lp = "d_loc d path"
  note wr = assms(1) [unfolded writable_def Let_def]
  have d1: "?d1 = set_file d ?lt None"
    using wr assms(2) by (auto simp: unlink_file_def os_remove_file_def Let_def set_file_id)
  have w: "os_write_file ?d1 (Some ?tmp) data = (ASTOOLS_OK, set_file d ?lt (Some data))"
    using wr by (simp add: d1 os_write_file_def Let_def)
  have v: "version_current (set_file d ?lt (Some data)) path v"
    using version_current_set [of d path ?lt "Some data" v] assms(3,4) by simp
  have "fst (os_file_replace (set_file d ?lt (Some data)) (Some ?tmp) (Some path)) = ASTOOLS_OK"
    using wr by (simp add: os_file_replace_def Let_def)
  then obtain d3 where "os_file_replace (set_file d ?lt (Some data)) (Some ?tmp) (Some path) = (ASTOOLS_OK, d3)"
    by (metis prod.collapse)
  then show ?thesis using w v by (simp add: write_atomic_def Let_def d1)
qed

section \<open>All targets or none\<close>

text \<open>Disks that differ in what these places hold only.\<close>

definition only :: "string set \<Rightarrow> disk \<Rightarrow> disk \<Rightarrow> bool" where
  "only L d d' \<longleftrightarrow> d' = d\<lparr>d_files := d_files d'\<rparr> \<and> (\<forall>l. l \<notin> L \<longrightarrow> d_files d' l = d_files d l)"

lemma only_fields:
  assumes "only L d d'"
  shows "d_loc d' = d_loc d" "d_other d' = d_other d" "d_deny d' = d_deny d" "d_bad d' = d_bad d" "d_hidden d' = d_hidden d"
    "d_ro d' = d_ro d" "d_werr d' = d_werr d" "d_mverr d' = d_mverr d" "d_pin d' = d_pin d"
proof -
  have e: "d' = d\<lparr>d_files := d_files d'\<rparr>" using assms by (simp add: only_def)
  show "d_loc d' = d_loc d" "d_other d' = d_other d" "d_deny d' = d_deny d" "d_bad d' = d_bad d" "d_hidden d' = d_hidden d"
    "d_ro d' = d_ro d" "d_werr d' = d_werr d" "d_mverr d' = d_mverr d" "d_pin d' = d_pin d"
    by (subst e, simp)+
qed

lemma only_files: "only L d d' \<Longrightarrow> l \<notin> L \<Longrightarrow> d_files d' l = d_files d l"
  by (simp add: only_def)

lemma only_refl [simp]: "only L d d"
  by (simp add: only_def)

lemma only_trans: "only L d d' \<Longrightarrow> only M d' d'' \<Longrightarrow> only (L \<union> M) d d''"
proof -
  assume a: "only L d d'" "only M d' d''"
  have "d'' = d'\<lparr>d_files := d_files d''\<rparr>" using a(2) by (simp add: only_def)
  also have "\<dots> = (d\<lparr>d_files := d_files d'\<rparr>)\<lparr>d_files := d_files d''\<rparr>" using a(1) by (simp add: only_def)
  finally have "d'' = d\<lparr>d_files := d_files d''\<rparr>" by simp
  then show ?thesis using a by (simp add: only_def)
qed

lemma only_mono: "only L d d' \<Longrightarrow> L \<subseteq> M \<Longrightarrow> only M d d'"
  by (auto simp: only_def)

lemma only_set: "only {l} d (set_file d l x)"
  by (simp add: only_def set_file_def)

lemma only_fopen: "only L d d' \<Longrightarrow> d_files d' (d_loc d p) = d_files d (d_loc d p) \<Longrightarrow> fopen_rb d' p = fopen_rb d p"
proof -
  assume a: "only L d d'" and b: "d_files d' (d_loc d p) = d_files d (d_loc d p)"
  show ?thesis unfolding fopen_rb_def Let_def only_fields [OF a] b ..
qed

lemma only_version:
  "only L d d' \<Longrightarrow> d_files d' (d_loc d p) = d_files d (d_loc d p) \<Longrightarrow> version_current d' p v = version_current d p v"
  by (simp add: version_current_def astd_version_matches_def only_fopen only_fields Let_def)

lemma only_writable: "only L d d' \<Longrightarrow> writable d' pid p = writable d pid p"
  by (simp add: writable_def only_fields Let_def)

abbreviation at_target :: "disk \<Rightarrow> ptgt \<Rightarrow> string" where "at_target d t \<equiv> d_loc d (pt_abs t)"
abbreviation at_tmp :: "disk \<Rightarrow> nat \<Rightarrow> ptgt \<Rightarrow> string" where "at_tmp d pid t \<equiv> d_loc d (tmp_path pid (pt_abs t))"

definition apart :: "disk \<Rightarrow> nat \<Rightarrow> ptgt list \<Rightarrow> bool" where
  "apart d pid tg \<longleftrightarrow> distinct (map (at_target d) tg @ map (at_tmp d pid) tg)"

abbreviation places :: "disk \<Rightarrow> nat \<Rightarrow> ptgt list \<Rightarrow> string set" where
  "places d pid tg \<equiv> at_target d ` set tg \<union> at_tmp d pid ` set tg"

lemma apart_Cons:
  "apart d pid (t # ts) \<longleftrightarrow> apart d pid ts \<and> at_target d t \<noteq> at_tmp d pid t \<and>
     at_target d t \<notin> places d pid ts \<and> at_tmp d pid t \<notin> places d pid ts"
  by (auto simp: apart_def)

lemma apart_only: "only L d d' \<Longrightarrow> apart d' pid tg = apart d pid tg"
  by (simp add: apart_def only_fields)

text \<open>What a target is to hold.\<close>

definition new_file :: "ptgt \<Rightarrow> byte list option" where
  "new_file t = (if pt_delete t then None else Some (bytes_of (denorm (pt_cur t) (pt_crlf t))))"

definition new_version :: "ptgt \<Rightarrow> string" where
  "new_version t = (case new_file t of None \<Rightarrow> ''absent'' | Some bs \<Rightarrow> astd_version bs)"

definition was_written :: "disk \<Rightarrow> nat \<Rightarrow> ptgt \<Rightarrow> bool" where
  "was_written d pid t \<longleftrightarrow> version_current d (pt_abs t) (pt_base t) \<and>
     (if pt_delete t then \<not> d_pin d (at_target d t) \<and> \<not> d_other d (at_target d t) \<and> d_files d (at_target d t) \<noteq> None
      else writable d pid (pt_abs t))"

lemma write_target_cases:
  assumes "write_target d pid t = (ok, d', t')" "at_target d t \<noteq> at_tmp d pid t"
  shows "only {at_target d t, at_tmp d pid t} d d' \<and>
    (if ok then t' = t\<lparr>pt_written := Some (new_version t)\<rparr> \<and> d_files d' (at_target d t) = new_file t \<and> was_written d pid t \<and>
        (if pt_delete t then d_files d' (at_tmp d pid t) = d_files d (at_tmp d pid t) else d_files d' (at_tmp d pid t) = None)
     else t' = t \<and> d_files d' (at_target d t) = d_files d (at_target d t))"
proof (cases "pt_delete t")
  case True
  show ?thesis
  proof (cases "version_current d (pt_abs t) (pt_base t)")
    case False
    then show ?thesis using assms(1) True by (simp add: write_target_def)
  next
    case cur: True
    obtain ok2 d2 where u: "unlink_file d (pt_abs t) = (ok2, d2)" by (cases "unlink_file d (pt_abs t)")
    then have r: "ok = ok2" "d' = d2" "t' = (if ok2 then t\<lparr>pt_written := Some ''absent''\<rparr> else t)"
      using assms(1) True cur by (auto simp: write_target_def split: if_splits)
    from unlink_cases [OF u] show ?thesis using r True cur only_set [of "at_target d t" d None] assms(2)
      by (cases ok2) (auto simp: new_version_def new_file_def was_written_def intro: only_mono)
  qed
next
  case False
  let ?raw = "bytes_of (denorm (pt_cur t) (pt_crlf t))"
  obtain ok2 d2 where u: "write_atomic d pid (pt_abs t) ?raw (Some (pt_base t)) = (ok2, d2)"
    by (cases "write_atomic d pid (pt_abs t) ?raw (Some (pt_base t))")
  then have r: "ok = ok2" "d' = d2" "t' = (if ok2 then t\<lparr>pt_written := Some (astd_version ?raw)\<rparr> else t)"
    using assms(1) False by (auto simp: write_target_def Let_def split: if_splits)
  note c = write_atomic_cases [OF u assms(2) [symmetric]]
  show ?thesis
  proof (cases ok2)
    case True
    with c have d2: "d2 = set_file (set_file d (at_target d t) (Some ?raw)) (at_tmp d pid t) None"
      and w: "was_written d pid t" using False by (simp_all add: was_written_def)
    have "only {at_target d t, at_tmp d pid t} d d2"
      unfolding d2 using only_trans [OF only_set only_set] by (simp add: insert_commute)
    then show ?thesis using r True d2 w False assms(2) by (simp add: new_version_def new_file_def)
  next
    case no: False
    with c obtain x where "d2 = set_file d (at_tmp d pid t) x" by auto
    then show ?thesis using r no assms(2) only_set [of "at_tmp d pid t" d x] by (auto intro: only_mono)
  qed
qed

text \<open>A target after the writing phase: as it was, or written.\<close>

definition outcome :: "disk \<Rightarrow> nat \<Rightarrow> disk \<Rightarrow> ptgt \<Rightarrow> ptgt \<Rightarrow> bool" where
  "outcome d pid d' t t' \<longleftrightarrow>
     (t' = t \<and> d_files d' (at_target d t) = d_files d (at_target d t)) \<or>
     (t' = t\<lparr>pt_written := Some (new_version t)\<rparr> \<and> d_files d' (at_target d t) = new_file t \<and> was_written d pid t \<and>
        (if pt_delete t then d_files d' (at_tmp d pid t) = d_files d (at_tmp d pid t) else d_files d' (at_tmp d pid t) = None))"

lemma write_target_outcome:
  assumes "write_target d pid t = (ok, d', t')" "at_target d t \<noteq> at_tmp d pid t" "pt_written t = None"
  shows "only {at_target d t, at_tmp d pid t} d d' \<and> outcome d pid d' t t' \<and> (ok \<longleftrightarrow> pt_written t' \<noteq> None)"
  using write_target_cases [OF assms(1,2)] assms(3) unfolding outcome_def
  by (cases ok; cases "pt_delete t") auto

lemma outcome_later:
  assumes "outcome d pid d1 t t'" "only L d1 d2" "at_target d t \<notin> L" "at_tmp d pid t \<notin> L"
  shows "outcome d pid d2 t t'"
  using assms(1) unfolding outcome_def only_files [OF assms(2,3)] only_files [OF assms(2,4)] .

lemma outcome_earlier:
  assumes "only L d d1" "outcome d1 pid d2 t t'" "at_target d t \<notin> L" "at_tmp d pid t \<notin> L"
  shows "outcome d pid d2 t t'"
proof -
  note f = only_fields [OF assms(1)] and e = only_files [OF assms(1) assms(3)] only_files [OF assms(1) assms(4)]
  have "was_written d1 pid t = was_written d pid t"
    using only_version [OF assms(1) e(1)] only_writable [OF assms(1)] e by (simp add: was_written_def f)
  then show ?thesis using assms(2) unfolding outcome_def f e by simp
qed

lemma write_targets_outcome:
  assumes "write_targets d pid tg = (ok, d', tg')" "apart d pid tg" "\<forall>t \<in> set tg. pt_written t = None"
  shows "only (places d pid tg) d d' \<and> list_all2 (outcome d pid d') tg tg' \<and> (ok \<longrightarrow> (\<forall>t \<in> set tg'. pt_written t \<noteq> None))"
  using assms
proof (induction tg arbitrary: d ok d' tg')
  case (Cons t ts)
  obtain ok1 d1 t1 where w: "write_target d pid t = (ok1, d1, t1)" by (cases "write_target d pid t")
  have ap: "at_target d t \<noteq> at_tmp d pid t" "at_target d t \<notin> places d pid ts" "at_tmp d pid t \<notin> places d pid ts" "apart d pid ts"
    using Cons.prems(2) by (auto simp: apart_Cons)
  from write_target_outcome [OF w ap(1)] Cons.prems(3)
  have t: "only {at_target d t, at_tmp d pid t} d d1" "outcome d pid d1 t t1" "ok1 \<longleftrightarrow> pt_written t1 \<noteq> None" by auto
  note f = only_fields [OF t(1)]
  have outside: "at_target d u \<notin> {at_target d t, at_tmp d pid t}" "at_tmp d pid u \<notin> {at_target d t, at_tmp d pid t}" if "u \<in> set ts" for u
    using ap(2,3) that by (auto, metis imageI)+
  show ?case
  proof (cases ok1)
    case False
    with Cons.prems(1) w have r: "ok = False" "d' = d1" "tg' = t1 # ts" by auto
    have "outcome d pid d1 u u" if "u \<in> set ts" for u
      using only_files [OF t(1) outside(1) [OF that]] by (simp add: outcome_def)
    then have "list_all2 (outcome d pid d1) ts ts" by (simp add: list_all2_same)
    with t r show ?thesis by (auto intro: only_mono)
  next
    case True
    obtain ok2 d2 ts2 where ws: "write_targets d1 pid ts = (ok2, d2, ts2)" by (cases "write_targets d1 pid ts")
    with Cons.prems(1) w True have r: "ok = ok2" "d' = d2" "tg' = t1 # ts2" by auto
    have "apart d1 pid ts" using ap(4) apart_only [OF t(1)] by simp
    from Cons.IH [OF ws this] Cons.prems(3)
    have ih: "only (places d pid ts) d1 d2" "list_all2 (outcome d1 pid d2) ts ts2" "ok2 \<longrightarrow> (\<forall>t \<in> set ts2. pt_written t \<noteq> None)"
      by (auto simp: f)
    have "list_all2 (outcome d pid d2) ts ts2"
      using ih(2) by (rule list.rel_mono_strong) (use outcome_earlier [OF t(1)] outside in blast)
    moreover have "outcome d pid d2 t t1" by (rule outcome_later [OF t(2) ih(1) ap(2,3)])
    moreover have "only (places d pid (t # ts)) d d2" by (rule only_mono [OF only_trans [OF t(1) ih(1)]]) auto
    ultimately show ?thesis using r ih(3) t(3) True by simp
  qed
qed simp

text \<open>What the rollback relies on: the target was loaded from the disk, and a created or deleted file can be undone.\<close>

definition loaded :: "disk \<Rightarrow> ptgt \<Rightarrow> bool" where
  "loaded d t \<longleftrightarrow> pt_written t = None \<and>
     (if pt_existed t then \<exists>raw. pt_raw t = Some raw \<and> content d (pt_abs t) = Some raw \<and> pt_base t = astd_version raw
      else pt_raw t = None \<and> pt_base t = ''absent'')"

definition undoable :: "disk \<Rightarrow> nat \<Rightarrow> ptgt \<Rightarrow> bool" where
  "undoable d pid t \<longleftrightarrow>
     (\<not> pt_existed t \<longrightarrow> \<not> d_pin d (at_target d t) \<and> \<not> d_deny d (at_target d t) \<and> d_bad d (at_target d t) = None) \<and>
     (pt_delete t \<longrightarrow> writable d pid (pt_abs t) \<and> (d_files d (at_tmp d pid t) = None \<or> \<not> d_pin d (at_tmp d pid t)))"

lemma content_fields:
  "content d p = Some bs \<longleftrightarrow> d_files d (d_loc d p) = Some bs \<and> \<not> d_deny d (d_loc d p) \<and> \<not> d_hidden d (d_loc d p) \<and> d_bad d (d_loc d p) = None"
  by (auto simp: content_def fopen_rb_def Let_def split: option.splits if_splits)



section \<open>The command as a whole\<close>

definition target_fine :: "disk \<Rightarrow> string \<Rightarrow> ptgt \<Rightarrow> bool" where
  "target_fine d ws t \<longleftrightarrow> loaded d t \<and> under_prefix (pt_abs t) ws"

lemma contain_under: "contain_target realpath path ws = Some r \<Longrightarrow> under_prefix r ws"
  by (auto simp: contain_target_def split: option.splits if_splits)

lemma load_target_fine: "load_target d path is_create = Inr t \<Longrightarrow> loaded d t \<and> pt_abs t = path"
  by (auto simp: load_target_def loaded_def read_raw_content split: if_splits option.splits prod.splits)

lemma find_target_less: "find_target path tg = Some k \<Longrightarrow> k < length tg"
  by (auto simp: find_target_def Let_def split: if_splits)

lemma section_target_fine:
  assumes "section_target realpath d ws strip old_name new_name tg = Inr (tg', k)" "\<forall>t \<in> set tg. target_fine d ws t"
  shows "k < length tg' \<and> (\<forall>t \<in> set tg'. target_fine d ws t)"
  using assms contain_under load_target_fine find_target_less
  by (fastforce simp: section_target_def target_fine_def Let_def split: if_splits option.splits sum.splits)

lemma patch_sections_fine:
  assumes "patch_sections realpath d ws strip ls tg hunks n = Inr (tg', hunks', n')" "\<forall>t \<in> set tg. target_fine d ws t"
  shows "\<forall>t \<in> set tg'. target_fine d ws t"
  using assms
proof (induction "length ls" arbitrary: ls tg hunks n rule: less_induct)
  case less
  show ?case
  proof (cases ls)
    case Nil
    with less.prems show ?thesis by (simp add: patch_sections.simps [of realpath d ws strip "[]"])
  next
    case (Cons l ls')
    show ?thesis
    proof (cases "starts_with l ''--- '' \<and> ls' \<noteq> [] \<and> starts_with (hd ls') ''+++ ''")
      case False
      with less.prems(1) Cons have "patch_sections realpath d ws strip ls' tg hunks n = Inr (tg', hunks', n')"
        by (simp add: patch_sections.simps [of realpath d ws strip "l # ls'"])
      from less.hyps [OF _ this less.prems(2)] Cons show ?thesis by simp
    next
      case True
      let ?old = "path_field (drop 4 l)" and ?new = "path_field (drop 4 (hd ls'))"
      from less.prems(1) Cons True obtain tg1 k hs rest out where
        s: "section_target realpath d ws strip ?old ?new tg = Inr (tg1, k)"
        and c: "collect_hunks (tl ls') = Some (hs, rest)"
        and p: "patch_sections realpath d ws strip rest (tg1[k := (tg1 ! k)\<lparr>pt_cur := out, pt_delete := (?new = ''/dev/null'')\<rparr>])
            (hunks + length hs) (Suc n) = Inr (tg', hunks', n')"
        by (simp add: patch_sections.simps [of realpath d ws strip "l # ls'"] Let_def split: sum.splits option.splits prod.splits if_splits)
      from section_target_fine [OF s less.prems(2)] have k: "k < length tg1" and fine: "\<forall>t \<in> set tg1. target_fine d ws t" by auto
      have "\<forall>t \<in> set (tg1[k := (tg1 ! k)\<lparr>pt_cur := out, pt_delete := (?new = ''/dev/null'')\<rparr>]). target_fine d ws t"
        using fine k set_update_subset_insert [of tg1 k] by (fastforce simp: target_fine_def loaded_def)
      moreover have "length rest < length ls" using collect_hunks_split [OF c] Cons by simp
      ultimately show ?thesis using less.hyps p by blast
    qed
  qed
qed

text \<open>The hypotheses on a run: distinct places, and files that can be put back.\<close>

definition patch_safe :: "(string \<Rightarrow> string option) \<Rightarrow> nat \<Rightarrow> string \<Rightarrow> string \<Rightarrow> int \<Rightarrow> disk \<Rightarrow> bool" where
  "patch_safe realpath pid ws ptext strip d \<longleftrightarrow>
     (case patch_sections realpath d ws (if strip < 0 then 0 else strip) (patch_lines ptext) [] 0 0 of Inl e \<Rightarrow> True
      | Inr (tg, hunks, n) \<Rightarrow> apart d pid tg \<and> list_all (undoable d pid) tg)"


section \<open>Samples\<close>

text \<open>Two files in a workspace; the second patch names a file whose replacement fails.\<close>

definition edit_disk :: "bool \<Rightarrow> disk" where
  "edit_disk faulty =
     \<lparr>d_loc = (\<lambda>p. p),
      d_files = (\<lambda>l. if l = ''/w/a'' then Some (bytes_of (''x'' @ [nl])) else if l = ''/w/b'' then Some (bytes_of (''y'' @ [nl])) else None),
      d_other = (\<lambda>l. False), d_deny = (\<lambda>l. False), d_bad = (\<lambda>l. None), d_hidden = (\<lambda>l. False), d_ro = (\<lambda>l. False),
      d_werr = (\<lambda>l. if faulty \<and> l = tmp_path 7 ''/w/b'' then Some 0 else None), d_mverr = (\<lambda>s t. None), d_pin = (\<lambda>l. False)\<rparr>"

definition edit_patch :: string where
  "edit_patch = join_lines [''--- a/a'', ''+++ b/a'', ''@@ -1 +1 @@'', ''-x'', ''+z'', ''--- a/b'', ''+++ b/b'', ''@@ -1 +1 @@'', ''-y'', ''+w''] True"

definition edit_target :: "string \<Rightarrow> string \<Rightarrow> string \<Rightarrow> ptgt" where
  "edit_target path was is =
     \<lparr>pt_abs = path, pt_raw = Some (bytes_of (was @ [nl])), pt_cur = is @ [nl], pt_existed = True, pt_crlf = False, pt_delete = False,
      pt_base = astd_version (bytes_of (was @ [nl])), pt_written = None\<rparr>"

lemma edit_load:
  "load_target (edit_disk f) ''/w/a'' False = Inr ((edit_target ''/w/a'' ''x'' [])\<lparr>pt_cur := ''x'' @ [nl]\<rparr>)"
  "load_target (edit_disk f) ''/w/b'' False = Inr ((edit_target ''/w/b'' ''y'' [])\<lparr>pt_cur := ''y'' @ [nl]\<rparr>)"
proof -
  have r: "read_raw (edit_disk f) ''/w/a'' = Some (bytes_of (''x'' @ [nl]))" "read_raw (edit_disk f) ''/w/b'' = Some (bytes_of (''y'' @ [nl]))"
    by (simp_all add: read_raw_def fopen_rb_def edit_disk_def)
  have n: "normalize_lf (''x'' @ [nl]) = (''x'' @ [nl], False)" "normalize_lf (''y'' @ [nl]) = (''y'' @ [nl], False)"
    "\<not> astd_looks_binary_text (''x'' @ [nl])" "\<not> astd_looks_binary_text (''y'' @ [nl])" by code_simp+
  show "load_target (edit_disk f) ''/w/a'' False = Inr ((edit_target ''/w/a'' ''x'' [])\<lparr>pt_cur := ''x'' @ [nl]\<rparr>)"
    "load_target (edit_disk f) ''/w/b'' False = Inr ((edit_target ''/w/b'' ''y'' [])\<lparr>pt_cur := ''y'' @ [nl]\<rparr>)"
    by (simp_all only: load_target_def r n if_False option.case text_of_bytes_of prod.case edit_target_def ptgt.simps simp_thms)
qed

lemma edit_sections:
  "patch_sections Some (edit_disk f) ''/w'' 1 (patch_lines edit_patch) [] 0 0 =
     Inr ([edit_target ''/w/a'' ''x'' ''z'', edit_target ''/w/b'' ''y'' ''w''], 2, 2)"
proof -
  let ?h = "\<lambda>a b. \<lparr>h_a = 1, h_b = 1, h_c = 1, h_d = 1, h_body = [a, b]\<rparr>"
  let ?l2 = "[''--- a/b'', ''+++ b/b'', ''@@ -1 +1 @@'', ''-y'', ''+w'']"
  have ls: "patch_lines edit_patch = ''--- a/a'' # ''+++ b/a'' # ''@@ -1 +1 @@'' # ''-x'' # ''+z'' # ?l2" by code_simp
  have heads: "starts_with ''--- a/a'' ''--- ''" "starts_with ''+++ b/a'' ''+++ ''" "starts_with ''--- a/b'' ''--- ''" "starts_with ''+++ b/b'' ''+++ ''"
    "path_field ''a/a'' = ''a/a''" "path_field ''b/a'' = ''b/a''" "path_field ''a/b'' = ''a/b''" "path_field ''b/b'' = ''b/b''" by code_simp+
  have hunks: "collect_hunks (''@@ -1 +1 @@'' # ''-x'' # ''+z'' # ?l2) = Some ([?h ''-x'' ''+z''], ?l2)"
    "collect_hunks [''@@ -1 +1 @@'', ''-y'', ''+w''] = Some ([?h ''-y'' ''+w''], [])" by code_simp+
  have app: "apply_section (''x'' @ [nl]) [?h ''-x'' ''+z''] = Some (''z'' @ [nl])"
    "apply_section (''y'' @ [nl]) [?h ''-y'' ''+w''] = Some (''w'' @ [nl])" by code_simp+
  have s: "strip_and_check ''b/a'' 1 = Some ''a''" "strip_and_check ''b/b'' 1 = Some ''b''"
    "under_prefix ''/w/a'' ''/w''" "under_prefix ''/w/b'' ''/w''" by code_simp+
  have c: "contain_target Some ''/w/a'' ''/w'' = Some ''/w/a''" "contain_target Some ''/w/b'' ''/w'' = Some ''/w/b''"
    using s(3,4) by (simp_all add: contain_target_def contain_walk.simps)
  have t1: "section_target Some (edit_disk f) ''/w'' 1 ''a/a'' ''b/a'' [] = Inr ([(edit_target ''/w/a'' ''x'' [])\<lparr>pt_cur := ''x'' @ [nl]\<rparr>], 0)"
    using c(1) edit_load(1) by (simp add: section_target_def find_target_def s(1))
  have t2: "section_target Some (edit_disk f) ''/w'' 1 ''a/b'' ''b/b'' [edit_target ''/w/a'' ''x'' ''z''] =
      Inr ([edit_target ''/w/a'' ''x'' ''z'', (edit_target ''/w/b'' ''y'' [])\<lparr>pt_cur := ''y'' @ [nl]\<rparr>], 1)"
    using c(2) edit_load(2) by (simp add: section_target_def find_target_def s(2) edit_target_def)
  have one: "patch_sections Some (edit_disk f) ''/w'' 1 (''--- a/a'' # ''+++ b/a'' # ''@@ -1 +1 @@'' # ''-x'' # ''+z'' # ?l2) [] 0 0 =
      patch_sections Some (edit_disk f) ''/w'' 1 ?l2 [edit_target ''/w/a'' ''x'' ''z''] 1 1"
    by (subst patch_sections.simps) (simp add: heads t1 hunks(1) Let_def, simp add: edit_target_def app(1) [simplified])
  have two: "patch_sections Some (edit_disk f) ''/w'' 1 ?l2 [edit_target ''/w/a'' ''x'' ''z''] 1 1 =
      patch_sections Some (edit_disk f) ''/w'' 1 [] [edit_target ''/w/a'' ''x'' ''z'', edit_target ''/w/b'' ''y'' ''w''] 2 2"
    by (subst patch_sections.simps) (simp add: heads t2 hunks(2) Let_def, simp add: edit_target_def app(2) [simplified] numeral_2_eq_2)
  show ?thesis unfolding ls one two by (simp add: patch_sections.simps)
qed

abbreviation edit_targets :: "ptgt list" where
  "edit_targets \<equiv> [edit_target ''/w/a'' ''x'' ''z'', edit_target ''/w/b'' ''y'' ''w'']"

lemma edit_facts:
  "tmp_path 7 ''/w/a'' = ''/w/a.astools-tmp-7''" "tmp_path 7 ''/w/b'' = ''/w/b.astools-tmp-7''"
  "d_loc (edit_disk f) p = p"
  "version_current (edit_disk f) ''/w/a'' (astd_version (bytes_of (''x'' @ [nl])))"
  "version_current (edit_disk f) ''/w/b'' (astd_version (bytes_of (''y'' @ [nl])))"
  "writable (edit_disk f) 7 ''/w/a''" "writable (edit_disk f) 7 ''/w/b'' \<longleftrightarrow> \<not> f"
proof -
  show t: "tmp_path 7 ''/w/a'' = ''/w/a.astools-tmp-7''" "tmp_path 7 ''/w/b'' = ''/w/b.astools-tmp-7''" by code_simp+
  show "d_loc (edit_disk f) p = p" by (simp add: edit_disk_def)
  have "content (edit_disk f) ''/w/a'' = Some (bytes_of (''x'' @ [nl]))" "content (edit_disk f) ''/w/b'' = Some (bytes_of (''y'' @ [nl]))"
    by (simp_all add: content_fields edit_disk_def)
  then show "version_current (edit_disk f) ''/w/a'' (astd_version (bytes_of (''x'' @ [nl])))"
    "version_current (edit_disk f) ''/w/b'' (astd_version (bytes_of (''y'' @ [nl])))"
    unfolding version_current_def version_matches_iff by simp_all
  show "writable (edit_disk f) 7 ''/w/a''" "writable (edit_disk f) 7 ''/w/b'' \<longleftrightarrow> \<not> f"
    by (simp_all add: writable_def t edit_disk_def)
qed

lemma edit_apart: "apart (edit_disk f) 7 edit_targets" "\<forall>t \<in> set edit_targets. undoable (edit_disk f) 7 t"
  by (simp_all add: apart_def edit_target_def edit_facts undoable_def)

lemma edit_safe: "patch_safe Some 7 ''/w'' edit_patch 1 (edit_disk f)"
  using edit_apart by (simp add: patch_safe_def edit_sections)

text \<open>The first target can be written; whether the second can decides the outcome.\<close>

lemma edit_first:
  obtains d1 t1 where "write_target (edit_disk f) 7 (edit_target ''/w/a'' ''x'' ''z'') = (True, d1, t1)"
    "only {''/w/a'', ''/w/a.astools-tmp-7''} (edit_disk f) d1"
proof -
  let ?t = "edit_target ''/w/a'' ''x'' ''z''"
  obtain ok d1 t1 where w: "write_target (edit_disk f) 7 ?t = (ok, d1, t1)" by (cases "write_target (edit_disk f) 7 ?t")
  have abs: "pt_abs ?t = ''/w/a''" "\<not> pt_delete ?t" "pt_base ?t = astd_version (bytes_of (''x'' @ [nl]))" by (simp_all add: edit_target_def)
  have ne: "at_target (edit_disk f) ?t \<noteq> at_tmp (edit_disk f) 7 ?t" by (simp add: abs edit_facts)
  have "d_files (edit_disk f) (d_loc (edit_disk f) (tmp_path 7 ''/w/a'')) = None" by (simp add: edit_facts) (simp add: edit_disk_def)
  then have "fst (write_atomic (edit_disk f) 7 ''/w/a'' data (Some (astd_version (bytes_of (''x'' @ [nl])))))" for data
    by (intro write_atomic_ok edit_facts) (simp_all add: edit_facts)
  then have ok using w abs by (auto simp: write_target_def Let_def split: prod.splits if_splits) (metis fst_conv)+
  with w write_target_cases [OF w ne] that show thesis by (simp add: abs edit_facts)
qed

lemma edit_second:
  assumes "only {''/w/a'', ''/w/a.astools-tmp-7''} (edit_disk f) d1"
  shows "fst (write_target d1 7 (edit_target ''/w/b'' ''y'' ''w'')) \<longleftrightarrow> \<not> f"
proof -
  let ?t = "edit_target ''/w/b'' ''y'' ''w''"
  note fields = only_fields [OF assms]
  obtain ok d2 t2 where w: "write_target d1 7 ?t = (ok, d2, t2)" by (cases "write_target d1 7 ?t")
  have abs: "pt_abs ?t = ''/w/b''" "\<not> pt_delete ?t" "pt_base ?t = astd_version (bytes_of (''y'' @ [nl]))" by (simp_all add: edit_target_def)
  have ne: "at_target d1 ?t \<noteq> at_tmp d1 7 ?t" by (simp add: abs edit_facts fields)
  have wr: "writable d1 7 ''/w/b'' \<longleftrightarrow> \<not> f" using only_writable [OF assms] edit_facts(7) by simp
  have same: "d_files d1 (d_loc (edit_disk f) ''/w/b'') = d_files (edit_disk f) (d_loc (edit_disk f) ''/w/b'')"
    "d_files d1 ''/w/b.astools-tmp-7'' = None"
    using only_files [OF assms, of "''/w/b''"] only_files [OF assms, of "''/w/b.astools-tmp-7''"]
    by (simp_all add: edit_facts) (simp add: edit_disk_def)
  have v: "version_current d1 ''/w/b'' (astd_version (bytes_of (''y'' @ [nl])))" using only_version [OF assms same(1)] edit_facts(5) by simp
  show ?thesis
  proof (cases f)
    case True
    with write_target_cases [OF w ne] wr abs have "\<not> ok" by (auto simp: was_written_def)
    with w True show ?thesis by simp
  next
    case False
    have "d_files d1 (d_loc d1 (tmp_path 7 ''/w/b'')) = None" using same by (simp add: edit_facts fields)
    then have "fst (write_atomic d1 7 ''/w/b'' data (Some (astd_version (bytes_of (''y'' @ [nl])))))" for data
      by (intro write_atomic_ok v) (use wr False in \<open>simp_all add: edit_facts fields\<close>)
    then have ok using w abs by (auto simp: write_target_def Let_def split: prod.splits if_splits) (metis fst_conv)+
    with w False show ?thesis by simp
  qed
qed

lemma edit_runs: "(\<exists>files d'. cmd_patch Some 7 ''edit'' (Some ''/w'') (Some edit_patch) 1 None (edit_disk False) = (Inr (files, 2), d'))"
  "(\<exists>d'. cmd_patch Some 7 ''edit'' (Some ''/w'') (Some edit_patch) 1 None (edit_disk True) = (Inl ''edit/io'', d'))"
proof -
  have ex: "expected_ok None (edit_disk f) edit_targets" for f
    using edit_facts(4,5) by (simp add: expected_ok_def edit_target_def)
  have ne: "edit_patch \<noteq> []" by (simp add: edit_patch_def)
  have ok: "fst (write_targets (edit_disk f) 7 edit_targets) \<longleftrightarrow> \<not> f" for f
  proof -
    obtain d1 t1 where one: "write_target (edit_disk f) 7 (edit_target ''/w/a'' ''x'' ''z'') = (True, d1, t1)"
      "only {''/w/a'', ''/w/a.astools-tmp-7''} (edit_disk f) d1" using edit_first by blast
    from edit_second [OF one(2)] one(1) show ?thesis by (auto split: prod.splits bool.splits)
  qed
  have run: "\<exists>d1 tg1. write_targets (edit_disk f) 7 edit_targets = (\<not> f, d1, tg1)" for f
    using ok [of f] by (cases "write_targets (edit_disk f) 7 edit_targets") auto
  obtain d1 tg1 where good: "write_targets (edit_disk False) 7 edit_targets = (True, d1, tg1)" using run [of False] by auto
  obtain d2 tg2 where bad: "write_targets (edit_disk True) 7 edit_targets = (False, d2, tg2)" using run [of True] by auto
  show "\<exists>files d'. cmd_patch Some 7 ''edit'' (Some ''/w'') (Some edit_patch) 1 None (edit_disk False) = (Inr (files, 2), d')"
    using ne ex [of False] good by (simp add: cmd_patch_def edit_sections Let_def del: write_targets.simps)
  show "\<exists>d'. cmd_patch Some 7 ''edit'' (Some ''/w'') (Some edit_patch) 1 None (edit_disk True) = (Inl ''edit/io'', d')"
    using ne ex [of True] bad by (simp add: cmd_patch_def edit_sections Let_def patch_error_code_def del: write_targets.simps)
qed




text \<open>
  A patch that succeeds writes what it says and nothing else: every target lies in the workspace, had the version reported as
  its version before, and holds its patched content, or is gone; no other file has changed.
\<close>

theorem patch_success:
  assumes "cmd_patch realpath pid tool (Some ws) (Some ptext) strip expected d = (Inr (files, hunks), d')"
    and "patch_safe realpath pid ws ptext strip d"
  shows "\<exists>tg n. patch_sections realpath d ws (if strip < 0 then 0 else strip) (patch_lines ptext) [] 0 0 = Inr (tg, hunks, Suc n) \<and>
    files = map (\<lambda>t. (pt_abs t, pt_base t, new_version t)) tg \<and>
    (\<forall>t \<in> set tg. under_prefix (pt_abs t) ws \<and> version_current d (pt_abs t) (pt_base t) \<and> d_files d' (at_target d t) = new_file t) \<and>
    (\<forall>l. l \<notin> places d pid tg \<longrightarrow> d_files d' l = d_files d l)"
proof -
  from assms(1) obtain tg n where
    s: "patch_sections realpath d ws (if strip < 0 then 0 else strip) (patch_lines ptext) [] 0 0 = Inr (tg, hunks, n)"
    and n: "n \<noteq> 0" and ex: "expected_ok expected d tg"
    by (auto simp: cmd_patch_def Let_def split: if_splits sum.splits prod.splits)
  obtain ok d1 tg1 where w: "write_targets d pid tg = (ok, d1, tg1)" by (cases "write_targets d pid tg")
  have r: "ok" "d' = d1" "files = map (\<lambda>t. (pt_abs t, pt_base t, case pt_written t of None \<Rightarrow> [] | Some v \<Rightarrow> v)) tg1"
    using assms(1) s n ex w by (auto simp: cmd_patch_def Let_def split: if_splits)
  have safe: "apart d pid tg" using assms(2) s by (simp add: patch_safe_def)
  have fine: "\<forall>t \<in> set tg. target_fine d ws t" using patch_sections_fine [OF s] by simp
  then have "\<forall>t \<in> set tg. pt_written t = None" by (simp add: target_fine_def loaded_def)
  from write_targets_outcome [OF w safe this] r(1)
  have o: "only (places d pid tg) d d1" "list_all2 (outcome d pid d1) tg tg1" "\<forall>t \<in> set tg1. pt_written t \<noteq> None" by auto
  have all: "list_all2 (\<lambda>t t'. t' = t\<lparr>pt_written := Some (new_version t)\<rparr> \<and> d_files d1 (at_target d t) = new_file t) tg tg1"
    using o(2)
    by (rule list.rel_mono_strong) (use o(3) fine in \<open>auto simp: outcome_def target_fine_def loaded_def\<close>)
  have "files = map (\<lambda>t. (pt_abs t, pt_base t, new_version t)) tg"
    unfolding r(3) using all by (induction tg tg1 rule: list_all2_induct) auto
  moreover have "d_files d1 (at_target d t) = new_file t" if "t \<in> set tg" for t
    using all that by (auto simp: list_all2_conv_all_nth in_set_conv_nth)
  moreover have "version_current d (pt_abs t) (pt_base t)" if "t \<in> set tg" for t
    using ex that by (auto simp: expected_ok_def list_all_iff)
  ultimately show ?thesis using s n fine r(2) only_files [OF o(1)]
    by (intro exI [of _ tg] exI [of _ "n - 1"]) (auto simp: target_fine_def)
qed

theorem patch_success_witness:
  "\<exists>files d'. cmd_patch Some 7 ''edit'' (Some ''/w'') (Some edit_patch) 1 None (edit_disk False) = (Inr (files, 2), d') \<and>
     d_files d' ''/w/a'' = Some (bytes_of (''z'' @ [nl])) \<and> d_files d' ''/w/b'' = Some (bytes_of (''w'' @ [nl]))"
proof -
  obtain files d' where run: "cmd_patch Some 7 ''edit'' (Some ''/w'') (Some edit_patch) 1 None (edit_disk False) = (Inr (files, 2), d')"
    using edit_runs(1) by blast
  from patch_success [OF run edit_safe] have "\<forall>t \<in> set edit_targets. d_files d' (at_target (edit_disk False) t) = new_file t"
    by (auto simp: edit_sections)
  with run show ?thesis by (simp add: edit_target_def edit_facts new_file_def denorm_def)
qed

end
