(* ===== verification/As_Replace.thy ===== *)
theory As_Replace
  imports As_Edit As_RegexSearch
begin

text \<open>
  The replace and insert commands of \<^verbatim>\<open>std/tool_edit.c\<close>: literal and regular-expression replacement, insertion of lines, and
  the commands on a disk. Errors are codes; texts of messages are not modelled.
\<close>

section \<open>Literal text\<close>

text \<open>The pattern is not empty; an empty one is refused before.\<close>

function count_literal :: "string \<Rightarrow> string \<Rightarrow> nat" where
  "count_literal pat h =
     (if pat \<noteq> [] \<and> length pat \<le> length h then
        (if take (length pat) h = pat then Suc (count_literal pat (drop (length pat) h)) else count_literal pat (tl h))
      else 0)"
  by pat_completeness auto
termination by (relation "measure (\<lambda>(pat, h). length h)") (auto simp: neq_Nil_conv)

declare count_literal.simps [simp del]

function replace_literal :: "string \<Rightarrow> string \<Rightarrow> string \<Rightarrow> string" where
  "replace_literal pat rep h =
     (if h = [] then []
      else if pat \<noteq> [] \<and> length pat \<le> length h \<and> take (length pat) h = pat then rep @ replace_literal pat rep (drop (length pat) h)
      else hd h # replace_literal pat rep (tl h))"
  by pat_completeness auto
termination by (relation "measure (\<lambda>(pat, rep, h). length h)") (auto simp: neq_Nil_conv)

declare replace_literal.simps [simp del]

section \<open>Regular expressions\<close>

text \<open>
  The matches of a line from \<open>off\<close>; \<open>prev\<close> is the end of the last one. An empty match right after a match is skipped. The compiled
  expression carries scratch memory from search to search.
\<close>

function re_count_line :: "astd_regex \<Rightarrow> string \<Rightarrow> nat \<Rightarrow> nat option \<Rightarrow> nat \<Rightarrow> nat \<times> astd_regex" where
  "re_count_line rx s off prev c =
     (if off > length s then (c, rx)
      else case astd_regex_search rx (drop off s) of
        (None, rx) \<Rightarrow> (c, rx)
      | (Some (ms, me), rx) \<Rightarrow>
          if ms = me \<and> prev = Some (off + ms) then re_count_line rx s (off + ms + 1) prev c
          else re_count_line rx s (if me > ms then off + me else off + ms + 1) (Some (off + me)) (Suc c))"
  by pat_completeness auto
termination by (relation "measure (\<lambda>(rx, s, off, prev, c). Suc (length s) - off)") auto

declare re_count_line.simps [simp del]

function re_replace_line :: "astd_regex \<Rightarrow> string \<Rightarrow> string \<Rightarrow> nat \<Rightarrow> nat option \<Rightarrow> string \<Rightarrow> string \<times> astd_regex" where
  "re_replace_line rx s rep off prev out =
     (if off > length s then (out, rx)
      else case astd_regex_search rx (drop off s) of
        (None, rx) \<Rightarrow> (out @ drop off s, rx)
      | (Some (ms, me), rx) \<Rightarrow>
          let out = out @ take ms (drop off s); here = take 1 (drop (off + ms) s) in
          if ms = me \<and> prev = Some (off + ms) then re_replace_line rx s rep (off + ms + 1) prev (out @ here)
          else if me > ms then re_replace_line rx s rep (off + me) (Some (off + me)) (out @ rep)
          else re_replace_line rx s rep (off + ms + 1) (Some (off + me)) (out @ rep @ here))"
  by pat_completeness auto
termination by (relation "measure (\<lambda>(rx, s, rep, off, prev, out). Suc (length s) - off)") auto

declare re_replace_line.simps [simp del]

text \<open>All lines of a text.\<close>

function re_count :: "astd_regex \<Rightarrow> string \<Rightarrow> nat \<times> astd_regex" where
  "re_count rx s =
     (if s = [] then (0, rx)
      else case re_count_line rx (takeWhile (\<lambda>c. c \<noteq> nl) s) 0 None 0 of
        (c, rx) \<Rightarrow> (case re_count rx (tl (dropWhile (\<lambda>c. c \<noteq> nl) s)) of (n, rx) \<Rightarrow> (c + n, rx)))"
  by pat_completeness auto
termination by (relation "measure (\<lambda>(rx, s). length s)") (simp_all add: tl_dropWhile_shorter del: length_tl)

function re_replace :: "astd_regex \<Rightarrow> string \<Rightarrow> string \<Rightarrow> string \<times> astd_regex" where
  "re_replace rx s rep =
     (if s = [] then ([], rx)
      else let r = dropWhile (\<lambda>c. c \<noteq> nl) s in
        case re_replace_line rx (takeWhile (\<lambda>c. c \<noteq> nl) s) rep 0 None [] of
          (out, rx) \<Rightarrow> (case re_replace rx (tl r) rep of (outs, rx) \<Rightarrow> (out @ take 1 r @ outs, rx)))"
  by pat_completeness auto
termination by (relation "measure (\<lambda>(rx, s, rep). length s)") (simp_all add: tl_dropWhile_shorter del: length_tl)

declare re_count.simps [simp del] re_replace.simps [simp del]

section \<open>The commands\<close>

text \<open>What both commands read first: the content as text, its version, the text with its line ending.\<close>

definition open_text :: "disk \<Rightarrow> string \<Rightarrow> string option \<Rightarrow> string + (byte list \<times> string \<times> bool)" where
  "open_text d path expected =
     (case read_raw d path of None \<Rightarrow> Inl ''edit/io''
      | Some raw \<Rightarrow>
          if expected \<noteq> None \<and> expected \<noteq> Some (astd_version raw) then Inl ''edit/conflict''
          else if astd_looks_binary_text (text_of raw) then Inl ''edit/binary''
          else (case normalize_lf (text_of raw) of (lftext, crlf) \<Rightarrow> Inr (raw, lftext, crlf)))"

text \<open>\<open>cmd_replace\<close>: an error code, or the number of replacements, the size of the file and the path when it was written.\<close>

definition cmd_replace :: "nat \<Rightarrow> string option \<Rightarrow> string option \<Rightarrow> string \<Rightarrow> bool \<Rightarrow> bool \<Rightarrow> string option \<Rightarrow> disk \<Rightarrow>
    (string + (nat \<times> nat \<times> string option)) \<times> disk" where
  "cmd_replace pid path find_in rep all use_re expected d =
     (case (path, find_in) of
        (Some p, Some pat) \<Rightarrow>
          if pat = [] then (Inl ''astools/invalid-args'', d)
          else (case open_text d p expected of Inl e \<Rightarrow> (Inl e, d)
            | Inr (raw, lftext, crlf) \<Rightarrow>
                (case (if use_re then
                     (case astd_regex_compile (Some pat) True of Inl _ \<Rightarrow> None
                      | Inr rx \<Rightarrow> (case re_count rx lftext of (count, rx) \<Rightarrow> Some (count, fst (re_replace rx lftext rep))))
                   else Some (count_literal pat lftext, replace_literal pat rep lftext)) of
                   None \<Rightarrow> (Inl ''edit/bad-pattern'', d)
                 | Some (count, out) \<Rightarrow>
                     if \<not> all \<and> count = 0 then (Inl ''edit/not-found'', d)
                     else if \<not> all \<and> count > 1 then (Inl ''edit/ambiguous'', d)
                     else if count = 0 then (Inr (0, length raw, None), d)
                     else let outraw = bytes_of (denorm out crlf) in
                       (case write_atomic d pid p outraw (Some (astd_version raw)) of
                          (ok, d) \<Rightarrow> (if ok then Inr (count, length outraw, Some p) else Inl ''edit/io'', d))))
      | _ \<Rightarrow> (Inl ''astools/invalid-args'', d))"

text \<open>The text with lines inserted after line \<open>line\<close>.\<close>

definition insert_text :: "string \<Rightarrow> string \<Rightarrow> int \<Rightarrow> string" where
  "insert_text lftext clf line =
     (let ls = split_spans lftext; cs = split_spans clf;
          n = (if line > int (length ls) then length ls else nat line)
      in join_lines (take n ls @ cs @ drop n ls) (if lftext \<noteq> [] then had_nl lftext else had_nl clf))"

definition cmd_insert :: "nat \<Rightarrow> string option \<Rightarrow> string option \<Rightarrow> int \<Rightarrow> string option \<Rightarrow> disk \<Rightarrow> (string + (nat \<times> string)) \<times> disk" where
  "cmd_insert pid path content_in line expected d =
     (case (path, content_in) of
        (Some p, Some c) \<Rightarrow>
          (case open_text d p expected of Inl e \<Rightarrow> (Inl e, d)
           | Inr (raw, lftext, crlf) \<Rightarrow>
               let outraw = bytes_of (denorm (insert_text lftext (fst (normalize_lf c)) (if line < 0 then 0 else line)) crlf) in
               (case write_atomic d pid p outraw (Some (astd_version raw)) of
                  (ok, d) \<Rightarrow> (if ok then Inr (length outraw, p) else Inl ''edit/io'', d)))
      | _ \<Rightarrow> (Inl ''astools/invalid-args'', d))"

section \<open>Literal replacement\<close>

fun join_with :: "string \<Rightarrow> string list \<Rightarrow> string" where
  "join_with sep [] = []"
| "join_with sep [p] = p"
| "join_with sep (p # q # ps) = p @ sep @ join_with sep (q # ps)"

definition occurs_in :: "string \<Rightarrow> string \<Rightarrow> bool" where
  "occurs_in pat s \<longleftrightarrow> (\<exists>a b. s = a @ pat @ b)"

lemma occurs_Cons: "occurs_in pat (c # s) \<longleftrightarrow> take (length pat) (c # s) = pat \<or> occurs_in pat s"
proof
  assume "occurs_in pat (c # s)"
  then obtain a b where "c # s = a @ pat @ b" by (auto simp: occurs_in_def)
  then show "take (length pat) (c # s) = pat \<or> occurs_in pat s" by (cases a) (auto simp: occurs_in_def)
next
  assume "take (length pat) (c # s) = pat \<or> occurs_in pat s"
  then show "occurs_in pat (c # s)"
  proof
    assume "take (length pat) (c # s) = pat"
    then have "c # s = [] @ pat @ drop (length pat) (c # s)" by (metis append_Nil append_take_drop_id)
    then show ?thesis unfolding occurs_in_def by blast
  next
    assume "occurs_in pat s"
    then obtain a b where "c # s = (c # a) @ pat @ b" by (auto simp: occurs_in_def)
    then show ?thesis unfolding occurs_in_def by blast
  qed
qed

lemma occurs_length: "occurs_in pat s \<Longrightarrow> length pat \<le> length s"
  by (auto simp: occurs_in_def)

lemma replace_short: "length h < length pat \<Longrightarrow> replace_literal pat rep h = h"
  by (induction h) (simp_all add: replace_literal.simps [of pat rep "[]"] replace_literal.simps [of pat rep "_ # _"])

lemma join_with_Cons: "ps \<noteq> [] \<Longrightarrow> join_with sep (p # ps) = p @ sep @ join_with sep ps"
  by (cases ps) simp_all

lemma take_pat: "length pat \<le> length h \<Longrightarrow> take (length pat) (h @ r) = take (length pat) h"
  by simp

text \<open>The text is cut at the occurrences that are replaced, from the left; between them the pattern does not occur.\<close>

lemma replace_literal_parts:
  "pat \<noteq> [] \<Longrightarrow> \<exists>ps. length ps = Suc (count_literal pat h) \<and> h = join_with pat ps \<and> replace_literal pat rep h = join_with rep ps \<and>
     (\<forall>p \<in> set ps. \<not> occurs_in pat p)"
proof (induction pat h rule: count_literal.induct)
  case (1 pat h)
  show ?case
  proof (cases "length pat \<le> length h")
    case False
    then have "\<not> occurs_in pat h" using occurs_length by auto
    with False show ?thesis by (intro exI [of _ "[h]"]) (simp add: count_literal.simps [of pat h] replace_short)
  next
    case True
    with "1.prems" have c: "pat \<noteq> [] \<and> length pat \<le> length h" by simp
    then have ne: "h \<noteq> []" by auto
    show ?thesis
    proof (cases "take (length pat) h = pat")
      case match: True
      from "1.IH"(1) [OF c match] "1.prems" obtain ps where ps: "length ps = Suc (count_literal pat (drop (length pat) h))"
        "drop (length pat) h = join_with pat ps" "replace_literal pat rep (drop (length pat) h) = join_with rep ps" "\<forall>p \<in> set ps. \<not> occurs_in pat p"
        by blast
      have "h = pat @ drop (length pat) h" using match by (metis append_take_drop_id)
      moreover have "\<not> occurs_in pat []" using "1.prems" by (simp add: occurs_in_def)
      moreover have "ps \<noteq> []" using ps(1) by auto
      moreover have "count_literal pat h = Suc (count_literal pat (drop (length pat) h))"
        using c match by (simp add: count_literal.simps [of pat h])
      moreover have "replace_literal pat rep h = rep @ replace_literal pat rep (drop (length pat) h)"
        using c match ne by (simp add: replace_literal.simps [of pat rep h])
      ultimately show ?thesis using ps
        by (intro exI [of _ "[] # ps"]) (simp add: join_with_Cons)
    next
      case no: False
      obtain x h' where h: "h = x # h'" using ne by (cases h) auto
      from "1.IH"(2) [OF c no] "1.prems" h obtain ps where ps: "length ps = Suc (count_literal pat h')"
        "h' = join_with pat ps" "replace_literal pat rep h' = join_with rep ps" "\<forall>p \<in> set ps. \<not> occurs_in pat p" by auto
      obtain q qs where qs: "ps = q # qs" using ps(1) by (cases ps) auto
      have cons: "join_with sep ((x # q) # qs) = x # join_with sep ps" for sep using qs by (cases qs) simp_all
      have "\<not> occurs_in pat (x # q)"
      proof
        assume "occurs_in pat (x # q)"
        with ps(4) qs have tp: "take (length pat) (x # q) = pat" by (simp add: occurs_Cons)
        have "\<exists>r. join_with pat (q # qs) = q @ r" by (cases qs) auto
        then obtain r where "h = (x # q) @ r" using h ps(2) qs by auto
        moreover have "length (take (length pat) (x # q)) = length pat" unfolding tp ..
        then have "length pat \<le> length (x # q)" unfolding length_take by linarith
        ultimately have "take (length pat) h = take (length pat) (x # q)"
          by (simp only: take_append diff_is_0_eq [THEN iffD2] take_0 append_Nil2)
        with tp no show False by simp
      qed
      moreover have "count_literal pat h = count_literal pat (tl h)" using c no by (simp add: count_literal.simps [of pat h])
      moreover have "replace_literal pat rep h = hd h # replace_literal pat rep (tl h)" using no ne by (simp add: replace_literal.simps [of pat rep h])
      ultimately show ?thesis using ps qs h cons by (intro exI [of _ "(x # q) # qs"]) simp
    qed
  qed
qed

lemma replace_once:
  assumes "pat \<noteq> []" "count_literal pat h = 1"
  shows "\<exists>a b. h = a @ pat @ b \<and> replace_literal pat rep h = a @ rep @ b \<and> \<not> occurs_in pat a \<and> \<not> occurs_in pat b"
proof -
  from replace_literal_parts [OF assms(1), of h rep, unfolded assms(2)] obtain ps where ps: "length ps = Suc 1" "h = join_with pat ps"
    "replace_literal pat rep h = join_with rep ps" "\<forall>p \<in> set ps. \<not> occurs_in pat p" by blast
  then obtain a b where "ps = [a, b]" by (auto simp: length_Suc_conv)
  with ps show ?thesis by auto
qed

section \<open>Properties\<close>

text \<open>What a command that writes has done.\<close>

lemma write_result:
  assumes "write_atomic d pid p data expected = (ok, d')" "d_loc d (tmp_path pid p) \<noteq> d_loc d p"
  shows "(ok \<longrightarrow> d_files d' (d_loc d p) = Some data) \<and>
    (\<forall>l. l \<noteq> d_loc d (tmp_path pid p) \<longrightarrow> (\<not> ok \<or> l \<noteq> d_loc d p) \<longrightarrow> d_files d' l = d_files d l)"
  using write_atomic_cases [OF assms] assms(2) by (cases ok) auto

lemma open_text_Inr:
  "open_text d p expected = Inr (raw, lftext, crlf) \<Longrightarrow>
     content d p = Some raw \<and> normalize_lf (text_of raw) = (lftext, crlf) \<and> (\<forall>v. expected = Some v \<longrightarrow> v = astd_version raw)"
  by (auto simp: open_text_def read_raw_content split: option.splits if_splits prod.splits)

text \<open>
  A literal replacement without the flag for all replaces the one place where the text stands: the file had the text at one
  place, and not before it nor after it, and has the new text there now, in its own line endings; its version was the
  expected one. When the command fails, the file is untouched; no other file is touched but the temporary one.
\<close>

theorem replace_one_place:
  assumes "cmd_replace pid (Some p) (Some pat) rep False False expected d = (r, d')" "d_loc d (tmp_path pid p) \<noteq> d_loc d p"
  shows "(case r of Inl e \<Rightarrow> d_files d' (d_loc d p) = d_files d (d_loc d p)
      | Inr (count, sz, written) \<Rightarrow> \<exists>raw crlf a b. count = 1 \<and> content d p = Some raw \<and>
          normalize_lf (text_of raw) = (a @ pat @ b, crlf) \<and> \<not> occurs_in pat a \<and> \<not> occurs_in pat b \<and>
          d_files d' (d_loc d p) = Some (bytes_of (denorm (a @ rep @ b) crlf)) \<and>
          (\<forall>v. expected = Some v \<longrightarrow> v = astd_version raw)) \<and>
    (\<forall>l. l \<noteq> d_loc d p \<longrightarrow> l \<noteq> d_loc d (tmp_path pid p) \<longrightarrow> d_files d' l = d_files d l)"
proof (cases "pat = [] \<or> (\<exists>e. open_text d p expected = Inl e)")
  case True
  have "\<exists>e. r = Inl e \<and> d' = d"
  proof (cases "pat = []")
    case False
    with True obtain e where "open_text d p expected = Inl e" by blast
    with assms(1) False have "(Inl e, d) = (r, d')" by (simp add: cmd_replace_def)
    then show ?thesis by auto
  next
    case True
    with assms(1) have "(Inl ''astools/invalid-args'', d) = (r, d')" by (simp add: cmd_replace_def)
    then show ?thesis by auto
  qed
  then show ?thesis by auto
next
  case False
  then obtain raw lftext crlf where o: "open_text d p expected = Inr (raw, lftext, crlf)" and pat: "pat \<noteq> []"
    by (cases "open_text d p expected") auto
  note ot = open_text_Inr [OF o]
  let ?data = "bytes_of (denorm (replace_literal pat rep lftext) crlf)"
  show ?thesis
  proof (cases "count_literal pat lftext = 1")
    case no: False
    then show ?thesis using assms(1) o pat by (auto simp: cmd_replace_def split: if_splits)
  next
    case one: True
    obtain ok d2 where w: "write_atomic d pid p ?data (Some (astd_version raw)) = (ok, d2)"
      by (cases "write_atomic d pid p ?data (Some (astd_version raw))")
    with assms(1) o pat one have r: "d' = d2" "r = (if ok then Inr (1, length ?data, Some p) else Inl ''edit/io'')"
      by (auto simp: cmd_replace_def Let_def)
    from replace_once [OF pat one, of rep] obtain a b where ab: "lftext = a @ pat @ b" "replace_literal pat rep lftext = a @ rep @ b"
      "\<not> occurs_in pat a" "\<not> occurs_in pat b" by blast
    show ?thesis
    proof (cases ok)
      case True
      with write_result [OF w assms(2)] r ab ot show ?thesis by auto
    next
      case False
      with write_result [OF w assms(2)] r assms(2) show ?thesis by auto
    qed
  qed
qed

lemma replace_sample:
  "\<exists>r d'. cmd_replace 7 (Some ''/w/a'') (Some ''x'') ''long'' False False None (edit_disk False) = (Inr r, d')"
proof -
  have o: "open_text (edit_disk False) ''/w/a'' None = Inr (bytes_of (''x'' @ [nl]), ''x'' @ [nl], False)"
  proof -
    have "read_raw (edit_disk False) ''/w/a'' = Some (bytes_of (''x'' @ [nl]))"
      by (simp add: read_raw_def fopen_rb_def edit_disk_def)
    moreover have "normalize_lf (''x'' @ [nl]) = (''x'' @ [nl], False)" "\<not> astd_looks_binary_text (''x'' @ [nl])" by code_simp+
    ultimately show ?thesis by (simp only: open_text_def option.case text_of_bytes_of prod.case if_False simp_thms)
  qed
  have c: "count_literal ''x'' (''x'' @ [nl]) = 1" by code_simp
  have "d_files (edit_disk False) (d_loc (edit_disk False) (tmp_path 7 ''/w/a'')) = None" by (simp add: edit_facts) (simp add: edit_disk_def)
  then have "fst (write_atomic (edit_disk False) 7 ''/w/a'' data (Some (astd_version (bytes_of (''x'' @ [nl])))))" for data
    by (intro write_atomic_ok edit_facts) (simp_all add: edit_facts)
  then have "\<exists>d2. write_atomic (edit_disk False) 7 ''/w/a'' data (Some (astd_version (bytes_of (''x'' @ [nl])))) = (True, d2)" for data
    by (metis prod.collapse)
  then obtain d2 where "write_atomic (edit_disk False) 7 ''/w/a'' (bytes_of (denorm (replace_literal ''x'' ''long'' (''x'' @ [nl])) False))
      (Some (astd_version (bytes_of (''x'' @ [nl])))) = (True, d2)" by blast
  with o c show ?thesis by (simp add: cmd_replace_def Let_def)
qed

theorem replace_one_place_witness:
  "\<exists>r d'. cmd_replace 7 (Some ''/w/a'') (Some ''x'') ''long'' False False None (edit_disk False) = (Inr r, d') \<and>
     d_files d' ''/w/a'' = Some (bytes_of (''long'' @ [nl])) \<and> d_files d' ''/w/b'' = Some (bytes_of (''y'' @ [nl]))"
proof -
  obtain r d' where run: "cmd_replace 7 (Some ''/w/a'') (Some ''x'') ''long'' False False None (edit_disk False) = (Inr r, d')"
    using replace_sample by blast
  have ne: "d_loc (edit_disk False) (tmp_path 7 ''/w/a'') \<noteq> d_loc (edit_disk False) ''/w/a''" by (simp add: edit_facts)
  from replace_one_place [OF run ne] obtain raw crlf a b where c: "content (edit_disk False) ''/w/a'' = Some raw"
    "normalize_lf (text_of raw) = (a @ ''x'' @ b, crlf)" "d_files d' (d_loc (edit_disk False) ''/w/a'') = Some (bytes_of (denorm (a @ ''long'' @ b) crlf))"
    "\<forall>l. l \<noteq> d_loc (edit_disk False) ''/w/a'' \<longrightarrow> l \<noteq> d_loc (edit_disk False) (tmp_path 7 ''/w/a'') \<longrightarrow> d_files d' l = d_files (edit_disk False) l"
    by (auto split: prod.splits)
  have "raw = bytes_of (''x'' @ [nl])" using c(1) by (simp add: content_fields edit_disk_def)
  moreover have "normalize_lf (''x'' @ [nl]) = (''x'' @ [nl], False)" by code_simp
  ultimately have "''x'' @ [nl] = a @ ''x'' @ b" "\<not> crlf" using c(2) by (simp_all only: text_of_bytes_of prod.inject) simp
  then have "a = []" "b = [nl]" "\<not> crlf" by (cases a; auto simp: Cons_eq_append_conv)+
  with c(3,4) have "d_files d' ''/w/a'' = Some (bytes_of (''long'' @ [nl])) \<and> d_files d' ''/w/b'' = Some (bytes_of (''y'' @ [nl]))"
    by (simp add: edit_facts denorm_def) (simp add: edit_disk_def)
  with run show ?thesis by blast
qed

section \<open>Line endings\<close>

fun all_crlf :: "bool \<Rightarrow> string \<Rightarrow> bool" where
  "all_crlf b [] = True"
| "all_crlf b (c # s) = ((c = nl \<longrightarrow> b) \<and> all_crlf (c = cr) s)"

lemma drop_cr_crlf: "all_crlf b s \<Longrightarrow> denorm (drop_cr s) True = (if s \<noteq> [] \<and> cur s = nl then cr # s else s)"
proof (induction s arbitrary: b rule: drop_cr.induct)
  case (3 c d s)
  show ?case
  proof (cases "c = cr \<and> d = nl")
    case True
    with "3.IH"(1) [OF True, of True] "3.prems" show ?thesis by simp
  next
    case False
    with "3.prems" have d: "d \<noteq> nl" by auto
    with "3.IH"(2) [OF False, of "c = cr"] "3.prems" False show ?thesis by (simp add: denorm_def)
  qed
qed (simp_all add: denorm_def)

lemma drop_cr_lf: "\<not> occurs_in [cr, nl] s \<Longrightarrow> drop_cr s = s"
proof (induction s rule: drop_cr.induct)
  case (3 c d s)
  then have "\<not> (c = cr \<and> d = nl)" "\<not> occurs_in [cr, nl] (d # s)" by (auto simp: occurs_Cons [of _ c])
  with "3.IH"(2) show ?case by auto
qed simp_all

lemma count_crlf: "all_crlf b s \<Longrightarrow> snd (count_endings b s) = 0 \<and> (fst (count_endings b s) = 0 \<longleftrightarrow> nl \<notin> set s)"
proof (induction s arbitrary: b)
  case (Cons a s)
  obtain x l where e: "count_endings (a = cr) s = (x, l)" by (cases "count_endings (a = cr) s")
  have "all_crlf (a = cr) s" "a = nl \<longrightarrow> b" using Cons.prems by auto
  with Cons.IH [OF this(1)] e show ?case by auto
qed simp

lemma count_lf: "\<not> occurs_in [cr, nl] s \<Longrightarrow> fst (count_endings False s) = 0"
proof (induction s)
  case (Cons c s)
  then have s: "\<not> occurs_in [cr, nl] s" by (simp add: occurs_Cons [of _ c])
  show ?case
  proof (cases "c = cr")
    case False
    with Cons.IH [OF s] show ?thesis by (auto split: prod.splits)
  next
    case True
    then have "cur s \<noteq> nl \<or> s = []" using Cons.prems by (cases s) (auto simp: occurs_Cons)
    then have "fst (count_endings True s) = fst (count_endings False s)" by (cases s) (auto split: prod.splits)
    with True Cons.IH [OF s] show ?thesis by (auto split: prod.splits)
  qed
qed simp

text \<open>
  Editing keeps the line endings: a file whose lines all end in CRLF, or in which no line does, is the same after it has been
  normalised and written back, and the normalised text of the first kind has no CRLF left.
\<close>

theorem line_endings_kept:
  assumes "all_crlf False raw \<or> \<not> occurs_in [cr, nl] raw"
  shows "case_prod denorm (normalize_lf raw) = raw"
  using assms
proof
  assume c: "all_crlf False raw"
  have none: "nl \<notin> set s \<Longrightarrow> drop_cr s = s" for s by (induction s rule: drop_cr.induct) auto
  have "\<not> (raw \<noteq> [] \<and> cur raw = nl)" using c by (cases raw) auto
  with drop_cr_crlf [OF c] count_crlf [OF c] none [of raw] show ?thesis
    by (auto simp: normalize_lf_def denorm_def split: prod.splits)
next
  assume "\<not> occurs_in [cr, nl] raw"
  with drop_cr_lf [of raw] count_lf [of raw] show ?thesis by (auto simp: normalize_lf_def denorm_def split: prod.splits)
qed

theorem line_endings_kept_witness:
  "case_prod denorm (normalize_lf (''a'' @ cr # nl # ''b'' @ [cr, nl])) = ''a'' @ cr # nl # ''b'' @ [cr, nl]"
  by (rule line_endings_kept) simp

end
