(* ===== verification/Spec2Isabelle.thy ===== *)
theory Spec2Isabelle
  imports As_Util As_Base64 As_Utf8 As_Duration As_Calendar As_Time As_Uuid As_Semver As_Sha256 As_Dups
    As_Xcdn As_Types As_Check As_TypeParse As_Path As_Policy As_Selection As_Callline
    As_Json As_JsonText As_Pool As_Queue As_Frame As_RegexSearch
    As_McpSchema As_ManifestRender As_Registry As_Refs
    As_Proto As_Sdk As_Glob As_Patch As_Edit As_Replace
begin

text \<open>
  Asterism astools: a verification development of the library's core.

  \<^bold>\<open>The program.\<close> astools is a local registry of tools for language models. A tool is a directory with an xCDN
  manifest; the library scans its roots, judges each package (platform, trust, lockfile, manifest), publishes a
  table, resolves the references a model uses, checks and completes the arguments of a call against the types of the
  manifest, intersects the permissions the manifest requests with those the host grants, and exchanges messages with
  the tool's process. The standard tools are separate programs on a small kit that speaks the same protocol.

  \<^bold>\<open>Theories and the code they model\<close> (paths are relative to the repository).

  Foundations. \<open>As_Prelude\<close>: error codes, results as \<open>astools_err + 'a\<close>, C strings, decimal digits, and the
  interfaces \<open>codec\<close>, \<open>canonical_codec\<close> and \<open>comparator\<close>. \<open>As_Trans\<close>: the interface \<open>inv_system\<close> of state machines.
  \<open>As_Strcmp\<close>: the order of C strings. \<open>As_Util\<close>: \<^verbatim>\<open>src/util.c\<close> (growable buffer, slugs, hash). \<open>As_Base64\<close>: the codec of the same file.
  \<open>As_Utf8\<close>: \<^verbatim>\<open>src/utf8.c\<close>. \<open>As_Duration\<close>: \<^verbatim>\<open>src/duration.c\<close>. \<open>As_Calendar\<close>, \<open>As_Time\<close>: \<^verbatim>\<open>src/time.c\<close>. \<open>As_Uuid\<close>: \<^verbatim>\<open>src/uuid.c\<close>.
  \<open>As_Semver\<close>: \<^verbatim>\<open>src/semver.c\<close>. \<open>As_Sha256\<close>: \<^verbatim>\<open>src/sha256.c\<close>.

  Documents. \<open>As_Xcdn\<close>: the nodes of the xCDN library, whose functions are parameters, and the deep copy. \<open>As_Double\<close>:
  the decimal conversions of the C library in exact arithmetic. \<open>As_Json\<close>, \<open>As_JsonText\<close>: \<^verbatim>\<open>src/json.c\<close> and its round trip.
  \<open>As_McpSchema\<close>: \<^verbatim>\<open>src/mcp_schema_profile.c\<close>, \<^verbatim>\<open>src/mcp_schema_validate.c\<close>.

  Types and manifests. \<open>As_Dups\<close>, \<open>As_Types\<close>, \<open>As_Check\<close>, \<open>As_TypeParse\<close>: \<^verbatim>\<open>src/types.c\<close> - duplicate search, the strict check with the
  relation \<open>admits\<close> it decides, argument validation, the reader of types. \<open>As_Manifest\<close>, \<open>As_TypeRender\<close>, \<open>As_ManifestRender\<close>:
  \<^verbatim>\<open>src/manifest.c\<close> with the closed contracts of \<^verbatim>\<open>src/mcp_contract.c\<close> and \<^verbatim>\<open>src/lsp_manifest.c\<close>.

  Decisions of the host. \<open>As_Path\<close>: \<^verbatim>\<open>src/path.c\<close>. \<open>As_Policy\<close>: \<^verbatim>\<open>src/policy.c\<close>. \<open>As_Selection\<close>: \<^verbatim>\<open>src/selection.c\<close>.
  \<open>As_Config\<close>: \<^verbatim>\<open>src/config.c\<close>. \<open>As_Disk\<close>: whole files (\<^verbatim>\<open>src/os_common.c\<close>, \<^verbatim>\<open>src/os_posix.c\<close>, \<^verbatim>\<open>src/hash_file.c\<close>) on a state that says which
  operation fails and where. \<open>As_Lockfile\<close>: \<^verbatim>\<open>src/lockfile.c\<close>. \<open>As_Registry\<close>, \<open>As_Refs\<close>: \<^verbatim>\<open>src/registry.c\<close> and the switches and approvals of
  \<^verbatim>\<open>src/api.c\<close>. \<open>As_Callline\<close>: \<^verbatim>\<open>src/callline.c\<close>.

  Processes. \<open>As_Pool\<close>: \<^verbatim>\<open>src/process_pool.c\<close> and the supervision of \<^verbatim>\<open>src/worker.c\<close>. \<open>As_Queue\<close>: \<^verbatim>\<open>src/execution_queue.c\<close>. \<open>As_Frame\<close>:
  \<^verbatim>\<open>src/process_frame.c\<close>, \<^verbatim>\<open>src/process_io.c\<close>. \<open>As_Proto\<close>: \<^verbatim>\<open>src/proto.c\<close>.

  Standard tools. \<open>As_Sdk\<close>, \<open>As_Glob\<close>: \<^verbatim>\<open>std/sdk.c\<close>, \<^verbatim>\<open>std/main.c\<close>. \<open>As_Regex\<close>, \<open>As_RegexProg\<close>, \<open>As_RegexSearch\<close>: \<^verbatim>\<open>std/regex.c\<close>. \<open>As_Patch\<close>,
  \<open>As_Edit\<close>, \<open>As_Replace\<close>: \<^verbatim>\<open>std/tool_edit.c\<close>, \<^verbatim>\<open>std/version.c\<close>.

  \<^bold>\<open>How the code is translated.\<close> A C structure is a record with the fields the code reads, an enumeration a datatype or its
  numbers, a string a list of characters without its final NUL, a byte an 8-bit word. Integers are words where the code relies
  on their width (hashes, base64, casts) and \<open>int\<close> or \<open>nat\<close> where its own checks keep them in range; those checks are part of the
  definitions. A function that returns an error code returns a sum; an operation on shared state takes and returns the
  state. What threads do under a lock is one step of a relation, and the theorems on the pool, the slots and the references
  hold of every reachable state of any number of threads.

  \<^bold>\<open>What the lemmas show.\<close> Codecs: exact acceptance against a grammar and round trips (durations, versions, times, base64, UTF-8,
  JSON, frames, protocol messages, manifests and their types). Checkers: equivalence with a relation stated without
  their loops (types, JSON schemas, duplicates, regular expressions against the language of the tree, globs). Host decisions:
  the effective policy is the intersection, a call that passes the pre-flight names only granted canonical
  paths, a package that checks as OK has the approved bytes, a reference resolves only to a usable tool. State machines:
  exclusive use of a process, bounds, no lost wait, exact destruction of descriptors. Files: replacing a lockfile and patching
  a set of files happen as a whole or not at all. Where an expected law fails, the condition is a
  hypothesis and the failure a lemma of its own: \<open>fractional_bound_weakened\<close>, \<open>late_stamp_unreadable\<close>, \<open>switch_lost\<close>,
  \<open>approve_misses_pin\<close>, \<open>counts_not_exact\<close>.

  \<^bold>\<open>Bounds and termination.\<close> Every loop is a total function with a measure, or a recursion on its input; none takes fuel in place of
  termination, except where the code itself counts: the depth limits of JSON (\<open>JX_MAX_DEPTH\<close>), of types (\<open>TYPE_DEPTH_MAX\<close>), of copies
  (\<open>CLONE_DEPTH_MAX\<close>), of the policy walk (\<open>POLICY_MAX_DEPTH\<close>), the node and depth budgets of schema validation and the limits of the regular
  expression compiler. The read and write loops run over the answers of the operating system, one turn for each.

  \<^bold>\<open>What is a parameter.\<close> The xCDN library (its reader, printer and lookups, assumed to return well-formed nodes and, for round trips,
  to read back what it prints), the kernel's \<open>realpath\<close>, directory listings, clocks, random bytes, and the faults of the disk.

  \<^bold>\<open>What is not modelled.\<close> The texts of error messages and log lines; most allocation failures (the definitions that keep one take
  it as a flag); file modes; the Windows branches; starting, sandboxing and reaping of processes; the live
  connections to MCP and LSP servers and the discovery of their tools; the texts of catalogues, grammars and JSON schemas; the
  standard tools other than edit; the command-line programs. The rest of an invocation is the composition of modelled
  parts with process start and is not modelled as a whole.
\<close>

end
